(* ===== verification/Prelude.thy ===== *)
theory Prelude
  imports Main "HOL-Library.Word"
begin

text \<open>
  Shared vocabulary of the development.

  Every C and C++ function of the repository that can fail is modelled by a function into
  \<open>'a result\<close>: \<open>Inr x\<close> is a normal return, \<open>Inl e\<close> names the exception that is thrown or the
  undefined behaviour the code runs into.  The theory also holds C strings (the bytes in front
  of the first NUL), the functions of \<^verbatim>\<open>string.h\<close>, \<^verbatim>\<open>ctype.h\<close> and \<^verbatim>\<open>stdlib.h\<close> that the sources
  call, and the facts on lists that several components share.
\<close>

section \<open>Results\<close>

datatype cpp_error =
    Out_Of_Range            \<comment> \<open>\<^verbatim>\<open>std::out_of_range\<close> is thrown\<close>
  | Logic_Error             \<comment> \<open>\<^verbatim>\<open>std::logic_error\<close> is thrown\<close>
  | Null_Deref              \<comment> \<open>a null pointer is dereferenced\<close>
  | Dangling                \<comment> \<open>memory that is not allocated is read, written or freed\<close>
  | Out_Of_Bounds           \<comment> \<open>an array is accessed outside its bounds\<close>
  | Buffer_Overflow         \<comment> \<open>a string function writes past the end of its buffer\<close>
  | Uninitialised           \<comment> \<open>an indeterminate value is used\<close>
  | Signed_Overflow         \<comment> \<open>the result of an operation on \<^verbatim>\<open>int\<close> does not fit\<close>
  | Bad_Alloc               \<comment> \<open>\<^verbatim>\<open>std::bad_alloc\<close> is thrown\<close>
  | Exit_With string        \<comment> \<open>the process ends after reporting the failing call\<close>

type_synonym 'a result = "cpp_error + 'a"

definition rbind :: "'a result \<Rightarrow> ('a \<Rightarrow> 'b result) \<Rightarrow> 'b result" where
  "rbind r f = (case r of Inl e \<Rightarrow> Inl e | Inr x \<Rightarrow> f x)"

definition is_ok :: "'a result \<Rightarrow> bool" where
  "is_ok r = (case r of Inl _ \<Rightarrow> False | Inr _ \<Rightarrow> True)"

named_theorems result_simps \<open>rules that compute with results\<close>
named_theorems list_simps \<open>facts on lists used as memory\<close>

lemma rbind_Inr [simp, result_simps]: "rbind (Inr x) f = f x"
  by (simp add: rbind_def)

lemma rbind_Inl [simp, result_simps]: "rbind (Inl e) f = Inl e"
  by (simp add: rbind_def)

lemma rbind_eq_Inr: "rbind r f = Inr y \<longleftrightarrow> (\<exists>x. r = Inr x \<and> f x = Inr y)"
  by (cases r) auto

lemma rbind_eq_Inl: "rbind r f = Inl e \<longleftrightarrow> r = Inl e \<or> (\<exists>x. r = Inr x \<and> f x = Inl e)"
  by (cases r) auto

lemma rbind_split:
  "P (rbind r f) \<longleftrightarrow> (\<forall>e. r = Inl e \<longrightarrow> P (Inl e)) \<and> (\<forall>x. r = Inr x \<longrightarrow> P (f x))"
  by (cases r) auto

lemma is_ok_simps [simp, result_simps]: "is_ok (Inr x)" "\<not> is_ok (Inl e)"
  by (simp_all add: is_ok_def)

section \<open>Lists as memory\<close>

lemma update_at_prefix [list_simps]:
  "(xs @ y # ys)[length xs := z] = xs @ z # ys"
  by (induction xs) auto

lemma update_split [list_simps]:
  "i < length xs \<Longrightarrow> xs[i := v] = take i xs @ v # drop (Suc i) xs"
  by (rule upd_conv_take_nth_drop)

lemma nth_prefix [list_simps]: "(xs @ y # ys) ! length xs = y"
  by (induction xs) auto

lemma take_Suc_update [list_simps]:
  "i < length xs \<Longrightarrow> take (Suc i) (xs[i := v]) = take i xs @ [v]"
  by (simp add: take_Suc_conv_app_nth)

lemma drop_update_less [list_simps]: "i < j \<Longrightarrow> drop j (xs[i := v]) = drop j xs"
  by simp

section \<open>C strings\<close>

abbreviation NUL :: char where "NUL \<equiv> CHR 0x00"
abbreviation LF :: char where "LF \<equiv> CHR 0x0A"
abbreviation CR :: char where "CR \<equiv> CHR 0x0D"
abbreviation crlf :: string where "crlf \<equiv> [CR, LF]"

definition cstr :: "string \<Rightarrow> string" where
  "cstr buf = takeWhile (\<lambda>c. c \<noteq> NUL) buf"

definition no_nul :: "string \<Rightarrow> bool" where
  "no_nul s \<longleftrightarrow> NUL \<notin> set s"

lemma cstr_code [simp]:
  "cstr [] = []" "cstr (c # s) = (if c = NUL then [] else c # cstr s)"
  by (simp_all add: cstr_def)

lemma no_nul_simps [simp]:
  "no_nul []" "no_nul (c # s) \<longleftrightarrow> c \<noteq> NUL \<and> no_nul s" "no_nul (s @ t) \<longleftrightarrow> no_nul s \<and> no_nul t"
  by (auto simp: no_nul_def)

lemma no_nul_cstr [simp]: "no_nul (cstr s)"
  by (induction s) auto

lemma cstr_no_nul [simp]: "no_nul s \<Longrightarrow> cstr s = s"
  by (induction s) auto

lemma cstr_append_nul [simp]: "cstr (s @ NUL # t) = cstr s"
  by (induction s) auto

lemma cstr_zeros [simp]: "cstr (x @ replicate k NUL) = cstr x"
  by (induction x) (cases k; simp)+

lemma length_cstr_le: "length (cstr s) \<le> length s"
  by (simp add: cstr_def length_takeWhile_le)

lemma set_cstr_subset: "set (cstr s) \<subseteq> set s"
  by (auto simp: cstr_def dest: set_takeWhileD)

section \<open>\<^verbatim>\<open>ctype.h\<close> and \<^verbatim>\<open>string.h\<close> in the C locale\<close>

definition isspace :: "char \<Rightarrow> bool" where
  "isspace c \<longleftrightarrow> c \<in> {CHR '' '', CHR 0x09, CHR 0x0A, CHR 0x0B, CHR 0x0C, CHR 0x0D}"

definition ccode :: "char \<Rightarrow> nat" where
  "ccode c = of_char c"

definition isdigit :: "char \<Rightarrow> bool" where
  "isdigit c \<longleftrightarrow> 48 \<le> ccode c \<and> ccode c \<le> 57"

definition isupper :: "char \<Rightarrow> bool" where
  "isupper c \<longleftrightarrow> 65 \<le> ccode c \<and> ccode c \<le> 90"

definition islower :: "char \<Rightarrow> bool" where
  "islower c \<longleftrightarrow> 97 \<le> ccode c \<and> ccode c \<le> 122"

definition isxdigit :: "char \<Rightarrow> bool" where
  "isxdigit c \<longleftrightarrow> isdigit c \<or> 65 \<le> ccode c \<and> ccode c \<le> 70 \<or> 97 \<le> ccode c \<and> ccode c \<le> 102"

definition tolower :: "char \<Rightarrow> char" where
  "tolower c = (if isupper c then char_of (ccode c + 32) else c)"

definition toupper :: "char \<Rightarrow> char" where
  "toupper c = (if islower c then char_of (ccode c - 32) else c)"

definition strcaseeq :: "string \<Rightarrow> string \<Rightarrow> bool" where
  \<comment> \<open>\<^verbatim>\<open>strcasecmp(a, b) == 0\<close> on two buffers\<close>
  "strcaseeq a b \<longleftrightarrow> map tolower (cstr a) = map tolower (cstr b)"

lemma ccode_char_of [simp]: "n < 256 \<Longrightarrow> ccode (char_of n) = n"
  by (simp add: ccode_def)

lemma ccode_less: "ccode c < 256"
  by (simp add: ccode_def)

lemma strcaseeq_length: "strcaseeq a b \<Longrightarrow> length (cstr a) = length (cstr b)"
  unfolding strcaseeq_def by (metis length_map)

section \<open>\<^verbatim>\<open>atoi\<close>\<close>

fun digits_value :: "int \<Rightarrow> string \<Rightarrow> int" where
  "digits_value acc [] = acc"
| "digits_value acc (c # s) =
     (if isdigit c then digits_value (10 * acc + int (ccode c - 48)) s else acc)"

definition clamp64 :: "int \<Rightarrow> int" where
  "clamp64 v = max (- (2 ^ 63)) (min (2 ^ 63 - 1) v)"

definition to_int32 :: "int \<Rightarrow> int" where
  "to_int32 v = signed_take_bit 31 v"

definition atoi :: "string \<Rightarrow> int" where
  \<comment> \<open>the value \<^verbatim>\<open>strtol\<close> saturates to 64 bits, converted to a 32-bit \<^verbatim>\<open>int\<close>\<close>
  "atoi buf = (let s = dropWhile isspace (cstr buf) in
     to_int32 (clamp64 (case s of
         [] \<Rightarrow> 0
       | c # r \<Rightarrow> (if c = CHR ''-'' then - digits_value 0 r
                   else if c = CHR ''+'' then digits_value 0 r
                   else digits_value 0 s))))"

lemma atoi_bounds: "- (2 ^ 31) \<le> atoi s \<and> atoi s < 2 ^ 31"
  using signed_take_bit_int_greater_eq_minus_exp [of 31] signed_take_bit_int_less_exp [of 31]
  by (simp add: atoi_def to_int32_def Let_def)

section \<open>Decimal printing\<close>

fun nat_digits :: "nat \<Rightarrow> string" where
  "nat_digits n = (if n < 10 then [char_of (48 + n)]
                   else nat_digits (n div 10) @ [char_of (48 + n mod 10)])"

declare nat_digits.simps [simp del]

definition show_int :: "int \<Rightarrow> string" where
  "show_int i = (if i < 0 then CHR ''-'' # nat_digits (nat (- i)) else nat_digits (nat i))"

lemma nat_digits_isdigit: "c \<in> set (nat_digits n) \<Longrightarrow> isdigit c"
proof (induction n rule: nat_digits.induct)
  case (1 n)
  have d: "isdigit (char_of (48 + k))" if "k < 10" for k :: nat
    using that by (simp add: isdigit_def)
  show ?case
    using 1 d [of n] d [of "n mod 10"]
    by (cases "n < 10") (auto simp: nat_digits.simps [of n])
qed

lemma length_nat_digits: "n < 10 ^ Suc k \<Longrightarrow> length (nat_digits n) \<le> Suc k"
proof (induction k arbitrary: n)
  case 0
  then show ?case by (simp add: nat_digits.simps)
next
  case (Suc k)
  have "n div 10 < 10 ^ Suc k"
    using Suc.prems by (simp add: less_mult_imp_div_less mult.commute)
  then have "length (nat_digits (n div 10)) \<le> Suc k" by (rule Suc.IH)
  then show ?case by (simp add: nat_digits.simps [of n])
qed

lemma digits_value_append:
  "(\<And>c. c \<in> set s \<Longrightarrow> isdigit c) \<Longrightarrow> digits_value a (s @ t) = digits_value (digits_value a s) t"
  by (induction s arbitrary: a) auto

lemma digits_value_nat_digits: "digits_value 0 (nat_digits n) = int n"
proof (induction n rule: nat_digits.induct)
  case (1 n)
  have d: "isdigit (char_of (48 + k))" if "k < 10" for k :: nat
    using that by (simp add: isdigit_def)
  show ?case
  proof (cases "n < 10")
    case True
    then show ?thesis using d [of n] by (simp add: nat_digits.simps [of n])
  next
    case False
    have "digits_value 0 (nat_digits n)
        = digits_value (digits_value 0 (nat_digits (n div 10))) [char_of (48 + n mod 10)]"
      using False
      by (simp add: nat_digits.simps [of n] digits_value_append nat_digits_isdigit del: digits_value.simps)
    also have "\<dots> = digits_value (int (n div 10)) [char_of (48 + n mod 10)]"
      using 1 False by simp
    also have "\<dots> = int n"
      using d [of "n mod 10"] by (simp add: zdiv_int zmod_int)
    finally show ?thesis .
  qed
qed


section \<open>Growing a capacity by doubling\<close>

text \<open>The loop with which the containers and the stream of the repository enlarge their capacity:
  \<^verbatim>\<open>while(cap < n){ if(cap == 0) cap = 1; else cap *= 2; }\<close>\<close>

function doubling :: "nat \<Rightarrow> nat \<Rightarrow> nat" where
  "doubling cap n = (if cap < n then doubling (if cap = 0 then 1 else 2 * cap) n else cap)"
  by pat_completeness auto
termination
  by (relation "measure (\<lambda>(cap, n). n - cap)") auto

declare doubling.simps [simp del]

lemma doubling_bounds:
  "n \<le> doubling cap n \<and> cap \<le> doubling cap n \<and> doubling cap n \<le> max cap (2 * n)"
proof (induction cap n rule: doubling.induct)
  case (1 cap n)
  show ?case
  proof (cases "cap < n")
    case True
    with 1 show ?thesis by (auto simp: doubling.simps [of cap n] split: if_splits)
  next
    case False
    then show ?thesis by (simp add: doubling.simps [of cap n])
  qed
qed

lemma doubling_enough [simp]: "n \<le> cap \<Longrightarrow> doubling cap n = cap"
  by (simp add: doubling.simps)

lemma doubling_ge: "n \<le> doubling cap n" "cap \<le> doubling cap n"
  using doubling_bounds [of n cap] by simp_all


section \<open>The range of int\<close>

definition INT_MAX :: int where
  "INT_MAX = 2 ^ 31 - 1"

section \<open>Counting the threads at a point of their program\<close>

definition cnt :: "('b \<Rightarrow> bool) \<Rightarrow> 'b list \<Rightarrow> nat" where
  "cnt P ps = length (filter P ps)"

lemma cnt_simps [simp]:
  "cnt P [] = 0" "cnt P (x # xs) = (if P x then 1 else 0) + cnt P xs"
  "cnt P (xs @ ys) = cnt P xs + cnt P ys" "cnt P (replicate n x) = (if P x then n else 0)"
  by (auto simp: cnt_def)

lemma cnt_pos: "i < length ps \<Longrightarrow> P (ps ! i) \<Longrightarrow> 0 < cnt P ps"
  unfolding cnt_def by (metis length_pos_if_in_set mem_Collect_eq nth_mem set_filter)

lemma cnt_update:
  "i < length ps \<Longrightarrow>
   cnt P (ps[i := x]) = cnt P ps + (if P x then 1 else 0) - (if P (ps ! i) then 1 else 0)"
proof (induction ps arbitrary: i)
  case (Cons q ps)
  show ?case
  proof (cases i)
    case (Suc k)
    then show ?thesis using Cons cnt_pos [of k ps P] by (cases "P (ps ! k)") auto
  qed auto
qed simp

lemma cnt_swap:
  "i < length ps \<Longrightarrow> cnt P (ps[i := q]) + (if P (ps ! i) then 1 else 0) = cnt P ps + (if P q then 1 else 0)"
  using cnt_update [of i ps P q] cnt_pos [of i ps P] by auto

lemma cnt_cong: "length qs = length ps \<Longrightarrow> (\<And>k. k < length ps \<Longrightarrow> P (qs ! k) = P (ps ! k)) \<Longrightarrow> cnt P qs = cnt P ps"
proof -
  assume a: "length qs = length ps" "\<And>k. k < length ps \<Longrightarrow> P (qs ! k) = P (ps ! k)"
  then have "map P qs = map P ps" by (intro nth_equalityI) auto
  moreover have "cnt P xs = length (filter id (map P xs))" for xs by (simp add: cnt_def filter_map comp_def)
  ultimately show ?thesis by metis
qed

end
