(* ===== verification/StdContainers.thy ===== *)
theory StdContainers
  imports Prelude "HOL-Library.Multiset"
begin

text \<open>
  The associative containers of the C++ standard library that the sources use.  \<^verbatim>\<open>std::map\<close> is
  the list of its entries in the order of iteration, that is with strictly increasing keys;
  \<^verbatim>\<open>std::set\<close> is the list of its elements in the same order.  The contract of a map is the locale
  \<open>std_map\<close>, and \<open>omap\<close> is its interpretation on these lists.
\<close>

section \<open>Maps\<close>

locale std_map =
  fixes get :: "'m \<Rightarrow> 'k \<Rightarrow> 'v option"
    and put :: "'k \<Rightarrow> 'v \<Rightarrow> 'm \<Rightarrow> 'm"
    and del :: "'k \<Rightarrow> 'm \<Rightarrow> 'm"
    and ok :: "'m \<Rightarrow> bool"
    and empty :: "'m"
  assumes get_empty: "get empty k = None"
    and ok_empty: "ok empty"
    and get_put: "ok m \<Longrightarrow> get (put k v m) k' = (if k' = k then Some v else get m k')"
    and get_del: "ok m \<Longrightarrow> get (del k m) k' = (if k' = k then None else get m k')"
    and ok_put: "ok m \<Longrightarrow> ok (put k v m)"
    and ok_del: "ok m \<Longrightarrow> ok (del k m)"
    and ext: "ok m \<Longrightarrow> ok m' \<Longrightarrow> (\<And>k. get m k = get m' k) \<Longrightarrow> m = m'"
begin

lemma put_put_same: "ok m \<Longrightarrow> put k v (put k w m) = put k v m"
  by (rule ext) (auto simp: get_put ok_put)

lemma put_commute: "ok m \<Longrightarrow> k \<noteq> k' \<Longrightarrow> put k v (put k' w m) = put k' w (put k v m)"
  by (rule ext) (auto simp: get_put ok_put)

lemma put_idem: "ok m \<Longrightarrow> get m k = Some v \<Longrightarrow> put k v m = m"
  by (rule ext) (auto simp: get_put ok_put)

lemma del_put: "ok m \<Longrightarrow> get m k = None \<Longrightarrow> del k (put k v m) = m"
  by (rule ext) (auto simp: get_put get_del ok_put ok_del)

end

fun omap_put :: "'k::linorder \<Rightarrow> 'v \<Rightarrow> ('k \<times> 'v) list \<Rightarrow> ('k \<times> 'v) list" where
  "omap_put k v [] = [(k, v)]"
| "omap_put k v ((k', v') # m) =
     (if k < k' then (k, v) # (k', v') # m
      else if k = k' then (k, v) # m
      else (k', v') # omap_put k v m)"

fun omap_del :: "'k::linorder \<Rightarrow> ('k \<times> 'v) list \<Rightarrow> ('k \<times> 'v) list" where
  "omap_del k [] = []"
| "omap_del k ((k', v') # m) = (if k = k' then m else (k', v') # omap_del k m)"

definition omap_ok :: "('k::linorder \<times> 'v) list \<Rightarrow> bool" where
  "omap_ok m \<longleftrightarrow> sorted_wrt (<) (map fst m)"

lemma omap_ok_simps [simp]:
  "omap_ok []" "omap_ok (e # m) \<longleftrightarrow> (\<forall>x \<in> set m. fst e < fst x) \<and> omap_ok m"
  by (auto simp: omap_ok_def)

lemma set_omap_put: "set (omap_put k v m) \<subseteq> insert (k, v) (set m)"
  by (induction k v m rule: omap_put.induct) auto

lemma set_omap_del: "set (omap_del k m) \<subseteq> set m"
  by (induction k m rule: omap_del.induct) auto

lemma omap_ok_put: "omap_ok m \<Longrightarrow> omap_ok (omap_put k v m)"
proof (induction k v m rule: omap_put.induct)
  case (2 k v k' v' m)
  then show ?case using set_omap_put [of k v m] by (auto dest: less_trans)
qed simp

lemma omap_ok_del: "omap_ok m \<Longrightarrow> omap_ok (omap_del k m)"
  by (induction k m rule: omap_del.induct) (use set_omap_del in fastforce)+

lemma map_of_above: "\<forall>x \<in> set m. (k::'k::linorder) < fst x \<Longrightarrow> map_of m k = None"
  by (induction m) auto

lemma map_of_omap_put: "map_of (omap_put k v m) k' = (if k' = k then Some v else map_of m k')"
  by (induction k v m rule: omap_put.induct) auto

lemma map_of_omap_del:
  "omap_ok m \<Longrightarrow> map_of (omap_del k m) k' = (if k' = k then None else map_of m k')"
  by (induction k m rule: omap_del.induct) (auto simp: map_of_above)

lemma omap_ext: "omap_ok m \<Longrightarrow> omap_ok m' \<Longrightarrow> map_of m = map_of m' \<Longrightarrow> m = m'"
proof (induction m arbitrary: m')
  case Nil
  then show ?case by (cases m') (auto simp: fun_eq_iff split: if_splits)
next
  case (Cons e m)
  obtain k v where e: "e = (k, v)" by fastforce
  show ?case
  proof (cases m')
    case Nil
    then show ?thesis using Cons.prems(3) e by (auto simp: fun_eq_iff split: if_splits)
  next
    case (Cons e' n)
    obtain k' v' where e': "e' = (k', v')" by fastforce
    have eq: "map_of ((k, v) # m) x = map_of ((k', v') # n) x" for x
      using Cons.prems(3) Cons e e' by (simp add: fun_eq_iff)
    have "k = k'"
    proof (rule ccontr)
      assume ne: "k \<noteq> k'"
      then consider "k < k'" | "k' < k" by fastforce
      then show False
      proof cases
        case 1
        then have "map_of ((k', v') # n) k = None"
          using Cons.prems(2) Cons e' by (intro map_of_above) (auto dest: less_trans)
        with eq [of k] show False by simp
      next
        case 2
        then have "map_of ((k, v) # m) k' = None"
          using Cons.prems(1) e by (intro map_of_above) (auto dest: less_trans)
        with eq [of k'] show False by simp
      qed
    qed
    moreover have "v = v'" using eq [of k] \<open>k = k'\<close> by simp
    moreover have "map_of m = map_of n"
    proof
      fix x
      show "map_of m x = map_of n x"
        using eq [of x] \<open>k = k'\<close> Cons.prems(1,2) Cons e e' map_of_above [of m k] map_of_above [of n k]
        by (auto split: if_splits)
    qed
    ultimately show ?thesis using Cons.IH [of n] Cons.prems(1,2) Cons e e' by simp
  qed
qed

interpretation omap: std_map "map_of" "omap_put" "omap_del" "omap_ok" "[]"
  by unfold_locales
    (auto simp: map_of_omap_put map_of_omap_del omap_ok_put omap_ok_del intro: omap_ext)

lemma omap_put_above: "\<forall>x \<in> set m. fst x < (k::'k::linorder) \<Longrightarrow> omap_put k v m = m @ [(k, v)]"
  by (induction k v m rule: omap_put.induct) auto

section \<open>Sets\<close>

definition oset_ok :: "'a::linorder list \<Rightarrow> bool" where
  "oset_ok xs \<longleftrightarrow> sorted_wrt (<) xs"

lemma oset_ok_simps [simp]:
  "oset_ok []" "oset_ok (x # xs) \<longleftrightarrow> (\<forall>y \<in> set xs. x < y) \<and> oset_ok xs"
  by (auto simp: oset_ok_def)

lemma oset_ok_append: "oset_ok (xs @ ys) \<longleftrightarrow> oset_ok xs \<and> oset_ok ys \<and> (\<forall>x \<in> set xs. \<forall>y \<in> set ys. x < y)"
  by (auto simp: oset_ok_def sorted_wrt_append)

lemma insort_insert_above: "\<forall>y \<in> set xs. y < (x::'a::linorder) \<Longrightarrow> insort_insert x xs = xs @ [x]"
proof (induction xs)
  case (Cons y ys)
  then show ?case by (auto simp: insort_insert_key_def split: if_splits)
qed (simp add: insort_insert_key_def)

lemma fold_insort_insert:
  "oset_ok (acc @ xs) \<Longrightarrow> fold insort_insert xs acc = acc @ (xs::'a::linorder list)"
  by (induction xs arbitrary: acc)
    (auto simp: oset_ok_append insort_insert_above)

end
