(* ===== verification/Httpd.thy ===== *)
theory Httpd
  imports Prelude
begin

text \<open>
  The web server \<^verbatim>\<open>tinyHttp/httpd.c\<close>.

  A connected client is the record \<open>conn\<close>: the bytes it still has to send, the bytes the server
  has sent to it, and whether the server has closed the socket.  \<^verbatim>\<open>recv\<close> returns no byte once
  the client's bytes are used up (the client has shut its side down); \<^verbatim>\<open>send\<close> transfers all it
  is given.  The operating system is the record \<open>os_env\<close>: what \<^verbatim>\<open>stat\<close> and \<^verbatim>\<open>fopen\<close> say about a
  path, whether \<^verbatim>\<open>pipe\<close> and \<^verbatim>\<open>fork\<close> succeed, and what an executed script writes for its
  environment and standard input.  Stack arrays start with arbitrary bytes, which are arguments
  of the functions that declare them.
\<close>

section \<open>State\<close>

record conn =
  inp :: string
  outp :: string
  closed :: bool

record file_stat =
  st_isdir :: bool
  st_xusr :: bool
  st_xgrp :: bool
  st_xoth :: bool

record os_env =
  os_stat :: "string \<Rightarrow> file_stat option"
  os_fopen :: "string \<Rightarrow> string option"
  os_pipe_output :: bool
  os_pipe_input :: bool
  os_fork :: bool
  os_script :: "string \<Rightarrow> string list \<Rightarrow> string \<Rightarrow> string"

definition send :: "string \<Rightarrow> conn \<Rightarrow> conn" where
  "send bytes c = c\<lparr>outp := outp c @ bytes\<rparr>"

definition close_conn :: "conn \<Rightarrow> conn" where
  "close_conn c = c\<lparr>closed := True\<rparr>"

section \<open>Reading a line\<close>

function get_line_loop ::
  "nat \<Rightarrow> nat \<Rightarrow> char \<Rightarrow> string \<Rightarrow> string \<Rightarrow> string \<times> nat \<times> string" where
  "get_line_loop sz i c buf s =
     (if i < sz - 1 \<and> c \<noteq> LF then
        (case s of
           [] \<Rightarrow> get_line_loop sz i LF buf []
         | ch # rest \<Rightarrow>
             (if ch = CR then
                (case rest of
                   [] \<Rightarrow> get_line_loop sz (Suc i) LF (buf[i := LF]) rest
                 | d # rest' \<Rightarrow>
                     (if d = LF then get_line_loop sz (Suc i) LF (buf[i := LF]) rest'
                      else get_line_loop sz (Suc i) LF (buf[i := LF]) rest))
              else get_line_loop sz (Suc i) ch (buf[i := ch]) rest))
      else (buf, i, s))"
  by pat_completeness auto
termination
  by (relation "measures [\<lambda>(sz, i, c, buf, s). sz - i, \<lambda>(sz, i, c, buf, s). if c = LF then 0 else 1]")
    (auto split: if_splits)

declare get_line_loop.simps [simp del]

definition get_line :: "nat \<Rightarrow> string \<Rightarrow> string \<Rightarrow> string \<times> nat \<times> string" where
  "get_line sz buf s =
     (case get_line_loop sz 0 NUL buf s of (buf', i, s') \<Rightarrow> (buf'[i := NUL], i, s'))"

text \<open>What the comment above \<^verbatim>\<open>get_line\<close> promises: the next line, at most \<open>k\<close> bytes of it, with
  each of the three line ends turned into a line feed.\<close>

fun next_line :: "nat \<Rightarrow> string \<Rightarrow> string \<times> string" where
  "next_line 0 s = ([], s)"
| "next_line (Suc k) [] = ([], [])"
| "next_line (Suc k) (c # s) =
     (if c = LF then ([LF], s)
      else if c = CR then ([LF], (case s of d # s' \<Rightarrow> if d = LF then s' else s | [] \<Rightarrow> []))
      else (case next_line k s of (l, r) \<Rightarrow> (c # l, r)))"

lemma get_line_loop_LF [simp]: "get_line_loop sz i LF buf s = (buf, i, s)"
  by (simp add: get_line_loop.simps)

lemma length_next_line: "length (fst (next_line k s)) \<le> k"
  by (induction k s rule: next_line.induct) (auto split: prod.splits list.splits)

lemma next_line_consumes: "length (snd (next_line k s)) + length (fst (next_line k s)) \<le> length s"
  by (induction k s rule: next_line.induct) (auto split: prod.splits list.splits)

lemma get_line_loop_next_line:
  assumes "sz = Suc (i + k)" and "i + k < length buf" and "c \<noteq> LF"
  shows "get_line_loop sz i c buf s =
    (take i buf @ fst (next_line k s) @ drop (i + length (fst (next_line k s))) buf,
     i + length (fst (next_line k s)), snd (next_line k s))"
  using assms
proof (induction k s arbitrary: i c buf rule: next_line.induct)
  case (1 s)
  then show ?case by (simp add: get_line_loop.simps)
next
  case (2 k)
  then show ?case by (simp add: get_line_loop.simps [of _ i c])
next
  case (3 k ch s)
  have i: "i < length buf" using 3 by simp
  consider "ch = LF" | "ch = CR" | "ch \<noteq> LF" "ch \<noteq> CR" by blast
  then show ?case
  proof cases
    case 1
    then show ?thesis using 3 i
      by (simp add: get_line_loop.simps [of _ i c] upd_conv_take_nth_drop)
  next
    case 2
    then show ?thesis using 3 i
      by (simp add: get_line_loop.simps [of _ i c] upd_conv_take_nth_drop split: list.split)
  next
    case 3
    obtain l r where lr: "next_line k s = (l, r)" by fastforce
    have "get_line_loop sz (Suc i) ch (buf[i := ch]) s
        = (take (Suc i) (buf[i := ch]) @ l @ drop (Suc i + length l) (buf[i := ch]),
           Suc i + length l, r)"
      using "3.IH" [of "Suc i" "buf[i := ch]" ch] 3 "3.prems" lr by simp
    then show ?thesis
      using 3 "3.prems" lr i
      by (simp add: get_line_loop.simps [of _ i c] take_Suc_update)
  qed
qed

lemma get_line_next_line:
  assumes "length buf = Suc k"
  shows "get_line (Suc k) buf s =
    (case next_line k s of
       (l, r) \<Rightarrow> (l @ NUL # drop (Suc (length l)) buf, length l, r))"
proof -
  obtain l r where lr: "next_line k s = (l, r)" by fastforce
  have le: "length l \<le> k" using length_next_line [of k s] lr by simp
  have "get_line_loop (Suc k) 0 NUL buf s = (l @ drop (length l) buf, length l, r)"
    using get_line_loop_next_line [of "Suc k" 0 k buf NUL s] assms lr by simp
  moreover have "drop (length l) buf = buf ! length l # drop (Suc (length l)) buf"
    using le assms by (simp add: Cons_nth_drop_Suc)
  ultimately show ?thesis
    using lr by (simp add: get_line_def update_at_prefix)
qed


section \<open>Headers\<close>

text \<open>The size of every \<^verbatim>\<open>buf\<close> of the file.\<close>

abbreviation BUFSZ :: nat where "BUFSZ \<equiv> 1024"

lemma get_line_loop_consumes:
  "get_line_loop sz i c buf s = (buf', i', s') \<Longrightarrow> length s' + i' \<le> length s + i"
proof (induction sz i c buf s rule: get_line_loop.induct)
  case (1 sz i c buf s)
  show ?case
  proof (cases "i < sz - 1 \<and> c \<noteq> LF")
    case False
    with "1.prems" show ?thesis by (simp add: get_line_loop.simps [of sz i c buf s] split: if_splits)
  next
    case True
    show ?thesis
    proof (cases s)
      case Nil
      with True "1.prems" show ?thesis by (simp add: get_line_loop.simps [of sz i c buf "[]"])
    next
      case (Cons ch rest)
      show ?thesis
      proof (cases "ch = CR")
        case True
        with \<open>i < sz - 1 \<and> c \<noteq> LF\<close> Cons "1.prems" show ?thesis
          by (auto simp: get_line_loop.simps [of sz i c buf "CR # rest"] split: list.splits if_splits)
      next
        case False
        with True Cons "1.prems"
        have "get_line_loop sz (Suc i) ch (buf[i := ch]) rest = (buf', i', s')"
          by (simp add: get_line_loop.simps [of sz i c buf "ch # rest"])
        from "1.IH" (5) [OF True Cons False this] show ?thesis using Cons by simp
      qed
    qed
  qed
qed

lemma get_line_consumes:
  "get_line sz buf s = (buf', n, s') \<Longrightarrow> length s' + n \<le> length s"
  by (auto simp: get_line_def split: prod.splits dest: get_line_loop_consumes)

lemma get_line_progress:
  "(buf', n, s') = get_line sz buf s \<Longrightarrow> n = 0 \<and> length s' \<le> length s \<or> length s' < length s"
  by (drule sym, drule get_line_consumes) auto

text \<open>\<^verbatim>\<open>while ((numchars > 0) && strcmp("\n", buf)) numchars = get_line(client, buf, sizeof(buf));\<close>\<close>

function discard_headers :: "nat \<Rightarrow> string \<Rightarrow> string \<Rightarrow> string" where
  "discard_headers numchars buf s =
     (if 0 < numchars \<and> cstr buf \<noteq> [LF] then
        (case get_line BUFSZ buf s of (buf', n, s') \<Rightarrow> discard_headers n buf' s')
      else s)"
  by pat_completeness auto
termination
  by (relation "measures [\<lambda>(n, buf, s). length s, \<lambda>(n, buf, s). n]") (auto dest!: get_line_progress)

declare discard_headers.simps [simp del]

text \<open>The header loop of a POST request, which looks for the content length.\<close>

function post_headers :: "nat \<Rightarrow> string \<Rightarrow> string \<Rightarrow> int \<Rightarrow> int \<times> string" where
  "post_headers numchars buf s content_length =
     (if 0 < numchars \<and> cstr buf \<noteq> [LF] then
        (let buf1 = buf[15 := NUL];
             cl = (if strcaseeq buf1 ''Content-Length:'' then atoi (drop 16 buf1)
                   else content_length)
         in (case get_line BUFSZ buf1 s of (buf2, n, s') \<Rightarrow> post_headers n buf2 s' cl))
      else (content_length, s))"
  by pat_completeness auto
termination
  by (relation "measures [\<lambda>(n, buf, s, cl). length s, \<lambda>(n, buf, s, cl). n]") (auto dest!: get_line_progress)

declare post_headers.simps [simp del]

section \<open>Fixed responses\<close>

definition server_string :: string where
  "server_string = ''Server: jdbhttpd/0.1.0'' @ crlf"

text \<open>\<^verbatim>\<open>sprintf(buf, s); send(client, buf, sizeof(buf), 0);\<close> sends the whole array.\<close>

definition send_whole :: "string \<Rightarrow> string \<times> conn \<Rightarrow> string \<times> conn" where
  "send_whole s bc = (case bc of (buf, c) \<Rightarrow>
     (let buf' = s @ NUL # drop (Suc (length s)) buf in (buf', send buf' c)))"

definition bad_request :: "string \<Rightarrow> conn \<Rightarrow> conn" where
  "bad_request buf c = snd (
     send_whole (''such as a POST without a Content-Length.'' @ crlf) (
     send_whole ''<P>Your browser sent a bad request, '' (
     send_whole crlf (
     send_whole (''Content-type: text/html'' @ crlf) (
     send_whole (''HTTP/1.0 400 BAD REQUEST'' @ crlf) (buf, c))))))"

definition cannot_execute :: "conn \<Rightarrow> conn" where
  "cannot_execute c =
     send (''<P>Error prohibited CGI execution.'' @ crlf) (
     send crlf (
     send (''Content-type: text/html'' @ crlf) (
     send (''HTTP/1.0 500 Internal Server Error'' @ crlf) c)))"

definition headers :: "string \<Rightarrow> conn \<Rightarrow> conn" where
  "headers filename c =
     send crlf (
     send (''Content-Type: text/html'' @ crlf) (
     send server_string (
     send (''HTTP/1.0 200 OK'' @ crlf) c)))"

definition not_found :: "conn \<Rightarrow> conn" where
  "not_found c =
     send (''</BODY></HTML>'' @ crlf) (
     send (''is unavailable or nonexistent.'' @ crlf) (
     send (''your request because the resource specified'' @ crlf) (
     send (''<BODY><P>The server could not fulfill'' @ crlf) (
     send (''<HTML><TITLE>Not Found</TITLE>'' @ crlf) (
     send crlf (
     send (''Content-Type: text/html'' @ crlf) (
     send server_string (
     send (''HTTP/1.0 404 NOT FOUND'' @ crlf) c))))))))"

definition unimplemented :: "conn \<Rightarrow> conn" where
  "unimplemented c =
     send (''</BODY></HTML>'' @ crlf) (
     send (''<BODY><P>HTTP request method not supported.'' @ crlf) (
     send (''</TITLE></HEAD>'' @ crlf) (
     send (''<HTML><HEAD><TITLE>Method Not Implemented'' @ crlf) (
     send crlf (
     send (''Content-Type: text/html'' @ crlf) (
     send server_string (
     send (''HTTP/1.0 501 Method Not Implemented'' @ crlf) c)))))))"

section \<open>Static files\<close>

text \<open>\<^verbatim>\<open>fgets\<close> with room for \<open>k\<close> bytes: the bytes stored, the rest of the file, and whether the end
  of the file was met.\<close>

fun fgets :: "nat \<Rightarrow> string \<Rightarrow> string \<times> string \<times> bool" where
  "fgets 0 f = ([], f, False)"
| "fgets (Suc k) [] = ([], [], True)"
| "fgets (Suc k) (c # f) =
     (if c = LF then ([LF], f, False)
      else (case fgets k f of (l, r, e) \<Rightarrow> (c # l, r, e)))"

lemma length_fgets: "fgets k f = (l, r, e) \<Longrightarrow> length f = length l + length r"
  by (induction k f arbitrary: l r rule: fgets.induct) (auto split: if_splits prod.splits)

lemma fgets_nonempty: "fgets (Suc k) f = (l, r, False) \<Longrightarrow> l \<noteq> []"
  by (cases f) (auto split: if_splits prod.splits)

lemma fgets_progress:
  "(l, r, e) = fgets 1023 f \<Longrightarrow> length r \<le> length f \<and> (\<not> e \<longrightarrow> length r < length f)"
  using length_fgets [of 1023 f l r e] fgets_nonempty [of 1022 f l r]
  by (cases e) auto

text \<open>The loop of \<^verbatim>\<open>cat\<close>; \<open>l\<close> is what the last \<^verbatim>\<open>fgets\<close> left in \<^verbatim>\<open>buf\<close>.\<close>

function cat_loop :: "string \<Rightarrow> string \<Rightarrow> bool \<Rightarrow> conn \<Rightarrow> conn" where
  "cat_loop l resource eof c =
     (if \<not> eof then
        (case fgets (BUFSZ - 1) resource of
           (l', rest, eof') \<Rightarrow> cat_loop l' rest eof' (send (cstr l) c))
      else c)"
  by pat_completeness auto
termination
  by (relation "measures [\<lambda>(l, f, e, c). length f, \<lambda>(l, f, e, c). if e then 0 else 1]")
    (auto dest!: fgets_progress)

declare cat_loop.simps [simp del]

definition cat :: "string \<Rightarrow> conn \<Rightarrow> conn" where
  "cat resource c =
     (case fgets (BUFSZ - 1) resource of (l, rest, eof) \<Rightarrow> cat_loop l rest eof c)"

text \<open>The bytes the stack arrays hold before the code writes to them.\<close>

record garbage =
  g_accept :: string
  g_serve :: string
  g_cgi :: string
  g_bad :: string
  g_char :: char

definition garbage_ok :: "garbage \<Rightarrow> bool" where
  "garbage_ok g \<longleftrightarrow> length (g_accept g) = BUFSZ \<and> length (g_serve g) = BUFSZ \<and>
     length (g_cgi g) = BUFSZ \<and> length (g_bad g) = BUFSZ"

definition serve_file :: "os_env \<Rightarrow> garbage \<Rightarrow> string \<Rightarrow> conn \<Rightarrow> conn result" where
  "serve_file os g filename c =
     (let buf = (g_serve g)[0 := CHR ''A'', 1 := NUL];
          c1 = c\<lparr>inp := discard_headers 1 buf (inp c)\<rparr>
      in (case os_fopen os filename of
            None \<Rightarrow> Inl Null_Deref \<comment> \<open>after \<^verbatim>\<open>not_found\<close>, \<^verbatim>\<open>fclose(NULL)\<close>\<close>
          | Some resource \<Rightarrow> Inr (cat resource (headers filename c1))))"

section \<open>CGI scripts\<close>

text \<open>\<^verbatim>\<open>sprintf\<close> and \<^verbatim>\<open>strcat\<close> into an array of \<open>cap\<close> bytes: the result and its NUL must fit.\<close>

definition into_buf :: "nat \<Rightarrow> string \<Rightarrow> string result" where
  "into_buf cap s = (if length s < cap then Inr s else Inl Buffer_Overflow)"

text \<open>The environment the child process sets up before \<^verbatim>\<open>execl\<close>.\<close>

definition child_env :: "string \<Rightarrow> string option \<Rightarrow> int \<Rightarrow> string list result" where
  "child_env method query_string content_length =
     rbind (into_buf 255 (''REQUEST_METHOD='' @ method)) (\<lambda>meth_env.
       if strcaseeq method ''GET'' then
         (case query_string of
            None \<Rightarrow> Inl Null_Deref
          | Some q \<Rightarrow> rbind (into_buf 255 (''QUERY_STRING='' @ q)) (\<lambda>query_env.
              Inr [meth_env, query_env]))
       else rbind (into_buf 255 (''CONTENT_LENGTH='' @ show_int content_length)) (\<lambda>length_env.
              Inr [meth_env, length_env]))"

text \<open>The loop that hands the body of a POST request to the script: \<^verbatim>\<open>recv\<close> leaves \<open>c\<close> alone when
  the client has sent no more bytes, and \<^verbatim>\<open>write\<close> is called all the same.\<close>

fun forward_body :: "nat \<Rightarrow> char \<Rightarrow> string \<Rightarrow> string \<times> string" where
  "forward_body 0 c s = ([], s)"
| "forward_body (Suc n) c [] = (case forward_body n c [] of (w, s') \<Rightarrow> (c # w, s'))"
| "forward_body (Suc n) c (d # s) = (case forward_body n d s of (w, s') \<Rightarrow> (d # w, s'))"

text \<open>The headers \<^verbatim>\<open>execute_cgi\<close> reads first: the content length and what the client still has to
  send.\<close>

definition cgi_headers :: "garbage \<Rightarrow> string \<Rightarrow> string \<Rightarrow> int \<times> string" where
  "cgi_headers g method s =
     (let buf = (g_cgi g)[0 := CHR ''A'', 1 := NUL]
      in if strcaseeq method ''GET'' then (-1, discard_headers 1 buf s)
         else if strcaseeq method ''POST'' then
           (case get_line BUFSZ buf s of (buf', n, s') \<Rightarrow> post_headers n buf' s' (-1))
         else (-1, s))"

definition execute_cgi ::
  "os_env \<Rightarrow> garbage \<Rightarrow> string \<Rightarrow> string \<Rightarrow> string option \<Rightarrow> conn \<Rightarrow> conn result" where
  "execute_cgi os g path method query_string c =
     (case cgi_headers g method (inp c) of (content_length, s) \<Rightarrow>
       (let c1 = c\<lparr>inp := s\<rparr> in
        if \<not> strcaseeq method ''GET'' \<and> strcaseeq method ''POST'' \<and> content_length = -1
        then Inr (bad_request (g_bad g) c1)
        else if \<not> os_pipe_output os then Inr (cannot_execute c1)
        else if \<not> os_pipe_input os then Inr (cannot_execute c1)
        else if \<not> os_fork os then Inr (cannot_execute c1)
        else
          (let parent = send (''HTTP/1.0 200 OK'' @ crlf) c1;
               child = send (''HTTP/1.0 200 OK'' @ crlf) parent
           in rbind (child_env method query_string content_length) (\<lambda>env.
                (case (if strcaseeq method ''POST''
                       then forward_body (nat content_length) (g_char g) (inp child)
                       else ([], inp child)) of
                   (stdin, s') \<Rightarrow>
                     Inr (send (os_script os path env stdin) (child\<lparr>inp := s'\<rparr>)))))))"

section \<open>Requests\<close>

text \<open>\<^verbatim>\<open>while (!ISspace(buf[i]) && (i < sizeof(method) - 1))\<close>: the bytes stored in \<^verbatim>\<open>method\<close>.\<close>

fun scan_method :: "nat \<Rightarrow> string \<Rightarrow> nat \<Rightarrow> string" where
  "scan_method 0 buf i = []"
| "scan_method (Suc room) buf i =
     (if \<not> isspace (buf ! i) then buf ! i # scan_method room buf (Suc i) else [])"

function skip_spaces :: "string \<Rightarrow> nat \<Rightarrow> nat \<Rightarrow> nat" where
  "skip_spaces buf j numchars =
     (if isspace (buf ! j) \<and> j < numchars then skip_spaces buf (Suc j) numchars else j)"
  by pat_completeness auto
termination
  by (relation "measure (\<lambda>(buf, j, n). n - j)") auto

declare skip_spaces.simps [simp del]

text \<open>\<^verbatim>\<open>while (!ISspace(buf[j]) && (i < sizeof(url) - 1) && (j < numchars))\<close>: the bytes stored in
  \<^verbatim>\<open>url\<close>.\<close>

fun scan_url :: "nat \<Rightarrow> string \<Rightarrow> nat \<Rightarrow> nat \<Rightarrow> string" where
  "scan_url 0 buf j numchars = []"
| "scan_url (Suc room) buf j numchars =
     (if \<not> isspace (buf ! j) \<and> j < numchars
      then buf ! j # scan_url room buf (Suc j) numchars else [])"

text \<open>The search for \<^verbatim>\<open>'?'\<close> in \<^verbatim>\<open>url\<close>: the part in front of it and, if there is one, the part behind
  it.\<close>

fun split_query :: "string \<Rightarrow> string \<times> string option" where
  "split_query [] = ([], None)"
| "split_query (c # s) =
     (if c = CHR ''?'' then ([], Some s)
      else (case split_query s of (u, q) \<Rightarrow> (c # u, q)))"

text \<open>The second half of \<^verbatim>\<open>accept_request\<close>, from the construction of \<^verbatim>\<open>path\<close> on.\<close>

definition respond ::
  "os_env \<Rightarrow> garbage \<Rightarrow> string \<Rightarrow> nat \<Rightarrow> string \<Rightarrow> string \<Rightarrow> string option \<Rightarrow> bool \<Rightarrow> conn \<Rightarrow> conn result"
where
  "respond os g buf numchars method url query_string cgi client =
     rbind (into_buf 512 (''htdocs'' @ url)) (\<lambda>path0.
     rbind (if last path0 = CHR ''/'' then into_buf 512 (path0 @ ''index.html'')
            else Inr path0) (\<lambda>path1.
     (case os_stat os path1 of
        None \<Rightarrow> Inr (close_conn (not_found
                  (client\<lparr>inp := discard_headers numchars buf (inp client)\<rparr>)))
      | Some st \<Rightarrow>
          rbind (if st_isdir st then into_buf 512 (path1 @ ''/index.html'')
                 else Inr path1) (\<lambda>path.
          rbind (if \<not> (cgi \<or> st_xusr st \<or> st_xgrp st \<or> st_xoth st)
                 then serve_file os g path client
                 else execute_cgi os g path method query_string client) (\<lambda>client'.
          Inr (close_conn client'))))))"

definition accept_request :: "os_env \<Rightarrow> garbage \<Rightarrow> conn \<Rightarrow> conn result" where
  "accept_request os g c =
     (case get_line BUFSZ (g_accept g) (inp c) of (buf, numchars, s) \<Rightarrow>
       (let client = c\<lparr>inp := s\<rparr>;
            method_arr = scan_method 254 buf 0;
            method = cstr method_arr
        in if \<not> strcaseeq method ''GET'' \<and> \<not> strcaseeq method ''POST''
           then Inr (unimplemented client)
           else
            (let cgi = strcaseeq method ''POST'';
                 j = skip_spaces buf (length method_arr) numchars;
                 url = cstr (scan_url 254 buf j numchars)
             in if strcaseeq method ''GET'' then
                  (case split_query url of
                     (u, None) \<Rightarrow> respond os g buf numchars method u (Some []) cgi client
                   | (u, Some q) \<Rightarrow> respond os g buf numchars method u (Some q) True client)
                else respond os g buf numchars method url None cgi client)))"

section \<open>Starting the server\<close>

text \<open>What the socket calls of \<^verbatim>\<open>startup\<close> return; \<open>net_port\<close> is the port the system assigned.\<close>

record net_env =
  net_socket :: bool
  net_reuse :: bool
  net_bind :: bool
  net_port :: "16 word option"
  net_listen :: bool

definition startup :: "net_env \<Rightarrow> 16 word \<Rightarrow> (16 word) result" where
  "startup e port =
     (if \<not> net_socket e then Inl (Exit_With ''socket'')
      else if \<not> net_reuse e then Inl (Exit_With ''setsockopt failed'')
      else if \<not> net_bind e then Inl (Exit_With ''bind'')
      else rbind (if port = 0
                  then (case net_port e of
                          None \<Rightarrow> Inl (Exit_With ''getsockname'')
                        | Some p \<Rightarrow> Inr p)
                  else Inr port) (\<lambda>port'.
           if \<not> net_listen e then Inl (Exit_With ''listen'') else Inr port'))"

text \<open>The \<^verbatim>\<open>while (1)\<close> of \<^verbatim>\<open>main\<close> over what \<^verbatim>\<open>accept\<close> returns: \<open>None\<close> is a failed call, which ends the
  process; a connection comes with the outcome of \<^verbatim>\<open>pthread_create\<close> and is handled by a thread of
  its own, which shares nothing with the others.\<close>

fun serve_clients :: "os_env \<Rightarrow> garbage \<Rightarrow> (conn \<times> bool) option list \<Rightarrow> conn result list result" where
  "serve_clients os g [] = Inr []"
| "serve_clients os g (None # rest) = Inl (Exit_With ''accept'')"
| "serve_clients os g (Some (c, created) # rest) =
     rbind (serve_clients os g rest) (\<lambda>rs.
       Inr ((if created then accept_request os g c else Inr c) # rs))"

section \<open>Lines and headers\<close>

lemma next_line_butlast: "LF \<notin> set (butlast (fst (next_line k s)))"
  by (induction k s rule: next_line.induct) (auto split: prod.splits)

lemma cstr_eq_LF: "LF \<notin> set (butlast l) \<Longrightarrow> cstr l = [LF] \<longleftrightarrow> l = [LF]"
  by (cases l) (auto split: if_splits)

lemma next_line_crlf:
  assumes "CR \<notin> set h" "LF \<notin> set h" "length h < k"
  shows "next_line k (h @ CR # LF # r) = (h @ [LF], r)"
  using assms
proof (induction h arbitrary: k)
  case Nil
  then show ?case by (cases k) auto
next
  case (Cons c h)
  then show ?case by (cases k) auto
qed

text \<open>What remains behind the first empty line.\<close>

function headers_end :: "string \<Rightarrow> string" where
  "headers_end s =
     (case next_line 1023 s of (l, r) \<Rightarrow> if l = [] \<or> l = [LF] then r else headers_end r)"
  by pat_completeness auto
termination
proof (relation "measure length", simp, goal_cases)
  case prems: (1 s)
  then show ?case
    using next_line_consumes [of 1023 s] by (cases "next_line 1023 s") (auto simp: neq_Nil_conv)
qed

declare headers_end.simps [simp del]

lemma headers_end_simp:
  "headers_end s =
    (if fst (next_line 1023 s) = [] \<or> fst (next_line 1023 s) = [LF]
     then snd (next_line 1023 s) else headers_end (snd (next_line 1023 s)))"
  by (subst headers_end.simps) (simp split: prod.splits)

lemma get_line_BUFSZ:
  assumes "length buf = BUFSZ" "next_line 1023 s = (l, r)"
  shows "get_line BUFSZ buf s = (l @ NUL # drop (Suc (length l)) buf, length l, r)"
  using get_line_next_line [of buf 1023 s] assms by simp

lemma length_line_buf:
  "length buf = BUFSZ \<Longrightarrow> length l \<le> 1023 \<Longrightarrow> length (l @ NUL # drop (Suc (length l)) buf) = BUFSZ"
  by simp

lemma discard_headers_eq:
  "length buf = BUFSZ \<Longrightarrow>
    discard_headers n buf s = (if 0 < n \<and> cstr buf \<noteq> [LF] then headers_end s else s)"
proof (induction n buf s rule: discard_headers.induct)
  case (1 n buf s)
  obtain l r where lr: "next_line 1023 s = (l, r)" by fastforce
  define buf' where "buf' = l @ NUL # drop (Suc (length l)) buf"
  have gl: "get_line BUFSZ buf s = (buf', length l, r)"
    unfolding buf'_def using "1.prems" lr by (rule get_line_BUFSZ)
  have len: "length l \<le> 1023" and bl: "LF \<notin> set (butlast l)"
    using length_next_line [of 1023 s] next_line_butlast [of 1023 s] lr by simp_all
  show ?case
  proof (cases "0 < n \<and> cstr buf \<noteq> [LF]")
    case True
    have "discard_headers (length l) buf' r =
        (if 0 < length l \<and> cstr buf' \<noteq> [LF] then headers_end r else r)"
      using "1.IH" [OF True gl [symmetric] refl] len "1.prems"
      by (simp add: buf'_def)
    moreover have "cstr buf' = [LF] \<longleftrightarrow> l = [LF]"
      using bl by (simp add: buf'_def cstr_eq_LF)
    ultimately show ?thesis
      using True gl lr
      by (auto simp: discard_headers.simps [of n buf s] headers_end_simp [of s])
  next
    case False
    then show ?thesis by (auto simp: discard_headers.simps [of n buf s])
  qed
qed

text \<open>Header lines as a well-behaved client sends them.\<close>

definition header_ok :: "string \<Rightarrow> bool" where
  "header_ok h \<longleftrightarrow> h \<noteq> [] \<and> CR \<notin> set h \<and> LF \<notin> set h \<and> NUL \<notin> set h \<and> length h \<le> 1022"

definition header_block :: "string list \<Rightarrow> string" where
  "header_block hs = concat (map (\<lambda>h. h @ crlf) hs) @ crlf"

lemma header_block_simps [simp]:
  "header_block [] = crlf" "header_block (h # hs) = h @ crlf @ header_block hs"
  by (simp_all add: header_block_def)

lemma headers_end_block:
  "list_all header_ok hs \<Longrightarrow> headers_end (header_block hs @ body) = body"
proof (induction hs)
  case Nil
  then show ?case
    using next_line_crlf [of "[]" 1023 body] by (simp add: headers_end_simp)
next
  case (Cons h hs)
  then have h: "header_ok h" and IH: "headers_end (header_block hs @ body) = body" by simp_all
  from h have "next_line 1023 (h @ CR # LF # header_block hs @ body)
      = (h @ [LF], header_block hs @ body)"
    by (intro next_line_crlf) (auto simp: header_ok_def)
  with h IH show ?case by (simp add: headers_end_simp [of "h @ _"] header_ok_def)
qed


text \<open>The content length the header loop computes from well-formed headers.\<close>

fun header_length :: "string list \<Rightarrow> int \<Rightarrow> int" where
  "header_length [] cl = cl"
| "header_length (h # hs) cl =
     header_length hs (if strcaseeq (take 15 h) ''Content-Length:'' then atoi (drop 16 h) else cl)"

lemma no_nul_takeD: "no_nul l \<Longrightarrow> no_nul (take n l)"
  by (auto simp: no_nul_def dest: in_set_takeD)

lemma cstr_line_buf:
  assumes "no_nul l"
  shows "cstr ((l @ NUL # rest)[15 := NUL]) = take 15 l"
proof (cases "15 < length l")
  case True
  then have "(l @ NUL # rest)[15 := NUL] = take 15 l @ NUL # drop 16 l @ NUL # rest"
    by (simp add: list_update_append upd_conv_take_nth_drop)
  then show ?thesis using assms by (simp add: no_nul_takeD)
next
  case False
  then have u: "(l @ NUL # rest)[15 := NUL] = l @ (NUL # rest)[15 - length l := NUL]"
    by (simp add: list_update_append)
  obtain t where "(NUL # rest)[15 - length l := NUL] = NUL # t"
    by (cases "15 - length l") auto
  with u assms False show ?thesis by simp
qed

lemma digits_value_LF: "digits_value a (s @ LF # t) = digits_value a s"
  by (induction s arbitrary: a) (auto simp: isdigit_def ccode_def)

lemma atoi_LF:
  assumes "no_nul s"
  shows "atoi (s @ LF # NUL # t) = atoi s"
proof -
  have c: "cstr (s @ LF # NUL # t) = s @ [LF]"
    using cstr_append_nul [of "s @ [LF]" t] assms by simp
  have sp: "isspace LF" by (simp add: isspace_def)
  have d: "dropWhile isspace (s @ [LF]) =
      (if dropWhile isspace s = [] then [] else dropWhile isspace s @ [LF])"
    using sp by (induction s) simp_all
  have dv: "digits_value 0 (u @ [LF]) = digits_value 0 u" for u
    by (rule digits_value_LF)
  have dv': "digits_value 0 (x # u @ [LF]) = digits_value 0 (x # u)" for x u
    using dv [of "x # u"] by simp
  show ?thesis
    using assms
    by (cases "dropWhile isspace s")
      (simp_all add: atoi_def c d dv dv' Let_def
        del: digits_value.simps dropWhile_eq_Nil_conv)
qed

lemma content_length_line:
  assumes h: "header_ok h"
    and cl: "strcaseeq ((h @ LF # NUL # rest)[15 := NUL]) ''Content-Length:''"
  shows "strcaseeq (take 15 h) ''Content-Length:'' \<and>
    atoi (drop 16 ((h @ LF # NUL # rest)[15 := NUL])) = atoi (drop 16 h)"
proof -
  have nn: "no_nul h" "no_nul (h @ [LF])" using h by (auto simp: header_ok_def no_nul_def)
  have c: "cstr ((h @ LF # NUL # rest)[15 := NUL]) = take 15 (h @ [LF])"
    using cstr_line_buf [OF nn(2), of rest] by simp
  have ln: "length (take 15 (h @ [LF])) = 15"
    using strcaseeq_length [OF cl] c by simp
  have nolf: "LF \<notin> set (take 15 (h @ [LF]))"
  proof
    assume "LF \<in> set (take 15 (h @ [LF]))"
    then have "tolower LF \<in> tolower ` set (take 15 (h @ [LF]))" by (rule imageI)
    then have "tolower LF \<in> set (map tolower (take 15 (h @ [LF])))" by (simp only: set_map)
    also have "map tolower (take 15 (h @ [LF])) = map tolower ''Content-Length:''"
      using cl c by (simp add: strcaseeq_def)
    finally have "tolower LF \<in> set (map tolower ''Content-Length:'')" .
    moreover have "tolower LF \<notin> set (map tolower ''Content-Length:'')" by code_simp
    ultimately show False by contradiction
  qed
  have len: "15 \<le> length h"
  proof (rule ccontr)
    assume "\<not> 15 \<le> length h"
    then have t: "take 15 (h @ [LF]) = h @ [LF]" by simp
    from nolf have "LF \<notin> set (h @ [LF])" unfolding t .
    then show False by simp
  qed
  then have t: "take 15 (h @ [LF]) = take 15 h" by simp
  have "strcaseeq (take 15 h) ''Content-Length:''"
    using cl c t nn(1) by (simp add: strcaseeq_def no_nul_takeD)
  moreover have "drop 16 ((h @ LF # NUL # rest)[15 := NUL]) = drop 16 (h @ LF # NUL # rest)"
    by simp
  moreover have "atoi (drop 16 (h @ LF # NUL # rest)) = atoi (drop 16 h)"
  proof (cases "length h = 15")
    case True
    then show ?thesis by (simp add: atoi_def)
  next
    case False
    with len have "drop 16 (h @ LF # NUL # rest) = drop 16 h @ LF # NUL # rest" by simp
    moreover have "no_nul (drop 16 h)"
      using nn(1) by (auto simp: no_nul_def dest: in_set_dropD)
    ultimately show ?thesis by (simp add: atoi_LF)
  qed
  ultimately show ?thesis by simp
qed

lemma content_length_line_iff:
  assumes h: "header_ok h"
  shows "strcaseeq ((h @ LF # NUL # rest)[15 := NUL]) ''Content-Length:''
    \<longleftrightarrow> strcaseeq (take 15 h) ''Content-Length:''"
proof
  assume s: "strcaseeq (take 15 h) ''Content-Length:''"
  have nn: "no_nul h" "no_nul (h @ [LF])" using h by (auto simp: header_ok_def no_nul_def)
  have "length (take 15 h) = 15"
    using strcaseeq_length [OF s] nn by (simp add: no_nul_takeD)
  then have "take 15 (h @ [LF]) = take 15 h" by simp
  then show "strcaseeq ((h @ LF # NUL # rest)[15 := NUL]) ''Content-Length:''"
    using s cstr_line_buf [OF nn(2), of rest] nn by (simp add: strcaseeq_def no_nul_takeD)
qed (use content_length_line [OF h] in blast)

lemma post_headers_block:
  assumes "list_all header_ok hs" and "length buf = BUFSZ"
  shows "(case get_line BUFSZ buf (header_block hs @ body) of
      (b, n, s) \<Rightarrow> post_headers n b s cl) = (header_length hs cl, body)"
  using assms
proof (induction hs arbitrary: buf cl)
  case Nil
  have "next_line 1023 (crlf @ body) = ([LF], body)"
    using next_line_crlf [of "[]" 1023 body] by simp
  from get_line_BUFSZ [OF Nil.prems(2) this] show ?case
    by (simp add: post_headers.simps)
next
  case (Cons h hs)
  then have h: "header_ok h" and hs: "list_all header_ok hs" by simp_all
  let ?rest = "drop (Suc (Suc (length h))) buf"
  let ?b = "h @ LF # NUL # ?rest"
  have nl: "next_line 1023 (h @ CR # LF # header_block hs @ body) = (h @ [LF], header_block hs @ body)"
    using h by (intro next_line_crlf) (auto simp: header_ok_def)
  have len: "length ?b = BUFSZ" using Cons.prems(2) h by (auto simp: header_ok_def)
  have gl: "get_line BUFSZ buf (header_block (h # hs) @ body)
      = (?b, Suc (length h), header_block hs @ body)"
    using get_line_BUFSZ [OF Cons.prems(2) nl] by simp
  have ne: "cstr ?b \<noteq> [LF]" using h by (cases h) (auto simp: header_ok_def)
  show ?case
    using Cons.IH [OF hs, of "?b[15 := NUL]"] content_length_line [OF h, of ?rest]
      content_length_line_iff [OF h, of ?rest] len ne
    unfolding gl
    by (auto simp: post_headers.simps [of "Suc (length h)"] Let_def)
qed


section \<open>What the functions send\<close>

lemma send_simps [simp]:
  "outp (send b c) = outp c @ b" "inp (send b c) = inp c" "closed (send b c) = closed c"
  by (simp_all add: send_def)

lemma close_conn_simps [simp]:
  "outp (close_conn c) = outp c" "inp (close_conn c) = inp c" "closed (close_conn c)"
  by (simp_all add: close_conn_def)

definition ok_headers :: string where
  "ok_headers = ''HTTP/1.0 200 OK'' @ crlf @ server_string @ ''Content-Type: text/html'' @ crlf @ crlf"

lemma headers_simps [simp]:
  "outp (headers f c) = outp c @ ok_headers" "inp (headers f c) = inp c"
  by (simp_all add: headers_def ok_headers_def)

lemma fgets_line:
  "LF \<notin> set h \<Longrightarrow> length h < k \<Longrightarrow> fgets k (h @ LF # r) = (h @ [LF], r, False)"
proof (induction h arbitrary: k)
  case Nil
  then show ?case by (cases k) auto
next
  case (Cons c h)
  then show ?case by (cases k) auto
qed

lemma fgets_tail: "LF \<notin> set t \<Longrightarrow> length t < k \<Longrightarrow> fgets k t = (t, [], True)"
proof (induction t arbitrary: k)
  case Nil
  then show ?case by (cases k) auto
next
  case (Cons c t)
  then show ?case by (cases k) auto
qed

lemma fgets_long: "LF \<notin> set (take k t) \<Longrightarrow> k \<le> length t \<Longrightarrow> fgets k t = (take k t, drop k t, False)"
  by (induction k t rule: fgets.induct) (auto split: prod.splits)

lemma cat_loop_send [simp]: "inp (cat_loop l f e c) = inp c"
  by (induction l f e c rule: cat_loop.induct)
    (auto simp: cat_loop.simps split: prod.splits)

lemma cat_inp [simp]: "inp (cat f c) = inp c"
  by (simp add: cat_def split: prod.splits)

lemma cat_unfold:
  "fgets 1023 f = (l, r, False) \<Longrightarrow> cat f c = cat r (send (cstr l) c)"
  by (simp add: cat_def cat_loop.simps [of l r False])

lemma cat_end: "fgets 1023 f = (l, r, True) \<Longrightarrow> cat f c = c"
  by (simp add: cat_def cat_loop.simps [of l r True])

lemma fgets_complete_line:
  assumes "f \<noteq> []" "last f = LF"
  shows "\<exists>l r. fgets (Suc k) (f @ t) = (l, r @ t, False) \<and> f = l @ r \<and> l \<noteq> [] \<and> (r = [] \<or> last r = LF)"
proof (cases "LF \<in> set (take (Suc k) f)")
  case True
  then obtain h r where hr: "take (Suc k) f = h @ LF # r" "LF \<notin> set h"
    by (meson split_list_first)
  have len: "length h < Suc k" using arg_cong [OF hr(1), of length] by auto
  obtain r' where f: "f = h @ LF # r'"
    using append_take_drop_id [of "Suc k" f] hr(1) by (metis append.assoc append_Cons)
  let ?r = r'
  have "fgets (Suc k) (f @ t) = (h @ [LF], ?r @ t, False)"
    using fgets_line [OF hr(2) len, of "?r @ t"] f by simp
  moreover have "?r = [] \<or> last ?r = LF" using assms(2) f by (metis last_ConsR last_appendR list.discI)
  ultimately show ?thesis using f by (intro exI [of _ "h @ [LF]"] exI [of _ ?r]) simp
next
  case False
  have long: "Suc k < length f"
  proof (rule ccontr)
    assume "\<not> Suc k < length f"
    with False assms show False by (metis last_in_set leI take_all)
  qed
  have "fgets (Suc k) (f @ t) = (take (Suc k) f, drop (Suc k) f @ t, False)"
    using fgets_long [of "Suc k" "f @ t"] False long by simp
  moreover have "last (drop (Suc k) f) = LF" using assms(2) long by simp
  ultimately show ?thesis
    using long by (intro exI [of _ "take (Suc k) f"] exI [of _ "drop (Suc k) f"]) auto
qed

lemma cat_complete_lines:
  assumes "no_nul f" "f = [] \<or> last f = LF"
  shows "\<exists>c'. cat (f @ t) c = cat t c' \<and> outp c' = outp c @ f \<and> closed c' = closed c"
  using assms
proof (induction f arbitrary: c rule: length_induct)
  case (1 f)
  show ?case
  proof (cases "f = []")
    case True
    then show ?thesis by auto
  next
    case False
    with "1.prems" have "last f = LF" by simp
    have "\<exists>l r. fgets 1023 (f @ t) = (l, r @ t, False) \<and> f = l @ r \<and> l \<noteq> [] \<and> (r = [] \<or> last r = LF)"
      using fgets_complete_line [OF False \<open>last f = LF\<close>, of 1022 t] by simp
    then obtain l r
      where lr: "fgets 1023 (f @ t) = (l, r @ t, False)" "f = l @ r" "l \<noteq> []" "r = [] \<or> last r = LF"
      by blast
    have "no_nul l" "no_nul r" using "1.prems"(1) lr(2) by simp_all
    moreover have "length r < length f" using lr by simp
    ultimately obtain c' where "cat (r @ t) (send (cstr l) c) = cat t c'"
        "outp c' = outp (send (cstr l) c) @ r" "closed c' = closed c"
      using "1.IH" lr(4) by (metis send_simps(3))
    with \<open>no_nul l\<close> lr show ?thesis by (intro exI [of _ c']) (simp add: cat_unfold)
  qed
qed

text \<open>The bytes behind the last line feed of a file; \<^verbatim>\<open>fgets\<close> reads them in pieces of \<^verbatim>\<open>BUFSZ - 1\<close> bytes, and
  what is left over behind the last full piece is read together with the end of the file.\<close>

definition last_line :: "string \<Rightarrow> string" where
  "last_line f = rev (takeWhile (\<lambda>c. c \<noteq> LF) (rev f))"

definition sent_part :: "string \<Rightarrow> string" where
  "sent_part f = take (length f - length (last_line f) mod (BUFSZ - 1)) f"

lemma last_line_split: "\<exists>g. f = g @ last_line f \<and> (g = [] \<or> last g = LF) \<and> LF \<notin> set (last_line f)"
proof -
  let ?g = "rev (dropWhile (\<lambda>c. c \<noteq> LF) (rev f))"
  have "f = ?g @ last_line f"
    unfolding last_line_def rev_append [symmetric] takeWhile_dropWhile_id by simp
  moreover have "?g = [] \<or> last ?g = LF"
    using hd_dropWhile [of "\<lambda>c. c \<noteq> LF" "rev f"] by (auto simp: last_rev)
  moreover have "LF \<notin> set (last_line f)" by (auto simp: last_line_def dest: set_takeWhileD)
  ultimately show ?thesis by blast
qed

lemma cat_last_line:
  assumes "LF \<notin> set t" "no_nul t"
  shows "outp (cat t c) = outp c @ take (length t - length t mod (BUFSZ - 1)) t"
  using assms
proof (induction t arbitrary: c rule: length_induct)
  case (1 t)
  show ?case
  proof (cases "length t < 1023")
    case True
    then show ?thesis using fgets_tail [of t 1023] "1.prems"(1) by (simp add: cat_end)
  next
    case False
    let ?d = "drop 1023 t"
    have no: "LF \<notin> set (take 1023 t)" "LF \<notin> set ?d" "no_nul (take 1023 t)" "no_nul ?d"
      using "1.prems" by (auto simp: no_nul_def dest: in_set_takeD in_set_dropD)
    have "cat t c = cat ?d (send (take 1023 t) c)"
      using fgets_long [OF no(1)] False no(3) by (simp add: cat_unfold)
    moreover have "outp (cat ?d (send (take 1023 t) c)) = outp (send (take 1023 t) c) @ take (length ?d - length ?d mod 1023) ?d"
      using "1.IH" False no by simp
    moreover have "take (length t - length t mod 1023) t = take 1023 t @ take (length ?d - length ?d mod 1023) ?d"
    proof -
      have "length t mod 1023 = length ?d mod 1023" using False by (simp add: le_mod_geq)
      moreover have "length ?d mod 1023 \<le> length ?d" by simp
      ultimately have "length t - length t mod 1023 = 1023 + (length ?d - length ?d mod 1023)" using False by simp
      then show ?thesis by (simp only: take_add)
    qed
    ultimately show ?thesis by simp
  qed
qed

lemma cat_sends:
  assumes "no_nul f"
  shows "outp (cat f c) = outp c @ sent_part f"
proof -
  obtain g where g: "f = g @ last_line f" "g = [] \<or> last g = LF" "LF \<notin> set (last_line f)"
    using last_line_split by blast
  let ?t = "last_line f"
  have no: "no_nul g" "no_nul ?t"
    using assms arg_cong [OF g(1), of set] by (auto simp: no_nul_def)
  obtain c' where "cat (g @ ?t) c = cat ?t c'" "outp c' = outp c @ g"
    using cat_complete_lines [OF no(1) g(2)] by blast
  moreover have "sent_part f = g @ take (length ?t - length ?t mod (BUFSZ - 1)) ?t"
  proof -
    have "length f = length g + length ?t" using g(1) by (metis length_append)
    moreover have "length ?t mod (BUFSZ - 1) \<le> length ?t" by simp
    ultimately have "sent_part f = take (length g + (length ?t - length ?t mod (BUFSZ - 1))) (g @ ?t)"
      using g(1) unfolding sent_part_def by (metis Nat.add_diff_assoc)
    then show ?thesis by simp
  qed
  ultimately show ?thesis using cat_last_line [OF g(3) no(2), of c'] g(1) by simp
qed

lemma sent_part_lines: "f = [] \<or> last f = LF \<Longrightarrow> sent_part f = f"
  by (cases f rule: rev_cases) (auto simp: sent_part_def last_line_def)

text \<open>\<^verbatim>\<open>cat\<close> sends exactly the part of a file up to its last line feed: of a file without NUL
  bytes whose last, unterminated line is shorter than the buffer, that last line is never sent.
  A file that ends in a line feed is sent whole.\<close>

theorem cat_sends_complete_lines:
  assumes "no_nul f" and "f = [] \<or> last f = LF" and "LF \<notin> set t" and "length t < BUFSZ - 1"
  shows "outp (cat (f @ t) c) = outp c @ f"
proof -
  obtain c' where "cat (f @ t) c = cat t c'" "outp c' = outp c @ f"
    using cat_complete_lines [OF assms(1,2)] by blast
  moreover have "cat t c' = c'"
    using fgets_tail [of t 1023] assms(3,4) by (simp add: cat_end)
  ultimately show ?thesis by simp
qed

theorem cat_sends_complete_lines_witness:
  "outp (cat (''hello'' @ [LF] @ ''lost'') \<lparr>inp = [], outp = [], closed = False\<rparr>) = ''hello'' @ [LF]"
  using cat_sends_complete_lines
    [of "''hello'' @ [LF]" "''lost''" "\<lparr>inp = [], outp = [], closed = False\<rparr>"]
  by simp


section \<open>Parsing the request line\<close>

definition word_ok :: "string \<Rightarrow> bool" where
  "word_ok w \<longleftrightarrow> w \<noteq> [] \<and> no_nul w \<and> (\<forall>c \<in> set w. \<not> isspace c) \<and> length w \<le> 254"

definition request_line :: "string \<Rightarrow> string \<Rightarrow> string \<Rightarrow> string" where
  "request_line m url v = m @ CHR '' '' # url @ CHR '' '' # v"

definition request_line_ok :: "string \<Rightarrow> string \<Rightarrow> string \<Rightarrow> bool" where
  "request_line_ok m url v \<longleftrightarrow> word_ok m \<and> word_ok url \<and> CR \<notin> set v \<and> LF \<notin> set v \<and>
     length (request_line m url v) \<le> 1022"

lemma scan_method_word:
  assumes "\<forall>c \<in> set w. \<not> isspace c" "isspace x" "length w \<le> room"
  shows "scan_method room (pre @ w @ x # post) (length pre) = w"
  using assms
proof (induction w arbitrary: room pre)
  case Nil
  then show ?case by (cases room) (auto simp: nth_append)
next
  case (Cons c w)
  then obtain room' where room: "room = Suc room'" by (cases room) auto
  have "scan_method room' ((pre @ [c]) @ w @ x # post) (length (pre @ [c])) = w"
    using Cons room by (intro Cons.IH) auto
  then show ?case using Cons.prems room by (simp add: nth_append)
qed

lemma scan_url_word:
  assumes "\<forall>c \<in> set w. \<not> isspace c" "isspace x" "length w \<le> room" "length pre + length w \<le> n"
  shows "scan_url room (pre @ w @ x # post) (length pre) n = w"
  using assms
proof (induction w arbitrary: room pre)
  case Nil
  then show ?case by (cases room) (auto simp: nth_append)
next
  case (Cons c w)
  then obtain room' where room: "room = Suc room'" by (cases room) auto
  have "scan_url room' ((pre @ [c]) @ w @ x # post) (length (pre @ [c])) n = w"
    using Cons room by (intro Cons.IH) auto
  then show ?case using Cons.prems room by (simp add: nth_append)
qed

lemma skip_one_space:
  assumes "isspace x" "\<not> isspace y" "Suc (length pre) \<le> n"
  shows "skip_spaces (pre @ x # y # post) (length pre) n = Suc (length pre)"
  using assms
  by (simp add: skip_spaces.simps [of _ "length pre"] skip_spaces.simps [of _ "Suc (length pre)"]
      nth_append)

lemma word_ok_no_line_end: "word_ok w \<Longrightarrow> CR \<notin> set w \<and> LF \<notin> set w"
  by (auto simp: word_ok_def isspace_def)

lemma accept_request_line:
  assumes g: "garbage_ok g" and rl: "request_line_ok m url v"
    and i: "inp c = request_line m url v @ crlf @ s"
  shows "\<exists>buf numchars. length buf = BUFSZ \<and> 0 < numchars \<and> cstr buf \<noteq> [LF] \<and>
    accept_request os g c =
      (let client = c\<lparr>inp := s\<rparr> in
       if \<not> strcaseeq m ''GET'' \<and> \<not> strcaseeq m ''POST'' then Inr (unimplemented client)
       else if strcaseeq m ''GET'' then
         (case split_query url of
            (u, None) \<Rightarrow> respond os g buf numchars m u (Some []) (strcaseeq m ''POST'') client
          | (u, Some q) \<Rightarrow> respond os g buf numchars m u (Some q) True client)
       else respond os g buf numchars m url None (strcaseeq m ''POST'') client)"
proof -
  let ?line = "request_line m url v"
  have m: "word_ok m" and url: "word_ok url" and len: "length ?line \<le> 1022"
    using rl by (auto simp: request_line_ok_def)
  have sp: "isspace (CHR '' '')" by (simp add: isspace_def)
  have nl: "next_line 1023 (inp c) = (?line @ [LF], s)"
    unfolding i append_Cons append_Nil
    using rl word_ok_no_line_end [OF m] word_ok_no_line_end [OF url] len
    by (intro next_line_crlf) (auto simp: request_line_ok_def request_line_def)
  define buf where "buf = (?line @ [LF]) @ NUL # drop (Suc (length (?line @ [LF]))) (g_accept g)"
  have gl: "get_line BUFSZ (g_accept g) (inp c) = (buf, Suc (length ?line), s)"
    using get_line_BUFSZ [OF _ nl] g by (simp add: garbage_ok_def buf_def)
  obtain post where b1: "buf = [] @ m @ CHR '' '' # url @ CHR '' '' # post"
    by (simp add: buf_def request_line_def)
  obtain y us where y: "url = y # us" "\<not> isspace y"
    using url by (cases url) (auto simp: word_ok_def)
  have sm: "scan_method 254 buf 0 = m"
    unfolding b1 using scan_method_word [of m "CHR '' ''" 254 "[]"] m sp
    by (simp add: word_ok_def)
  have sk: "skip_spaces buf (length m) (Suc (length ?line)) = Suc (length m)"
    using skip_one_space [OF sp y(2), of m "Suc (length ?line)"]
    unfolding b1 y(1) by (simp add: request_line_def y(1))
  have su: "scan_url 254 buf (Suc (length m)) (Suc (length ?line)) = url"
    using scan_url_word [of url "CHR '' ''" 254 "m @ [CHR '' '']" "Suc (length ?line)" post] url sp
    unfolding b1 by (simp add: word_ok_def request_line_def)
  have c: "cstr m = m" "cstr url = url" using m url by (auto simp: word_ok_def)
  have "length buf = BUFSZ"
    using g len by (simp add: buf_def garbage_ok_def)
  moreover have "cstr buf \<noteq> [LF]"
    using m by (cases m) (auto simp: b1 word_ok_def isspace_def)
  ultimately show ?thesis
    by (intro exI [of _ buf] exI [of _ "Suc (length ?line)"])
      (simp add: accept_request_def gl sm sk su c Let_def)
qed

lemma split_query_none: "CHR ''?'' \<notin> set u \<Longrightarrow> split_query u = (u, None)"
  by (induction u) auto

lemma split_query_some: "CHR ''?'' \<notin> set u \<Longrightarrow> split_query (u @ CHR ''?'' # q) = (u, Some q)"
  by (induction u) auto

lemma into_buf_ok [simp]: "length s < cap \<Longrightarrow> into_buf cap s = Inr s"
  by (simp add: into_buf_def)

lemma strcaseeq_GET_not_POST: "strcaseeq m ''GET'' \<Longrightarrow> \<not> strcaseeq m ''POST''"
  by (drule strcaseeq_length) (auto dest: strcaseeq_length)

section \<open>Requests from end to end\<close>

definition plain_file :: "file_stat \<Rightarrow> bool" where
  "plain_file st \<longleftrightarrow> \<not> st_isdir st \<and> \<not> st_xusr st \<and> \<not> st_xgrp st \<and> \<not> st_xoth st"

definition env_ok :: "os_env \<Rightarrow> bool" where
  "env_ok os \<longleftrightarrow> os_pipe_output os \<and> os_pipe_input os \<and> os_fork os"

lemma discard_headers_fresh:
  assumes "length b = BUFSZ"
  shows "discard_headers (Suc 0) (b[0 := CHR ''A'', Suc 0 := NUL]) s = headers_end s"
proof -
  obtain x y r where "b = x # y # r"
    using assms by (cases b; cases "tl b") auto
  then show ?thesis
    using assms by (simp add: discard_headers_eq)
qed

lemma serve_file_ok:
  assumes "garbage_ok g" "os_fopen os path = Some f" "no_nul f"
  shows "\<exists>c'. serve_file os g path c = Inr c' \<and> outp c' = outp c @ ok_headers @ sent_part f \<and>
    inp c' = headers_end (inp c)"
  using cat_sends [OF assms(3)] assms(1,2)
  by (simp add: serve_file_def Let_def garbage_ok_def discard_headers_fresh)


text \<open>C24: \<^verbatim>\<open>get_line\<close> stores in a buffer of \<open>k + 1\<close> bytes the next line of the input, of at most \<open>k\<close>
  bytes, with CR and CR LF turned into LF, terminates it with NUL inside the buffer, leaves the
  rest of the buffer alone, returns the line's length and consumes exactly the line.\<close>

theorem get_line_reads_next_line:
  assumes "length buf = Suc k"
  shows "get_line (Suc k) buf s =
      (fst (next_line k s) @ NUL # drop (Suc (length (fst (next_line k s)))) buf,
       length (fst (next_line k s)), snd (next_line k s)) \<and>
    length (fst (next_line k s)) \<le> k"
  using get_line_next_line [OF assms, of s] length_next_line [of k s]
  by (cases "next_line k s") simp

theorem get_line_reads_next_line_witness:
  "get_line 4 ''????'' (''a'' @ crlf @ ''b'') = ([CHR ''a'', LF, NUL, CHR ''?''], 2, ''b'')"
  using get_line_reads_next_line [of "''????''" 3 "''a'' @ crlf @ ''b''"]
  by (simp add: numeral_eq_Suc)

text \<open>C1: a well-formed GET request (words of at most 254 bytes, headers that fit the buffer) for a URL
  without \<^verbatim>\<open>?\<close> that does not end in \<^verbatim>\<open>/\<close>, and for an existing file that can be read, is neither a directory nor
  executable and holds no NUL byte, is answered with the 200 headers and the file, except that the bytes
  behind the last line feed are sent in full pieces of 1023 bytes only and the rest of them is lost; a
  file that ends in a line feed is sent whole.  Afterwards the socket is closed, and all the request's
  headers are consumed and nothing behind them.\<close>

theorem get_static_file:
  assumes "garbage_ok g" and "request_line_ok m url v" and "strcaseeq m ''GET''"
    and "CHR ''?'' \<notin> set url" and "last url \<noteq> CHR ''/''"
    and "list_all header_ok hs"
    and "inp c = request_line m url v @ crlf @ header_block hs @ body"
    and "os_stat os (''htdocs'' @ url) = Some st" and "plain_file st"
    and "os_fopen os (''htdocs'' @ url) = Some f" and "no_nul f"
  shows "\<exists>c'. accept_request os g c = Inr c' \<and> outp c' = outp c @ ok_headers @ sent_part f \<and>
    inp c' = body \<and> closed c' \<and> (f = [] \<or> last f = LF \<longrightarrow> sent_part f = f)"
proof -
  have url: "length url \<le> 254" "url \<noteq> []"
    using assms(2) by (auto simp: request_line_ok_def word_ok_def)
  obtain buf n where acc: "accept_request os g c = respond os g buf n m url (Some [])
      (strcaseeq m ''POST'') (c\<lparr>inp := header_block hs @ body\<rparr>)"
    using accept_request_line [OF assms(1,2,7), of os] assms(3) split_query_none [OF assms(4)]
    by auto
  obtain c' where "serve_file os g (''htdocs'' @ url) (c\<lparr>inp := header_block hs @ body\<rparr>) = Inr c'"
      "outp c' = outp c @ ok_headers @ sent_part f" "inp c' = body"
    using serve_file_ok [OF assms(1,10,11), of "c\<lparr>inp := header_block hs @ body\<rparr>"]
      headers_end_block [OF assms(6), of body] by auto
  then show ?thesis
    using assms(5,8,9) url strcaseeq_GET_not_POST [OF assms(3)] sent_part_lines [of f]
    by (simp add: acc respond_def plain_file_def last_append)
qed

definition demo_garbage :: garbage where
  "demo_garbage = \<lparr>g_accept = replicate BUFSZ NUL, g_serve = replicate BUFSZ NUL,
     g_cgi = replicate BUFSZ NUL, g_bad = replicate BUFSZ NUL, g_char = NUL\<rparr>"

lemma demo_garbage_ok: "garbage_ok demo_garbage"
  by (simp add: garbage_ok_def demo_garbage_def)

definition demo_os :: "file_stat \<Rightarrow> os_env" where
  "demo_os st = \<lparr>os_stat = (\<lambda>p. Some st), os_fopen = (\<lambda>p. Some (''hello'' @ [LF])),
     os_pipe_output = True, os_pipe_input = True, os_fork = True,
     os_script = (\<lambda>path env stdin. stdin)\<rparr>"

theorem get_static_file_witness:
  "\<exists>c'. accept_request (demo_os \<lparr>st_isdir = False, st_xusr = False, st_xgrp = False, st_xoth = False\<rparr>)
      demo_garbage
      \<lparr>inp = request_line ''GET'' ''/a.txt'' ''HTTP/1.0'' @ crlf @ header_block [''Host: x''] @ [],
        outp = [], closed = False\<rparr> = Inr c' \<and>
    outp c' = [] @ ok_headers @ ''hello'' @ [LF] \<and> inp c' = [] \<and> closed c'"
proof -
  let ?c = "\<lparr>inp = request_line ''GET'' ''/a.txt'' ''HTTP/1.0'' @ crlf @ header_block [''Host: x''] @ [],
        outp = [], closed = False\<rparr>"
  have "request_line_ok ''GET'' ''/a.txt'' ''HTTP/1.0''"
    by (simp add: request_line_ok_def request_line_def word_ok_def isspace_def)
  then show ?thesis
    using get_static_file [OF demo_garbage_ok, of "''GET''" "''/a.txt''" "''HTTP/1.0''"
        "[''Host: x'']" ?c "[]"
        "demo_os \<lparr>st_isdir = False, st_xusr = False, st_xgrp = False, st_xoth = False\<rparr>"
        "\<lparr>st_isdir = False, st_xusr = False, st_xgrp = False, st_xoth = False\<rparr>" "''hello'' @ [LF]"]
    by (auto simp: strcaseeq_def header_ok_def demo_os_def plain_file_def)
qed

lemma execute_cgi_get:
  assumes "garbage_ok g" "strcaseeq m ''GET''" "env_ok os" "length q \<le> 241" "length m \<le> 239"
    and s: "list_all header_ok hs" "inp c = header_block hs @ body"
  shows "\<exists>c'. execute_cgi os g path m (Some q) c = Inr c' \<and>
    outp c' = outp c @ ''HTTP/1.0 200 OK'' @ crlf @ ''HTTP/1.0 200 OK'' @ crlf @
      os_script os path [''REQUEST_METHOD='' @ m, ''QUERY_STRING='' @ q] [] \<and> inp c' = body"
  using assms strcaseeq_GET_not_POST [OF assms(2)] headers_end_block [OF s(1)]
  by (simp add: execute_cgi_def cgi_headers_def child_env_def Let_def discard_headers_fresh
      env_ok_def garbage_ok_def)


text \<open>C13: a GET request with a query of at most 241 bytes (or one for an executable file) runs the
  script with the request method and the query in its environment and an empty standard input,
  and the client receives the status line twice, from the parent and from the child, and then
  what the script writes.\<close>

theorem get_with_query:
  assumes "garbage_ok g" and "env_ok os" and "request_line_ok m (u @ CHR ''?'' # q) v"
    and "strcaseeq m ''GET''" and "CHR ''?'' \<notin> set u" and "last u \<noteq> CHR ''/''" and "u \<noteq> []"
    and "length q \<le> 241" and "list_all header_ok hs"
    and "inp c = request_line m (u @ CHR ''?'' # q) v @ crlf @ header_block hs @ body"
    and "os_stat os (''htdocs'' @ u) = Some st" and "\<not> st_isdir st"
  shows "\<exists>c'. accept_request os g c = Inr c' \<and>
    outp c' = outp c @ ''HTTP/1.0 200 OK'' @ crlf @ ''HTTP/1.0 200 OK'' @ crlf @
      os_script os (''htdocs'' @ u) [''REQUEST_METHOD='' @ m, ''QUERY_STRING='' @ q] [] \<and>
    inp c' = body \<and> closed c'"
proof -
  have u: "length u \<le> 254" and m: "length m \<le> 239"
    using assms(3) strcaseeq_length [OF assms(4)]
    by (auto simp: request_line_ok_def word_ok_def)
  obtain buf n where acc: "accept_request os g c = respond os g buf n m u (Some q) True
      (c\<lparr>inp := header_block hs @ body\<rparr>)"
    using accept_request_line [OF assms(1,3,10), of os] assms(4) split_query_some [OF assms(5)]
    by auto
  obtain c' where "execute_cgi os g (''htdocs'' @ u) m (Some q) (c\<lparr>inp := header_block hs @ body\<rparr>) = Inr c'"
    "outp c' = outp c @ ''HTTP/1.0 200 OK'' @ crlf @ ''HTTP/1.0 200 OK'' @ crlf @
      os_script os (''htdocs'' @ u) [''REQUEST_METHOD='' @ m, ''QUERY_STRING='' @ q] []" "inp c' = body"
    using execute_cgi_get [OF assms(1,4,2,8) m assms(9), of "c\<lparr>inp := header_block hs @ body\<rparr>" body] by auto
  then show ?thesis
    using assms(6,7,11,12) u by (simp add: acc respond_def last_append)
qed

theorem get_with_query_witness:
  "\<exists>c'. accept_request (demo_os \<lparr>st_isdir = False, st_xusr = True, st_xgrp = True, st_xoth = True\<rparr>)
      demo_garbage
      \<lparr>inp = request_line ''get'' (''/c.cgi'' @ CHR ''?'' # ''color=red'') ''HTTP/1.0'' @ crlf @
          header_block [] @ [], outp = [], closed = False\<rparr> = Inr c' \<and>
    outp c' = [] @ ''HTTP/1.0 200 OK'' @ crlf @ ''HTTP/1.0 200 OK'' @ crlf @
      os_script (demo_os \<lparr>st_isdir = False, st_xusr = True, st_xgrp = True, st_xoth = True\<rparr>)
        (''htdocs'' @ ''/c.cgi'') [''REQUEST_METHOD='' @ ''get'', ''QUERY_STRING='' @ ''color=red''] [] \<and>
    inp c' = [] \<and> closed c'"
proof -
  have "strcaseeq ''get'' ''GET''" unfolding strcaseeq_def by code_simp
  moreover have "request_line_ok ''get'' (''/c.cgi'' @ CHR ''?'' # ''color=red'') ''HTTP/1.0''"
    by (simp add: request_line_ok_def request_line_def word_ok_def isspace_def)
  ultimately show ?thesis
    using get_with_query [OF demo_garbage_ok, of
        "demo_os \<lparr>st_isdir = False, st_xusr = True, st_xgrp = True, st_xoth = True\<rparr>"
        "''get''" "''/c.cgi''" "''color=red''" "''HTTP/1.0''" "[]"
        "\<lparr>inp = request_line ''get'' (''/c.cgi'' @ CHR ''?'' # ''color=red'') ''HTTP/1.0'' @ crlf @
          header_block [] @ [], outp = [], closed = False\<rparr>" "[]"
        "\<lparr>st_isdir = False, st_xusr = True, st_xgrp = True, st_xoth = True\<rparr>"]
    by (simp add: demo_os_def env_ok_def)
qed

lemma forward_body_eq:
  "forward_body n c s =
    (take n s @ replicate (n - length s) (last (c # s)), drop n s)"
proof (induction n c s rule: forward_body.induct)
  case (2 n c)
  then show ?case by (simp add: replicate_append_same [symmetric])
next
  case (3 n c d s)
  then show ?case by (cases s) auto
qed simp

lemma nat_digits_bound: "0 \<le> i \<Longrightarrow> i < 2 ^ 31 \<Longrightarrow> length (nat_digits (nat i)) \<le> 10"
  using length_nat_digits [of "nat i" 9] by simp

lemma show_int_bound: "- (2 ^ 31) \<le> i \<Longrightarrow> i < 2 ^ 31 \<Longrightarrow> length (show_int i) \<le> 11"
  using nat_digits_bound [of i] length_nat_digits [of "nat (- i)" 9]
  by (cases "0 \<le> i") (auto simp: show_int_def)

lemma header_length_bounds:
  "- (2 ^ 31) \<le> cl \<Longrightarrow> cl < 2 ^ 31 \<Longrightarrow>
    - (2 ^ 31) \<le> header_length hs cl \<and> header_length hs cl < 2 ^ 31"
  by (induction hs arbitrary: cl) (auto simp: atoi_bounds [simplified])

lemma post_headers_bounds:
  "- (2 ^ 31) \<le> cl \<Longrightarrow> cl < 2 ^ 31 \<Longrightarrow> post_headers n buf s cl = (cl', s') \<Longrightarrow>
    - (2 ^ 31) \<le> cl' \<and> cl' < 2 ^ 31"
proof (induction n buf s cl rule: post_headers.induct)
  case (1 n buf s cl)
  note ps = post_headers.simps [of n buf s cl]
  show ?case
  proof (cases "0 < n \<and> cstr buf \<noteq> [LF]")
    case True
    obtain b n' t where gl: "get_line BUFSZ (buf[15 := NUL]) s = (b, n', t)" by (metis prod_cases3)
    let ?cl = "if strcaseeq (buf[15 := NUL]) ''Content-Length:'' then atoi (drop 16 (buf[15 := NUL])) else cl"
    have "post_headers n' b t ?cl = (cl', s')"
      using "1.prems"(3) True gl by (simp add: ps Let_def)
    moreover have "- (2 ^ 31) \<le> ?cl" "?cl < 2 ^ 31"
      using "1.prems"(1,2) atoi_bounds [of "drop 16 (buf[15 := NUL])"] by auto
    ultimately show ?thesis
      using "1.IH" [OF True refl refl gl [symmetric] refl] by blast
  next
    case False
    with "1.prems" show ?thesis by (auto simp: ps)
  qed
qed

text \<open>C3: a POST request whose headers give a content length \<open>n\<close> of at least 0 runs the script with
  that length in its environment; its standard input is the next \<open>n\<close> bytes of the request, and
  when the client sends fewer bytes, the last byte received is repeated up to \<open>n\<close> bytes.\<close>

theorem post_runs_script:
  assumes "garbage_ok g" and "env_ok os" and "request_line_ok m u v" and "strcaseeq m ''POST''"
    and "last u \<noteq> CHR ''/''" and "list_all header_ok hs"
    and "header_length hs (-1) = n" and "0 \<le> n"
    and "inp c = request_line m u v @ crlf @ header_block hs @ body"
    and "os_stat os (''htdocs'' @ u) = Some st" and "\<not> st_isdir st"
  shows "\<exists>c'. accept_request os g c = Inr c' \<and>
    outp c' = outp c @ ''HTTP/1.0 200 OK'' @ crlf @ ''HTTP/1.0 200 OK'' @ crlf @
      os_script os (''htdocs'' @ u) [''REQUEST_METHOD='' @ m, ''CONTENT_LENGTH='' @ show_int n]
        (take (nat n) body @ replicate (nat n - length body) (last (g_char g # body))) \<and>
    inp c' = drop (nat n) body \<and> closed c'"
proof -
  have u: "length u \<le> 254" "u \<noteq> []" and m: "length m \<le> 239" and notget: "\<not> strcaseeq m ''GET''"
    using assms(3) strcaseeq_length [OF assms(4)] assms(4) strcaseeq_GET_not_POST [of m]
    by (auto simp: request_line_ok_def word_ok_def)
  obtain buf k where acc: "accept_request os g c = respond os g buf k m u None True
      (c\<lparr>inp := header_block hs @ body\<rparr>)"
    using accept_request_line [OF assms(1,3,9), of os] assms(4) notget by auto
  have l: "length ((g_cgi g)[0 := CHR ''A'', Suc 0 := NUL]) = BUFSZ"
    using assms(1) by (simp add: garbage_ok_def)
  have cl: "cgi_headers g m (header_block hs @ body) = (n, body)"
    using post_headers_block [OF assms(6) l, where body = body and cl = "-1"] assms(4,7) notget
    by (simp add: cgi_headers_def)
  have n: "n < 2 ^ 31" using header_length_bounds [of "-1" hs] assms(7) by auto
  have "length (show_int n) \<le> 11" using show_int_bound [of n] assms(8) n by simp
  then show ?thesis
    using assms(2,4,5,8,10,11) u m notget cl
    by (simp add: acc respond_def last_append execute_cgi_def child_env_def env_ok_def Let_def
        forward_body_eq)
qed

theorem post_runs_script_witness:
  "\<exists>c'. accept_request (demo_os \<lparr>st_isdir = False, st_xusr = True, st_xgrp = True, st_xoth = True\<rparr>)
      demo_garbage
      \<lparr>inp = request_line ''POST'' ''/c.cgi'' ''HTTP/1.0'' @ crlf @
          header_block [''Content-Length: 5''] @ ''abc'', outp = [], closed = False\<rparr> = Inr c' \<and>
    outp c' = [] @ ''HTTP/1.0 200 OK'' @ crlf @ ''HTTP/1.0 200 OK'' @ crlf @
      os_script (demo_os \<lparr>st_isdir = False, st_xusr = True, st_xgrp = True, st_xoth = True\<rparr>)
        (''htdocs'' @ ''/c.cgi'') [''REQUEST_METHOD='' @ ''POST'', ''CONTENT_LENGTH='' @ show_int 5]
        (take (nat 5) ''abc'' @ replicate (nat 5 - length ''abc'') (last (g_char demo_garbage # ''abc''))) \<and>
    inp c' = drop (nat 5) ''abc'' \<and> closed c'"
proof -
  have "request_line_ok ''POST'' ''/c.cgi'' ''HTTP/1.0''"
    by (simp add: request_line_ok_def request_line_def word_ok_def isspace_def)
  moreover have "header_length [''Content-Length: 5''] (-1) = 5"
    by code_simp
  ultimately show ?thesis
    using post_runs_script [OF demo_garbage_ok, of
        "demo_os \<lparr>st_isdir = False, st_xusr = True, st_xgrp = True, st_xoth = True\<rparr>"
        "''POST''" "''/c.cgi''" "''HTTP/1.0''" "[''Content-Length: 5'']" 5
        "\<lparr>inp = request_line ''POST'' ''/c.cgi'' ''HTTP/1.0'' @ crlf @
          header_block [''Content-Length: 5''] @ ''abc'', outp = [], closed = False\<rparr>" "''abc''"
        "\<lparr>st_isdir = False, st_xusr = True, st_xgrp = True, st_xoth = True\<rparr>"]
    by (simp add: demo_os_def env_ok_def strcaseeq_def header_ok_def del: header_length.simps)
qed


section \<open>Buffer safety\<close>

lemma length_scan_url: "length (scan_url room buf j n) \<le> room"
  by (induction room buf j n rule: scan_url.induct) auto

lemma length_split_query: "split_query s = (u, q) \<Longrightarrow> length u \<le> length s"
  by (induction s arbitrary: u) (auto split: if_splits prod.splits)

lemma length_split_query_rest: "split_query s = (u, Some q) \<Longrightarrow> length q < length s"
  by (induction s arbitrary: u) (auto split: if_splits prod.splits)

lemma serve_file_no_overflow: "serve_file os g p c \<noteq> Inl Buffer_Overflow"
  by (simp add: serve_file_def Let_def split: option.splits)

lemma child_env_overflow:
  assumes "length m \<le> 4" and "- (2 ^ 31) \<le> cl" "cl < 2 ^ 31"
    and "child_env m qs cl = Inl Buffer_Overflow"
  shows "strcaseeq m ''GET'' \<and> (\<exists>q. qs = Some q \<and> 241 < length q)"
  using assms(1,4) show_int_bound [OF assms(2,3)]
  by (auto simp: child_env_def rbind_eq_Inl into_buf_def split: if_splits option.splits)

lemma cgi_headers_bounds:
  "cgi_headers g m s = (cl, s') \<Longrightarrow> - (2 ^ 31) \<le> cl \<and> cl < 2 ^ 31"
  using post_headers_bounds [of "-1"]
  by (auto simp: cgi_headers_def Let_def split: if_splits prod.splits)

lemma execute_cgi_overflow:
  assumes "length m \<le> 4" and "execute_cgi os g p m qs c = Inl Buffer_Overflow"
  shows "strcaseeq m ''GET'' \<and> (\<exists>q. qs = Some q \<and> 241 < length q)"
proof -
  obtain cl s where ch: "cgi_headers g m (inp c) = (cl, s)" by fastforce
  have b: "- (2 ^ 31) \<le> cl" "cl < 2 ^ 31" using cgi_headers_bounds [OF ch] by simp_all
  have "child_env m qs cl = Inl Buffer_Overflow"
    using assms(2) ch
    by (auto simp: execute_cgi_def Let_def rbind_eq_Inl split: if_splits prod.splits)
  then show ?thesis by (rule child_env_overflow [OF assms(1) b])
qed

lemma into_buf_eq_Inl: "into_buf n s = Inl e \<longleftrightarrow> n \<le> length s \<and> e = Buffer_Overflow"
  by (auto simp: into_buf_def)

lemma into_buf_eq_Inr: "into_buf n s = Inr t \<longleftrightarrow> length s < n \<and> t = s"
  by (auto simp: into_buf_def)

lemma respond_overflow:
  assumes "length u \<le> 254" "length m \<le> 4"
    and "respond os g buf n m u qs cgi c = Inl Buffer_Overflow"
  shows "strcaseeq m ''GET'' \<and> (\<exists>q. qs = Some q \<and> 241 < length q)"
  using assms serve_file_no_overflow execute_cgi_overflow [OF assms(2)]
  unfolding respond_def
  by (fastforce simp: rbind_eq_Inl into_buf_eq_Inl into_buf_eq_Inr split: if_splits option.splits)

lemma respond_long_query:
  assumes "garbage_ok g" and "env_ok os" and "request_line_ok m (u @ CHR ''?'' # q) v"
    and "strcaseeq m ''GET''" and "CHR ''?'' \<notin> set u" and "last u \<noteq> CHR ''/''" and "u \<noteq> []"
    and "241 < length q"
    and "inp c = request_line m (u @ CHR ''?'' # q) v @ crlf @ s"
    and "os_stat os (''htdocs'' @ u) = Some st" and "\<not> st_isdir st"
  shows "accept_request os g c = Inl Buffer_Overflow"
proof -
  have u: "length u \<le> 254" and m: "length m = 3"
    using assms(3) strcaseeq_length [OF assms(4)]
    by (auto simp: request_line_ok_def word_ok_def)
  obtain buf n where acc: "accept_request os g c = respond os g buf n m u (Some q) True
      (c\<lparr>inp := s\<rparr>)"
    using accept_request_line [OF assms(1,3,9), of os] assms(4) split_query_some [OF assms(5)]
    by auto
  have "child_env m (Some q) (-1) = Inl Buffer_Overflow"
    using assms(4,8) m by (simp add: child_env_def into_buf_def)
  then have "execute_cgi os g (''htdocs'' @ u) m (Some q) (c\<lparr>inp := s\<rparr>) = Inl Buffer_Overflow"
    using assms(2,4) by (simp add: execute_cgi_def cgi_headers_def env_ok_def Let_def)
  then show ?thesis
    using assms(6,7,10,11) u by (simp add: acc respond_def last_append)
qed

text \<open>C2: whatever bytes a client sends and whatever the stack holds, no string function writes past
  the end of \<^verbatim>\<open>method\<close>, \<^verbatim>\<open>url\<close>, \<^verbatim>\<open>path\<close>, \<^verbatim>\<open>meth_env\<close> or \<^verbatim>\<open>length_env\<close>; the only overflow left in the
  handler is that of \<^verbatim>\<open>query_env\<close>, and it needs a GET request with a query of more than 241
  bytes.\<close>

theorem only_long_query_overflows:
  assumes "accept_request os g c = Inl Buffer_Overflow"
  shows "\<exists>buf numchars s method u q.
    get_line BUFSZ (g_accept g) (inp c) = (buf, numchars, s) \<and>
    method = cstr (scan_method 254 buf 0) \<and> strcaseeq method ''GET'' \<and>
    split_query (cstr (scan_url 254 buf
      (skip_spaces buf (length (scan_method 254 buf 0)) numchars) numchars)) = (u, Some q) \<and>
    241 < length q"
proof -
  obtain buf n s where gl: "get_line BUFSZ (g_accept g) (inp c) = (buf, n, s)" by (metis prod_cases3)
  define m where "m = cstr (scan_method 254 buf 0)"
  define url where "url = cstr (scan_url 254 buf
    (skip_spaces buf (length (scan_method 254 buf 0)) n) n)"
  obtain u q where uq: "split_query url = (u, q)" by fastforce
  have url: "length url \<le> 254"
    unfolding url_def using length_cstr_le length_scan_url order_trans by blast
  then have u: "length u \<le> 254" using length_split_query [OF uq] by simp
  have m: "length m \<le> 4" if "strcaseeq m ''GET'' \<or> strcaseeq m ''POST''"
    using that by (auto dest!: strcaseeq_length simp: m_def)
  have "strcaseeq m ''GET'' \<and> (\<exists>q'. q = Some q' \<and> 241 < length q')"
    using assms respond_overflow [OF u m, of os g buf n q True "c\<lparr>inp := s\<rparr>"]
      respond_overflow [OF u m, of os g buf n "Some []" "strcaseeq m ''POST''" "c\<lparr>inp := s\<rparr>"]
      respond_overflow [OF url m, of os g buf n None "strcaseeq m ''POST''" "c\<lparr>inp := s\<rparr>"]
    by (auto simp: accept_request_def gl Let_def uq m_def [symmetric] url_def [symmetric]
        split: if_splits option.splits)
  then show ?thesis
    using gl uq unfolding m_def url_def by blast
qed

theorem only_long_query_overflows_witness:
  "\<exists>buf numchars s method u q.
    get_line BUFSZ (g_accept demo_garbage)
      (request_line ''GET'' (''/c'' @ CHR ''?'' # replicate 250 (CHR ''a'')) ''HTTP/1.0'' @ crlf @ [])
      = (buf, numchars, s) \<and>
    method = cstr (scan_method 254 buf 0) \<and> strcaseeq method ''GET'' \<and>
    split_query (cstr (scan_url 254 buf
      (skip_spaces buf (length (scan_method 254 buf 0)) numchars) numchars)) = (u, Some q) \<and>
    241 < length q"
proof -
  let ?st = "\<lparr>st_isdir = False, st_xusr = True, st_xgrp = True, st_xoth = True\<rparr>"
  let ?c = "\<lparr>inp = request_line ''GET'' (''/c'' @ CHR ''?'' # replicate 250 (CHR ''a'')) ''HTTP/1.0'' @ crlf @ [],
      outp = [], closed = False\<rparr>"
  have "request_line_ok ''GET'' (''/c'' @ CHR ''?'' # replicate 250 (CHR ''a'')) ''HTTP/1.0''"
    by (simp add: request_line_ok_def request_line_def word_ok_def isspace_def no_nul_def)
  then have "accept_request (demo_os ?st) demo_garbage ?c = Inl Buffer_Overflow"
    using respond_long_query [OF demo_garbage_ok, of "demo_os ?st" "''GET''" "''/c''"
        "replicate 250 (CHR ''a'')" "''HTTP/1.0''" ?c "[]" ?st]
    by (simp add: demo_os_def env_ok_def strcaseeq_def)
  from only_long_query_overflows [OF this] show ?thesis by simp
qed

text \<open>that overflow is real: every well-formed GET request with a query of more than 241 bytes,
  for a path that exists and is no directory, makes the child write past the end of its
  255-byte \<^verbatim>\<open>query_env\<close>.\<close>

theorem long_query_overflows:
  assumes "garbage_ok g" and "env_ok os" and "request_line_ok m (u @ CHR ''?'' # q) v"
    and "strcaseeq m ''GET''" and "CHR ''?'' \<notin> set u" and "last u \<noteq> CHR ''/''" and "u \<noteq> []"
    and "241 < length q"
    and "inp c = request_line m (u @ CHR ''?'' # q) v @ crlf @ s"
    and "os_stat os (''htdocs'' @ u) = Some st" and "\<not> st_isdir st"
  shows "accept_request os g c = Inl Buffer_Overflow"
  using assms by (rule respond_long_query)

theorem long_query_overflows_witness:
  "accept_request (demo_os \<lparr>st_isdir = False, st_xusr = True, st_xgrp = True, st_xoth = True\<rparr>)
      demo_garbage
      \<lparr>inp = request_line ''GET'' (''/c'' @ CHR ''?'' # replicate 242 (CHR ''a'')) ''HTTP/1.0'' @ crlf @ [],
        outp = [], closed = False\<rparr> = Inl Buffer_Overflow"
proof -
  have "request_line_ok ''GET'' (''/c'' @ CHR ''?'' # replicate 242 (CHR ''a'')) ''HTTP/1.0''"
    by (simp add: request_line_ok_def request_line_def word_ok_def isspace_def no_nul_def)
  then show ?thesis
    using long_query_overflows [OF demo_garbage_ok, of
        "demo_os \<lparr>st_isdir = False, st_xusr = True, st_xgrp = True, st_xoth = True\<rparr>"
        "''GET''" "''/c''" "replicate 242 (CHR ''a'')" "''HTTP/1.0''"
        "\<lparr>inp = request_line ''GET'' (''/c'' @ CHR ''?'' # replicate 242 (CHR ''a'')) ''HTTP/1.0'' @ crlf @ [],
          outp = [], closed = False\<rparr>" "[]"
        "\<lparr>st_isdir = False, st_xusr = True, st_xgrp = True, st_xoth = True\<rparr>"]
    by (simp add: demo_os_def env_ok_def strcaseeq_def)
qed

section \<open>Refused requests\<close>

text \<open>a request whose method is neither GET nor POST gets the 501 page; the server reads only its
  first line and returns without closing the socket, while every other request that is answered
  ends with the socket closed.\<close>

theorem socket_closed_iff_method_supported:
  assumes "accept_request os g c = Inr c'" and "\<not> closed c"
    and "get_line BUFSZ (g_accept g) (inp c) = (buf, numchars, s)"
    and "method = cstr (scan_method 254 buf 0)"
  shows "closed c' \<longleftrightarrow> strcaseeq method ''GET'' \<or> strcaseeq method ''POST''"
proof -
  have r: "closed c''" if "respond os g b n m u q cgi d = Inr c''" for b n m u q cgi d c''
    using that by (auto simp: respond_def rbind_eq_Inr split: option.splits)
  have un: "closed (unimplemented d) = closed d" for d
    by (simp add: unimplemented_def)
  show ?thesis
    using assms r by (auto simp: accept_request_def Let_def un split: if_splits prod.splits option.splits)
qed

theorem socket_closed_iff_method_supported_witness:
  "\<exists>c' buf numchars s. accept_request (demo_os \<lparr>st_isdir = False, st_xusr = True, st_xgrp = True, st_xoth = True\<rparr>)
      demo_garbage \<lparr>inp = request_line ''PUT'' ''/'' ''HTTP/1.0'' @ crlf @ [], outp = [], closed = False\<rparr> = Inr c' \<and>
    get_line BUFSZ (g_accept demo_garbage) (request_line ''PUT'' ''/'' ''HTTP/1.0'' @ crlf @ []) = (buf, numchars, s) \<and>
    (closed c' \<longleftrightarrow> strcaseeq (cstr (scan_method 254 buf 0)) ''GET'' \<or> strcaseeq (cstr (scan_method 254 buf 0)) ''POST'')"
proof -
  let ?os = "demo_os \<lparr>st_isdir = False, st_xusr = True, st_xgrp = True, st_xoth = True\<rparr>"
  let ?c = "\<lparr>inp = request_line ''PUT'' ''/'' ''HTTP/1.0'' @ crlf @ [], outp = [], closed = False\<rparr>"
  have ok: "request_line_ok ''PUT'' ''/'' ''HTTP/1.0''"
    by (simp add: request_line_ok_def request_line_def word_ok_def isspace_def)
  have no: "\<not> strcaseeq ''PUT'' ''GET''" "\<not> strcaseeq ''PUT'' ''POST''"
    unfolding strcaseeq_def by code_simp+
  obtain c' where acc: "accept_request ?os demo_garbage ?c = Inr c'"
    using accept_request_line [OF demo_garbage_ok ok, of ?c "[]" ?os] no by auto
  obtain buf n s where gl: "get_line BUFSZ (g_accept demo_garbage) (inp ?c) = (buf, n, s)"
    by (metis prod_cases3)
  show ?thesis
    using socket_closed_iff_method_supported [OF acc _ gl refl] acc gl by auto
qed

text \<open>a GET request for a directory that can be searched never reaches \<^verbatim>\<open>serve_file\<close>: the search
  permission of the directory counts as the permission to execute its \<^verbatim>\<open>index.html\<close>, which is run
  as a script.\<close>

theorem directory_runs_index_as_script:
  assumes "garbage_ok g" and "env_ok os" and "request_line_ok m url v" and "strcaseeq m ''GET''"
    and "CHR ''?'' \<notin> set url" and "last url \<noteq> CHR ''/''" and "list_all header_ok hs"
    and "inp c = request_line m url v @ crlf @ header_block hs @ body"
    and "os_stat os (''htdocs'' @ url) = Some st" and "st_isdir st" and "st_xusr st"
  shows "\<exists>c'. accept_request os g c = Inr c' \<and>
    outp c' = outp c @ ''HTTP/1.0 200 OK'' @ crlf @ ''HTTP/1.0 200 OK'' @ crlf @
      os_script os (''htdocs'' @ url @ ''/index.html'') [''REQUEST_METHOD='' @ m, ''QUERY_STRING=''] []"
proof -
  have u: "length url \<le> 254" "url \<noteq> []" and m: "length m \<le> 239"
    using assms(3) strcaseeq_length [OF assms(4)]
    by (auto simp: request_line_ok_def word_ok_def)
  obtain buf n where acc: "accept_request os g c = respond os g buf n m url (Some [])
      (strcaseeq m ''POST'') (c\<lparr>inp := header_block hs @ body\<rparr>)"
    using accept_request_line [OF assms(1,3,8), of os] assms(4) split_query_none [OF assms(5)]
    by auto
  obtain c' where "execute_cgi os g (''htdocs'' @ url @ ''/index.html'') m (Some [])
      (c\<lparr>inp := header_block hs @ body\<rparr>) = Inr c'"
    "outp c' = outp c @ ''HTTP/1.0 200 OK'' @ crlf @ ''HTTP/1.0 200 OK'' @ crlf @
      os_script os (''htdocs'' @ url @ ''/index.html'') [''REQUEST_METHOD='' @ m, ''QUERY_STRING=''] []"
    using execute_cgi_get [OF assms(1,4,2) _ m assms(7), of "[]" "c\<lparr>inp := header_block hs @ body\<rparr>" body]
    by auto
  then show ?thesis
    using assms(6,9-11) u by (simp add: acc respond_def last_append)
qed

theorem directory_runs_index_as_script_witness:
  "\<exists>c'. accept_request (demo_os \<lparr>st_isdir = True, st_xusr = True, st_xgrp = True, st_xoth = True\<rparr>)
      demo_garbage
      \<lparr>inp = request_line ''GET'' ''/docs'' ''HTTP/1.0'' @ crlf @ header_block [] @ [],
        outp = [], closed = False\<rparr> = Inr c' \<and>
    outp c' = [] @ ''HTTP/1.0 200 OK'' @ crlf @ ''HTTP/1.0 200 OK'' @ crlf @
      os_script (demo_os \<lparr>st_isdir = True, st_xusr = True, st_xgrp = True, st_xoth = True\<rparr>)
        (''htdocs'' @ ''/docs'' @ ''/index.html'') [''REQUEST_METHOD='' @ ''GET'', ''QUERY_STRING=''] []"
proof -
  have "request_line_ok ''GET'' ''/docs'' ''HTTP/1.0''"
    by (simp add: request_line_ok_def request_line_def word_ok_def isspace_def)
  then show ?thesis
    using directory_runs_index_as_script [OF demo_garbage_ok, of
        "demo_os \<lparr>st_isdir = True, st_xusr = True, st_xgrp = True, st_xoth = True\<rparr>"
        "''GET''" "''/docs''" "''HTTP/1.0''" "[]"
        "\<lparr>inp = request_line ''GET'' ''/docs'' ''HTTP/1.0'' @ crlf @ header_block [] @ [],
          outp = [], closed = False\<rparr>" "[]"
        "\<lparr>st_isdir = True, st_xusr = True, st_xgrp = True, st_xoth = True\<rparr>"]
    by (simp add: demo_os_def env_ok_def strcaseeq_def)
qed


text \<open>The 400 response sends the five buffers whole: whatever the stack held behind each line of text
  goes to the client.\<close>

lemma bad_request_sends_whole_buffers:
  assumes "length buf = BUFSZ"
  shows "length (outp (bad_request buf c)) = length (outp c) + 5 * BUFSZ"
proof -
  have sw: "length (fst (send_whole t (b, d))) = BUFSZ \<and>
      length (outp (snd (send_whole t (b, d)))) = length (outp d) + BUFSZ"
    if "length b = BUFSZ" "length t < BUFSZ" for t b d
    using that by (simp add: send_whole_def Let_def)
  define s1 where "s1 = send_whole (''HTTP/1.0 400 BAD REQUEST'' @ crlf) (buf, c)"
  define s2 where "s2 = send_whole (''Content-type: text/html'' @ crlf) s1"
  define s3 where "s3 = send_whole crlf s2"
  define s4 where "s4 = send_whole ''<P>Your browser sent a bad request, '' s3"
  have "length (fst s1) = BUFSZ \<and> length (outp (snd s1)) = length (outp c) + BUFSZ"
    unfolding s1_def by (rule sw [OF assms]) simp
  moreover from this have "length (fst s2) = BUFSZ \<and> length (outp (snd s2)) = length (outp (snd s1)) + BUFSZ"
    unfolding s2_def using sw [of "fst s1" _ "snd s1"] by simp
  moreover from this have "length (fst s3) = BUFSZ \<and> length (outp (snd s3)) = length (outp (snd s2)) + BUFSZ"
    unfolding s3_def using sw [of "fst s2" crlf "snd s2"] by simp
  moreover from this have "length (fst s4) = BUFSZ \<and> length (outp (snd s4)) = length (outp (snd s3)) + BUFSZ"
    unfolding s4_def using sw [of "fst s3" _ "snd s3"] by simp
  moreover from this have "length (outp (snd (send_whole
      (''such as a POST without a Content-Length.'' @ crlf) s4))) = length (outp (snd s4)) + BUFSZ"
    using sw [of "fst s4" _ "snd s4"] by simp
  moreover have "bad_request buf c = snd (send_whole (''such as a POST without a Content-Length.'' @ crlf) s4)"
    unfolding bad_request_def s4_def s3_def s2_def s1_def by (rule refl)
  ultimately show ?thesis by presburger
qed

end
