(* ===== verification/CgiScripts.thy ===== *)
theory CgiScripts
  imports Httpd
begin

text \<open>
  The two CGI scripts that tinyHttp runs: \<^verbatim>\<open>tinyHttp/htdocs/check.c\<close>, which lists the parameters of the
  query string, and \<^verbatim>\<open>tinyHttp/htdocs/color.c\<close>, which decodes the parameter \<^verbatim>\<open>color\<close> into a page.

  A script is a function from the two environment variables it reads (\<open>None\<close> when \<^verbatim>\<open>getenv\<close> returns
  null) to the bytes it prints.  \<^verbatim>\<open>strtok\<close>, \<^verbatim>\<open>strchr\<close> and \<^verbatim>\<open>strncpy\<close> of the standard library are modelled on
  the text they work on; writing past one of the 256-byte buffers of \<^verbatim>\<open>color.c\<close> is \<open>Buffer_Overflow\<close>,
  reading past one is \<open>Out_Of_Bounds\<close>.
\<close>

section \<open>Tokens and pairs\<close>

abbreviation AMP :: char where "AMP \<equiv> CHR ''&''"
abbreviation EQS :: char where "EQS \<equiv> CHR ''=''"
abbreviation PCT :: char where "PCT \<equiv> CHR 0x25"
abbreviation PLUS :: char where "PLUS \<equiv> CHR ''+''"

text \<open>One call of \<^verbatim>\<open>strtok\<close>: the next token and the text behind it\<close>

definition strtok :: "char \<Rightarrow> string \<Rightarrow> (string \<times> string) option" where
  "strtok d s = (case dropWhile (\<lambda>c. c = d) s of
       [] \<Rightarrow> None
     | c # r \<Rightarrow> Some (takeWhile (\<lambda>c. c \<noteq> d) (c # r), drop 1 (dropWhile (\<lambda>c. c \<noteq> d) (c # r))))"

text \<open>\<^verbatim>\<open>strchr(pair, '=')\<close> and the text on both sides of the hit\<close>

fun strchr_split :: "string \<Rightarrow> (string \<times> string) option" where
  "strchr_split [] = None"
| "strchr_split (c # s) = (if c = EQS then Some ([], s)
     else (case strchr_split s of None \<Rightarrow> None | Some (k, v) \<Rightarrow> Some (c # k, v)))"

lemma strtok_shorter: "strtok d s = Some (t, r) \<Longrightarrow> length r < length s"
proof -
  assume a: "strtok d s = Some (t, r)"
  then obtain c u where u: "dropWhile (\<lambda>c. c = d) s = c # u" by (auto simp: strtok_def split: list.splits)
  have "c \<noteq> d" using hd_dropWhile [of "\<lambda>c. c = d" s] u by simp
  then have "r = drop 1 (dropWhile (\<lambda>c. c \<noteq> d) u)" using a u by (auto simp: strtok_def)
  then have "length r \<le> length u" using length_dropWhile_le [of "\<lambda>c. c \<noteq> d" u] by simp
  moreover have "length (c # u) \<le> length s" using length_dropWhile_le [of "\<lambda>c. c = d" s] u by metis
  ultimately show ?thesis by simp
qed

text \<open>A token in front of a delimiter, and the last one\<close>

lemma strtok_token:
  assumes "t \<noteq> []" "d \<notin> set t"
  shows "strtok d (t @ d # r) = Some (t, r)" "strtok d t = Some (t, [])"
proof -
  obtain c u where t: "t = c # u" using assms(1) by (cases t) auto
  have u: "dropWhile (\<lambda>c. c \<noteq> d) (u @ d # r) = d # r" "takeWhile (\<lambda>c. c \<noteq> d) (u @ d # r) = u"
    "dropWhile (\<lambda>c. c \<noteq> d) u = []" "takeWhile (\<lambda>c. c \<noteq> d) u = u"
    using assms(2) unfolding t by (induction u) auto
  moreover have "c \<noteq> d" using assms(2) by (auto simp: t)
  ultimately show "strtok d (t @ d # r) = Some (t, r)" "strtok d t = Some (t, [])"
    by (simp_all add: strtok_def t del: dropWhile_eq_Nil_conv takeWhile_eq_all_conv)
qed

lemma strtok_Nil [simp]: "strtok d [] = None"
  by (simp add: strtok_def)

lemma strchr_split_hit: "EQS \<notin> set k \<Longrightarrow> strchr_split (k @ EQS # v) = Some (k, v)"
  by (induction k) auto

section \<open>\<^verbatim>\<open>check.c\<close>\<close>

definition key_value :: "string \<Rightarrow> string \<times> string" where
  "key_value pair = (case strchr_split pair of Some kv \<Rightarrow> kv | None \<Rightarrow> (pair, []))"

function parse_pairs :: "nat \<Rightarrow> string \<Rightarrow> (string \<times> string) list" where
  "parse_pairs count rest =
     (if 100 \<le> count then [] else
      (case strtok AMP rest of
         None \<Rightarrow> []
       | Some (pair, rest') \<Rightarrow> key_value pair # parse_pairs (count + 1) rest'))"
  by pat_completeness auto
termination by (relation "measure (\<lambda>(count, rest). 100 - count)") auto

declare parse_pairs.simps [simp del]

definition parse_query :: "string \<Rightarrow> (string \<times> string) list" where
  "parse_query query = parse_pairs 0 (cstr query)"

definition line_of :: "string \<Rightarrow> string" where
  "line_of s = s @ [LF]"

definition check_main :: "string option \<Rightarrow> string option \<Rightarrow> string" where
  "check_main method query_string =
     (let params = (case (method, query_string) of
          (Some m, Some q) \<Rightarrow> if cstr m = ''GET'' then parse_query q else []
        | _ \<Rightarrow> [])
      in ''Content-Type: text/html'' @ crlf @ crlf
         @ line_of ''<html>''
         @ line_of ''<head><title>Example CGI script</title></head>''
         @ line_of (''<body bgcolor='' @ [CHR 0x22] @ ''red'' @ [CHR 0x22] @ ''>'')
         @ line_of ''<h1>CGI Example</h1>''
         @ line_of ''<p>This is an example of CGI</p>''
         @ line_of ''<p>Parameters given to this script:</p>''
         @ line_of ''<ul>''
         @ concat (map (\<lambda>(k, v). line_of (''<li>'' @ k @ '': '' @ v @ ''</li>'')) params)
         @ line_of ''</ul>''
         @ line_of ''</body>''
         @ line_of ''</html>'')"

section \<open>\<^verbatim>\<open>color.c\<close>\<close>

definition high_digit :: "char \<Rightarrow> nat" where
  "high_digit a =
     (if 48 \<le> ccode a \<and> ccode a \<le> 57 then ccode a - 48
      else if 65 \<le> ccode a \<and> ccode a \<le> 70 then ccode a - 55
      else if 97 \<le> ccode a \<and> ccode a \<le> 102 then ccode a - 87
      else ccode a)"

text \<open>The last guard of the second digit looks at the first digit, already converted.\<close>

definition low_digit :: "nat \<Rightarrow> char \<Rightarrow> nat" where
  "low_digit a b =
     (if 48 \<le> ccode b \<and> ccode b \<le> 57 then ccode b - 48
      else if 65 \<le> ccode b \<and> ccode b \<le> 70 then ccode b - 55
      else if 97 \<le> ccode b \<and> a \<le> 102 then ccode b - 87
      else ccode b)"

definition plain_char :: "char \<Rightarrow> char" where
  "plain_char c = (if c = PLUS then CHR '' '' else c)"

fun url_decode :: "string \<Rightarrow> string" where
  "url_decode (c # a # b # s) =
     (if c = PCT \<and> a \<noteq> NUL \<and> b \<noteq> NUL \<and> isxdigit a \<and> isxdigit b
      then char_of (16 * high_digit a + low_digit (high_digit a) b) # url_decode s
      else plain_char c # url_decode (a # b # s))"
| "url_decode [c, a] = plain_char c # url_decode [a]"
| "url_decode [c] = [plain_char c]"
| "url_decode [] = []"

text \<open>Decoding the C string at \<open>src\<close> into a buffer of 256 bytes, terminator included\<close>

definition decode_into :: "string \<Rightarrow> string result" where
  "decode_into src = rbind (into_buf 256 (url_decode (cstr src))) (\<lambda>d. Inr (cstr d))"

function find_param :: "string \<Rightarrow> string \<Rightarrow> (string option) result" where
  "find_param rest param_name =
     (case strtok AMP rest of
        None \<Rightarrow> Inr None
      | Some (pair, rest') \<Rightarrow>
          (case strchr_split pair of
             None \<Rightarrow> find_param rest' param_name
           | Some (k, v) \<Rightarrow>
               rbind (decode_into k) (\<lambda>decoded_name.
               if decoded_name = param_name
               then rbind (decode_into v) (\<lambda>decoded_value. Inr (Some decoded_value))
               else find_param rest' param_name)))"
  by pat_completeness auto
termination
  by (relation "measure (\<lambda>(rest, _). length rest)") (auto dest: strtok_shorter)

declare find_param.simps [simp del]

definition get_param_value :: "string \<Rightarrow> string \<Rightarrow> (string option) result" where
  "get_param_value query param_name = find_param (cstr query) param_name"

fun to_upper :: "string \<Rightarrow> string result" where
  "to_upper [] = Inl Out_Of_Bounds"
| "to_upper (c # s) = (if c = NUL then Inr (c # s) else rbind (to_upper s) (\<lambda>t. Inr (toupper c # t)))"

definition strncpy :: "nat \<Rightarrow> string \<Rightarrow> string" where
  "strncpy n s = take n (cstr s @ replicate n NUL)"

definition color_page :: "string \<Rightarrow> string \<Rightarrow> string" where
  "color_page title color =
     ''Content-Type: text/html'' @ crlf @ crlf
     @ line_of ''<html>''
     @ line_of (''<head><title>'' @ title @ ''</title></head>'')
     @ line_of (''<body bgcolor='' @ [CHR 0x22] @ color @ [CHR 0x22] @ ''>'')
     @ line_of (''<h1>This is '' @ color @ ''</h1>'')
     @ line_of ''</body>''
     @ line_of ''</html>''"

definition color_main :: "string option \<Rightarrow> string option \<Rightarrow> string result" where
  "color_main method query_string =
     rbind (case (method, query_string) of
         (Some m, Some q) \<Rightarrow> if cstr m = ''GET'' then
             rbind (get_param_value q ''color'') (\<lambda>p. Inr (case p of Some color \<Rightarrow> color | None \<Rightarrow> ''blue''))
           else Inr ''blue''
       | _ \<Rightarrow> Inr ''blue'') (\<lambda>color.
     rbind (to_upper (strncpy 256 color)) (\<lambda>upper_color.
     Inr (color_page (cstr upper_color) color)))"

section \<open>Query strings\<close>

text \<open>The text of a list of pairs, as a browser writes it\<close>

fun join_pairs :: "(string \<times> string) list \<Rightarrow> string" where
  "join_pairs [] = []"
| "join_pairs [(k, v)] = k @ EQS # v"
| "join_pairs ((k, v) # p # ps) = k @ EQS # v @ AMP # join_pairs (p # ps)"

definition pair_ok :: "string \<times> string \<Rightarrow> bool" where
  "pair_ok kv \<longleftrightarrow> (case kv of (k, v) \<Rightarrow> AMP \<notin> set k \<and> EQS \<notin> set k \<and> AMP \<notin> set v \<and> no_nul k \<and> no_nul v)"

lemma no_nul_join_pairs: "(\<And>p. p \<in> set ps \<Longrightarrow> pair_ok p) \<Longrightarrow> no_nul (join_pairs ps)"
  by (induction ps rule: join_pairs.induct) (auto simp: pair_ok_def)

lemma strtok_join_pairs:
  assumes "pair_ok (k, v)"
  shows "\<exists>rest. strtok AMP (join_pairs ((k, v) # ps)) = Some (k @ EQS # v, rest) \<and> rest = join_pairs ps"
  using strtok_token(1) [of "k @ EQS # v" AMP "join_pairs ps"] strtok_token(2) [of "k @ EQS # v" AMP] assms
  by (cases ps) (auto simp: pair_ok_def)

lemma strtok_join_pairs_simp:
  "pair_ok (k, v) \<Longrightarrow> strtok AMP (join_pairs ((k, v) # ps)) = Some (k @ EQS # v, join_pairs ps)"
  using strtok_join_pairs by blast

lemma split_pair: "pair_ok (k, v) \<Longrightarrow> strchr_split (k @ EQS # v) = Some (k, v)"
  by (simp add: pair_ok_def strchr_split_hit)

lemma parse_pairs_join:
  "(\<And>p. p \<in> set ps \<Longrightarrow> pair_ok p) \<Longrightarrow> parse_pairs n (join_pairs ps) = take (100 - n) ps"
proof (induction ps arbitrary: n)
  case Nil
  then show ?case by (simp add: parse_pairs.simps)
next
  case (Cons p ps)
  obtain k v where p: "p = (k, v)" by (cases p)
  have ok: "pair_ok (k, v)" using Cons.prems [of p] by (simp add: p)
  have "100 - n = Suc (100 - (n + 1))" if "n < 100" using that by simp
  then show ?case
    using Cons.IH [of "n + 1"] Cons.prems
    by (simp add: parse_pairs.simps [of n] p strtok_join_pairs_simp [OF ok] key_value_def split_pair [OF ok] del: join_pairs.simps)
qed

section \<open>Decoding\<close>

lemma low_digit: "isxdigit b \<Longrightarrow> isxdigit a \<Longrightarrow> low_digit (high_digit a) b = high_digit b"
  by (auto simp: low_digit_def high_digit_def isxdigit_def isdigit_def)

definition hex_char :: "nat \<Rightarrow> char" where
  "hex_char n = char_of (if n < 10 then 48 + n else 55 + n)"

lemma hex_char:
  assumes "n < 16"
  shows "isxdigit (hex_char n)" "high_digit (hex_char n) = n" "hex_char n \<noteq> NUL"
proof -
  have c: "ccode (hex_char n) = (if n < 10 then 48 + n else 55 + n)" using assms by (simp add: hex_char_def)
  show "isxdigit (hex_char n)" "high_digit (hex_char n) = n"
    using assms by (auto simp: isxdigit_def isdigit_def high_digit_def c)
  have "ccode NUL = 0" by (simp add: ccode_def)
  then show "hex_char n \<noteq> NUL" using c by (metis add_is_0 zero_neq_numeral)
qed

text \<open>The percent encoding of a string; the characters of \<open>keep\<close> stay as they are.\<close>

definition encode_char :: "(char \<Rightarrow> bool) \<Rightarrow> char \<Rightarrow> string" where
  "encode_char keep c =
     (if c = CHR '' '' then [PLUS] else if keep c then [c]
      else [PCT, hex_char (ccode c div 16), hex_char (ccode c mod 16)])"

definition url_encode :: "(char \<Rightarrow> bool) \<Rightarrow> string \<Rightarrow> string" where
  "url_encode keep s = concat (map (encode_char keep) s)"

definition keep_ok :: "(char \<Rightarrow> bool) \<Rightarrow> bool" where
  "keep_ok keep \<longleftrightarrow> \<not> keep PCT \<and> \<not> keep PLUS \<and> \<not> keep AMP \<and> \<not> keep EQS \<and> \<not> keep NUL"

lemma url_decode_plain:
  assumes "c \<noteq> PCT"
  shows "url_decode (c # s) = plain_char c # url_decode s"
proof (cases s)
  case (Cons a t)
  then show ?thesis using assms by (cases t) simp_all
qed simp

lemma url_decode_hex:
  assumes "m < 16" "n < 16"
  shows "url_decode (PCT # hex_char m # hex_char n # s) = char_of (16 * m + n) # url_decode s"
proof -
  have "low_digit m (hex_char n) = n"
    using low_digit [OF hex_char(1) [OF assms(2)] hex_char(1) [OF assms(1)]] hex_char(2) assms by simp
  then show ?thesis using hex_char [OF assms(1)] hex_char [OF assms(2)] by simp
qed

lemma url_decode_encode_char:
  assumes "keep_ok keep"
  shows "url_decode (encode_char keep c @ s) = c # url_decode s"
proof -
  have m: "ccode c div 16 < 16" "ccode c mod 16 < 16" using ccode_less [of c] by simp_all
  have "char_of (16 * (ccode c div 16) + ccode c mod 16) = c" by (simp add: ccode_def)
  moreover have "c \<noteq> PCT \<and> c \<noteq> PLUS" if "keep c" using assms that by (auto simp: keep_ok_def)
  ultimately show ?thesis
    using url_decode_hex [OF m]
    by (simp add: encode_char_def url_decode_plain plain_char_def del: url_decode.simps)
qed

lemma url_decode_encode: "keep_ok keep \<Longrightarrow> url_decode (url_encode keep s) = s"
  by (induction s) (simp_all add: url_encode_def url_decode_encode_char)

lemma encode_char_set: "keep_ok keep \<Longrightarrow> x \<in> set (encode_char keep c) \<Longrightarrow> x \<noteq> AMP \<and> x \<noteq> EQS \<and> x \<noteq> NUL"
proof -
  assume k: "keep_ok keep" and x: "x \<in> set (encode_char keep c)"
  have m: "ccode c div 16 < 16" "ccode c mod 16 < 16" using ccode_less [of c] by simp_all
  have xd: "\<not> isxdigit AMP" "\<not> isxdigit EQS" "\<not> isxdigit NUL"
    by (simp_all add: isxdigit_def isdigit_def ccode_def)
  show ?thesis
    using x k hex_char(1) [OF m(1)] hex_char(1) [OF m(2)] xd
    by (auto simp: encode_char_def keep_ok_def split: if_splits)
qed

lemma url_encode_pair_ok: "keep_ok keep \<Longrightarrow> pair_ok (url_encode keep k, url_encode keep v)"
  using encode_char_set by (auto simp: pair_ok_def url_encode_def no_nul_def)

lemma length_url_decode: "length (url_decode s) \<le> length s"
  by (induction s rule: url_decode.induct) auto

section \<open>Looking a parameter up\<close>

definition form_query :: "(char \<Rightarrow> bool) \<Rightarrow> (string \<times> string) list \<Rightarrow> string" where
  "form_query keep ps = join_pairs (map (\<lambda>(k, v). (url_encode keep k, url_encode keep v)) ps)"

definition fits :: "string \<times> string \<Rightarrow> bool" where
  "fits kv \<longleftrightarrow> (case kv of (k, v) \<Rightarrow> no_nul k \<and> no_nul v \<and> length k < 256 \<and> length v < 256)"

lemma decode_encoded:
  assumes "keep_ok keep" "no_nul s"
  shows "decode_into (url_encode keep s) = (if length s < 256 then Inr s else Inl Buffer_Overflow)"
proof -
  have "no_nul (url_encode keep s)" using url_encode_pair_ok [OF assms(1), of s s] by (simp add: pair_ok_def)
  then show ?thesis using assms by (simp add: decode_into_def url_decode_encode into_buf_def)
qed

lemma strtok_form_query:
  "keep_ok keep \<Longrightarrow> strtok AMP (form_query keep ((k, v) # ps)) =
     Some (url_encode keep k @ EQS # url_encode keep v, form_query keep ps)"
  using strtok_join_pairs_simp [OF url_encode_pair_ok, of keep k v] by (simp add: form_query_def)

lemma find_param_encoded:
  assumes "keep_ok keep" "no_nul k"
  shows "find_param (form_query keep ((k, v) # ps)) name =
      (if 256 \<le> length k then Inl Buffer_Overflow
       else if k = name then rbind (decode_into (url_encode keep v)) (\<lambda>d. Inr (Some d))
       else find_param (form_query keep ps) name)"
  unfolding find_param.simps [of "form_query keep ((k, v) # ps)" name] strtok_form_query [OF assms(1)] option.case prod.case
    split_pair [OF url_encode_pair_ok [OF assms(1)]] decode_encoded [OF assms]
  by (cases "length k < 256") simp_all

lemma find_param_form:
  assumes "keep_ok keep"
  shows "find_param (form_query keep []) name = Inr None"
    and "no_nul k \<Longrightarrow> find_param (form_query keep ((k, v) # ps)) name =
      (if 256 \<le> length k then Inl Buffer_Overflow
       else if k = name then rbind (decode_into (url_encode keep v)) (\<lambda>d. Inr (Some d))
       else find_param (form_query keep ps) name)"
proof -
  show "find_param (form_query keep []) name = Inr None"
    by (simp add: form_query_def find_param.simps)
  assume "no_nul k"
  then show "find_param (form_query keep ((k, v) # ps)) name =
      (if 256 \<le> length k then Inl Buffer_Overflow
       else if k = name then rbind (decode_into (url_encode keep v)) (\<lambda>d. Inr (Some d))
       else find_param (form_query keep ps) name)"
    using find_param_encoded [OF assms, of k] by simp
qed

lemma no_nul_form_query: "keep_ok keep \<Longrightarrow> no_nul (form_query keep ps)"
  unfolding form_query_def by (rule no_nul_join_pairs) (auto simp: url_encode_pair_ok)

text \<open>No text of fewer than 256 characters makes the search overflow.\<close>

lemma decode_into_short: "length s < 256 \<Longrightarrow> \<exists>d. decode_into s = Inr d \<and> length d < 256 \<and> no_nul d"
proof -
  assume "length s < 256"
  then have l: "length (url_decode (cstr s)) < 256"
    using length_url_decode [of "cstr s"] length_cstr_le [of s] by linarith
  then have "length (cstr (url_decode (cstr s))) < 256"
    using length_cstr_le [of "url_decode (cstr s)"] by linarith
  then show ?thesis using l by (simp add: decode_into_def)
qed

lemma length_strchr_split: "strchr_split s = Some (k, v) \<Longrightarrow> length k + length v < length s"
  by (induction s arbitrary: k) (auto split: if_splits option.splits)

lemma strtok_token_length:
  assumes "strtok d s = Some (t, r)"
  shows "length t \<le> length s"
proof -
  obtain c u where u: "dropWhile (\<lambda>c. c = d) s = c # u" using assms by (auto simp: strtok_def split: list.splits)
  then have "t = takeWhile (\<lambda>c. c \<noteq> d) (c # u)" using assms unfolding strtok_def by simp
  then have "length t \<le> length (c # u)" using length_takeWhile_le by metis
  also have "\<dots> \<le> length s" using length_dropWhile_le [of "\<lambda>c. c = d" s] u by metis
  finally show ?thesis .
qed

lemma find_param_short:
  "length rest < 256 \<Longrightarrow> \<exists>p. find_param rest name = Inr p \<and> (\<forall>v. p = Some v \<longrightarrow> length v < 256 \<and> no_nul v)"
proof (induction rest name rule: find_param.induct)
  case (1 rest name)
  show ?case
  proof (cases "strtok AMP rest")
    case None
    then show ?thesis by (simp add: find_param.simps [of rest])
  next
    case (Some pr)
    obtain pair rest' where pr: "strtok AMP rest = Some (pair, rest')" using Some by (cases pr) auto
    have len: "length pair < 256" "length rest' < 256"
      using strtok_token_length [OF pr] strtok_shorter [OF pr] 1(3) by simp_all
    show ?thesis
    proof (cases "strchr_split pair")
      case None
      then show ?thesis using 1(1) [OF pr refl None len(2)] by (simp add: find_param.simps [of rest] pr)
    next
      case (Some kv)
      obtain k v where kv: "strchr_split pair = Some (k, v)" using Some by (cases kv) auto
      then have l: "length k < 256" "length v < 256" using length_strchr_split [OF kv] len by simp_all
      obtain dk dv where d: "decode_into k = Inr dk" "decode_into v = Inr dv" "length dv < 256" "no_nul dv"
        using decode_into_short [OF l(1)] decode_into_short [OF l(2)] by blast
      show ?thesis
        using 1(2) [OF pr refl kv refl _ len(2)] d by (simp add: find_param.simps [of rest] pr kv)
    qed
  qed
qed

section \<open>The page of \<^verbatim>\<open>color.c\<close>\<close>

lemma to_upper_terminated: "no_nul s \<Longrightarrow> to_upper (s @ NUL # t) = Inr (map toupper s @ NUL # t)"
  by (induction s) auto

lemma toupper_not_nul: "c \<noteq> NUL \<Longrightarrow> toupper c \<noteq> NUL"
proof -
  assume c: "c \<noteq> NUL"
  have "ccode NUL = 0" by (simp add: ccode_def)
  moreover have "ccode (toupper c) \<noteq> 0" if "islower c"
    using that ccode_less [of c] by (auto simp: toupper_def islower_def)
  ultimately show ?thesis using c by (auto simp: toupper_def)
qed

lemma no_nul_map_toupper: "no_nul s \<Longrightarrow> no_nul (map toupper s)"
  by (induction s) (simp_all add: toupper_not_nul)

lemma upper_title:
  assumes "no_nul s" "length s < 256"
  shows "\<exists>u. to_upper (strncpy 256 s) = Inr u \<and> cstr u = map toupper s"
proof -
  define m where "m = 255 - length s"
  have m: "256 = length s + Suc m" using assms(2) by (simp add: m_def)
  have "strncpy 256 s = s @ NUL # replicate m NUL"
    using assms(1) unfolding strncpy_def m by simp
  moreover have "no_nul (map toupper s)" using no_nul_map_toupper assms(1) by simp
  ultimately show ?thesis using to_upper_terminated [OF assms(1)] by simp
qed

section \<open>The environment tinyHttp hands over\<close>

fun getenv :: "string \<Rightarrow> string list \<Rightarrow> string option" where
  "getenv name [] = None"
| "getenv name (e # es) = (if take (Suc (length name)) e = name @ [EQS] then Some (drop (Suc (length name)) e)
     else getenv name es)"

definition color_cgi :: "string list \<Rightarrow> string result" where
  "color_cgi env = color_main (getenv ''REQUEST_METHOD'' env) (getenv ''QUERY_STRING'' env)"

lemma getenv_child_env:
  assumes "child_env method qs n = Inr env"
  shows "getenv ''REQUEST_METHOD'' env = Some method"
    "getenv ''QUERY_STRING'' env = Some q \<Longrightarrow> length q < 256"
  using assms
  by (auto simp: child_env_def into_buf_eq_Inr rbind_eq_Inr split: if_splits option.splits)

lemma color_main_short:
  assumes "\<And>q. query = Some q \<Longrightarrow> length q < 256"
  shows "\<exists>c. length c < 256 \<and> color_main method query = Inr (color_page (map toupper c) c)"
proof -
  have page: "rbind (to_upper (strncpy 256 c)) (\<lambda>u. Inr (color_page (cstr u) c)) = Inr (color_page (map toupper c) c)"
    if "no_nul c" "length c < 256" for c
    using upper_title [OF that] by auto
  have blue: "no_nul ''blue''" "length ''blue'' < 256" by simp_all
  show ?thesis
  proof (cases "\<exists>m q. method = Some m \<and> query = Some q \<and> cstr m = ''GET''")
    case True
    then obtain m q where mq: "method = Some m" "query = Some q" "cstr m = ''GET''" by blast
    have "length (cstr q) < 256" using assms [OF mq(2)] length_cstr_le [of q] by simp
    then obtain p where p: "get_param_value q ''color'' = Inr p" "\<And>v. p = Some v \<Longrightarrow> length v < 256 \<and> no_nul v"
      using find_param_short [of "cstr q" "''color''"] by (auto simp: get_param_value_def)
    show ?thesis
    proof (cases p)
      case None
      then have "color_main method query = Inr (color_page (map toupper ''blue'') ''blue'')"
        using page [OF blue] mq p(1) unfolding color_main_def by simp
      then show ?thesis using blue(2) by blast
    next
      case (Some v)
      then have "color_main method query = Inr (color_page (map toupper v) v)"
        using page [of v] mq p unfolding color_main_def by simp
      then show ?thesis using p(2) [OF Some] by blast
    qed
  next
    case False
    then have "color_main method query = Inr (color_page (map toupper ''blue'') ''blue'')"
      using page [OF blue] unfolding color_main_def by (auto split: option.splits)
    then show ?thesis using blue(2) by blast
  qed
qed

section \<open>Properties\<close>

text \<open>Every environment with which tinyHttp starts \<^verbatim>\<open>color.cgi\<close> makes the script print its page:
  no buffer of the script overflows, because the query that fits the buffers of the server is shorter
  than those of the script; the title is the colour in upper case.\<close>

theorem color_script_is_safe_under_httpd:
  assumes "child_env method query_string content_length = Inr env"
  shows "\<exists>c. length c < 256 \<and> color_cgi env = Inr (color_page (map toupper c) c)"
  unfolding color_cgi_def using getenv_child_env(2) [OF assms] by (rule color_main_short)

theorem color_script_is_safe_under_httpd_witness:
  "\<exists>c. length c < 256 \<and>
     color_cgi [''REQUEST_METHOD=GET'', ''QUERY_STRING=color=red''] = Inr (color_page (map toupper c) c)"
  by (rule color_script_is_safe_under_httpd [of "''GET''" "Some ''color=red''" 0])
    (simp add: child_env_def into_buf_def strcaseeq_def)

text \<open>A parameter is looked up by its decoded name: for every list of pairs that fit the buffers,
  written in the form encoding of a browser, the script finds the value of the first pair with the name,
  decoded to what was encoded, and nothing when there is none.\<close>

theorem lookup_decodes_first_match:
  assumes "keep_ok keep" "\<forall>p \<in> set ps. fits p"
  shows "get_param_value (form_query keep ps) name = Inr (map_of ps name)"
proof -
  have "find_param (form_query keep ps) name = Inr (map_of ps name)"
    using assms(2)
  proof (induction ps)
    case Nil
    then show ?case using find_param_form(1) [OF assms(1)] by simp
  next
    case (Cons p ps)
    obtain k v where p: "p = (k, v)" by (cases p)
    have "no_nul k" "no_nul v" "length k < 256" "length v < 256" using Cons.prems by (auto simp: p fits_def)
    then show ?case
      using Cons find_param_form(2) [OF assms(1)] decode_encoded [OF assms(1)] by (simp add: p)
  qed
  then show ?thesis by (simp add: get_param_value_def no_nul_form_query [OF assms(1)])
qed

theorem lookup_decodes_first_match_witness:
  "get_param_value (form_query (\<lambda>c. islower c) [(''a'', ''1''), (''color'', ''dark & red'')]) ''color''
     = Inr (Some ''dark & red'')"
  using lookup_decodes_first_match [of "\<lambda>c. islower c" "[(''a'', ''1''), (''color'', ''dark & red'')]" "''color''"]
  by (simp add: keep_ok_def islower_def ccode_def fits_def)

text \<open>The first parameter whose decoded name has 256 bytes or more, or the searched one when its value
  has, overflows a buffer of the script, whatever follows it.\<close>

theorem long_parameter_overflows:
  assumes "keep_ok keep" "\<forall>p \<in> set ps. fits p" "name \<notin> fst ` set ps" "no_nul k" "no_nul v"
    and "256 \<le> length k \<or> k = name \<and> 256 \<le> length v"
  shows "get_param_value (form_query keep (ps @ (k, v) # qs)) name = Inl Buffer_Overflow"
proof -
  have "find_param (form_query keep (ps @ (k, v) # qs)) name = Inl Buffer_Overflow"
    using assms(2,3)
  proof (induction ps)
    case Nil
    then show ?case
      using find_param_form(2) [OF assms(1,4)] decode_encoded [OF assms(1,5)] assms(6) by auto
  next
    case (Cons p ps)
    obtain a b where p: "p = (a, b)" by (cases p)
    have "no_nul a" "length a < 256" "a \<noteq> name" using Cons.prems by (auto simp: p fits_def)
    then show ?case using Cons find_param_form(2) [OF assms(1)] by (simp add: p)
  qed
  then show ?thesis by (simp add: get_param_value_def no_nul_form_query [OF assms(1)])
qed

theorem long_parameter_overflows_witness:
  "get_param_value (form_query (\<lambda>c. islower c) ([] @ (replicate 256 CHR ''a'', ''x'') # [])) ''color'' = Inl Buffer_Overflow"
  by (rule long_parameter_overflows) (simp_all add: keep_ok_def islower_def ccode_def no_nul_def)

text \<open>\<^verbatim>\<open>check.c\<close> splits a query string into exactly its pairs, in order, but lists only the first
  hundred of them; the values are printed as they were received.\<close>

theorem check_lists_first_hundred_pairs:
  assumes "\<forall>p \<in> set ps. pair_ok p"
  shows "parse_query (join_pairs ps) = take 100 ps
    \<and> check_main (Some ''GET'') (Some (join_pairs ps)) = check_main (Some ''GET'') (Some (join_pairs (take 100 ps)))"
proof -
  have a: "parse_query (join_pairs qs) = take 100 qs" if "set qs \<subseteq> set ps" for qs
    using assms that parse_pairs_join [of qs 0] no_nul_join_pairs [of qs]
    by (auto simp: parse_query_def subset_iff)
  then show ?thesis
    using a [of ps] a [of "take 100 ps"] set_take_subset [of 100 ps] by (simp add: check_main_def)
qed

theorem check_lists_first_hundred_pairs_witness:
  "parse_query ''a=1&b=2'' = [(''a'', ''1''), (''b'', ''2'')]"
  using check_lists_first_hundred_pairs [of "[(''a'', ''1''), (''b'', ''2'')]"] by (simp add: pair_ok_def)

end
