(* ===== verification/EpollServer.thy ===== *)
theory EpollServer
  imports Prelude
begin

unbundle bit_operations_syntax

text \<open>
  The echo server \<^verbatim>\<open>epoll/main.c\<close>: its table of events, the callbacks and the event loop.

  The state is the array \<^verbatim>\<open>g_events\<close> (an event is named by its index; \<^verbatim>\<open>ev->arg\<close> always is the event
  itself) together with what the kernel holds for the process: the interest list of the epoll instance
  (descriptor, mask, event), the open descriptors and the bytes sent so far.  The results of the
  system calls are inputs: \<^verbatim>\<open>accept\<close> gives a descriptor or fails, \<^verbatim>\<open>recv\<close> gives bytes (none when the
  peer has closed) or fails, \<^verbatim>\<open>send\<close> takes as many bytes as the kernel wants or fails.  The member
  \<^verbatim>\<open>len\<close> lies directly behind \<^verbatim>\<open>buf[128]\<close> in the structure, so the byte \<^verbatim>\<open>buf[128]\<close> that \<^verbatim>\<open>recvdata\<close>
  may write is the low byte of \<^verbatim>\<open>len\<close> (little-endian ABI).
\<close>

section \<open>State\<close>

definition MAX_EVENTS :: nat where "MAX_EVENTS = 1024"
definition BUFLEN :: nat where "BUFLEN = 128"

abbreviation EPOLLIN :: "32 word" where "EPOLLIN \<equiv> 1"
abbreviation EPOLLOUT :: "32 word" where "EPOLLOUT \<equiv> 4"

datatype callback = No_callback | Acceptconn | Recvdata | Senddata

record myevent_s =
  fd :: int
  events :: "32 word"
  call_back :: callback
  status :: nat
  buf :: "8 word list"
  len :: nat
  last_active :: int

record server =
  g_events :: "myevent_s list"
  interest :: "int \<Rightarrow> ((32 word) \<times> nat) option"
  open_fds :: "int set"
  sent :: "(int \<times> 8 word list) list"

record kernel =
  accepted :: "int option"
  fcntl_ok :: bool
  received :: "(8 word list) option"
  taken :: "nat option"
  clock :: int

definition zero_event :: myevent_s where
  "zero_event = \<lparr>fd = 0, events = 0, call_back = No_callback, status = 0, buf = replicate BUFLEN 0,
                 len = 0, last_active = 0\<rparr>"

definition put_event :: "nat \<Rightarrow> (myevent_s \<Rightarrow> myevent_s) \<Rightarrow> server \<Rightarrow> server" where
  "put_event i f s = s\<lparr>g_events := (g_events s)[i := f (g_events s ! i)]\<rparr>"

section \<open>The kernel calls\<close>

datatype ctl_op = EPOLL_CTL_ADD | EPOLL_CTL_MOD | EPOLL_CTL_DEL

text \<open>\<^verbatim>\<open>epoll_ctl\<close>: adding a descriptor twice, or changing or deleting one that is not registered, fails.\<close>

definition epoll_ctl :: "ctl_op \<Rightarrow> int \<Rightarrow> (32 word) \<times> nat \<Rightarrow> server \<Rightarrow> bool \<times> server" where
  "epoll_ctl op d e s =
     (case op of
        EPOLL_CTL_ADD \<Rightarrow> if interest s d = None \<and> d \<in> open_fds s
          then (True, s\<lparr>interest := (interest s)(d \<mapsto> e)\<rparr>) else (False, s)
      | EPOLL_CTL_MOD \<Rightarrow> if interest s d \<noteq> None then (True, s\<lparr>interest := (interest s)(d \<mapsto> e)\<rparr>) else (False, s)
      | EPOLL_CTL_DEL \<Rightarrow> if interest s d \<noteq> None then (True, s\<lparr>interest := (interest s)(d := None)\<rparr>)
          else (False, s))"

definition close_fd :: "int \<Rightarrow> server \<Rightarrow> server" where
  "close_fd d s = s\<lparr>open_fds := open_fds s - {d}, interest := (interest s)(d := None)\<rparr>"

section \<open>The event table\<close>

definition eventset :: "nat \<Rightarrow> int \<Rightarrow> callback \<Rightarrow> int \<Rightarrow> server \<Rightarrow> server" where
  "eventset i d cb now s = put_event i (\<lambda>ev. ev\<lparr>fd := d, call_back := cb, events := 0, status := 0,
     last_active := now\<rparr>) s"

definition eventadd :: "32 word \<Rightarrow> nat \<Rightarrow> server \<Rightarrow> server" where
  "eventadd evs i s =
     (let s1 = put_event i (\<lambda>ev. ev\<lparr>events := evs\<rparr>) s;
          op = (if status (g_events s1 ! i) = 1 then EPOLL_CTL_MOD else EPOLL_CTL_ADD);
          s2 = (if status (g_events s1 ! i) = 1 then s1 else put_event i (\<lambda>ev. ev\<lparr>status := 1\<rparr>) s1)
      in snd (epoll_ctl op (fd (g_events s2 ! i)) (evs, i) s2))"

definition eventdel :: "nat \<Rightarrow> server \<Rightarrow> server" where
  "eventdel i s =
     (if status (g_events s ! i) \<noteq> 1 then s
      else (let s1 = put_event i (\<lambda>ev. ev\<lparr>status := 0\<rparr>) s
            in snd (epoll_ctl EPOLL_CTL_DEL (fd (g_events s1 ! i)) (0, i) s1)))"

section \<open>The callbacks\<close>

definition free_event :: "server \<Rightarrow> nat" where
  "free_event s = length (takeWhile (\<lambda>ev. status ev \<noteq> 0) (take MAX_EVENTS (g_events s)))"

definition acceptconn :: "kernel \<Rightarrow> server \<Rightarrow> server" where
  "acceptconn k s =
     (case accepted k of
        None \<Rightarrow> s
      | Some cfd \<Rightarrow>
          (let s1 = s\<lparr>open_fds := insert cfd (open_fds s)\<rparr>; i = free_event s1 in
           if i = MAX_EVENTS then s1
           else if \<not> fcntl_ok k then s1
           else eventadd EPOLLIN i (eventset i cfd Recvdata (clock k) s1)))"

text \<open>\<^verbatim>\<open>ev->buf[len] = '\0'\<close>\<close>

definition terminate :: "nat \<Rightarrow> myevent_s \<Rightarrow> myevent_s" where
  "terminate n ev = (if n < BUFLEN then ev\<lparr>buf := (buf ev)[n := 0]\<rparr>
                     else ev\<lparr>len := len ev div 256 * 256\<rparr>)"

definition recvdata :: "int \<Rightarrow> nat \<Rightarrow> kernel \<Rightarrow> server \<Rightarrow> server" where
  "recvdata d i k s =
     (case received k of
        None \<Rightarrow> (let s1 = eventdel i s in close_fd (fd (g_events s1 ! i)) s1)
      | Some bytes \<Rightarrow>
          (let data = take BUFLEN bytes; n = length data;
               s0 = put_event i (\<lambda>ev. ev\<lparr>buf := data @ drop n (buf ev)\<rparr>) s;
               s1 = eventdel i s0 in
           if 0 < n then
             (let s2 = put_event i (\<lambda>ev. terminate n (ev\<lparr>len := n\<rparr>)) s1
              in eventadd EPOLLOUT i (eventset i d Senddata (clock k) s2))
           else close_fd (fd (g_events s1 ! i)) s1))"

definition senddata :: "int \<Rightarrow> nat \<Rightarrow> kernel \<Rightarrow> server \<Rightarrow> server" where
  "senddata d i k s =
     (let ev = g_events s ! i;
          n = (case taken k of None \<Rightarrow> 0 | Some m \<Rightarrow> min m (len ev));
          s0 = (if 0 < n then s\<lparr>sent := sent s @ [(d, take n (buf ev))]\<rparr> else s);
          s1 = eventdel i s0 in
      if 0 < n then eventadd EPOLLIN i (eventset i d Recvdata (clock k) s1)
      else close_fd (fd (g_events s1 ! i)) s1)"

definition run_callback :: "nat \<Rightarrow> kernel \<Rightarrow> server \<Rightarrow> server result" where
  "run_callback i k s =
     (let ev = g_events s ! i in
      case call_back ev of
        No_callback \<Rightarrow> Inl Null_Deref
      | Acceptconn \<Rightarrow> Inr (acceptconn k s)
      | Recvdata \<Rightarrow> Inr (recvdata (fd ev) i k s)
      | Senddata \<Rightarrow> Inr (senddata (fd ev) i k s))"

section \<open>The main loop\<close>

definition initlistensocket :: "int \<Rightarrow> int \<Rightarrow> server \<Rightarrow> server" where
  "initlistensocket lfd now s =
     (let s1 = s\<lparr>open_fds := insert lfd (open_fds s)\<rparr>
      in eventadd EPOLLIN MAX_EVENTS (eventset MAX_EVENTS lfd Acceptconn now s1))"

definition initial_server :: "int \<Rightarrow> int \<Rightarrow> server" where
  "initial_server lfd now = initlistensocket lfd now
     \<lparr>g_events = replicate (Suc MAX_EVENTS) zero_event, interest = (\<lambda>_. None), open_fds = {}, sent = []\<rparr>"

text \<open>The timeout scan; \<open>n\<close> turns are left.\<close>

fun scan :: "int \<Rightarrow> nat \<Rightarrow> nat \<Rightarrow> server \<Rightarrow> nat \<times> server" where
  "scan now 0 checkpos s = (checkpos, s)"
| "scan now (Suc n) checkpos s =
     (let c = (if checkpos = MAX_EVENTS then 0 else checkpos) in
      if status (g_events s ! c) \<noteq> 1 then scan now n (c + 1) s
      else if 60 \<le> now - last_active (g_events s ! c) then
        scan now n (c + 1) (eventdel c (close_fd (fd (g_events s ! c)) s))
      else scan now n (c + 1) s)"

text \<open>What the loop does with one event that \<^verbatim>\<open>epoll_wait\<close> reports for event \<open>i\<close> with the mask \<open>m\<close>\<close>

definition dispatch :: "nat \<Rightarrow> 32 word \<Rightarrow> kernel \<Rightarrow> kernel \<Rightarrow> server \<Rightarrow> server result" where
  "dispatch i m k1 k2 s =
     rbind (if m AND EPOLLIN \<noteq> 0 \<and> events (g_events s ! i) AND EPOLLIN \<noteq> 0
            then run_callback i k1 s else Inr s) (\<lambda>s1.
     if m AND EPOLLOUT \<noteq> 0 \<and> events (g_events s1 ! i) AND EPOLLOUT \<noteq> 0
     then run_callback i k2 s1 else Inr s1)"

text \<open>The steps of the loop: a scan of 100 positions, or a reported event of a registered descriptor.
  The kernel hands out only descriptors that are not open.\<close>

definition kernel_ok :: "kernel \<Rightarrow> server \<Rightarrow> bool" where
  "kernel_ok k s \<longleftrightarrow> (\<forall>d. accepted k = Some d \<longrightarrow> d \<notin> open_fds s)"

inductive server_step :: "nat \<times> server result \<Rightarrow> nat \<times> server result \<Rightarrow> bool" where
  scanned: "server_step (c, Inr s) (map_prod id Inr (scan now 100 c s))"
| dispatched: "interest s d = Some (w, i) \<Longrightarrow> kernel_ok k1 s \<Longrightarrow>
    (\<And>s1. run_callback i k1 s = Inr s1 \<Longrightarrow> kernel_ok k2 s1) \<Longrightarrow>
    server_step (c, Inr s) (c, dispatch i m k1 k2 s)"

inductive_cases server_stepE: "server_step (c, r) (c', r')"
inductive_simps server_step_error: "server_step (c, Inl e) x"

inductive server_reachable :: "nat \<times> server result \<Rightarrow> bool" where
  started: "server_reachable (0, Inr (initial_server lfd now))"
| stepped: "server_reachable x \<Longrightarrow> server_step x y \<Longrightarrow> server_reachable y"


section \<open>The table agrees with the kernel\<close>

definition registered_ok :: "server \<Rightarrow> myevent_s \<Rightarrow> nat \<Rightarrow> bool" where
  "registered_ok s ev i \<longleftrightarrow> interest s (fd ev) = Some (events ev, i) \<and> fd ev \<in> open_fds s
     \<and> (events ev = EPOLLIN \<and> (call_back ev = Recvdata \<or> call_back ev = Acceptconn)
        \<or> events ev = EPOLLOUT \<and> call_back ev = Senddata)"

definition table_ok :: "server \<Rightarrow> bool" where
  "table_ok s \<longleftrightarrow> length (g_events s) = Suc MAX_EVENTS
     \<and> (\<forall>i < Suc MAX_EVENTS. length (buf (g_events s ! i)) = BUFLEN)
     \<and> (\<forall>i < Suc MAX_EVENTS. status (g_events s ! i) = 1 \<longrightarrow> registered_ok s (g_events s ! i) i)
     \<and> (\<forall>d w i. interest s d = Some (w, i) \<longrightarrow>
          i < Suc MAX_EVENTS \<and> status (g_events s ! i) = 1 \<and> fd (g_events s ! i) = d)"

lemma table_okD:
  assumes "table_ok s"
  shows "length (g_events s) = Suc MAX_EVENTS"
    and "i < Suc MAX_EVENTS \<Longrightarrow> length (buf (g_events s ! i)) = BUFLEN"
    and "i < Suc MAX_EVENTS \<Longrightarrow> status (g_events s ! i) = 1 \<Longrightarrow> registered_ok s (g_events s ! i) i"
    and "interest s d = Some (w, i) \<Longrightarrow> i < Suc MAX_EVENTS \<and> status (g_events s ! i) = 1 \<and> fd (g_events s ! i) = d"
  using assms by (auto simp: table_ok_def)

lemma put_event_fields [simp]:
  "interest (put_event i f s) = interest s" "open_fds (put_event i f s) = open_fds s"
  "sent (put_event i f s) = sent s" "length (g_events (put_event i f s)) = length (g_events s)"
  by (simp_all add: put_event_def)

lemma put_event_at [simp]:
  "i < length (g_events s) \<Longrightarrow> g_events (put_event i f s) ! i = f (g_events s ! i)"
  "j \<noteq> i \<Longrightarrow> g_events (put_event i f s) ! j = g_events s ! j"
  by (simp_all add: put_event_def)

text \<open>Setting an event that is not registered and adding it\<close>

definition fresh_event :: "int \<Rightarrow> callback \<Rightarrow> int \<Rightarrow> 32 word \<Rightarrow> myevent_s \<Rightarrow> myevent_s" where
  "fresh_event d cb now w ev = ev\<lparr>fd := d, call_back := cb, events := w, status := 1, last_active := now\<rparr>"

lemma set_and_add:
  assumes "i < length (g_events s)" "interest s d = None" "d \<in> open_fds s"
  shows "eventadd w i (eventset i d cb now s) =
    put_event i (fresh_event d cb now w) (s\<lparr>interest := (interest s)(d \<mapsto> (w, i))\<rparr>)"
  using assms
  by (auto simp: eventadd_def eventset_def put_event_def epoll_ctl_def Let_def fresh_event_def
    intro!: server.equality myevent_s.equality arg_cong [where f = "list_update (g_events s) i"])

lemma register_ok:
  assumes "table_ok s" "i < Suc MAX_EVENTS" "status (g_events s ! i) \<noteq> 1" "interest s d = None" "d \<in> open_fds s"
    and "w = EPOLLIN \<and> (cb = Recvdata \<or> cb = Acceptconn) \<or> w = EPOLLOUT \<and> cb = Senddata"
  shows "table_ok (eventadd w i (eventset i d cb now s))"
proof -
  have l: "i < length (g_events s)" using assms(1,2) by (simp add: table_okD)
  let ?s = "put_event i (fresh_event d cb now w) (s\<lparr>interest := (interest s)(d \<mapsto> (w, i))\<rparr>)"
  have at: "g_events ?s ! j = (if j = i then fresh_event d cb now w (g_events s ! i) else g_events s ! j)" for j
    using l by (simp add: put_event_def)
  have "table_ok ?s"
    unfolding table_ok_def
  proof (intro conjI allI impI)
    show "length (g_events ?s) = Suc MAX_EVENTS" using assms(1) by (simp add: table_okD)
    fix j assume j: "j < Suc MAX_EVENTS"
    show "length (buf (g_events ?s ! j)) = BUFLEN"
      using table_okD(2) [OF assms(1) j] by (auto simp: at fresh_event_def)
    assume st: "status (g_events ?s ! j) = 1"
    show "registered_ok ?s (g_events ?s ! j) j"
    proof (cases "j = i")
      case True
      then show ?thesis using assms(5,6) by (auto simp: at registered_ok_def fresh_event_def)
    next
      case False
      then have "registered_ok s (g_events s ! j) j" using st table_okD(3) [OF assms(1) j] by (simp add: at)
      then show ?thesis using assms(4) False by (auto simp: at registered_ok_def)
    qed
  next
    fix e v j assume i: "interest ?s e = Some (v, j)"
    show "j < Suc MAX_EVENTS" "status (g_events ?s ! j) = 1" "fd (g_events ?s ! j) = e"
      using i assms(2,3) table_okD(4) [OF assms(1), of e v j]
      by (auto simp: at fresh_event_def split: if_splits)
  qed
  then show ?thesis using set_and_add [OF l assms(4,5)] by simp
qed

lemma eventdel_ok:
  assumes "table_ok s" "i < Suc MAX_EVENTS"
  shows "table_ok (eventdel i s)" "status (g_events (eventdel i s) ! i) \<noteq> 1"
    "fd (g_events (eventdel i s) ! i) = fd (g_events s ! i)" "buf (g_events (eventdel i s) ! i) = buf (g_events s ! i)"
    "open_fds (eventdel i s) = open_fds s" "sent (eventdel i s) = sent s"
    "status (g_events s ! i) = 1 \<Longrightarrow> interest (eventdel i s) = (interest s)(fd (g_events s ! i) := None)"
    "j \<noteq> i \<Longrightarrow> g_events (eventdel i s) ! j = g_events s ! j"
    "len (g_events (eventdel i s) ! i) = len (g_events s ! i)"
proof -
  have l: "i < length (g_events s)" using assms by (simp add: table_okD)
  have del: "eventdel i s = (if status (g_events s ! i) \<noteq> 1 then s else
      put_event i (\<lambda>ev. ev\<lparr>status := 0\<rparr>) (s\<lparr>interest := (interest s)(fd (g_events s ! i) := None)\<rparr>))"
    using table_okD(3) [OF assms] l
    by (auto simp: eventdel_def epoll_ctl_def put_event_def Let_def registered_ok_def)
  show "status (g_events (eventdel i s) ! i) \<noteq> 1"
    "fd (g_events (eventdel i s) ! i) = fd (g_events s ! i)" "buf (g_events (eventdel i s) ! i) = buf (g_events s ! i)"
    "open_fds (eventdel i s) = open_fds s" "sent (eventdel i s) = sent s"
    "status (g_events s ! i) = 1 \<Longrightarrow> interest (eventdel i s) = (interest s)(fd (g_events s ! i) := None)"
    "j \<noteq> i \<Longrightarrow> g_events (eventdel i s) ! j = g_events s ! j"
    "len (g_events (eventdel i s) ! i) = len (g_events s ! i)"
    using l unfolding del by (simp_all add: put_event_def)
  show "table_ok (eventdel i s)"
  proof (cases "status (g_events s ! i) = 1")
    case True
    let ?s = "put_event i (\<lambda>ev. ev\<lparr>status := 0\<rparr>) (s\<lparr>interest := (interest s)(fd (g_events s ! i) := None)\<rparr>)"
    have at: "g_events ?s ! j = (if j = i then (g_events s ! i)\<lparr>status := 0\<rparr> else g_events s ! j)" for j
      using l by (simp add: put_event_def)
    have ne: "fd (g_events s ! j) \<noteq> fd (g_events s ! i)"
      if "j < Suc MAX_EVENTS" "status (g_events s ! j) = 1" "j \<noteq> i" for j
      using table_okD(3) [OF assms True] table_okD(3) [OF assms(1) that(1,2)] that(3)
      by (auto simp: registered_ok_def)
    have "table_ok ?s"
      using assms(1) ne unfolding table_ok_def at
      by (auto simp: registered_ok_def split: if_splits)
    then show ?thesis using True unfolding del by simp
  qed (use assms(1) in \<open>simp add: del\<close>)
qed

lemma close_ok: "table_ok s \<Longrightarrow> interest s d = None \<Longrightarrow> table_ok (close_fd d s)"
  by (auto simp: table_ok_def close_fd_def registered_ok_def)

lemma put_event_ok:
  assumes "table_ok s" "i < Suc MAX_EVENTS"
    and "\<And>ev. fd (f ev) = fd ev \<and> events (f ev) = events ev \<and> call_back (f ev) = call_back ev \<and> status (f ev) = status ev"
    and "length (buf (f (g_events s ! i))) = BUFLEN"
  shows "table_ok (put_event i f s)"
proof -
  have l: "i < length (g_events s)" using assms by (simp add: table_okD)
  have at: "g_events (put_event i f s) ! j = (if j = i then f (g_events s ! i) else g_events s ! j)" for j
    using l by (simp add: put_event_def)
  show ?thesis
    using assms(1,4) unfolding table_ok_def at by (auto simp: registered_ok_def assms(3))
qed

lemma close_after_del_ok:
  assumes "table_ok s" "i < Suc MAX_EVENTS" "status (g_events s ! i) = 1"
  shows "table_ok (close_fd (fd (g_events s ! i)) (eventdel i s))"
  using assms by (intro close_ok eventdel_ok(1)) (simp_all add: eventdel_ok(7))

lemma zero_table_ok:
  "table_ok \<lparr>g_events = replicate (Suc MAX_EVENTS) zero_event, interest = (\<lambda>_. None), open_fds = A, sent = []\<rparr>"
  unfolding table_ok_def by (auto simp: zero_event_def nth_append simp del: replicate.simps)

lemma initial_server_ok: "table_ok (initial_server lfd now)"
  unfolding initial_server_def initlistensocket_def Let_def
  by (rule register_ok) (use zero_table_ok in \<open>auto simp: zero_event_def simp del: replicate.simps\<close>)

lemma free_event_free:
  assumes "table_ok s" "free_event s \<noteq> MAX_EVENTS"
  shows "free_event s < MAX_EVENTS" "status (g_events s ! free_event s) = 0"
proof -
  let ?t = "take MAX_EVENTS (g_events s)" and ?P = "\<lambda>ev. status ev \<noteq> 0"
  have lt: "length ?t = MAX_EVENTS" using assms(1) by (simp add: table_okD)
  have "length (takeWhile ?P ?t) \<le> MAX_EVENTS" using length_takeWhile_le [of ?P ?t] lt by simp
  then show l: "free_event s < MAX_EVENTS" using assms(2) by (simp add: free_event_def)
  have "\<not> ?P (?t ! free_event s)"
    using nth_length_takeWhile [of ?P ?t] l lt by (simp add: free_event_def)
  then show "status (g_events s ! free_event s) = 0" using l by simp
qed

lemma free_event_before: "table_ok s \<Longrightarrow> \<forall>j < free_event s. status (g_events s ! j) \<noteq> 0"
proof (intro allI impI)
  fix j assume ok: "table_ok s" and j: "j < free_event s"
  let ?t = "take MAX_EVENTS (g_events s)"
  have "j < length ?t"
    using j length_takeWhile_le [of "\<lambda>ev. status ev \<noteq> 0" ?t] by (simp add: free_event_def)
  then show "status (g_events s ! j) \<noteq> 0"
    using j takeWhile_nth [of j "\<lambda>ev. status ev \<noteq> 0" ?t] nth_mem [of j "takeWhile (\<lambda>ev. status ev \<noteq> 0) ?t"]
    by (auto simp: free_event_def dest: set_takeWhileD)
qed

lemma free_event_full: "table_ok s \<Longrightarrow> free_event s = MAX_EVENTS \<Longrightarrow> i < MAX_EVENTS \<Longrightarrow> status (g_events s ! i) \<noteq> 0"
  using free_event_before [of s] by simp

lemma open_more: "table_ok s \<Longrightarrow> table_ok (s\<lparr>open_fds := insert d (open_fds s)\<rparr>)"
  by (auto simp: table_ok_def registered_ok_def)

lemma no_interest_of_closed: "table_ok s \<Longrightarrow> d \<notin> open_fds s \<Longrightarrow> interest s d = None"
  using table_okD(3,4) [of s] by (cases "interest s d") (auto simp: registered_ok_def)

section \<open>The callbacks keep the table\<close>

lemma acceptconn_ok:
  assumes "table_ok s" "kernel_ok k s"
  shows "table_ok (acceptconn k s)"
proof (cases "accepted k")
  case (Some d)
  let ?s = "s\<lparr>open_fds := insert d (open_fds s)\<rparr>"
  have ok: "table_ok ?s" using assms(1) by (rule open_more)
  have "interest s d = None"
    using assms Some by (intro no_interest_of_closed) (simp_all add: kernel_ok_def)
  then have "table_ok (eventadd EPOLLIN (free_event ?s) (eventset (free_event ?s) d Recvdata (clock k) ?s))"
    if "free_event ?s \<noteq> MAX_EVENTS"
    using free_event_free [OF ok that] ok by (intro register_ok) simp_all
  then show ?thesis using Some ok by (simp add: acceptconn_def Let_def)
qed (use assms in \<open>simp add: acceptconn_def\<close>)

lemma recv_put_ok:
  assumes "table_ok s" "i < Suc MAX_EVENTS"
  shows "table_ok (put_event i (\<lambda>ev. ev\<lparr>buf := take BUFLEN bytes @ drop (length (take BUFLEN bytes)) (buf ev)\<rparr>) s)"
  using assms(1) table_okD(2) [OF assms] by (intro put_event_ok assms) (simp_all)

lemma terminate_fields [simp]:
  "fd (terminate n ev) = fd ev" "events (terminate n ev) = events ev" "call_back (terminate n ev) = call_back ev"
  "status (terminate n ev) = status ev" "length (buf (terminate n ev)) = length (buf ev)"
  by (simp_all add: terminate_def)

lemma recvdata_ok:
  assumes "table_ok s" "i < Suc MAX_EVENTS" "status (g_events s ! i) = 1"
  shows "table_ok (recvdata (fd (g_events s ! i)) i k s)"
proof (cases "received k")
  case None
  then show ?thesis
    using close_after_del_ok [OF assms] eventdel_ok(3) [OF assms(1,2)] by (simp add: recvdata_def Let_def)
next
  case (Some bytes)
  have l: "i < length (g_events s)" using assms by (simp add: table_okD)
  let ?f = "\<lambda>ev. ev\<lparr>buf := take BUFLEN bytes @ drop (length (take BUFLEN bytes)) (buf ev)\<rparr>"
  let ?d = "fd (g_events s ! i)" and ?n = "length (take BUFLEN bytes)"
  let ?s0 = "put_event i ?f s"
  let ?s1 = "eventdel i ?s0"
  have ok0: "table_ok ?s0" using assms(1,2) by (rule recv_put_ok)
  have at: "status (g_events ?s0 ! i) = 1" "fd (g_events ?s0 ! i) = ?d" using l assms(3) by simp_all
  have ok1: "table_ok ?s1" using eventdel_ok(1) [OF ok0 assms(2)] .
  have l1: "i < length (g_events ?s1)" using ok1 assms(2) by (simp add: table_okD)
  have reg: "registered_ok s (g_events s ! i) i" using table_okD(3) [OF assms] .
  have i1: "interest ?s1 ?d = None" "?d \<in> open_fds ?s1" "status (g_events ?s1 ! i) \<noteq> 1" "fd (g_events ?s1 ! i) = ?d"
    using eventdel_ok(2,3,5,7) [OF ok0 assms(2)] at reg by (simp_all add: registered_ok_def)
  let ?s2 = "put_event i (\<lambda>ev. terminate ?n (ev\<lparr>len := ?n\<rparr>)) ?s1"
  have ok2: "table_ok ?s2"
    using table_okD(2) [OF ok1 assms(2)] by (intro put_event_ok ok1 assms(2)) simp_all
  have a: "table_ok (eventadd EPOLLOUT i (eventset i ?d Senddata (clock k) ?s2))"
    using i1 l1 by (intro register_ok ok2 assms(2)) simp_all
  have b: "table_ok (close_fd (fd (g_events ?s1 ! i)) ?s1)"
    using close_ok [OF ok1 i1(1)] i1(4) by simp
  show ?thesis using a b Some by (simp only: recvdata_def Let_def option.case if_split)  blast
qed

lemma senddata_ok:
  assumes "table_ok s" "i < Suc MAX_EVENTS" "status (g_events s ! i) = 1"
  shows "table_ok (senddata (fd (g_events s ! i)) i k s)"
proof -
  let ?d = "fd (g_events s ! i)"
  define n where "n = (case taken k of None \<Rightarrow> 0 | Some m \<Rightarrow> min m (len (g_events s ! i)))"
  define s0 where "s0 = (if 0 < n then s\<lparr>sent := sent s @ [(?d, take n (buf (g_events s ! i)))]\<rparr> else s)"
  have f: "g_events s0 = g_events s" "interest s0 = interest s" "open_fds s0 = open_fds s" by (simp_all add: s0_def)
  then have ok0: "table_ok s0" using assms(1) by (simp add: table_ok_def registered_ok_def)
  let ?s1 = "eventdel i s0"
  have ok1: "table_ok ?s1" using eventdel_ok(1) [OF ok0 assms(2)] .
  have i1: "interest ?s1 ?d = None" "?d \<in> open_fds ?s1" "status (g_events ?s1 ! i) \<noteq> 1" "fd (g_events ?s1 ! i) = ?d"
    using eventdel_ok(2,3,5,7) [OF ok0 assms(2)] f table_okD(3) [OF assms] assms(3) by (simp_all add: registered_ok_def)
  have "table_ok (eventadd EPOLLIN i (eventset i ?d Recvdata (clock k) ?s1))"
    using i1 by (intro register_ok ok1 assms(2)) simp_all
  moreover have "table_ok (close_fd (fd (g_events ?s1 ! i)) ?s1)"
    using close_ok [OF ok1 i1(1)] i1(4) by simp
  ultimately show ?thesis
    by (cases "0 < n") (simp_all add: senddata_def Let_def n_def [symmetric] s0_def)
qed

lemmas callbacks_ok = acceptconn_ok recvdata_ok senddata_ok

lemma run_callback_ok:
  assumes "table_ok s" "i < Suc MAX_EVENTS" "status (g_events s ! i) = 1" "kernel_ok k s"
  shows "\<exists>t. run_callback i k s = Inr t \<and> table_ok t"
  using table_okD(3) [OF assms(1-3)] callbacks_ok(1) [OF assms(1,4)] callbacks_ok(2,3) [OF assms(1-3), of k]
  by (cases "call_back (g_events s ! i)") (auto simp: run_callback_def Let_def registered_ok_def)

subsection \<open>What a step leaves alone\<close>

lemma eventadd_fields:
  assumes "i < length (g_events s)" "interest s d = None" "d \<in> open_fds s"
  shows "g_events (eventadd w i (eventset i d cb now s)) ! i = fresh_event d cb now w (g_events s ! i)"
    "interest (eventadd w i (eventset i d cb now s)) = (interest s)(d \<mapsto> (w, i))"
    "open_fds (eventadd w i (eventset i d cb now s)) = open_fds s"
    "sent (eventadd w i (eventset i d cb now s)) = sent s"
    "j \<noteq> i \<Longrightarrow> g_events (eventadd w i (eventset i d cb now s)) ! j = g_events s ! j"
  using assms by (simp_all add: set_and_add)

lemma close_fd_fields [simp]:
  "g_events (close_fd d s) = g_events s" "sent (close_fd d s) = sent s"
  "open_fds (close_fd d s) = open_fds s - {d}" "interest (close_fd d s) = (interest s)(d := None)"
  by (simp_all add: close_fd_def)

text \<open>After the deletion with which both data callbacks begin, the event is free and its descriptor
  is open and unregistered.\<close>

lemma eventdel_registered:
  assumes "table_ok s" "i < Suc MAX_EVENTS" "status (g_events s ! i) = 1"
  shows "interest (eventdel i s) (fd (g_events s ! i)) = None"
    "fd (g_events s ! i) \<in> open_fds (eventdel i s)" "i < length (g_events (eventdel i s))"
    "interest (eventdel i s) = (interest s)(fd (g_events s ! i) := None)"
  using eventdel_ok(1,5,7) [OF assms(1,2)] table_okD(3) [OF assms] assms(2,3)
  by (simp_all add: registered_ok_def table_okD)

lemma recvdata_data:
  assumes "table_ok s" "i < Suc MAX_EVENTS" "status (g_events s ! i) = 1" "d = fd (g_events s ! i)"
    and "received k = Some bytes" "bytes \<noteq> []" "length bytes \<le> BUFLEN"
  shows "g_events (recvdata d i k s) ! i = fresh_event d Senddata (clock k) EPOLLOUT
      (terminate (length bytes) ((g_events (eventdel i
        (put_event i (\<lambda>ev. ev\<lparr>buf := bytes @ drop (length bytes) (buf ev)\<rparr>) s)) ! i)\<lparr>len := length bytes\<rparr>))"
    "interest (recvdata d i k s) = (interest s)(d \<mapsto> (EPOLLOUT, i))"
    "open_fds (recvdata d i k s) = open_fds s" "sent (recvdata d i k s) = sent s"
proof -
  let ?s0 = "put_event i (\<lambda>ev. ev\<lparr>buf := bytes @ drop (length bytes) (buf ev)\<rparr>) s"
  have l: "i < length (g_events s)" using assms(1,2) by (simp add: table_okD)
  have ok0: "table_ok ?s0" using recv_put_ok [OF assms(1,2), of bytes] assms(7) by simp
  have at: "status (g_events ?s0 ! i) = 1" "fd (g_events ?s0 ! i) = d" using l assms(3,4) by simp_all
  note del = eventdel_registered [OF ok0 assms(2) at(1), unfolded at(2)]
  let ?s2 = "put_event i (\<lambda>ev. terminate (length bytes) (ev\<lparr>len := length bytes\<rparr>)) (eventdel i ?s0)"
  have r: "recvdata d i k s = eventadd EPOLLOUT i (eventset i d Senddata (clock k) ?s2)"
    using assms(5-7) by (simp add: recvdata_def Let_def)
  have i2: "i < length (g_events ?s2)" "interest ?s2 d = None" "d \<in> open_fds ?s2" using del by simp_all
  show "g_events (recvdata d i k s) ! i = fresh_event d Senddata (clock k) EPOLLOUT
      (terminate (length bytes) ((g_events (eventdel i ?s0) ! i)\<lparr>len := length bytes\<rparr>))"
    "interest (recvdata d i k s) = (interest s)(d \<mapsto> (EPOLLOUT, i))"
    "open_fds (recvdata d i k s) = open_fds s" "sent (recvdata d i k s) = sent s"
    unfolding r using eventadd_fields [OF i2] del eventdel_ok(5,6) [OF ok0 assms(2)] by simp_all
qed

lemma senddata_fields:
  assumes "table_ok s" "i < Suc MAX_EVENTS" "status (g_events s ! i) = 1" "d = fd (g_events s ! i)"
  shows "0 < n \<Longrightarrow> n = (case taken k of None \<Rightarrow> 0 | Some m \<Rightarrow> min m (len (g_events s ! i))) \<Longrightarrow>
      sent (senddata d i k s) = sent s @ [(d, take n (buf (g_events s ! i)))]
    \<and> interest (senddata d i k s) = (interest s)(d \<mapsto> (EPOLLIN, i)) \<and> open_fds (senddata d i k s) = open_fds s
    \<and> call_back (g_events (senddata d i k s) ! i) = Recvdata \<and> status (g_events (senddata d i k s) ! i) = 1"
    "(case taken k of None \<Rightarrow> 0 | Some m \<Rightarrow> min m (len (g_events s ! i))) = 0 \<Longrightarrow>
      sent (senddata d i k s) = sent s \<and> interest (senddata d i k s) = (interest s)(d := None)
    \<and> open_fds (senddata d i k s) = open_fds s - {d} \<and> status (g_events (senddata d i k s) ! i) \<noteq> 1"
proof -
  assume n: "0 < n" "n = (case taken k of None \<Rightarrow> 0 | Some m \<Rightarrow> min m (len (g_events s ! i)))"
  let ?s0 = "s\<lparr>sent := sent s @ [(d, take n (buf (g_events s ! i)))]\<rparr>"
  have ok0: "table_ok ?s0" using assms(1) by (simp add: table_ok_def registered_ok_def)
  have at: "status (g_events ?s0 ! i) = 1" "fd (g_events ?s0 ! i) = d" using assms(3,4) by simp_all
  note del = eventdel_registered [OF ok0 assms(2) at(1), unfolded at(2)]
  have r: "senddata d i k s = eventadd EPOLLIN i (eventset i d Recvdata (clock k) (eventdel i ?s0))"
    using n by (simp add: senddata_def Let_def)
  show "sent (senddata d i k s) = sent s @ [(d, take n (buf (g_events s ! i)))]
    \<and> interest (senddata d i k s) = (interest s)(d \<mapsto> (EPOLLIN, i)) \<and> open_fds (senddata d i k s) = open_fds s
    \<and> call_back (g_events (senddata d i k s) ! i) = Recvdata \<and> status (g_events (senddata d i k s) ! i) = 1"
    unfolding r using eventadd_fields [OF del(3,1,2)] del(4) eventdel_ok(5,6) [OF ok0 assms(2)]
    by (simp add: fresh_event_def)
next
  assume "(case taken k of None \<Rightarrow> 0 | Some m \<Rightarrow> min m (len (g_events s ! i))) = 0"
  then have r: "senddata d i k s = close_fd (fd (g_events (eventdel i s) ! i)) (eventdel i s)"
    by (simp add: senddata_def Let_def)
  show "sent (senddata d i k s) = sent s \<and> interest (senddata d i k s) = (interest s)(d := None)
    \<and> open_fds (senddata d i k s) = open_fds s - {d} \<and> status (g_events (senddata d i k s) ! i) \<noteq> 1"
    unfolding r using eventdel_ok(2,3,5,6) [OF assms(1,2)] eventdel_registered(4) [OF assms(1-3)] assms(4)
    by simp
qed

lemma recvdata_close:
  assumes "table_ok s" "i < Suc MAX_EVENTS" "status (g_events s ! i) = 1" "d = fd (g_events s ! i)"
    and "received k = None \<or> received k = Some []"
  shows "interest (recvdata d i k s) = (interest s)(d := None)" "open_fds (recvdata d i k s) = open_fds s - {d}"
    "sent (recvdata d i k s) = sent s" "status (g_events (recvdata d i k s) ! i) \<noteq> 1"
proof -
  have l: "i < length (g_events s)" using assms(1,2) by (simp add: table_okD)
  have "put_event i (\<lambda>ev. ev\<lparr>buf := buf ev\<rparr>) s = s" by (simp add: put_event_def)
  then have r: "recvdata d i k s = close_fd (fd (g_events (eventdel i s) ! i)) (eventdel i s)"
    using assms(5) by (auto simp: recvdata_def Let_def)
  show "interest (recvdata d i k s) = (interest s)(d := None)" "open_fds (recvdata d i k s) = open_fds s - {d}"
    "sent (recvdata d i k s) = sent s" "status (g_events (recvdata d i k s) ! i) \<noteq> 1"
    unfolding r using eventdel_ok(2,3,5,6) [OF assms(1,2)] eventdel_registered(4) [OF assms(1-3)] assms(4)
    by simp_all
qed

lemma recvdata_truncates:
  "received k = Some bytes \<Longrightarrow> recvdata d i k s = recvdata d i (k\<lparr>received := Some (take BUFLEN bytes)\<rparr>) s"
  by (simp add: recvdata_def Let_def)

definition same_fd :: "int \<Rightarrow> server \<Rightarrow> server \<Rightarrow> bool" where
  "same_fd e s t \<longleftrightarrow> interest t e = interest s e \<and> (e \<in> open_fds t \<longleftrightarrow> e \<in> open_fds s)"

lemma recvdata_frame:
  assumes "table_ok s" "i < Suc MAX_EVENTS" "status (g_events s ! i) = 1" "e \<noteq> fd (g_events s ! i)"
  shows "same_fd e s (recvdata (fd (g_events s ! i)) i k s)"
proof (cases "received k = None \<or> received k = Some []")
  case True
  then show ?thesis using recvdata_close [OF assms(1-3) refl True] assms(4) by (simp add: same_fd_def)
next
  case False
  then obtain bytes where b: "received k = Some bytes" "bytes \<noteq> []" by auto
  let ?k = "k\<lparr>received := Some (take BUFLEN bytes)\<rparr>"
  have "take BUFLEN bytes \<noteq> []" using b(2) by (simp add: BUFLEN_def)
  then show ?thesis
    using recvdata_data(2,3) [OF assms(1-3) refl, of ?k "take BUFLEN bytes"] assms(4)
      recvdata_truncates [OF b(1)] by (simp add: same_fd_def)
qed

lemma senddata_frame:
  assumes "table_ok s" "i < Suc MAX_EVENTS" "status (g_events s ! i) = 1" "e \<noteq> fd (g_events s ! i)"
  shows "same_fd e s (senddata (fd (g_events s ! i)) i k s)"
  using senddata_fields [OF assms(1-3) refl, where k = k] assms(4)
  by (cases "(case taken k of None \<Rightarrow> 0 | Some m \<Rightarrow> min m (len (g_events s ! i))) = 0") (auto simp: same_fd_def)

lemma acceptconn_frame:
  assumes "table_ok s" "kernel_ok k s" "accepted k \<noteq> Some e"
  shows "same_fd e s (acceptconn k s)"
proof (cases "accepted k")
  case (Some d)
  let ?s = "s\<lparr>open_fds := insert d (open_fds s)\<rparr>"
  let ?i = "free_event ?s"
  have "interest ?s d = None"
    using no_interest_of_closed [OF assms(1), of d] assms(2) Some by (simp add: kernel_ok_def)
  moreover have "?i < length (g_events ?s)" if "?i \<noteq> MAX_EVENTS"
    using free_event_free [OF open_more [OF assms(1)] that] table_okD(1) [OF assms(1)] by simp
  ultimately show ?thesis
    using Some assms(3) eventadd_fields(2,3) [of ?i ?s d EPOLLIN Recvdata "clock k"]
    by (auto simp: acceptconn_def Let_def same_fd_def)
qed (use assms in \<open>simp add: acceptconn_def same_fd_def\<close>)

lemma run_callback_frame:
  assumes "table_ok s" "i < Suc MAX_EVENTS" "status (g_events s ! i) = 1" "kernel_ok k s"
    and "run_callback i k s = Inr t" "e \<noteq> fd (g_events s ! i)" "accepted k \<noteq> Some e"
  shows "same_fd e s t"
  using assms(5) recvdata_frame [OF assms(1-3,6)] senddata_frame [OF assms(1-3,6)] acceptconn_frame [OF assms(1,4,7)]
  by (auto simp: run_callback_def Let_def split: callback.splits)

section \<open>The timeout scan\<close>

definition expired :: "int \<Rightarrow> server \<Rightarrow> nat \<Rightarrow> bool" where
  "expired now s i \<longleftrightarrow> status (g_events s ! i) = 1 \<and> 60 \<le> now - last_active (g_events s ! i)"

definition scanned_slots :: "nat \<Rightarrow> nat \<Rightarrow> nat set" where
  "scanned_slots c n = (\<lambda>j. (c + j) mod MAX_EVENTS) ` {..<n}"

lemma scanned_slots_Suc:
  "scanned_slots c (Suc n) = insert (c mod MAX_EVENTS) (scanned_slots (c mod MAX_EVENTS + 1) n)"
proof -
  have "{..<Suc n} = insert 0 (Suc ` {..<n})" by (rule lessThan_Suc_eq_insert_0)
  moreover have "(c + Suc j) mod MAX_EVENTS = (c mod MAX_EVENTS + 1 + j) mod MAX_EVENTS" for j
    by (metis add.assoc add_Suc_right add_Suc_shift mod_add_left_eq plus_1_eq_Suc)
  ultimately show ?thesis by (simp add: scanned_slots_def image_image)
qed

lemma wrap_position: "c \<le> MAX_EVENTS \<Longrightarrow> (if c = MAX_EVENTS then 0 else c) = c mod MAX_EVENTS"
  by (auto simp: MAX_EVENTS_def)

lemma expire_slot:
  assumes "table_ok s" "i < Suc MAX_EVENTS" "status (g_events s ! i) = 1"
  shows "eventdel i (close_fd (fd (g_events s ! i)) s)
    = put_event i (\<lambda>ev. ev\<lparr>status := 0\<rparr>) (close_fd (fd (g_events s ! i)) s)"
  using assms by (simp add: eventdel_def epoll_ctl_def Let_def table_okD)

lemma expire_slot_ok:
  assumes "table_ok s" "i < Suc MAX_EVENTS" "status (g_events s ! i) = 1"
  shows "table_ok (put_event i (\<lambda>ev. ev\<lparr>status := 0\<rparr>) (close_fd (fd (g_events s ! i)) s))"
proof -
  have "put_event i (\<lambda>ev. ev\<lparr>status := 0\<rparr>) (close_fd (fd (g_events s ! i)) s)
    = close_fd (fd (g_events s ! i)) (eventdel i s)"
    using table_okD(1) [OF assms(1)] table_okD(3) [OF assms] assms(2,3)
    by (simp add: eventdel_def close_fd_def put_event_def epoll_ctl_def Let_def registered_ok_def)
  then show ?thesis using close_after_del_ok [OF assms] by simp
qed

text \<open>What the scan leaves: the expired slots of its window are closed and freed.\<close>

definition scan_result :: "int \<Rightarrow> nat set \<Rightarrow> server \<Rightarrow> server \<Rightarrow> bool" where
  "scan_result now W s t \<longleftrightarrow>
     (\<forall>i < Suc MAX_EVENTS. g_events t ! i =
        (if i \<in> W \<and> expired now s i then (g_events s ! i)\<lparr>status := 0\<rparr> else g_events s ! i))
   \<and> open_fds t = open_fds s - (\<lambda>i. fd (g_events s ! i)) ` {i \<in> W. expired now s i}
   \<and> sent t = sent s"

lemma scan_result_step:
  assumes "scan_result now W (put_event c (\<lambda>ev. ev\<lparr>status := 0\<rparr>) (close_fd (fd (g_events s ! c)) s)) t"
    and "expired now s c" "c < Suc MAX_EVENTS" "length (g_events s) = Suc MAX_EVENTS" "W \<subseteq> {..<MAX_EVENTS}"
  shows "scan_result now (insert c W) s t"
proof -
  let ?s = "put_event c (\<lambda>ev. ev\<lparr>status := 0\<rparr>) (close_fd (fd (g_events s ! c)) s)"
  have at: "g_events ?s ! i = (if i = c then (g_events s ! c)\<lparr>status := 0\<rparr> else g_events s ! i)" for i
    using assms(3,4) by (simp add: put_event_def)
  have ex: "expired now ?s i \<longleftrightarrow> i \<noteq> c \<and> expired now s i" for i
    by (auto simp: expired_def at)
  have "{i \<in> insert c W. expired now s i} = insert c {i \<in> W. expired now ?s i}"
    using assms(2) by (auto simp: ex)
  moreover have "(\<lambda>i. fd (g_events ?s ! i)) ` A = (\<lambda>i. fd (g_events s ! i)) ` A" for A
    by (rule image_cong) (simp_all add: at)
  ultimately show ?thesis
    using assms(1,2) unfolding scan_result_def by (auto simp: at ex)
qed

lemma scanned_slots_less: "scanned_slots c n \<subseteq> {..<MAX_EVENTS}"
  by (auto simp: scanned_slots_def MAX_EVENTS_def)

lemma card_scanned_slots:
  assumes "n \<le> MAX_EVENTS"
  shows "card (scanned_slots c n) = n"
proof -
  have le: "x = y" if "y \<le> x" "x < n" "(c + x) mod MAX_EVENTS = (c + y) mod MAX_EVENTS" for x y
  proof -
    note le = that
    have "c + y \<le> c + x" using le(1) by simp
    from mod_eq_nat1E [OF le(3) this] obtain q where "c + x = c + y + MAX_EVENTS * q" .
    then show ?thesis using le(2) assms by (cases q) auto
  qed
  have "inj_on (\<lambda>j. (c + j) mod MAX_EVENTS) {..<n}"
    using le by (intro inj_onI) (metis lessThan_iff nat_le_linear)
  then show ?thesis by (simp add: scanned_slots_def card_image)
qed

lemma scan_spec:
  "table_ok s \<Longrightarrow> c \<le> MAX_EVENTS \<Longrightarrow>
   fst (scan now n c s) \<le> MAX_EVENTS \<and> table_ok (snd (scan now n c s))
   \<and> scan_result now (scanned_slots c n) s (snd (scan now n c s))"
proof (induction n arbitrary: c s)
  case 0
  then show ?case by (simp add: scan_result_def scanned_slots_def)
next
  case (Suc n)
  let ?c = "c mod MAX_EVENTS"
  have c: "?c < MAX_EVENTS" by (simp add: MAX_EVENTS_def)
  then have c1: "?c + 1 \<le> MAX_EVENTS" "?c < Suc MAX_EVENTS" by simp_all
  note len = table_okD(1) [OF Suc.prems(1)]
  show ?case
  proof (cases "expired now s ?c")
    case True
    then have st: "status (g_events s ! ?c) = 1" by (simp add: expired_def)
    let ?s = "put_event ?c (\<lambda>ev. ev\<lparr>status := 0\<rparr>) (close_fd (fd (g_events s ! ?c)) s)"
    have r: "scan now (Suc n) c s = scan now n (?c + 1) ?s"
      using True expire_slot [OF Suc.prems(1) c1(2) st]
      by (simp add: wrap_position [OF Suc.prems(2)] expired_def Let_def del: put_event_fields)
    have IH: "fst (scan now n (?c + 1) ?s) \<le> MAX_EVENTS" "table_ok (snd (scan now n (?c + 1) ?s))"
      "scan_result now (scanned_slots (?c + 1) n) ?s (snd (scan now n (?c + 1) ?s))"
      using Suc.IH [OF expire_slot_ok [OF Suc.prems(1) c1(2) st] c1(1)] by blast+
    show ?thesis
      unfolding r scanned_slots_Suc
      using IH(1,2) scan_result_step [OF IH(3) True c1(2) len scanned_slots_less] by blast
  next
    case False
    then have r: "scan now (Suc n) c s = scan now n (?c + 1) s"
      by (auto simp: wrap_position [OF Suc.prems(2)] expired_def Let_def)
    have "scan_result now (insert ?c (scanned_slots (?c + 1) n)) s t \<longleftrightarrow>
        scan_result now (scanned_slots (?c + 1) n) s t" for t
    proof -
      have "{i \<in> insert ?c (scanned_slots (?c + 1) n). expired now s i} = {i \<in> scanned_slots (?c + 1) n. expired now s i}"
        "(i \<in> insert ?c (scanned_slots (?c + 1) n) \<and> expired now s i) = (i \<in> scanned_slots (?c + 1) n \<and> expired now s i)" for i
        using False by auto
      then show ?thesis unfolding scan_result_def by presburger
    qed
    then show ?thesis
      unfolding r scanned_slots_Suc using Suc.IH [OF Suc.prems(1) c1(1)] by blast
  qed
qed

text \<open>The event keeps its slot while its first callback runs, or stops waiting to write.\<close>

lemma first_callback:
  assumes "table_ok s" "i < Suc MAX_EVENTS" "status (g_events s ! i) = 1" "kernel_ok k s"
    and "events (g_events s ! i) AND EPOLLIN \<noteq> 0" "run_callback i k s = Inr t"
  shows "status (g_events t ! i) = 1 \<or> events (g_events t ! i) = EPOLLIN"
proof -
  have reg: "registered_ok s (g_events s ! i) i" using table_okD(3) [OF assms(1-3)] .
  show ?thesis
  proof (cases "call_back (g_events s ! i)")
    case Acceptconn
    then have t: "t = acceptconn k s" using assms(6) by (simp add: run_callback_def Let_def)
    have "g_events (acceptconn k s) ! i = g_events s ! i"
    proof (cases "accepted k")
      case (Some d)
      let ?s = "s\<lparr>open_fds := insert d (open_fds s)\<rparr>"
      have d: "interest ?s d = None"
        using no_interest_of_closed [OF assms(1), of d] assms(4) Some by (simp add: kernel_ok_def)
      have "g_events (eventadd EPOLLIN (free_event ?s) (eventset (free_event ?s) d Recvdata (clock k) ?s)) ! i
          = g_events s ! i" if "free_event ?s \<noteq> MAX_EVENTS"
      proof -
        note free = free_event_free [OF open_more [OF assms(1)] that]
        then have "free_event ?s \<noteq> i" using assms(3) by auto
        then show ?thesis
          using eventadd_fields(5) [of "free_event ?s" ?s d i] d free(1) table_okD(1) [OF assms(1)] by simp
      qed
      then show ?thesis using Some by (simp add: acceptconn_def Let_def)
    qed (simp add: acceptconn_def)
    then show ?thesis using assms(3) t by simp
  next
    case Recvdata
    then have t: "t = recvdata (fd (g_events s ! i)) i k s" using assms(6) by (simp add: run_callback_def Let_def)
    have in_: "events (g_events s ! i) = EPOLLIN" using reg Recvdata by (auto simp: registered_ok_def)
    show ?thesis
    proof (cases "received k = None \<or> received k = Some []")
      case True
      have "events (g_events t ! i) = EPOLLIN"
        using True in_ assms(1,2,3) unfolding t
        by (auto simp: recvdata_def Let_def eventdel_def epoll_ctl_def table_okD put_event_def)
      then show ?thesis by simp
    next
      case False
      then obtain bytes where b: "received k = Some bytes" "bytes \<noteq> []" by auto
      have "take BUFLEN bytes \<noteq> []" using b(2) by (simp add: BUFLEN_def)
      then have "status (g_events t ! i) = 1"
        using recvdata_data(1) [OF assms(1-3) refl, of "k\<lparr>received := Some (take BUFLEN bytes)\<rparr>" "take BUFLEN bytes"]
          recvdata_truncates [OF b(1)] unfolding t by (simp add: fresh_event_def)
      then show ?thesis by simp
    qed
  qed (use reg assms(5) in \<open>auto simp: registered_ok_def\<close>)
qed

lemma dispatch_ok:
  assumes "table_ok s" "interest s d = Some (w, i)" "kernel_ok k1 s"
    and "\<And>s1. run_callback i k1 s = Inr s1 \<Longrightarrow> kernel_ok k2 s1"
  shows "\<exists>t. dispatch i m k1 k2 s = Inr t \<and> table_ok t"
proof -
  have slot: "i < Suc MAX_EVENTS" "status (g_events s ! i) = 1" using table_okD(4) [OF assms(1,2)] by simp_all
  obtain t where t: "run_callback i k1 s = Inr t" "table_ok t"
    using run_callback_ok [OF assms(1) slot assms(3)] by blast
  show ?thesis
  proof (cases "m AND EPOLLIN \<noteq> 0 \<and> events (g_events s ! i) AND EPOLLIN \<noteq> 0")
    case True
    have "status (g_events t ! i) = 1" if "events (g_events t ! i) AND EPOLLOUT \<noteq> 0"
      using first_callback [OF assms(1) slot assms(3) _ t(1)] True that by auto
    then show ?thesis
      using True t run_callback_ok [OF t(2) slot(1) _ assms(4) [OF t(1)]]
      by (simp add: dispatch_def)
  next
    case False
    have "\<exists>t. run_callback i k2 s = Inr t \<and> table_ok t"
      if "events (g_events s ! i) AND EPOLLOUT \<noteq> 0"
    proof -
      have "call_back (g_events s ! i) = Senddata"
        using table_okD(3) [OF assms(1) slot] that by (auto simp: registered_ok_def)
      then show ?thesis using senddata_ok [OF assms(1) slot] by (simp add: run_callback_def Let_def)
    qed
    then show ?thesis using False assms(1) by (auto simp: dispatch_def)
  qed
qed

lemma step_table_ok:
  assumes "server_step (c, Inr s) y" "table_ok s" "c \<le> MAX_EVENTS"
  shows "\<exists>t. snd y = Inr t \<and> table_ok t \<and> fst y \<le> MAX_EVENTS"
  using assms(1)
proof (cases rule: server_step.cases)
  case (scanned now)
  then show ?thesis using scan_spec [OF assms(2,3), of now 100] by simp
next
  case (dispatched d w i k1 k2 m)
  then show ?thesis using dispatch_ok [OF assms(2)] assms(3) by simp
qed

lemma reachable_ok: "server_reachable x \<Longrightarrow> \<exists>t. snd x = Inr t \<and> table_ok t \<and> fst x \<le> MAX_EVENTS"
proof (induction rule: server_reachable.induct)
  case (stepped x y)
  then obtain t where t: "x = (fst x, Inr t)" "table_ok t" "fst x \<le> MAX_EVENTS" by (metis prod.collapse)
  then show ?case using stepped.hyps(2) step_table_ok [of "fst x" t y] by metis
qed (simp add: initial_server_ok)

lemma reachable_table: "server_reachable (c, Inr s) \<Longrightarrow> table_ok s \<and> c \<le> MAX_EVENTS"
  using reachable_ok by fastforce

subsection \<open>A small run, for the instances\<close>

lemma initial_fields:
  "interest (initial_server lfd now) = [lfd \<mapsto> (EPOLLIN, MAX_EVENTS)]" "open_fds (initial_server lfd now) = {lfd}"
  "sent (initial_server lfd now) = []" "i < MAX_EVENTS \<Longrightarrow> g_events (initial_server lfd now) ! i = zero_event"
  "g_events (initial_server lfd now) ! MAX_EVENTS = fresh_event lfd Acceptconn now EPOLLIN zero_event"
proof -
  let ?s = "\<lparr>g_events = replicate (Suc MAX_EVENTS) zero_event, interest = (\<lambda>_. None), open_fds = {lfd}, sent = []\<rparr>"
  have r: "initial_server lfd now = eventadd EPOLLIN MAX_EVENTS (eventset MAX_EVENTS lfd Acceptconn now ?s)"
    by (simp add: initial_server_def initlistensocket_def Let_def del: replicate.simps)
  have l: "MAX_EVENTS < length (g_events ?s)" by (simp del: replicate.simps)
  show "interest (initial_server lfd now) = [lfd \<mapsto> (EPOLLIN, MAX_EVENTS)]" "open_fds (initial_server lfd now) = {lfd}"
    "sent (initial_server lfd now) = []"
    "i < MAX_EVENTS \<Longrightarrow> g_events (initial_server lfd now) ! i = zero_event"
    "g_events (initial_server lfd now) ! MAX_EVENTS = fresh_event lfd Acceptconn now EPOLLIN zero_event"
    unfolding r using eventadd_fields [OF l, of lfd] by (simp_all del: replicate.simps)
qed

definition quiet :: kernel where
  "quiet = \<lparr>accepted = None, fcntl_ok = True, received = None, taken = None, clock = 0\<rparr>"

definition one_client :: server where
  "one_client = acceptconn (quiet\<lparr>accepted := Some 5\<rparr>) (initial_server 3 0)"

lemma first_slot_free:
  assumes "table_ok s" "status (g_events s ! 0) = 0"
  shows "free_event s = 0"
proof -
  have "take MAX_EVENTS (g_events s) \<noteq> []" using table_okD(1) [OF assms(1)] by (auto simp: MAX_EVENTS_def)
  then obtain ev evs where e: "take MAX_EVENTS (g_events s) = ev # evs" by (cases "take MAX_EVENTS (g_events s)") auto
  have "ev = g_events s ! 0"
    using arg_cong [OF e, of "\<lambda>l. l ! 0"] by (simp add: MAX_EVENTS_def)
  then show ?thesis using assms(2) e by (simp add: free_event_def)
qed

lemma one_client_fields:
  "interest one_client = [3 \<mapsto> (EPOLLIN, MAX_EVENTS), 5 \<mapsto> (EPOLLIN, 0)]" "open_fds one_client = {3, 5}"
  "g_events one_client ! 0 = fresh_event 5 Recvdata 0 EPOLLIN zero_event" "sent one_client = []"
proof -
  let ?s = "(initial_server 3 0)\<lparr>open_fds := insert 5 (open_fds (initial_server 3 0))\<rparr>"
  have pos: "0 < MAX_EVENTS" by (simp add: MAX_EVENTS_def)
  have free: "free_event ?s = 0"
    using initial_server_ok [of 3 0] initial_fields(4) [OF pos] 
    by (intro first_slot_free open_more) (simp_all add: zero_event_def)
  have r: "one_client = eventadd EPOLLIN 0 (eventset 0 5 Recvdata 0 ?s)"
    using pos by (simp add: one_client_def acceptconn_def Let_def free quiet_def)
  have l: "0 < length (g_events ?s)" using initial_server_ok [of 3 0] by (simp add: table_okD)
  show "interest one_client = [3 \<mapsto> (EPOLLIN, MAX_EVENTS), 5 \<mapsto> (EPOLLIN, 0)]" "open_fds one_client = {3, 5}"
    "g_events one_client ! 0 = fresh_event 5 Recvdata 0 EPOLLIN zero_event" "sent one_client = []"
    unfolding r using eventadd_fields [OF l, of 5] initial_fields(4) [OF pos, of 3 0]
    by (auto simp: initial_fields(1-3))
qed

lemma one_client_dispatch: "dispatch MAX_EVENTS EPOLLIN (quiet\<lparr>accepted := Some 5\<rparr>) quiet (initial_server 3 0) = Inr one_client"
proof -
  have "run_callback MAX_EVENTS (quiet\<lparr>accepted := Some 5\<rparr>) (initial_server 3 0) = Inr one_client"
    by (simp add: run_callback_def initial_fields(5) fresh_event_def one_client_def Let_def)
  then show ?thesis by (simp add: dispatch_def initial_fields(5) fresh_event_def)
qed

lemma one_client_reachable: "server_reachable (0, Inr one_client)"
proof -
  have "server_step (0, Inr (initial_server 3 0))
      (0, dispatch MAX_EVENTS EPOLLIN (quiet\<lparr>accepted := Some 5\<rparr>) quiet (initial_server 3 0))"
    by (rule dispatched [of _ 3 EPOLLIN]) (simp_all add: initial_fields kernel_ok_def quiet_def)
  then show ?thesis using stepped [OF started] one_client_dispatch by simp
qed

subsection \<open>One message through the two data callbacks\<close>

lemma received_event:
  assumes "table_ok s" "i < Suc MAX_EVENTS" "status (g_events s ! i) = 1" "call_back (g_events s ! i) = Recvdata"
    and "received k = Some bytes" "bytes \<noteq> []" "length bytes \<le> BUFLEN"
  defines "d \<equiv> fd (g_events s ! i)" and "t \<equiv> recvdata (fd (g_events s ! i)) i k s"
  shows "dispatch i EPOLLIN k k0 s = Inr t" "table_ok t" "interest t = (interest s)(d \<mapsto> (EPOLLOUT, i))"
    "open_fds t = open_fds s" "sent t = sent s" "status (g_events t ! i) = 1" "fd (g_events t ! i) = d"
    "call_back (g_events t ! i) = Senddata" "events (g_events t ! i) = EPOLLOUT"
    "length bytes < BUFLEN \<Longrightarrow> len (g_events t ! i) = length bytes \<and> take (length bytes) (buf (g_events t ! i)) = bytes"
    "length bytes = BUFLEN \<Longrightarrow> len (g_events t ! i) = 0"
proof -
  note data = recvdata_data [OF assms(1-3) refl assms(5-7), folded t_def d_def]
  let ?s0 = "put_event i (\<lambda>ev. ev\<lparr>buf := bytes @ drop (length bytes) (buf ev)\<rparr>) s"
  have l: "i < length (g_events s)" using assms(1,2) by (simp add: table_okD)
  have ok0: "table_ok ?s0" using recv_put_ok [OF assms(1,2), of bytes] assms(7) by simp
  have ev: "events (g_events s ! i) = EPOLLIN"
    using table_okD(3) [OF assms(1-3)] assms(4) by (auto simp: registered_ok_def)
  show "dispatch i EPOLLIN k k0 s = Inr t"
    using ev assms(4) by (simp add: dispatch_def run_callback_def t_def Let_def)
  show "table_ok t" unfolding t_def by (rule recvdata_ok [OF assms(1-3)])
  show "interest t = (interest s)(d \<mapsto> (EPOLLOUT, i))" "open_fds t = open_fds s" "sent t = sent s"
    using data by simp_all
  show "status (g_events t ! i) = 1" "fd (g_events t ! i) = d"
    "call_back (g_events t ! i) = Senddata" "events (g_events t ! i) = EPOLLOUT"
    using data(1) by (simp_all add: fresh_event_def)
  have b: "buf (g_events (eventdel i ?s0) ! i) = bytes @ drop (length bytes) (buf (g_events s ! i))"
    using eventdel_ok(4) [OF ok0 assms(2)] l by simp
  show "len (g_events t ! i) = length bytes \<and> take (length bytes) (buf (g_events t ! i)) = bytes"
    if "length bytes < BUFLEN"
    using data(1) that b by (simp add: fresh_event_def terminate_def)
  show "len (g_events t ! i) = 0" if "length bytes = BUFLEN"
    using data(1) that by (simp add: fresh_event_def terminate_def BUFLEN_def)
qed

lemma send_dispatch:
  "call_back (g_events s ! i) = Senddata \<Longrightarrow> events (g_events s ! i) = EPOLLOUT \<Longrightarrow>
   dispatch i EPOLLOUT k0 k s = Inr (senddata (fd (g_events s ! i)) i k s)"
  by (simp add: dispatch_def run_callback_def Let_def)

subsection \<open>Open descriptors outside the table\<close>

definition leaked :: "int \<Rightarrow> server \<Rightarrow> bool" where
  "leaked d s \<longleftrightarrow> d \<in> open_fds s \<and> interest s d = None"

lemma leaked_not_served:
  "table_ok s \<Longrightarrow> leaked d s \<Longrightarrow> i < Suc MAX_EVENTS \<Longrightarrow> status (g_events s ! i) = 1 \<Longrightarrow> d \<noteq> fd (g_events s ! i)"
  using table_okD(3) [of s i] by (auto simp: leaked_def registered_ok_def)

lemma callback_leaked:
  assumes "table_ok s" "leaked d s" "i < Suc MAX_EVENTS" "status (g_events s ! i) = 1" "kernel_ok k s"
    and "run_callback i k s = Inr t"
  shows "leaked d t"
proof -
  have "accepted k \<noteq> Some d" using assms(2,5) by (auto simp: leaked_def kernel_ok_def)
  then have "same_fd d s t"
    using run_callback_frame [OF assms(1,3-6)] leaked_not_served [OF assms(1-4)] by blast
  then show ?thesis using assms(2) by (simp add: leaked_def same_fd_def)
qed

lemma scan_leaked:
  assumes "table_ok s" "leaked d s" "c \<le> MAX_EVENTS"
  shows "leaked d (snd (scan now n c s))"
proof -
  let ?t = "snd (scan now n c s)" and ?W = "scanned_slots c n"
  have t: "table_ok ?t" "scan_result now ?W s ?t" using scan_spec [OF assms(1,3), of now n] by simp_all
  have w: "i < Suc MAX_EVENTS" if "i \<in> ?W" for i using scanned_slots_less that by force
  have "d \<noteq> fd (g_events s ! i)" if "i \<in> ?W" "expired now s i" for i
    using leaked_not_served [OF assms(1,2) w [OF that(1)]] that(2) by (simp add: expired_def)
  then have o: "d \<in> open_fds ?t" using t(2) assms(2) by (auto simp: scan_result_def leaked_def)
  have "interest ?t d = None"
  proof (rule ccontr)
    assume "interest ?t d \<noteq> None"
    then obtain w i where "interest ?t d = Some (w, i)" by auto
    then have i: "i < Suc MAX_EVENTS" "status (g_events ?t ! i) = 1" "fd (g_events ?t ! i) = d"
      using table_okD(4) [OF t(1)] by simp_all
    then have "status (g_events s ! i) = 1" "fd (g_events s ! i) = d"
      using t(2) by (auto simp: scan_result_def split: if_splits)
    then show False using leaked_not_served [OF assms(1,2) i(1)] by simp
  qed
  then show ?thesis using o by (simp add: leaked_def)
qed

lemma dispatch_leaked:
  assumes "table_ok s" "leaked d s" "interest s e = Some (w, i)" "kernel_ok k1 s"
    and "\<And>s1. run_callback i k1 s = Inr s1 \<Longrightarrow> kernel_ok k2 s1" "dispatch i m k1 k2 s = Inr t"
  shows "leaked d t"
proof -
  have slot: "i < Suc MAX_EVENTS" "status (g_events s ! i) = 1" using table_okD(4) [OF assms(1,3)] by simp_all
  show ?thesis
  proof (cases "m AND EPOLLIN \<noteq> 0 \<and> events (g_events s ! i) AND EPOLLIN \<noteq> 0")
    case True
    obtain s1 where s1: "run_callback i k1 s = Inr s1" "table_ok s1"
      using run_callback_ok [OF assms(1) slot assms(4)] by blast
    have l1: "leaked d s1" using callback_leaked [OF assms(1,2) slot assms(4) s1(1)] .
    have st: "status (g_events s1 ! i) = 1" if "events (g_events s1 ! i) AND EPOLLOUT \<noteq> 0"
      using first_callback [OF assms(1) slot assms(4) _ s1(1)] True that by auto
    show ?thesis
      using True s1(1) assms(6) l1 callback_leaked [OF s1(2) l1 slot(1) st assms(5) [OF s1(1)]]
      by (auto simp: dispatch_def split: if_splits)
  next
    case False
    have "events (g_events s ! i) AND EPOLLOUT \<noteq> 0 \<Longrightarrow> call_back (g_events s ! i) = Senddata"
      using table_okD(3) [OF assms(1) slot] by (auto simp: registered_ok_def)
    moreover have "leaked d (senddata (fd (g_events s ! i)) i k2 s)"
      using senddata_frame [OF assms(1) slot leaked_not_served [OF assms(1,2) slot]] assms(2)
      by (simp add: same_fd_def leaked_def)
    ultimately show ?thesis
      using False assms(2,6) by (auto simp: dispatch_def run_callback_def Let_def split: if_splits)
  qed
qed

lemma step_leaked:
  assumes "server_step (c, Inr s) (c', Inr t)" "table_ok s" "c \<le> MAX_EVENTS" "leaked d s"
  shows "leaked d t"
  using assms(1)
proof (cases rule: server_step.cases)
  case (scanned now)
  then show ?thesis using scan_leaked [OF assms(2,4,3), of now 100] by (cases "scan now 100 c s") simp
next
  case (dispatched e w i k1 k2 m)
  then show ?thesis using dispatch_leaked [OF assms(2,4)] by metis
qed

lemma steps_leaked:
  assumes "server_step\<^sup>*\<^sup>* x y" "x = (c, Inr s)" "table_ok s" "c \<le> MAX_EVENTS" "leaked d s"
  shows "\<exists>c' t. y = (c', Inr t) \<and> table_ok t \<and> c' \<le> MAX_EVENTS \<and> leaked d t"
  using assms
proof (induction rule: rtranclp_induct)
  case (step y z)
  then obtain c' t where y: "y = (c', Inr t)" "table_ok t" "c' \<le> MAX_EVENTS" "leaked d t" by blast
  obtain u where u: "snd z = Inr u" "table_ok u" "fst z \<le> MAX_EVENTS"
    using step_table_ok [of c' t z] step.hyps(2) y by auto
  then have "z = (fst z, Inr u)" by (metis prod.collapse)
  then show ?case using step_leaked [of c' t "fst z" u d] step.hyps(2) y u by metis
qed blast

section \<open>Properties\<close>

text \<open>In every state the loop of the epoll server can reach, the table agrees with the kernel: an
  event is marked registered exactly when the interest list holds its descriptor with its mask and its
  slot, no two events share a descriptor, a registered event carries the callback of its mask, so no
  null callback is ever called, and the scan position stays in the table.\<close>

theorem table_mirrors_interest_list:
  assumes "server_reachable (c, r)"
  shows "\<exists>s. r = Inr s \<and> c \<le> MAX_EVENTS
    \<and> (\<forall>i < Suc MAX_EVENTS. status (g_events s ! i) = 1 \<longleftrightarrow>
         (\<exists>d. interest s d = Some (events (g_events s ! i), i) \<and> fd (g_events s ! i) = d))
    \<and> (\<forall>i < Suc MAX_EVENTS. status (g_events s ! i) = 1 \<longrightarrow> fd (g_events s ! i) \<in> open_fds s
         \<and> (events (g_events s ! i) = EPOLLIN \<and> call_back (g_events s ! i) \<in> {Recvdata, Acceptconn}
            \<or> events (g_events s ! i) = EPOLLOUT \<and> call_back (g_events s ! i) = Senddata))
    \<and> (\<forall>i < Suc MAX_EVENTS. \<forall>j < Suc MAX_EVENTS. status (g_events s ! i) = 1 \<longrightarrow> status (g_events s ! j) = 1 \<longrightarrow>
         fd (g_events s ! i) = fd (g_events s ! j) \<longrightarrow> i = j)
    \<and> (\<forall>d. interest s d \<noteq> None \<longrightarrow> (\<exists>i < Suc MAX_EVENTS. status (g_events s ! i) = 1 \<and> fd (g_events s ! i) = d))"
proof -
  obtain s where s: "r = Inr s" "table_ok s" "c \<le> MAX_EVENTS" using reachable_ok [OF assms] by auto
  note D = table_okD(3,4) [OF s(2), unfolded registered_ok_def]
  have inj: "i = j" if "i < Suc MAX_EVENTS" "j < Suc MAX_EVENTS" "status (g_events s ! i) = 1"
    "status (g_events s ! j) = 1" "fd (g_events s ! i) = fd (g_events s ! j)" for i j
    using conjunct1 [OF D(1) [OF that(1,3)]] conjunct1 [OF D(1) [OF that(2,4)]] that(5)
    by (metis option.inject prod.inject)
  have a: "\<forall>i < Suc MAX_EVENTS. status (g_events s ! i) = 1 \<longleftrightarrow>
      (\<exists>d. interest s d = Some (events (g_events s ! i), i) \<and> fd (g_events s ! i) = d)"
    using D by blast
  have b: "\<forall>i < Suc MAX_EVENTS. status (g_events s ! i) = 1 \<longrightarrow> fd (g_events s ! i) \<in> open_fds s
         \<and> (events (g_events s ! i) = EPOLLIN \<and> call_back (g_events s ! i) \<in> {Recvdata, Acceptconn}
            \<or> events (g_events s ! i) = EPOLLOUT \<and> call_back (g_events s ! i) = Senddata)"
    using D(1) by (metis insertCI)
  have d: "\<exists>i < Suc MAX_EVENTS. status (g_events s ! i) = 1 \<and> fd (g_events s ! i) = d"
    if "interest s d \<noteq> None" for d
    using D(2) that by (cases "interest s d") auto
  show ?thesis
    by (intro exI [of _ s] conjI) (use s(1,3) a b inj d in \<open>(assumption | blast)+\<close>)
qed

theorem table_mirrors_interest_list_witness:
  "\<exists>s. Inr one_client = (Inr s :: server result) \<and> (\<exists>i < Suc MAX_EVENTS. status (g_events s ! i) = 1 \<and> fd (g_events s ! i) = 5)"
  using table_mirrors_interest_list [OF one_client_reachable] by (auto simp: one_client_fields)

text \<open>A message of 1 to 127 bytes that arrives in a registered event is echoed: the read callback
  switches the event to writing, the write callback hands the kernel exactly the received bytes (as many
  of them as it takes, and no others) and switches the event back to reading.\<close>

theorem short_message_is_echoed:
  assumes "server_reachable (c, Inr s)" "interest s d = Some (w, i)" "call_back (g_events s ! i) = Recvdata"
    and "received k = Some bytes" "bytes \<noteq> []" "length bytes < BUFLEN" "taken k' = Some n" "0 < n"
  shows "\<exists>s1 s2. dispatch i EPOLLIN k k0 s = Inr s1 \<and> interest s1 d = Some (EPOLLOUT, i)
    \<and> dispatch i EPOLLOUT k0' k' s1 = Inr s2 \<and> sent s2 = sent s @ [(d, take n bytes)]
    \<and> interest s2 = (interest s)(d \<mapsto> (EPOLLIN, i)) \<and> open_fds s2 = open_fds s
    \<and> call_back (g_events s2 ! i) = Recvdata"
proof -
  have ok: "table_ok s" using reachable_table [OF assms(1)] by simp
  have slot: "i < Suc MAX_EVENTS" "status (g_events s ! i) = 1" "fd (g_events s ! i) = d"
    using table_okD(4) [OF ok assms(2)] by simp_all
  have le: "length bytes \<le> BUFLEN" using assms(6) by simp
  define t where "t = recvdata d i k s"
  note r = received_event [OF ok slot(1,2) assms(3-5) le, unfolded slot(3), folded t_def]
  define m where "m = min n (length bytes)"
  have m: "0 < m" "m = (case taken k' of None \<Rightarrow> 0 | Some m \<Rightarrow> min m (len (g_events t ! i)))"
    using assms(5-8) r(10) by (simp_all add: m_def)
  note f = senddata_fields(1) [OF r(2) slot(1) r(6) r(7) [symmetric] m]
  have "take m (buf (g_events t ! i)) = take n bytes"
    using r(10) [OF assms(6)] by (metis m_def take_take)
  then show ?thesis
    using r(1) [of k0] r(3-5) send_dispatch [OF r(8,9)] f r(7)
    by (intro exI [of _ t] exI [of _ "senddata d i k' t"]) simp
qed

theorem short_message_is_echoed_witness:
  "\<exists>s1 s2. dispatch 0 EPOLLIN (quiet\<lparr>received := Some [104, 105]\<rparr>) quiet one_client = Inr s1
    \<and> dispatch 0 EPOLLOUT quiet (quiet\<lparr>taken := Some 2\<rparr>) s1 = Inr s2 \<and> sent s2 = [(5, [104, 105])]"
  using short_message_is_echoed [OF one_client_reachable, of 5 EPOLLIN 0 "quiet\<lparr>received := Some [104, 105]\<rparr>" "[104, 105]"
      "quiet\<lparr>taken := Some 2\<rparr>" 2 quiet quiet]
  by (auto simp: one_client_fields fresh_event_def BUFLEN_def)

text \<open>A message that fills the buffer is never echoed: the terminator that the read callback stores
  behind the 128 bytes clears the length, the write callback sends nothing and closes the connection,
  whatever the kernel would take.\<close>

theorem full_buffer_closes_connection:
  assumes "server_reachable (c, Inr s)" "interest s d = Some (w, i)" "call_back (g_events s ! i) = Recvdata"
    and "received k = Some bytes" "length bytes = BUFLEN"
  shows "\<exists>s1 s2. dispatch i EPOLLIN k k0 s = Inr s1 \<and> interest s1 d = Some (EPOLLOUT, i)
    \<and> dispatch i EPOLLOUT k0' k' s1 = Inr s2 \<and> sent s2 = sent s
    \<and> interest s2 d = None \<and> open_fds s2 = open_fds s - {d} \<and> status (g_events s2 ! i) \<noteq> 1"
proof -
  have ok: "table_ok s" using reachable_table [OF assms(1)] by simp
  have slot: "i < Suc MAX_EVENTS" "status (g_events s ! i) = 1" "fd (g_events s ! i) = d"
    using table_okD(4) [OF ok assms(2)] by simp_all
  have ne: "bytes \<noteq> []" using assms(5) by (auto simp: BUFLEN_def)
  define t where "t = recvdata d i k s"
  note r = received_event [OF ok slot(1,2) assms(3,4) ne eq_refl [OF assms(5)], unfolded slot(3), folded t_def]
  have "(case taken k' of None \<Rightarrow> 0 | Some m \<Rightarrow> min m (len (g_events t ! i))) = 0"
    using r(11) assms(5) by (simp split: option.split)
  note f = senddata_fields(2) [OF r(2) slot(1) r(6) r(7) [symmetric] this]
  show ?thesis
    using r(1) [of k0] r(3-5) send_dispatch [OF r(8,9)] f r(7)
    by (intro exI [of _ t] exI [of _ "senddata d i k' t"]) simp
qed

theorem full_buffer_closes_connection_witness:
  "\<exists>s1 s2. dispatch 0 EPOLLIN (quiet\<lparr>received := Some (replicate 128 97)\<rparr>) quiet one_client = Inr s1
    \<and> dispatch 0 EPOLLOUT quiet (quiet\<lparr>taken := Some 128\<rparr>) s1 = Inr s2 \<and> sent s2 = [] \<and> 5 \<notin> open_fds s2"
  using full_buffer_closes_connection [OF one_client_reachable, of 5 EPOLLIN 0
      "quiet\<lparr>received := Some (replicate 128 97)\<rparr>" "replicate 128 97" quiet quiet "quiet\<lparr>taken := Some 128\<rparr>"]
  by (auto simp: one_client_fields fresh_event_def BUFLEN_def)

text \<open>The timeout scan of one turn keeps its position in the table, closes and frees exactly the
  registered events of its window of 100 slots that were idle for at least 60 seconds, leaves every
  other event as it is, and never touches the listening event.\<close>

theorem timeout_scan_closes_idle_clients:
  assumes "server_reachable (c, Inr s)" and "scan now 100 c s = (c', t)"
  shows "c' \<le> MAX_EVENTS \<and> MAX_EVENTS \<notin> scanned_slots c 100 \<and> card (scanned_slots c 100) = 100
    \<and> (\<forall>i < Suc MAX_EVENTS. status (g_events s ! i) = 1 \<longrightarrow>
        (if i \<in> scanned_slots c 100 \<and> 60 \<le> now - last_active (g_events s ! i)
         then status (g_events t ! i) = 0 \<and> fd (g_events s ! i) \<notin> open_fds t \<and> interest t (fd (g_events s ! i)) = None
         else g_events t ! i = g_events s ! i \<and> fd (g_events s ! i) \<in> open_fds t
           \<and> interest t (fd (g_events s ! i)) = Some (events (g_events s ! i), i)))"
proof -
  have ok: "table_ok s" "c \<le> MAX_EVENTS" using reachable_table [OF assms(1)] by simp_all
  have t: "c' \<le> MAX_EVENTS" "table_ok t" "scan_result now (scanned_slots c 100) s t"
    using scan_spec [OF ok, of now 100] assms(2) by simp_all
  have lst: "MAX_EVENTS \<notin> scanned_slots c 100" using scanned_slots_less [of c 100] by auto
  have card: "card (scanned_slots c 100) = 100" by (rule card_scanned_slots) (simp add: MAX_EVENTS_def)
  have "if i \<in> scanned_slots c 100 \<and> 60 \<le> now - last_active (g_events s ! i)
         then status (g_events t ! i) = 0 \<and> fd (g_events s ! i) \<notin> open_fds t \<and> interest t (fd (g_events s ! i)) = None
         else g_events t ! i = g_events s ! i \<and> fd (g_events s ! i) \<in> open_fds t
           \<and> interest t (fd (g_events s ! i)) = Some (events (g_events s ! i), i)"
    if i: "i < Suc MAX_EVENTS" "status (g_events s ! i) = 1" for i
  proof (cases "i \<in> scanned_slots c 100 \<and> expired now s i")
    case True
    then have "status (g_events t ! i) = 0" "fd (g_events s ! i) \<notin> open_fds t"
      using t(3) i by (auto simp: scan_result_def)
    then show ?thesis using True i no_interest_of_closed [OF t(2)] by (simp add: expired_def)
  next
    case False
    then have "g_events t ! i = g_events s ! i" using t(3) i by (auto simp: scan_result_def)
    then show ?thesis
      using False i table_okD(3) [OF t(2) i(1)] by (auto simp: registered_ok_def expired_def)
  qed
  then show ?thesis using t(1) lst card by blast
qed

theorem timeout_scan_closes_idle_clients_witness:
  "\<exists>t. snd (scan 60 100 0 one_client) = t \<and> 5 \<notin> open_fds t \<and> interest t 5 = None"
proof -
  have "0 \<in> scanned_slots 0 100" by (auto simp: scanned_slots_def MAX_EVENTS_def intro!: image_eqI [of _ _ 0])
  then show ?thesis
    using timeout_scan_closes_idle_clients [OF one_client_reachable, of 60 "fst (scan 60 100 0 one_client)" "snd (scan 60 100 0 one_client)"]
    by (auto simp: one_client_fields fresh_event_def dest!: spec [of _ 0])
qed

text \<open>An accepted connection is registered for reading in the first free slot; when every slot is
  taken or \<^verbatim>\<open>fcntl\<close> fails, its descriptor stays open in no slot, and no later step of the server ever
  closes or registers it.\<close>

theorem refused_connection_leaks_descriptor:
  assumes "server_reachable (c, Inr s)" "accepted k = Some d" "d \<notin> open_fds s"
  shows "if (\<exists>i < MAX_EVENTS. status (g_events s ! i) = 0) \<and> fcntl_ok k
    then \<exists>i < MAX_EVENTS. status (g_events s ! i) = 0 \<and> (\<forall>j < i. status (g_events s ! j) \<noteq> 0)
      \<and> interest (acceptconn k s) = (interest s)(d \<mapsto> (EPOLLIN, i))
      \<and> fd (g_events (acceptconn k s) ! i) = d \<and> call_back (g_events (acceptconn k s) ! i) = Recvdata
    else \<forall>y. server_step\<^sup>*\<^sup>* (c, Inr (acceptconn k s)) y \<longrightarrow>
      (\<exists>c' t. y = (c', Inr t) \<and> d \<in> open_fds t \<and> interest t d = None
        \<and> (\<forall>i < Suc MAX_EVENTS. status (g_events t ! i) = 1 \<longrightarrow> fd (g_events t ! i) \<noteq> d))"
proof -
  have ok: "table_ok s" "c \<le> MAX_EVENTS" using reachable_table [OF assms(1)] by simp_all
  let ?s = "s\<lparr>open_fds := insert d (open_fds s)\<rparr>"
  have ok': "table_ok ?s" "leaked d ?s"
    using open_more [OF ok(1)] no_interest_of_closed [OF ok(1) assms(3)] by (simp_all add: leaked_def)
  let ?i = "free_event ?s"
  show ?thesis
  proof (cases "(\<exists>i < MAX_EVENTS. status (g_events s ! i) = 0) \<and> fcntl_ok k")
    case True
    then obtain i where i: "i < MAX_EVENTS" "status (g_events ?s ! i) = 0" by auto
    have f: "?i \<noteq> MAX_EVENTS" using free_event_full [OF ok'(1) _ i(1)] i(2) by blast
    note True
    note free = free_event_free [OF ok'(1) f]
    have r: "acceptconn k s = eventadd EPOLLIN ?i (eventset ?i d Recvdata (clock k) ?s)"
      using True f assms(2) by (simp add: acceptconn_def Let_def)
    have pre: "?i < length (g_events ?s)" "interest ?s d = None" "d \<in> open_fds ?s"
      using free(1) table_okD(1) [OF ok'(1)] ok'(2) by (simp_all add: leaked_def)
    have "\<forall>j < ?i. status (g_events s ! j) \<noteq> 0"
      using free_event_before [OF ok'(1)] by simp
    then show ?thesis
      using True free eventadd_fields(1,2) [OF pre, of EPOLLIN Recvdata "clock k"]
      by (auto simp: r fresh_event_def intro!: exI [of _ ?i])
  next
    case False
    then have "?i = MAX_EVENTS \<or> \<not> fcntl_ok k"
      using free_event_free [OF ok'(1)] by auto
    then have r: "acceptconn k s = ?s" using assms(2) by (auto simp: acceptconn_def Let_def)
    have "\<exists>c' t. y = (c', Inr t) \<and> d \<in> open_fds t \<and> interest t d = None
        \<and> (\<forall>i < Suc MAX_EVENTS. status (g_events t ! i) = 1 \<longrightarrow> fd (g_events t ! i) \<noteq> d)"
      if y: "server_step\<^sup>*\<^sup>* (c, Inr ?s) y" for y
    proof -
      obtain c' t where t: "y = (c', Inr t)" "table_ok t" "leaked d t"
        using steps_leaked [OF y refl ok'(1) ok(2) ok'(2)] by blast
      have "\<forall>i < Suc MAX_EVENTS. status (g_events t ! i) = 1 \<longrightarrow> fd (g_events t ! i) \<noteq> d"
        using leaked_not_served [OF t(2,3)] by blast
      then show ?thesis using t(1,3) unfolding leaked_def by blast
    qed
    then show ?thesis unfolding r if_not_P [OF False] by blast
  qed
qed

theorem refused_connection_leaks_descriptor_witness:
  "\<exists>c' t. (0, Inr (acceptconn (quiet\<lparr>accepted := Some 7, fcntl_ok := False\<rparr>) one_client)) = (c' :: nat, Inr t :: server result)
     \<and> 7 \<in> open_fds t \<and> interest t 7 = None"
  using refused_connection_leaks_descriptor [OF one_client_reachable, of "quiet\<lparr>accepted := Some 7, fcntl_ok := False\<rparr>" 7]
  by (auto simp: one_client_fields dest!: spec [of _ "(0, Inr (acceptconn (quiet\<lparr>accepted := Some 7, fcntl_ok := False\<rparr>) one_client))"])

end
