(* ===== verification/DataStream.thy ===== *)
theory DataStream
  imports StdContainers "HOL-Library.List_Lexorder"
begin

text \<open>
  The serialiser \<^verbatim>\<open>cpp-serialize/DataStream.h\<close>.

  A stream is its buffer \<^verbatim>\<open>m_buf\<close> (a \<^verbatim>\<open>vector<char>\<close>, with the capacity the code manages itself)
  and the read cursor \<^verbatim>\<open>m_pos\<close>.  Each value is written as a tag byte and the little-endian bytes
  of the value.  A \<open>read\<close> returns the new stream and \<open>Some\<close> value, or \<open>None\<close> where the C++ function
  returns \<^verbatim>\<open>false\<close> and leaves its argument alone.  Reading past the buffer is \<open>Out_Of_Bounds\<close>,
  using a variable no one has assigned is \<open>Uninitialised\<close>.  A \<^verbatim>\<open>float\<close> or \<^verbatim>\<open>double\<close> is its bit
  pattern.  The contract of an element type is the locale \<open>codec\<close>, interpreted on every scalar
  type and on strings; the container operations are used through it.
\<close>

section \<open>Little-endian bytes\<close>

type_synonym byte = "8 word"

fun le_bytes :: "nat \<Rightarrow> nat \<Rightarrow> byte list" where
  "le_bytes 0 v = []"
| "le_bytes (Suc n) v = word_of_nat (v mod 256) # le_bytes n (v div 256)"

fun le_value :: "byte list \<Rightarrow> nat" where
  "le_value [] = 0"
| "le_value (b # bs) = unat b + 256 * le_value bs"

lemma length_le_bytes [simp]: "length (le_bytes n v) = n"
  by (induction n arbitrary: v) auto

lemma unat_of_byte: "unat (word_of_nat (v mod 256) :: byte) = v mod 256"
  by (simp add: unat_of_nat)

lemma le_value_le_bytes: "le_value (le_bytes n v) = v mod 256 ^ n"
proof (induction n arbitrary: v)
  case (Suc n)
  then show ?case by (simp add: unat_of_byte mod_mult2_eq mult.commute)
qed simp

lemma word_of_le_bytes:
  "LENGTH('a) = 8 * n \<Longrightarrow> (word_of_nat (le_value (le_bytes n (unat w))) :: 'a::len word) = w"
proof -
  assume "LENGTH('a) = 8 * n"
  then have "(256 :: nat) ^ n = 2 ^ LENGTH('a)" by (simp add: power_mult)
  moreover have "unat w < 2 ^ LENGTH('a)" by (rule unsigned_less)
  ultimately show ?thesis by (simp add: le_value_le_bytes)
qed

section \<open>The stream\<close>

datatype data_type =
  T_BOOL | T_CHAR | T_INT16 | T_INT32 | T_INT64 | T_FLOAT | T_DOUBLE | T_STRING | T_VECTOR | T_LIST | T_SET | T_MAP | T_CUSTOM

text \<open>The enumeration numbers its constants from 0 in the order of their declaration, and the
  constant \<^verbatim>\<open>X\<close> is called \<open>T_X\<close>.\<close>

fun type_code :: "data_type \<Rightarrow> nat" where
  "type_code T_BOOL = 0" | "type_code T_CHAR = 1" | "type_code T_INT16 = 2" | "type_code T_INT32 = 3"
| "type_code T_INT64 = 4" | "type_code T_FLOAT = 5" | "type_code T_DOUBLE = 6" | "type_code T_STRING = 7"
| "type_code T_VECTOR = 8" | "type_code T_LIST = 9" | "type_code T_SET = 10" | "type_code T_MAP = 11"
| "type_code T_CUSTOM = 12"

lemma type_code_inject [simp]: "type_code a = type_code b \<longleftrightarrow> a = b"
  by (cases a; cases b) simp_all

lemma type_code_less: "type_code a < 13"
  by (cases a) simp_all

definition tag :: "data_type \<Rightarrow> byte" where
  "tag t = word_of_nat (type_code t)"

lemma unat_tag: "unat (tag t) = type_code t"
  using type_code_less [of t] by (simp add: tag_def unat_of_nat)

lemma tag_inject [simp]: "tag a = tag b \<longleftrightarrow> a = b"
  by (metis type_code_inject unat_tag)

text \<open>The code keeps sizes, capacities and the cursor in variables of type \<^verbatim>\<open>int\<close>.  \<open>m_overflow\<close>
  is not a member of the class: it is set for good by the first computation whose result is not an
  \<^verbatim>\<open>int\<close>, and from then on the other fields say nothing of the program.\<close>

record stream =
  m_buf :: "byte list"
  m_cap :: nat
  m_pos :: int
  m_overflow :: bool

definition new_stream :: stream where
  "new_stream = \<lparr>m_buf = [], m_cap = 0, m_pos = 0, m_overflow = False\<rparr>"

definition reserve :: "nat \<Rightarrow> stream \<Rightarrow> stream" where
  "reserve len s =
     (let size' = length (m_buf s); cap = m_cap s
      in if cap < size' + len
         then s\<lparr>m_cap := doubling cap (size' + len),
                m_overflow := m_overflow s \<or> INT_MAX < int (doubling cap (size' + len))\<rparr>
         else s\<lparr>m_overflow := m_overflow s \<or> INT_MAX < int (size' + len)\<rparr>)"

text \<open>The doubling passes through smaller numbers only, and it ends at or above \<open>size + len\<close>: when its
  result is an \<^verbatim>\<open>int\<close>, so is every number it went through.\<close>

definition write_data :: "byte list \<Rightarrow> stream \<Rightarrow> stream" where
  "write_data data s = (let s1 = reserve (length data) s in s1\<lparr>m_buf := m_buf s1 @ data\<rparr>)"

section \<open>Writing scalars and strings\<close>

definition write_bool :: "bool \<Rightarrow> stream \<Rightarrow> stream" where
  "write_bool v s = write_data [if v then 1 else 0] (write_data [tag T_BOOL] s)"

definition write_char :: "byte \<Rightarrow> stream \<Rightarrow> stream" where
  "write_char v s = write_data [v] (write_data [tag T_CHAR] s)"

definition write_int16 :: "16 word \<Rightarrow> stream \<Rightarrow> stream" where
  "write_int16 v s = write_data (le_bytes 2 (unat v)) (write_data [tag T_INT16] s)"

definition write_int32 :: "32 word \<Rightarrow> stream \<Rightarrow> stream" where
  "write_int32 v s = write_data (le_bytes 4 (unat v)) (write_data [tag T_INT32] s)"

definition write_int64 :: "64 word \<Rightarrow> stream \<Rightarrow> stream" where
  "write_int64 v s = write_data (le_bytes 8 (unat v)) (write_data [tag T_INT64] s)"

text \<open>\<^verbatim>\<open>int len = value.size()\<close>: the size cut to 32 bits.\<close>

definition len32 :: "nat \<Rightarrow> 32 word" where
  "len32 n = word_of_nat n"

definition write_string :: "byte list \<Rightarrow> stream \<Rightarrow> stream" where
  "write_string v s =
     write_data v (write_int32 (len32 (length v)) (write_data [tag T_STRING] s))"

text \<open>\<^verbatim>\<open>write(const char * value)\<close> writes the bytes in front of the first NUL.\<close>

definition write_cstring :: "byte list \<Rightarrow> stream \<Rightarrow> stream" where
  "write_cstring v s =
     (let n = length (takeWhile (\<lambda>b. b \<noteq> 0) v)
      in write_data (take n v) (write_int32 (len32 n) (write_data [tag T_STRING] s)))"

definition write_float :: "32 word \<Rightarrow> stream \<Rightarrow> stream" where
  "write_float v s = write_data (le_bytes 4 (unat v)) (write_data [tag T_FLOAT] s)"

definition write_double :: "64 word \<Rightarrow> stream \<Rightarrow> stream" where
  "write_double v s = write_data (le_bytes 8 (unat v)) (write_data [tag T_DOUBLE] s)"

section \<open>Reading scalars and strings\<close>

text \<open>\<^verbatim>\<open>m_buf[m_pos]\<close>\<close>

definition byte_at :: "stream \<Rightarrow> byte result" where
  "byte_at s = (if 0 \<le> m_pos s \<and> m_pos s < int (length (m_buf s))
                then Inr (m_buf s ! nat (m_pos s)) else Inl Out_Of_Bounds)"

text \<open>The \<open>n\<close> bytes at \<^verbatim>\<open>&m_buf[m_pos]\<close>\<close>

definition bytes_at :: "nat \<Rightarrow> stream \<Rightarrow> byte list result" where
  "bytes_at n s = (if 0 \<le> m_pos s \<and> m_pos s + int n \<le> int (length (m_buf s))
                   then Inr (take n (drop (nat (m_pos s)) (m_buf s))) else Inl Out_Of_Bounds)"

definition sum_overflows :: "int \<Rightarrow> int \<Rightarrow> bool" where
  "sum_overflows a b \<longleftrightarrow> 0 < b \<and> INT_MAX < a + b \<or> b < 0 \<and> a + b < - INT_MAX - 1"

definition advance :: "int \<Rightarrow> stream \<Rightarrow> stream" where
  "advance n s = s\<lparr>m_pos := m_pos s + n, m_overflow := m_overflow s \<or> sum_overflows (m_pos s) n\<rparr>"

definition read_bool :: "stream \<Rightarrow> (stream \<times> bool option) result" where
  "read_bool s = rbind (byte_at s) (\<lambda>t.
     if t \<noteq> tag T_BOOL then Inr (s, None)
     else (let s1 = advance 1 s in rbind (byte_at s1) (\<lambda>v. Inr (advance 1 s1, Some (v \<noteq> 0)))))"

definition read_char :: "stream \<Rightarrow> (stream \<times> byte option) result" where
  "read_char s = rbind (byte_at s) (\<lambda>t.
     if t \<noteq> tag T_CHAR then Inr (s, None)
     else (let s1 = advance 1 s in rbind (byte_at s1) (\<lambda>v. Inr (advance 1 s1, Some v))))"

definition read_int16 :: "stream \<Rightarrow> (stream \<times> (16 word) option) result" where
  "read_int16 s = rbind (byte_at s) (\<lambda>t.
     if t \<noteq> tag T_INT16 then Inr (s, None)
     else (let s1 = advance 1 s in rbind (bytes_at 2 s1) (\<lambda>bs.
             Inr (advance 2 s1, Some (word_of_nat (le_value bs))))))"

definition read_int32 :: "stream \<Rightarrow> (stream \<times> (32 word) option) result" where
  "read_int32 s = rbind (byte_at s) (\<lambda>t.
     if t \<noteq> tag T_INT32 then Inr (s, None)
     else (let s1 = advance 1 s in rbind (bytes_at 4 s1) (\<lambda>bs.
             Inr (advance 4 s1, Some (word_of_nat (le_value bs))))))"

definition read_int64 :: "stream \<Rightarrow> (stream \<times> (64 word) option) result" where
  "read_int64 s = rbind (byte_at s) (\<lambda>t.
     if t \<noteq> tag T_INT64 then Inr (s, None)
     else (let s1 = advance 1 s in rbind (bytes_at 8 s1) (\<lambda>bs.
             Inr (advance 8 s1, Some (word_of_nat (le_value bs))))))"

definition read_float :: "stream \<Rightarrow> (stream \<times> (32 word) option) result" where
  "read_float s = rbind (byte_at s) (\<lambda>t.
     if t \<noteq> tag T_FLOAT then Inr (s, None)
     else (let s1 = advance 1 s in rbind (bytes_at 4 s1) (\<lambda>bs.
             Inr (advance 4 s1, Some (word_of_nat (le_value bs))))))"

definition read_double :: "stream \<Rightarrow> (stream \<times> (64 word) option) result" where
  "read_double s = rbind (byte_at s) (\<lambda>t.
     if t \<noteq> tag T_DOUBLE then Inr (s, None)
     else (let s1 = advance 1 s in rbind (bytes_at 8 s1) (\<lambda>bs.
             Inr (advance 8 s1, Some (word_of_nat (le_value bs))))))"

text \<open>\<^verbatim>\<open>int len; read(len);\<close>: the result of \<^verbatim>\<open>read\<close> is ignored, and \<^verbatim>\<open>len\<close> is used at once.\<close>

definition read_len :: "stream \<Rightarrow> (stream \<times> int) result" where
  "read_len s = rbind (read_int32 s) (\<lambda>(s', v).
     case v of None \<Rightarrow> Inl Uninitialised | Some w \<Rightarrow> Inr (s', sint w))"

definition read_string :: "stream \<Rightarrow> (stream \<times> byte list option) result" where
  "read_string s = rbind (byte_at s) (\<lambda>t.
     if t \<noteq> tag T_STRING then Inr (s, None)
     else rbind (read_len (advance 1 s)) (\<lambda>(s1, len).
            if len < 0 then Inr (s1, None)
            else rbind (bytes_at (nat len) s1) (\<lambda>bs. Inr (advance len s1, Some bs))))"

section \<open>Containers\<close>

text \<open>The templates take the \<^verbatim>\<open>write\<close> and \<^verbatim>\<open>read\<close> of the element type, and \<open>dflt\<close>, what a variable
  \<^verbatim>\<open>T v;\<close> holds when \<^verbatim>\<open>read(v)\<close> fails: \<open>Inl Uninitialised\<close> for the arithmetic types.\<close>

definition write_elems :: "('a \<Rightarrow> stream \<Rightarrow> stream) \<Rightarrow> 'a list \<Rightarrow> stream \<Rightarrow> stream" where
  "write_elems wr xs s = fold wr xs s"

definition write_vector :: "('a \<Rightarrow> stream \<Rightarrow> stream) \<Rightarrow> 'a list \<Rightarrow> stream \<Rightarrow> stream" where
  "write_vector wr v s =
     write_elems wr v (write_int32 (len32 (length v)) (write_data [tag T_VECTOR] s))"

definition write_set :: "('a \<Rightarrow> stream \<Rightarrow> stream) \<Rightarrow> 'a list \<Rightarrow> stream \<Rightarrow> stream" where
  "write_set wr v s =
     write_elems wr v (write_int32 (len32 (length v)) (write_data [tag T_SET] s))"

definition write_map ::
  "('k \<Rightarrow> stream \<Rightarrow> stream) \<Rightarrow> ('v \<Rightarrow> stream \<Rightarrow> stream) \<Rightarrow> ('k \<times> 'v) list \<Rightarrow> stream \<Rightarrow> stream" where
  "write_map wk wv m s =
     fold (\<lambda>(k, v) s. wv v (wk k s)) m
       (write_int32 (len32 (length m)) (write_data [tag T_MAP] s))"

definition write_list :: "('a \<Rightarrow> stream \<Rightarrow> stream) \<Rightarrow> 'a list \<Rightarrow> stream \<Rightarrow> stream" where
  "write_list wr v s =
     write_elems wr v (write_int32 (len32 (length v)) (write_data [tag T_VECTOR] s))"

definition read_elem ::
  "(stream \<Rightarrow> (stream \<times> 'a option) result) \<Rightarrow> 'a result \<Rightarrow> stream \<Rightarrow> (stream \<times> 'a) result" where
  "read_elem rd dflt s = rbind (rd s) (\<lambda>(s1, v).
     case v of Some x \<Rightarrow> Inr (s1, x) | None \<Rightarrow> rbind dflt (\<lambda>x. Inr (s1, x)))"

fun read_elems ::
  "(stream \<Rightarrow> (stream \<times> 'a option) result) \<Rightarrow> 'a result \<Rightarrow> nat \<Rightarrow> stream \<Rightarrow>
   (stream \<times> 'a list) result" where
  "read_elems rd dflt 0 s = Inr (s, [])"
| "read_elems rd dflt (Suc n) s = rbind (read_elem rd dflt s) (\<lambda>(s1, x).
     rbind (read_elems rd dflt n s1) (\<lambda>(s2, xs). Inr (s2, x # xs)))"

definition read_vector ::
  "(stream \<Rightarrow> (stream \<times> 'a option) result) \<Rightarrow> 'a result \<Rightarrow> stream \<Rightarrow>
   (stream \<times> bool \<times> 'a list) result" where
  "read_vector rd dflt s = rbind (byte_at s) (\<lambda>t.
     if t \<noteq> tag T_VECTOR then Inr (s, False, [])
     else rbind (read_len (advance 1 s)) (\<lambda>(s1, len).
          rbind (read_elems rd dflt (nat len) s1) (\<lambda>(s2, xs).
          Inr (advance len s2, True, xs))))"

definition read_list ::
  "(stream \<Rightarrow> (stream \<times> 'a option) result) \<Rightarrow> 'a result \<Rightarrow> stream \<Rightarrow>
   (stream \<times> bool \<times> 'a list) result" where
  "read_list rd dflt s = rbind (byte_at s) (\<lambda>t.
     if t \<noteq> tag T_LIST then Inr (s, False, [])
     else rbind (read_len (advance 1 s)) (\<lambda>(s1, len).
          rbind (read_elems rd dflt (nat len) s1) (\<lambda>(s2, xs).
          Inr (advance len s2, True, xs))))"

definition read_set ::
  "(stream \<Rightarrow> (stream \<times> 'a::linorder option) result) \<Rightarrow> 'a result \<Rightarrow> stream \<Rightarrow>
   (stream \<times> bool \<times> 'a list) result" where
  "read_set rd dflt s = rbind (byte_at s) (\<lambda>t.
     if t \<noteq> tag T_SET then Inr (s, False, [])
     else rbind (read_len (advance 1 s)) (\<lambda>(s1, len).
          rbind (read_elems rd dflt (nat len) s1) (\<lambda>(s2, xs).
          Inr (advance len s2, True, fold insort_insert xs []))))"

text \<open>\<^verbatim>\<open>for(int i = 0; i < len; i += 2)\<close>: \<open>n\<close> is what is left of \<open>len - i\<close>.  When \<open>len\<close> is the
  greatest \<^verbatim>\<open>int\<close>, the last step takes \<open>i\<close> from \<open>len - 1\<close> out of the range.\<close>

fun read_entries ::
  "(stream \<Rightarrow> (stream \<times> 'k::linorder option) result) \<Rightarrow> 'k result \<Rightarrow>
   (stream \<Rightarrow> (stream \<times> 'v option) result) \<Rightarrow> 'v result \<Rightarrow>
   nat \<Rightarrow> ('k \<times> 'v) list \<Rightarrow> stream \<Rightarrow> (stream \<times> ('k \<times> 'v) list) result" where
  "read_entries rk dk rv dv n m s =
     (if n = 0 then Inr (s, m)
      else rbind (read_elem rk dk s) (\<lambda>(s1, k).
           rbind (read_elem rv dv s1) (\<lambda>(s2, v).
           read_entries rk dk rv dv (n - 2) (omap_put k v m) s2)))"

declare read_entries.simps [simp del]

definition read_map ::
  "(stream \<Rightarrow> (stream \<times> 'k::linorder option) result) \<Rightarrow> 'k result \<Rightarrow>
   (stream \<Rightarrow> (stream \<times> 'v option) result) \<Rightarrow> 'v result \<Rightarrow> stream \<Rightarrow>
   (stream \<times> bool \<times> ('k \<times> 'v) list) result" where
  "read_map rk dk rv dv s = rbind (byte_at s) (\<lambda>t.
     if t \<noteq> tag T_MAP then Inr (s, False, [])
     else rbind (read_len (advance 1 s)) (\<lambda>(s1, len).
          rbind (read_entries rk dk rv dv (nat len) [] s1) (\<lambda>(s2, m).
          Inr ((advance len s2)\<lparr>m_overflow := m_overflow (advance len s2) \<or> len = INT_MAX\<rparr>, True, m))))"

section \<open>Stream operators\<close>

text \<open>Every \<^verbatim>\<open>operator <<\<close> calls \<^verbatim>\<open>write(value)\<close> and every \<^verbatim>\<open>operator >>\<close> calls \<^verbatim>\<open>read(value)\<close>, whose
  result it drops; both return the stream.  \<open>old\<close> is what the variable held before.\<close>

definition put_op :: "('a \<Rightarrow> stream \<Rightarrow> stream) \<Rightarrow> stream \<Rightarrow> 'a \<Rightarrow> stream" where
  "put_op wr s v = wr v s"

definition get_op ::
  "(stream \<Rightarrow> (stream \<times> 'a option) result) \<Rightarrow> stream \<Rightarrow> 'a \<Rightarrow> (stream \<times> 'a) result" where
  "get_op rd s old = rbind (rd s) (\<lambda>(s', v).
     Inr (s', (case v of None \<Rightarrow> old | Some x \<Rightarrow> x)))"

section \<open>Printing a stream\<close>

datatype shown =
  Shown_bool bool | Shown_char byte | Shown_int int | Shown_float "32 word"
| Shown_double "64 word" | Shown_string "byte list"

text \<open>The loop of \<^verbatim>\<open>display\<close> with its index \<open>i\<close>; the container tags and unknown tags have a branch
  that does not advance \<open>i\<close>.  \<open>None\<close> stands for a loop that never ends.\<close>

definition word_at :: "nat \<Rightarrow> nat \<Rightarrow> byte list \<Rightarrow> nat result" where
  "word_at n i buf = (if i + n \<le> length buf then Inr (le_value (take n (drop i buf)))
                      else Inl Out_Of_Bounds)"

partial_function (option) display_loop ::
  "byte list \<Rightarrow> nat \<Rightarrow> shown list \<Rightarrow> shown list result option" where
  "display_loop buf i out =
     (if i < length buf then
        (let t = unat (buf ! i) in
         if t = 0 \<or> t = 1 then
           (case word_at 1 (Suc i) buf of
              Inl e \<Rightarrow> Some (Inl e)
            | Inr v \<Rightarrow> display_loop buf (i + 2)
                (out @ [if t = 0 then Shown_bool (v \<noteq> 0) else Shown_char (word_of_nat v)]))
         else if t = 2 then
           (case word_at 2 (Suc i) buf of
              Inl e \<Rightarrow> Some (Inl e)
            | Inr v \<Rightarrow> display_loop buf (i + 3) (out @ [Shown_int (sint (word_of_nat v :: 16 word))]))
         else if t = 3 then
           (case word_at 4 (Suc i) buf of
              Inl e \<Rightarrow> Some (Inl e)
            | Inr v \<Rightarrow> display_loop buf (i + 5) (out @ [Shown_int (sint (word_of_nat v :: 32 word))]))
         else if t = 4 then
           (case word_at 8 (Suc i) buf of
              Inl e \<Rightarrow> Some (Inl e)
            | Inr v \<Rightarrow> display_loop buf (i + 9) (out @ [Shown_int (sint (word_of_nat v :: 64 word))]))
         else if t = 5 then
           (case word_at 4 (Suc i) buf of
              Inl e \<Rightarrow> Some (Inl e)
            | Inr v \<Rightarrow> display_loop buf (i + 5) (out @ [Shown_float (word_of_nat v)]))
         else if t = 6 then
           (case word_at 8 (Suc i) buf of
              Inl e \<Rightarrow> Some (Inl e)
            | Inr v \<Rightarrow> display_loop buf (i + 9) (out @ [Shown_double (word_of_nat v)]))
         else if t = 7 then
           (case word_at 1 (Suc i) buf of
              Inl e \<Rightarrow> Some (Inl e)
            | Inr v \<Rightarrow>
                if v \<noteq> type_code T_INT32 then Some (Inl Logic_Error)
                else (case word_at 4 (i + 2) buf of
                        Inl e \<Rightarrow> Some (Inl e)
                      | Inr w \<Rightarrow>
                          (let len = sint (word_of_nat w :: 32 word) in
                           if len < 0 \<or> length buf < i + 6 + nat len then Some (Inl Out_Of_Bounds)
                           else display_loop buf (i + 6 + nat len)
                                  (out @ [Shown_string (take (nat len) (drop (i + 6) buf))]))))
         else display_loop buf i out)
      else Some (Inr out))"

definition display :: "stream \<Rightarrow> shown list result option" where
  "display s = display_loop (m_buf s) 0 []"


section \<open>Writing and reading at a position\<close>

definition stands_at :: "stream \<Rightarrow> byte list \<Rightarrow> bool" where
  "stands_at s bs \<longleftrightarrow> 0 \<le> m_pos s \<and> take (length bs) (drop (nat (m_pos s)) (m_buf s)) = bs
     \<and> m_pos s + int (length bs) \<le> int (length (m_buf s))"

named_theorems stream_simps \<open>rules that run the reader on known bytes\<close>

lemma advance_fields [simp]:
  "m_buf (advance n s) = m_buf s" "m_pos (advance n s) = m_pos s + n" "m_cap (advance n s) = m_cap s"
  "m_overflow (advance n s) \<longleftrightarrow> m_overflow s \<or> sum_overflows (m_pos s) n"
  by (simp_all add: advance_def)

lemma advance_advance [simp]: "0 \<le> a \<Longrightarrow> 0 \<le> b \<Longrightarrow> advance a (advance b s) = advance (b + a) s"
proof -
  assume "0 \<le> a" "0 \<le> b"
  then have "sum_overflows (m_pos s) b \<or> sum_overflows (m_pos s + b) a \<longleftrightarrow> sum_overflows (m_pos s) (b + a)"
    by (auto simp: sum_overflows_def)
  then show ?thesis by (simp add: advance_def add.assoc)
qed

lemma advance_0 [simp]: "advance 0 s = s"
  by (simp add: advance_def sum_overflows_def)

lemma reserve_fields [simp]: "m_buf (reserve n s) = m_buf s" "m_pos (reserve n s) = m_pos s"
  by (simp_all add: reserve_def Let_def)

lemma write_data_fields [simp]:
  "m_buf (write_data d s) = m_buf s @ d" "m_pos (write_data d s) = m_pos s"
  by (simp_all add: write_data_def Let_def)

lemma stands_at_append:
  "stands_at s (xs @ ys) \<longleftrightarrow> stands_at s xs \<and> stands_at (advance (int (length xs)) s) ys"
proof (cases "0 \<le> m_pos s \<and> m_pos s + int (length xs) + int (length ys) \<le> int (length (m_buf s))")
  case True
  define d where "d = drop (nat (m_pos s)) (m_buf s)"
  have l: "length xs + length ys \<le> length d"
    using True unfolding d_def length_drop by linarith
  have n: "nat (m_pos s + int (length xs)) = nat (m_pos s) + length xs"
    using True by (simp add: nat_add_distrib)
  have "take (length xs + length ys) d = xs @ ys \<longleftrightarrow>
        take (length xs) d = xs \<and> take (length ys) (drop (length xs) d) = ys"
    using l by (auto simp: take_add)
  then show ?thesis using True n by (simp add: stands_at_def d_def add.commute [of "length xs"])
next
  case False
  then show ?thesis by (auto simp: stands_at_def)
qed

lemma byte_at_stands [stream_simps]: "stands_at s (b # bs) \<Longrightarrow> byte_at s = Inr b"
proof -
  assume a: "stands_at s (b # bs)"
  then have "take 1 (drop (nat (m_pos s)) (m_buf s)) = [b]"
    using stands_at_append [of s "[b]" bs] by (simp add: stands_at_def)
  then have "m_buf s ! nat (m_pos s) = b"
    by (metis One_nat_def append_Nil hd_drop_conv_nth hd_take list.distinct(1) list.sel(1)
        not_less nth_append_length take_eq_Nil zero_less_one drop_all)
  with a show ?thesis by (simp add: stands_at_def byte_at_def)
qed

lemma stands_at_Cons: "stands_at s (b # bs) \<Longrightarrow> stands_at (advance 1 s) bs"
  using stands_at_append [of s "[b]" bs] by simp

lemma bytes_at_stands:
  "stands_at s (xs @ ys) \<Longrightarrow> length xs = n \<Longrightarrow> bytes_at n s = Inr xs"
  by (auto simp: stands_at_append) (auto simp: stands_at_def bytes_at_def)

lemma stands_at_end:
  "m_pos s = int (length (m_buf s)) \<Longrightarrow> m_buf s' = m_buf s @ bs \<Longrightarrow> m_pos s' = m_pos s \<Longrightarrow>
   stands_at s' bs"
  by (simp add: stands_at_def)

definition encs :: "('a \<Rightarrow> byte list) \<Rightarrow> 'a list \<Rightarrow> byte list" where
  "encs enc vs = concat (map enc vs)"

lemma encs_simps [simp]: "encs enc [] = []" "encs enc (v # vs) = enc v @ encs enc vs"
  by (simp_all add: encs_def)

text \<open>What an element type owes the container templates: \<open>wr\<close> appends the code \<open>enc v\<close> and leaves
  the cursor alone; \<open>rd\<close>, standing in front of a code, returns the value and steps over it.\<close>

locale codec =
  fixes enc :: "'a \<Rightarrow> byte list"
    and wr :: "'a \<Rightarrow> stream \<Rightarrow> stream"
    and rd :: "stream \<Rightarrow> (stream \<times> 'a option) result"
    and ok :: "'a \<Rightarrow> bool"
  assumes wr_buf: "m_buf (wr v s) = m_buf s @ enc v"
    and wr_pos: "m_pos (wr v s) = m_pos s"
    and rd_at: "ok v \<Longrightarrow> stands_at s (enc v @ rest) \<Longrightarrow>
                rd s = Inr (advance (int (length (enc v))) s, Some v)"
begin

lemma write_elems_fields:
  "m_buf (write_elems wr vs s) = m_buf s @ encs enc vs" "m_pos (write_elems wr vs s) = m_pos s"
  by (induction vs arbitrary: s) (auto simp: write_elems_def wr_buf wr_pos)

lemma read_elem_at:
  "ok v \<Longrightarrow> stands_at s (enc v @ rest) \<Longrightarrow>
   read_elem rd d s = Inr (advance (int (length (enc v))) s, v)"
  by (simp add: read_elem_def rd_at)

lemma read_elems_at:
  "\<forall>v \<in> set vs. ok v \<Longrightarrow> stands_at s (encs enc vs @ rest) \<Longrightarrow>
   read_elems rd d (length vs) s = Inr (advance (int (length (encs enc vs))) s, vs)"
proof (induction vs arbitrary: s)
  case (Cons v vs)
  have "read_elem rd d s = Inr (advance (int (length (enc v))) s, v)"
    using Cons.prems by (intro read_elem_at [of v s "encs enc vs @ rest"]) simp_all
  moreover have "stands_at (advance (int (length (enc v))) s) (encs enc vs @ rest)"
    using Cons.prems(2) by (simp add: stands_at_append)
  ultimately show ?case using Cons.IH Cons.prems(1) by simp
qed simp

lemma write_then_read:
  "ok v \<Longrightarrow> m_pos s = int (length (m_buf s)) \<Longrightarrow>
   rd (wr v s) = Inr (advance (int (length (enc v))) (wr v s), Some v)
   \<and> m_pos s + int (length (enc v)) = int (length (m_buf (wr v s)))"
  using rd_at [of v "wr v s" "[]"] stands_at_end [of s "wr v s" "enc v"]
  by (simp add: wr_buf wr_pos)

end


section \<open>The codes of the element types\<close>

definition enc_bool :: "bool \<Rightarrow> byte list" where "enc_bool v = [tag T_BOOL, if v then 1 else 0]"

definition enc_char :: "byte \<Rightarrow> byte list" where "enc_char v = [tag T_CHAR, v]"

definition enc_int16 :: "16 word \<Rightarrow> byte list" where
  "enc_int16 v = tag T_INT16 # le_bytes 2 (unat v)"

definition enc_int32 :: "32 word \<Rightarrow> byte list" where
  "enc_int32 v = tag T_INT32 # le_bytes 4 (unat v)"

definition enc_int64 :: "64 word \<Rightarrow> byte list" where
  "enc_int64 v = tag T_INT64 # le_bytes 8 (unat v)"

definition enc_float :: "32 word \<Rightarrow> byte list" where
  "enc_float v = tag T_FLOAT # le_bytes 4 (unat v)"

definition enc_double :: "64 word \<Rightarrow> byte list" where
  "enc_double v = tag T_DOUBLE # le_bytes 8 (unat v)"

definition enc_string :: "byte list \<Rightarrow> byte list" where
  "enc_string v = tag T_STRING # enc_int32 (len32 (length v)) @ v"

lemmas enc_defs = enc_bool_def enc_char_def enc_int16_def enc_int32_def enc_int64_def
  enc_float_def enc_double_def enc_string_def

lemma tagged_at:
  assumes "stands_at s (t # bs @ rest)"
  shows "byte_at s = Inr t" "bytes_at (length bs) (advance 1 s) = Inr bs"
  using assms byte_at_stands stands_at_Cons bytes_at_stands by blast+

lemma sint_len32: "n < 2 ^ 31 \<Longrightarrow> sint (len32 n) = int n"
  by (simp add: len32_def signed_of_nat signed_take_bit_int_eq_self)

interpretation c_bool: codec enc_bool write_bool read_bool "\<lambda>_. True"
proof unfold_locales
  fix v s rest
  assume a: "stands_at s (enc_bool v @ rest)"
  then have "byte_at s = Inr (tag T_BOOL)" "byte_at (advance 1 s) = Inr (if v then 1 else 0)"
    by (simp_all add: enc_bool_def byte_at_stands byte_at_stands [OF stands_at_Cons])
  then show "read_bool s = Inr (advance (int (length (enc_bool v))) s, Some v)"
    by (simp add: read_bool_def enc_bool_def)
qed (simp_all add: write_bool_def enc_bool_def)

interpretation c_char: codec enc_char write_char read_char "\<lambda>_. True"
proof unfold_locales
  fix v s rest
  assume a: "stands_at s (enc_char v @ rest)"
  then have "byte_at s = Inr (tag T_CHAR)" "byte_at (advance 1 s) = Inr v"
    by (simp_all add: enc_char_def byte_at_stands byte_at_stands [OF stands_at_Cons])
  then show "read_char s = Inr (advance (int (length (enc_char v))) s, Some v)"
    by (simp add: read_char_def enc_char_def)
qed (simp_all add: write_char_def enc_char_def)

interpretation c_int16: codec enc_int16 write_int16 read_int16 "\<lambda>_. True"
proof unfold_locales
  fix v s rest
  assume "stands_at s (enc_int16 v @ rest)"
  then show "read_int16 s = Inr (advance (int (length (enc_int16 v))) s, Some v)"
    using tagged_at [of s "tag T_INT16" "le_bytes 2 (unat v)" rest]
    by (simp add: read_int16_def enc_int16_def word_of_le_bytes)
qed (simp_all add: write_int16_def enc_int16_def)

interpretation c_int32: codec enc_int32 write_int32 read_int32 "\<lambda>_. True"
proof unfold_locales
  fix v s rest
  assume "stands_at s (enc_int32 v @ rest)"
  then show "read_int32 s = Inr (advance (int (length (enc_int32 v))) s, Some v)"
    using tagged_at [of s "tag T_INT32" "le_bytes 4 (unat v)" rest]
    by (simp add: read_int32_def enc_int32_def word_of_le_bytes)
qed (simp_all add: write_int32_def enc_int32_def)

interpretation c_int64: codec enc_int64 write_int64 read_int64 "\<lambda>_. True"
proof unfold_locales
  fix v s rest
  assume "stands_at s (enc_int64 v @ rest)"
  then show "read_int64 s = Inr (advance (int (length (enc_int64 v))) s, Some v)"
    using tagged_at [of s "tag T_INT64" "le_bytes 8 (unat v)" rest]
    by (simp add: read_int64_def enc_int64_def word_of_le_bytes)
qed (simp_all add: write_int64_def enc_int64_def)

interpretation c_float: codec enc_float write_float read_float "\<lambda>_. True"
proof unfold_locales
  fix v s rest
  assume "stands_at s (enc_float v @ rest)"
  then show "read_float s = Inr (advance (int (length (enc_float v))) s, Some v)"
    using tagged_at [of s "tag T_FLOAT" "le_bytes 4 (unat v)" rest]
    by (simp add: read_float_def enc_float_def word_of_le_bytes)
qed (simp_all add: write_float_def enc_float_def)

interpretation c_double: codec enc_double write_double read_double "\<lambda>_. True"
proof unfold_locales
  fix v s rest
  assume "stands_at s (enc_double v @ rest)"
  then show "read_double s = Inr (advance (int (length (enc_double v))) s, Some v)"
    using tagged_at [of s "tag T_DOUBLE" "le_bytes 8 (unat v)" rest]
    by (simp add: read_double_def enc_double_def word_of_le_bytes)
qed (simp_all add: write_double_def enc_double_def)

lemma read_len_at:
  "n < 2 ^ 31 \<Longrightarrow> stands_at s (enc_int32 (len32 n) @ rest) \<Longrightarrow>
   read_len s = Inr (advance 5 s, int n)"
  using c_int32.rd_at [where v = "len32 n" and s = s and rest = rest]
  by (simp add: read_len_def sint_len32) (simp add: enc_int32_def)

lemma length_enc_int32 [simp]: "length (enc_int32 v) = 5"
  by (simp add: enc_int32_def)

lemma counted_at:
  assumes "stands_at s (t # enc_int32 (len32 n) @ rest)" "n < 2 ^ 31"
  shows "byte_at s = Inr t" "read_len (advance 1 s) = Inr (advance 6 s, int n)"
    "stands_at (advance 6 s) rest"
proof -
  show "byte_at s = Inr t" using assms(1) by (rule byte_at_stands)
  have a: "stands_at (advance 1 s) (enc_int32 (len32 n) @ rest)"
    using assms(1) by (rule stands_at_Cons)
  show "read_len (advance 1 s) = Inr (advance 6 s, int n)"
    using read_len_at [OF assms(2) a] by simp
  show "stands_at (advance 6 s) rest"
    using a by (simp add: stands_at_append)
qed

interpretation c_string: codec enc_string write_string read_string "\<lambda>v. length v < 2 ^ 31"
proof unfold_locales
  fix v s rest
  assume l: "length v < (2::nat) ^ 31" and a: "stands_at s (enc_string v @ rest)"
  then have a': "stands_at s (tag T_STRING # enc_int32 (len32 (length v)) @ v @ rest)"
    by (simp add: enc_string_def)
  show "read_string s = Inr (advance (int (length (enc_string v))) s, Some v)"
    using counted_at [OF a' l] bytes_at_stands [of "advance 6 s" v rest]
    by (simp add: read_string_def enc_string_def add.commute)
qed (simp_all add: write_string_def enc_string_def c_int32.wr_buf c_int32.wr_pos)


section \<open>Containers of coded elements\<close>

definition enc_seq :: "data_type \<Rightarrow> ('a \<Rightarrow> byte list) \<Rightarrow> 'a list \<Rightarrow> byte list" where
  "enc_seq t enc vs = tag t # enc_int32 (len32 (length vs)) @ encs enc vs"

lemma write_header_fields [simp]:
  "m_buf (write_int32 n (write_data [t] s)) = m_buf s @ t # enc_int32 n"
  "m_pos (write_int32 n (write_data [t] s)) = m_pos s"
  by (simp_all add: c_int32.wr_buf c_int32.wr_pos)

lemma enc_seq_at:
  assumes "stands_at s (enc_seq t enc vs)" "length vs < 2 ^ 31"
  shows "byte_at s = Inr (tag t)" "read_len (advance 1 s) = Inr (advance 6 s, int (length vs))"
    "stands_at (advance 6 s) (encs enc vs @ [])"
  using counted_at [of s "tag t" "length vs" "encs enc vs"] assms by (simp_all add: enc_seq_def)

lemma length_enc_seq: "length (enc_seq t enc vs) = 6 + length (encs enc vs)"
  by (simp add: enc_seq_def)

context codec
begin

lemma write_seq_fields:
  "m_buf (write_vector wr vs s) = m_buf s @ enc_seq T_VECTOR enc vs"
  "m_pos (write_vector wr vs s) = m_pos s"
  "m_buf (write_set wr vs s) = m_buf s @ enc_seq T_SET enc vs"
  "m_pos (write_set wr vs s) = m_pos s"
  "m_buf (write_list wr vs s) = m_buf s @ enc_seq T_VECTOR enc vs"
  "m_pos (write_list wr vs s) = m_pos s"
  by (simp_all add: write_vector_def write_set_def write_list_def write_elems_fields enc_seq_def)

lemma read_vector_at:
  assumes "\<forall>v \<in> set vs. ok v" "length vs < 2 ^ 31" "stands_at s (enc_seq T_VECTOR enc vs)"
  shows "read_vector rd d s =
    Inr (advance (int (length (enc_seq T_VECTOR enc vs)) + int (length vs)) s, True, vs)"
  using enc_seq_at [OF assms(3,2)] read_elems_at [OF assms(1) enc_seq_at(3) [OF assms(3,2)], of d]
  by (simp add: read_vector_def length_enc_seq)

lemma operators_roundtrip:
  "ok v \<Longrightarrow> m_pos s = int (length (m_buf s)) \<Longrightarrow>
   get_op rd (put_op wr s v) old = Inr (advance (int (length (enc v))) (wr v s), v)"
  using write_then_read [of v s] by (simp add: get_op_def put_op_def)

end

lemma read_set_at:
  assumes c: "codec enc wr rd ok"
    and "\<forall>v \<in> set vs. ok v" "length vs < 2 ^ 31" "stands_at s (enc_seq T_SET enc vs)"
    and "oset_ok vs"
  shows "read_set rd d s =
    Inr (advance (int (length (enc_seq T_SET enc vs)) + int (length vs)) s, True, vs)"
  using enc_seq_at [OF assms(4,3)] codec.read_elems_at [OF c assms(2) enc_seq_at(3) [OF assms(4,3)], of d]
    fold_insort_insert [of "[]" vs] assms(5)
  by (simp add: read_set_def length_enc_seq)

text \<open>The two codecs of a map.\<close>

locale map_codec =
  k: codec enck wrk rdk okk + v: codec encv wrv rdv okv
  for enck :: "'k::linorder \<Rightarrow> byte list" and wrk rdk okk
    and encv :: "'v \<Rightarrow> byte list" and wrv rdv okv
begin

lemma enc_entries_at:
  assumes "stands_at s (encs (\<lambda>e. enck (fst e) @ encv (snd e)) (e # m) @ rest)"
    and "okk (fst e)" "okv (snd e)"
  shows "\<exists>s1. read_elem rdk dk s = Inr (s1, fst e) \<and>
    read_elem rdv dv s1 = Inr (advance (int (length (enck (fst e) @ encv (snd e)))) s, snd e)"
    and "stands_at (advance (int (length (enck (fst e) @ encv (snd e)))) s)
      (encs (\<lambda>e. enck (fst e) @ encv (snd e)) m @ rest)"
proof -
  let ?s1 = "advance (int (length (enck (fst e)))) s"
  let ?rest = "encs (\<lambda>e. enck (fst e) @ encv (snd e)) m @ rest"
  have a: "stands_at s (enck (fst e) @ encv (snd e) @ ?rest)" using assms(1) by simp
  then have b: "stands_at ?s1 (encv (snd e) @ ?rest)" by (simp add: stands_at_append)
  show "\<exists>s1. read_elem rdk dk s = Inr (s1, fst e) \<and>
    read_elem rdv dv s1 = Inr (advance (int (length (enck (fst e) @ encv (snd e)))) s, snd e)"
    using k.read_elem_at [OF assms(2) a, of dk] v.read_elem_at [OF assms(3) b, of dv] by simp
  show "stands_at (advance (int (length (enck (fst e) @ encv (snd e)))) s) ?rest"
    using b by (simp add: stands_at_append)
qed

lemma read_entries_at:
  assumes "omap_ok m" "\<forall>e \<in> set m. okk (fst e) \<and> okv (snd e)"
    and "stands_at s (encs (\<lambda>e. enck (fst e) @ encv (snd e)) m @ rest)"
    and "\<forall>e \<in> set acc. \<forall>x \<in> set m. fst e < fst x" "(n + 1) div 2 \<le> length m"
  shows "\<exists>p \<ge> 0. read_entries rdk dk rdv dv n acc s
      = Inr (advance p s, acc @ take ((n + 1) div 2) m)"
  using assms
proof (induction m arbitrary: n acc s)
  case Nil
  then have "n = 0" by simp
  then show ?case by (auto simp: read_entries.simps [of _ _ _ _ 0] intro!: exI [of _ 0])
next
  case (Cons e m)
  show ?case
  proof (cases "n = 0")
    case True
    then show ?thesis by (auto simp: read_entries.simps [of _ _ _ _ 0] intro!: exI [of _ 0])
  next
    case False
    let ?s2 = "advance (int (length (enck (fst e) @ encv (snd e)))) s"
    have ok: "okk (fst e)" "okv (snd e)" using Cons.prems(2) by simp_all
    obtain s1 where s1: "read_elem rdk dk s = Inr (s1, fst e)" "read_elem rdv dv s1 = Inr (?s2, snd e)"
      using enc_entries_at(1) [OF Cons.prems(3) ok, of dk dv] by blast
    have st: "stands_at ?s2 (encs (\<lambda>e. enck (fst e) @ encv (snd e)) m @ rest)"
      by (rule enc_entries_at(2) [OF Cons.prems(3) ok])
    have half: "(n + 1) div 2 = Suc ((n - 2 + 1) div 2)" using False by (cases n) auto
    have put: "omap_put (fst e) (snd e) acc = acc @ [e]"
      using omap_put_above [of acc "fst e" "snd e"] Cons.prems(4) by simp
    have "\<exists>p \<ge> 0. read_entries rdk dk rdv dv (n - 2) (acc @ [e]) ?s2
        = Inr (advance p ?s2, (acc @ [e]) @ take ((n - 2 + 1) div 2) m)"
      using Cons.prems half by (intro Cons.IH st) auto
    then obtain p where "0 \<le> p" "read_entries rdk dk rdv dv (n - 2) (acc @ [e]) ?s2
        = Inr (advance p ?s2, (acc @ [e]) @ take ((n - 2 + 1) div 2) m)" by blast
    then show ?thesis
      using s1 put half False
      by (subst read_entries.simps, intro exI [of _ "int (length (enck (fst e) @ encv (snd e))) + p"])
        (auto simp del: length_append)
  qed
qed

end

lemma write_map_fields:
  assumes "codec enck wrk rdk okk" "codec encv wrv rdv okv"
  shows "m_buf (write_map wrk wrv m s) = m_buf s @ enc_seq T_MAP (\<lambda>e. enck (fst e) @ encv (snd e)) m
    \<and> m_pos (write_map wrk wrv m s) = m_pos s"
proof -
  have "m_buf (fold (\<lambda>(k, v) s. wrv v (wrk k s)) m s)
      = m_buf s @ encs (\<lambda>e. enck (fst e) @ encv (snd e)) m
    \<and> m_pos (fold (\<lambda>(k, v) s. wrv v (wrk k s)) m s) = m_pos s" for s
    by (induction m arbitrary: s)
      (auto simp: codec.wr_buf [OF assms(1)] codec.wr_buf [OF assms(2)]
         codec.wr_pos [OF assms(1)] codec.wr_pos [OF assms(2)])
  then show ?thesis by (simp add: write_map_def enc_seq_def)
qed

interpretation string_map: map_codec
  enc_string write_string read_string "\<lambda>v. length v < 2 ^ 31"
  enc_string write_string read_string "\<lambda>v. length v < 2 ^ 31"
  by unfold_locales

section \<open>Sequences of values of different types\<close>

text \<open>A value together with the overload of \<^verbatim>\<open>operator <<\<close> and \<^verbatim>\<open>read\<close> its static type selects.\<close>

datatype cell =
  Cell_bool bool | Cell_char byte | Cell_int16 "16 word" | Cell_int32 "32 word"
| Cell_int64 "64 word" | Cell_float "32 word" | Cell_double "64 word" | Cell_string "byte list"

fun cell_type :: "cell \<Rightarrow> data_type" where
  "cell_type (Cell_bool v) = T_BOOL"
| "cell_type (Cell_char v) = T_CHAR"
| "cell_type (Cell_int16 v) = T_INT16"
| "cell_type (Cell_int32 v) = T_INT32"
| "cell_type (Cell_int64 v) = T_INT64"
| "cell_type (Cell_float v) = T_FLOAT"
| "cell_type (Cell_double v) = T_DOUBLE"
| "cell_type (Cell_string v) = T_STRING"

fun write_cell :: "cell \<Rightarrow> stream \<Rightarrow> stream" where
  "write_cell (Cell_bool v) s = put_op write_bool s v"
| "write_cell (Cell_char v) s = put_op write_char s v"
| "write_cell (Cell_int16 v) s = put_op write_int16 s v"
| "write_cell (Cell_int32 v) s = put_op write_int32 s v"
| "write_cell (Cell_int64 v) s = put_op write_int64 s v"
| "write_cell (Cell_float v) s = put_op write_float s v"
| "write_cell (Cell_double v) s = put_op write_double s v"
| "write_cell (Cell_string v) s = put_op write_string s v"

definition as_cell ::
  "('a \<Rightarrow> cell) \<Rightarrow> (stream \<times> 'a option) result \<Rightarrow> (stream \<times> cell option) result" where
  "as_cell f r = rbind r (\<lambda>(s, v). Inr (s, map_option f v))"

fun read_cell :: "data_type \<Rightarrow> stream \<Rightarrow> (stream \<times> cell option) result" where
  "read_cell T_BOOL s = as_cell Cell_bool (read_bool s)"
| "read_cell T_CHAR s = as_cell Cell_char (read_char s)"
| "read_cell T_INT16 s = as_cell Cell_int16 (read_int16 s)"
| "read_cell T_INT32 s = as_cell Cell_int32 (read_int32 s)"
| "read_cell T_INT64 s = as_cell Cell_int64 (read_int64 s)"
| "read_cell T_FLOAT s = as_cell Cell_float (read_float s)"
| "read_cell T_DOUBLE s = as_cell Cell_double (read_double s)"
| "read_cell T_STRING s = as_cell Cell_string (read_string s)"
| "read_cell _ s = Inr (s, None)"

fun read_cells :: "data_type list \<Rightarrow> stream \<Rightarrow> (stream \<times> cell option list) result" where
  "read_cells [] s = Inr (s, [])"
| "read_cells (t # ts) s = rbind (read_cell t s) (\<lambda>(s1, c).
     rbind (read_cells ts s1) (\<lambda>(s2, cs). Inr (s2, c # cs)))"

fun enc_cell :: "cell \<Rightarrow> byte list" where
  "enc_cell (Cell_bool v) = enc_bool v"
| "enc_cell (Cell_char v) = enc_char v"
| "enc_cell (Cell_int16 v) = enc_int16 v"
| "enc_cell (Cell_int32 v) = enc_int32 v"
| "enc_cell (Cell_int64 v) = enc_int64 v"
| "enc_cell (Cell_float v) = enc_float v"
| "enc_cell (Cell_double v) = enc_double v"
| "enc_cell (Cell_string v) = enc_string v"

fun cell_ok :: "cell \<Rightarrow> bool" where
  "cell_ok (Cell_string v) \<longleftrightarrow> length v < 2 ^ 31"
| "cell_ok _ \<longleftrightarrow> True"

lemmas codec_facts =
  c_bool.wr_buf c_char.wr_buf c_int16.wr_buf c_int32.wr_buf c_int64.wr_buf c_float.wr_buf
  c_double.wr_buf c_string.wr_buf c_bool.wr_pos c_char.wr_pos c_int16.wr_pos c_int32.wr_pos
  c_int64.wr_pos c_float.wr_pos c_double.wr_pos c_string.wr_pos
  c_bool.rd_at c_char.rd_at c_int16.rd_at c_int32.rd_at c_int64.rd_at c_float.rd_at
  c_double.rd_at c_string.rd_at

interpretation c_cell: codec enc_cell write_cell "read_cell t" "\<lambda>c. cell_type c = t \<and> cell_ok c" for t
proof unfold_locales
  fix v s rest
  assume "cell_type v = t \<and> cell_ok v" "stands_at s (enc_cell v @ rest)"
  then show "read_cell t s = Inr (advance (int (length (enc_cell v))) s, Some v)"
    by (cases v) (auto simp: as_cell_def codec_facts)
next
  fix v s
  show "m_buf (write_cell v s) = m_buf s @ enc_cell v" "m_pos (write_cell v s) = m_pos s"
    by (cases v; simp add: put_op_def codec_facts)+
qed


lemma write_cells_fields:
  "m_buf (fold write_cell cs s) = m_buf s @ encs enc_cell cs"
  "m_pos (fold write_cell cs s) = m_pos s"
  using c_cell.write_elems_fields [of cs s] by (simp_all add: write_elems_def)

lemma read_cells_at:
  "\<forall>c \<in> set cs. cell_ok c \<Longrightarrow> stands_at s (encs enc_cell cs @ rest) \<Longrightarrow>
   read_cells (map cell_type cs) s = Inr (advance (int (length (encs enc_cell cs))) s, map Some cs)"
proof (induction cs arbitrary: s)
  case (Cons c cs)
  have "read_cell (cell_type c) s = Inr (advance (int (length (enc_cell c))) s, Some c)"
    using Cons.prems c_cell.rd_at [where v = c and s = s and rest = "encs enc_cell cs @ rest"] by simp
  moreover have "stands_at (advance (int (length (enc_cell c))) s) (encs enc_cell cs @ rest)"
    using Cons.prems(2) by (simp add: stands_at_append)
  ultimately show ?case using Cons.IH Cons.prems(1) by simp
qed simp

section \<open>Properties of the round trips\<close>

text \<open>While a buffer holds at most \<open>2 ^ 30\<close> bytes no computation leaves the range of \<^verbatim>\<open>int\<close>.\<close>

lemma doubling_below: "cap < n \<Longrightarrow> doubling cap n < 2 * n"
proof (induction cap n rule: doubling.induct)
  case (1 cap n)
  then show ?case
    by (cases "n = 1"; cases "2 * cap < n") (auto simp: doubling.simps [of cap n] doubling.simps [of 0])
qed

lemma write_data_overflow [simp]:
  assumes "length (m_buf s) + length d \<le> 2 ^ 30"
  shows "m_overflow (write_data d s) \<longleftrightarrow> m_overflow s"
  using assms doubling_below [of "m_cap s" "length (m_buf s) + length d"]
  by (auto simp: write_data_def reserve_def Let_def INT_MAX_def)

lemma write_cell_overflow:
  "length (m_buf s @ enc_cell c) \<le> 2 ^ 30 \<Longrightarrow> m_overflow (write_cell c s) \<longleftrightarrow> m_overflow s"
  by (cases c) (simp_all add: put_op_def enc_defs write_bool_def write_char_def write_int16_def write_int32_def
    write_int64_def write_float_def write_double_def write_string_def)

lemma write_cells_overflow:
  "length (m_buf s @ encs enc_cell cs) \<le> 2 ^ 30 \<Longrightarrow> m_overflow (fold write_cell cs s) \<longleftrightarrow> m_overflow s"
  by (induction cs arbitrary: s) (simp_all add: write_cell_overflow c_cell.wr_buf)

lemma cells_ok: "length (encs enc_cell cs) \<le> 2 ^ 30 \<Longrightarrow> \<forall>c \<in> set cs. cell_ok c"
proof (induction cs)
  case (Cons c cs)
  then show ?case by (cases c) (auto simp: enc_string_def)
qed simp

text \<open>C32: Any sequence of scalars and strings written with \<^verbatim>\<open>operator <<\<close> behind the read cursor is
  read back, value for value, by the \<^verbatim>\<open>read\<close> of the same types in the same order, provided the buffer
  then holds at most \<open>2 ^ 30\<close> bytes; nothing is lost from the buffer, the cursor ends exactly at the end
  of it and no size, capacity or position has left the range of \<^verbatim>\<open>int\<close>, the type the code computes them
  in.  Beyond that length the doubled capacity is no \<^verbatim>\<open>int\<close> any more
  (\<open>long_string_overflows\<close>).\<close>

theorem scalars_roundtrip:
  assumes "m_pos s = int (length (m_buf s))" "\<not> m_overflow s"
    and "length (m_buf (fold write_cell cs s)) \<le> 2 ^ 30"
  shows "\<not> m_overflow (fold write_cell cs s)
    \<and> (\<exists>s'. read_cells (map cell_type cs) (fold write_cell cs s) = Inr (s', map Some cs)
        \<and> m_buf s' = m_buf (fold write_cell cs s) \<and> m_pos s' = int (length (m_buf s')) \<and> \<not> m_overflow s')"
  using assms read_cells_at [OF cells_ok, of cs "fold write_cell cs s" "[]"]
    stands_at_end [of s "fold write_cell cs s" "encs enc_cell cs"]
  by (simp add: write_cells_fields write_cells_overflow sum_overflows_def INT_MAX_def)

theorem scalars_roundtrip_witness:
  "\<exists>s'. read_cells [T_INT16, T_STRING, T_BOOL]
      (fold write_cell [Cell_int16 7, Cell_string [65, 66], Cell_bool True] new_stream)
    = Inr (s', [Some (Cell_int16 7), Some (Cell_string [65, 66]), Some (Cell_bool True)]) \<and> \<not> m_overflow s'"
  using scalars_roundtrip [of new_stream "[Cell_int16 7, Cell_string [65, 66], Cell_bool True]"]
  by (simp only: write_cells_fields) (auto simp: new_stream_def enc_defs)

text \<open>The bound is the best one for a stream that was filled from empty: its capacity is a power of
  two, and above \<open>2 ^ 30\<close> the next one is no \<^verbatim>\<open>int\<close>.  The theorems on containers, capacity and display
  below speak of the bytes and the cursor; they describe the program as long as \<open>m_overflow\<close> is not
  set.\<close>

lemma doubling_power: "doubling (2 ^ k) n \<in> range (\<lambda>j. 2 ^ j)"
proof (induction "2 ^ k :: nat" n arbitrary: k rule: doubling.induct)
  case (1 n)
  then show ?case by (cases "2 ^ k < n") (auto simp: doubling.simps [of "2 ^ k" n] simp flip: power_Suc)
qed

definition pow_cap :: "stream \<Rightarrow> bool" where
  "pow_cap s \<longleftrightarrow> m_overflow s \<or> m_cap s = 0 \<or> m_cap s \<in> range (\<lambda>j. 2 ^ j) \<and> int (m_cap s) \<le> INT_MAX"

lemma doubling_power': "c = 0 \<or> c \<in> range (\<lambda>j. 2 ^ j) \<Longrightarrow> c < n \<Longrightarrow> doubling c n \<in> range (\<lambda>j. 2 ^ j)"
  using doubling_power [of 0 n] by (auto simp: doubling.simps [of 0] intro: doubling_power)

lemma pow_cap_write: "pow_cap s \<Longrightarrow> pow_cap (write_data d s)"
  using doubling_power' [of "m_cap s" "length (m_buf s) + length d"]
  by (auto simp: pow_cap_def write_data_def reserve_def Let_def)

lemma power_above: "m \<in> range (\<lambda>j. 2 ^ j) \<Longrightarrow> (2 :: nat) ^ 30 < m \<Longrightarrow> INT_MAX < int m"
proof -
  assume "m \<in> range (\<lambda>j. 2 ^ j)" "(2 :: nat) ^ 30 < m"
  then obtain j where j: "m = 2 ^ j" "(2 :: nat) ^ 30 < 2 ^ j" by auto
  then have "31 \<le> j" using power_strict_increasing_iff [of "2 :: nat" 30 j] by simp
  then have "(2 :: nat) ^ 31 \<le> m" unfolding j by (rule power_increasing) simp
  then show ?thesis by (simp add: INT_MAX_def)
qed

lemma long_write_overflows:
  assumes "pow_cap s" "2 ^ 30 < length (m_buf s) + length d"
  shows "m_overflow (write_data d s)"
proof (cases "m_cap s < length (m_buf s) + length d")
  case True
  then have "(2 :: nat) ^ 30 < doubling (m_cap s) (length (m_buf s) + length d)"
    using assms(2) doubling_ge(1) [of "length (m_buf s) + length d" "m_cap s"] by simp
  then show ?thesis
    using True assms(1) power_above doubling_power' [of "m_cap s" "length (m_buf s) + length d"]
    by (auto simp: pow_cap_def write_data_def reserve_def Let_def)
next
  case False
  then have "m_overflow s" using assms power_above [of "m_cap s"] by (auto simp: pow_cap_def)
  then show ?thesis by (simp add: write_data_def reserve_def Let_def)
qed

theorem long_string_overflows:
  assumes "2 ^ 30 < 6 + length v"
  shows "m_overflow (write_string v new_stream)"
  using assms unfolding write_string_def write_int32_def
  by (intro long_write_overflows pow_cap_write) (simp_all add: pow_cap_def new_stream_def)

text \<open>A \<^verbatim>\<open>vector<string>\<close> is read back with all its elements, but the cursor is then \<^verbatim>\<open>len\<close> bytes
  past the end of what was written (the reader adds \<^verbatim>\<open>len\<close> although the elements have advanced the
  cursor already), so the next read of a value behind a non-empty vector goes out of the buffer.\<close>

theorem vector_roundtrip_overshoots:
  assumes "m_pos s = int (length (m_buf s))" "length vs < 2 ^ 31"
    and "\<forall>v \<in> set vs. length v < 2 ^ 31"
  shows "\<exists>s'. read_vector read_string d (write_vector write_string vs s) = Inr (s', True, vs)
    \<and> m_buf s' = m_buf (write_vector write_string vs s)
    \<and> m_pos s' = int (length (m_buf s') + length vs)
    \<and> (vs \<noteq> [] \<longrightarrow> byte_at s' = Inl Out_Of_Bounds)"
  using c_string.read_vector_at [of vs "write_vector write_string vs s" d] assms
    stands_at_end [of s "write_vector write_string vs s" "enc_seq T_VECTOR enc_string vs"]
  by (simp add: c_string.write_seq_fields byte_at_def)

theorem vector_roundtrip_overshoots_witness:
  "\<exists>s'. read_vector read_string (Inr []) (write_vector write_string [[65], [66, 67]] new_stream)
      = Inr (s', True, [[65], [66, 67]])
    \<and> m_pos s' = int (length (m_buf s') + 2) \<and> byte_at s' = Inl Out_Of_Bounds"
  using vector_roundtrip_overshoots [of new_stream "[[65], [66, 67]]" "Inr []"]
  by (auto simp: new_stream_def)

text \<open>A \<^verbatim>\<open>list\<close> is never read back by the reader of lists: the writer marks it as a vector, and
  \<^verbatim>\<open>read(list<T> &)\<close> empties its argument and returns false; \<^verbatim>\<open>read(vector<T> &)\<close> does return the
  elements.\<close>

theorem list_read_back_only_as_vector:
  assumes "m_pos s = int (length (m_buf s))" "length vs < 2 ^ 31"
  shows "read_list rd d (write_list write_int32 vs s) = Inr (write_list write_int32 vs s, False, [])
    \<and> (\<exists>s'. read_vector read_int32 d' (write_list write_int32 vs s) = Inr (s', True, vs))"
proof -
  have at: "stands_at (write_list write_int32 vs s) (enc_seq T_VECTOR enc_int32 vs)"
    using assms(1) by (intro stands_at_end [of s]) (simp_all add: c_int32.write_seq_fields)
  show ?thesis
    using enc_seq_at(1) [OF at assms(2)] c_int32.read_vector_at [OF _ assms(2) at, of d']
    by (simp add: read_list_def)
qed

theorem list_read_back_only_as_vector_witness:
  "read_list read_int32 (Inl Uninitialised) (write_list write_int32 [5, 6] new_stream)
     = Inr (write_list write_int32 [5, 6] new_stream, False, [])"
  using list_read_back_only_as_vector [of new_stream "[5, 6]" read_int32] by (simp add: new_stream_def)

text \<open>A \<^verbatim>\<open>map<string, string>\<close> is not read back whole: the reader counts its entries in steps of
  two, so it returns the first half of them (rounded up) in key order, and still returns true.\<close>

theorem map_reads_half_of_its_entries:
  assumes "m_pos s = int (length (m_buf s))" "length m < 2 ^ 31" "omap_ok m"
    and "\<forall>e \<in> set m. length (fst e) < 2 ^ 31 \<and> length (snd e) < 2 ^ 31"
  shows "\<exists>s'. read_map read_string dk read_string dv (write_map write_string write_string m s)
    = Inr (s', True, take ((length m + 1) div 2) m)"
proof -
  let ?w = "write_map write_string write_string m s"
  have f: "m_buf ?w = m_buf s @ enc_seq T_MAP (\<lambda>e. enc_string (fst e) @ enc_string (snd e)) m"
    "m_pos ?w = m_pos s"
    using write_map_fields [OF c_string.codec_axioms c_string.codec_axioms] by simp_all
  then have at: "stands_at ?w (enc_seq T_MAP (\<lambda>e. enc_string (fst e) @ enc_string (snd e)) m)"
    using assms(1) by (intro stands_at_end [of s])
  have half: "(length m + 1) div 2 \<le> length m" by simp
  show ?thesis
    using string_map.read_entries_at [OF assms(3,4) enc_seq_at(3) [OF at assms(2)], of "[]", OF _ half, of dk dv]
      enc_seq_at(1,2) [OF at assms(2)]
    by (auto simp: read_map_def)
qed

theorem map_reads_half_of_its_entries_witness:
  "\<exists>s'. read_map read_string (Inr []) read_string (Inr [])
      (write_map write_string write_string [([97], [1]), ([98], [2])] new_stream)
    = Inr (s', True, [([97], [1])])"
  using map_reads_half_of_its_entries [of new_stream "[([97], [1]), ([98], [2])]" "Inr []" "Inr []"]
  by (simp add: new_stream_def)


section \<open>Properties of the buffer and of \<^verbatim>\<open>display\<close>\<close>

definition stream_ok :: "stream \<Rightarrow> bool" where
  "stream_ok s \<longleftrightarrow> length (m_buf s) \<le> m_cap s"

lemma write_data_cap:
  "m_cap (write_data d s) =
     (if m_cap s < length (m_buf s) + length d
      then doubling (m_cap s) (length (m_buf s) + length d) else m_cap s)"
  by (simp add: write_data_def reserve_def Let_def)

text \<open>A write never leaves the buffer longer than its capacity, never shrinks the capacity, and
  grows it to less than twice the bytes that are needed; it leaves the bytes already there and
  the cursor as they were.\<close>

theorem write_grows_capacity_by_doubling:
  assumes "stream_ok s"
  shows "stream_ok (write_data d s)
    \<and> m_cap s \<le> m_cap (write_data d s)
    \<and> m_cap (write_data d s) \<le> max (m_cap s) (2 * (length (m_buf s) + length d))
    \<and> m_buf (write_data d s) = m_buf s @ d \<and> m_pos (write_data d s) = m_pos s"
  using assms doubling_bounds [of "length (m_buf s) + length d" "m_cap s"]
  by (auto simp: stream_ok_def write_data_cap)

theorem write_grows_capacity_by_doubling_witness:
  "stream_ok (write_data [1, 2, 3] new_stream) \<and> m_cap (write_data [1, 2, 3] new_stream) \<le> 6"
  using write_grows_capacity_by_doubling [of new_stream "[1, 2, 3]"]
  by (simp add: stream_ok_def new_stream_def)

fun shown_cell :: "cell \<Rightarrow> shown" where
  "shown_cell (Cell_bool v) = Shown_bool v"
| "shown_cell (Cell_char v) = Shown_char v"
| "shown_cell (Cell_int16 v) = Shown_int (sint v)"
| "shown_cell (Cell_int32 v) = Shown_int (sint v)"
| "shown_cell (Cell_int64 v) = Shown_int (sint v)"
| "shown_cell (Cell_float v) = Shown_float v"
| "shown_cell (Cell_double v) = Shown_double v"
| "shown_cell (Cell_string v) = Shown_string v"

lemma word_at_bytes [simp]:
  "i = length xs \<Longrightarrow> length bs = n \<Longrightarrow> word_at n i (xs @ bs @ ys) = Inr (le_value bs)"
  by (simp add: word_at_def)

lemma word_at_after_tag:
  "length bs = n \<Longrightarrow> word_at n (Suc (length xs)) (xs @ t # bs @ ys) = Inr (le_value bs)"
  using word_at_bytes [of "Suc (length xs)" "xs @ [t]" bs n ys] by simp

lemma word_at_one: "word_at 1 (Suc (length xs)) (xs @ t # b # ys) = Inr (unat b)"
  using word_at_after_tag [of "[b]" 1 xs t ys] by simp

lemma display_string_parts:
  fixes v xs ys :: "byte list"
  defines "buf \<equiv> xs @ enc_string v @ ys"
  shows "word_at 1 (Suc (length xs)) buf = Inr (type_code T_INT32)"
    "word_at 4 (length xs + 2) buf = Inr (le_value (le_bytes 4 (unat (len32 (length v)))))"
    "take (length v) (drop (length xs + 6) buf) = v"
    "length buf = length xs + 6 + length v + length ys"
proof -
  let ?l = "le_bytes 4 (unat (len32 (length v)))"
  have b1: "buf = xs @ tag T_STRING # tag T_INT32 # ?l @ v @ ys"
    by (simp add: buf_def enc_string_def enc_int32_def)
  show "word_at 1 (Suc (length xs)) buf = Inr (type_code T_INT32)"
    unfolding b1 by (simp only: word_at_one unat_tag)
  have b2: "buf = (xs @ [tag T_STRING, tag T_INT32]) @ ?l @ v @ ys" by (simp add: b1)
  show "word_at 4 (length xs + 2) buf = Inr (le_value ?l)"
    unfolding b2 by (rule word_at_bytes) simp_all
  have b3: "buf = (xs @ [tag T_STRING, tag T_INT32] @ ?l) @ v @ ys" by (simp add: b1)
  show "take (length v) (drop (length xs + 6) buf) = v"
    unfolding b3 by simp
  show "length buf = length xs + 6 + length v + length ys" by (simp add: b1)
qed

lemma display_cell:
  assumes "cell_ok c"
  shows "display_loop (xs @ enc_cell c @ ys) (length xs) out =
    display_loop (xs @ enc_cell c @ ys) (length xs + length (enc_cell c)) (out @ [shown_cell c])"
proof (cases c)
  case (Cell_string v)
  have w: "sint (word_of_nat (le_value (le_bytes 4 (unat (len32 (length v))))) :: 32 word)
      = int (length v)"
    using assms Cell_string by (simp add: word_of_le_bytes sint_len32)
  have t: "(xs @ enc_string v @ ys) ! length xs = tag T_STRING" by (simp add: enc_string_def)
  show ?thesis
    unfolding Cell_string enc_cell.simps
    by (subst display_loop.simps, unfold display_string_parts(1,2) t unat_tag)
      (simp add: w display_string_parts(3,4) enc_string_def add.commute add.left_commute)
qed (subst display_loop.simps,
     simp add: enc_defs nth_append word_at_after_tag word_at_one [unfolded One_nat_def] unat_tag
       word_of_le_bytes del: display_loop.simps)+

lemma display_cells:
  "\<forall>c \<in> set cs. cell_ok c \<Longrightarrow>
   display_loop (xs @ encs enc_cell cs @ ys) (length xs) out =
   display_loop (xs @ encs enc_cell cs @ ys) (length xs + length (encs enc_cell cs))
     (out @ map shown_cell cs)"
proof (induction cs arbitrary: xs out)
  case (Cons c cs)
  show ?case
    using display_cell [of c xs "encs enc_cell cs @ ys" out] Cons.prems
      Cons.IH [of "xs @ enc_cell c" "out @ [shown_cell c]"]
    by (simp add: add.assoc)
qed simp

lemma display_loop_stuck:
  assumes "i < length buf" "8 \<le> unat (buf ! i)"
  shows "display_loop buf i out = None"
proof (rule ccontr)
  have aux: "display_loop b j q = Some r \<Longrightarrow> \<not> (j < length b \<and> 8 \<le> unat (b ! j))" for b j q r
    by (erule display_loop.raw_induct [where P = "\<lambda>b j q r. \<not> (j < length b \<and> 8 \<le> unat (b ! j))", rotated])
      (auto simp: Let_def split: if_splits sum.splits)
  assume "display_loop buf i out \<noteq> None"
  then show False using aux assms by blast
qed

text \<open>\<^verbatim>\<open>display\<close> prints the values of a stream of scalars and strings in order and returns, but
  as soon as a container follows them it never returns: the cases of the container tags leave the
  loop index where it is.\<close>

theorem display_prints_scalars_and_hangs_on_containers:
  assumes "\<forall>c \<in> set cs. cell_ok c"
  shows "display (fold write_cell cs new_stream) = Some (Inr (map shown_cell cs))
    \<and> display (write_vector write_int32 vs (fold write_cell cs new_stream)) = None
    \<and> display (write_set write_int32 vs (fold write_cell cs new_stream)) = None"
proof -
  have b: "m_buf (fold write_cell cs new_stream) = encs enc_cell cs"
    by (simp add: write_cells_fields new_stream_def)
  have "display_loop (encs enc_cell cs) 0 [] = Some (Inr (map shown_cell cs))"
    using display_cells [of cs "[]" "[]" "[]"] assms by (simp add: display_loop.simps)
  moreover have "display_loop (encs enc_cell cs @ tag t # bs) 0 [] = None"
    if "8 \<le> type_code t" for t bs
    using display_cells [of cs "[]" "tag t # bs" "[]"] assms that
      display_loop_stuck [of "length (encs enc_cell cs)" "encs enc_cell cs @ tag t # bs"]
    by (simp add: nth_append unat_tag)
  ultimately show ?thesis
    by (simp add: display_def b c_int32.write_seq_fields enc_seq_def)
qed

theorem display_prints_scalars_and_hangs_on_containers_witness:
  "display (fold write_cell [Cell_bool True, Cell_string [72]] new_stream)
     = Some (Inr [Shown_bool True, Shown_string [72]])
   \<and> display (write_vector write_int32 [] (fold write_cell [Cell_bool True] new_stream)) = None"
  using display_prints_scalars_and_hangs_on_containers [of "[Cell_bool True, Cell_string [72]]"]
    display_prints_scalars_and_hangs_on_containers [of "[Cell_bool True]" "[]"]
  by simp

end
