(* ===== verification/CArray.thy ===== *)
theory CArray
  imports Prelude
begin

text \<open>
  Arrays of the heap and the loops the containers run over them.

  An array \<^verbatim>\<open>new T[n]\<close> is a list of \<open>n\<close> cells; a cell is \<open>None\<close> until something is assigned to
  it.  An access outside the array is \<open>Out_Of_Bounds\<close>, reading a cell nothing was assigned to is
  \<open>Uninitialised\<close>.  Indices are the \<^verbatim>\<open>int\<close>s of the code.  The lemmas describe each loop on an array
  whose live cells are \<open>map Some xs\<close>.
\<close>

definition new_array :: "nat \<Rightarrow> 'a option list" where
  "new_array n = replicate n None"

definition aget :: "'a option list \<Rightarrow> int \<Rightarrow> 'a result" where
  "aget a i = (if 0 \<le> i \<and> i < int (length a)
     then (case a ! nat i of None \<Rightarrow> Inl Uninitialised | Some v \<Rightarrow> Inr v) else Inl Out_Of_Bounds)"

definition aput :: "'a option list \<Rightarrow> int \<Rightarrow> 'a \<Rightarrow> 'a option list result" where
  "aput a i v = (if 0 \<le> i \<and> i < int (length a) then Inr (a[nat i := Some v]) else Inl Out_Of_Bounds)"

lemma aget_at [simp]: "i = int (length p) \<Longrightarrow> aget (p @ Some v # t) i = Inr v"
  by (simp add: aget_def)

lemma aput_at [simp]: "i = int (length p) \<Longrightarrow> aput (p @ c # t) i v = Inr (p @ Some v # t)"
  by (simp add: aput_def list_update_append)

lemma aget_nth: "i < length xs \<Longrightarrow> aget (map Some xs @ t) (int i) = Inr (xs ! i)"
  by (simp add: aget_def nth_append)

text \<open>\<^verbatim>\<open>for(n turns) dst[d++] = src[s++];\<close>\<close>

fun copy_up :: "'a option list \<Rightarrow> int \<Rightarrow> 'a option list \<Rightarrow> int \<Rightarrow> nat \<Rightarrow> 'a option list result" where
  "copy_up src s dst d 0 = Inr dst"
| "copy_up src s dst d (Suc n) = rbind (aget src s) (\<lambda>v. rbind (aput dst d v) (\<lambda>dst'.
     copy_up src (s + 1) dst' (d + 1) n))"

lemma copy_up_cells:
  "length q = length xs \<Longrightarrow>
   copy_up (a @ map Some xs @ b) (int (length a)) (p @ q @ t) (int (length p)) (length xs)
   = Inr (p @ map Some xs @ t)"
proof (induction xs arbitrary: a p q)
  case (Cons x xs)
  then obtain c q' where q: "q = c # q'" "length q' = length xs" by (cases q) auto
  show ?case
    using Cons.IH [OF q(2), of "a @ [Some x]" "p @ [Some x]"] q
    by (simp add: add.commute)
qed simp

text \<open>\<^verbatim>\<open>for(n turns) a[d++] = v;\<close>\<close>

fun fill_up :: "'a option list \<Rightarrow> int \<Rightarrow> 'a \<Rightarrow> nat \<Rightarrow> 'a option list result" where
  "fill_up a d v 0 = Inr a"
| "fill_up a d v (Suc n) = rbind (aput a d v) (\<lambda>a'. fill_up a' (d + 1) v n)"

lemma fill_up_cells:
  "fill_up (p @ q @ t) (int (length p)) v (length q) = Inr (p @ replicate (length q) (Some v) @ t)"
proof (induction q arbitrary: p)
  case (Cons c q)
  show ?case using Cons.IH [of "p @ [Some v]"] by (simp add: add.commute)
qed simp

text \<open>\<^verbatim>\<open>for(n turns) a[d++] = a[s++];\<close> within one array\<close>

fun move_up :: "'a option list \<Rightarrow> int \<Rightarrow> int \<Rightarrow> nat \<Rightarrow> 'a option list result" where
  "move_up a s d 0 = Inr a"
| "move_up a s d (Suc n) = rbind (aget a s) (\<lambda>v. rbind (aput a d v) (\<lambda>a'.
     move_up a' (s + 1) (d + 1) n))"

lemma move_up_cells:
  "move_up (p @ gap @ map Some xs @ t) (int (length p + length gap)) (int (length p)) (length xs)
   = Inr (p @ map Some xs @ drop (length xs) (gap @ map Some xs) @ t)"
proof (induction xs arbitrary: p gap)
  case (Cons x xs)
  have get: "aget (p @ gap @ Some x # map Some xs @ t) (int (length p + length gap)) = Inr x"
    using aget_at [of "int (length p + length gap)" "p @ gap"] by simp
  show ?case
  proof (cases gap)
    case Nil
    then show ?thesis using get Cons.IH [of "p @ [Some x]" "[]"] by (simp add: add.commute)
  next
    case (Cons c gap')
    then show ?thesis
      using get Cons.IH [of "p @ [Some x]" "gap' @ [Some x]"]
      by (simp add: add.commute add.left_commute)
  qed
qed simp

text \<open>\<^verbatim>\<open>for(n turns, i counting down) a[i + k - 1] = a[i - 1];\<close>\<close>

fun move_down :: "'a option list \<Rightarrow> int \<Rightarrow> int \<Rightarrow> nat \<Rightarrow> 'a option list result" where
  "move_down a i k 0 = Inr a"
| "move_down a i k (Suc n) = rbind (aget a (i - 1)) (\<lambda>v. rbind (aput a (i + k - 1) v) (\<lambda>a'.
     move_down a' (i - 1) k n))"

lemma move_down_cells:
  "move_down (p @ map Some xs @ gap @ t) (int (length p + length xs)) (int (length gap)) (length xs)
   = Inr (p @ take (length gap) (map Some xs @ gap) @ map Some xs @ t)"
proof (induction xs arbitrary: gap t rule: rev_induct)
  case (snoc x xs)
  have get: "aget (p @ map Some xs @ Some x # gap @ t) (int (length p + length xs)) = Inr x"
    using aget_at [of "int (length p + length xs)" "p @ map Some xs"] by simp
  show ?case
  proof (cases gap rule: rev_cases)
    case Nil
    have "aput (p @ map Some xs @ Some x # t) (int (length p + length xs)) x
        = Inr (p @ map Some xs @ Some x # t)"
      using aput_at [of "int (length p + length xs)" "p @ map Some xs"] by simp
    then show ?thesis using Nil get snoc.IH [of "[]" "Some x # t"] by simp
  next
    case (snoc gap' c)
    have "aput (p @ map Some xs @ Some x # gap' @ c # t)
          (int (length p + length xs) + 1 + int (length gap')) x
        = Inr (p @ map Some xs @ Some x # gap' @ Some x # t)"
      using aput_at [of "int (length p + length xs) + 1 + int (length gap')"
          "p @ map Some xs @ Some x # gap'" c t x] by simp
    moreover have "take (Suc (length gap') - length xs) ((Some x # gap') @ [c])
        = take (Suc (length gap') - length xs) (Some x # gap')"
      by (simp only: take_append) simp
    ultimately show ?thesis
      using get snoc.IH [of "Some x # gap'" "Some x # t"] snoc
      by (simp add: algebra_simps)
  qed
qed simp

text \<open>\<^verbatim>\<open>memmove(a + d, a + s, n * sizeof(T))\<close>: the cells are read before any is written.\<close>

definition memmove :: "'a option list \<Rightarrow> int \<Rightarrow> int \<Rightarrow> nat \<Rightarrow> 'a option list result" where
  "memmove a d s n =
     (if 0 \<le> d \<and> 0 \<le> s \<and> d + int n \<le> int (length a) \<and> s + int n \<le> int (length a)
      then Inr (take (nat d) a @ take n (drop (nat s) a) @ drop (nat d + n) a)
      else Inl Out_Of_Bounds)"

lemma memmove_cells:
  "memmove (p @ gap @ xs @ t) (int (length p)) (int (length p + length gap)) (length xs)
   = Inr (p @ xs @ drop (length xs) (gap @ xs) @ t)"
  by (simp add: memmove_def)

text \<open>Conversion of an \<^verbatim>\<open>int\<close> to \<^verbatim>\<open>size_t\<close> and back.\<close>

definition to_size :: "int \<Rightarrow> nat" where
  "to_size i = nat (i mod 2 ^ 64)"

lemma to_size_id: "0 \<le> i \<Longrightarrow> i < 2 ^ 64 \<Longrightarrow> to_size i = nat i"
  by (simp add: to_size_def)

lemma to_size_nat [simp]: "m < 2 ^ 64 \<Longrightarrow> to_size (int m) = m"
  by (simp add: to_size_id)

lemma to_size_diff: "j \<le> m \<Longrightarrow> m < 2 ^ 64 \<Longrightarrow> to_size (int m - int j) = m - j"
  using to_size_nat [of "m - j"] by (simp add: of_nat_diff del: to_size_nat)

lemma to_size_negative: "- (2 ^ 31) \<le> i \<Longrightarrow> i < 0 \<Longrightarrow> to_size i = 2 ^ 64 - nat (- i)"
proof -
  assume a: "- (2 ^ 31) \<le> i" "i < 0"
  have "i mod 2 ^ 64 = (i + 2 ^ 64) mod 2 ^ 64" by simp
  also have "\<dots> = i + 2 ^ 64" using a by (intro mod_pos_pos_trivial) auto
  finally show ?thesis using a by (simp add: to_size_def nat_diff_distrib' nat_eq_iff)
qed

lemma to_int32_id: "0 \<le> i \<Longrightarrow> i < 2 ^ 31 \<Longrightarrow> to_int32 i = i"
  by (simp add: to_int32_def signed_take_bit_int_eq_self)

end
