(* ===== verification/Iterators.thy ===== *)
theory Iterators
  imports CArray
begin

text \<open>
  The iterators of \<^verbatim>\<open>myVector\<close> and \<^verbatim>\<open>Array\<close> (\<^verbatim>\<open>vector_iterator.h\<close>, \<^verbatim>\<open>vector_const_iterator.h\<close>,
  \<^verbatim>\<open>vector_reserve_iterator.h\<close> and the three headers of the same names for arrays).

  A \<^verbatim>\<open>T *\<close> into the array of a container is the index of its cell, \<open>None\<close> the null pointer a default
  constructed iterator holds.  A class is the record of its members; an operator that changes
  \<^verbatim>\<open>*this\<close> returns the new \<^verbatim>\<open>*this\<close>, together with the returned iterator where that is another one.
  The locale \<open>random_iterator\<close> is the contract of the six classes, with the direction \<open>dir\<close>.
\<close>

type_synonym iter = "int option"

definition padd :: "iter \<Rightarrow> int \<Rightarrow> iter" where
  "padd p n = map_option (\<lambda>i. i + n) p"

definition pdiff :: "iter \<Rightarrow> iter \<Rightarrow> int" where
  \<comment> \<open>\<^verbatim>\<open>p - q\<close>, converted to \<^verbatim>\<open>int\<close>\<close>
  "pdiff p q = (case (p, q) of (Some i, Some j) \<Rightarrow> to_int32 (i - j) | _ \<Rightarrow> 0)"

definition pload :: "'a option list \<Rightarrow> iter \<Rightarrow> 'a result" where
  "pload a p = (case p of None \<Rightarrow> Inl Null_Deref | Some i \<Rightarrow> aget a i)"

lemma padd_Some [simp]: "padd (Some i) n = Some (i + n)"
  by (simp add: padd_def)

lemma pload_Some [simp]: "pload a (Some i) = aget a i"
  by (simp add: pload_def)

lemma pdiff_Some [simp]: "pdiff (Some i) (Some j) = to_int32 (i - j)"
  by (simp add: pdiff_def)

record 'a iter_class =
  it_default :: iter
  it_from :: "iter \<Rightarrow> iter"
  it_eq :: "iter \<Rightarrow> iter \<Rightarrow> bool"
  it_ne :: "iter \<Rightarrow> iter \<Rightarrow> bool"
  it_assign :: "iter \<Rightarrow> iter \<Rightarrow> iter"
  pre_inc :: "iter \<Rightarrow> iter"
  post_inc :: "iter \<Rightarrow> iter \<times> iter"
  it_plus :: "iter \<Rightarrow> int \<Rightarrow> iter"
  plus_assign :: "iter \<Rightarrow> int \<Rightarrow> iter \<times> iter"
  pre_dec :: "iter \<Rightarrow> iter"
  post_dec :: "iter \<Rightarrow> iter \<times> iter"
  it_minus :: "iter \<Rightarrow> int \<Rightarrow> iter"
  minus_assign :: "iter \<Rightarrow> int \<Rightarrow> iter"
  it_diff :: "iter \<Rightarrow> iter \<Rightarrow> int"
  it_deref :: "'a option list \<Rightarrow> iter \<Rightarrow> 'a result"
  it_arrow :: "iter \<Rightarrow> iter"

definition vectorIterator :: "'a iter_class" where
  "vectorIterator = \<lparr>
     it_default = None,
     it_from = (\<lambda>pointer. pointer),
     it_eq = (\<lambda>this other. this = other),
     it_ne = (\<lambda>this other. this \<noteq> other),
     it_assign = (\<lambda>this other. if this = other then this else other),
     pre_inc = (\<lambda>this. padd this 1),
     post_inc = (\<lambda>this. let it = this; this' = padd this 1 in (this', it)),
     it_plus = (\<lambda>this n. padd this n),
     plus_assign = (\<lambda>this n. let this' = padd this n in (this', this')),
     pre_dec = (\<lambda>this. padd this (- 1)),
     post_dec = (\<lambda>this. let it = this; this' = padd this (- 1) in (this', it)),
     it_minus = (\<lambda>this n. padd this (- n)),
     minus_assign = (\<lambda>this n. padd this (- n)),
     it_diff = pdiff,
     it_deref = pload,
     it_arrow = (\<lambda>this. this)\<rparr>"

definition vectorConstIterator :: "'a iter_class" where
  "vectorConstIterator = \<lparr>
     it_default = None,
     it_from = (\<lambda>pointer. pointer),
     it_eq = (\<lambda>this other. this = other),
     it_ne = (\<lambda>this other. this \<noteq> other),
     it_assign = (\<lambda>this other. if this = other then this else other),
     pre_inc = (\<lambda>this. padd this 1),
     post_inc = (\<lambda>this. let it = this; this' = padd this 1 in (this', it)),
     it_plus = (\<lambda>this n. padd this n),
     plus_assign = (\<lambda>this n. let this' = padd this n in (this', this')),
     pre_dec = (\<lambda>this. padd this (- 1)),
     post_dec = (\<lambda>this. let it = this; this' = padd this (- 1) in (this', it)),
     it_minus = (\<lambda>this n. padd this (- n)),
     minus_assign = (\<lambda>this n. padd this (- n)),
     it_diff = pdiff,
     it_deref = pload,
     it_arrow = (\<lambda>this. this)\<rparr>"

definition vectorReserveIterator :: "'a iter_class" where
  "vectorReserveIterator = \<lparr>
     it_default = None,
     it_from = (\<lambda>pointer. pointer),
     it_eq = (\<lambda>this other. this = other),
     it_ne = (\<lambda>this other. this \<noteq> other),
     it_assign = (\<lambda>this other. if this = other then this else other),
     pre_inc = (\<lambda>this. padd this (- 1)),
     post_inc = (\<lambda>this. let it = this; this' = padd this (- 1) in (this', it)),
     it_plus = (\<lambda>this n. padd this (- n)),
     plus_assign = (\<lambda>this n. let this' = padd this (- n) in (this', this')),
     pre_dec = (\<lambda>this. padd this 1),
     post_dec = (\<lambda>this. let it = this; this' = padd this 1 in (this', it)),
     it_minus = (\<lambda>this n. padd this n),
     minus_assign = (\<lambda>this n. padd this n),
     it_diff = pdiff,
     it_deref = pload,
     it_arrow = (\<lambda>this. this)\<rparr>"

definition arrayIterator :: "'a iter_class" where
  "arrayIterator = \<lparr>
     it_default = None,
     it_from = (\<lambda>pointer. pointer),
     it_eq = (\<lambda>this other. this = other),
     it_ne = (\<lambda>this other. this \<noteq> other),
     it_assign = (\<lambda>this other. if this = other then this else other),
     pre_inc = (\<lambda>this. padd this 1),
     post_inc = (\<lambda>this. let it = this; this' = padd this 1 in (this', it)),
     it_plus = (\<lambda>this n. padd this n),
     plus_assign = (\<lambda>this n. let this' = padd this n in (this', this')),
     pre_dec = (\<lambda>this. padd this (- 1)),
     post_dec = (\<lambda>this. let it = this; this' = padd this (- 1) in (this', it)),
     it_minus = (\<lambda>this n. padd this (- n)),
     minus_assign = (\<lambda>this n. padd this (- n)),
     it_diff = pdiff,
     it_deref = pload,
     it_arrow = (\<lambda>this. this)\<rparr>"

definition arrayConstIterator :: "'a iter_class" where
  "arrayConstIterator = \<lparr>
     it_default = None,
     it_from = (\<lambda>pointer. pointer),
     it_eq = (\<lambda>this other. this = other),
     it_ne = (\<lambda>this other. this \<noteq> other),
     it_assign = (\<lambda>this other. if this = other then this else other),
     pre_inc = (\<lambda>this. padd this 1),
     post_inc = (\<lambda>this. let it = this; this' = padd this 1 in (this', it)),
     it_plus = (\<lambda>this n. padd this n),
     plus_assign = (\<lambda>this n. let this' = padd this n in (this', this')),
     pre_dec = (\<lambda>this. padd this (- 1)),
     post_dec = (\<lambda>this. let it = this; this' = padd this (- 1) in (this', it)),
     it_minus = (\<lambda>this n. padd this (- n)),
     minus_assign = (\<lambda>this n. padd this (- n)),
     it_diff = pdiff,
     it_deref = pload,
     it_arrow = (\<lambda>this. this)\<rparr>"

definition arrayReserveIterator :: "'a iter_class" where
  "arrayReserveIterator = \<lparr>
     it_default = None,
     it_from = (\<lambda>pointer. pointer),
     it_eq = (\<lambda>this other. this = other),
     it_ne = (\<lambda>this other. this \<noteq> other),
     it_assign = (\<lambda>this other. if this = other then this else other),
     pre_inc = (\<lambda>this. padd this (- 1)),
     post_inc = (\<lambda>this. let it = this; this' = padd this (- 1) in (this', it)),
     it_plus = (\<lambda>this n. padd this (- n)),
     plus_assign = (\<lambda>this n. let this' = padd this (- n) in (this', this')),
     pre_dec = (\<lambda>this. padd this 1),
     post_dec = (\<lambda>this. let it = this; this' = padd this 1 in (this', it)),
     it_minus = (\<lambda>this n. padd this n),
     minus_assign = (\<lambda>this n. padd this n),
     it_diff = pdiff,
     it_deref = pload,
     it_arrow = (\<lambda>this. this)\<rparr>"

lemmas iter_class_defs = vectorIterator_def vectorConstIterator_def vectorReserveIterator_def
  arrayIterator_def arrayConstIterator_def arrayReserveIterator_def

section \<open>The loop over a container\<close>

text \<open>\<^verbatim>\<open>for(auto it = first; it != last; it++){ std::cout << *it; }\<close>: the values printed.  \<open>fuel\<close> bounds
  the turns; \<open>None\<close> means that the loop has not ended within them.\<close>

fun print_range ::
  "'a iter_class \<Rightarrow> 'a option list \<Rightarrow> nat \<Rightarrow> iter \<Rightarrow> iter \<Rightarrow> 'a list result option" where
  "print_range c a 0 it stop = None"
| "print_range c a (Suc fuel) it stop =
     (if it_ne c it stop then
        (case it_deref c a it of
           Inl e \<Rightarrow> Some (Inl e)
         | Inr v \<Rightarrow> map_option (\<lambda>r. rbind r (\<lambda>vs. Inr (v # vs)))
                      (print_range c a fuel (fst (post_inc c it)) stop))
      else Some (Inr []))"

locale random_iterator =
  fixes c :: "'a iter_class" and dir :: int
  assumes dir: "dir = 1 \<or> dir = - 1"
    and ne: "it_ne c p q \<longleftrightarrow> p \<noteq> q"
    and eq: "it_eq c p q \<longleftrightarrow> p = q"
    and assign: "it_assign c p q = q"
    and inc: "pre_inc c (Some i) = Some (i + dir)"
    and post_inc: "post_inc c p = (pre_inc c p, p)"
    and dec: "pre_dec c (Some i) = Some (i - dir)"
    and post_dec: "post_dec c p = (pre_dec c p, p)"
    and plus: "it_plus c (Some i) n = Some (i + dir * n)"
    and plus_assign: "plus_assign c p n = (it_plus c p n, it_plus c p n)"
    and minus: "it_minus c (Some i) n = Some (i - dir * n)"
    and minus_assign: "minus_assign c p n = it_minus c p n"
    and diff: "it_diff c (Some i) (Some j) = to_int32 (i - j)"
    and deref: "it_deref c a (Some i) = aget a i"
begin

lemma inc_dec: "pre_dec c (pre_inc c (Some i)) = Some i" "pre_inc c (pre_dec c (Some i)) = Some i"
  by (simp_all add: inc dec)

lemma plus_minus: "it_minus c (it_plus c (Some i) n) n = Some i"
  by (simp add: plus minus)

lemma plus_steps: "((\<lambda>p. pre_inc c p) ^^ n) (Some i) = it_plus c (Some i) (int n)"
  by (induction n) (simp_all add: inc plus algebra_simps)

lemma distance:
  assumes "- (2 ^ 31) < n" "n < 2 ^ 31"
  shows "it_diff c (it_plus c (Some i) n) (Some i) = dir * n"
  using assms dir by (auto simp: plus diff to_int32_def signed_take_bit_int_eq_self)

lemma print_cells:
  assumes "\<And>k. k < length xs \<Longrightarrow> aget a (i + dir * int k) = Inr (xs ! k)" "length xs < fuel"
  shows "print_range c a fuel (Some i) (Some (i + dir * int (length xs))) = Some (Inr xs)"
  using assms
proof (induction xs arbitrary: i fuel)
  case Nil
  then show ?case by (cases fuel) (simp_all add: ne)
next
  case (Cons x xs)
  obtain f where f: "fuel = Suc f" using Cons.prems(2) by (cases fuel) auto
  have x: "aget a i = Inr x" using Cons.prems(1) [of 0] by simp
  have "print_range c a f (Some (i + dir)) (Some (i + dir + dir * int (length xs))) = Some (Inr xs)"
  proof (rule Cons.IH)
    fix k assume "k < length xs"
    then show "aget a (i + dir + dir * int k) = Inr (xs ! k)"
      using Cons.prems(1) [of "Suc k"] by (simp add: algebra_simps)
  qed (use Cons.prems(2) f in simp)
  moreover have "dir + dir * int (length xs) \<noteq> 0" using dir by auto
  moreover have "i + dir * int (length (x # xs)) = i + dir + dir * int (length xs)"
    by (simp add: algebra_simps)
  ultimately show ?case by (simp add: f ne deref x post_inc inc add.assoc)
qed

end

interpretation vec_it: random_iterator vectorIterator "1"
  by unfold_locales (simp_all add: iter_class_defs Let_def)

interpretation vec_cit: random_iterator vectorConstIterator "1"
  by unfold_locales (simp_all add: iter_class_defs Let_def)

interpretation vec_rit: random_iterator vectorReserveIterator "- 1"
  by unfold_locales (simp_all add: iter_class_defs Let_def)

interpretation arr_it: random_iterator arrayIterator "1"
  by unfold_locales (simp_all add: iter_class_defs Let_def)

interpretation arr_cit: random_iterator arrayConstIterator "1"
  by unfold_locales (simp_all add: iter_class_defs Let_def)

interpretation arr_rit: random_iterator arrayReserveIterator "- 1"
  by unfold_locales (simp_all add: iter_class_defs Let_def)

end
