(* ===== verification/Vector.thy ===== *)
theory Vector
  imports Iterators
begin

text \<open>
  The container \<^verbatim>\<open>myVector\<close> of \<^verbatim>\<open>vector/version02\<close>.

  \<open>m_data\<close> is the array \<^verbatim>\<open>m_data\<close> points to (the null pointer is the empty array), \<open>m_size\<close> and
  \<open>m_capacity\<close> the two \<^verbatim>\<open>size_t\<close> fields.  A parameter \<^verbatim>\<open>const T & value\<close> is either an object outside
  the vector or a reference to one of its own cells, which is read when the code reads it and
  dangles once the array is deleted.  An operation with a loop that enlarges the capacity has the
  result \<open>None\<close> when that loop never ends.  The representation predicate \<open>vec_rep v xs\<close> says that
  the live cells of \<open>v\<close> hold \<open>xs\<close>.
\<close>

section \<open>State\<close>

record 'a vec =
  m_data :: "'a option list"
  m_size :: nat
  m_capacity :: nat

datatype 'a arg = Outside 'a | Own nat

definition vec_new :: "'a vec" where
  "vec_new = \<lparr>m_data = [], m_size = 0, m_capacity = 0\<rparr>"

definition load_arg :: "'a option list \<Rightarrow> 'a arg \<Rightarrow> 'a result" where
  "load_arg a r = (case r of Outside x \<Rightarrow> Inr x | Own i \<Rightarrow> aget a (int i))"

definition load_freed :: "'a arg \<Rightarrow> 'a result" where
  "load_freed r = (case r of Outside x \<Rightarrow> Inr x | Own i \<Rightarrow> Inl Dangling)"

text \<open>\<^verbatim>\<open>for(n turns) a[d++] = value;\<close> where \<open>ld\<close> reads \<^verbatim>\<open>value\<close>\<close>

fun fill_from ::
  "('a option list \<Rightarrow> 'a result) \<Rightarrow> 'a option list \<Rightarrow> int \<Rightarrow> nat \<Rightarrow> 'a option list result" where
  "fill_from ld a d 0 = Inr a"
| "fill_from ld a d (Suc n) = rbind (ld a) (\<lambda>x. rbind (aput a d x) (\<lambda>a'. fill_from ld a' (d + 1) n))"

text \<open>\<^verbatim>\<open>while(m_capacity < n){ if(m_capacity == 0) m_capacity = 1; else m_capacity *= 2; }\<close> on \<^verbatim>\<open>size_t\<close>\<close>

definition next_capacity :: "nat \<Rightarrow> nat" where
  "next_capacity cap = (if cap = 0 then 1 else (2 * cap) mod 2 ^ 64)"

partial_function (option) grow_capacity :: "nat \<Rightarrow> nat \<Rightarrow> nat option" where
  "grow_capacity cap n = (if cap < n then grow_capacity (next_capacity cap) n else Some cap)"

section \<open>Element access\<close>

text \<open>A reference that is returned is the index of the cell.\<close>

definition vec_at :: "int \<Rightarrow> 'a vec \<Rightarrow> int result" where
  "vec_at index v = (if index < 0 \<or> m_size v \<le> to_size index then Inl Out_Of_Range else Inr index)"

definition vec_index :: "int \<Rightarrow> 'a vec \<Rightarrow> int result" where
  "vec_index index v = (if index < 0 \<or> m_size v \<le> to_size index then Inl Out_Of_Range else Inr index)"

definition vec_front :: "'a vec \<Rightarrow> int result" where
  "vec_front v = (if m_size v = 0 then Inl Out_Of_Range else Inr 0)"

definition vec_back :: "'a vec \<Rightarrow> int result" where
  "vec_back v = (if m_size v = 0 then Inl Out_Of_Range else Inr (int (m_size v) - 1))"

definition vec_data :: "'a vec \<Rightarrow> 'a option list" where
  "vec_data v = m_data v"

definition vec_empty :: "'a vec \<Rightarrow> bool" where
  "vec_empty v \<longleftrightarrow> m_size v = 0"

definition vec_size :: "'a vec \<Rightarrow> int" where
  "vec_size v = to_int32 (int (m_size v))"

definition vec_capacity :: "'a vec \<Rightarrow> int" where
  "vec_capacity v = to_int32 (int (m_capacity v))"

fun load_cells :: "'a option list \<Rightarrow> int \<Rightarrow> nat \<Rightarrow> 'a list result" where
  "load_cells a i 0 = Inr []"
| "load_cells a i (Suc n) = rbind (aget a i) (\<lambda>x. rbind (load_cells a (i + 1) n) (\<lambda>xs. Inr (x # xs)))"

definition vec_display :: "'a vec \<Rightarrow> (nat \<times> nat \<times> 'a list) result" where
  "vec_display v = rbind (load_cells (m_data v) 0 (m_size v)) (\<lambda>xs. Inr (m_size v, m_capacity v, xs))"

section \<open>Operations that change the vector\<close>

definition vec_push_back :: "'a arg \<Rightarrow> 'a vec \<Rightarrow> 'a vec result" where
  "vec_push_back value v =
     (if m_size v < m_capacity v then
        rbind (load_arg (m_data v) value) (\<lambda>x.
        rbind (aput (m_data v) (int (m_size v)) x) (\<lambda>d.
        Inr (v\<lparr>m_data := d, m_size := m_size v + 1\<rparr>)))
      else
        (let cap = next_capacity (m_capacity v) in
         rbind (copy_up (m_data v) 0 (new_array cap) 0 (m_size v)) (\<lambda>d.
         rbind (load_freed value) (\<lambda>x.
         rbind (aput d (int (m_size v)) x) (\<lambda>d'.
         Inr (v\<lparr>m_data := d', m_size := m_size v + 1, m_capacity := cap\<rparr>))))))"

definition vec_pop_back :: "'a vec \<Rightarrow> 'a vec" where
  "vec_pop_back v = (if 0 < m_size v then v\<lparr>m_size := m_size v - 1\<rparr> else v)"

definition vec_assign :: "int \<Rightarrow> 'a arg \<Rightarrow> 'a vec \<Rightarrow> 'a vec result option" where
  "vec_assign n val v =
     (if to_size n \<le> m_capacity v then
        Some (rbind (fill_from (\<lambda>a. load_arg a val) (m_data v) 0 (nat n)) (\<lambda>d.
              Inr (v\<lparr>m_data := d, m_size := to_size n\<rparr>)))
      else
        (let cap = (if m_data v \<noteq> [] then 0 else m_capacity v) in
         map_option (\<lambda>cap'.
           rbind (fill_from (\<lambda>a. load_freed val) (new_array cap') 0 (nat n)) (\<lambda>d.
           Inr (v\<lparr>m_data := d, m_size := to_size n, m_capacity := cap'\<rparr>)))
           (grow_capacity cap (to_size n))))"

text \<open>The sizes pass through two local variables of type \<^verbatim>\<open>int\<close>.\<close>

definition vec_swap :: "'a vec \<Rightarrow> 'a vec \<Rightarrow> 'a vec \<times> 'a vec" where
  "vec_swap v other =
     (let size' = to_int32 (int (m_size other)); capacity' = to_int32 (int (m_capacity other)) in
      (v\<lparr>m_data := m_data other, m_size := to_size size', m_capacity := to_size capacity'\<rparr>,
       other\<lparr>m_data := m_data v, m_size := m_size v, m_capacity := m_capacity v\<rparr>))"

definition vec_resize :: "int \<Rightarrow> 'a arg \<Rightarrow> 'a vec \<Rightarrow> 'a vec result option" where
  "vec_resize n val v =
     (if to_size n < m_size v then Some (Inr (v\<lparr>m_size := to_size n\<rparr>))
      else if to_size n < m_capacity v then
        Some (rbind (fill_from (\<lambda>a. load_arg a val) (m_data v) (int (m_size v)) (nat (n - int (m_size v))))
                (\<lambda>d. Inr (v\<lparr>m_data := d, m_size := to_size n\<rparr>)))
      else
        map_option (\<lambda>cap'.
          rbind (copy_up (m_data v) 0 (new_array cap') 0 (m_size v)) (\<lambda>d1.
          rbind (fill_from (\<lambda>a. load_arg (m_data v) val) d1 (int (m_size v)) (nat (n - int (m_size v)))) (\<lambda>d2.
          Inr (v\<lparr>m_data := d2, m_size := to_size n, m_capacity := cap'\<rparr>))))
          (grow_capacity (m_capacity v) (to_size n)))"

text \<open>\<^verbatim>\<open>resize(n, T())\<close>, \<open>dflt\<close> being \<^verbatim>\<open>T()\<close>\<close>

definition vec_resize_default :: "'a \<Rightarrow> int \<Rightarrow> 'a vec \<Rightarrow> 'a vec result option" where
  "vec_resize_default dflt n v = vec_resize n (Outside dflt) v"

definition vec_reserve :: "int \<Rightarrow> 'a vec \<Rightarrow> 'a vec result option" where
  "vec_reserve n v =
     (if to_size n < m_capacity v then Some (Inr v)
      else
        map_option (\<lambda>cap'.
          rbind (copy_up (m_data v) 0 (new_array cap') 0 (m_size v)) (\<lambda>d.
          Inr (v\<lparr>m_data := d, m_capacity := cap'\<rparr>)))
          (grow_capacity (m_capacity v) (to_size n)))"

definition vec_clear :: "'a vec \<Rightarrow> 'a vec" where
  "vec_clear v = v\<lparr>m_size := 0\<rparr>"

section \<open>Iterators and the operations that take them\<close>

definition vec_begin :: "'a vec \<Rightarrow> iter" where
  "vec_begin v = it_from (vectorIterator :: 'a iter_class) (Some 0)"

definition vec_end :: "'a vec \<Rightarrow> iter" where
  "vec_end v = it_from (vectorIterator :: 'a iter_class) (Some (int (m_size v)))"

definition vec_cbegin :: "'a vec \<Rightarrow> iter" where
  "vec_cbegin v = it_from (vectorConstIterator :: 'a iter_class) (Some 0)"

definition vec_cend :: "'a vec \<Rightarrow> iter" where
  "vec_cend v = it_from (vectorConstIterator :: 'a iter_class) (Some (int (m_size v)))"

definition vec_rbegin :: "'a vec \<Rightarrow> iter" where
  "vec_rbegin v = it_from (vectorReserveIterator :: 'a iter_class) (Some (int (m_size v) - 1))"

definition vec_rend :: "'a vec \<Rightarrow> iter" where
  "vec_rend v = it_from (vectorReserveIterator :: 'a iter_class) (Some (- 1))"

definition vec_insert_n :: "iter \<Rightarrow> int \<Rightarrow> 'a arg \<Rightarrow> 'a vec \<Rightarrow> ('a vec \<times> iter) result option" where
  "vec_insert_n pos n value v =
     (let size' = it_diff (vectorIterator :: 'a iter_class) pos (vec_begin v);
          total = to_size (int (m_size v) + n) in
      if total \<le> m_capacity v then
        Some (rbind (move_down (m_data v) (int (m_size v)) n (nat (int (m_size v) - size'))) (\<lambda>d1.
              rbind (fill_from (\<lambda>a. load_arg a value) d1 size' (nat n)) (\<lambda>d2.
              Inr (v\<lparr>m_data := d2, m_size := total\<rparr>, Some size'))))
      else
        map_option (\<lambda>cap'.
          rbind (copy_up (m_data v) 0 (new_array cap') 0 (nat size')) (\<lambda>d1.
          rbind (fill_from (\<lambda>a. load_arg (m_data v) value) d1 size' (nat n)) (\<lambda>d2.
          rbind (copy_up (m_data v) size' d2 (size' + n) (nat (int (m_size v) - size'))) (\<lambda>d3.
          Inr (v\<lparr>m_data := d3, m_size := total, m_capacity := cap'\<rparr>, Some size')))))
          (grow_capacity (m_capacity v) total))"

text \<open>\<^verbatim>\<open>insert(pos, value)\<close> has no \<^verbatim>\<open>return\<close>: the vector is changed, but there is no iterator.\<close>

definition vec_insert :: "iter \<Rightarrow> 'a arg \<Rightarrow> 'a vec \<Rightarrow> ('a vec \<times> iter result) result option" where
  "vec_insert pos value v =
     map_option (\<lambda>r. rbind r (\<lambda>(v', it). Inr (v', Inl Uninitialised))) (vec_insert_n pos 1 value v)"

definition vec_erase :: "iter \<Rightarrow> 'a vec \<Rightarrow> ('a vec \<times> iter) result" where
  "vec_erase pos v =
     (if it_eq (vectorIterator :: 'a iter_class) pos (vec_end v) then Inl Out_Of_Range
      else if it_diff (vectorIterator :: 'a iter_class) (vec_end v) pos = 1 then
        (let v' = v\<lparr>m_size := to_size (int (m_size v) - 1)\<rparr> in Inr (v', vec_end v'))
      else
        (let size' = it_diff (vectorIterator :: 'a iter_class) pos (vec_begin v);
             stop = to_size (int (m_size v) - 1) in
         rbind (move_up (m_data v) (size' + 1) size' (stop - to_size size')) (\<lambda>d.
         Inr (v\<lparr>m_data := d, m_size := stop\<rparr>, pos))))"

datatype elem_type =
  Ty_pointer | Ty_bool | Ty_char | Ty_unsigned_char | Ty_short | Ty_unsigned_short | Ty_int
| Ty_unsigned_int | Ty_long | Ty_unsigned_long | Ty_float | Ty_double | Ty_other

definition is_basic_type :: "elem_type \<Rightarrow> bool" where
  "is_basic_type t =
     (if t = Ty_pointer then True
      else t = Ty_bool \<or> t = Ty_char \<or> t = Ty_unsigned_char \<or> t = Ty_short \<or> t = Ty_unsigned_short \<or>
           t = Ty_int \<or> t = Ty_unsigned_int \<or> t = Ty_long \<or> t = Ty_unsigned_long \<or>
           t = Ty_float \<or> t = Ty_double)"

definition vec_erase_range ::
  "elem_type \<Rightarrow> iter \<Rightarrow> iter \<Rightarrow> 'a vec \<Rightarrow> ('a vec \<times> iter) result" where
  "vec_erase_range ty first stop v =
     (let f = it_diff (vectorIterator :: 'a iter_class) first (vec_begin v);
          l = it_diff (vectorIterator :: 'a iter_class) stop (vec_begin v);
          n = it_diff (vectorIterator :: 'a iter_class) stop first;
          count = to_size (int (m_size v) - l) in
      rbind (if is_basic_type ty then memmove (m_data v) f l count
             else move_up (m_data v) l f count) (\<lambda>d.
      Inr (v\<lparr>m_data := d, m_size := to_size (int (m_size v) - n)\<rparr>, first)))"


section \<open>Representation\<close>

definition cap_ok :: "nat \<Rightarrow> bool" where
  "cap_ok c \<longleftrightarrow> c = 0 \<or> (\<exists>k \<le> 31. c = 2 ^ k)"

definition vec_rep :: "'a vec \<Rightarrow> 'a list \<Rightarrow> bool" where
  "vec_rep v xs \<longleftrightarrow> (\<exists>t. m_data v = map Some xs @ t) \<and> m_size v = length xs
     \<and> m_capacity v = length (m_data v) \<and> cap_ok (m_capacity v)"

lemma vec_repE:
  assumes "vec_rep v xs"
  obtains t where "v = \<lparr>m_data = map Some xs @ t, m_size = length xs, m_capacity = length xs + length t\<rparr>"
    "cap_ok (length xs + length t)"
  using assms by (cases v) (auto simp: vec_rep_def)

lemma vec_repI:
  "length d = c \<Longrightarrow> d = map Some xs @ t \<Longrightarrow> cap_ok c \<Longrightarrow>
   vec_rep \<lparr>m_data = d, m_size = length xs, m_capacity = c\<rparr> xs"
  by (auto simp: vec_rep_def)

lemma vec_new_rep: "vec_rep vec_new []"
  by (simp add: vec_new_def vec_rep_def cap_ok_def)

lemma cap_ok_le: "cap_ok c \<Longrightarrow> c \<le> 2 ^ 31"
proof -
  have "(2 :: nat) ^ k \<le> 2 ^ 31" if "k \<le> 31" for k using that by (rule power_increasing) simp
  then show "cap_ok c \<Longrightarrow> c \<le> 2 ^ 31" by (auto simp: cap_ok_def)
qed

lemma vec_rep_length: "vec_rep v xs \<Longrightarrow> length xs \<le> 2 ^ 31"
  using cap_ok_le by (fastforce simp: vec_rep_def)

lemma next_capacity_cap_ok: "cap_ok c \<Longrightarrow> c < 2 ^ 31 \<Longrightarrow> cap_ok (next_capacity c) \<and> c < next_capacity c"
proof -
  assume a: "cap_ok c" "c < 2 ^ 31"
  show "cap_ok (next_capacity c) \<and> c < next_capacity c"
  proof (cases "c = 0")
    case True
    then show ?thesis by (auto simp: next_capacity_def cap_ok_def intro: exI [of _ 0])
  next
    case False
    then obtain k where k: "k \<le> 31" "c = 2 ^ k" using a(1) by (auto simp: cap_ok_def)
    with a(2) have "k < 31" by (cases "k = 31") auto
    moreover have "next_capacity c = 2 ^ Suc k" using k a(2) by (simp add: next_capacity_def)
    ultimately show ?thesis using k unfolding cap_ok_def by (metis One_nat_def Suc_leI lessI one_less_numeral_iff power_strict_increasing semiring_norm(76))
  qed
qed

lemma grow_capacity_returns:
  "cap_ok c \<Longrightarrow> n \<le> 2 ^ 31 \<Longrightarrow> \<exists>c'. grow_capacity c n = Some c' \<and> cap_ok c' \<and> n \<le> c' \<and> c \<le> c'"
proof (induction "2 ^ 31 - c" arbitrary: c rule: less_induct)
  case less
  show ?case
  proof (cases "c < n")
    case True
    with less.prems have "cap_ok (next_capacity c) \<and> c < next_capacity c"
      by (intro next_capacity_cap_ok) auto
    with less.prems less.hyps [of "next_capacity c"] True show ?thesis
      by (subst grow_capacity.simps) force
  next
    case False
    with less.prems show ?thesis by (subst grow_capacity.simps) auto
  qed
qed

text \<open>Every capacity of \<^verbatim>\<open>size_t\<close> that is zero or a power of two stays below a request above \<open>2 ^ 63\<close>
  however often it is doubled: \<open>2 ^ 63\<close> doubled is 0.\<close>

definition wide_cap :: "nat \<Rightarrow> bool" where
  "wide_cap c \<longleftrightarrow> c = 0 \<or> (\<exists>k < 64. c = 2 ^ k)"

lemma wide_cap_le: "wide_cap c \<Longrightarrow> c \<le> 2 ^ 63"
proof -
  have "(2 :: nat) ^ k \<le> 2 ^ 63" if "k < 64" for k
    using that by (intro power_increasing) auto
  then show "wide_cap c \<Longrightarrow> c \<le> 2 ^ 63" by (auto simp: wide_cap_def)
qed

lemma wide_cap_next: "wide_cap c \<Longrightarrow> wide_cap (next_capacity c)"
  unfolding wide_cap_def
proof (elim disjE exE conjE)
  fix k :: nat assume k: "k < 64" "c = 2 ^ k"
  show "next_capacity c = 0 \<or> (\<exists>k < 64. next_capacity c = 2 ^ k)"
  proof (cases "k = 63")
    case True
    then show ?thesis using k by (simp add: next_capacity_def)
  next
    case False
    then have "Suc k < 64" using k(1) by simp
    moreover from this have "(2 :: nat) ^ Suc k < 2 ^ 64" by (intro power_strict_increasing) auto
    then have "next_capacity c = 2 ^ Suc k" unfolding next_capacity_def k(2) by simp
    ultimately show ?thesis by blast
  qed
qed (auto simp: next_capacity_def intro: exI [of _ 0])

lemma cap_ok_wide: "cap_ok c \<Longrightarrow> wide_cap c"
  unfolding cap_ok_def wide_cap_def by force

lemma grow_capacity_diverges:
  assumes "wide_cap c" "2 ^ 63 < n"
  shows "grow_capacity c n = None"
proof (rule ccontr)
  have aux: "\<not> (wide_cap c \<and> 2 ^ 63 < n)" if "grow_capacity c n = Some r" for c n r
    using that
  proof (rule grow_capacity.raw_induct [where P = "\<lambda>c n r. \<not> (wide_cap c \<and> 2 ^ 63 < n)", rotated])
    fix g c n r
    assume IH: "\<And>c n r. g c n = Some r \<Longrightarrow> \<not> (wide_cap c \<and> 2 ^ 63 < n)"
      and eq: "(if c < n then g (next_capacity c) n else Some c) = Some r"
    show "\<not> (wide_cap c \<and> 2 ^ 63 < n)"
    proof
      assume w: "wide_cap c \<and> 2 ^ 63 < n"
      then have "c < n" using wide_cap_le [of c] by (meson le_less_trans)
      with eq IH wide_cap_next [of c] w show False by auto
    qed
  qed
  assume "grow_capacity c n \<noteq> None"
  then show False using aux assms by blast
qed


section \<open>Every operation on a represented vector\<close>

lemma load_arg_Outside [simp]: "load_arg a (Outside x) = Inr x" "load_freed (Outside x) = Inr x"
  by (simp_all add: load_arg_def load_freed_def)

lemma fill_from_cells:
  "(\<And>a. ld a = Inr x) \<Longrightarrow>
   fill_from ld (p @ q @ t) (int (length p)) (length q) = Inr (p @ replicate (length q) (Some x) @ t)"
proof (induction q arbitrary: p)
  case (Cons c q)
  show ?case using Cons.IH [of "p @ [Some x]"] Cons.prems by (simp add: add.commute)
qed simp

lemma fill_from_prefix:
  "(\<And>a. ld a = Inr x) \<Longrightarrow> n \<le> length q \<Longrightarrow>
   fill_from ld (p @ q) (int (length p)) n = Inr (p @ replicate n (Some x) @ drop n q)"
  using fill_from_cells [of ld x p "take n q" "drop n q"] by simp

lemma copy_up_new:
  "length xs \<le> c \<Longrightarrow>
   copy_up (map Some xs @ t) 0 (new_array c) 0 (length xs) = Inr (map Some xs @ replicate (c - length xs) None)"
  using copy_up_cells [of "replicate (length xs) None" xs "[]" t "[]" "replicate (c - length xs) None"]
  by (simp add: new_array_def replicate_add [symmetric])

lemma load_cells_at: "load_cells (a @ map Some xs @ t) (int (length a)) (length xs) = Inr xs"
proof (induction xs arbitrary: a)
  case (Cons x xs)
  show ?case using Cons.IH [of "a @ [Some x]"] by (simp add: add.commute)
qed simp

lemma push_back_correct:
  assumes "vec_rep v xs" "length xs < 2 ^ 31"
  shows "\<exists>v'. vec_push_back (Outside x) v = Inr v' \<and> vec_rep v' (xs @ [x])"
proof -
  obtain t where v: "v = \<lparr>m_data = map Some xs @ t, m_size = length xs, m_capacity = length xs + length t\<rparr>"
    and c: "cap_ok (length xs + length t)" using vec_repE [OF assms(1)] .
  show ?thesis
  proof (cases t)
    case Nil
    let ?c = "next_capacity (length xs)"
    have c': "cap_ok ?c" "length xs < ?c"
      using next_capacity_cap_ok [of "length xs"] c assms(2) Nil by simp_all
    then obtain t' :: "'a option list" where t': "replicate (?c - length xs) None = None # t'" "length t' = ?c - Suc (length xs)"
      by (cases "?c - length xs") auto
    have "copy_up (map Some xs @ []) 0 (new_array ?c) 0 (length xs) = Inr (map Some xs @ None # t')"
      using copy_up_new [of xs ?c "[]"] c'(2) unfolding t'(1) by simp
    then show ?thesis
      using v Nil c' t'(2) by (simp add: vec_push_back_def Let_def) (simp add: vec_rep_def)
  next
    case (Cons c0 t')
    then show ?thesis using v c by (simp add: vec_push_back_def) (simp add: vec_rep_def)
  qed
qed

lemma pop_back_correct: "vec_rep v xs \<Longrightarrow> vec_rep (vec_pop_back v) (butlast xs)"
proof -
  assume "vec_rep v xs"
  then obtain t where v: "v = \<lparr>m_data = map Some xs @ t, m_size = length xs, m_capacity = length xs + length t\<rparr>"
    and c: "cap_ok (length xs + length t)" using vec_repE by blast
  show ?thesis
    using v c by (cases xs rule: rev_cases) (auto simp: vec_pop_back_def vec_rep_def)
qed

lemma to_size_small: "0 \<le> n \<Longrightarrow> n < 2 ^ 33 \<Longrightarrow> to_size n = nat n"
  by (rule to_size_id) auto

lemma nat_le_31: "n < 2 ^ 31 \<Longrightarrow> nat n \<le> 2 ^ 31"
  by (simp add: nat_le_iff)

lemma cap_ok_0: "cap_ok 0"
  by (simp add: cap_ok_def)

lemma clear_correct: "vec_rep v xs \<Longrightarrow> vec_rep (vec_clear v) []"
  by (auto simp: vec_rep_def vec_clear_def)

lemma assign_correct:
  assumes "vec_rep v xs" "0 \<le> n" "n < 2 ^ 31"
  shows "\<exists>v'. vec_assign n (Outside x) v = Some (Inr v') \<and> vec_rep v' (replicate (nat n) x)"
proof -
  obtain t where v: "v = \<lparr>m_data = map Some xs @ t, m_size = length xs, m_capacity = length xs + length t\<rparr>"
    and c: "cap_ok (length xs + length t)" using vec_repE [OF assms(1)] .
  have n: "to_size n = nat n" using assms by (simp add: to_size_small)
  show ?thesis
  proof (cases "nat n \<le> length xs + length t")
    case True
    then show ?thesis
      using v c n fill_from_prefix [of "\<lambda>a. Inr x" x "nat n" "map Some xs @ t" "[]"]
      by (simp add: vec_assign_def) (simp add: vec_rep_def)
  next
    case False
    have s: "(if m_data v \<noteq> [] then 0 else m_capacity v) = 0" using v by auto
    obtain c' where c': "grow_capacity 0 (nat n) = Some c'" "cap_ok c'" "nat n \<le> c'"
      using grow_capacity_returns [OF cap_ok_0 nat_le_31 [OF assms(3)]] by blast
    then show ?thesis
      using False n v s fill_from_prefix [of "\<lambda>a. Inr x" x "nat n" "new_array c'" "[]"]
      by (simp add: vec_assign_def Let_def new_array_def) (simp add: vec_rep_def)
  qed
qed

lemma resize_correct:
  assumes "vec_rep v xs" "0 \<le> n" "n < 2 ^ 31"
  shows "\<exists>v'. vec_resize n (Outside x) v = Some (Inr v')
    \<and> vec_rep v' (take (nat n) xs @ replicate (nat n - length xs) x)"
proof -
  obtain t where v: "v = \<lparr>m_data = map Some xs @ t, m_size = length xs, m_capacity = length xs + length t\<rparr>"
    and c: "cap_ok (length xs + length t)" using vec_repE [OF assms(1)] .
  have n: "to_size n = nat n" "nat (n - int (length xs)) = nat n - length xs"
    using assms by (simp_all add: to_size_small)
  consider "nat n < length xs" | "length xs \<le> nat n" "nat n < length xs + length t"
    | "length xs \<le> nat n" "length xs + length t \<le> nat n" by linarith
  then show ?thesis
  proof cases
    case 1
    have "map Some xs = map Some (take (nat n) xs) @ map Some (drop (nat n) xs)"
      by (simp flip: map_append)
    with 1 v n c show ?thesis by (auto simp: vec_resize_def vec_rep_def)
  next
    case 2
    then show ?thesis
      using v c n fill_from_prefix [of "\<lambda>a. Inr x" x "nat n - length xs" t "map Some xs"]
      by (simp add: vec_resize_def) (simp add: vec_rep_def)
  next
    case 3
    obtain c' where c': "grow_capacity (length xs + length t) (nat n) = Some c'" "cap_ok c'" "nat n \<le> c'"
      using grow_capacity_returns [OF c nat_le_31 [OF assms(3)]] by blast
    then show ?thesis
      using 3 n v copy_up_new [of xs c' t]
        fill_from_prefix [of "\<lambda>a. Inr x" x "nat n - length xs" "replicate (c' - length xs) None" "map Some xs"]
      by (simp add: vec_resize_def) (simp add: vec_rep_def)
  qed
qed

lemma reserve_correct:
  assumes "vec_rep v xs" "0 \<le> n" "n < 2 ^ 31"
  shows "\<exists>v'. vec_reserve n v = Some (Inr v') \<and> vec_rep v' xs \<and> nat n \<le> m_capacity v'"
proof -
  obtain t where v: "v = \<lparr>m_data = map Some xs @ t, m_size = length xs, m_capacity = length xs + length t\<rparr>"
    and c: "cap_ok (length xs + length t)" using vec_repE [OF assms(1)] .
  have n: "to_size n = nat n" using assms by (simp add: to_size_small)
  obtain c' where c': "grow_capacity (length xs + length t) (nat n) = Some c'" "cap_ok c'" "nat n \<le> c'"
      "length xs + length t \<le> c'"
    using grow_capacity_returns [OF c nat_le_31 [OF assms(3)]] by blast
  show ?thesis
    using c' c n v copy_up_new [of xs c' t]
    by (simp add: vec_reserve_def) (simp add: vec_rep_def)
qed


lemma vec_iter_simps [simp]:
  "it_diff (vectorIterator :: 'a iter_class) (Some i) (Some j) = to_int32 (i - j)"
  "it_eq (vectorIterator :: 'a iter_class) p q \<longleftrightarrow> p = q"
  "vec_begin v = Some 0" "vec_end v = Some (int (m_size v))"
  by (simp_all add: vec_it.eq vec_it.diff vec_begin_def vec_end_def vectorIterator_def)

lemma map_Some_split: "k \<le> length xs \<Longrightarrow> map Some xs = map Some (take k xs) @ map Some (drop k xs)"
  by (simp flip: map_append)

lemma to_size_sum: "length xs + nat n < 2 ^ 31 \<Longrightarrow> 0 \<le> n \<Longrightarrow> to_size (int (length xs) + n) = length xs + nat n"
  by (subst to_size_id) (auto simp: nat_add_distrib)

lemma insert_correct:
  assumes "vec_rep v xs" "k \<le> length xs" "0 \<le> n" "length xs + nat n < 2 ^ 31"
  shows "\<exists>v'. vec_insert_n (Some (int k)) n (Outside x) v = Some (Inr (v', Some (int k)))
    \<and> vec_rep v' (take k xs @ replicate (nat n) x @ drop k xs)"
proof -
  obtain t where v: "v = \<lparr>m_data = map Some xs @ t, m_size = length xs, m_capacity = length xs + length t\<rparr>"
    and c: "cap_ok (length xs + length t)" using vec_repE [OF assms(1)] .
  let ?p = "map Some (take k xs)" and ?q = "map Some (drop k xs)" and ?n = "nat n"
  have n: "n = int ?n" using assms(3) by simp
  have kk: "to_int32 (int k) = int k" using assms(2,4) by (simp add: to_int32_id)
  have cnt: "nat (int (length xs) - int k) = length (drop k xs)" by simp
  note tot = to_size_sum [OF assms(4,3)]
  have sp: "map Some xs = ?p @ ?q" using assms(2) by (rule map_Some_split)
  have lp: "length ?p = k" using assms(2) by simp
  show ?thesis
  proof (cases "?n \<le> length t")
    case True
    have m: "move_down (map Some xs @ t) (int (length xs)) n (length (drop k xs))
        = Inr (?p @ take ?n (?q @ take ?n t) @ ?q @ drop ?n t)"
      using move_down_cells [of ?p "drop k xs" "take ?n t" "drop ?n t"] True lp sp n assms(2)
      by (simp add: min_absorb2)
    have f: "fill_from (\<lambda>a. Inr x) (?p @ take ?n (?q @ take ?n t) @ ?q @ drop ?n t) (int k) ?n
        = Inr (?p @ replicate ?n (Some x) @ ?q @ drop ?n t)"
    proof -
      have "length (take ?n (?q @ take ?n t)) = ?n" using True by simp
      then show ?thesis
        using fill_from_cells [of "\<lambda>a. Inr x" x ?p "take ?n (?q @ take ?n t)" "?q @ drop ?n t"] lp
        by (simp only:)
    qed
    show ?thesis
      using True c unfolding vec_insert_n_def v
      by (simp add: kk tot Let_def cnt [simplified] m [simplified] f [simplified])
        (auto simp: vec_rep_def)
  next
    case False
    obtain c' where c': "grow_capacity (length xs + length t) (length xs + ?n) = Some c'" "cap_ok c'"
        "length xs + ?n \<le> c'"
      using grow_capacity_returns [OF c, of "length xs + ?n"] assms(4) by fastforce
    have d1: "copy_up (map Some xs @ t) 0 (new_array c') 0 k = Inr (?p @ replicate (c' - k) None)"
      using copy_up_new [of "take k xs" c' "?q @ t"] sp assms(2) c'(3) by (simp add: min_absorb2)
    have d2: "fill_from (\<lambda>a. Inr x) (?p @ replicate (c' - k) None) (int k) ?n
        = Inr (?p @ replicate ?n (Some x) @ replicate (c' - k - ?n) None)"
      using fill_from_prefix [of "\<lambda>a. Inr x" x ?n "replicate (c' - k) None" ?p] lp c'(3) assms(2) by simp
    have r: "replicate (c' - k - ?n) None = replicate (length xs - k) None
        @ replicate (c' - length xs - ?n) (None :: 'a option)"
      using c'(3) assms(2) by (simp flip: replicate_add)
    have d3: "copy_up (map Some xs @ t) (int k) (?p @ replicate ?n (Some x) @ replicate (c' - k - ?n) None)
          (int k + n) (length (drop k xs))
        = Inr (?p @ replicate ?n (Some x) @ ?q @ replicate (c' - length xs - ?n) None)"
      using copy_up_cells [of "replicate (length xs - k) None" "drop k xs" ?p t
          "?p @ replicate ?n (Some x)" "replicate (c' - length xs - ?n) None"] lp n sp r
      by simp
    show ?thesis
      using False c'(1,2) unfolding vec_insert_n_def v
      by (simp add: kk tot Let_def d1 [simplified] d2 [simplified] d3 [simplified] cnt [simplified])
        (use c'(3) assms(2) in \<open>auto simp: vec_rep_def\<close>)
  qed
qed

lemma erase_correct:
  assumes "vec_rep v xs" "k < length xs" "length xs < 2 ^ 31"
  shows "\<exists>v'. vec_erase (Some (int k)) v = Inr (v', Some (int k)) \<and> vec_rep v' (take k xs @ drop (Suc k) xs)"
proof -
  obtain t where v: "v = \<lparr>m_data = map Some xs @ t, m_size = length xs, m_capacity = length xs + length t\<rparr>"
    and c: "cap_ok (length xs + length t)" using vec_repE [OF assms(1)] .
  have i32: "to_int32 (int k) = int k" "to_int32 (int (length xs) - int k) = int (length xs) - int k"
    using assms(2,3) by (simp_all add: to_int32_id)
  have sz: "to_size (int (length xs) - 1) = length xs - 1" "to_size (int k) = k"
    using assms(2,3) to_size_diff [of 1 "length xs"] by simp_all
  have sp: "map Some xs = map Some (take k xs) @ [Some (xs ! k)] @ map Some (drop (Suc k) xs)"
    using assms(2) by (simp add: id_take_nth_drop flip: map_append list.map(2))
  show ?thesis
  proof (cases "length xs = Suc k")
    case True
    then obtain ys y where xs: "xs = ys @ [y]" "length ys = k" by (cases xs rule: rev_cases) auto
    show ?thesis
      using v c True i32 sz xs by (auto simp: vec_erase_def vec_rep_def)
  next
    case False
    have m: "move_up (map Some xs @ t) (int k + 1) (int k) (length xs - 1 - k)
        = Inr (map Some (take k xs) @ map Some (drop (Suc k) xs)
               @ drop (length xs - 1 - k) (Some (xs ! k) # map Some (drop (Suc k) xs)) @ t)"
      using move_up_cells [of "map Some (take k xs)" "[Some (xs ! k)]" "drop (Suc k) xs" t] sp assms(2)
      by (simp add: add.commute)
    have "length (drop (length xs - 1 - k) (Some (xs ! k) # map Some (drop (Suc k) xs))) = 1"
      using assms(2) by simp
    then show ?thesis
      using c False assms(2) unfolding vec_erase_def v
      by (simp add: i32 sz Let_def m [simplified]) (auto simp: vec_rep_def)
  qed
qed


lemma erase_range_correct:
  assumes "vec_rep v xs" "f \<le> l" "l \<le> length xs" "length xs < 2 ^ 31"
  shows "\<exists>v'. vec_erase_range ty (Some (int f)) (Some (int l)) v = Inr (v', Some (int f))
    \<and> vec_rep v' (take f xs @ drop l xs)"
proof -
  obtain t where v: "v = \<lparr>m_data = map Some xs @ t, m_size = length xs, m_capacity = length xs + length t\<rparr>"
    and c: "cap_ok (length xs + length t)" using vec_repE [OF assms(1)] .
  let ?p = "map Some (take f xs)" and ?g = "map Some (take (l - f) (drop f xs))" and ?q = "map Some (drop l xs)"
  have i32: "to_int32 (int f) = int f" "to_int32 (int l) = int l" "to_int32 (int l - int f) = int l - int f"
    using assms by (simp_all add: to_int32_id)
  have sz: "to_size (int (length xs) - int l) = length xs - l"
    "to_size (int (length xs) - (int l - int f)) = length xs - (l - f)"
    using to_size_diff [of l "length xs"] to_size_diff [of "l - f" "length xs"] assms
    by (simp_all add: of_nat_diff)
  have sp: "map Some xs = ?p @ ?g @ ?q"
  proof -
    have "take (l - f) (drop f xs) @ drop l xs = drop f xs"
      using append_take_drop_id [of "l - f" "drop f xs"] assms(2) by simp
    then show ?thesis using append_take_drop_id [of f xs] by (metis map_append)
  qed
  have lp: "length ?p = f" "length ?g = l - f" using assms(2,3) by simp_all
  let ?r = "?p @ ?q @ drop (length xs - l) (?g @ ?q) @ t"
  have "(if is_basic_type ty then memmove (map Some xs @ t) (int f) (int l) (length xs - l)
         else move_up (map Some xs @ t) (int l) (int f) (length xs - l)) = Inr ?r"
    using memmove_cells [of ?p ?g ?q t] move_up_cells [of ?p ?g "drop l xs" t] lp sp assms(2)
    by (simp add: of_nat_diff)
  moreover have "length (drop (length xs - l) (?g @ ?q)) = l - f" using assms(2,3) by simp
  ultimately show ?thesis
    using c assms(2,3) unfolding vec_erase_range_def v
    by (simp add: i32 sz Let_def) (auto simp: vec_rep_def)
qed

section \<open>The vector as a list\<close>

datatype 'a vec_op =
  Push_back 'a | Pop_back | Assign int 'a | Resize int 'a | Reserve int
| Insert int int 'a | Erase int | Erase_range int int | Clear

fun exec_op :: "elem_type \<Rightarrow> 'a vec_op \<Rightarrow> 'a vec \<Rightarrow> 'a vec result option" where
  "exec_op ty (Push_back x) v = Some (vec_push_back (Outside x) v)"
| "exec_op ty Pop_back v = Some (Inr (vec_pop_back v))"
| "exec_op ty (Assign n x) v = vec_assign n (Outside x) v"
| "exec_op ty (Resize n x) v = vec_resize n (Outside x) v"
| "exec_op ty (Reserve n) v = vec_reserve n v"
| "exec_op ty (Insert k n x) v =
     map_option (\<lambda>r. rbind r (\<lambda>(v', it). Inr v')) (vec_insert_n (padd (vec_begin v) k) n (Outside x) v)"
| "exec_op ty (Erase k) v = Some (rbind (vec_erase (padd (vec_begin v) k) v) (\<lambda>(v', it). Inr v'))"
| "exec_op ty (Erase_range f l) v =
     Some (rbind (vec_erase_range ty (padd (vec_begin v) f) (padd (vec_begin v) l) v) (\<lambda>(v', it). Inr v'))"
| "exec_op ty Clear v = Some (Inr (vec_clear v))"

fun list_op :: "'a vec_op \<Rightarrow> 'a list \<Rightarrow> 'a list" where
  "list_op (Push_back x) xs = xs @ [x]"
| "list_op Pop_back xs = butlast xs"
| "list_op (Assign n x) xs = replicate (nat n) x"
| "list_op (Resize n x) xs = take (nat n) xs @ replicate (nat n - length xs) x"
| "list_op (Reserve n) xs = xs"
| "list_op (Insert k n x) xs = take (nat k) xs @ replicate (nat n) x @ drop (nat k) xs"
| "list_op (Erase k) xs = take (nat k) xs @ drop (Suc (nat k)) xs"
| "list_op (Erase_range f l) xs = take (nat f) xs @ drop (nat l) xs"
| "list_op Clear xs = []"

fun op_pre :: "'a vec_op \<Rightarrow> 'a list \<Rightarrow> bool" where
  "op_pre (Push_back x) xs \<longleftrightarrow> length xs < 2 ^ 31 - 1"
| "op_pre Pop_back xs \<longleftrightarrow> True"
| "op_pre (Assign n x) xs \<longleftrightarrow> 0 \<le> n \<and> n < 2 ^ 31"
| "op_pre (Resize n x) xs \<longleftrightarrow> 0 \<le> n \<and> n < 2 ^ 31"
| "op_pre (Reserve n) xs \<longleftrightarrow> 0 \<le> n \<and> n < 2 ^ 31"
| "op_pre (Insert k n x) xs \<longleftrightarrow> 0 \<le> k \<and> k \<le> int (length xs) \<and> 0 \<le> n \<and> int (length xs) + n < 2 ^ 31"
| "op_pre (Erase k) xs \<longleftrightarrow> 0 \<le> k \<and> k < int (length xs)"
| "op_pre (Erase_range f l) xs \<longleftrightarrow> 0 \<le> f \<and> f \<le> l \<and> l \<le> int (length xs)"
| "op_pre Clear xs \<longleftrightarrow> True"

fun exec_ops :: "elem_type \<Rightarrow> 'a vec_op list \<Rightarrow> 'a vec \<Rightarrow> 'a vec result option" where
  "exec_ops ty [] v = Some (Inr v)"
| "exec_ops ty (p # ps) v =
     (case exec_op ty p v of None \<Rightarrow> None | Some (Inl e) \<Rightarrow> Some (Inl e) | Some (Inr v') \<Rightarrow> exec_ops ty ps v')"

fun ops_pre :: "'a vec_op list \<Rightarrow> 'a list \<Rightarrow> bool" where
  "ops_pre [] xs \<longleftrightarrow> True"
| "ops_pre (p # ps) xs \<longleftrightarrow> op_pre p xs \<and> ops_pre ps (list_op p xs)"

lemma list_op_length: "op_pre p xs \<Longrightarrow> length xs < 2 ^ 31 \<Longrightarrow> length (list_op p xs) < 2 ^ 31"
  by (cases p) auto

lemma exec_op_correct:
  assumes "vec_rep v xs" "op_pre p xs" "length xs < 2 ^ 31"
  shows "\<exists>v'. exec_op ty p v = Some (Inr v') \<and> vec_rep v' (list_op p xs)"
proof (cases p)
  case (Push_back x)
  then show ?thesis using push_back_correct [OF assms(1,3), of x] by simp
next
  case Pop_back
  then show ?thesis using pop_back_correct [OF assms(1)] by simp
next
  case (Assign n x)
  then show ?thesis using assign_correct [OF assms(1), of n x] assms(2) by simp
next
  case (Resize n x)
  then show ?thesis using resize_correct [OF assms(1), of n x] assms(2) by simp
next
  case (Reserve n)
  then show ?thesis using reserve_correct [OF assms(1), of n] assms(2) by auto
next
  case (Insert k n x)
  then show ?thesis
    using insert_correct [OF assms(1), of "nat k" n x] assms(2) by (force simp: nat_le_iff)
next
  case (Erase k)
  then show ?thesis
    using erase_correct [OF assms(1) _ assms(3), of "nat k"] assms(2) by (force simp: nat_less_iff)
next
  case (Erase_range f l)
  then show ?thesis
    using erase_range_correct [OF assms(1) _ _ assms(3), of "nat f" "nat l" ty] assms(2)
    by (force simp: nat_le_iff nat_mono)
next
  case Clear
  then show ?thesis using clear_correct [OF assms(1)] by simp
qed

lemma exec_ops_correct:
  "vec_rep v xs \<Longrightarrow> ops_pre ps xs \<Longrightarrow> length xs < 2 ^ 31 \<Longrightarrow>
   \<exists>v'. exec_ops ty ps v = Some (Inr v') \<and> vec_rep v' (fold list_op ps xs)"
proof (induction ps arbitrary: v xs)
  case (Cons p ps)
  obtain v1 where v1: "exec_op ty p v = Some (Inr v1)" "vec_rep v1 (list_op p xs)"
    using exec_op_correct Cons.prems by (metis ops_pre.simps(2))
  then show ?case using Cons.IH [OF v1(2)] Cons.prems list_op_length by auto
qed simp


section \<open>Properties\<close>

definition vec_reads :: "'a vec \<Rightarrow> 'a list \<Rightarrow> bool" where
  "vec_reads v xs \<longleftrightarrow> vec_size v = int (length xs) \<and> (vec_empty v \<longleftrightarrow> xs = [])
     \<and> (\<forall>i \<in> {- (2 ^ 31) ..< 2 ^ 31}. vec_at i v
          = (if 0 \<le> i \<and> i < int (length xs) then Inr i else Inl Out_Of_Range))
     \<and> (\<forall>i < length xs. aget (vec_data v) (int i) = Inr (xs ! i))"

lemma vec_rep_reads:
  assumes "vec_rep v xs" "length xs < 2 ^ 31"
  shows "vec_reads v xs"
  unfolding vec_reads_def
proof (intro conjI allI ballI impI)
  obtain t where v: "v = \<lparr>m_data = map Some xs @ t, m_size = length xs, m_capacity = length xs + length t\<rparr>"
    using vec_repE [OF assms(1)] .
  show "vec_size v = int (length xs)" "vec_empty v \<longleftrightarrow> xs = []"
    using v assms(2) by (simp_all add: vec_size_def vec_empty_def to_int32_id)
  show "aget (vec_data v) (int i) = Inr (xs ! i)" if "i < length xs" for i
    using v that by (simp add: vec_data_def aget_nth)
  show "vec_at i v = (if 0 \<le> i \<and> i < int (length xs) then Inr i else Inl Out_Of_Range)"
    if "i \<in> {- (2 ^ 31) ..< 2 ^ 31}" for i
    using that v by (cases "i < 0") (auto simp: vec_at_def to_size_small)
qed

text \<open>C27: Any sequence of operations with sensible arguments, run on a new vector, returns without
  error and leaves the vector holding exactly the list that the same operations compute on lists;
  its size, bounds check and cells are those of that list.\<close>

theorem vector_refines_list:
  assumes "ops_pre ps []"
  shows "\<exists>v. exec_ops ty ps vec_new = Some (Inr v) \<and> vec_reads v (fold list_op ps [])
    \<and> m_size v \<le> m_capacity v"
proof -
  obtain v where v: "exec_ops ty ps vec_new = Some (Inr v)" "vec_rep v (fold list_op ps [])"
    using exec_ops_correct [OF vec_new_rep assms] by auto
  have "length (fold list_op ps []) < 2 ^ 31"
  proof -
    have "ops_pre ps xs \<Longrightarrow> length xs < 2 ^ 31 \<Longrightarrow> length (fold list_op ps xs) < 2 ^ 31" for xs :: "'a list"
      by (induction ps arbitrary: xs) (auto dest: list_op_length)
    then show ?thesis using assms by simp
  qed
  with v show ?thesis using vec_rep_reads by (auto simp: vec_rep_def)
qed

theorem vector_refines_list_witness:
  "\<exists>v. exec_ops Ty_int [Push_back 1, Push_back 2, Insert 1 2 7, Erase 0, Erase_range 0 1] vec_new = Some (Inr v)
     \<and> vec_reads v [7, 2 :: nat]"
proof -
  let ?ps = "[Push_back 1, Push_back 2, Insert 1 2 7, Erase 0, Erase_range 0 1] :: nat vec_op list"
  have "ops_pre ?ps []" by simp
  moreover have "fold list_op ?ps [] = [7, 2]" by (simp add: numeral_2_eq_2)
  ultimately show ?thesis using vector_refines_list [of ?ps Ty_int] by auto
qed

text \<open>With a negative count \<^verbatim>\<open>assign\<close>, \<^verbatim>\<open>resize\<close> and \<^verbatim>\<open>reserve\<close> never return: the count becomes a
  \<^verbatim>\<open>size_t\<close> above \<open>2 ^ 63\<close>, which no doubled capacity reaches before it wraps to 0.\<close>

theorem negative_count_never_returns:
  assumes "vec_rep v xs" "- (2 ^ 31) \<le> n" "n < 0"
  shows "vec_assign n value v = None \<and> vec_resize n value v = None \<and> vec_reserve n v = None"
proof -
  have big: "2 ^ 63 < to_size n" using to_size_negative [OF assms(2,3)] assms(2) by simp
  have cap: "cap_ok (m_capacity v)" "m_capacity v \<le> 2 ^ 31" "m_size v \<le> 2 ^ 31"
    using assms(1) vec_rep_length [OF assms(1)] cap_ok_le by (auto simp: vec_rep_def)
  have "grow_capacity (m_capacity v) (to_size n) = None" "grow_capacity 0 (to_size n) = None"
    using big cap(1) cap_ok_0 by (auto intro: grow_capacity_diverges cap_ok_wide)
  with big cap(2,3) show ?thesis
    by (simp add: vec_assign_def vec_resize_def vec_reserve_def)
qed

theorem negative_count_never_returns_witness:
  "vec_resize (- 1) (Outside 5) (vec_new :: nat vec) = None"
  using negative_count_never_returns [OF vec_new_rep, of "- 1" "Outside (5 :: nat)"] by simp

text \<open>\<^verbatim>\<open>v.push_back(v[i])\<close> appends the element while there is room, but reads it from the deleted
  array when the vector is full.\<close>

theorem push_back_own_element:
  assumes "vec_rep v xs" "i < length xs" "length xs < 2 ^ 31"
  shows "if m_size v < m_capacity v
    then \<exists>v'. vec_push_back (Own i) v = Inr v' \<and> vec_rep v' (xs @ [xs ! i])
    else vec_push_back (Own i) v = Inl Dangling"
proof -
  obtain t where v: "v = \<lparr>m_data = map Some xs @ t, m_size = length xs, m_capacity = length xs + length t\<rparr>"
    and c: "cap_ok (length xs + length t)" using vec_repE [OF assms(1)] .
  show ?thesis
  proof (cases "m_size v < m_capacity v")
    case True
    then have "vec_push_back (Own i) v = vec_push_back (Outside (xs ! i)) v"
      using v assms(2) by (simp add: vec_push_back_def load_arg_def aget_nth)
    then show ?thesis using True push_back_correct [OF assms(1,3), of "xs ! i"] by simp
  next
    case False
    then have "length xs \<le> next_capacity (length xs)"
      using next_capacity_cap_ok [of "length xs"] c v assms(3) by simp
    then show ?thesis
      using False v copy_up_new [of xs "next_capacity (length xs)" "[]"]
      by (simp add: vec_push_back_def load_freed_def Let_def)
  qed
qed

theorem push_back_own_element_witness:
  "vec_push_back (Own 0) \<lparr>m_data = [Some (3 :: nat)], m_size = 1, m_capacity = 1\<rparr> = Inl Dangling"
  using push_back_own_element [of "\<lparr>m_data = [Some 3], m_size = 1, m_capacity = 1\<rparr>" "[3 :: nat]" 0]
  by (simp add: vec_rep_def cap_ok_def exI [of _ 0])

text \<open>The loops from \<^verbatim>\<open>begin()\<close> to \<^verbatim>\<open>end()\<close> and from \<^verbatim>\<open>rbegin()\<close> to \<^verbatim>\<open>rend()\<close> end and print the elements
  forwards and backwards; the distance of two reverse iterators has the wrong sign, \<^verbatim>\<open>rend() - rbegin()\<close>
  is minus the size.\<close>

theorem vector_iteration:
  assumes "vec_rep v xs" "length xs < 2 ^ 31"
  shows "print_range vectorIterator (m_data v) (Suc (length xs)) (vec_begin v) (vec_end v) = Some (Inr xs)
    \<and> print_range vectorConstIterator (m_data v) (Suc (length xs)) (vec_cbegin v) (vec_cend v) = Some (Inr xs)
    \<and> print_range vectorReserveIterator (m_data v) (Suc (length xs)) (vec_rbegin v) (vec_rend v)
        = Some (Inr (rev xs))
    \<and> it_diff (vectorIterator :: 'a iter_class) (vec_end v) (vec_begin v) = int (length xs)
    \<and> it_diff (vectorReserveIterator :: 'a iter_class) (vec_rend v) (vec_rbegin v) = - int (length xs)"
proof -
  obtain t where v: "v = \<lparr>m_data = map Some xs @ t, m_size = length xs, m_capacity = length xs + length t\<rparr>"
    using vec_repE [OF assms(1)] .
  have cells: "aget (m_data v) (int k) = Inr (xs ! k)" if "k < length xs" for k
    using v that by (simp add: aget_nth)
  have rcells: "aget (m_data v) (int (length xs) - 1 - int k) = Inr (rev xs ! k)" if "k < length xs" for k
    using cells [of "length xs - 1 - k"] that by (simp add: rev_nth of_nat_diff algebra_simps)
  have ends: "vec_end v = Some (0 + 1 * int (length xs))" "vec_cbegin v = Some 0"
    "vec_cend v = Some (0 + 1 * int (length xs))" "vec_rbegin v = Some (int (length xs) - 1)"
    "vec_rend v = Some (int (length xs) - 1 + - 1 * int (length (rev xs)))"
    using v by (simp_all add: vec_cbegin_def vec_cend_def vec_rbegin_def vec_rend_def vectorConstIterator_def vectorReserveIterator_def)
  show ?thesis
    using vec_it.print_cells [of xs "m_data v" 0 "Suc (length xs)"]
      vec_cit.print_cells [of xs "m_data v" 0 "Suc (length xs)"]
      vec_rit.print_cells [of "rev xs" "m_data v" "int (length xs) - 1" "Suc (length xs)"]
      vec_it.distance [of "int (length xs)" 0] vec_rit.distance [of "int (length xs)" "int (length xs) - 1"]
      cells rcells assms(2)
    unfolding ends by (simp add: vec_it.plus vec_rit.plus)
qed

theorem vector_iteration_witness:
  "print_range vectorReserveIterator [Some 5, Some 6] (Suc (length [5, 6 :: nat])) (Some 1) (Some (- 1)) = Some (Inr [6, 5 :: nat])"
proof -
  let ?v = "\<lparr>m_data = [Some 5, Some 6], m_size = 2, m_capacity = 2\<rparr> :: nat vec"
  have "vec_rep ?v [5, 6]" by (auto simp: vec_rep_def cap_ok_def intro: exI [of _ 1])
  moreover have "vec_rbegin ?v = Some 1" "vec_rend ?v = Some (- 1)"
    by (simp_all add: vec_rbegin_def vec_rend_def vectorReserveIterator_def)
  ultimately show ?thesis
    using conjunct1 [OF conjunct2 [OF conjunct2 [OF vector_iteration [of ?v "[5, 6]"]]]]
    by (simp del: print_range.simps)
qed

end
