(* ===== verification/FixedArray.thy ===== *)
theory FixedArray
  imports Iterators
begin

text \<open>
  The container \<^verbatim>\<open>Array<T, N>\<close> of \<^verbatim>\<open>array/\<close>: the member \<^verbatim>\<open>T m_data[N]\<close> is the list of its \<open>N\<close> cells.
  References that are returned are indices of cells.
\<close>

type_synonym 'a array = "'a option list"

text \<open>\<^verbatim>\<open>memset(m_data, 0, sizeof(T) * N)\<close>; \<open>zero\<close> is the value whose bytes are all 0.\<close>

definition Array :: "nat \<Rightarrow> 'a \<Rightarrow> 'a array" where
  "Array n zero = replicate n (Some zero)"

definition array_size :: "'a array \<Rightarrow> int" where
  "array_size a = to_int32 (int (length a))"

definition array_empty :: "'a array \<Rightarrow> bool" where
  "array_empty a \<longleftrightarrow> length a = 0"

definition array_data :: "'a array \<Rightarrow> 'a array" where
  "array_data a = a"

text \<open>\<^verbatim>\<open>for(int i = 0; i < N; i++){ T temp = other[i]; other[i] = m_data[i]; m_data[i] = temp; }\<close>\<close>

fun swap_loop :: "int \<Rightarrow> nat \<Rightarrow> 'a array \<Rightarrow> 'a array \<Rightarrow> ('a array \<times> 'a array) result" where
  "swap_loop i 0 a other = Inr (a, other)"
| "swap_loop i (Suc n) a other =
     rbind (aget other i) (\<lambda>temp. rbind (aget a i) (\<lambda>x. rbind (aput other i x) (\<lambda>other'.
     rbind (aput a i temp) (\<lambda>a'. swap_loop (i + 1) n a' other'))))"

definition array_swap :: "'a array \<Rightarrow> 'a array \<Rightarrow> ('a array \<times> 'a array) result" where
  "array_swap a other = swap_loop 0 (length a) a other"

definition array_fill :: "'a \<Rightarrow> 'a array \<Rightarrow> 'a array result" where
  "array_fill v a = fill_up a 0 v (length a)"

definition array_front :: "'a array \<Rightarrow> int" where
  "array_front a = 0"

definition array_back :: "'a array \<Rightarrow> int" where
  "array_back a = int (length a) - 1"

definition array_at :: "int \<Rightarrow> 'a array \<Rightarrow> int result" where
  "array_at index a = (if length a \<le> to_size index \<or> index < 0 then Inl Out_Of_Range else Inr index)"

definition array_index :: "int \<Rightarrow> 'a array \<Rightarrow> int" where
  "array_index index a = index"

definition array_begin :: "'a array \<Rightarrow> iter" where
  "array_begin a = it_from (arrayIterator :: 'a iter_class) (Some 0)"

definition array_end :: "'a array \<Rightarrow> iter" where
  "array_end a = it_from (arrayIterator :: 'a iter_class) (Some (int (length a)))"

definition array_cbegin :: "'a array \<Rightarrow> iter" where
  "array_cbegin a = it_from (arrayConstIterator :: 'a iter_class) (Some 0)"

definition array_cend :: "'a array \<Rightarrow> iter" where
  "array_cend a = it_from (arrayConstIterator :: 'a iter_class) (Some (int (length a)))"

definition array_rbegin :: "'a array \<Rightarrow> iter" where
  "array_rbegin a = it_from (arrayReserveIterator :: 'a iter_class) (Some (int (length a) - 1))"

definition array_rend :: "'a array \<Rightarrow> iter" where
  "array_rend a = it_from (arrayReserveIterator :: 'a iter_class) (Some (- 1))"

lemma swap_loop_cells:
  "length xs = length ys \<Longrightarrow> length p = length q \<Longrightarrow>
   swap_loop (int (length p)) (length xs) (p @ map Some xs) (q @ map Some ys)
   = Inr (p @ map Some ys, q @ map Some xs)"
proof (induction xs arbitrary: ys p q)
  case (Cons x xs)
  then obtain y ys' where ys: "ys = y # ys'" "length xs = length ys'" by (cases ys) auto
  show ?case
    using Cons.IH [OF ys(2), of "p @ [Some y]" "q @ [Some x]"] Cons.prems(2) ys(1)
    by (simp add: add.commute)
qed simp

text \<open>\<^verbatim>\<open>swap\<close> exchanges the contents of two arrays and \<^verbatim>\<open>fill\<close> stores its argument in every cell; the
  loops over \<^verbatim>\<open>begin()\<close>..\<^verbatim>\<open>end()\<close> and \<^verbatim>\<open>rbegin()\<close>..\<^verbatim>\<open>rend()\<close> print the elements forwards and backwards;
  \<^verbatim>\<open>at\<close> throws exactly for the indices outside the array, where \<^verbatim>\<open>operator[]\<close> gives a reference out
  of bounds.\<close>

theorem array_operations:
  assumes "length xs = length ys" "length xs < 2 ^ 31" "- (2 ^ 31) \<le> i" "i < 2 ^ 31"
  shows "array_swap (map Some xs) (map Some ys) = Inr (map Some ys, map Some xs)
    \<and> array_fill v (map Some xs) = Inr (Array (length xs) v)
    \<and> print_range arrayIterator (map Some xs) (Suc (length xs))
        (array_begin (map Some xs)) (array_end (map Some xs)) = Some (Inr xs)
    \<and> print_range arrayReserveIterator (map Some xs) (Suc (length xs))
        (array_rbegin (map Some xs)) (array_rend (map Some xs)) = Some (Inr (rev xs))
    \<and> (array_at i (map Some xs) = Inl Out_Of_Range \<longleftrightarrow>
       aget (map Some xs) (array_index i (map Some xs)) = Inl Out_Of_Bounds)"
proof (intro conjI)
  let ?a = "map Some xs"
  show "array_swap ?a (map Some ys) = Inr (map Some ys, ?a)"
    using swap_loop_cells [of xs ys "[]" "[]"] assms(1) by (simp add: array_swap_def)
  show "array_fill v ?a = Inr (Array (length xs) v)"
    using fill_up_cells [of "[]" ?a "[]" v] by (simp add: array_fill_def Array_def)
  have cells: "aget ?a (int k) = Inr (xs ! k)" if "k < length xs" for k
    using that aget_nth [of k xs "[]"] by simp
  show "print_range arrayIterator ?a (Suc (length xs)) (array_begin ?a) (array_end ?a) = Some (Inr xs)"
    using arr_it.print_cells [of xs ?a 0 "Suc (length xs)"] cells
    by (simp add: array_begin_def array_end_def arrayIterator_def)
  have rcells: "aget ?a (int (length xs) - 1 - int k) = Inr (rev xs ! k)" if "k < length xs" for k
    using cells [of "length xs - 1 - k"] that by (simp add: rev_nth of_nat_diff algebra_simps)
  show "print_range arrayReserveIterator ?a (Suc (length xs)) (array_rbegin ?a) (array_rend ?a)
      = Some (Inr (rev xs))"
    using arr_rit.print_cells [of "rev xs" ?a "int (length xs) - 1" "Suc (length xs)"] rcells
    by (simp add: array_rbegin_def array_rend_def arrayReserveIterator_def)
  show "array_at i ?a = Inl Out_Of_Range \<longleftrightarrow> aget ?a (array_index i ?a) = Inl Out_Of_Bounds"
    using assms(3,4) to_size_id [of i] by (auto simp: array_at_def array_index_def aget_def nth_map)
qed

theorem array_operations_witness:
  "array_swap [Some 1, Some 2] [Some 3, Some 4] = Inr ([Some 3, Some 4], [Some 1, Some (2 :: nat)])"
  using conjunct1 [OF array_operations [of "[1, 2]" "[3, 4 :: nat]" 0 5]] by simp

end
