(* ===== verification/LinkedList.thy ===== *)
theory LinkedList
  imports Prelude
begin

text \<open>
  The doubly linked \<^verbatim>\<open>List\<close> of \<^verbatim>\<open>list/\<close> with its nodes on the heap.

  A pointer to a node is an address or \<open>None\<close>, the null pointer.  \<^verbatim>\<open>new\<close> takes an address that was
  never used before, \<^verbatim>\<open>delete\<close> empties it, so every use of a node after its \<^verbatim>\<open>delete\<close> is \<open>Dangling\<close>
  and every use of the null pointer is \<open>Null_Deref\<close>.  A \<^verbatim>\<open>ListIterator\<close> is its \<^verbatim>\<open>m_pointer\<close>.  A loop over
  the nodes that never ends is the value \<open>None\<close>.  \<^verbatim>\<open>m_size\<close> is an \<^verbatim>\<open>int\<close>: a size that does not fit is
  \<open>Signed_Overflow\<close>.  Parameters of type \<^verbatim>\<open>const T &\<close> are copied into a node before anything else happens, except
  in \<^verbatim>\<open>assign\<close> and \<^verbatim>\<open>remove\<close>, which read them after having deleted nodes; there an argument is a value from
  outside or the value in a node.  The predicate \<open>list_rep l h ns\<close> says that the list
  \<open>l\<close> consists of the nodes \<open>ns\<close> (addresses and values, in order), linked in both directions.
\<close>

section \<open>Nodes on the heap\<close>

record 'a node =
  m_value :: 'a
  m_prev :: "nat option"
  m_next :: "nat option"

record 'a heap =
  cell :: "nat \<Rightarrow> 'a node option"
  brk :: nat

definition new_node :: "'a \<Rightarrow> 'a heap \<Rightarrow> nat \<times> 'a heap" where
  "new_node v h = (brk h, h\<lparr>cell := (cell h)(brk h \<mapsto> \<lparr>m_value = v, m_prev = None, m_next = None\<rparr>),
                            brk := Suc (brk h)\<rparr>)"

definition load :: "nat option \<Rightarrow> 'a heap \<Rightarrow> 'a node result" where
  "load p h = (case p of None \<Rightarrow> Inl Null_Deref
     | Some a \<Rightarrow> (case cell h a of None \<Rightarrow> Inl Dangling | Some n \<Rightarrow> Inr n))"

definition update :: "nat option \<Rightarrow> ('a node \<Rightarrow> 'a node) \<Rightarrow> 'a heap \<Rightarrow> 'a heap result" where
  "update p f h = (case p of None \<Rightarrow> Inl Null_Deref
     | Some a \<Rightarrow> (case cell h a of None \<Rightarrow> Inl Dangling
                   | Some n \<Rightarrow> Inr (h\<lparr>cell := (cell h)(a \<mapsto> f n)\<rparr>)))"

definition set_next :: "nat option \<Rightarrow> nat option \<Rightarrow> 'a heap \<Rightarrow> 'a heap result" where
  "set_next p q h = update p (\<lambda>n. n\<lparr>m_next := q\<rparr>) h"

definition set_prev :: "nat option \<Rightarrow> nat option \<Rightarrow> 'a heap \<Rightarrow> 'a heap result" where
  "set_prev p q h = update p (\<lambda>n. n\<lparr>m_prev := q\<rparr>) h"

definition delete :: "nat option \<Rightarrow> 'a heap \<Rightarrow> 'a heap result" where
  "delete p h = (case p of None \<Rightarrow> Inr h
     | Some a \<Rightarrow> (case cell h a of None \<Rightarrow> Inl Dangling
                   | Some n \<Rightarrow> Inr (h\<lparr>cell := (cell h)(a := None)\<rparr>)))"

section \<open>The list\<close>

record dlist =
  m_head :: "nat option"
  m_tail :: "nat option"
  m_size :: int

text \<open>\<^verbatim>\<open>m_size += n\<close>\<close>

definition grow_size :: "int \<Rightarrow> dlist \<Rightarrow> dlist result" where
  "grow_size n l = (if m_size l + n \<le> INT_MAX then Inr (l\<lparr>m_size := m_size l + n\<rparr>) else Inl Signed_Overflow)"

text \<open>A \<^verbatim>\<open>const T &\<close>: a value outside of the list, or the value of a node\<close>

datatype 'a arg = Outside 'a | In_Node nat

fun arg_value :: "'a arg \<Rightarrow> 'a heap \<Rightarrow> 'a result" where
  "arg_value (Outside v) h = Inr v"
| "arg_value (In_Node a) h = rbind (load (Some a) h) (\<lambda>n. Inr (m_value n))"

type_synonym 'a lst = "dlist \<times> 'a heap"

definition List_new :: dlist where
  "List_new = \<lparr>m_head = None, m_tail = None, m_size = 0\<rparr>"

definition list_empty :: "dlist \<Rightarrow> bool" where
  "list_empty l \<longleftrightarrow> m_size l = 0"

definition list_size :: "dlist \<Rightarrow> int" where
  "list_size l = m_size l"

definition list_front :: "'a lst \<Rightarrow> 'a result" where
  "list_front s = (case s of (l, h) \<Rightarrow>
     if m_size l = 0 then Inl Out_Of_Range else rbind (load (m_head l) h) (\<lambda>n. Inr (m_value n)))"

definition list_back :: "'a lst \<Rightarrow> 'a result" where
  "list_back s = (case s of (l, h) \<Rightarrow>
     if m_size l = 0 then Inl Out_Of_Range else rbind (load (m_tail l) h) (\<lambda>n. Inr (m_value n)))"

definition push_front :: "'a \<Rightarrow> 'a lst \<Rightarrow> 'a lst result" where
  "push_front v s = (case s of (l, h) \<Rightarrow> (case new_node v h of (a, h1) \<Rightarrow>
     if m_size l = 0 then Inr (l\<lparr>m_head := Some a, m_tail := Some a, m_size := m_size l + 1\<rparr>, h1)
     else rbind (set_prev (m_head l) (Some a) h1) (\<lambda>h2.
          rbind (set_next (Some a) (m_head l) h2) (\<lambda>h3.
          rbind (grow_size 1 l) (\<lambda>l1. Inr (l1\<lparr>m_head := Some a\<rparr>, h3))))))"

definition pop_front :: "'a lst \<Rightarrow> 'a lst result" where
  "pop_front s = (case s of (l, h) \<Rightarrow>
     if m_size l = 0 then Inr (l, h)
     else if m_size l = 1 then
       rbind (delete (m_head l) h) (\<lambda>h1.
       Inr (l\<lparr>m_head := None, m_tail := None, m_size := m_size l - 1\<rparr>, h1))
     else
       rbind (load (m_head l) h) (\<lambda>n. let head = m_next n in
       rbind (set_prev head None h) (\<lambda>h1.
       rbind (delete head h1) (\<lambda>h2.
       Inr (l\<lparr>m_head := head, m_size := m_size l - 1\<rparr>, h2)))))"

definition push_back :: "'a \<Rightarrow> 'a lst \<Rightarrow> 'a lst result" where
  "push_back v s = (case s of (l, h) \<Rightarrow> (case new_node v h of (a, h1) \<Rightarrow>
     if m_size l = 0 then Inr (l\<lparr>m_head := Some a, m_tail := Some a, m_size := m_size l + 1\<rparr>, h1)
     else rbind (set_next (m_tail l) (Some a) h1) (\<lambda>h2.
          rbind (set_prev (Some a) (m_tail l) h2) (\<lambda>h3.
          rbind (grow_size 1 l) (\<lambda>l1. Inr (l1\<lparr>m_tail := Some a\<rparr>, h3))))))"

definition pop_back :: "'a lst \<Rightarrow> 'a lst result" where
  "pop_back s = (case s of (l, h) \<Rightarrow>
     if m_size l = 0 then Inr (l, h)
     else if m_size l = 1 then
       rbind (delete (m_head l) h) (\<lambda>h1.
       Inr (l\<lparr>m_head := None, m_tail := None, m_size := m_size l - 1\<rparr>, h1))
     else
       rbind (load (m_tail l) h) (\<lambda>n. let tail = m_prev n in
       rbind (set_next tail None h) (\<lambda>h1.
       rbind (delete (m_tail l) h1) (\<lambda>h2.
       Inr (l\<lparr>m_tail := tail, m_size := m_size l - 1\<rparr>, h2)))))"

text \<open>\<^verbatim>\<open>while(m_size > 0) pop_back();\<close> every turn takes one off \<^verbatim>\<open>m_size\<close>, so \<open>m_size\<close> turns are enough.\<close>

fun clear_loop :: "nat \<Rightarrow> 'a lst \<Rightarrow> 'a lst result" where
  "clear_loop 0 s = Inr s"
| "clear_loop (Suc n) s = (if 0 < m_size (fst s) then rbind (pop_back s) (clear_loop n) else Inr s)"

definition list_clear :: "'a lst \<Rightarrow> 'a lst result" where
  "list_clear s = clear_loop (nat (m_size (fst s))) s"

fun repeat :: "nat \<Rightarrow> ('a lst \<Rightarrow> 'a lst result) \<Rightarrow> 'a lst \<Rightarrow> 'a lst result" where
  "repeat 0 f s = Inr s"
| "repeat (Suc n) f s = rbind (f s) (repeat n f)"

text \<open>\<^verbatim>\<open>value\<close> is read in every turn, after the list was cleared.\<close>

definition list_assign :: "int \<Rightarrow> 'a arg \<Rightarrow> 'a lst \<Rightarrow> 'a lst result" where
  "list_assign n value s =
     rbind (list_clear s) (repeat (nat n) (\<lambda>s'. rbind (arg_value value (snd s')) (\<lambda>v. push_back v s')))"

section \<open>Iterators\<close>

definition list_begin :: "dlist \<Rightarrow> nat option" where
  "list_begin l = m_head l"

text \<open>The default constructor leaves \<^verbatim>\<open>m_pointer\<close> uninitialised.\<close>

definition list_end :: "'a lst \<Rightarrow> nat option result" where
  "list_end s = (case s of (l, h) \<Rightarrow>
     if m_size l = 0 then Inl Uninitialised else rbind (load (m_tail l) h) (\<lambda>n. Inr (m_next n)))"

definition it_eq :: "nat option \<Rightarrow> nat option \<Rightarrow> bool" where
  "it_eq p q \<longleftrightarrow> p = q"

definition it_ne :: "nat option \<Rightarrow> nat option \<Rightarrow> bool" where
  "it_ne p q \<longleftrightarrow> p \<noteq> q"

definition it_assign :: "nat option \<Rightarrow> nat option \<Rightarrow> nat option" where
  "it_assign p q = (if p = q then p else q)"

definition it_inc :: "nat option \<Rightarrow> 'a heap \<Rightarrow> nat option result" where
  "it_inc p h = rbind (load p h) (\<lambda>n. Inr (m_next n))"

definition it_post_inc :: "nat option \<Rightarrow> 'a heap \<Rightarrow> (nat option \<times> nat option) result" where
  "it_post_inc p h = rbind (it_inc p h) (\<lambda>q. Inr (q, p))"

definition it_dec :: "nat option \<Rightarrow> 'a heap \<Rightarrow> nat option result" where
  "it_dec p h = rbind (load p h) (\<lambda>n. Inr (m_prev n))"

definition it_post_dec :: "nat option \<Rightarrow> 'a heap \<Rightarrow> (nat option \<times> nat option) result" where
  "it_post_dec p h = rbind (it_dec p h) (\<lambda>q. Inr (q, p))"

fun steps :: "nat \<Rightarrow> (nat option \<Rightarrow> nat option result) \<Rightarrow> nat option \<Rightarrow> nat option result" where
  "steps 0 f p = Inr p"
| "steps (Suc n) f p = rbind (f p) (steps n f)"

definition it_plus :: "nat option \<Rightarrow> int \<Rightarrow> 'a heap \<Rightarrow> nat option result" where
  "it_plus p n h = steps (nat n) (\<lambda>q. it_inc q h) p"

definition it_minus :: "nat option \<Rightarrow> int \<Rightarrow> 'a heap \<Rightarrow> nat option result" where
  "it_minus p n h = steps (nat n) (\<lambda>q. it_dec q h) p"

definition it_deref :: "nat option \<Rightarrow> 'a heap \<Rightarrow> 'a result" where
  "it_deref p h = rbind (load p h) (\<lambda>n. Inr (m_value n))"

partial_function (option) display_loop :: "nat option \<Rightarrow> 'a heap \<Rightarrow> 'a list \<Rightarrow> 'a list result option" where
  "display_loop p h out =
     (if p \<noteq> None then
        (case load p h of Inl e \<Rightarrow> Some (Inl e)
         | Inr n \<Rightarrow> display_loop (m_next n) h (out @ [m_value n]))
      else Some (Inr out))"

definition list_display :: "'a lst \<Rightarrow> 'a list result option" where
  "list_display s = display_loop (m_head (fst s)) (snd s) []"

partial_function (option) find_loop :: "'a \<Rightarrow> nat option \<Rightarrow> 'a heap \<Rightarrow> nat option result option" where
  "find_loop v node h =
     (if node \<noteq> None then
        (case load node h of Inl e \<Rightarrow> Some (Inl e)
         | Inr n \<Rightarrow> if m_value n = v then Some (Inr node) else find_loop v (m_next n) h)
      else Some (Inr None))"

definition list_find :: "'a \<Rightarrow> 'a lst \<Rightarrow> nat option result option" where
  "list_find v s = find_loop v (m_head (fst s)) (snd s)"

text \<open>The loop of \<^verbatim>\<open>insert\<close> for a position inside the list\<close>

fun insert_loop :: "nat \<Rightarrow> 'a \<Rightarrow> nat option \<Rightarrow> 'a heap \<Rightarrow> (nat option \<times> 'a heap) result" where
  "insert_loop 0 v pos h = Inr (pos, h)"
| "insert_loop (Suc n) v pos h =
     (case new_node v h of (node, h1) \<Rightarrow>
        rbind (load pos h1) (\<lambda>x. let prev = m_prev x in
        rbind (set_prev (Some node) prev h1) (\<lambda>h2.
        rbind (set_next prev (Some node) h2) (\<lambda>h3.
        rbind (set_next (Some node) pos h3) (\<lambda>h4.
        rbind (set_prev pos (Some node) h4) (\<lambda>h5.
        insert_loop n v (Some node) h5))))))"

definition insert_n :: "nat option \<Rightarrow> int \<Rightarrow> 'a \<Rightarrow> 'a lst \<Rightarrow> ('a lst \<times> nat option) result" where
  "insert_n pos n v s =
     (if pos = list_begin (fst s) then
        rbind (repeat (nat n) (push_front v) s) (\<lambda>s'. Inr (s', list_begin (fst s')))
      else rbind (list_end s) (\<lambda>e.
        if pos = e then
          (let tail = m_tail (fst s) in
           rbind (repeat (nat n) (push_back v) s) (\<lambda>s'. Inr (s', tail)))
        else rbind (insert_loop (nat n) v pos (snd s)) (\<lambda>(pos', h).
           rbind (grow_size n (fst s)) (\<lambda>l. Inr ((l, h), pos')))))"

text \<open>\<^verbatim>\<open>insert(pos, value)\<close> has no \<^verbatim>\<open>return\<close>.\<close>

definition insert_one :: "nat option \<Rightarrow> 'a \<Rightarrow> 'a lst \<Rightarrow> ('a lst \<times> nat option result) result" where
  "insert_one pos v s = rbind (insert_n pos 1 v s) (\<lambda>(s', it). Inr (s', Inl Uninitialised))"

definition list_erase :: "nat option \<Rightarrow> 'a lst \<Rightarrow> ('a lst \<times> nat option) result" where
  "list_erase pos s = (case s of (l, h) \<Rightarrow>
     if pos = list_begin l then
       (let node = m_head l in
        if 1 < m_size l then
          rbind (load (m_head l) h) (\<lambda>n. let head = m_next n in
          rbind (set_prev head None h) (\<lambda>h1.
          rbind (delete node h1) (\<lambda>h2.
          Inr ((l\<lparr>m_head := head, m_size := m_size l - 1\<rparr>, h2), head))))
        else
          rbind (delete (m_head l) h) (\<lambda>h1.
          Inr ((l\<lparr>m_head := None, m_tail := None, m_size := m_size l - 1\<rparr>, h1), None)))
     else rbind (list_end s) (\<lambda>e.
       if pos = e then Inr (s, pos)
       else
         rbind (load pos h) (\<lambda>n.
         rbind (if m_prev n \<noteq> None then set_next (m_prev n) (m_next n) h else Inr h) (\<lambda>h1.
         rbind (if m_next n \<noteq> None then set_prev (m_next n) (m_prev n) h1 else Inr h1) (\<lambda>h2.
         rbind (load pos h2) (\<lambda>n2. let next' = m_next n2 in
         rbind (delete pos h2) (\<lambda>h3.
         Inr ((l\<lparr>m_size := m_size l - 1\<rparr>, h3), next'))))))))"

partial_function (option) erase_range ::
  "nat option \<Rightarrow> nat option \<Rightarrow> 'a lst \<Rightarrow> ('a lst \<times> nat option) result option" where
  "erase_range it stop s =
     (if it_ne it stop then
        (case list_erase it s of Inl e \<Rightarrow> Some (Inl e)
         | Inr (s', r) \<Rightarrow>
             (case it_post_inc it (snd s') of Inl e \<Rightarrow> Some (Inl e)
              | Inr (it', r') \<Rightarrow> erase_range it' stop s'))
      else Some (Inr (s, stop)))"

section \<open>Operations on whole lists\<close>

text \<open>The first loop of \<^verbatim>\<open>remove\<close>; the statement \<^verbatim>\<open>node -> m_prev == nullptr;\<close> is a comparison.\<close>

partial_function (option) remove_front :: "'a arg \<Rightarrow> 'a lst \<Rightarrow> 'a lst result option" where
  "remove_front value s =
     (if m_head (fst s) \<noteq> None then
        (case rbind (load (m_head (fst s)) (snd s)) (\<lambda>n. rbind (arg_value value (snd s)) (\<lambda>v. Inr (n, v))) of
           Inl e \<Rightarrow> Some (Inl e)
         | Inr (n, v) \<Rightarrow>
             if m_value n = v then
               (case load (m_next n) (snd s) of Inl e \<Rightarrow> Some (Inl e)
                | Inr _ \<Rightarrow>
                    (case delete (m_head (fst s)) (snd s) of Inl e \<Rightarrow> Some (Inl e)
                     | Inr h \<Rightarrow> remove_front value
                         ((fst s)\<lparr>m_head := m_next n, m_size := m_size (fst s) - 1\<rparr>, h)))
             else Some (Inr s))
      else Some (Inr s))"

partial_function (option) remove_rest :: "'a arg \<Rightarrow> nat option \<Rightarrow> 'a lst \<Rightarrow> 'a lst result option" where
  "remove_rest value node s =
     (if node = None then Some (Inr s)
      else
        (case load node (snd s) of Inl e \<Rightarrow> Some (Inl e)
         | Inr n \<Rightarrow>
             if m_next n = None then Some (Inr s)
             else
               (case rbind (load (m_next n) (snd s)) (\<lambda>x. rbind (arg_value value (snd s)) (\<lambda>v. Inr (x, v))) of
                  Inl e \<Rightarrow> Some (Inl e)
                | Inr (x, v) \<Rightarrow>
                    if m_value x = v then
                      (case rbind (set_next node (m_next x) (snd s)) (\<lambda>h1.
                            rbind (set_prev (m_next x) node h1) (\<lambda>h2.
                            rbind (delete (m_next n) h2) (\<lambda>h3.
                            rbind (load node h3) (\<lambda>n'. Inr (h3, m_next n'))))) of
                         Inl e \<Rightarrow> Some (Inl e)
                       | Inr (h3, node') \<Rightarrow>
                           remove_rest value node' ((fst s)\<lparr>m_size := m_size (fst s) - 1\<rparr>, h3))
                    else remove_rest value (m_next n) s)))"

definition list_remove :: "'a arg \<Rightarrow> 'a lst \<Rightarrow> 'a lst result option" where
  "list_remove value s =
     (if m_size (fst s) = 0 then Some (Inr s)
      else
        (case remove_front value s of None \<Rightarrow> None | Some (Inl e) \<Rightarrow> Some (Inl e)
         | Some (Inr s') \<Rightarrow> remove_rest value (m_head (fst s')) s'))"

text \<open>The loops of \<^verbatim>\<open>resize\<close>, whose bound is computed anew from \<^verbatim>\<open>m_size\<close> in every turn\<close>

partial_function (option) shrink_loop :: "int \<Rightarrow> int \<Rightarrow> 'a lst \<Rightarrow> 'a lst result option" where
  "shrink_loop i n s =
     (if i < m_size (fst s) - n then
        (case pop_back s of Inl e \<Rightarrow> Some (Inl e) | Inr s' \<Rightarrow> shrink_loop (i + 1) n s')
      else Some (Inr s))"

partial_function (option) extend_loop :: "'a \<Rightarrow> int \<Rightarrow> int \<Rightarrow> 'a lst \<Rightarrow> 'a lst result option" where
  "extend_loop dflt i n s =
     (if i < n - m_size (fst s) then
        (case push_back dflt s of Inl e \<Rightarrow> Some (Inl e) | Inr s' \<Rightarrow> extend_loop dflt (i + 1) n s')
      else Some (Inr s))"

definition list_resize :: "'a \<Rightarrow> int \<Rightarrow> 'a lst \<Rightarrow> 'a lst result option" where
  "list_resize dflt n s =
     (if n < m_size (fst s) then shrink_loop 0 n s else extend_loop dflt 0 n s)"

definition list_merge :: "dlist \<Rightarrow> dlist \<Rightarrow> 'a heap \<Rightarrow> (dlist \<times> dlist \<times> 'a heap) result" where
  "list_merge l other h =
     rbind (set_next (m_tail l) (m_head other) h) (\<lambda>h1.
     rbind (set_prev (m_head other) (m_tail l) h1) (\<lambda>h2.
     rbind (grow_size (m_size other) l) (\<lambda>l1.
     Inr (l1\<lparr>m_tail := m_tail other\<rparr>, other\<lparr>m_head := None, m_tail := None, m_size := 0\<rparr>, h2))))"

definition list_swap :: "dlist \<Rightarrow> dlist \<Rightarrow> dlist \<times> dlist" where
  "list_swap l other =
     (let head = m_head other; tail = m_tail other; sz = m_size other in
      (l\<lparr>m_head := head, m_tail := tail, m_size := sz\<rparr>,
       other\<lparr>m_head := m_head l, m_tail := m_tail l, m_size := m_size l\<rparr>))"

partial_function (option) reverse_loop :: "nat option \<Rightarrow> 'a heap \<Rightarrow> 'a heap result option" where
  "reverse_loop node h =
     (if node = None then Some (Inr h)
      else
        (case load node h of Inl e \<Rightarrow> Some (Inl e)
         | Inr n \<Rightarrow>
             (case rbind (set_next node (m_prev n) h) (set_prev node (m_next n)) of
                Inl e \<Rightarrow> Some (Inl e)
              | Inr h' \<Rightarrow> reverse_loop (m_prev n) h')))"

text \<open>\<^verbatim>\<open>reserve()\<close> turns the list round.\<close>

definition list_reserve :: "'a lst \<Rightarrow> 'a lst result option" where
  "list_reserve s =
     (if m_size (fst s) = 0 \<or> m_size (fst s) = 1 then Some (Inr s)
      else
        (let head = m_head (fst s); tail = m_tail (fst s) in
         map_option (\<lambda>r. rbind r (\<lambda>h. Inr ((fst s)\<lparr>m_head := tail, m_tail := head\<rparr>, h)))
           (reverse_loop (m_tail (fst s)) (snd s))))"


section \<open>Linked segments\<close>

fun first :: "(nat \<times> 'a) list \<Rightarrow> nat option \<Rightarrow> nat option" where
  "first [] q = q"
| "first ((a, v) # ns) q = Some a"

definition last_of :: "nat option \<Rightarrow> (nat \<times> 'a) list \<Rightarrow> nat option" where
  "last_of p ns = (if ns = [] then p else Some (fst (last ns)))"

fun dseg :: "(nat \<Rightarrow> 'a node option) \<Rightarrow> nat option \<Rightarrow> (nat \<times> 'a) list \<Rightarrow> nat option \<Rightarrow> bool" where
  "dseg c p [] q \<longleftrightarrow> True"
| "dseg c p ((a, v) # ns) q \<longleftrightarrow>
     c a = Some \<lparr>m_value = v, m_prev = p, m_next = first ns q\<rparr> \<and> dseg c (Some a) ns q"

named_theorems seg_simps \<open>rules on linked segments\<close>

lemma last_of_simps [simp, seg_simps]:
  "last_of p [] = p" "last_of p (n # ns) = last_of (Some (fst n)) ns"
  "last_of p (xs @ ys) = last_of (last_of p xs) ys"
  by (auto simp: last_of_def)

lemma first_append [simp, seg_simps]: "first (xs @ ys) q = first xs (first ys q)"
  by (cases xs) auto

lemma dseg_append [simp, seg_simps]:
  "dseg c p (xs @ ys) q \<longleftrightarrow> dseg c p xs (first ys q) \<and> dseg c (last_of p xs) ys q"
proof (induction xs arbitrary: p)
  case (Cons n xs)
  then show ?case by (cases n) simp
qed simp

lemma dseg_frame [simp, seg_simps]:
  "a \<notin> fst ` set ns \<Longrightarrow> dseg (c(a := x)) p ns q \<longleftrightarrow> dseg c p ns q"
proof (induction ns arbitrary: p)
  case (Cons n ns)
  then show ?case by (cases n) auto
qed simp

lemma dseg_frame_if [simp, seg_simps]:
  "a \<notin> fst ` set ns \<Longrightarrow> dseg (\<lambda>b. if b = a then x else c b) p ns q \<longleftrightarrow> dseg c p ns q"
  using dseg_frame [of a ns c x p q] by (simp add: fun_upd_def)

lemma dseg_cell: "dseg c p (xs @ (a, v) # ys) q \<Longrightarrow>
  c a = Some \<lparr>m_value = v, m_prev = last_of p xs, m_next = first ys q\<rparr>"
  by simp

definition below :: "nat \<Rightarrow> (nat \<times> 'a) list \<Rightarrow> bool" where
  "below n ns \<longleftrightarrow> (\<forall>a \<in> fst ` set ns. a < n)"

lemma below_simps [simp, seg_simps]:
  "below n []" "below n (x # xs) \<longleftrightarrow> fst x < n \<and> below n xs" "below n (xs @ ys) \<longleftrightarrow> below n xs \<and> below n ys"
  "below n (rev xs) \<longleftrightarrow> below n xs" "below n xs \<Longrightarrow> below (Suc n) xs"
  by (auto simp: below_def)

lemma below_notin: "below n ns \<Longrightarrow> n \<notin> fst ` set ns"
  by (auto simp: below_def)

definition list_rep :: "dlist \<Rightarrow> 'a heap \<Rightarrow> (nat \<times> 'a) list \<Rightarrow> bool" where
  "list_rep l h ns \<longleftrightarrow> distinct (map fst ns) \<and> dseg (cell h) None ns None
     \<and> m_head l = first ns None \<and> m_tail l = last_of None ns \<and> m_size l = int (length ns)
     \<and> below (brk h) ns"

definition holds :: "'a lst \<Rightarrow> 'a list \<Rightarrow> bool" where
  "holds s vs \<longleftrightarrow> (\<exists>ns. list_rep (fst s) (snd s) ns \<and> map snd ns = vs)"

lemma load_cell [simp]: "cell h a = Some n \<Longrightarrow> load (Some a) h = Inr n"
  by (simp add: load_def)

lemma update_cell [simp]:
  "cell h a = Some n \<Longrightarrow> set_next (Some a) q h = Inr (h\<lparr>cell := (cell h)(a \<mapsto> n\<lparr>m_next := q\<rparr>)\<rparr>)"
  "cell h a = Some n \<Longrightarrow> set_prev (Some a) q h = Inr (h\<lparr>cell := (cell h)(a \<mapsto> n\<lparr>m_prev := q\<rparr>)\<rparr>)"
  "cell h a = Some n \<Longrightarrow> delete (Some a) h = Inr (h\<lparr>cell := (cell h)(a := None)\<rparr>)"
  by (simp_all add: set_next_def set_prev_def update_def delete_def)

lemma freed [simp]:
  "cell h a = None \<Longrightarrow> load (Some a) h = Inl Dangling"
  "cell h a = None \<Longrightarrow> set_next (Some a) q h = Inl Dangling"
  "cell h a = None \<Longrightarrow> set_prev (Some a) q h = Inl Dangling"
  "cell h a = None \<Longrightarrow> delete (Some a) h = Inl Dangling"
  "load None h = Inl Null_Deref" "set_next None q h = Inl Null_Deref"
  "set_prev None q h = Inl Null_Deref" "delete None h = Inr h"
  by (simp_all add: load_def set_next_def set_prev_def update_def delete_def)

lemma list_rep_fresh: "list_rep l h ns \<Longrightarrow> brk h \<notin> fst ` set ns"
  by (simp add: list_rep_def below_notin)

section \<open>The operations on represented lists\<close>

lemma push_front_rep:
  assumes "list_rep l h ns" "int (length ns) < INT_MAX"
  shows "\<exists>l' h'. push_front v (l, h) = Inr (l', h') \<and> list_rep l' h' ((brk h, v) # ns)
    \<and> brk h' = Suc (brk h)"
proof (cases ns)
  case Nil
  then show ?thesis
    using assms by (auto simp: push_front_def new_node_def list_rep_def grow_size_def)
next
  case (Cons n ns')
  obtain a w where n: "n = (a, w)" by fastforce
  have ne: "brk h \<noteq> a" "brk h \<notin> fst ` set ns'" using list_rep_fresh [OF assms(1)] Cons n by auto
  show ?thesis
    using assms Cons n ne by (auto simp: push_front_def new_node_def list_rep_def grow_size_def)
qed

lemma push_back_rep:
  assumes "list_rep l h ns" "int (length ns) < INT_MAX"
  shows "\<exists>l' h'. push_back v (l, h) = Inr (l', h') \<and> list_rep l' h' (ns @ [(brk h, v)])
    \<and> brk h' = Suc (brk h)"
proof (cases ns rule: rev_cases)
  case Nil
  then show ?thesis
    using assms by (auto simp: push_back_def new_node_def list_rep_def grow_size_def)
next
  case (snoc ns' n)
  obtain a w where n: "n = (a, w)" by fastforce
  have ne: "brk h \<noteq> a" "a \<noteq> brk h" "brk h \<notin> fst ` set ns'" using list_rep_fresh [OF assms(1)] snoc n by auto
  have c: "cell h a = Some \<lparr>m_value = w, m_prev = last_of None ns', m_next = None\<rparr>"
    using assms snoc n by (simp add: list_rep_def)
  show ?thesis
    using assms snoc n ne c by (auto simp: push_back_def new_node_def list_rep_def grow_size_def)
qed

lemma pop_back_rep:
  assumes "list_rep l h (ns @ [n])"
  shows "\<exists>l' h'. pop_back (l, h) = Inr (l', h') \<and> list_rep l' h' ns \<and> brk h' = brk h"
proof (cases ns rule: rev_cases)
  case Nil
  then show ?thesis
    using assms by (cases n) (auto simp: pop_back_def list_rep_def)
next
  case (snoc ns' m)
  obtain a v b w where m: "m = (a, v)" "n = (b, w)" by fastforce
  have c: "cell h b = Some \<lparr>m_value = w, m_prev = Some a, m_next = None\<rparr>"
    "cell h a = Some \<lparr>m_value = v, m_prev = last_of None ns', m_next = Some b\<rparr>" "a \<noteq> b"
    using assms snoc m by (auto simp: list_rep_def)
  show ?thesis
    using assms snoc m c by (auto simp: pop_back_def list_rep_def Let_def)
qed

lemma pop_back_empty: "list_rep l h [] \<Longrightarrow> pop_back (l, h) = Inr (l, h)"
  by (simp add: pop_back_def list_rep_def)

lemma clear_rep:
  "list_rep l h ns \<Longrightarrow> \<exists>l' h'. list_clear (l, h) = Inr (l', h') \<and> list_rep l' h' [] \<and> brk h' = brk h"
proof -
  have "list_rep l h ns \<Longrightarrow> \<exists>l' h'. clear_loop (length ns) (l, h) = Inr (l', h') \<and> list_rep l' h' []
      \<and> brk h' = brk h" for l h
  proof (induction ns arbitrary: l h rule: rev_induct)
    case (snoc n ns)
    then obtain l1 h1 where "pop_back (l, h) = Inr (l1, h1)" "list_rep l1 h1 ns" "brk h1 = brk h"
      using pop_back_rep by blast
    moreover have "0 < m_size l" using snoc.prems by (simp add: list_rep_def)
    ultimately show ?case using snoc.IH [of l1 h1] by simp
  qed auto
  then show "list_rep l h ns \<Longrightarrow> ?thesis"
    by (auto simp: list_clear_def list_rep_def)
qed

lemma pop_back_frees:
  assumes "list_rep l h (ns @ [n])" "pop_back (l, h) = Inr (l', h')"
  shows "cell h' (fst n) = None \<and> (\<forall>a. cell h a = None \<longrightarrow> cell h' a = None)"
proof (cases ns rule: rev_cases)
  case Nil
  then show ?thesis
    using assms by (cases n) (auto simp: pop_back_def list_rep_def)
next
  case (snoc ns' m)
  obtain a v b w where m: "m = (a, v)" "n = (b, w)" by fastforce
  have c: "cell h b = Some \<lparr>m_value = w, m_prev = Some a, m_next = None\<rparr>"
    "cell h a = Some \<lparr>m_value = v, m_prev = last_of None ns', m_next = Some b\<rparr>" "a \<noteq> b"
    using assms(1) snoc m by (auto simp: list_rep_def)
  show ?thesis
    using assms snoc m c by (auto simp: pop_back_def list_rep_def Let_def)
qed

lemma clear_frees:
  "list_rep l h ns \<Longrightarrow> \<exists>l' h'. list_clear (l, h) = Inr (l', h') \<and> (\<forall>a \<in> fst ` set ns. cell h' a = None)"
proof -
  have "list_rep l h ns \<Longrightarrow> \<exists>l' h'. clear_loop (length ns) (l, h) = Inr (l', h') \<and>
      (\<forall>a. a \<in> fst ` set ns \<or> cell h a = None \<longrightarrow> cell h' a = None)" for l h
  proof (induction ns arbitrary: l h rule: rev_induct)
    case (snoc n ns)
    obtain l1 h1 where 1: "pop_back (l, h) = Inr (l1, h1)" "list_rep l1 h1 ns" using pop_back_rep [OF snoc.prems] by blast
    have "0 < m_size l" using snoc.prems by (simp add: list_rep_def)
    then show ?case
      using snoc.IH [OF 1(2)] pop_back_frees [OF snoc.prems 1(1)] 1(1) by fastforce
  qed auto
  then show "list_rep l h ns \<Longrightarrow> ?thesis"
    by (fastforce simp: list_clear_def list_rep_def)
qed

lemma repeat_push_back_rep:
  "list_rep l h ns \<Longrightarrow> int (length ns) + int n \<le> INT_MAX \<Longrightarrow> \<exists>l' h' ms. repeat n (push_back v) (l, h) = Inr (l', h')
     \<and> list_rep l' h' (ns @ ms) \<and> map snd ms = replicate n v"
proof (induction n arbitrary: l h ns)
  case (Suc n)
  obtain l1 h1 where 1: "push_back v (l, h) = Inr (l1, h1)" "list_rep l1 h1 (ns @ [(brk h, v)])"
    using push_back_rep [OF Suc.prems(1)] Suc.prems(2) by fastforce
  then obtain l2 h2 ms where "repeat n (push_back v) (l1, h1) = Inr (l2, h2)"
      "list_rep l2 h2 ((ns @ [(brk h, v)]) @ ms)" "map snd ms = replicate n v"
    using Suc.IH [OF 1(2)] Suc.prems(2) by auto
  with 1 show ?case by (auto intro!: exI [of _ "(brk h, v) # ms"])
qed simp

lemma repeat_push_front_rep:
  "list_rep l h ns \<Longrightarrow> int (length ns) + int n \<le> INT_MAX \<Longrightarrow> \<exists>l' h' ms. repeat n (push_front v) (l, h) = Inr (l', h')
     \<and> list_rep l' h' (ms @ ns) \<and> map snd ms = replicate n v"
proof (induction n arbitrary: l h ns)
  case (Suc n)
  obtain l1 h1 where 1: "push_front v (l, h) = Inr (l1, h1)" "list_rep l1 h1 ((brk h, v) # ns)"
    using push_front_rep [OF Suc.prems(1)] Suc.prems(2) by fastforce
  then obtain l2 h2 ms where "repeat n (push_front v) (l1, h1) = Inr (l2, h2)"
      "list_rep l2 h2 (ms @ (brk h, v) # ns)" "map snd ms = replicate n v"
    using Suc.IH [OF 1(2)] Suc.prems(2) by auto
  with 1 show ?case
    by (auto intro!: exI [of _ "ms @ [(brk h, v)]"] simp: replicate_append_same)
qed simp

lemma assign_rep:
  assumes "list_rep l h ns" "n \<le> INT_MAX"
  shows "\<exists>l' h' ms. list_assign n (Outside v) (l, h) = Inr (l', h')
     \<and> list_rep l' h' ms \<and> map snd ms = replicate (nat n) v"
proof -
  obtain l1 h1 where 1: "list_clear (l, h) = Inr (l1, h1)" "list_rep l1 h1 []" using clear_rep [OF assms(1)] by blast
  then have "list_assign n (Outside v) (l, h) = repeat (nat n) (push_back v) (l1, h1)" by (simp add: list_assign_def)
  then show ?thesis
    using repeat_push_back_rep [OF 1(2), of "nat n" v] assms(2) by (auto simp: INT_MAX_def)
qed

lemma display_seg:
  "dseg (cell h) p ns None \<Longrightarrow> display_loop (first ns None) h out = Some (Inr (out @ map snd ns))"
proof (induction ns arbitrary: p out)
  case (Cons n ns)
  then show ?case by (cases n) (subst display_loop.simps, auto)
qed (simp add: display_loop.simps)

lemma find_seg:
  "dseg (cell h) p ns None \<Longrightarrow>
   find_loop v (first ns None) h = Some (Inr (first (dropWhile (\<lambda>n. snd n \<noteq> v) ns) None))"
proof (induction ns arbitrary: p)
  case (Cons n ns)
  then show ?case by (cases n) (subst find_loop.simps, auto)
qed (simp add: find_loop.simps)


lemma list_end_rep: "list_rep l h ns \<Longrightarrow> ns \<noteq> [] \<Longrightarrow> list_end (l, h) = Inr None"
  by (cases ns rule: rev_cases) (auto simp: list_end_def list_rep_def)

definition seg_ok :: "'a heap \<Rightarrow> (nat \<times> 'a) list \<Rightarrow> bool" where
  "seg_ok h ns \<longleftrightarrow> distinct (map fst ns) \<and> dseg (cell h) None ns None \<and> below (brk h) ns"

lemma seg_ok_fresh: "seg_ok h ns \<Longrightarrow> brk h \<notin> fst ` set ns"
  by (simp add: seg_ok_def below_notin)

lemma insert_step:
  assumes "seg_ok h (xs @ (b, u) # (a, w) # ys)"
  shows "\<exists>h'. insert_loop (Suc n) v (Some a) h = insert_loop n v (Some (brk h)) h'
    \<and> seg_ok h' (xs @ (b, u) # (brk h, v) # (a, w) # ys)"
proof -
  have ne: "brk h \<noteq> a" "brk h \<noteq> b" "brk h \<notin> fst ` set xs" "brk h \<notin> fst ` set ys"
    using seg_ok_fresh [OF assms] by auto
  have "a \<noteq> b" using assms by (simp add: seg_ok_def)
  then show ?thesis
    using assms ne
    by (simp add: seg_ok_def new_node_def Let_def) (rule exI, rule conjI, rule refl, auto)
qed

lemma insert_loop_seg:
  "seg_ok h (xs @ (b, u) # (a, w) # ys) \<Longrightarrow>
   \<exists>h' ms. insert_loop n v (Some a) h = Inr (first (ms @ (a, w) # ys) None, h')
     \<and> seg_ok h' (xs @ (b, u) # ms @ (a, w) # ys) \<and> map snd ms = replicate n v"
proof (induction n arbitrary: h a w ys)
  case (Suc n)
  obtain h1 where h1: "insert_loop (Suc n) v (Some a) h = insert_loop n v (Some (brk h)) h1"
    "seg_ok h1 (xs @ (b, u) # (brk h, v) # (a, w) # ys)"
    using insert_step [OF Suc.prems] by blast
  obtain h' ms where "insert_loop n v (Some (brk h)) h1 = Inr (first (ms @ (brk h, v) # (a, w) # ys) None, h')"
    "seg_ok h' (xs @ (b, u) # ms @ (brk h, v) # (a, w) # ys)" "map snd ms = replicate n v"
    using Suc.IH [OF h1(2)] by blast
  with h1(1) show ?case
    by (auto intro!: exI [of _ "ms @ [(brk h, v)]"] simp: replicate_append_same)
qed (auto intro!: exI [of _ "[]"])

lemma list_rep_seg:
  "list_rep l h ns \<longleftrightarrow> seg_ok h ns \<and> m_head l = first ns None \<and> m_tail l = last_of None ns
     \<and> m_size l = int (length ns)"
  by (auto simp: list_rep_def seg_ok_def)

lemma insert_inside_rep:
  assumes "list_rep l h (xs @ (b, u) # (a, w) # ys)" "int (length (xs @ (b, u) # (a, w) # ys)) + int n \<le> INT_MAX"
  shows "\<exists>l' h' ms. insert_n (Some a) (int n) v (l, h) = Inr ((l', h'), first (ms @ (a, w) # ys) None)
    \<and> list_rep l' h' (xs @ (b, u) # ms @ (a, w) # ys) \<and> map snd ms = replicate n v"
proof -
  let ?ns = "xs @ (b, u) # (a, w) # ys"
  have "Some a \<noteq> m_head l"
    using assms(1) by (cases xs) (auto simp: list_rep_def)
  moreover have "list_end (l, h) = Inr None" using list_end_rep [OF assms(1)] by simp
  moreover obtain h' ms where i: "insert_loop n v (Some a) h = Inr (first (ms @ (a, w) # ys) None, h')"
     "seg_ok h' (xs @ (b, u) # ms @ (a, w) # ys)" "map snd ms = replicate n v"
  proof -
    have "seg_ok h ?ns" using assms(1) by (simp add: list_rep_seg)
    from insert_loop_seg [OF this, of n v] that show ?thesis by blast
  qed
  moreover have "length ms = n" using i(3) by (metis length_map length_replicate)
  ultimately show ?thesis
    using assms by (auto simp: insert_n_def list_begin_def list_rep_seg grow_size_def intro!: exI [of _ ms])
qed

lemma insert_front_rep:
  assumes "list_rep l h ns" "int (length ns) + n \<le> INT_MAX" "0 \<le> n"
  shows "\<exists>l' h' ms. insert_n (m_head l) n v (l, h) = Inr ((l', h'), m_head l')
    \<and> list_rep l' h' (ms @ ns) \<and> map snd ms = replicate (nat n) v"
  using repeat_push_front_rep [OF assms(1), of "nat n" v] assms(2,3) by (fastforce simp: insert_n_def list_begin_def)

lemma erase_front_rep:
  assumes "list_rep l h ((a, v) # ns)"
  shows "\<exists>l' h'. list_erase (Some a) (l, h) = Inr ((l', h'), first ns None) \<and> list_rep l' h' ns"
proof (cases ns)
  case Nil
  then show ?thesis
    using assms by (auto simp: list_erase_def list_begin_def list_rep_def Let_def)
next
  case (Cons n ms)
  obtain b w where n: "n = (b, w)" by fastforce
  then show ?thesis
    using assms Cons by (auto simp: list_erase_def list_begin_def list_rep_def Let_def)
qed

lemma erase_inside_rep:
  assumes "list_rep l h (xs @ (a, v) # ys)" "xs \<noteq> []" "ys \<noteq> []"
  shows "\<exists>l' h'. list_erase (Some a) (l, h) = Inr ((l', h'), first ys None) \<and> list_rep l' h' (xs @ ys)"
proof -
  obtain xs' b u where xs: "xs = xs' @ [(b, u)]" using assms(2) by (metis rev_exhaust surj_pair)
  obtain c w ys' where ys: "ys = (c, w) # ys'" using assms(3) by (metis list.exhaust surj_pair)
  have e: "list_end (l, h) = Inr None" using list_end_rep [OF assms(1)] by simp
  have ne: "Some a \<noteq> m_head l" using assms(1) xs by (cases xs') (auto simp: list_rep_def)
  have cs: "cell h a = Some \<lparr>m_value = v, m_prev = Some b, m_next = Some c\<rparr>"
    "cell h b = Some \<lparr>m_value = u, m_prev = last_of None xs', m_next = Some a\<rparr>"
    "cell h c = Some \<lparr>m_value = w, m_prev = Some a, m_next = first ys' None\<rparr>"
    "a \<noteq> b" "a \<noteq> c" "b \<noteq> c"
    using assms(1) xs ys by (auto simp: list_rep_def)
  show ?thesis
    using assms(1) xs ys e ne cs by (auto simp: list_erase_def list_begin_def list_rep_def Let_def)
qed

lemma last_of_rev: "last_of None (rev ns) = first ns None"
  by (cases ns) (auto simp: last_of_def)

lemma first_rev: "first (rev ns) None = last_of None ns"
  using last_of_rev [of "rev ns"] by simp

lemma reverse_loop_seg:
  "distinct (map fst (xs @ ys)) \<Longrightarrow> dseg (cell h) None xs (first ys None) \<Longrightarrow>
   dseg (cell h) None (rev ys) (last_of None xs) \<Longrightarrow>
   \<exists>h'. reverse_loop (last_of None xs) h = Some (Inr h') \<and> dseg (cell h') None (rev (xs @ ys)) None
     \<and> brk h' = brk h"
proof (induction xs arbitrary: ys h rule: rev_induct)
  case Nil
  then show ?case by (simp add: reverse_loop.simps)
next
  case (snoc n xs)
  obtain a v where n: "n = (a, v)" by fastforce
  let ?h = "h\<lparr>cell := (cell h)(a \<mapsto> \<lparr>m_value = v, m_prev = first ys None, m_next = last_of None xs\<rparr>)\<rparr>"
  have "reverse_loop (last_of None (xs @ [n])) h = reverse_loop (last_of None xs) ?h"
    using snoc.prems n by (subst reverse_loop.simps) auto
  moreover have "\<exists>h'. reverse_loop (last_of None xs) ?h = Some (Inr h')
      \<and> dseg (cell h') None (rev (xs @ n # ys)) None \<and> brk h' = brk ?h"
    using snoc.prems n by (intro snoc.IH) (auto simp: last_of_rev)
  ultimately show ?case by simp
qed

lemma reserve_rep:
  assumes "list_rep l h ns"
  shows "\<exists>l' h'. list_reserve (l, h) = Some (Inr (l', h')) \<and> list_rep l' h' (rev ns)"
proof (cases "length ns \<le> 1")
  case True
  then have "rev ns = ns" "m_size l = 0 \<or> m_size l = 1"
    using assms by (cases ns; auto simp: list_rep_def)+
  then show ?thesis using assms by (simp add: list_reserve_def)
next
  case False
  have "\<exists>h'. reverse_loop (last_of None ns) h = Some (Inr h') \<and> dseg (cell h') None (rev ns) None
      \<and> brk h' = brk h"
    using reverse_loop_seg [of ns "[]" h] assms by (simp add: list_rep_def)
  then show ?thesis
    using assms False
    by (auto simp: list_reserve_def list_rep_def Let_def last_of_rev first_rev rev_map [symmetric])
qed


lemma shrink_loop_rep:
  "list_rep l h ns \<Longrightarrow> 0 \<le> n \<Longrightarrow> 0 \<le> i \<Longrightarrow>
   \<exists>l' h'. shrink_loop i n (l, h) = Some (Inr (l', h'))
     \<and> list_rep l' h' (take (length ns - nat ((int (length ns) - n - i + 1) div 2)) ns)"
proof (induction ns arbitrary: i l h rule: rev_induct)
  case Nil
  then show ?case by (subst shrink_loop.simps) (auto simp: list_rep_def)
next
  case (snoc x ns)
  have sz: "m_size l = int (length ns) + 1" using snoc.prems by (simp add: list_rep_def)
  show ?case
  proof (cases "i < m_size l - n")
    case True
    obtain l1 h1 where 1: "pop_back (l, h) = Inr (l1, h1)" "list_rep l1 h1 ns"
      using pop_back_rep [OF snoc.prems(1)] by blast
    let ?k = "nat ((int (length ns) - n - (i + 1) + 1) div 2)"
    have "int (length (ns @ [x])) - n - i + 1 = (int (length ns) - n - (i + 1) + 1) + 2" by simp
    then have "nat ((int (length (ns @ [x])) - n - i + 1) div 2) = Suc ?k"
      using True sz by (simp add: nat_add_distrib)
    moreover have "?k \<le> length ns" using snoc.prems by linarith
    ultimately show ?thesis
      using True 1 snoc.IH [of l1 h1 "i + 1"] snoc.prems(2,3)
      by (subst shrink_loop.simps) simp
  next
    case False
    then have "nat ((int (length (ns @ [x])) - n - i + 1) div 2) = 0" using sz by simp
    with False snoc.prems(1) show ?thesis by (subst shrink_loop.simps) simp
  qed
qed

lemma extend_loop_rep:
  "list_rep l h ns \<Longrightarrow> 0 \<le> i \<Longrightarrow> n \<le> INT_MAX \<Longrightarrow> \<exists>l' h' ms. extend_loop dflt i n (l, h) = Some (Inr (l', h'))
     \<and> list_rep l' h' (ns @ ms) \<and> map snd ms = replicate (nat ((n - int (length ns) - i + 1) div 2)) dflt"
proof (induction "nat (n - int (length ns) - i)" arbitrary: i l h ns rule: less_induct)
  case less
  have sz: "m_size l = int (length ns)" using less.prems(1) by (simp add: list_rep_def)
  show ?case
  proof (cases "i < n - m_size l")
    case True
    obtain l1 h1 where 1: "push_back dflt (l, h) = Inr (l1, h1)" "list_rep l1 h1 (ns @ [(brk h, dflt)])"
      using push_back_rep [OF less.prems(1)] True sz less.prems(2,3) by fastforce
    have "n - int (length ns) - i + 1 = (n - int (length (ns @ [(brk h, dflt)])) - (i + 1) + 1) + 2" by simp
    then have k: "nat ((n - int (length ns) - i + 1) div 2)
        = Suc (nat ((n - int (length (ns @ [(brk h, dflt)])) - (i + 1) + 1) div 2))"
      using True sz by (simp add: nat_add_distrib)
    have "nat (n - int (length (ns @ [(brk h, dflt)])) - (i + 1)) < nat (n - int (length ns) - i)"
      using True sz by simp
    from less.hyps [OF this 1(2) _ less.prems(3)] less.prems(2) obtain l2 h2 ms where
      "extend_loop dflt (i + 1) n (l1, h1) = Some (Inr (l2, h2))"
      "list_rep l2 h2 (ns @ (brk h, dflt) # ms)"
      "map snd ms = replicate (nat ((n - int (length (ns @ [(brk h, dflt)])) - (i + 1) + 1) div 2)) dflt"
      by auto
    then show ?thesis
      using True 1(1) k by (subst extend_loop.simps) (auto intro!: exI [of _ "(brk h, dflt) # ms"])
  next
    case False
    then have "nat ((n - int (length ns) - i + 1) div 2) = 0" using sz by simp
    with False less.prems(1) show ?thesis by (subst extend_loop.simps) (auto intro!: exI [of _ "[]"])
  qed
qed

lemma merge_rep:
  assumes "list_rep l h (xs @ [(a, v)])" "list_rep m h ((b, w) # ys)"
    and "distinct (map fst (xs @ (a, v) # (b, w) # ys))" "int (length (xs @ (a, v) # (b, w) # ys)) \<le> INT_MAX"
  shows "\<exists>l' h'. list_merge l m h = Inr (l', \<lparr>m_head = None, m_tail = None, m_size = 0\<rparr>, h')
    \<and> list_rep l' h' (xs @ (a, v) # (b, w) # ys)"
proof -
  have c: "cell h a = Some \<lparr>m_value = v, m_prev = last_of None xs, m_next = None\<rparr>"
    "cell h b = Some \<lparr>m_value = w, m_prev = None, m_next = first ys None\<rparr>" "a \<noteq> b"
    using assms by (auto simp: list_rep_def)
  have hd: "m_head l = first (xs @ [(a, v)]) None" using assms(1) by (simp add: list_rep_def)
  show ?thesis
    using assms c hd by (auto simp: list_merge_def list_rep_def grow_size_def)
qed

text \<open>What \<^verbatim>\<open>remove\<close> does to the values: the front loop drops the matching values at the front; the second
  loop looks at the values behind the first, but after taking one out it steps over its successor.
  \<open>None\<close>: the null pointer is dereferenced, because a node with the value has no successor.\<close>

fun remove_tail :: "'a \<Rightarrow> 'a list \<Rightarrow> 'a list option" where
  "remove_tail v [] = Some []"
| "remove_tail v [x] = Some [x]"
| "remove_tail v (x # y # zs) =
     (if y = v then (if zs = [] then None else map_option ((#) x) (remove_tail v zs))
      else map_option ((#) x) (remove_tail v (y # zs)))"

definition removed :: "'a \<Rightarrow> 'a list \<Rightarrow> 'a list option" where
  "removed v xs = (if xs = [] then Some []
     else if \<forall>x \<in> set xs. x = v then None else remove_tail v (dropWhile (\<lambda>x. x = v) xs))"

text \<open>A list of which only the forward links, the head and the size are known to be right\<close>

definition chain_rep :: "dlist \<Rightarrow> 'a heap \<Rightarrow> (nat \<times> 'a) list \<Rightarrow> bool" where
  "chain_rep l h ns \<longleftrightarrow> distinct (map fst ns) \<and> (\<exists>p. dseg (cell h) p ns None)
     \<and> m_head l = first ns None \<and> m_size l = int (length ns)"

lemma list_rep_chain: "list_rep l h ns \<Longrightarrow> chain_rep l h ns"
  by (auto simp: list_rep_def chain_rep_def)

lemma chain_display: "chain_rep l h ns \<Longrightarrow> list_display (l, h) = Some (Inr (map snd ns))"
  using display_seg by (fastforce simp: chain_rep_def list_display_def)

lemma chain_size: "chain_rep l h ns \<Longrightarrow> list_size l = int (length (map snd ns))"
  by (simp add: chain_rep_def list_size_def)

lemma remove_front_chain:
  "chain_rep l h ns \<Longrightarrow> ns \<noteq> [] \<Longrightarrow>
   (if \<forall>n \<in> set ns. snd n = v then remove_front (Outside v) (l, h) = Some (Inl Null_Deref)
    else \<exists>l' h'. remove_front (Outside v) (l, h) = Some (Inr (l', h'))
      \<and> chain_rep l' h' (dropWhile (\<lambda>n. snd n = v) ns))"
proof (induction ns arbitrary: l h)
  case (Cons n ns)
  note IH = Cons.IH
  obtain a w where n: "n = (a, w)" by fastforce
  then obtain p where c: "cell h a = Some \<lparr>m_value = w, m_prev = p, m_next = first ns None\<rparr>"
    "m_head l = Some a" "a \<notin> fst ` set ns" "dseg (cell h) (Some a) ns None"
    using Cons.prems(1) by (auto simp: chain_rep_def)
  show ?case
  proof (cases "w = v")
    case False
    then show ?thesis using Cons.prems n c by (subst remove_front.simps) auto
  next
    case True
    show ?thesis
    proof (cases ns)
      case Nil
      then show ?thesis using True n c by (subst remove_front.simps) auto
    next
      case (Cons m ms)
      obtain b u where m: "m = (b, u)" by fastforce
      let ?h = "h\<lparr>cell := (cell h)(a := None)\<rparr>"
      let ?l = "l\<lparr>m_head := first ns None, m_size := m_size l - 1\<rparr>"
      have r: "remove_front (Outside v) (l, h) = remove_front (Outside v) (?l, ?h)"
        using True c Cons m by (subst remove_front.simps) auto
      have ch: "chain_rep ?l ?h ns"
        using Cons.prems(1) n c unfolding chain_rep_def by auto
      have e: "(\<forall>x \<in> set (n # ns). snd x = v) \<longleftrightarrow> (\<forall>x \<in> set ns. snd x = v)"
        "dropWhile (\<lambda>n. snd n = v) (n # ns) = dropWhile (\<lambda>n. snd n = v) ns"
        using True n by simp_all
      have "ns \<noteq> []" using Cons by simp
      then show ?thesis unfolding e r by (rule IH [OF ch])
    qed
  qed
qed simp

lemma remove_rest_chain:
  "distinct (map fst (xs @ ns)) \<Longrightarrow> dseg (cell h) p (xs @ ns) None \<Longrightarrow> m_head l = first (xs @ ns) None \<Longrightarrow>
   m_size l = int (length (xs @ ns)) \<Longrightarrow>
   (case remove_tail v (map snd ns) of
      None \<Rightarrow> remove_rest (Outside v) (first ns None) (l, h) = Some (Inl Null_Deref)
    | Some ws \<Rightarrow> \<exists>l' h' ms. remove_rest (Outside v) (first ns None) (l, h) = Some (Inr (l', h'))
        \<and> chain_rep l' h' (xs @ ms) \<and> map snd ms = ws)"
proof (induction v "map snd ns" arbitrary: ns xs l h rule: remove_tail.induct)
  case (1 v)
  have "remove_rest (Outside v) None (l, h) = Some (Inr (l, h))" by (subst remove_rest.simps) simp
  then show ?case using 1 by (auto simp: chain_rep_def intro!: exI [of _ "[]"])
next
  case (2 v x)
  then obtain a where ns: "ns = [(a, x)]" by auto
  have "cell h a = Some \<lparr>m_value = x, m_prev = last_of p xs, m_next = None\<rparr>" using 2(3) ns by simp
  then have "remove_rest (Outside v) (Some a) (l, h) = Some (Inr (l, h))" by (subst remove_rest.simps) simp
  moreover have "chain_rep l h (xs @ ns)" using 2 ns unfolding chain_rep_def by blast
  ultimately show ?case using ns by (auto intro!: exI [of _ ns])
next
  case (3 v x y zs)
  then obtain a b ks where ns: "ns = (a, x) # (b, y) # ks" and ks: "map snd ks = zs" by auto
  have c: "cell h a = Some \<lparr>m_value = x, m_prev = last_of p xs, m_next = Some b\<rparr>"
    "cell h b = Some \<lparr>m_value = y, m_prev = Some a, m_next = first ks None\<rparr>" "a \<noteq> b"
    using 3(4,5) ns by simp_all
  show ?case
  proof (cases "y = v")
    case False
    have r: "remove_rest (Outside v) (Some a) (l, h) = remove_rest (Outside v) (Some b) (l, h)"
      using c False by (subst remove_rest.simps) simp
    have "case remove_tail v (map snd ((b, y) # ks)) of
        None \<Rightarrow> remove_rest (Outside v) (first ((b, y) # ks) None) (l, h) = Some (Inl Null_Deref)
      | Some ws \<Rightarrow> \<exists>l' h' ms. remove_rest (Outside v) (first ((b, y) # ks) None) (l, h) = Some (Inr (l', h'))
          \<and> chain_rep l' h' ((xs @ [(a, x)]) @ ms) \<and> map snd ms = ws"
      by (rule 3(2) [OF False]) (use 3(4-) ns ks in simp_all)
    then show ?thesis
      using ns ks False r
      by (auto split: option.splits intro!: exI [of _ "(a, x) # ms" for ms])
  next
    case True
    show ?thesis
    proof (cases ks)
      case Nil
      then have "remove_rest (Outside v) (Some a) (l, h) = Some (Inl Null_Deref)"
        using c True by (subst remove_rest.simps) simp
      then show ?thesis using True Nil ns ks by simp
    next
      case (Cons k ks')
      obtain d w where k: "k = (d, w)" by fastforce
      have cd: "cell h d = Some \<lparr>m_value = w, m_prev = Some b, m_next = first ks' None\<rparr>"
        "d \<noteq> a" "d \<noteq> b" using 3(4,5) ns Cons k by auto
      let ?h = "h\<lparr>cell := (cell h)(a \<mapsto> \<lparr>m_value = x, m_prev = last_of p xs, m_next = Some d\<rparr>,
          d \<mapsto> \<lparr>m_value = w, m_prev = Some a, m_next = first ks' None\<rparr>, b := None)\<rparr>"
      let ?l = "l\<lparr>m_size := m_size l - 1\<rparr>"
      have r: "remove_rest (Outside v) (Some a) (l, h) = remove_rest (Outside v) (Some d) (?l, ?h)"
        using c cd True Cons k by (subst remove_rest.simps) simp
      have "zs \<noteq> []" using Cons ks by auto
      have "case remove_tail v (map snd ks) of
          None \<Rightarrow> remove_rest (Outside v) (first ks None) (?l, ?h) = Some (Inl Null_Deref)
        | Some ws \<Rightarrow> \<exists>l' h' ms. remove_rest (Outside v) (first ks None) (?l, ?h) = Some (Inr (l', h'))
            \<and> chain_rep l' h' ((xs @ [(a, x)]) @ ms) \<and> map snd ms = ws"
        by (rule 3(1) [OF True \<open>zs \<noteq> []\<close>]) (use 3(4-) ns ks Cons k c cd in auto)
      then show ?thesis
        using ns ks True r Cons k
        by (auto split: option.splits intro!: exI [of _ "(a, x) # ms" for ms])
    qed
  qed
qed


section \<open>The list as a value\<close>

lemma steps_seg:
  "dseg (cell h) p ns None \<Longrightarrow> n \<le> length ns \<Longrightarrow>
   steps n (\<lambda>q. it_inc q h) (first ns None) = Inr (first (drop n ns) None)"
proof (induction n arbitrary: p ns)
  case (Suc n)
  then obtain a v ms where ns: "ns = (a, v) # ms" by (cases ns) auto
  then have "it_inc (first ns None) h = Inr (first ms None)" using Suc.prems by (simp add: it_inc_def)
  then show ?case using Suc ns by auto
qed simp

lemma it_plus_rep:
  "list_rep l h ns \<Longrightarrow> 0 \<le> k \<Longrightarrow> k \<le> int (length ns) \<Longrightarrow>
   it_plus (list_begin l) k h = Inr (first (drop (nat k) ns) None)"
  using steps_seg [of h None ns "nat k"]
  by (simp add: it_plus_def list_begin_def list_rep_def nat_le_iff)

datatype 'a list_op =
  Push_front 'a | Push_back 'a | Pop_back | Assign int 'a | Assign_own int int | Insert int int 'a | Erase int
| Reverse | Clear

text \<open>\<open>Assign_own n k\<close> is \<^verbatim>\<open>l.assign(n, *(l.begin() + k))\<close>.\<close>

fun run_op :: "'a list_op \<Rightarrow> 'a lst \<Rightarrow> 'a lst result option" where
  "run_op (Push_front v) s = Some (push_front v s)"
| "run_op (Push_back v) s = Some (push_back v s)"
| "run_op Pop_back s = Some (pop_back s)"
| "run_op (Assign n v) s = Some (list_assign n (Outside v) s)"
| "run_op (Assign_own n k) s = Some (rbind (it_plus (list_begin (fst s)) k (snd s)) (\<lambda>pos.
     case pos of None \<Rightarrow> Inl Null_Deref | Some a \<Rightarrow> list_assign n (In_Node a) s))"
| "run_op (Insert k n v) s = Some (rbind (it_plus (list_begin (fst s)) k (snd s)) (\<lambda>pos.
     rbind (insert_n pos n v s) (\<lambda>(s', it). Inr s')))"
| "run_op (Erase k) s = Some (rbind (it_plus (list_begin (fst s)) k (snd s)) (\<lambda>pos.
     rbind (list_erase pos s) (\<lambda>(s', it). Inr s')))"
| "run_op Reverse s = list_reserve s"
| "run_op Clear s = Some (list_clear s)"

fun spec_op :: "'a list_op \<Rightarrow> 'a list \<Rightarrow> 'a list" where
  "spec_op (Push_front v) xs = v # xs"
| "spec_op (Push_back v) xs = xs @ [v]"
| "spec_op Pop_back xs = butlast xs"
| "spec_op (Assign n v) xs = replicate (nat n) v"
| "spec_op (Assign_own n k) xs = []"
| "spec_op (Insert k n v) xs = take (nat k) xs @ replicate (nat n) v @ drop (nat k) xs"
| "spec_op (Erase k) xs = take (nat k) xs @ drop (Suc (nat k)) xs"
| "spec_op Reverse xs = rev xs"
| "spec_op Clear xs = []"

text \<open>Positions in range, no size above the greatest \<^verbatim>\<open>int\<close>, no erasure of the last of several elements, and no
  \<^verbatim>\<open>assign\<close> of the list's own element unless it is 0 times\<close>

fun run_pre :: "'a list_op \<Rightarrow> 'a list \<Rightarrow> bool" where
  "run_pre (Push_front v) xs \<longleftrightarrow> int (length xs) < INT_MAX"
| "run_pre (Push_back v) xs \<longleftrightarrow> int (length xs) < INT_MAX"
| "run_pre (Assign n v) xs \<longleftrightarrow> n \<le> INT_MAX"
| "run_pre (Assign_own n k) xs \<longleftrightarrow> n \<le> 0 \<and> 0 \<le> k \<and> k < int (length xs)"
| "run_pre (Insert k n v) xs \<longleftrightarrow> 0 \<le> k \<and> k \<le> int (length xs) \<and> 0 \<le> n \<and> int (length xs) + n \<le> INT_MAX"
| "run_pre (Erase k) xs \<longleftrightarrow> 0 \<le> k \<and> (k + 1 < int (length xs) \<or> k = 0 \<and> length xs = 1)"
| "run_pre _ xs \<longleftrightarrow> True"

fun run_ops :: "'a list_op list \<Rightarrow> 'a lst \<Rightarrow> 'a lst result option" where
  "run_ops [] s = Some (Inr s)"
| "run_ops (p # ps) s = (case run_op p s of
     None \<Rightarrow> None | Some (Inl e) \<Rightarrow> Some (Inl e) | Some (Inr s') \<Rightarrow> run_ops ps s')"

fun runs_pre :: "'a list_op list \<Rightarrow> 'a list \<Rightarrow> bool" where
  "runs_pre [] xs \<longleftrightarrow> True"
| "runs_pre (p # ps) xs \<longleftrightarrow> run_pre p xs \<and> runs_pre ps (spec_op p xs)"

lemma holdsI: "list_rep l h ns \<Longrightarrow> map snd ns = vs \<Longrightarrow> holds (l, h) vs"
  by (auto simp: holds_def)

lemma holdsD: "list_rep l h ns \<Longrightarrow> holds (l, h) (map snd ns)"
  by (rule holdsI) simp_all

lemma insert_end_rep:
  assumes "list_rep l h ns" "ns \<noteq> []" "int (length ns) + n \<le> INT_MAX" "0 \<le> n"
  shows "\<exists>s' ms. insert_n None n v (l, h) = Inr (s', m_tail l) \<and> list_rep (fst s') (snd s') (ns @ ms)
    \<and> map snd ms = replicate (nat n) v"
proof -
  have "m_head l \<noteq> None" using assms(1,2) by (cases ns) (auto simp: list_rep_def)
  moreover note list_end_rep [OF assms(1,2)]
  ultimately show ?thesis
    using repeat_push_back_rep [OF assms(1), of "nat n" v] assms(3,4) by (fastforce simp: insert_n_def list_begin_def)
qed

lemma insert_op:
  assumes "list_rep l h ns" "0 \<le> k" "k \<le> int (length ns)" "0 \<le> n" "int (length ns) + n \<le> INT_MAX"
  shows "\<exists>s' it. insert_n (first (drop (nat k) ns) None) n v (l, h) = Inr (s', it)
    \<and> holds s' (take (nat k) (map snd ns) @ replicate (nat n) v @ drop (nat k) (map snd ns))"
proof -
  consider "nat k = 0" | "0 < nat k" "nat k < length ns" | "0 < nat k" "nat k = length ns"
    using assms(2,3) by linarith
  then show ?thesis
  proof cases
    case 1
    then have "first (drop (nat k) ns) None = m_head l" using assms(1) by (simp add: list_rep_def)
    with insert_front_rep [OF assms(1,5,4), of v] 1 show ?thesis by (fastforce simp: holds_def)
  next
    case 2
    define j where "j = nat k - 1"
    have j: "nat k = Suc j" "Suc j < length ns" using 2 by (simp_all add: j_def)
    obtain b u where b: "ns ! j = (b, u)" by fastforce
    obtain a w where a: "ns ! Suc j = (a, w)" by fastforce
    have sp: "ns = take j ns @ (b, u) # (a, w) # drop (Suc (Suc j)) ns"
      using j a b by (metis Cons_nth_drop_Suc Suc_lessD append_take_drop_id)
    have d: "drop (nat k) ns = (a, w) # drop (Suc (Suc j)) ns" using j a by (metis Cons_nth_drop_Suc)
    have t: "take (nat k) ns = take j ns @ [(b, u)]" using j b by (metis Suc_lessD take_Suc_conv_app_nth)
    obtain l' h' ms where i: "insert_n (Some a) (int (nat n)) v (l, h)
        = Inr ((l', h'), first (ms @ (a, w) # drop (Suc (Suc j)) ns) None)"
      "list_rep l' h' (take j ns @ (b, u) # ms @ (a, w) # drop (Suc (Suc j)) ns)"
      "map snd ms = replicate (nat n) v"
    proof -
      let ?ns = "take j ns @ (b, u) # (a, w) # drop (Suc (Suc j)) ns"
      have rep: "list_rep l h ?ns" using assms(1) by (rule subst [OF sp])
      have "length ?ns = length ns" by (rule arg_cong [OF sp [symmetric]])
      then have "int (length ?ns) + int (nat n) \<le> INT_MAX" using assms(4,5) by simp
      from insert_inside_rep [OF rep this, of v] show ?thesis by (elim exE conjE) (rule that)
    qed
    have "holds (l', h') (take (nat k) (map snd ns) @ replicate (nat n) v @ drop (nat k) (map snd ns))"
      by (rule holdsI [OF i(2)]) (simp add: i(3) take_map drop_map t d)
    with i(1) d assms(4) show ?thesis by auto
  next
    case 3
    then have "ns \<noteq> []" by auto
    from insert_end_rep [OF assms(1) this assms(5,4), of v] obtain s' ms where
      "insert_n None n v (l, h) = Inr (s', m_tail l)" "list_rep (fst s') (snd s') (ns @ ms)"
      "map snd ms = replicate (nat n) v" by blast
    with 3 show ?thesis by (force simp: holds_def)
  qed
qed

lemma erase_op:
  assumes "list_rep l h ns" "0 \<le> k" "k + 1 < int (length ns) \<or> k = 0 \<and> length ns = 1"
  shows "\<exists>s' it. list_erase (first (drop (nat k) ns) None) (l, h) = Inr (s', it)
    \<and> holds s' (take (nat k) (map snd ns) @ drop (Suc (nat k)) (map snd ns))"
proof -
  have k: "nat k < length ns" using assms(2,3) by linarith
  obtain a v where a: "ns ! nat k = (a, v)" by fastforce
  have sp: "ns = take (nat k) ns @ (a, v) # drop (Suc (nat k)) ns" using k a by (metis id_take_nth_drop)
  have d: "drop (nat k) ns = (a, v) # drop (Suc (nat k)) ns" using k a by (metis Cons_nth_drop_Suc)
  show ?thesis
  proof (cases "nat k = 0")
    case True
    then have "list_rep l h ((a, v) # drop 1 ns)" using assms(1) sp by simp
    from erase_front_rep [OF this] obtain l' h' where
      e: "list_erase (Some a) (l, h) = Inr ((l', h'), first (drop 1 ns) None)" "list_rep l' h' (drop 1 ns)"
      by (elim exE conjE) (rule that)
    have "first (drop (nat k) ns) None = Some a" unfolding d by simp
    then show ?thesis using e(1) holdsD [OF e(2)] True by (simp add: drop_map)
  next
    case False
    have "take (nat k) ns \<noteq> []" "drop (Suc (nat k)) ns \<noteq> []" using False k assms(2,3) by auto
    from erase_inside_rep [OF _ this, of l h a v] assms(1) sp d show ?thesis
      by (fastforce simp: holds_def take_map drop_map)
  qed
qed

lemma run_op_holds:
  assumes "holds s xs" "run_pre p xs"
  shows "\<exists>s'. run_op p s = Some (Inr s') \<and> holds s' (spec_op p xs)"
proof -
  obtain l h where s: "s = (l, h)" by fastforce
  then obtain ns where ns: "list_rep l h ns" "map snd ns = xs" using assms(1) by (auto simp: holds_def)
  show ?thesis
  proof (cases p)
    case (Push_front v)
    obtain l' h' where 1: "push_front v (l, h) = Inr (l', h')" "list_rep l' h' ((brk h, v) # ns)"
      using push_front_rep [OF ns(1), of v] assms(2) Push_front ns(2) by auto
    then show ?thesis using holdsI [OF 1(2) refl] Push_front ns(2) s by simp
  next
    case (Push_back v)
    obtain l' h' where 1: "push_back v (l, h) = Inr (l', h')" "list_rep l' h' (ns @ [(brk h, v)])"
      using push_back_rep [OF ns(1), of v] assms(2) Push_back ns(2) by auto
    then show ?thesis using holdsI [OF 1(2) refl] Push_back ns(2) s by simp
  next
    case Pop_back
    then show ?thesis
      using pop_back_rep [of l h "butlast ns" "last ns"] pop_back_empty [of l h] ns s
      by (cases "ns = []") (auto simp: map_butlast [symmetric] dest!: holdsD)
  next
    case (Assign n v)
    then show ?thesis using assign_rep [OF ns(1), of n v] assms(2) s by (auto dest!: holdsD)
  next
    case (Assign_own n k)
    then have k: "n \<le> 0" "0 \<le> k" "nat k < length ns" using assms(2) ns(2) by auto
    then obtain a w where "drop (nat k) ns = (a, w) # drop (Suc (nat k)) ns" by (metis Cons_nth_drop_Suc surj_pair)
    then have "it_plus (list_begin l) k h = Inr (Some a)" using it_plus_rep [OF ns(1) k(2)] k(3) by simp
    then show ?thesis using clear_rep [OF ns(1)] k(1) Assign_own s by (auto simp: list_assign_def dest!: holdsD)
  next
    case (Insert k n v)
    then have k: "0 \<le> k" "k \<le> int (length ns)" "0 \<le> n" "int (length ns) + n \<le> INT_MAX" using assms(2) ns(2) by auto
    show ?thesis
      using insert_op [OF ns(1) k, of v] it_plus_rep [OF ns(1) k(1,2)] Insert s ns(2) by auto
  next
    case (Erase k)
    then have k: "0 \<le> k" "k + 1 < int (length ns) \<or> k = 0 \<and> length ns = 1"
      using assms(2) ns(2) by auto
    then have "k \<le> int (length ns)" by linarith
    then show ?thesis
      using erase_op [OF ns(1) k] it_plus_rep [OF ns(1) k(1)] Erase s ns(2) by auto
  next
    case Reverse
    then show ?thesis using reserve_rep [OF ns(1)] ns(2) s by (auto simp: rev_map dest!: holdsD)
  next
    case Clear
    then show ?thesis using clear_rep [OF ns(1)] s by (auto dest!: holdsD)
  qed
qed

text \<open>\<^verbatim>\<open>assign\<close> of an element of the list itself: \<^verbatim>\<open>clear\<close> has deleted the node when it is read.\<close>

lemma assign_own_dangles:
  assumes "holds s xs" "0 < n" "0 \<le> k" "k < int (length xs)"
  shows "run_op (Assign_own n k) s = Some (Inl Dangling)"
proof -
  obtain l h where s: "s = (l, h)" by fastforce
  then obtain ns where ns: "list_rep l h ns" "map snd ns = xs" using assms(1) by (auto simp: holds_def)
  have k: "nat k < length ns" using assms(3,4) ns(2) by auto
  obtain a w where aw: "ns ! nat k = (a, w)" by fastforce
  then have "drop (nat k) ns = (a, w) # drop (Suc (nat k)) ns" using k by (metis Cons_nth_drop_Suc)
  then have pos: "it_plus (list_begin l) k h = Inr (Some a)" using it_plus_rep [OF ns(1) assms(3)] k by simp
  have a: "a \<in> fst ` set ns" using aw k by (metis fst_conv image_eqI nth_mem)
  obtain l1 h1 where 1: "list_clear (l, h) = Inr (l1, h1)" "cell h1 a = None"
    using clear_frees [OF ns(1)] a by blast
  obtain m where "nat n = Suc m" using assms(2) by (cases "nat n") auto
  then show ?thesis using pos 1 s by (simp add: list_assign_def)
qed

lemma run_ops_holds:
  "holds s xs \<Longrightarrow> runs_pre ps xs \<Longrightarrow> \<exists>s'. run_ops ps s = Some (Inr s') \<and> holds s' (fold spec_op ps xs)"
proof (induction ps arbitrary: s xs)
  case (Cons p ps)
  obtain s1 where s1: "run_op p s = Some (Inr s1)" "holds s1 (spec_op p xs)"
    using run_op_holds Cons.prems by (metis runs_pre.simps(2))
  then show ?case using Cons.IH [OF s1(2)] Cons.prems by auto
qed simp


section \<open>Properties\<close>

lemma List_new_holds: "holds (List_new, \<lparr>cell = \<lambda>_. None, brk = 0\<rparr>) []"
  by (simp add: holds_def list_rep_def List_new_def)

text \<open>C29: Any sequence of \<^verbatim>\<open>push_front\<close>, \<^verbatim>\<open>push_back\<close>, \<^verbatim>\<open>pop_back\<close>, \<^verbatim>\<open>assign\<close> of a value from outside,
  \<^verbatim>\<open>insert\<close>, \<^verbatim>\<open>erase\<close> of an element that is not the last of several, \<^verbatim>\<open>reserve\<close> (reversal) and \<^verbatim>\<open>clear\<close> on a
  new list, with positions in range and without ever exceeding the greatest \<^verbatim>\<open>int\<close> as size, returns without touching a freed
  or null pointer and leaves a list linked in both directions that holds what the same operations give on lists;
  \<^verbatim>\<open>display\<close> then returns and prints exactly these values.  But \<^verbatim>\<open>assign\<close> of one of the list's own elements, at
  least once, always reads a deleted node.\<close>

theorem list_refines_list:
  assumes "runs_pre ps []"
  shows "\<exists>s. run_ops ps (List_new, \<lparr>cell = \<lambda>_. None, brk = 0\<rparr>) = Some (Inr s)
    \<and> holds s (fold spec_op ps []) \<and> list_display s = Some (Inr (fold spec_op ps []))
    \<and> list_size (fst s) = int (length (fold spec_op ps []))
    \<and> (\<forall>n k. 0 < n \<and> 0 \<le> k \<and> k < int (length (fold spec_op ps [])) \<longrightarrow> run_op (Assign_own n k) s = Some (Inl Dangling))"
proof -
  obtain s where s: "run_ops ps (List_new, \<lparr>cell = \<lambda>_. None, brk = 0\<rparr>) = Some (Inr s)"
    "holds s (fold spec_op ps [])"
    using run_ops_holds [OF List_new_holds assms] by blast
  then obtain ns where ns: "list_rep (fst s) (snd s) ns" "map snd ns = fold spec_op ps []"
    by (auto simp: holds_def)
  have "list_size (fst s) = int (length ns)" using ns(1) by (simp add: list_rep_def list_size_def)
  moreover have "list_display s = Some (Inr (map snd ns))"
    using chain_display [OF list_rep_chain [OF ns(1)]] by simp
  ultimately show ?thesis using s ns(2) assign_own_dangles [OF s(2)] by (intro exI [of _ s]) (metis length_map)
qed

theorem list_refines_list_witness:
  "\<exists>s. run_ops [Push_back 1, Push_back 2, Insert 1 1 7, Reverse, Erase 0]
     (List_new, \<lparr>cell = \<lambda>_. None, brk = 0\<rparr>) = Some (Inr s) \<and> holds s [7, 1 :: nat] \<and>
     run_op (Assign_own 3 0) s = Some (Inl Dangling)"
  using list_refines_list [of "[Push_back 1, Push_back 2, Insert 1 1 7, Reverse, Erase 0 :: nat list_op]"]
  by (auto simp: INT_MAX_def)

text \<open>\<^verbatim>\<open>pop_front\<close> on a list of two or more elements deletes the second node instead of the first and
  makes the deleted node the head: every later \<^verbatim>\<open>front\<close>, \<^verbatim>\<open>pop_front\<close> or \<^verbatim>\<open>display\<close> reads freed memory.\<close>

theorem pop_front_deletes_the_new_head:
  assumes "list_rep l h ((a, v) # (b, w) # ns)"
  shows "\<exists>l' h'. pop_front (l, h) = Inr (l', h') \<and> m_head l' = Some b \<and> cell h' b = None
    \<and> cell h' a = cell h a \<and> list_front (l', h') = Inl Dangling
    \<and> list_display (l', h') = Some (Inl Dangling)"
proof -
  have c: "cell h a = Some \<lparr>m_value = v, m_prev = None, m_next = Some b\<rparr>"
    "cell h b = Some \<lparr>m_value = w, m_prev = Some a, m_next = first ns None\<rparr>" "a \<noteq> b"
    "m_head l = Some a" "m_size l = 2 + int (length ns)"
    using assms by (auto simp: list_rep_def)
  then show ?thesis
    by (simp add: pop_front_def list_front_def list_display_def display_loop.simps [of "Some b"] Let_def)
qed

theorem pop_front_deletes_the_new_head_witness:
  "\<exists>s. pop_front (\<lparr>m_head = Some 0, m_tail = Some 1, m_size = 2\<rparr>,
      \<lparr>cell = [0 \<mapsto> \<lparr>m_value = 5, m_prev = None, m_next = Some 1\<rparr>,
               1 \<mapsto> \<lparr>m_value = 6 :: nat, m_prev = Some 0, m_next = None\<rparr>], brk = 2\<rparr>) = Inr s
    \<and> list_front s = Inl Dangling"
  using pop_front_deletes_the_new_head [of "\<lparr>m_head = Some 0, m_tail = Some 1, m_size = 2\<rparr>"
     "\<lparr>cell = [0 \<mapsto> \<lparr>m_value = 5, m_prev = None, m_next = Some 1\<rparr>,
               1 \<mapsto> \<lparr>m_value = 6 :: nat, m_prev = Some 0, m_next = None\<rparr>], brk = 2\<rparr>" 0 5 1 6 "[]"]
  by (auto simp: list_rep_def)

text \<open>Erasing the last of several elements returns \<^verbatim>\<open>end()\<close> but leaves \<^verbatim>\<open>m_tail\<close> pointing at the deleted
  node, so that the next \<^verbatim>\<open>push_back\<close>, \<^verbatim>\<open>back\<close> or \<^verbatim>\<open>pop_back\<close> uses freed memory.\<close>

theorem erase_last_leaves_tail_dangling:
  assumes "list_rep l h (xs @ [(b, u), (a, v)])"
  shows "\<exists>l' h'. list_erase (Some a) (l, h) = Inr ((l', h'), None) \<and> m_tail l' = Some a
    \<and> cell h' a = None \<and> list_back (l', h') = Inl Dangling \<and> push_back x (l', h') = Inl Dangling
    \<and> (xs \<noteq> [] \<longrightarrow> pop_back (l', h') = Inl Dangling)"
proof -
  have c: "cell h a = Some \<lparr>m_value = v, m_prev = Some b, m_next = None\<rparr>"
    "cell h b = Some \<lparr>m_value = u, m_prev = last_of None xs, m_next = Some a\<rparr>" "a \<noteq> b"
    "m_tail l = Some a" "m_size l = 2 + int (length xs)" "a < brk h"
    using assms by (auto simp: list_rep_def)
  have "m_head l \<noteq> Some a" using assms by (cases xs) (auto simp: list_rep_def)
  moreover have "list_end (l, h) = Inr None" using list_end_rep [OF assms] by simp
  ultimately show ?thesis
    using c by (simp add: list_erase_def list_begin_def list_back_def push_back_def pop_back_def
        new_node_def Let_def)
qed

theorem erase_last_leaves_tail_dangling_witness:
  "\<exists>s. list_erase (Some 1) (\<lparr>m_head = Some 0, m_tail = Some 1, m_size = 2\<rparr>,
      \<lparr>cell = [0 \<mapsto> \<lparr>m_value = 5, m_prev = None, m_next = Some 1\<rparr>,
               1 \<mapsto> \<lparr>m_value = 6 :: nat, m_prev = Some 0, m_next = None\<rparr>], brk = 2\<rparr>) = Inr (s, None)
    \<and> push_back 9 s = Inl Dangling"
  using erase_last_leaves_tail_dangling [of "\<lparr>m_head = Some 0, m_tail = Some 1, m_size = 2\<rparr>"
     "\<lparr>cell = [0 \<mapsto> \<lparr>m_value = 5, m_prev = None, m_next = Some 1\<rparr>,
               1 \<mapsto> \<lparr>m_value = 6 :: nat, m_prev = Some 0, m_next = None\<rparr>], brk = 2\<rparr>" "[]" 0 5 1 6 9]
  by (auto simp: list_rep_def)

text \<open>\<^verbatim>\<open>resize(n)\<close> goes only half of the way, rounded up: its loops compare a counter with a distance
  to \<^verbatim>\<open>m_size\<close> that shrinks in every turn.\<close>

theorem resize_goes_half_way:
  assumes "holds s xs" "0 \<le> n" "n \<le> INT_MAX"
  shows "\<exists>s'. list_resize dflt n s = Some (Inr s')
    \<and> (if n < int (length xs) then holds s' (take (length xs - (length xs - nat n + 1) div 2) xs)
       else holds s' (xs @ replicate ((nat n - length xs + 1) div 2) dflt))"
proof -
  obtain l h ns where ns: "s = (l, h)" "list_rep l h ns" "map snd ns = xs"
    using assms(1) by (cases s) (auto simp: holds_def)
  have sz: "m_size l = int (length ns)" "length ns = length xs" using ns(2,3) by (auto simp: list_rep_def)
  show ?thesis
  proof (cases "n < int (length xs)")
    case True
    then have k: "nat ((int (length ns) - n - 0 + 1) div 2) = (length xs - nat n + 1) div 2"
      using assms(2) sz(2) by (simp add: nat_div_distrib nat_diff_distrib')
    obtain l' h' where "shrink_loop 0 n (l, h) = Some (Inr (l', h'))"
      "list_rep l' h' (take (length ns - nat ((int (length ns) - n - 0 + 1) div 2)) ns)"
      using shrink_loop_rep [OF ns(2) assms(2), of 0] by auto
    moreover from this have "holds (l', h') (take (length xs - (length xs - nat n + 1) div 2) xs)"
      using holdsD ns(3) sz(2) k by (metis take_map)
    ultimately show ?thesis using True ns(1) sz by (simp add: list_resize_def)
  next
    case False
    then have k: "nat ((n - int (length ns) - 0 + 1) div 2) = (nat n - length xs + 1) div 2"
      using assms(2) sz(2) by (simp add: nat_div_distrib nat_diff_distrib')
    obtain l' h' ms where "extend_loop dflt 0 n (l, h) = Some (Inr (l', h'))" "list_rep l' h' (ns @ ms)"
      "map snd ms = replicate (nat ((n - int (length ns) - 0 + 1) div 2)) dflt"
      using extend_loop_rep [OF ns(2) _ assms(3), of 0 dflt] by auto
    moreover from this have "holds (l', h') (xs @ replicate ((nat n - length xs + 1) div 2) dflt)"
      using holdsI ns(3) k by (metis map_append)
    ultimately show ?thesis using False ns(1) sz by (simp add: list_resize_def)
  qed
qed

theorem resize_goes_half_way_witness:
  "\<exists>s. list_resize (0 :: nat) 4 (List_new, \<lparr>cell = \<lambda>_. None, brk = 0\<rparr>) = Some (Inr s) \<and> holds s [0, 0]"
proof -
  have r: "replicate 2 (0 :: nat) = [0, 0]" by (simp add: numeral_2_eq_2)
  show ?thesis using resize_goes_half_way [OF List_new_holds, of 4 "0 :: nat"] by (auto simp: r INT_MAX_def)
qed


text \<open>\<^verbatim>\<open>remove(v)\<close> always returns: it dereferences the null pointer where \<open>removed v\<close> is \<open>None\<close> (every
  element is \<open>v\<close>, or the scan meets \<open>v\<close> in the last node), and otherwise leaves the values
  \<open>removed v xs\<close> in the list, which still hold every second of a run of \<open>v\<close>s behind the first
  other element.\<close>

theorem remove_scan:
  assumes "holds s xs"
  shows "case removed v xs of
      None \<Rightarrow> list_remove (Outside v) s = Some (Inl Null_Deref)
    | Some ws \<Rightarrow> \<exists>s'. list_remove (Outside v) s = Some (Inr s') \<and> list_display s' = Some (Inr ws)
        \<and> list_size (fst s') = int (length ws)"
proof -
  obtain l h ns where ns: "s = (l, h)" "list_rep l h ns" "map snd ns = xs"
    using assms by (cases s) (auto simp: holds_def)
  show ?thesis
  proof (cases "ns = []")
    case True
    then have "m_size l = 0" "xs = []" "list_display s = Some (Inr [])"
      using ns chain_display [OF list_rep_chain [OF ns(2)]] by (auto simp: list_rep_def)
    then show ?thesis using ns(1) by (simp add: removed_def list_remove_def list_size_def)
  next
    case False
    then have sz: "m_size l \<noteq> 0" "xs \<noteq> []" using ns by (auto simp: list_rep_def)
    note front = remove_front_chain [OF list_rep_chain [OF ns(2)] False, of v]
    show ?thesis
    proof (cases "\<forall>n \<in> set ns. snd n = v")
      case True
      then have "removed v xs = None" using ns(3) sz(2) by (auto simp: removed_def)
      then show ?thesis using front True sz ns(1) by (simp add: list_remove_def)
    next
      case False
      let ?ds = "dropWhile (\<lambda>n. snd n = v) ns"
      obtain l1 h1 where 1: "remove_front (Outside v) (l, h) = Some (Inr (l1, h1))" "chain_rep l1 h1 ?ds"
        using front False by auto
      have rem: "removed v xs = remove_tail v (map snd ?ds)"
      proof -
        have "\<not> (\<forall>x \<in> set xs. x = v)" using False unfolding ns(3) [symmetric] by simp
        then show ?thesis using sz(2) unfolding removed_def ns(3) [symmetric]
          by (auto simp: dropWhile_map comp_def)
      qed
      obtain p where p: "distinct (map fst ([] @ ?ds))" "dseg (cell h1) p ([] @ ?ds) None"
        "m_head l1 = first ([] @ ?ds) None" "m_size l1 = int (length ([] @ ?ds))"
        using 1(2) by (auto simp: chain_rep_def)
      have "list_remove (Outside v) s = remove_rest (Outside v) (first ?ds None) (l1, h1)"
        using 1(1) p(3) sz(1) ns(1) by (simp add: list_remove_def)
      with remove_rest_chain [OF p, of v] show ?thesis
        unfolding rem by (fastforce split: option.splits dest: chain_display chain_size)
    qed
  qed
qed

theorem remove_scan_witness:
  "\<exists>s s'. holds s [1, 2, 2, 3 :: nat] \<and> list_remove (Outside 2) s = Some (Inr s') \<and> list_display s' = Some (Inr [1, 2, 3])"
proof -
  obtain s :: "nat lst" where s: "holds s [1, 2, 2, 3]"
    using run_ops_holds [OF List_new_holds, of "[Push_back 1, Push_back 2, Push_back 2, Push_back 3 :: nat list_op]"]
    by (auto simp: INT_MAX_def)
  from remove_scan [OF s, of 2] obtain s' where
    "list_remove (Outside 2) s = Some (Inr s')" "list_display s' = Some (Inr [1, 2, 3])"
    by (auto simp: removed_def)
  with s show ?thesis by blast
qed

text \<open>\<^verbatim>\<open>merge\<close> of two lists that hold elements links them into the concatenation and empties the other
  one; when either list is empty it dereferences the null pointer.\<close>

theorem merge_concatenates_nonempty_lists:
  assumes "list_rep l h ns" "list_rep m h ms" "distinct (map fst (ns @ ms))" "int (length (ns @ ms)) \<le> INT_MAX"
  shows "if ns = [] \<or> ms = [] then list_merge l m h = Inl Null_Deref
    else \<exists>l' h'. list_merge l m h = Inr (l', \<lparr>m_head = None, m_tail = None, m_size = 0\<rparr>, h')
      \<and> list_rep l' h' (ns @ ms)"
proof -
  consider "ns = []" | xs a v where "ns = xs @ [(a, v)]" "ms = []"
    | xs a v b w ys where "ns = xs @ [(a, v)]" "ms = (b, w) # ys"
    by (metis list.exhaust rev_exhaust surj_pair)
  then show ?thesis
  proof cases
    case 1
    then show ?thesis using assms(1) by (simp add: list_merge_def list_rep_def)
  next
    case 2
    then have "cell h a \<noteq> None" "m_tail l = Some a" "m_head m = None" using assms by (auto simp: list_rep_def)
    with 2 show ?thesis by (auto simp: list_merge_def)
  next
    case 3
    with merge_rep [of l h xs a v m b w ys] assms show ?thesis by auto
  qed
qed

theorem merge_concatenates_nonempty_lists_witness:
  "list_merge List_new List_new (\<lparr>cell = \<lambda>_. None, brk = 0\<rparr> :: nat heap) = Inl Null_Deref"
  using merge_concatenates_nonempty_lists [of List_new "\<lparr>cell = \<lambda>_. None, brk = 0\<rparr> :: nat heap" "[]" List_new "[]"]
  by (simp add: list_rep_def List_new_def INT_MAX_def)

end
