(* ===== verification/ThreadPool.thy ===== *)
theory ThreadPool
  imports Prelude "HOL-Library.Multiset"
begin

text \<open>
  The thread pool \<^verbatim>\<open>ThreadPool_C_C++/C/threadPool.c\<close>: its ring buffer of tasks, its counters and the
  interleavings of its worker threads, its manager thread, the callers of \<^verbatim>\<open>threadPoolAdd\<close> and the
  caller of \<^verbatim>\<open>threadPoolDestroy\<close>.

  A system state is the pool, the owner of \<^verbatim>\<open>mutexPool\<close> and the program counter of every thread; thread
  \<open>i\<close> of the list has the \<^verbatim>\<open>pthread_t\<close> \<open>Suc i\<close>, 0 marks an empty slot of \<^verbatim>\<open>threadIDs\<close>.  One step is
  what a thread does between two points where another thread can interfere: a critical section of
  \<^verbatim>\<open>mutexPool\<close> or \<^verbatim>\<open>mutexBusy\<close>, the release of the mutex by \<^verbatim>\<open>pthread_cond_wait\<close>, or one access outside
  the mutexes (\<^verbatim>\<open>shutdown\<close>, \<^verbatim>\<open>threadIDs\<close> in \<^verbatim>\<open>threadDestroy\<close>, the signals).  \<^verbatim>\<open>pthread_cond_signal\<close> wakes one
  waiting thread if there is one, and a waiting thread may also wake by itself, as POSIX allows.
  (The scan of \<^verbatim>\<open>threadDestroy\<close> looks for the slot of its own thread, which no other thread changes.)

  \<^verbatim>\<open>pthread_create\<close> can fail, and its result is never looked at: the field \<open>creation\<close> of a system state says
  for every thread, by its place in the list, whether its creation succeeds (\<open>None\<close>) or fails and what it leaves in the slot
  (\<open>Some v\<close>; POSIX leaves it undefined).  \<^verbatim>\<open>threadIDs\<close> has 100 slots whatever \<^verbatim>\<open>minNum\<close> and \<^verbatim>\<open>maxNum\<close>
  are: an access behind them, or a \<^verbatim>\<open>pthread_join\<close> of a manager that was never created, sets \<open>undefined_access\<close>, and a run
  ends there.
  The fields \<open>log_added\<close> and \<open>log_taken\<close> only record the order in which tasks were put and taken.
\<close>

section \<open>The pool\<close>

definition max_threads :: nat where
  "max_threads = 100"

definition NUMBER :: nat where
  "NUMBER = 2"

record 'a pool =
  taskQ :: "'a option list"
  queueCapacity :: nat
  queueSize :: nat
  queueFront :: nat
  queueRear :: nat
  threadIDs :: "nat list"
  minNum :: nat
  maxNum :: nat
  busyNum :: nat
  liveNum :: nat
  exitNum :: nat
  shutdown :: bool
  undefined_access :: bool

text \<open>What \<^verbatim>\<open>pthread_create\<close> leaves in the slot of thread \<open>k\<close>\<close>

definition created_id :: "(nat \<Rightarrow> nat option) \<Rightarrow> nat \<Rightarrow> nat" where
  "created_id cr k = (case cr k of None \<Rightarrow> Suc k | Some v \<Rightarrow> v)"

text \<open>The manager is thread 0, the workers are the threads from 1 on.\<close>

definition threadPoolCreate :: "(nat \<Rightarrow> nat option) \<Rightarrow> nat \<Rightarrow> nat \<Rightarrow> nat \<Rightarrow> 'a pool" where
  "threadPoolCreate cr minN maxN qs =
     \<lparr>taskQ = replicate qs None, queueCapacity = qs, queueSize = 0, queueFront = 0, queueRear = 0,
      threadIDs = take max_threads (map (created_id cr) [1 ..< Suc minN]) @ replicate (max_threads - minN) 0,
      minNum = minN, maxNum = maxN, busyNum = 0, liveNum = minN, exitNum = 0, shutdown = False,
      undefined_access = (max_threads < minN)\<rparr>"

text \<open>The end of \<^verbatim>\<open>threadPoolAdd\<close>: store the task at the rear.\<close>

definition put_task :: "'a \<Rightarrow> 'a pool \<Rightarrow> 'a pool" where
  "put_task t p = p\<lparr>taskQ := (taskQ p)[queueRear p := Some t],
     queueRear := (queueRear p + 1) mod queueCapacity p, queueSize := queueSize p + 1\<rparr>"

text \<open>The worker takes the task at the front.\<close>

definition take_task :: "'a pool \<Rightarrow> 'a option \<times> 'a pool" where
  "take_task p = (taskQ p ! queueFront p,
     p\<lparr>queueFront := (queueFront p + 1) mod queueCapacity p, queueSize := queueSize p - 1\<rparr>)"

definition busy_inc :: "'a pool \<Rightarrow> 'a pool" where
  "busy_inc p = p\<lparr>busyNum := busyNum p + 1\<rparr>"

definition busy_dec :: "'a pool \<Rightarrow> 'a pool" where
  "busy_dec p = p\<lparr>busyNum := busyNum p - 1\<rparr>"

text \<open>What a worker does when it wakes up: \<open>True\<close> if it is to be destroyed.\<close>

definition exit_check :: "'a pool \<Rightarrow> 'a pool \<times> bool" where
  "exit_check p =
     (if 0 < exitNum p then
        (let p1 = p\<lparr>exitNum := exitNum p - 1\<rparr> in
         if minNum p1 < liveNum p1 then (p1\<lparr>liveNum := liveNum p1 - 1\<rparr>, True) else (p1, False))
      else (p, False))"

text \<open>The loop of \<^verbatim>\<open>threadDestroy\<close> over the slots\<close>

fun clear_slot :: "nat \<Rightarrow> nat list \<Rightarrow> nat \<Rightarrow> nat list" where
  "clear_slot pid (i # ids) (Suc n) = (if i = pid then 0 # ids else i # clear_slot pid ids n)"
| "clear_slot pid ids n = ids"

definition threadDestroy :: "nat \<Rightarrow> 'a pool \<Rightarrow> 'a pool" where
  "threadDestroy pid p = p\<lparr>threadIDs := clear_slot pid (threadIDs p) (maxNum p),
     undefined_access := (undefined_access p \<or> length (threadIDs p) < maxNum p \<and> pid \<notin> set (threadIDs p))\<rparr>"

text \<open>The loop with which the manager adds threads: \<open>k\<close> is the number of the next new thread; the result has
  the number of threads for which \<^verbatim>\<open>pthread_create\<close> was called.\<close>

fun add_threads :: "(nat \<Rightarrow> nat option) \<Rightarrow> nat \<Rightarrow> nat \<Rightarrow> nat \<Rightarrow> nat \<Rightarrow> 'a pool \<Rightarrow> 'a pool \<times> nat" where
  "add_threads cr k counter i 0 p = (p, counter)"
| "add_threads cr k counter i (Suc n) p =
     (if counter < NUMBER \<and> liveNum p < maxNum p then
        (if length (threadIDs p) \<le> i then (p\<lparr>undefined_access := True\<rparr>, counter)
         else if threadIDs p ! i = 0 then
           add_threads cr (Suc k) (counter + 1) (i + 1) n
             (p\<lparr>threadIDs := (threadIDs p)[i := created_id cr k], liveNum := liveNum p + 1\<rparr>)
         else add_threads cr k counter (i + 1) n p)
      else (p, counter))"

definition threadPoolBusyNum :: "'a pool \<Rightarrow> nat" where
  "threadPoolBusyNum p = busyNum p"

definition threadPoolAliveNum :: "'a pool \<Rightarrow> nat" where
  "threadPoolAliveNum p = liveNum p"

section \<open>The ring buffer is a queue\<close>

text \<open>The contract of a bounded queue and what its clients use of it\<close>

locale bounded_queue =
  fixes content :: "'q \<Rightarrow> 'a list" and capacity :: "'q \<Rightarrow> nat" and ok :: "'q \<Rightarrow> bool"
    and put :: "'a \<Rightarrow> 'q \<Rightarrow> 'q" and get :: "'q \<Rightarrow> 'a option \<times> 'q"
  assumes bounded: "ok q \<Longrightarrow> length (content q) \<le> capacity q"
    and put_ok: "ok q \<Longrightarrow> length (content q) < capacity q \<Longrightarrow> ok (put x q)"
    and put_content: "ok q \<Longrightarrow> length (content q) < capacity q \<Longrightarrow> content (put x q) = content q @ [x]"
    and get_ok: "ok q \<Longrightarrow> content q \<noteq> [] \<Longrightarrow> ok (snd (get q))"
    and get_content: "ok q \<Longrightarrow> content q \<noteq> [] \<Longrightarrow> \<exists>x. fst (get q) = Some x \<and> content q = x # content (snd (get q))"
begin

text \<open>A log of what went in is a log of what came out followed by what is still inside.\<close>

definition logged :: "'a list \<Rightarrow> 'a list \<Rightarrow> 'q \<Rightarrow> bool" where
  "logged ins outs q \<longleftrightarrow> ins = outs @ content q"

lemma logged_put:
  "ok q \<Longrightarrow> length (content q) < capacity q \<Longrightarrow> logged ins outs q \<Longrightarrow> logged (ins @ [x]) outs (put x q)"
  by (simp add: logged_def put_content)

lemma logged_get:
  "ok q \<Longrightarrow> content q \<noteq> [] \<Longrightarrow> logged ins outs q \<Longrightarrow>
   \<exists>x. fst (get q) = Some x \<and> logged ins (outs @ [x]) (snd (get q))"
  using get_content [of q] by (auto simp: logged_def)

end

definition ring_content :: "'a pool \<Rightarrow> 'a list" where
  "ring_content p = map (\<lambda>k. the (taskQ p ! ((queueFront p + k) mod queueCapacity p))) [0 ..< queueSize p]"

definition ring_ok :: "'a pool \<Rightarrow> bool" where
  "ring_ok p \<longleftrightarrow> 0 < queueCapacity p \<and> length (taskQ p) = queueCapacity p \<and> queueFront p < queueCapacity p
     \<and> queueSize p \<le> queueCapacity p \<and> queueRear p = (queueFront p + queueSize p) mod queueCapacity p
     \<and> (\<forall>k < queueSize p. taskQ p ! ((queueFront p + k) mod queueCapacity p) \<noteq> None)"

lemma mod_add_inj:
  assumes "k < c" "j < c" "(f + k) mod c = (f + j) mod (c :: nat)"
  shows "k = j"
proof -
  have main: "a = b" if "a \<le> b" "b < c" "(f + a) mod c = (f + b) mod c" for a b
  proof -
    have "c dvd (f + b) - (f + a)" using that mod_eq_dvd_iff_nat [of "f + a" "f + b" c] by simp
    then have "c dvd b - a" by simp
    moreover have "b - a < c" using that(2) by simp
    ultimately have "b - a = 0" by (metis gr0I nat_dvd_not_less)
    then show ?thesis using that(1) by simp
  qed
  show ?thesis using main [of k j] main [of j k] assms by (cases "k \<le> j") auto
qed

lemma put_ring:
  assumes "ring_ok p" "queueSize p < queueCapacity p"
  shows "ring_ok (put_task t p) \<and> ring_content (put_task t p) = ring_content p @ [t]"
proof -
  let ?c = "queueCapacity p" and ?f = "queueFront p" and ?n = "queueSize p"
  have rear: "queueRear p = (?f + ?n) mod ?c" "queueRear p < length (taskQ p)"
    using assms by (auto simp: ring_ok_def)
  have other: "(?f + k) mod ?c \<noteq> queueRear p" if "k < ?n" for k
    using mod_add_inj [of k ?c ?n ?f] that assms(2) rear(1) by auto
  have cell: "(taskQ p)[queueRear p := Some t] ! ((?f + k) mod ?c) =
      (if k = ?n then Some t else taskQ p ! ((?f + k) mod ?c))" if "k < Suc ?n" for k
    using that other [of k] rear by (cases "k = ?n") auto
  have "(queueRear p + 1) mod ?c = (?f + (?n + 1)) mod ?c"
    unfolding rear(1) by (metis add.assoc mod_add_left_eq)
  then have "ring_ok (put_task t p)"
    using assms cell unfolding ring_ok_def by (auto simp: put_task_def less_Suc_eq)
  moreover have "ring_content (put_task t p) = ring_content p @ [t]"
    using cell by (simp add: ring_content_def put_task_def)
  ultimately show ?thesis by blast
qed

lemma take_ring:
  assumes "ring_ok p" "0 < queueSize p"
  shows "ring_ok (snd (take_task p)) \<and>
    (\<exists>t. fst (take_task p) = Some t \<and> ring_content p = t # ring_content (snd (take_task p)))"
proof -
  let ?c = "queueCapacity p" and ?f = "queueFront p" and ?n = "queueSize p"
  have c: "0 < ?c" "?f < ?c" "?n \<le> ?c" using assms by (auto simp: ring_ok_def)
  obtain n where n: "?n = Suc n" using assms(2) by (cases ?n) auto
  have shift: "((?f + 1) mod ?c + k) mod ?c = (?f + Suc k) mod ?c" for k
    by (metis add.assoc add_Suc_right mod_add_left_eq plus_1_eq_Suc add.commute)
  have cells: "taskQ p ! ((?f + k) mod ?c) \<noteq> None" if "k < ?n" for k
    using assms(1) that by (auto simp: ring_ok_def)
  have rear: "queueRear p = ((?f + 1) mod ?c + n) mod ?c"
    using assms(1) n shift [of n] by (simp add: ring_ok_def)
  have "ring_ok (snd (take_task p))"
    using assms(1) c n rear cells [of "Suc k" for k] shift
    unfolding ring_ok_def by (auto simp: take_task_def)
  moreover obtain t where t: "taskQ p ! ?f = Some t" using cells [of 0] assms(2) c by auto
  moreover have "ring_content p = t # ring_content (snd (take_task p))"
  proof -
    have "[0 ..< Suc n] = 0 # map Suc [0 ..< n]" by (simp add: map_Suc_upt upt_conv_Cons)
    then show ?thesis
      using t c shift unfolding ring_content_def n by (simp add: take_task_def n)
  qed
  ultimately show ?thesis by (auto simp: take_task_def)
qed

lemma length_ring [simp]: "length (ring_content p) = queueSize p"
  by (simp add: ring_content_def)

interpretation ring: bounded_queue ring_content queueCapacity ring_ok put_task take_task
proof unfold_locales
  fix p :: "'a pool" and x :: 'a
  assume ok: "ring_ok p"
  show "length (ring_content p) \<le> queueCapacity p" using ok by (simp add: ring_ok_def)
  show "ring_ok (put_task x p)" "ring_content (put_task x p) = ring_content p @ [x]"
    if "length (ring_content p) < queueCapacity p"
    using put_ring [OF ok] that by simp_all
  show "ring_ok (snd (take_task p))"
    "\<exists>x. fst (take_task p) = Some x \<and> ring_content p = x # ring_content (snd (take_task p))"
    if "ring_content p \<noteq> []"
  proof -
    have "0 < queueSize p" using that by (metis length_greater_0_conv length_ring)
    from take_ring [OF ok this]
    show "ring_ok (snd (take_task p))"
      "\<exists>x. fst (take_task p) = Some x \<and> ring_content p = x # ring_content (snd (take_task p))"
      by simp_all
  qed
qed


section \<open>Threads\<close>

datatype 'a pc =
    W_Lock            \<comment> \<open>worker, line 145\<close>
  | W_ToWait          \<comment> \<open>worker holding the mutex, about to wait in line 147\<close>
  | W_Waiting
  | W_Woken           \<comment> \<open>worker that was woken and waits for the mutex\<close>
  | W_Got 'a          \<comment> \<open>worker with a task, line 178\<close>
  | W_Busy 'a         \<comment> \<open>worker running its task, line 182\<close>
  | W_Ran             \<comment> \<open>worker, line 186\<close>
  | W_Destroy         \<comment> \<open>worker in \<^verbatim>\<open>threadDestroy\<close>\<close>
  | A_Lock 'a         \<comment> \<open>caller of \<^verbatim>\<open>threadPoolAdd\<close>, line 196\<close>
  | A_ToWait 'a       \<comment> \<open>the caller holding the mutex, about to wait in line 199\<close>
  | A_Waiting 'a
  | A_Woken 'a
  | A_Unlocked 'a     \<comment> \<open>the caller behind the unlock of line 202\<close>
  | M_Loop            \<comment> \<open>manager, line 97\<close>
  | M_Sleep           \<comment> \<open>manager, line 99\<close>
  | M_Busy nat nat    \<comment> \<open>manager, line 108, with its \<^verbatim>\<open>queueSize\<close> and \<^verbatim>\<open>liveNum\<close>\<close>
  | M_Decide nat nat nat \<comment> \<open>manager, line 113, with its \<^verbatim>\<open>busyNum\<close> as well\<close>
  | M_Shrink nat nat  \<comment> \<open>manager, line 128\<close>
  | M_Signal nat      \<comment> \<open>manager, line 133, with signals still to send\<close>
  | D_Start           \<comment> \<open>caller of \<^verbatim>\<open>threadPoolDestroy\<close>, line 246\<close>
  | D_Join            \<comment> \<open>line 248\<close>
  | D_Signal nat      \<comment> \<open>line 250\<close>
  | D_Free            \<comment> \<open>line 254\<close>
  | Exited
  | W_Failed          \<comment> \<open>no thread: the \<^verbatim>\<open>pthread_create\<close> of a worker failed\<close>
  | M_Failed          \<comment> \<open>no thread: the \<^verbatim>\<open>pthread_create\<close> of the manager failed\<close>

record 'a sys =
  pool :: "'a pool"
  owner :: "nat option"
  pcs :: "'a pc list"
  freed :: bool
  creation :: "nat \<Rightarrow> nat option"
  log_added :: "'a list"
  log_taken :: "'a list"

definition new_worker :: "(nat \<Rightarrow> nat option) \<Rightarrow> nat \<Rightarrow> 'a pc" where
  "new_worker cr k = (if cr k = None then W_Lock else W_Failed)"

definition initial :: "(nat \<Rightarrow> nat option) \<Rightarrow> nat \<Rightarrow> nat \<Rightarrow> nat \<Rightarrow> 'a sys" where
  "initial cr minN maxN qs = \<lparr>pool = threadPoolCreate cr minN maxN qs, owner = None,
     pcs = (if cr 0 = None then M_Loop else M_Failed) # map (new_worker cr) [1 ..< Suc minN],
     freed = False, creation = cr, log_added = [], log_taken = []\<rparr>"

fun waits_empty :: "'a pc \<Rightarrow> bool" where
  "waits_empty W_Waiting = True" | "waits_empty _ = False"

fun waits_full :: "'a pc \<Rightarrow> bool" where
  "waits_full (A_Waiting t) = True" | "waits_full _ = False"

fun woken :: "'a pc \<Rightarrow> 'a pc" where
  "woken W_Waiting = W_Woken" | "woken (A_Waiting t) = A_Woken t" | "woken q = q"

text \<open>\<^verbatim>\<open>pthread_cond_signal\<close>: \<open>j\<close> is the thread that wakes up.\<close>

definition cond_signal :: "('a pc \<Rightarrow> bool) \<Rightarrow> nat \<Rightarrow> 'a pc list \<Rightarrow> 'a pc list option" where
  "cond_signal w j ps =
     (if \<not> list_ex w ps then Some ps
      else if j < length ps \<and> w (ps ! j) then Some (ps[j := woken (ps ! j)]) else None)"

definition goto :: "nat \<Rightarrow> 'a pc \<Rightarrow> 'a sys \<Rightarrow> 'a sys" where
  "goto i q s = s\<lparr>pcs := (pcs s)[i := q]\<rparr>"

definition signal_in :: "('a pc \<Rightarrow> bool) \<Rightarrow> nat \<Rightarrow> 'a sys \<Rightarrow> 'a sys option" where
  "signal_in w j s = map_option (\<lambda>ps. s\<lparr>pcs := ps\<rparr>) (cond_signal w j (pcs s))"

text \<open>The worker with the mutex, at the test of line 146, up to the next release of the mutex\<close>

definition worker_section :: "nat \<Rightarrow> nat \<Rightarrow> 'a sys \<Rightarrow> 'a sys option" where
  "worker_section i j s =
     (let p = pool s in
      if queueSize p = 0 \<and> \<not> shutdown p then Some (goto i W_ToWait (s\<lparr>owner := Some i\<rparr>))
      else if shutdown p then Some (goto i W_Destroy s)
      else
        (case take_task p of
           (None, p') \<Rightarrow> None
         | (Some t, p') \<Rightarrow>
             signal_in waits_full j (goto i (W_Got t) (s\<lparr>pool := p', log_taken := log_taken s @ [t]\<rparr>))))"

definition put_step :: "nat \<Rightarrow> nat \<Rightarrow> 'a \<Rightarrow> 'a sys \<Rightarrow> 'a sys option" where
  "put_step i j t s =
     signal_in waits_empty j
       (goto i Exited (s\<lparr>pool := put_task t (pool s), log_added := log_added s @ [t]\<rparr>))"

text \<open>The caller of \<^verbatim>\<open>threadPoolAdd\<close> with the mutex, at the test of line 197\<close>

definition add_section :: "nat \<Rightarrow> nat \<Rightarrow> 'a \<Rightarrow> 'a sys \<Rightarrow> 'a sys option" where
  "add_section i j t s =
     (let p = pool s in
      if queueSize p = queueCapacity p \<and> \<not> shutdown p then Some (goto i (A_ToWait t) (s\<lparr>owner := Some i\<rparr>))
      else if shutdown p then Some (goto i (A_Unlocked t) s)
      else put_step i j t s)"

definition manager_add :: "nat \<Rightarrow> 'a sys \<Rightarrow> 'a sys" where
  "manager_add i s =
     (case add_threads (creation s) (length (pcs s)) 0 0 (maxNum (pool s)) (pool s) of
        (p, n) \<Rightarrow> s\<lparr>pool := p, pcs := pcs s @ map (new_worker (creation s)) [length (pcs s) ..< length (pcs s) + n]\<rparr>)"

text \<open>One step of thread \<open>i\<close>; \<open>None\<close> if the thread cannot run.\<close>

definition thread_step :: "nat \<Rightarrow> nat \<Rightarrow> 'a sys \<Rightarrow> 'a sys option" where
  "thread_step i j s =
     (if freed s \<or> undefined_access (pool s) \<or> length (pcs s) \<le> i then None
      else
       (let p = pool s in
        case pcs s ! i of
          W_Lock \<Rightarrow> if owner s = None then worker_section i j s else None
        | W_ToWait \<Rightarrow> Some (goto i W_Waiting (s\<lparr>owner := None\<rparr>))
        | W_Waiting \<Rightarrow> None
        | W_Woken \<Rightarrow>
            if owner s = None then
              (case exit_check p of
                 (p', True) \<Rightarrow> Some (goto i W_Destroy (s\<lparr>pool := p'\<rparr>))
               | (p', False) \<Rightarrow> worker_section i j (s\<lparr>pool := p'\<rparr>))
            else None
        | W_Got t \<Rightarrow> Some (goto i (W_Busy t) (s\<lparr>pool := busy_inc p\<rparr>))
        | W_Busy t \<Rightarrow> Some (goto i W_Ran s)
        | W_Ran \<Rightarrow> Some (goto i W_Lock (s\<lparr>pool := busy_dec p\<rparr>))
        | W_Destroy \<Rightarrow> Some (goto i Exited (s\<lparr>pool := threadDestroy (Suc i) p\<rparr>))
        | A_Lock t \<Rightarrow> if owner s = None then add_section i j t s else None
        | A_ToWait t \<Rightarrow> Some (goto i (A_Waiting t) (s\<lparr>owner := None\<rparr>))
        | A_Waiting t \<Rightarrow> None
        | A_Woken t \<Rightarrow> if owner s = None then add_section i j t s else None
        | A_Unlocked t \<Rightarrow> put_step i j t s
        | M_Loop \<Rightarrow> Some (goto i (if shutdown p then Exited else M_Sleep) s)
        | M_Sleep \<Rightarrow>
            if owner s = None then Some (goto i (M_Busy (queueSize p) (liveNum p)) s) else None
        | M_Busy qs ln \<Rightarrow> Some (goto i (M_Decide qs ln (busyNum p)) s)
        | M_Decide qs ln bn \<Rightarrow>
            if ln < qs \<and> ln < maxNum p then
              if owner s = None then Some (goto i (M_Shrink ln bn) (manager_add i s)) else None
            else Some (goto i (M_Shrink ln bn) s)
        | M_Shrink ln bn \<Rightarrow>
            if bn * 2 < ln \<and> minNum p < ln then
              if owner s = None then Some (goto i (M_Signal NUMBER) (s\<lparr>pool := p\<lparr>exitNum := NUMBER\<rparr>\<rparr>))
              else None
            else Some (goto i M_Loop s)
        | M_Signal n \<Rightarrow>
            (case n of 0 \<Rightarrow> Some (goto i M_Loop s)
             | Suc m \<Rightarrow> signal_in waits_empty j (goto i (M_Signal m) s))
        | D_Start \<Rightarrow> Some (goto i D_Join (s\<lparr>pool := p\<lparr>shutdown := True\<rparr>\<rparr>))
        | D_Join \<Rightarrow>
            if pcs s ! 0 = Exited then Some (goto i (D_Signal 0) s)
            else if pcs s ! 0 = M_Failed then Some (s\<lparr>pool := p\<lparr>undefined_access := True\<rparr>\<rparr>)
            else None
        | D_Signal k \<Rightarrow>
            if k < liveNum p then signal_in waits_empty j (goto i (D_Signal (Suc k)) s)
            else Some (goto i D_Free s)
        | D_Free \<Rightarrow> Some (goto i Exited (s\<lparr>freed := True\<rparr>))
        | Exited \<Rightarrow> None
        | W_Failed \<Rightarrow> None
        | M_Failed \<Rightarrow> None))"

text \<open>The steps of the system: a thread runs, a waiting thread wakes by itself, a client thread calls
  \<^verbatim>\<open>threadPoolAdd\<close> or \<^verbatim>\<open>threadPoolDestroy\<close>.\<close>

definition pool_running :: "'a sys \<Rightarrow> bool" where
  "pool_running s \<longleftrightarrow> \<not> freed s \<and> \<not> undefined_access (pool s)"

inductive step :: "'a sys \<Rightarrow> 'a sys \<Rightarrow> bool" where
  thread: "thread_step i j s = Some s' \<Longrightarrow> step s s'"
| spurious: "pool_running s \<Longrightarrow> i < length (pcs s) \<Longrightarrow> waits_empty (pcs s ! i) \<or> waits_full (pcs s ! i) \<Longrightarrow>
    step s (goto i (woken (pcs s ! i)) s)"
| client_add: "pool_running s \<Longrightarrow> step s (s\<lparr>pcs := pcs s @ [A_Lock t]\<rparr>)"
| client_destroy: "pool_running s \<Longrightarrow> step s (s\<lparr>pcs := pcs s @ [D_Start]\<rparr>)"

inductive reachable :: "(nat \<Rightarrow> nat option) \<Rightarrow> nat \<Rightarrow> nat \<Rightarrow> nat \<Rightarrow> 'a sys \<Rightarrow> bool" for cr minN maxN qs where
  start: "reachable cr minN maxN qs (initial cr minN maxN qs)"
| next_state: "reachable cr minN maxN qs s \<Longrightarrow> step s s' \<Longrightarrow> reachable cr minN maxN qs s'"

inductive_cases stepE: "step s s'"


section \<open>The invariant\<close>

lemma concat_update:
  "i < length xs \<Longrightarrow> mset (concat (xs[i := y])) + mset (xs ! i) = mset (concat xs) + mset y"
proof (induction xs arbitrary: i)
  case (Cons x xs)
  then show ?case by (cases i) (auto simp: add.assoc add.left_commute add.commute)
qed simp

lemma set_update_other:
  assumes "i < length ps" "x \<noteq> ps ! i"
  shows "x \<in> set (ps[i := q]) \<longleftrightarrow> x = q \<or> x \<in> set ps"
proof -
  have "set ps = set (take i ps @ ps ! i # drop (Suc i) ps)" using assms(1) by (simp add: id_take_nth_drop [symmetric])
  then show ?thesis using assms by (simp add: upd_conv_take_nth_drop)
qed

lemma set_update_mem: "x \<in> set (ps[i := q]) \<Longrightarrow> x = q \<or> x \<in> set ps"
  using set_update_subset_insert [of ps i q] by blast

fun busy_pc :: "'a pc \<Rightarrow> bool" where
  "busy_pc (W_Busy t) = True" | "busy_pc W_Ran = True" | "busy_pc _ = False"

fun live_pc :: "'a pc \<Rightarrow> bool" where
  "live_pc W_Lock = True" | "live_pc W_ToWait = True" | "live_pc W_Waiting = True"
| "live_pc W_Woken = True" | "live_pc (W_Got t) = True" | "live_pc (W_Busy t) = True"
| "live_pc W_Ran = True" | "live_pc _ = False"

fun failed_pc :: "'a pc \<Rightarrow> bool" where
  "failed_pc W_Failed = True" | "failed_pc _ = False"

text \<open>What \<^verbatim>\<open>liveNum\<close> counts\<close>

definition counted_pc :: "'a pc \<Rightarrow> bool" where
  "counted_pc q \<longleftrightarrow> live_pc q \<or> failed_pc q"

lemma counted_pc_simps [simp]:
  "counted_pc W_Lock" "counted_pc W_ToWait" "counted_pc W_Waiting" "counted_pc W_Woken" "counted_pc (W_Got t)"
  "counted_pc (W_Busy t)" "counted_pc W_Ran" "counted_pc W_Failed" "\<not> counted_pc W_Destroy" "\<not> counted_pc (A_Lock t)"
  "\<not> counted_pc (A_ToWait t)" "\<not> counted_pc (A_Waiting t)" "\<not> counted_pc (A_Woken t)" "\<not> counted_pc (A_Unlocked t)"
  "\<not> counted_pc M_Loop" "\<not> counted_pc M_Sleep" "\<not> counted_pc (M_Busy qs ln)" "\<not> counted_pc (M_Decide qs ln bn)"
  "\<not> counted_pc (M_Shrink ln bn)" "\<not> counted_pc (M_Signal n)" "\<not> counted_pc D_Start" "\<not> counted_pc D_Join"
  "\<not> counted_pc (D_Signal n)" "\<not> counted_pc D_Free" "\<not> counted_pc Exited" "\<not> counted_pc M_Failed"
  by (simp_all add: counted_pc_def)

lemma cnt_counted: "cnt counted_pc ps = cnt live_pc ps + cnt failed_pc ps"
proof (induction ps)
  case (Cons q ps)
  then show ?case by (cases q) auto
qed simp

fun holding :: "'a pc \<Rightarrow> bool" where
  "holding W_ToWait = True" | "holding (A_ToWait t) = True" | "holding _ = False"

fun unlocked_pc :: "'a pc \<Rightarrow> bool" where
  "unlocked_pc (A_Unlocked t) = True" | "unlocked_pc D_Join = True" | "unlocked_pc _ = False"

lemma cnt_new_workers [simp]:
  "cnt counted_pc (map (new_worker cr) ks) = length ks" "cnt busy_pc (map (new_worker cr) ks) = 0"
  "cnt unlocked_pc (map (new_worker cr) ks) = 0" "\<not> list_ex holding (map (new_worker cr) ks)"
  by (induction ks) (auto simp: new_worker_def)

definition inv_busy :: "'a sys \<Rightarrow> bool" where
  "inv_busy s \<longleftrightarrow> busyNum (pool s) = cnt busy_pc (pcs s)"

definition inv_owner :: "'a sys \<Rightarrow> bool" where
  "inv_owner s \<longleftrightarrow> (\<forall>i. owner s = Some i \<longleftrightarrow> i < length (pcs s) \<and> holding (pcs s ! i))"

definition inv_open :: "'a sys \<Rightarrow> bool" where
  "inv_open s \<longleftrightarrow> (let p = pool s in \<not> shutdown p \<longrightarrow>
     ring_ok p \<and> ring.logged (log_added s) (log_taken s) p \<and> liveNum p = cnt counted_pc (pcs s)
     \<and> minNum p \<le> liveNum p \<and> liveNum p \<le> maxNum p \<and> cnt unlocked_pc (pcs s) = 0
     \<and> length (threadIDs p) = max_threads \<and> (maxNum p \<le> max_threads \<longrightarrow> \<not> undefined_access p))"

definition inv :: "'a sys \<Rightarrow> bool" where
  "inv s \<longleftrightarrow> inv_busy s \<and> inv_owner s \<and> inv_open s"

named_theorems inv_defs \<open>what the invariant says\<close>

lemmas [inv_defs] = inv_def inv_busy_def inv_owner_def inv_open_def

lemma initial_inv: "0 < qs \<Longrightarrow> minN \<le> maxN \<Longrightarrow> inv (initial cr minN maxN qs)"
  by (auto simp: inv_defs initial_def threadPoolCreate_def ring_ok_def ring.logged_def ring_content_def Let_def
      nth_Cons new_worker_def simp del: upt_Suc split: nat.splits)

text \<open>Waking waiting threads changes nothing the invariant speaks of.\<close>

definition some_woken :: "'a pc list \<Rightarrow> 'a pc list \<Rightarrow> bool" where
  "some_woken ps qs \<longleftrightarrow> length qs = length ps \<and>
     (\<forall>k < length ps. qs ! k = ps ! k
        \<or> (waits_empty (ps ! k) \<or> waits_full (ps ! k)) \<and> qs ! k = woken (ps ! k))"

lemma woken_pc: "waits_empty q \<or> waits_full q \<Longrightarrow>
  busy_pc (woken q) = busy_pc q \<and> counted_pc (woken q) = counted_pc q \<and> holding (woken q) = holding q
  \<and> unlocked_pc (woken q) = unlocked_pc q"
  by (cases q) auto

lemma inv_some_woken:
  assumes "inv s" "some_woken (pcs s) ps"
  shows "inv (s\<lparr>pcs := ps\<rparr>)"
proof -
  have len: "length ps = length (pcs s)" using assms(2) by (simp add: some_woken_def)
  have same: "busy_pc (ps ! k) = busy_pc (pcs s ! k)" "counted_pc (ps ! k) = counted_pc (pcs s ! k)"
    "holding (ps ! k) = holding (pcs s ! k)" "unlocked_pc (ps ! k) = unlocked_pc (pcs s ! k)"
    if "k < length (pcs s)" for k
    using assms(2) that woken_pc unfolding some_woken_def by metis+
  have "cnt busy_pc ps = cnt busy_pc (pcs s)" "cnt counted_pc ps = cnt counted_pc (pcs s)"
    "cnt unlocked_pc ps = cnt unlocked_pc (pcs s)"
    using same len by (auto intro!: cnt_cong)
  then show ?thesis using assms(1) same(3) len by (auto simp: inv_defs Let_def)
qed

lemma cond_signal_woken:
  "cond_signal w j ps = Some qs \<Longrightarrow> w = waits_empty \<or> w = waits_full \<Longrightarrow> some_woken ps qs"
  by (auto simp: cond_signal_def some_woken_def nth_list_update split: if_splits)

lemma signal_inv:
  "signal_in w j s = Some s' \<Longrightarrow> w = waits_empty \<or> w = waits_full \<Longrightarrow> inv s \<Longrightarrow> inv s'"
  using cond_signal_woken inv_some_woken by (fastforce simp: signal_in_def)


lemma owner_kept:
  "inv_owner s \<Longrightarrow> i < length (pcs s) \<Longrightarrow> holding q = holding (pcs s ! i) \<Longrightarrow>
   owner s' = owner s \<Longrightarrow> pcs s' = (pcs s)[i := q] \<Longrightarrow> inv_owner s'"
  unfolding inv_owner_def by (metis length_list_update nth_list_update)

lemma owner_taken:
  "inv_owner s \<Longrightarrow> i < length (pcs s) \<Longrightarrow> owner s = None \<Longrightarrow> holding q \<Longrightarrow>
   owner s' = Some i \<Longrightarrow> pcs s' = (pcs s)[i := q] \<Longrightarrow> inv_owner s'"
  by (auto simp: inv_owner_def nth_list_update split: if_splits)

lemma owner_released:
  "inv_owner s \<Longrightarrow> i < length (pcs s) \<Longrightarrow> holding (pcs s ! i) \<Longrightarrow> \<not> holding q \<Longrightarrow>
   owner s' = None \<Longrightarrow> pcs s' = (pcs s)[i := q] \<Longrightarrow> inv_owner s'"
  unfolding inv_owner_def
  by (metis length_list_update nth_list_update option.distinct(1) option.inject)

lemma owner_more:
  "inv_owner s \<Longrightarrow> owner s' = owner s \<Longrightarrow> pcs s' = pcs s @ qs \<Longrightarrow> \<not> list_ex holding qs \<Longrightarrow> inv_owner s'"
  by (auto simp: inv_owner_def nth_append list_ex_iff)

lemma inv_goto:
  assumes "inv s" "i < length (pcs s)" "holding q = holding (pcs s ! i)"
    and "busy_pc q = busy_pc (pcs s ! i)" "counted_pc q = counted_pc (pcs s ! i)"
    and "unlocked_pc q = unlocked_pc (pcs s ! i)"
  shows "inv (goto i q s)"
proof -
  have c: "cnt P ((pcs s)[i := q]) = cnt P (pcs s)" if "P q = P (pcs s ! i)" for P
    using that cnt_update [OF assms(2), of P q] by (cases "P q") (auto simp: cnt_pos [OF assms(2)])
  show ?thesis
    using assms(1) c [OF assms(4)] c [OF assms(5)] c [OF assms(6)]
      owner_kept [OF _ assms(2,3), of "goto i q s"]
    by (auto simp: inv_def inv_busy_def inv_open_def goto_def Let_def)
qed

lemma worker_section_inv:
  assumes "inv s" "owner s = None" "i < length (pcs s)" "pcs s ! i = W_Lock \<or> pcs s ! i = W_Woken"
    and "worker_section i j s = Some s'"
  shows "inv s'"
proof -
  have pc: "counted_pc (pcs s ! i)" "\<not> busy_pc (pcs s ! i)" "\<not> holding (pcs s ! i)" "\<not> unlocked_pc (pcs s ! i)"
    using assms(4) by auto
  note cu = cnt_update [OF assms(3)]
  have own: "inv_owner s" using assms(1) by (simp add: inv_def)
  consider (wait) "queueSize (pool s) = 0" "\<not> shutdown (pool s)" "s' = goto i W_ToWait (s\<lparr>owner := Some i\<rparr>)"
    | (stop) "shutdown (pool s)" "s' = goto i W_Destroy s"
    | (take) t p' where "0 < queueSize (pool s)" "\<not> shutdown (pool s)" "take_task (pool s) = (Some t, p')"
        "signal_in waits_full j (goto i (W_Got t) (s\<lparr>pool := p', log_taken := log_taken s @ [t]\<rparr>)) = Some s'"
    using assms(5) by (auto simp: worker_section_def Let_def split: if_splits prod.splits option.splits)
  then show ?thesis
  proof cases
    case wait
    then show ?thesis
      using assms(1) pc cu cnt_pos [OF assms(3)] owner_taken [OF own assms(3,2), of W_ToWait s']
      by (auto simp: inv_def inv_busy_def inv_open_def goto_def Let_def)
  next
    case stop
    then show ?thesis
      using assms(1) pc cu owner_kept [OF own assms(3), of W_Destroy s']
      by (auto simp: inv_def inv_busy_def inv_open_def goto_def Let_def)
  next
    case take
    let ?s = "goto i (W_Got t) (s\<lparr>pool := p', log_taken := log_taken s @ [t]\<rparr>)"
    have ring: "ring_ok (pool s)" "ring.logged (log_added s) (log_taken s) (pool s)"
      using assms(1) take(2) by (auto simp: inv_def inv_open_def Let_def)
    have ne: "ring_content (pool s) \<noteq> []" using take(1) by (simp add: ring_content_def)
    have "ring_ok p'" "ring.logged (log_added s) (log_taken s @ [t]) p'"
      using ring.get_ok [OF ring(1) ne] ring.logged_get [OF ring(1) ne ring(2)] take(3) by auto
    moreover have "p' = (pool s)\<lparr>queueFront := queueFront p', queueSize := queueSize p'\<rparr>"
      using take(3) by (auto simp: take_task_def)
    then have "liveNum p' = liveNum (pool s)" "busyNum p' = busyNum (pool s)" "minNum p' = minNum (pool s)"
      "maxNum p' = maxNum (pool s)" "shutdown p' = shutdown (pool s)"
      "threadIDs p' = threadIDs (pool s)" "undefined_access p' = undefined_access (pool s)"
      by (metis pool.select_convs pool.surjective pool.update_convs)+
    ultimately have "inv ?s"
      using assms(1) pc cu cnt_pos [OF assms(3)] take(2) owner_kept [OF own assms(3), of "W_Got t" ?s]
      by (auto simp: inv_def inv_busy_def inv_open_def goto_def Let_def)
    then show ?thesis using signal_inv [OF take(4)] by simp
  qed
qed


lemma put_step_inv:
  assumes "inv s" "i < length (pcs s)" "\<not> holding (pcs s ! i)" "\<not> busy_pc (pcs s ! i)" "\<not> counted_pc (pcs s ! i)"
    and "\<not> shutdown (pool s) \<Longrightarrow> queueSize (pool s) < queueCapacity (pool s)"
    and "put_step i j t s = Some s'"
  shows "inv s'"
proof -
  let ?s = "goto i Exited (s\<lparr>pool := put_task t (pool s), log_added := log_added s @ [t]\<rparr>)"
  have own: "inv_owner s" using assms(1) by (simp add: inv_def)
  have fields: "liveNum (put_task t p) = liveNum p" "busyNum (put_task t p) = busyNum p"
    "minNum (put_task t p) = minNum p" "maxNum (put_task t p) = maxNum p"
    "shutdown (put_task t p) = shutdown p" "threadIDs (put_task t p) = threadIDs p"
    "undefined_access (put_task t p) = undefined_access p" for p
    by (simp_all add: put_task_def)
  have "ring_ok (put_task t (pool s)) \<and> ring.logged (log_added s @ [t]) (log_taken s) (put_task t (pool s))"
    if "\<not> shutdown (pool s)"
    using assms(1,6) that ring.put_ok ring.logged_put by (auto simp: inv_def inv_open_def Let_def)
  then have "inv ?s"
    using assms(1-5) cnt_update [OF assms(2)] fields owner_kept [OF own assms(2), of Exited ?s]
    by (auto simp: inv_def inv_busy_def inv_open_def goto_def Let_def)
  then show ?thesis using signal_inv assms(7) unfolding put_step_def by blast
qed

lemma add_section_inv:
  assumes "inv s" "owner s = None" "i < length (pcs s)" "pcs s ! i = A_Lock t \<or> pcs s ! i = A_Woken t"
    and "add_section i j t s = Some s'"
  shows "inv s'"
proof -
  have pc: "\<not> counted_pc (pcs s ! i)" "\<not> busy_pc (pcs s ! i)" "\<not> holding (pcs s ! i)" "\<not> unlocked_pc (pcs s ! i)"
    using assms(4) by auto
  note cu = cnt_update [OF assms(3)]
  have own: "inv_owner s" using assms(1) by (simp add: inv_def)
  consider (wait) "\<not> shutdown (pool s)" "s' = goto i (A_ToWait t) (s\<lparr>owner := Some i\<rparr>)"
    | (late) "shutdown (pool s)" "s' = goto i (A_Unlocked t) s"
    | (put) "\<not> shutdown (pool s)" "queueSize (pool s) \<noteq> queueCapacity (pool s)" "put_step i j t s = Some s'"
    using assms(5) by (auto simp: add_section_def Let_def split: if_splits)
  then show ?thesis
  proof cases
    case wait
    then show ?thesis
      using assms(1) pc cu owner_taken [OF own assms(3,2), of "A_ToWait t" s']
      by (auto simp: inv_def inv_busy_def inv_open_def goto_def Let_def)
  next
    case late
    then show ?thesis
      using assms(1) pc cu owner_kept [OF own assms(3), of "A_Unlocked t" s']
      by (auto simp: inv_def inv_busy_def inv_open_def goto_def Let_def)
  next
    case put
    then have "queueSize (pool s) < queueCapacity (pool s)"
      using assms(1) by (auto simp: inv_def inv_open_def ring_ok_def Let_def)
    then show ?thesis using put_step_inv [OF assms(1,3)] pc put(3) by blast
  qed
qed

lemma exit_check_fields:
  "exit_check p = (p', b) \<Longrightarrow> ring_content p' = ring_content p \<and> ring_ok p' = ring_ok p
    \<and> shutdown p' = shutdown p \<and> busyNum p' = busyNum p \<and> minNum p' = minNum p \<and> maxNum p' = maxNum p
    \<and> queueSize p' = queueSize p \<and> threadIDs p' = threadIDs p \<and> undefined_access p' = undefined_access p
    \<and> (b \<longrightarrow> minNum p < liveNum p \<and> liveNum p' = liveNum p - 1) \<and> (\<not> b \<longrightarrow> liveNum p' = liveNum p)"
  by (auto simp: exit_check_def Let_def ring_content_def ring_ok_def split: if_splits)

lemma add_threads_fields:
  "add_threads cr k c i n p = (p', c') \<Longrightarrow>
   c \<le> c' \<and> liveNum p' = liveNum p + (c' - c) \<and> (liveNum p \<le> maxNum p \<longrightarrow> liveNum p' \<le> maxNum p) \<and> maxNum p' = maxNum p
   \<and> minNum p' = minNum p \<and> busyNum p' = busyNum p \<and> shutdown p' = shutdown p
   \<and> ring_content p' = ring_content p \<and> ring_ok p' = ring_ok p \<and> length (threadIDs p') = length (threadIDs p)
   \<and> (i + n \<le> length (threadIDs p) \<longrightarrow> undefined_access p' = undefined_access p)"
proof (induction cr k c i n p arbitrary: p' c' rule: add_threads.induct)
  case (2 cr k c i n p)
  let ?q = "p\<lparr>threadIDs := (threadIDs p)[i := created_id cr k], liveNum := liveNum p + 1\<rparr>"
  have q: "ring_content ?q = ring_content p" "ring_ok ?q = ring_ok p"
    by (simp_all add: ring_content_def ring_ok_def)
  show ?case
  proof (cases "c < NUMBER \<and> liveNum p < maxNum p \<and> i < length (threadIDs p)")
    case True
    then have go: "c < NUMBER \<and> liveNum p < maxNum p" "\<not> length (threadIDs p) \<le> i" by simp_all
    show ?thesis
    proof (cases "threadIDs p ! i = 0")
      case slot: True
      have "add_threads cr (Suc k) (c + 1) (i + 1) n ?q = (p', c')"
        using "2.prems" True slot by simp
      from "2.IH"(1) [OF go slot this] q True show ?thesis by simp linarith
    next
      case slot: False
      have "add_threads cr k c (i + 1) n p = (p', c')" using "2.prems" True slot by simp
      from "2.IH"(2) [OF go slot this] show ?thesis
        unfolding add_Suc_right add_Suc Suc_eq_plus1 [symmetric] .
    qed
  next
    case False
    then show ?thesis using "2.prems" by (auto simp: ring_content_def ring_ok_def split: if_splits)
  qed
qed auto

lemma busy_step_inv:
  assumes "inv s" "i < length (pcs s)" "\<not> holding (pcs s ! i)" "\<not> holding q"
    and "counted_pc q = counted_pc (pcs s ! i)" "\<not> unlocked_pc q" "\<not> unlocked_pc (pcs s ! i)"
    and "busyNum p' + (if busy_pc (pcs s ! i) then 1 else 0) = busyNum (pool s) + (if busy_pc q then 1 else 0)"
    and "p' = (pool s)\<lparr>busyNum := busyNum p', threadIDs := ids, exitNum := ex, undefined_access := u\<rparr>"
    and "length ids = length (threadIDs (pool s))"
    and "u \<Longrightarrow> length (threadIDs (pool s)) < maxNum (pool s) \<or> undefined_access (pool s)"
  shows "inv (goto i q (s\<lparr>pool := p'\<rparr>))"
proof -
  have own: "inv_owner s" using assms(1) by (simp add: inv_def)
  have f: "ring_ok p' = ring_ok (pool s)" "ring_content p' = ring_content (pool s)"
    "shutdown p' = shutdown (pool s)" "liveNum p' = liveNum (pool s)" "minNum p' = minNum (pool s)"
    "maxNum p' = maxNum (pool s)" "threadIDs p' = ids" "undefined_access p' = u"
    by (subst assms(9), simp add: ring_ok_def ring_content_def)+
  have cl: "cnt counted_pc ((pcs s)[i := q]) = cnt counted_pc (pcs s)"
    using cnt_update [OF assms(2), of counted_pc q] cnt_pos [OF assms(2), of counted_pc] assms(5) by auto
  show ?thesis
    using assms(1,3-8,10,11) f cl cnt_update [OF assms(2)] cnt_pos [OF assms(2), of busy_pc]
      owner_kept [OF own assms(2), of q "goto i q (s\<lparr>pool := p'\<rparr>)"]
    by (auto simp: inv_def inv_busy_def inv_open_def goto_def Let_def ring.logged_def split: if_splits)
qed


lemma manager_add_inv:
  assumes "inv s" "i < length (pcs s)" "holding q = holding (pcs s ! i)" "busy_pc q = busy_pc (pcs s ! i)"
    "counted_pc q = counted_pc (pcs s ! i)" "unlocked_pc q = unlocked_pc (pcs s ! i)"
  shows "inv (goto i q (manager_add i s))"
proof -
  let ?l = "length (pcs s)" and ?cr = "creation s"
  obtain p n where a: "add_threads ?cr ?l 0 0 (maxNum (pool s)) (pool s) = (p, n)" by fastforce
  have m: "manager_add i s = s\<lparr>pool := p, pcs := pcs s @ map (new_worker ?cr) [?l ..< ?l + n]\<rparr>"
    using a by (simp add: manager_add_def)
  note f = add_threads_fields [OF a]
  have "inv (manager_add i s)"
    using assms(1) f owner_more [of s "manager_add i s" "map (new_worker ?cr) [?l ..< ?l + n]"]
    unfolding m by (auto simp: inv_def inv_busy_def inv_open_def ring.logged_def Let_def)
  then show ?thesis using assms(2-) by (intro inv_goto) (simp_all add: m nth_append)
qed


lemma release_inv:
  assumes "inv s" "i < length (pcs s)" "holding (pcs s ! i)" "\<not> holding q"
    and "\<not> busy_pc q" "counted_pc q = counted_pc (pcs s ! i)" "\<not> unlocked_pc q"
  shows "inv (goto i q (s\<lparr>owner := None\<rparr>))"
proof -
  have own: "inv_owner s" using assms(1) by (simp add: inv_def)
  have h: "\<not> busy_pc (pcs s ! i)" "\<not> unlocked_pc (pcs s ! i)" using assms(3) by (cases "pcs s ! i"; simp)+
  show ?thesis
    using assms(1,5-7) h cnt_update [OF assms(2)] cnt_pos [OF assms(2), of counted_pc]
      owner_released [OF own assms(2,3,4), of "goto i q (s\<lparr>owner := None\<rparr>)"]
    by (auto simp: inv_def inv_busy_def inv_open_def goto_def Let_def)
qed

lemma inv_closed:
  assumes "inv s" "i < length (pcs s)" "\<not> holding (pcs s ! i)" "\<not> busy_pc (pcs s ! i)"
    and "\<not> holding q" "\<not> busy_pc q"
  shows "inv (goto i q (s\<lparr>pool := (pool s)\<lparr>shutdown := True\<rparr>\<rparr>))"
proof -
  have own: "inv_owner s" using assms(1) by (simp add: inv_def)
  show ?thesis
    using assms(1,3-) cnt_update [OF assms(2), of busy_pc q]
      owner_kept [OF own assms(2), of q "goto i q (s\<lparr>pool := (pool s)\<lparr>shutdown := True\<rparr>\<rparr>)"]
    by (auto simp: inv_def inv_busy_def inv_open_def goto_def Let_def)
qed

lemma woken_step_inv:
  assumes "inv s" "owner s = None" "i < length (pcs s)" "pcs s ! i = W_Woken"
    and "exit_check (pool s) = (p, b)"
    and "s' = goto i W_Destroy (s\<lparr>pool := p\<rparr>) \<and> b \<or> worker_section i j (s\<lparr>pool := p\<rparr>) = Some s' \<and> \<not> b"
  shows "inv s'"
proof -
  have own: "inv_owner s" using assms(1) by (simp add: inv_def)
  note f = exit_check_fields [OF assms(5)]
  show ?thesis
  proof (cases b)
    case True
    then have s': "s' = goto i W_Destroy (s\<lparr>pool := p\<rparr>)" using assms(6) by simp
    have c: "cnt counted_pc ((pcs s)[i := W_Destroy]) = cnt counted_pc (pcs s) - 1"
      "cnt busy_pc ((pcs s)[i := W_Destroy]) = cnt busy_pc (pcs s)"
      "cnt unlocked_pc ((pcs s)[i := W_Destroy]) = cnt unlocked_pc (pcs s)"
      using cnt_update [OF assms(3)] assms(4) by simp_all
    show ?thesis
      using assms(1,4) True f c owner_kept [OF own assms(3), of W_Destroy s']
      unfolding s' by (auto simp: inv_def inv_busy_def inv_open_def goto_def Let_def ring.logged_def)
  next
    case False
    have "inv_owner (s\<lparr>pool := p\<rparr>)" using own by (simp add: inv_owner_def)
    with False have "inv (s\<lparr>pool := p\<rparr>)"
      using assms(1) f
      by (cases "shutdown (pool s)") (simp_all add: inv_def inv_busy_def inv_open_def Let_def ring.logged_def)
    then show ?thesis
      using worker_section_inv [of "s\<lparr>pool := p\<rparr>" i j s'] assms(2,3,4,6) False by simp
  qed
qed

lemma thread_step_inv:
  assumes "inv s" "thread_step i j s = Some s'"
  shows "inv s'"
proof -
  have i: "i < length (pcs s)" using assms(2) by (auto simp: thread_step_def split: if_splits)
  show ?thesis
  proof (cases "pcs s ! i")
    case W_Woken
    then have ow: "owner s = None" using assms(2) by (auto simp: thread_step_def Let_def split: if_splits)
    obtain p b where e: "exit_check (pool s) = (p, b)" by fastforce
    have "\<not> freed s" "\<not> undefined_access (pool s)" using assms(2) by (auto simp: thread_step_def)
    then have "thread_step i j s = (if b then Some (goto i W_Destroy (s\<lparr>pool := p\<rparr>))
        else worker_section i j (s\<lparr>pool := p\<rparr>))"
      using i W_Woken ow e by (cases b) (simp_all add: thread_step_def)
    then show ?thesis
      using woken_step_inv [OF assms(1) ow i W_Woken e, of s' j] assms(2) by (cases b) simp_all
  next
    case W_Lock
    then show ?thesis
      using assms worker_section_inv [OF assms(1) _ i, of j s']
      by (auto simp: thread_step_def Let_def split: if_splits)
  next
    case (A_Lock t)
    then show ?thesis
      using assms add_section_inv [OF assms(1) _ i, of t j s']
      by (auto simp: thread_step_def Let_def split: if_splits)
  next
    case (A_Woken t)
    then show ?thesis
      using assms add_section_inv [OF assms(1) _ i, of t j s']
      by (auto simp: thread_step_def Let_def split: if_splits)
  next
    case (A_Unlocked t)
    have "shutdown (pool s)"
      using assms(1) cnt_pos [OF i, of unlocked_pc] A_Unlocked
      by (auto simp: inv_def inv_open_def Let_def)
    then show ?thesis
      using assms put_step_inv [OF assms(1) i, of j t s'] A_Unlocked
      by (auto simp: thread_step_def Let_def split: if_splits)
  next
    case (M_Decide qs ln bn)
    then show ?thesis
      using assms i inv_goto [OF assms(1) i, of "M_Shrink ln bn"]
        manager_add_inv [OF assms(1) i, of "M_Shrink ln bn"]
      by (auto simp: thread_step_def Let_def split: if_splits)
  next
    case (M_Signal n)
    then show ?thesis
      using assms i inv_goto [OF assms(1) i] signal_inv
      by (cases n) (fastforce simp: thread_step_def Let_def split: if_splits)+
  next
    case (D_Signal k)
    then show ?thesis
      using assms i inv_goto [OF assms(1) i] signal_inv
      by (fastforce simp: thread_step_def Let_def split: if_splits)
  next
    case (W_Got t)
    then have s': "s' = goto i (W_Busy t) (s\<lparr>pool := busy_inc (pool s)\<rparr>)"
      using assms(2) by (auto simp: thread_step_def Let_def split: if_splits)
    show ?thesis
      unfolding s' by (rule busy_step_inv [OF assms(1) i, where ids = "threadIDs (pool s)" and ex = "exitNum (pool s)" and u = "undefined_access (pool s)"])
        (simp_all add: W_Got busy_inc_def)
  next
    case W_Ran
    then have s': "s' = goto i W_Lock (s\<lparr>pool := busy_dec (pool s)\<rparr>)"
      using assms(2) by (auto simp: thread_step_def Let_def split: if_splits)
    have "0 < busyNum (pool s)"
      using assms(1) cnt_pos [OF i, of busy_pc] W_Ran by (simp add: inv_def inv_busy_def)
    then show ?thesis
      unfolding s' by (intro busy_step_inv [OF assms(1) i, where ids = "threadIDs (pool s)" and ex = "exitNum (pool s)" and u = "undefined_access (pool s)"])
        (simp_all add: W_Ran busy_dec_def)
  next
    case W_Destroy
    then have s': "s' = goto i Exited (s\<lparr>pool := threadDestroy (Suc i) (pool s)\<rparr>)"
      using assms(2) by (auto simp: thread_step_def Let_def split: if_splits)
    have len: "length (clear_slot pid ids n) = length ids" for pid ids n
      by (induction pid ids n rule: clear_slot.induct) auto
    let ?u = "undefined_access (pool s) \<or>
      length (threadIDs (pool s)) < maxNum (pool s) \<and> Suc i \<notin> set (threadIDs (pool s))"
    show ?thesis
      unfolding s' by (rule busy_step_inv [OF assms(1) i, where ids = "clear_slot (Suc i) (threadIDs (pool s)) (maxNum (pool s))"
            and ex = "exitNum (pool s)" and u = ?u])
        (auto simp: W_Destroy threadDestroy_def len)
  next
    case D_Join
    have sh: "shutdown (pool s)"
      using assms(1) cnt_pos [OF i, of unlocked_pc] D_Join by (auto simp: inv_def inv_open_def Let_def)
    consider "s' = goto i (D_Signal 0) s" | "s' = s\<lparr>pool := (pool s)\<lparr>undefined_access := True\<rparr>\<rparr>"
      using assms(2) D_Join by (auto simp: thread_step_def Let_def split: if_splits)
    then show ?thesis
    proof cases
      case 1
      then show ?thesis
        using assms(1) sh D_Join owner_kept [of s i "D_Signal 0" s'] i cnt_update [OF i, of busy_pc "D_Signal 0"]
        by (auto simp: inv_def inv_busy_def inv_open_def goto_def Let_def)
    next
      case 2
      then show ?thesis using assms(1) sh by (auto simp: inv_defs)
    qed
  next
    case (M_Shrink ln bn)
    have "inv (goto i (M_Signal NUMBER) (s\<lparr>pool := (pool s)\<lparr>exitNum := NUMBER\<rparr>\<rparr>))"
      by (rule busy_step_inv [OF assms(1) i, where ids = "threadIDs (pool s)" and ex = NUMBER and u = "undefined_access (pool s)"])
        (simp_all add: M_Shrink)
    then show ?thesis
      using assms M_Shrink inv_goto [OF assms(1) i, of M_Loop]
      by (auto simp: thread_step_def Let_def split: if_splits)
  next
    case D_Free
    then have s': "s' = (goto i Exited s)\<lparr>freed := True\<rparr>"
      using assms(2) by (auto simp: thread_step_def Let_def goto_def split: if_splits)
    have "inv (goto i Exited s)" using inv_goto [OF assms(1) i] D_Free by simp
    then show ?thesis unfolding s' by (simp add: inv_defs)
  qed (use assms i inv_goto [OF assms(1) i] in
      \<open>auto simp: thread_step_def Let_def intro!: release_inv inv_closed split: if_splits\<close>)
qed


lemma step_inv: "step s s' \<Longrightarrow> inv s \<Longrightarrow> inv s'"
proof (induction rule: step.induct)
  case (thread i j s s')
  then show ?case using thread_step_inv by blast
next
  case (spurious s i)
  have "some_woken (pcs s) ((pcs s)[i := woken (pcs s ! i)])"
    using spurious by (auto simp: some_woken_def nth_list_update)
  then show ?case using inv_some_woken [OF spurious(4)] by (simp add: goto_def)
next
  case (client_add s t)
  then show ?case
    using owner_more [of s "s\<lparr>pcs := pcs s @ [A_Lock t]\<rparr>" "[A_Lock t]"]
    by (cases "shutdown (pool s)") (simp_all add: inv_def inv_busy_def inv_open_def Let_def)
next
  case (client_destroy s)
  then show ?case
    using owner_more [of s "s\<lparr>pcs := pcs s @ [D_Start]\<rparr>" "[D_Start]"]
    by (cases "shutdown (pool s)") (simp_all add: inv_def inv_busy_def inv_open_def Let_def)
qed

lemma reachable_inv:
  assumes "reachable cr minN maxN qs s" "0 < qs" "minN \<le> maxN"
  shows "inv s"
  using assms(1)
proof (induction rule: reachable.induct)
  case start
  then show ?case using assms by (intro initial_inv)
next
  case (next_state s s')
  then show ?case using step_inv by blast
qed

section \<open>Properties\<close>

text \<open>C18: In every interleaving, until \<^verbatim>\<open>threadPoolDestroy\<close> is called, the tasks taken by the workers
  followed by those in the ring buffer are exactly the tasks added, in the order they were added (no
  task is lost, duplicated or overtaken), the buffer never exceeds its capacity, \<^verbatim>\<open>liveNum\<close> is the number
  of living workers plus the number of workers whose \<^verbatim>\<open>pthread_create\<close> failed (nobody looks at its result), and it
  stays between \<^verbatim>\<open>minNum\<close> and \<^verbatim>\<open>maxNum\<close>.  The capacity is positive and \<^verbatim>\<open>minNum\<close> at most \<^verbatim>\<open>maxNum\<close>; when
  \<^verbatim>\<open>maxNum\<close> is at most 100 no access leaves the 100 slots of \<^verbatim>\<open>threadIDs\<close>, and with a greater one all this
  holds up to the first access that does.\<close>

theorem pool_keeps_fifo_and_bounds:
  assumes "reachable cr minN maxN qs s" "0 < qs" "minN \<le> maxN" "\<not> shutdown (pool s)"
  shows "log_added s = log_taken s @ ring_content (pool s)
    \<and> queueSize (pool s) = length (ring_content (pool s)) \<and> queueSize (pool s) \<le> queueCapacity (pool s)
    \<and> threadPoolAliveNum (pool s) = cnt live_pc (pcs s) + cnt failed_pc (pcs s)
    \<and> minNum (pool s) \<le> threadPoolAliveNum (pool s) \<and> threadPoolAliveNum (pool s) \<le> maxNum (pool s)
    \<and> length (threadIDs (pool s)) = max_threads \<and> (maxNum (pool s) \<le> max_threads \<longrightarrow> \<not> undefined_access (pool s))"
  using reachable_inv [OF assms(1,2,3)] assms(4)
  by (simp add: inv_def inv_open_def Let_def ring.logged_def ring_ok_def threadPoolAliveNum_def cnt_counted)

text \<open>When every \<^verbatim>\<open>pthread_create\<close> of a worker fails, the pool still reports \<^verbatim>\<open>minNum\<close> living workers, and there is
  none; and more than 100 workers are written behind the array.\<close>

theorem failed_threads_are_counted_and_slots_run_out:
  "(\<forall>k. cr (Suc k) \<noteq> None) \<Longrightarrow> threadPoolAliveNum (pool (initial cr minN maxN qs :: 'a sys)) = minN
     \<and> cnt live_pc (pcs (initial cr minN maxN qs :: 'a sys)) = 0"
  "max_threads < n \<Longrightarrow> undefined_access (pool (initial cr n maxN qs))"
proof -
  assume a: "\<forall>k. cr (Suc k) \<noteq> None"
  have "cnt live_pc (map (new_worker cr) ks :: 'a pc list) = 0" if "0 \<notin> set ks" for ks
    using that
  proof (induction ks)
    case (Cons k ks)
    then show ?case using a by (cases k) (auto simp: new_worker_def)
  qed simp
  from this [of "[1 ..< Suc minN]"]
  show "threadPoolAliveNum (pool (initial cr minN maxN qs :: 'a sys)) = minN
     \<and> cnt live_pc (pcs (initial cr minN maxN qs :: 'a sys)) = 0"
    by (simp add: initial_def threadPoolCreate_def threadPoolAliveNum_def del: upt_Suc)
qed (simp add: initial_def threadPoolCreate_def)

text \<open>An environment in which every thread can be created\<close>

definition all_created :: "nat \<Rightarrow> nat option" where
  "all_created k = None"

text \<open>In every interleaving, also during and after \<^verbatim>\<open>threadPoolDestroy\<close>, at most one thread holds
  \<^verbatim>\<open>mutexPool\<close> between its test and its wait, and \<^verbatim>\<open>busyNum\<close> is the number of threads that run a task.\<close>

theorem mutual_exclusion_and_busy_count:
  assumes "reachable cr minN maxN qs s" "0 < qs" "minN \<le> maxN"
  shows "threadPoolBusyNum (pool s) = cnt busy_pc (pcs s)
    \<and> (\<forall>i < length (pcs s). \<forall>j < length (pcs s). holding (pcs s ! i) \<and> holding (pcs s ! j) \<longrightarrow> i = j)"
proof -
  have b: "inv_busy s" and ow: "inv_owner s"
    using reachable_inv [OF assms] by (simp_all add: inv_def)
  have "i = j" if "i < length (pcs s)" "j < length (pcs s)" "holding (pcs s ! i)" "holding (pcs s ! j)" for i j
    using ow that unfolding inv_owner_def by (metis option.inject)
  with b show ?thesis by (simp add: inv_busy_def threadPoolBusyNum_def)
qed

theorem mutual_exclusion_and_busy_count_witness:
  "threadPoolBusyNum (pool (initial all_created 2 4 8 :: nat sys)) = 0"
  using mutual_exclusion_and_busy_count [where s = "initial all_created 2 4 8 :: nat sys" and minN = 2 and maxN = 4 and qs = 8, OF reachable.start]
  by (simp add: initial_def)

text \<open>A call of \<^verbatim>\<open>threadPoolAdd\<close> that finds the pool shut down releases the mutex but goes on: in its
  next step it stores its task without the mutex, even into a full buffer, whose size then
  exceeds its capacity.\<close>

theorem add_after_shutdown_still_stores:
  assumes "pool_running s" "i < length (pcs s)" "pcs s ! i = A_Lock t" "owner s = None" "shutdown (pool s)"
    and "\<not> list_ex waits_empty (pcs s)"
  shows "\<exists>s1 s2. thread_step i j s = Some s1 \<and> owner s1 = None \<and> pool s1 = pool s
    \<and> thread_step i j s1 = Some s2 \<and> log_added s2 = log_added s @ [t]
    \<and> queueSize (pool s2) = queueSize (pool s) + 1"
proof -
  let ?s1 = "goto i (A_Unlocked t) s"
  have "thread_step i j s = Some ?s1"
    using assms by (simp add: thread_step_def add_section_def Let_def pool_running_def)
  moreover have ex: "\<not> list_ex waits_empty ((pcs s)[i := A_Unlocked t, i := Exited])"
    using assms(6) by (auto simp: list_ex_iff dest!: set_update_subset_insert [THEN subsetD])
  have "\<exists>s2. thread_step i j ?s1 = Some s2 \<and> log_added s2 = log_added s @ [t]
      \<and> queueSize (pool s2) = queueSize (pool s) + 1"
    using assms(1,2) ex
    by (simp add: thread_step_def goto_def put_step_def signal_in_def cond_signal_def put_task_def pool_running_def)
  ultimately show ?thesis using assms(4) by (auto simp: goto_def)
qed

theorem add_after_shutdown_still_stores_witness:
  "\<exists>s1 s2. thread_step 1 0 (initial all_created 0 1 1 \<lparr>pool := (threadPoolCreate all_created 0 1 1)\<lparr>shutdown := True, queueSize := 1\<rparr>,
       pcs := [Exited, A_Lock (7 :: nat)]\<rparr>) = Some s1
     \<and> thread_step 1 0 s1 = Some s2 \<and> queueCapacity (pool s2) < queueSize (pool s2)"
proof -
  let ?s = "initial all_created 0 1 1 \<lparr>pool := (threadPoolCreate all_created 0 1 1)\<lparr>shutdown := True, queueSize := 1\<rparr>,
       pcs := [Exited, A_Lock (7 :: nat)]\<rparr>"
  obtain s1 s2 where s: "thread_step 1 0 ?s = Some s1" "thread_step 1 0 s1 = Some s2" "pool s1 = pool ?s"
      "queueSize (pool s2) = 2"
    using add_after_shutdown_still_stores [of ?s 1 7 0] by (auto simp: initial_def pool_running_def threadPoolCreate_def)
  have "queueCapacity (pool s2) = 1"
    using s(1,2) by (auto simp: initial_def thread_step_def add_section_def Let_def goto_def put_step_def
        signal_in_def cond_signal_def put_task_def threadPoolCreate_def)
  with s show ?thesis by auto
qed


section \<open>Two runs that go wrong\<close>

text \<open>A schedule: thread \<open>i\<close> steps (and \<open>j\<close> is the thread a signal wakes), or a client calls
  \<^verbatim>\<open>threadPoolAdd\<close> or \<^verbatim>\<open>threadPoolDestroy\<close>.\<close>

datatype 'a event = Thread nat nat | Client_add 'a | Client_destroy

fun play :: "'a event list \<Rightarrow> 'a sys \<Rightarrow> 'a sys option" where
  "play [] s = Some s"
| "play (Thread i j # es) s = (case thread_step i j s of None \<Rightarrow> None | Some s' \<Rightarrow> play es s')"
| "play (Client_add t # es) s = (if \<not> pool_running s then None else play es (s\<lparr>pcs := pcs s @ [A_Lock t]\<rparr>))"
| "play (Client_destroy # es) s = (if \<not> pool_running s then None else play es (s\<lparr>pcs := pcs s @ [D_Start]\<rparr>))"

lemma play_reachable: "reachable cr a b c s \<Longrightarrow> play es s = Some s' \<Longrightarrow> reachable cr a b c s'"
proof (induction es s rule: play.induct)
  case (2 i j es s)
  then show ?case by (auto split: option.splits intro: next_state step.thread)
next
  case (3 t es s)
  then show ?case by (auto split: if_splits intro: next_state step.client_add)
next
  case (4 es s)
  then show ?case by (auto split: if_splits intro: next_state step.client_destroy)
qed simp

lemma play_append: "play (es @ fs) s = Option.bind (play es s) (play fs)"
  by (induction es s rule: play.induct) (auto split: option.splits)

definition shut_run :: "nat \<Rightarrow> nat \<Rightarrow> nat \<Rightarrow> 'a pc list \<Rightarrow> 'a sys" where
  "shut_run minN maxN qs ps = \<lparr>pool = (threadPoolCreate all_created minN maxN qs)\<lparr>shutdown := True\<rparr>, owner = None,
     pcs = ps, freed = False, creation = all_created, log_added = [], log_taken = []\<rparr>"

lemma new_workers: "map (new_worker all_created) ks = replicate (length ks) W_Lock"
  by (induction ks) (simp_all add: new_worker_def all_created_def)

lemma no_waiters: "\<not> list_ex waits_empty (Exited # replicate n W_Lock @ [D_Signal k])"
  by (simp add: list_ex_iff)

lemma destroy_signals:
  "minN \<le> max_threads \<Longrightarrow> k \<le> minN \<Longrightarrow>
   play (replicate (minN - k) (Thread (Suc minN) 0)) (shut_run minN maxN qs (Exited # replicate minN W_Lock @ [D_Signal k]))
   = Some (shut_run minN maxN qs (Exited # replicate minN W_Lock @ [D_Signal minN]) :: 'a sys)"
proof (induction "minN - k" arbitrary: k)
  case (Suc m)
  have "k < minN" using Suc.hyps(2) by linarith
  then have "thread_step (Suc minN) 0 (shut_run minN maxN qs (Exited # replicate minN W_Lock @ [D_Signal k]))
      = Some (shut_run minN maxN qs (Exited # replicate minN W_Lock @ [D_Signal (Suc k)]) :: 'a sys)"
    using no_waiters [of minN "Suc k"] Suc.prems(1)
    by (simp add: thread_step_def shut_run_def goto_def threadPoolCreate_def signal_in_def cond_signal_def
        nth_append list_update_append)
  moreover have "minN - k = Suc (minN - Suc k)" "m = minN - Suc k" "Suc k \<le> minN" using Suc by auto
  ultimately show ?case using Suc.hyps(1) [of "Suc k"] Suc.prems(1) by simp
qed simp

text \<open>\<^verbatim>\<open>threadPoolDestroy\<close> waits for the manager only: there is a run in which it frees the pool, its
  task buffer and its mutexes while every worker is still alive and about to lock \<^verbatim>\<open>mutexPool\<close>.\<close>

theorem destroy_frees_under_live_workers:
  assumes "minN \<le> max_threads"
  shows "\<exists>s :: 'a sys. reachable all_created minN maxN qs s \<and> freed s \<and> cnt live_pc (pcs s) = minN
    \<and> (\<forall>i. 1 \<le> i \<and> i \<le> minN \<longrightarrow> pcs s ! i = W_Lock)"
proof -
  let ?ps = "\<lambda>m q. m # replicate minN W_Lock @ [q] :: 'a pc list"
  let ?D = "Thread (Suc minN) 0 :: 'a event"
  have 1: "play [Client_destroy, ?D, Thread 0 0, ?D] (initial all_created minN maxN qs)
      = Some (shut_run minN maxN qs (?ps Exited (D_Signal 0)))"
    using assms
    by (simp add: thread_step_def initial_def shut_run_def goto_def threadPoolCreate_def nth_append list_update_append
        pool_running_def new_workers all_created_def not_less del: upt_Suc)
  have 2: "play (replicate minN ?D) (shut_run minN maxN qs (?ps Exited (D_Signal 0)))
      = Some (shut_run minN maxN qs (?ps Exited (D_Signal minN)))"
    using destroy_signals [OF assms, of 0 maxN qs] by simp
  have 3: "play [?D, ?D] (shut_run minN maxN qs (?ps Exited (D_Signal minN)))
      = Some ((shut_run minN maxN qs (?ps Exited Exited))\<lparr>freed := True\<rparr>)"
    using assms
    by (simp add: thread_step_def shut_run_def goto_def threadPoolCreate_def nth_append list_update_append not_less)
  have "play ([Client_destroy, ?D, Thread 0 0, ?D] @ replicate minN ?D @ [?D, ?D]) (initial all_created minN maxN qs)
      = Some ((shut_run minN maxN qs (?ps Exited Exited))\<lparr>freed := True\<rparr>)"
    unfolding play_append 1 2 3 by (simp del: play.simps add: 2 3)
  from play_reachable [OF reachable.start this]
  show ?thesis by (intro exI conjI) (auto simp: shut_run_def nth_append nth_Cons split: nat.splits)
qed

theorem destroy_frees_under_live_workers_witness:
  "\<exists>s :: nat sys. reachable all_created 3 10 100 s \<and> freed s \<and> cnt live_pc (pcs s) = 3"
  using destroy_frees_under_live_workers [of 3 10 100] by (auto simp: max_threads_def)


text \<open>The run to a lost wake-up in a pool of one to two workers.  The manager adds the second worker, finds
  both idle, announces two exits while nobody waits; later the signal of an added task wakes a worker
  that takes it for its own dismissal.\<close>

definition stall_run :: "nat event list" where
  "stall_run =
     [Client_add 10, Thread 2 0, Client_add 11, Thread 3 0,
      Thread 0 0, Thread 0 0, Thread 0 0, Thread 0 0, Thread 0 0,
      Thread 0 0, Thread 0 0, Thread 0 0, Thread 0 0, Thread 0 0, Thread 0 0, Thread 0 0, Thread 0 0,
      Thread 1 0, Thread 1 0, Thread 1 0, Thread 1 0,
      Thread 4 0, Thread 4 0, Thread 4 0, Thread 4 0,
      Thread 1 0, Thread 1 0, Thread 4 0, Thread 4 0,
      Client_add 12, Thread 5 1, Thread 1 0, Thread 1 0]"

definition stalled :: "nat pc \<Rightarrow> nat sys" where
  "stalled m = \<lparr>pool = \<lparr>taskQ = [Some 12, Some 11], queueCapacity = 2, queueSize = 1, queueFront = 0,
      queueRear = 1, threadIDs = 0 # 5 # replicate 98 0, minNum = 1, maxNum = 2, busyNum = 0, liveNum = 1,
      exitNum = 1, shutdown = False, undefined_access = False\<rparr>,
     owner = None, pcs = [m, Exited, Exited, Exited, W_Waiting, Exited], freed = False, creation = all_created,
     log_added = [10, 11, 12], log_taken = [10, 11]\<rparr>"

lemma threadPoolCreate_1_2: "threadPoolCreate all_created 1 2 2 = \<lparr>taskQ = [None, None], queueCapacity = 2, queueSize = 0,
   queueFront = 0, queueRear = 0, threadIDs = 2 # 0 # replicate 98 0, minNum = 1, maxNum = 2, busyNum = 0,
   liveNum = 1, exitNum = 0, shutdown = False, undefined_access = False\<rparr>"
proof -
  have "replicate 99 (0 :: nat) = 0 # replicate 98 0" by (simp flip: replicate_Suc)
  then show ?thesis by (simp add: threadPoolCreate_def max_threads_def numeral_2_eq_2 created_id_def all_created_def)
qed

lemma stall_run_stalls: "play stall_run (initial all_created 1 2 2) = Some (stalled M_Loop)"
  unfolding stall_run_def initial_def threadPoolCreate_1_2
  by (simp add: thread_step_def goto_def worker_section_def add_section_def put_step_def signal_in_def
      cond_signal_def put_task_def take_task_def busy_inc_def busy_dec_def exit_check_def threadDestroy_def
      manager_add_def NUMBER_def stalled_def Let_def eval_nat_numeral pool_running_def new_worker_def all_created_def
      created_id_def)


theorem pool_keeps_fifo_and_bounds_witness:
  "log_added (stalled M_Loop) = log_taken (stalled M_Loop) @ ring_content (pool (stalled M_Loop)) \<and>
   log_taken (stalled M_Loop) = [10, 11] \<and> \<not> undefined_access (pool (stalled M_Loop))"
  using pool_keeps_fifo_and_bounds [OF play_reachable [OF reachable.start stall_run_stalls]]
  by (simp add: stalled_def max_threads_def)

lemma stalled_fields: "log_taken (stalled m) = [10, 11]" "queueSize (pool (stalled m)) = 1"
  by (simp_all add: stalled_def)

lemma stalled_step:
  assumes "m \<in> {M_Loop, M_Sleep, M_Busy 1 1, M_Decide 1 1 0, M_Shrink 1 0}"
    and "thread_step i j (stalled m) = Some s'"
  shows "\<exists>m' \<in> {M_Loop, M_Sleep, M_Busy 1 1, M_Decide 1 1 0, M_Shrink 1 0}. s' = stalled m'"
proof -
  have i: "i < 6" using assms(2) by (simp add: thread_step_def stalled_def split: if_splits)
  have "i = 0"
  proof (rule ccontr)
    assume "i \<noteq> 0"
    with i have "i \<in> {1, 2, 3, 4, 5}" by auto
    with assms(2) show False by (auto simp: thread_step_def stalled_def)
  qed
  with assms show ?thesis by (auto simp: thread_step_def stalled_def goto_def)
qed

inductive threads_run :: "'a sys \<Rightarrow> 'a sys \<Rightarrow> bool" where
  done_running: "threads_run s s"
| run_on: "threads_run s s' \<Longrightarrow> thread_step i j s' = Some s'' \<Longrightarrow> threads_run s s''"

text \<open>A wake-up can be lost: there is a reachable state of an open pool with a task in the buffer, an
  idle living worker and no call in progress, from which the threads of the pool alone, however long they
  run, never take the task (only a later call of \<^verbatim>\<open>threadPoolAdd\<close> or a spurious wake-up helps).  The
  cause is that \<^verbatim>\<open>exitNum\<close> outlives the signals it was announced with.\<close>

theorem lost_wakeup:
  "\<exists>s :: nat sys. reachable all_created 1 2 2 s \<and> \<not> shutdown (pool s) \<and> queueSize (pool s) = 1
    \<and> threadPoolAliveNum (pool s) = 1 \<and> threadPoolBusyNum (pool s) = 0
    \<and> (\<forall>s'. threads_run s s' \<longrightarrow> log_taken s' = log_taken s \<and> queueSize (pool s') = 1)"
proof -
  have r: "reachable all_created 1 2 2 (stalled M_Loop)"
    using play_reachable [OF reachable.start stall_run_stalls] .
  have "\<exists>m \<in> {M_Loop, M_Sleep, M_Busy 1 1, M_Decide 1 1 0, M_Shrink 1 0}. s' = stalled m"
    if "threads_run (stalled M_Loop) s'" for s'
    using that
  proof (induction "stalled M_Loop" s' rule: threads_run.induct)
    case done_running
    then show ?case by blast
  next
    case (run_on s' i j s'')
    then show ?case using stalled_step by blast
  qed
  then have "\<forall>s'. threads_run (stalled M_Loop) s' \<longrightarrow>
      log_taken s' = log_taken (stalled M_Loop) \<and> queueSize (pool s') = 1"
    using stalled_fields by metis
  with r show ?thesis
    by (intro exI [of _ "stalled M_Loop"]) (simp add: stalled_def threadPoolAliveNum_def threadPoolBusyNum_def)
qed

theorem lost_wakeup_witness:
  "\<exists>s :: nat sys. reachable all_created 1 2 2 s \<and> queueSize (pool s) = 1 \<and> threadPoolBusyNum (pool s) = 0"
  using lost_wakeup by blast

end
