(* ===== verification/CppPool.thy ===== *)
theory CppPool
  imports ThreadPool
begin

text \<open>
  The thread pool \<^verbatim>\<open>ThreadPool_C_C++/C++/threadPool.cpp\<close> with its queue \<^verbatim>\<open>TaskQueue.cpp\<close>.

  The system is modelled as in theory \<open>ThreadPool\<close>, whose counting lemmas it shares.  The queue is
  unbounded and has a mutex of its own, so that each of its operations is one step; \<^verbatim>\<open>addTask\<close> of the
  pool uses this mutex only and signals without holding \<^verbatim>\<open>mutexPool\<close>.  A task is its argument; the
  task that \<^verbatim>\<open>takeTask\<close> returns from an empty queue has no function, and calling it ends the process
  (\<open>crashed\<close>).  \<open>c_added\<close> and \<open>c_taken\<close> record the tasks put into and taken from the queue.
\<close>

section \<open>The queue and the pool\<close>

definition q_addTask :: "'a \<Rightarrow> 'a list \<Rightarrow> 'a list" where
  "q_addTask task m_taskQ = m_taskQ @ [task]"

definition q_takeTask :: "'a list \<Rightarrow> 'a option \<times> 'a list" where
  "q_takeTask m_taskQ = (case m_taskQ of [] \<Rightarrow> (None, []) | t # ts \<Rightarrow> (Some t, ts))"

record 'a cpool =
  c_queue :: "'a list"
  c_ids :: "nat list"
  c_min :: nat
  c_max :: nat
  c_busy :: nat
  c_live :: nat
  c_exit :: nat
  c_shut :: bool

definition new_cpool :: "nat \<Rightarrow> nat \<Rightarrow> 'a cpool" where
  "new_cpool minN maxN = \<lparr>c_queue = [], c_ids = map Suc [1 ..< Suc minN] @ replicate (maxN - minN) 0,
     c_min = minN, c_max = maxN, c_busy = 0, c_live = minN, c_exit = 0, c_shut = False\<rparr>"

definition c_exit_check :: "'a cpool \<Rightarrow> 'a cpool \<times> bool" where
  "c_exit_check p =
     (if 0 < c_exit p then
        (let p1 = p\<lparr>c_exit := c_exit p - 1\<rparr> in
         if c_min p1 < c_live p1 then (p1\<lparr>c_live := c_live p1 - 1\<rparr>, True) else (p1, False))
      else (p, False))"

definition threadExit :: "nat \<Rightarrow> 'a cpool \<Rightarrow> 'a cpool" where
  "threadExit pid p = p\<lparr>c_ids := clear_slot pid (c_ids p) (c_max p)\<rparr>"

fun c_add_threads :: "nat \<Rightarrow> nat \<Rightarrow> nat \<Rightarrow> nat \<Rightarrow> 'a cpool \<Rightarrow> 'a cpool \<times> nat" where
  "c_add_threads next' counter i 0 p = (p, counter)"
| "c_add_threads next' counter i (Suc n) p =
     (if counter < NUMBER \<and> c_live p < c_max p then
        (if c_ids p ! i = 0 then
           c_add_threads (Suc next') (counter + 1) (i + 1) n
             (p\<lparr>c_ids := (c_ids p)[i := next'], c_live := c_live p + 1\<rparr>)
         else c_add_threads next' counter (i + 1) n p)
      else (p, counter))"

definition getThreadPoolBusyNum :: "'a cpool \<Rightarrow> nat" where
  "getThreadPoolBusyNum p = c_busy p"

definition getThreadPoolAliveNum :: "'a cpool \<Rightarrow> nat" where
  "getThreadPoolAliveNum p = c_live p"

section \<open>Threads\<close>

datatype 'a cpc =
    CW_Lock            \<comment> \<open>worker, line 100\<close>
  | CW_ToWait          \<comment> \<open>worker holding the mutex, about to wait in line 102\<close>
  | CW_Waiting
  | CW_Woken
  | CW_Busy "'a option" \<comment> \<open>worker behind the unlock of line 125, with its task\<close>
  | CW_Ran             \<comment> \<open>worker, line 134\<close>
  | CW_Exit            \<comment> \<open>worker in \<^verbatim>\<open>threadExit\<close>\<close>
  | CA_Start 'a        \<comment> \<open>caller of \<^verbatim>\<open>addTask\<close>, line 144\<close>
  | CA_Push 'a         \<comment> \<open>line 146\<close>
  | CA_Signal          \<comment> \<open>line 147\<close>
  | CM_Loop            \<comment> \<open>manager, line 56\<close>
  | CM_Sleep
  | CM_Decide nat nat nat \<comment> \<open>manager, line 68, with queue size, \<^verbatim>\<open>liveNum\<close> and \<^verbatim>\<open>busyNum\<close>\<close>
  | CM_Shrink nat nat  \<comment> \<open>line 83\<close>
  | CM_Signal nat      \<comment> \<open>line 89, with signals still to send\<close>
  | CD_Start           \<comment> \<open>destructor\<close>
  | CD_Join
  | CD_Signal nat
  | CD_Free
  | C_Exited

record 'a csys =
  c_pool :: "'a cpool"
  c_owner :: "nat option"
  c_pcs :: "'a cpc list"
  c_freed :: bool
  crashed :: bool
  c_added :: "'a list"
  c_taken :: "'a list"

definition c_initial :: "nat \<Rightarrow> nat \<Rightarrow> 'a csys" where
  "c_initial minN maxN = \<lparr>c_pool = new_cpool minN maxN, c_owner = None, c_pcs = CM_Loop # replicate minN CW_Lock,
     c_freed = False, crashed = False, c_added = [], c_taken = []\<rparr>"

fun c_waits :: "'a cpc \<Rightarrow> bool" where
  "c_waits CW_Waiting = True" | "c_waits _ = False"

definition c_goto :: "nat \<Rightarrow> 'a cpc \<Rightarrow> 'a csys \<Rightarrow> 'a csys" where
  "c_goto i q s = s\<lparr>c_pcs := (c_pcs s)[i := q]\<rparr>"

text \<open>\<^verbatim>\<open>pthread_cond_signal(&notEmpty)\<close>: \<open>j\<close> is the thread that wakes up, if one waits.\<close>

definition c_signal :: "nat \<Rightarrow> 'a csys \<Rightarrow> 'a csys option" where
  "c_signal j s =
     (if \<not> list_ex c_waits (c_pcs s) then Some s
      else if j < length (c_pcs s) \<and> c_waits (c_pcs s ! j) then Some (c_goto j CW_Woken s) else None)"

text \<open>The worker with \<^verbatim>\<open>mutexPool\<close>, at the test of line 101, up to the next release\<close>

definition c_section :: "nat \<Rightarrow> 'a csys \<Rightarrow> 'a csys" where
  "c_section i s =
     (let p = c_pool s in
      if c_queue p = [] \<and> \<not> c_shut p then c_goto i CW_ToWait (s\<lparr>c_owner := Some i\<rparr>)
      else if c_shut p then c_goto i CW_Exit s
      else (case q_takeTask (c_queue p) of (task, ts) \<Rightarrow>
              c_goto i (CW_Busy task) (s\<lparr>c_pool := p\<lparr>c_queue := ts, c_busy := c_busy p + 1\<rparr>,
                c_taken := c_taken s @ (case task of None \<Rightarrow> [] | Some t \<Rightarrow> [t])\<rparr>)))"

definition c_manager_add :: "nat \<Rightarrow> 'a csys \<Rightarrow> 'a csys" where
  "c_manager_add i s =
     (case c_add_threads (Suc (length (c_pcs s))) 0 0 (c_max (c_pool s)) (c_pool s) of
        (p, n) \<Rightarrow> s\<lparr>c_pool := p, c_pcs := c_pcs s @ replicate n CW_Lock\<rparr>)"

text \<open>One step of thread \<open>i\<close>; \<open>None\<close> if the thread cannot run.\<close>

definition c_step :: "nat \<Rightarrow> nat \<Rightarrow> 'a csys \<Rightarrow> 'a csys option" where
  "c_step i j s =
     (if c_freed s \<or> crashed s \<or> length (c_pcs s) \<le> i then None
      else
       (let p = c_pool s in
        case c_pcs s ! i of
          CW_Lock \<Rightarrow> if c_owner s = None then Some (c_section i s) else None
        | CW_ToWait \<Rightarrow> Some (c_goto i CW_Waiting (s\<lparr>c_owner := None\<rparr>))
        | CW_Waiting \<Rightarrow> None
        | CW_Woken \<Rightarrow>
            if c_owner s = None then
              (case c_exit_check p of
                 (p', True) \<Rightarrow> Some (c_goto i CW_Exit (s\<lparr>c_pool := p'\<rparr>))
               | (p', False) \<Rightarrow> Some (c_section i (s\<lparr>c_pool := p'\<rparr>)))
            else None
        | CW_Busy task \<Rightarrow> Some (case task of None \<Rightarrow> s\<lparr>crashed := True\<rparr> | Some t \<Rightarrow> c_goto i CW_Ran s)
        | CW_Ran \<Rightarrow> if c_owner s = None then Some (c_goto i CW_Lock (s\<lparr>c_pool := p\<lparr>c_busy := c_busy p - 1\<rparr>\<rparr>)) else None
        | CW_Exit \<Rightarrow> Some (c_goto i C_Exited (s\<lparr>c_pool := threadExit (Suc i) p\<rparr>))
        | CA_Start t \<Rightarrow> Some (c_goto i (if c_shut p then C_Exited else CA_Push t) s)
        | CA_Push t \<Rightarrow> Some (c_goto i CA_Signal (s\<lparr>c_pool := p\<lparr>c_queue := q_addTask t (c_queue p)\<rparr>, c_added := c_added s @ [t]\<rparr>))
        | CA_Signal \<Rightarrow> c_signal j (c_goto i C_Exited s)
        | CM_Loop \<Rightarrow> Some (c_goto i (if c_shut p then C_Exited else CM_Sleep) s)
        | CM_Sleep \<Rightarrow>
            if c_owner s = None then Some (c_goto i (CM_Decide (length (c_queue p)) (c_live p) (c_busy p)) s) else None
        | CM_Decide qs ln bn \<Rightarrow>
            if ln < qs \<and> ln < c_max p then
              if c_owner s = None then Some (c_goto i (CM_Shrink ln bn) (c_manager_add i s)) else None
            else Some (c_goto i (CM_Shrink ln bn) s)
        | CM_Shrink ln bn \<Rightarrow>
            if bn * 2 < ln \<and> c_min p < ln then
              if c_owner s = None then Some (c_goto i (CM_Signal NUMBER) (s\<lparr>c_pool := p\<lparr>c_exit := NUMBER\<rparr>\<rparr>))
              else None
            else Some (c_goto i CM_Loop s)
        | CM_Signal n \<Rightarrow>
            (case n of 0 \<Rightarrow> Some (c_goto i CM_Loop s)
             | Suc m \<Rightarrow> c_signal j (c_goto i (CM_Signal m) s))
        | CD_Start \<Rightarrow> Some (c_goto i CD_Join (s\<lparr>c_pool := p\<lparr>c_shut := True\<rparr>\<rparr>))
        | CD_Join \<Rightarrow> if c_pcs s ! 0 = C_Exited then Some (c_goto i (CD_Signal 0) s) else None
        | CD_Signal k \<Rightarrow>
            if k < c_live p then c_signal j (c_goto i (CD_Signal (Suc k)) s)
            else Some (c_goto i CD_Free s)
        | CD_Free \<Rightarrow> Some (c_goto i C_Exited (s\<lparr>c_freed := True\<rparr>))
        | C_Exited \<Rightarrow> None))"

inductive c_move :: "'a csys \<Rightarrow> 'a csys \<Rightarrow> bool" where
  c_thread: "c_step i j s = Some s' \<Longrightarrow> c_move s s'"
| c_spurious: "\<not> c_freed s \<Longrightarrow> i < length (c_pcs s) \<Longrightarrow> c_waits (c_pcs s ! i) \<Longrightarrow> c_move s (c_goto i CW_Woken s)"
| c_client_add: "\<not> c_freed s \<Longrightarrow> c_move s (s\<lparr>c_pcs := c_pcs s @ [CA_Start t]\<rparr>)"
| c_client_destroy: "\<not> c_freed s \<Longrightarrow> c_move s (s\<lparr>c_pcs := c_pcs s @ [CD_Start]\<rparr>)"

inductive c_reachable :: "nat \<Rightarrow> nat \<Rightarrow> 'a csys \<Rightarrow> bool" for minN maxN where
  c_start: "c_reachable minN maxN (c_initial minN maxN)"
| c_next: "c_reachable minN maxN s \<Longrightarrow> c_move s s' \<Longrightarrow> c_reachable minN maxN s'"

section \<open>The invariant\<close>

















section \<open>Properties\<close>



text \<open>The lost wake-up\<close>

definition c_stalled :: "'a \<Rightarrow> 'a cpc \<Rightarrow> 'a csys" where
  "c_stalled t m = \<lparr>c_pool = (new_cpool 1 1)\<lparr>c_queue := [t]\<rparr>, c_owner = None, c_pcs = [m, CW_Waiting, C_Exited],
     c_freed = False, crashed = False, c_added = [t], c_taken = []\<rparr>"

inductive c_threads_run :: "'a csys \<Rightarrow> 'a csys \<Rightarrow> bool" where
  c_done: "c_threads_run s s"
| c_more: "c_threads_run s s' \<Longrightarrow> c_step i j s' = Some s'' \<Longrightarrow> c_threads_run s s''"

lemma c_stalled_fields: "c_queue (c_pool (c_stalled t m)) = [t]" "c_taken (c_stalled t m) = []"
  by (simp_all add: c_stalled_def)

lemma c_stalled_step:
  assumes "m \<in> {CM_Loop, CM_Sleep, CM_Decide 1 1 0, CM_Shrink 1 0}" "c_step i j (c_stalled t m) = Some s'"
  shows "\<exists>m' \<in> {CM_Loop, CM_Sleep, CM_Decide 1 1 0, CM_Shrink 1 0}. s' = c_stalled t m'"
proof -
  have "i < 3" using assms(2) by (simp add: c_step_def c_stalled_def split: if_splits)
  then consider "i = 0" | "i = 1" | "i = 2" by linarith
  then show ?thesis
    using assms by cases (auto simp: c_step_def c_stalled_def c_goto_def new_cpool_def)
qed

lemma c_stalled_run:
  assumes "c_threads_run s0 s'" "s0 = c_stalled t CM_Loop"
  shows "\<exists>m \<in> {CM_Loop, CM_Sleep, CM_Decide 1 1 0, CM_Shrink 1 0}. s' = c_stalled t m"
  using assms
proof (induction rule: c_threads_run.induct)
  case (c_done s)
  then show ?case by (intro bexI [of _ CM_Loop]) simp_all
next
  case (c_more s s' i j s'')
  obtain m where m: "m \<in> {CM_Loop, CM_Sleep, CM_Decide 1 1 0, CM_Shrink 1 0}" "s' = c_stalled t m"
    using c_more.IH [OF c_more.prems] by (elim bexE)
  show ?case by (rule c_stalled_step [OF m(1)]) (use c_more.hyps(2) m(2) in simp)
qed

lemma c_stalled_reachable: "c_reachable 1 1 (c_stalled t CM_Loop)"
proof -
  have step: "c_reachable 1 1 s \<Longrightarrow> c_step i j s = Some s' \<Longrightarrow> c_reachable 1 1 s'" for s s' :: "'a csys" and i j
    by (rule c_reachable.c_next [OF _ c_move.c_thread])
  let ?s = "\<lambda>q o' ps. \<lparr>c_pool = (new_cpool 1 1)\<lparr>c_queue := q\<rparr>, c_owner = o', c_pcs = CM_Loop # ps,
     c_freed = False, crashed = False, c_added = q, c_taken = []\<rparr> :: 'a csys"
  have "c_reachable 1 1 (c_initial 1 1 :: 'a csys)" by (rule c_reachable.c_start)
  then have "c_reachable 1 1 (?s [] None [CW_Lock])" by (simp add: c_initial_def new_cpool_def)
  then have "c_reachable 1 1 (?s [] (Some 1) [CW_ToWait])"
    by (rule step [of _ 1 0]) (simp add: c_step_def c_section_def c_goto_def new_cpool_def Let_def)
  then have "c_reachable 1 1 (?s [] (Some 1) [CW_ToWait, CA_Start t])"
    by (rule c_reachable.c_next) (use c_move.c_client_add [of "?s [] (Some 1) [CW_ToWait]" t] in simp)
  then have "c_reachable 1 1 (?s [] (Some 1) [CW_ToWait, CA_Push t])"
    by (rule step [of _ 2 0]) (simp add: c_step_def c_goto_def new_cpool_def)
  then have "c_reachable 1 1 (?s [t] (Some 1) [CW_ToWait, CA_Signal])"
    by (rule step [of _ 2 0]) (simp add: c_step_def c_goto_def new_cpool_def q_addTask_def)
  then have "c_reachable 1 1 (?s [t] (Some 1) [CW_ToWait, C_Exited])"
    by (rule step [of _ 2 0]) (simp add: c_step_def c_goto_def new_cpool_def c_signal_def)
  then have "c_reachable 1 1 (?s [t] None [CW_Waiting, C_Exited])"
    by (rule step [of _ 1 0]) (simp add: c_step_def c_goto_def new_cpool_def)
  then show ?thesis by (simp add: c_stalled_def)
qed

text \<open>\<^verbatim>\<open>addTask\<close> does not hold \<^verbatim>\<open>mutexPool\<close>, so its signal can fall between a worker's test of the queue and
  its wait.  Then the task stays in the queue while the only worker sleeps, however long the threads of
  the pool run.\<close>

theorem cpp_wakeup_is_lost:
  "\<exists>s. c_reachable 1 1 s \<and> \<not> c_shut (c_pool s) \<and> c_queue (c_pool s) = [t] \<and> getThreadPoolAliveNum (c_pool s) = 1 \<and>
    getThreadPoolBusyNum (c_pool s) = 0 \<and>
    (\<forall>s'. c_threads_run s s' \<longrightarrow> c_queue (c_pool s') = [t] \<and> c_taken s' = c_taken s)"
proof -
  have "c_queue (c_pool s') = [t] \<and> c_taken s' = []" if run: "c_threads_run (c_stalled t CM_Loop) s'" for s'
  proof -
    obtain m where "s' = c_stalled t m" using c_stalled_run [OF run refl] by (elim bexE)
    then show ?thesis by (simp only: c_stalled_fields simp_thms)
  qed
  then have "\<forall>s'. c_threads_run (c_stalled t CM_Loop) s' \<longrightarrow>
      c_queue (c_pool s') = [t] \<and> c_taken s' = c_taken (c_stalled t CM_Loop)"
    unfolding c_stalled_fields by (intro allI impI)
  moreover have "\<not> c_shut (c_pool (c_stalled t CM_Loop))" "getThreadPoolAliveNum (c_pool (c_stalled t CM_Loop)) = 1"
    "getThreadPoolBusyNum (c_pool (c_stalled t CM_Loop)) = 0"
    by (simp_all add: c_stalled_def new_cpool_def getThreadPoolAliveNum_def getThreadPoolBusyNum_def)
  ultimately show ?thesis using c_stalled_reachable c_stalled_fields(1) by (intro exI conjI)
qed

theorem cpp_wakeup_is_lost_witness:
  "\<exists>s. c_reachable 1 1 s \<and> c_queue (c_pool s) = [5 :: nat] \<and> getThreadPoolBusyNum (c_pool s) = 0"
  using cpp_wakeup_is_lost [of "5 :: nat"] by blast

end
