(* ===== verification/StdPool.thy ===== *)
theory StdPool
  imports ThreadPool
begin

text \<open>
  The thread pool on \<^verbatim>\<open>std::thread\<close>, \<^verbatim>\<open>ThreadPool_C_C++/ThreadPoll.hpp\<close>.

  All code between two waits runs under \<^verbatim>\<open>queue_mutex\<close> or touches nothing shared, and \<^verbatim>\<open>wait\<close> gives the
  mutex back in the same step in which the thread goes to sleep; so a critical section is one step.
  A notification is a step of its own, because it is sent without the mutex.  The waits of the workers
  may end spuriously.

  A task is named by what \<open>spawn\<close> takes: \<open>spawn t\<close> are the tasks that running \<open>t\<close> hands to \<^verbatim>\<open>enqueue\<close> of
  the same pool.  What else a task does is its own; an exception that leaves it goes into its future,
  since \<^verbatim>\<open>enqueue\<close> wraps it into a \<^verbatim>\<open>packaged_task\<close>.  \<open>added\<close>, \<open>started\<close> and \<open>ran\<close> record the tasks
  that were put into the queue, taken from it, and whose future is ready.
\<close>

section \<open>The pool\<close>

record 'a spool =
  tasks :: "'a list"
  stop :: bool

datatype 'a spc =
    W_Enter                \<comment> \<open>worker in front of line 35\<close>
  | W_Sleep                \<comment> \<open>worker in the wait of line 37\<close>
  | W_Woke
  | W_Call 'a "'a list"    \<comment> \<open>worker in line 47, with what the task has still to enqueue\<close>
  | W_Notify 'a "'a list"  \<comment> \<open>the task in line 80\<close>
  | W_Left
  | E_Enter 'a             \<comment> \<open>caller of \<^verbatim>\<open>enqueue\<close>, line 72\<close>
  | E_Notify               \<comment> \<open>line 80\<close>
  | E_Thrown               \<comment> \<open>line 75\<close>
  | E_Returned
  | D_Enter                \<comment> \<open>destructor, line 86\<close>
  | D_Notify               \<comment> \<open>line 89\<close>
  | D_Join nat             \<comment> \<open>lines 90 to 93, at the worker with this index\<close>
  | D_Returned

record 'a ssys =
  sp :: "'a spool"
  nworkers :: nat
  spcs :: "'a spc list"
  gone :: bool
  added :: "'a list"
  started :: "'a list"
  ran :: "'a list"

fun start_workers :: "nat \<Rightarrow> 'a spc list \<Rightarrow> 'a spc list" where
  "start_workers 0 workers = workers"
| "start_workers (Suc n) workers = start_workers n (workers @ [W_Enter])"

definition new_spool :: "nat \<Rightarrow> 'a ssys" where
  "new_spool threads = \<lparr>sp = \<lparr>tasks = [], stop = False\<rparr>, nworkers = threads, spcs = start_workers threads [],
     gone = False, added = [], started = [], ran = []\<rparr>"

definition goto :: "nat \<Rightarrow> 'a spc \<Rightarrow> 'a ssys \<Rightarrow> 'a ssys" where
  "goto i q s = s\<lparr>spcs := (spcs s)[i := q]\<rparr>"

text \<open>\<^verbatim>\<open>notify_one\<close>: \<open>j\<close> is the worker that wakes up, if one sleeps.\<close>

definition notify_one :: "nat \<Rightarrow> 'a ssys \<Rightarrow> 'a ssys option" where
  "notify_one j s =
     (if W_Sleep \<notin> set (spcs s) then Some s
      else if j < length (spcs s) \<and> spcs s ! j = W_Sleep then Some (goto j W_Woke s) else None)"

definition notify_all :: "'a ssys \<Rightarrow> 'a ssys" where
  "notify_all s = s\<lparr>spcs := map (\<lambda>p. if p = W_Sleep then W_Woke else p) (spcs s)\<rparr>"

text \<open>Lines 37 to 45: the worker has the mutex and tests the predicate of its wait.\<close>

definition worker_section :: "('a \<Rightarrow> 'a list) \<Rightarrow> nat \<Rightarrow> 'a ssys \<Rightarrow> 'a ssys" where
  "worker_section spawn i s =
     (if \<not> (stop (sp s) \<or> tasks (sp s) \<noteq> []) then goto i W_Sleep s
      else if stop (sp s) \<and> tasks (sp s) = [] then goto i W_Left s
      else (let task = hd (tasks (sp s)) in
            goto i (W_Call task (spawn task))
              (s\<lparr>sp := (sp s)\<lparr>tasks := tl (tasks (sp s))\<rparr>, started := started s @ [task]\<rparr>)))"

text \<open>Lines 72 to 78; \<open>None\<close> is the exception of line 75.\<close>

definition enqueue_section :: "'a \<Rightarrow> 'a ssys \<Rightarrow> 'a ssys option" where
  "enqueue_section task s =
     (if stop (sp s) then None
      else Some (s\<lparr>sp := (sp s)\<lparr>tasks := tasks (sp s) @ [task]\<rparr>, added := added s @ [task]\<rparr>))"

text \<open>One step of thread \<open>i\<close>; \<open>None\<close> if it cannot run.\<close>

definition spool_step :: "('a \<Rightarrow> 'a list) \<Rightarrow> nat \<Rightarrow> nat \<Rightarrow> 'a ssys \<Rightarrow> 'a ssys option" where
  "spool_step spawn i j s =
     (if gone s \<or> length (spcs s) \<le> i then None
      else (case spcs s ! i of
          W_Enter \<Rightarrow> Some (worker_section spawn i s)
        | W_Sleep \<Rightarrow> None
        | W_Woke \<Rightarrow> Some (worker_section spawn i s)
        | W_Call t [] \<Rightarrow> Some (goto i W_Enter (s\<lparr>ran := ran s @ [t]\<rparr>))
        | W_Call t (u # us) \<Rightarrow>
            (case enqueue_section u s of
               None \<Rightarrow> Some (goto i W_Enter (s\<lparr>ran := ran s @ [t]\<rparr>))
             | Some s' \<Rightarrow> Some (goto i (W_Notify t us) s'))
        | W_Notify t us \<Rightarrow> notify_one j (goto i (W_Call t us) s)
        | W_Left \<Rightarrow> None
        | E_Enter t \<Rightarrow>
            (case enqueue_section t s of
               None \<Rightarrow> Some (goto i E_Thrown s)
             | Some s' \<Rightarrow> Some (goto i E_Notify s'))
        | E_Notify \<Rightarrow> notify_one j (goto i E_Returned s)
        | E_Thrown \<Rightarrow> None
        | E_Returned \<Rightarrow> None
        | D_Enter \<Rightarrow> Some (goto i D_Notify (s\<lparr>sp := (sp s)\<lparr>stop := True\<rparr>\<rparr>))
        | D_Notify \<Rightarrow> Some (goto i (D_Join 0) (notify_all s))
        | D_Join k \<Rightarrow>
            if k < nworkers s then
              if spcs s ! k = W_Left then Some (goto i (D_Join (Suc k)) s) else None
            else Some (goto i D_Returned (s\<lparr>gone := True\<rparr>))
        | D_Returned \<Rightarrow> None))"

text \<open>The callers: any number of calls of \<^verbatim>\<open>enqueue\<close> while the pool exists, and one destructor.\<close>

fun destroys_pool :: "'a spc \<Rightarrow> bool" where
  "destroys_pool D_Enter = True" | "destroys_pool D_Notify = True" | "destroys_pool (D_Join k) = True"
| "destroys_pool D_Returned = True" | "destroys_pool _ = False"

inductive spool_move :: "('a \<Rightarrow> 'a list) \<Rightarrow> 'a ssys \<Rightarrow> 'a ssys \<Rightarrow> bool" for spawn where
  thread: "spool_step spawn i j s = Some s' \<Longrightarrow> spool_move spawn s s'"
| spurious: "\<not> gone s \<Longrightarrow> i < length (spcs s) \<Longrightarrow> spcs s ! i = W_Sleep \<Longrightarrow> spool_move spawn s (goto i W_Woke s)"
| call_enqueue: "\<not> gone s \<Longrightarrow> spool_move spawn s (s\<lparr>spcs := spcs s @ [E_Enter t]\<rparr>)"
| call_destructor: "\<not> list_ex destroys_pool (spcs s) \<Longrightarrow> spool_move spawn s (s\<lparr>spcs := spcs s @ [D_Enter]\<rparr>)"

inductive spool_reachable :: "('a \<Rightarrow> 'a list) \<Rightarrow> nat \<Rightarrow> 'a ssys \<Rightarrow> bool" for spawn threads where
  made: "spool_reachable spawn threads (new_spool threads)"
| moved: "spool_reachable spawn threads s \<Longrightarrow> spool_move spawn s s' \<Longrightarrow> spool_reachable spawn threads s'"

section \<open>The invariant\<close>

fun worker_pc :: "'a spc \<Rightarrow> bool" where
  "worker_pc W_Enter = True" | "worker_pc W_Sleep = True" | "worker_pc W_Woke = True"
| "worker_pc (W_Call t us) = True" | "worker_pc (W_Notify t us) = True" | "worker_pc W_Left = True"
| "worker_pc _ = False"

text \<open>The threads that will look at the queue, or send a notification, before they sleep.\<close>

fun coming :: "'a spc \<Rightarrow> bool" where
  "coming W_Enter = True" | "coming W_Woke = True" | "coming (W_Notify t us) = True"
| "coming E_Notify = True" | "coming _ = False"

fun current :: "'a spc \<Rightarrow> 'a list" where
  "current (W_Call t us) = [t]" | "current (W_Notify t us) = [t]" | "current _ = []"

definition inv_log :: "'a ssys \<Rightarrow> bool" where
  "inv_log s \<longleftrightarrow> added s = started s @ tasks (sp s) \<and>
     mset (started s) = mset (ran s) + mset (concat (map current (spcs s)))"

definition inv_workers :: "'a ssys \<Rightarrow> bool" where
  "inv_workers s \<longleftrightarrow> nworkers s \<le> length (spcs s) \<and>
     (\<forall>i < length (spcs s). worker_pc (spcs s ! i) \<longleftrightarrow> i < nworkers s) \<and>
     (W_Left \<in> set (spcs s) \<longrightarrow> stop (sp s) \<and> tasks (sp s) = [])"

definition inv_sleep :: "'a ssys \<Rightarrow> bool" where
  "inv_sleep s \<longleftrightarrow> (W_Sleep \<in> set (spcs s) \<longrightarrow>
     length (tasks (sp s)) \<le> cnt coming (spcs s) \<and> (stop (sp s) \<longrightarrow> D_Notify \<in> set (spcs s)))"

fun destroy_ok :: "nat \<Rightarrow> bool \<Rightarrow> bool \<Rightarrow> 'a spc list \<Rightarrow> 'a spc \<Rightarrow> bool" where
  "destroy_ok n st gn ps D_Enter \<longleftrightarrow> \<not> st"
| "destroy_ok n st gn ps D_Notify \<longleftrightarrow> st"
| "destroy_ok n st gn ps (D_Join k) \<longleftrightarrow> st \<and> (\<forall>i < min k n. ps ! i = W_Left)"
| "destroy_ok n st gn ps D_Returned \<longleftrightarrow> gn"
| "destroy_ok n st gn ps _ \<longleftrightarrow> True"

definition inv_destroy :: "'a ssys \<Rightarrow> bool" where
  "inv_destroy s \<longleftrightarrow> cnt destroys_pool (spcs s) \<le> 1 \<and>
     (stop (sp s) \<longrightarrow> list_ex destroys_pool (spcs s)) \<and>
     (\<forall>p \<in> set (spcs s). destroy_ok (nworkers s) (stop (sp s)) (gone s) (spcs s) p) \<and>
     (gone s \<longrightarrow> stop (sp s) \<and> (\<forall>i < nworkers s. spcs s ! i = W_Left))"

definition spool_inv :: "'a ssys \<Rightarrow> bool" where
  "spool_inv s \<longleftrightarrow> inv_log s \<and> inv_workers s \<and> inv_sleep s \<and> inv_destroy s"

lemmas spool_inv_defs = inv_log_def inv_workers_def inv_sleep_def inv_destroy_def spool_inv_def

lemma start_workers_eq: "start_workers n ws = ws @ replicate n W_Enter"
  by (induction n arbitrary: ws) (simp_all add: replicate_app_Cons_same)

lemma new_spool_inv: "spool_inv (new_spool n)"
  by (auto simp: spool_inv_defs new_spool_def start_workers_eq)

lemma inv_log_goto:
  assumes "inv_log s" "i < length (spcs s)" "spcs s1 = spcs s" "added s1 = started s1 @ tasks (sp s1)"
    "mset (started s1) + mset (current (spcs s ! i)) + mset (ran s) = mset (ran s1) + mset (current q) + mset (started s)"
  shows "inv_log (goto i q s1)"
proof -
  let ?m = "\<lambda>ps. mset (concat (map current ps))" and ?c = "mset (current (spcs s ! i))"
  have "?m ((spcs s)[i := q]) + ?c = ?m (spcs s) + mset (current q)"
    using concat_update [of i "map current (spcs s)" "current q"] assms(2) by (simp add: map_update)
  then have "mset (started s1) + (?c + mset (ran s)) = (mset (ran s1) + ?m ((spcs s)[i := q])) + (?c + mset (ran s))"
    using assms(1,5) unfolding inv_log_def by (simp add: ac_simps)
  then have "mset (started s1) = mset (ran s1) + ?m ((spcs s)[i := q])" by (rule add_right_imp_eq)
  then show ?thesis using assms(3,4) by (simp add: inv_log_def goto_def)
qed

lemma inv_workers_goto:
  assumes "inv_workers s" "i < length (spcs s)" "spcs s1 = spcs s" "nworkers s1 = nworkers s"
    "worker_pc q = worker_pc (spcs s ! i)"
    "q = W_Left \<or> W_Left \<in> set (spcs s) \<Longrightarrow> stop (sp s1) \<and> tasks (sp s1) = []"
  shows "inv_workers (goto i q s1)"
  using assms(1-5) assms(6) set_update_mem [of W_Left "spcs s" i q]
  by (auto simp: inv_workers_def goto_def nth_list_update)

lemma inv_sleep_goto:
  assumes "q = W_Sleep \<or> W_Sleep \<in> set (spcs s) \<Longrightarrow> length (tasks (sp s1)) \<le> cnt coming ((spcs s)[i := q])"
    "q = W_Sleep \<or> W_Sleep \<in> set (spcs s) \<Longrightarrow> stop (sp s1) \<Longrightarrow> D_Notify \<in> set ((spcs s)[i := q])" "spcs s1 = spcs s"
  shows "inv_sleep (goto i q s1)"
  using assms set_update_mem [of W_Sleep "spcs s" i q] by (auto simp: inv_sleep_def goto_def)

lemma inv_destroy_goto:
  assumes inv: "inv_destroy s" and i: "i < length (spcs s)" "spcs s ! i \<noteq> W_Left"
    and s1: "spcs s1 = spcs s" "nworkers s1 = nworkers s" "gone s1 = gone s" "stop (sp s1) = stop (sp s)" "\<not> gone s"
    and q: "destroys_pool q = destroys_pool (spcs s ! i)" "destroy_ok (nworkers s) (stop (sp s)) (gone s) (spcs s) q"
  shows "inv_destroy (goto i q s1)"
proof -
  have ok: "destroy_ok (nworkers s) (stop (sp s)) (gone s) ((spcs s)[i := q]) p"
    if "destroy_ok (nworkers s) (stop (sp s)) (gone s) (spcs s) p" for p
    using that i by (cases p) (auto simp: nth_list_update)
  have "list_ex destroys_pool ((spcs s)[i := q])" if "stop (sp s)"
    using inv that q(1) i(1) unfolding inv_destroy_def list_ex_length by (metis length_list_update nth_list_update)
  moreover have "cnt destroys_pool ((spcs s)[i := q]) \<le> 1"
    using inv cnt_update [OF i(1), of destroys_pool q] cnt_pos [OF i(1), of destroys_pool] q(1)
    by (auto simp: inv_destroy_def)
  moreover have "\<forall>p \<in> set ((spcs s)[i := q]). destroy_ok (nworkers s) (stop (sp s)) (gone s) ((spcs s)[i := q]) p"
    using inv ok q(2) set_update_mem [of _ "spcs s" i q] unfolding inv_destroy_def by blast
  ultimately show ?thesis using s1 by (simp add: inv_destroy_def goto_def)
qed

lemma notify_one_inv:
  assumes "inv_log s" "inv_workers s" "inv_destroy s" "\<not> gone s" "notify_one j s = Some s'"
    "W_Sleep \<in> set (spcs s) \<Longrightarrow> length (tasks (sp s)) \<le> Suc (cnt coming (spcs s))"
    "W_Sleep \<in> set (spcs s) \<Longrightarrow> stop (sp s) \<Longrightarrow> D_Notify \<in> set (spcs s)"
  shows "spool_inv s'"
proof (cases "W_Sleep \<in> set (spcs s)")
  case False
  then show ?thesis using assms(1-5) by (simp add: spool_inv_def notify_one_def inv_sleep_def)
next
  case True
  then have j: "j < length (spcs s)" "spcs s ! j = W_Sleep" and s': "s' = goto j W_Woke s"
    using assms(5) by (auto simp: notify_one_def split: if_splits)
  have "inv_log s'" unfolding s' by (rule inv_log_goto [OF assms(1) j(1)]) (use assms(1) j(2) in \<open>auto simp: inv_log_def\<close>)
  moreover have "inv_workers s'"
    unfolding s' by (rule inv_workers_goto [OF assms(2) j(1)]) (use assms(2) j(2) in \<open>auto simp: inv_workers_def\<close>)
  moreover have "inv_sleep s'"
    unfolding s' by (rule inv_sleep_goto [where s = s])
      (use True assms(6,7) j cnt_swap [OF j(1), of coming W_Woke] set_update_other [OF j(1), of D_Notify W_Woke] in auto)
  moreover have "inv_destroy s'"
    unfolding s' by (rule inv_destroy_goto [OF assms(3) j(1)]) (use j(2) assms(4) in auto)
  ultimately show ?thesis by (simp add: spool_inv_def)
qed

lemma hd_tl_tasks: "xs \<noteq> [] \<Longrightarrow> ys = zs @ xs \<Longrightarrow> ys = (zs @ [hd xs]) @ tl xs"
  by simp

lemma std_worker_section_inv:
  assumes inv: "spool_inv s" and i: "i < length (spcs s)" and pc: "spcs s ! i = W_Enter \<or> spcs s ! i = W_Woke"
    and g: "\<not> gone s"
  shows "spool_inv (worker_section spawn i s)"
proof -
  have d: "inv_log s" "inv_workers s" "inv_sleep s" "inv_destroy s" using inv by (auto simp: spool_inv_def)
  have pcs: "current (spcs s ! i) = []" "worker_pc (spcs s ! i)" "coming (spcs s ! i)" "\<not> destroys_pool (spcs s ! i)"
    "spcs s ! i \<noteq> W_Left" "spcs s ! i \<noteq> D_Notify" using pc by auto
  have dn: "D_Notify \<in> set ((spcs s)[i := q])" if "D_Notify \<in> set (spcs s)" for q
    using set_update_other [OF i, of D_Notify q] pcs(6) that by metis
  have go: "spool_inv (goto i q s1)"
    if s1: "spcs s1 = spcs s" "nworkers s1 = nworkers s" "gone s1 = gone s" "stop (sp s1) = stop (sp s)"
      and q: "worker_pc q" "q = W_Sleep \<Longrightarrow> \<not> stop (sp s)" "\<not> coming q" "q = W_Sleep \<Longrightarrow> tasks (sp s1) = []"
      and t: "tasks (sp s) \<noteq> [] \<Longrightarrow> length (tasks (sp s)) = Suc (length (tasks (sp s1)))"
        "tasks (sp s) = [] \<Longrightarrow> tasks (sp s1) = []" "q = W_Left \<Longrightarrow> stop (sp s) \<and> tasks (sp s) = []"
      and log: "added s1 = started s1 @ tasks (sp s1)" "mset (started s1) + mset (ran s) = mset (ran s1) + mset (current q) + mset (started s)"
    for q s1
  proof -
    have "\<not> destroys_pool q" "destroy_ok (nworkers s) (stop (sp s)) (gone s) (spcs s) q" using q(1) by (cases q; simp)+
    then have "inv_destroy (goto i q s1)"
      by (intro inv_destroy_goto [OF d(4) i pcs(5) s1 g]) (use pcs(4) in auto)
    moreover have "inv_sleep (goto i q s1)"
    proof (rule inv_sleep_goto [where s = s])
      show "length (tasks (sp s1)) \<le> cnt coming ((spcs s)[i := q])" if "q = W_Sleep \<or> W_Sleep \<in> set (spcs s)"
        using that q(3,4) t(1,2) d(3) cnt_swap [OF i, of coming q] pcs(3) by (cases "tasks (sp s) = []") (auto simp: inv_sleep_def)
    qed (use d(3) q(2) s1(1,4) dn in \<open>auto simp: inv_sleep_def\<close>)
    moreover have "inv_log (goto i q s1)"
      by (rule inv_log_goto [OF d(1) i s1(1) log(1)]) (use log(2) pcs(1) in simp)
    moreover have "inv_workers (goto i q s1)"
      by (rule inv_workers_goto [OF d(2) i s1(1,2)]) (use q(1) pcs(2) d(2) t(2,3) s1(4) in \<open>auto simp: inv_workers_def\<close>)
    ultimately show ?thesis by (simp add: spool_inv_def)
  qed
  have l: "added s = started s @ tasks (sp s)" using d(1) by (simp add: inv_log_def)
  consider (sleep) "\<not> (stop (sp s) \<or> tasks (sp s) \<noteq> [])" | (left) "stop (sp s)" "tasks (sp s) = []" | (take) "tasks (sp s) \<noteq> []" by blast
  then show ?thesis
  proof cases
    case sleep
    then show ?thesis unfolding worker_section_def using l by simp (rule go, auto)
  next
    case left
    then show ?thesis unfolding worker_section_def using l by simp (rule go, auto)
  next
    case take
    then show ?thesis unfolding worker_section_def Let_def using l by simp (rule go, auto simp: add.commute)
  qed
qed

lemma enqueue_section_inv:
  assumes inv: "spool_inv s" and i: "i < length (spcs s)" and g: "\<not> gone s" and e: "enqueue_section u s = Some s1"
    and pc: "\<not> coming (spcs s ! i)" "spcs s ! i \<noteq> W_Left" "spcs s ! i \<noteq> W_Sleep" "\<not> destroys_pool (spcs s ! i)"
    and q: "coming q" "worker_pc q = worker_pc (spcs s ! i)" "current q = current (spcs s ! i)"
  shows "spool_inv (goto i q s1)"
proof -
  have d: "inv_log s" "inv_workers s" "inv_sleep s" "inv_destroy s" using inv by (auto simp: spool_inv_def)
  have st: "\<not> stop (sp s)" and s1: "s1 = s\<lparr>sp := (sp s)\<lparr>tasks := tasks (sp s) @ [u]\<rparr>, added := added s @ [u]\<rparr>"
    using e by (auto simp: enqueue_section_def split: if_splits)
  have q': "q \<noteq> W_Left" "q \<noteq> W_Sleep" "\<not> destroys_pool q" "destroy_ok (nworkers s) (stop (sp s)) (gone s) (spcs s) q"
    using q(1) by (cases q; simp)+
  have "inv_log (goto i q s1)" by (rule inv_log_goto [OF d(1) i]) (use d(1) s1 q(3) in \<open>auto simp: inv_log_def\<close>)
  moreover have "inv_workers (goto i q s1)"
    by (rule inv_workers_goto [OF d(2) i]) (use d(2) s1 q(2) q' st in \<open>auto simp: inv_workers_def\<close>)
  moreover have "inv_sleep (goto i q s1)"
    by (rule inv_sleep_goto [where s = s])
      (use d(3) s1 q' st q(1) pc(1) cnt_swap [OF i, of coming q] in \<open>auto simp: inv_sleep_def\<close>)
  moreover have "inv_destroy (goto i q s1)"
    by (rule inv_destroy_goto [OF d(4) i pc(2)]) (use s1 g q' pc(4) in auto)
  ultimately show ?thesis by (simp add: spool_inv_def)
qed

lemma quiet_goto_inv:
  assumes inv: "spool_inv s" and i: "i < length (spcs s)" and g: "\<not> gone s"
    and pc: "\<not> coming (spcs s ! i)" "spcs s ! i \<noteq> W_Left" "spcs s ! i \<noteq> D_Notify \<or> W_Sleep \<notin> set (spcs s)" "spcs s ! i \<noteq> W_Sleep"
    and q: "worker_pc q = worker_pc (spcs s ! i)" "destroys_pool q = destroys_pool (spcs s ! i)" "q \<noteq> W_Left" "q \<noteq> W_Sleep"
      "destroy_ok (nworkers s) (stop (sp s)) (gone s) (spcs s) q"
    and r: "mset (ran s) + mset (current (spcs s ! i)) = mset r + mset (current q)"
  shows "spool_inv (goto i q (s\<lparr>ran := r\<rparr>))"
proof -
  have d: "inv_log s" "inv_workers s" "inv_sleep s" "inv_destroy s" using inv by (auto simp: spool_inv_def)
  have "inv_log (goto i q (s\<lparr>ran := r\<rparr>))"
    by (rule inv_log_goto [OF d(1) i]) (use d(1) r in \<open>auto simp: inv_log_def add.left_commute add.commute\<close>)
  moreover have "inv_workers (goto i q (s\<lparr>ran := r\<rparr>))"
    by (rule inv_workers_goto [OF d(2) i]) (use d(2) q in \<open>auto simp: inv_workers_def\<close>)
  moreover have "inv_sleep (goto i q (s\<lparr>ran := r\<rparr>))"
    by (rule inv_sleep_goto [where s = s])
      (use d(3) q pc cnt_swap [OF i, of coming q] set_update_other [OF i, of D_Notify q] in \<open>auto simp: inv_sleep_def\<close>)
  moreover have "inv_destroy (goto i q (s\<lparr>ran := r\<rparr>))"
    by (rule inv_destroy_goto [OF d(4) i pc(2)]) (use g q in auto)
  ultimately show ?thesis by (simp add: spool_inv_def)
qed

lemma notify_step_inv:
  assumes inv: "spool_inv s" and i: "i < length (spcs s)" and g: "\<not> gone s"
    and pc: "coming (spcs s ! i)" "\<not> destroys_pool (spcs s ! i)" "spcs s ! i \<noteq> W_Left"
    and q: "worker_pc q = worker_pc (spcs s ! i)" "\<not> destroys_pool q" "q \<noteq> W_Left" "q \<noteq> W_Sleep" "current q = current (spcs s ! i)"
    and n: "notify_one j (goto i q s) = Some s'"
  shows "spool_inv s'"
proof -
  have d: "inv_log s" "inv_workers s" "inv_sleep s" "inv_destroy s" using inv by (auto simp: spool_inv_def)
  have ok: "destroy_ok (nworkers s) (stop (sp s)) (gone s) (spcs s) q" using q(2) by (cases q) auto
  have ws: "W_Sleep \<in> set ((spcs s)[i := q]) \<longleftrightarrow> W_Sleep \<in> set (spcs s)"
    using set_update_other [OF i, of W_Sleep q] pc(1) q(4) by (metis coming.simps(5))
  have dn: "D_Notify \<in> set ((spcs s)[i := q])" if "D_Notify \<in> set (spcs s)"
    using set_update_other [OF i, of D_Notify q] pc(2) that by (metis destroys_pool.simps(2))
  show ?thesis
  proof (rule notify_one_inv [OF _ _ _ _ n])
    show "inv_log (goto i q s)" by (rule inv_log_goto [OF d(1) i]) (use d(1) q(5) in \<open>auto simp: inv_log_def\<close>)
    show "inv_workers (goto i q s)"
      by (rule inv_workers_goto [OF d(2) i]) (use d(2) q in \<open>auto simp: inv_workers_def\<close>)
    show "inv_destroy (goto i q s)" by (rule inv_destroy_goto [OF d(4) i pc(3)]) (use g pc q ok in auto)
  qed (use d(3) g ws dn cnt_swap [OF i, of coming q] pc(1) in \<open>auto simp: goto_def inv_sleep_def\<close>)
qed

lemma notify_all_pc: "p \<in> set ps \<Longrightarrow> p \<noteq> W_Sleep \<Longrightarrow> p \<in> set (map (\<lambda>p. if p = W_Sleep then W_Woke else p) ps)"
  by force

lemma notify_all_inv:
  assumes "inv_log s" "inv_workers s" "inv_destroy s"
  shows "spool_inv (notify_all s)"
proof -
  let ?w = "\<lambda>p :: 'a spc. if p = W_Sleep then W_Woke else p"
  have c: "current (?w p) = current p" "worker_pc (?w p) = worker_pc p" "destroys_pool (?w p) = destroys_pool p"
    "?w p = W_Left \<longleftrightarrow> p = W_Left" "W_Sleep \<noteq> ?w p" for p :: "'a spc" by auto
  have cnt: "cnt destroys_pool (map ?w (spcs s)) = cnt destroys_pool (spcs s)" by (rule cnt_cong) (auto simp: c(3))
  have ok: "destroy_ok n st gn ps p \<Longrightarrow> n \<le> length ps \<Longrightarrow> destroy_ok n st gn (map ?w ps) p" for n st gn ps and p :: "'a spc"
    by (cases p) auto
  have cur: "map (current \<circ> ?w) (spcs s) = map current (spcs s)" using c(1) by auto
  have "inv_log (notify_all s)" using assms(1) unfolding inv_log_def notify_all_def by (simp add: cur)
  moreover have "inv_workers (notify_all s)"
    using assms(2) c(2,4) by (auto simp: inv_workers_def notify_all_def)
  moreover have "inv_sleep (notify_all s)" using c(5) by (auto simp: inv_sleep_def notify_all_def)
  moreover have "inv_destroy (notify_all s)"
    unfolding inv_destroy_def
  proof (intro conjI)
    show "cnt destroys_pool (spcs (notify_all s)) \<le> 1" using assms(3) cnt by (simp add: inv_destroy_def notify_all_def)
    show "stop (sp (notify_all s)) \<longrightarrow> list_ex destroys_pool (spcs (notify_all s))"
      using assms(3) c(3) by (auto simp: inv_destroy_def notify_all_def list_ex_iff)
    show "\<forall>p \<in> set (spcs (notify_all s)). destroy_ok (nworkers (notify_all s)) (stop (sp (notify_all s))) (gone (notify_all s)) (spcs (notify_all s)) p"
      using assms(2,3) ok unfolding inv_destroy_def inv_workers_def notify_all_def by auto
    show "gone (notify_all s) \<longrightarrow> stop (sp (notify_all s)) \<and> (\<forall>i < nworkers (notify_all s). spcs (notify_all s) ! i = W_Left)"
      using assms(2,3) unfolding inv_destroy_def inv_workers_def notify_all_def by simp
  qed
  ultimately show ?thesis by (simp add: spool_inv_def)
qed

lemma single_destroyer:
  assumes "cnt destroys_pool ps \<le> 1" "i < length ps" "destroys_pool (ps ! i)" "p \<in> set (ps[i := q])" "p \<noteq> q"
  shows "\<not> destroys_pool p"
proof
  assume p: "destroys_pool p"
  have "cnt destroys_pool (ps[i := W_Left]) = 0" using assms(1-3) by (simp add: cnt_update)
  moreover obtain k where "k < length ps" "(ps[i := q]) ! k = p" using assms(4) by (auto simp: in_set_conv_nth)
  moreover from this have "k \<noteq> i" using assms(2,5) by auto
  ultimately show False using cnt_pos [of k "ps[i := W_Left]" destroys_pool] p by simp
qed

lemma destroy_ok_other: "\<not> destroys_pool p \<Longrightarrow> destroy_ok n st gn ps p"
  by (cases p) auto

lemma destructor_begins_inv:
  assumes inv: "spool_inv s" and i: "i < length (spcs s)" and g: "\<not> gone s" and pc: "spcs s ! i = D_Enter"
  shows "spool_inv (goto i D_Notify (s\<lparr>sp := (sp s)\<lparr>stop := True\<rparr>\<rparr>))" (is "spool_inv ?s")
proof -
  have d: "inv_log s" "inv_workers s" "inv_sleep s" "inv_destroy s" using inv by (auto simp: spool_inv_def)
  have "D_Enter \<in> set (spcs s)" using i pc by (metis nth_mem)
  then have st: "\<not> stop (sp s)" using d(4) unfolding inv_destroy_def by fastforce
  have "inv_log ?s" by (rule inv_log_goto [OF d(1) i]) (use d(1) pc in \<open>auto simp: inv_log_def\<close>)
  moreover have "inv_workers ?s"
    by (rule inv_workers_goto [OF d(2) i]) (use d(2) pc st in \<open>auto simp: inv_workers_def\<close>)
  moreover have "inv_sleep ?s"
    by (rule inv_sleep_goto [where s = s])
      (use d(3) pc st i cnt_swap [OF i, of coming D_Notify] in \<open>auto simp: inv_sleep_def set_update_memI\<close>)
  moreover have "inv_destroy ?s"
    unfolding inv_destroy_def
  proof (intro conjI)
    have c: "cnt destroys_pool (spcs s) \<le> 1" using d(4) by (simp add: inv_destroy_def)
    show "cnt destroys_pool (spcs ?s) \<le> 1" using c pc i by (simp add: goto_def cnt_update)
    show "stop (sp ?s) \<longrightarrow> list_ex destroys_pool (spcs ?s)"
      using set_update_memI [OF i, of D_Notify] by (auto simp: goto_def list_ex_iff intro: bexI [of _ D_Notify])
    show "\<forall>p \<in> set (spcs ?s). destroy_ok (nworkers ?s) (stop (sp ?s)) (gone ?s) (spcs ?s) p"
    proof
      fix p assume "p \<in> set (spcs ?s)"
      then have p: "p \<in> set ((spcs s)[i := D_Notify])" by (simp add: goto_def)
      show "destroy_ok (nworkers ?s) (stop (sp ?s)) (gone ?s) (spcs ?s) p"
      proof (cases "p = D_Notify")
        case False
        then show ?thesis using single_destroyer [OF c i _ p False] pc by (simp add: destroy_ok_other)
      qed (simp add: goto_def)
    qed
    show "gone ?s \<longrightarrow> stop (sp ?s) \<and> (\<forall>i < nworkers ?s. spcs ?s ! i = W_Left)" using g by (simp add: goto_def)
  qed
  ultimately show ?thesis by (simp add: spool_inv_def)
qed

lemma destructor_ends_inv:
  assumes inv: "spool_inv s" and i: "i < length (spcs s)" and g: "\<not> gone s" and pc: "spcs s ! i = D_Join k" "\<not> k < nworkers s"
  shows "spool_inv (goto i D_Returned (s\<lparr>gone := True\<rparr>))" (is "spool_inv ?s")
proof -
  have d: "inv_log s" "inv_workers s" "inv_sleep s" "inv_destroy s" using inv by (auto simp: spool_inv_def)
  have c: "cnt destroys_pool (spcs s) \<le> 1" using d(4) by (simp add: inv_destroy_def)
  have "D_Join k \<in> set (spcs s)" using i pc by (metis nth_mem)
  then have st: "stop (sp s)" and left: "\<forall>j < nworkers s. spcs s ! j = W_Left"
    using d(4) pc(2) unfolding inv_destroy_def by fastforce+
  have i': "\<not> i < nworkers s" using left pc(1) by auto
  have "inv_log ?s" by (rule inv_log_goto [OF d(1) i]) (use d(1) pc in \<open>auto simp: inv_log_def\<close>)
  moreover have "inv_workers ?s"
    by (rule inv_workers_goto [OF d(2) i]) (use d(2) pc st in \<open>auto simp: inv_workers_def\<close>)
  moreover have "inv_sleep ?s"
    by (rule inv_sleep_goto [where s = s])
      (use d(3) pc st i cnt_swap [OF i, of coming D_Returned] set_update_other [OF i, of D_Notify D_Returned] in \<open>auto simp: inv_sleep_def\<close>)
  moreover have "inv_destroy ?s"
    unfolding inv_destroy_def
  proof (intro conjI)
    show "cnt destroys_pool (spcs ?s) \<le> 1" using c pc i by (simp add: goto_def cnt_update)
    show "stop (sp ?s) \<longrightarrow> list_ex destroys_pool (spcs ?s)"
      using set_update_memI [OF i, of D_Returned] by (auto simp: goto_def list_ex_iff intro: bexI [of _ D_Returned])
    show "\<forall>p \<in> set (spcs ?s). destroy_ok (nworkers ?s) (stop (sp ?s)) (gone ?s) (spcs ?s) p"
    proof
      fix p assume "p \<in> set (spcs ?s)"
      then have p: "p \<in> set ((spcs s)[i := D_Returned])" by (simp add: goto_def)
      show "destroy_ok (nworkers ?s) (stop (sp ?s)) (gone ?s) (spcs ?s) p"
      proof (cases "p = D_Returned")
        case False
        then show ?thesis using single_destroyer [OF c i _ p False] pc by (simp add: destroy_ok_other)
      qed (simp add: goto_def)
    qed
    show "gone ?s \<longrightarrow> stop (sp ?s) \<and> (\<forall>i < nworkers ?s. spcs ?s ! i = W_Left)"
      using st left i' by (auto simp: goto_def nth_list_update)
  qed
  ultimately show ?thesis by (simp add: spool_inv_def)
qed

lemma spool_step_inv:
  assumes inv: "spool_inv s" and step: "spool_step spawn i j s = Some s'"
  shows "spool_inv s'"
proof -
  have g: "\<not> gone s" and i: "i < length (spcs s)" using step by (auto simp: spool_step_def split: if_splits)
  note quiet = quiet_goto_inv [OF inv i g, where r = "ran s", simplified]
  have d: "inv_log s" "inv_workers s" "inv_sleep s" "inv_destroy s" using inv by (auto simp: spool_inv_def)
  have ok: "destroy_ok (nworkers s) (stop (sp s)) (gone s) (spcs s) (spcs s ! i)"
    using d(4) i by (auto simp: inv_destroy_def)
  show ?thesis
  proof (cases "spcs s ! i")
    case W_Enter
    then show ?thesis using step g i std_worker_section_inv [OF inv i _ g] by (simp add: spool_step_def) blast
  next
    case W_Woke
    then show ?thesis using step g i std_worker_section_inv [OF inv i _ g] by (simp add: spool_step_def) blast
  next
    case (W_Call t us)
    show ?thesis
    proof (cases us)
      case Nil
      then show ?thesis using step g i W_Call quiet_goto_inv [OF inv i g, of W_Enter "ran s @ [t]"] by (simp add: spool_step_def)
    next
      case (Cons u vs)
      then show ?thesis
        using step g i W_Call quiet_goto_inv [OF inv i g, of W_Enter "ran s @ [t]"]
          enqueue_section_inv [OF inv i g, of u _ "W_Notify t vs"]
        by (auto simp: spool_step_def split: option.splits)
    qed
  next
    case (W_Notify t us)
    then show ?thesis using step g i notify_step_inv [OF inv i g, of "W_Call t us"] by (simp add: spool_step_def)
  next
    case (E_Enter t)
    then show ?thesis
      using step g i quiet [of E_Thrown] enqueue_section_inv [OF inv i g, of t _ E_Notify]
      by (auto simp: spool_step_def split: option.splits)
  next
    case E_Notify
    then show ?thesis using step g i notify_step_inv [OF inv i g, of E_Returned] by (simp add: spool_step_def)
  next
    case D_Enter
    then show ?thesis using step g i destructor_begins_inv [OF inv i g] by (simp add: spool_step_def)
  next
    case D_Notify
    have n: "spool_inv (notify_all s)" by (rule notify_all_inv [OF d(1,2,4)])
    have f: "spcs (notify_all s) ! i = D_Notify" "W_Sleep \<notin> set (spcs (notify_all s))" "i < length (spcs (notify_all s))"
      "\<not> gone (notify_all s)" "stop (sp (notify_all s))"
      using D_Notify i g ok by (auto simp: notify_all_def)
    show ?thesis
      using step g i D_Notify f ok quiet_goto_inv [OF n f(3,4), of "D_Join 0" "ran (notify_all s)"] by (simp add: spool_step_def)
  next
    case (D_Join k)
    have "spool_inv (goto i (D_Join (Suc k)) s)" if "k < nworkers s" "spcs s ! k = W_Left"
      using quiet [of "D_Join (Suc k)"] D_Join ok that less_Suc_eq by auto
    then show ?thesis
      using step g i D_Join destructor_ends_inv [OF inv i g D_Join] by (auto simp: spool_step_def split: if_splits)
  qed (use step g i in \<open>simp_all add: spool_step_def\<close>)
qed

lemma append_call_inv:
  assumes inv: "spool_inv s" and q: "\<not> worker_pc q" "current q = []" "\<not> gone s"
    "destroys_pool q \<Longrightarrow> \<not> list_ex destroys_pool (spcs s)" "destroy_ok (nworkers s) (stop (sp s)) (gone s) (spcs s) q"
  shows "spool_inv (s\<lparr>spcs := spcs s @ [q]\<rparr>)"
proof -
  have d: "inv_log s" "inv_workers s" "inv_sleep s" "inv_destroy s" using inv by (auto simp: spool_inv_def)
  have ok: "destroy_ok n st gn (ps @ [q]) p" if "destroy_ok n st gn ps p" "n \<le> length ps" for n st gn ps and p :: "'a spc"
    using that by (cases p) (auto simp: nth_append)
  have none: "cnt destroys_pool ps = 0" if "\<not> list_ex destroys_pool ps" for ps :: "'a spc list"
    using that by (auto simp: cnt_def list_ex_iff filter_empty_conv)
  have "inv_log (s\<lparr>spcs := spcs s @ [q]\<rparr>)" using d(1) q(2) by (simp add: inv_log_def)
  moreover have "inv_workers (s\<lparr>spcs := spcs s @ [q]\<rparr>)"
    using d(2) q(1) by (cases "q = W_Left") (auto simp: inv_workers_def nth_append less_Suc_eq)
  moreover have "inv_sleep (s\<lparr>spcs := spcs s @ [q]\<rparr>)"
    using d(3) q(1) by (cases "q = W_Sleep") (auto simp: inv_sleep_def)
  moreover have "inv_destroy (s\<lparr>spcs := spcs s @ [q]\<rparr>)"
    using d(2,4) q(3-5) none [of "spcs s"] ok by (auto simp: inv_destroy_def inv_workers_def)
  ultimately show ?thesis by (simp add: spool_inv_def)
qed

lemma spool_move_inv:
  assumes inv: "spool_inv s" and move: "spool_move spawn s s'"
  shows "spool_inv s'"
  using move
proof cases
  case (thread i j)
  then show ?thesis using spool_step_inv [OF inv] by blast
next
  case (spurious i)
  have d: "inv_log s" "inv_workers s" "inv_sleep s" "inv_destroy s" using inv by (auto simp: spool_inv_def)
  have "W_Sleep \<in> set (spcs s)" using spurious by (metis nth_mem)
  then show ?thesis
    using spurious notify_one_inv [OF d(1,2,4), of i s'] d(3) by (auto simp: notify_one_def inv_sleep_def)
next
  case (call_enqueue t)
  then show ?thesis using append_call_inv [OF inv, of "E_Enter t"] by simp
next
  case call_destructor
  have "\<not> gone s" "\<not> stop (sp s)" using call_destructor inv by (auto simp: spool_inv_def inv_destroy_def)
  then show ?thesis using call_destructor append_call_inv [OF inv, of D_Enter] by simp
qed

lemma spool_reachable_inv: "spool_reachable spawn n s \<Longrightarrow> spool_inv s"
  by (induction rule: spool_reachable.induct) (simp add: new_spool_inv, rule spool_move_inv)

lemma nworkers_kept: "spool_step spawn i j s = Some s' \<Longrightarrow> nworkers s' = nworkers s"
  by (auto simp: spool_step_def goto_def worker_section_def enqueue_section_def notify_one_def notify_all_def Let_def
      split: if_splits spc.splits list.splits)

lemma spool_reachable_nworkers: "spool_reachable spawn n s \<Longrightarrow> nworkers s = n"
proof (induction rule: spool_reachable.induct)
  case (moved s s')
  from moved(2,3) show ?case by cases (auto simp: goto_def dest: nworkers_kept)
qed (simp add: new_spool_def)

section \<open>What is left to do\<close>

definition pc_work :: "nat \<Rightarrow> 'a spc \<Rightarrow> nat" where
  "pc_work n p = (case p of W_Enter \<Rightarrow> 1 | W_Sleep \<Rightarrow> 2 | W_Woke \<Rightarrow> 1 | W_Call t us \<Rightarrow> 2 | W_Notify t us \<Rightarrow> 3 | W_Left \<Rightarrow> 0
     | E_Enter t \<Rightarrow> 2 | E_Notify \<Rightarrow> 1 | E_Thrown \<Rightarrow> 0 | E_Returned \<Rightarrow> 0
     | D_Enter \<Rightarrow> n + 3 | D_Notify \<Rightarrow> n + 2 | D_Join k \<Rightarrow> n - k + 1 | D_Returned \<Rightarrow> 0)"

definition work_left :: "'a ssys \<Rightarrow> nat" where
  "work_left s = 2 * length (tasks (sp s)) + sum_list (map (pc_work (nworkers s)) (spcs s))"

inductive pool_run :: "('a \<Rightarrow> 'a list) \<Rightarrow> nat \<Rightarrow> 'a ssys \<Rightarrow> 'a ssys \<Rightarrow> bool" for spawn where
  here: "pool_run spawn 0 s s"
| runs: "pool_run spawn m s s' \<Longrightarrow> spool_step spawn i j s' = Some s'' \<Longrightarrow> pool_run spawn (Suc m) s s''"
| wakes: "pool_run spawn m s s' \<Longrightarrow> \<not> gone s' \<Longrightarrow> i < length (spcs s') \<Longrightarrow> spcs s' ! i = W_Sleep
    \<Longrightarrow> pool_run spawn (Suc m) s (goto i W_Woke s')"

lemma sum_work_update:
  "i < length ps \<Longrightarrow> sum_list (map (pc_work n) (ps[i := q])) + pc_work n (ps ! i) = sum_list (map (pc_work n) ps) + pc_work n q"
  by (induction ps arbitrary: i) (auto simp: nth_Cons split: nat.splits)

lemma work_left_goto:
  assumes "i < length (spcs s)" "spcs s1 = spcs s" "nworkers s1 = nworkers s"
    "2 * length (tasks (sp s1)) + pc_work (nworkers s) q < 2 * length (tasks (sp s)) + pc_work (nworkers s) (spcs s ! i)"
  shows "work_left (goto i q s1) < work_left s"
  using assms sum_work_update [OF assms(1), of "nworkers s" q] by (simp add: work_left_def goto_def)

lemma notify_one_work: "notify_one j s = Some s' \<Longrightarrow> work_left s' \<le> work_left s"
  using sum_work_update [of j "spcs s" "nworkers s" W_Woke]
  by (auto simp: notify_one_def work_left_def goto_def pc_work_def split: if_splits)

lemma notify_all_work: "work_left (notify_all s) \<le> work_left s"
proof -
  have "sum_list (map (pc_work n) (map (\<lambda>p. if p = W_Sleep then W_Woke else p) ps)) \<le> sum_list (map (pc_work n) ps)"
    for n and ps :: "'a spc list"
    unfolding map_map by (rule sum_list_mono) (auto simp: pc_work_def)
  then show ?thesis by (simp add: work_left_def notify_all_def)
qed

lemma stopped_step_work:
  assumes inv: "spool_inv s" and st: "stop (sp s)" and step: "spool_step spawn i j s = Some s'"
  shows "work_left s' < work_left s \<and> stop (sp s')"
proof -
  have g: "\<not> gone s" and i: "i < length (spcs s)" using step by (auto simp: spool_step_def split: if_splits)
  note go = work_left_goto [OF i]
  have sec: "work_left (worker_section spawn i s) < work_left s" if "spcs s ! i = W_Enter \<or> spcs s ! i = W_Woke"
    using st that by (cases "tasks (sp s)") (auto simp: worker_section_def Let_def pc_work_def intro!: go)
  have stp: "stop (sp s')"
    using step st by (auto simp: spool_step_def goto_def worker_section_def enqueue_section_def notify_one_def notify_all_def Let_def
        split: if_splits spc.splits list.splits)
  have "work_left s' < work_left s"
  proof (cases "spcs s ! i")
    case W_Enter
    then show ?thesis using step g i sec by (simp add: spool_step_def)
  next
    case W_Woke
    then show ?thesis using step g i sec by (simp add: spool_step_def)
  next
    case (W_Call t us)
    then show ?thesis
      using step g i st go [of "s\<lparr>ran := ran s @ [t]\<rparr>" W_Enter]
      by (auto simp: spool_step_def enqueue_section_def pc_work_def split: list.splits)
  next
    case (W_Notify t us)
    then have n: "notify_one j (goto i (W_Call t us) s) = Some s'" using step g i by (simp add: spool_step_def)
    show ?thesis using notify_one_work [OF n] go [of s "W_Call t us"] W_Notify by (simp add: pc_work_def)
  next
    case (E_Enter t)
    then show ?thesis using step g i st go [of s E_Thrown] by (auto simp: spool_step_def enqueue_section_def pc_work_def)
  next
    case E_Notify
    then have n: "notify_one j (goto i E_Returned s) = Some s'" using step g i by (simp add: spool_step_def)
    show ?thesis using notify_one_work [OF n] go [of s E_Returned] E_Notify by (simp add: pc_work_def)
  next
    case D_Enter
    have "D_Enter \<in> set (spcs s)" using D_Enter i by (metis nth_mem)
    then show ?thesis using st inv by (fastforce simp: spool_inv_def inv_destroy_def)
  next
    case D_Notify
    have "work_left (goto i (D_Join 0) (notify_all s)) < work_left (notify_all s)"
      by (rule work_left_goto) (use D_Notify i in \<open>auto simp: notify_all_def pc_work_def\<close>)
    then show ?thesis using step g i D_Notify notify_all_work [of s] by (simp add: spool_step_def)
  next
    case (D_Join k)
    then show ?thesis
      using step g i go [of s "D_Join (Suc k)"] go [of "s\<lparr>gone := True\<rparr>" D_Returned]
      by (auto simp: spool_step_def pc_work_def split: if_splits)
  qed (use step g i in \<open>simp_all add: spool_step_def\<close>)
  then show ?thesis using stp by blast
qed

lemma stopped_run:
  "pool_run spawn m s s' \<Longrightarrow> spool_inv s \<Longrightarrow> stop (sp s) \<Longrightarrow>
    spool_inv s' \<and> stop (sp s') \<and> nworkers s' = nworkers s \<and> m + work_left s' \<le> work_left s"
proof (induction rule: pool_run.induct)
  case (runs m s s' i j s'')
  then show ?case using stopped_step_work [of s'] spool_step_inv [of s'] nworkers_kept [of spawn i j s' s''] by fastforce
next
  case (wakes m s s' i)
  have "work_left (goto i W_Woke s') < work_left s'" by (rule work_left_goto) (use wakes in \<open>auto simp: pc_work_def\<close>)
  moreover have "spool_inv (goto i W_Woke s')"
    by (rule spool_move_inv [OF _ spool_move.spurious]) (use wakes in auto)
  ultimately show ?case using wakes by (auto simp: goto_def)
qed simp

lemma stuck_state:
  assumes inv: "spool_inv s" and stuck: "\<And>i j. spool_step spawn i j s = None"
  shows "gone s \<or> \<not> stop (sp s) \<and> (\<forall>i < nworkers s. spcs s ! i = W_Sleep) \<and> (0 < nworkers s \<longrightarrow> tasks (sp s) = []) \<and>
    (\<forall>i < length (spcs s). nworkers s \<le> i \<longrightarrow> spcs s ! i \<in> {E_Thrown, E_Returned})"
proof (cases "gone s")
  case False
  have d: "inv_log s" "inv_workers s" "inv_sleep s" "inv_destroy s" using inv by (auto simp: spool_inv_def)
  have some_notify: "\<exists>j s'. notify_one j s1 = Some s'" for s1 :: "'a ssys"
    unfolding notify_one_def by (metis in_set_conv_nth)
  have pc: "spcs s ! i \<in> {W_Sleep, W_Left, E_Thrown, E_Returned, D_Returned} \<or> (\<exists>k < nworkers s. spcs s ! i = D_Join k \<and> spcs s ! k \<noteq> W_Left)"
    if "i < length (spcs s)" for i
  proof (cases "spcs s ! i")
    case (W_Call t us)
    then show ?thesis using that stuck [of i] False by (cases us) (auto simp: spool_step_def split: option.splits)
  next
    case (W_Notify t us)
    then show ?thesis using that stuck [of i] False some_notify [of "goto i (W_Call t us) s"] by (auto simp: spool_step_def)
  next
    case (E_Enter t)
    then show ?thesis using that stuck [of i] False by (auto simp: spool_step_def split: option.splits)
  next
    case E_Notify
    then show ?thesis using that stuck [of i] False some_notify [of "goto i E_Returned s"] by (auto simp: spool_step_def)
  next
    case (D_Join k)
    then show ?thesis using that stuck [of i] False by (auto simp: spool_step_def split: if_splits)
  qed (use that stuck [of i] False in \<open>auto simp: spool_step_def\<close>)
  have nr: "D_Returned \<notin> set (spcs s)" using d(4) False by (fastforce simp: inv_destroy_def)
  have nd: "D_Notify \<notin> set (spcs s)" using pc by (fastforce simp: in_set_conv_nth)
  have nc: "cnt coming (spcs s) = 0" using pc by (fastforce simp: cnt_def filter_empty_conv in_set_conv_nth)
  have wk: "worker_pc (spcs s ! i) \<longleftrightarrow> i < nworkers s" if "i < length (spcs s)" for i using d(2) that by (simp add: inv_workers_def)
  have nj: "D_Join k \<notin> set (spcs s)" for k
  proof
    assume k: "D_Join k \<in> set (spcs s)"
    then obtain i where "i < length (spcs s)" "spcs s ! i = D_Join k" by (auto simp: in_set_conv_nth)
    then have k': "k < nworkers s" "spcs s ! k \<noteq> W_Left" using pc by fastforce+
    then have l: "k < length (spcs s)" using d(2) by (simp add: inv_workers_def)
    then have "spcs s ! k = W_Sleep" using pc [OF l] wk [OF l] k' by auto
    then have "W_Sleep \<in> set (spcs s)" using l by (metis nth_mem)
    moreover have "stop (sp s)" using k d(4) by (fastforce simp: inv_destroy_def)
    ultimately show False using d(3) nd by (simp add: inv_sleep_def)
  qed
  have pc': "spcs s ! i \<in> {W_Sleep, W_Left, E_Thrown, E_Returned}" if "i < length (spcs s)" for i
    using pc [OF that] nr nj nth_mem [OF that] by auto
  have "\<not> list_ex destroys_pool (spcs s)" using pc' by (fastforce simp: list_ex_length)
  then have ns: "\<not> stop (sp s)" using d(4) by (auto simp: inv_destroy_def)
  then have nl: "W_Left \<notin> set (spcs s)" using d(2) by (auto simp: inv_workers_def)
  have sl: "spcs s ! i = W_Sleep" if "i < nworkers s" for i
  proof -
    have i: "i < length (spcs s)" using that d(2) by (simp add: inv_workers_def)
    then have "spcs s ! i \<noteq> W_Left" using nl nth_mem by metis
    then show ?thesis using pc' [OF i] wk [OF i] that by auto
  qed
  have "tasks (sp s) = []" if "0 < nworkers s"
  proof -
    have "W_Sleep \<in> set (spcs s)" using sl [OF that] that d(2) unfolding inv_workers_def by (metis less_le_trans nth_mem)
    then show ?thesis using d(3) nc by (simp add: inv_sleep_def)
  qed
  moreover have "spcs s ! i \<in> {E_Thrown, E_Returned}" if "i < length (spcs s)" "nworkers s \<le> i" for i
    using pc' [OF that(1)] wk [OF that(1)] that(2) by auto
  ultimately show ?thesis using ns sl by blast
qed simp

lemma gone_all_run:
  assumes "spool_inv s" "gone s" "0 < nworkers s"
  shows "tasks (sp s) = []" "mset (ran s) = mset (added s)"
proof -
  have d: "inv_log s" "inv_workers s" "inv_destroy s" using assms(1) by (auto simp: spool_inv_def)
  have left: "\<forall>i < nworkers s. spcs s ! i = W_Left" using d(3) assms(2) by (simp add: inv_destroy_def)
  then have "W_Left \<in> set (spcs s)" using assms(3) d(2) unfolding inv_workers_def by (metis less_le_trans nth_mem)
  then show t: "tasks (sp s) = []" using d(2) by (simp add: inv_workers_def)
  have "current (spcs s ! i) = []" if "i < length (spcs s)" for i
    using that left d(2) by (cases "i < nworkers s"; cases "spcs s ! i") (auto simp: inv_workers_def)
  then have "concat (map current (spcs s)) = []" by (auto simp: in_set_conv_nth)
  then show "mset (ran s) = mset (added s)" using d(1) t by (simp add: inv_log_def)
qed

lemma no_workers_no_start:
  assumes inv: "spool_inv s" and n: "nworkers s = 0" and step: "spool_step spawn i j s = Some s'"
  shows "started s' = started s"
proof -
  have "i < length (spcs s)" using step by (auto simp: spool_step_def split: if_splits)
  then have "\<not> worker_pc (spcs s ! i)" using inv n by (simp add: spool_inv_def inv_workers_def)
  then show ?thesis
    using step by (cases "spcs s ! i")
      (auto simp: spool_step_def goto_def enqueue_section_def notify_one_def notify_all_def split: if_splits option.splits)
qed

lemma no_workers_nothing_started: "spool_reachable spawn n s \<Longrightarrow> n = 0 \<Longrightarrow> started s = []"
proof (induction rule: spool_reachable.induct)
  case (moved s s')
  have "spool_inv s" "nworkers s = 0" using spool_reachable_inv [OF moved(1)] spool_reachable_nworkers [OF moved(1)] moved.prems by auto
  from moved(2) moved.IH [OF moved.prems] show ?case
    by cases (auto simp: goto_def no_workers_no_start [OF \<open>spool_inv s\<close> \<open>nworkers s = 0\<close>])
qed (simp add: new_spool_def)

section \<open>Properties\<close>

text \<open>C15: In every interleaving the tasks started, followed by those in the queue, are the tasks enqueued in their
  order; each started task is running on one worker or its future is ready; and when the destructor of a
  pool with workers returns, every task that was ever enqueued has run, once.  A pool without workers
  runs none and its destructor drops them all.\<close>

theorem std_pool_runs_every_task:
  assumes "spool_reachable spawn n s"
  shows "added s = started s @ tasks (sp s) \<and>
    mset (started s) = mset (ran s) + mset (concat (map current (spcs s))) \<and>
    (gone s \<longrightarrow> (if 0 < n then tasks (sp s) = [] \<and> mset (ran s) = mset (added s) else ran s = [] \<and> tasks (sp s) = added s))"
proof -
  have inv: "spool_inv s" and n: "nworkers s = n"
    using spool_reachable_inv [OF assms] spool_reachable_nworkers [OF assms] by auto
  have l: "inv_log s" using inv by (simp add: spool_inv_def)
  have "ran s = [] \<and> tasks (sp s) = added s" if "n = 0"
    using no_workers_nothing_started [OF assms that] l by (simp add: inv_log_def)
  then show ?thesis using l gone_all_run [OF inv] n by (auto simp: inv_log_def)
qed

theorem std_pool_runs_every_task_witness:
  "added (goto 1 E_Notify (the (enqueue_section (7 :: nat) (goto 1 (E_Enter 7) ((new_spool 1)\<lparr>spcs := [W_Enter, E_Enter 7]\<rparr>))))) = [7] \<and>
   spool_reachable (\<lambda>t. []) 1 (goto 1 E_Notify (the (enqueue_section (7 :: nat) (goto 1 (E_Enter 7) ((new_spool 1)\<lparr>spcs := [W_Enter, E_Enter 7]\<rparr>)))))"
proof -
  let ?s = "(new_spool 1 :: nat ssys)\<lparr>spcs := [W_Enter, E_Enter 7]\<rparr>"
  have "spool_reachable (\<lambda>t. []) 1 ((new_spool 1)\<lparr>spcs := spcs (new_spool 1) @ [E_Enter (7 :: nat)]\<rparr>)"
    by (rule spool_reachable.moved [OF spool_reachable.made spool_move.call_enqueue]) (simp add: new_spool_def)
  then have "spool_reachable (\<lambda>t. []) 1 ?s" by (simp add: new_spool_def)
  moreover have "spool_step (\<lambda>t. []) 1 0 ?s = Some (goto 1 E_Notify (the (enqueue_section 7 (goto 1 (E_Enter 7) ?s))))"
    by (simp add: spool_step_def enqueue_section_def new_spool_def goto_def)
  ultimately have r: "spool_reachable (\<lambda>t. []) 1 (goto 1 E_Notify (the (enqueue_section 7 (goto 1 (E_Enter 7) ?s))))"
    by (rule spool_reachable.moved [OF _ spool_move.thread])
  have "tasks (sp (goto 1 E_Notify (the (enqueue_section 7 (goto 1 (E_Enter 7) ?s))))) = [7]"
    "started (goto 1 E_Notify (the (enqueue_section 7 (goto 1 (E_Enter 7) ?s)))) = []"
    by (simp_all add: enqueue_section_def new_spool_def goto_def)
  then show ?thesis using std_pool_runs_every_task [OF r] r by simp
qed

text \<open>C40: No wake-up is lost: while a worker sleeps there are, for the tasks in the queue, as many workers
  that will look at the queue or notifications that will be sent; and if no thread at all can run, the
  pool is destroyed, or every worker sleeps, the queue is empty and every call of \<^verbatim>\<open>enqueue\<close> has returned.\<close>

theorem std_pool_loses_no_wakeup:
  assumes "spool_reachable spawn n s" "0 < n"
  shows "(W_Sleep \<in> set (spcs s) \<longrightarrow> length (tasks (sp s)) \<le> cnt coming (spcs s)) \<and>
    ((\<forall>i j. spool_step spawn i j s = None) \<longrightarrow>
       gone s \<or> \<not> stop (sp s) \<and> tasks (sp s) = [] \<and> (\<forall>i < n. spcs s ! i = W_Sleep) \<and>
         (\<forall>i < length (spcs s). n \<le> i \<longrightarrow> spcs s ! i \<in> {E_Thrown, E_Returned}))"
proof -
  have inv: "spool_inv s" and n: "nworkers s = n"
    using spool_reachable_inv [OF assms(1)] spool_reachable_nworkers [OF assms(1)] by auto
  have "inv_sleep s" using inv by (simp add: spool_inv_def)
  then show ?thesis using stuck_state [OF inv, of spawn] n assms(2) by (auto simp: inv_sleep_def)
qed

theorem std_pool_loses_no_wakeup_witness:
  "\<not> (W_Sleep \<in> set (spcs (new_spool 2 :: nat ssys)) \<and> cnt coming (spcs (new_spool 2 :: nat ssys)) < length (tasks (sp (new_spool 2 :: nat ssys))))"
  using std_pool_loses_no_wakeup [OF spool_reachable.made, of 2, where 'a = nat] by auto

text \<open>C14: The destructor returns: once \<^verbatim>\<open>stop\<close> is set, the threads of the pool and of its callers make at most
  \<open>work_left\<close> steps and spurious wake-ups, and when none of them can make another one the destructor has
  returned, whatever the tasks still try to enqueue.\<close>

theorem std_pool_destructor_returns:
  assumes "spool_reachable spawn n s" "stop (sp s)" "pool_run spawn m s s'"
  shows "m \<le> work_left s \<and> ((\<forall>i j. spool_step spawn i j s' = None) \<longrightarrow>
    gone s' \<and> (0 < n \<longrightarrow> tasks (sp s') = [] \<and> mset (ran s') = mset (added s')))"
proof -
  have inv: "spool_inv s" and n: "nworkers s = n"
    using spool_reachable_inv [OF assms(1)] spool_reachable_nworkers [OF assms(1)] by auto
  note r = stopped_run [OF assms(3) inv assms(2)]
  then show ?thesis using stuck_state [of s' spawn] gone_all_run [of s'] n by auto
qed

theorem std_pool_destructor_returns_witness:
  "\<exists>s. spool_reachable (\<lambda>t. []) 3 (s :: nat ssys) \<and> stop (sp s) \<and> (\<forall>m s'. pool_run (\<lambda>t. []) m s s' \<longrightarrow> m \<le> 8)"
proof -
  let ?a = "(new_spool 3 :: nat ssys)\<lparr>spcs := [W_Enter, W_Enter, W_Enter, D_Enter]\<rparr>"
  let ?s = "goto 3 D_Notify (?a\<lparr>sp := (sp ?a)\<lparr>stop := True\<rparr>\<rparr>)"
  have "spool_reachable (\<lambda>t. []) 3 ((new_spool 3 :: nat ssys)\<lparr>spcs := spcs (new_spool 3) @ [D_Enter]\<rparr>)"
    by (rule spool_reachable.moved [OF spool_reachable.made spool_move.call_destructor])
      (simp add: new_spool_def start_workers_eq numeral_eq_Suc)
  then have "spool_reachable (\<lambda>t. []) 3 ?a" by (simp add: new_spool_def start_workers_eq numeral_eq_Suc)
  moreover have "spool_step (\<lambda>t. []) 3 0 ?a = Some ?s" by (simp add: spool_step_def new_spool_def)
  ultimately have r: "spool_reachable (\<lambda>t. []) 3 ?s" by (metis spool_reachable.moved spool_move.thread)
  have "work_left ?s = 8" by (simp add: work_left_def goto_def new_spool_def pc_work_def numeral_eq_Suc)
  then have "pool_run (\<lambda>t. []) m ?s s' \<Longrightarrow> m \<le> 8" for m s'
    using std_pool_destructor_returns [OF r, of m s'] by (simp add: goto_def)
  moreover have "stop (sp ?s)" by (simp add: goto_def)
  ultimately show ?thesis using r by blast
qed

end
