(* ===== verification/IniFile.thy ===== *)
theory IniFile
  imports StdContainers "HOL-Library.Char_ord" "HOL-Library.List_Lexorder"
begin

text \<open>
  The reader and writer of configuration files, \<^verbatim>\<open>ini-parse/inifile.h\<close> and \<^verbatim>\<open>inifile.cpp\<close>.

  A \<^verbatim>\<open>Value\<close> is its member \<^verbatim>\<open>m_value\<close>, a string.  The two nested \<^verbatim>\<open>std::map\<close>s are ordered lists
  (theory \<open>StdContainers\<close>); \<^verbatim>\<open>operator[]\<close> inserts a default entry where there is none.  A file is the
  text it holds, or \<open>None\<close> when it cannot be opened; \<^verbatim>\<open>getline\<close> cuts it into lines.  Formatting and
  reading a \<^verbatim>\<open>double\<close> are parameters.
\<close>

section \<open>Values\<close>

type_synonym ini_value = string

definition value_of_bool :: "bool \<Rightarrow> ini_value" where
  "value_of_bool b = (if b then ''true'' else ''false'')"

text \<open>\<^verbatim>\<open>operator = (int)\<close> compares the member with the digits instead of assigning them, and the
  constructor from \<^verbatim>\<open>int\<close> calls it on an empty string.\<close>

definition assign_int :: "ini_value \<Rightarrow> int \<Rightarrow> ini_value" where
  "assign_int m_value n = m_value"

definition value_of_int :: "int \<Rightarrow> ini_value" where
  "value_of_int n = assign_int [] n"

definition value_of_double :: "('d \<Rightarrow> string) \<Rightarrow> 'd \<Rightarrow> ini_value" where
  "value_of_double show_double d = show_double d"

definition to_bool :: "ini_value \<Rightarrow> bool" where
  "to_bool v \<longleftrightarrow> v = ''true''"

definition to_int :: "ini_value \<Rightarrow> int" where
  "to_int v = atoi (v @ [NUL])"

definition to_double :: "(string \<Rightarrow> 'd) \<Rightarrow> ini_value \<Rightarrow> 'd" where
  "to_double atof v = atof (cstr v)"

definition value_eq :: "ini_value \<Rightarrow> ini_value \<Rightarrow> bool" where
  "value_eq a b \<longleftrightarrow> a = b"

section \<open>Files\<close>

type_synonym sections = "(string \<times> ini_value) list"

record ini_file =
  m_filename :: string
  m_sections :: "(string \<times> sections) list"

definition new_ini :: ini_file where
  "new_ini = \<lparr>m_filename = [], m_sections = []\<rparr>"

abbreviation blank :: "char \<Rightarrow> bool" where
  "blank c \<equiv> c = CHR '' '' \<or> c = LF \<or> c = CR"

definition trim :: "string \<Rightarrow> string" where
  "trim s = rev (dropWhile blank (rev (dropWhile blank s)))"

text \<open>\<^verbatim>\<open>find_first_of(c)\<close>, converted to \<^verbatim>\<open>int\<close>: \<^verbatim>\<open>npos\<close> becomes -1.\<close>

fun find_first :: "char \<Rightarrow> string \<Rightarrow> int" where
  "find_first c [] = -1"
| "find_first c (x # s) = (if x = c then 0 else
     (let p = find_first c s in if p < 0 then -1 else p + 1))"

text \<open>\<^verbatim>\<open>substr(from, n)\<close>, where a negative count is a huge \<^verbatim>\<open>size_t\<close>\<close>

definition substr :: "nat \<Rightarrow> int \<Rightarrow> string \<Rightarrow> string" where
  "substr from n s = (if n < 0 then drop from s else take (nat n) (drop from s))"

text \<open>\<^verbatim>\<open>m_sections[section]\<close> creates the section.\<close>

definition section_of :: "string \<Rightarrow> (string \<times> sections) list \<Rightarrow> sections" where
  "section_of name m = (case map_of m name of Some e \<Rightarrow> e | None \<Rightarrow> [])"

definition put_entry :: "string \<Rightarrow> string \<Rightarrow> ini_value \<Rightarrow> (string \<times> sections) list \<Rightarrow> (string \<times> sections) list" where
  "put_entry name key v m = omap_put name (omap_put key v (section_of name m)) m"

text \<open>\<^verbatim>\<open>getline\<close>: the lines of a text; the last one may lack its newline.\<close>

fun split_lines :: "string \<Rightarrow> string \<Rightarrow> string list" where
  "split_lines line [] = (if line = [] then [] else [line])"
| "split_lines line (c # s) = (if c = LF then line # split_lines [] s else split_lines (line @ [c]) s)"

definition load_line :: "string \<Rightarrow> string \<times> (string \<times> sections) list \<Rightarrow> string \<times> (string \<times> sections) list" where
  "load_line line0 st = (case st of (name, m) \<Rightarrow>
     (let line = trim line0 in
      if line = [] then (name, m)
      else if hd line = CHR ''['' then
        (let pos = find_first (CHR '']'') line;
             name' = trim (substr 1 (pos - 1) line)
         in (name', omap_put name' [] m))
      else
        (let pos = find_first (CHR ''='') line;
             key = trim (substr 0 pos line);
             v = trim (substr (nat (pos + 1)) (int (length line) - pos) line)
         in (name, put_entry name key v m))))"

definition load :: "string \<Rightarrow> string option \<Rightarrow> ini_file \<Rightarrow> bool \<times> ini_file" where
  "load filename contents f =
     (let f1 = f\<lparr>m_filename := filename\<rparr> in
      case contents of
        None \<Rightarrow> (False, f1)
      | Some text \<Rightarrow> (True, f1\<lparr>m_sections := snd (fold load_line (split_lines [] text) ([], m_sections f1))\<rparr>))"

definition get_value :: "string \<Rightarrow> string \<Rightarrow> ini_file \<Rightarrow> ini_value \<times> ini_file" where
  "get_value name key f =
     (let v = (case map_of (section_of name (m_sections f)) key of Some v \<Rightarrow> v | None \<Rightarrow> [])
      in (v, f\<lparr>m_sections := put_entry name key v (m_sections f)\<rparr>))"

definition set_value :: "string \<Rightarrow> string \<Rightarrow> ini_value \<Rightarrow> ini_file \<Rightarrow> ini_file" where
  "set_value name key v f = f\<lparr>m_sections := put_entry name key v (m_sections f)\<rparr>"

definition has_value :: "string \<Rightarrow> string \<Rightarrow> ini_file \<Rightarrow> bool" where
  "has_value name key f = (case map_of (m_sections f) name of
     None \<Rightarrow> False | Some e \<Rightarrow> map_of e key \<noteq> None)"

definition remove_section :: "string \<Rightarrow> ini_file \<Rightarrow> ini_file" where
  "remove_section name f =
     (if map_of (m_sections f) name = None then f else f\<lparr>m_sections := omap_del name (m_sections f)\<rparr>)"

definition remove_value :: "string \<Rightarrow> string \<Rightarrow> ini_file \<Rightarrow> ini_file" where
  "remove_value name key f =
     (if \<not> has_value name key f then f
      else f\<lparr>m_sections := omap_put name (omap_del key (section_of name (m_sections f))) (m_sections f)\<rparr>)"

definition clear_all :: "ini_file \<Rightarrow> ini_file" where
  "clear_all f = f\<lparr>m_sections := []\<rparr>"

text \<open>\<^verbatim>\<open>operator = (const string & key)\<close> of the class selects a section.\<close>

definition select_section :: "string \<Rightarrow> ini_file \<Rightarrow> sections \<times> ini_file" where
  "select_section name f = (section_of name (m_sections f),
     f\<lparr>m_sections := omap_put name (section_of name (m_sections f)) (m_sections f)\<rparr>)"

definition entry_line :: "string \<times> ini_value \<Rightarrow> string" where
  "entry_line e = fst e @ '' = '' @ snd e @ [LF]"

definition section_text :: "string \<times> sections \<Rightarrow> string" where
  "section_text s = CHR ''['' # fst s @ CHR '']'' # LF # concat (map entry_line (snd s))"

definition ini_str :: "ini_file \<Rightarrow> string" where
  "ini_str f = concat (map section_text (m_sections f))"

text \<open>\<^verbatim>\<open>save\<close>: the text written, when the file can be opened\<close>

definition save :: "bool \<Rightarrow> ini_file \<Rightarrow> bool \<times> string option" where
  "save opened f = (if opened then (True, Some (ini_str f)) else (False, None))"

definition ini_display :: "ini_file \<Rightarrow> string" where
  "ini_display f = ini_str f @ [LF]"

section \<open>Trimming\<close>

definition trimmed :: "string \<Rightarrow> bool" where
  "trimmed s \<longleftrightarrow> s = [] \<or> \<not> blank (hd s) \<and> \<not> blank (last s)"

lemma trimmed_Nil [simp]: "trimmed []"
  by (simp add: trimmed_def)

lemma dropWhile_all: "list_all P xs \<Longrightarrow> dropWhile P (xs @ ys) = dropWhile P ys"
  by (induction xs) auto

lemma dropWhile_hd: "xs = [] \<or> \<not> P (hd xs) \<Longrightarrow> dropWhile P xs = xs"
  by (cases xs) auto

lemma trim_middle:
  assumes "list_all blank b1" "list_all blank b2" "trimmed s"
  shows "trim (b1 @ s @ b2) = s"
proof (cases "s = []")
  case True
  have "dropWhile blank (b1 @ b2) = []"
    unfolding dropWhile_all [OF assms(1)] using dropWhile_all [OF assms(2), of "[]"] by (simp only: append_Nil2 dropWhile.simps)
  then show ?thesis using True by (simp add: trim_def del: dropWhile_eq_Nil_conv)
next
  case False
  then have hd: "\<not> blank (hd s)" "\<not> blank (hd (rev s))" using assms(3) by (auto simp: trimmed_def hd_rev)
  have "dropWhile blank (b1 @ s @ b2) = s @ b2"
    using dropWhile_all [OF assms(1), of "s @ b2"] dropWhile_hd [of "s @ b2" blank] hd(1) False by simp
  moreover have "dropWhile blank (rev (s @ b2)) = rev s"
    using dropWhile_all [of blank "rev b2" "rev s"] dropWhile_hd [of "rev s" blank] hd(2) assms(2) by simp
  ultimately show ?thesis by (simp add: trim_def)
qed

lemma trim_trimmed: "trimmed s \<Longrightarrow> trim s = s"
  using trim_middle [of "[]" "[]" s] by simp

lemma split_rev: "s = rev (dropWhile P (rev s)) @ rev (takeWhile P (rev s))"
proof -
  have "rev s = takeWhile P (rev s) @ dropWhile P (rev s)" by simp
  then have "rev (rev s) = rev (takeWhile P (rev s) @ dropWhile P (rev s))" by (rule arg_cong)
  then show ?thesis by (simp only: rev_append rev_rev_ident)
qed

lemma trim_splits: "\<exists>b1 b2. s = b1 @ trim s @ b2 \<and> list_all blank b1 \<and> list_all blank b2"
proof -
  let ?d = "dropWhile blank s"
  have 1: "s = takeWhile blank s @ ?d" by simp
  have 2: "?d = trim s @ rev (takeWhile blank (rev ?d))" unfolding trim_def by (rule split_rev)
  have "list_all blank (takeWhile blank s)" "list_all blank (rev (takeWhile blank (rev ?d)))"
    by (auto simp: list_all_iff dest: set_takeWhileD)
  moreover have "s = takeWhile blank s @ trim s @ rev (takeWhile blank (rev ?d))" using 1 2 by simp
  ultimately show ?thesis by blast
qed

lemma trimmed_trim [simp]: "trimmed (trim s)"
proof (cases "trim s = []")
  case False
  let ?d = "dropWhile blank s"
  have ne: "dropWhile blank (rev ?d) \<noteq> []" using False by (simp add: trim_def)
  have d: "?d \<noteq> []"
  proof
    assume "?d = []"
    then show False using ne by (simp only: rev.simps dropWhile.simps)
  qed
  have e: "last (trim s) = hd (dropWhile blank (rev ?d))" unfolding trim_def by (rule last_rev)
  have l: "\<not> blank (last (trim s))" unfolding e by (rule hd_dropWhile [OF ne])
  have sp: "?d = trim s @ rev (takeWhile blank (rev ?d))" unfolding trim_def by (rule split_rev)
  have "hd (trim s @ rev (takeWhile blank (rev ?d))) = hd (trim s)" using False by (rule hd_append2)
  then have h: "hd (trim s) = hd ?d" unfolding sp [symmetric] by (rule sym)
  have "\<not> blank (hd (trim s))" unfolding h by (rule hd_dropWhile [OF d])
  then show ?thesis using l by (simp add: trimmed_def)
qed simp

lemma set_trim: "set (trim s) \<subseteq> set s"
proof -
  obtain b1 b2 where "s = b1 @ trim s @ b2" using trim_splits by blast
  then have "set s = set (b1 @ trim s @ b2)" by (rule arg_cong)
  then show ?thesis by auto
qed

section \<open>Cutting lines\<close>

lemma find_first_at: "c \<notin> set s \<Longrightarrow> find_first c (s @ c # t) = int (length s)"
  by (induction s) (auto simp: Let_def)

lemma find_first_cases:
  "find_first c s = -1 \<and> c \<notin> set s \<or>
   (\<exists>u t. s = u @ c # t \<and> c \<notin> set u \<and> find_first c s = int (length u))"
proof (cases "c \<in> set s")
  case True
  then obtain u t where "s = u @ c # t" "c \<notin> set u" by (metis split_list_first)
  then show ?thesis using find_first_at by blast
next
  case False
  then have "find_first c s = -1" by (induction s) (auto simp: Let_def)
  then show ?thesis using False by simp
qed

lemma cut_at:
  assumes "c \<notin> set a"
  shows "substr 0 (find_first c (a @ c # b)) (a @ c # b) = a"
    "substr (nat (find_first c (a @ c # b) + 1)) (int (length (a @ c # b)) - find_first c (a @ c # b)) (a @ c # b) = b"
proof -
  have "nat (int (length a) + 1) = Suc (length a)" "int (length (a @ c # b)) - int (length a) = int (Suc (length b))"
    by simp_all
  then show "substr 0 (find_first c (a @ c # b)) (a @ c # b) = a"
    "substr (nat (find_first c (a @ c # b) + 1)) (int (length (a @ c # b)) - find_first c (a @ c # b)) (a @ c # b) = b"
    unfolding find_first_at [OF assms] substr_def by simp_all
qed

lemma split_lines_cut: "LF \<notin> set s \<Longrightarrow> split_lines acc (s @ LF # t) = (acc @ s) # split_lines [] t"
  by (induction s arbitrary: acc) auto

lemma split_lines_clean: "LF \<notin> set acc \<Longrightarrow> l \<in> set (split_lines acc s) \<Longrightarrow> LF \<notin> set l"
  by (induction acc s rule: split_lines.induct) (auto split: if_splits)

section \<open>Well-formed contents\<close>

definition name_ok :: "string \<Rightarrow> bool" where
  "name_ok n \<longleftrightarrow> trimmed n \<and> LF \<notin> set n \<and> CHR '']'' \<notin> set n"

definition entry_ok :: "string \<times> ini_value \<Rightarrow> bool" where
  "entry_ok e \<longleftrightarrow> trimmed (fst e) \<and> LF \<notin> set (fst e) \<and> CHR ''='' \<notin> set (fst e)
     \<and> (fst e = [] \<or> hd (fst e) \<noteq> CHR ''['') \<and> trimmed (snd e) \<and> LF \<notin> set (snd e)"

definition sections_ok :: "(string \<times> sections) list \<Rightarrow> bool" where
  "sections_ok m \<longleftrightarrow> omap_ok m \<and> (\<forall>s \<in> set m. name_ok (fst s) \<and> omap_ok (snd s) \<and> (\<forall>e \<in> set (snd s). entry_ok e))"

text \<open>The line of an entry, cut again\<close>

lemma trimmed_padded:
  assumes "trimmed k" "trimmed v"
  shows "trim (k @ '' = '' @ v) =
    (if k = [] then [] else k @ '' '') @ CHR ''='' # (if v = [] then [] else CHR '' '' # v)"
proof -
  let ?k = "if k = [] then [] else k @ '' ''" and ?v = "if v = [] then [] else CHR '' '' # v"
  let ?b1 = "if k = [] then '' '' else []" and ?b2 = "if v = [] then '' '' else []"
  have eq: "k @ '' = '' @ v = ?b1 @ (?k @ CHR ''='' # ?v) @ ?b2" by simp
  have "trimmed (?k @ CHR ''='' # ?v)" using assms by (auto simp: trimmed_def)
  then show ?thesis unfolding eq by (intro trim_middle) auto
qed

lemma load_entry_line:
  assumes "entry_ok (k, v)"
  shows "load_line (k @ '' = '' @ v) (name, m) = (name, put_entry name k v m)"
proof -
  let ?k = "if k = [] then [] else k @ '' ''" and ?v = "if v = [] then [] else CHR '' '' # v"
  let ?l = "?k @ CHR ''='' # ?v"
  have ok: "trimmed k" "trimmed v" "CHR ''='' \<notin> set k" "k = [] \<or> hd k \<noteq> CHR ''[''"
    using assms by (simp_all add: entry_ok_def)
  have t: "trim (k @ '' = '' @ v) = ?l" by (rule trimmed_padded [OF ok(1,2)])
  have nk: "CHR ''='' \<notin> set ?k" using ok(3) by auto
  have "trim ?k = k" using trim_middle [of "[]" "'' ''" k] ok(1) trim_trimmed [of "[]"] by simp
  then have key: "trim (substr 0 (find_first (CHR ''='') ?l) ?l) = k" unfolding cut_at(1) [OF nk] .
  have "trim ?v = v" using trim_middle [of "'' ''" "[]" v] ok(2) trim_trimmed [of "[]"] by simp
  then have val: "trim (substr (nat (find_first (CHR ''='') ?l + 1)) (int (length ?l) - find_first (CHR ''='') ?l) ?l) = v"
    unfolding cut_at(2) [OF nk] .
  have "?l \<noteq> []" "hd ?l \<noteq> CHR ''[''" using ok(4) by (cases k; simp)+
  then show ?thesis unfolding load_line_def Let_def prod.case t key val by simp
qed

lemma load_header_line:
  assumes "name_ok n"
  shows "load_line (CHR ''['' # n @ '']'') (name, m) = (n, omap_put n [] m)"
proof -
  let ?l = "(CHR ''['' # n) @ CHR '']'' # []"
  have t: "trim ?l = ?l" by (intro trim_trimmed) (simp add: trimmed_def)
  have f: "find_first (CHR '']'') ?l = int (length (CHR ''['' # n))"
    using assms by (intro find_first_at) (auto simp: name_ok_def)
  have s: "trim (substr 1 (int (length (CHR ''['' # n)) - 1) ?l) = n"
    using assms trim_trimmed [of n] by (simp add: substr_def name_ok_def)
  have "load_line ?l (name, m) = (n, omap_put n [] m)"
    unfolding load_line_def Let_def prod.case t f s by simp
  then show ?thesis by simp
qed

section \<open>Reading back what was written\<close>

definition file_lines :: "(string \<times> sections) list \<Rightarrow> string list" where
  "file_lines m = concat (map (\<lambda>(n, es). (CHR ''['' # n @ '']'') # map (\<lambda>(k, v). k @ '' = '' @ v) es) m)"

lemma split_entry:
  assumes "entry_ok (k, v)"
  shows "split_lines [] (entry_line (k, v) @ t) = (k @ '' = '' @ v) # split_lines [] t"
  using split_lines_cut [of "k @ '' = '' @ v" "[]" t] assms
  by (auto simp: entry_line_def entry_ok_def simp del: split_lines.simps)

lemma split_entries:
  "(\<And>e. e \<in> set es \<Longrightarrow> entry_ok e) \<Longrightarrow>
   split_lines [] (concat (map entry_line es) @ t) = map (\<lambda>(k, v). k @ '' = '' @ v) es @ split_lines [] t"
proof (induction es)
  case (Cons e es)
  obtain k v where e: "e = (k, v)" by (cases e)
  show ?case
    using split_entry [of k v "concat (map entry_line es) @ t"] Cons
    by (simp add: e del: split_lines.simps)
qed simp

lemma split_header:
  assumes "name_ok n"
  shows "split_lines [] (CHR ''['' # n @ CHR '']'' # LF # t) = (CHR ''['' # n @ '']'') # split_lines [] t"
  using split_lines_cut [of "CHR ''['' # n @ '']''" "[]" t] assms
  by (auto simp: name_ok_def simp del: split_lines.simps)

lemma split_file:
  "(\<And>s. s \<in> set m \<Longrightarrow> name_ok (fst s) \<and> (\<forall>e \<in> set (snd s). entry_ok e)) \<Longrightarrow>
   split_lines [] (concat (map section_text m)) = file_lines m"
proof (induction m)
  case (Cons s m)
  obtain n es where s: "s = (n, es)" by (cases s)
  have ok: "name_ok n" "\<And>e. e \<in> set es \<Longrightarrow> entry_ok e" using Cons.prems [of s] by (simp_all add: s)
  have IH: "split_lines [] (concat (map section_text m)) = file_lines m"
    using Cons.IH Cons.prems by (meson list.set_intros(2))
  have t: "concat (map section_text (s # m)) =
      CHR ''['' # n @ CHR '']'' # LF # concat (map entry_line es) @ concat (map section_text m)"
    by (simp add: s section_text_def)
  have f: "file_lines (s # m) = (CHR ''['' # n @ '']'') # map (\<lambda>(k, v). k @ '' = '' @ v) es @ file_lines m"
    by (simp add: s file_lines_def)
  have es: "split_lines [] (concat (map entry_line es) @ concat (map section_text m))
      = map (\<lambda>(k, v). k @ '' = '' @ v) es @ split_lines [] (concat (map section_text m))"
    using ok(2) by (rule split_entries)
  show ?case unfolding t f split_header [OF ok(1)] es IH ..
qed (simp add: file_lines_def)

lemma omap_ok_append:
  "omap_ok (a @ b) \<longleftrightarrow> omap_ok a \<and> omap_ok b \<and> (\<forall>x \<in> set a. \<forall>y \<in> set b. fst x < fst y)"
  by (induction a) auto

lemma load_entries:
  "omap_ok m \<Longrightarrow> map_of m name = Some e0 \<Longrightarrow> omap_ok (e0 @ es) \<Longrightarrow> (\<And>e. e \<in> set es \<Longrightarrow> entry_ok e) \<Longrightarrow>
   fold load_line (map (\<lambda>(k, v). k @ '' = '' @ v) es) (name, m) = (name, omap_put name (e0 @ es) m)"
proof (induction es arbitrary: e0 m)
  case Nil
  then show ?case by (simp add: omap.put_idem)
next
  case (Cons e es)
  obtain k v where e: "e = (k, v)" by (cases e)
  have "\<forall>x \<in> set e0. fst x < k" using Cons.prems(3) by (auto simp: e omap_ok_append)
  then have p: "put_entry name k v m = omap_put name (e0 @ [(k, v)]) m"
    using Cons.prems(2) by (simp add: put_entry_def section_of_def omap_put_above)
  let ?m = "omap_put name (e0 @ [(k, v)]) m"
  have "fold load_line (map (\<lambda>(k, v). k @ '' = '' @ v) es) (name, ?m) = (name, omap_put name ((e0 @ [(k, v)]) @ es) ?m)"
    using Cons.prems by (intro Cons.IH) (simp_all add: omap_ok_put map_of_omap_put e)
  then show ?case
    using load_entry_line [of k v name m] Cons.prems(1,4) p by (simp add: e omap.put_put_same)
qed

lemma load_sections:
  "omap_ok (m0 @ m) \<Longrightarrow> (\<And>s. s \<in> set m \<Longrightarrow> name_ok (fst s) \<and> omap_ok (snd s) \<and> (\<forall>e \<in> set (snd s). entry_ok e)) \<Longrightarrow>
   snd (fold load_line (file_lines m) (name, m0)) = m0 @ m"
proof (induction m arbitrary: m0 name)
  case Nil
  then show ?case by (simp add: file_lines_def)
next
  case (Cons s m)
  obtain n es where s: "s = (n, es)" by (cases s)
  have ok: "name_ok n" "omap_ok es" "\<And>e. e \<in> set es \<Longrightarrow> entry_ok e" using Cons.prems(2) [of s] by (simp_all add: s)
  have m0: "omap_ok m0" "\<forall>x \<in> set m0. fst x < n" using Cons.prems(1) by (auto simp: s omap_ok_append)
  have h: "load_line (CHR ''['' # n @ '']'') (name, m0) = (n, m0 @ [(n, [])])"
    using load_header_line [OF ok(1)] omap_put_above [OF m0(2)] by simp
  have "omap_ok (omap_put n [] m0)" "map_of (omap_put n [] m0) n = Some []" "omap_ok ([] @ es)"
    using m0(1) ok(2) by (simp_all add: omap_ok_put map_of_omap_put)
  then have "fold load_line (map (\<lambda>(k, v). k @ '' = '' @ v) es) (n, omap_put n [] m0)
      = (n, omap_put n ([] @ es) (omap_put n [] m0))"
    using ok(3) by (rule load_entries)
  then have "fold load_line (map (\<lambda>(k, v). k @ '' = '' @ v) es) (n, m0 @ [(n, [])]) = (n, m0 @ [(n, es)])"
    using omap_put_above [OF m0(2), of "[]"] omap_put_above [OF m0(2), of es] omap.put_put_same [OF m0(1), of n es "[]"]
    by simp
  moreover have "snd (fold load_line (file_lines m) (n, m0 @ [(n, es)])) = (m0 @ [(n, es)]) @ m"
  proof (rule Cons.IH)
    show "omap_ok ((m0 @ [(n, es)]) @ m)" using Cons.prems(1) by (simp add: s)
    show "name_ok (fst x) \<and> omap_ok (snd x) \<and> (\<forall>e \<in> set (snd x). entry_ok e)" if "x \<in> set m" for x
      using Cons.prems(2) [of x] that by simp
  qed
  ultimately show ?case using h by (simp add: file_lines_def s)
qed

lemma load_saved:
  "sections_ok (m_sections f) \<Longrightarrow>
   load filename (Some (ini_str f)) new_ini = (True, \<lparr>m_filename = filename, m_sections = m_sections f\<rparr>)"
  using split_file [of "m_sections f"] load_sections [of "[]" "m_sections f" "[]"]
  by (simp add: load_def ini_str_def new_ini_def sections_ok_def)

section \<open>Everything that is loaded can be written\<close>

lemma sections_ok_put:
  assumes "sections_ok m" "name_ok n" "omap_ok es" "\<And>e. e \<in> set es \<Longrightarrow> entry_ok e"
  shows "sections_ok (omap_put n es m)"
proof -
  have "set (omap_put n es m) \<subseteq> insert (n, es) (set m)" by (rule set_omap_put)
  then show ?thesis using assms unfolding sections_ok_def by (auto simp: omap_ok_put)
qed

lemma section_of_ok:
  assumes "sections_ok m"
  shows "omap_ok (section_of n m)" "e \<in> set (section_of n m) \<Longrightarrow> entry_ok e"
proof -
  have "(n, es) \<in> set m" if "map_of m n = Some es" for es using map_of_SomeD [OF that] .
  then show "omap_ok (section_of n m)" "e \<in> set (section_of n m) \<Longrightarrow> entry_ok e"
    using assms unfolding section_of_def sections_ok_def by (cases "map_of m n"; force)+
qed

lemma sections_ok_put_entry:
  assumes "sections_ok m" "name_ok n" "entry_ok (k, v)"
  shows "sections_ok (put_entry n k v m)"
  unfolding put_entry_def using assms section_of_ok(1) [OF assms(1), of n] section_of_ok(2) [OF assms(1)]
  by (intro sections_ok_put omap_ok_put) (use set_omap_put [of k v "section_of n m"] in auto)

lemma load_header_ok:
  assumes "LF \<notin> set line" "hd line = CHR ''[''"
  shows "name_ok (trim (substr 1 (find_first (CHR '']'') line - 1) line))"
proof -
  let ?p = "find_first (CHR '']'') line"
  have "CHR '']'' \<notin> set (substr 1 (?p - 1) line) \<and> set (substr 1 (?p - 1) line) \<subseteq> set line"
    using find_first_cases [of "CHR '']''" line]
  proof (elim disjE exE conjE)
    fix u t assume a: "line = u @ CHR '']'' # t" "CHR '']'' \<notin> set u" "?p = int (length u)"
    show ?thesis
    proof (cases u)
      case Nil
      then show ?thesis using a(1) assms(2) by simp
    next
      case (Cons x u')
      then show ?thesis using a by (auto simp: substr_def)
    qed
  qed (auto simp: substr_def dest: in_set_dropD)
  then show ?thesis
    using assms set_trim [of "substr 1 (?p - 1) line"] by (auto simp: name_ok_def)
qed

lemma load_entry_ok:
  assumes "LF \<notin> set line" "trimmed line" "hd line \<noteq> CHR ''[''"
  defines "p \<equiv> find_first (CHR ''='') line"
  shows "entry_ok (trim (substr 0 p line), trim (substr (nat (p + 1)) (int (length line) - p) line))"
proof -
  let ?k = "substr 0 p line" and ?v = "substr (nat (p + 1)) (int (length line) - p) line"
  have "CHR ''='' \<notin> set ?k \<and> (\<exists>t. line = ?k @ t) \<and> set ?v \<subseteq> set line"
    using find_first_cases [of "CHR ''=''" line] unfolding p_def
    by (elim disjE exE conjE) (auto simp: substr_def dest: in_set_takeD in_set_dropD)
  then obtain t where k: "CHR ''='' \<notin> set ?k" "line = ?k @ t" "set ?v \<subseteq> set line" by blast
  have hd: "trim ?k = [] \<or> hd (trim ?k) \<noteq> CHR ''[''"
  proof (cases "?k = []")
    case True
    then show ?thesis by (simp add: trim_def)
  next
    case False
    have h: "hd ?k = hd line" using k(2) False by (metis hd_append2)
    have "line \<noteq> []" using k(2) False by auto
    then have nb: "\<not> blank (hd ?k)" using assms(2) unfolding trimmed_def h by simp
    obtain b1 b2 where b: "?k = b1 @ trim ?k @ b2" "list_all blank b1" "list_all blank b2"
      using trim_splits by blast
    have "b1 = []"
    proof (cases b1)
      case (Cons x b)
      then have "hd ?k = x" using b(1) by (metis append_Cons list.sel(1))
      then show ?thesis using nb b(2) Cons by simp
    qed simp
    then have "trim ?k = [] \<or> hd (trim ?k) = hd ?k" using b(1) by (metis append_Nil hd_append2)
    then show ?thesis using h assms(3) by auto
  qed
  have "set (trim ?k) \<subseteq> set ?k" "set ?k \<subseteq> set line" "set (trim ?v) \<subseteq> set line"
    using set_trim [of ?k] set_trim [of ?v] k(3) arg_cong [OF k(2), of set] by auto
  then show ?thesis using k(1) hd assms(1) unfolding entry_ok_def by auto
qed

lemma load_line_ok:
  assumes "LF \<notin> set line0" "name_ok name" "sections_ok m" "load_line line0 (name, m) = (name', m')"
  shows "name_ok name' \<and> sections_ok m'"
proof -
  let ?l = "trim line0"
  have l: "LF \<notin> set ?l" using assms(1) set_trim [of line0] by blast
  consider "?l = []" | "?l \<noteq> []" "hd ?l = CHR ''[''" | "?l \<noteq> []" "hd ?l \<noteq> CHR ''[''" by blast
  then show ?thesis
  proof cases
    case 1
    then show ?thesis using assms by (simp add: load_line_def)
  next
    case 2
    then have "name' = trim (substr 1 (find_first (CHR '']'') ?l - 1) ?l)" "m' = omap_put name' [] m"
      using assms(4) by (auto simp: load_line_def Let_def)
    moreover from this have nm: "name_ok name'" using load_header_ok [OF l 2(2)] by simp
    moreover have "sections_ok (omap_put name' [] m)" by (rule sections_ok_put [OF assms(3) nm]) simp_all
    ultimately show ?thesis by simp
  next
    case 3
    then have "name' = name" "m' = put_entry name (trim (substr 0 (find_first (CHR ''='') ?l) ?l))
        (trim (substr (nat (find_first (CHR ''='') ?l + 1)) (int (length ?l) - find_first (CHR ''='') ?l) ?l)) m"
      using assms(4) by (auto simp: load_line_def Let_def)
    then show ?thesis
      using load_entry_ok [OF l trimmed_trim 3(2)] sections_ok_put_entry [OF assms(3,2)] assms(2) by blast
  qed
qed

lemma fold_load_line_ok:
  "(\<And>l. l \<in> set ls \<Longrightarrow> LF \<notin> set l) \<Longrightarrow> name_ok (fst st) \<Longrightarrow> sections_ok (snd st) \<Longrightarrow>
   sections_ok (snd (fold load_line ls st))"
proof (induction ls arbitrary: st)
  case (Cons l ls)
  obtain name' m' where r: "load_line l (fst st, snd st) = (name', m')" by fastforce
  have "name_ok name' \<and> sections_ok m'" using load_line_ok [OF _ Cons.prems(2,3) r] Cons.prems(1) [of l] by simp
  then show ?case using Cons.IH [of "(name', m')"] Cons.prems(1) r by simp
qed simp

lemma load_sections_ok:
  "sections_ok (m_sections f) \<Longrightarrow> sections_ok (m_sections (snd (load filename contents f)))"
  using fold_load_line_ok [of _ "([], m_sections f)"] split_lines_clean [of "[]"]
  by (auto simp: load_def name_ok_def Let_def split: option.splits)

section \<open>Looking entries up\<close>

lemma section_of_put: "section_of n (omap_put name es m) = (if n = name then es else section_of n m)"
  by (simp add: section_of_def map_of_omap_put)

lemma map_of_put_entry:
  "map_of (section_of n (put_entry name key v m)) k =
     (if n = name \<and> k = key then Some v else map_of (section_of n m) k)"
  by (simp add: section_of_def put_entry_def map_of_omap_put)

lemma has_value_iff: "has_value name key f \<longleftrightarrow> map_of (section_of name (m_sections f)) key \<noteq> None"
  by (simp add: has_value_def section_of_def split: option.split)

section \<open>Properties\<close>

text \<open>C5: Whatever text is loaded, saving the configuration and loading the saved text again gives the same
  sections and entries: the writer inverts the reader on everything the reader can produce, with names,
  keys and values trimmed.\<close>

theorem saved_configuration_loads_back:
  "case load name1 (Some text) new_ini of (ok, f) \<Rightarrow>
     ok \<and> sections_ok (m_sections f)
     \<and> snd (save True f) = Some (ini_str f)
     \<and> load name2 (Some (ini_str f)) new_ini = (True, f\<lparr>m_filename := name2\<rparr>)"
proof -
  obtain ok f where f: "load name1 (Some text) new_ini = (ok, f)" by fastforce
  have "sections_ok (m_sections new_ini)" by (simp add: sections_ok_def new_ini_def)
  then have "sections_ok (m_sections f)" using load_sections_ok [of new_ini name1 "Some text"] f by simp
  moreover from this have "load name2 (Some (ini_str f)) new_ini = (True, f\<lparr>m_filename := name2\<rparr>)"
    using load_saved [of f name2] by (cases f) simp
  moreover have "ok" using f by (auto simp: load_def Let_def)
  ultimately show ?thesis using f by (simp add: save_def)
qed

text \<open>Setting an entry changes exactly that entry: afterwards it is present and reads as what was set, every
  other entry reads as before; removing it makes it absent again; and reading an absent entry creates
  it with an empty value.\<close>

theorem entries_behave_like_a_map:
  assumes "sections_ok (m_sections f)"
  shows "fst (get_value n k (set_value name key v f)) =
      (if n = name \<and> k = key then v else fst (get_value n k f))
    \<and> has_value n k (set_value name key v f) = (n = name \<and> k = key \<or> has_value n k f)
    \<and> has_value n k (remove_value name key f) = (\<not> (n = name \<and> k = key) \<and> has_value n k f)
    \<and> has_value n k (remove_section name f) = (n \<noteq> name \<and> has_value n k f)
    \<and> has_value n k (snd (get_value name key f)) = (n = name \<and> k = key \<or> has_value n k f)"
proof -
  have ok: "omap_ok (m_sections f)" "omap_ok (section_of name (m_sections f))"
    using assms section_of_ok(1) [OF assms] by (simp_all add: sections_ok_def)
  have del: "map_of (section_of n (omap_put name (omap_del key (section_of name (m_sections f))) (m_sections f))) k
      = (if n = name \<and> k = key then None else map_of (section_of n (m_sections f)) k)"
    using map_of_omap_del [OF ok(2), of key k]
    by (auto simp: section_of_put)
  have "has_value n k (remove_value name key f) = (\<not> (n = name \<and> k = key) \<and> has_value n k f)"
    using del by (auto simp: remove_value_def has_value_iff)
  moreover have "has_value n k (remove_section name f) = (n \<noteq> name \<and> has_value n k f)"
    using ok(1) by (auto simp: remove_section_def has_value_def map_of_omap_del)
  ultimately show ?thesis
    by (auto simp: get_value_def set_value_def has_value_iff map_of_put_entry Let_def)
qed

theorem entries_behave_like_a_map_witness:
  "has_value ''server'' ''port'' (set_value ''server'' ''port'' ''80'' new_ini)"
  using entries_behave_like_a_map [of new_ini "''server''" "''port''" "''server''" "''port''" "''80''"]
  by (simp add: sections_ok_def new_ini_def)

text \<open>A number is lost on its way into a configuration: an entry set from an \<^verbatim>\<open>int\<close> reads as the empty
  string and as the number 0, although a text of its digits would read as the number.\<close>

theorem integers_are_stored_as_empty:
  "fst (get_value name key (set_value name key (value_of_int n) f)) = []
   \<and> to_int (fst (get_value name key (set_value name key (value_of_int n) f))) = 0
   \<and> to_int (show_int (int m)) = to_int32 (clamp64 (int m))"
proof -
  have d: "isspace (hd (nat_digits m)) = False \<and> nat_digits m \<noteq> [] \<and> hd (nat_digits m) \<noteq> CHR ''-'' \<and> hd (nat_digits m) \<noteq> CHR ''+''
      \<and> no_nul (nat_digits m)"
  proof -
    have ne: "nat_digits m \<noteq> []" by (simp add: nat_digits.simps [of m])
    have dig: "isdigit c \<Longrightarrow> \<not> isspace c \<and> c \<noteq> CHR ''-'' \<and> c \<noteq> CHR ''+'' \<and> c \<noteq> NUL" for c
      by (auto simp: isdigit_def isspace_def ccode_def)
    have "isdigit c" if "c \<in> set (nat_digits m)" for c using that by (rule nat_digits_isdigit)
    then show ?thesis using dig ne unfolding no_nul_def by (metis hd_in_set)
  qed
  have "to_int (show_int (int m)) = to_int32 (clamp64 (int m))"
  proof -
    have "cstr (nat_digits m @ [NUL]) = nat_digits m" using d by simp
    moreover have "dropWhile isspace (nat_digits m) = nat_digits m" using d by (cases "nat_digits m") auto
    ultimately show ?thesis
      using d digits_value_nat_digits [of m]
      by (cases "nat_digits m") (auto simp: to_int_def atoi_def show_int_def Let_def simp del: digits_value.simps)
  qed
  moreover have "to_int [] = 0" by (simp add: to_int_def atoi_def clamp64_def to_int32_def)
  ultimately show ?thesis
    by (simp add: get_value_def set_value_def map_of_put_entry value_of_int_def assign_int_def Let_def)
qed

end
