(* ===== verification/Xml.thy ===== *)
theory Xml
  imports StdContainers "HOL-Library.Char_ord" "HOL-Library.List_Lexorder"
begin

text \<open>
  The XML elements of \<^verbatim>\<open>xml/xml.h\<close> and \<^verbatim>\<open>xml/xml.cpp\<close>.

  An element has four pointers, to its name, its text, its attributes and its children; all of them
  live on the heap, and so do the elements in a list of children and the variables of type \<^verbatim>\<open>XML\<close>.  An
  \<^verbatim>\<open>XML &\<close> is an address.  The copy constructor and the assignment copy the pointers, and there is no
  destructor: \<^verbatim>\<open>clear\<close> gives the memory back.  A \<^verbatim>\<open>Value\<close> is its string; the class is the one of
  \<^verbatim>\<open>ini-parse/\<close> (theory \<open>IniFile\<close>).  \<^verbatim>\<open>str\<close> and \<^verbatim>\<open>clear\<close> are recursive; their argument \<open>d\<close> is the
  number of nested calls the stack has room for.  \<^verbatim>\<open>attr\<close> returns a literal as a reference to a \<^verbatim>\<open>Value\<close>,
  which does not compile, and is left out.
\<close>

section \<open>The heap\<close>

record xnode =
  m_name :: "nat option"
  m_text :: "nat option"
  m_attrs :: "nat option"
  m_children :: "nat option"

datatype xcell = X_string string | X_attrs "(string \<times> string) list" | X_list "nat list" | X_node xnode

record xheap =
  xcells :: "nat \<Rightarrow> xcell option"
  xnext :: nat

text \<open>\<^verbatim>\<open>new\<close> returns an address that was never used before, so that a use of freed memory shows.\<close>

definition xnew :: "xcell \<Rightarrow> xheap \<Rightarrow> nat \<times> xheap" where
  "xnew c h = (xnext h, h\<lparr>xcells := (xcells h)(xnext h \<mapsto> c), xnext := xnext h + 1\<rparr>)"

definition xset :: "nat \<Rightarrow> xcell \<Rightarrow> xheap \<Rightarrow> xheap" where
  "xset a c h = h\<lparr>xcells := (xcells h)(a \<mapsto> c)\<rparr>"

definition xdelete :: "nat \<Rightarrow> xheap \<Rightarrow> xheap result" where
  "xdelete a h = (if xcells h a = None then Inl Dangling else Inr (h\<lparr>xcells := (xcells h)(a := None)\<rparr>))"

text \<open>\<^verbatim>\<open>if (p) delete p\<close>\<close>

definition xfree :: "nat option \<Rightarrow> xheap \<Rightarrow> xheap result" where
  "xfree p h = (case p of None \<Rightarrow> Inr h | Some a \<Rightarrow> xdelete a h)"

definition xnode_at :: "nat \<Rightarrow> xheap \<Rightarrow> xnode result" where
  "xnode_at a h = (case xcells h a of Some (X_node n) \<Rightarrow> Inr n | _ \<Rightarrow> Inl Dangling)"

definition xstring_at :: "nat \<Rightarrow> xheap \<Rightarrow> string result" where
  "xstring_at a h = (case xcells h a of Some (X_string s) \<Rightarrow> Inr s | _ \<Rightarrow> Inl Dangling)"

definition xattrs_at :: "nat \<Rightarrow> xheap \<Rightarrow> (string \<times> string) list result" where
  "xattrs_at a h = (case xcells h a of Some (X_attrs m) \<Rightarrow> Inr m | _ \<Rightarrow> Inl Dangling)"

definition xlist_at :: "nat \<Rightarrow> xheap \<Rightarrow> nat list result" where
  "xlist_at a h = (case xcells h a of Some (X_list as) \<Rightarrow> Inr as | _ \<Rightarrow> Inl Dangling)"

section \<open>Elements\<close>

definition xml_default :: xnode where
  "xml_default = \<lparr>m_name = None, m_text = None, m_attrs = None, m_children = None\<rparr>"

definition xml_named :: "string \<Rightarrow> xheap \<Rightarrow> xnode \<times> xheap" where
  "xml_named name h = (case xnew (X_string name) h of (p, h1) \<Rightarrow> (xml_default\<lparr>m_name := Some p\<rparr>, h1))"

definition xml_named_cstr :: "string \<Rightarrow> xheap \<Rightarrow> xnode \<times> xheap" where
  "xml_named_cstr buf h = xml_named (cstr buf) h"

definition xml_copy :: "xnode \<Rightarrow> xnode" where
  "xml_copy other = \<lparr>m_name = m_name other, m_text = m_text other, m_attrs = m_attrs other, m_children = m_children other\<rparr>"

definition xml_name :: "nat \<Rightarrow> xheap \<Rightarrow> string result" where
  "xml_name a h = rbind (xnode_at a h) (\<lambda>n. case m_name n of None \<Rightarrow> Inr [] | Some p \<Rightarrow> xstring_at p h)"

definition xml_setName :: "nat \<Rightarrow> string \<Rightarrow> xheap \<Rightarrow> xheap result" where
  "xml_setName a name h = rbind (xnode_at a h) (\<lambda>n. rbind (xfree (m_name n) h) (\<lambda>h1.
     case xnew (X_string name) h1 of (p, h2) \<Rightarrow> Inr (xset a (X_node (n\<lparr>m_name := Some p\<rparr>)) h2)))"

definition xml_text :: "nat \<Rightarrow> xheap \<Rightarrow> string result" where
  "xml_text a h = rbind (xnode_at a h) (\<lambda>n. case m_text n of None \<Rightarrow> Inr [] | Some p \<Rightarrow> xstring_at p h)"

definition xml_setText :: "nat \<Rightarrow> string \<Rightarrow> xheap \<Rightarrow> xheap result" where
  "xml_setText a text h = rbind (xnode_at a h) (\<lambda>n. rbind (xfree (m_text n) h) (\<lambda>h1.
     case xnew (X_string text) h1 of (p, h2) \<Rightarrow> Inr (xset a (X_node (n\<lparr>m_text := Some p\<rparr>)) h2)))"

definition xml_setAttr :: "nat \<Rightarrow> string \<Rightarrow> string \<Rightarrow> xheap \<Rightarrow> xheap result" where
  "xml_setAttr a key val h = rbind (xnode_at a h) (\<lambda>n.
     case (case m_attrs n of
             None \<Rightarrow> (case xnew (X_attrs []) h of (p, h1) \<Rightarrow> (p, xset a (X_node (n\<lparr>m_attrs := Some p\<rparr>)) h1))
           | Some p \<Rightarrow> (p, h)) of
       (p, h2) \<Rightarrow> rbind (xattrs_at p h2) (\<lambda>m.
         if map_of m key = None then Inr (xset p (X_attrs (omap_put key val m)) h2) else Inr h2))"

fun join_texts :: "string result list \<Rightarrow> string result" where
  "join_texts [] = Inr []"
| "join_texts (r # rs) = rbind r (\<lambda>s. rbind (join_texts rs) (\<lambda>t. Inr (s @ t)))"

definition attr_text :: "(string \<times> string) list \<Rightarrow> string" where
  "attr_text m = concat (map (\<lambda>(k, v). '' '' @ k @ ''='' @ [CHR 0x22] @ v @ '' '' @ [CHR 0x22]) m)"

fun xml_str :: "nat \<Rightarrow> nat \<Rightarrow> xheap \<Rightarrow> string result" where
  "xml_str 0 a h = Inl (Exit_With ''stack overflow'')"
| "xml_str (Suc d) a h = rbind (xnode_at a h) (\<lambda>n.
     case m_name n of
       None \<Rightarrow> Inl Logic_Error
     | Some p \<Rightarrow>
         rbind (xstring_at p h) (\<lambda>name.
         rbind (case m_attrs n of None \<Rightarrow> Inr [] | Some q \<Rightarrow> rbind (xattrs_at q h) (\<lambda>m. Inr (attr_text m))) (\<lambda>attrs.
         rbind (case m_children n of None \<Rightarrow> Inr []
                | Some l \<Rightarrow> rbind (xlist_at l h) (\<lambda>as. join_texts (map (\<lambda>c. xml_str d c h) as))) (\<lambda>children.
         rbind (case m_text n of None \<Rightarrow> Inr [] | Some t \<Rightarrow> xstring_at t h) (\<lambda>text.
         Inr (''<'' @ name @ attrs @ ''>'' @ children @ text @ ''</'' @ name @ ''>''))))))"

section \<open>Giving memory back\<close>

fun for_each :: "(nat \<Rightarrow> xheap \<Rightarrow> xheap result) \<Rightarrow> nat list \<Rightarrow> xheap \<Rightarrow> xheap result" where
  "for_each f [] h = Inr h"
| "for_each f (a # as) h = rbind (f a h) (for_each f as)"

text \<open>The elements have no destructor, so deleting the list gives back its nodes only.\<close>

definition xdelete_list :: "nat \<Rightarrow> xheap \<Rightarrow> xheap result" where
  "xdelete_list l h = rbind (xlist_at l h) (\<lambda>as. rbind (for_each xdelete as h) (xdelete l))"

fun xml_clear :: "nat \<Rightarrow> nat \<Rightarrow> xheap \<Rightarrow> xheap result" where
  "xml_clear 0 a h = Inl (Exit_With ''stack overflow'')"
| "xml_clear (Suc d) a h = rbind (xnode_at a h) (\<lambda>n.
     rbind (xfree (m_name n) h) (\<lambda>h1. rbind (xfree (m_attrs n) h1) (\<lambda>h2. rbind (xfree (m_text n) h2) (\<lambda>h3.
     let h4 = xset a (X_node (n\<lparr>m_name := None, m_attrs := None, m_text := None\<rparr>)) h3 in
     case m_children n of
       None \<Rightarrow> Inr h4
     | Some l \<Rightarrow> rbind (xlist_at l h4) (\<lambda>as. rbind (for_each (xml_clear d) as h4) (\<lambda>h5.
         rbind (xdelete_list l h5) (\<lambda>h6. Inr (xset a (X_node xml_default) h6))))))))"

section \<open>Children\<close>

text \<open>\<^verbatim>\<open>if (m_children == nullptr) m_children = new list<XML>()\<close>\<close>

definition xml_children :: "nat \<Rightarrow> xheap \<Rightarrow> (nat \<times> xheap) result" where
  "xml_children a h = rbind (xnode_at a h) (\<lambda>n. case m_children n of
     Some l \<Rightarrow> Inr (l, h)
   | None \<Rightarrow> (case xnew (X_list []) h of (l, h1) \<Rightarrow> Inr (l, xset a (X_node (n\<lparr>m_children := Some l\<rparr>)) h1)))"

definition xpush_back :: "nat \<Rightarrow> xnode \<Rightarrow> xheap \<Rightarrow> (nat \<times> xheap) result" where
  "xpush_back l n h = rbind (xlist_at l h) (\<lambda>as.
     case xnew (X_node (xml_copy n)) h of (c, h1) \<Rightarrow> Inr (c, xset l (X_list (as @ [c])) h1))"

definition xml_append :: "nat \<Rightarrow> nat \<Rightarrow> xheap \<Rightarrow> xheap result" where
  "xml_append a child h = rbind (xml_children a h) (\<lambda>(l, h1). rbind (xnode_at child h1) (\<lambda>n.
     rbind (xpush_back l n h1) (\<lambda>(c, h2). Inr h2)))"

fun push_empty :: "nat \<Rightarrow> nat \<Rightarrow> xheap \<Rightarrow> xheap result" where
  "push_empty 0 l h = Inr h"
| "push_empty (Suc n) l h = rbind (xpush_back l xml_default h) (\<lambda>(c, h1). push_empty n l h1)"

definition xml_at :: "nat \<Rightarrow> int \<Rightarrow> xheap \<Rightarrow> (nat \<times> xheap) result" where
  "xml_at a index h = (if index < 0 then Inl Logic_Error else
     rbind (xml_children a h) (\<lambda>(l, h1). rbind (xlist_at l h1) (\<lambda>as.
     if nat index < length as then Inr (as ! nat index, h1)
     else rbind (push_empty (nat index + 1 - length as) l h1) (\<lambda>h2.
          rbind (xlist_at l h2) (\<lambda>bs. Inr (List.last bs, h2))))))"

fun find_named :: "string \<Rightarrow> nat list \<Rightarrow> xheap \<Rightarrow> nat option result" where
  "find_named name [] h = Inr None"
| "find_named name (a # as) h = rbind (xml_name a h) (\<lambda>s. if s = name then Inr (Some a) else find_named name as h)"

definition xml_at_name :: "nat \<Rightarrow> string \<Rightarrow> xheap \<Rightarrow> (nat \<times> xheap) result" where
  "xml_at_name a name h = rbind (xml_children a h) (\<lambda>(l, h1). rbind (xlist_at l h1) (\<lambda>as.
     rbind (find_named name as h1) (\<lambda>r. case r of
       Some c \<Rightarrow> Inr (c, h1)
     | None \<Rightarrow> (case xml_named name h1 of (n, h2) \<Rightarrow> xpush_back l n h2))))"

definition xml_at_cstr :: "nat \<Rightarrow> string \<Rightarrow> xheap \<Rightarrow> (nat \<times> xheap) result" where
  "xml_at_cstr a buf h = xml_at_name a (cstr buf) h"

definition xml_assign :: "nat \<Rightarrow> nat \<Rightarrow> nat \<Rightarrow> xheap \<Rightarrow> xheap result" where
  "xml_assign d a other h = rbind (xml_clear d a h) (\<lambda>h1. rbind (xnode_at other h1) (\<lambda>n. Inr (xset a (X_node (xml_copy n)) h1)))"

text \<open>\<^verbatim>\<open>it -> clear()\<close> and \<^verbatim>\<open>m_children -> erase(it)\<close>\<close>

definition clear_and_erase :: "nat \<Rightarrow> nat \<Rightarrow> nat \<Rightarrow> xheap \<Rightarrow> xheap result" where
  "clear_and_erase d l c h = rbind (xml_clear d c h) (\<lambda>h1. rbind (xlist_at l h1) (\<lambda>as. rbind (xdelete c h1) (\<lambda>h2.
     Inr (xset l (X_list (remove1 c as)) h2))))"

definition xml_remove :: "nat \<Rightarrow> nat \<Rightarrow> int \<Rightarrow> xheap \<Rightarrow> xheap result" where
  "xml_remove d a index h = rbind (xnode_at a h) (\<lambda>n. case m_children n of
     None \<Rightarrow> Inr h
   | Some l \<Rightarrow> rbind (xlist_at l h) (\<lambda>as.
       if index < 0 \<or> int (length as) \<le> index then Inl Logic_Error
       else clear_and_erase d l (as ! nat index) h))"

fun remove_named :: "nat \<Rightarrow> nat \<Rightarrow> string \<Rightarrow> nat list \<Rightarrow> xheap \<Rightarrow> xheap result" where
  "remove_named d l name [] h = Inr h"
| "remove_named d l name (c # cs) h = rbind (xml_name c h) (\<lambda>s.
     if s = name then rbind (clear_and_erase d l c h) (remove_named d l name cs) else remove_named d l name cs h)"

definition xml_remove_name :: "nat \<Rightarrow> nat \<Rightarrow> string \<Rightarrow> xheap \<Rightarrow> xheap result" where
  "xml_remove_name d a name h = rbind (xnode_at a h) (\<lambda>n. case m_children n of
     None \<Rightarrow> Inr h
   | Some l \<Rightarrow> rbind (xlist_at l h) (\<lambda>as. remove_named d l name as h))"

definition xml_erase :: "nat \<Rightarrow> nat \<Rightarrow> nat \<Rightarrow> xheap \<Rightarrow> xheap result" where
  "xml_erase d a c h = rbind (xnode_at a h) (\<lambda>n. case m_children n of
     None \<Rightarrow> Inl Null_Deref
   | Some l \<Rightarrow> clear_and_erase d l c h)"

section \<open>Elements as trees\<close>

datatype xtree = XTree (t_name: "string option") (t_text: "string option")
  (t_attrs: "(string \<times> string) list option") (t_kids: "xtree list option")

definition empty_tree :: xtree where
  "empty_tree = XTree None None None None"

definition ptr_rep :: "('x \<Rightarrow> xcell) \<Rightarrow> (nat \<Rightarrow> xcell option) \<Rightarrow> nat option \<Rightarrow> 'x option \<Rightarrow> nat set \<Rightarrow> bool" where
  "ptr_rep C H p v F = (case p of
     None \<Rightarrow> v = None \<and> F = {}
   | Some a \<Rightarrow> (case v of None \<Rightarrow> False | Some x \<Rightarrow> H a = Some (C x) \<and> F = {a}))"

text \<open>The element at an address is a tree that occupies the cells \<open>F\<close>, each of them once.\<close>

inductive xrep :: "(nat \<Rightarrow> xcell option) \<Rightarrow> nat \<Rightarrow> xtree \<Rightarrow> nat set \<Rightarrow> bool"
  and xkids :: "(nat \<Rightarrow> xcell option) \<Rightarrow> nat option \<Rightarrow> xtree list option \<Rightarrow> nat set \<Rightarrow> bool"
  and xreps :: "(nat \<Rightarrow> xcell option) \<Rightarrow> nat list \<Rightarrow> xtree list \<Rightarrow> nat set \<Rightarrow> bool" where
  rep_node: "H a = Some (X_node n) \<Longrightarrow> ptr_rep X_string H (m_name n) nm F1 \<Longrightarrow> ptr_rep X_string H (m_text n) tx F2 \<Longrightarrow>
    ptr_rep X_attrs H (m_attrs n) at F3 \<Longrightarrow> xkids H (m_children n) ch F4 \<Longrightarrow> a \<notin> F1 \<union> F2 \<union> F3 \<union> F4 \<Longrightarrow>
    F1 \<inter> F2 = {} \<Longrightarrow> (F1 \<union> F2) \<inter> F3 = {} \<Longrightarrow> (F1 \<union> F2 \<union> F3) \<inter> F4 = {} \<Longrightarrow>
    xrep H a (XTree nm tx at ch) (insert a (F1 \<union> F2 \<union> F3 \<union> F4))"
| no_kids: "xkids H None None {}"
| some_kids: "H l = Some (X_list as) \<Longrightarrow> xreps H as ts F \<Longrightarrow> l \<notin> F \<Longrightarrow> xkids H (Some l) (Some ts) (insert l F)"
| reps_nil: "xreps H [] [] {}"
| reps_cons: "xrep H a t F \<Longrightarrow> xreps H as ts G \<Longrightarrow> F \<inter> G = {} \<Longrightarrow> xreps H (a # as) (t # ts) (F \<union> G)"

inductive_cases xrepE: "xrep H a (XTree nm tx at ch) F"
inductive_cases no_kidsE: "xkids H p None F" "xkids H None ch F"
inductive_cases some_kidsE: "xkids H p (Some ts) F" "xkids H (Some l) ch F"
inductive_cases reps_nilE: "xreps H as [] F" "xreps H [] ts F"
inductive_cases reps_consE: "xreps H as (t # ts) F" "xreps H (a # as) ts F"

lemma some_kidsD: "xkids H (Some l) (Some ts) F \<Longrightarrow> H l = Some (X_list as) \<Longrightarrow> \<exists>G. F = insert l G \<and> xreps H as ts G \<and> l \<notin> G"
  by (erule some_kidsE(1)) auto

lemma ptr_rep_frame: "ptr_rep C H p v F \<Longrightarrow> (\<And>x. x \<in> F \<Longrightarrow> H' x = H x) \<Longrightarrow> ptr_rep C H' p v F"
  by (auto simp: ptr_rep_def split: option.splits)

lemma ptr_rep_dom: "ptr_rep C H p v F \<Longrightarrow> x \<in> F \<Longrightarrow> H x \<noteq> None"
  by (auto simp: ptr_rep_def split: option.splits)

lemma rep_frame:
  "xrep H a t F \<Longrightarrow> (\<And>x. x \<in> F \<Longrightarrow> H' x = H x) \<Longrightarrow> xrep H' a t F"
  "xkids H p ch F \<Longrightarrow> (\<And>x. x \<in> F \<Longrightarrow> H' x = H x) \<Longrightarrow> xkids H' p ch F"
  "xreps H as ts F \<Longrightarrow> (\<And>x. x \<in> F \<Longrightarrow> H' x = H x) \<Longrightarrow> xreps H' as ts F"
proof (induction rule: xrep_xkids_xreps.inducts)
  case (rep_node H a n nm F1 tx F2 at F3 ch F4)
  then show ?case by (intro xrep_xkids_xreps.rep_node) (auto elim!: ptr_rep_frame)
qed (auto intro!: xrep_xkids_xreps.intros)

lemma rep_dom:
  "xrep H a t F \<Longrightarrow> a \<in> F \<and> (\<forall>x \<in> F. H x \<noteq> None)"
  "xkids H p ch F \<Longrightarrow> \<forall>x \<in> F. H x \<noteq> None"
  "xreps H as ts F \<Longrightarrow> set as \<subseteq> F \<and> (\<forall>x \<in> F. H x \<noteq> None) \<and> length as = length ts \<and> distinct as"
proof (induction rule: xrep_xkids_xreps.inducts)
  case (rep_node H a n nm F1 tx F2 at F3 ch F4)
  then show ?case using ptr_rep_dom [OF rep_node(2)] ptr_rep_dom [OF rep_node(3)] ptr_rep_dom [OF rep_node(4)] by auto
qed auto

lemma xreps_append:
  "xreps H as ts F \<Longrightarrow> xreps H bs us G \<Longrightarrow> F \<inter> G = {} \<Longrightarrow> xreps H (as @ bs) (ts @ us) (F \<union> G)"
proof (induction as arbitrary: ts F)
  case Nil
  then show ?case by (auto elim: reps_nilE)
next
  case (Cons a as)
  from Cons.prems(1) obtain t ts' F1 F2 where *: "ts = t # ts'" "F = F1 \<union> F2" "xrep H a t F1" "xreps H as ts' F2" "F1 \<inter> F2 = {}"
    by (auto elim: reps_consE)
  have "xreps H (as @ bs) (ts' @ us) (F2 \<union> G)" using Cons * by (intro Cons.IH) auto
  then have "xreps H (a # as @ bs) (t # ts' @ us) (F1 \<union> (F2 \<union> G))"
    using * Cons.prems(3) by (intro xrep_xkids_xreps.reps_cons) auto
  then show ?case using * by (simp add: Un_assoc)
qed

lemma xreps_split:
  "xreps H as ts F \<Longrightarrow> i < length ts \<Longrightarrow> \<exists>G Fc. xrep H (as ! i) (ts ! i) Fc \<and> F = G \<union> Fc \<and> G \<inter> Fc = {} \<and>
     (\<forall>H' t' Fc'. xrep H' (as ! i) t' Fc' \<and> (\<forall>x \<in> G. H' x = H x) \<and> G \<inter> Fc' = {} \<longrightarrow> xreps H' as (ts[i := t']) (G \<union> Fc'))"
proof (induction as arbitrary: ts F i)
  case Nil
  then show ?case by (auto elim: reps_nilE)
next
  case (Cons a as)
  from Cons.prems(1) obtain t ts' F1 F2 where *: "ts = t # ts'" "F = F1 \<union> F2" "xrep H a t F1" "xreps H as ts' F2" "F1 \<inter> F2 = {}"
    by (auto elim: reps_consE)
  show ?case
  proof (cases i)
    case 0
    have "xreps H' (a # as) (t' # ts') (F2 \<union> Fc')" if "xrep H' a t' Fc'" "\<forall>x \<in> F2. H' x = H x" "F2 \<inter> Fc' = {}" for H' t' Fc'
    proof -
      have "xreps H' as ts' F2" using rep_frame(3) [OF *(4)] that(2) by blast
      then have "xreps H' (a # as) (t' # ts') (Fc' \<union> F2)" using that by (intro xrep_xkids_xreps.reps_cons) auto
      then show ?thesis by (simp add: Un_commute)
    qed
    then show ?thesis using * 0 by (intro exI [of _ F2] exI [of _ F1]) auto
  next
    case (Suc k)
    obtain G Fc where g: "xrep H (as ! k) (ts' ! k) Fc" "F2 = G \<union> Fc" "G \<inter> Fc = {}"
      "\<And>H' t' Fc'. xrep H' (as ! k) t' Fc' \<and> (\<forall>x \<in> G. H' x = H x) \<and> G \<inter> Fc' = {} \<Longrightarrow> xreps H' as (ts'[k := t']) (G \<union> Fc')"
      using Cons.IH [OF *(4), of k] Cons.prems(2) *(1) Suc by auto
    have "xreps H' (a # as) (t # ts'[k := t']) ((F1 \<union> G) \<union> Fc')"
      if "xrep H' (as ! k) t' Fc'" "\<forall>x \<in> F1 \<union> G. H' x = H x" "(F1 \<union> G) \<inter> Fc' = {}" for H' t' Fc'
    proof -
      have "xreps H' as (ts'[k := t']) (G \<union> Fc')" using that by (intro g(4)) auto
      then have "xreps H' (a # as) (t # ts'[k := t']) (F1 \<union> (G \<union> Fc'))"
        using that *(3,5) g(2) rep_frame(1) [OF *(3), of H'] by (intro xrep_xkids_xreps.reps_cons) auto
      then show ?thesis by (simp add: Un_assoc)
    qed
    then show ?thesis using * Suc g by (intro exI [of _ "F1 \<union> G"] exI [of _ Fc]) auto
  qed
qed

section \<open>Local updates\<close>

definition xfresh :: "xheap \<Rightarrow> bool" where
  "xfresh h \<longleftrightarrow> (\<forall>x \<ge> xnext h. xcells h x = None)"

text \<open>From \<open>h\<close> to \<open>h'\<close> the cells \<open>F\<close> became the cells \<open>F'\<close>: no other cell changed and none is left over.\<close>

definition local_step :: "xheap \<Rightarrow> nat set \<Rightarrow> xheap \<Rightarrow> nat set \<Rightarrow> bool" where
  "local_step h F h' F' \<longleftrightarrow> xnext h \<le> xnext h' \<and> xfresh h' \<and> F' \<subseteq> F \<union> {xnext h ..< xnext h'} \<and>
     (\<forall>x < xnext h. x \<notin> F \<longrightarrow> xcells h' x = xcells h x) \<and>
     (\<forall>x. (x \<in> F \<or> xnext h \<le> x) \<and> x \<notin> F' \<longrightarrow> xcells h' x = None)"

lemma local_refl: "xfresh h \<Longrightarrow> local_step h F h F"
  by (auto simp: local_step_def xfresh_def)

lemma local_trans: "local_step h F h' F' \<Longrightarrow> local_step h' F' h'' F'' \<Longrightarrow> local_step h F h'' F''"
  unfolding local_step_def
proof (intro conjI allI impI)
  assume a: "xnext h \<le> xnext h' \<and> xfresh h' \<and> F' \<subseteq> F \<union> {xnext h ..< xnext h'} \<and>
     (\<forall>x < xnext h. x \<notin> F \<longrightarrow> xcells h' x = xcells h x) \<and> (\<forall>x. (x \<in> F \<or> xnext h \<le> x) \<and> x \<notin> F' \<longrightarrow> xcells h' x = None)"
    and b: "xnext h' \<le> xnext h'' \<and> xfresh h'' \<and> F'' \<subseteq> F' \<union> {xnext h' ..< xnext h''} \<and>
     (\<forall>x < xnext h'. x \<notin> F' \<longrightarrow> xcells h'' x = xcells h' x) \<and> (\<forall>x. (x \<in> F' \<or> xnext h' \<le> x) \<and> x \<notin> F'' \<longrightarrow> xcells h'' x = None)"
  show "xnext h \<le> xnext h''" "xfresh h''" using a b by auto
  show "F'' \<subseteq> F \<union> {xnext h ..< xnext h''}" using a b by fastforce
  show "xcells h'' x = xcells h x" if "x < xnext h" "x \<notin> F" for x
  proof -
    have "x < xnext h'" "x \<notin> F'" using a that by auto
    then show ?thesis using a b that by auto
  qed
  show "xcells h'' x = None" if "(x \<in> F \<or> xnext h \<le> x) \<and> x \<notin> F''" for x
  proof (cases "x \<in> F' \<or> xnext h' \<le> x")
    case False
    then have "xcells h'' x = xcells h' x" "xcells h' x = None" using a b that by auto
    then show ?thesis by simp
  qed (use b that in auto)
qed

lemma rep_below: "xrep (xcells h) a t F \<Longrightarrow> xfresh h \<Longrightarrow> x \<in> F \<Longrightarrow> x < xnext h"
  using rep_dom(1) by (fastforce simp: xfresh_def not_less [symmetric])

text \<open>An operation on a child of an element is an operation on the element.\<close>

lemma xrep_child:
  assumes rep: "xrep (xcells h) a (XTree nm tx at (Some ts)) F" and fr: "xfresh h" and i: "i < length ts"
  obtains n l as Fc where "xcells h a = Some (X_node n)" "m_children n = Some l" "xcells h l = Some (X_list as)"
    "length as = length ts" "xrep (xcells h) (as ! i) (ts ! i) Fc" "Fc \<subseteq> F" "a \<notin> Fc" "l \<notin> Fc" "distinct as"
    "\<And>h' t' Fc'. local_step h Fc h' Fc' \<Longrightarrow> xrep (xcells h') (as ! i) t' Fc' \<Longrightarrow>
       xrep (xcells h') a (XTree nm tx at (Some (ts[i := t']))) (F - Fc \<union> Fc') \<and> local_step h F h' (F - Fc \<union> Fc')"
proof -
  obtain n F1 F2 F3 F4 where p: "F = insert a (F1 \<union> F2 \<union> F3 \<union> F4)" "xcells h a = Some (X_node n)"
    "ptr_rep X_string (xcells h) (m_name n) nm F1" "ptr_rep X_string (xcells h) (m_text n) tx F2"
    "ptr_rep X_attrs (xcells h) (m_attrs n) at F3" "xkids (xcells h) (m_children n) (Some ts) F4"
    "a \<notin> F1 \<union> F2 \<union> F3 \<union> F4" "F1 \<inter> F2 = {}" "(F1 \<union> F2) \<inter> F3 = {}" "(F1 \<union> F2 \<union> F3) \<inter> F4 = {}"
    using rep by (auto elim: xrepE)
  obtain l as F5 where k: "m_children n = Some l" "F4 = insert l F5" "xcells h l = Some (X_list as)"
    "xreps (xcells h) as ts F5" "l \<notin> F5"
    using p(6) by (auto elim: some_kidsE)
  obtain G Fc where g: "xrep (xcells h) (as ! i) (ts ! i) Fc" "F5 = G \<union> Fc" "G \<inter> Fc = {}"
    "\<And>H' t' Fc'. xrep H' (as ! i) t' Fc' \<and> (\<forall>x \<in> G. H' x = xcells h x) \<and> G \<inter> Fc' = {} \<Longrightarrow> xreps H' as (ts[i := t']) (G \<union> Fc')"
    using xreps_split [OF k(4) i] by auto
  have below: "x < xnext h" if "x \<in> F" for x using rep_below [OF rep fr that] .
  have out: "F - Fc = insert a (F1 \<union> F2 \<union> F3 \<union> insert l G)" using p k g by auto
  have step: "xrep (xcells h') a (XTree nm tx at (Some (ts[i := t']))) (F - Fc \<union> Fc') \<and> local_step h F h' (F - Fc \<union> Fc')"
    if u: "local_step h Fc h' Fc'" "xrep (xcells h') (as ! i) t' Fc'" for h' t' Fc'
  proof
    have same: "xcells h' x = xcells h x" if "x \<in> F - Fc" for x using u(1) below that by (auto simp: local_step_def)
    have new: "Fc' \<inter> (F - Fc) = {}" using u(1) below by (fastforce simp: local_step_def)
    have "xreps (xcells h') as (ts[i := t']) (G \<union> Fc')" using same new out u(2) by (intro g(4)) auto
    then have "xkids (xcells h') (m_children n) (Some (ts[i := t'])) (insert l (G \<union> Fc'))"
      using k(1,2,3,5) same [of l] out new g(2) by (simp add: xrep_xkids_xreps.some_kids)
    then have "xrep (xcells h') a (XTree nm tx at (Some (ts[i := t']))) (insert a (F1 \<union> F2 \<union> F3 \<union> insert l (G \<union> Fc')))"
    proof (intro xrep_xkids_xreps.rep_node)
      show "xcells h' a = Some (X_node n)" using same [of a] out p(2) by simp
      show "ptr_rep X_string (xcells h') (m_name n) nm F1" by (rule ptr_rep_frame [OF p(3)]) (use same out in auto)
      show "ptr_rep X_string (xcells h') (m_text n) tx F2" by (rule ptr_rep_frame [OF p(4)]) (use same out in auto)
      show "ptr_rep X_attrs (xcells h') (m_attrs n) at F3" by (rule ptr_rep_frame [OF p(5)]) (use same out in auto)
    qed (use p(7-10) new out k(2) g(2) in auto)
    then show "xrep (xcells h') a (XTree nm tx at (Some (ts[i := t']))) (F - Fc \<union> Fc')" by (simp add: out Un_assoc insert_commute)
    have "F - Fc \<union> Fc \<subseteq> F" using g p k by auto
    then show "local_step h F h' (F - Fc \<union> Fc')" using u(1) by (auto simp: local_step_def)
  qed
  show ?thesis
    by (rule that [OF p(2) k(1) k(3) _ g(1) _ _ _ _ step]) (use p k g rep_dom(3) [OF k(4)] in auto)
qed

section \<open>Operations on trees\<close>

fun fits :: "nat \<Rightarrow> xtree \<Rightarrow> bool" where
  "fits 0 t = False"
| "fits (Suc d) (XTree nm tx at ch) = (case ch of None \<Rightarrow> True | Some ts \<Rightarrow> list_all (fits d) ts)"

definition tree_clear :: "nat \<Rightarrow> xtree \<Rightarrow> xtree result" where
  "tree_clear d t = (if fits d t then Inr empty_tree else Inl (Exit_With ''stack overflow''))"

definition tree_set_attr :: "string \<Rightarrow> string \<Rightarrow> (string \<times> string) list option \<Rightarrow> (string \<times> string) list" where
  "tree_set_attr key val at = (let m = (case at of None \<Rightarrow> [] | Some m \<Rightarrow> m) in
     if map_of m key = None then omap_put key val m else m)"

definition acts :: "xheap \<Rightarrow> nat \<Rightarrow> nat set \<Rightarrow> xheap result \<Rightarrow> xtree result \<Rightarrow> bool" where
  "acts h a F r rt \<longleftrightarrow> (case rt of
     Inl e \<Rightarrow> r = Inl e
   | Inr t \<Rightarrow> (\<exists>h' F'. r = Inr h' \<and> xrep (xcells h') a t F' \<and> local_step h F h' F'))"

definition xdrop :: "nat set \<Rightarrow> xheap \<Rightarrow> xheap" where
  "xdrop F h = h\<lparr>xcells := (\<lambda>x. if x \<in> F then None else xcells h x)\<rparr>"

lemma xdrop_simps [simp]: "xcells (xdrop F h) x = (if x \<in> F then None else xcells h x)" "xnext (xdrop F h) = xnext h"
  by (simp_all add: xdrop_def)

lemma xdrop_xdrop: "xdrop F (xdrop G h) = xdrop (F \<union> G) h" "xdrop {} h = h"
  by (cases h; auto simp: xdrop_def fun_eq_iff)+

lemma xset_simps [simp]: "xcells (xset a c h) x = (if x = a then Some c else xcells h x)" "xnext (xset a c h) = xnext h"
  by (auto simp: xset_def)

lemma xnew_eq: "xnew c h = (xnext h, (xset (xnext h) c h)\<lparr>xnext := xnext h + 1\<rparr>)"
  by (simp add: xnew_def xset_def)

lemma xfree_rep: "ptr_rep C (xcells h) p v F \<Longrightarrow> xfree p h = Inr (xdrop F h)"
  by (auto simp: ptr_rep_def xfree_def xdelete_def xdrop_def fun_eq_iff split: option.splits)

lemma xnode_at_rep: "xcells h a = Some (X_node n) \<Longrightarrow> xnode_at a h = Inr n"
  by (simp add: xnode_at_def)

lemma xlist_at_rep: "xcells h a = Some (X_list as) \<Longrightarrow> xlist_at a h = Inr as"
  by (simp add: xlist_at_def)

lemma setName_acts:
  assumes rep: "xrep (xcells h) a (XTree nm tx at ch) F" and fr: "xfresh h"
  shows "acts h a F (xml_setName a s h) (Inr (XTree (Some s) tx at ch))"
proof -
  obtain n F1 F2 F3 F4 where p: "F = insert a (F1 \<union> F2 \<union> F3 \<union> F4)" "xcells h a = Some (X_node n)"
    "ptr_rep X_string (xcells h) (m_name n) nm F1" "ptr_rep X_string (xcells h) (m_text n) tx F2"
    "ptr_rep X_attrs (xcells h) (m_attrs n) at F3" "xkids (xcells h) (m_children n) ch F4"
    "a \<notin> F1 \<union> F2 \<union> F3 \<union> F4" "F1 \<inter> F2 = {}" "(F1 \<union> F2) \<inter> F3 = {}" "(F1 \<union> F2 \<union> F3) \<inter> F4 = {}"
    using rep by (auto elim: xrepE)
  have below: "x \<in> F \<Longrightarrow> x < xnext h" for x by (rule rep_below [OF rep fr])
  let ?k = "xnext h" and ?G = "F2 \<union> F3 \<union> F4"
  let ?h = "xset a (X_node (n\<lparr>m_name := Some ?k\<rparr>)) ((xset ?k (X_string s) (xdrop F1 h))\<lparr>xnext := Suc ?k\<rparr>)"
  have new: "?k \<notin> F" using below by blast
  have same: "xcells ?h x = xcells h x" if "x \<in> ?G" for x using that p new by auto
  have "xrep (xcells ?h) a (XTree (Some s) tx at ch) (insert a ({?k} \<union> F2 \<union> F3 \<union> F4))"
  proof (rule xrep_xkids_xreps.rep_node)
    show "ptr_rep X_string (xcells ?h) (m_text (n\<lparr>m_name := Some ?k\<rparr>)) tx F2" using ptr_rep_frame [OF p(4)] same by simp
    show "ptr_rep X_attrs (xcells ?h) (m_attrs (n\<lparr>m_name := Some ?k\<rparr>)) at F3" using ptr_rep_frame [OF p(5)] same by simp
    show "xkids (xcells ?h) (m_children (n\<lparr>m_name := Some ?k\<rparr>)) ch F4" using rep_frame(2) [OF p(6)] same by simp
  qed (use p new in \<open>auto simp: ptr_rep_def\<close>)
  moreover have "local_step h F ?h (insert a ({?k} \<union> F2 \<union> F3 \<union> F4))"
    using p new fr by (auto simp: local_step_def xfresh_def)
  ultimately show ?thesis
    by (auto simp: acts_def xml_setName_def xnode_at_rep [OF p(2)] xfree_rep [OF p(3)] xnew_eq)
qed

lemma setText_acts:
  assumes rep: "xrep (xcells h) a (XTree nm tx at ch) F" and fr: "xfresh h"
  shows "acts h a F (xml_setText a s h) (Inr (XTree nm (Some s) at ch))"
proof -
  obtain n F1 F2 F3 F4 where p: "F = insert a (F1 \<union> F2 \<union> F3 \<union> F4)" "xcells h a = Some (X_node n)"
    "ptr_rep X_string (xcells h) (m_name n) nm F1" "ptr_rep X_string (xcells h) (m_text n) tx F2"
    "ptr_rep X_attrs (xcells h) (m_attrs n) at F3" "xkids (xcells h) (m_children n) ch F4"
    "a \<notin> F1 \<union> F2 \<union> F3 \<union> F4" "F1 \<inter> F2 = {}" "(F1 \<union> F2) \<inter> F3 = {}" "(F1 \<union> F2 \<union> F3) \<inter> F4 = {}"
    using rep by (auto elim: xrepE)
  have below: "x \<in> F \<Longrightarrow> x < xnext h" for x by (rule rep_below [OF rep fr])
  let ?k = "xnext h" and ?G = "F1 \<union> F3 \<union> F4"
  let ?h = "xset a (X_node (n\<lparr>m_text := Some ?k\<rparr>)) ((xset ?k (X_string s) (xdrop F2 h))\<lparr>xnext := Suc ?k\<rparr>)"
  have new: "?k \<notin> F" using below by blast
  have same: "xcells ?h x = xcells h x" if "x \<in> ?G" for x using that p new by auto
  have "xrep (xcells ?h) a (XTree nm (Some s) at ch) (insert a (F1 \<union> {?k} \<union> F3 \<union> F4))"
  proof (rule xrep_xkids_xreps.rep_node)
    show "ptr_rep X_string (xcells ?h) (m_name (n\<lparr>m_text := Some ?k\<rparr>)) nm F1" using ptr_rep_frame [OF p(3)] same by simp
    show "ptr_rep X_attrs (xcells ?h) (m_attrs (n\<lparr>m_text := Some ?k\<rparr>)) at F3" using ptr_rep_frame [OF p(5)] same by simp
    show "xkids (xcells ?h) (m_children (n\<lparr>m_text := Some ?k\<rparr>)) ch F4" using rep_frame(2) [OF p(6)] same by simp
  qed (use p new in \<open>auto simp: ptr_rep_def\<close>)
  moreover have "local_step h F ?h (insert a (F1 \<union> {?k} \<union> F3 \<union> F4))"
    using p new fr by (auto simp: local_step_def xfresh_def)
  ultimately show ?thesis
    by (auto simp: acts_def xml_setText_def xnode_at_rep [OF p(2)] xfree_rep [OF p(4)] xnew_eq)
qed

lemma setAttr_acts:
  assumes rep: "xrep (xcells h) a (XTree nm tx at ch) F" and fr: "xfresh h"
  shows "acts h a F (xml_setAttr a key val h) (Inr (XTree nm tx (Some (tree_set_attr key val at)) ch))"
proof -
  obtain n F1 F2 F3 F4 where p: "F = insert a (F1 \<union> F2 \<union> F3 \<union> F4)" "xcells h a = Some (X_node n)"
    "ptr_rep X_string (xcells h) (m_name n) nm F1" "ptr_rep X_string (xcells h) (m_text n) tx F2"
    "ptr_rep X_attrs (xcells h) (m_attrs n) at F3" "xkids (xcells h) (m_children n) ch F4"
    "a \<notin> F1 \<union> F2 \<union> F3 \<union> F4" "F1 \<inter> F2 = {}" "(F1 \<union> F2) \<inter> F3 = {}" "(F1 \<union> F2 \<union> F3) \<inter> F4 = {}"
    using rep by (auto elim: xrepE)
  have below: "x \<in> F \<Longrightarrow> x < xnext h" for x by (rule rep_below [OF rep fr])
  let ?k = "xnext h" and ?G = "F1 \<union> F2 \<union> F4" and ?m = "tree_set_attr key val at"
  have new: "?k \<notin> F" using below by blast
  show ?thesis
  proof (cases at)
    case None
    then have f3: "F3 = {}" "m_attrs n = None" using p(5) by (auto simp: ptr_rep_def split: option.splits)
    let ?h = "xset ?k (X_attrs ?m) (xset a (X_node (n\<lparr>m_attrs := Some ?k\<rparr>)) ((xset ?k (X_attrs []) h)\<lparr>xnext := Suc ?k\<rparr>))"
    have same: "xcells ?h x = xcells h x" if "x \<in> ?G" for x using that p new by auto
    have "xrep (xcells ?h) a (XTree nm tx (Some ?m) ch) (insert a (F1 \<union> F2 \<union> {?k} \<union> F4))"
    proof (rule xrep_xkids_xreps.rep_node)
      show "ptr_rep X_string (xcells ?h) (m_name (n\<lparr>m_attrs := Some ?k\<rparr>)) nm F1" using ptr_rep_frame [OF p(3)] same by simp
      show "ptr_rep X_string (xcells ?h) (m_text (n\<lparr>m_attrs := Some ?k\<rparr>)) tx F2" using ptr_rep_frame [OF p(4)] same by simp
      show "xkids (xcells ?h) (m_children (n\<lparr>m_attrs := Some ?k\<rparr>)) ch F4" using rep_frame(2) [OF p(6)] same by simp
    qed (use p new in \<open>auto simp: ptr_rep_def\<close>)
    moreover have "local_step h F ?h (insert a (F1 \<union> F2 \<union> {?k} \<union> F4))"
      using p(1,7) f3 new fr below [of a] by (auto simp: local_step_def xfresh_def)
    moreover have "xml_setAttr a key val h = Inr ?h"
      using None f3 new p(1) by (simp add: xml_setAttr_def xnode_at_rep [OF p(2)] xnew_eq xattrs_at_def tree_set_attr_def)
    ultimately show ?thesis by (auto simp: acts_def)
  next
    case (Some m)
    then obtain q where q: "m_attrs n = Some q" "xcells h q = Some (X_attrs m)" "F3 = {q}"
      using p(5) by (auto simp: ptr_rep_def split: option.splits)
    let ?h = "xset q (X_attrs ?m) h"
    have same: "xcells ?h x = xcells h x" if "x \<in> insert a ?G" for x using that p q by auto
    have "xrep (xcells ?h) a (XTree nm tx (Some ?m) ch) (insert a (F1 \<union> F2 \<union> F3 \<union> F4))"
    proof (rule xrep_xkids_xreps.rep_node [of _ _ n])
      show "ptr_rep X_string (xcells ?h) (m_name n) nm F1" using ptr_rep_frame [OF p(3)] same by simp
      show "ptr_rep X_string (xcells ?h) (m_text n) tx F2" using ptr_rep_frame [OF p(4)] same by simp
      show "xkids (xcells ?h) (m_children n) ch F4" using rep_frame(2) [OF p(6)] same by simp
    qed (use p q in \<open>auto simp: ptr_rep_def\<close>)
    moreover have "local_step h F ?h F"
      using p q below fr by (auto simp: local_step_def xfresh_def)
    moreover have "xml_setAttr a key val h = Inr ?h"
    proof (cases "map_of m key")
      case None
      then show ?thesis using q Some by (simp add: xml_setAttr_def xnode_at_rep [OF p(2)] xattrs_at_def tree_set_attr_def)
    next
      case (Some v)
      then have "?h = h" using q \<open>at = Some m\<close> by (cases h) (auto simp: xset_def tree_set_attr_def)
      then show ?thesis using q Some by (simp add: xml_setAttr_def xnode_at_rep [OF p(2)] xattrs_at_def)
    qed
    ultimately show ?thesis using p(1) by (auto simp: acts_def)
  qed
qed

lemma for_each_xdelete:
  "distinct as \<Longrightarrow> \<forall>x \<in> set as. xcells h x \<noteq> None \<Longrightarrow> for_each xdelete as h = Inr (xdrop (set as) h)"
proof (induction as arbitrary: h)
  case (Cons a as)
  have "xdelete a h = Inr (xdrop {a} h)" using Cons.prems(2) by (cases h) (auto simp: xdelete_def xdrop_def fun_eq_iff)
  moreover have "for_each xdelete as (xdrop {a} h) = Inr (xdrop (set as) (xdrop {a} h))"
    using Cons.prems by (intro Cons.IH) auto
  ultimately show ?case by (simp add: xdrop_xdrop)
qed (simp add: xdrop_xdrop)

lemma xdelete_list_rep:
  assumes "xcells h l = Some (X_list as)" "xreps (xcells h) as ts F" "l \<notin> set as"
  shows "xdelete_list l h = Inr (xdrop (insert l (set as)) h)"
proof -
  have "for_each xdelete as h = Inr (xdrop (set as) h)"
    using rep_dom(3) [OF assms(2)] by (intro for_each_xdelete) auto
  moreover have "xdelete l (xdrop (set as) h) = Inr (xdrop {l} (xdrop (set as) h))"
    using assms by (cases h) (auto simp: xdelete_def xdrop_def fun_eq_iff)
  ultimately show ?thesis by (simp add: xdelete_list_def xlist_at_rep [OF assms(1)] xdrop_xdrop)
qed

lemma xrep_empty: "H a = Some (X_node xml_default) \<Longrightarrow> xrep H a empty_tree {a}"
proof -
  assume H: "H a = Some (X_node xml_default)"
  have "xrep H a (XTree None None None None) (insert a ({} \<union> {} \<union> {} \<union> {}))"
    by (rule xrep_xkids_xreps.rep_node [where n = xml_default]) (simp_all add: H xml_default_def ptr_rep_def xrep_xkids_xreps.no_kids)
  then show ?thesis by (simp add: empty_tree_def)
qed

lemma local_par:
  assumes a: "local_step h F h1 F'" and b: "local_step h1 G h2 G'" and "F \<inter> G = {}" "\<And>x. x \<in> F \<union> G \<Longrightarrow> x < xnext h"
  shows "local_step h (F \<union> G) h2 (F' \<union> G')"
  unfolding local_step_def
proof (intro conjI allI impI)
  show "xnext h \<le> xnext h2" "xfresh h2" using a b by (auto simp: local_step_def)
  show "F' \<union> G' \<subseteq> F \<union> G \<union> {xnext h ..< xnext h2}" using a b by (fastforce simp: local_step_def)
  show "xcells h2 x = xcells h x" if "x < xnext h" "x \<notin> F \<union> G" for x
    using a b that by (simp add: local_step_def)
  show "xcells h2 x = None" if x: "(x \<in> F \<union> G \<or> xnext h \<le> x) \<and> x \<notin> F' \<union> G'" for x
  proof (cases "x \<in> G \<or> xnext h1 \<le> x")
    case True
    then show ?thesis using b x by (simp add: local_step_def)
  next
    case False
    then have "xcells h1 x = None" using a x by (auto simp: local_step_def)
    then show ?thesis using b False by (simp add: local_step_def)
  qed
qed

lemma clear_all:
  assumes one: "\<And>a t F h. xrep (xcells h) a t F \<Longrightarrow> xfresh h \<Longrightarrow>
      if fits d t then \<exists>h'. xml_clear d a h = Inr h' \<and> xrep (xcells h') a empty_tree {a} \<and> local_step h F h' {a}
      else xml_clear d a h = Inl (Exit_With ''stack overflow'')"
  shows "xreps (xcells h) as ts F \<Longrightarrow> xfresh h \<Longrightarrow>
      if list_all (fits d) ts then \<exists>h'. for_each (xml_clear d) as h = Inr h' \<and>
        xreps (xcells h') as (map (\<lambda>t. empty_tree) ts) (set as) \<and> local_step h F h' (set as)
      else for_each (xml_clear d) as h = Inl (Exit_With ''stack overflow'')"
proof (induction as arbitrary: ts F h)
  case Nil
  then show ?case by (auto elim!: reps_nilE intro: xrep_xkids_xreps.reps_nil local_refl)
next
  case (Cons a as)
  from Cons.prems(1) obtain t ts' F1 F2 where *: "ts = t # ts'" "F = F1 \<union> F2" "xrep (xcells h) a t F1" "xreps (xcells h) as ts' F2" "F1 \<inter> F2 = {}"
    by (auto elim: reps_consE)
  have below: "x < xnext h" if "x \<in> F1 \<union> F2" for x
    using that rep_dom(1) [OF *(3)] rep_dom(3) [OF *(4)] Cons.prems(2) by (fastforce simp: xfresh_def not_less [symmetric])
  show ?case
  proof (cases "fits d t")
    case False
    then show ?thesis using one [OF *(3) Cons.prems(2)] *(1) by simp
  next
    case True
    then obtain h1 where h1: "xml_clear d a h = Inr h1" "xrep (xcells h1) a empty_tree {a}" "local_step h F1 h1 {a}"
      using one [OF *(3) Cons.prems(2)] by auto
    have r2: "xreps (xcells h1) as ts' F2" "xfresh h1"
      using rep_frame(3) [OF *(4), of "xcells h1"] h1(3) below *(5) by (auto simp: local_step_def)
    show ?thesis
    proof (cases "list_all (fits d) ts'")
      case False
      then show ?thesis using Cons.IH [OF r2] h1(1) *(1) by simp
    next
      case ok: True
      then obtain h2 where h2: "for_each (xml_clear d) as h1 = Inr h2" "xreps (xcells h2) as (map (\<lambda>t. empty_tree) ts') (set as)"
        "local_step h1 F2 h2 (set as)" using Cons.IH [OF r2] by auto
      have a: "a \<in> F1" "set as \<subseteq> F2" using rep_dom(1) [OF *(3)] rep_dom(3) [OF *(4)] by auto
      then have "a < xnext h1" "a \<notin> F2" using h1(3) below [of a] *(5) by (auto simp: local_step_def)
      then have "xcells h2 a = xcells h1 a" using h2(3) by (simp add: local_step_def)
      then have "xrep (xcells h2) a empty_tree {a}" using rep_frame(1) [OF h1(2), of "xcells h2"] by simp
      then have "xreps (xcells h2) (a # as) (empty_tree # map (\<lambda>t. empty_tree) ts') ({a} \<union> set as)"
        using a *(5) by (intro xrep_xkids_xreps.reps_cons h2(2)) auto
      then show ?thesis using local_par [OF h1(3) h2(3) *(5)] below True ok h1(1) h2(1) * by simp
    qed
  qed
qed

lemma xml_clear_rep:
  "xrep (xcells h) a t F \<Longrightarrow> xfresh h \<Longrightarrow>
    if fits d t then \<exists>h'. xml_clear d a h = Inr h' \<and> xrep (xcells h') a empty_tree {a} \<and> local_step h F h' {a}
    else xml_clear d a h = Inl (Exit_With ''stack overflow'')"
proof (induction d arbitrary: a t F h)
  case (Suc d)
  obtain nm tx at ch where t: "t = XTree nm tx at ch" by (cases t)
  obtain n F1 F2 F3 F4 where p: "F = insert a (F1 \<union> F2 \<union> F3 \<union> F4)" "xcells h a = Some (X_node n)"
    "ptr_rep X_string (xcells h) (m_name n) nm F1" "ptr_rep X_string (xcells h) (m_text n) tx F2"
    "ptr_rep X_attrs (xcells h) (m_attrs n) at F3" "xkids (xcells h) (m_children n) ch F4"
    "a \<notin> F1 \<union> F2 \<union> F3 \<union> F4" "F1 \<inter> F2 = {}" "(F1 \<union> F2) \<inter> F3 = {}" "(F1 \<union> F2 \<union> F3) \<inter> F4 = {}"
    using Suc.prems(1) unfolding t by (auto elim: xrepE)
  have below: "x < xnext h" if "x \<in> F" for x by (rule rep_below [OF Suc.prems(1,2) that])
  have fr: "xcells h x = None" if "xnext h \<le> x" for x using Suc.prems(2) that by (simp add: xfresh_def)
  let ?h3 = "xdrop (F2 \<union> (F3 \<union> F1)) h"
  let ?h4 = "xset a (X_node (n\<lparr>m_name := None, m_attrs := None, m_text := None\<rparr>)) ?h3"
  have "ptr_rep X_attrs (xcells (xdrop F1 h)) (m_attrs n) at F3" by (rule ptr_rep_frame [OF p(5)]) (use p in auto)
  moreover have "ptr_rep X_string (xcells (xdrop (F3 \<union> F1) h)) (m_text n) tx F2" by (rule ptr_rep_frame [OF p(4)]) (use p in auto)
  ultimately have clr: "xml_clear (Suc d) a h = (case m_children n of
       None \<Rightarrow> Inr ?h4
     | Some l \<Rightarrow> rbind (xlist_at l ?h4) (\<lambda>as. rbind (for_each (xml_clear d) as ?h4) (\<lambda>h5.
         rbind (xdelete_list l h5) (\<lambda>h6. Inr (xset a (X_node xml_default) h6)))))"
    by (simp add: xnode_at_rep [OF p(2)] xfree_rep [OF p(3)] xfree_rep xdrop_xdrop Let_def)
  have empty: "xrep H a empty_tree {a}" if "H a = Some (X_node xml_default)" for H
    using that by (rule xrep_empty)
  show ?case
  proof (cases ch)
    case None
    then have "m_children n = None" "F4 = {}" using p(6) by (auto elim: no_kidsE)
    moreover from this have "n\<lparr>m_name := None, m_attrs := None, m_text := None\<rparr> = xml_default" by (simp add: xml_default_def)
    moreover have "local_step h F (xset a (X_node xml_default) ?h3) {a}"
      using p(1,7) \<open>F4 = {}\<close> below [of a] fr by (auto simp: local_step_def xfresh_def)
    ultimately show ?thesis using None clr empty [of "xcells (xset a (X_node xml_default) ?h3)"] t by (auto simp del: xml_clear.simps)
  next
    case (Some ts)
    obtain l as F5 where k: "m_children n = Some l" "F4 = insert l F5" "xcells h l = Some (X_list as)"
      "xreps (xcells h) as ts F5" "l \<notin> F5"
      using p(6) Some by (auto elim: some_kidsE)
    have l4: "xcells ?h4 l = Some (X_list as)" using k p by auto
    have r4: "xreps (xcells ?h4) as ts F5" by (rule rep_frame(3) [OF k(4)]) (use p k in auto)
    have f4: "xfresh ?h4" using fr below [of a] p(1) by (auto simp: xfresh_def)
    note all = clear_all [OF Suc.IH r4 f4]
    show ?thesis
    proof (cases "list_all (fits d) ts")
      case False
      then show ?thesis using all clr k(1) Some t by (simp add: xlist_at_rep [OF l4] del: xml_clear.simps)
    next
      case True
      then obtain h5 where h5: "for_each (xml_clear d) as ?h4 = Inr h5" "xreps (xcells h5) as (map (\<lambda>t. empty_tree) ts) (set as)"
        "local_step ?h4 F5 h5 (set as)" using all by auto
      have as: "set as \<subseteq> F5" using rep_dom(3) [OF k(4)] by auto
      have l5: "xcells h5 l = Some (X_list as)" using h5(3) l4 below [of l] k p(1) by (auto simp: local_step_def)
      have del: "xdelete_list l h5 = Inr (xdrop (insert l (set as)) h5)"
        by (rule xdelete_list_rep [OF l5 h5(2)]) (use as k(5) in auto)
      let ?h7 = "xset a (X_node xml_default) (xdrop (insert l (set as)) h5)"
      have step: "local_step h F ?h7 {a}"
        unfolding local_step_def
      proof (intro conjI allI impI)
        show "xnext h \<le> xnext ?h7" using h5(3) by (simp add: local_step_def)
        show "xfresh ?h7" using h5(3) below [of a] p(1) by (fastforce simp: local_step_def xfresh_def)
        show "{a} \<subseteq> F \<union> {xnext h ..< xnext ?h7}" using p(1) by simp
        show "xcells ?h7 x = xcells h x" if "x < xnext h" "x \<notin> F" for x
          using that p(1) k(2) as h5(3) by (auto simp: local_step_def)
        show "xcells ?h7 x = None" if x: "(x \<in> F \<or> xnext h \<le> x) \<and> x \<notin> {a}" for x
        proof (cases "x \<in> F5 \<or> xnext h \<le> x")
          case True
          then show ?thesis using x h5(3) by (auto simp: local_step_def)
        next
          case False
          then have "x \<in> F1 \<union> F2 \<union> F3 \<union> {l}" "x < xnext h" using x p(1) k(2) by auto
          then show ?thesis using x False h5(3) by (auto simp: local_step_def)
        qed
      qed
      have "xml_clear (Suc d) a h = Inr ?h7" using clr k(1) h5(1) del by (simp add: xlist_at_rep [OF l4] del: xml_clear.simps)
      then show ?thesis using True Some t step empty [of "xcells ?h7"] by (auto simp del: xml_clear.simps)
    qed
  qed
qed simp

lemma clear_acts: "xrep (xcells h) a t F \<Longrightarrow> xfresh h \<Longrightarrow> acts h a F (xml_clear d a h) (tree_clear d t)"
  using xml_clear_rep [of h a t F d] by (auto simp: acts_def tree_clear_def split: if_splits)

section \<open>Lists of children\<close>

definition tree_name :: "xtree \<Rightarrow> string" where
  "tree_name t = (case t_name t of None \<Rightarrow> [] | Some s \<Rightarrow> s)"

definition kids_of :: "xtree list option \<Rightarrow> xtree list" where
  "kids_of ch = (case ch of None \<Rightarrow> [] | Some ts \<Rightarrow> ts)"

definition xview :: "xheap \<Rightarrow> nat \<Rightarrow> string option \<Rightarrow> string option \<Rightarrow> (string \<times> string) list option \<Rightarrow> nat \<Rightarrow> nat list \<Rightarrow>
    xtree list \<Rightarrow> nat set \<Rightarrow> bool" where
  "xview h a nm tx at l as ts F \<longleftrightarrow> xfresh h \<and> xrep (xcells h) a (XTree nm tx at (Some ts)) F \<and>
     (\<exists>n. xcells h a = Some (X_node n) \<and> m_children n = Some l) \<and> xcells h l = Some (X_list as)"

lemma xviewI:
  assumes "xrep (xcells h) a (XTree nm tx at (Some ts)) F" "xfresh h"
  obtains n l as where "xcells h a = Some (X_node n)" "m_children n = Some l" "xview h a nm tx at l as ts F"
proof -
  from assms(1) obtain n F4 where n: "xcells h a = Some (X_node n)" "xkids (xcells h) (m_children n) (Some ts) F4"
    by (auto elim: xrepE)
  from n(2) obtain l as where "m_children n = Some l" "xcells h l = Some (X_list as)"
    by (auto elim: some_kidsE)
  then show ?thesis using that n assms by (auto simp: xview_def)
qed

lemma xview_child:
  assumes v: "xview h a nm tx at l as ts F" and i: "i < length ts"
  obtains Fc where "xrep (xcells h) (as ! i) (ts ! i) Fc" "Fc \<subseteq> F" "distinct as" "length as = length ts" "a \<notin> Fc" "l \<notin> Fc"
    "\<And>h' t' Fc'. local_step h Fc h' Fc' \<Longrightarrow> xrep (xcells h') (as ! i) t' Fc' \<Longrightarrow>
       xview h' a nm tx at l as (ts[i := t']) (F - Fc \<union> Fc') \<and> local_step h F h' (F - Fc \<union> Fc')"
proof -
  have v': "xfresh h" "xrep (xcells h) a (XTree nm tx at (Some ts)) F" using v by (auto simp: xview_def)
  obtain n l' as' Fc where c: "xcells h a = Some (X_node n)" "m_children n = Some l'" "xcells h l' = Some (X_list as')"
    "length as' = length ts" "xrep (xcells h) (as' ! i) (ts ! i) Fc" "Fc \<subseteq> F" "a \<notin> Fc" "l' \<notin> Fc" "distinct as'"
    "\<And>h' t' Fc'. local_step h Fc h' Fc' \<Longrightarrow> xrep (xcells h') (as' ! i) t' Fc' \<Longrightarrow>
       xrep (xcells h') a (XTree nm tx at (Some (ts[i := t']))) (F - Fc \<union> Fc') \<and> local_step h F h' (F - Fc \<union> Fc')"
    using xrep_child [OF v'(2,1) i] by blast
  have e: "l' = l" "as' = as" using v c(1-3) by (auto simp: xview_def)
  have al: "a < xnext h" "l < xnext h" using c(1,3) v'(1) e by (auto simp: xfresh_def not_less [symmetric])
  have "xview h' a nm tx at l as (ts[i := t']) (F - Fc \<union> Fc') \<and> local_step h F h' (F - Fc \<union> Fc')"
    if s: "local_step h Fc h' Fc'" "xrep (xcells h') (as ! i) t' Fc'" for h' t' Fc'
  proof -
    have "xcells h' a = xcells h a" "xcells h' l = xcells h l" using s(1) al c(7,8) e by (auto simp: local_step_def)
    moreover have "xfresh h'" using s(1) by (simp add: local_step_def)
    moreover have "xrep (xcells h') a (XTree nm tx at (Some (ts[i := t']))) (F - Fc \<union> Fc') \<and> local_step h F h' (F - Fc \<union> Fc')"
      by (rule c(10) [OF s(1)]) (use s(2) e in simp)
    ultimately show ?thesis using c(1-3) e unfolding xview_def by simp
  qed
  then show ?thesis using that [of Fc] c(4-9) unfolding e by simp
qed

lemma xview_reps:
  assumes "xview h a nm tx at l as ts F"
  obtains F' where "xreps (xcells h) as ts F'" "F' \<subseteq> F" "l \<notin> F'" "a \<notin> F'" "length as = length ts" "distinct as" "l \<in> F" "a \<in> F" "a \<noteq> l"
    "\<And>as' ts' G h'. xfresh h' \<Longrightarrow> xcells h' l = Some (X_list as') \<Longrightarrow> (\<And>x. x \<in> F - F' - {l} \<Longrightarrow> xcells h' x = xcells h x) \<Longrightarrow>
       xreps (xcells h') as' ts' G \<Longrightarrow> G \<inter> (F - F') = {} \<Longrightarrow> xview h' a nm tx at l as' ts' (F - F' \<union> G)"
proof -
  have v: "xrep (xcells h) a (XTree nm tx at (Some ts)) F" using assms by (simp add: xview_def)
  obtain n F1 F2 F3 F4 where p: "F = insert a (F1 \<union> F2 \<union> F3 \<union> F4)" "xcells h a = Some (X_node n)"
    "ptr_rep X_string (xcells h) (m_name n) nm F1" "ptr_rep X_string (xcells h) (m_text n) tx F2"
    "ptr_rep X_attrs (xcells h) (m_attrs n) at F3" "xkids (xcells h) (m_children n) (Some ts) F4"
    "a \<notin> F1 \<union> F2 \<union> F3 \<union> F4" "F1 \<inter> F2 = {}" "(F1 \<union> F2) \<inter> F3 = {}" "(F1 \<union> F2 \<union> F3) \<inter> F4 = {}"
    using v by (auto elim: xrepE)
  have nl: "m_children n = Some l" "xcells h l = Some (X_list as)" using assms p(2) unfolding xview_def by (elim conjE exE; simp)+
  obtain F5 where k: "F4 = insert l F5" "xreps (xcells h) as ts F5" "l \<notin> F5"
    using some_kidsD [of "xcells h" l ts F4 as] p(6) nl by auto
  have out: "F - F5 = insert a (F1 \<union> F2 \<union> F3 \<union> {l})" using p k by auto
  have step: "xview h' a nm tx at l as' ts' (F - F5 \<union> G)"
    if h': "xfresh h'" "xcells h' l = Some (X_list as')" "\<And>x. x \<in> F - F5 - {l} \<Longrightarrow> xcells h' x = xcells h x"
      and G: "xreps (xcells h') as' ts' G" "G \<inter> (F - F5) = {}" for as' ts' G h'
  proof -
    have same: "xcells h' x = xcells h x" if "x \<in> insert a (F1 \<union> F2 \<union> F3)" for x
      using h'(3) [of x] that out p k by auto
    have "xkids (xcells h') (m_children n) (Some ts') (insert l G)"
      unfolding nl(1) by (rule xrep_xkids_xreps.some_kids [where as = as']) (use h'(2) G out in auto)
    then have "xrep (xcells h') a (XTree nm tx at (Some ts')) (insert a (F1 \<union> F2 \<union> F3 \<union> insert l G))"
    proof (intro xrep_xkids_xreps.rep_node)
      show "xcells h' a = Some (X_node n)" using same p(2) by simp
      show "ptr_rep X_string (xcells h') (m_name n) nm F1" by (rule ptr_rep_frame [OF p(3)]) (use same in auto)
      show "ptr_rep X_string (xcells h') (m_text n) tx F2" by (rule ptr_rep_frame [OF p(4)]) (use same in auto)
      show "ptr_rep X_attrs (xcells h') (m_attrs n) at F3" by (rule ptr_rep_frame [OF p(5)]) (use same in auto)
    qed (use p(7-10) G out k in auto)
    moreover have "insert a (F1 \<union> F2 \<union> F3 \<union> insert l G) = F - F5 \<union> G" by (simp add: out Un_assoc)
    ultimately show ?thesis using h' same p(2) nl by (auto simp: xview_def)
  qed
  show ?thesis by (rule that [OF k(2) _ k(3) _ _ _ _ _ _ step]) (use p k rep_dom(3) [OF k(2)] in auto)
qed

lemma tree_name_rep: "xrep (xcells h) a t F \<Longrightarrow> xml_name a h = Inr (tree_name t)"
proof -
  assume rep: "xrep (xcells h) a t F"
  obtain nm tx at ch where t: "t = XTree nm tx at ch" by (cases t)
  obtain n F1 where n: "xcells h a = Some (X_node n)" "ptr_rep X_string (xcells h) (m_name n) nm F1"
    using rep unfolding t by (auto elim: xrepE)
  show ?thesis
    using n(2) by (auto simp: xml_name_def xnode_at_rep [OF n(1)] t tree_name_def ptr_rep_def xstring_at_def split: option.splits)
qed

lemma xview_below: "xview h a nm tx at l as ts F \<Longrightarrow> x \<in> F \<Longrightarrow> x < xnext h"
  unfolding xview_def using rep_below by blast

lemma xml_children_rep:
  assumes rep: "xrep (xcells h) a (XTree nm tx at ch) F" and fr: "xfresh h"
  obtains l h1 as F1 where "xml_children a h = Inr (l, h1)" "xview h1 a nm tx at l as (kids_of ch) F1" "local_step h F h1 F1"
    "xnext h \<le> xnext h1" "F \<subseteq> F1" "F1 - F \<subseteq> {xnext h ..}"
proof (cases ch)
  case (Some ts)
  obtain n l as where n: "xcells h a = Some (X_node n)" "m_children n = Some l" "xview h a nm tx at l as ts F"
    using xviewI rep fr Some by metis
  show ?thesis
    by (rule that [of l h as F]) (use n Some fr in \<open>auto simp: xml_children_def xnode_at_rep kids_of_def local_refl\<close>)
next
  case None
  obtain n F1 F2 F3 F4 where p: "F = insert a (F1 \<union> F2 \<union> F3 \<union> F4)" "xcells h a = Some (X_node n)"
    "ptr_rep X_string (xcells h) (m_name n) nm F1" "ptr_rep X_string (xcells h) (m_text n) tx F2"
    "ptr_rep X_attrs (xcells h) (m_attrs n) at F3" "xkids (xcells h) (m_children n) ch F4"
    "a \<notin> F1 \<union> F2 \<union> F3 \<union> F4" "F1 \<inter> F2 = {}" "(F1 \<union> F2) \<inter> F3 = {}" "(F1 \<union> F2 \<union> F3) \<inter> F4 = {}"
    using rep by (auto elim: xrepE)
  have f4: "F4 = {}" "m_children n = None" using p(6) None by (auto elim: no_kidsE)
  have below: "x \<in> F \<Longrightarrow> x < xnext h" for x by (rule rep_below [OF rep fr])
  let ?k = "xnext h"
  let ?h = "xset a (X_node (n\<lparr>m_children := Some ?k\<rparr>)) ((xset ?k (X_list []) h)\<lparr>xnext := Suc ?k\<rparr>)"
  have new: "?k \<notin> F" using below by blast
  have same: "xcells ?h x = xcells h x" if "x \<in> F1 \<union> F2 \<union> F3" for x using that p new by auto
  have "xrep (xcells ?h) a (XTree nm tx at (Some [])) (insert a (F1 \<union> F2 \<union> F3 \<union> {?k}))"
  proof (rule xrep_xkids_xreps.rep_node)
    show "ptr_rep X_string (xcells ?h) (m_name (n\<lparr>m_children := Some ?k\<rparr>)) nm F1" using ptr_rep_frame [OF p(3)] same by simp
    show "ptr_rep X_string (xcells ?h) (m_text (n\<lparr>m_children := Some ?k\<rparr>)) tx F2" using ptr_rep_frame [OF p(4)] same by simp
    show "ptr_rep X_attrs (xcells ?h) (m_attrs (n\<lparr>m_children := Some ?k\<rparr>)) at F3" using ptr_rep_frame [OF p(5)] same by simp
    have "xkids (xcells ?h) (Some ?k) (Some []) (insert ?k {})"
      by (rule xrep_xkids_xreps.some_kids [where as = "[]"]) (use new p(1) in \<open>auto intro: xrep_xkids_xreps.reps_nil\<close>)
    then show "xkids (xcells ?h) (m_children (n\<lparr>m_children := Some ?k\<rparr>)) (Some []) {?k}" by simp
  qed (use p(1,7-10) new in auto)
  moreover have fr': "xfresh ?h" using fr below [of a] p(1) by (auto simp: xfresh_def)
  ultimately have "xview ?h a nm tx at ?k [] [] (insert a (F1 \<union> F2 \<union> F3 \<union> {?k}))"
    using new p(1) unfolding xview_def by auto
  moreover have "local_step h F ?h (insert a (F1 \<union> F2 \<union> F3 \<union> {?k}))"
    using p(1) f4(1) new fr' fr below [of a] by (auto simp: local_step_def xfresh_def)
  moreover have "xml_children a h = Inr (?k, ?h)" using f4(2) by (simp add: xml_children_def xnode_at_rep [OF p(2)] xnew_eq)
  ultimately show ?thesis using that [of ?k ?h "[]"] None p(1) f4(1) by (auto simp: kids_of_def)
qed

lemma xml_copy_id [simp]: "xml_copy n = n"
  by (simp add: xml_copy_def)

text \<open>\<^verbatim>\<open>push_back\<close> of an element with the members \<open>p\<close>, which are the tree \<open>t\<close> in the cells \<open>P\<close>.\<close>

lemma xpush_back_rep:
  assumes v: "xview h a nm tx at l as ts F"
    and t: "\<And>H c. (\<forall>x \<in> P. H x = xcells h x) \<Longrightarrow> H c = Some (X_node p) \<Longrightarrow> c \<notin> P \<Longrightarrow> xrep H c t (insert c P)"
    and P: "P \<inter> F = {}" "\<And>x. x \<in> P \<Longrightarrow> x < xnext h"
  obtains h' where "xpush_back l p h = Inr (xnext h, h')" "xview h' a nm tx at l (as @ [xnext h]) (ts @ [t]) (insert (xnext h) (F \<union> P))"
    "local_step h (F \<union> P) h' (insert (xnext h) (F \<union> P))" "xnext h' = Suc (xnext h)"
    "\<And>x. x \<noteq> l \<Longrightarrow> x \<noteq> xnext h \<Longrightarrow> xcells h' x = xcells h x" "xcells h' (xnext h) = Some (X_node p)"
proof -
  let ?c = "xnext h"
  let ?h = "xset l (X_list (as @ [?c])) ((xset ?c (X_node p) h)\<lparr>xnext := Suc ?c\<rparr>)"
  have below: "x \<in> F \<Longrightarrow> x < xnext h" for x by (rule xview_below [OF v])
  have fr: "xfresh h" and l: "xcells h l = Some (X_list as)" using v by (simp_all add: xview_def)
  obtain G where g: "xreps (xcells h) as ts G" "G \<subseteq> F" "l \<notin> G" "a \<notin> G" "length as = length ts" "distinct as" "l \<in> F" "a \<in> F" "a \<noteq> l"
    "\<And>as' ts' K h'. xfresh h' \<Longrightarrow> xcells h' l = Some (X_list as') \<Longrightarrow> (\<And>x. x \<in> F - G - {l} \<Longrightarrow> xcells h' x = xcells h x) \<Longrightarrow>
       xreps (xcells h') as' ts' K \<Longrightarrow> K \<inter> (F - G) = {} \<Longrightarrow> xview h' a nm tx at l as' ts' (F - G \<union> K)"
    by (rule xview_reps [OF v]) blast
  have c: "?c \<notin> F" "?c \<notin> P" "?c \<noteq> l" using below P(2) g(7) by blast+
  have "xrep (xcells ?h) ?c t (insert ?c P)" by (rule t) (use c P(1) g(7) in auto)
  then have one: "xreps (xcells ?h) [?c] [t] (insert ?c P)"
    using xrep_xkids_xreps.reps_cons [OF _ xrep_xkids_xreps.reps_nil] by fastforce
  have "xreps (xcells ?h) as ts G" by (rule rep_frame(3) [OF g(1)]) (use c g in auto)
  then have "xreps (xcells ?h) (as @ [?c]) (ts @ [t]) (G \<union> insert ?c P)"
    by (rule xreps_append [OF _ one]) (use c P(1) g in auto)
  moreover have fr': "xfresh ?h" using fr below [OF g(7)] by (auto simp: xfresh_def)
  ultimately have "xview ?h a nm tx at l (as @ [?c]) (ts @ [t]) (F - G \<union> (G \<union> insert ?c P))"
    by (intro g(10)) (use c P(1) below in auto)
  moreover have "F - G \<union> (G \<union> insert ?c P) = insert ?c (F \<union> P)" using g(2) by auto
  moreover have "local_step h (F \<union> P) ?h (insert ?c (F \<union> P))"
    using fr' fr g(7) by (auto simp: local_step_def xfresh_def)
  moreover have "xpush_back l p h = Inr (?c, ?h)" by (simp add: xpush_back_def xlist_at_rep [OF l] xnew_eq)
  ultimately show ?thesis by (intro that [of ?h]) (use c(3) in auto)
qed

lemma push_empty_rep:
  "xview h a nm tx at l as ts F \<Longrightarrow>
    \<exists>h' as' F'. push_empty k l h = Inr h' \<and> xview h' a nm tx at l (as @ as') (ts @ replicate k empty_tree) F' \<and> local_step h F h' F'"
proof (induction k arbitrary: h as ts F)
  case 0
  then have "xfresh h" by (simp add: xview_def)
  then show ?case using 0 local_refl by (intro exI [of _ h] exI [of _ "[]"] exI [of _ F]) simp
next
  case (Suc k)
  obtain h1 where h1: "xpush_back l xml_default h = Inr (xnext h, h1)"
    "xview h1 a nm tx at l (as @ [xnext h]) (ts @ [empty_tree]) (insert (xnext h) F)" "local_step h F h1 (insert (xnext h) F)"
    by (rule xpush_back_rep [OF Suc.prems, of "{}" xml_default empty_tree]) (auto intro: xrep_empty)
  obtain h' as' F' where h': "push_empty k l h1 = Inr h'"
    "xview h' a nm tx at l ((as @ [xnext h]) @ as') ((ts @ [empty_tree]) @ replicate k empty_tree) F'"
    "local_step h1 (insert (xnext h) F) h' F'"
    using Suc.IH [OF h1(2)] by blast
  then show ?case using h1(1) local_trans [OF h1(3) h'(3)] by (intro exI [of _ h'] exI [of _ "xnext h # as'"] exI [of _ F']) simp
qed

definition tree_find :: "string \<Rightarrow> xtree list \<Rightarrow> nat" where
  "tree_find s ts = length (takeWhile (\<lambda>t. tree_name t \<noteq> s) ts)"

lemma find_named_rep:
  "xreps (xcells h) as ts F \<Longrightarrow> find_named s as h = Inr (if tree_find s ts < length ts then Some (as ! tree_find s ts) else None)"
proof (induction as arbitrary: ts F)
  case Nil
  then show ?case by (auto elim: reps_nilE)
next
  case (Cons a as)
  from Cons.prems(1) obtain t ts' F1 F2 where *: "ts = t # ts'" "xrep (xcells h) a t F1" "xreps (xcells h) as ts' F2"
    by (auto elim: reps_consE)
  show ?case using Cons.IH [OF *(3)] tree_name_rep [OF *(2)] by (auto simp: *(1) tree_find_def)
qed

lemma xml_at_rep:
  assumes rep: "xrep (xcells h) a (XTree nm tx at ch) F" and fr: "xfresh h" and i: "0 \<le> index"
  obtains l h1 as F1 where "xml_at a index h = Inr (as ! nat index, h1)"
    "xview h1 a nm tx at l as (kids_of ch @ replicate (nat index + 1 - length (kids_of ch)) empty_tree) F1" "local_step h F h1 F1"
proof -
  obtain l h1 as F1 where c: "xml_children a h = Inr (l, h1)" "xview h1 a nm tx at l as (kids_of ch) F1" "local_step h F h1 F1"
    using xml_children_rep [OF rep fr] by metis
  have l: "xlist_at l h1 = Inr as" using c(2) by (simp add: xview_def xlist_at_rep)
  have len: "length as = length (kids_of ch)" using xview_reps [OF c(2)] by metis
  show ?thesis
  proof (cases "nat index < length as")
    case True
    then show ?thesis using that [of as h1 l F1] c l len i by (simp add: xml_at_def)
  next
    case False
    obtain h2 as' F2 where p: "push_empty (nat index + 1 - length as) l h1 = Inr h2"
      "xview h2 a nm tx at l (as @ as') (kids_of ch @ replicate (nat index + 1 - length as) empty_tree) F2" "local_step h1 F1 h2 F2"
      using push_empty_rep [OF c(2)] by blast
    have l2: "xlist_at l h2 = Inr (as @ as')" using p(2) by (simp add: xview_def xlist_at_rep)
    have len2: "length (as @ as') = length (kids_of ch @ replicate (nat index + 1 - length as) empty_tree)"
      using xview_reps [OF p(2)] by metis
    then have "length (as @ as') = Suc (nat index)" using False len by simp
    moreover from this have "as @ as' \<noteq> []" by (metis length_0_conv nat.distinct(1))
    ultimately have "List.last (as @ as') = (as @ as') ! nat index" by (metis diff_Suc_1 last_conv_nth)
    then have "xml_at a index h = Inr ((as @ as') ! nat index, h2)"
      using c(1) l p(1) l2 False i by (simp add: xml_at_def)
    then show ?thesis using that [of "as @ as'" h2 l F2] p(2) len local_trans [OF c(3) p(3)] by simp
  qed
qed

definition named_tree :: "string \<Rightarrow> xtree" where
  "named_tree s = XTree (Some s) None None None"

lemma rep_named: "H c = Some (X_node (xml_default\<lparr>m_name := Some k\<rparr>)) \<Longrightarrow> H k = Some (X_string s) \<Longrightarrow> c \<noteq> k \<Longrightarrow> xrep H c (named_tree s) {c, k}"
proof -
  assume H: "H c = Some (X_node (xml_default\<lparr>m_name := Some k\<rparr>))" "H k = Some (X_string s)" "c \<noteq> k"
  have "xrep H c (XTree (Some s) None None None) (insert c ({k} \<union> {} \<union> {} \<union> {}))"
    by (rule xrep_xkids_xreps.rep_node [where n = "xml_default\<lparr>m_name := Some k\<rparr>"])
      (use H in \<open>simp_all add: xml_default_def ptr_rep_def xrep_xkids_xreps.no_kids\<close>)
  then show ?thesis by (simp add: named_tree_def)
qed

lemma xml_at_name_rep:
  assumes rep: "xrep (xcells h) a (XTree nm tx at ch) F" and fr: "xfresh h"
  obtains l h1 as F1 where "xml_at_name a s h = Inr (as ! tree_find s (kids_of ch), h1)"
    "xview h1 a nm tx at l as (if tree_find s (kids_of ch) < length (kids_of ch) then kids_of ch else kids_of ch @ [named_tree s]) F1"
    "local_step h F h1 F1"
proof -
  obtain l h1 as F1 where c: "xml_children a h = Inr (l, h1)" "xview h1 a nm tx at l as (kids_of ch) F1" "local_step h F h1 F1"
    using xml_children_rep [OF rep fr] by metis
  have l: "xlist_at l h1 = Inr as" using c(2) by (simp add: xview_def xlist_at_rep)
  obtain G where g: "xreps (xcells h1) as (kids_of ch) G" "length as = length (kids_of ch)" using xview_reps [OF c(2)] by metis
  note f = find_named_rep [OF g(1), of s]
  have le: "tree_find s (kids_of ch) \<le> length (kids_of ch)" by (simp add: tree_find_def length_takeWhile_le)
  show ?thesis
  proof (cases "tree_find s (kids_of ch) < length (kids_of ch)")
    case True
    then show ?thesis using that [of as h1 l F1] c l f by (simp add: xml_at_name_def)
  next
    case False
    let ?k = "xnext h1" and ?h2 = "(xset (xnext h1) (X_string s) h1)\<lparr>xnext := Suc (xnext h1)\<rparr>"
    have fr1: "xfresh h1" and below: "\<And>x. x \<in> F1 \<Longrightarrow> x < ?k" using c(2) xview_below [OF c(2)] by (auto simp: xview_def)
    have same: "xcells ?h2 x = xcells h1 x" if "x \<in> F1" for x using below [OF that] by auto
    have "xview ?h2 a nm tx at l as (kids_of ch) F1"
    proof -
      have al: "a \<in> F1" "l \<in> F1" using xview_reps [OF c(2)] by metis+
      have "xrep (xcells h1) a (XTree nm tx at (Some (kids_of ch))) F1" using c(2) by (simp add: xview_def)
      then have "xrep (xcells ?h2) a (XTree nm tx at (Some (kids_of ch))) F1" by (rule rep_frame(1)) (rule same)
      moreover have "xfresh ?h2" using fr1 by (auto simp: xfresh_def)
      ultimately show ?thesis using c(2) same [OF al(1)] same [OF al(2)] unfolding xview_def by simp
    qed
    then obtain h3 where h3: "xpush_back l (xml_default\<lparr>m_name := Some ?k\<rparr>) ?h2 = Inr (xnext ?h2, h3)"
      "xview h3 a nm tx at l (as @ [xnext ?h2]) (kids_of ch @ [named_tree s]) (insert (xnext ?h2) (F1 \<union> {?k}))"
      "local_step ?h2 (F1 \<union> {?k}) h3 (insert (xnext ?h2) (F1 \<union> {?k}))"
      by (rule xpush_back_rep [where P = "{?k}" and p = "xml_default\<lparr>m_name := Some ?k\<rparr>" and t = "named_tree s"])
        (use below in \<open>auto intro!: rep_named\<close>)
    have "local_step h1 F1 ?h2 (F1 \<union> {?k})" using fr1 by (auto simp: local_step_def xfresh_def)
    then have step: "local_step h F h3 (insert (xnext ?h2) (F1 \<union> {?k}))" using c(3) h3(3) local_trans by blast
    have "xml_at_name a s h = Inr (xnext ?h2, h3)"
      using c(1) l f False h3(1) by (simp add: xml_at_name_def xml_named_def xnew_eq)
    moreover have "(as @ [xnext ?h2]) ! tree_find s (kids_of ch) = xnext ?h2" using False le g(2) by (simp add: nth_append)
    ultimately show ?thesis using that [of "as @ [xnext ?h2]" h3 l] h3(2) step False by simp
  qed
qed

lemma rep_move:
  assumes rep: "xrep H a t F" and c: "H' c = H a" "c \<notin> F - {a}" and same: "\<And>x. x \<in> F - {a} \<Longrightarrow> H' x = H x"
  shows "xrep H' c t (insert c (F - {a}))"
proof -
  obtain nm tx at ch where t: "t = XTree nm tx at ch" by (cases t)
  obtain n F1 F2 F3 F4 where p: "F = insert a (F1 \<union> F2 \<union> F3 \<union> F4)" "H a = Some (X_node n)"
    "ptr_rep X_string H (m_name n) nm F1" "ptr_rep X_string H (m_text n) tx F2"
    "ptr_rep X_attrs H (m_attrs n) at F3" "xkids H (m_children n) ch F4"
    "a \<notin> F1 \<union> F2 \<union> F3 \<union> F4" "F1 \<inter> F2 = {}" "(F1 \<union> F2) \<inter> F3 = {}" "(F1 \<union> F2 \<union> F3) \<inter> F4 = {}"
    using rep unfolding t by (auto elim: xrepE)
  have F: "F - {a} = F1 \<union> F2 \<union> F3 \<union> F4" using p(1,7) by auto
  have "xrep H' c (XTree nm tx at ch) (insert c (F1 \<union> F2 \<union> F3 \<union> F4))"
  proof (rule xrep_xkids_xreps.rep_node)
    show "ptr_rep X_string H' (m_name n) nm F1" by (rule ptr_rep_frame [OF p(3)]) (use same F in auto)
    show "ptr_rep X_string H' (m_text n) tx F2" by (rule ptr_rep_frame [OF p(4)]) (use same F in auto)
    show "ptr_rep X_attrs H' (m_attrs n) at F3" by (rule ptr_rep_frame [OF p(5)]) (use same F in auto)
    show "xkids H' (m_children n) ch F4" by (rule rep_frame(2) [OF p(6)]) (use same F in auto)
  qed (use c p(2,8-10) F in auto)
  then show ?thesis using F t by simp
qed

lemma local_frame:
  assumes "local_step h F h1 F1" "P \<inter> F = {}" "\<And>x. x \<in> F \<union> P \<Longrightarrow> x < xnext h"
  shows "local_step h (F \<union> P) h1 (F1 \<union> P)"
proof -
  have "local_step h1 P h1 P" using assms(1) by (intro local_refl) (simp add: local_step_def)
  then show ?thesis using local_par [OF assms(1)] assms(2,3) by (simp add: Int_commute)
qed

lemma append_rep:
  assumes rep: "xrep (xcells h) a (XTree nm tx at ch) F" and fr: "xfresh h"
    and child: "xrep (xcells h) v t Fc" "F \<inter> Fc = {}"
  obtains h' F' where "xml_append a v h = Inr h'" "xrep (xcells h') a (XTree nm tx at (Some (kids_of ch @ [t]))) F'"
    "local_step h (F \<union> (Fc - {v})) h' F'" "v \<notin> F'" "xcells h' v = xcells h v"
    "\<exists>l as. xview h' a nm tx at l as (kids_of ch @ [t]) F' \<and> xcells h' (as ! length (kids_of ch)) = xcells h v"
proof -
  let ?P = "Fc - {v}"
  obtain l h1 as F1 where c: "xml_children a h = Inr (l, h1)" "xview h1 a nm tx at l as (kids_of ch) F1" "local_step h F h1 F1"
    using xml_children_rep [OF rep fr] by metis
  obtain n where n: "xcells h v = Some (X_node n)" using child(1) by (cases t) (auto elim: xrepE)
  have below: "x < xnext h" if "x \<in> F \<union> Fc" for x using rep_below [OF rep fr] rep_below [OF child(1) fr] that by blast
  have v: "v \<in> Fc" using rep_dom(1) [OF child(1)] by blast
  have same: "xcells h1 x = xcells h x" if "x \<in> Fc" for x using c(3) below child(2) that by (auto simp: local_step_def)
  have PF: "Fc \<inter> F1 = {}" using c(3) below child(2) by (fastforce simp: local_step_def)
  have nx: "xnext h \<le> xnext h1" using c(3) by (simp add: local_step_def)
  obtain h2 where h2: "xpush_back l n h1 = Inr (xnext h1, h2)"
    "xview h2 a nm tx at l (as @ [xnext h1]) (kids_of ch @ [t]) (insert (xnext h1) (F1 \<union> ?P))"
    "local_step h1 (F1 \<union> ?P) h2 (insert (xnext h1) (F1 \<union> ?P))" "\<And>x. x \<noteq> l \<Longrightarrow> x \<noteq> xnext h1 \<Longrightarrow> xcells h2 x = xcells h1 x"
    "xcells h2 (xnext h1) = Some (X_node n)"
  proof (rule xpush_back_rep [OF c(2), of ?P n t])
    show "xrep H c t (insert c ?P)" if "\<forall>x \<in> ?P. H x = xcells h1 x" "H c = Some (X_node n)" "c \<notin> ?P" for H c
      by (rule rep_move [OF child(1)]) (use that n same in auto)
    show "?P \<inter> F1 = {}" using PF by auto
    show "x < xnext h1" if "x \<in> ?P" for x using that below [of x] nx by auto
  qed blast
  have l: "l \<in> F1" using xview_reps [OF c(2)] by metis
  have "local_step h (F \<union> ?P) h1 (F1 \<union> ?P)" by (rule local_frame [OF c(3)]) (use below child(2) in auto)
  then have "local_step h (F \<union> ?P) h2 (insert (xnext h1) (F1 \<union> ?P))" using h2(3) local_trans by blast
  moreover have "xml_append a v h = Inr h2"
    using c(1) n same [OF v] h2(1) by (simp add: xml_append_def xnode_at_def)
  moreover have v': "v \<notin> insert (xnext h1) (F1 \<union> ?P)" using v PF below [of v] nx by auto
  moreover have "xcells h2 v = xcells h v" using h2(4) [of v] same [OF v] v' l PF v by auto
  moreover have "xrep (xcells h2) a (XTree nm tx at (Some (kids_of ch @ [t]))) (insert (xnext h1) (F1 \<union> ?P))"
    using h2(2) by (simp add: xview_def)
  moreover have "length as = length (kids_of ch)" using xview_reps [OF c(2)] by metis
  then have "(as @ [xnext h1]) ! length (kids_of ch) = xnext h1" by (simp add: nth_append)
  moreover have "xcells h2 (xnext h1) = xcells h v" using h2(5) n by simp
  ultimately show ?thesis
    by (intro that [of h2 "insert (xnext h1) (F1 \<union> ?P)"]) (use h2(2) in \<open>auto simp: xview_def\<close>)
qed

definition del_nth :: "nat \<Rightarrow> 'a list \<Rightarrow> 'a list" where
  "del_nth i xs = take i xs @ drop (Suc i) xs"

lemma del_nth_Cons [simp]: "del_nth 0 (x # xs) = xs" "del_nth (Suc i) (x # xs) = x # del_nth i xs"
  by (simp_all add: del_nth_def)

lemma remove1_nth: "distinct xs \<Longrightarrow> i < length xs \<Longrightarrow> remove1 (xs ! i) xs = del_nth i xs"
proof (induction xs arbitrary: i)
  case (Cons x xs)
  then show ?case by (cases i) auto
qed simp

lemma xreps_del:
  "xreps H as ts F \<Longrightarrow> i < length ts \<Longrightarrow>
    \<exists>Fc G. xrep H (as ! i) (ts ! i) Fc \<and> F = G \<union> Fc \<and> G \<inter> Fc = {} \<and> xreps H (del_nth i as) (del_nth i ts) G"
proof (induction as arbitrary: ts F i)
  case Nil
  then show ?case by (auto elim: reps_nilE)
next
  case (Cons a as)
  from Cons.prems(1) obtain t ts' F1 F2 where *: "ts = t # ts'" "F = F1 \<union> F2" "xrep H a t F1" "xreps H as ts' F2" "F1 \<inter> F2 = {}"
    by (auto elim: reps_consE)
  show ?case
  proof (cases i)
    case 0
    then show ?thesis using * by (intro exI [of _ F1] exI [of _ F2]) auto
  next
    case (Suc k)
    then obtain Fc G where g: "xrep H (as ! k) (ts' ! k) Fc" "F2 = G \<union> Fc" "G \<inter> Fc = {}" "xreps H (del_nth k as) (del_nth k ts') G"
      using Cons.IH [OF *(4), of k] Cons.prems(2) *(1) by auto
    have "xreps H (a # del_nth k as) (t # del_nth k ts') (F1 \<union> G)"
      by (rule xrep_xkids_xreps.reps_cons [OF *(3) g(4)]) (use *(5) g(2) in auto)
    then show ?thesis using * g Suc by (intro exI [of _ Fc] exI [of _ "F1 \<union> G"]) auto
  qed
qed

lemma rep_empty_foot: "xrep H a empty_tree F \<Longrightarrow> F = {a}"
  unfolding empty_tree_def by (auto elim!: xrepE no_kidsE simp: ptr_rep_def split: option.splits)

lemma clear_and_erase_rep:
  assumes v: "xview h a nm tx at l as ts F" and i: "i < length ts"
  shows "if fits d (ts ! i) then \<exists>h' F'. clear_and_erase d l (as ! i) h = Inr h' \<and>
      xview h' a nm tx at l (del_nth i as) (del_nth i ts) F' \<and> local_step h F h' F'
    else clear_and_erase d l (as ! i) h = Inl (Exit_With ''stack overflow'')"
proof -
  obtain Fc where c: "xrep (xcells h) (as ! i) (ts ! i) Fc" "Fc \<subseteq> F" "distinct as" "length as = length ts" "a \<notin> Fc" "l \<notin> Fc"
    "\<And>h' t' Fc'. local_step h Fc h' Fc' \<Longrightarrow> xrep (xcells h') (as ! i) t' Fc' \<Longrightarrow>
       xview h' a nm tx at l as (ts[i := t']) (F - Fc \<union> Fc') \<and> local_step h F h' (F - Fc \<union> Fc')"
    by (rule xview_child [OF v i]) blast
  have fr: "xfresh h" using v by (simp add: xview_def)
  show ?thesis
  proof (cases "fits d (ts ! i)")
    case False
    then show ?thesis using xml_clear_rep [OF c(1) fr, of d] by (simp add: clear_and_erase_def)
  next
    case True
    let ?c = "as ! i"
    obtain h1 where h1: "xml_clear d ?c h = Inr h1" "xrep (xcells h1) ?c empty_tree {?c}" "local_step h Fc h1 {?c}"
      using xml_clear_rep [OF c(1) fr, of d] True by auto
    let ?F1 = "F - Fc \<union> {?c}"
    have v1: "xview h1 a nm tx at l as (ts[i := empty_tree]) ?F1" and s1: "local_step h F h1 ?F1" using c(7) [OF h1(3,2)] by auto
    obtain G where g: "xreps (xcells h1) as (ts[i := empty_tree]) G" "G \<subseteq> ?F1" "l \<notin> G" "a \<notin> G" "length as = length (ts[i := empty_tree])"
      "distinct as" "l \<in> ?F1" "a \<in> ?F1" "a \<noteq> l"
      "\<And>as' ts' K h'. xfresh h' \<Longrightarrow> xcells h' l = Some (X_list as') \<Longrightarrow> (\<And>x. x \<in> ?F1 - G - {l} \<Longrightarrow> xcells h' x = xcells h1 x) \<Longrightarrow>
       xreps (xcells h') as' ts' K \<Longrightarrow> K \<inter> (?F1 - G) = {} \<Longrightarrow> xview h' a nm tx at l as' ts' (?F1 - G \<union> K)"
      by (rule xview_reps [OF v1]) blast
    obtain Fe K where k: "xrep (xcells h1) ?c empty_tree Fe" "G = K \<union> Fe" "K \<inter> Fe = {}"
      "xreps (xcells h1) (del_nth i as) (del_nth i (ts[i := empty_tree])) K"
      using xreps_del [OF g(1), of i] i by auto
    have Fe: "Fe = {?c}" by (rule rep_empty_foot [OF k(1)])
    let ?h = "xset l (X_list (del_nth i as)) (xdrop {?c} h1)"
    have fr1: "xfresh h1" and l1: "xcells h1 l = Some (X_list as)" using v1 by (simp_all add: xview_def)
    have below: "x < xnext h1" if "x \<in> ?F1" for x by (rule xview_below [OF v1 that])
    have "xreps (xcells ?h) (del_nth i as) (del_nth i (ts[i := empty_tree])) K"
      by (rule rep_frame(3) [OF k(4)]) (use k(2,3) Fe g(3) in auto)
    moreover have fr': "xfresh ?h" using fr1 below [OF g(7)] by (auto simp: xfresh_def)
    ultimately have "xview ?h a nm tx at l (del_nth i as) (del_nth i (ts[i := empty_tree])) (?F1 - G \<union> K)"
      by (intro g(10)) (use k(2) Fe in auto)
    moreover have "del_nth i (ts[i := empty_tree]) = del_nth i ts" by (simp add: del_nth_def)
    moreover have "local_step h1 ?F1 ?h (?F1 - G \<union> K)"
      using fr' fr1 g(2,3,7) k(2,3) Fe below by (auto simp: local_step_def xfresh_def)
    moreover have "clear_and_erase d l ?c h = Inr ?h"
    proof -
      have "xdelete ?c h1 = Inr (xdrop {?c} h1)"
        using rep_dom(1) [OF h1(2)] by (cases h1) (auto simp: xdelete_def xdrop_def fun_eq_iff)
      then show ?thesis
        using i g(6) c(4) by (simp add: clear_and_erase_def h1(1) xlist_at_rep [OF l1] remove1_nth)
    qed
    ultimately show ?thesis using True local_trans [OF s1, of ?h "?F1 - G \<union> K"] by auto
  qed
qed

definition tree_removable :: "nat \<Rightarrow> string \<Rightarrow> xtree list \<Rightarrow> bool" where
  "tree_removable d s ts \<longleftrightarrow> list_all (\<lambda>t. tree_name t = s \<longrightarrow> fits d t) ts"

lemma remove_named_rep:
  "xview h a nm tx at l (bs @ as) (us @ ts) F \<Longrightarrow> length bs = length us \<Longrightarrow>
   if tree_removable d s ts then \<exists>h' as' F'. remove_named d l s as h = Inr h' \<and>
      xview h' a nm tx at l (bs @ as') (us @ filter (\<lambda>t. tree_name t \<noteq> s) ts) F' \<and> local_step h F h' F'
   else remove_named d l s as h = Inl (Exit_With ''stack overflow'')"
proof (induction as arbitrary: h bs us ts F)
  case Nil
  have "length (bs @ []) = length (us @ ts)" using xview_reps [OF Nil(1)] by metis
  then have "ts = []" using Nil(2) by simp
  moreover have "xfresh h" using Nil(1) by (simp add: xview_def)
  ultimately show ?case
    using Nil local_refl [of h F] by (auto simp: tree_removable_def intro!: exI [of _ "[]"] exI [of _ F])
next
  case (Cons c cs)
  have len: "length (bs @ c # cs) = length (us @ ts)" using xview_reps [OF Cons.prems(1)] by metis
  then obtain t ts' where ts: "ts = t # ts'" using Cons.prems(2) by (cases ts) auto
  have "length us < length (us @ ts)" using ts by simp
  then obtain Fc where c: "xrep (xcells h) ((bs @ c # cs) ! length us) ((us @ ts) ! length us) Fc"
    by (rule xview_child [OF Cons.prems(1)])
  then have nm: "xml_name c h = Inr (tree_name t)" using tree_name_rep Cons.prems(2) ts by (auto simp: nth_append)
  show ?case
  proof (cases "tree_name t = s")
    case False
    have "xview h a nm tx at l ((bs @ [c]) @ cs) ((us @ [t]) @ ts') F" using Cons.prems(1) ts by simp
    from Cons.IH [OF this] show ?thesis using False nm Cons.prems(2) ts by (auto simp: tree_removable_def) blast
  next
    case eq: True
    have e: "(bs @ c # cs) ! length us = c" "(us @ ts) ! length us = t" "del_nth (length us) (bs @ c # cs) = bs @ cs"
      "del_nth (length us) (us @ ts) = us @ ts'"
      using Cons.prems(2) ts by (simp_all add: nth_append del_nth_def)
    note ce = clear_and_erase_rep [OF Cons.prems(1), of "length us" d, unfolded e]
    show ?thesis
    proof (cases "fits d t")
      case False
      then show ?thesis using ce ts eq nm by (simp add: tree_removable_def)
    next
      case True
      then obtain h1 F1 where h1: "clear_and_erase d l c h = Inr h1" "xview h1 a nm tx at l (bs @ cs) (us @ ts') F1" "local_step h F h1 F1"
        using ce ts by auto
      show ?thesis
        using Cons.IH [OF h1(2) Cons.prems(2)] h1(1) nm eq ts True local_trans [OF h1(3)] by (auto simp: tree_removable_def) blast
    qed
  qed
qed

section \<open>Scripts\<close>

text \<open>What a program does to an element and to its children through the references it gets.  \<open>Append_New\<close>
  builds a child in a variable of its own, appends it, and leaves the scope of the variable.\<close>

datatype xop = Set_Name string | Set_Text string | Set_Attr string string | Append_New string "xop list"
  | In_Child int "xop list" | In_Named string "xop list" | Remove_At int | Remove_Named string | Clear

fun xml_op :: "nat \<Rightarrow> xop \<Rightarrow> nat \<Rightarrow> xheap \<Rightarrow> xheap result"
  and xml_ops :: "nat \<Rightarrow> xop list \<Rightarrow> nat \<Rightarrow> xheap \<Rightarrow> xheap result" where
  "xml_op d (Set_Name s) a h = xml_setName a s h"
| "xml_op d (Set_Text s) a h = xml_setText a s h"
| "xml_op d (Set_Attr k v) a h = xml_setAttr a k v h"
| "xml_op d (Append_New s ops) a h = (case xml_named s h of (n, h1) \<Rightarrow> (case xnew (X_node n) h1 of (v, h2) \<Rightarrow>
     rbind (xml_ops d ops v h2) (\<lambda>h3. rbind (xml_append a v h3) (xdelete v))))"
| "xml_op d (In_Child i ops) a h = rbind (xml_at a i h) (\<lambda>(c, h1). xml_ops d ops c h1)"
| "xml_op d (In_Named s ops) a h = rbind (xml_at_name a s h) (\<lambda>(c, h1). xml_ops d ops c h1)"
| "xml_op d (Remove_At i) a h = xml_remove d a i h"
| "xml_op d (Remove_Named s) a h = xml_remove_name d a s h"
| "xml_op d Clear a h = xml_clear d a h"
| "xml_ops d [] a h = Inr h"
| "xml_ops d (x # xs) a h = rbind (xml_op d x a h) (xml_ops d xs a)"

fun tree_op :: "nat \<Rightarrow> xop \<Rightarrow> xtree \<Rightarrow> xtree result"
  and tree_ops :: "nat \<Rightarrow> xop list \<Rightarrow> xtree \<Rightarrow> xtree result" where
  "tree_op d (Set_Name s) (XTree nm tx at ch) = Inr (XTree (Some s) tx at ch)"
| "tree_op d (Set_Text s) (XTree nm tx at ch) = Inr (XTree nm (Some s) at ch)"
| "tree_op d (Set_Attr k v) (XTree nm tx at ch) = Inr (XTree nm tx (Some (tree_set_attr k v at)) ch)"
| "tree_op d (Append_New s ops) (XTree nm tx at ch) =
     rbind (tree_ops d ops (named_tree s)) (\<lambda>t. Inr (XTree nm tx at (Some (kids_of ch @ [t]))))"
| "tree_op d (In_Child i ops) (XTree nm tx at ch) = (if i < 0 then Inl Logic_Error else
     (let ts = kids_of ch @ replicate (nat i + 1 - length (kids_of ch)) empty_tree in
      rbind (tree_ops d ops (ts ! nat i)) (\<lambda>t. Inr (XTree nm tx at (Some (ts[nat i := t]))))))"
| "tree_op d (In_Named s ops) (XTree nm tx at ch) =
     (let i = tree_find s (kids_of ch); ts = (if i < length (kids_of ch) then kids_of ch else kids_of ch @ [named_tree s]) in
      rbind (tree_ops d ops (ts ! i)) (\<lambda>t. Inr (XTree nm tx at (Some (ts[i := t])))))"
| "tree_op d (Remove_At i) (XTree nm tx at ch) = (case ch of None \<Rightarrow> Inr (XTree nm tx at None)
     | Some ts \<Rightarrow> if i < 0 \<or> int (length ts) \<le> i then Inl Logic_Error
         else if fits d (ts ! nat i) then Inr (XTree nm tx at (Some (del_nth (nat i) ts)))
         else Inl (Exit_With ''stack overflow''))"
| "tree_op d (Remove_Named s) (XTree nm tx at ch) = (case ch of None \<Rightarrow> Inr (XTree nm tx at None)
     | Some ts \<Rightarrow> if tree_removable d s ts then Inr (XTree nm tx at (Some (filter (\<lambda>t. tree_name t \<noteq> s) ts)))
         else Inl (Exit_With ''stack overflow''))"
| "tree_op d Clear t = tree_clear d t"
| "tree_ops d [] t = Inr t"
| "tree_ops d (x # xs) t = rbind (tree_op d x t) (tree_ops d xs)"

lemma acts_Inr: "r = Inr h' \<Longrightarrow> xrep (xcells h') a t F' \<Longrightarrow> local_step h F h' F' \<Longrightarrow> acts h a F r (Inr t)"
  by (auto simp: acts_def)

lemma acts_bind:
  assumes "acts h a F r rt" "\<And>h' t F'. r = Inr h' \<Longrightarrow> rt = Inr t \<Longrightarrow> xrep (xcells h') a t F' \<Longrightarrow> xfresh h' \<Longrightarrow> acts h' a F' (f h') (g t)"
  shows "acts h a F (rbind r f) (rbind rt g)"
proof (cases rt)
  case (Inl e)
  then show ?thesis using assms(1) by (simp add: acts_def)
next
  case (Inr t)
  then obtain h' F' where h': "r = Inr h'" "xrep (xcells h') a t F'" "local_step h F h' F'" using assms(1) by (auto simp: acts_def)
  then have "acts h' a F' (f h') (g t)" using assms(2) Inr by (simp add: local_step_def)
  then show ?thesis using h' Inr local_trans [OF h'(3)] by (auto simp: acts_def split: sum.splits)
qed

lemma acts_trans:
  assumes "local_step h F h1 F1" "acts h1 a F1 r rt"
  shows "acts h a F r rt"
  using assms local_trans [OF assms(1)] by (auto simp: acts_def split: sum.splits)

text \<open>Operations on a child of an element\<close>

lemma acts_child:
  assumes v: "xview h a nm tx at l as ts F" and i: "i < length ts"
    and f: "\<And>Fc. xrep (xcells h) (as ! i) (ts ! i) Fc \<Longrightarrow> acts h (as ! i) Fc r rt"
  shows "acts h a F r (rbind rt (\<lambda>t. Inr (XTree nm tx at (Some (ts[i := t])))))"
proof -
  obtain Fc where c: "xrep (xcells h) (as ! i) (ts ! i) Fc" "Fc \<subseteq> F" "distinct as" "length as = length ts" "a \<notin> Fc" "l \<notin> Fc"
    "\<And>h' t' Fc'. local_step h Fc h' Fc' \<Longrightarrow> xrep (xcells h') (as ! i) t' Fc' \<Longrightarrow>
       xview h' a nm tx at l as (ts[i := t']) (F - Fc \<union> Fc') \<and> local_step h F h' (F - Fc \<union> Fc')"
    by (rule xview_child [OF v i]) blast
  from f [OF c(1)] show ?thesis
  proof (cases rt)
    case (Inr t)
    then obtain h' Fc' where "r = Inr h'" "xrep (xcells h') (as ! i) t Fc'" "local_step h Fc h' Fc'"
      using f [OF c(1)] by (auto simp: acts_def)
    then show ?thesis using c(7) [of h' Fc' t] Inr by (auto simp: acts_def xview_def)
  qed (simp add: acts_def)
qed

lemma local_drop:
  assumes "local_step h F h1 F1" "v \<notin> F1" "xrep (xcells h1) a t F1"
  shows "local_step h (insert v F) (xdrop {v} h1) F1" "xrep (xcells (xdrop {v} h1)) a t F1"
proof -
  show "xrep (xcells (xdrop {v} h1)) a t F1" by (rule rep_frame(1) [OF assms(3)]) (use assms(2) in auto)
  show "local_step h (insert v F) (xdrop {v} h1) F1"
    using assms(1,2) by (auto simp: local_step_def xfresh_def)
qed

lemma append_new_acts:
  assumes rep: "xrep (xcells h) a (XTree nm tx at ch) F" and fr: "xfresh h"
    and ops: "\<And>v h2 Fv. xrep (xcells h2) v (named_tree s) Fv \<Longrightarrow> xfresh h2 \<Longrightarrow> acts h2 v Fv (xml_ops d ops v h2) (tree_ops d ops (named_tree s))"
  shows "acts h a F (xml_op d (Append_New s ops) a h) (tree_op d (Append_New s ops) (XTree nm tx at ch))"
proof -
  let ?k = "xnext h"
  let ?h1 = "(xset ?k (X_string s) h)\<lparr>xnext := Suc ?k\<rparr>"
  let ?n = "xml_default\<lparr>m_name := Some ?k\<rparr>" and ?v = "Suc ?k"
  let ?h2 = "(xset ?v (X_node ?n) ?h1)\<lparr>xnext := Suc ?v\<rparr>"
  have below: "x < ?k" if "x \<in> F" for x using rep_below [OF rep fr that] .
  have fr2: "xfresh ?h2" using fr by (auto simp: xfresh_def)
  have rv: "xrep (xcells ?h2) ?v (named_tree s) {?v, ?k}" by (rule rep_named) auto
  have ra: "xrep (xcells ?h2) a (XTree nm tx at ch) F" by (rule rep_frame(1) [OF rep]) (use below in fastforce)
  have run: "xml_op d (Append_New s ops) a h = rbind (xml_ops d ops ?v ?h2) (\<lambda>h3. rbind (xml_append a ?v h3) (xdelete ?v))"
    by (simp add: xml_named_def xnew_eq)
  note o = ops [OF rv fr2]
  show ?thesis
  proof (cases "tree_ops d ops (named_tree s)")
    case (Inl e)
    then have "xml_ops d ops ?v ?h2 = Inl e" using o by (simp add: acts_def)
    then have "xml_op d (Append_New s ops) a h = Inl e" unfolding run by simp
    then show ?thesis using Inl by (simp add: acts_def del: xml_op.simps)
  next
    case (Inr t)
    then obtain h3 Fv where h3: "xml_ops d ops ?v ?h2 = Inr h3" "xrep (xcells h3) ?v t Fv" "local_step ?h2 {?v, ?k} h3 Fv"
      using o by (auto simp: acts_def)
    have fr3: "xfresh h3" using h3(3) by (simp add: local_step_def)
    have F: "F \<inter> Fv = {}" "F \<inter> {?v, ?k} = {}" using h3(3) below by (fastforce simp: local_step_def)+
    have ra3: "xrep (xcells h3) a (XTree nm tx at ch) F"
      by (rule rep_frame(1) [OF ra]) (use h3(3) below F(2) in \<open>fastforce simp: local_step_def\<close>)
    obtain h4 F' where h4: "xml_append a ?v h3 = Inr h4" "xrep (xcells h4) a (XTree nm tx at (Some (kids_of ch @ [t]))) F'"
      "local_step h3 (F \<union> (Fv - {?v})) h4 F'" "?v \<notin> F'" "xcells h4 ?v = xcells h3 ?v"
      by (rule append_rep [OF ra3 fr3 h3(2) F(1)])
    have vFv: "?v \<in> Fv" "xcells h3 ?v \<noteq> None" using rep_dom(1) [OF h3(2)] by auto
    have h5: "xdelete ?v h4 = Inr (xdrop {?v} h4)"
      using vFv(2) h4(5) by (cases h4) (auto simp: xdelete_def xdrop_def fun_eq_iff)
    note dr = local_drop [OF h4(3,4,2)]
    have "insert ?v (F \<union> (Fv - {?v})) = F \<union> Fv" using vFv(1) by auto
    then have s45: "local_step h3 (F \<union> Fv) (xdrop {?v} h4) F'" using dr(1) by simp
    have "local_step ?h2 ({?v, ?k} \<union> F) h3 (Fv \<union> F)"
      by (rule local_frame [OF h3(3)]) (use below F(2) in \<open>fastforce simp: Int_commute\<close>)+
    then have s23: "local_step ?h2 ({?v, ?k} \<union> F) (xdrop {?v} h4) F'" using s45 local_trans by (metis Un_commute)
    have "local_step h F ?h2 ({?v, ?k} \<union> F)" using fr fr2 by (auto simp: local_step_def xfresh_def)
    then have "local_step h F (xdrop {?v} h4) F'" using s23 local_trans by blast
    moreover have "xml_op d (Append_New s ops) a h = Inr (xdrop {?v} h4)" unfolding run by (simp add: h3(1) h4(1) h5)
    ultimately show ?thesis using dr(2) Inr by (auto simp: acts_def simp del: xml_op.simps)
  qed
qed

lemma in_child_acts:
  assumes rep: "xrep (xcells h) a (XTree nm tx at ch) F" and fr: "xfresh h"
    and ops: "\<And>t c h1 Fc. xrep (xcells h1) c t Fc \<Longrightarrow> xfresh h1 \<Longrightarrow> acts h1 c Fc (xml_ops d ops c h1) (tree_ops d ops t)"
  shows "acts h a F (xml_op d (In_Child i ops) a h) (tree_op d (In_Child i ops) (XTree nm tx at ch))"
proof (cases "i < 0")
  case True
  then show ?thesis by (simp add: acts_def xml_at_def)
next
  case False
  let ?ts = "kids_of ch @ replicate (nat i + 1 - length (kids_of ch)) empty_tree"
  obtain l h1 as F1 where c: "xml_at a i h = Inr (as ! nat i, h1)" "xview h1 a nm tx at l as ?ts F1" "local_step h F h1 F1"
    by (rule xml_at_rep [OF rep fr, of i]) (use False in simp)
  have "acts h1 a F1 (xml_ops d ops (as ! nat i) h1) (rbind (tree_ops d ops (?ts ! nat i)) (\<lambda>t. Inr (XTree nm tx at (Some (?ts[nat i := t])))))"
    by (rule acts_child [OF c(2)]) (use c(2) ops in \<open>auto simp: xview_def\<close>)
  then show ?thesis using acts_trans [OF c(3)] c(1) False by (simp add: Let_def)
qed

lemma in_named_acts:
  assumes rep: "xrep (xcells h) a (XTree nm tx at ch) F" and fr: "xfresh h"
    and ops: "\<And>t c h1 Fc. xrep (xcells h1) c t Fc \<Longrightarrow> xfresh h1 \<Longrightarrow> acts h1 c Fc (xml_ops d ops c h1) (tree_ops d ops t)"
  shows "acts h a F (xml_op d (In_Named s ops) a h) (tree_op d (In_Named s ops) (XTree nm tx at ch))"
proof -
  let ?i = "tree_find s (kids_of ch)"
  let ?ts = "if ?i < length (kids_of ch) then kids_of ch else kids_of ch @ [named_tree s]"
  obtain l h1 as F1 where c: "xml_at_name a s h = Inr (as ! ?i, h1)" "xview h1 a nm tx at l as ?ts F1" "local_step h F h1 F1"
    by (rule xml_at_name_rep [OF rep fr, of s])
  have "?i \<le> length (kids_of ch)" by (simp add: tree_find_def length_takeWhile_le)
  then have "acts h1 a F1 (xml_ops d ops (as ! ?i) h1) (rbind (tree_ops d ops (?ts ! ?i)) (\<lambda>t. Inr (XTree nm tx at (Some (?ts[?i := t])))))"
    by (intro acts_child [OF c(2)]) (use c(2) ops in \<open>auto simp: xview_def\<close>)
  then have "acts h a F (xml_ops d ops (as ! ?i) h1) (rbind (tree_ops d ops (?ts ! ?i)) (\<lambda>t. Inr (XTree nm tx at (Some (?ts[?i := t])))))"
    by (rule acts_trans [OF c(3)])
  then show ?thesis unfolding xml_op.simps tree_op.simps Let_def c(1) rbind_Inr prod.case .
qed

lemma remove_acts:
  assumes rep: "xrep (xcells h) a (XTree nm tx at ch) F" and fr: "xfresh h"
  shows "acts h a F (xml_op d (Remove_At i) a h) (tree_op d (Remove_At i) (XTree nm tx at ch))"
    "acts h a F (xml_op d (Remove_Named s) a h) (tree_op d (Remove_Named s) (XTree nm tx at ch))"
proof -
  have "acts h a F (xml_op d (Remove_At i) a h) (tree_op d (Remove_At i) (XTree nm tx at ch)) \<and>
    acts h a F (xml_op d (Remove_Named s) a h) (tree_op d (Remove_Named s) (XTree nm tx at ch))"
  proof (cases ch)
    case None
    then obtain n where n: "xcells h a = Some (X_node n)" "m_children n = None" using rep by (auto elim!: xrepE elim: no_kidsE)
    then show ?thesis
      using None rep local_refl [OF fr] by (auto simp: acts_def xml_remove_def xml_remove_name_def xnode_at_rep)
  next
    case (Some ts)
    obtain n l as where n: "xcells h a = Some (X_node n)" "m_children n = Some l" "xview h a nm tx at l as ts F"
      using xviewI rep fr Some by metis
    have l: "xlist_at l h = Inr as" and len: "length as = length ts"
      using n(3) xview_reps [OF n(3)] by (auto simp: xview_def xlist_at_rep)
    show ?thesis
    proof
      show "acts h a F (xml_op d (Remove_At i) a h) (tree_op d (Remove_At i) (XTree nm tx at ch))"
      proof (cases "i < 0 \<or> int (length ts) \<le> i")
        case True
        then show ?thesis using Some n len l by (simp add: acts_def xml_remove_def xnode_at_rep)
      next
        case False
        then have "nat i < length ts" by linarith
        from clear_and_erase_rep [OF n(3) this, of d] show ?thesis
          using Some n len l False by (auto simp: acts_def xml_remove_def xnode_at_rep xview_def split: if_splits)
      qed
      show "acts h a F (xml_op d (Remove_Named s) a h) (tree_op d (Remove_Named s) (XTree nm tx at ch))"
        using remove_named_rep [of h a nm tx at l "[]" as "[]" ts F d s] n l Some
        by (auto simp: acts_def xml_remove_name_def xnode_at_rep xview_def split: if_splits)
    qed
  qed
  then show "acts h a F (xml_op d (Remove_At i) a h) (tree_op d (Remove_At i) (XTree nm tx at ch))"
    "acts h a F (xml_op d (Remove_Named s) a h) (tree_op d (Remove_Named s) (XTree nm tx at ch))" by auto
qed

lemma ops_act_all:
  assumes "\<And>y h a t F. y \<in> set xs \<Longrightarrow> xrep (xcells h) a t F \<Longrightarrow> xfresh h \<Longrightarrow> acts h a F (xml_op d y a h) (tree_op d y t)"
  shows "xrep (xcells h) a t F \<Longrightarrow> xfresh h \<Longrightarrow> acts h a F (xml_ops d xs a h) (tree_ops d xs t)"
  using assms
proof (induction xs arbitrary: h t F)
  case Nil
  then show ?case using local_refl by (auto simp: acts_def)
next
  case (Cons y ys)
  show ?case
    unfolding xml_ops.simps tree_ops.simps
  proof (rule acts_bind)
    show "acts h a F (xml_op d y a h) (tree_op d y t)" by (rule Cons.prems(3)) (use Cons.prems(1,2) in auto)
    show "acts h' a F' (xml_ops d ys a h') (tree_ops d ys t')" if "xrep (xcells h') a t' F'" "xfresh h'" for h' t' F'
      by (rule Cons.IH) (use that Cons.prems(3) in auto)
  qed
qed

lemma op_acts: "xrep (xcells h) a t F \<Longrightarrow> xfresh h \<Longrightarrow> acts h a F (xml_op d x a h) (tree_op d x t)"
proof (induction x arbitrary: h a t F)
  case Clear
  then show ?case using clear_acts by simp
next
  case (Append_New s ops)
  then show ?case by (cases t) (simp del: xml_op.simps tree_op.simps add: append_new_acts [OF _ _ ops_act_all])
next
  case (In_Child i ops)
  then show ?case by (cases t) (simp del: xml_op.simps tree_op.simps add: in_child_acts [OF _ _ ops_act_all])
next
  case (In_Named s ops)
  then show ?case by (cases t) (simp del: xml_op.simps tree_op.simps add: in_named_acts [OF _ _ ops_act_all])
next
  case (Remove_At i)
  then show ?case by (cases t) (simp del: xml_op.simps tree_op.simps add: remove_acts)
next
  case (Remove_Named s)
  then show ?case by (cases t) (simp del: xml_op.simps tree_op.simps add: remove_acts)
qed (rename_tac t F; case_tac t; simp add: setName_acts setText_acts setAttr_acts)+

section \<open>Printing\<close>

fun tree_str :: "xtree \<Rightarrow> string result" where
  "tree_str (XTree nm tx at ch) = (case nm of None \<Rightarrow> Inl Logic_Error
     | Some name \<Rightarrow> rbind (case ch of None \<Rightarrow> Inr [] | Some ts \<Rightarrow> join_texts (map tree_str ts)) (\<lambda>children.
         Inr (''<'' @ name @ (case at of None \<Rightarrow> [] | Some m \<Rightarrow> attr_text m) @ ''>'' @ children @
              (case tx of None \<Rightarrow> [] | Some s \<Rightarrow> s) @ ''</'' @ name @ ''>'')))"

lemma xml_str_rep: "xrep (xcells h) a t F \<Longrightarrow> fits d t \<Longrightarrow> xml_str d a h = tree_str t"
proof (induction d arbitrary: a t F)
  case (Suc d)
  obtain nm tx at ch where t: "t = XTree nm tx at ch" by (cases t)
  obtain n F1 F2 F3 F4 where p: "xcells h a = Some (X_node n)"
    "ptr_rep X_string (xcells h) (m_name n) nm F1" "ptr_rep X_string (xcells h) (m_text n) tx F2"
    "ptr_rep X_attrs (xcells h) (m_attrs n) at F3" "xkids (xcells h) (m_children n) ch F4"
    using Suc.prems(1) unfolding t by (auto elim: xrepE)
  have all: "map (\<lambda>c. xml_str d c h) as = map tree_str ts" if "xreps (xcells h) as ts G" "list_all (fits d) ts" for as ts G
    using that
  proof (induction as arbitrary: ts G)
    case (Cons c cs)
    from Cons.prems(1) obtain u us G1 G2 where "ts = u # us" "xrep (xcells h) c u G1" "xreps (xcells h) cs us G2"
      by (auto elim: reps_consE)
    then show ?case using Cons.IH Cons.prems(2) Suc.IH by auto
  qed (auto elim: reps_nilE)
  have "(case m_children n of None \<Rightarrow> Inr [] | Some l \<Rightarrow> rbind (xlist_at l h) (\<lambda>as. join_texts (map (\<lambda>c. xml_str d c h) as)))
      = (case ch of None \<Rightarrow> Inr [] | Some ts \<Rightarrow> join_texts (map tree_str ts))"
  proof (cases ch)
    case None
    then show ?thesis using p(5) by (auto elim: no_kidsE)
  next
    case (Some ts)
    then obtain l as G where k: "m_children n = Some l" "xcells h l = Some (X_list as)" "xreps (xcells h) as ts G"
      using p(5) by (auto elim: some_kidsE)
    have "map (\<lambda>c. xml_str d c h) as = map tree_str ts" by (rule all [OF k(3)]) (use Suc.prems(2) t Some in simp)
    then show ?thesis using k Some by (simp add: xlist_at_rep)
  qed
  moreover have "(case m_attrs n of None \<Rightarrow> Inr [] | Some q \<Rightarrow> rbind (xattrs_at q h) (\<lambda>m. Inr (attr_text m)))
      = Inr (case at of None \<Rightarrow> [] | Some m \<Rightarrow> attr_text m)"
    using p(4) by (auto simp: ptr_rep_def xattrs_at_def split: option.splits)
  moreover have "(case m_text n of None \<Rightarrow> Inr [] | Some q \<Rightarrow> xstring_at q h) = Inr (case tx of None \<Rightarrow> [] | Some s \<Rightarrow> s)"
    using p(3) by (auto simp: ptr_rep_def xstring_at_def split: option.splits)
  moreover have "nm = None \<and> m_name n = None \<or> (\<exists>s q. nm = Some s \<and> m_name n = Some q \<and> xstring_at q h = Inr s)"
    using p(2) by (auto simp: ptr_rep_def xstring_at_def split: option.splits)
  ultimately show ?case
    unfolding t xml_str.simps tree_str.simps xnode_at_rep [OF p(1)] rbind_Inr by (elim disjE conjE exE) simp_all
qed simp

section \<open>Properties\<close>

text \<open>\<^verbatim>\<open>XML x(name);\<close> in a program that has allocated nothing yet\<close>

definition xml_variable :: "string \<Rightarrow> nat \<times> xheap" where
  "xml_variable s = (case xml_named s \<lparr>xcells = (\<lambda>x. None), xnext = 0\<rparr> of (n, h) \<Rightarrow> xnew (X_node n) h)"

lemma xml_variable_rep:
  "xml_variable s = (1, snd (xml_variable s))" "xrep (xcells (snd (xml_variable s))) 1 (named_tree s) {1, 0}"
  "xfresh (snd (xml_variable s))" "xcells (snd (xml_variable s)) x \<noteq> None \<longleftrightarrow> x \<in> {1, 0}" "xnext (snd (xml_variable s)) = 2"
  by (auto simp: xml_variable_def xml_named_def xnew_def xfresh_def intro!: rep_named)

text \<open>C10: A program that builds a document, changes it through the references to its children, removes children
  and clears elements does to the memory what it does to a tree, errors included: it never uses freed
  memory, afterwards exactly the cells of the document are allocated, \<^verbatim>\<open>str\<close> prints the tree and \<^verbatim>\<open>clear\<close>
  gives everything but the variable back.\<close>

theorem documents_are_trees:
  "case tree_ops d ops (named_tree s) of
     Inl e \<Rightarrow> xml_ops d ops 1 (snd (xml_variable s)) = Inl e
   | Inr t \<Rightarrow> \<exists>h F. xml_ops d ops 1 (snd (xml_variable s)) = Inr h \<and> xrep (xcells h) 1 t F \<and> {x. xcells h x \<noteq> None} = F \<and>
       (fits d t \<longrightarrow> xml_str d 1 h = tree_str t \<and> (\<exists>h'. xml_clear d 1 h = Inr h' \<and> {x. xcells h' x \<noteq> None} = {1}))"
proof -
  let ?h = "snd (xml_variable s)"
  have ops: "acts ?h 1 {1, 0} (xml_ops d ops 1 ?h) (tree_ops d ops (named_tree s))"
    by (rule ops_act_all [OF _ xml_variable_rep(2,3)]) (rule op_acts)
  have cells: "{x. xcells h' x \<noteq> None} = F'"
    if "local_step ?h {1, 0} h' F'" "xrep (xcells h') a t F'" for h' F' a t
  proof -
    have "x \<in> {1, 0} \<or> 2 \<le> x" for x :: nat by auto
    then have none: "xcells h' x = None" if "x \<notin> F'" for x using that \<open>local_step ?h {1, 0} h' F'\<close> unfolding local_step_def xml_variable_rep(5) by blast
    have "xcells h' x \<noteq> None \<longleftrightarrow> x \<in> F'" for x
      using none [of x] rep_dom(1) [OF that(2)] by (cases "x \<in> F'") simp_all
    then show ?thesis by simp
  qed
  show ?thesis
  proof (cases "tree_ops d ops (named_tree s)")
    case (Inl e)
    then show ?thesis using ops by (simp add: acts_def)
  next
    case (Inr t)
    then obtain h F where h: "xml_ops d ops 1 ?h = Inr h" "xrep (xcells h) 1 t F" "local_step ?h {1, 0} h F"
      using ops by (auto simp: acts_def)
    have fr: "xfresh h" using h(3) by (simp add: local_step_def)
    have clear: "\<exists>h'. xml_clear d 1 h = Inr h' \<and> {x. xcells h' x \<noteq> None} = {1}" if fit: "fits d t"
    proof -
      obtain h' where h': "xml_clear d 1 h = Inr h'" "xrep (xcells h') 1 empty_tree {1}" "local_step h F h' {1}"
        using xml_clear_rep [OF h(2) fr, of d] unfolding eqTrueI [OF fit] if_True by (elim exE conjE)
      show ?thesis using h'(1) cells [OF local_trans [OF h(3) h'(3)] h'(2)] by (intro exI conjI)
    qed
    have "fits d t \<longrightarrow> xml_str d 1 h = tree_str t \<and> (\<exists>h'. xml_clear d 1 h = Inr h' \<and> {x. xcells h' x \<noteq> None} = {1})"
      using clear xml_str_rep [OF h(2)] by (intro impI conjI)
    then show ?thesis unfolding Inr sum.case using h(1,2) cells [OF h(3,2)] by (intro exI conjI)
  qed
qed

theorem documents_are_trees_witness:
  "\<exists>h. xml_ops 5 [Set_Attr ''name'' ''detection'', Append_New ''object1'' [Set_Attr ''number'' ''12'', Set_Text ''one''],
      Append_New ''object2'' [Set_Text ''two''], Remove_Named ''object2'', Set_Attr ''name'' ''other''] 1 (snd (xml_variable ''voc'')) = Inr h \<and>
    xml_str 5 1 h = Inr (''<voc name='' @ [CHR 0x22] @ ''detection '' @ [CHR 0x22] @ ''><object1 number='' @ [CHR 0x22] @ ''12 '' @ [CHR 0x22]
      @ ''>one</object1></voc>'')"
proof -
  let ?ops = "[Set_Attr ''name'' ''detection'', Append_New ''object1'' [Set_Attr ''number'' ''12'', Set_Text ''one''],
      Append_New ''object2'' [Set_Text ''two''], Remove_Named ''object2'', Set_Attr ''name'' ''other'']"
  let ?t = "XTree (Some ''voc'') None (Some [(''name'', ''detection'')])
     (Some [XTree (Some ''object1'') (Some ''one'') (Some [(''number'', ''12'')]) None])"
  have "tree_ops 5 ?ops (named_tree ''voc'') = Inr ?t"
    by (simp add: named_tree_def tree_set_attr_def kids_of_def tree_removable_def tree_name_def numeral_eq_Suc)
  moreover have "fits 5 ?t" by (simp add: numeral_eq_Suc)
  ultimately show ?thesis
    using documents_are_trees [of 5 ?ops "''voc''"] by (auto simp: attr_text_def)
qed

text \<open>An appended child shares its memory with the variable it was copied from: when the child is removed,
  the variable names memory that was given back.\<close>

theorem removed_child_dangles:
  assumes parent: "xrep (xcells h) a (XTree nm tx at ch) F" "xfresh h"
    and child: "xrep (xcells h) v t Fc" "F \<inter> Fc = {}" "t_name t = Some s" "fits d t"
  shows "\<exists>h1 h2. xml_append a v h = Inr h1 \<and> xml_name v h1 = Inr s \<and>
    xml_remove d a (int (length (kids_of ch))) h1 = Inr h2 \<and> xml_name v h2 = Inl Dangling"
proof -
  let ?k = "length (kids_of ch)"
  obtain h1 F' where h1: "xml_append a v h = Inr h1" "xrep (xcells h1) a (XTree nm tx at (Some (kids_of ch @ [t]))) F'"
    "local_step h (F \<union> (Fc - {v})) h1 F'" "v \<notin> F'" "xcells h1 v = xcells h v"
    "\<exists>l as. xview h1 a nm tx at l as (kids_of ch @ [t]) F' \<and> xcells h1 (as ! ?k) = xcells h v"
    by (rule append_rep [OF parent child(1,2)])
  obtain l as where v1: "xview h1 a nm tx at l as (kids_of ch @ [t]) F'" and c: "xcells h1 (as ! ?k) = xcells h v"
    using h1(6) by blast
  have k: "?k < length (kids_of ch @ [t])" by simp
  obtain Fk where f: "xrep (xcells h1) (as ! ?k) ((kids_of ch @ [t]) ! ?k) Fk" "length as = length (kids_of ch @ [t])" "l \<notin> Fk"
    by (rule xview_child [OF v1 k])
  have fr1: "xfresh h1" and l1: "xcells h1 l = Some (X_list as)" using v1 by (simp_all add: xview_def)
  obtain n where n: "xcells h1 v = Some (X_node n)" using child(1) h1(5) by (cases t) (auto elim: xrepE)
  obtain p where p: "m_name n = Some p" "xcells h1 p = Some (X_string s)" "p \<in> Fk" "p \<noteq> as ! ?k"
  proof -
    obtain n' F1 where "xcells h1 (as ! ?k) = Some (X_node n')" "ptr_rep X_string (xcells h1) (m_name n') (Some s) F1"
      "F1 \<subseteq> Fk" "as ! ?k \<notin> F1"
      using f(1) child(3) by (cases t) (auto elim!: xrepE)
    then show ?thesis using that n c h1(5) by (auto simp: ptr_rep_def split: option.splits)
  qed
  have name: "xml_name v h1 = Inr s" using n p by (simp add: xml_name_def xnode_at_def xstring_at_def)
  obtain hc where hc: "xml_clear d (as ! ?k) h1 = Inr hc" "local_step h1 Fk hc {as ! ?k}"
    using xml_clear_rep [OF f(1) fr1, of d] child(4) by auto
  have "xcells hc p = None" using hc(2) p(3,4) by (auto simp: local_step_def)
  obtain h2 F2 where h2: "clear_and_erase d l (as ! ?k) h1 = Inr h2" "local_step h1 F' h2 F2"
    using clear_and_erase_rep [OF v1 k, of d] child(4) by auto
  have "xcells h2 p = None"
    using h2(1) hc(1) \<open>xcells hc p = None\<close> p(3) f(3)
    by (auto simp: clear_and_erase_def rbind_eq_Inr xdelete_def split: if_splits)
  moreover have "xcells h2 v = Some (X_node n)"
  proof -
    have "v < xnext h1" using fr1 n unfolding xfresh_def by (metis not_less option.distinct(1))
    then show ?thesis using h2(2) h1(4) n by (simp add: local_step_def)
  qed
  ultimately have "xml_name v h2 = Inl Dangling" using p(1) by (simp add: xml_name_def xnode_at_def xstring_at_def)
  moreover have "xml_remove d a (int ?k) h1 = Inr h2"
  proof -
    obtain m where "xcells h1 a = Some (X_node m)" "m_children m = Some l" using v1 by (auto simp: xview_def)
    then show ?thesis using h2(1) l1 f(2) by (simp add: xml_remove_def xnode_at_rep xlist_at_rep)
  qed
  ultimately show ?thesis using h1(1) name by blast
qed

theorem removed_child_dangles_witness:
  "\<exists>h h1 h2. xml_append 1 3 h = Inr h1 \<and> xml_name 3 h1 = Inr ''object2'' \<and> xml_remove 9 1 0 h1 = Inr h2 \<and> xml_name 3 h2 = Inl Dangling"
proof -
  let ?h1 = "snd (xml_variable ''voc'')"
  let ?h = "snd (xnew (X_node (xml_default\<lparr>m_name := Some 2\<rparr>)) (snd (xnew (X_string ''object2'') ?h1)))"
  have nx: "xnext ?h1 = 2" by (rule xml_variable_rep)
  have "xrep (xcells ?h) 1 (named_tree ''voc'') {1, 0}"
    by (rule rep_frame(1) [OF xml_variable_rep(2)]) (use nx in \<open>auto simp: xnew_eq\<close>)
  then have a: "xrep (xcells ?h) 1 (XTree (Some ''voc'') None None None) {1, 0}" by (simp add: named_tree_def)
  have b: "xrep (xcells ?h) 3 (named_tree ''object2'') {3, 2}" by (rule rep_named) (use nx in \<open>auto simp: xnew_eq\<close>)
  have "xfresh ?h" using xml_variable_rep(3) [of "''voc''"] nx by (auto simp: xnew_eq xfresh_def)
  then show ?thesis
    using removed_child_dangles [OF a _ b, of "''object2''" 9] by (auto simp: kids_of_def named_tree_def numeral_eq_Suc)
qed

text \<open>The assignment clears its target before it copies the pointers of its source: \<^verbatim>\<open>x = x\<close> leaves an empty
  element, and after \<^verbatim>\<open>x = y\<close> both own the same memory, so that clearing \<^verbatim>\<open>x\<close> leaves \<^verbatim>\<open>y\<close> dangling.\<close>

theorem assignment_shares_or_empties:
  assumes x: "xrep (xcells h) a t F" "xfresh h" "fits d t"
    and y: "xrep (xcells h) b u G" "F \<inter> G = {}" "t_name u = Some s"
  shows "(\<exists>h'. xml_assign d a a h = Inr h' \<and> xrep (xcells h') a empty_tree {a}) \<and>
    (\<exists>h1. xml_assign d a b h = Inr h1 \<and> xml_name b h1 = Inr s \<and>
       (fits d u \<longrightarrow> (\<exists>h2. xml_clear d a h1 = Inr h2 \<and> xml_name b h2 = Inl Dangling)))"
proof -
  obtain h0 where h0: "xml_clear d a h = Inr h0" "xrep (xcells h0) a empty_tree {a}" "local_step h F h0 {a}"
    using xml_clear_rep [OF x(1,2), of d] x(3) by auto
  have a: "a \<in> F" "a < xnext h" using rep_dom(1) [OF x(1)] rep_below [OF x(1,2)] by auto
  have fr0: "xfresh h0" "xnext h \<le> xnext h0" using h0(3) by (simp_all add: local_step_def)
  have keep: "xcells h0 z = xcells h z" "z < xnext h" "z \<noteq> a" if "z \<in> G" for z
    using rep_below [OF y(1) x(2) that] h0(3) y(2) that a by (auto simp: local_step_def)
  have b: "b \<in> G" using rep_dom(1) [OF y(1)] by blast
  obtain n where n: "xcells h b = Some (X_node n)" using y(1) by (cases u) (auto elim: xrepE)
  obtain p where p: "m_name n = Some p" "xcells h p = Some (X_string s)" "p \<in> G" "p \<noteq> b"
  proof -
    obtain n' F1 where "xcells h b = Some (X_node n')" "ptr_rep X_string (xcells h) (m_name n') (Some s) F1" "F1 \<subseteq> G" "b \<notin> F1"
      using y(1,3) by (cases u) (auto elim!: xrepE)
    then show ?thesis using that n by (auto simp: ptr_rep_def split: option.splits)
  qed
  let ?h1 = "xset a (X_node n) h0"
  have asg: "xml_assign d a b h = Inr ?h1" using h0(1) n keep(1) [OF b] by (simp add: xml_assign_def xnode_at_def)
  have nm: "xml_name b ?h1 = Inr s"
    using n keep(1) [OF b] keep(3) [OF b] keep(1) [OF p(3)] keep(3) [OF p(3)] p(1,2) by (simp add: xml_name_def xnode_at_def xstring_at_def)
  obtain e where "xcells h0 a = Some (X_node e)" using h0(2) by (auto simp: empty_tree_def elim: xrepE)
  then have self: "xml_assign d a a h = Inr h0"
    using h0(1) by (cases h0) (auto simp: xml_assign_def xnode_at_def xset_def)
  have "\<exists>h2. xml_clear d a ?h1 = Inr h2 \<and> xml_name b h2 = Inl Dangling" if u: "fits d u"
  proof -
    have rep: "xrep (xcells ?h1) a u (insert a (G - {b}))"
      by (rule rep_move [OF y(1)]) (use n keep in auto)
    have "xfresh ?h1" using fr0 a by (auto simp: xfresh_def)
    then obtain h2 where h2: "xml_clear d a ?h1 = Inr h2" "local_step ?h1 (insert a (G - {b})) h2 {a}"
      using xml_clear_rep [OF rep, of d] u by auto
    have "xcells h2 p = None" using h2(2) p(3,4) keep(3) [OF p(3)] by (auto simp: local_step_def)
    moreover have "xcells h2 b = Some (X_node n)"
      using h2(2) keep [OF b] n fr0(2) by (auto simp: local_step_def)
    ultimately show ?thesis using h2(1) p(1) by (auto simp: xml_name_def xnode_at_def xstring_at_def)
  qed
  then show ?thesis using self h0(2) asg nm by blast
qed

theorem assignment_shares_or_empties_witness:
  "\<exists>h h1. xml_assign 9 1 3 h = Inr h1 \<and> xml_name 3 h1 = Inr ''b'' \<and> (\<exists>h2. xml_clear 9 1 h1 = Inr h2 \<and> xml_name 3 h2 = Inl Dangling)"
proof -
  let ?h1 = "snd (xml_variable ''a'')"
  let ?h = "snd (xnew (X_node (xml_default\<lparr>m_name := Some 2\<rparr>)) (snd (xnew (X_string ''b'') ?h1)))"
  have nx: "xnext ?h1 = 2" by (rule xml_variable_rep)
  have a: "xrep (xcells ?h) 1 (named_tree ''a'') {1, 0}"
    by (rule rep_frame(1) [OF xml_variable_rep(2)]) (use nx in \<open>auto simp: xnew_eq\<close>)
  have b: "xrep (xcells ?h) 3 (named_tree ''b'') {3, 2}" by (rule rep_named) (use nx in \<open>auto simp: xnew_eq\<close>)
  have "xfresh ?h" using xml_variable_rep(3) [of "''a''"] nx by (auto simp: xnew_eq xfresh_def)
  then show ?thesis
    using assignment_shares_or_empties [OF a _ _ b, of 9 "''b''"] by (auto simp: named_tree_def numeral_eq_Suc)
qed

end
