(* ===== verification/SelectServer.thy ===== *)
theory SelectServer
  imports Prelude
begin

text \<open>
  The server with \<^verbatim>\<open>select\<close> and a thread for every event, \<^verbatim>\<open>select/server.c\<close>.

  The main thread copies the set of descriptors, waits in \<^verbatim>\<open>select\<close>, and starts a thread for the
  listening descriptor and for every other descriptor that is ready.  The threads share \<^verbatim>\<open>rdset\<close>, which
  the mutex protects, and \<^verbatim>\<open>maxfd\<close>, which nothing protects; a section under the mutex is one step, and
  so is every single access to \<^verbatim>\<open>maxfd\<close>.  What \<^verbatim>\<open>select\<close>, \<^verbatim>\<open>accept\<close> and \<^verbatim>\<open>read\<close> return comes from outside,
  as an argument of the step: a descriptor or -1 from \<^verbatim>\<open>accept\<close>, and \<open>None\<close> for a \<^verbatim>\<open>read\<close> that fails.
  \<open>sent\<close> and \<open>closed\<close> record the calls of \<^verbatim>\<open>write\<close> and \<^verbatim>\<open>close\<close>.
\<close>

section \<open>The program\<close>

definition FD_SETSIZE :: int where "FD_SETSIZE = 1024"

datatype mainpc =
    M_Copy          \<comment> \<open>line 97\<close>
  | M_Select        \<comment> \<open>line 100\<close>
  | M_Conn          \<comment> \<open>line 105\<close>
  | M_Loop int      \<comment> \<open>line 118\<close>

datatype thread_pc =
    C_Accept int        \<comment> \<open>\<^verbatim>\<open>selectConn\<close>, line 22\<close>
  | C_Set int           \<comment> \<open>line 26\<close>
  | C_Compare int       \<comment> \<open>line 31, the comparison\<close>
  | C_Store int         \<comment> \<open>line 31, the assignment\<close>
  | C_Reread            \<comment> \<open>line 31, \<^verbatim>\<open>maxfd\<close> after the colon\<close>
  | R_Read int          \<comment> \<open>\<^verbatim>\<open>selectRead\<close>, line 44\<close>
  | R_Clear int         \<comment> \<open>line 49\<close>
  | R_Close int         \<comment> \<open>line 52\<close>
  | T_Done

record sel =
  main_pc :: mainpc
  maxfd :: int
  rdset :: "int set"
  rdtemp :: "int set"
  threads :: "thread_pc list"
  sent :: "(int \<times> string) list"
  closed :: "int list"

definition sel_start :: "int \<Rightarrow> sel" where
  "sel_start lfd = \<lparr>main_pc = M_Copy, maxfd = lfd, rdset = {lfd}, rdtemp = {}, threads = [], sent = [], closed = []\<rparr>"

text \<open>A failed \<^verbatim>\<open>select\<close> leaves \<^verbatim>\<open>rdtemp\<close> as it was, and the code does not look at \<^verbatim>\<open>num\<close>.\<close>

definition select_call :: "int set option \<Rightarrow> sel \<Rightarrow> int set" where
  "select_call ready s = (case ready of None \<Rightarrow> rdtemp s | Some R \<Rightarrow> rdtemp s \<inter> R \<inter> {0 .. maxfd s})"

definition main_step :: "int \<Rightarrow> int set option \<Rightarrow> sel \<Rightarrow> sel" where
  "main_step lfd ready s = (case main_pc s of
     M_Copy \<Rightarrow> s\<lparr>rdtemp := rdset s, main_pc := M_Select\<rparr>
   | M_Select \<Rightarrow> s\<lparr>rdtemp := select_call ready s, main_pc := M_Conn\<rparr>
   | M_Conn \<Rightarrow>
       (if lfd \<in> rdtemp s then s\<lparr>threads := threads s @ [C_Accept lfd], main_pc := M_Loop 0\<rparr>
        else s\<lparr>main_pc := M_Loop 0\<rparr>)
   | M_Loop i \<Rightarrow>
       (if i < maxfd s + 1 then
          (if i \<noteq> lfd \<and> i \<in> rdtemp s then s\<lparr>threads := threads s @ [R_Read lfd], main_pc := M_Loop (i + 1)\<rparr>
           else s\<lparr>main_pc := M_Loop (i + 1)\<rparr>)
        else s\<lparr>main_pc := M_Copy\<rparr>))"

text \<open>\<^verbatim>\<open>FD_SET\<close> writes outside the set when the descriptor does not fit.\<close>

definition fd_set :: "int \<Rightarrow> int set \<Rightarrow> int set result" where
  "fd_set fd S = (if 0 \<le> fd \<and> fd < FD_SETSIZE then Inr (insert fd S) else Inl Out_Of_Bounds)"

text \<open>Line 57: what \<^verbatim>\<open>strlen(buf)+1\<close> bytes of the buffer hold after \<^verbatim>\<open>data\<close> was read into it\<close>

definition echo_reply :: "string \<Rightarrow> string result" where
  "echo_reply data = (let buf = take 10 data @ replicate (10 - length data) NUL in
     if NUL \<in> set buf then Inr (cstr buf @ [NUL]) else Inl Out_Of_Bounds)"

definition set_thread :: "nat \<Rightarrow> thread_pc \<Rightarrow> sel \<Rightarrow> sel" where
  "set_thread k q s = s\<lparr>threads := (threads s)[k := q]\<rparr>"

definition thread_step :: "nat \<Rightarrow> int \<Rightarrow> string option \<Rightarrow> sel \<Rightarrow> sel result" where
  "thread_step k cfd data s = (case threads s ! k of
     C_Accept fd \<Rightarrow> Inr (set_thread k (C_Set cfd) s)
   | C_Set c \<Rightarrow> rbind (fd_set c (rdset s)) (\<lambda>S. Inr (set_thread k (C_Compare c) (s\<lparr>rdset := S\<rparr>)))
   | C_Compare c \<Rightarrow> Inr (set_thread k (if maxfd s < c then C_Store c else C_Reread) s)
   | C_Reread \<Rightarrow> Inr (set_thread k (C_Store (maxfd s)) s)
   | C_Store m \<Rightarrow> Inr (set_thread k T_Done (s\<lparr>maxfd := m\<rparr>))
   | R_Read fd \<Rightarrow> (case data of
        None \<Rightarrow> Inr (set_thread k T_Done s)
      | Some d \<Rightarrow> if d = [] then Inr (set_thread k (R_Clear fd) s)
          else rbind (echo_reply d) (\<lambda>r. Inr (set_thread k T_Done (s\<lparr>sent := sent s @ [(fd, r)]\<rparr>))))
   | R_Clear fd \<Rightarrow> Inr (set_thread k (R_Close fd) (s\<lparr>rdset := rdset s - {fd}\<rparr>))
   | R_Close fd \<Rightarrow> Inr (set_thread k T_Done (s\<lparr>closed := closed s @ [fd]\<rparr>))
   | T_Done \<Rightarrow> Inr s)"

text \<open>\<open>may_read fd r\<close>: \<^verbatim>\<open>read\<close> on \<open>fd\<close> can return \<open>r\<close>.\<close>

inductive sel_reachable :: "int \<Rightarrow> (int \<Rightarrow> string option \<Rightarrow> bool) \<Rightarrow> sel \<Rightarrow> bool" for lfd may_read where
  sel_init: "sel_reachable lfd may_read (sel_start lfd)"
| sel_main: "sel_reachable lfd may_read s \<Longrightarrow> sel_reachable lfd may_read (main_step lfd ready s)"
| sel_thread: "sel_reachable lfd may_read s \<Longrightarrow> k < length (threads s) \<Longrightarrow>
    (\<And>fd. threads s ! k = R_Read fd \<Longrightarrow> may_read fd data) \<Longrightarrow> -1 \<le> cfd \<Longrightarrow> cfd \<noteq> lfd \<Longrightarrow>
    thread_step k cfd data s = Inr s' \<Longrightarrow> sel_reachable lfd may_read s'"

inductive_cases sel_reachableE: "sel_reachable lfd may_read s"

section \<open>The invariant\<close>

fun thread_ok :: "int \<Rightarrow> thread_pc \<Rightarrow> bool" where
  "thread_ok lfd (C_Accept fd) \<longleftrightarrow> fd = lfd"
| "thread_ok lfd (R_Read fd) \<longleftrightarrow> fd = lfd"
| "thread_ok lfd (C_Set c) \<longleftrightarrow> c \<noteq> lfd"
| "thread_ok lfd (C_Compare c) \<longleftrightarrow> 0 \<le> c \<and> c < FD_SETSIZE"
| "thread_ok lfd (C_Store m) \<longleftrightarrow> 0 \<le> m \<and> m < FD_SETSIZE"
| "thread_ok lfd (R_Clear fd) \<longleftrightarrow> False"
| "thread_ok lfd (R_Close fd) \<longleftrightarrow> False"
| "thread_ok lfd _ \<longleftrightarrow> True"

definition sel_inv :: "int \<Rightarrow> sel \<Rightarrow> bool" where
  "sel_inv lfd s \<longleftrightarrow> sent s = [] \<and> closed s = [] \<and> lfd \<in> rdset s \<and> rdset s \<subseteq> {0 ..< FD_SETSIZE} \<and>
     0 \<le> maxfd s \<and> maxfd s < FD_SETSIZE \<and> list_all (thread_ok lfd) (threads s)"

lemma list_all_update: "list_all P xs \<Longrightarrow> P x \<Longrightarrow> list_all P (xs[i := x])"
  by (cases "i < length xs") (auto simp: list_all_length nth_list_update)

lemma main_step_inv: "sel_inv lfd s \<Longrightarrow> sel_inv lfd (main_step lfd ready s)"
  by (cases "main_pc s") (simp_all add: sel_inv_def main_step_def)

lemma sel_thread_step_inv:
  assumes inv: "sel_inv lfd s" and k: "k < length (threads s)"
    and rd: "\<And>fd. threads s ! k = R_Read fd \<Longrightarrow> may_read fd data" "\<And>r. may_read lfd r \<Longrightarrow> r = None"
    and cfd: "cfd \<noteq> lfd" and step: "thread_step k cfd data s = Inr s'"
  shows "sel_inv lfd s'"
proof -
  have ok: "thread_ok lfd (threads s ! k)" using inv k by (auto simp: sel_inv_def list_all_length)
  have go: "sel_inv lfd (set_thread k q s)" if "thread_ok lfd q" for q
    using inv that by (simp add: sel_inv_def set_thread_def list_all_update)
  show ?thesis
  proof (cases "threads s ! k")
    case (C_Set c)
    then show ?thesis
      using step inv by (auto simp: thread_step_def fd_set_def sel_inv_def set_thread_def list_all_update split: if_splits)
  next
    case (C_Store m)
    then show ?thesis using step inv ok by (auto simp: thread_step_def sel_inv_def set_thread_def list_all_update)
  next
    case (R_Read fd)
    then have "data = None" using rd ok by auto
    then show ?thesis using step R_Read go by (auto simp: thread_step_def)
  qed (use step ok inv cfd in \<open>auto simp: thread_step_def sel_inv_def set_thread_def list_all_update\<close>)
qed

lemma sel_reachable_inv:
  "sel_reachable lfd may_read s \<Longrightarrow> 0 \<le> lfd \<Longrightarrow> lfd < FD_SETSIZE \<Longrightarrow> (\<And>r. may_read lfd r \<Longrightarrow> r = None) \<Longrightarrow> sel_inv lfd s"
proof (induction rule: sel_reachable.induct)
  case sel_init
  then show ?case by (simp add: sel_inv_def sel_start_def)
next
  case (sel_main s ready)
  then show ?case using main_step_inv by blast
next
  case (sel_thread s k data cfd s')
  then show ?case using sel_thread_step_inv [of lfd s k may_read data cfd s'] by blast
qed

lemma thread_step_grows: "sel_inv lfd s \<Longrightarrow> k < length (threads s) \<Longrightarrow> thread_step k cfd data s = Inr s' \<Longrightarrow> rdset s \<subseteq> rdset s'"
  by (cases "threads s ! k")
    (auto simp: sel_inv_def list_all_length thread_step_def set_thread_def rbind_eq_Inr fd_set_def split: if_splits option.splits)

section \<open>Properties\<close>

text \<open>C37: The threads that are to read from a client get the listening descriptor, from which \<^verbatim>\<open>read\<close> always fails;
  when this descriptor lies in the range of an \<^verbatim>\<open>fd_set\<close>, 0 to 1023:
  no client ever gets a byte back, no descriptor is ever closed or removed from the set, however the
  threads interleave.\<close>

theorem no_client_is_served:
  assumes "sel_reachable lfd may_read s" "0 \<le> lfd" "lfd < FD_SETSIZE" "\<And>r. may_read lfd r \<Longrightarrow> r = None"
  shows "sent s = [] \<and> closed s = [] \<and> lfd \<in> rdset s \<and>
    (\<forall>k cfd data s'. k < length (threads s) \<and> thread_step k cfd data s = Inr s' \<longrightarrow> rdset s \<subseteq> rdset s')"
proof -
  have inv: "sel_inv lfd s" by (rule sel_reachable_inv [OF assms])
  have "rdset s \<subseteq> rdset s'" if "k < length (threads s)" "thread_step k cfd data s = Inr s'" for k cfd data s'
    by (rule thread_step_grows [OF inv that])
  then show ?thesis using inv unfolding sel_inv_def by blast
qed

fun sel_run :: "int \<Rightarrow> (int set option + nat \<times> int) list \<Rightarrow> sel \<Rightarrow> sel result" where
  "sel_run lfd [] s = Inr s"
| "sel_run lfd (Inl ready # evs) s = sel_run lfd evs (main_step lfd ready s)"
| "sel_run lfd (Inr (k, cfd) # evs) s =
     (if k < length (threads s) \<and> -1 \<le> cfd \<and> cfd \<noteq> lfd then rbind (thread_step k cfd None s) (sel_run lfd evs) else Inl Logic_Error)"

lemma sel_run_reachable:
  assumes "\<And>fd. may_read fd None"
  shows "sel_run lfd evs s = Inr s' \<Longrightarrow> sel_reachable lfd may_read s \<Longrightarrow> sel_reachable lfd may_read s'"
proof (induction lfd evs s rule: sel_run.induct)
  case (2 lfd ready evs s)
  then show ?case using sel_reachable.sel_main by simp
next
  case (3 lfd k cfd evs s)
  then obtain s1 where s1: "k < length (threads s)" "-1 \<le> cfd" "cfd \<noteq> lfd" "thread_step k cfd None s = Inr s1" "sel_run lfd evs s1 = Inr s'"
    by (auto simp: rbind_eq_Inr split: if_splits)
  have "sel_reachable lfd may_read s1"
    by (rule sel_reachable.sel_thread [OF "3.prems"(2) s1(1) _ s1(2-4)]) (use assms in simp)
  then show ?case using "3.IH" s1 by simp
qed simp

text \<open>One round of the main thread in which \<open>lfd\<close> is the only descriptor that is ready\<close>

definition accept_round :: "(int set option + nat \<times> int) list" where
  "accept_round = replicate 8 (Inl (Some {3}))"

lemma sel_run_accept_round:
  "sel_run 3 (accept_round @ evs) \<lparr>main_pc = M_Copy, maxfd = 3, rdset = {3}, rdtemp = R, threads = ts, sent = [], closed = []\<rparr> =
   sel_run 3 evs \<lparr>main_pc = M_Copy, maxfd = 3, rdset = {3}, rdtemp = {3}, threads = ts @ [C_Accept 3], sent = [], closed = []\<rparr>"
  by (simp add: accept_round_def eval_nat_numeral main_step_def select_call_def)

text \<open>Two threads that accept at the same time can both compare with the old \<^verbatim>\<open>maxfd\<close>; the larger value is
  then overwritten by the smaller, and its descriptor, although it is in the set, is never again in
  what \<^verbatim>\<open>select\<close> looks at.\<close>

theorem larger_descriptor_is_lost:
  assumes "3 < c" "c < d" "d < FD_SETSIZE"
  shows "\<exists>s. sel_reachable 3 (\<lambda>fd r. r = None) s \<and> list_all (\<lambda>t. t = T_Done) (threads s) \<and> d \<in> rdset s \<and> maxfd s = c \<and>
    (\<forall>ready. ready \<noteq> None \<longrightarrow> d \<notin> select_call ready s)"
proof -
  let ?evs = "accept_round @ accept_round @ [Inr (0, c), Inr (0, c), Inr (0, c), Inr (1, d), Inr (1, d), Inr (1, d), Inr (1, d), Inr (0, c)]"
  let ?s = "\<lparr>main_pc = M_Copy, maxfd = c, rdset = {d, c, 3}, rdtemp = {3}, threads = [T_Done, T_Done], sent = [], closed = []\<rparr>"
  have "sel_run 3 ?evs (sel_start 3) = Inr ?s"
    unfolding sel_start_def sel_run_accept_round append_Nil append_Cons
    using assms by (simp add: thread_step_def set_thread_def fd_set_def)
  then have "sel_reachable 3 (\<lambda>fd r. r = None) ?s"
    by (rule sel_run_reachable [rotated]) (simp_all add: sel_reachable.sel_init)
  moreover have "\<forall>ready. ready \<noteq> None \<longrightarrow> d \<notin> select_call ready ?s" using assms by (auto simp: select_call_def)
  ultimately show ?thesis by (intro exI [of _ ?s]) simp
qed

theorem larger_descriptor_is_lost_witness:
  "\<exists>s. sel_reachable 3 (\<lambda>fd r. r = None) s \<and> 5 \<in> rdset s \<and> maxfd s = 4"
  using larger_descriptor_is_lost [of 4 5] by (auto simp: FD_SETSIZE_def)

theorem no_client_is_served_witness:
  "sent (sel_start 3) = [] \<and> 3 \<in> rdset (sel_start 3)"
  using no_client_is_served [OF sel_reachable.sel_init, of 3 "\<lambda>fd r. r = None"] by (simp add: FD_SETSIZE_def)

text \<open>A client whose descriptor does not fit into the set, and a failed \<^verbatim>\<open>accept\<close>, make \<^verbatim>\<open>FD_SET\<close> write
  outside the set; every other client is registered and \<^verbatim>\<open>maxfd\<close> covers it, if no other thread interferes.\<close>

definition accept_thread :: "nat \<Rightarrow> int \<Rightarrow> sel \<Rightarrow> sel result" where
  "accept_thread k cfd s = rbind (thread_step k cfd None s) (\<lambda>s1. rbind (thread_step k cfd None s1) (\<lambda>s2.
     rbind (thread_step k cfd None s2) (\<lambda>s3. rbind (thread_step k cfd None s3) (thread_step k cfd None))))"

theorem accepted_client_is_registered:
  assumes "k < length (threads s)" "threads s ! k = C_Accept lfd"
  shows "accept_thread k cfd s =
    (if 0 \<le> cfd \<and> cfd < FD_SETSIZE then
       Inr (set_thread k T_Done (s\<lparr>rdset := insert cfd (rdset s), maxfd := max cfd (maxfd s)\<rparr>))
     else Inl Out_Of_Bounds)"
  using assms
  by (auto simp: accept_thread_def thread_step_def set_thread_def fd_set_def)

theorem accepted_client_is_registered_witness:
  "accept_thread 0 (-1) ((sel_start 3)\<lparr>threads := [C_Accept 3]\<rparr>) = Inl Out_Of_Bounds"
  using accepted_client_is_registered [of 0 "(sel_start 3)\<lparr>threads := [C_Accept 3]\<rparr>" 3 "-1"] by simp

text \<open>What a thread sends back for the bytes it read: the bytes in front of the first NUL and a NUL; when ten
  bytes without a NUL fill the buffer, \<^verbatim>\<open>strlen\<close> reads past its end.\<close>

theorem reply_is_the_c_string:
  assumes "length data \<le> 10"
  shows "echo_reply data = (if length data = 10 \<and> no_nul data then Inl Out_Of_Bounds else Inr (cstr data @ [NUL]))"
proof -
  have "cstr (xs @ replicate n NUL) = cstr xs" for xs n
    by (cases n) (simp_all add: cstr_append_nul)
  then show ?thesis using assms by (auto simp: echo_reply_def Let_def no_nul_def)
qed

theorem reply_is_the_c_string_witness:
  "echo_reply ''hi'' = Inr (''hi'' @ [NUL]) \<and> echo_reply ''0123456789'' = Inl Out_Of_Bounds"
  using reply_is_the_c_string [of "''hi''"] reply_is_the_c_string [of "''0123456789''"] by simp

end
