(* ===== verification/BevServer.thy ===== *)
theory BevServer
  imports Prelude
begin

text \<open>
  The three servers of \<^verbatim>\<open>libevent/bufferevent_read_write.c\<close>: upper case echo, proxy and Fibonacci numbers.

  A connection is a \<^verbatim>\<open>bufferevent\<close>; the state holds for each of them what it has received and not yet been
  read, all that was handed to it to be sent, and its callbacks.  libevent calls back for live
  bufferevents only.  How many bytes \<^verbatim>\<open>bufferevent_read\<close> takes is the parameter \<open>rd\<close>; the results of the
  other library functions are arguments of the steps.  \<open>received\<close> records all that has arrived.
\<close>

section \<open>State\<close>

datatype cb_ctx = Proxy_Info nat | Count "64 word" "64 word"

datatype read_cb = Read_Upper | Read_Proxy

record bev =
  inbuf :: string
  outbuf :: string
  readcb :: "read_cb option"
  writecb :: bool
  cb_arg :: "nat option"
  received :: string

record srv =
  bevs :: "nat \<Rightarrow> bev option"
  ctxs :: "nat \<Rightarrow> cb_ctx option"
  next_id :: nat

definition no_srv :: srv where
  "no_srv = \<lparr>bevs = (\<lambda>b. None), ctxs = (\<lambda>c. None), next_id = 0\<rparr>"

section \<open>Callbacks\<close>

partial_function (option) upper_loop :: "(nat \<Rightarrow> string \<Rightarrow> nat) \<Rightarrow> string \<Rightarrow> string \<Rightarrow> (string \<times> string) option" where
  "upper_loop rd inp out =
     (let n = rd 128 inp in
      if n = 0 then Some (inp, out)
      else upper_loop rd (drop n inp) (out @ map toupper (take n inp)))"

definition read_callback_uppercase :: "(nat \<Rightarrow> string \<Rightarrow> nat) \<Rightarrow> nat \<Rightarrow> bev \<Rightarrow> srv \<Rightarrow> srv result option" where
  "read_callback_uppercase rd b v s = (case upper_loop rd (inbuf v) (outbuf v) of
     None \<Rightarrow> None
   | Some (inp, out) \<Rightarrow> Some (Inr (s\<lparr>bevs := (bevs s)(b \<mapsto> v\<lparr>inbuf := inp, outbuf := out\<rparr>)\<rparr>)))"

text \<open>\<^verbatim>\<open>bufferevent_read_buffer\<close> moves the whole input to the output of the other one.\<close>

definition read_callback_proxy :: "nat \<Rightarrow> bev \<Rightarrow> srv \<Rightarrow> srv result" where
  "read_callback_proxy b v s = (case cb_arg v of
     None \<Rightarrow> Inl Null_Deref
   | Some c \<Rightarrow> (case ctxs s c of
        Some (Proxy_Info other) \<Rightarrow> (case bevs s other of
            None \<Rightarrow> Inl Dangling
          | Some w \<Rightarrow> Inr (s\<lparr>bevs := (bevs s)(b \<mapsto> v\<lparr>inbuf := []\<rparr>, other \<mapsto> w\<lparr>outbuf := outbuf w @ inbuf v\<rparr>)\<rparr>))
      | _ \<Rightarrow> Inl Dangling))"

function fib_loop :: "64 word \<Rightarrow> 64 word \<Rightarrow> string \<Rightarrow> 64 word \<times> 64 word \<times> string" where
  "fib_loop last0 last1 tmp =
     (if length tmp < 1024 then
        (let next = last0 + last1 in fib_loop last1 next (tmp @ show_int (uint next) @ '' ''))
      else (last0, last1, tmp))"
  by auto
termination by (relation "measure (\<lambda>(a, b, tmp). 1024 - length tmp)") auto

definition write_callback_fibonacci :: "nat \<Rightarrow> bev \<Rightarrow> srv \<Rightarrow> srv result" where
  "write_callback_fibonacci b v s = (case cb_arg v of
     None \<Rightarrow> Inl Null_Deref
   | Some c \<Rightarrow> (case ctxs s c of
        Some (Count last0 last1) \<Rightarrow> (case fib_loop last0 last1 [] of (x, y, tmp) \<Rightarrow>
          Inr (s\<lparr>bevs := (bevs s)(b \<mapsto> v\<lparr>outbuf := outbuf v @ tmp\<rparr>), ctxs := (ctxs s)(c \<mapsto> Count x y)\<rparr>))
      | _ \<Rightarrow> Inl Dangling))"

definition event_callback :: "nat \<Rightarrow> bev \<Rightarrow> srv \<Rightarrow> srv result" where
  "event_callback b v s = (let s1 = s\<lparr>bevs := (bevs s)(b := None)\<rparr> in
     case cb_arg v of
       None \<Rightarrow> Inr s1
     | Some c \<Rightarrow> if ctxs s1 c = None then Inl Dangling else Inr (s1\<lparr>ctxs := (ctxs s1)(c := None)\<rparr>))"

section \<open>Connections\<close>

definition greeting :: string where
  "greeting = ''Uppercase mode - type something:'' @ [LF]"

text \<open>\<open>made\<close> and \<open>connected\<close> are the results of \<^verbatim>\<open>bufferevent_socket_new\<close> for the client and of
  \<^verbatim>\<open>bufferevent_socket_connect\<close>.\<close>

definition accept_conn_cb :: "int \<Rightarrow> bool \<Rightarrow> bool \<Rightarrow> srv \<Rightarrow> srv result" where
  "accept_conn_cb mode made connected s =
     (let b = next_id s; v = \<lparr>inbuf = [], outbuf = [], readcb = None, writecb = False, cb_arg = None, received = []\<rparr> in
      if \<not> made then Inr s
      else if mode = 1 then
        Inr (s\<lparr>bevs := (bevs s)(b \<mapsto> v\<lparr>readcb := Some Read_Upper, outbuf := take 32 greeting\<rparr>), next_id := b + 1\<rparr>)
      else if mode = 2 then
        (if \<not> connected then Inr (s\<lparr>next_id := b + 2\<rparr>)
         else Inr (s\<lparr>bevs := (bevs s)(b \<mapsto> v\<lparr>readcb := Some Read_Proxy, cb_arg := Some (b + 2)\<rparr>, b + 1 \<mapsto> v\<lparr>readcb := Some Read_Proxy\<rparr>),
                     ctxs := (ctxs s)(b + 2 \<mapsto> Proxy_Info (b + 1)), next_id := b + 3\<rparr>))
      else if mode = 3 then
        (let w = v\<lparr>writecb := True, cb_arg := Some (b + 1)\<rparr> in
         write_callback_fibonacci b w (s\<lparr>bevs := (bevs s)(b \<mapsto> w), ctxs := (ctxs s)(b + 1 \<mapsto> Count 0 1), next_id := b + 2\<rparr>))
      else Inr (s\<lparr>bevs := (bevs s)(b \<mapsto> v), next_id := b + 1\<rparr>))"

datatype bev_event =
    New_Conn bool bool
  | Data nat string    \<comment> \<open>bytes arrive\<close>
  | Drained nat        \<comment> \<open>all output has been sent\<close>
  | Happened nat       \<comment> \<open>connected, end of file or error\<close>

definition srv_step :: "(nat \<Rightarrow> string \<Rightarrow> nat) \<Rightarrow> int \<Rightarrow> bev_event \<Rightarrow> srv \<Rightarrow> srv result option" where
  "srv_step rd mode ev s = (case ev of
     New_Conn made connected \<Rightarrow> Some (accept_conn_cb mode made connected s)
   | Data b d \<Rightarrow> (case bevs s b of None \<Rightarrow> Some (Inr s) | Some v \<Rightarrow>
       (let w = v\<lparr>inbuf := inbuf v @ d, received := received v @ d\<rparr>; s1 = s\<lparr>bevs := (bevs s)(b \<mapsto> w)\<rparr> in
        case readcb v of
          None \<Rightarrow> Some (Inr s)
        | Some Read_Upper \<Rightarrow> read_callback_uppercase rd b w s1
        | Some Read_Proxy \<Rightarrow> Some (read_callback_proxy b w s1)))
   | Drained b \<Rightarrow> (case bevs s b of None \<Rightarrow> Some (Inr s) | Some v \<Rightarrow>
       if writecb v then Some (write_callback_fibonacci b v s) else Some (Inr s))
   | Happened b \<Rightarrow> (case bevs s b of None \<Rightarrow> Some (Inr s) | Some v \<Rightarrow> Some (event_callback b v s)))"

fun srv_run :: "(nat \<Rightarrow> string \<Rightarrow> nat) \<Rightarrow> int \<Rightarrow> bev_event list \<Rightarrow> srv \<Rightarrow> srv result option" where
  "srv_run rd mode [] s = Some (Inr s)"
| "srv_run rd mode (ev # evs) s = (case srv_step rd mode ev s of
     None \<Rightarrow> None
   | Some (Inl e) \<Rightarrow> Some (Inl e)
   | Some (Inr s') \<Rightarrow> srv_run rd mode evs s')"

text \<open>\<^verbatim>\<open>main\<close>: the exit status, or the mode the server runs in.  \<open>base\<close> and \<open>listener\<close> tell whether
  libevent could make them.\<close>

definition bev_main :: "string list \<Rightarrow> bool \<Rightarrow> bool \<Rightarrow> nat + int" where
  "bev_main argv base listener =
     (if length argv \<noteq> 2 then Inl 1
      else let mode = atoi (argv ! 1) in
        if mode < 1 \<or> 3 < mode then Inl 1
        else if \<not> base then Inl 1
        else if \<not> listener then Inl 1
        else Inr mode)"

section \<open>The loops\<close>

text \<open>What the documentation says of \<^verbatim>\<open>bufferevent_read\<close>: it removes up to so many bytes, and none only if
  there are none.\<close>

definition reads :: "(nat \<Rightarrow> string \<Rightarrow> nat) \<Rightarrow> bool" where
  "reads rd \<longleftrightarrow> (\<forall>n s. rd n s \<le> n \<and> rd n s \<le> length s \<and> (rd n s = 0 \<longrightarrow> n = 0 \<or> s = []))"

lemma upper_loop_result:
  assumes "reads rd"
  shows "upper_loop rd inp out = Some ([], out @ map toupper inp)"
proof (induction "length inp" arbitrary: inp out rule: less_induct)
  case less
  let ?n = "rd 128 inp"
  have "?n \<le> 128 \<and> ?n \<le> length inp \<and> (?n = 0 \<longrightarrow> 128 = (0 :: nat) \<or> inp = [])" using assms unfolding reads_def by blast
  then have n: "?n \<le> length inp" "?n = 0 \<Longrightarrow> inp = []" by auto
  show ?case
  proof (cases "?n = 0")
    case True
    then show ?thesis using n(2) by (subst upper_loop.simps) (simp add: Let_def)
  next
    case False
    then have "upper_loop rd (drop ?n inp) (out @ map toupper (take ?n inp)) = Some ([], (out @ map toupper (take ?n inp)) @ map toupper (drop ?n inp))"
      by (intro less) (use n(1) in auto)
    also have "(out @ map toupper (take ?n inp)) @ map toupper (drop ?n inp) = out @ map toupper inp"
      by (simp flip: map_append)
    finally show ?thesis using False by (simp add: upper_loop.simps [of rd inp] Let_def)
  qed
qed

text \<open>The Fibonacci numbers in 64 bits, and the text of a range of them\<close>

fun fib :: "nat \<Rightarrow> nat" where
  "fib 0 = 0" | "fib (Suc 0) = 1" | "fib (Suc (Suc n)) = fib n + fib (Suc n)"

definition fib64 :: "nat \<Rightarrow> 64 word" where
  "fib64 n = of_nat (fib n)"

definition fib_text :: "nat \<Rightarrow> nat \<Rightarrow> string" where
  "fib_text i j = concat (map (\<lambda>k. show_int (uint (fib64 k)) @ '' '') [i ..< j])"

lemma fib64_next: "fib64 n + fib64 (Suc n) = fib64 (Suc (Suc n))"
  by (simp add: fib64_def)

lemma uint_fib64: "uint (fib64 n) = int (fib n) mod 2 ^ 64"
  by (simp add: fib64_def of_nat_mod unsigned_of_nat take_bit_eq_mod)

lemma length_show_word: "length (show_int (uint (w :: 64 word))) \<le> 20" "0 < length (show_int (uint w))"
proof -
  have "unat w < 2 ^ 64" using unsigned_less [of w] by simp
  then have "nat (uint w) < 10 ^ Suc 19" by simp
  then show "length (show_int (uint w)) \<le> 20" using length_nat_digits [of "nat (uint w)" 19] by (simp add: show_int_def)
  show "0 < length (show_int (uint w))" by (auto simp: show_int_def nat_digits.simps)
qed

lemma fib_text_snoc: "i \<le> j \<Longrightarrow> fib_text i (Suc j) = fib_text i j @ show_int (uint (fib64 j)) @ '' ''"
  by (simp add: fib_text_def)

lemma fib_text_append: "i \<le> j \<Longrightarrow> j \<le> k \<Longrightarrow> fib_text i j @ fib_text j k = fib_text i k"
proof -
  assume "i \<le> j" "j \<le> k"
  then have "[i ..< k] = [i ..< j] @ [j ..< k]" by (metis le_Suc_ex upt_add_eq_append)
  then show ?thesis by (simp add: fib_text_def)
qed

declare fib_loop.simps [simp del]

lemma fib_loop_result:
  "i \<le> m + 2 \<Longrightarrow> length (fib_text i (m + 2)) \<le> 1044 \<Longrightarrow>
   \<exists>m' \<ge> m. fib_loop (fib64 m) (fib64 (Suc m)) (fib_text i (m + 2)) = (fib64 m', fib64 (Suc m'), fib_text i (m' + 2)) \<and>
     1024 \<le> length (fib_text i (m' + 2)) \<and> length (fib_text i (m' + 2)) \<le> 1044"
proof (induction "1024 - length (fib_text i (m + 2))" arbitrary: m rule: less_induct)
  case less
  show ?case
  proof (cases "length (fib_text i (m + 2)) < 1024")
    case False
    then show ?thesis using less.prems by (intro exI [of _ m]) (simp add: fib_loop.simps)
  next
    case True
    have s: "fib_text i (Suc m + 2) = fib_text i (m + 2) @ show_int (uint (fib64 (m + 2))) @ '' ''"
      using less.prems(1) fib_text_snoc [of i "m + 2"] by simp
    have b: "length (fib_text i (m + 2)) < length (fib_text i (Suc m + 2))" "length (fib_text i (Suc m + 2)) \<le> 1044"
      unfolding s length_append using True length_show_word [of "fib64 (m + 2)"] by (simp_all del: add_2_eq_Suc')
    have "\<exists>m' \<ge> Suc m. fib_loop (fib64 (Suc m)) (fib64 (Suc (Suc m))) (fib_text i (Suc m + 2)) = (fib64 m', fib64 (Suc m'), fib_text i (m' + 2)) \<and>
      1024 \<le> length (fib_text i (m' + 2)) \<and> length (fib_text i (m' + 2)) \<le> 1044"
      by (rule less.hyps) (use less.prems(1) b True in linarith)+
    then obtain m' where m': "Suc m \<le> m'" "fib_loop (fib64 (Suc m)) (fib64 (Suc (Suc m))) (fib_text i (Suc m + 2)) = (fib64 m', fib64 (Suc m'), fib_text i (m' + 2))"
      "1024 \<le> length (fib_text i (m' + 2))" "length (fib_text i (m' + 2)) \<le> 1044" by blast
    have "fib_loop (fib64 m) (fib64 (Suc m)) (fib_text i (m + 2)) = fib_loop (fib64 (Suc m)) (fib64 (Suc (Suc m))) (fib_text i (Suc m + 2))"
      using True s fib64_next [of m] by (simp add: fib_loop.simps [of "fib64 m"] Let_def)
    then show ?thesis using m' by (intro exI [of _ m']) simp
  qed
qed

section \<open>Properties\<close>

definition upper_ok :: "srv \<Rightarrow> bool" where
  "upper_ok s \<longleftrightarrow> (\<forall>b v. bevs s b = Some v \<longrightarrow> readcb v = Some Read_Upper \<and> \<not> writecb v \<and> cb_arg v = None \<and> inbuf v = [] \<and>
     outbuf v = take 32 greeting @ map toupper (received v))"

lemma upper_step:
  assumes "reads rd" "upper_ok s"
  shows "\<exists>s'. srv_step rd 1 ev s = Some (Inr s') \<and> upper_ok s'"
  using assms
  by (cases ev) (auto simp: srv_step_def accept_conn_cb_def read_callback_uppercase_def upper_loop_result event_callback_def upper_ok_def Let_def
      split: option.splits)

lemma reads_min: "reads (\<lambda>n s. min n (length s))"
  unfolding reads_def by (auto simp: min_def split: if_splits)

text \<open>C36: When \<^verbatim>\<open>bufferevent_read\<close> keeps its contract (and writing to a buffer always succeeds), the upper case server
  never fails and never hangs: each live connection has been sent the greeting,
  cut off in front of its newline, and after it all that it has received, in upper case and in order.\<close>

theorem uppercase_server_echoes:
  assumes "reads rd"
  shows "\<exists>s. srv_run rd 1 evs no_srv = Some (Inr s) \<and>
    (\<forall>b v. bevs s b = Some v \<longrightarrow> inbuf v = [] \<and> outbuf v = ''Uppercase mode - type something:'' @ map toupper (received v))"
proof -
  have "upper_ok s \<Longrightarrow> \<exists>s'. srv_run rd 1 evs s = Some (Inr s') \<and> upper_ok s'" for s
  proof (induction evs arbitrary: s)
    case (Cons ev evs)
    then show ?case using upper_step [OF assms, of s ev] by auto
  qed simp
  moreover have "upper_ok no_srv" by (simp add: upper_ok_def no_srv_def)
  ultimately show ?thesis unfolding upper_ok_def by (fastforce simp: greeting_def)
qed

lemma map_toupper_abc: "map toupper ''abc'' = ''ABC''"
  by code_simp

theorem uppercase_server_echoes_witness:
  "\<exists>s. srv_run (\<lambda>n s. min n (length s)) 1 [New_Conn True True, Data 0 ''abc''] no_srv = Some (Inr s) \<and>
    map_option outbuf (bevs s 0) = Some (''Uppercase mode - type something:ABC'')"
proof -
  obtain s where s: "srv_run (\<lambda>n s. min n (length s)) 1 [New_Conn True True, Data 0 ''abc''] no_srv = Some (Inr s)"
    "\<forall>b v. bevs s b = Some v \<longrightarrow> inbuf v = [] \<and> outbuf v = ''Uppercase mode - type something:'' @ map toupper (received v)"
    using uppercase_server_echoes [OF reads_min] by blast
  have "\<exists>v. bevs s 0 = Some v \<and> received v = ''abc''"
    using s(1) by (auto simp: srv_step_def accept_conn_cb_def no_srv_def read_callback_uppercase_def upper_loop_result [OF reads_min])
  then obtain v where v: "bevs s 0 = Some v" "received v = ''abc''" by blast
  then have "outbuf v = ''Uppercase mode - type something:'' @ map toupper ''abc''" using s(2) by metis
  then have "map_option outbuf (bevs s 0) = Some (''Uppercase mode - type something:ABC'')"
    using v(1) map_toupper_abc by simp
  then show ?thesis using s(1) by blast
qed

definition fib_conn :: "srv \<Rightarrow> nat \<Rightarrow> bev \<Rightarrow> bool" where
  "fib_conn s b v \<longleftrightarrow> readcb v = None \<and> writecb v \<and> b < next_id s \<and> (\<exists>c m. cb_arg v = Some c \<and> c < next_id s \<and>
     ctxs s c = Some (Count (fib64 m) (fib64 (Suc m))) \<and> outbuf v = fib_text 2 (m + 2) \<and> 1024 \<le> length (outbuf v))"

definition fib_ok :: "srv \<Rightarrow> bool" where
  "fib_ok s \<longleftrightarrow> (\<forall>b v. bevs s b = Some v \<longrightarrow> fib_conn s b v) \<and>
   (\<forall>b b' v v'. bevs s b = Some v \<longrightarrow> bevs s b' = Some v' \<longrightarrow> cb_arg v = cb_arg v' \<longrightarrow> b = b')"

text \<open>A connection with an argument of its own is added, replaced or removed.\<close>

lemma fib_ok_update:
  assumes ok: "fib_ok s" and s': "bevs s' = (bevs s)(b := r)" "ctxs s' = (ctxs s)(c := x)" "next_id s \<le> next_id s'"
    and r: "\<And>v. r = Some v \<Longrightarrow> fib_conn s' b v \<and> cb_arg v = Some c"
    and own: "\<And>b' v'. bevs s b' = Some v' \<Longrightarrow> b' \<noteq> b \<Longrightarrow> cb_arg v' \<noteq> Some c"
  shows "fib_ok s'"
  unfolding fib_ok_def
proof (intro conjI allI impI)
  show "fib_conn s' b' v" if "bevs s' b' = Some v" for b' v
  proof (cases "b' = b")
    case True
    then show ?thesis using that s'(1) r by simp
  next
    case False
    then have v: "bevs s b' = Some v" using that s'(1) by simp
    then have "fib_conn s b' v" "cb_arg v \<noteq> Some c" using ok own False by (auto simp: fib_ok_def)
    then show ?thesis using s'(2,3) by (auto simp: fib_conn_def)
  qed
  show "b1 = b2" if "bevs s' b1 = Some v1" "bevs s' b2 = Some v2" "cb_arg v1 = cb_arg v2" for b1 b2 v1 v2
  proof (cases "b1 = b \<or> b2 = b")
    case True
    then show ?thesis using that s'(1) r own by (metis fun_upd_apply)
  next
    case False
    then show ?thesis using that s'(1) ok unfolding fib_ok_def by (metis fun_upd_apply)
  qed
qed

lemma write_fib_result:
  assumes "cb_arg v = Some c" "ctxs s c = Some (Count (fib64 m) (fib64 (Suc m)))" "outbuf v = fib_text 2 (m + 2)"
  obtains m' where "write_callback_fibonacci b v s =
      Inr (s\<lparr>bevs := (bevs s)(b \<mapsto> v\<lparr>outbuf := fib_text 2 (m' + 2)\<rparr>), ctxs := (ctxs s)(c \<mapsto> Count (fib64 m') (fib64 (Suc m')))\<rparr>)"
    "length (outbuf v) + 1024 \<le> length (fib_text 2 (m' + 2))" "length (fib_text 2 (m' + 2)) \<le> length (outbuf v) + 1044"
proof -
  obtain m' where m': "m \<le> m'" "fib_loop (fib64 m) (fib64 (Suc m)) (fib_text (m + 2) (m + 2)) = (fib64 m', fib64 (Suc m'), fib_text (m + 2) (m' + 2))"
    "1024 \<le> length (fib_text (m + 2) (m' + 2))" "length (fib_text (m + 2) (m' + 2)) \<le> 1044"
    using fib_loop_result [of "m + 2" m] by (auto simp: fib_text_def)
  have "fib_text 2 (m + 2) @ fib_text (m + 2) (m' + 2) = fib_text 2 (m' + 2)" using m'(1) by (intro fib_text_append) auto
  moreover from this have "length (fib_text 2 (m' + 2)) = length (fib_text 2 (m + 2)) + length (fib_text (m + 2) (m' + 2))"
    by (metis length_append)
  moreover have "fib_text (m + 2) (m + 2) = []" by (simp add: fib_text_def)
  ultimately show ?thesis
    using that [of m'] m' assms by (auto simp: write_callback_fibonacci_def)
qed

lemma fib_step:
  assumes "fib_ok s"
  shows "\<exists>s'. srv_step rd 3 ev s = Some (Inr s') \<and> fib_ok s'"
proof (cases ev)
  case (New_Conn made connected)
  show ?thesis
  proof (cases made)
    case True
    let ?b = "next_id s"
    let ?w = "\<lparr>inbuf = [], outbuf = [], readcb = None, writecb = True, cb_arg = Some (?b + 1), received = []\<rparr>"
    let ?s = "s\<lparr>bevs := (bevs s)(?b \<mapsto> ?w), ctxs := (ctxs s)(?b + 1 \<mapsto> Count 0 1), next_id := ?b + 2\<rparr>"
    obtain m' where m': "write_callback_fibonacci ?b ?w ?s =
        Inr (?s\<lparr>bevs := (bevs ?s)(?b \<mapsto> ?w\<lparr>outbuf := fib_text 2 (m' + 2)\<rparr>), ctxs := (ctxs ?s)(?b + 1 \<mapsto> Count (fib64 m') (fib64 (Suc m')))\<rparr>)"
      "1024 \<le> length (fib_text 2 (m' + 2))"
      by (rule write_fib_result [of ?w "?b + 1" ?s 0 ?b]) (auto simp: fib64_def fib_text_def)
    have own: "cb_arg v' \<noteq> Some (?b + 1)" if "bevs s b' = Some v'" for b' v'
    proof -
      have "fib_conn s b' v'" using assms that unfolding fib_ok_def by blast
      then show ?thesis by (auto simp: fib_conn_def)
    qed
    have "fib_ok (?s\<lparr>bevs := (bevs ?s)(?b \<mapsto> ?w\<lparr>outbuf := fib_text 2 (m' + 2)\<rparr>), ctxs := (ctxs ?s)(?b + 1 \<mapsto> Count (fib64 m') (fib64 (Suc m')))\<rparr>)"
      by (rule fib_ok_update [OF assms, of _ ?b "Some (?w\<lparr>outbuf := fib_text 2 (m' + 2)\<rparr>)" "?b + 1"])
        (use own m'(2) in \<open>auto simp: fib_conn_def\<close>)
    then show ?thesis using New_Conn True m'(1) by (simp add: srv_step_def accept_conn_cb_def Let_def)
  qed (use New_Conn assms in \<open>simp add: srv_step_def accept_conn_cb_def Let_def\<close>)
next
  case (Data b d)
  then show ?thesis using assms by (auto simp: srv_step_def fib_ok_def fib_conn_def Let_def split: option.splits)
next
  case (Drained b)
  show ?thesis
  proof (cases "bevs s b")
    case (Some v)
    obtain c m where v: "writecb v" "cb_arg v = Some c" "ctxs s c = Some (Count (fib64 m) (fib64 (Suc m)))" "outbuf v = fib_text 2 (m + 2)"
      "1024 \<le> length (outbuf v)" "readcb v = None" "b < next_id s" "c < next_id s"
    proof -
      have "fib_conn s b v" using assms Some unfolding fib_ok_def by blast
      then show ?thesis using that unfolding fib_conn_def by blast
    qed
    obtain m' where m': "write_callback_fibonacci b v s =
      Inr (s\<lparr>bevs := (bevs s)(b \<mapsto> v\<lparr>outbuf := fib_text 2 (m' + 2)\<rparr>), ctxs := (ctxs s)(c \<mapsto> Count (fib64 m') (fib64 (Suc m')))\<rparr>)"
      "length (outbuf v) + 1024 \<le> length (fib_text 2 (m' + 2))"
      by (rule write_fib_result [OF v(2-4)])
    have own: "cb_arg v' \<noteq> Some c" if "bevs s b' = Some v'" "b' \<noteq> b" for b' v'
      using assms Some that v(2) unfolding fib_ok_def by metis
    have "fib_ok (s\<lparr>bevs := (bevs s)(b \<mapsto> v\<lparr>outbuf := fib_text 2 (m' + 2)\<rparr>), ctxs := (ctxs s)(c \<mapsto> Count (fib64 m') (fib64 (Suc m')))\<rparr>)"
      by (rule fib_ok_update [OF assms, of _ b "Some (v\<lparr>outbuf := fib_text 2 (m' + 2)\<rparr>)" c])
        (use own Some v m'(2) in \<open>auto simp: fib_conn_def\<close>)
    then show ?thesis using Drained Some v(1) m'(1) by (simp add: srv_step_def)
  qed (use Drained assms in \<open>simp add: srv_step_def\<close>)
next
  case (Happened b)
  show ?thesis
  proof (cases "bevs s b")
    case (Some v)
    have "fib_conn s b v" using assms Some unfolding fib_ok_def by blast
    then obtain c where c: "cb_arg v = Some c" "ctxs s c \<noteq> None" unfolding fib_conn_def by blast
    have own: "cb_arg v' \<noteq> Some c" if "bevs s b' = Some v'" "b' \<noteq> b" for b' v'
      using assms Some that c(1) unfolding fib_ok_def by metis
    have "fib_ok (s\<lparr>bevs := (bevs s)(b := None), ctxs := (ctxs s)(c := None)\<rparr>)"
      by (rule fib_ok_update [OF assms, of _ b None c]) (use own in auto)
    then show ?thesis using Happened Some c by (simp add: srv_step_def event_callback_def Let_def)
  qed (use Happened assms in \<open>simp add: srv_step_def\<close>)
qed

text \<open>The Fibonacci server never fails: what each live connection has been sent is the text of the Fibonacci
  numbers from the second on, modulo 2 to the power of 64, in order and without a gap, and each call of the write
  callback adds between 1024 and 1044 bytes of it.\<close>

theorem fibonacci_server_sends_the_sequence:
  "\<exists>s. srv_run rd 3 evs no_srv = Some (Inr s) \<and>
    (\<forall>b v. bevs s b = Some v \<longrightarrow> (\<exists>m. outbuf v = concat (map (\<lambda>k. show_int (int (fib k) mod 2 ^ 64) @ '' '') [2 ..< m])) \<and>
       (\<exists>s' v'. srv_step rd 3 (Drained b) s = Some (Inr s') \<and> bevs s' b = Some v' \<and>
         length (outbuf v) + 1024 \<le> length (outbuf v') \<and> length (outbuf v') \<le> length (outbuf v) + 1044))"
proof -
  have "fib_ok s \<Longrightarrow> \<exists>s'. srv_run rd 3 evs s = Some (Inr s') \<and> fib_ok s'" for s
  proof (induction evs arbitrary: s)
    case (Cons ev evs)
    then show ?case using fib_step [of s rd ev] by auto
  qed simp
  moreover have "fib_ok no_srv" by (simp add: fib_ok_def no_srv_def)
  ultimately obtain s where s: "srv_run rd 3 evs no_srv = Some (Inr s)" "fib_ok s" by blast
  have "(\<exists>m. outbuf v = concat (map (\<lambda>k. show_int (int (fib k) mod 2 ^ 64) @ '' '') [2 ..< m])) \<and>
       (\<exists>s' v'. srv_step rd 3 (Drained b) s = Some (Inr s') \<and> bevs s' b = Some v' \<and>
         length (outbuf v) + 1024 \<le> length (outbuf v') \<and> length (outbuf v') \<le> length (outbuf v) + 1044)"
    if v: "bevs s b = Some v" for b v
  proof -
    have "fib_conn s b v" using s(2) v unfolding fib_ok_def by blast
    then obtain c m where c: "writecb v" "cb_arg v = Some c" "ctxs s c = Some (Count (fib64 m) (fib64 (Suc m)))" "outbuf v = fib_text 2 (m + 2)"
      unfolding fib_conn_def by blast
    obtain m' where m': "write_callback_fibonacci b v s =
      Inr (s\<lparr>bevs := (bevs s)(b \<mapsto> v\<lparr>outbuf := fib_text 2 (m' + 2)\<rparr>), ctxs := (ctxs s)(c \<mapsto> Count (fib64 m') (fib64 (Suc m')))\<rparr>)"
      "length (outbuf v) + 1024 \<le> length (fib_text 2 (m' + 2))" "length (fib_text 2 (m' + 2)) \<le> length (outbuf v) + 1044"
      by (rule write_fib_result [OF c(2-4)])
    have "outbuf v = concat (map (\<lambda>k. show_int (int (fib k) mod 2 ^ 64) @ '' '') [2 ..< m + 2])"
      using c(4) by (simp only: fib_text_def uint_fib64)
    moreover have "srv_step rd 3 (Drained b) s = Some (write_callback_fibonacci b v s)" using c(1) v by (simp add: srv_step_def)
    ultimately show ?thesis using m' by (intro conjI) (rule exI, assumption, simp del: add_2_eq_Suc')
  qed
  then show ?thesis using s(1) by blast
qed

theorem fibonacci_server_sends_the_sequence_witness:
  "\<exists>s v m. srv_run (\<lambda>n s. 0) 3 [New_Conn True True] no_srv = Some (Inr s) \<and> bevs s 0 = Some v \<and>
    outbuf v = concat (map (\<lambda>k. show_int (int (fib k) mod 2 ^ 64) @ '' '') [2 ..< m])"
proof -
  obtain s where s: "srv_run (\<lambda>n s. 0) 3 [New_Conn True True] no_srv = Some (Inr s)"
    "\<And>b v. bevs s b = Some v \<Longrightarrow> \<exists>m. outbuf v = concat (map (\<lambda>k. show_int (int (fib k) mod 2 ^ 64) @ '' '') [2 ..< m])"
    using fibonacci_server_sends_the_sequence [of "\<lambda>n s. 0" "[New_Conn True True]"] by blast
  have "\<exists>v. bevs s 0 = Some v"
    using s(1) by (auto simp: srv_step_def accept_conn_cb_def no_srv_def write_callback_fibonacci_def Let_def split: prod.splits)
  then show ?thesis using s by blast
qed

text \<open>The proxy forwards only while it is not yet connected: whatever happens on the connection to the target,
  success included, frees its bufferevent, and the next bytes of the client are moved into freed memory;
  bytes from the target are read through a null pointer.\<close>

theorem proxy_uses_its_freed_target:
  assumes "accept_conn_cb 2 True True s = Inr s1" "b = next_id s" "target = next_id s + 1"
  shows "(\<exists>s2 w. srv_run rd 2 [Data b d] s1 = Some (Inr s2) \<and> bevs s2 target = Some w \<and> outbuf w = d) \<and>
    srv_run rd 2 [Happened target, Data b d] s1 = Some (Inl Dangling) \<and>
    srv_run rd 2 [Data target d] s1 = Some (Inl Null_Deref)"
  using assms
  by (auto simp: accept_conn_cb_def srv_step_def read_callback_proxy_def event_callback_def Let_def)

theorem proxy_uses_its_freed_target_witness:
  "\<exists>s1. accept_conn_cb 2 True True no_srv = Inr s1 \<and> srv_run (\<lambda>n s. 0) 2 [Happened 1, Data 0 ''GET''] s1 = Some (Inl Dangling)"
  using proxy_uses_its_freed_target [OF _ refl refl, of no_srv _ "\<lambda>n s. 0" "''GET''"]
  by (auto simp: accept_conn_cb_def no_srv_def Let_def)

end
