(* ===== verification/EpollClient.thy ===== *)
theory EpollClient
  imports Prelude
begin

text \<open>
  The client of the epoll servers, \<^verbatim>\<open>epoll/epoll_client.cpp\<close>.

  The main thread reads lines and sends them, a second thread prints what the server sends; they share
  \<^verbatim>\<open>running_\<close>.  A step of a thread is what it does between two accesses to \<^verbatim>\<open>running_\<close> or two calls that can
  wait.  What the calls of the system return is an argument of the step.  \<open>typed\<close> are the lines that are
  still to come from the standard input; at its end \<^verbatim>\<open>getline\<close> leaves an empty line.  \<open>sent\<close> and \<open>shown\<close>
  record what each call of \<^verbatim>\<open>send\<close> took and what was printed.
\<close>

section \<open>Start\<close>

datatype start_error = No_Socket | Invalid_Address | No_Epoll

text \<open>The constructor: the descriptors it has opened, and its exception.  The destructor, which would close
  them, runs only when the constructor has returned.\<close>

definition epoll_client :: "int \<Rightarrow> bool \<Rightarrow> int \<Rightarrow> start_error option \<times> int list" where
  "epoll_client sockfd address epoll_fd =
     (if sockfd = -1 then (Some No_Socket, [])
      else if \<not> address then (Some Invalid_Address, [sockfd])
      else if epoll_fd = -1 then (Some No_Epoll, [sockfd])
      else (None, [sockfd, epoll_fd]))"

definition close_client :: "int list \<Rightarrow> int list" where
  "close_client fds = []"

text \<open>\<^verbatim>\<open>main\<close> up to \<^verbatim>\<open>run\<close>: the exit status if it ends there, and the descriptors left open\<close>

definition client_main :: "nat \<Rightarrow> bool \<Rightarrow> int \<Rightarrow> bool \<Rightarrow> int \<Rightarrow> bool \<Rightarrow> int option \<times> int list" where
  "client_main argc port_is_number sockfd address epoll_fd connected =
     (if argc \<noteq> 3 then (Some 1, [])
      else if \<not> port_is_number then (Some 1, [])
      else (case epoll_client sockfd address epoll_fd of
          (Some e, fds) \<Rightarrow> (Some 1, fds)
        | (None, fds) \<Rightarrow> if connected then (None, fds) else (Some 1, close_client fds)))"

section \<open>The two threads\<close>

datatype input_pc =
    I_Test             \<comment> \<open>line 175\<close>
  | I_Get              \<comment> \<open>line 178\<close>
  | I_Check string     \<comment> \<open>lines 180 to 188\<close>
  | I_Send string      \<comment> \<open>line 190\<close>
  | I_Stop             \<comment> \<open>line 83\<close>
  | I_Join             \<comment> \<open>line 84\<close>
  | I_Returned

datatype network_pc =
    N_Test             \<comment> \<open>line 110\<close>
  | N_Wait             \<comment> \<open>line 112\<close>
  | N_Recv bool        \<comment> \<open>line 147; whether the event has one of the error flags\<close>
  | N_Check bool       \<comment> \<open>line 129\<close>
  | N_Ended

record client =
  running :: bool
  in_pc :: input_pc
  net_pc :: network_pc
  typed :: "string list"
  sent :: "string list"
  shown :: "string list"

definition connected_client :: "string list \<Rightarrow> client" where
  "connected_client lines = \<lparr>running = True, in_pc = I_Test, net_pc = N_Test, typed = lines, sent = [], shown = []\<rparr>"

text \<open>\<open>taken\<close> is the result of \<^verbatim>\<open>send\<close>: the number of bytes it took, or \<open>None\<close> for -1.\<close>

definition input_step :: "nat option \<Rightarrow> client \<Rightarrow> client option" where
  "input_step taken s = (case in_pc s of
     I_Test \<Rightarrow> Some (s\<lparr>in_pc := (if running s then I_Get else I_Stop)\<rparr>)
   | I_Get \<Rightarrow> Some (case typed s of
        [] \<Rightarrow> s\<lparr>in_pc := I_Check []\<rparr>
      | l # ls \<Rightarrow> s\<lparr>in_pc := I_Check l, typed := ls\<rparr>)
   | I_Check l \<Rightarrow> Some
       (if \<not> running s then s\<lparr>in_pc := I_Stop\<rparr>
        else if l = ''quit'' then s\<lparr>running := False, in_pc := I_Stop\<rparr>
        else s\<lparr>in_pc := I_Send l\<rparr>)
   | I_Send l \<Rightarrow> Some (case taken of
        None \<Rightarrow> s\<lparr>running := False, in_pc := I_Stop\<rparr>
      | Some n \<Rightarrow> s\<lparr>sent := sent s @ [take n l], in_pc := I_Test\<rparr>)
   | I_Stop \<Rightarrow> Some (s\<lparr>running := False, in_pc := I_Join\<rparr>)
   | I_Join \<Rightarrow> if net_pc s = N_Ended then Some (s\<lparr>in_pc := I_Returned\<rparr>) else None
   | I_Returned \<Rightarrow> None)"

datatype wait_result = Timed_Out | Interrupted | Wait_Failed | Event bool bool
datatype recv_result = No_More | Recv_Failed | Disconnected | Received string

definition network_step :: "wait_result \<Rightarrow> recv_result \<Rightarrow> client \<Rightarrow> client option" where
  "network_step wait recv s = (case net_pc s of
     N_Test \<Rightarrow> Some (s\<lparr>net_pc := (if running s then N_Wait else N_Ended)\<rparr>)
   | N_Wait \<Rightarrow> Some (s\<lparr>net_pc := (case wait of
        Timed_Out \<Rightarrow> N_Test | Interrupted \<Rightarrow> N_Test | Wait_Failed \<Rightarrow> N_Ended
      | Event readable bad \<Rightarrow> if readable then N_Recv bad else N_Check bad)\<rparr>)
   | N_Recv bad \<Rightarrow> Some (case recv of
        No_More \<Rightarrow> s\<lparr>net_pc := N_Check bad\<rparr>
      | Recv_Failed \<Rightarrow> s\<lparr>running := False, net_pc := N_Check bad\<rparr>
      | Disconnected \<Rightarrow> s\<lparr>running := False, net_pc := N_Check bad\<rparr>
      | Received bytes \<Rightarrow> s\<lparr>shown := shown s @ [cstr (take 1023 bytes)]\<rparr>)
   | N_Check bad \<Rightarrow> Some (if bad then s\<lparr>running := False, net_pc := N_Ended\<rparr> else s\<lparr>net_pc := N_Test\<rparr>)
   | N_Ended \<Rightarrow> None)"

inductive client_move :: "client \<Rightarrow> client \<Rightarrow> bool" where
  by_input: "input_step taken s = Some s' \<Longrightarrow> client_move s s'"
| by_network: "network_step wait recv s = Some s' \<Longrightarrow> client_move s s'"

inductive client_reachable :: "string list \<Rightarrow> client \<Rightarrow> bool" for lines where
  connected: "client_reachable lines (connected_client lines)"
| moved: "client_reachable lines s \<Longrightarrow> client_move s s' \<Longrightarrow> client_reachable lines s'"

section \<open>The invariant\<close>

text \<open>What the lines read so far and the line in hand are, at the end of the input\<close>

fun in_hand :: "input_pc \<Rightarrow> string list" where
  "in_hand (I_Check l) = [l]" | "in_hand (I_Send l) = [l]" | "in_hand _ = []"

definition prefixes :: "string list \<Rightarrow> string list \<Rightarrow> bool" where
  "prefixes = list_all2 (\<lambda>s l. \<exists>n. s = take n l)"

definition active :: "input_pc \<Rightarrow> bool" where
  "active p \<longleftrightarrow> p \<noteq> I_Stop \<and> p \<noteq> I_Join \<and> p \<noteq> I_Returned"

definition client_inv :: "string list \<Rightarrow> client \<Rightarrow> bool" where
  "client_inv lines s \<longleftrightarrow> in_pc s \<noteq> I_Send ''quit'' \<and> (in_pc s \<in> {I_Join, I_Returned} \<longrightarrow> \<not> running s) \<and>
     (in_pc s = I_Returned \<longrightarrow> net_pc s = N_Ended) \<and>
     (\<exists>got blank rest. prefixes (sent s) got \<and> ''quit'' \<notin> set got \<and> lines @ replicate blank [] = got @ rest \<and>
        (active (in_pc s) \<longrightarrow> rest = in_hand (in_pc s) @ typed s \<and> (0 < blank \<longrightarrow> typed s = [])))"

lemma prefixes_snoc: "prefixes ss ls \<Longrightarrow> prefixes (ss @ [take n l]) (ls @ [l])"
  unfolding prefixes_def by (intro list_all2_appendI) auto

lemma input_step_inv:
  assumes inv: "client_inv lines s" and step: "input_step taken s = Some s'"
  shows "client_inv lines s'"
proof -
  obtain got blank rest where g: "prefixes (sent s) got" "''quit'' \<notin> set got" "lines @ replicate blank [] = got @ rest"
    "active (in_pc s) \<Longrightarrow> rest = in_hand (in_pc s) @ typed s" "active (in_pc s) \<Longrightarrow> 0 < blank \<Longrightarrow> typed s = []"
    and q: "in_pc s \<noteq> I_Send ''quit''" "in_pc s \<in> {I_Join, I_Returned} \<Longrightarrow> \<not> running s"
    using inv unfolding client_inv_def by blast
  have stop: "client_inv lines s1" if "sent s1 = sent s" "\<not> active (in_pc s1)" "in_pc s1 \<in> {I_Join, I_Returned} \<Longrightarrow> \<not> running s1"
    "in_pc s1 = I_Returned \<Longrightarrow> net_pc s1 = N_Ended" for s1
    unfolding client_inv_def using that g(1-3) by (auto simp: active_def)
  have go: "client_inv lines s1"
    if "prefixes (sent s1) got'" "''quit'' \<notin> set got'" "lines @ replicate k [] = got' @ in_hand (in_pc s1) @ typed s1"
      "0 < k \<Longrightarrow> typed s1 = []" "in_pc s1 \<noteq> I_Send ''quit''" "active (in_pc s1)" for s1 got' k
    unfolding client_inv_def using that by (auto simp: active_def)
  show ?thesis
  proof (cases "in_pc s")
    case I_Test
    then have e: "lines @ replicate blank [] = got @ typed s" "0 < blank \<Longrightarrow> typed s = []" using g by (simp_all add: active_def)
    have "client_inv lines (s\<lparr>in_pc := I_Get\<rparr>)"
      by (rule go [of _ got blank]) (use g(1,2) e in \<open>simp_all add: active_def\<close>)
    then show ?thesis
      using step I_Test stop [of "s\<lparr>in_pc := I_Stop\<rparr>"] by (simp add: input_step_def active_def split: if_splits)
  next
    case I_Get
    then have e: "lines @ replicate blank [] = got @ typed s" "0 < blank \<Longrightarrow> typed s = []" using g by (simp_all add: active_def)
    show ?thesis
    proof (cases "typed s")
      case Nil
      then have "lines @ replicate (Suc blank) [] = got @ [[]]" using e(1) by (simp add: replicate_append_same [symmetric])
      then have "client_inv lines (s\<lparr>in_pc := I_Check []\<rparr>)"
        by (intro go [of _ got "Suc blank"]) (use g(1,2) Nil in \<open>simp_all add: active_def\<close>)
      then show ?thesis using step I_Get Nil by (simp add: input_step_def)
    next
      case (Cons l ls)
      then have "blank = 0" using e(2) by auto
      then have "client_inv lines (s\<lparr>in_pc := I_Check l, typed := ls\<rparr>)"
        by (intro go [of _ got 0]) (use g(1,2) e(1) Cons in \<open>simp_all add: active_def\<close>)
      then show ?thesis using step I_Get Cons by (simp add: input_step_def)
    qed
  next
    case (I_Check l)
    then have e: "lines @ replicate blank [] = got @ l # typed s" "0 < blank \<Longrightarrow> typed s = []" using g by (simp_all add: active_def)
    have "client_inv lines (s\<lparr>in_pc := I_Send l\<rparr>)" if "l \<noteq> ''quit''"
      by (rule go [of _ got blank]) (use g(1,2) e that in \<open>simp_all add: active_def\<close>)
    then show ?thesis
      using step I_Check stop [of "s\<lparr>in_pc := I_Stop\<rparr>"] stop [of "s\<lparr>running := False, in_pc := I_Stop\<rparr>"]
      by (simp add: input_step_def active_def split: if_splits)
  next
    case (I_Send l)
    then have e: "lines @ replicate blank [] = (got @ [l]) @ typed s" "0 < blank \<Longrightarrow> typed s = []" using g by (simp_all add: active_def)
    have l: "''quit'' \<notin> set (got @ [l])" using g(2) q(1) I_Send by auto
    have "client_inv lines (s\<lparr>sent := sent s @ [take n l], in_pc := I_Test\<rparr>)" for n
      by (rule go [of _ "got @ [l]" blank]) (use prefixes_snoc [OF g(1)] l e in \<open>simp_all add: active_def\<close>)
    then show ?thesis
      using step I_Send stop [of "s\<lparr>running := False, in_pc := I_Stop\<rparr>"] by (auto simp: input_step_def active_def split: option.splits)
  next
    case I_Stop
    then have "s' = s\<lparr>running := False, in_pc := I_Join\<rparr>" using step by (simp add: input_step_def)
    then show ?thesis using stop [of s'] by (simp add: active_def)
  next
    case I_Join
    then show ?thesis using step q(2) stop [of "s\<lparr>in_pc := I_Returned\<rparr>"] by (auto simp: input_step_def active_def split: if_splits)
  qed (use step in \<open>simp add: input_step_def\<close>)
qed

lemma network_step_inv:
  assumes inv: "client_inv lines s" and step: "network_step wait recv s = Some s'"
  shows "client_inv lines s'"
proof -
  have same: "in_pc s' = in_pc s" "typed s' = typed s" "sent s' = sent s" "running s' \<Longrightarrow> running s" "net_pc s \<noteq> N_Ended"
    using step by (auto simp: network_step_def split: network_pc.splits recv_result.splits if_splits)
  then show ?thesis using inv unfolding client_inv_def by auto
qed

lemma client_reachable_inv: "client_reachable lines s \<Longrightarrow> client_inv lines s"
proof (induction rule: client_reachable.induct)
  case connected
  show ?case by (auto simp: client_inv_def connected_client_def prefixes_def active_def intro!: exI [of _ "[]"] exI [of _ 0])
next
  case (moved s s')
  from moved(2,3) show ?case by cases (auto intro: input_step_inv network_step_inv)
qed

section \<open>Properties\<close>

text \<open>The client sends the lines typed in front of \<^verbatim>\<open>quit\<close>, in order, each at most once and cut off where \<^verbatim>\<open>send\<close>
  took only a part; behind the end of the input it sends empty lines.  When \<^verbatim>\<open>run\<close> returns the second
  thread has ended.\<close>

theorem typed_lines_are_sent:
  assumes "client_reachable lines s"
  shows "(\<exists>n blank. prefixes (sent s) (take n (lines @ replicate blank [])) \<and> ''quit'' \<notin> set (take n (lines @ replicate blank []))) \<and>
    (in_pc s = I_Returned \<longrightarrow> net_pc s = N_Ended \<and> \<not> running s)"
proof -
  have inv: "client_inv lines s" by (rule client_reachable_inv [OF assms])
  then obtain got blank rest where g: "prefixes (sent s) got" "''quit'' \<notin> set got" "lines @ replicate blank [] = got @ rest"
    unfolding client_inv_def by blast
  have "take (length got) (lines @ replicate blank []) = got" using g(3) by simp
  then have "prefixes (sent s) (take (length got) (lines @ replicate blank [])) \<and>
      ''quit'' \<notin> set (take (length got) (lines @ replicate blank []))"
    using g(1,2) by simp
  moreover have "in_pc s = I_Returned \<longrightarrow> net_pc s = N_Ended \<and> \<not> running s" using inv unfolding client_inv_def by simp
  ultimately show ?thesis by blast
qed

theorem typed_lines_are_sent_witness:
  "\<exists>n blank. prefixes (sent (connected_client [''hi''])) (take n ([''hi''] @ replicate blank []))"
  using typed_lines_are_sent [OF client_reachable.connected [of "[''hi'']"]] by blast

lemma empty_line_round:
  assumes "client_reachable lines s" "in_pc s = I_Test" "running s" "typed s = []"
  shows "client_reachable lines (s\<lparr>sent := sent s @ [[]]\<rparr>)"
proof -
  have step: "client_reachable lines s2" if "client_reachable lines s1" "input_step (Some 0) s1 = Some s2" for s1 s2
    using that by (blast intro: client_reachable.moved client_move.by_input)
  have "client_reachable lines (s\<lparr>in_pc := I_Get\<rparr>)" by (rule step [OF assms(1)]) (simp add: input_step_def assms)
  then have "client_reachable lines (s\<lparr>in_pc := I_Check []\<rparr>)" by (rule step) (simp add: input_step_def assms)
  then have "client_reachable lines (s\<lparr>in_pc := I_Send []\<rparr>)" by (rule step) (simp add: input_step_def assms)
  then have "client_reachable lines (s\<lparr>sent := sent s @ [[]], in_pc := I_Test\<rparr>)" by (rule step) (simp add: input_step_def assms)
  then show ?thesis using assms(2) by (cases s) simp
qed

text \<open>At the end of the input the client does not stop: it goes on sending empty lines, as many as one likes.\<close>

theorem end_of_input_is_not_noticed:
  "\<exists>s. client_reachable [] s \<and> running s \<and> in_pc s = I_Test \<and> sent s = replicate n []"
proof (induction n)
  case 0
  show ?case by (rule exI [of _ "connected_client []"]) (use client_reachable.connected [of "[]"] in \<open>simp add: connected_client_def\<close>)
next
  case (Suc n)
  then obtain s where s: "client_reachable [] s" "running s" "in_pc s = I_Test" "sent s = replicate n []" by blast
  have "typed s = []"
  proof -
    have "client_inv [] s" by (rule client_reachable_inv [OF s(1)])
    then obtain got blank where "replicate blank [] = got @ typed s" "0 < blank \<Longrightarrow> typed s = []"
      using s(3) by (auto simp: client_inv_def active_def)
    then show ?thesis by (cases blank) auto
  qed
  then show ?case using empty_line_round [OF s(1,3,2)] s by (auto simp: replicate_append_same intro!: exI [of _ "s\<lparr>sent := sent s @ [[]]\<rparr>"])
qed

definition steps_left :: "client \<Rightarrow> nat" where
  "steps_left s =
     (case in_pc s of I_Test \<Rightarrow> 3 | I_Get \<Rightarrow> 5 | I_Check l \<Rightarrow> 4 | I_Send l \<Rightarrow> 4 | I_Stop \<Rightarrow> 2 | I_Join \<Rightarrow> 1 | I_Returned \<Rightarrow> 0) +
     (case net_pc s of N_Test \<Rightarrow> 1 | N_Wait \<Rightarrow> 4 | N_Recv b \<Rightarrow> 3 | N_Check b \<Rightarrow> 2 | N_Ended \<Rightarrow> 0)"

text \<open>Once \<^verbatim>\<open>running_\<close> is false every step but the receipt of further bytes brings the end nearer, and
  when neither thread can make a step \<^verbatim>\<open>run\<close> has returned.\<close>

theorem client_winds_down:
  assumes "\<not> running s"
  shows "(input_step taken s = Some s' \<longrightarrow> steps_left s' < steps_left s \<and> \<not> running s') \<and>
    (network_step wait recv s = Some s' \<longrightarrow> steps_left s' < steps_left s \<and> \<not> running s' \<or> (\<exists>bytes. recv = Received bytes)) \<and>
    ((\<forall>t w r. input_step t s = None \<and> network_step w r s = None) \<longrightarrow> in_pc s = I_Returned)"
proof (intro conjI impI)
  assume "input_step taken s = Some s'"
  then show "steps_left s' < steps_left s" "\<not> running s'"
    using assms by (auto simp: input_step_def steps_left_def split: input_pc.splits list.splits option.splits if_splits)
next
  assume n: "network_step wait recv s = Some s'"
  show "steps_left s' < steps_left s \<and> \<not> running s' \<or> (\<exists>bytes. recv = Received bytes)"
    using n assms by (cases "net_pc s"; cases recv; cases wait) (auto simp: network_step_def steps_left_def split: if_splits)
next
  assume "\<forall>t w r. input_step t s = None \<and> network_step w r s = None"
  then have a: "input_step None s = None" "network_step Timed_Out No_More s = None" by blast+
  have "net_pc s = N_Ended" using a(2) by (cases "net_pc s") (auto simp: network_step_def)
  then show "in_pc s = I_Returned" using a(1) by (cases "in_pc s") (auto simp: input_step_def split: list.splits)
qed

theorem client_winds_down_witness:
  "steps_left (\<lparr>running = False, in_pc = I_Stop, net_pc = N_Test, typed = [], sent = [], shown = []\<rparr>\<lparr>in_pc := I_Join\<rparr>) <
   steps_left \<lparr>running = False, in_pc = I_Stop, net_pc = N_Test, typed = [], sent = [], shown = []\<rparr>"
  using client_winds_down [of "\<lparr>running = False, in_pc = I_Stop, net_pc = N_Test, typed = [], sent = [], shown = []\<rparr>" None _ Timed_Out No_More]
  by (simp add: input_step_def)

end
