(* ===== verification/ReplyServers.thy ===== *)
theory ReplyServers
  imports Prelude
begin

text \<open>
  The servers of the socket exercises that give every client a process of its own
  (the directory for processes, \<^verbatim>\<open>server.cpp\<close>) or a thread of its own (the directory for threads).

  Both run the same function \<^verbatim>\<open>handle_client\<close>: every message is printed and answered with a fixed sentence.
  A round of its loop is one step, with the results of \<^verbatim>\<open>recv\<close> and \<^verbatim>\<open>send\<close> as arguments.  What the two
  hosts owe their clients is stated once, in the locale \<open>reply_host\<close>.  \<open>heard\<close>, \<open>printed\<close> and \<open>told\<close> record what
  was received, printed and sent.
\<close>

section \<open>A client\<close>

record talk =
  heard :: "string list"
  printed :: "string list"
  told :: "string list"

definition new_talk :: talk where
  "new_talk = \<lparr>heard = [], printed = [], told = []\<rparr>"

datatype recv_result = Received string | Gone
datatype send_result = Sent | Send_Failed | Pipe_Signal
datatype round = Goes_On talk | Leaves_Loop talk | Killed talk

definition BUFFER_SIZE :: nat where "BUFFER_SIZE = 1024"

definition response :: string where "response = ''Message received by server!''"

text \<open>\<^verbatim>\<open>buffer\<close> holds what was received and zeros behind it; when it is full and has no NUL, printing
  it reads past its end.\<close>

definition buffer_text :: "string \<Rightarrow> string result" where
  "buffer_text bytes = (if length bytes < BUFFER_SIZE \<or> NUL \<in> set bytes then Inr (cstr bytes) else Inl Out_Of_Bounds)"

definition client_round :: "recv_result \<Rightarrow> send_result \<Rightarrow> talk \<Rightarrow> round result" where
  "client_round recv send t = (case recv of
     Gone \<Rightarrow> Inr (Leaves_Loop t)
   | Received bytes \<Rightarrow> rbind (buffer_text bytes) (\<lambda>text.
       let t1 = t\<lparr>heard := heard t @ [bytes], printed := printed t @ [text]\<rparr> in
       Inr (case send of
          Sent \<Rightarrow> Goes_On (t1\<lparr>told := told t1 @ [response]\<rparr>)
        | Send_Failed \<Rightarrow> Goes_On t1
        | Pipe_Signal \<Rightarrow> Killed t1)))"

definition listen_start :: "bool \<Rightarrow> bool \<Rightarrow> bool \<Rightarrow> nat result" where
  "listen_start socket_ok bind_ok listen_ok =
     (if \<not> socket_ok then Inl (Exit_With ''Socket creation failed'')
      else if \<not> bind_ok then Inl (Exit_With ''Bind failed'')
      else if \<not> listen_ok then Inl (Exit_With ''Listen failed'')
      else Inr 1)"

section \<open>A process for every client\<close>

datatype parent_pc =
    P_Accept    \<comment> \<open>line 69\<close>
  | P_Fork      \<comment> \<open>line 78\<close>
  | P_Close     \<comment> \<open>line 90\<close>
  | P_Wait      \<comment> \<open>line 92\<close>

datatype kid =
    K_Start           \<comment> \<open>line 84\<close>
  | K_Talk talk       \<comment> \<open>line 17\<close>
  | K_Close talk      \<comment> \<open>line 29\<close>
  | K_Exit talk       \<comment> \<open>line 87\<close>
  | K_Zombie talk
  | K_Reaped talk

record fork_server =
  ppc :: parent_pc
  parent_open :: nat    \<comment> \<open>descriptors of clients that are open in the parent\<close>
  refused :: nat        \<comment> \<open>clients turned away because \<^verbatim>\<open>fork\<close> failed\<close>
  kids :: "kid list"

definition fork_start :: fork_server where
  "fork_start = \<lparr>ppc = P_Accept, parent_open = 0, refused = 0, kids = []\<rparr>"

fun is_zombie :: "kid \<Rightarrow> bool" where
  "is_zombie (K_Zombie t) = True" | "is_zombie _ = False"

fun is_live :: "kid \<Rightarrow> bool" where
  "is_live (K_Zombie t) = False" | "is_live (K_Reaped t) = False" | "is_live _ = True"

fun reap :: "kid \<Rightarrow> kid" where
  "reap (K_Zombie t) = K_Reaped t" | "reap k = k"

text \<open>\<^verbatim>\<open>waitpid(-1, nullptr, WNOHANG)\<close>: child \<open>i\<close> is the one the kernel picks, if one has ended.\<close>

definition wait_any :: "nat \<Rightarrow> kid list \<Rightarrow> kid list option" where
  "wait_any i ks =
     (if i < length ks \<and> is_zombie (ks ! i) then Some (ks[i := reap (ks ! i)])
      else if \<exists>k \<in> set ks. is_zombie k then None
      else Some ks)"

text \<open>\<open>ok\<close> says whether \<^verbatim>\<open>accept\<close> or \<^verbatim>\<open>fork\<close> succeeds.\<close>

definition parent_step :: "bool \<Rightarrow> nat \<Rightarrow> fork_server \<Rightarrow> fork_server option" where
  "parent_step ok i s = (case ppc s of
     P_Accept \<Rightarrow> Some (if ok then s\<lparr>ppc := P_Fork, parent_open := parent_open s + 1\<rparr> else s)
   | P_Fork \<Rightarrow> Some (if ok then s\<lparr>ppc := P_Close, kids := kids s @ [K_Start]\<rparr>
        else s\<lparr>ppc := P_Accept, parent_open := parent_open s - 1, refused := refused s + 1\<rparr>)
   | P_Close \<Rightarrow> Some (s\<lparr>ppc := P_Wait, parent_open := parent_open s - 1\<rparr>)
   | P_Wait \<Rightarrow> (case wait_any i (kids s) of None \<Rightarrow> None | Some ks \<Rightarrow> Some (s\<lparr>ppc := P_Accept, kids := ks\<rparr>)))"

definition kid_step :: "recv_result \<Rightarrow> send_result \<Rightarrow> kid \<Rightarrow> kid option" where
  "kid_step recv send k = (case k of
     K_Start \<Rightarrow> Some (K_Talk new_talk)
   | K_Talk t \<Rightarrow> (case client_round recv send t of
        Inl e \<Rightarrow> None
      | Inr (Goes_On t') \<Rightarrow> Some (K_Talk t')
      | Inr (Leaves_Loop t') \<Rightarrow> Some (K_Close t')
      | Inr (Killed t') \<Rightarrow> Some (K_Zombie t'))
   | K_Close t \<Rightarrow> Some (K_Exit t)
   | K_Exit t \<Rightarrow> Some (K_Zombie t)
   | K_Zombie t \<Rightarrow> None
   | K_Reaped t \<Rightarrow> None)"

text \<open>A move of the whole system, when the results of \<^verbatim>\<open>send\<close> are in \<open>R\<close>\<close>

inductive fork_move :: "send_result set \<Rightarrow> fork_server \<Rightarrow> fork_server \<Rightarrow> bool" for R where
  parent_moves: "parent_step ok i s = Some s' \<Longrightarrow> fork_move R s s'"
| kid_moves: "i < length (kids s) \<Longrightarrow> send \<in> R \<Longrightarrow> kid_step recv send (kids s ! i) = Some k \<Longrightarrow>
    fork_move R s (s\<lparr>kids := (kids s)[i := k]\<rparr>)"

section \<open>A thread for every client\<close>

datatype worker = W_Talk talk | W_Close talk | W_Done talk

record thread_server =
  up :: bool
  workers :: "worker list"    \<comment> \<open>the threads of \<^verbatim>\<open>threads\<close>, none of which is ever joined\<close>

definition thread_start :: thread_server where
  "thread_start = \<lparr>up = True, workers = []\<rparr>"

text \<open>\<open>started\<close> says whether the constructor of \<^verbatim>\<open>std::thread\<close> can start a thread; its exception is not caught.\<close>

definition listener_step :: "bool \<Rightarrow> bool \<Rightarrow> thread_server \<Rightarrow> thread_server option" where
  "listener_step accepted started s =
     (if \<not> up s then None
      else if \<not> accepted then Some s
      else if started then Some (s\<lparr>workers := workers s @ [W_Talk new_talk]\<rparr>)
      else Some (s\<lparr>up := False\<rparr>))"

definition worker_step :: "recv_result \<Rightarrow> send_result \<Rightarrow> nat \<Rightarrow> thread_server \<Rightarrow> thread_server option" where
  "worker_step recv send i s =
     (if \<not> up s then None else case workers s ! i of
        W_Talk t \<Rightarrow> (case client_round recv send t of
            Inl e \<Rightarrow> None
          | Inr (Goes_On t') \<Rightarrow> Some (s\<lparr>workers := (workers s)[i := W_Talk t']\<rparr>)
          | Inr (Leaves_Loop t') \<Rightarrow> Some (s\<lparr>workers := (workers s)[i := W_Close t']\<rparr>)
          | Inr (Killed t') \<Rightarrow> Some (s\<lparr>workers := (workers s)[i := W_Talk t'], up := False\<rparr>))
      | W_Close t \<Rightarrow> Some (s\<lparr>workers := (workers s)[i := W_Done t]\<rparr>)
      | W_Done t \<Rightarrow> None)"

inductive thread_move :: "send_result set \<Rightarrow> thread_server \<Rightarrow> thread_server \<Rightarrow> bool" for R where
  listener_moves: "listener_step accepted started s = Some s' \<Longrightarrow> thread_move R s s'"
| worker_moves: "i < length (workers s) \<Longrightarrow> send \<in> R \<Longrightarrow> worker_step recv send i s = Some s' \<Longrightarrow> thread_move R s s'"

section \<open>What a host owes its clients\<close>

definition talk_of :: "round \<Rightarrow> talk" where
  "talk_of r = (case r of Goes_On t \<Rightarrow> t | Leaves_Loop t \<Rightarrow> t | Killed t \<Rightarrow> t)"

text \<open>Every message is printed up to its first NUL, and answered at most once with the sentence, and exactly
  once when every \<^verbatim>\<open>send\<close> succeeds.\<close>

definition answered :: "send_result set \<Rightarrow> talk \<Rightarrow> bool" where
  "answered R t \<longleftrightarrow> printed t = map cstr (heard t) \<and>
     (\<exists>n. told t = replicate n response \<and> n \<le> length (heard t) \<and> (R = {Sent} \<longrightarrow> n = length (heard t)))"

lemma answered_new [simp]: "answered R new_talk"
  by (simp add: answered_def new_talk_def)

lemma answered_round:
  assumes "answered R t" "send \<in> R" "client_round recv send t = Inr r"
  shows "answered R (talk_of r)"
proof (cases recv)
  case Gone
  then show ?thesis using assms by (auto simp: client_round_def talk_of_def)
next
  case (Received bytes)
  obtain n where n: "printed t = map cstr (heard t)" "told t = replicate n response" "n \<le> length (heard t)"
    "R = {Sent} \<Longrightarrow> n = length (heard t)"
    using assms(1) unfolding answered_def by blast
  have bt: "buffer_text bytes = Inr (cstr bytes)"
    using assms(3) Received by (auto simp: client_round_def buffer_text_def split: if_splits)
  show ?thesis
  proof (cases send)
    case Sent
    then have "talk_of r = t\<lparr>heard := heard t @ [bytes], printed := printed t @ [cstr bytes], told := told t @ [response]\<rparr>"
      using assms(3) Received bt by (auto simp: client_round_def talk_of_def)
    then show ?thesis using n by (auto simp: answered_def replicate_append_same intro!: exI [of _ "Suc n"])
  next
    case Send_Failed
    then have "talk_of r = t\<lparr>heard := heard t @ [bytes], printed := printed t @ [cstr bytes]\<rparr>" "R \<noteq> {Sent}"
      using assms(2,3) Received bt by (auto simp: client_round_def talk_of_def)
    then show ?thesis using n by (auto simp: answered_def intro!: exI [of _ n])
  next
    case Pipe_Signal
    then have "talk_of r = t\<lparr>heard := heard t @ [bytes], printed := printed t @ [cstr bytes]\<rparr>" "R \<noteq> {Sent}"
      using assms(2,3) Received bt by (auto simp: client_round_def talk_of_def)
    then show ?thesis using n by (auto simp: answered_def intro!: exI [of _ n])
  qed
qed

text \<open>A host changes the conversations only by opening a new one or by a round of one of them.\<close>

inductive talk_move :: "send_result set \<Rightarrow> talk list \<Rightarrow> talk list \<Rightarrow> bool" for R where
  unchanged: "talk_move R ts ts"
| opened: "talk_move R ts (ts @ [new_talk])"
| continued: "i < length ts \<Longrightarrow> send \<in> R \<Longrightarrow> client_round recv send (ts ! i) = Inr r \<Longrightarrow> talk_move R ts (ts[i := talk_of r])"

locale reply_host =
  fixes start :: 'h and move :: "send_result set \<Rightarrow> 'h \<Rightarrow> 'h \<Rightarrow> bool" and talks :: "'h \<Rightarrow> talk list"
  assumes no_talks: "talks start = []"
    and talks_move: "move R s s' \<Longrightarrow> talk_move R (talks s) (talks s')"
begin

lemma every_talk_answered:
  assumes "(move R)\<^sup>*\<^sup>* start s" "t \<in> set (talks s)"
  shows "answered R t"
  using assms
proof (induction arbitrary: t rule: rtranclp_induct)
  case base
  then show ?case by (simp add: no_talks)
next
  case (step s s')
  show ?case using talks_move [OF step.hyps(2)]
  proof cases
    case unchanged
    then show ?thesis using step by simp
  next
    case opened
    then show ?thesis using step by auto
  next
    case (continued i send recv r)
    then have "t = talk_of r \<or> t \<in> set (talks s)" using step.prems by (auto dest!: subsetD [OF set_update_subset_insert])
    moreover have "answered R (talk_of r)" by (rule answered_round [OF _ continued(3,4)]) (simp add: step.IH continued(2))
    ultimately show ?thesis using step.IH by blast
  qed
qed

end

section \<open>The two hosts\<close>

fun kid_talk :: "kid \<Rightarrow> talk" where
  "kid_talk K_Start = new_talk" | "kid_talk (K_Talk t) = t" | "kid_talk (K_Close t) = t" | "kid_talk (K_Exit t) = t"
| "kid_talk (K_Zombie t) = t" | "kid_talk (K_Reaped t) = t"

fun worker_talk :: "worker \<Rightarrow> talk" where
  "worker_talk (W_Talk t) = t" | "worker_talk (W_Close t) = t" | "worker_talk (W_Done t) = t"

lemma reap_talk [simp]: "kid_talk (reap k) = kid_talk k"
  by (cases k) auto

lemma wait_any_cases:
  assumes "wait_any i ks = Some ks'"
  shows "(i < length ks \<and> is_zombie (ks ! i) \<and> ks' = ks[i := reap (ks ! i)]) \<or> ((\<forall>k \<in> set ks. \<not> is_zombie k) \<and> ks' = ks)"
  using assms by (auto simp: wait_any_def split: if_splits)

lemma map_update_same: "f x = f (xs ! i) \<Longrightarrow> map f (xs[i := x]) = map f xs"
  by (metis list_update_id map_update)

lemma parent_talks:
  assumes "parent_step ok i s = Some s'"
  shows "talk_move R (map kid_talk (kids s)) (map kid_talk (kids s'))"
proof -
  have w: "map kid_talk ks = map kid_talk (kids s)" if "wait_any i (kids s) = Some ks" for ks
    using wait_any_cases [OF that] by (auto simp: map_update_same)
  show ?thesis
    using assms w by (auto simp: parent_step_def split: parent_pc.splits if_splits option.splits intro: talk_move.intros)
qed

lemma kid_round:
  assumes "kid_step recv send k = Some k'"
  shows "kid_talk k' = kid_talk k \<or> (\<exists>r. client_round recv send (kid_talk k) = Inr r \<and> kid_talk k' = talk_of r)"
  using assms by (cases k) (auto simp: kid_step_def talk_of_def split: sum.splits round.splits)

lemma fork_talks:
  assumes "fork_move R s s'"
  shows "talk_move R (map kid_talk (kids s)) (map kid_talk (kids s'))"
  using assms
proof cases
  case (parent_moves ok i)
  then show ?thesis by (auto intro: parent_talks)
next
  case (kid_moves i send recv k)
  from kid_round [OF kid_moves(4)] show ?thesis
  proof (elim disjE exE conjE)
    assume "kid_talk k = kid_talk (kids s ! i)"
    then show ?thesis using kid_moves(1) by (simp add: map_update_same talk_move.unchanged)
  next
    fix r assume "client_round recv send (kid_talk (kids s ! i)) = Inr r" "kid_talk k = talk_of r"
    then show ?thesis using kid_moves(1-3) talk_move.continued [of i "map kid_talk (kids s)" send R recv r]
      by (simp add: map_update)
  qed
qed

lemma worker_round:
  assumes "worker_step recv send i s = Some s'" "i < length (workers s)"
  shows "map worker_talk (workers s') = map worker_talk (workers s) \<or>
    (\<exists>r. client_round recv send (worker_talk (workers s ! i)) = Inr r \<and>
         map worker_talk (workers s') = (map worker_talk (workers s))[i := talk_of r])"
proof (cases "workers s ! i")
  case (W_Close t)
  then have "map worker_talk ((workers s)[i := W_Done t]) = map worker_talk (workers s)" by (simp add: map_update_same)
  then show ?thesis using assms W_Close by (auto simp: worker_step_def split: if_splits)
qed (use assms in \<open>auto simp: worker_step_def talk_of_def map_update split: if_splits sum.splits round.splits\<close>)

lemma thread_talks:
  assumes "thread_move R s s'"
  shows "talk_move R (map worker_talk (workers s)) (map worker_talk (workers s'))"
  using assms
proof cases
  case (listener_moves accepted started)
  then show ?thesis by (auto simp: listener_step_def split: if_splits intro: talk_move.intros)
next
  case (worker_moves i send recv)
  from worker_round [OF worker_moves(3,1)] show ?thesis
  proof (elim disjE exE conjE)
    fix r assume "client_round recv send (worker_talk (workers s ! i)) = Inr r"
      "map worker_talk (workers s') = (map worker_talk (workers s))[i := talk_of r]"
    then show ?thesis using worker_moves(1,2) talk_move.continued [of i "map worker_talk (workers s)" send R recv r] by simp
  qed (simp add: talk_move.unchanged)
qed

interpretation forks: reply_host fork_start fork_move "\<lambda>s. map kid_talk (kids s)"
  by unfold_locales (simp_all add: fork_start_def fork_talks)

interpretation threads: reply_host thread_start thread_move "\<lambda>s. map worker_talk (workers s)"
  by unfold_locales (simp_all add: thread_start_def thread_talks)

lemma one_answer:
  "(fork_move {Sent})\<^sup>*\<^sup>* fork_start
     \<lparr>ppc = P_Close, parent_open = 1, refused = 0, kids = [K_Talk \<lparr>heard = [''hi''], printed = [''hi''], told = [response]\<rparr>]\<rparr>"
proof -
  let ?s = "\<lambda>p n ks. \<lparr>ppc = p, parent_open = n, refused = 0, kids = ks\<rparr>"
  let ?r = "\<lambda>s. (fork_move {Sent})\<^sup>*\<^sup>* fork_start s"
  have p: "?r v" if "?r u" "parent_step True 0 u = Some v" for u v
    by (rule rtranclp.rtrancl_into_rtrancl [OF that(1) fork_move.parent_moves [OF that(2)]])
  have k: "?r (?s P_Close 1 [y])" if "?r (?s P_Close 1 [x])" "kid_step (Received ''hi'') Sent x = Some y" for x y
    using rtranclp.rtrancl_into_rtrancl [OF that(1) fork_move.kid_moves [of 0 _ Sent "{Sent}" "Received ''hi''" y]] that(2) by simp
  have "?r (?s P_Accept 0 [])" by (simp add: fork_start_def)
  then have "?r (?s P_Fork 1 [])" by (rule p) (simp add: parent_step_def)
  then have "?r (?s P_Close 1 [K_Start])" by (rule p) (simp add: parent_step_def)
  then have "?r (?s P_Close 1 [K_Talk new_talk])" by (rule k) (simp add: kid_step_def)
  then show ?thesis
    by (rule k) (simp add: kid_step_def client_round_def buffer_text_def BUFFER_SIZE_def new_talk_def)
qed

text \<open>In both servers and under every interleaving each client's messages are printed up to their first
  NUL and answered at most once with the sentence, and exactly once when every \<^verbatim>\<open>send\<close> succeeds.\<close>

theorem every_message_is_answered:
  "((fork_move R)\<^sup>*\<^sup>* fork_start s \<longrightarrow> (\<forall>k \<in> set (kids s). answered R (kid_talk k))) \<and>
   ((thread_move R)\<^sup>*\<^sup>* thread_start u \<longrightarrow> (\<forall>w \<in> set (workers u). answered R (worker_talk w)))"
  using forks.every_talk_answered threads.every_talk_answered by simp

theorem every_message_is_answered_witness:
  "answered {Sent} \<lparr>heard = [''hi''], printed = [''hi''], told = [response]\<rparr>"
  using every_message_is_answered [THEN conjunct1, THEN mp, OF one_answer] by simp

section \<open>Children that have ended\<close>

definition live :: "fork_server \<Rightarrow> nat" where
  "live s = length (List.filter is_live (kids s))"

definition zombies :: "fork_server \<Rightarrow> nat" where
  "zombies s = length (List.filter is_zombie (kids s))"

text \<open>Runs in which never more than \<open>M\<close> children are alive\<close>

inductive bounded_run :: "nat \<Rightarrow> fork_server \<Rightarrow> bool" for M where
  run_start: "bounded_run M fork_start"
| run_move: "bounded_run M s \<Longrightarrow> fork_move R s s' \<Longrightarrow> live s' \<le> M \<Longrightarrow> bounded_run M s'"

definition forked :: "parent_pc \<Rightarrow> nat" where
  "forked p = (if p = P_Close \<or> p = P_Wait then 1 else 0)"

lemma length_filter_update:
  assumes "i < length xs"
  shows "length (List.filter P (xs[i := x])) + (if P (xs ! i) then 1 else 0) = length (List.filter P xs) + (if P x then 1 else 0)"
proof -
  have "List.filter P xs = List.filter P (take i xs @ xs ! i # drop (Suc i) xs)" using assms by (simp add: id_take_nth_drop [symmetric])
  then show ?thesis using assms by (simp add: upd_conv_take_nth_drop)
qed

lemma kid_step_unreaped:
  "kid_step recv send k = Some k' \<Longrightarrow> is_live k \<and> (is_live k' \<or> is_zombie k') \<and> \<not> is_zombie k"
  by (cases k) (auto simp: kid_step_def split: sum.splits round.splits)

lemma zombie_not_live: "is_zombie k \<Longrightarrow> \<not> is_live k" "is_live k \<Longrightarrow> \<not> is_zombie k"
  by (cases k; simp)+

definition fork_inv :: "nat \<Rightarrow> fork_server \<Rightarrow> bool" where
  "fork_inv M s \<longleftrightarrow> live s + zombies s \<le> M + forked (ppc s) \<and>
     parent_open s = (if ppc s = P_Fork \<or> ppc s = P_Close then 1 else 0)"

lemma reap_count:
  assumes "wait_any i (kids s) = Some ks"
  shows "(live (s\<lparr>ppc := p, kids := ks\<rparr>) = live s \<and> zombies s = zombies (s\<lparr>ppc := p, kids := ks\<rparr>) + 1) \<or>
    (zombies (s\<lparr>ppc := p, kids := ks\<rparr>) = 0 \<and> ks = kids s)"
  using wait_any_cases [OF assms]
proof (elim disjE conjE)
  assume i: "i < length (kids s)" "is_zombie (kids s ! i)" "ks = (kids s)[i := reap (kids s ! i)]"
  then have "\<not> is_live (reap (kids s ! i))" "\<not> is_zombie (reap (kids s ! i))" "\<not> is_live (kids s ! i)"
    by (cases "kids s ! i"; simp)+
  then show ?thesis
    using length_filter_update [OF i(1), of is_zombie "reap (kids s ! i)"] length_filter_update [OF i(1), of is_live "reap (kids s ! i)"] i
    by (simp add: live_def zombies_def)
next
  assume "\<forall>k \<in> set (kids s). \<not> is_zombie k" "ks = kids s"
  then show ?thesis by (simp add: zombies_def)
qed

lemma fork_move_inv:
  assumes "fork_inv M s" "fork_move R s s'" "live s' \<le> M"
  shows "fork_inv M s'"
  using assms(2)
proof cases
  case (parent_moves ok i)
  show ?thesis
  proof (cases "ppc s")
    case P_Wait
    then obtain ks where ks: "wait_any i (kids s) = Some ks" "s' = s\<lparr>ppc := P_Accept, kids := ks\<rparr>"
      using parent_moves by (auto simp: parent_step_def split: option.splits)
    then show ?thesis using reap_count [OF ks(1), of P_Accept] assms(1,3) P_Wait by (auto simp: fork_inv_def forked_def)
  qed (use parent_moves assms(1) in \<open>auto simp: parent_step_def fork_inv_def forked_def live_def zombies_def split: if_splits\<close>)
next
  case (kid_moves i send recv k)
  note k = kid_step_unreaped [OF kid_moves(4)]
  have "live s' + zombies s' = live s + zombies s"
    using length_filter_update [OF kid_moves(2), of is_live k] length_filter_update [OF kid_moves(2), of is_zombie k] k
      zombie_not_live [of k] kid_moves(1) by (auto simp: live_def zombies_def split: if_splits)
  then show ?thesis using assms(1) kid_moves(1) by (simp add: fork_inv_def)
qed

lemma bounded_run_inv: "bounded_run M s \<Longrightarrow> fork_inv M s"
proof (induction rule: bounded_run.induct)
  case run_start
  show ?case by (simp add: fork_inv_def fork_start_def live_def zombies_def forked_def)
next
  case (run_move s R s')
  then show ?case by (blast intro: fork_move_inv)
qed

lemma gather_clients:
  "k \<le> n \<Longrightarrow> \<exists>s. bounded_run n s \<and> ppc s = P_Accept \<and> kids s = replicate k K_Start"
proof (induction k)
  case 0
  show ?case by (rule exI [of _ fork_start]) (simp add: bounded_run.run_start, simp add: fork_start_def)
next
  case (Suc k)
  then obtain s where s: "bounded_run n s" "ppc s = P_Accept" "kids s = replicate k K_Start" by auto
  have go: "bounded_run n v" if "bounded_run n u" "parent_step True 0 u = Some v" "live v \<le> n" for u v
    using that bounded_run.run_move [OF that(1) fork_move.parent_moves [OF that(2)]] by blast
  let ?o = "parent_open s"
  let ?s1 = "s\<lparr>ppc := P_Fork, parent_open := ?o + 1\<rparr>"
  let ?s2 = "?s1\<lparr>ppc := P_Close, kids := kids s @ [K_Start]\<rparr>"
  let ?s3 = "?s2\<lparr>ppc := P_Wait, parent_open := parent_open ?s2 - 1\<rparr>"
  let ?s4 = "?s3\<lparr>ppc := P_Accept, kids := kids ?s3\<rparr>"
  have l: "live ?s1 \<le> n" "live ?s2 \<le> n" "live ?s3 \<le> n" "live ?s4 \<le> n" using Suc.prems s(3) by (simp_all add: live_def)
  have "bounded_run n ?s1" by (rule go [OF s(1) _ l(1)]) (simp add: parent_step_def s(2))
  then have "bounded_run n ?s2" by (rule go [OF _ _ l(2)]) (simp add: parent_step_def)
  then have "bounded_run n ?s3" by (rule go [OF _ _ l(3)]) (simp add: parent_step_def)
  moreover have "(replicate k K_Start @ [K_Start]) ! 0 = K_Start" by (cases k) simp_all
  ultimately have "bounded_run n ?s4" by (intro go [OF _ _ l(4), of ?s3]) (auto simp: parent_step_def wait_any_def s(3))
  then show ?case by (intro exI [of _ ?s4] conjI) (simp_all add: s(3) replicate_append_same)
qed

lemma clients_leave:
  "k \<le> n \<Longrightarrow> \<exists>s. bounded_run n s \<and> ppc s = P_Accept \<and> kids s = replicate k (K_Zombie new_talk) @ replicate (n - k) K_Start"
proof (induction k)
  case 0
  then show ?case using gather_clients [of n n] by simp
next
  case (Suc k)
  then obtain s where s: "bounded_run n s" "ppc s = P_Accept" "kids s = replicate k (K_Zombie new_talk) @ replicate (n - k) K_Start" by auto
  let ?ks = "\<lambda>x. replicate k (K_Zombie new_talk) @ x # replicate (n - Suc k) K_Start"
  have ks: "kids s = ?ks K_Start" using s(3) Suc.prems by (simp add: Suc_diff_Suc replicate_Suc [symmetric] del: replicate_Suc)
  have go: "bounded_run n (s\<lparr>kids := ?ks y\<rparr>)" if "bounded_run n (s\<lparr>kids := ?ks x\<rparr>)" "kid_step Gone Sent x = Some y" for x y
  proof (rule bounded_run.run_move [OF that(1)])
    have "fork_move {Sent} (s\<lparr>kids := ?ks x\<rparr>) (s\<lparr>kids := ?ks x\<rparr>\<lparr>kids := (kids (s\<lparr>kids := ?ks x\<rparr>))[k := y]\<rparr>)"
      by (rule fork_move.kid_moves [of k _ Sent _ Gone]) (use that(2) in \<open>simp_all add: nth_append\<close>)
    then show "fork_move {Sent} (s\<lparr>kids := ?ks x\<rparr>) (s\<lparr>kids := ?ks y\<rparr>)" by (simp add: list_update_append)
    show "live (s\<lparr>kids := ?ks y\<rparr>) \<le> n" using Suc.prems by (auto simp: live_def)
  qed
  have "s\<lparr>kids := ?ks K_Start\<rparr> = s" using ks by (cases s) simp
  then have "bounded_run n (s\<lparr>kids := ?ks K_Start\<rparr>)" using s(1) by simp
  then have "bounded_run n (s\<lparr>kids := ?ks (K_Talk new_talk)\<rparr>)" by (rule go) (simp add: kid_step_def)
  then have "bounded_run n (s\<lparr>kids := ?ks (K_Close new_talk)\<rparr>)" by (rule go) (simp add: kid_step_def client_round_def)
  then have "bounded_run n (s\<lparr>kids := ?ks (K_Exit new_talk)\<rparr>)" by (rule go) (simp add: kid_step_def)
  then have "bounded_run n (s\<lparr>kids := ?ks (K_Zombie new_talk)\<rparr>)" by (rule go) (simp add: kid_step_def)
  then show ?case
    by (intro exI [of _ "s\<lparr>kids := ?ks (K_Zombie new_talk)\<rparr>"] conjI) (simp_all add: s(2) replicate_app_Cons_same)
qed

text \<open>C21: In a run in which at most \<open>M\<close> children serve clients at one time, one \<^verbatim>\<open>waitpid\<close> after each client
  keeps the children, those that serve and those that have ended but were not collected together, within \<open>M\<close>
  while the parent is in \<^verbatim>\<open>accept\<close> and within \<open>M + 1\<close> between a \<^verbatim>\<open>fork\<close> and its \<^verbatim>\<open>waitpid\<close>, and
  the parent never holds more than the client in hand.  It does not keep zombies away, as the comment at the
  call says: when \<open>n\<close> clients leave an idle server, all \<open>n\<close> stay until further clients come.\<close>

theorem children_stay_within_the_peak:
  "(bounded_run M s \<longrightarrow> live s + zombies s \<le> M + forked (ppc s) \<and> parent_open s \<le> 1) \<and>
   (\<exists>s. bounded_run n s \<and> ppc s = P_Accept \<and> live s = 0 \<and> zombies s = n)"
proof
  show "bounded_run M s \<longrightarrow> live s + zombies s \<le> M + forked (ppc s) \<and> parent_open s \<le> 1"
    using bounded_run_inv [of M s] by (simp add: fork_inv_def)
  obtain s where "bounded_run n s" "ppc s = P_Accept" "kids s = replicate n (K_Zombie new_talk)"
    using clients_leave [of n n] by auto
  then show "\<exists>s. bounded_run n s \<and> ppc s = P_Accept \<and> live s = 0 \<and> zombies s = n"
    by (auto simp: live_def zombies_def intro!: exI [of _ s])
qed

theorem children_stay_within_the_peak_witness:
  "\<exists>s. bounded_run 2 s \<and> zombies s = 2 \<and> live s + zombies s \<le> 2 + forked (ppc s)"
  using children_stay_within_the_peak [of 2 _ 2] by blast

text \<open>A client that is gone when it is answered ends the process that serves it: one child of the first server, and
  the second server with all its clients.\<close>

theorem reset_client_ends_its_process:
  assumes "buffer_text bytes = Inr shown"
  shows "(i < length (kids s) \<and> kids s ! i = K_Talk t \<longrightarrow>
      (\<exists>s'. fork_move {Pipe_Signal} s s' \<and> ppc s' = ppc s \<and> is_zombie (kids s' ! i) \<and> (\<forall>j. j \<noteq> i \<longrightarrow> kids s' ! j = kids s ! j))) \<and>
    (up u \<and> i < length (workers u) \<and> workers u ! i = W_Talk t \<longrightarrow>
      (\<exists>u'. thread_move {Pipe_Signal} u u' \<and> (\<forall>R u''. \<not> thread_move R u' u'')))"
proof (intro conjI impI; elim conjE)
  let ?t = "t\<lparr>heard := heard t @ [bytes], printed := printed t @ [shown]\<rparr>"
  have round: "client_round (Received bytes) Pipe_Signal t = Inr (Killed ?t)" using assms by (simp add: client_round_def)
  {
    assume i: "i < length (kids s)" "kids s ! i = K_Talk t"
    have "fork_move {Pipe_Signal} s (s\<lparr>kids := (kids s)[i := K_Zombie ?t]\<rparr>)"
      by (rule fork_move.kid_moves [OF i(1), of Pipe_Signal _ "Received bytes"]) (simp_all add: kid_step_def i(2) round)
    then show "\<exists>s'. fork_move {Pipe_Signal} s s' \<and> ppc s' = ppc s \<and> is_zombie (kids s' ! i) \<and> (\<forall>j. j \<noteq> i \<longrightarrow> kids s' ! j = kids s ! j)"
      by (intro exI [of _ "s\<lparr>kids := (kids s)[i := K_Zombie ?t]\<rparr>"] conjI) (use i in simp_all)
  next
    assume u: "up u" "i < length (workers u)" "workers u ! i = W_Talk t"
    let ?u = "u\<lparr>workers := (workers u)[i := W_Talk ?t], up := False\<rparr>"
    have "thread_move {Pipe_Signal} u ?u"
      by (rule thread_move.worker_moves [OF u(2), of Pipe_Signal _ "Received bytes"]) (simp_all add: worker_step_def u round)
    moreover have "\<not> thread_move R ?u u''" for R u''
      by (auto elim!: thread_move.cases simp: listener_step_def worker_step_def)
    ultimately show "\<exists>u'. thread_move {Pipe_Signal} u u' \<and> (\<forall>R u''. \<not> thread_move R u' u'')" by blast
  }
qed

theorem reset_client_ends_its_process_witness:
  "\<exists>u'. thread_move {Pipe_Signal} \<lparr>up = True, workers = [W_Talk new_talk, W_Talk new_talk]\<rparr> u' \<and> (\<forall>R u''. \<not> thread_move R u' u'')"
proof -
  have "buffer_text ''hi'' = Inr ''hi''" by (simp add: buffer_text_def BUFFER_SIZE_def)
  from reset_client_ends_its_process [OF this, of 0 _ _ "\<lparr>up = True, workers = [W_Talk new_talk, W_Talk new_talk]\<rparr>"]
  show ?thesis by fastforce
qed

end
