(* ===== verification/ReplyClient.thy ===== *)
theory ReplyClient
  imports ReplyServers
begin

text \<open>
  The client of the socket exercises (\<^verbatim>\<open>client.cpp\<close>, three copies), and its conversation with \<^verbatim>\<open>handle_client\<close>.

  The client sends a line and waits for an answer.  The two directions of the connection are queues of
  bytes: \<^verbatim>\<open>recv\<close> takes at least one byte and at most what the buffer holds, as TCP does.  The server side is
  \<open>client_round\<close>, unchanged.
\<close>

section \<open>The client\<close>

datatype connect_error = No_Socket | Invalid_Address | Not_Connected

text \<open>The descriptors left open, and the error\<close>

definition client_start :: "bool \<Rightarrow> bool \<Rightarrow> bool \<Rightarrow> connect_error option \<times> nat" where
  "client_start socket_ok address_ok connect_ok =
     (if \<not> socket_ok then (Some No_Socket, 0)
      else if \<not> address_ok then (Some Invalid_Address, 0)
      else if \<not> connect_ok then (Some Not_Connected, 0)
      else (None, 1))"

datatype client_pc =
    C_Get              \<comment> \<open>line 44\<close>
  | C_Recv string      \<comment> \<open>line 55, with the line sent last\<close>
  | C_Closed

record client =
  cpc :: client_pc
  typed :: "string list"
  answers :: "string list"

text \<open>\<^verbatim>\<open>getline\<close> leaves an empty line at the end of the input.\<close>

definition send_line :: "client \<Rightarrow> client \<times> string" where
  "send_line c =
     (let message = (case typed c of [] \<Rightarrow> [] | l # ls \<Rightarrow> l) in
      if message = ''exit'' then (c\<lparr>cpc := C_Closed, typed := tl (typed c)\<rparr>, [])
      else (c\<lparr>cpc := C_Recv message, typed := tl (typed c)\<rparr>, message))"

definition take_answer :: "string \<Rightarrow> client \<Rightarrow> client result" where
  "take_answer bytes c =
     (if bytes = [] then Inr (c\<lparr>cpc := C_Closed\<rparr>)
      else rbind (buffer_text bytes) (\<lambda>shown. Inr (c\<lparr>cpc := C_Get, answers := answers c @ [shown]\<rparr>)))"

section \<open>A conversation\<close>

record session =
  client_side :: client
  to_server :: string
  to_client :: string
  server_side :: talk
  serving :: bool

definition session_start :: "string list \<Rightarrow> session" where
  "session_start ls = \<lparr>client_side = \<lparr>cpc = C_Get, typed = ls, answers = []\<rparr>, to_server = [], to_client = [],
     server_side = new_talk, serving = True\<rparr>"

inductive session_move :: "session \<Rightarrow> session \<Rightarrow> bool" where
  client_sends: "cpc (client_side s) = C_Get \<Longrightarrow> send_line (client_side s) = (c, bytes) \<Longrightarrow>
    session_move s (s\<lparr>client_side := c, to_server := to_server s @ bytes\<rparr>)"
| client_receives: "cpc (client_side s) = C_Recv l \<Longrightarrow> 0 < n \<Longrightarrow> n \<le> BUFFER_SIZE \<Longrightarrow> to_client s \<noteq> [] \<Longrightarrow>
    take_answer (take n (to_client s)) (client_side s) = Inr c \<Longrightarrow>
    session_move s (s\<lparr>client_side := c, to_client := drop n (to_client s)\<rparr>)"
| client_hears_end: "cpc (client_side s) = C_Recv l \<Longrightarrow> to_client s = [] \<Longrightarrow> \<not> serving s \<Longrightarrow>
    take_answer [] (client_side s) = Inr c \<Longrightarrow> session_move s (s\<lparr>client_side := c\<rparr>)"
| server_answers: "serving s \<Longrightarrow> 0 < n \<Longrightarrow> n \<le> BUFFER_SIZE \<Longrightarrow> to_server s \<noteq> [] \<Longrightarrow>
    client_round (Received (take n (to_server s))) Sent (server_side s) = Inr (Goes_On t) \<Longrightarrow>
    session_move s (s\<lparr>server_side := t, to_server := drop n (to_server s), to_client := to_client s @ response\<rparr>)"
| server_hears_end: "serving s \<Longrightarrow> to_server s = [] \<Longrightarrow> cpc (client_side s) = C_Closed \<Longrightarrow>
    client_round Gone Sent (server_side s) = Inr (Leaves_Loop t) \<Longrightarrow> session_move s (s\<lparr>server_side := t, serving := False\<rparr>)"

section \<open>Properties\<close>

inductive session_reachable :: "string list \<Rightarrow> session \<Rightarrow> bool" for ls where
  starts: "session_reachable ls (session_start ls)"
| goes_on: "session_reachable ls s \<Longrightarrow> session_move s s' \<Longrightarrow> session_reachable ls s'"

definition session_inv :: "string list \<Rightarrow> session \<Rightarrow> bool" where
  "session_inv ls s \<longleftrightarrow>
     (\<exists>ls1. ls = ls1 @ typed (client_side s) \<and>
        concat (heard (server_side s)) @ to_server s = concat (List.filter (\<lambda>l. l \<noteq> ''exit'') ls1)) \<and>
     (\<forall>l. cpc (client_side s) = C_Recv l \<and> l \<noteq> [] \<longrightarrow> to_server s \<noteq> [] \<or> to_client s \<noteq> []) \<and>
     (\<not> serving s \<longrightarrow> cpc (client_side s) = C_Closed \<and> to_server s = [])"

lemma answer_round:
  assumes "client_round (Received bytes) Sent t = Inr (Goes_On t')"
  shows "heard t' = heard t @ [bytes]"
  using assms by (cases "buffer_text bytes") (auto simp: client_round_def)

lemma session_move_inv:
  assumes inv: "session_inv ls s" and move: "session_move s s'"
  shows "session_inv ls s'"
proof -
  obtain ls1 where ls1: "ls = ls1 @ typed (client_side s)"
    "concat (heard (server_side s)) @ to_server s = concat (List.filter (\<lambda>l. l \<noteq> ''exit'') ls1)"
    using inv unfolding session_inv_def by blast
  have w: "cpc (client_side s) = C_Recv l \<Longrightarrow> l \<noteq> [] \<Longrightarrow> to_server s \<noteq> [] \<or> to_client s \<noteq> []" for l
    using inv unfolding session_inv_def by blast
  have g: "\<not> serving s \<Longrightarrow> cpc (client_side s) = C_Closed \<and> to_server s = []"
    using inv unfolding session_inv_def by blast
  show ?thesis
    using move
  proof cases
    case (client_sends c bytes)
    then have "serving s" using g by auto
    show ?thesis
    proof (cases "typed (client_side s)")
      case Nil
      then have "c = (client_side s)\<lparr>cpc := C_Recv [], typed := []\<rparr>" "bytes = []" using client_sends by (auto simp: send_line_def)
      then show ?thesis using client_sends(1) ls1 Nil \<open>serving s\<close> by (auto simp: session_inv_def)
    next
      case (Cons l rest)
      have "ls = (ls1 @ [l]) @ rest" using ls1(1) Cons by simp
      then show ?thesis using client_sends ls1(2) Cons \<open>serving s\<close>
        by (auto simp: session_inv_def send_line_def Let_def append_assoc [symmetric] simp del: append_assoc
            split: if_splits intro!: exI [of _ "ls1 @ [l]"])
    qed
  next
    case (client_receives l n c)
    then have "typed c = typed (client_side s)" "cpc c = C_Get"
      by (auto simp: take_answer_def rbind_eq_Inr split: if_splits)
    then show ?thesis using client_receives g ls1 by (auto simp: session_inv_def)
  next
    case (client_hears_end l c)
    then show ?thesis using g by auto
  next
    case (server_answers n t)
    have "heard t = heard (server_side s) @ [take n (to_server s)]" by (rule answer_round [OF server_answers(6)])
    then have "concat (heard t) @ drop n (to_server s) = concat (List.filter (\<lambda>l. l \<noteq> ''exit'') ls1)" using ls1(2) by simp
    then show ?thesis using server_answers(1,2) ls1(1) by (auto simp: session_inv_def response_def)
  next
    case (server_hears_end t)
    then have "t = server_side s" by (simp add: client_round_def)
    then show ?thesis using server_hears_end ls1 by (auto simp: session_inv_def)
  qed
qed

lemma session_reachable_inv: "session_reachable ls s \<Longrightarrow> session_inv ls s"
proof (induction rule: session_reachable.induct)
  case starts
  show ?case by (simp add: session_inv_def session_start_def new_talk_def)
next
  case (goes_on s s')
  then show ?case by (blast intro: session_move_inv)
qed

definition stuck :: "session \<Rightarrow> bool" where
  "stuck s \<longleftrightarrow> (\<forall>s'. \<not> session_move s s')"

lemma one_byte [simp]: "take (Suc 0) bs = (case bs of [] \<Rightarrow> [] | b # _ \<Rightarrow> [b])"
  by (cases bs) auto

lemma server_can_answer:
  assumes "serving s" "to_server s \<noteq> []"
  shows "\<exists>s'. session_move s s'"
proof -
  obtain b bs where b: "to_server s = b # bs" using assms(2) by (cases "to_server s") auto
  have "buffer_text [b] = Inr (cstr [b])" by (simp add: buffer_text_def BUFFER_SIZE_def)
  then obtain t where "client_round (Received [b]) Sent (server_side s) = Inr (Goes_On t)" by (auto simp: client_round_def)
  then show ?thesis using session_move.server_answers [of s 1 t] assms b by (auto simp: BUFFER_SIZE_def)
qed

lemma stuck_cases:
  assumes "session_inv ls s" "stuck s"
  shows "(cpc (client_side s) = C_Closed \<and> \<not> serving s) \<or> (cpc (client_side s) = C_Recv [] \<and> serving s \<and> to_server s = [] \<and> to_client s = [])"
proof (cases "cpc (client_side s)")
  case C_Get
  then show ?thesis using assms(2) session_move.client_sends [OF C_Get prod.collapse [symmetric]] by (auto simp: stuck_def)
next
  case (C_Recv l)
  have "to_client s = []"
  proof (rule ccontr)
    assume "to_client s \<noteq> []"
    then obtain b bs where b: "to_client s = b # bs" by (cases "to_client s") auto
    have "buffer_text [b] = Inr (cstr [b])" by (simp add: buffer_text_def BUFFER_SIZE_def)
    then obtain c where "take_answer [b] (client_side s) = Inr c" by (auto simp: take_answer_def)
    then show False using assms(2) session_move.client_receives [OF C_Recv, of 1 c] b by (auto simp: stuck_def BUFFER_SIZE_def)
  qed
  moreover have "serving s" using assms(1) C_Recv by (auto simp: session_inv_def)
  moreover have "to_server s = []" using server_can_answer [OF \<open>serving s\<close>] assms(2) by (auto simp: stuck_def)
  ultimately show ?thesis using assms(1) C_Recv by (auto simp: session_inv_def)
next
  case C_Closed
  have "\<not> serving s"
  proof
    assume sv: "serving s"
    then have "to_server s = []" using server_can_answer [OF sv] assms(2) by (auto simp: stuck_def)
    then show False using session_move.server_hears_end [OF sv _ C_Closed, of "server_side s"] assms(2)
      by (auto simp: stuck_def client_round_def)
  qed
  then show ?thesis using C_Closed by simp
qed

text \<open>The client and the server never wait for each other while there is something to say: a conversation stops
  only when the client has closed it and the server has heard every line, or when the client waits for
  the answer to an empty line, which is never sent.  The end of the input counts as an empty line.\<close>

theorem conversation_stops_only_at_an_empty_line:
  assumes "session_reachable ls s"
  shows "(stuck s \<longrightarrow>
      (cpc (client_side s) = C_Closed \<and> \<not> serving s \<and>
        (\<exists>n. concat (heard (server_side s)) = concat (List.filter (\<lambda>l. l \<noteq> ''exit'') (take n ls)))) \<or>
      (cpc (client_side s) = C_Recv [] \<and> serving s \<and> to_client s = [])) \<and>
    (\<exists>u. session_reachable [] u \<and> stuck u \<and> cpc (client_side u) = C_Recv [])"
proof
  have inv: "session_inv ls s" by (rule session_reachable_inv [OF assms])
  then obtain ls1 where ls1: "ls = ls1 @ typed (client_side s)"
    "concat (heard (server_side s)) @ to_server s = concat (List.filter (\<lambda>l. l \<noteq> ''exit'') ls1)"
    unfolding session_inv_def by blast
  have "take (length ls1) ls = ls1" using ls1(1) by simp
  then have "\<exists>n. concat (heard (server_side s)) @ to_server s = concat (List.filter (\<lambda>l. l \<noteq> ''exit'') (take n ls))"
    using ls1(2) by metis
  moreover have "\<not> serving s \<Longrightarrow> to_server s = []" using inv unfolding session_inv_def by blast
  ultimately show "stuck s \<longrightarrow>
      (cpc (client_side s) = C_Closed \<and> \<not> serving s \<and>
        (\<exists>n. concat (heard (server_side s)) = concat (List.filter (\<lambda>l. l \<noteq> ''exit'') (take n ls)))) \<or>
      (cpc (client_side s) = C_Recv [] \<and> serving s \<and> to_client s = [])"
    using stuck_cases [OF inv] by fastforce
next
  let ?u = "(session_start [])\<lparr>client_side := \<lparr>cpc = C_Recv [], typed = [], answers = []\<rparr>, to_server := []\<rparr>"
  have "session_move (session_start []) ?u"
    using session_move.client_sends [of "session_start []" "\<lparr>cpc = C_Recv [], typed = [], answers = []\<rparr>" "[]"]
    by (simp add: session_start_def send_line_def)
  then have "session_reachable [] ?u" by (rule session_reachable.goes_on [OF session_reachable.starts])
  moreover have "stuck ?u" unfolding stuck_def by (auto elim!: session_move.cases simp: session_start_def)
  ultimately show "\<exists>u. session_reachable [] u \<and> stuck u \<and> cpc (client_side u) = C_Recv []" by (intro exI [of _ ?u]) simp
qed

theorem conversation_stops_only_at_an_empty_line_witness:
  "\<exists>u. session_reachable [] u \<and> stuck u \<and> cpc (client_side u) = C_Recv []"
  using conversation_stops_only_at_an_empty_line [OF session_reachable.starts [of "[''hi'', ''exit'']"]] by blast

end
