(* ===== verification/EdgeServer.thy ===== *)
theory EdgeServer
  imports ReplyServers
begin

text \<open>
  The server of the socket exercises that serves all clients in one thread, with edge triggered events
  (the directory for epoll, \<^verbatim>\<open>server.cpp\<close>).

  The kernel side of a connection is the bytes that have arrived and were not read, how the peer stands and
  whether \<^verbatim>\<open>epoll_wait\<close> has an event for it: an event is made when something happens on the connection and
  is gone when it has been reported, whatever is left to read.  The moves of the world (clients connect,
  send, leave) and of the server alternate freely; the server handles the reported events one after the
  other.  Connections are numbered as they are made.  A reset reports \<^verbatim>\<open>EPOLLIN\<close> as well, as Linux does.
\<close>

section \<open>State\<close>

datatype peer_state = Up | Shut | Reset

record conn =
  unread :: string
  peer :: peer_state
  event :: bool
  shown :: "string list"
  replies :: nat

datatype ready = Listener | Client nat

record edge_server =
  backlog :: "(nat \<times> conn) list"
  conns :: "nat \<Rightarrow> conn option"    \<comment> \<open>accepted, in the interest list and not closed\<close>
  listen_event :: bool
  batch :: "ready list"            \<comment> \<open>the reported events not handled yet\<close>
  fresh :: nat
  looping :: bool

definition fresh_conn :: conn where
  "fresh_conn = \<lparr>unread = [], peer = Up, event = False, shown = [], replies = 0\<rparr>"

definition edge_start :: edge_server where
  "edge_start = \<lparr>backlog = [], conns = (\<lambda>_. None), listen_event = False, batch = [], fresh = 0, looping = True\<rparr>"

definition to_report :: "conn \<Rightarrow> bool" where
  "to_report c \<longleftrightarrow> unread c \<noteq> [] \<or> peer c \<noteq> Up"

section \<open>The server\<close>

text \<open>The start: the failing call, and how many of the two descriptors stay open\<close>

definition edge_setup :: "bool \<Rightarrow> bool \<Rightarrow> bool \<Rightarrow> bool \<Rightarrow> bool \<Rightarrow> string option \<times> nat" where
  "edge_setup socket_ok bind_ok listen_ok epoll_ok ctl_ok =
     (if \<not> socket_ok then (Some ''Socket creation failed'', 0)
      else if \<not> bind_ok then (Some ''Bind failed'', 0)
      else if \<not> listen_ok then (Some ''Listen failed'', 0)
      else if \<not> epoll_ok then (Some ''Epoll creation failed'', 0)
      else if \<not> ctl_ok then (Some ''Epoll_ctl failed'', 0)
      else (None, 2))"

text \<open>The loop over \<^verbatim>\<open>accept\<close>: \<open>n\<close> calls succeed before one fails for want of descriptors, and \<open>ctl fd\<close> says whether
  \<^verbatim>\<open>epoll_ctl\<close> succeeds.  Adding a connection that has something to report makes an event.\<close>

fun accept_loop :: "nat \<Rightarrow> (nat \<Rightarrow> bool) \<Rightarrow> (nat \<times> conn) list \<Rightarrow> (nat \<Rightarrow> conn option) \<Rightarrow> (nat \<times> conn) list \<times> (nat \<Rightarrow> conn option)" where
  "accept_loop n ctl [] m = ([], m)"
| "accept_loop 0 ctl (x # q) m = (x # q, m)"
| "accept_loop (Suc n) ctl ((fd, c) # q) m =
     accept_loop n ctl q (if ctl fd then m(fd \<mapsto> c\<lparr>event := to_report c\<rparr>) else m(fd := None))"

text \<open>The loop over \<^verbatim>\<open>recv\<close>.  \<open>buffer\<close> is what the array holds: at first what the stack held before; \<open>sends i\<close> is the
  result of the \<open>i\<close>-th \<^verbatim>\<open>send\<close>.\<close>

function read_loop :: "(nat \<Rightarrow> send_result) \<Rightarrow> nat \<Rightarrow> string \<Rightarrow> conn \<Rightarrow> conn result" where
  "read_loop sends i buffer c =
     (if unread c = [] then Inr c
      else let bytes = take BUFFER_SIZE (unread c); buf = bytes @ drop (length bytes) buffer in
        if NUL \<notin> set buf then Inl Out_Of_Bounds
        else if sends i = Pipe_Signal then Inl (Exit_With ''SIGPIPE'')
        else read_loop sends (Suc i) (replicate BUFFER_SIZE NUL)
          (c\<lparr>unread := drop BUFFER_SIZE (unread c), shown := shown c @ [cstr buf],
             replies := (if sends i = Sent then replies c + 1 else replies c)\<rparr>))"
  by pat_completeness auto
termination by (relation "measure (\<lambda>(sends, i, buffer, c). length (unread c))") (auto simp: BUFFER_SIZE_def)

declare read_loop.simps [simp del]

definition handle_ready :: "nat \<Rightarrow> (nat \<Rightarrow> bool) \<Rightarrow> (nat \<Rightarrow> send_result) \<Rightarrow> string \<Rightarrow> ready \<Rightarrow> edge_server \<Rightarrow> edge_server result" where
  "handle_ready n ctl sends stack r s = (case r of
     Listener \<Rightarrow> (case accept_loop n ctl (backlog s) (conns s) of (q, m) \<Rightarrow> Inr (s\<lparr>backlog := q, conns := m\<rparr>))
   | Client fd \<Rightarrow> (case conns s fd of
        None \<Rightarrow> Inr s
      | Some c \<Rightarrow> rbind (read_loop sends 0 stack c) (\<lambda>c1.
          Inr (s\<lparr>conns := (conns s)(fd := (if peer c1 = Up then Some c1 else None))\<rparr>))))"

text \<open>\<^verbatim>\<open>epoll_wait\<close> reports some of the events there are.\<close>

fun has_event :: "edge_server \<Rightarrow> ready \<Rightarrow> bool" where
  "has_event s Listener = listen_event s"
| "has_event s (Client fd) = (case conns s fd of None \<Rightarrow> False | Some c \<Rightarrow> event c)"

definition report :: "ready list \<Rightarrow> edge_server \<Rightarrow> edge_server" where
  "report rs s = s\<lparr>batch := rs, listen_event := listen_event s \<and> Listener \<notin> set rs,
     conns := (\<lambda>fd. map_option (\<lambda>c. c\<lparr>event := event c \<and> Client fd \<notin> set rs\<rparr>) (conns s fd))\<rparr>"

inductive server_move :: "bool \<Rightarrow> edge_server \<Rightarrow> edge_server \<Rightarrow> bool" for fails where
  reported: "looping s \<Longrightarrow> batch s = [] \<Longrightarrow> rs \<noteq> [] \<Longrightarrow> length rs \<le> 1024 \<Longrightarrow> (\<forall>r \<in> set rs. has_event s r) \<Longrightarrow>
    server_move fails s (report rs s)"
| interrupted: "looping s \<Longrightarrow> batch s = [] \<Longrightarrow> server_move fails s (s\<lparr>looping := False\<rparr>)"
| handled: "looping s \<Longrightarrow> batch s = r # rs \<Longrightarrow> fails \<or> length (backlog s) \<le> n \<Longrightarrow> length stack = BUFFER_SIZE \<Longrightarrow>
    handle_ready n ctl sends stack r (s\<lparr>batch := rs\<rparr>) = Inr s' \<Longrightarrow> server_move fails s s'"

section \<open>The world\<close>

text \<open>What happens on a connection, before or after it has been accepted\<close>

datatype happening = Bytes string | Ends peer_state

definition happens :: "happening \<Rightarrow> conn \<Rightarrow> conn" where
  "happens h c = (case h of Bytes bs \<Rightarrow> c\<lparr>unread := unread c @ bs, event := True\<rparr> | Ends p \<Rightarrow> c\<lparr>peer := p, event := True\<rparr>)"

inductive world_move :: "edge_server \<Rightarrow> edge_server \<Rightarrow> bool" where
  connects: "world_move s (s\<lparr>backlog := backlog s @ [(fresh s, fresh_conn)], listen_event := True, fresh := fresh s + 1\<rparr>)"
| on_connection: "conns s fd = Some c \<Longrightarrow> peer c = Up \<Longrightarrow> world_move s (s\<lparr>conns := (conns s)(fd \<mapsto> happens h c)\<rparr>)"
| in_backlog: "i < length (backlog s) \<Longrightarrow> backlog s ! i = (fd, c) \<Longrightarrow> peer c = Up \<Longrightarrow>
    world_move s (s\<lparr>backlog := (backlog s)[i := (fd, happens h c)]\<rparr>)"

text \<open>\<open>fails\<close> says whether \<^verbatim>\<open>accept\<close> may fail while clients wait.\<close>

inductive edge_reachable :: "bool \<Rightarrow> edge_server \<Rightarrow> bool" for fails where
  begun: "edge_reachable fails edge_start"
| by_server: "edge_reachable fails s \<Longrightarrow> server_move fails s s' \<Longrightarrow> edge_reachable fails s'"
| by_world: "edge_reachable fails s \<Longrightarrow> world_move s s' \<Longrightarrow> edge_reachable fails s'"

section \<open>One event\<close>

function chunks :: "string \<Rightarrow> string list" where
  "chunks bs = (if bs = [] then [] else take BUFFER_SIZE bs # chunks (drop BUFFER_SIZE bs))"
  by auto
termination by (relation "measure length") (auto simp: BUFFER_SIZE_def)

declare chunks.simps [simp del]

lemma chunks_simps [simp]: "chunks [] = []" "bs \<noteq> [] \<Longrightarrow> chunks bs = take BUFFER_SIZE bs # chunks (drop BUFFER_SIZE bs)"
  by (simp_all add: chunks.simps)

lemma read_loop_none [simp]: "unread c = [] \<Longrightarrow> read_loop sends i buffer c = Inr c"
  by (simp add: read_loop.simps)

lemma read_loop_sent:
  assumes "unread c \<noteq> []" "NUL \<in> set (take BUFFER_SIZE (unread c) @ drop (length (take BUFFER_SIZE (unread c))) buffer)"
  shows "read_loop (\<lambda>_. Sent) i buffer c = read_loop (\<lambda>_. Sent) (Suc i) (replicate BUFFER_SIZE NUL)
     (c\<lparr>unread := drop BUFFER_SIZE (unread c),
        shown := shown c @ [cstr (take BUFFER_SIZE (unread c) @ drop (length (take BUFFER_SIZE (unread c))) buffer)],
        replies := replies c + 1\<rparr>)"
  using assms by (subst read_loop.simps) (auto simp: Let_def)

lemma read_loop_zeros:
  assumes "\<forall>x \<in> set (chunks (unread c)). NUL \<in> set x \<or> length x < BUFFER_SIZE"
  shows "read_loop (\<lambda>_. Sent) i (replicate BUFFER_SIZE NUL) c =
    Inr (c\<lparr>unread := [], shown := shown c @ map cstr (chunks (unread c)), replies := replies c + length (chunks (unread c))\<rparr>)"
  using assms
proof (induction "unread c" arbitrary: c i rule: chunks.induct)
  case 1
  show ?case
  proof (cases "unread c = []")
    case False
    let ?x = "take BUFFER_SIZE (unread c)"
    have nul: "NUL \<in> set (?x @ drop (length ?x) (replicate BUFFER_SIZE NUL))" using 1(2) False by auto
    show ?thesis
      unfolding read_loop_sent [OF False nul]
      by (subst 1(1) [OF False]) (use 1(2) False in simp_all)
  qed simp
qed

lemma read_loop_keeps:
  assumes "read_loop sends i buffer c = Inr c1"
  shows "unread c1 = [] \<and> peer c1 = peer c \<and> event c1 = event c"
  using assms
proof (induction sends i buffer c rule: read_loop.induct)
  case (1 sends i buffer c)
  show ?case
  proof (cases "unread c = []")
    case False
    let ?buf = "take BUFFER_SIZE (unread c) @ drop (length (take BUFFER_SIZE (unread c))) buffer"
    have *: "NUL \<in> set ?buf" "sends i \<noteq> Pipe_Signal"
      "read_loop sends (Suc i) (replicate BUFFER_SIZE NUL)
          (c\<lparr>unread := drop BUFFER_SIZE (unread c), shown := shown c @ [cstr ?buf],
             replies := (if sends i = Sent then replies c + 1 else replies c)\<rparr>) = Inr c1"
      using 1(2) False by (subst (asm) read_loop.simps, simp add: Let_def split: if_splits)+
    from 1(1) [OF False refl refl _ *(2,3)] *(1) show ?thesis by simp
  qed (use 1(2) in simp)
qed

text \<open>One event answers everything that has arrived, a reply for each piece of at most 1024 bytes, and closes the
  connection exactly when the peer has ended it.  What is printed first runs on into the old contents of the
  stack, since only the later pieces meet a cleared buffer.\<close>

theorem one_event_answers_everything:
  assumes "conns s fd = Some c" "chunks (unread c) = x # xs" "length stack = BUFFER_SIZE"
    and "NUL \<in> set (x @ drop (length x) stack)" "\<forall>y \<in> set xs. NUL \<in> set y \<or> length y < BUFFER_SIZE"
  shows "handle_ready n ctl (\<lambda>_. Sent) stack (Client fd) s =
    Inr (s\<lparr>conns := (conns s)(fd := (if peer c = Up
      then Some (c\<lparr>unread := [], shown := shown c @ cstr (x @ drop (length x) stack) # map cstr xs, replies := replies c + Suc (length xs)\<rparr>)
      else None))\<rparr>)"
proof -
  have ne: "unread c \<noteq> []" using assms(2) by auto
  then have x: "x = take BUFFER_SIZE (unread c)" "xs = chunks (drop BUFFER_SIZE (unread c))" using assms(2) by auto
  have "read_loop (\<lambda>_. Sent) 0 stack c =
      Inr (c\<lparr>unread := [], shown := shown c @ cstr (x @ drop (length x) stack) # map cstr xs, replies := replies c + Suc (length xs)\<rparr>)"
    using read_loop_sent [OF ne assms(4) [unfolded x(1)], of 0] assms(5) by (simp add: read_loop_zeros x)
  then show ?thesis using assms(1) by (simp add: handle_ready_def)
qed

theorem one_event_answers_everything_witness:
  "handle_ready 0 (\<lambda>_. True) (\<lambda>_. Sent) (''??x'' @ replicate (BUFFER_SIZE - 3) NUL) (Client 0)
     (edge_start\<lparr>conns := [0 \<mapsto> fresh_conn\<lparr>unread := ''hi''\<rparr>]\<rparr>) =
   Inr (edge_start\<lparr>conns := [0 \<mapsto> \<lparr>unread = [], peer = Up, event = False, shown = [''hix''], replies = 1\<rparr>]\<rparr>)"
  using one_event_answers_everything [of "edge_start\<lparr>conns := [0 \<mapsto> fresh_conn\<lparr>unread := ''hi''\<rparr>]\<rparr>" 0
      "fresh_conn\<lparr>unread := ''hi''\<rparr>" "''hi''" "[]" "''??x'' @ replicate (BUFFER_SIZE - 3) NUL" 0 "\<lambda>_. True"]
  by (simp add: BUFFER_SIZE_def fresh_conn_def edge_start_def cstr_zeros [of "''hix''", simplified])

section \<open>Edges\<close>

definition edge_inv :: "bool \<Rightarrow> edge_server \<Rightarrow> bool" where
  "edge_inv fails s \<longleftrightarrow>
     (\<forall>fd c. conns s fd = Some c \<and> to_report c \<longrightarrow> event c \<or> Client fd \<in> set (batch s)) \<and>
     (\<not> fails \<and> backlog s \<noteq> [] \<longrightarrow> listen_event s \<or> Listener \<in> set (batch s))"

lemma to_report_event [simp]: "to_report (c\<lparr>event := e\<rparr>) = to_report c"
  by (simp add: to_report_def)

lemma accept_loop_events:
  assumes "accept_loop n ctl q m = (q', m')" "m' fd = Some c"
  shows "to_report c \<longrightarrow> event c \<or> m fd = Some c"
  using assms by (induction n ctl q m rule: accept_loop.induct) (fastforce split: if_splits)+

lemma accept_loop_all: "length q \<le> n \<Longrightarrow> fst (accept_loop n ctl q m) = []"
  by (induction n ctl q m rule: accept_loop.induct) auto

lemma server_move_inv:
  assumes inv: "edge_inv fails s" and move: "server_move fails s s'"
  shows "edge_inv fails s'"
proof -
  have c: "conns s fd = Some c \<Longrightarrow> to_report c \<Longrightarrow> event c \<or> Client fd \<in> set (batch s)" for fd c
    using inv by (simp add: edge_inv_def)
  have l: "\<not> fails \<Longrightarrow> backlog s \<noteq> [] \<Longrightarrow> listen_event s \<or> Listener \<in> set (batch s)"
    using inv by (simp add: edge_inv_def)
  show ?thesis
    using move
  proof cases
    case (reported rs)
    then show ?thesis using c l by (fastforce simp: edge_inv_def report_def)
  next
    case interrupted
    then show ?thesis using inv unfolding edge_inv_def by auto
  next
    case (handled r rs n stack ctl sends)
    show ?thesis
    proof (cases r)
      case Listener
      obtain q m where qm: "accept_loop n ctl (backlog s) (conns s) = (q, m)" by fastforce
      then have s': "s' = s\<lparr>batch := rs, backlog := q, conns := m\<rparr>" using handled(5) Listener by (simp add: handle_ready_def)
      have "event d \<or> Client fd \<in> set rs" if "m fd = Some d" "to_report d" for fd d
        using accept_loop_events [OF qm that(1)] that(2) c [of fd d] handled(2) Listener by auto
      moreover have "\<not> fails \<Longrightarrow> q = []" using accept_loop_all [of "backlog s" n ctl "conns s"] handled(3) qm by simp
      ultimately show ?thesis by (auto simp: edge_inv_def s')
    next
      case (Client fd)
      have other: "event d \<or> Client k \<in> set rs" if "conns s k = Some d" "to_report d" "k \<noteq> fd" for k d
        using c [OF that(1,2)] that(3) handled(2) Client by auto
      have lst: "listen_event s \<or> Listener \<in> set rs" if "\<not> fails" "backlog s \<noteq> []" using l [OF that] handled(2) Client by simp
      show ?thesis
      proof (cases "conns s fd")
        case None
        then have "s' = s\<lparr>batch := rs\<rparr>" using handled(5) Client by (simp add: handle_ready_def)
        moreover have "event d \<or> Client k \<in> set rs" if "conns s k = Some d" "to_report d" for k d
          using other [OF that] None that(1) by fastforce
        ultimately show ?thesis using lst by (auto simp: edge_inv_def)
      next
        case (Some d)
        then obtain d1 where d1: "read_loop sends 0 stack d = Inr d1"
          "s' = s\<lparr>batch := rs, conns := (conns s)(fd := (if peer d1 = Up then Some d1 else None))\<rparr>"
          using handled(5) Client by (auto simp: handle_ready_def rbind_eq_Inr)
        then have "peer d1 = Up \<Longrightarrow> \<not> to_report d1" using read_loop_keeps by (simp add: to_report_def)
        then show ?thesis using other lst by (auto simp: edge_inv_def d1(2))
      qed
    qed
  qed
qed

lemma world_move_inv:
  assumes "edge_inv fails s" "world_move s s'"
  shows "edge_inv fails s'"
  using assms(2,1) by cases (auto simp: edge_inv_def happens_def split: happening.splits)

lemma edge_reachable_inv: "edge_reachable fails s \<Longrightarrow> edge_inv fails s"
proof (induction rule: edge_reachable.induct)
  case begun
  show ?case by (simp add: edge_inv_def edge_start_def)
qed (blast intro: server_move_inv world_move_inv)+

text \<open>C22: Bytes that were not read and the end of a connection always have an event coming, or are about to be
  handled.  So have clients that wait to be accepted, as long as \<^verbatim>\<open>accept\<close> does not fail; after a failure they
  stay in the queue, because the loop is left with the event already consumed.\<close>

theorem unread_bytes_have_an_event:
  "(edge_reachable fails s \<longrightarrow>
      (\<forall>fd c. conns s fd = Some c \<and> (unread c \<noteq> [] \<or> peer c \<noteq> Up) \<longrightarrow> event c \<or> Client fd \<in> set (batch s)) \<and>
      (\<not> fails \<and> backlog s \<noteq> [] \<longrightarrow> listen_event s \<or> Listener \<in> set (batch s))) \<and>
   (\<exists>s. edge_reachable True s \<and> looping s \<and> length (backlog s) = 1 \<and>
      (\<forall>s'. (server_move True)\<^sup>*\<^sup>* s s' \<longrightarrow> backlog s' = backlog s))"
proof
  show "edge_reachable fails s \<longrightarrow>
      (\<forall>fd c. conns s fd = Some c \<and> (unread c \<noteq> [] \<or> peer c \<noteq> Up) \<longrightarrow> event c \<or> Client fd \<in> set (batch s)) \<and>
      (\<not> fails \<and> backlog s \<noteq> [] \<longrightarrow> listen_event s \<or> Listener \<in> set (batch s))"
    using edge_reachable_inv [of fails s] unfolding edge_inv_def to_report_def by blast
next
  let ?s1 = "edge_start\<lparr>backlog := [(0, fresh_conn)], listen_event := True, fresh := 1\<rparr>"
  let ?s2 = "?s1\<lparr>listen_event := False, batch := [Listener]\<rparr>"
  let ?s3 = "?s2\<lparr>batch := []\<rparr>"
  have 1: "edge_reachable True ?s1"
    using edge_reachable.by_world [OF edge_reachable.begun world_move.connects] by (simp add: edge_start_def)
  have "server_move True ?s1 ?s2"
    using server_move.reported [of ?s1 "[Listener]" True] by (simp add: report_def edge_start_def)
  then have 2: "edge_reachable True ?s2" by (rule edge_reachable.by_server [OF 1])
  have "server_move True ?s2 ?s3"
    by (rule server_move.handled [where r = Listener and rs = "[]" and n = 0 and stack = "replicate BUFFER_SIZE NUL"])
      (simp_all add: handle_ready_def edge_start_def)
  then have 3: "edge_reachable True ?s3" by (rule edge_reachable.by_server [OF 2])
  have "s' = ?s3 \<or> s' = ?s3\<lparr>looping := False\<rparr>" if "(server_move True)\<^sup>*\<^sup>* ?s3 s'" for s'
    using that
  proof (induction rule: rtranclp_induct)
    case (step u v)
    have "\<not> has_event u r" for r using step.IH by (cases r) (auto simp: edge_start_def)
    with step.hyps(2) step.IH show ?case
      by cases (auto simp: edge_start_def)
  qed simp
  then have "\<forall>s'. (server_move True)\<^sup>*\<^sup>* ?s3 s' \<longrightarrow> backlog s' = backlog ?s3" by fastforce
  then show "\<exists>s. edge_reachable True s \<and> looping s \<and> length (backlog s) = 1 \<and> (\<forall>s'. (server_move True)\<^sup>*\<^sup>* s s' \<longrightarrow> backlog s' = backlog s)"
    using 3 by (intro exI [of _ ?s3]) (simp add: edge_start_def)
qed

theorem unread_bytes_have_an_event_witness:
  "\<exists>s. edge_reachable False s \<and> backlog s \<noteq> [] \<and> (listen_event s \<or> Listener \<in> set (batch s))"
proof -
  let ?s = "edge_start\<lparr>backlog := backlog edge_start @ [(fresh edge_start, fresh_conn)], listen_event := True, fresh := fresh edge_start + 1\<rparr>"
  have "edge_reachable False ?s" by (rule edge_reachable.by_world [OF edge_reachable.begun world_move.connects])
  then show ?thesis using unread_bytes_have_an_event [of False ?s] by (intro exI [of _ ?s]) (simp add: edge_start_def)
qed

end
