(* ===== verification/SocketClass.thy ===== *)
theory SocketClass
  imports Prelude
begin

text \<open>
  The class \<^verbatim>\<open>Socket\<close> of \<^verbatim>\<open>server-client/socket.cpp\<close> and the server and client built on it
  (\<^verbatim>\<open>server-client/server.cpp\<close>, \<^verbatim>\<open>client.cpp\<close>).

  The kernel is the descriptors that are open, each with the socket it names, and the options of every
  socket.  A descriptor that \<^verbatim>\<open>socket\<close> or \<^verbatim>\<open>accept\<close> returns is an argument; it is not open at that time.  A
  call on a descriptor that is not open fails.  Log lines are left out, and so is \<^verbatim>\<open>set_reuse_addr\<close>, whose call
  of \<^verbatim>\<open>setsockopt\<close> lacks an argument.
\<close>

section \<open>The kernel\<close>

record sock_opts =
  sndbuf :: int
  rcvbuf :: int
  linger :: "(bool \<times> int) option"
  keepalive :: bool
  nonblocking :: bool

record kernel =
  files :: "int \<Rightarrow> nat option"     \<comment> \<open>the socket behind each open descriptor\<close>
  options :: "nat \<Rightarrow> sock_opts"
  fresh :: nat

definition default_opts :: sock_opts where
  "default_opts = \<lparr>sndbuf = 16384, rcvbuf = 131072, linger = None, keepalive = False, nonblocking = False\<rparr>"

definition opened :: "int \<Rightarrow> kernel \<Rightarrow> kernel" where
  "opened fd k = k\<lparr>files := (files k)(fd \<mapsto> fresh k), options := (options k)(fresh k := default_opts), fresh := fresh k + 1\<rparr>"

definition close_fd :: "int \<Rightarrow> kernel \<Rightarrow> kernel" where
  "close_fd fd k = k\<lparr>files := (files k)(fd := None)\<rparr>"

definition with_options :: "int \<Rightarrow> (sock_opts \<Rightarrow> sock_opts) \<Rightarrow> kernel \<Rightarrow> bool \<times> kernel" where
  "with_options fd f k = (case files k fd of
     None \<Rightarrow> (False, k)
   | Some s \<Rightarrow> (True, k\<lparr>options := (options k)(s := f (options k s))\<rparr>))"

section \<open>The class\<close>

record socket_obj =
  m_ip :: string
  m_port :: "16 word"
  m_sockfd :: int

text \<open>\<open>fd\<close> is the result of \<^verbatim>\<open>socket\<close>, negative when it fails.\<close>

definition socket_new :: "int \<Rightarrow> kernel \<Rightarrow> socket_obj \<times> kernel" where
  "socket_new fd k = (\<lparr>m_ip = [], m_port = 0, m_sockfd = fd\<rparr>, if fd < 0 then k else opened fd k)"

definition socket_of_fd :: "int \<Rightarrow> socket_obj" where
  "socket_of_fd fd = \<lparr>m_ip = [], m_port = 0, m_sockfd = fd\<rparr>"

definition sclose :: "socket_obj \<Rightarrow> kernel \<Rightarrow> socket_obj \<times> kernel" where
  "sclose s k = (if m_sockfd s > 0 then (s\<lparr>m_sockfd := 0\<rparr>, close_fd (m_sockfd s) k) else (s, k))"

text \<open>The address for \<^verbatim>\<open>bind\<close> and \<^verbatim>\<open>connect\<close>, in host order: \<^verbatim>\<open>INADDR_ANY\<close> is zero, and \<open>inet_addr\<close> stands for the
  library function.  The port has become an \<^verbatim>\<open>int16_t\<close>.\<close>

definition sock_address :: "(string \<Rightarrow> 32 word) \<Rightarrow> string \<Rightarrow> 16 word \<Rightarrow> 32 word \<times> 16 word" where
  "sock_address inet_addr ip port = (if ip = [] then 0 else inet_addr ip, port)"

definition sbind :: "(string \<Rightarrow> 32 word) \<Rightarrow> (32 word \<times> 16 word \<Rightarrow> bool) \<Rightarrow> string \<Rightarrow> int \<Rightarrow> socket_obj \<Rightarrow> bool \<times> socket_obj" where
  "sbind inet_addr bind ip port s =
     (let p = word_of_int port in (bind (sock_address inet_addr ip p), s\<lparr>m_ip := ip, m_port := p\<rparr>))"

definition sconnect :: "(string \<Rightarrow> 32 word) \<Rightarrow> (32 word \<times> 16 word \<Rightarrow> bool) \<Rightarrow> string \<Rightarrow> int \<Rightarrow> socket_obj \<Rightarrow> bool \<times> socket_obj" where
  "sconnect inet_addr connect ip port s =
     (let p = word_of_int port in (connect (sock_address inet_addr ip p), s\<lparr>m_ip := ip, m_port := p\<rparr>))"

definition saccept :: "int \<Rightarrow> kernel \<Rightarrow> int \<times> kernel" where
  "saccept conn k = (if conn < 0 then (- 1, k) else (conn, opened conn k))"

definition set_non_blocking :: "socket_obj \<Rightarrow> kernel \<Rightarrow> bool \<times> kernel" where
  "set_non_blocking s k = with_options (m_sockfd s) (\<lambda>opt. opt\<lparr>nonblocking := True\<rparr>) k"

definition set_send_buffer :: "int \<Rightarrow> socket_obj \<Rightarrow> kernel \<Rightarrow> bool \<times> kernel" where
  "set_send_buffer n s k = with_options (m_sockfd s) (\<lambda>opt. opt\<lparr>sndbuf := n\<rparr>) k"

definition set_recv_buffer :: "int \<Rightarrow> socket_obj \<Rightarrow> kernel \<Rightarrow> bool \<times> kernel" where
  "set_recv_buffer n s k = with_options (m_sockfd s) (\<lambda>opt. opt\<lparr>rcvbuf := n\<rparr>) k"

text \<open>\<^verbatim>\<open>set_linger\<close> passes its structure under the name \<^verbatim>\<open>SO_RCVBUF\<close>, of which the kernel reads the first \<^verbatim>\<open>int\<close>,
  \<^verbatim>\<open>l_onoff\<close>.\<close>

definition set_linger :: "bool \<Rightarrow> int \<Rightarrow> socket_obj \<Rightarrow> kernel \<Rightarrow> bool \<times> kernel" where
  "set_linger active seconds s k =
     (let l_onoff = (if active then 1 else 0) in with_options (m_sockfd s) (\<lambda>opt. opt\<lparr>rcvbuf := l_onoff\<rparr>) k)"

definition set_keepalive :: "socket_obj \<Rightarrow> kernel \<Rightarrow> bool \<times> kernel" where
  "set_keepalive s k = with_options (m_sockfd s) (\<lambda>opt. opt\<lparr>keepalive := True\<rparr>) k"

section \<open>Programs with sockets\<close>

text \<open>Objects are variables.  \<open>Copy\<close> is the implicit copy constructor, which copies the descriptor.\<close>

datatype sock_cmd =
    New nat int
  | From_Accept nat int
  | Copy nat nat
  | Close nat
  | Destroy nat
  | Option nat "sock_opts \<Rightarrow> sock_opts"

record sock_world =
  objs :: "nat \<Rightarrow> socket_obj option"
  kern :: kernel

definition sock_cmd_step :: "sock_cmd \<Rightarrow> sock_world \<Rightarrow> sock_world option" where
  "sock_cmd_step c w = (case c of
     New x fd \<Rightarrow> if objs w x \<noteq> None \<or> files (kern w) fd \<noteq> None then None
       else (case socket_new fd (kern w) of (s, k) \<Rightarrow> Some \<lparr>objs = (objs w)(x \<mapsto> s), kern = k\<rparr>)
   | From_Accept x fd \<Rightarrow> if objs w x \<noteq> None \<or> files (kern w) fd \<noteq> None then None
       else (case saccept fd (kern w) of (conn, k) \<Rightarrow> Some \<lparr>objs = (objs w)(x \<mapsto> socket_of_fd conn), kern = k\<rparr>)
   | Copy x y \<Rightarrow> (case objs w x of None \<Rightarrow> None | Some s \<Rightarrow> if objs w y \<noteq> None then None else Some (w\<lparr>objs := (objs w)(y \<mapsto> s)\<rparr>))
   | Close x \<Rightarrow> (case objs w x of None \<Rightarrow> None
       | Some s \<Rightarrow> (case sclose s (kern w) of (s', k) \<Rightarrow> Some \<lparr>objs = (objs w)(x \<mapsto> s'), kern = k\<rparr>))
   | Destroy x \<Rightarrow> (case objs w x of None \<Rightarrow> None
       | Some s \<Rightarrow> (case sclose s (kern w) of (s', k) \<Rightarrow> Some \<lparr>objs = (objs w)(x := None), kern = k\<rparr>))
   | Option x f \<Rightarrow> (case objs w x of None \<Rightarrow> None
       | Some s \<Rightarrow> (case with_options (m_sockfd s) f (kern w) of (ok, k) \<Rightarrow> Some (w\<lparr>kern := k\<rparr>))))"

fun sock_run :: "sock_cmd list \<Rightarrow> sock_world \<Rightarrow> sock_world option" where
  "sock_run [] w = Some w"
| "sock_run (c # cs) w = (case sock_cmd_step c w of None \<Rightarrow> None | Some w' \<Rightarrow> sock_run cs w')"

definition only_std :: sock_world where
  "only_std = \<lparr>objs = (\<lambda>_. None), kern = \<lparr>files = [0 \<mapsto> 0, 1 \<mapsto> 1, 2 \<mapsto> 2], options = (\<lambda>_. default_opts), fresh = 3\<rparr>\<rparr>"

fun is_copy :: "sock_cmd \<Rightarrow> bool" where
  "is_copy (Copy x y) = True" | "is_copy _ = False"

section \<open>Ownership\<close>

text \<open>Every descriptor beyond the standard ones has exactly one owner among the objects, and no object has a
  descriptor that is not open.  \<open>d\<close> are the descriptors of the objects and \<open>F\<close> the open ones.\<close>

definition own :: "(nat \<Rightarrow> int option) \<Rightarrow> int set \<Rightarrow> bool" where
  "own d F \<longleftrightarrow> {0, 1, 2} \<subseteq> F \<and> (\<forall>fd \<in> F. 2 < fd \<longrightarrow> (\<exists>x. d x = Some fd)) \<and>
     (\<forall>x fd. d x = Some fd \<and> 0 < fd \<longrightarrow> 2 < fd \<and> fd \<in> F) \<and>
     (\<forall>x y fd. d x = Some fd \<and> d y = Some fd \<and> 0 < fd \<longrightarrow> x = y)"

lemma own_change:
  assumes "own d F" "{0, 1, 2} \<subseteq> F'"
    and cover: "\<And>e. e \<in> F' \<Longrightarrow> 2 < e \<Longrightarrow> v = Some e \<or> (\<exists>y. y \<noteq> x \<and> d y = Some e)"
    and new: "\<And>e. v = Some e \<Longrightarrow> 0 < e \<Longrightarrow> 2 < e \<and> e \<in> F'"
    and old: "\<And>e y. y \<noteq> x \<Longrightarrow> d y = Some e \<Longrightarrow> 0 < e \<Longrightarrow> e \<in> F' \<and> v \<noteq> Some e"
  shows "own (d(x := v)) F'"
  unfolding own_def
proof (intro conjI ballI allI impI; (elim conjE)?)
  show "\<exists>y. (d(x := v)) y = Some e" if "e \<in> F'" "2 < e" for e
    using cover [OF that] by (metis fun_upd_same fun_upd_other)
  fix y e assume a: "(d(x := v)) y = Some e" "0 < e"
  show "2 < e" "e \<in> F'"
    using a new [of e] old [of y e] assms(1) by (auto simp: own_def split: if_splits)
  fix z assume "(d(x := v)) z = Some e"
  then show "y = z"
    using a old [of y e] old [of z e] assms(1) by (auto simp: own_def split: if_splits)
qed (fact assms(2))

lemma ownD:
  assumes "own d F"
  shows "{0, 1, 2} \<subseteq> F" "e \<in> F \<Longrightarrow> 2 < e \<Longrightarrow> \<exists>y. d y = Some e"
    "d y = Some e \<Longrightarrow> 0 < e \<Longrightarrow> 2 < e \<and> e \<in> F" "d y = Some e \<Longrightarrow> d z = Some e \<Longrightarrow> 0 < e \<Longrightarrow> y = z"
  using assms unfolding own_def by blast+

lemma own_open:
  assumes "own d F" "d x = None" "fd \<notin> F" "0 \<le> fd"
  shows "own (d(x \<mapsto> fd)) (insert fd F)"
proof -
  have "fd \<notin> {0, 1, 2}" using ownD(1) [OF assms(1)] assms(3) by auto
  then have fd: "2 < fd" using assms(4) by auto
  show ?thesis
  proof (rule own_change [OF assms(1)])
    show "Some fd = Some e \<or> (\<exists>y. y \<noteq> x \<and> d y = Some e)" if "e \<in> insert fd F" "2 < e" for e
      using that ownD(2) [OF assms(1), of e] assms(2) by (cases "e = fd") (auto, metis option.distinct(1))
    show "e \<in> insert fd F \<and> Some fd \<noteq> Some e" if "d y = Some e" "0 < e" for y e
      using ownD(3) [OF assms(1) that] assms(3) by auto
  qed (use ownD(1) [OF assms(1)] fd in auto)
qed

lemma own_failed:
  assumes "own d F" "d x = None" "fd < 0"
  shows "own (d(x \<mapsto> fd)) F"
proof (rule own_change [OF assms(1)])
  show "Some fd = Some e \<or> (\<exists>y. y \<noteq> x \<and> d y = Some e)" if "e \<in> F" "2 < e" for e
    using ownD(2) [OF assms(1) that] assms(2) by (metis option.distinct(1))
  show "e \<in> F \<and> Some fd \<noteq> Some e" if "d y = Some e" "0 < e" for y e
    using ownD(3) [OF assms(1) that] that(2) assms(3) by auto
qed (use ownD(1) [OF assms(1)] assms(3) in auto)

lemma own_close:
  assumes "own d F" "d x = Some fd" "0 < fd" "v = None \<or> v = Some 0"
  shows "own (d(x := v)) (F - {fd})"
proof (rule own_change [OF assms(1)])
  have "2 < fd" using ownD(3) [OF assms(1-3)] by simp
  then show "{0, 1, 2} \<subseteq> F - {fd}" using ownD(1) [OF assms(1)] by auto
  show "v = Some e \<or> (\<exists>y. y \<noteq> x \<and> d y = Some e)" if "e \<in> F - {fd}" "2 < e" for e
  proof -
    obtain y where "d y = Some e" using ownD(2) [OF assms(1), of e] \<open>e \<in> F - {fd}\<close> \<open>2 < e\<close> by auto
    then show ?thesis using that assms(2) by (cases "y = x") auto
  qed
  show "e \<in> F - {fd} \<and> v \<noteq> Some e" if "y \<noteq> x" "d y = Some e" "0 < e" for y e
    using ownD(3) [OF assms(1) that(2,3)] ownD(4) [OF assms(1) that(2), of x] that assms(2,4) by auto
qed (use assms(4) in auto)

lemma own_dropped:
  assumes "own d F" "d x = Some fd" "\<not> 0 < fd"
  shows "own (d(x := None)) F"
proof (rule own_change [OF assms(1)])
  show "None = Some e \<or> (\<exists>y. y \<noteq> x \<and> d y = Some e)" if "e \<in> F" "2 < e" for e
  proof -
    obtain y where "d y = Some e" using ownD(2) [OF assms(1), of e] \<open>e \<in> F\<close> \<open>2 < e\<close> by auto
    then show ?thesis using that assms(2,3) by (cases "y = x") auto
  qed
  show "e \<in> F \<and> None \<noteq> Some e" if "d y = Some e" "0 < e" for y e
    using ownD(3) [OF assms(1) that] by simp
qed (use ownD(1) [OF assms(1)] in auto)

definition owned :: "sock_world \<Rightarrow> bool" where
  "owned w \<longleftrightarrow> own (\<lambda>x. map_option m_sockfd (objs w x)) (dom (files (kern w)))"

lemma descriptors_update: "(\<lambda>y. map_option f ((m(x := v)) y)) = (\<lambda>y. map_option f (m y))(x := map_option f v)"
  by auto

lemma files_opened [simp]: "dom (files (opened fd k)) = insert fd (dom (files k))"
  by (auto simp: opened_def)

lemma files_options [simp]: "with_options fd f k = (ok, k') \<Longrightarrow> files k' = files k"
  by (auto simp: with_options_def split: option.splits)

lemma sclose_owned:
  assumes "owned w" "objs w x = Some s" "sclose s (kern w) = (s', k)" "v = Some s' \<or> v = None"
  shows "owned \<lparr>objs = (objs w)(x := v), kern = k\<rparr>"
proof (cases "0 < m_sockfd s")
  case True
  then have k: "s' = s\<lparr>m_sockfd := 0\<rparr>" "dom (files k) = dom (files (kern w)) - {m_sockfd s}"
    using assms(3) by (auto simp: sclose_def close_fd_def split: if_splits)
  show ?thesis
    using own_close [of "\<lambda>x. map_option m_sockfd (objs w x)" _ x "m_sockfd s" "map_option m_sockfd v"] assms(1,2,4) True k
    by (auto simp: owned_def descriptors_update simp del: fun_upd_apply)
next
  case False
  then have k: "s' = s" "k = kern w" using assms(3) by (auto simp: sclose_def split: if_splits)
  show ?thesis
    using assms(4)
  proof
    assume "v = Some s'"
    then have "(objs w)(x := v) = objs w" using assms(2) k(1) by auto
    then show ?thesis using assms(1) k(2) by (simp add: owned_def)
  next
    assume "v = None"
    then show ?thesis using own_dropped [of _ _ x "m_sockfd s"] assms(1,2) False k
      by (auto simp: owned_def descriptors_update simp del: fun_upd_apply)
  qed
qed

lemma sock_cmd_owned:
  assumes "owned w" "sock_cmd_step c w = Some w'" "\<not> is_copy c"
  shows "owned w'"
proof -
  have made: "owned \<lparr>objs = (objs w)(x \<mapsto> s), kern = (if fd < 0 then kern w else opened fd (kern w))\<rparr>"
    if "objs w x = None" "files (kern w) fd = None" "m_sockfd s = (if fd < 0 then e else fd)" "e < 0" for x s fd e
    using own_open [of _ _ x fd] own_failed [of _ _ x e] assms(1) that
    by (auto simp: owned_def descriptors_update domIff simp del: fun_upd_apply)
  show ?thesis
  proof (cases c)
    case (New x fd)
    then have "w' = \<lparr>objs = (objs w)(x \<mapsto> \<lparr>m_ip = [], m_port = 0, m_sockfd = fd\<rparr>), kern = (if fd < 0 then kern w else opened fd (kern w))\<rparr>"
      "objs w x = None" "files (kern w) fd = None"
      using assms(2) by (auto simp: sock_cmd_step_def socket_new_def split: if_splits)
    then show ?thesis using made [of x fd _ "if fd < 0 then fd else - 1"] by auto
  next
    case (From_Accept x fd)
    then have "w' = \<lparr>objs = (objs w)(x \<mapsto> socket_of_fd (if fd < 0 then - 1 else fd)), kern = (if fd < 0 then kern w else opened fd (kern w))\<rparr>"
      "objs w x = None" "files (kern w) fd = None"
      using assms(2) by (auto simp: sock_cmd_step_def saccept_def split: if_splits)
    then show ?thesis using made [of x fd _ "- 1"] by (auto simp: socket_of_fd_def)
  next
    case (Close x)
    then show ?thesis using assms sclose_owned [of w x]
      by (auto simp: sock_cmd_step_def split: option.splits prod.splits)
  next
    case (Destroy x)
    then show ?thesis using assms sclose_owned [of w x]
      by (auto simp: sock_cmd_step_def split: option.splits prod.splits)
  next
    case (Option x f)
    then show ?thesis using assms(1,2)
      by (auto simp: sock_cmd_step_def owned_def split: option.splits prod.splits)
  qed (use assms(3) in simp)
qed

lemma sock_run_owned: "owned w \<Longrightarrow> sock_run cs w = Some w' \<Longrightarrow> \<forall>c \<in> set cs. \<not> is_copy c \<Longrightarrow> owned w'"
  by (induction cs arbitrary: w) (auto split: option.splits intro: sock_cmd_owned)

lemma owned_start: "owned only_std"
  by (auto simp: owned_def own_def only_std_def)

text \<open>A program that does not copy its sockets never closes a descriptor twice or somebody else's: every object
  has its own open descriptor, and when all objects are gone only the standard descriptors are open.  A copy
  can close a socket that was made later and got the same number.\<close>

theorem sockets_have_one_owner:
  assumes "sock_run cs only_std = Some w" "\<forall>c \<in> set cs. \<not> is_copy c"
  shows "(\<forall>x s. objs w x = Some s \<and> 0 < m_sockfd s \<longrightarrow> files (kern w) (m_sockfd s) \<noteq> None \<and>
      (\<forall>y t. objs w y = Some t \<and> m_sockfd t = m_sockfd s \<longrightarrow> y = x)) \<and>
    (objs w = (\<lambda>_. None) \<longrightarrow> (\<forall>fd > 2. files (kern w) fd = None)) \<and>
    (\<exists>v t. sock_run [New 0 3, Copy 0 1, Close 0, New 2 3, Destroy 1] only_std = Some v \<and>
       objs v 2 = Some t \<and> m_sockfd t = 3 \<and> files (kern v) 3 = None)"
proof (intro conjI)
  have o: "own (\<lambda>x. map_option m_sockfd (objs w x)) (dom (files (kern w)))"
    using sock_run_owned [OF owned_start assms] by (simp add: owned_def)
  then show "\<forall>x s. objs w x = Some s \<and> 0 < m_sockfd s \<longrightarrow> files (kern w) (m_sockfd s) \<noteq> None \<and>
      (\<forall>y t. objs w y = Some t \<and> m_sockfd t = m_sockfd s \<longrightarrow> y = x)"
    unfolding own_def by fastforce
  show "objs w = (\<lambda>_. None) \<longrightarrow> (\<forall>fd > 2. files (kern w) fd = None)"
    using o unfolding own_def by fastforce
  show "\<exists>v t. sock_run [New 0 3, Copy 0 1, Close 0, New 2 3, Destroy 1] only_std = Some v \<and>
       objs v 2 = Some t \<and> m_sockfd t = 3 \<and> files (kern v) 3 = None"
    by (simp add: sock_cmd_step_def socket_new_def sclose_def opened_def close_fd_def only_std_def)
qed

theorem sockets_have_one_owner_witness:
  "\<exists>w. sock_run [New 0 3, From_Accept 1 4, Close 0, Destroy 1, Destroy 0] only_std = Some w \<and> (\<forall>fd > 2. files (kern w) fd = None)"
proof -
  have "sock_run [New 0 3, From_Accept 1 4, Close 0, Destroy 1, Destroy 0] only_std =
      Some (only_std\<lparr>kern := (kern only_std)\<lparr>options := (options (kern only_std))(3 := default_opts, 4 := default_opts), fresh := 5\<rparr>\<rparr>)"
    by (simp add: sock_cmd_step_def socket_new_def saccept_def socket_of_fd_def sclose_def opened_def close_fd_def only_std_def fun_eq_iff)
  note run = this
  from sockets_have_one_owner [OF run]
  have "\<forall>fd > 2. files (kern (only_std\<lparr>kern := (kern only_std)\<lparr>options := (options (kern only_std))(3 := default_opts, 4 := default_opts), fresh := 5\<rparr>\<rparr>)) fd = None"
    by (simp del: sock_run.simps add: only_std_def)
  then show ?thesis using run by blast
qed

section \<open>The server\<close>

text \<open>A round of the loop of \<^verbatim>\<open>server.cpp\<close> for the accepted connection \<open>conn\<close>; \<open>r\<close> is what \<^verbatim>\<open>recv\<close> delivers, \<open>None\<close> for
  -1.  The length becomes a \<^verbatim>\<open>size_t\<close>, then the \<^verbatim>\<open>int\<close> parameter of \<^verbatim>\<open>sendMsg\<close> and the \<^verbatim>\<open>size_t\<close> of \<^verbatim>\<open>send\<close>.\<close>

record serving =
  net :: kernel
  replies :: "(int \<times> string) list"
  shown :: "string list"

definition send_length :: "int \<Rightarrow> nat" where
  "send_length n = nat (to_int32 (n mod 2 ^ 64) mod 2 ^ 64)"

definition serve_round :: "int \<Rightarrow> string option \<Rightarrow> serving \<Rightarrow> serving result" where
  "serve_round conn r s =
     (let client = socket_of_fd conn;
          buf = (case r of None \<Rightarrow> replicate 1024 NUL | Some bytes \<Rightarrow> bytes @ replicate (1024 - length bytes) NUL);
          len = (case r of None \<Rightarrow> - 1 | Some bytes \<Rightarrow> int (length bytes)) in
      if NUL \<notin> set buf then Inl Out_Of_Bounds
      else if send_length len > length buf then Inl Out_Of_Bounds
      else Inr (s\<lparr>net := snd (sclose client (net s)), shown := shown s @ [cstr buf],
                  replies := replies s @ [(conn, take (send_length len) buf)]\<rparr>))"

text \<open>\<open>rs\<close> are the clients that come, each with the result of \<^verbatim>\<open>accept\<close>; after the last one the server waits.\<close>

fun serve_loop :: "socket_obj \<Rightarrow> (int \<times> string option) list \<Rightarrow> serving \<Rightarrow> serving result" where
  "serve_loop listener [] s = Inr s"
| "serve_loop listener ((fd, r) # rs) s = (case saccept fd (net s) of (conn, k) \<Rightarrow>
     if conn < 0 then Inr (s\<lparr>net := snd (sclose listener k)\<rparr>)
     else rbind (serve_round conn r (s\<lparr>net := k\<rparr>)) (serve_loop listener rs))"

text \<open>What the client of \<^verbatim>\<open>client.cpp\<close> prints for the answer\<close>

definition client_text :: "string option \<Rightarrow> string result" where
  "client_text r = (let buf = (case r of None \<Rightarrow> replicate 1024 NUL | Some bytes \<Rightarrow> bytes @ replicate (1024 - length bytes) NUL) in
     if NUL \<notin> set buf then Inl Out_Of_Bounds else Inr (cstr buf))"

lemma send_length_small: "n \<le> 1024 \<Longrightarrow> send_length (int n) = n"
  by (simp add: send_length_def to_int32_def signed_take_bit_int_eq_self)

lemma send_length_failed: "send_length (- 1) = 2 ^ 64 - 1"
  by (simp add: send_length_def to_int32_def)

text \<open>Each client is sent back what was received from it, whatever the bytes are, and its descriptor is closed.\<close>

lemma serve_one:
  assumes "0 < conn" "files (net s) conn = None" "length bytes \<le> 1024" "length bytes = 1024 \<longrightarrow> NUL \<in> set bytes"
  shows "\<exists>s'. serve_round conn (Some bytes) (s\<lparr>net := opened conn (net s)\<rparr>) = Inr s' \<and> files (net s') = files (net s) \<and>
    replies s' = replies s @ [(conn, bytes)] \<and> shown s' = shown s @ [cstr bytes]"
  using assms by (auto simp: serve_round_def Let_def send_length_small socket_of_fd_def sclose_def close_fd_def opened_def)

text \<open>The server sends every client what it received from it, NUL bytes included, and leaves no descriptor open
  but its own; a failing \<^verbatim>\<open>accept\<close> ends it.  A failing \<^verbatim>\<open>recv\<close> is not noticed: -1 becomes the length of an answer
  that is read far behind the buffer.\<close>

theorem server_sends_back:
  assumes "\<forall>(conn, r) \<in> set rs. 0 < conn \<and> files (net s) conn = None \<and>
      (\<exists>bytes. r = Some bytes \<and> length bytes \<le> 1024 \<and> (length bytes = 1024 \<longrightarrow> NUL \<in> set bytes))"
  shows "(\<exists>s'. serve_loop listener rs s = Inr s' \<and> files (net s') = files (net s) \<and>
      replies s' = replies s @ map (\<lambda>(conn, r). (conn, the r)) rs) \<and>
    (0 < fd \<longrightarrow> serve_loop listener (rs @ [(fd, None)]) s = Inl Out_Of_Bounds)"
  using assms
proof (induction rs arbitrary: s)
  case Nil
  have "serve_round fd None u = Inl Out_Of_Bounds" for u :: serving
    by (simp add: serve_round_def send_length_failed)
  then show ?case by (simp add: saccept_def)
next
  case (Cons x rs)
  obtain conn r where x: "x = (conn, r)" by fastforce
  with Cons.prems obtain bytes where b: "r = Some bytes" "0 < conn" "files (net s) conn = None" "length bytes \<le> 1024"
    "length bytes = 1024 \<longrightarrow> NUL \<in> set bytes" by auto
  obtain s1 where s1: "serve_round conn (Some bytes) (s\<lparr>net := opened conn (net s)\<rparr>) = Inr s1" "files (net s1) = files (net s)"
    "replies s1 = replies s @ [(conn, bytes)]"
    using serve_one [OF b(2-5)] by blast
  have "\<forall>(conn, r) \<in> set rs. 0 < conn \<and> files (net s1) conn = None \<and>
      (\<exists>bytes. r = Some bytes \<and> length bytes \<le> 1024 \<and> (length bytes = 1024 \<longrightarrow> NUL \<in> set bytes))"
    using Cons.prems s1(2) by auto
  from Cons.IH [OF this] show ?case using x b s1 by (simp add: saccept_def)
qed

theorem server_sends_back_witness:
  "\<exists>s'. serve_loop (socket_of_fd 3) [(4, Some ''hi''), (4, Some [])] \<lparr>net = kern only_std, replies = [], shown = []\<rparr> = Inr s' \<and>
     replies s' = [(4, ''hi''), (4, [])]"
  using server_sends_back [of "[(4, Some ''hi''), (4, Some [])]" "\<lparr>net = kern only_std, replies = [], shown = []\<rparr>" "socket_of_fd 3" 1]
  by (auto simp: only_std_def simp del: serve_loop.simps)

text \<open>\<^verbatim>\<open>set_linger\<close> does not set the time to linger: it sets the receive buffer to one byte or none.\<close>

theorem set_linger_shrinks_the_buffer:
  assumes "files k (m_sockfd s) = Some i" "set_recv_buffer size_wanted s k = (ok, k1)" "set_linger active seconds s k1 = (ok2, k2)"
  shows "ok2 \<and> rcvbuf (options k2 i) \<le> 1 \<and> linger (options k2 i) = linger (options k i)"
  using assms by (auto simp: set_recv_buffer_def set_linger_def with_options_def Let_def)

theorem set_linger_shrinks_the_buffer_witness:
  "rcvbuf (options (snd (set_linger True 0 (socket_of_fd 1) (snd (set_recv_buffer 10240 (socket_of_fd 1) (kern only_std))))) 1) \<le> 1"
  using set_linger_shrinks_the_buffer [of "kern only_std" "socket_of_fd 1" 1 10240 _ _ True 0, OF _ prod.collapse [symmetric] prod.collapse [symmetric]]
  by (simp add: only_std_def socket_of_fd_def)

end
