(* ===== verification/Database.thy ===== *)
theory Database
  imports Prelude
begin

text \<open>
  The class \<^verbatim>\<open>databaseConnect\<close> of \<^verbatim>\<open>mysql_connect_pool/src/databaseConnect.cpp\<close>: queries and their results.

  The MySQL client library is the parameter \<open>L\<close>, a record of the functions the class calls, over the state of
  the connection \<open>'db\<close>; a return code of 0 means success, as the manual of the library says.  A stored result
  is its rows and the number of its columns; a column is \<open>None\<close> where the database has NULL.  \<open>stored\<close> counts
  the results that were stored and not freed.  The times are in \<open>ConnPool\<close>.
\<close>

section \<open>State\<close>

type_synonym db_row = "string option list"

record 'db mysql =
  mysql_query :: "string \<Rightarrow> 'db \<Rightarrow> int \<times> 'db"
  mysql_store_result :: "'db \<Rightarrow> (nat \<times> db_row list) option \<times> 'db"
  mysql_autocommit :: "bool \<Rightarrow> 'db \<Rightarrow> int \<times> 'db"
  mysql_commit :: "'db \<Rightarrow> int \<times> 'db"
  mysql_rollback :: "'db \<Rightarrow> int \<times> 'db"

datatype row_pointer = No_Row | Row db_row | Freed_Row

record 'db connection =
  m_conn :: 'db
  m_result :: "(nat \<times> db_row list) option"    \<comment> \<open>columns, and the rows not fetched yet\<close>
  m_row :: row_pointer
  stored :: nat

definition new_connection :: "'db \<Rightarrow> 'db connection" where
  "new_connection db = \<lparr>m_conn = db, m_result = None, m_row = No_Row, stored = 0\<rparr>"

section \<open>Operations\<close>

definition free_result :: "'db connection \<Rightarrow> 'db connection" where
  "free_result c = (if m_result c = None then c
     else c\<lparr>m_result := None, m_row := (if m_row c = No_Row then No_Row else Freed_Row), stored := stored c - 1\<rparr>)"

text \<open>The destructor closes the connection and frees the result.\<close>

definition close_connection :: "'db connection \<Rightarrow> 'db connection" where
  "close_connection c = free_result c"

definition update :: "'db mysql \<Rightarrow> string \<Rightarrow> 'db connection \<Rightarrow> bool \<times> 'db connection" where
  "update L sql c = (case mysql_query L sql (m_conn c) of (rc, db) \<Rightarrow> (rc = 0, c\<lparr>m_conn := db\<rparr>))"

definition query :: "'db mysql \<Rightarrow> string \<Rightarrow> 'db connection \<Rightarrow> bool \<times> 'db connection" where
  "query L sql c = (let c1 = free_result c in
     case mysql_query L sql (m_conn c1) of (rc, db) \<Rightarrow>
       if rc \<noteq> 0 then (False, c1\<lparr>m_conn := db\<rparr>)
       else (case mysql_store_result L db of (r, db') \<Rightarrow>
         (True, c1\<lparr>m_conn := db', m_result := r, stored := (if r = None then stored c1 else stored c1 + 1)\<rparr>)))"

definition next_row :: "'db connection \<Rightarrow> bool \<times> 'db connection" where
  "next_row c = (case m_result c of
     None \<Rightarrow> (False, c)
   | Some (n, []) \<Rightarrow> (False, c\<lparr>m_row := No_Row\<rparr>)
   | Some (n, r # rs) \<Rightarrow> (True, c\<lparr>m_row := Row r, m_result := Some (n, rs)\<rparr>))"

definition row_value :: "int \<Rightarrow> 'db connection \<Rightarrow> string result" where
  "row_value index c = (case m_result c of
     None \<Rightarrow> Inl Null_Deref
   | Some (n, rs) \<Rightarrow> if index \<ge> int n \<or> index < 0 then Inr []
       else (case m_row c of
          No_Row \<Rightarrow> Inl Null_Deref
        | Freed_Row \<Rightarrow> Inl Dangling
        | Row r \<Rightarrow> Inr (case r ! nat index of None \<Rightarrow> [] | Some v \<Rightarrow> v)))"

definition transaction :: "'db mysql \<Rightarrow> 'db connection \<Rightarrow> bool \<times> 'db connection" where
  "transaction L c = (case mysql_autocommit L False (m_conn c) of (rc, db) \<Rightarrow> (rc \<noteq> 0, c\<lparr>m_conn := db\<rparr>))"

definition commit :: "'db mysql \<Rightarrow> 'db connection \<Rightarrow> bool \<times> 'db connection" where
  "commit L c = (case mysql_commit L (m_conn c) of (rc, db) \<Rightarrow> (rc \<noteq> 0, c\<lparr>m_conn := db\<rparr>))"

definition rollback :: "'db mysql \<Rightarrow> 'db connection \<Rightarrow> bool \<times> 'db connection" where
  "rollback L c = (case mysql_rollback L (m_conn c) of (rc, db) \<Rightarrow> (rc \<noteq> 0, c\<lparr>m_conn := db\<rparr>))"

text \<open>The loop of \<^verbatim>\<open>query\<close> in \<^verbatim>\<open>main.cpp\<close>: all columns of all rows\<close>

fun row_values :: "int list \<Rightarrow> 'db connection \<Rightarrow> string list result" where
  "row_values [] c = Inr []"
| "row_values (i # is) c = rbind (row_value i c) (\<lambda>v. rbind (row_values is c) (\<lambda>vs. Inr (v # vs)))"

function print_rows :: "int list \<Rightarrow> 'db connection \<Rightarrow> (string list list \<times> 'db connection) result" where
  "print_rows is c = (case next_row c of
     (False, c1) \<Rightarrow> Inr ([], c1)
   | (True, c1) \<Rightarrow> rbind (row_values is c1) (\<lambda>vs. rbind (print_rows is c1) (\<lambda>(vss, c2). Inr (vs # vss, c2))))"
  by pat_completeness auto
termination
  by (relation "measure (\<lambda>(is, c). case m_result c of None \<Rightarrow> 0 | Some (n, rs) \<Rightarrow> length rs)")
    (auto simp: next_row_def split: option.splits prod.splits list.splits)

declare print_rows.simps [simp del]

section \<open>Properties\<close>

text \<open>A result is owned by the connection that stored it, and the fetched row lies in it.\<close>

definition connection_ok :: "'db connection \<Rightarrow> bool" where
  "connection_ok c \<longleftrightarrow> stored c = (if m_result c = None then 0 else 1)"

lemma free_ok: "connection_ok c \<Longrightarrow> connection_ok (free_result c) \<and> stored (free_result c) = 0"
  by (auto simp: connection_ok_def free_result_def)

lemma free_conn [simp]: "m_conn (free_result c) = m_conn c"
  by (simp add: free_result_def)

lemma query_ok: "connection_ok c \<Longrightarrow> connection_ok (snd (query L sql c))"
  using free_ok [of c] by (auto simp: query_def Let_def connection_ok_def free_result_def split: prod.splits option.splits if_splits)

lemma next_ok: "connection_ok c \<Longrightarrow> connection_ok (snd (next_row c))"
  by (auto simp: connection_ok_def next_row_def split: option.splits prod.splits list.splits)

definition shown_value :: "db_row \<Rightarrow> int \<Rightarrow> string" where
  "shown_value r i = (if i < 0 \<or> int (length r) \<le> i then [] else case r ! nat i of None \<Rightarrow> [] | Some v \<Rightarrow> v)"

lemma row_values_shown:
  "m_result c = Some (length r, rs) \<Longrightarrow> m_row c = Row r \<Longrightarrow> row_values is c = Inr (map (shown_value r) is)"
  by (induction "is") (auto simp: row_value_def shown_value_def)

lemma print_rows_all:
  assumes "m_result c = Some (n, rs)" "\<forall>r \<in> set rs. length r = n"
  shows "print_rows is c = Inr (map (\<lambda>r. map (shown_value r) is) rs, c\<lparr>m_result := Some (n, []), m_row := No_Row\<rparr>)"
  using assms
proof (induction rs arbitrary: c)
  case Nil
  then have "c\<lparr>m_result := Some (n, []), m_row := No_Row\<rparr> = c\<lparr>m_row := No_Row\<rparr>" by (cases c) simp
  then show ?case using Nil by (subst print_rows.simps) (simp add: next_row_def)
next
  case (Cons r rs)
  let ?c = "c\<lparr>m_row := Row r, m_result := Some (n, rs)\<rparr>"
  have "next_row c = (True, ?c)" using Cons.prems(1) by (simp add: next_row_def)
  moreover have "row_values is ?c = Inr (map (shown_value r) is)"
    using row_values_shown [of ?c r rs "is"] Cons.prems(2) by simp
  moreover have "print_rows is ?c = Inr (map (\<lambda>r. map (shown_value r) is) rs, ?c\<lparr>m_result := Some (n, []), m_row := No_Row\<rparr>)"
    using Cons.IH [of ?c] Cons.prems(2) by simp
  moreover have "?c\<lparr>m_result := Some (n, []), m_row := No_Row\<rparr> = c\<lparr>m_result := Some (n, []), m_row := No_Row\<rparr>" by (cases c) simp
  ultimately show ?case by (subst print_rows.simps) simp
qed

text \<open>After a query the loop \<^verbatim>\<open>while (next())\<close> visits every row of the result once and in order, NULL and columns
  that do not exist reading as the empty string, and the connection keeps one result at most, however many queries
  it makes.\<close>

theorem query_visits_every_row:
  assumes "connection_ok c" "mysql_query L sql (m_conn c) = (0, db)" "mysql_store_result L db = (Some (n, rs), db')"
    and "\<forall>r \<in> set rs. length r = n"
  shows "\<exists>c1 c2. query L sql c = (True, c1) \<and> connection_ok c1 \<and>
    print_rows is c1 = Inr (map (\<lambda>r. map (shown_value r) is) rs, c2) \<and> connection_ok c2 \<and> stored c2 = 1 \<and> stored (close_connection c2) = 0"
proof -
  obtain c1 where c1: "query L sql c = (True, c1)" "m_result c1 = Some (n, rs)"
    using assms(2,3) by (simp add: query_def Let_def)
  have ok: "connection_ok c1" using query_ok [OF assms(1), of L sql] c1(1) by simp
  let ?c2 = "c1\<lparr>m_result := Some (n, []), m_row := No_Row\<rparr>"
  have "print_rows is c1 = Inr (map (\<lambda>r. map (shown_value r) is) rs, ?c2)" by (rule print_rows_all [OF c1(2) assms(4)])
  moreover have "connection_ok ?c2 \<and> stored ?c2 = 1 \<and> stored (close_connection ?c2) = 0"
    using ok c1(2) by (simp add: connection_ok_def close_connection_def free_result_def)
  ultimately show ?thesis using c1(1) ok by blast
qed

definition test_db :: "nat mysql" where
  "test_db = \<lparr>mysql_query = (\<lambda>sql n. (0, n + 1)), mysql_store_result = (\<lambda>n. (Some (2, [[Some ''1'', None], [Some ''2'', Some ''x'']]), n)),
     mysql_autocommit = (\<lambda>b n. (0, n)), mysql_commit = (\<lambda>n. (0, n)), mysql_rollback = (\<lambda>n. (0, n))\<rparr>"

theorem query_visits_every_row_witness:
  "\<exists>c1 c2. query test_db ''select * from person'' (new_connection 0) = (True, c1) \<and>
     print_rows [0, 1, 2] c1 = Inr ([[''1'', [], []], [''2'', ''x'', []]], c2)"
  using query_visits_every_row [of "new_connection 0" test_db "''select * from person''" 1 2 "[[Some ''1'', None], [Some ''2'', Some ''x'']]" 1 "[0, 1, 2]"]
  by (auto simp: new_connection_def connection_ok_def test_db_def shown_value_def)

text \<open>A row that was fetched before the next query dangles: \<^verbatim>\<open>value\<close> before \<^verbatim>\<open>next\<close> reads freed memory.\<close>

theorem value_before_next_reads_freed_memory:
  assumes "connection_ok c" "m_result c = Some (m, old)" "m_row c = Row r"
    and "mysql_query L sql (m_conn c) = (0, db)" "mysql_store_result L db = (Some (n, rs), db')" "0 \<le> i" "i < int n"
  shows "row_value i (snd (query L sql c)) = Inl Dangling"
  using assms by (simp add: query_def Let_def free_result_def row_value_def)

theorem value_before_next_reads_freed_memory_witness:
  "row_value 0 (snd (query test_db ''q'' (snd (next_row (snd (query test_db ''q'' (new_connection 0))))))) = Inl Dangling"
  using value_before_next_reads_freed_memory [of "snd (next_row (snd (query test_db ''q'' (new_connection 0))))" 2 "[[Some ''2'', Some ''x'']]"
      "[Some ''1'', None]" test_db "''q''" 2 2 "[[Some ''1'', None], [Some ''2'', Some ''x'']]" 2 0]
  by (simp add: query_def next_row_def free_result_def new_connection_def connection_ok_def test_db_def)

text \<open>\<^verbatim>\<open>transaction\<close>, \<^verbatim>\<open>commit\<close> and \<^verbatim>\<open>rollback\<close> say the opposite of what \<^verbatim>\<open>update\<close> and \<^verbatim>\<open>query\<close> say: they return true
  exactly when the library reports an error.\<close>

theorem transactions_report_the_opposite:
  "(fst (update L sql c) \<longleftrightarrow> fst (mysql_query L sql (m_conn c)) = 0) \<and>
   (fst (transaction L c) \<longleftrightarrow> fst (mysql_autocommit L False (m_conn c)) \<noteq> 0) \<and>
   (fst (commit L c) \<longleftrightarrow> fst (mysql_commit L (m_conn c)) \<noteq> 0) \<and>
   (fst (rollback L c) \<longleftrightarrow> fst (mysql_rollback L (m_conn c)) \<noteq> 0)"
  by (simp add: update_def transaction_def commit_def rollback_def split: prod.splits)

end
