(* ===== verification/BevExamples.thy ===== *)
theory BevExamples
  imports Prelude
begin

text \<open>
  Three servers on libevent: \<^verbatim>\<open>libevent/bufferevent_application.c\<close> (counts what it receives),
  \<^verbatim>\<open>libevent/event_listen.c\<close> (echo) and \<^verbatim>\<open>libevent/event_hello_world.c\<close> (sends a greeting and closes).

  A connection is a \<^verbatim>\<open>bufferevent\<close> with its buffers.  libevent is represented by what its manual promises and the
  code relies on: the read callback runs when the input has reached the low-water mark, the write callback
  when the output has been sent, and no callback runs after \<^verbatim>\<open>bufferevent_free\<close>.  The steps that all three
  share, and what holds for every live connection, are stated once, in the locale \<open>bev_server\<close>.
\<close>

section \<open>Live connections\<close>

text \<open>\<open>react e c\<close> is the connection after event \<open>e\<close>, \<open>None\<close> when it was freed.\<close>

inductive bev_reachable :: "'c \<Rightarrow> ('e \<Rightarrow> 'c \<Rightarrow> 'c option) \<Rightarrow> (nat \<Rightarrow> 'c option) \<Rightarrow> bool" for start react where
  no_connection: "bev_reachable start react (\<lambda>_. None)"
| accepted: "bev_reachable start react m \<Longrightarrow> m b = None \<Longrightarrow> bev_reachable start react (m(b \<mapsto> start))"
| happened: "bev_reachable start react m \<Longrightarrow> m b = Some c \<Longrightarrow> bev_reachable start react (m(b := react e c))"

locale bev_server =
  fixes start :: 'c and react :: "'e \<Rightarrow> 'c \<Rightarrow> 'c option" and ok :: "'c \<Rightarrow> bool"
  assumes start_ok: "ok start"
    and react_ok: "ok c \<Longrightarrow> react e c = Some c' \<Longrightarrow> ok c'"
begin

lemma live_ok: "bev_reachable start react m \<Longrightarrow> m b = Some c \<Longrightarrow> ok c"
proof (induction arbitrary: b c rule: bev_reachable.induct)
  case (accepted m b')
  then show ?case using start_ok by (auto split: if_splits)
next
  case (happened m b' c' e)
  then show ?case by (cases "b = b'") (auto intro: react_ok)
qed simp

end

text \<open>What can end a connection\<close>

datatype ending = Eof | Error

section \<open>The counting server\<close>

record app_conn =
  inbuf :: string
  outbuf :: string
  total_drained :: nat
  arrived :: string

definition app_welcome :: string where
  "app_welcome = ''Welcome to the echo server!'' @ [LF]"

definition app_response :: "nat \<Rightarrow> string" where
  "app_response len = ''Echo: Received '' @ show_int (int len) @ '' bytes'' @ [LF]"

definition app_start :: app_conn where
  "app_start = \<lparr>inbuf = [], outbuf = take 27 app_welcome, total_drained = 0, arrived = []\<rparr>"

text \<open>\<^verbatim>\<open>accept_conn_cb\<close>: \<open>None\<close> when the loop is left because there is no bufferevent\<close>

definition app_accept :: "bool \<Rightarrow> bool \<Rightarrow> app_conn option result" where
  "app_accept made memory = (if \<not> made then Inr None else if \<not> memory then Inl Null_Deref else Inr (Some app_start))"

definition app_read_callback :: "app_conn \<Rightarrow> app_conn" where
  "app_read_callback c = (let len = length (inbuf c) in
     if len \<noteq> 0 then c\<lparr>total_drained := total_drained c + len, inbuf := [], outbuf := outbuf c @ app_response len\<rparr> else c)"

definition LOW_WATERMARK :: nat where "LOW_WATERMARK = 128"

datatype app_event = App_Data string | App_Event "ending option"

definition app_react :: "app_event \<Rightarrow> app_conn \<Rightarrow> app_conn option" where
  "app_react e c = (case e of
     App_Data bytes \<Rightarrow> (let c1 = c\<lparr>inbuf := inbuf c @ bytes, arrived := arrived c @ bytes\<rparr> in
       Some (if LOW_WATERMARK \<le> length (inbuf c1) then app_read_callback c1 else c1))
   | App_Event None \<Rightarrow> Some c
   | App_Event (Some ending) \<Rightarrow> None)"

definition app_ok :: "app_conn \<Rightarrow> bool" where
  "app_ok c \<longleftrightarrow> length (inbuf c) < LOW_WATERMARK \<and> length (arrived c) = total_drained c + length (inbuf c) \<and>
     (\<exists>lens. outbuf c = ''Welcome to the echo server!'' @ concat (map app_response lens) \<and>
        sum_list lens = total_drained c \<and> (\<forall>n \<in> set lens. LOW_WATERMARK \<le> n))"

lemma app_react_ok:
  assumes "app_ok c" "app_react e c = Some c'"
  shows "app_ok c'"
proof (cases e)
  case (App_Data bytes)
  let ?c = "c\<lparr>inbuf := inbuf c @ bytes, arrived := arrived c @ bytes\<rparr>"
  obtain lens where l: "outbuf c = ''Welcome to the echo server!'' @ concat (map app_response lens)"
    "sum_list lens = total_drained c" "\<forall>n \<in> set lens. LOW_WATERMARK \<le> n"
    using assms(1) unfolding app_ok_def by blast
  show ?thesis
  proof (cases "LOW_WATERMARK \<le> length (inbuf ?c)")
    case True
    then have c': "c' = ?c\<lparr>total_drained := total_drained c + length (inbuf ?c), inbuf := [], outbuf := outbuf c @ app_response (length (inbuf ?c))\<rparr>"
      using assms(2) App_Data by (auto simp: app_react_def app_read_callback_def Let_def LOW_WATERMARK_def)
    have "outbuf c' = ''Welcome to the echo server!'' @ concat (map app_response (lens @ [length (inbuf ?c)]))"
      "sum_list (lens @ [length (inbuf ?c)]) = total_drained c'" "\<forall>n \<in> set (lens @ [length (inbuf ?c)]). LOW_WATERMARK \<le> n"
      using l True by (simp_all add: c')
    moreover have "length (inbuf c') < LOW_WATERMARK" "length (arrived c') = total_drained c' + length (inbuf c')"
      using assms(1) by (simp_all add: c' app_ok_def LOW_WATERMARK_def)
    ultimately show ?thesis unfolding app_ok_def by blast
  next
    case False
    then have "c' = ?c" using assms(2) App_Data by (simp add: app_react_def Let_def)
    then show ?thesis using False assms(1) by (auto simp: app_ok_def)
  qed
next
  case (App_Event x)
  then show ?thesis using assms by (auto simp: app_react_def split: option.splits)
qed

interpretation app: bev_server app_start app_react app_ok
proof
  show "app_ok app_start"
    by (auto simp: app_ok_def app_start_def app_welcome_def LOW_WATERMARK_def intro!: exI [of _ "[]"])
qed (rule app_react_ok)

text \<open>Every live connection has been told, for each portion of at least 128 bytes, how long it was, after the
  welcome without its newline; the portions are all that has arrived but fewer than 128 bytes, which wait
  without an answer.\<close>

theorem portions_are_counted:
  assumes "bev_reachable app_start app_react m" "m b = Some c"
  shows "length (inbuf c) < 128 \<and> length (arrived c) = total_drained c + length (inbuf c) \<and>
    (\<exists>lens. outbuf c = ''Welcome to the echo server!'' @ concat (map app_response lens) \<and>
       sum_list lens = total_drained c \<and> (\<forall>n \<in> set lens. 128 \<le> n))"
  using app.live_ok [OF assms] unfolding app_ok_def LOW_WATERMARK_def .

theorem portions_are_counted_witness:
  "\<exists>c. app_react (App_Data ''hello'') app_start = Some c \<and> length (inbuf c) < 128 \<and> total_drained c = 0 \<and> outbuf c = ''Welcome to the echo server!''"
proof -
  let ?c = "app_start\<lparr>inbuf := ''hello'', arrived := ''hello''\<rparr>"
  have r: "app_react (App_Data ''hello'') app_start = Some ?c"
    by (simp add: app_react_def app_start_def Let_def LOW_WATERMARK_def)
  have "bev_reachable app_start app_react ((\<lambda>_. None)(0 \<mapsto> app_start))"
    by (rule bev_reachable.accepted [OF bev_reachable.no_connection]) simp
  then have "bev_reachable app_start app_react ((\<lambda>_. None)(0 \<mapsto> app_start, 0 := app_react (App_Data ''hello'') app_start))"
    by (rule bev_reachable.happened) simp
  from portions_are_counted [OF this, of 0 ?c] r show ?thesis
    by (auto simp: app_start_def app_welcome_def)
qed

section \<open>The echo server\<close>

record echo_conn =
  echo_in :: string
  echo_out :: string
  echo_arrived :: string

definition echo_start :: echo_conn where
  "echo_start = \<lparr>echo_in = [], echo_out = [], echo_arrived = []\<rparr>"

text \<open>\<^verbatim>\<open>accept_conn_cb\<close> does not look at the bufferevent it gets.\<close>

definition echo_accept :: "bool \<Rightarrow> echo_conn result" where
  "echo_accept made = (if made then Inr echo_start else Inl Null_Deref)"

definition echo_read_cb :: "echo_conn \<Rightarrow> echo_conn" where
  "echo_read_cb c = c\<lparr>echo_out := echo_out c @ echo_in c, echo_in := []\<rparr>"

definition echo_event_cb :: "ending option \<Rightarrow> echo_conn \<Rightarrow> echo_conn option" where
  "echo_event_cb e c = (if e \<noteq> None then None else Some c)"

datatype echo_event = Echo_Data string | Echo_Event "ending option"

definition echo_react :: "echo_event \<Rightarrow> echo_conn \<Rightarrow> echo_conn option" where
  "echo_react e c = (case e of
     Echo_Data bytes \<Rightarrow> Some (echo_read_cb (c\<lparr>echo_in := echo_in c @ bytes, echo_arrived := echo_arrived c @ bytes\<rparr>))
   | Echo_Event x \<Rightarrow> echo_event_cb x c)"

definition listen_port :: "string option \<Rightarrow> int option" where
  "listen_port arg = (let port = (case arg of None \<Rightarrow> 9876 | Some s \<Rightarrow> atoi s) in
     if port \<le> 0 \<or> port > 65535 then None else Some port)"

interpretation echo: bev_server echo_start echo_react "\<lambda>c. echo_out c = echo_arrived c \<and> echo_in c = []"
  by unfold_locales
    (auto simp: echo_start_def echo_react_def echo_read_cb_def echo_event_cb_def split: echo_event.splits if_splits)

section \<open>The greeting server\<close>

record hello_conn =
  hello_out :: string
  hello_sent :: string

definition MESSAGE :: string where
  "MESSAGE = ''Hello, World!'' @ [LF]"

text \<open>\<^verbatim>\<open>listener_cb\<close>: \<open>None\<close> when the loop is left because there is no bufferevent\<close>

definition hello_start :: hello_conn where
  "hello_start = \<lparr>hello_out = MESSAGE, hello_sent = []\<rparr>"

definition hello_accept :: "bool \<Rightarrow> hello_conn option" where
  "hello_accept made = (if made then Some hello_start else None)"

definition conn_writecb :: "hello_conn \<Rightarrow> hello_conn option" where
  "conn_writecb c = (if length (hello_out c) = 0 then None else Some c)"

definition conn_eventcb :: "ending option \<Rightarrow> hello_conn \<Rightarrow> hello_conn option" where
  "conn_eventcb e c = None"

text \<open>libevent sends \<open>n\<close> bytes, and runs the write callback when the output is empty.\<close>

datatype hello_event = Flushed nat | Hello_Event "ending option"

definition hello_react :: "hello_event \<Rightarrow> hello_conn \<Rightarrow> hello_conn option" where
  "hello_react e c = (case e of
     Flushed n \<Rightarrow> (let c1 = c\<lparr>hello_out := drop n (hello_out c), hello_sent := hello_sent c @ take n (hello_out c)\<rparr> in
       if hello_out c1 = [] then conn_writecb c1 else Some c1)
   | Hello_Event x \<Rightarrow> conn_eventcb x c)"

interpretation hello: bev_server hello_start hello_react "\<lambda>c. hello_sent c @ hello_out c = MESSAGE \<and> hello_out c \<noteq> []"
  by unfold_locales
    (auto simp: hello_start_def MESSAGE_def hello_react_def conn_writecb_def conn_eventcb_def Let_def split: hello_event.splits if_splits)

text \<open>The process: which calls of the start succeed, its exit status, and what is freed in which order\<close>

datatype resource = The_Listener | Signal_Event | The_Base

definition hello_main :: "bool \<Rightarrow> bool \<Rightarrow> bool \<Rightarrow> bool \<Rightarrow> int \<times> resource list" where
  "hello_main base listener signal_event added =
     (let die = (if listener then [The_Listener] else []) @ (if signal_event then [Signal_Event] else []) @ [The_Base] in
      if \<not> base then (1, [])
      else if \<not> listener then (1, [The_Base])
      else if \<not> signal_event \<or> \<not> added then (1, die)
      else (0, [The_Listener, Signal_Event, The_Base]))"

text \<open>A live connection of the echo server has been sent exactly what it sent; one of the greeting server has
  been sent a proper prefix of the greeting, and when the server itself closes it, the whole greeting.\<close>

theorem echo_and_greeting:
  "(bev_reachable echo_start echo_react m \<and> m b = Some c \<longrightarrow> echo_out c = echo_arrived c) \<and>
   (bev_reachable hello_start hello_react u \<and> u b = Some d \<longrightarrow>
      (\<exists>n < length MESSAGE. hello_sent d = take n MESSAGE) \<and>
      (hello_react (Flushed k) d = None \<longrightarrow> hello_sent d @ take k (hello_out d) = MESSAGE))"
proof (intro conjI impI; (elim conjE)?)
  assume "bev_reachable echo_start echo_react m" "m b = Some c"
  then show "echo_out c = echo_arrived c" by (blast dest: echo.live_ok)
next
  assume "bev_reachable hello_start hello_react u" "u b = Some d"
  then have ok: "hello_sent d @ hello_out d = MESSAGE" "hello_out d \<noteq> []" by (blast dest: hello.live_ok)+
  have "hello_sent d = take (length (hello_sent d)) MESSAGE" "length (hello_sent d) < length MESSAGE"
    using ok by (simp_all add: ok(1) [symmetric])
  then show "\<exists>n < length MESSAGE. hello_sent d = take n MESSAGE" by blast
  assume "hello_react (Flushed k) d = None"
  then have "drop k (hello_out d) = []" by (auto simp: hello_react_def Let_def split: if_splits)
  then show "hello_sent d @ take k (hello_out d) = MESSAGE" using ok(1) by simp
qed

theorem echo_and_greeting_witness:
  "hello_react (Flushed 20) hello_start = None \<longrightarrow> hello_sent hello_start @ take 20 (hello_out hello_start) = MESSAGE"
proof -
  have "bev_reachable hello_start hello_react ((\<lambda>_. None)(0 \<mapsto> hello_start))"
    by (rule bev_reachable.accepted [OF bev_reachable.no_connection]) simp
  then show ?thesis
    using echo_and_greeting [of _ 0 _ "(\<lambda>_. None)(0 \<mapsto> hello_start)" hello_start 20] by simp
qed

end
