(* ===== verification/QuickSort.thy ===== *)
theory QuickSort
  imports Prelude "HOL-Library.Multiset"
begin

text \<open>
  The two sorting functions of the chapter on futures (\<^verbatim>\<open>fnProgram.cpp\<close>).

  \<^verbatim>\<open>std::partition\<close> fixes neither the order in front of the divide point nor behind it: it is the parameter \<open>part\<close>,
  whose result is the two ends of the list, and \<open>partition_ok\<close> is what the standard demands of it.  The
  sequential function is a \<open>partial_function\<close>, whose value \<open>None\<close> stands for not returning.  The parallel one is a
  step relation over the tree of its activations: a call that sorts its lower part in a task and its higher
  part by itself is \<open>Join\<close>, and the tasks run in any order and interleaving, as \<^verbatim>\<open>std::async\<close> allows (a deferred task
  runs after everything else).
\<close>

section \<open>The functions\<close>

partial_function (option) sequential_quick_sort ::
  "(('a::linorder \<Rightarrow> bool) \<Rightarrow> 'a list \<Rightarrow> 'a list \<times> 'a list) \<Rightarrow> 'a list \<Rightarrow> 'a list option" where
  "sequential_quick_sort part input = (case input of
     [] \<Rightarrow> Some []
   | pivot # rest \<Rightarrow> (case part (\<lambda>t. t < pivot) rest of (lower_part, higher_part) \<Rightarrow>
       Option.bind (sequential_quick_sort part lower_part) (\<lambda>new_lower.
       Option.bind (sequential_quick_sort part higher_part) (\<lambda>new_higher.
         Some (new_lower @ [pivot] @ new_higher)))))"

datatype 'a activation =
    Call "'a list"
  | Join "'a activation" 'a "'a activation"    \<comment> \<open>the task, the pivot, the caller\<close>
  | Return "'a list"

inductive par_step ::
  "(('a::linorder \<Rightarrow> bool) \<Rightarrow> 'a list \<Rightarrow> 'a list \<times> 'a list) \<Rightarrow> 'a activation \<Rightarrow> 'a activation \<Rightarrow> bool" for part where
  sort_empty: "par_step part (Call []) (Return [])"
| spawn: "part (\<lambda>t. t < pivot) rest = (lower_part, higher_part) \<Longrightarrow>
    par_step part (Call (pivot # rest)) (Join (Call lower_part) pivot (Call higher_part))"
| in_task: "par_step part l l' \<Longrightarrow> par_step part (Join l pivot h) (Join l' pivot h)"
| in_caller: "par_step part h h' \<Longrightarrow> par_step part (Join l pivot h) (Join l pivot h')"
| get: "par_step part (Join (Return new_lower) pivot (Return new_higher)) (Return (new_lower @ [pivot] @ new_higher))"

inductive_cases par_step_ReturnE: "par_step part (Return xs) t"

section \<open>The sequential function\<close>

definition partition_ok :: "(('a \<Rightarrow> bool) \<Rightarrow> 'a list \<Rightarrow> 'a list \<times> 'a list) \<Rightarrow> bool" where
  "partition_ok part \<longleftrightarrow> (\<forall>P xs ys zs. part P xs = (ys, zs) \<longrightarrow>
     mset ys + mset zs = mset xs \<and> (\<forall>y \<in> set ys. P y) \<and> (\<forall>z \<in> set zs. \<not> P z))"

lemma partition_okD:
  assumes "partition_ok part" "part P xs = (ys, zs)"
  shows "mset xs = mset ys + mset zs" "\<forall>y \<in> set ys. P y" "\<forall>z \<in> set zs. \<not> P z" "length xs = length ys + length zs"
proof -
  show m: "mset xs = mset ys + mset zs" and "\<forall>y \<in> set ys. P y" "\<forall>z \<in> set zs. \<not> P z"
    using assms unfolding partition_ok_def by metis+
  show "length xs = length ys + length zs" using arg_cong [OF m, of size] by simp
qed

lemma sort_Nil [simp]: "sequential_quick_sort part [] = Some []"
  by (simp add: sequential_quick_sort.simps)

lemma sort_returns:
  assumes "partition_ok part"
  shows "\<exists>ys. sequential_quick_sort part xs = Some ys \<and> sorted ys \<and> mset ys = mset xs"
proof (induction "length xs" arbitrary: xs rule: less_induct)
  case less
  show ?case
  proof (cases xs)
    case (Cons p rest)
    obtain lo hi where part: "part (\<lambda>t. t < p) rest = (lo, hi)" by fastforce
    note ok = partition_okD [OF assms part]
    obtain a b where a: "sequential_quick_sort part lo = Some a" "sorted a" "mset a = mset lo"
      and b: "sequential_quick_sort part hi = Some b" "sorted b" "mset b = mset hi"
      using less [of lo] less [of hi] ok(4) Cons by auto
    have "set a = set lo" "set b = set hi" using a(3) b(3) mset_eq_setD by blast+
    then have "sorted (a @ [p] @ b)" using a(2) b(2) ok(2,3) by (fastforce simp: sorted_append)
    moreover have "sequential_quick_sort part xs = Some (a @ [p] @ b)"
      unfolding Cons by (subst sequential_quick_sort.simps) (simp add: a(1) b(1) part)
    ultimately show ?thesis using a(3) b(3) ok(1) Cons by simp
  qed simp
qed

text \<open>Whatever order \<^verbatim>\<open>std::partition\<close> leaves, the sequential function returns, and its result is the sorted list with
  the same elements.\<close>

theorem sequential_sort_sorts:
  assumes "partition_ok part"
  shows "sequential_quick_sort part xs = Some (sort xs)"
  using sort_returns [OF assms, of xs] by (metis properties_for_sort)

section \<open>The parallel function\<close>

text \<open>What an activation will return\<close>

fun promised :: "'a::linorder activation \<Rightarrow> 'a list" where
  "promised (Call xs) = sort xs"
| "promised (Join l p h) = promised l @ [p] @ promised h"
| "promised (Return xs) = xs"

fun work :: "'a activation \<Rightarrow> nat" where
  "work (Call xs) = 3 * length xs + 1"
| "work (Join l p h) = work l + work h + 1"
| "work (Return xs) = 0"

text \<open>The tasks that have been started and not finished\<close>

fun tasks :: "'a activation \<Rightarrow> nat" where
  "tasks (Call xs) = 0"
| "tasks (Join l p h) = (case l of Return xs \<Rightarrow> 0 | _ \<Rightarrow> 1) + tasks l + tasks h"
| "tasks (Return xs) = 0"

fun elements :: "'a activation \<Rightarrow> nat" where
  "elements (Call xs) = length xs"
| "elements (Join l p h) = elements l + elements h + 1"
| "elements (Return xs) = length xs"

lemma sort_split:
  assumes "partition_ok part" "part (\<lambda>t. t < p) rest = (lo, hi)"
  shows "sort (p # rest) = sort lo @ [p] @ sort hi"
proof (rule properties_for_sort)
  note ok = partition_okD [OF assms]
  show "mset (sort lo @ [p] @ sort hi) = mset (p # rest)" using ok(1) by simp
  show "sorted (sort lo @ [p] @ sort hi)" using ok(2,3) by (fastforce simp: sorted_append)
qed

lemma par_step_effect:
  assumes "par_step part t u" "partition_ok part"
  shows "promised u = promised t \<and> work t = work u + 1 \<and> elements u = elements t"
  using assms
proof (induction rule: par_step.induct)
  case (spawn p rest lo hi)
  then show ?case using sort_split [OF spawn(2,1)] partition_okD(4) [OF spawn(2,1)] by (simp del: sort_key_simps)
qed auto

lemma par_run_effect:
  assumes "(par_step part)\<^sup>*\<^sup>* t u" "partition_ok part"
  shows "promised u = promised t \<and> elements u = elements t"
  using assms by (induction rule: rtranclp_induct) (auto dest: par_step_effect)

lemma par_progress: "(\<exists>xs. t = Return xs) \<or> (\<exists>u. par_step part t u)"
proof (induction t)
  case (Call xs)
  show ?case
  proof (cases xs)
    case (Cons p rest)
    obtain lo hi where "part (\<lambda>t. t < p) rest = (lo, hi)" by fastforce
    then show ?thesis using Cons by (blast intro: par_step.spawn)
  qed (auto intro: par_step.sort_empty)
next
  case (Join l p h)
  then show ?case by (cases l; cases h) (blast intro: par_step.intros)+
qed simp

lemma par_run_work:
  assumes "(par_step part ^^ n) t u" "partition_ok part"
  shows "work t = work u + n"
  using assms by (induction n arbitrary: u) (auto dest!: par_step_effect)

lemma tasks_le_elements: "tasks t \<le> elements t"
proof (induction t)
  case (Join l p h)
  then show ?case by (cases l) auto
qed auto

text \<open>C19: Under every schedule the parallel function makes exactly the same number of steps and returns what the
  sequential one returns.\<close>

theorem parallel_sort_is_the_sequential_one:
  assumes "partition_ok part" "(par_step part ^^ n) (Call xs) t"
  shows "n \<le> 3 * length xs + 1 \<and>
    ((\<nexists>u. par_step part t u) \<longrightarrow> n = 3 * length xs + 1 \<and> (\<exists>ys. t = Return ys \<and> sequential_quick_sort part xs = Some ys))"
proof -
  have w: "3 * length xs + 1 = work t + n" using par_run_work [OF assms(2,1)] by simp
  have "(par_step part)\<^sup>*\<^sup>* (Call xs) t" using assms(2) by (rule relpowp_imp_rtranclp)
  then have p: "promised t = sort xs" using par_run_effect [OF _ assms(1)] by fastforce
  have "n = 3 * length xs + 1 \<and> (\<exists>ys. t = Return ys \<and> sequential_quick_sort part xs = Some ys)" if "\<nexists>u. par_step part t u"
  proof -
    have "\<exists>ys. t = Return ys" using par_progress [of t part] that by simp
    then obtain ys where ys: "t = Return ys" ..
    then show ?thesis using w p sequential_sort_sorts [OF assms(1), of xs] by simp
  qed
  then show ?thesis using w by simp
qed

text \<open>A stable partition, as the library of a compiler may implement it\<close>

definition stable_partition :: "('a \<Rightarrow> bool) \<Rightarrow> 'a list \<Rightarrow> 'a list \<times> 'a list" where
  "stable_partition P xs = (List.filter P xs, List.filter (\<lambda>x. \<not> P x) xs)"

lemma stable_partition_ok: "partition_ok stable_partition"
  by (auto simp: partition_ok_def stable_partition_def multiset_partition [symmetric] mset_filter)

theorem sequential_sort_sorts_witness:
  "sequential_quick_sort stable_partition [4, 6, 7, 8, 9, 3, 4, 5 :: int] = Some [3, 4, 4, 5, 6, 7, 8, 9]"
  using sequential_sort_sorts [OF stable_partition_ok, of "[4, 6, 7, 8, 9, 3, 4, 5 :: int]"] by simp

lemma one_element_run:
  "(par_step stable_partition ^^ 4) (Call [7 :: int]) (Return [7])"
proof -
  let ?r = "par_step (stable_partition :: (int \<Rightarrow> bool) \<Rightarrow> int list \<Rightarrow> int list \<times> int list)"
  have 1: "?r (Call [7]) (Join (Call []) 7 (Call []))" by (rule par_step.spawn) (simp add: stable_partition_def)
  have 2: "?r (Join (Call []) 7 (Call [])) (Join (Return []) 7 (Call []))" by (intro par_step.in_task par_step.sort_empty)
  have 3: "?r (Join (Return []) 7 (Call [])) (Join (Return []) 7 (Return []))" by (intro par_step.in_caller par_step.sort_empty)
  have 4: "?r (Join (Return []) 7 (Return [])) (Return [7])" using par_step.get [of _ "[]" 7 "[]"] by simp
  show ?thesis using 1 2 3 4 by (auto simp: numeral_eq_Suc intro!: relcomppI)
qed

theorem parallel_sort_is_the_sequential_one_witness:
  "\<exists>ys. Return [7 :: int] = Return ys \<and> sequential_quick_sort stable_partition [7] = Some ys"
  using parallel_sort_is_the_sequential_one [OF stable_partition_ok one_element_run] by (auto elim: par_step_ReturnE)

lemma falling_run:
  "\<exists>t. (par_step stable_partition)\<^sup>*\<^sup>* (Call (rev [1..<Suc n])) t \<and> tasks t = n \<and> (\<forall>ys. t \<noteq> Return ys)"
proof (induction n)
  case 0
  show ?case by (rule exI [of _ "Call []"]) simp
next
  case (Suc n)
  then obtain t where t: "(par_step stable_partition)\<^sup>*\<^sup>* (Call (rev [1..<Suc n])) t" "tasks t = n" "\<forall>ys. t \<noteq> Return ys"
    by blast
  have f: "List.filter (\<lambda>x. x < Suc n) (rev [1..<Suc n]) = rev [1..<Suc n]" "List.filter (\<lambda>x. \<not> x < Suc n) (rev [1..<Suc n]) = []"
    by (auto simp: filter_id_conv filter_empty_conv)
  have r: "rev [1..<Suc (Suc n)] = Suc n # rev [1..<Suc n]" by simp
  have "par_step stable_partition (Call (rev [1..<Suc (Suc n)])) (Join (Call (rev [1..<Suc n])) (Suc n) (Call []))"
    unfolding r by (rule par_step.spawn) (simp only: stable_partition_def f)
  moreover have "(par_step stable_partition)\<^sup>*\<^sup>* (Join l (Suc n) (Call [])) (Join l' (Suc n) (Call []))"
    if "(par_step stable_partition)\<^sup>*\<^sup>* l l'" for l l'
    using that by (induction rule: rtranclp_induct) (auto intro: par_step.in_task rtranclp.rtrancl_into_rtrancl)
  ultimately have "(par_step stable_partition)\<^sup>*\<^sup>* (Call (rev [1..<Suc (Suc n)])) (Join t (Suc n) (Call []))"
    using t(1) by (meson converse_rtranclp_into_rtranclp)
  moreover have "tasks (Join t (Suc n) (Call [])) = Suc n" using t(2,3) by (cases t) auto
  ultimately show ?case by (intro exI [of _ "Join t (Suc n) (Call [])"]) simp
qed

text \<open>Sorting \<open>n\<close> elements needs at most \<open>n\<close> tasks at a time, and on a falling list all \<open>n\<close> are alive at once: with a thread
  for each task the number of threads grows with the list.\<close>

theorem sorting_may_take_a_thread_per_element:
  "(partition_ok part \<and> (par_step part)\<^sup>*\<^sup>* (Call xs) t \<longrightarrow> tasks t \<le> length xs) \<and>
   (\<exists>t. (par_step stable_partition)\<^sup>*\<^sup>* (Call (rev [1..<Suc n])) t \<and> tasks t = n)"
  using par_run_effect [of part "Call xs" t] tasks_le_elements [of t] falling_run [of n] by auto

theorem sorting_may_take_a_thread_per_element_witness:
  "tasks (Call [2, 1 :: nat]) \<le> 2"
  using sorting_may_take_a_thread_per_element [of stable_partition "[2, 1 :: nat]" "Call [2, 1]"] stable_partition_ok by simp

end
