(* ===== verification/MemoryOrders.thy ===== *)
theory MemoryOrders
  imports Prelude
begin

text \<open>
  The programs of the chapter on atomic types that show memory orders: a store and a load loop
  (\<^verbatim>\<open>atomic_demo01.cpp\<close> relaxed, \<^verbatim>\<open>atomic_demo02.cpp\<close> and \<^verbatim>\<open>atomic_array_demo03.cpp\<close> sequentially consistent), the two
  programs with flags, the one that hands over a vector, and the array updated by compare and exchange
  (\<^verbatim>\<open>atomic_CAS_demo06.cpp\<close>).

  A location is the list of all values it has had, its modification order.  A thread remembers the last
  position it has seen of every location, and a relaxed load may return any value from there on; a
  sequentially consistent load returns the last one, which is exact for the programs here, since each uses
  one order for all its loads and stores.  Read-modify-write operations always act on the last value.
\<close>

section \<open>The machine\<close>

datatype memory_order = Relaxed | Seq_Cst

datatype stmt =
    Store nat int memory_order
  | Load nat memory_order                \<comment> \<open>load and print\<close>
  | Wait_Until nat memory_order          \<comment> \<open>a loop until the flag is set\<close>
  | Add_If nat memory_order nat          \<comment> \<open>increment the last location if the flag is set\<close>
  | Cas_Loop nat int int                 \<comment> \<open>a loop around \<^verbatim>\<open>compare_exchange_weak(expected, desired)\<close>\<close>
  | Push nat int                         \<comment> \<open>\<^verbatim>\<open>push_back\<close> on a vector, not atomic\<close>
  | Print_At nat nat                     \<comment> \<open>an element of a vector, not atomic\<close>

record mthread =
  code :: "stmt list"
  seen :: "nat \<Rightarrow> nat"
  prints :: "int list"

record machine =
  hist :: "nat \<Rightarrow> int list"
  threads :: "mthread list"

definition readable :: "memory_order \<Rightarrow> nat \<Rightarrow> nat \<Rightarrow> int list \<Rightarrow> bool" where
  "readable mo i from h \<longleftrightarrow> i < length h \<and> from \<le> i \<and> (mo = Seq_Cst \<longrightarrow> Suc i = length h)"

text \<open>One statement: \<open>i\<close> is the position a load reads, \<open>spurious\<close> a failure of the exchange without reason.  \<open>None\<close>
  means that this cannot happen, or that an element which is not there would be read.\<close>

definition exec :: "nat \<Rightarrow> bool \<Rightarrow> (nat \<Rightarrow> int list) \<Rightarrow> mthread \<Rightarrow> ((nat \<Rightarrow> int list) \<times> mthread) option" where
  "exec i spurious h t = (case code t of
     [] \<Rightarrow> None
   | s # rest \<Rightarrow> (case s of
       Store l v mo \<Rightarrow> Some (h(l := h l @ [v]), t\<lparr>code := rest, seen := (seen t)(l := length (h l))\<rparr>)
     | Load l mo \<Rightarrow> if readable mo i (seen t l) (h l)
         then Some (h, t\<lparr>code := rest, seen := (seen t)(l := i), prints := prints t @ [h l ! i]\<rparr>) else None
     | Wait_Until l mo \<Rightarrow> if readable mo i (seen t l) (h l)
         then Some (h, t\<lparr>code := (if h l ! i \<noteq> 0 then rest else s # rest), seen := (seen t)(l := i)\<rparr>) else None
     | Add_If l mo z \<Rightarrow> if readable mo i (seen t l) (h l)
         then Some (if h l ! i \<noteq> 0 then h(z := h z @ [last (h z) + 1]) else h,
                    t\<lparr>code := rest, seen := (seen t)(l := i)\<rparr>) else None
     | Cas_Loop l expected desired \<Rightarrow> Some (if last (h l) = expected \<and> \<not> spurious
         then (h(l := h l @ [desired]), t\<lparr>code := rest, seen := (seen t)(l := length (h l))\<rparr>)
         else (h, t\<lparr>code := Cas_Loop l (last (h l)) desired # rest\<rparr>))
     | Push l v \<Rightarrow> Some (h(l := h l @ [v]), t\<lparr>code := rest\<rparr>)
     | Print_At l n \<Rightarrow> if n < length (h l) then Some (h, t\<lparr>code := rest, prints := prints t @ [h l ! n]\<rparr>) else None))"

inductive mo_step :: "machine \<Rightarrow> machine \<Rightarrow> bool" where
  runs: "k < length (threads m) \<Longrightarrow> exec i spurious (hist m) (threads m ! k) = Some (h, t) \<Longrightarrow>
    mo_step m \<lparr>hist = h, threads = (threads m)[k := t]\<rparr>"

definition boot :: "(nat \<Rightarrow> int list) \<Rightarrow> stmt list list \<Rightarrow> machine" where
  "boot h progs = \<lparr>hist = h, threads = map (\<lambda>c. \<lparr>code = c, seen = (\<lambda>_. 0), prints = []\<rparr>) progs\<rparr>"

definition joined :: "machine \<Rightarrow> bool" where
  "joined m \<longleftrightarrow> (\<forall>t \<in> set (threads m). code t = [])"

section \<open>The programs\<close>

definition writer :: "nat \<Rightarrow> memory_order \<Rightarrow> stmt list" where
  "writer n mo = map (\<lambda>i. Store 0 (int i) mo) [0..<n]"

definition reader :: "nat \<Rightarrow> memory_order \<Rightarrow> stmt list" where
  "reader k mo = replicate k (Load 0 mo)"

definition loops_main :: "memory_order \<Rightarrow> nat \<Rightarrow> nat \<Rightarrow> machine" where
  "loops_main mo n k = boot (\<lambda>_. [0]) [writer n mo, reader k mo]"

definition relaxed_main :: machine where "relaxed_main = loops_main Relaxed 10 10"
definition seq_cst_main :: machine where "seq_cst_main = loops_main Seq_Cst 10 10"

text \<open>The flags: locations 0 and 1 are \<^verbatim>\<open>x\<close> and \<^verbatim>\<open>y\<close>, location 2 is \<^verbatim>\<open>z\<close>.\<close>

definition write_x_then_y :: "memory_order \<Rightarrow> stmt list" where
  "write_x_then_y mo = [Store 0 1 mo, Store 1 1 mo]"

definition read_y_then_x :: "memory_order \<Rightarrow> stmt list" where
  "read_y_then_x mo = [Wait_Until 1 mo, Add_If 0 mo 2]"

definition pair_main :: "memory_order \<Rightarrow> machine" where
  "pair_main mo = boot (\<lambda>_. [0]) [write_x_then_y mo, read_y_then_x mo]"

definition write_x :: "memory_order \<Rightarrow> stmt list" where "write_x mo = [Store 0 1 mo]"
definition write_y :: "memory_order \<Rightarrow> stmt list" where "write_y mo = [Store 1 1 mo]"
definition read_x_then_y :: "memory_order \<Rightarrow> stmt list" where "read_x_then_y mo = [Wait_Until 0 mo, Add_If 1 mo 2]"

definition flags_main :: "memory_order \<Rightarrow> machine" where
  "flags_main mo = boot (\<lambda>_. [0]) [write_x mo, write_y mo, read_x_then_y mo, read_y_then_x mo]"

text \<open>The vector is location 1, which is empty at the start.\<close>

definition writer_thread :: "stmt list" where "writer_thread = [Push 1 43, Store 0 1 Seq_Cst]"
definition reader_thread :: "stmt list" where "reader_thread = [Wait_Until 0 Seq_Cst, Print_At 1 0]"

definition handover_main :: machine where
  "handover_main = boot (\<lambda>l. if l = 1 then [] else [0]) [reader_thread, writer_thread]"

definition ARRAY_SIZE :: nat where "ARRAY_SIZE = 5"

definition cas_writer :: "stmt list" where
  "cas_writer = map (\<lambda>i. Cas_Loop i (int i) (int i + 10)) [0..<ARRAY_SIZE]"

definition cas_reader :: "stmt list" where
  "cas_reader = map (\<lambda>i. Load i Relaxed) [0..<ARRAY_SIZE]"

definition cas_main :: machine where
  "cas_main = boot (\<lambda>l. [int l]) [cas_writer, cas_reader]"

section \<open>The loops\<close>

definition loops_at :: "memory_order \<Rightarrow> nat \<Rightarrow> nat \<Rightarrow> nat \<Rightarrow> (nat \<Rightarrow> int list) \<Rightarrow> mthread \<Rightarrow> mthread \<Rightarrow> bool" where
  "loops_at mo n k j h w r \<longleftrightarrow> j \<le> n \<and> h 0 = 0 # map int [0..<j] \<and> code w = map (\<lambda>i. Store 0 (int i) mo) [j..<n] \<and>
     code r = replicate (k - length (prints r)) (Load 0 mo) \<and> length (prints r) \<le> k \<and> seen r 0 \<le> j \<and>
     sorted (prints r) \<and> (\<forall>v \<in> set (prints r). 0 \<le> v \<and> v \<le> (0 # map int [0..<j]) ! seen r 0)"

lemma written_mono: "a \<le> b \<Longrightarrow> b \<le> j \<Longrightarrow> (0 # map int [0..<j]) ! a \<le> (0 # map int [0..<j]) ! b"
  by (cases a; cases b) auto

lemma written_less: "a \<le> j \<Longrightarrow> j \<le> Suc n \<Longrightarrow> (0 # map int [0..<j]) ! a < int (Suc n)"
  by (cases a) auto

lemma loops_write:
  assumes "loops_at mo n k j h w r" "j < n"
  shows "\<exists>t. exec i spurious h w = Some (h(0 := h 0 @ [int j]), t) \<and> loops_at mo n k (Suc j) (h(0 := h 0 @ [int j])) t r"
proof -
  note at = assms(1) [unfolded loops_at_def]
  have c: "code w = Store 0 (int j) mo # map (\<lambda>i. Store 0 (int i) mo) [Suc j..<n]" using at assms(2) by (simp add: upt_conv_Cons)
  have nth: "(0 # map int [0..<Suc j]) ! seen r 0 = (0 # map int [0..<j]) ! seen r 0"
    using at by (cases "seen r 0") (auto simp: nth_append)
  let ?t = "w\<lparr>code := map (\<lambda>i. Store 0 (int i) mo) [Suc j..<n], seen := (seen w)(0 := length (h 0))\<rparr>"
  have "exec i spurious h w = Some (h(0 := h 0 @ [int j]), ?t)" by (simp add: exec_def c)
  moreover have "loops_at mo n k (Suc j) (h(0 := h 0 @ [int j])) ?t r" using at assms(2) unfolding loops_at_def nth by simp
  ultimately show ?thesis by blast
qed

lemma loops_read:
  assumes "loops_at mo n k j h w r" "length (prints r) < k" "readable mo i (seen r 0) (h 0)"
  shows "\<exists>t. exec i spurious h r = Some (h, t) \<and> prints t = prints r @ [h 0 ! i] \<and> loops_at mo n k j h w t"
proof -
  note at = assms(1) [unfolded loops_at_def]
  have c: "code r = Load 0 mo # replicate (k - Suc (length (prints r))) (Load 0 mo)"
    using at assms(2) by (simp add: Suc_diff_Suc replicate_Suc [symmetric] del: replicate_Suc)
  let ?t = "r\<lparr>code := replicate (k - Suc (length (prints r))) (Load 0 mo), seen := (seen r)(0 := i), prints := prints r @ [h 0 ! i]\<rparr>"
  have ex: "exec i spurious h r = Some (h, ?t)" using assms(3) by (simp add: exec_def c)
  have i: "seen r 0 \<le> i" "i \<le> j" using assms(3) at by (auto simp: readable_def)
  have le: "(0 # map int [0..<j]) ! seen r 0 \<le> (0 # map int [0..<j]) ! i" by (rule written_mono [OF i])
  have "0 \<le> (0 # map int [0..<j]) ! i" using i(2) by (cases i) auto
  then have "loops_at mo n k j h w ?t"
    unfolding loops_at_def using at i(2) assms(2) le by (fastforce simp: sorted_append)
  then show ?thesis using ex by (intro exI [of _ ?t]) simp
qed

lemma loops_step:
  assumes "mo_step m m'" "threads m = [w, r]" "loops_at mo n k j (hist m) w r"
  shows "\<exists>w' r' j'. threads m' = [w', r'] \<and> loops_at mo n k j' (hist m') w' r'"
  using assms(1)
proof cases
  case (runs q i spurious h t)
  have q: "q = 0 \<or> q = 1" using runs(2) assms(2) by auto
  show ?thesis
  proof (cases "q = 0")
    case True
    then have "code w \<noteq> []" using runs(3) assms(2) by (auto simp: exec_def)
    then have "j < n" using assms(3) by (auto simp: loops_at_def)
    from loops_write [OF assms(3) this, of i spurious] show ?thesis using runs assms(2) True by auto
  next
    case False
    then have q1: "q = 1" using q by simp
    then have ne: "code r \<noteq> []" using runs(3) assms(2) by (auto simp: exec_def)
    then have p: "length (prints r) < k" using assms(3) by (auto simp: loops_at_def)
    have "hd (code r) = Load 0 mo" using assms(3) p by (simp add: loops_at_def)
    then have "readable mo i (seen r 0) (hist m 0)"
      using runs(3) q1 assms(2) ne by (cases "code r") (auto simp: exec_def split: if_splits)
    from loops_read [OF assms(3) p this, of spurious] show ?thesis using runs assms(2) q1 by auto
  qed
qed

lemma loops_reach:
  "mo_step\<^sup>*\<^sup>* (loops_main mo n k) m \<Longrightarrow> \<exists>w r j. threads m = [w, r] \<and> loops_at mo n k j (hist m) w r"
proof (induction rule: rtranclp_induct)
  case base
  show ?case by (simp add: loops_main_def boot_def loops_at_def writer_def reader_def)
next
  case (step m m')
  then show ?case by (blast dest: loops_step)
qed

definition at_log :: "memory_order \<Rightarrow> nat \<Rightarrow> nat \<Rightarrow> nat \<Rightarrow> int list \<Rightarrow> machine \<Rightarrow> bool" where
  "at_log mo n k j L m \<longleftrightarrow> (\<exists>w r. threads m = [w, r] \<and> loops_at mo n k j (hist m) w r \<and> prints r = L)"

lemma at_log_write:
  assumes "at_log mo n k j L m" "j < n"
  shows "\<exists>m'. mo_step m m' \<and> at_log mo n k (Suc j) L m'"
proof -
  obtain w r where m: "threads m = [w, r]" "loops_at mo n k j (hist m) w r" "prints r = L" using assms(1) by (auto simp: at_log_def)
  obtain t where t: "exec 0 False (hist m) w = Some ((hist m)(0 := hist m 0 @ [int j]), t)"
    "loops_at mo n k (Suc j) ((hist m)(0 := hist m 0 @ [int j])) t r"
    using loops_write [OF m(2) assms(2), of 0 False] by blast
  have "mo_step m \<lparr>hist = (hist m)(0 := hist m 0 @ [int j]), threads = (threads m)[0 := t]\<rparr>"
    by (rule mo_step.runs [where i = 0 and spurious = False]) (use m(1) t(1) in simp_all)
  then show ?thesis using m t(2) by (auto simp: at_log_def)
qed

lemma at_log_writes:
  "j' \<le> n \<Longrightarrow> at_log mo n k j L m \<Longrightarrow> j \<le> j' \<Longrightarrow> \<exists>m'. mo_step\<^sup>*\<^sup>* m m' \<and> at_log mo n k j' L m'"
proof (induction "j' - j" arbitrary: j m)
  case 0
  then have "j' = j" by simp
  then show ?case using 0 by blast
next
  case (Suc d)
  then have "j < n" by simp
  then obtain m1 where m1: "mo_step m m1" "at_log mo n k (Suc j) L m1" using at_log_write [OF Suc.prems(2)] by blast
  have "d = j' - Suc j" "Suc j \<le> j'" using Suc(2) by simp_all
  then obtain m2 where "mo_step\<^sup>*\<^sup>* m1 m2" "at_log mo n k j' L m2" using Suc(1) [OF _ Suc.prems(1) m1(2)] by blast
  then show ?case using m1(1) by (meson converse_rtranclp_into_rtranclp)
qed

lemma at_log_read:
  assumes "at_log mo n k j L m" "length L < k"
  shows "\<exists>m'. mo_step m m' \<and> at_log mo n k j (L @ [(0 # map int [0..<j]) ! j]) m'"
proof -
  obtain w r where m: "threads m = [w, r]" "loops_at mo n k j (hist m) w r" "prints r = L" using assms(1) by (auto simp: at_log_def)
  have h: "hist m 0 = 0 # map int [0..<j]" "seen r 0 \<le> j" using m(2) by (auto simp: loops_at_def)
  have "readable mo j (seen r 0) (hist m 0)" using h by (simp add: readable_def)
  then obtain t where t: "exec j False (hist m) r = Some (hist m, t)" "prints t = L @ [hist m 0 ! j]" "loops_at mo n k j (hist m) w t"
    using loops_read [OF m(2) _, of j False] m(3) assms(2) by auto
  have "mo_step m \<lparr>hist = hist m, threads = (threads m)[1 := t]\<rparr>"
    by (rule mo_step.runs [where i = j and spurious = False]) (use m(1) t(1) in simp_all)
  then show ?thesis using m(1) t(2,3) h(1) by (auto simp: at_log_def)
qed

lemma every_log:
  assumes "sorted L" "set L \<subseteq> {0..<int n}" "length L \<le> k"
  shows "\<exists>m j. mo_step\<^sup>*\<^sup>* (loops_main mo n k) m \<and> at_log mo n k j L m \<and> j \<le> (if L = [] then 0 else Suc (nat (List.last L)))"
  using assms
proof (induction L rule: rev_induct)
  case Nil
  have "at_log mo n k 0 [] (loops_main mo n k)" by (simp add: at_log_def loops_main_def boot_def loops_at_def writer_def reader_def)
  then show ?case by auto
next
  case (snoc v L)
  then obtain m j where m: "mo_step\<^sup>*\<^sup>* (loops_main mo n k) m" "at_log mo n k j L m" "j \<le> (if L = [] then 0 else Suc (nat (List.last L)))"
    by (auto simp: sorted_append)
  have v: "0 \<le> v" "v < int n" using snoc.prems(2) by auto
  have "L \<noteq> [] \<Longrightarrow> List.last L \<le> v" using snoc.prems(1) by (simp add: sorted_append)
  then have "j \<le> Suc (nat v)" using m(3) by (auto split: if_splits)
  then obtain m1 where m1: "mo_step\<^sup>*\<^sup>* m m1" "at_log mo n k (Suc (nat v)) L m1"
    using at_log_writes [OF _ m(2), of "Suc (nat v)"] v by (metis Suc_leI nat_less_iff)
  obtain m2 where "mo_step m1 m2" "at_log mo n k (Suc (nat v)) (L @ [(0 # map int [0..<Suc (nat v)]) ! Suc (nat v)]) m2"
    using at_log_read [OF m1(2)] snoc.prems(3) by auto
  moreover have "(0 # map int [0..<Suc (nat v)]) ! Suc (nat v) = v" using v(1) by (simp add: nth_append)
  ultimately have "mo_step\<^sup>*\<^sup>* (loops_main mo n k) m2 \<and> at_log mo n k (Suc (nat v)) (L @ [v]) m2"
    using m(1) m1(1) by (metis rtranclp.rtrancl_into_rtrancl rtranclp_trans)
  then show ?case by auto
qed

lemma loops_print:
  "(\<exists>m. mo_step\<^sup>*\<^sup>* (loops_main mo (Suc n) k) m \<and> joined m \<and> prints (threads m ! 1) = L) \<longleftrightarrow>
   sorted L \<and> set L \<subseteq> {0..<int (Suc n)} \<and> length L = k"
proof
  assume "\<exists>m. mo_step\<^sup>*\<^sup>* (loops_main mo (Suc n) k) m \<and> joined m \<and> prints (threads m ! 1) = L"
  then obtain m w r j where m: "joined m" "prints (threads m ! 1) = L" "threads m = [w, r]" "loops_at mo (Suc n) k j (hist m) w r"
    by (blast dest: loops_reach)
  then have L: "prints r = L" "code r = []" by (auto simp: joined_def)
  note at = m(4) [unfolded loops_at_def L]
  then have "length L = k" using L(2) by simp
  moreover have "(0 # map int [0..<j]) ! seen r 0 < int (Suc n)" using written_less [of "seen r 0" j n] at by simp
  ultimately show "sorted L \<and> set L \<subseteq> {0..<int (Suc n)} \<and> length L = k" using at by fastforce
next
  assume L: "sorted L \<and> set L \<subseteq> {0..<int (Suc n)} \<and> length L = k"
  then obtain m j where m: "mo_step\<^sup>*\<^sup>* (loops_main mo (Suc n) k) m" "at_log mo (Suc n) k j L m"
    using every_log [of L "Suc n" k mo] by auto
  then have "j \<le> Suc n" by (auto simp: at_log_def loops_at_def)
  then obtain m1 where m1: "mo_step\<^sup>*\<^sup>* m m1" "at_log mo (Suc n) k (Suc n) L m1" using at_log_writes [OF _ m(2), of "Suc n"] by auto
  then have "joined m1 \<and> prints (threads m1 ! 1) = L" using L by (auto simp: at_log_def joined_def loops_at_def)
  then show "\<exists>m. mo_step\<^sup>*\<^sup>* (loops_main mo (Suc n) k) m \<and> joined m \<and> prints (threads m ! 1) = L"
    by (intro exI [of _ m1]) (use rtranclp_trans [OF m(1) m1(1)] in simp)
qed

text \<open>C20: With one location the memory order makes no difference: relaxed or sequentially consistent, the reader
  of both programs prints exactly the rising sequences of the values, each possibly several times or not at all.\<close>

theorem memory_order_of_one_location_does_not_matter:
  "((\<exists>m. mo_step\<^sup>*\<^sup>* relaxed_main m \<and> joined m \<and> prints (threads m ! 1) = L) \<longleftrightarrow>
    (\<exists>m. mo_step\<^sup>*\<^sup>* seq_cst_main m \<and> joined m \<and> prints (threads m ! 1) = L)) \<and>
   ((\<exists>m. mo_step\<^sup>*\<^sup>* relaxed_main m \<and> joined m \<and> prints (threads m ! 1) = L) \<longleftrightarrow>
    sorted L \<and> set L \<subseteq> {0..<10} \<and> length L = 10)"
  unfolding relaxed_main_def seq_cst_main_def using loops_print [of _ 9 10 L] by simp

section \<open>The flags\<close>

text \<open>The invariant of the four threads: a reader past its loop has seen its flag, and one that has found the other flag
  unset and left \<^verbatim>\<open>z\<close> alone keeps the other reader from doing the same.\<close>

definition value_of :: "nat \<Rightarrow> machine \<Rightarrow> int" where
  "value_of l m = last (hist m l)"

lemmas flag_programs = write_x_def write_y_def read_x_then_y_def read_y_then_x_def write_x_then_y_def

definition flags_ok :: "stmt list \<Rightarrow> stmt list \<Rightarrow> stmt list \<Rightarrow> stmt list \<Rightarrow> int \<Rightarrow> int \<Rightarrow> int \<Rightarrow> bool" where
  "flags_ok a b c d x y z \<longleftrightarrow> x = (if a = [] then 1 else 0) \<and> y = (if b = [] then 1 else 0) \<and> 0 \<le> z \<and>
     (a = write_x Seq_Cst \<or> a = []) \<and> (b = write_y Seq_Cst \<or> b = []) \<and>
     (c = read_x_then_y Seq_Cst \<or> c = [Add_If 1 Seq_Cst 2] \<and> a = [] \<or> c = [] \<and> a = [] \<and> (z = 0 \<longrightarrow> d \<noteq> [])) \<and>
     (d = read_y_then_x Seq_Cst \<or> d = [Add_If 0 Seq_Cst 2] \<and> b = [] \<or> d = [] \<and> b = [] \<and> (z = 0 \<longrightarrow> c \<noteq> []))"

definition flags_inv :: "machine \<Rightarrow> bool" where
  "flags_inv m \<longleftrightarrow> (\<exists>a b c d. threads m = [a, b, c, d] \<and> (\<forall>l. hist m l \<noteq> []) \<and>
     flags_ok (code a) (code b) (code c) (code d) (value_of 0 m) (value_of 1 m) (value_of 2 m))"

lemma read_last: "readable Seq_Cst i n h \<Longrightarrow> h ! i = last h"
  by (cases h rule: rev_cases) (auto simp: readable_def)

text \<open>The effect of one statement when all orders are sequentially consistent\<close>

lemma exec_seq_cst:
  assumes "exec i spurious h t = Some (h', t')"
  shows "code t = Store l v mo # rest \<Longrightarrow> h' = h(l := h l @ [v]) \<and> code t' = rest \<and> prints t' = prints t"
    and "code t = Wait_Until l Seq_Cst # rest \<Longrightarrow> h' = h \<and> code t' = (if last (h l) \<noteq> 0 then rest else code t) \<and> prints t' = prints t"
    and "code t = Add_If l Seq_Cst z # rest \<Longrightarrow>
      h' = (if last (h l) \<noteq> 0 then h(z := h z @ [last (h z) + 1]) else h) \<and> code t' = rest \<and> prints t' = prints t"
    and "code t = Push l v # rest \<Longrightarrow> h' = h(l := h l @ [v]) \<and> code t' = rest \<and> prints t' = prints t"
    and "code t = Print_At l n # rest \<Longrightarrow> n < length (h l) \<and> h' = h \<and> code t' = rest \<and> prints t' = prints t @ [h l ! n]"
    and "code t \<noteq> []"
  using assms read_last by (auto simp: exec_def split: if_splits)

lemma flags_step:
  assumes "flags_inv m" "mo_step m m'"
  shows "flags_inv m'"
  using assms(2)
proof cases
  case (runs q i spurious h t)
  obtain a b c d where m: "threads m = [a, b, c, d]" "\<forall>l. hist m l \<noteq> []"
    and ok: "flags_ok (code a) (code b) (code c) (code d) (value_of 0 m) (value_of 1 m) (value_of 2 m)"
    using assms(1) unfolding flags_inv_def by blast
  note ex = exec_seq_cst [OF runs(3)]
  consider "q = 0" | "q = 1" | "q = 2" | "q = 3" using runs(2) m(1) by fastforce
  then show ?thesis
  proof cases
    case 1
    then have "code a = [Store 0 1 Seq_Cst]" using ex(6) m(1) ok by (auto simp: flags_ok_def write_x_def)
    with ex(1) have "h = (hist m)(0 := hist m 0 @ [1])" "code t = []" using 1 m(1) by auto
    then show ?thesis using ok m runs(1) 1 by (auto simp: flags_inv_def flags_ok_def value_of_def flag_programs)
  next
    case 2
    then have "code b = [Store 1 1 Seq_Cst]" using ex(6) m(1) ok by (auto simp: flags_ok_def write_y_def)
    with ex(1) have "h = (hist m)(1 := hist m 1 @ [1])" "code t = []" using 2 m(1) by auto
    then show ?thesis using ok m runs(1) 2 by (auto simp: flags_inv_def flags_ok_def value_of_def flag_programs)
  next
    case 3
    then have "code c \<noteq> []" using ex(6) m(1) by simp
    then consider "code c = [Wait_Until 0 Seq_Cst, Add_If 1 Seq_Cst 2]" | "code c = [Add_If 1 Seq_Cst 2]" "code a = []"
      using ok by (auto simp: flags_ok_def read_x_then_y_def)
    then show ?thesis
    proof cases
      case 1
      with ex(2) have "h = hist m" "code t = (if last (hist m 0) \<noteq> 0 then [Add_If 1 Seq_Cst 2] else code c)" using 3 m(1) by auto
      then show ?thesis using ok m runs(1) 3 1 by (auto simp: flags_inv_def flags_ok_def value_of_def flag_programs split: if_splits)
    next
      case 2
      with ex(3) have "h = (if last (hist m 1) \<noteq> 0 then (hist m)(2 := hist m 2 @ [last (hist m 2) + 1]) else hist m)" "code t = []"
        using 3 m(1) by auto
      then show ?thesis using ok m runs(1) 3 2 by (auto simp: flags_inv_def flags_ok_def value_of_def flag_programs split: if_splits)
    qed
  next
    case 4
    then have "code d \<noteq> []" using ex(6) m(1) by simp
    then consider "code d = [Wait_Until 1 Seq_Cst, Add_If 0 Seq_Cst 2]" | "code d = [Add_If 0 Seq_Cst 2]" "code b = []"
      using ok by (auto simp: flags_ok_def read_y_then_x_def)
    then show ?thesis
    proof cases
      case 1
      with ex(2) have "h = hist m" "code t = (if last (hist m 1) \<noteq> 0 then [Add_If 0 Seq_Cst 2] else code d)" using 4 m(1) by auto
      then show ?thesis using ok m runs(1) 4 1 by (auto simp: flags_inv_def flags_ok_def value_of_def flag_programs split: if_splits)
    next
      case 2
      with ex(3) have "h = (if last (hist m 0) \<noteq> 0 then (hist m)(2 := hist m 2 @ [last (hist m 2) + 1]) else hist m)" "code t = []"
        using 4 m(1) by auto
      then show ?thesis using ok m runs(1) 4 2 by (auto simp: flags_inv_def flags_ok_def value_of_def flag_programs split: if_splits)
    qed
  qed
qed

lemma flags_reach: "mo_step\<^sup>*\<^sup>* (flags_main Seq_Cst) m \<Longrightarrow> flags_inv m"
proof (induction rule: rtranclp_induct)
  case base
  show ?case by (simp add: flags_inv_def flags_ok_def flags_main_def boot_def value_of_def flag_programs)
next
  case (step m m')
  then show ?case by (blast intro: flags_step)
qed

definition pair_ok :: "stmt list \<Rightarrow> stmt list \<Rightarrow> int \<Rightarrow> int \<Rightarrow> int \<Rightarrow> bool" where
  "pair_ok a d x y z \<longleftrightarrow> (a = write_x_then_y Seq_Cst \<and> x = 0 \<and> y = 0 \<or> a = [Store 1 1 Seq_Cst] \<and> x = 1 \<and> y = 0 \<or> a = [] \<and> x = 1 \<and> y = 1) \<and>
     (d = read_y_then_x Seq_Cst \<and> z = 0 \<or> d = [Add_If 0 Seq_Cst 2] \<and> a = [] \<and> z = 0 \<or> d = [] \<and> a = [] \<and> z = 1)"

definition pair_inv :: "machine \<Rightarrow> bool" where
  "pair_inv m \<longleftrightarrow> (\<exists>a d. threads m = [a, d] \<and> pair_ok (code a) (code d) (value_of 0 m) (value_of 1 m) (value_of 2 m))"

lemma pair_step:
  assumes "pair_inv m" "mo_step m m'"
  shows "pair_inv m'"
  using assms(2)
proof cases
  case (runs q i spurious h t)
  obtain a d where m: "threads m = [a, d]" and ok: "pair_ok (code a) (code d) (value_of 0 m) (value_of 1 m) (value_of 2 m)"
    using assms(1) unfolding pair_inv_def by blast
  note ex = exec_seq_cst [OF runs(3)]
  consider "q = 0" | "q = 1" using runs(2) m(1) by fastforce
  then show ?thesis
  proof cases
    case 1
    then consider "code a = [Store 0 1 Seq_Cst, Store 1 1 Seq_Cst]" | "code a = [Store 1 1 Seq_Cst]"
      using ex(6) m(1) ok by (auto simp: pair_ok_def write_x_then_y_def)
    then show ?thesis
      by cases (use ex(1) 1 m ok runs(1) in \<open>auto simp: pair_inv_def pair_ok_def value_of_def flag_programs\<close>)
  next
    case 2
    then consider "code d = [Wait_Until 1 Seq_Cst, Add_If 0 Seq_Cst 2]" | "code d = [Add_If 0 Seq_Cst 2]" "code a = []"
      using ex(6) m(1) ok by (auto simp: pair_ok_def read_y_then_x_def)
    then show ?thesis
    proof cases
      case 1
      with ex(2) have "h = hist m" "code t = (if last (hist m 1) \<noteq> 0 then [Add_If 0 Seq_Cst 2] else code d)" using 2 m(1) by auto
      then show ?thesis using ok m runs(1) 2 1 by (auto simp: pair_inv_def pair_ok_def value_of_def flag_programs split: if_splits)
    next
      case c: 2
      with ex(3) have "h = (if last (hist m 0) \<noteq> 0 then (hist m)(2 := hist m 2 @ [last (hist m 2) + 1]) else hist m)" "code t = []"
        using 2 m(1) by auto
      then show ?thesis using ok m runs(1) 2 c by (auto simp: pair_inv_def pair_ok_def value_of_def flag_programs split: if_splits)
    qed
  qed
qed

lemma pair_reach: "mo_step\<^sup>*\<^sup>* (pair_main Seq_Cst) m \<Longrightarrow> pair_inv m"
proof (induction rule: rtranclp_induct)
  case base
  show ?case by (simp add: pair_inv_def pair_ok_def pair_main_def boot_def value_of_def flag_programs)
next
  case (step m m')
  then show ?case by (blast intro: pair_step)
qed

text \<open>A schedule: the thread that runs and the position it reads\<close>

fun run_schedule :: "(nat \<times> nat) list \<Rightarrow> machine \<Rightarrow> machine" where
  "run_schedule [] m = m"
| "run_schedule ((k, i) # ss) m = (case exec i False (hist m) (threads m ! k) of
     None \<Rightarrow> run_schedule ss m
   | Some (h, t) \<Rightarrow> run_schedule ss (if k < length (threads m) then \<lparr>hist = h, threads = (threads m)[k := t]\<rparr> else m))"

lemma run_schedule_reaches: "mo_step\<^sup>*\<^sup>* m (run_schedule ss m)"
proof (induction ss m rule: run_schedule.induct)
  case (2 k i ss m)
  show ?case
  proof (cases "exec i False (hist m) (threads m ! k)")
    case (Some x)
    obtain h t where x: "x = (h, t)" by fastforce
    show ?thesis
    proof (cases "k < length (threads m)")
      case True
      have "mo_step m \<lparr>hist = h, threads = (threads m)[k := t]\<rparr>" using mo_step.runs [OF True] Some x by blast
      then show ?thesis using 2 Some x True by (auto intro: converse_rtranclp_into_rtranclp)
    qed (use 2 Some x in auto)
  qed (use 2 in auto)
qed simp

text \<open>The assertion of the program with four threads never fails.  That of the program with relaxed orders can fail,
  although the reader has seen the flag that is set last; with sequentially consistent orders it could not.\<close>

theorem assertions_of_the_flag_programs:
  "(mo_step\<^sup>*\<^sup>* (flags_main Seq_Cst) m \<and> joined m \<longrightarrow> value_of 2 m \<noteq> 0) \<and>
   (\<exists>u. mo_step\<^sup>*\<^sup>* (pair_main Relaxed) u \<and> joined u \<and> value_of 2 u = 0) \<and>
   (mo_step\<^sup>*\<^sup>* (pair_main Seq_Cst) v \<and> joined v \<longrightarrow> value_of 2 v = 1)"
proof (intro conjI impI)
  assume "mo_step\<^sup>*\<^sup>* (flags_main Seq_Cst) m \<and> joined m"
  then show "value_of 2 m \<noteq> 0"
    using flags_reach [of m] by (auto simp: flags_inv_def flags_ok_def joined_def flag_programs)
next
  let ?u = "run_schedule [(0, 0), (0, 0), (1, 1), (1, 0)] (pair_main Relaxed)"
  have "joined ?u \<and> value_of 2 ?u = 0"
    by (simp add: pair_main_def boot_def flag_programs exec_def readable_def joined_def value_of_def)
  then show "\<exists>u. mo_step\<^sup>*\<^sup>* (pair_main Relaxed) u \<and> joined u \<and> value_of 2 u = 0"
    using run_schedule_reaches by blast
next
  assume "mo_step\<^sup>*\<^sup>* (pair_main Seq_Cst) v \<and> joined v"
  then show "value_of 2 v = 1"
    using pair_reach [of v] by (auto simp: pair_inv_def pair_ok_def joined_def flag_programs)
qed

theorem assertions_of_the_flag_programs_witness:
  "value_of 2 (run_schedule [(0, 0), (1, 0), (2, 1), (2, 1), (3, 1), (3, 1)] (flags_main Seq_Cst)) \<noteq> 0"
proof -
  have "joined (run_schedule [(0, 0), (1, 0), (2, 1), (2, 1), (3, 1), (3, 1)] (flags_main Seq_Cst))"
    by (simp add: flags_main_def boot_def flag_programs exec_def readable_def joined_def)
  then show ?thesis using assertions_of_the_flag_programs [THEN conjunct1] run_schedule_reaches by blast
qed

section \<open>The vector and the array\<close>

definition handover_ok :: "mthread \<Rightarrow> mthread \<Rightarrow> int \<Rightarrow> int list \<Rightarrow> bool" where
  "handover_ok r w ready data \<longleftrightarrow>
     (code w = writer_thread \<and> ready = 0 \<and> data = [] \<or> code w = [Store 0 1 Seq_Cst] \<and> ready = 0 \<and> data = [43] \<or>
      code w = [] \<and> ready = 1 \<and> data = [43]) \<and>
     (code r = reader_thread \<and> prints r = [] \<or> code r = [Print_At 1 0] \<and> code w = [] \<and> prints r = [] \<or>
      code r = [] \<and> code w = [] \<and> prints r = [43])"

definition handover_inv :: "machine \<Rightarrow> bool" where
  "handover_inv m \<longleftrightarrow> (\<exists>r w. threads m = [r, w] \<and> handover_ok r w (value_of 0 m) (hist m 1))"

lemma handover_step:
  assumes "handover_inv m" "mo_step m m'"
  shows "handover_inv m'"
  using assms(2)
proof cases
  case (runs q i spurious h t)
  obtain r w where m: "threads m = [r, w]" and ok: "handover_ok r w (value_of 0 m) (hist m 1)"
    using assms(1) unfolding handover_inv_def by blast
  note ex = exec_seq_cst [OF runs(3)]
  consider "q = 0" | "q = 1" using runs(2) m(1) by fastforce
  then show ?thesis
  proof cases
    case 1
    then consider "code r = [Wait_Until 0 Seq_Cst, Print_At 1 0]" "prints r = []" | "code r = [Print_At 1 0]" "prints r = []" "code w = []"
      using ex(6) m(1) ok by (auto simp: handover_ok_def reader_thread_def)
    then show ?thesis
    proof cases
      case c: 1
      with ex(2) have "h = hist m" "code t = (if last (hist m 0) \<noteq> 0 then [Print_At 1 0] else code r)" "prints t = prints r" using 1 m(1) by auto
      then show ?thesis using ok m runs(1) 1 c
        by (auto simp: handover_inv_def handover_ok_def value_of_def reader_thread_def writer_thread_def split: if_splits)
    next
      case c: 2
      with ex(5) have "h = hist m" "code t = []" "prints t = prints r @ [hist m 1 ! 0]" using 1 m(1) by auto
      then show ?thesis using ok m runs(1) 1 c
        by (auto simp: handover_inv_def handover_ok_def value_of_def reader_thread_def writer_thread_def)
    qed
  next
    case 2
    then consider "code w = [Push 1 43, Store 0 1 Seq_Cst]" | "code w = [Store 0 1 Seq_Cst]"
      using ex(6) m(1) ok by (auto simp: handover_ok_def writer_thread_def)
    then show ?thesis
      by cases (use ex(1,4) 2 m ok runs(1) in \<open>auto simp: handover_inv_def handover_ok_def value_of_def reader_thread_def writer_thread_def\<close>)
  qed
qed

lemma handover_reach: "mo_step\<^sup>*\<^sup>* handover_main m \<Longrightarrow> handover_inv m"
proof (induction rule: rtranclp_induct)
  case base
  show ?case by (simp add: handover_inv_def handover_ok_def handover_main_def boot_def value_of_def reader_thread_def writer_thread_def)
next
  case (step m m')
  then show ?case by (blast intro: handover_step)
qed

text \<open>The reader prints 43, whenever it prints, and there is no data race: the vector is never about to be changed
  by one thread and read by the other.\<close>

theorem vector_is_handed_over:
  assumes "mo_step\<^sup>*\<^sup>* handover_main m"
  shows "prints (threads m ! 0) \<in> {[], [43]} \<and> (joined m \<longrightarrow> prints (threads m ! 0) = [43]) \<and>
    \<not> (hd (code (threads m ! 0)) = Print_At 1 0 \<and> code (threads m ! 0) \<noteq> [] \<and> Push 1 43 \<in> set (code (threads m ! 1)))"
proof -
  obtain r w where m: "threads m = [r, w]" and ok: "handover_ok r w (value_of 0 m) (hist m 1)"
    using handover_reach [OF assms] unfolding handover_inv_def by blast
  have "prints r \<in> {[], [43]} \<and> (code r = [] \<longrightarrow> prints r = [43])"
    using ok unfolding handover_ok_def reader_thread_def by (elim conjE disjE) simp_all
  moreover have "\<not> (hd (code r) = Print_At 1 0 \<and> code r \<noteq> [] \<and> Push 1 43 \<in> set (code w))"
    using ok unfolding handover_ok_def reader_thread_def by (elim conjE disjE) simp_all
  ultimately show ?thesis by (simp add: m joined_def)
qed

theorem vector_is_handed_over_witness:
  "prints (threads (run_schedule [(1, 0), (1, 0), (0, 1), (0, 0)] handover_main) ! 0) = [43]"
proof -
  have "joined (run_schedule [(1, 0), (1, 0), (0, 1), (0, 0)] handover_main)"
    by (simp add: handover_main_def boot_def reader_thread_def writer_thread_def exec_def readable_def joined_def)
  then show ?thesis using vector_is_handed_over [OF run_schedule_reaches] by blast
qed

definition cas_ok :: "nat \<Rightarrow> nat \<Rightarrow> mthread \<Rightarrow> mthread \<Rightarrow> (nat \<Rightarrow> int list) \<Rightarrow> bool" where
  "cas_ok j n w r h \<longleftrightarrow> j \<le> ARRAY_SIZE \<and> n \<le> ARRAY_SIZE \<and> h = (\<lambda>l. if l < j then [int l, int l + 10] else [int l]) \<and>
     code w = map (\<lambda>i. Cas_Loop i (int i) (int i + 10)) [j..<ARRAY_SIZE] \<and> code r = map (\<lambda>i. Load i Relaxed) [n..<ARRAY_SIZE] \<and>
     length (prints r) = n \<and> (\<forall>i < n. prints r ! i = int i \<or> prints r ! i = int i + 10)"

definition cas_inv :: "machine \<Rightarrow> bool" where
  "cas_inv m \<longleftrightarrow> (\<exists>w r j n. threads m = [w, r] \<and> cas_ok j n w r (hist m))"

lemma cas_step:
  assumes "cas_inv m" "mo_step m m'"
  shows "cas_inv m'"
  using assms(2)
proof cases
  case (runs q i spurious h t)
  obtain w r j n where m: "threads m = [w, r]" and ok: "cas_ok j n w r (hist m)" using assms(1) unfolding cas_inv_def by blast
  consider "q = 0" | "q = 1" using runs(2) m(1) by fastforce
  then show ?thesis
  proof cases
    case 1
    then have "code w \<noteq> []" using runs(3) m(1) by (auto simp: exec_def)
    then have j: "j < ARRAY_SIZE" using ok by (auto simp: cas_ok_def)
    then have c: "code w = Cas_Loop j (int j) (int j + 10) # map (\<lambda>i. Cas_Loop i (int i) (int i + 10)) [Suc j..<ARRAY_SIZE]"
      using ok by (simp add: cas_ok_def upt_conv_Cons)
    have hj: "hist m j = [int j]" using ok by (simp add: cas_ok_def)
    show ?thesis
    proof (cases spurious)
      case True
      then have "h = hist m" "code t = code w" using runs(3) m(1) 1 c hj by (auto simp: exec_def)
      then have "cas_ok j n t r h" using ok by (simp add: cas_ok_def)
      then show ?thesis using runs(1) m(1) 1 by (auto simp: cas_inv_def)
    next
      case False
      then have h: "h = (hist m)(j := [int j, int j + 10])" and t: "code t = map (\<lambda>i. Cas_Loop i (int i) (int i + 10)) [Suc j..<ARRAY_SIZE]"
        using runs(3) m(1) 1 c hj by (auto simp: exec_def)
      have "(hist m)(j := [int j, int j + 10]) = (\<lambda>l. if l < Suc j then [int l, int l + 10] else [int l])"
        using ok by (auto simp: cas_ok_def fun_eq_iff less_Suc_eq)
      then have "cas_ok (Suc j) n t r h" using ok j t h by (simp add: cas_ok_def)
      then show ?thesis using runs(1) m(1) 1 by (auto simp: cas_inv_def)
    qed
  next
    case 2
    then have "code r \<noteq> []" using runs(3) m(1) by (auto simp: exec_def)
    then have n: "n < ARRAY_SIZE" using ok by (auto simp: cas_ok_def)
    then have c: "code r = Load n Relaxed # map (\<lambda>i. Load i Relaxed) [Suc n..<ARRAY_SIZE]"
      using ok by (simp add: cas_ok_def upt_conv_Cons)
    then have h: "h = hist m" "i < length (hist m n)" "code t = map (\<lambda>i. Load i Relaxed) [Suc n..<ARRAY_SIZE]" "prints t = prints r @ [hist m n ! i]"
      using runs(3) m(1) 2 by (auto simp: exec_def readable_def split: if_splits)
    have "hist m n ! i = int n \<or> hist m n ! i = int n + 10"
      using ok h(2) by (auto simp: cas_ok_def less_Suc_eq split: if_splits)
    then have "cas_ok j (Suc n) w t h" using ok n h by (auto simp: cas_ok_def nth_append less_Suc_eq)
    then show ?thesis using runs(1) m(1) 2 by (auto simp: cas_inv_def)
  qed
qed

lemma cas_reach: "mo_step\<^sup>*\<^sup>* cas_main m \<Longrightarrow> cas_inv m"
proof (induction rule: rtranclp_induct)
  case base
  have "cas_ok 0 0 \<lparr>code = cas_writer, seen = (\<lambda>_. 0), prints = []\<rparr> \<lparr>code = cas_reader, seen = (\<lambda>_. 0), prints = []\<rparr> (\<lambda>l. [int l])"
    by (simp add: cas_ok_def cas_writer_def cas_reader_def)
  then show ?case by (auto simp: cas_inv_def cas_main_def boot_def)
next
  case (step m m')
  then show ?case by (blast intro: cas_step)
qed

text \<open>The exchange loop raises every element by ten exactly once, however often it fails without reason, and the
  reader prints each element as it was before or after.\<close>

theorem array_is_raised_once:
  assumes "mo_step\<^sup>*\<^sup>* cas_main m" "joined m" "i < ARRAY_SIZE"
  shows "value_of i m = int i + 10 \<and> length (hist m i) = 2 \<and> (prints (threads m ! 1) ! i = int i \<or> prints (threads m ! 1) ! i = int i + 10)"
proof -
  obtain w r j n where m: "threads m = [w, r]" and ok: "cas_ok j n w r (hist m)" using cas_reach [OF assms(1)] unfolding cas_inv_def by blast
  then have "code w = []" "code r = []" using assms(2) by (auto simp: joined_def)
  then have jn: "j = ARRAY_SIZE" "n = ARRAY_SIZE" using ok by (auto simp: cas_ok_def)
  then have "hist m i = [int i, int i + 10]" "prints r ! i = int i \<or> prints r ! i = int i + 10"
    using ok assms(3) by (simp_all add: cas_ok_def)
  then show ?thesis using m by (simp add: value_of_def)
qed

lemma cas_programs:
  "cas_writer = [Cas_Loop 0 0 10, Cas_Loop 1 1 11, Cas_Loop 2 2 12, Cas_Loop 3 3 13, Cas_Loop 4 4 14]"
  "cas_reader = [Load 0 Relaxed, Load 1 Relaxed, Load 2 Relaxed, Load 3 Relaxed, Load 4 Relaxed]"
  by (simp_all add: cas_writer_def cas_reader_def ARRAY_SIZE_def upt_rec)

theorem array_is_raised_once_witness:
  "value_of 3 (run_schedule [(0, 0), (0, 0), (0, 0), (0, 0), (0, 0), (1, 0), (1, 0), (1, 0), (1, 0), (1, 0)] cas_main) = 13"
proof -
  have "joined (run_schedule [(0, 0), (0, 0), (0, 0), (0, 0), (0, 0), (1, 0), (1, 0), (1, 0), (1, 0), (1, 0)] cas_main)"
    by (simp add: cas_main_def boot_def cas_programs exec_def readable_def joined_def)
  from array_is_raised_once [OF run_schedule_reaches this, of 3] show ?thesis by (simp add: ARRAY_SIZE_def)
qed

end
