(* ===== verification/LockFree.thy ===== *)
theory LockFree
  imports Prelude
begin

text \<open>
  The programs of \<^verbatim>\<open>compare_exchange_weak_cpp\<close>: a counter, a spin lock and a stack built on
  \<^verbatim>\<open>compare_exchange_weak\<close>.

  Each program is a set of threads that interleave; a step is one atomic access, and a weak exchange may
  fail for no reason (the flag \<open>spurious\<close>), in which case the expected value is reloaded all the same.
  All accesses are sequentially consistent, as the sources ask for (the acquire and release of the lock
  order the accesses of its owner in the same way).
\<close>

section \<open>Counting threads\<close>

definition count_pc :: "nat \<Rightarrow> ('pc \<Rightarrow> bool) \<Rightarrow> (nat \<Rightarrow> 'pc) \<Rightarrow> nat" where
  "count_pc n P f = card {t. t < n \<and> P (f t)}"

lemma count_pc_upd:
  assumes "t < n"
  shows "count_pc n P (f(t := x)) = count_pc n P f + (if P x then 1 else 0) - (if P (f t) then 1 else 0)"
proof -
  let ?A = "{u. u < n \<and> u \<noteq> t \<and> P (f u)}"
  have fin: "finite ?A" by simp
  have a: "{u. u < n \<and> P ((f(t := y)) u)} = (if P y then insert t ?A else ?A)" for y
    using assms by auto
  have "count_pc n P (f(t := y)) = card ?A + (if P y then 1 else 0)" for y
    unfolding count_pc_def a using fin by simp
  from this [of x] this [of "f t"] show ?thesis by simp
qed

lemma count_pc_all: "count_pc n P f = n \<longleftrightarrow> (\<forall>t < n. P (f t))"
proof
  assume "count_pc n P f = n"
  then have "card {t. t < n \<and> P (f t)} = card {..<n}" by (simp add: count_pc_def)
  moreover have "{t. t < n \<and> P (f t)} \<subseteq> {..<n}" by auto
  ultimately have "{t. t < n \<and> P (f t)} = {..<n}" by (metis card_subset_eq finite_lessThan)
  then show "\<forall>t < n. P (f t)" by auto
next
  assume "\<forall>t < n. P (f t)"
  then have "{t. t < n \<and> P (f t)} = {..<n}" by auto
  then show "count_pc n P f = n" by (simp add: count_pc_def)
qed

section \<open>The counter\<close>

datatype counter_pc = C_load | C_cas int | C_done

record counter_state =
  counter :: int
  c_pcs :: "nat \<Rightarrow> counter_pc"

text \<open>\<^verbatim>\<open>increment_counter\<close>: load, then exchange; a failure goes back to the load.\<close>

definition counter_step :: "bool \<Rightarrow> nat \<Rightarrow> counter_state \<Rightarrow> counter_state" where
  "counter_step spurious t s =
     (case c_pcs s t of
        C_load \<Rightarrow> s\<lparr>c_pcs := (c_pcs s)(t := C_cas (counter s))\<rparr>
      | C_cas expected \<Rightarrow>
          if counter s = expected \<and> \<not> spurious
          then s\<lparr>counter := expected + 1, c_pcs := (c_pcs s)(t := C_done)\<rparr>
          else s\<lparr>c_pcs := (c_pcs s)(t := C_load)\<rparr>
      | C_done \<Rightarrow> s)"

text \<open>\<^verbatim>\<open>test\<close> starts ten threads on a zero counter; the schedule names the threads that move.\<close>

definition counter_start :: counter_state where
  "counter_start = \<lparr>counter = 0, c_pcs = (\<lambda>_. C_load)\<rparr>"

fun counter_run :: "(bool \<times> nat) list \<Rightarrow> counter_state \<Rightarrow> counter_state" where
  "counter_run [] s = s"
| "counter_run ((b, t) # ms) s = counter_run ms (counter_step b t s)"

definition counter_inv :: "nat \<Rightarrow> counter_state \<Rightarrow> bool" where
  "counter_inv n s \<longleftrightarrow> counter s = int (count_pc n (\<lambda>p. p = C_done) (c_pcs s))"

lemma counter_step_inv: "counter_inv n s \<Longrightarrow> t < n \<Longrightarrow> counter_inv n (counter_step b t s)"
  by (cases "c_pcs s t") (auto simp: counter_inv_def counter_step_def count_pc_upd)

lemma counter_run_inv: "counter_inv n s \<Longrightarrow> (\<forall>m \<in> set ms. snd m < n) \<Longrightarrow> counter_inv n (counter_run ms s)"
  by (induction ms s rule: counter_run.induct) (auto simp: counter_step_inv)

lemma counter_start_inv: "counter_inv n counter_start"
  by (simp add: counter_inv_def counter_start_def count_pc_def)

section \<open>The spin lock\<close>

datatype worker_pc = W_lock | W_load | W_store int | W_unlock | W_done

record spin_state =
  locked :: bool
  shared_data :: int
  w_pcs :: "nat \<Rightarrow> worker_pc"

definition spin_lock :: "bool \<Rightarrow> bool \<Rightarrow> bool option" where
  \<comment> \<open>one exchange on the flag with \<open>expected = False\<close>: the new flag, or nothing on failure\<close>
  "spin_lock spurious flag = (if \<not> flag \<and> \<not> spurious then Some True else None)"

definition spin_unlock :: "bool" where
  "spin_unlock = False"

text \<open>\<^verbatim>\<open>worker\<close>; the increment of \<^verbatim>\<open>shared_data\<close> is a load and a store.\<close>

definition worker_step :: "bool \<Rightarrow> nat \<Rightarrow> spin_state \<Rightarrow> spin_state" where
  "worker_step spurious t s =
     (case w_pcs s t of
        W_lock \<Rightarrow> (case spin_lock spurious (locked s) of
            Some flag \<Rightarrow> s\<lparr>locked := flag, w_pcs := (w_pcs s)(t := W_load)\<rparr>
          | None \<Rightarrow> s)
      | W_load \<Rightarrow> s\<lparr>w_pcs := (w_pcs s)(t := W_store (shared_data s))\<rparr>
      | W_store v \<Rightarrow> s\<lparr>shared_data := v + 1, w_pcs := (w_pcs s)(t := W_unlock)\<rparr>
      | W_unlock \<Rightarrow> s\<lparr>locked := spin_unlock, w_pcs := (w_pcs s)(t := W_done)\<rparr>
      | W_done \<Rightarrow> s)"

definition spin_start :: spin_state where
  "spin_start = \<lparr>locked = False, shared_data = 0, w_pcs = (\<lambda>_. W_lock)\<rparr>"

fun worker_run :: "(bool \<times> nat) list \<Rightarrow> spin_state \<Rightarrow> spin_state" where
  "worker_run [] s = s"
| "worker_run ((b, t) # ms) s = worker_run ms (worker_step b t s)"

definition holds :: "worker_pc \<Rightarrow> bool" where
  "holds p \<longleftrightarrow> p \<noteq> W_lock \<and> p \<noteq> W_done"

definition past_store :: "worker_pc \<Rightarrow> bool" where
  "past_store p \<longleftrightarrow> p = W_unlock \<or> p = W_done"

definition spin_inv :: "nat \<Rightarrow> spin_state \<Rightarrow> bool" where
  "spin_inv n s \<longleftrightarrow>
     (\<forall>t u. t < n \<longrightarrow> u < n \<longrightarrow> holds (w_pcs s t) \<longrightarrow> holds (w_pcs s u) \<longrightarrow> t = u)
   \<and> (\<forall>t < n. holds (w_pcs s t) \<longrightarrow> locked s)
   \<and> (\<forall>t < n. \<forall>v. w_pcs s t = W_store v \<longrightarrow> v = shared_data s)
   \<and> shared_data s = int (count_pc n past_store (w_pcs s))"

lemma spin_invD:
  assumes "spin_inv n s"
  shows "t < n \<Longrightarrow> u < n \<Longrightarrow> holds (w_pcs s t) \<Longrightarrow> holds (w_pcs s u) \<Longrightarrow> t = u"
    and "t < n \<Longrightarrow> holds (w_pcs s t) \<Longrightarrow> locked s"
    and "t < n \<Longrightarrow> w_pcs s t = W_store v \<Longrightarrow> v = shared_data s"
    and "shared_data s = int (count_pc n past_store (w_pcs s))"
  using assms unfolding spin_inv_def by blast+

lemma spin_invI:
  assumes "spin_inv n s" "t < n" "w_pcs s' = (w_pcs s)(t := p)"
    and "shared_data s' = shared_data s + (if past_store p \<and> \<not> past_store (w_pcs s t) then 1 else 0)"
    and "past_store (w_pcs s t) \<Longrightarrow> past_store p"
    and "holds (w_pcs s t) \<or> \<not> locked s" "holds p \<longleftrightarrow> locked s'"
    and "\<And>v. p = W_store v \<Longrightarrow> v = shared_data s'"
  shows "spin_inv n s'"
proof -
  have alone: "\<not> holds (w_pcs s u)" if "u < n" "u \<noteq> t" for u
    using assms(6)
  proof
    assume "holds (w_pcs s t)"
    then show ?thesis using spin_invD(1) [OF assms(1) that(1) assms(2)] that(2) by blast
  next
    assume "\<not> locked s"
    then show ?thesis using spin_invD(2) [OF assms(1) that(1)] by blast
  qed
  have c: "shared_data s' = int (count_pc n past_store (w_pcs s'))"
    using spin_invD(4) [OF assms(1)] assms(3-5) count_pc_upd [OF assms(2), of past_store "w_pcs s" p] by auto
  have "w_pcs s u \<noteq> W_store v" if "u < n" "u \<noteq> t" for u v using alone [OF that] by (auto simp: holds_def)
  then show ?thesis
    using alone assms(7,8) c unfolding spin_inv_def assms(3) by (metis fun_upd_apply)
qed

lemma worker_step_inv:
  assumes "spin_inv n s" "t < n"
  shows "spin_inv n (worker_step b t s)"
proof (cases "w_pcs s t")
  case W_lock
  show ?thesis
  proof (cases "locked s \<or> b")
    case True
    then have "worker_step b t s = s" using W_lock by (auto simp: worker_step_def spin_lock_def)
    then show ?thesis using assms(1) by simp
  next
    case False
    then have "worker_step b t s = s\<lparr>locked := True, w_pcs := (w_pcs s)(t := W_load)\<rparr>"
      using W_lock by (simp add: worker_step_def spin_lock_def)
    then show ?thesis using W_lock False by (intro spin_invI [OF assms]) (auto simp: holds_def past_store_def)
  qed
next
  case W_load
  have "locked s" using spin_invD(2) [OF assms] W_load by (simp add: holds_def)
  then show ?thesis
    using W_load by (intro spin_invI [OF assms]) (auto simp: worker_step_def holds_def past_store_def)
next
  case (W_store v)
  have "locked s" "v = shared_data s" using spin_invD(2,3) [OF assms] W_store by (simp_all add: holds_def)
  then show ?thesis
    using W_store by (intro spin_invI [OF assms]) (auto simp: worker_step_def holds_def past_store_def)
next
  case W_unlock
  then show ?thesis
    by (intro spin_invI [OF assms]) (auto simp: worker_step_def spin_unlock_def holds_def past_store_def)
next
  case W_done
  then show ?thesis using assms(1) by (simp add: worker_step_def)
qed

lemma worker_run_inv: "spin_inv n s \<Longrightarrow> (\<forall>m \<in> set ms. snd m < n) \<Longrightarrow> spin_inv n (worker_run ms s)"
  by (induction ms s rule: worker_run.induct) (auto simp: worker_step_inv)

lemma spin_start_inv: "spin_inv n spin_start"
  by (simp add: spin_inv_def spin_start_def count_pc_def holds_def past_store_def)

section \<open>The stack\<close>

text \<open>
  A node is a cell of the heap (its data and its link); a freed cell is \<open>None\<close> and may be handed out again
  by \<^verbatim>\<open>new\<close>.  The history lists the operations that took effect, in the order of their exchanges.
\<close>

type_synonym 'a node_heap = "nat \<Rightarrow> ('a \<times> nat option) option"

datatype 'a stack_pc =
    Idle
  | Push_link nat                     \<comment> \<open>\<^verbatim>\<open>new_node->next = head.load()\<close> is next\<close>
  | Push_cas nat                      \<comment> \<open>the exchange of \<^verbatim>\<open>push\<close> is next\<close>
  | Pop_test "nat option"             \<comment> \<open>the test of \<^verbatim>\<open>old_head\<close> and the load of its link are next\<close>
  | Pop_cas nat "nat option"          \<comment> \<open>the exchange of \<^verbatim>\<open>pop\<close> is next\<close>
  | Pop_take nat                      \<comment> \<open>reading and deleting the old head is next\<close>

datatype 'a stack_event = Pushed 'a | Popped 'a | Found_empty

record 'a stack_state =
  heap :: "'a node_heap"
  top :: "nat option"
  s_pcs :: "nat \<Rightarrow> 'a stack_pc"
  history :: "'a stack_event list"

definition set_pc :: "nat \<Rightarrow> 'a stack_pc \<Rightarrow> 'a stack_state \<Rightarrow> 'a stack_state" where
  "set_pc t p s = s\<lparr>s_pcs := (s_pcs s)(t := p)\<rparr>"

definition record_event :: "'a stack_event \<Rightarrow> 'a stack_state \<Rightarrow> 'a stack_state" where
  "record_event e s = s\<lparr>history := history s @ [e]\<rparr>"

text \<open>\<^verbatim>\<open>push(data)\<close> begins with a new node.\<close>

definition push_call :: "nat \<Rightarrow> 'a \<Rightarrow> nat \<Rightarrow> 'a stack_state \<Rightarrow> 'a stack_state" where
  "push_call a v t s = set_pc t (Push_link a) (s\<lparr>heap := (heap s)(a \<mapsto> (v, None))\<rparr>)"

definition set_link :: "nat \<Rightarrow> nat option \<Rightarrow> 'a stack_state \<Rightarrow> 'a stack_state result" where
  "set_link a l s = (case heap s a of
     None \<Rightarrow> Inl Dangling
   | Some (v, _) \<Rightarrow> Inr (s\<lparr>heap := (heap s)(a \<mapsto> (v, l))\<rparr>))"

text \<open>\<^verbatim>\<open>pop\<close> begins with a load of the head; finding none is its effect on an empty stack.\<close>

definition pop_call :: "nat \<Rightarrow> 'a stack_state \<Rightarrow> 'a stack_state" where
  "pop_call t s = set_pc t (Pop_test (top s))
     (if top s = None then record_event Found_empty s else s)"

definition stack_move :: "bool \<Rightarrow> nat \<Rightarrow> 'a stack_state \<Rightarrow> 'a stack_state result" where
  "stack_move spurious t s =
     (case s_pcs s t of
        Idle \<Rightarrow> Inr s
      | Push_link a \<Rightarrow> rbind (set_link a (top s) s) (\<lambda>s1. Inr (set_pc t (Push_cas a) s1))
      | Push_cas a \<Rightarrow>
          (case heap s a of
             None \<Rightarrow> Inl Dangling
           | Some (v, l) \<Rightarrow>
               if top s = l \<and> \<not> spurious
               then Inr (set_pc t Idle (record_event (Pushed v) (s\<lparr>top := Some a\<rparr>)))
               else set_link a (top s) s)
      | Pop_test None \<Rightarrow> Inr (set_pc t Idle s)
      | Pop_test (Some a) \<Rightarrow>
          (case heap s a of
             None \<Rightarrow> Inl Dangling
           | Some (v, l) \<Rightarrow> Inr (set_pc t (Pop_cas a l) s))
      | Pop_cas a l \<Rightarrow>
          if top s = Some a \<and> \<not> spurious
          then (case heap s a of
                  None \<Rightarrow> Inr (set_pc t (Pop_take a) (s\<lparr>top := l\<rparr>))
                | Some (v, _) \<Rightarrow> Inr (set_pc t (Pop_take a) (record_event (Popped v) (s\<lparr>top := l\<rparr>))))
          else Inr (set_pc t (Pop_test (top s)) (if top s = None then record_event Found_empty s else s))
      | Pop_take a \<Rightarrow>
          (case heap s a of
             None \<Rightarrow> Inl Dangling
           | Some (v, _) \<Rightarrow> Inr (set_pc t Idle (s\<lparr>heap := (heap s)(a := None)\<rparr>))))"

definition stack_start :: "'a stack_state" where
  "stack_start = \<lparr>heap = (\<lambda>_. None), top = None, s_pcs = (\<lambda>_. Idle), history = []\<rparr>"

text \<open>The threads of \<open>poppers\<close> may call \<^verbatim>\<open>pop\<close>, every thread may call \<^verbatim>\<open>push\<close>.\<close>

inductive stack_step :: "nat set \<Rightarrow> 'a stack_state result \<Rightarrow> 'a stack_state result \<Rightarrow> bool" for poppers where
  call_push: "s_pcs s t = Idle \<Longrightarrow> heap s a = None \<Longrightarrow> stack_step poppers (Inr s) (Inr (push_call a v t s))"
| call_pop: "s_pcs s t = Idle \<Longrightarrow> t \<in> poppers \<Longrightarrow> stack_step poppers (Inr s) (Inr (pop_call t s))"
| move: "s_pcs s t \<noteq> Idle \<Longrightarrow> stack_step poppers (Inr s) (stack_move spurious t s)"

inductive stack_reachable :: "nat set \<Rightarrow> 'a stack_state result \<Rightarrow> bool" for poppers where
  stack_init: "stack_reachable poppers (Inr stack_start)"
| stack_next: "stack_reachable poppers r \<Longrightarrow> stack_step poppers r r' \<Longrightarrow> stack_reachable poppers r'"

text \<open>The stack a history describes; a history that pops something else than the top describes none.\<close>

fun replay :: "'a stack_event list \<Rightarrow> 'a list \<Rightarrow> 'a list option" where
  "replay [] xs = Some xs"
| "replay (Pushed v # es) xs = replay es (v # xs)"
| "replay (Popped v # es) xs = (case xs of [] \<Rightarrow> None | x # xs' \<Rightarrow> if x = v then replay es xs' else None)"
| "replay (Found_empty # es) xs = (if xs = [] then replay es xs else None)"

lemma replay_append: "replay (es @ fs) xs = (case replay es xs of None \<Rightarrow> None | Some ys \<Rightarrow> replay fs ys)"
  by (induction es xs rule: replay.induct) (auto split: list.splits)

fun chain :: "'a node_heap \<Rightarrow> nat option \<Rightarrow> nat list \<Rightarrow> 'a list \<Rightarrow> bool" where
  "chain h p [] vs \<longleftrightarrow> p = None \<and> vs = []"
| "chain h p (a # as) vs \<longleftrightarrow> p = Some a \<and> (\<exists>v l vs'. vs = v # vs' \<and> h a = Some (v, l) \<and> chain h l as vs')"

lemma chain_frame: "a \<notin> set as \<Longrightarrow> chain (h(a := x)) p as vs = chain h p as vs"
  by (induction as arbitrary: p vs) auto

lemma chain_alive: "chain h p as vs \<Longrightarrow> a \<in> set as \<Longrightarrow> h a \<noteq> None"
  by (induction as arbitrary: p vs) auto

text \<open>The node a thread owns, and the node a popping thread looks at\<close>

fun owned :: "'a stack_pc \<Rightarrow> nat option" where
  "owned (Push_link a) = Some a"
| "owned (Push_cas a) = Some a"
| "owned (Pop_take a) = Some a"
| "owned _ = None"

definition popping :: "'a stack_pc \<Rightarrow> bool" where
  "popping p \<longleftrightarrow> (\<exists>q. p = Pop_test q) \<or> (\<exists>a l. p = Pop_cas a l) \<or> (\<exists>a. p = Pop_take a)"

definition stack_inv :: "nat \<Rightarrow> 'a stack_state \<Rightarrow> nat list \<Rightarrow> 'a list \<Rightarrow> bool" where
  "stack_inv c s as vs \<longleftrightarrow>
     distinct as \<and> chain (heap s) (top s) as vs \<and> replay (history s) [] = Some vs
   \<and> (\<forall>t a. owned (s_pcs s t) = Some a \<longrightarrow> a \<notin> set as \<and> heap s a \<noteq> None)
   \<and> (\<forall>t u a. owned (s_pcs s t) = Some a \<longrightarrow> owned (s_pcs s u) = Some a \<longrightarrow> t = u)
   \<and> (\<forall>t. popping (s_pcs s t) \<longrightarrow> t = c)
   \<and> (\<forall>a. s_pcs s c = Pop_test (Some a) \<longrightarrow> a \<in> set as)
   \<and> (\<forall>a l. s_pcs s c = Pop_cas a l \<longrightarrow> a \<in> set as \<and> (\<exists>v. heap s a = Some (v, l)))"

lemma stack_invD:
  assumes "stack_inv c s as vs"
  shows "distinct as" "chain (heap s) (top s) as vs" "replay (history s) [] = Some vs"
    "owned (s_pcs s t) = Some a \<Longrightarrow> a \<notin> set as" "owned (s_pcs s t) = Some a \<Longrightarrow> heap s a \<noteq> None"
    "owned (s_pcs s t) = Some a \<Longrightarrow> owned (s_pcs s u) = Some a \<Longrightarrow> t = u"
    "popping (s_pcs s t) \<Longrightarrow> t = c"
    "s_pcs s c = Pop_test (Some a) \<Longrightarrow> a \<in> set as"
    "s_pcs s c = Pop_cas a l \<Longrightarrow> a \<in> set as \<and> (\<exists>v. heap s a = Some (v, l))"
  using assms unfolding stack_inv_def by blast+

text \<open>One step changes the program counter of one thread and at most the cell that thread owns.\<close>

lemma stack_invI:
  assumes inv: "stack_inv c s as vs" and pcs: "s_pcs s' = (s_pcs s)(t := p)"
    and "distinct as'" "chain (heap s') (top s') as' vs'" "replay (history s') [] = Some vs'"
    and heap: "\<And>a. owned (s_pcs s t) \<noteq> Some a \<Longrightarrow> heap s a \<noteq> None \<Longrightarrow> heap s' a = heap s a"
    and own: "\<And>a. owned p = Some a \<Longrightarrow> a \<notin> set as' \<and> heap s' a \<noteq> None \<and> (owned (s_pcs s t) = Some a \<or> heap s a = None \<or> a \<in> set as)"
    and sub: "\<And>a. a \<in> set as' \<Longrightarrow> a \<in> set as \<or> owned (s_pcs s t) = Some a"
    and pop: "popping p \<Longrightarrow> t = c"
    and test: "t = c \<Longrightarrow> (\<forall>a. p = Pop_test (Some a) \<longrightarrow> a \<in> set as') \<and> (\<forall>a l. p = Pop_cas a l \<longrightarrow> a \<in> set as' \<and> (\<exists>v. heap s' a = Some (v, l)))"
    and keep: "t \<noteq> c \<Longrightarrow> set as \<subseteq> set as'"
  shows "stack_inv c s' as' vs'"
proof -
  note D = stack_invD [OF inv]
  have other: "a \<notin> set as' \<and> heap s' a \<noteq> None \<and> owned p \<noteq> Some a \<and> owned (s_pcs s t) \<noteq> Some a"
    if "u \<noteq> t" "owned (s_pcs s u) = Some a" for u a
  proof -
    have "owned (s_pcs s t) \<noteq> Some a" using D(6) [of t a u] that by blast
    moreover have "a \<notin> set as" "heap s a \<noteq> None" using D(4,5) that(2) by blast+
    ultimately show ?thesis using heap [of a] own [of a] sub [of a] by auto
  qed
  have "a \<notin> set as' \<and> heap s' a \<noteq> None" if "owned (s_pcs s' u) = Some a" for u a
    using that other [of u a] own [of a] by (cases "u = t") (auto simp: pcs)
  moreover have "u = w" if "owned (s_pcs s' u) = Some a" "owned (s_pcs s' w) = Some a" for u w a
  proof (cases "u = t \<or> w = t")
    case True
    then show ?thesis using that other [of u a] other [of w a] unfolding pcs by (metis fun_upd_apply)
  next
    case False
    then have "owned (s_pcs s u) = Some a" "owned (s_pcs s w) = Some a" using that by (simp_all add: pcs)
    then show ?thesis by (rule D(6))
  qed
  moreover have "u = c" if "popping (s_pcs s' u)" for u
    using that pop D(7) [of u] by (cases "u = t") (auto simp: pcs)
  moreover have "a \<in> set as'" if "s_pcs s' c = Pop_test (Some a)" for a
    using that test keep D(8) [of a] by (cases "t = c") (auto simp: pcs)
  moreover have "a \<in> set as' \<and> (\<exists>v. heap s' a = Some (v, l))" if "s_pcs s' c = Pop_cas a l" for a l
  proof (cases "t = c")
    case True
    then show ?thesis using that test by (simp add: pcs)
  next
    case False
    then have "a \<in> set as \<and> (\<exists>v. heap s a = Some (v, l))" using that D(9) by (simp add: pcs)
    moreover have "owned (s_pcs s t) \<noteq> Some a" using D(4) [of t a] calculation by blast
    ultimately show ?thesis using heap [of a] keep [OF False] by auto
  qed
  ultimately show ?thesis using assms(3-5) unfolding stack_inv_def by blast
qed

lemma push_call_inv:
  assumes "stack_inv c s as vs" "s_pcs s t = Idle" "heap s a = None"
  shows "stack_inv c (push_call a v t s) as vs"
proof -
  note D = stack_invD [OF assms(1)]
  have "a \<notin> set as" using chain_alive [OF D(2)] assms(3) by blast
  then show ?thesis
    using D(1-3) assms(2,3)
    by (intro stack_invI [OF assms(1), where t = t and p = "Push_link a"])
      (auto simp: push_call_def set_pc_def chain_frame popping_def)
qed

lemma top_in_chain: "chain h p as vs \<Longrightarrow> (p = None \<longrightarrow> as = [] \<and> vs = []) \<and> (\<forall>a. p = Some a \<longrightarrow> a \<in> set as)"
  by (cases as) auto

lemma pop_look_inv:
  assumes "stack_inv c s as vs" "owned (s_pcs s c) = None"
  shows "stack_inv c (set_pc c (Pop_test (top s)) (if top s = None then record_event Found_empty s else s)) as vs"
proof -
  note D = stack_invD [OF assms(1)]
  show ?thesis
    using D(1-3) assms(2) top_in_chain [OF D(2)]
    by (intro stack_invI [OF assms(1), where t = c and p = "Pop_test (top s)"])
      (auto simp: set_pc_def record_event_def replay_append)
qed

lemma set_link_owned:
  assumes "stack_inv c s as vs" "owned (s_pcs s t) = Some a"
  shows "\<exists>v l0. heap s a = Some (v, l0) \<and> set_link a l s = Inr (s\<lparr>heap := (heap s)(a \<mapsto> (v, l))\<rparr>)"
  using stack_invD(5) [OF assms] by (auto simp: set_link_def)

lemma stack_move_inv:
  assumes "stack_inv c s as vs" "s_pcs s t \<noteq> Idle"
  shows "\<exists>s' as' vs'. stack_move b t s = Inr s' \<and> stack_inv c s' as' vs'"
proof (cases "s_pcs s t")
  case Idle
  then show ?thesis using assms(2) by simp
next
  case (Push_link a)
  note D = stack_invD [OF assms(1)]
  have o: "owned (s_pcs s t) = Some a" using Push_link by simp
  obtain v l0 where h: "heap s a = Some (v, l0)" "set_link a (top s) s = Inr (s\<lparr>heap := (heap s)(a \<mapsto> (v, top s))\<rparr>)"
    using set_link_owned [OF assms(1) o] by blast
  let ?s = "set_pc t (Push_cas a) (s\<lparr>heap := (heap s)(a \<mapsto> (v, top s))\<rparr>)"
  have "stack_inv c ?s as vs"
    using D(1-3) D(4) [OF o] o
    by (intro stack_invI [OF assms(1), where t = t and p = "Push_cas a"])
      (auto simp: set_pc_def chain_frame popping_def)
  then show ?thesis using Push_link h by (simp add: stack_move_def) blast
next
  case (Push_cas a)
  note D = stack_invD [OF assms(1)]
  have o: "owned (s_pcs s t) = Some a" using Push_cas by simp
  obtain v l where h: "heap s a = Some (v, l)" using D(5) [OF o] by auto
  show ?thesis
  proof (cases "top s = l \<and> \<not> b")
    case True
    let ?s = "set_pc t Idle (record_event (Pushed v) (s\<lparr>top := Some a\<rparr>))"
    have "stack_inv c ?s (a # as) (v # vs)"
      using D(1-3) D(4) [OF o] o h True D(8,9)
      by (intro stack_invI [OF assms(1), where t = t and p = Idle])
        (auto simp: set_pc_def record_event_def replay_append popping_def)
    then show ?thesis using Push_cas h True by (simp add: stack_move_def) blast
  next
    case False
    have "stack_inv c (s\<lparr>heap := (heap s)(a \<mapsto> (v, top s))\<rparr>) as vs"
      using D(1-3) D(4) [OF o] o Push_cas
      by (intro stack_invI [OF assms(1), where t = t and p = "Push_cas a"])
        (auto simp: chain_frame popping_def fun_upd_idem_iff)
    then show ?thesis using Push_cas h False by (simp add: stack_move_def set_link_def) blast
  qed
next
  case (Pop_test q)
  note D = stack_invD [OF assms(1)]
  have c: "t = c" using D(7) [of t] Pop_test by (auto simp: popping_def)
  show ?thesis
  proof (cases q)
    case None
    have "stack_inv c (set_pc t Idle s) as vs"
      using D(1-3) Pop_test
      by (intro stack_invI [OF assms(1), where t = t and p = Idle]) (auto simp: set_pc_def popping_def c)
    then show ?thesis using Pop_test None by (simp add: stack_move_def) blast
  next
    case (Some a)
    have a: "a \<in> set as" using D(8) [of a] Pop_test Some c by simp
    then obtain v l where h: "heap s a = Some (v, l)" using chain_alive [OF D(2) a] by auto
    have "stack_inv c (set_pc t (Pop_cas a l) s) as vs"
      using D(1-3) Pop_test a h
      by (intro stack_invI [OF assms(1), where t = t and p = "Pop_cas a l"]) (auto simp: set_pc_def c)
    then show ?thesis using Pop_test Some h by (simp add: stack_move_def) blast
  qed
next
  case (Pop_cas a l)
  note D = stack_invD [OF assms(1)]
  have c: "t = c" using D(7) [of t] Pop_cas by (auto simp: popping_def)
  obtain v where a: "a \<in> set as" "heap s a = Some (v, l)" using D(9) [of a l] Pop_cas c by auto
  show ?thesis
  proof (cases "top s = Some a \<and> \<not> b")
    case True
    obtain as' vs' where r: "as = a # as'" "vs = v # vs'" "chain (heap s) l as' vs'"
      using D(2) True a(2) by (cases as) auto
    let ?s = "set_pc t (Pop_take a) (record_event (Popped v) (s\<lparr>top := l\<rparr>))"
    have "stack_inv c ?s as' vs'"
      using D(1-3) r Pop_cas a(2)
      by (intro stack_invI [OF assms(1), where t = t and p = "Pop_take a"])
        (auto simp: set_pc_def record_event_def replay_append c)
    then show ?thesis using Pop_cas True a(2) by (simp add: stack_move_def) blast
  next
    case False
    then have "stack_move b t s = Inr (set_pc c (Pop_test (top s)) (if top s = None then record_event Found_empty s else s))"
      using Pop_cas c by (auto simp: stack_move_def)
    moreover have "owned (s_pcs s c) = None" using Pop_cas c by simp
    ultimately show ?thesis using pop_look_inv [OF assms(1)] by blast
  qed
next
  case (Pop_take a)
  note D = stack_invD [OF assms(1)]
  have o: "owned (s_pcs s t) = Some a" using Pop_take by simp
  have c: "t = c" using D(7) [of t] Pop_take by (auto simp: popping_def)
  obtain v l where h: "heap s a = Some (v, l)" using D(5) [OF o] by auto
  have "stack_inv c (set_pc t Idle (s\<lparr>heap := (heap s)(a := None)\<rparr>)) as vs"
    using D(1-3) D(4) [OF o] o
    by (intro stack_invI [OF assms(1), where t = t and p = Idle]) (auto simp: set_pc_def chain_frame popping_def c)
  then show ?thesis using Pop_take h by (simp add: stack_move_def) blast
qed

lemma stack_reachable_inv:
  "stack_reachable {c} r \<Longrightarrow> \<exists>s as vs. r = Inr s \<and> stack_inv c s as vs"
proof (induction rule: stack_reachable.induct)
  case stack_init
  show ?case by (auto simp: stack_inv_def stack_start_def popping_def intro!: exI [of _ "[]"])
next
  case (stack_next r r')
  obtain s as vs where s: "r = Inr s" "stack_inv c s as vs" using stack_next.IH by blast
  from stack_next.hyps(2) show ?case
    unfolding s(1)
  proof (cases rule: stack_step.cases)
    case (call_push t a v)
    then show ?thesis using push_call_inv [OF s(2)] by blast
  next
    case (call_pop t)
    then have "owned (s_pcs s c) = None" "r' = Inr (pop_call c s)" by simp_all
    then show ?thesis using pop_look_inv [OF s(2)] unfolding pop_call_def by blast
  next
    case (move t b)
    then show ?thesis using stack_move_inv [OF s(2)] by blast
  qed
qed

section \<open>Properties\<close>

text \<open>C33: With any number of pushing threads and one popping thread, in every interleaving and with every
  spurious failure, the lock-free stack never touches freed memory and is a stack: the operations that
  took effect, in the order of their exchanges, pop what the stack they built had on top, find it empty
  only when it is, and leave exactly the values that are linked from the head.\<close>

theorem single_consumer_stack_is_correct:
  assumes "stack_reachable {c} r"
  shows "\<exists>s as vs. r = Inr s \<and> replay (history s) [] = Some vs \<and> chain (heap s) (top s) as vs \<and> distinct as"
  using stack_reachable_inv [OF assms] by (auto dest: stack_invD(1-3))

lemma reach_push:
  "stack_reachable P (Inr s) \<Longrightarrow> s_pcs s t = Idle \<Longrightarrow> heap s a = None \<Longrightarrow> stack_reachable P (Inr (push_call a v t s))"
  by (rule stack_next [OF _ call_push])

lemma reach_pop:
  "stack_reachable P (Inr s) \<Longrightarrow> s_pcs s t = Idle \<Longrightarrow> t \<in> P \<Longrightarrow> stack_reachable P (Inr (pop_call t s))"
  by (rule stack_next [OF _ call_pop])

lemma reach_move:
  "stack_reachable P (Inr s) \<Longrightarrow> s_pcs s t \<noteq> Idle \<Longrightarrow> stack_move False t s = r \<Longrightarrow> stack_reachable P r"
  using stack_next [OF _ move] by blast

lemmas stack_defs = push_call_def pop_call_def stack_move_def set_pc_def set_link_def record_event_def stack_start_def

text \<open>One value pushed by thread 0\<close>

definition pushed_one :: "int stack_state" where
  "pushed_one = \<lparr>heap = [0 \<mapsto> (7, None)], top = Some 0, s_pcs = (\<lambda>_. Idle), history = [Pushed 7]\<rparr>"

lemma pushed_one_reachable: "stack_reachable P (Inr pushed_one)"
proof -
  have 1: "stack_reachable P (Inr (push_call 0 (7::int) 0 stack_start))"
    by (rule reach_push [OF stack_init]) (simp_all add: stack_start_def)
  have 2: "stack_reachable P (Inr (set_pc 0 (Push_cas 0) (push_call 0 (7::int) 0 stack_start)))"
    by (rule reach_move [OF 1, of 0]) (simp_all add: stack_defs)
  show ?thesis
    by (rule reach_move [OF 2, of 0]) (auto simp: stack_defs pushed_one_def fun_eq_iff)
qed

theorem single_consumer_stack_is_correct_witness:
  "\<exists>as vs. replay (history pushed_one) [] = Some vs \<and> chain (heap pushed_one) (top pushed_one) as vs"
  using single_consumer_stack_is_correct [OF pushed_one_reachable [of "{0}"]] by auto

text \<open>With two popping threads the stack uses freed memory: a thread that has loaded the head is overtaken by
  another one that pops and deletes the node, and then loads the link of the deleted node.\<close>

theorem two_consumers_use_freed_node:
  "stack_reachable {0, 1} (Inl Dangling :: int stack_state result)"
proof -
  let ?s1 = "pushed_one\<lparr>s_pcs := (\<lambda>_. Idle)(0 := Pop_test (Some 0))\<rparr>"
  let ?s2 = "pushed_one\<lparr>s_pcs := (\<lambda>_. Idle)(0 := Pop_test (Some 0), 1 := Pop_test (Some 0))\<rparr>"
  let ?s3 = "pushed_one\<lparr>s_pcs := (\<lambda>_. Idle)(0 := Pop_test (Some 0), 1 := Pop_cas 0 None)\<rparr>"
  let ?s4 = "pushed_one\<lparr>s_pcs := (\<lambda>_. Idle)(0 := Pop_test (Some 0), 1 := Pop_take 0), top := None, history := [Pushed 7, Popped 7]\<rparr>"
  let ?s5 = "?s4\<lparr>s_pcs := (\<lambda>_. Idle)(0 := Pop_test (Some 0), 1 := Idle), heap := (\<lambda>_. None)\<rparr>"
  have 1: "stack_reachable {0, 1} (Inr ?s1)"
    using reach_pop [OF pushed_one_reachable, of 0 "{0, 1}"] by (simp add: stack_defs pushed_one_def)
  have 2: "stack_reachable {0, 1} (Inr ?s2)"
    using reach_pop [OF 1, of 1] by (simp add: stack_defs pushed_one_def)
  have 3: "stack_reachable {0, 1} (Inr ?s3)"
    by (rule reach_move [OF 2, of 1]) (simp_all add: stack_defs pushed_one_def)
  have 4: "stack_reachable {0, 1} (Inr ?s4)"
    by (rule reach_move [OF 3, of 1]) (simp_all add: stack_defs pushed_one_def)
  have 5: "stack_reachable {0, 1} (Inr ?s5)"
    by (rule reach_move [OF 4, of 1]) (simp_all add: stack_defs pushed_one_def fun_upd_idem_iff)
  show ?thesis
    by (rule reach_move [OF 5, of 0]) (simp_all add: stack_defs pushed_one_def)
qed

text \<open>The spin lock excludes: in every interleaving at most one worker is between lock and unlock, the lock is
  taken while one is there, and no increment of the shared variable is lost; when all workers are done, it
  is their number.\<close>

theorem spin_lock_protects_increments:
  assumes "\<forall>m \<in> set ms. snd m < n"
  defines "s \<equiv> worker_run ms spin_start"
  shows "(\<forall>t < n. \<forall>u < n. holds (w_pcs s t) \<longrightarrow> holds (w_pcs s u) \<longrightarrow> t = u)
    \<and> (\<forall>t < n. holds (w_pcs s t) \<longrightarrow> locked s)
    \<and> shared_data s = int (count_pc n past_store (w_pcs s))
    \<and> ((\<forall>t < n. w_pcs s t = W_done) \<longrightarrow> shared_data s = int n)"
proof -
  have inv: "spin_inv n s" unfolding s_def by (rule worker_run_inv [OF spin_start_inv assms(1)])
  moreover have "count_pc n past_store (w_pcs s) = n" if "\<forall>t < n. w_pcs s t = W_done"
    unfolding count_pc_all using that by (simp add: past_store_def)
  ultimately show ?thesis using spin_invD(4) [OF inv] unfolding spin_inv_def by auto
qed

theorem spin_lock_protects_increments_witness:
  "shared_data (worker_run [(False, 0), (False, 1), (False, 0), (False, 0), (False, 0), (True, 1), (False, 1),
     (False, 1), (False, 1), (False, 1)] spin_start) = 2"
  using spin_lock_protects_increments [of "[(False, 0), (False, 1), (False, 0), (False, 0), (False, 0), (True, 1), (False, 1),
     (False, 1), (False, 1), (False, 1)]" 2]
  by (simp add: worker_step_def spin_start_def spin_lock_def spin_unlock_def less_Suc_eq numeral_2_eq_2)

text \<open>The counter counts: after any schedule it is the number of threads that finished, and when all have
  finished, their number; no increment is lost, however the exchanges fail.\<close>

theorem counter_counts_threads:
  assumes "\<forall>m \<in> set ms. snd m < n"
  defines "s \<equiv> counter_run ms counter_start"
  shows "counter s = int (count_pc n (\<lambda>p. p = C_done) (c_pcs s))
    \<and> ((\<forall>t < n. c_pcs s t = C_done) \<longrightarrow> counter s = int n)"
proof -
  have inv: "counter_inv n s" unfolding s_def by (rule counter_run_inv [OF counter_start_inv assms(1)])
  then show ?thesis using count_pc_all [of n "\<lambda>p. p = C_done" "c_pcs s"] by (simp add: counter_inv_def)
qed

theorem counter_counts_threads_witness:
  "counter (counter_run [(False, 0), (False, 1), (False, 1), (False, 0), (False, 0), (False, 0)] counter_start) = 2"
  using counter_counts_threads [of "[(False, 0), (False, 1), (False, 1), (False, 0), (False, 0), (False, 0)]" 2]
  by (simp add: counter_step_def counter_start_def less_Suc_eq numeral_2_eq_2)

end
