(* ===== verification/StackPrograms.thy ===== *)
theory StackPrograms
  imports LockFree "HOL-Library.Multiset"
begin

text \<open>
  The programs that run the lock-free stack: \<^verbatim>\<open>simple_test\<close> and \<^verbatim>\<open>simple_test1\<close> of
  \<^verbatim>\<open>compare_exchange_weak_cpp\<close>, and the exercise \<^verbatim>\<open>atomic_no_lock_demo09.cpp\<close>, whose stack has the same statements
  with \<^verbatim>\<open>compare_exchange_strong\<close>, which does not fail without reason.

  A thread is the list of the operations it has still to do, and its operations are run by the machine of
  theory \<open>LockFree\<close>.  All threads are there from the start: one that the program starts later is one that does not
  move for a while.  The stack of the exercise has no constructor: under C++17, which the build file asks for, its
  head is indeterminate, under C++20 it is null.  \<open>head_set\<close> tells which; a step that uses a head nobody has set is
  \<open>Uninitialised\<close>.
\<close>

section \<open>Threads with a list of operations\<close>

datatype operation =
    Push_Op int
  | Pop_Op                 \<comment> \<open>one call of \<^verbatim>\<open>pop\<close>\<close>
  | Pop_Until              \<comment> \<open>calls of \<^verbatim>\<open>pop\<close> until one succeeds\<close>
  | Pop_All                \<comment> \<open>\<^verbatim>\<open>while (pop(value))\<close>, also the destructor\<close>
  | Join_Op nat

record program =
  stk :: "int stack_state"
  head_set :: bool                   \<comment> \<open>\<^verbatim>\<open>head\<close> has been initialised\<close>
  scripts :: "nat \<Rightarrow> operation list"
  results :: "(nat \<times> int) list"      \<comment> \<open>the values popped, each with its thread\<close>

fun after :: "operation \<Rightarrow> bool \<Rightarrow> operation list \<Rightarrow> operation list" where
  "after Pop_Until success rest = (if success then rest else Pop_Until # rest)"
| "after Pop_All success rest = (if success then Pop_All # rest else rest)"
| "after _ success rest = rest"

definition call_op :: "nat \<Rightarrow> nat \<Rightarrow> program \<Rightarrow> operation \<Rightarrow> operation list \<Rightarrow> program option" where
  "call_op a t p op rest = (case op of
     Push_Op v \<Rightarrow> if heap (stk p) a = None then Some (p\<lparr>stk := push_call a v t (stk p)\<rparr>) else None
   | Join_Op u \<Rightarrow> if scripts p u = [] then Some (p\<lparr>scripts := (scripts p)(t := rest)\<rparr>) else None
   | _ \<Rightarrow> Some (p\<lparr>stk := pop_call t (stk p)\<rparr>))"

fun taken :: "int stack_pc \<Rightarrow> int node_heap \<Rightarrow> int option" where
  "taken (Pop_take a) h = map_option fst (h a)"
| "taken _ h = None"

definition move_op :: "bool \<Rightarrow> nat \<Rightarrow> program \<Rightarrow> operation \<Rightarrow> operation list \<Rightarrow> program result" where
  "move_op spurious t p op rest = rbind (stack_move spurious t (stk p)) (\<lambda>s. Inr
     (if s_pcs s t \<noteq> Idle then p\<lparr>stk := s\<rparr>
      else (case taken (s_pcs (stk p) t) (heap (stk p)) of
              None \<Rightarrow> p\<lparr>stk := s, scripts := (scripts p)(t := after op False rest)\<rparr>
            | Some v \<Rightarrow> p\<lparr>stk := s, scripts := (scripts p)(t := after op True rest), results := results p @ [(t, v)]\<rparr>)))"

text \<open>A push that begins makes its node first, and every later statement of \<open>push\<close> works on the head; a pop begins
  with a load of the head.\<close>

fun uses_head :: "int stack_pc \<Rightarrow> operation \<Rightarrow> bool" where
  "uses_head Idle (Push_Op v) = False"
| "uses_head Idle (Join_Op u) = False"
| "uses_head _ _ = True"

definition thread_step :: "bool \<Rightarrow> nat \<Rightarrow> nat \<Rightarrow> program \<Rightarrow> program result option" where
  "thread_step spurious a t p = (case scripts p t of
     [] \<Rightarrow> None
   | op # rest \<Rightarrow>
       if \<not> head_set p \<and> uses_head (s_pcs (stk p) t) op then Some (Inl Uninitialised)
       else if s_pcs (stk p) t = Idle then map_option Inr (call_op a t p op rest)
       else Some (move_op spurious t p op rest))"

lemma thread_step_set:
  "head_set p \<Longrightarrow> thread_step spurious a t p = (case scripts p t of
     [] \<Rightarrow> None
   | op # rest \<Rightarrow> if s_pcs (stk p) t = Idle then map_option Inr (call_op a t p op rest)
                 else Some (move_op spurious t p op rest))"
  by (simp add: thread_step_def split: list.split)

lemma thread_step_head: "thread_step spurious a t p = Some (Inr p') \<Longrightarrow> head_set p' = head_set p"
  by (auto simp: thread_step_def call_op_def move_op_def rbind_def split: list.splits if_splits operation.splits sum.splits option.splits)

text \<open>\<open>weak\<close> tells which exchange the program uses.\<close>

inductive prog_step :: "bool \<Rightarrow> program result \<Rightarrow> program result \<Rightarrow> bool" for weak where
  thread: "thread_step spurious a t p = Some r \<Longrightarrow> (spurious \<longrightarrow> weak) \<Longrightarrow> prog_step weak (Inr p) r"

definition load_program :: "(nat \<Rightarrow> operation list) \<Rightarrow> program" where
  "load_program f = \<lparr>stk = stack_start, head_set = True, scripts = f, results = []\<rparr>"

fun run_prog :: "(nat \<times> nat) list \<Rightarrow> program \<Rightarrow> program result option" where
  "run_prog [] p = Some (Inr p)"
| "run_prog ((t, a) # ms) p = (case thread_step False a t p of
     None \<Rightarrow> None
   | Some (Inl e) \<Rightarrow> if ms = [] then Some (Inl e) else None
   | Some (Inr p') \<Rightarrow> run_prog ms p')"

lemma run_prog_reaches: "run_prog ms p = Some r \<Longrightarrow> (prog_step weak ^^ length ms) (Inr p) r"
proof (induction ms p rule: run_prog.induct)
  case (2 t a ms p)
  from 2(2) obtain q where q: "thread_step False a t p = Some q" by (auto split: option.splits)
  have s: "prog_step weak (Inr p) q" by (rule prog_step.thread [OF q]) simp
  show ?case
  proof (cases q)
    case (Inl e)
    then have "ms = []" "r = Inl e" using 2(2) q by (auto split: if_splits)
    then show ?thesis using s Inl by auto
  next
    case (Inr p')
    then have "(prog_step weak ^^ length ms) (Inr p') r" using 2 q by simp
    then show ?thesis using s Inr by (simp add: relpowp_Suc_I2 del: relpowp.simps)
  qed
qed simp

section \<open>The programs\<close>

definition producer :: "int \<Rightarrow> nat \<Rightarrow> operation list" where
  "producer thread_id num_operations = map (\<lambda>i. Push_Op (thread_id * 100 + int i)) [0..<num_operations]"

definition consumer :: "nat \<Rightarrow> operation list" where
  "consumer num_operations = replicate num_operations Pop_Until"

text \<open>Producers are the threads 0 to 2, consumers 3 and 4; the last \<open>Pop_All\<close> is the destructor.\<close>

definition simple_test1 :: program where
  "simple_test1 = load_program (\<lambda>t.
     if t < 3 then producer (int t + 1) 5
     else if t < 5 then consumer 5
     else if t = 5 then map Join_Op [0..<5] @ [Push_Op 999, Push_Op 888, Push_Op 777, Pop_All, Pop_Op, Pop_All]
     else [])"

definition simple_test :: program where
  "simple_test = load_program (\<lambda>t.
     if t < 4 then concat (map (\<lambda>j. [Push_Op (int t * 10 + int j), Pop_Op]) [0..<3])
     else if t = 4 then map Join_Op [0..<4] @ [Pop_All]
     else [])"

text \<open>The exercise with \<open>n\<close> threads; the program has ten.  \<open>init\<close> tells whether the head is initialised.\<close>

definition demo_main :: "bool \<Rightarrow> nat \<Rightarrow> program" where
  "demo_main init n = (load_program (\<lambda>t.
     if t < n then [Push_Op (int t)]
     else if t = n then map Join_Op [0..<n] @ [Pop_All]
     else []))\<lparr>head_set := init\<rparr>"

lemmas prog_defs = thread_step_def call_op_def move_op_def load_program_def stack_defs

text \<open>Both tests can use freed memory.\<close>

theorem tests_use_freed_memory:
  "(prog_step weak)\<^sup>*\<^sup>* (Inr simple_test) (Inl Dangling) \<and> (prog_step weak)\<^sup>*\<^sup>* (Inr simple_test1) (Inl Dangling)"
proof
  have "run_prog [(0, 0), (0, 0), (0, 0), (1, 1), (1, 1), (1, 1), (0, 0), (1, 0), (1, 0), (1, 0), (1, 0), (0, 0)] simple_test
    = Some (Inl Dangling)"
    by (simp add: simple_test_def prog_defs upt_rec)
  from run_prog_reaches [OF this] show "(prog_step weak)\<^sup>*\<^sup>* (Inr simple_test) (Inl Dangling)"
    by (rule relpowp_imp_rtranclp)
next
  have "run_prog [(0, 0), (0, 0), (0, 0), (3, 0), (4, 0), (4, 0), (4, 0), (4, 0), (3, 0)] simple_test1 = Some (Inl Dangling)"
    by (simp add: simple_test1_def producer_def consumer_def prog_defs upt_rec numeral_eq_Suc)
  from run_prog_reaches [OF this] show "(prog_step weak)\<^sup>*\<^sup>* (Inr simple_test1) (Inl Dangling)"
    by (rule relpowp_imp_rtranclp)
qed

section \<open>The exercise\<close>

lemma chain_unique: "chain h p as vs \<Longrightarrow> chain h p as' vs' \<Longrightarrow> as' = as \<and> vs' = vs"
proof (induction h p as vs arbitrary: as' vs' rule: chain.induct)
  case (1 h p vs)
  then show ?case by (cases as') auto
next
  case (2 h p a as vs)
  then show ?case by (cases as') auto
qed

definition finished :: "nat \<Rightarrow> program \<Rightarrow> nat set" where
  "finished n p = {t. t < n \<and> scripts p t = []}"

definition pusher_ok :: "nat \<Rightarrow> program \<Rightarrow> bool" where
  "pusher_ok t p \<longleftrightarrow> scripts p t = [] \<and> s_pcs (stk p) t = Idle \<or>
     scripts p t = [Push_Op (int t)] \<and> (s_pcs (stk p) t = Idle \<or>
       (\<exists>a l. (s_pcs (stk p) t = Push_link a \<or> s_pcs (stk p) t = Push_cas a) \<and> heap (stk p) a = Some (int t, l)))"

definition main_pops :: "int stack_state \<Rightarrow> int stack_pc \<Rightarrow> bool" where
  "main_pops s q \<longleftrightarrow> q = Pop_test (top s) \<or> (\<exists>a l. q = Pop_cas a l \<and> top s = Some a) \<or> (\<exists>a. q = Pop_take a)"

definition main_ok :: "nat \<Rightarrow> program \<Rightarrow> bool" where
  "main_ok n p \<longleftrightarrow>
     (\<exists>j \<le> n. scripts p n = map Join_Op [j..<n] @ [Pop_All] \<and> (\<forall>t < j. scripts p t = []) \<and> s_pcs (stk p) n = Idle) \<or>
     scripts p n = [Pop_All] \<and> (\<forall>t < n. scripts p t = []) \<and> main_pops (stk p) (s_pcs (stk p) n) \<or>
     scripts p n = [] \<and> (\<forall>t < n. scripts p t = []) \<and> s_pcs (stk p) n = Idle \<and> top (stk p) = None"

definition pending :: "nat \<Rightarrow> program \<Rightarrow> int list" where
  "pending n p = (case taken (s_pcs (stk p) n) (heap (stk p)) of None \<Rightarrow> [] | Some v \<Rightarrow> [v])"

text \<open>Nothing is lost: what the finished threads have pushed is in the stack, in the hands of the main
  thread, or popped, and the nodes alive are those of the stack and those a thread works on.\<close>

definition demo_inv :: "nat \<Rightarrow> program \<Rightarrow> nat list \<Rightarrow> int list \<Rightarrow> bool" where
  "demo_inv n p as vs \<longleftrightarrow> stack_inv n (stk p) as vs \<and>
     (\<forall>a. heap (stk p) a \<noteq> None \<longrightarrow> a \<in> set as \<or> (\<exists>t. owned (s_pcs (stk p) t) = Some a)) \<and>
     (\<forall>t < n. pusher_ok t p) \<and> (\<forall>t > n. scripts p t = [] \<and> s_pcs (stk p) t = Idle) \<and> main_ok n p \<and>
     (\<forall>x \<in> set (results p). fst x = n) \<and>
     mset vs + mset (map snd (results p)) + mset (pending n p) = image_mset int (mset_set (finished n p))"

text \<open>What is still to be done, counting what a push may cost the other threads\<close>

definition push_cost :: "nat \<Rightarrow> program \<Rightarrow> nat \<Rightarrow> nat" where
  "push_cost n p t = (if scripts p t = [] then 0 else (case s_pcs (stk p) t of
     Push_link a \<Rightarrow> n + 3
   | Push_cas a \<Rightarrow> n + (if map_option snd (heap (stk p) a) = Some (top (stk p)) then 1 else 2)
   | _ \<Rightarrow> n + 4))"

definition main_cost :: "nat \<Rightarrow> program \<Rightarrow> nat" where
  "main_cost n p = 2 * length (scripts p n) +
     (case s_pcs (stk p) n of Pop_test q \<Rightarrow> 3 | Pop_cas a l \<Rightarrow> 2 | Pop_take a \<Rightarrow> 5 | _ \<Rightarrow> 4)"

definition demo_cost :: "nat \<Rightarrow> program \<Rightarrow> int list \<Rightarrow> nat" where
  "demo_cost n p vs = (\<Sum>t < n. push_cost n p t) + main_cost n p + 4 * (length vs + (n - card (finished n p)))"

lemma demo_start: "demo_inv n (demo_main True n) [] []" "demo_cost n (demo_main True n) [] = n * n + 10 * n + 6"
proof -
  have f: "finished n (demo_main True n) = {}" by (auto simp: finished_def demo_main_def load_program_def)
  have "pusher_ok t (demo_main True n)" if "t < n" for t
    using that by (simp add: pusher_ok_def demo_main_def load_program_def stack_start_def)
  moreover have "main_ok n (demo_main True n)"
    unfolding main_ok_def by (rule disjI1) (auto simp: demo_main_def load_program_def stack_start_def)
  moreover have "stack_inv n (stk (demo_main True n)) [] []"
    by (simp add: stack_inv_def demo_main_def load_program_def stack_start_def popping_def)
  ultimately show "demo_inv n (demo_main True n) [] []"
    using f by (simp add: demo_inv_def pending_def demo_main_def load_program_def stack_start_def)
  have "(\<Sum>t < n. push_cost n (demo_main True n) t) = (\<Sum>t < n. n + 4)"
    by (rule sum.cong) (simp_all add: push_cost_def demo_main_def load_program_def stack_start_def)
  then show "demo_cost n (demo_main True n) [] = n * n + 10 * n + 6"
    by (simp add: demo_cost_def f main_cost_def) (simp add: demo_main_def load_program_def stack_start_def algebra_simps)
qed

subsection \<open>A push moves\<close>

lemma demo_invD:
  assumes "demo_inv n p as vs"
  shows "stack_inv n (stk p) as vs" "heap (stk p) a \<noteq> None \<Longrightarrow> a \<in> set as \<or> (\<exists>t. owned (s_pcs (stk p) t) = Some a)"
    "t < n \<Longrightarrow> pusher_ok t p" "n < t \<Longrightarrow> scripts p t = [] \<and> s_pcs (stk p) t = Idle" "main_ok n p" "x \<in> set (results p) \<Longrightarrow> fst x = n"
    "mset vs + mset (map snd (results p)) + mset (pending n p) = image_mset int (mset_set (finished n p))"
  using assms unfolding demo_inv_def by blast+

lemma main_joins:
  assumes "main_ok n p" "t < n" "scripts p t \<noteq> []"
  shows "\<exists>j \<le> n. scripts p n = map Join_Op [j..<n] @ [Pop_All] \<and> (\<forall>u < j. scripts p u = []) \<and> s_pcs (stk p) n = Idle"
  using assms unfolding main_ok_def by blast

lemma finished_fun: "finite (finished n p)" "card (finished n p) \<le> n" "t < n \<Longrightarrow> scripts p t \<noteq> [] \<Longrightarrow> card (finished n p) < n"
proof -
  show f: "finite (finished n p)" by (simp add: finished_def)
  have sub: "finished n p \<subseteq> {..<n}" by (auto simp: finished_def)
  then show "card (finished n p) \<le> n" using card_mono [OF _ sub] by simp
  show "card (finished n p) < n" if "t < n" "scripts p t \<noteq> []"
  proof -
    have "t \<notin> finished n p" using that by (simp add: finished_def)
    then have "finished n p \<subset> {..<n}" using sub that(1) by auto
    then show ?thesis using psubset_card_mono [of "{..<n}"] by simp
  qed
qed

lemma pusher_frame:
  assumes "pusher_ok u p" "s_pcs (stk p') u = s_pcs (stk p) u" "scripts p' u = scripts p u"
    "\<And>b. owned (s_pcs (stk p) u) = Some b \<Longrightarrow> heap (stk p') b = heap (stk p) b"
  shows "pusher_ok u p'"
  using assms unfolding pusher_ok_def by fastforce

lemma push_cost_frame:
  assumes "pusher_ok u p" "s_pcs (stk p') u = s_pcs (stk p) u" "scripts p' u = scripts p u"
    "\<And>b. owned (s_pcs (stk p) u) = Some b \<Longrightarrow> heap (stk p') b = heap (stk p) b"
  shows "push_cost n p' u \<le> push_cost n p u + 1" "top (stk p') = top (stk p) \<Longrightarrow> push_cost n p' u = push_cost n p u"
  using assms unfolding push_cost_def by (auto split: stack_pc.splits)

lemma push_keeps_inv:
  assumes inv: "demo_inv n p as vs" and t: "t < n" "scripts p t \<noteq> []"
    and p': "results p' = results p" "scripts p' = (scripts p)(t := x)" "s_pcs (stk p') = (s_pcs (stk p))(t := q)"
    and new: "stack_inv n (stk p') as' vs'" "pusher_ok t p'"
    and heap: "\<And>b. heap (stk p) b \<noteq> None \<Longrightarrow> owned (s_pcs (stk p) t) \<noteq> Some b \<Longrightarrow> heap (stk p') b = heap (stk p) b"
      "\<And>b. heap (stk p') b \<noteq> None \<Longrightarrow> heap (stk p) b \<noteq> None \<or> owned q = Some b"
    and nodes: "set as \<subseteq> set as'" "\<And>b. owned (s_pcs (stk p) t) = Some b \<Longrightarrow> owned q = Some b \<or> b \<in> set as'"
    and vs: "vs' = (if x = [] then int t # vs else vs)"
  shows "demo_inv n p' as' vs'"
proof -
  note D = demo_invD [OF inv]
  note S = stack_invD [OF D(1)]
  obtain j where j: "j \<le> n" "scripts p n = map Join_Op [j..<n] @ [Pop_All]" "\<forall>u < j. scripts p u = []" "s_pcs (stk p) n = Idle"
    using main_joins [OF D(5) t] by blast
  have "pusher_ok u p'" if "u < n" for u
  proof (cases "u = t")
    case False
    have "heap (stk p') b = heap (stk p) b" if "owned (s_pcs (stk p) u) = Some b" for b
      using heap(1) [of b] S(5) [OF that] S(6) [OF that, of t] False by blast
    then show ?thesis using pusher_frame [OF D(3) [OF \<open>u < n\<close>]] p' False by auto
  qed (use new(2) in simp)
  moreover have "main_ok n p'" unfolding main_ok_def using j p' t by (intro disjI1 exI [of _ j]) auto
  moreover have "b \<in> set as' \<or> (\<exists>u. owned (s_pcs (stk p') u) = Some b)" if h: "heap (stk p') b \<noteq> None" for b
  proof (cases "heap (stk p) b = None")
    case True
    then have "owned q = Some b" using heap(2) [OF h] by simp
    then show ?thesis using p'(3) by (intro disjI2 exI [of _ t]) simp
  next
    case False
    then consider "b \<in> set as" | u where "owned (s_pcs (stk p) u) = Some b" using D(2) by blast
    then show ?thesis
    proof cases
      case (2 u)
      then show ?thesis using p'(3) nodes(2) [of b] by (cases "u = t") (auto intro: exI [of _ t] exI [of _ u])
    qed (use nodes(1) in blast)
  qed
  moreover have "mset vs' + mset (map snd (results p')) + mset (pending n p') = image_mset int (mset_set (finished n p'))"
  proof -
    have "pending n p = []" "pending n p' = []" using j(4) p'(3) t(1) by (simp_all add: pending_def)
    moreover have "finished n p' = (if x = [] then insert t (finished n p) else finished n p)" "t \<notin> finished n p"
      using p'(2) t by (auto simp: finished_def)
    ultimately show ?thesis using D(7) finished_fun(1) [of n p] p'(1) vs by auto
  qed
  ultimately show ?thesis
    using D(4,6) new(1) p'(1-3) t(1) unfolding demo_inv_def by auto
qed

lemma sum_other_le:
  fixes f g :: "nat \<Rightarrow> nat"
  assumes "t < n" "\<And>u. u < n \<Longrightarrow> u \<noteq> t \<Longrightarrow> f u \<le> g u + d"
  shows "(\<Sum>u < n. f u) + g t \<le> (\<Sum>u < n. g u) + f t + (n - 1) * d"
proof -
  let ?A = "{..<n} - {t}"
  have a: "(\<Sum>u \<in> ?A. f u) \<le> (\<Sum>u \<in> ?A. g u + d)" using assms(2) by (intro sum_mono) auto
  have "(\<Sum>u \<in> ?A. g u + d) = (\<Sum>u \<in> ?A. g u) + (n - 1) * d" using assms(1) by (simp add: sum.distrib)
  then show ?thesis
    using a assms(1) sum.remove [of "{..<n}" t f] sum.remove [of "{..<n}" t g] by simp
qed

lemma push_lowers_cost:
  assumes inv: "demo_inv n p as vs" and t: "t < n" "scripts p t \<noteq> []"
    and p': "scripts p' = (scripts p)(t := x)" "s_pcs (stk p') = (s_pcs (stk p))(t := q)"
    and heap: "\<And>b. heap (stk p) b \<noteq> None \<Longrightarrow> owned (s_pcs (stk p) t) \<noteq> Some b \<Longrightarrow> heap (stk p') b = heap (stk p) b"
    and going: "x \<noteq> [] \<Longrightarrow> top (stk p') = top (stk p) \<and> push_cost n p' t < push_cost n p t"
    and ending: "x = [] \<Longrightarrow> push_cost n p t = n + 1"
    and vs: "vs' = (if x = [] then int t # vs else vs)"
  shows "demo_cost n p' vs' < demo_cost n p vs"
proof -
  note D = demo_invD [OF inv]
  note S = stack_invD [OF D(1)]
  have frame: "heap (stk p') b = heap (stk p) b" if "u \<noteq> t" "owned (s_pcs (stk p) u) = Some b" for u b
    using heap [of b] S(5) [OF that(2)] S(6) [OF that(2), of t] that(1) by blast
  have u: "push_cost n p' u \<le> push_cost n p u + 1" "top (stk p') = top (stk p) \<Longrightarrow> push_cost n p' u \<le> push_cost n p u"
    if "u < n" "u \<noteq> t" for u
    using push_cost_frame [OF D(3) [OF that(1)], of p' n] p' that(2) frame [OF that(2)] by auto
  have m: "main_cost n p' = main_cost n p" using p' t(1) by (simp add: main_cost_def)
  show ?thesis
  proof (cases "x = []")
    case True
    have "(\<Sum>u < n. push_cost n p' u) + push_cost n p t \<le> (\<Sum>u < n. push_cost n p u) + push_cost n p' t + (n - 1) * 1"
      by (rule sum_other_le [OF t(1)]) (rule u(1))
    moreover have "push_cost n p' t = 0" using True p'(1) by (simp add: push_cost_def)
    ultimately have less: "(\<Sum>u < n. push_cost n p' u) < (\<Sum>u < n. push_cost n p u)" using ending [OF True] t(1) by simp
    have "finished n p' = insert t (finished n p)" "t \<notin> finished n p" using p'(1) t True by (auto simp: finished_def)
    then have "card (finished n p') = Suc (card (finished n p))" using finished_fun(1) [of n p] by simp
    then show ?thesis using less m True vs finished_fun(3) [OF t] by (simp add: demo_cost_def)
  next
    case False
    have "(\<Sum>u < n. push_cost n p' u) + push_cost n p t \<le> (\<Sum>u < n. push_cost n p u) + push_cost n p' t + (n - 1) * 0"
      by (rule sum_other_le [OF t(1)]) (use u(2) going [OF False] in simp)
    moreover have "finished n p' = finished n p" using p'(1) t False by (auto simp: finished_def)
    ultimately show ?thesis using going [OF False] m False vs by (simp add: demo_cost_def)
  qed
qed

lemma exercise_push_step:
  assumes inv: "demo_inv n p as vs" and t: "t < n" and hs: "head_set p" and step: "thread_step False a t p = Some r"
  shows "\<exists>p' as' vs'. r = Inr p' \<and> demo_inv n p' as' vs' \<and> demo_cost n p' vs' < demo_cost n p vs"
proof -
  note D = demo_invD [OF inv]
  note S = stack_invD [OF D(1)]
  have ne: "scripts p t \<noteq> []" using step by (auto simp: thread_step_set [OF hs])
  then have sc: "scripts p t = [Push_Op (int t)]" using D(3) [OF t] by (simp add: pusher_ok_def)
  have pc: "s_pcs (stk p) t = Idle \<or> (\<exists>b l. (s_pcs (stk p) t = Push_link b \<or> s_pcs (stk p) t = Push_cas b) \<and> heap (stk p) b = Some (int t, l))"
    using D(3) [OF t] sc by (simp add: pusher_ok_def)
  show ?thesis
  proof (cases "s_pcs (stk p) t = Idle")
    case True
    then have a: "heap (stk p) a = None" and r: "r = Inr (p\<lparr>stk := push_call a (int t) t (stk p)\<rparr>)"
      using step sc by (auto simp: thread_step_set [OF hs] call_op_def split: if_splits)
    let ?p = "p\<lparr>stk := push_call a (int t) t (stk p)\<rparr>"
    have p': "results ?p = results p" "scripts ?p = (scripts p)(t := [Push_Op (int t)])"
      "s_pcs (stk ?p) = (s_pcs (stk p))(t := Push_link a)" "top (stk ?p) = top (stk p)"
      "heap (stk ?p) = (heap (stk p))(a \<mapsto> (int t, None))"
      using sc by (simp_all add: push_call_def set_pc_def fun_upd_idem)
    have si: "stack_inv n (stk ?p) as vs" using push_call_inv [OF D(1) True a] by simp
    have "pusher_ok t ?p" using p'(3-5) sc by (simp add: pusher_ok_def)
    then have "demo_inv n ?p as vs"
      by (intro push_keeps_inv [OF inv t ne p'(1-3) si]) (use a p'(5) True in \<open>auto split: if_splits\<close>)
    moreover have "demo_cost n ?p vs < demo_cost n p vs"
      by (rule push_lowers_cost [OF inv t ne p'(2,3)]) (use a p'(3-5) True sc in \<open>auto simp: push_cost_def\<close>)
    ultimately show ?thesis using r by blast
  next
    case False
    then obtain b l where b: "s_pcs (stk p) t = Push_link b \<or> s_pcs (stk p) t = Push_cas b" "heap (stk p) b = Some (int t, l)"
      using pc by blast
    then have ow: "owned (s_pcs (stk p) t) = Some b" by auto
    obtain s as' vs' where s: "stack_move False t (stk p) = Inr s" "stack_inv n s as' vs'" using stack_move_inv [OF D(1) False] by blast
    have r: "r = move_op False t p (Push_Op (int t)) []" using step sc False by (simp add: thread_step_set [OF hs])
    show ?thesis
    proof (cases "s_pcs (stk p) t = Push_cas b \<and> top (stk p) = l")
      case True
      let ?p = "p\<lparr>stk := s, scripts := (scripts p)(t := [])\<rparr>"
      have s': "s = set_pc t Idle (record_event (Pushed (int t)) ((stk p)\<lparr>top := Some b\<rparr>))"
        using s(1) True b(2) by (simp add: stack_move_def)
      have "chain (heap s) (top s) (b # as) (int t # vs)"
        using S(2) True b(2) by (simp add: s' set_pc_def record_event_def)
      then have eq: "as' = b # as" "vs' = int t # vs" using chain_unique stack_invD(2) [OF s(2)] by blast+
      have p': "results ?p = results p" "scripts ?p = (scripts p)(t := [])" "s_pcs (stk ?p) = (s_pcs (stk p))(t := Idle)"
        "heap (stk ?p) = heap (stk p)"
        by (simp_all add: s' set_pc_def record_event_def)
      have si: "stack_inv n (stk ?p) as' vs'" using s(2) by simp
      have "pusher_ok t ?p" using p' by (simp add: pusher_ok_def)
      then have "demo_inv n ?p as' vs'"
        by (intro push_keeps_inv [OF inv t ne p'(1-3) si]) (use eq p'(4) ow in auto)
      moreover have "demo_cost n ?p vs' < demo_cost n p vs"
        by (rule push_lowers_cost [OF inv t ne p'(2,3)]) (use True sc eq b p'(4) in \<open>auto simp: push_cost_def\<close>)
      moreover have "r = Inr ?p" using r s(1) True p'(3) by (simp add: move_op_def)
      ultimately show ?thesis by blast
    next
      case again: False
      let ?p = "p\<lparr>stk := s\<rparr>"
      have s': "heap s = (heap (stk p))(b \<mapsto> (int t, top (stk p)))" "top s = top (stk p)" "s_pcs s = (s_pcs (stk p))(t := Push_cas b)"
        using s(1) again b by (auto simp: stack_move_def set_link_def set_pc_def fun_eq_iff split: if_splits)
      have "b \<notin> set as" using S(4) [OF ow] .
      then have "chain (heap s) (top s) as vs" using S(2) by (simp add: s' chain_frame)
      then have eq: "as' = as" "vs' = vs" using chain_unique stack_invD(2) [OF s(2)] by blast+
      have p': "results ?p = results p" "scripts ?p = (scripts p)(t := [Push_Op (int t)])"
        "s_pcs (stk ?p) = (s_pcs (stk p))(t := Push_cas b)"
        using sc s' by (simp_all add: fun_upd_idem)
      have si: "stack_inv n (stk ?p) as vs" using s(2) eq by simp
      have "pusher_ok t ?p" using p'(3) s' sc by (simp add: pusher_ok_def)
      then have "demo_inv n ?p as vs"
        by (intro push_keeps_inv [OF inv t ne p'(1-3) si]) (use b ow s' in \<open>auto split: if_splits\<close>)
      moreover have "demo_cost n ?p vs < demo_cost n p vs"
        by (rule push_lowers_cost [OF inv t ne p'(2,3)]) (use again b sc s' ow in \<open>auto simp: push_cost_def\<close>)
      moreover have "r = Inr ?p" using r s(1) s'(3) by (simp add: move_op_def)
      ultimately show ?thesis by blast
    qed
  qed
qed

subsection \<open>The main thread moves\<close>

lemma all_pushed:
  assumes "demo_inv n p as vs" "\<forall>u < n. scripts p u = []" "u < n"
  shows "s_pcs (stk p) u = Idle"
  using demo_invD(3) [OF assms(1) assms(3)] assms(2,3) by (auto simp: pusher_ok_def)

lemma main_keeps_inv:
  assumes inv: "demo_inv n p as vs" and idle: "\<forall>u < n. scripts p u = []"
    and p': "s_pcs (stk p') = (s_pcs (stk p))(n := q)" "scripts p' = (scripts p)(n := x)"
    and new: "stack_inv n (stk p') as' vs'" "main_ok n p'"
    and nodes: "\<And>b. heap (stk p') b \<noteq> None \<Longrightarrow> b \<in> set as' \<or> owned q = Some b"
    and res: "\<forall>y \<in> set (results p'). fst y = n"
      "mset vs' + mset (map snd (results p')) + mset (pending n p') = mset vs + mset (map snd (results p)) + mset (pending n p)"
  shows "demo_inv n p' as' vs'"
proof -
  note D = demo_invD [OF inv]
  have "pusher_ok u p'" if "u < n" for u using all_pushed [OF inv idle that] idle that p' by (simp add: pusher_ok_def)
  moreover have "finished n p' = finished n p" using p'(2) by (auto simp: finished_def)
  moreover have "b \<in> set as' \<or> (\<exists>t. owned (s_pcs (stk p') t) = Some b)" if "heap (stk p') b \<noteq> None" for b
    using nodes [OF that] p'(1) by (auto intro: exI [of _ n])
  ultimately show ?thesis
    using D(4,7) new res p' unfolding demo_inv_def by auto
qed

lemma main_lowers_cost:
  assumes "demo_inv n p as vs" "\<forall>u < n. scripts p u = []"
    and "scripts p' = (scripts p)(n := x)" "main_cost n p' + 4 * length vs' < main_cost n p + 4 * length vs"
  shows "demo_cost n p' vs' < demo_cost n p vs"
proof -
  have "push_cost n p' u = push_cost n p u" if "u < n" for u using assms(2,3) that by (simp add: push_cost_def)
  moreover have "finished n p' = finished n p" using assms(3) by (auto simp: finished_def)
  ultimately show ?thesis using assms(4) by (simp add: demo_cost_def)
qed

lemma main_join_step:
  assumes inv: "demo_inv n p as vs" and j: "j < n" "scripts p n = map Join_Op [j..<n] @ [Pop_All]" "\<forall>u < j. scripts p u = []"
      "s_pcs (stk p) n = Idle" and hs: "head_set p" and step: "thread_step False a n p = Some r"
  shows "\<exists>p'. r = Inr p' \<and> demo_inv n p' as vs \<and> demo_cost n p' vs < demo_cost n p vs"
proof -
  note D = demo_invD [OF inv]
  let ?p = "p\<lparr>scripts := (scripts p)(n := map Join_Op [Suc j..<n] @ [Pop_All])\<rparr>"
  have sc: "scripts p n = Join_Op j # map Join_Op [Suc j..<n] @ [Pop_All]" using j(1,2) by (simp add: upt_conv_Cons)
  then have r: "r = Inr ?p" "scripts p j = []"
    using step j(4) by (auto simp: thread_step_set [OF hs] call_op_def split: if_splits)
  have f: "finished n ?p = finished n p" by (auto simp: finished_def)
  have "main_ok n ?p" unfolding main_ok_def using j r(2) by (intro disjI1 exI [of _ "Suc j"]) (auto simp: less_Suc_eq)
  moreover have "pusher_ok u ?p" if "u < n" for u using pusher_frame [OF D(3) [OF that], of ?p] that by simp
  ultimately have "demo_inv n ?p as vs" using D f unfolding demo_inv_def by (simp add: pending_def)
  moreover have "push_cost n ?p u = push_cost n p u" if "u < n" for u using that by (simp add: push_cost_def split: stack_pc.split)
  then have "demo_cost n ?p vs < demo_cost n p vs" by (simp add: demo_cost_def f) (simp add: main_cost_def sc)
  ultimately show ?thesis using r(1) by blast
qed

lemma main_pop_step:
  assumes inv: "demo_inv n p as vs" and idle: "\<forall>u < n. scripts p u = []" and sc: "scripts p n = [Pop_All]"
    and pc: "s_pcs (stk p) n = Idle \<or> main_pops (stk p) (s_pcs (stk p) n)" and hs: "head_set p" and step: "thread_step False a n p = Some r"
  shows "\<exists>p' as' vs'. r = Inr p' \<and> demo_inv n p' as' vs' \<and> demo_cost n p' vs' < demo_cost n p vs"
proof -
  note D = demo_invD [OF inv]
  note S = stack_invD [OF D(1)]
  note keep = main_keeps_inv [OF inv idle]
  note less = main_lowers_cost [OF inv idle]
  have sc': "scripts p = (scripts p)(n := [Pop_All])" using sc by (simp add: fun_upd_idem)
  have alive: "b \<in> set as \<or> owned (s_pcs (stk p) n) = Some b" if "heap (stk p) b \<noteq> None" for b
  proof -
    have "s_pcs (stk p) u = Idle" if "u \<noteq> n" for u using all_pushed [OF inv idle] D(4) that by (cases u n rule: linorder_cases) auto
    then show ?thesis using D(2) [OF that] by (metis owned.simps(4) option.distinct(1))
  qed
  note move = step [unfolded thread_step_set [OF hs] sc call_op_def move_op_def]
  consider "s_pcs (stk p) n = Idle" | "s_pcs (stk p) n = Pop_test (top (stk p))"
    | b l where "s_pcs (stk p) n = Pop_cas b l" "top (stk p) = Some b" | b where "s_pcs (stk p) n = Pop_take b"
    using pc unfolding main_pops_def by blast
  then show ?thesis
  proof cases
    case 1
    let ?p = "p\<lparr>stk := pop_call n (stk p)\<rparr>"
    have r: "r = Inr ?p" using move 1 by simp
    have p': "s_pcs (stk ?p) = (s_pcs (stk p))(n := Pop_test (top (stk p)))" "scripts ?p = (scripts p)(n := [Pop_All])"
      "heap (stk ?p) = heap (stk p)" "top (stk ?p) = top (stk p)"
      using sc by (auto simp: pop_call_def set_pc_def record_event_def fun_upd_idem)
    have "stack_inv n (stk ?p) as vs" using pop_look_inv [OF D(1)] 1 by (simp add: pop_call_def)
    moreover have "main_ok n ?p" unfolding main_ok_def main_pops_def using idle sc p' by simp
    ultimately have "demo_inv n ?p as vs"
      by (rule keep [OF p'(1,2)]) (use alive 1 p' D(6) in \<open>auto simp: pending_def\<close>)
    moreover have "demo_cost n ?p vs < demo_cost n p vs"
      by (rule less [OF p'(2)]) (use p'(1) 1 in \<open>simp add: main_cost_def\<close>)
    ultimately show ?thesis using r by blast
  next
    case 2
    show ?thesis
    proof (cases "top (stk p)")
      case None
      let ?p = "p\<lparr>stk := set_pc n Idle (stk p), scripts := (scripts p)(n := [])\<rparr>"
      have r: "r = Inr ?p" using move 2 None by (simp add: stack_move_def set_pc_def)
      have p': "s_pcs (stk ?p) = (s_pcs (stk p))(n := Idle)" "scripts ?p = (scripts p)(n := [])"
        "heap (stk ?p) = heap (stk p)" "top (stk ?p) = top (stk p)"
        by (simp_all add: set_pc_def)
      obtain s as' vs' where s: "stack_move False n (stk p) = Inr s" "stack_inv n s as' vs'"
        using stack_move_inv [OF D(1), of n False] 2 by auto
      then have "stack_inv n (stk ?p) as' vs'" using 2 None by (simp add: stack_move_def)
      moreover from this have "as' = as" "vs' = vs" using chain_unique [OF S(2)] stack_invD(2) p'(3,4) by metis+
      moreover have "main_ok n ?p" unfolding main_ok_def using idle None p' by simp
      ultimately have "demo_inv n ?p as vs"
        by (intro keep [OF p'(1,2)]) (use alive 2 p' D(6) in \<open>auto simp: pending_def\<close>)
      moreover have "demo_cost n ?p vs < demo_cost n p vs"
        by (rule less [OF p'(2)]) (use p'(1) 2 sc in \<open>simp add: main_cost_def\<close>)
      ultimately show ?thesis using r by blast
    next
      case (Some b)
      obtain s as' vs' where s: "stack_move False n (stk p) = Inr s" "stack_inv n s as' vs'"
        using stack_move_inv [OF D(1), of n False] 2 by auto
      obtain v l where h: "heap (stk p) b = Some (v, l)" using s(1) 2 Some by (auto simp: stack_move_def split: option.splits)
      have s': "s = set_pc n (Pop_cas b l) (stk p)" using s(1) 2 Some h by (simp add: stack_move_def)
      let ?p = "p\<lparr>stk := s\<rparr>"
      have r: "r = Inr ?p" using move 2 s(1) s' by (simp add: set_pc_def)
      have p': "s_pcs (stk ?p) = (s_pcs (stk p))(n := Pop_cas b l)" "scripts ?p = (scripts p)(n := [Pop_All])"
        "heap (stk ?p) = heap (stk p)" "top (stk ?p) = top (stk p)"
        using sc by (simp_all add: s' set_pc_def fun_upd_idem)
      have "stack_inv n (stk ?p) as' vs'" using s(2) by simp
      moreover from this have "as' = as" "vs' = vs" using chain_unique [OF S(2)] stack_invD(2) p'(3,4) by metis+
      moreover have "main_ok n ?p" unfolding main_ok_def main_pops_def using idle sc Some p' by simp
      ultimately have "demo_inv n ?p as vs"
        by (intro keep [OF p'(1,2)]) (use alive 2 p' D(6) in \<open>auto simp: pending_def\<close>)
      moreover have "demo_cost n ?p vs < demo_cost n p vs"
        by (rule less [OF p'(2)]) (use p'(1) 2 in \<open>simp add: main_cost_def\<close>)
      ultimately show ?thesis using r by blast
    qed
  next
    case (3 b l)
    obtain v where h: "heap (stk p) b = Some (v, l)" using S(9) 3(1) by blast
    obtain as' vs' where e: "as = b # as'" "vs = v # vs'" "chain (heap (stk p)) l as' vs'"
      using S(2) 3(2) h by (cases as) auto
    let ?s = "set_pc n (Pop_take b) (record_event (Popped v) ((stk p)\<lparr>top := l\<rparr>))"
    let ?p = "p\<lparr>stk := ?s\<rparr>"
    have m: "stack_move False n (stk p) = Inr ?s" using 3 h by (simp add: stack_move_def)
    have r: "r = Inr ?p" using move 3 m by (simp add: set_pc_def)
    have p': "s_pcs (stk ?p) = (s_pcs (stk p))(n := Pop_take b)" "scripts ?p = (scripts p)(n := [Pop_All])"
      "heap (stk ?p) = heap (stk p)" "top (stk ?p) = l"
      using sc by (simp_all add: set_pc_def record_event_def fun_upd_idem)
    obtain as1 vs1 where "stack_inv n ?s as1 vs1" using stack_move_inv [OF D(1), of n False] 3(1) m by auto
    moreover from this have "as1 = as'" "vs1 = vs'" using chain_unique [OF e(3)] stack_invD(2) p'(3,4) by (metis program.select_convs(1) program.update_convs(1) program.surjective)+
    ultimately have si: "stack_inv n (stk ?p) as' vs'" by simp
    have "main_ok n ?p" unfolding main_ok_def main_pops_def using idle sc p' by simp
    with si have "demo_inv n ?p as' vs'"
      by (rule keep [OF p'(1,2)]) (use alive 3 h e p' D(6) in \<open>auto simp: pending_def\<close>)
    moreover have "demo_cost n ?p vs' < demo_cost n p vs"
      by (rule less [OF p'(2)]) (use p'(1) 3 e in \<open>simp add: main_cost_def\<close>)
    ultimately show ?thesis using r by blast
  next
    case (4 b)
    obtain v l where h: "heap (stk p) b = Some (v, l)" using S(5) [of n b] 4 by auto
    let ?s = "set_pc n Idle ((stk p)\<lparr>heap := (heap (stk p))(b := None)\<rparr>)"
    let ?p = "p\<lparr>stk := ?s, scripts := (scripts p)(n := [Pop_All]), results := results p @ [(n, v)]\<rparr>"
    have m: "stack_move False n (stk p) = Inr ?s" using 4 h by (simp add: stack_move_def)
    have r: "r = Inr ?p" using move 4 m h by (simp add: set_pc_def)
    have p': "s_pcs (stk ?p) = (s_pcs (stk p))(n := Idle)" "scripts ?p = (scripts p)(n := [Pop_All])"
      "heap (stk ?p) = (heap (stk p))(b := None)" "top (stk ?p) = top (stk p)" "results ?p = results p @ [(n, v)]"
      by (simp_all add: set_pc_def)
    have b: "b \<notin> set as" using S(4) [of n b] 4 by simp
    have ch: "chain (heap ?s) (top ?s) as vs" using S(2) b by (simp add: set_pc_def chain_frame)
    obtain as1 vs1 where s1: "stack_inv n ?s as1 vs1" using stack_move_inv [OF D(1), of n False] 4 m by auto
    then have "as1 = as" "vs1 = vs" using chain_unique [OF ch] stack_invD(2) [OF s1] by blast+
    then have si: "stack_inv n (stk ?p) as vs" using s1 by simp
    have "main_ok n ?p" unfolding main_ok_def using idle p' by (intro disjI1 exI [of _ n]) simp
    with si have "demo_inv n ?p as vs"
      by (rule keep [OF p'(1,2)]) (use alive 4 h p' D(6) in \<open>auto simp: pending_def split: if_splits\<close>)
    moreover have "demo_cost n ?p vs < demo_cost n p vs"
      by (rule less [OF p'(2)]) (use p'(1) 4 sc in \<open>simp add: main_cost_def\<close>)
    ultimately show ?thesis using r by blast
  qed
qed

subsection \<open>Every run\<close>

lemma main_okE:
  assumes "main_ok n p"
  obtains (joins) j where "j < n" "scripts p n = map Join_Op [j..<n] @ [Pop_All]" "\<forall>u < j. scripts p u = []" "s_pcs (stk p) n = Idle"
    | (pops) "\<forall>u < n. scripts p u = []" "scripts p n = [Pop_All]" "s_pcs (stk p) n = Idle \<or> main_pops (stk p) (s_pcs (stk p) n)"
    | (over) "\<forall>u < n. scripts p u = []" "scripts p n = []" "s_pcs (stk p) n = Idle" "top (stk p) = None"
  using assms unfolding main_ok_def by (metis append_Nil le_neq_implies_less list.simps(8) upt_eq_Nil_conv order_refl)

lemma demo_step:
  assumes inv: "demo_inv n p as vs" and hs: "head_set p" and step: "prog_step False (Inr p) r"
  shows "\<exists>p' as' vs'. r = Inr p' \<and> demo_inv n p' as' vs' \<and> demo_cost n p' vs' < demo_cost n p vs"
  using step
proof cases
  case (thread spurious a t)
  then have st: "thread_step False a t p = Some r" by simp
  then have ne: "scripts p t \<noteq> []" by (auto simp: thread_step_set [OF hs])
  consider "t < n" | "t = n" | "n < t" by linarith
  then show ?thesis
  proof cases
    case 1
    then show ?thesis by (rule exercise_push_step [OF inv _ hs st])
  next
    case 2
    from demo_invD(5) [OF inv] show ?thesis
    proof (cases rule: main_okE)
      case (joins j)
      then show ?thesis using main_join_step [OF inv joins(1-4) hs] st 2 by blast
    next
      case pops
      then show ?thesis using main_pop_step [OF inv pops hs] st 2 by blast
    next
      case over
      then show ?thesis using ne 2 by simp
    qed
  next
    case 3
    then show ?thesis using demo_invD(4) [OF inv 3] ne by simp
  qed
qed

lemma demo_progress:
  assumes inv: "demo_inv n p as vs" and "scripts p t \<noteq> []" and hs: "head_set p"
  shows "\<exists>r. prog_step False (Inr p) r"
proof -
  note D = demo_invD [OF inv]
  have go: ?thesis if "thread_step False a u p \<noteq> None" for a u
    using prog_step.thread [of False a u p] that by auto
  show ?thesis
  proof (cases "\<forall>u < n. scripts p u = []")
    case False
    then obtain u where u: "u < n" "scripts p u \<noteq> []" by blast
    then have sc: "scripts p u = [Push_Op (int u)]" using D(3) by (auto simp: pusher_ok_def)
    have "{a. heap (stk p) a \<noteq> None} \<subseteq> set as \<union> (\<Union>t \<in> {..n}. set_option (owned (s_pcs (stk p) t)))" (is "_ \<subseteq> ?F")
    proof
      fix a assume "a \<in> {a. heap (stk p) a \<noteq> None}"
      then consider "a \<in> set as" | t where "owned (s_pcs (stk p) t) = Some a" using D(2) by blast
      then show "a \<in> ?F"
      proof cases
        case (2 t)
        then have "t \<le> n" using D(4) [of t] by (cases "n < t") auto
        then show ?thesis using 2 by auto
      qed simp
    qed
    moreover have "finite ?F" by auto
    ultimately have "finite {a. heap (stk p) a \<noteq> None}" by (rule finite_subset)
    then obtain a where "heap (stk p) a = None" using ex_new_if_finite [OF infinite_UNIV_nat] by blast
    then show ?thesis by (intro go [of a u]) (simp add: thread_step_set [OF hs] sc call_op_def)
  next
    case True
    have t: "t = n" using assms(2) True D(4) by (metis linorder_neqE_nat)
    from D(5) show ?thesis
    proof (cases rule: main_okE)
      case (joins j)
      then have "scripts p n = Join_Op j # map Join_Op [Suc j..<n] @ [Pop_All]" by (simp add: upt_conv_Cons)
      then show ?thesis using joins True by (intro go [of 0 n]) (simp add: thread_step_set [OF hs] call_op_def)
    next
      case pops
      then show ?thesis by (intro go [of 0 n]) (simp add: thread_step_set [OF hs] call_op_def)
    next
      case over
      then show ?thesis using assms(2) t by simp
    qed
  qed
qed

lemma demo_run:
  "(prog_step False ^^ k) (Inr (demo_main True n)) r \<Longrightarrow>
    \<exists>p as vs. r = Inr p \<and> head_set p \<and> demo_inv n p as vs \<and> demo_cost n p vs + k \<le> n * n + 10 * n + 6"
proof (induction k arbitrary: r)
  case 0
  then show ?case using demo_start [of n] by (intro exI [of _ "demo_main True n"] exI [of _ "[]"]) (simp add: demo_main_def)
next
  case (Suc k)
  then obtain r1 where r1: "(prog_step False ^^ k) (Inr (demo_main True n)) r1" "prog_step False r1 r" by auto
  then obtain p as vs where p: "r1 = Inr p" "head_set p" "demo_inv n p as vs" "demo_cost n p vs + k \<le> n * n + 10 * n + 6" using Suc.IH by blast
  then obtain p' as' vs' where p': "r = Inr p'" "demo_inv n p' as' vs'" "demo_cost n p' vs' < demo_cost n p vs"
    using demo_step [OF p(3,2)] r1(2) by blast
  have "head_set p'" using r1(2) p(1,2) p'(1) thread_step_head by (auto elim!: prog_step.cases)
  with p' show ?case using p(4) by (intro exI [of _ p'] exI [of _ as'] exI [of _ vs']) simp
qed

subsection \<open>Runs with an indeterminate head\<close>

text \<open>As long as the program is defined, no push has got beyond its new node and the main thread has not moved.\<close>

definition unset_ok :: "nat \<Rightarrow> program \<Rightarrow> bool" where
  "unset_ok n p \<longleftrightarrow> \<not> head_set p \<and> results p = [] \<and> finite (dom (heap (stk p))) \<and>
     (\<forall>t < n. scripts p t = [Push_Op (int t)] \<and> (s_pcs (stk p) t = Idle \<or> (\<exists>a. s_pcs (stk p) t = Push_link a))) \<and>
     scripts p n = map Join_Op [0..<n] @ [Pop_All] \<and> s_pcs (stk p) n = Idle \<and> (\<forall>t > n. scripts p t = [])"

definition begun :: "nat \<Rightarrow> program \<Rightarrow> nat set" where
  "begun n p = {t. t < n \<and> s_pcs (stk p) t \<noteq> Idle}"

lemma unset_start: "unset_ok n (demo_main False n)" "begun n (demo_main False n) = {}"
  by (auto simp: unset_ok_def begun_def demo_main_def load_program_def stack_start_def)

lemma unset_step:
  assumes "unset_ok n p" "thread_step False a t p = Some r"
  shows "r = Inl Uninitialised \<or> (\<exists>p'. r = Inr p' \<and> unset_ok n p' \<and> card (begun n p') = Suc (card (begun n p)))"
proof -
  note U = assms(1) [unfolded unset_ok_def]
  consider "t < n" "s_pcs (stk p) t = Idle" | b where "t < n" "s_pcs (stk p) t = Push_link b" | "t = n" | "n < t"
    using U by (meson linorder_neqE_nat)
  then show ?thesis
  proof cases
    case 1
    have sc: "scripts p t = [Push_Op (int t)]" using U 1(1) by blast
    let ?p = "p\<lparr>stk := push_call a (int t) t (stk p)\<rparr>"
    have r: "r = Inr ?p" using assms(2) 1 sc by (auto simp: thread_step_def call_op_def split: if_splits)
    have "unset_ok n ?p" using U 1 by (auto simp: unset_ok_def push_call_def set_pc_def)
    moreover have "begun n ?p = insert t (begun n p)" "t \<notin> begun n p" "finite (begun n p)"
      using 1 by (auto simp: begun_def push_call_def set_pc_def)
    ultimately show ?thesis using r by simp
  next
    case 2
    then show ?thesis using U assms(2) by (auto simp: thread_step_def)
  next
    case 3
    show ?thesis
    proof (cases "n = 0")
      case True
      then show ?thesis using U 3 assms(2) by (auto simp: thread_step_def)
    next
      case False
      then have "scripts p n = Join_Op 0 # map Join_Op [1..<n] @ [Pop_All]" using U by (simp add: upt_conv_Cons)
      moreover have "scripts p 0 \<noteq> []" using U False by auto
      ultimately show ?thesis using U 3 assms(2) by (simp add: thread_step_def call_op_def)
    qed
  next
    case 4
    then show ?thesis using U assms(2) by (simp add: thread_step_def)
  qed
qed

lemma unset_progress:
  assumes "unset_ok n p"
  shows "\<exists>r. prog_step False (Inr p) r"
proof -
  note U = assms [unfolded unset_ok_def]
  have go: ?thesis if "thread_step False a u p \<noteq> None" for a u
    using prog_step.thread [of False a u p] that by auto
  show ?thesis
  proof (cases "n = 0")
    case True
    then show ?thesis using U by (intro go [of 0 0]) (simp add: thread_step_def)
  next
    case False
    then have 0: "scripts p 0 = [Push_Op 0]" "s_pcs (stk p) 0 = Idle \<or> (\<exists>a. s_pcs (stk p) 0 = Push_link a)" using U by auto
    obtain a where "heap (stk p) a = None" using U ex_new_if_finite [OF infinite_UNIV_nat, of "dom (heap (stk p))"] by auto
    then show ?thesis using 0 by (intro go [of a 0]) (auto simp: thread_step_def call_op_def)
  qed
qed

lemma unset_run:
  "(prog_step False ^^ k) (Inr (demo_main False n)) r \<Longrightarrow>
    r = Inl Uninitialised \<and> k \<le> Suc n \<or> (\<exists>p. r = Inr p \<and> unset_ok n p \<and> card (begun n p) = k)"
proof (induction k arbitrary: r)
  case 0
  then show ?case using unset_start [of n] by auto
next
  case (Suc k)
  then obtain r1 where r1: "(prog_step False ^^ k) (Inr (demo_main False n)) r1" "prog_step False r1 r" by auto
  from r1(2) obtain p a t where p: "r1 = Inr p" "thread_step False a t p = Some r"
    by cases auto
  have u: "unset_ok n p" "card (begun n p) = k" using Suc.IH [OF r1(1)] p(1) by auto
  have "card (begun n p) \<le> card {..<n}" by (rule card_mono) (auto simp: begun_def)
  then show ?case using unset_step [OF u(1) p(2)] u(2) by auto
qed

text \<open>C16: Let \<open>n\<close> threads push.  When the head is null at the start, as C++20 makes it, every run of the exercise ends,
  after at most \<open>n * n + 10 * n + 6\<close> steps: it never touches freed memory, and when nothing is left to do, every value
  has been printed exactly once, by the main thread, and every node has been deleted.  When the head is
  indeterminate, as under the C++17 of the build file, every run ends after at most \<open>n + 1\<close> steps with the use of
  that head, and nothing has been printed.\<close>

theorem exercise_prints_every_value_once:
  assumes "(prog_step False ^^ k) (Inr (demo_main init n)) r"
  shows "(init \<longrightarrow> k \<le> n * n + 10 * n + 6 \<and> (\<exists>p. r = Inr p \<and>
      ((\<nexists>r'. prog_step False r r') \<longrightarrow> (\<forall>t. scripts p t = []) \<and> mset (map snd (results p)) = image_mset int (mset [0..<n]) \<and>
         (\<forall>x \<in> set (results p). fst x = n) \<and> heap (stk p) = Map.empty \<and> top (stk p) = None))) \<and>
    (\<not> init \<longrightarrow> k \<le> n + 1 \<and> (\<forall>p. r = Inr p \<longrightarrow> results p = []) \<and>
      ((\<nexists>r'. prog_step False r r') \<longrightarrow> r = Inl Uninitialised))"
proof (cases init)
  case False
  then have r: "r = Inl Uninitialised \<and> k \<le> Suc n \<or> (\<exists>p. r = Inr p \<and> unset_ok n p \<and> card (begun n p) = k)"
    using unset_run assms by simp
  have "card (begun n p) \<le> Suc n" for p
    using card_mono [of "{..<n}" "begun n p"] by (fastforce simp: begun_def intro: le_SucI)
  moreover have "results p = []" if "unset_ok n p" for p using that by (simp add: unset_ok_def)
  moreover have "r = Inl Uninitialised" if "\<nexists>r'. prog_step False r r'" using r that unset_progress by blast
  ultimately have "k \<le> n + 1" "\<forall>p. r = Inr p \<longrightarrow> results p = []" "(\<nexists>r'. prog_step False r r') \<longrightarrow> r = Inl Uninitialised"
    using r by auto
  with False show ?thesis by simp
next
  case True
  obtain p as vs where p: "r = Inr p" "demo_inv n p as vs" "demo_cost n p vs + k \<le> n * n + 10 * n + 6" "head_set p"
    using demo_run [of k n r] assms True by auto
  note D = demo_invD [OF p(2)]
  have fin: "mset (map snd (results p)) = image_mset int (mset [0..<n]) \<and> heap (stk p) = Map.empty \<and> top (stk p) = None"
    if e: "\<forall>t. scripts p t = []"
  proof -
    have m: "s_pcs (stk p) n = Idle" "top (stk p) = None" using D(5) e unfolding main_ok_def by auto
    then have av: "as = []" "vs = []" using stack_invD(2) [OF D(1)] by (cases as; simp)+
    have "s_pcs (stk p) t = Idle" for t
      using all_pushed [OF p(2)] e D(4) [of t] m(1) by (cases t n rule: linorder_cases) auto
    then have "heap (stk p) a = None" for a using D(2) [of a] av(1) by (cases "heap (stk p) a") auto
    moreover have "finished n p = {0..<n}" using e by (auto simp: finished_def)
    ultimately show ?thesis using D(7) m av(2) by (auto simp: pending_def fun_eq_iff)
  qed
  have "\<forall>t. scripts p t = []" if "\<nexists>r'. prog_step False r r'" using demo_progress [OF p(2) _ p(4)] that p(1) by blast
  then show ?thesis using fin p(1,3) D(6) True by auto
qed

theorem exercise_prints_every_value_once_witness:
  "\<exists>p. run_prog [(0, 4), (0, 0), (0, 0), (1, 0), (1, 0), (1, 0), (1, 0), (1, 0), (1, 0), (1, 0)] (demo_main True 1) = Some (Inr p) \<and>
    mset (map snd (results p)) = {#0#} \<and> heap (stk p) = Map.empty"
proof -
  let ?ms = "[(0, 4), (0, 0), (0, 0), (1, 0), (1, 0), (1, 0), (1, 0), (1, 0), (1, 0), (1, 0 :: nat)]"
  have "\<exists>p. run_prog ?ms (demo_main True 1) = Some (Inr p) \<and> (\<forall>t. scripts p t = [])"
    by (simp add: demo_main_def prog_defs)
  then obtain p where p: "run_prog ?ms (demo_main True 1) = Some (Inr p)" "\<forall>t. scripts p t = []" by blast
  have "\<not> prog_step False (Inr p) r'" for r' using p(2) by (auto simp: thread_step_def elim: prog_step.cases)
  then show ?thesis
    using exercise_prints_every_value_once [OF run_prog_reaches [OF p(1)]] p(1) by auto
qed

end
