(* ===== verification/DetachedPool.thy ===== *)
theory DetachedPool
  imports ThreadPool
begin

text \<open>
  The thread pool with detached workers, \<^verbatim>\<open>ThreadPool_C_C++/threadpool.h\<close>.

  The queue, the mutex and the condition variable live in a \<open>Pool\<close> that the object and the workers share by
  \<^verbatim>\<open>shared_ptr\<close>: \<open>refs\<close> is its reference count, and an access after the count has come to zero is the error
  \<open>Dangling\<close>.  All code between two waits runs under the mutex or touches nothing shared, so a critical section
  is one step; a notification is a step of its own.  The client calls \<^verbatim>\<open>AddTask\<close> while the object exists and
  destroys it when no call is under way.  A task whose exception leaves it (\<open>throws\<close>) ends the program,
  because nothing catches it in the detached thread.
\<close>

section \<open>The pool\<close>

datatype 'a dpc =
    W_Lock            \<comment> \<open>worker at the head of its loop, about to get the mutex\<close>
  | W_Sleep
  | W_Woke
  | W_Task 'a
  | W_Leave           \<comment> \<open>behind the loop: the copy of the pointer goes\<close>
  | W_Over
  | A_Enter 'a        \<comment> \<open>a call of \<^verbatim>\<open>AddTask\<close>\<close>
  | A_Notify
  | A_Over

datatype owner_pc =
    O_Start nat       \<comment> \<open>the constructor, with the number of workers to start\<close>
  | O_Ready
  | O_Close | O_Notify | O_Release
  | O_Gone
  | O_Failed          \<comment> \<open>the constructor was left by an exception\<close>

record 'a dpool =
  dqueue :: "'a list"
  isClosed :: bool
  refs :: nat
  owner :: owner_pc
  dpcs :: "'a dpc list"
  aborted :: bool
  d_added :: "'a list"
  d_started :: "'a list"
  d_ran :: "'a list"

definition new_dpool :: "nat \<Rightarrow> 'a dpool" where
  "new_dpool threadCount = \<lparr>dqueue = [], isClosed = False, refs = 1, owner = O_Start threadCount, dpcs = [], aborted = False,
     d_added = [], d_started = [], d_ran = []\<rparr>"

definition dgoto :: "nat \<Rightarrow> 'a dpc \<Rightarrow> 'a dpool \<Rightarrow> 'a dpool" where
  "dgoto i q s = s\<lparr>dpcs := (dpcs s)[i := q]\<rparr>"

text \<open>An access to the shared \<open>Pool\<close>\<close>

definition touch :: "'a dpool \<Rightarrow> 'b \<Rightarrow> 'b result" where
  "touch s x = (if refs s = 0 then Inl Dangling else Inr x)"

text \<open>One turn of the loop of a worker, which has the mutex\<close>

definition worker_turn :: "nat \<Rightarrow> 'a dpool \<Rightarrow> 'a dpool" where
  "worker_turn i s = (case dqueue s of
     task # rest \<Rightarrow> dgoto i (W_Task task) (s\<lparr>dqueue := rest, d_started := d_started s @ [task]\<rparr>)
   | [] \<Rightarrow> dgoto i (if isClosed s then W_Leave else W_Sleep) s)"

definition dnotify_one :: "nat \<Rightarrow> 'a dpool \<Rightarrow> 'a dpool option" where
  "dnotify_one j s = (if W_Sleep \<notin> set (dpcs s) then Some s
     else if j < length (dpcs s) \<and> dpcs s ! j = W_Sleep then Some (dgoto j W_Woke s) else None)"

definition wake :: "'a dpc \<Rightarrow> 'a dpc" where
  "wake p = (if p = W_Sleep then W_Woke else p)"

definition dthread_step :: "('a \<Rightarrow> bool) \<Rightarrow> nat \<Rightarrow> nat \<Rightarrow> 'a dpool \<Rightarrow> 'a dpool result option" where
  "dthread_step throws i j s = (case dpcs s ! i of
     W_Lock \<Rightarrow> Some (touch s (worker_turn i s))
   | W_Sleep \<Rightarrow> None
   | W_Woke \<Rightarrow> Some (touch s (worker_turn i s))
   | W_Task t \<Rightarrow> Some (Inr (if throws t then s\<lparr>aborted := True\<rparr> else dgoto i W_Lock (s\<lparr>d_ran := d_ran s @ [t]\<rparr>)))
   | W_Leave \<Rightarrow> Some (touch s (dgoto i W_Over (s\<lparr>refs := refs s - 1\<rparr>)))
   | W_Over \<Rightarrow> None
   | A_Enter t \<Rightarrow> Some (touch s (dgoto i A_Notify (s\<lparr>dqueue := dqueue s @ [t], d_added := d_added s @ [t]\<rparr>)))
   | A_Notify \<Rightarrow> map_option (touch s) (dnotify_one j (dgoto i A_Over s))
   | A_Over \<Rightarrow> None)"

definition owner_step :: "'a dpool \<Rightarrow> 'a dpool result option" where
  "owner_step s = (case owner s of
     O_Start 0 \<Rightarrow> Some (Inr (s\<lparr>owner := O_Ready\<rparr>))
   | O_Start (Suc n) \<Rightarrow> Some (touch s (s\<lparr>owner := O_Start n, refs := refs s + 1, dpcs := dpcs s @ [W_Lock]\<rparr>))
   | O_Ready \<Rightarrow> None
   | O_Close \<Rightarrow> Some (touch s (s\<lparr>owner := O_Notify, isClosed := True\<rparr>))
   | O_Notify \<Rightarrow> Some (touch s (s\<lparr>owner := O_Release, dpcs := map wake (dpcs s)\<rparr>))
   | O_Release \<Rightarrow> Some (touch s (s\<lparr>owner := O_Gone, refs := refs s - 1\<rparr>))
   | O_Gone \<Rightarrow> None
   | O_Failed \<Rightarrow> None)"

fun calling :: "'a dpc \<Rightarrow> bool" where
  "calling (A_Enter t) = True" | "calling A_Notify = True" | "calling _ = False"

text \<open>The steps of the threads themselves\<close>

inductive dwork :: "('a \<Rightarrow> bool) \<Rightarrow> 'a dpool \<Rightarrow> 'a dpool result \<Rightarrow> bool" for throws where
  thread: "\<not> aborted s \<Longrightarrow> i < length (dpcs s) \<Longrightarrow> dthread_step throws i j s = Some r \<Longrightarrow> dwork throws s r"
| owner: "\<not> aborted s \<Longrightarrow> owner_step s = Some r \<Longrightarrow> dwork throws s r"

text \<open>What else may happen: a wait ends by itself, a thread cannot be started, and the client calls.\<close>

inductive dmove :: "('a \<Rightarrow> bool) \<Rightarrow> 'a dpool \<Rightarrow> 'a dpool result \<Rightarrow> bool" for throws where
  work: "dwork throws s r \<Longrightarrow> dmove throws s r"
| spurious: "\<not> aborted s \<Longrightarrow> i < length (dpcs s) \<Longrightarrow> dpcs s ! i = W_Sleep \<Longrightarrow> dmove throws s (Inr (dgoto i W_Woke s))"
| no_thread: "\<not> aborted s \<Longrightarrow> owner s = O_Start (Suc n) \<Longrightarrow> dmove throws s (touch s (s\<lparr>owner := O_Failed, refs := refs s - 1\<rparr>))"
| add_task: "\<not> aborted s \<Longrightarrow> owner s = O_Ready \<Longrightarrow> dmove throws s (Inr (s\<lparr>dpcs := dpcs s @ [A_Enter t]\<rparr>))"
| destroy: "\<not> aborted s \<Longrightarrow> owner s = O_Ready \<Longrightarrow> \<not> list_ex calling (dpcs s) \<Longrightarrow> dmove throws s (Inr (s\<lparr>owner := O_Close\<rparr>))"

inductive dreach :: "('a \<Rightarrow> bool) \<Rightarrow> nat \<Rightarrow> 'a dpool result \<Rightarrow> bool" for throws threadCount where
  made: "dreach throws threadCount (Inr (new_dpool threadCount))"
| moved: "dreach throws threadCount (Inr s) \<Longrightarrow> dmove throws s r \<Longrightarrow> dreach throws threadCount r"

section \<open>The invariant\<close>

fun holds_pool :: "'a dpc \<Rightarrow> bool" where
  "holds_pool W_Lock = True" | "holds_pool W_Sleep = True" | "holds_pool W_Woke = True" | "holds_pool (W_Task t) = True"
| "holds_pool W_Leave = True" | "holds_pool _ = False"

fun dcoming :: "'a dpc \<Rightarrow> bool" where
  "dcoming W_Lock = True" | "dcoming W_Woke = True" | "dcoming A_Notify = True" | "dcoming _ = False"

fun running :: "'a dpc \<Rightarrow> 'a list" where
  "running (W_Task t) = [t]" | "running _ = []"

fun owns_pool :: "owner_pc \<Rightarrow> bool" where
  "owns_pool O_Gone = False" | "owns_pool O_Failed = False" | "owns_pool _ = True"

fun has_closed :: "owner_pc \<Rightarrow> bool" where
  "has_closed O_Notify = True" | "has_closed O_Release = True" | "has_closed O_Gone = True" | "has_closed _ = False"

definition dpool_inv :: "'a dpool \<Rightarrow> bool" where
  "dpool_inv s \<longleftrightarrow>
     refs s = cnt holds_pool (dpcs s) + (if owns_pool (owner s) then 1 else 0) \<and>
     isClosed s = has_closed (owner s) \<and>
     (cnt calling (dpcs s) \<noteq> 0 \<longrightarrow> owner s = O_Ready) \<and>
     (W_Sleep \<in> set (dpcs s) \<longrightarrow> length (dqueue s) \<le> cnt dcoming (dpcs s) \<and> (isClosed s \<longrightarrow> owner s = O_Notify)) \<and>
     (W_Leave \<in> set (dpcs s) \<or> W_Over \<in> set (dpcs s) \<longrightarrow> isClosed s \<and> dqueue s = []) \<and>
     d_added s = d_started s @ dqueue s \<and>
     mset (d_started s) = mset (d_ran s) + mset (concat (map running (dpcs s)))"

lemma dpool_invD:
  assumes "dpool_inv s"
  shows "refs s = cnt holds_pool (dpcs s) + (if owns_pool (owner s) then 1 else 0)" "isClosed s = has_closed (owner s)"
    "cnt calling (dpcs s) \<noteq> 0 \<Longrightarrow> owner s = O_Ready"
    "W_Sleep \<in> set (dpcs s) \<Longrightarrow> length (dqueue s) \<le> cnt dcoming (dpcs s) \<and> (isClosed s \<longrightarrow> owner s = O_Notify)"
    "W_Leave \<in> set (dpcs s) \<or> W_Over \<in> set (dpcs s) \<Longrightarrow> isClosed s \<and> dqueue s = []"
    "d_added s = d_started s @ dqueue s"
    "mset (d_started s) = mset (d_ran s) + mset (concat (map running (dpcs s)))"
  using assms unfolding dpool_inv_def by blast+

lemma dgoto_inv:
  assumes inv: "dpool_inv s" and i: "i < length (dpcs s)"
    and s1: "dpcs s1 = dpcs s" "owner s1 = owner s" "isClosed s1 = isClosed s"
    and refs: "refs s1 + (if holds_pool (dpcs s ! i) then 1 else 0) = refs s + (if holds_pool q then 1 else 0)"
    and calls: "calling q \<Longrightarrow> calling (dpcs s ! i)"
    and sleep: "q = W_Sleep \<or> W_Sleep \<in> set (dpcs s) \<Longrightarrow> length (dqueue s1) \<le> cnt dcoming ((dpcs s)[i := q])" "q = W_Sleep \<Longrightarrow> \<not> isClosed s"
    and leave: "q = W_Leave \<or> q = W_Over \<or> W_Leave \<in> set (dpcs s) \<or> W_Over \<in> set (dpcs s) \<Longrightarrow> isClosed s \<and> dqueue s1 = []"
    and log: "d_added s1 = d_started s1 @ dqueue s1"
      "mset (d_started s1) + mset (running (dpcs s ! i)) + mset (d_ran s) = mset (d_ran s1) + mset (running q) + mset (d_started s)"
  shows "dpool_inv (dgoto i q s1)"
proof -
  note D = dpool_invD [OF inv]
  let ?m = "\<lambda>ps. mset (concat (map running ps))" and ?c = "mset (running (dpcs s ! i))"
  have "?m ((dpcs s)[i := q]) + ?c = ?m (dpcs s) + mset (running q)"
    using concat_update [of i "map running (dpcs s)" "running q"] i by (simp add: map_update)
  then have "mset (d_started s1) + (?c + mset (d_ran s)) = (mset (d_ran s1) + ?m ((dpcs s)[i := q])) + (?c + mset (d_ran s))"
    using D(7) log(2) by (simp add: ac_simps)
  then have "mset (d_started s1) = mset (d_ran s1) + ?m ((dpcs s)[i := q])" by (rule add_right_imp_eq)
  moreover have "refs s1 = cnt holds_pool ((dpcs s)[i := q]) + (if owns_pool (owner s) then 1 else 0)"
    using refs D(1) cnt_swap [OF i, of holds_pool q] by (auto split: if_splits)
  moreover have "owner s = O_Ready" if "cnt calling ((dpcs s)[i := q]) \<noteq> 0"
  proof (rule D(3))
    show "cnt calling (dpcs s) \<noteq> 0" using that cnt_swap [OF i, of calling q] calls cnt_pos [OF i, of calling] by (auto split: if_splits)
  qed
  moreover have "length (dqueue s1) \<le> cnt dcoming ((dpcs s)[i := q]) \<and> (isClosed s \<longrightarrow> owner s = O_Notify)"
    if "W_Sleep \<in> set ((dpcs s)[i := q])"
    using set_update_mem [OF that] sleep D(4) by auto
  moreover have "isClosed s \<and> dqueue s1 = []" if "W_Leave \<in> set ((dpcs s)[i := q]) \<or> W_Over \<in> set ((dpcs s)[i := q])"
    using set_update_mem [of _ "dpcs s" i q] leave that by blast
  ultimately show ?thesis using s1 log(1) D(2) unfolding dpool_inv_def dgoto_def by simp
qed

lemma alive_while_held:
  assumes "dpool_inv s" "holds_pool p \<or> calling p" "p \<in> set (dpcs s)"
  shows "touch s x = Inr x"
proof -
  obtain i where i: "i < length (dpcs s)" "dpcs s ! i = p" using assms(3) by (auto simp: in_set_conv_nth)
  have "refs s \<noteq> 0"
    using assms(2)
  proof
    assume "holds_pool p"
    then show ?thesis using dpool_invD(1) [OF assms(1)] cnt_pos [OF i(1), of holds_pool] i(2) by simp
  next
    assume "calling p"
    then have "owner s = O_Ready" using dpool_invD(3) [OF assms(1)] cnt_pos [OF i(1), of calling] i(2) by simp
    then show ?thesis using dpool_invD(1) [OF assms(1)] by simp
  qed
  then show ?thesis by (simp add: touch_def)
qed

lemma worker_turn_inv:
  assumes inv: "dpool_inv s" and i: "i < length (dpcs s)" and pc: "dpcs s ! i = W_Lock \<or> dpcs s ! i = W_Woke"
  shows "dpool_inv (worker_turn i s)"
proof -
  note D = dpool_invD [OF inv]
  have p: "holds_pool (dpcs s ! i)" "dcoming (dpcs s ! i)" "running (dpcs s ! i) = []" using pc by auto
  show ?thesis
  proof (cases "dqueue s")
    case Nil
    have "dpool_inv (dgoto i (if isClosed s then W_Leave else W_Sleep) s)"
      by (rule dgoto_inv [OF inv i]) (use p D(5-6) Nil in \<open>auto split: if_splits\<close>)
    then show ?thesis by (simp add: worker_turn_def Nil)
  next
    case (Cons t rest)
    have "dpool_inv (dgoto i (W_Task t) (s\<lparr>dqueue := rest, d_started := d_started s @ [t]\<rparr>))"
      by (rule dgoto_inv [OF inv i]) (use p D(4-6) Cons cnt_swap [OF i, of dcoming "W_Task t"] in auto)
    then show ?thesis by (simp add: worker_turn_def Cons)
  qed
qed

lemma wake_inv:
  assumes inv: "dpool_inv s" and i: "i < length (dpcs s)" "dpcs s ! i = W_Sleep"
  shows "dpool_inv (dgoto i W_Woke s)"
proof -
  note D = dpool_invD [OF inv]
  have "W_Sleep \<in> set (dpcs s)" using i by (metis nth_mem)
  then show ?thesis
    by (intro dgoto_inv [OF inv i(1)]) (use i D(4-6) cnt_swap [OF i(1), of dcoming W_Woke] in auto)
qed

lemma call_ends_inv:
  assumes inv: "dpool_inv s" and i: "i < length (dpcs s)" "dpcs s ! i = A_Notify" and n: "dnotify_one j (dgoto i A_Over s) = Some s'"
  shows "dpool_inv s'"
proof -
  note D = dpool_invD [OF inv]
  have open_: "\<not> isClosed s"
    using D(2,3) cnt_pos [OF i(1), of calling] i(2) by simp
  then have left: "W_Leave \<notin> set (dpcs s)" "W_Over \<notin> set (dpcs s)" using D(5) by blast+
  have ws: "W_Sleep \<in> set ((dpcs s)[i := A_Over]) \<longleftrightarrow> W_Sleep \<in> set (dpcs s)" using set_update_other [OF i(1), of W_Sleep A_Over] i(2) by simp
  show ?thesis
  proof (cases "W_Sleep \<in> set (dpcs s)")
    case False
    then have "s' = dgoto i A_Over s" using n ws by (simp add: dnotify_one_def dgoto_def)
    moreover have "dpool_inv (dgoto i A_Over s)"
      by (rule dgoto_inv [OF inv i(1)]) (use i(2) D(6) False left in auto)
    ultimately show ?thesis by simp
  next
    case True
    then have j: "j < length (dpcs s)" "(dpcs s)[i := A_Over] ! j = W_Sleep" "s' = dgoto j W_Woke (dgoto i A_Over s)"
      using n ws by (auto simp: dnotify_one_def dgoto_def split: if_splits)
    then have ij: "i \<noteq> j" "dpcs s ! j = W_Sleep" using i(1) by (auto simp: nth_list_update split: if_splits)
    let ?t = "dgoto j W_Woke s"
    have t: "dpool_inv ?t" by (rule wake_inv [OF inv j(1) ij(2)])
    have pc: "i < length (dpcs ?t)" "dpcs ?t ! i = A_Notify" using i ij(1) by (simp_all add: dgoto_def)
    have "length (dqueue s) \<le> cnt dcoming (dpcs s)" using D(4) True by simp
    then have le: "length (dqueue s) \<le> cnt dcoming ((dpcs s)[j := W_Woke, i := A_Over])"
      using cnt_swap [OF j(1), of dcoming W_Woke] cnt_swap [OF pc(1), of dcoming A_Over] ij(2) pc(2) by (simp add: dgoto_def)
    have "dpool_inv (dgoto i A_Over ?t)"
      by (rule dgoto_inv [OF t pc(1)]) (use pc(2) le D(6) left open_ set_update_mem [of _ "dpcs s" j W_Woke] in \<open>auto simp: dgoto_def\<close>)
    moreover have "s' = dgoto i A_Over ?t" using j(3) ij(1) by (simp add: dgoto_def list_update_swap)
    ultimately show ?thesis by simp
  qed
qed

lemma dthread_step_inv:
  assumes inv: "dpool_inv s" and i: "i < length (dpcs s)" and step: "dthread_step throws i j s = Some r"
  shows "\<exists>s'. r = Inr s' \<and> dpool_inv s'"
proof -
  note D = dpool_invD [OF inv]
  have alive: "touch s x = Inr x" if "holds_pool (dpcs s ! i) \<or> calling (dpcs s ! i)" for x :: "'a dpool"
    by (rule alive_while_held [OF inv that nth_mem [OF i]])
  show ?thesis
  proof (cases "dpcs s ! i")
    case W_Lock
    then show ?thesis using step alive worker_turn_inv [OF inv i] by (simp add: dthread_step_def) blast
  next
    case W_Woke
    then show ?thesis using step alive worker_turn_inv [OF inv i] by (simp add: dthread_step_def) blast
  next
    case (W_Task t)
    have "dpool_inv (s\<lparr>aborted := True\<rparr>)" using inv by (auto simp: dpool_inv_def)
    moreover have "dpool_inv (dgoto i W_Lock (s\<lparr>d_ran := d_ran s @ [t]\<rparr>))"
      by (rule dgoto_inv [OF inv i]) (use W_Task D(4-6) cnt_swap [OF i, of dcoming W_Lock] in auto)
    ultimately show ?thesis using step W_Task by (auto simp: dthread_step_def split: if_splits)
  next
    case W_Leave
    have "W_Leave \<in> set (dpcs s)" using W_Leave i by (metis nth_mem)
    then have "dpool_inv (dgoto i W_Over (s\<lparr>refs := refs s - 1\<rparr>))"
      by (intro dgoto_inv [OF inv i]) (use W_Leave D(1,5,6) cnt_pos [OF i, of holds_pool] in auto)
    then show ?thesis using step W_Leave alive by (auto simp: dthread_step_def)
  next
    case (A_Enter t)
    have "\<not> isClosed s" using D(2,3) cnt_pos [OF i, of calling] A_Enter by simp
    then have "dpool_inv (dgoto i A_Notify (s\<lparr>dqueue := dqueue s @ [t], d_added := d_added s @ [t]\<rparr>))"
      by (intro dgoto_inv [OF inv i]) (use A_Enter D(4-6) cnt_swap [OF i, of dcoming A_Notify] in auto)
    then show ?thesis using step A_Enter alive by (auto simp: dthread_step_def)
  next
    case A_Notify
    then obtain s' where s': "dnotify_one j (dgoto i A_Over s) = Some s'" "r = touch s s'"
      using step by (auto simp: dthread_step_def)
    then show ?thesis using call_ends_inv [OF inv i A_Notify s'(1)] alive A_Notify by auto
  qed (use step in \<open>simp_all add: dthread_step_def\<close>)
qed

lemma wake_simps [simp]:
  "holds_pool (wake p) = holds_pool p" "calling (wake p) = calling p" "running (wake p) = running p" "wake p \<noteq> W_Sleep" "W_Sleep \<noteq> wake p"
  "wake p = W_Leave \<longleftrightarrow> p = W_Leave" "wake p = W_Over \<longleftrightarrow> p = W_Over" "W_Leave = wake p \<longleftrightarrow> p = W_Leave" "W_Over = wake p \<longleftrightarrow> p = W_Over"
  by (auto simp: wake_def)

lemma owner_step_inv:
  assumes inv: "dpool_inv s" and step: "owner_step s = Some r"
  shows "\<exists>s'. r = Inr s' \<and> dpool_inv s'"
proof -
  note D = dpool_invD [OF inv]
  have alive: "touch s x = Inr x" if "owns_pool (owner s)" for x :: "'a dpool" using D(1) that by (simp add: touch_def)
  show ?thesis
  proof (cases "owner s")
    case (O_Start n)
    then show ?thesis
    proof (cases n)
      case 0
      have "dpool_inv (s\<lparr>owner := O_Ready\<rparr>)" using inv O_Start 0 by (auto simp: dpool_inv_def)
      then show ?thesis using step O_Start 0 by (auto simp: owner_step_def)
    next
      case (Suc m)
      have "dpool_inv (s\<lparr>owner := O_Start m, refs := refs s + 1, dpcs := dpcs s @ [W_Lock]\<rparr>)"
        using D O_Start unfolding dpool_inv_def by auto
      then show ?thesis using step O_Start Suc alive by (auto simp: owner_step_def)
    qed
  next
    case O_Close
    have "dpool_inv (s\<lparr>owner := O_Notify, isClosed := True\<rparr>)" using D O_Close unfolding dpool_inv_def by auto
    then show ?thesis using step O_Close alive by (auto simp: owner_step_def)
  next
    case O_Notify
    have c: "cnt P (map wake (dpcs s)) = cnt P (dpcs s)" if "\<And>p. P (wake p) = P p" for P
      by (rule cnt_cong) (auto simp: that)
    have r: "map (running \<circ> wake) (dpcs s) = map running (dpcs s)" by auto
    have "dpool_inv (s\<lparr>owner := O_Release, dpcs := map wake (dpcs s)\<rparr>)"
      using D O_Notify c [of holds_pool] c [of calling] unfolding dpool_inv_def by (auto simp: r)
    then show ?thesis using step O_Notify alive by (auto simp: owner_step_def)
  next
    case O_Release
    have "dpool_inv (s\<lparr>owner := O_Gone, refs := refs s - 1\<rparr>)" using D O_Release unfolding dpool_inv_def by auto
    then show ?thesis using step O_Release alive by (auto simp: owner_step_def)
  qed (use step in \<open>simp_all add: owner_step_def\<close>)
qed

lemma dmove_inv:
  assumes inv: "dpool_inv s" and move: "dmove throws s r"
  shows "\<exists>s'. r = Inr s' \<and> dpool_inv s'"
  using move
proof cases
  case work
  then show ?thesis by cases (use dthread_step_inv [OF inv] owner_step_inv [OF inv] in blast)+
next
  case (spurious i)
  then show ?thesis using wake_inv [OF inv] by blast
next
  case (no_thread n)
  note D = dpool_invD [OF inv]
  have "dpool_inv (s\<lparr>owner := O_Failed, refs := refs s - 1\<rparr>)" using D no_thread unfolding dpool_inv_def by auto
  then show ?thesis using no_thread D(1) by (auto simp: touch_def)
next
  case (add_task t)
  note D = dpool_invD [OF inv]
  have "dpool_inv (s\<lparr>dpcs := dpcs s @ [A_Enter t]\<rparr>)" using D add_task unfolding dpool_inv_def by auto
  then show ?thesis using add_task by blast
next
  case destroy
  note D = dpool_invD [OF inv]
  have "cnt calling (dpcs s) = 0" using destroy by (auto simp: cnt_def filter_empty_conv list_ex_iff)
  then have "dpool_inv (s\<lparr>owner := O_Close\<rparr>)" using D destroy unfolding dpool_inv_def by auto
  then show ?thesis using destroy by blast
qed

lemma dreach_inv: "dreach throws n r \<Longrightarrow> \<exists>s. r = Inr s \<and> dpool_inv s"
proof (induction rule: dreach.induct)
  case made
  show ?case by (simp add: dpool_inv_def new_dpool_def)
next
  case (moved s r)
  then show ?case using dmove_inv by blast
qed

fun worker :: "'a dpc \<Rightarrow> bool" where
  "worker (A_Enter t) = False" | "worker A_Notify = False" | "worker A_Over = False" | "worker _ = True"

fun to_start :: "owner_pc \<Rightarrow> nat" where
  "to_start (O_Start n) = n" | "to_start _ = 0"

definition worker_count :: "'a dpool \<Rightarrow> nat" where
  "worker_count s = cnt worker (dpcs s) + to_start (owner s)"

lemma dgoto_count: "i < length (dpcs s) \<Longrightarrow> dpcs s1 = dpcs s \<Longrightarrow> owner s1 = owner s \<Longrightarrow> worker q = worker (dpcs s ! i) \<Longrightarrow>
    worker_count (dgoto i q s1) = worker_count s"
  using cnt_swap [of i "dpcs s" worker q] by (auto simp: worker_count_def dgoto_def split: if_splits)

lemma touch_Inr: "touch s x = Inr y \<longleftrightarrow> refs s \<noteq> 0 \<and> y = x"
  by (auto simp: touch_def)

lemma dthread_step_count:
  assumes i: "i < length (dpcs s)" and step: "dthread_step throws i j s = Some (Inr s')"
  shows "worker_count s' = worker_count s \<and> owner s' = owner s"
proof -
  note go = dgoto_count [OF i]
  have turn: "worker_count (worker_turn i s) = worker_count s" if "worker (dpcs s ! i)"
    unfolding worker_turn_def using that by (auto split: list.split intro: go)
  have woken: "worker_count s1 = worker_count s" if "dpcs s ! i = A_Notify" "dnotify_one j (dgoto i A_Over s) = Some s1" for s1
  proof -
    have a: "worker_count (dgoto i A_Over s) = worker_count s" by (rule go) (simp_all add: that(1))
    show ?thesis
    proof (cases "W_Sleep \<in> set (dpcs (dgoto i A_Over s))")
      case True
      then have "j < length (dpcs (dgoto i A_Over s))" "dpcs (dgoto i A_Over s) ! j = W_Sleep" "s1 = dgoto j W_Woke (dgoto i A_Over s)"
        using that(2) by (auto simp: dnotify_one_def split: if_splits)
      then show ?thesis using dgoto_count [of j "dgoto i A_Over s" "dgoto i A_Over s" W_Woke] a by simp
    qed (use that(2) a in \<open>simp add: dnotify_one_def\<close>)
  qed
  have own: "owner (worker_turn i s) = owner s" "\<And>s1. dnotify_one j (dgoto i A_Over s) = Some s1 \<Longrightarrow> owner s1 = owner s"
    by (auto simp: worker_turn_def dgoto_def dnotify_one_def split: list.split if_splits)
  have upd: "cnt worker ((dpcs s)[i := q]) = cnt worker (dpcs s)" if "worker q = worker (dpcs s ! i)" for q
    using cnt_swap [OF i, of worker q] that by (simp split: if_splits)
  show ?thesis
  proof (cases "dpcs s ! i")
    case A_Notify
    then show ?thesis using step woken own by (auto simp: dthread_step_def touch_Inr)
  next
    case W_Lock
    then show ?thesis using step turn own by (auto simp: dthread_step_def touch_Inr)
  next
    case W_Woke
    then show ?thesis using step turn own by (auto simp: dthread_step_def touch_Inr)
  qed (use step in \<open>auto simp: dthread_step_def touch_Inr worker_count_def upd dgoto_def split: if_splits\<close>)
qed

lemma dmove_count:
  assumes "dmove throws s (Inr s')" "owner s' \<noteq> O_Failed"
  shows "worker_count s' = worker_count s \<and> owner s \<noteq> O_Failed"
  using assms(1)
proof cases
  case work
  then show ?thesis
  proof cases
    case (thread i j)
    then show ?thesis using dthread_step_count [OF thread(2), of throws j s'] assms(2) by simp
  next
    case owner
    have c: "cnt worker (map wake (dpcs s)) = cnt worker (dpcs s)" by (rule cnt_cong) (auto simp: wake_def)
    from owner show ?thesis
      by (auto simp: owner_step_def touch_Inr worker_count_def c split: owner_pc.splits nat.splits)
  qed
next
  case (spurious i)
  then show ?thesis using dgoto_count [of i s s W_Woke] assms(2) by (auto simp: dgoto_def)
next
  case (no_thread n)
  then show ?thesis using assms(2) by (auto simp: touch_def split: if_splits)
next
  case (add_task t)
  then show ?thesis by (simp add: worker_count_def)
next
  case destroy
  then show ?thesis by (simp add: worker_count_def)
qed

lemma dreach_count: "dreach throws n r \<Longrightarrow> r = Inr s \<Longrightarrow> owner s \<noteq> O_Failed \<Longrightarrow> worker_count s = n"
proof (induction arbitrary: s rule: dreach.induct)
  case made
  then show ?case by (auto simp: new_dpool_def worker_count_def)
next
  case (moved s0 r)
  then show ?case using dmove_count [of throws s0 s] by auto
qed

section \<open>What the threads do by themselves\<close>

fun dweight :: "'a dpc \<Rightarrow> nat" where
  "dweight W_Lock = 2" | "dweight W_Sleep = 0" | "dweight W_Woke = 2" | "dweight (W_Task t) = 3" | "dweight W_Leave = 1"
| "dweight W_Over = 0" | "dweight (A_Enter t) = 6" | "dweight A_Notify = 3" | "dweight A_Over = 0"

definition owner_weight :: "'a dpool \<Rightarrow> nat" where
  "owner_weight s = (case owner s of O_Start n \<Rightarrow> 3 * n + 1 | O_Ready \<Rightarrow> 0 | O_Close \<Rightarrow> 2 * length (dpcs s) + 3
     | O_Notify \<Rightarrow> 2 * length (dpcs s) + 2 | O_Release \<Rightarrow> 1 | O_Gone \<Rightarrow> 0 | O_Failed \<Rightarrow> 0)"

definition work_left :: "'a dpool \<Rightarrow> nat" where
  "work_left s = sum_list (map dweight (dpcs s)) + 2 * length (dqueue s) + owner_weight s + (if aborted s then 0 else 1)"

lemma weight_swap:
  "i < length ps \<Longrightarrow> sum_list (map dweight (ps[i := q])) + dweight (ps ! i) = sum_list (map dweight ps) + dweight q"
proof (induction ps arbitrary: i)
  case (Cons p ps)
  then show ?case by (cases i) auto
qed simp

lemma weight_wake: "sum_list (map dweight (map wake ps)) \<le> sum_list (map dweight ps) + 2 * length ps"
  by (induction ps) (auto simp: wake_def)

lemma dgoto_weight:
  assumes "i < length (dpcs s)" "dpcs s1 = dpcs s" "owner s1 = owner s" "aborted s1 = aborted s"
    "dweight q + 2 * length (dqueue s1) < dweight (dpcs s ! i) + 2 * length (dqueue s)"
  shows "work_left (dgoto i q s1) < work_left s"
  using weight_swap [OF assms(1), of q] assms(2-5) by (simp add: work_left_def dgoto_def owner_weight_def split: owner_pc.split)

lemma dgoto_weight_eq:
  "i < length (dpcs s) \<Longrightarrow> work_left (dgoto i q s) + dweight (dpcs s ! i) = work_left s + dweight q"
  using weight_swap [of i "dpcs s" q] by (simp add: work_left_def dgoto_def owner_weight_def split: owner_pc.split)

lemma dwork_weight:
  assumes "dwork throws s (Inr s')"
  shows "work_left s' < work_left s"
  using assms
proof cases
  case (thread i j)
  note go = dgoto_weight [OF thread(2)]
  show ?thesis
  proof (cases "dpcs s ! i")
    case W_Lock
    then show ?thesis using thread(3) by (auto simp: dthread_step_def touch_Inr worker_turn_def split: list.splits intro!: go)
  next
    case W_Woke
    then show ?thesis using thread(3) by (auto simp: dthread_step_def touch_Inr worker_turn_def split: list.splits intro!: go)
  next
    case (W_Task t)
    show ?thesis
    proof (cases "throws t")
      case True
      then show ?thesis using thread(1,3) W_Task by (auto simp: dthread_step_def work_left_def owner_weight_def split: owner_pc.split)
    next
      case False
      then show ?thesis using thread(3) W_Task by (auto simp: dthread_step_def intro!: go)
    qed
  next
    case W_Leave
    then show ?thesis using thread(3) by (auto simp: dthread_step_def touch_Inr intro!: go)
  next
    case (A_Enter t)
    then show ?thesis using thread(3) by (auto simp: dthread_step_def touch_Inr intro!: go)
  next
    case A_Notify
    have l: "work_left (dgoto i A_Over s) + 3 \<le> work_left s"
      using dgoto_weight_eq [OF thread(2), of A_Over] A_Notify by simp
    obtain s1 where s1: "dnotify_one j (dgoto i A_Over s) = Some s1" "s' = s1"
      using thread(3) A_Notify by (auto simp: dthread_step_def touch_Inr)
    show ?thesis
    proof (cases "W_Sleep \<in> set (dpcs (dgoto i A_Over s))")
      case True
      then have j: "j < length (dpcs (dgoto i A_Over s))" "dpcs (dgoto i A_Over s) ! j = W_Sleep" "s1 = dgoto j W_Woke (dgoto i A_Over s)"
        using s1(1) by (auto simp: dnotify_one_def split: if_splits)
      then have "work_left s1 = work_left (dgoto i A_Over s) + 2" using dgoto_weight_eq [OF j(1), of W_Woke] by simp
      then show ?thesis using l s1(2) by simp
    qed (use s1 l in \<open>simp add: dnotify_one_def\<close>)
  qed (use thread(3) in \<open>simp_all add: dthread_step_def\<close>)
next
  case owner
  then show ?thesis
    using weight_wake [of "dpcs s"]
    by (auto simp: owner_step_def touch_Inr work_left_def owner_weight_def split: owner_pc.splits nat.splits)
qed

text \<open>A state in which no thread can move\<close>

definition at_rest :: "('a \<Rightarrow> bool) \<Rightarrow> 'a dpool \<Rightarrow> bool" where
  "at_rest throws s \<longleftrightarrow> \<not> aborted s \<and> (\<nexists>r. dwork throws s r)"

lemma at_rest_pcs:
  assumes "at_rest throws s"
  shows "set (dpcs s) \<subseteq> {W_Sleep, W_Over, A_Over}" "owner s \<in> {O_Ready, O_Gone, O_Failed}"
proof -
  have na: "\<not> aborted s" and nw: "\<And>r. \<not> dwork throws s r" using assms by (auto simp: at_rest_def)
  have none: "dthread_step throws i j s = None" if "i < length (dpcs s)" for i j
    using dwork.thread [OF na that] nw by (cases "dthread_step throws i j s") auto
  show "set (dpcs s) \<subseteq> {W_Sleep, W_Over, A_Over}"
  proof
    fix p assume "p \<in> set (dpcs s)"
    then obtain i where i: "i < length (dpcs s)" "dpcs s ! i = p" by (auto simp: in_set_conv_nth)
    have "p \<noteq> A_Notify"
    proof
      assume p: "p = A_Notify"
      let ?s = "dgoto i A_Over s"
      obtain j where "W_Sleep \<in> set (dpcs ?s) \<longrightarrow> j < length (dpcs ?s) \<and> dpcs ?s ! j = W_Sleep" by (metis in_set_conv_nth)
      then have "dnotify_one j ?s \<noteq> None" by (auto simp: dnotify_one_def)
      then show False using none [OF i(1), of j] i(2) p by (auto simp: dthread_step_def)
    qed
    then show "p \<in> {W_Sleep, W_Over, A_Over}" using none [OF i(1), of 0] i(2) by (cases p) (auto simp: dthread_step_def)
  qed
  have "owner_step s = None" using dwork.owner [OF na] nw by (cases "owner_step s") auto
  then show "owner s \<in> {O_Ready, O_Gone, O_Failed}" by (auto simp: owner_step_def split: owner_pc.splits nat.splits)
qed

lemma at_restI:
  assumes "\<not> aborted s" "set (dpcs s) \<subseteq> {W_Sleep, W_Over, A_Over}" "owner s \<in> {O_Ready, O_Gone, O_Failed}"
  shows "at_rest throws s"
proof -
  have "dthread_step throws i j s = None" if "i < length (dpcs s)" for i j
    using assms(2) nth_mem [OF that] by (auto simp: dthread_step_def split: dpc.split)
  then show ?thesis using assms(1,3) by (auto simp: at_rest_def owner_step_def elim!: dwork.cases)
qed

lemma at_rest_facts:
  assumes "dreach throws n (Inr s)" "at_rest throws s" "0 < n" "owner s \<noteq> O_Failed"
  shows "dqueue s = []" "mset (d_ran s) = mset (d_added s)" "owner s = O_Gone \<Longrightarrow> refs s = 0"
proof -
  have inv: "dpool_inv s" using dreach_inv [OF assms(1)] by simp
  note D = dpool_invD [OF inv]
  note R = at_rest_pcs [OF assms(2)]
  have "cnt worker (dpcs s) = n" using dreach_count [OF assms(1) refl assms(4)] R(2) by (auto simp: worker_count_def)
  then obtain p where "p \<in> set (dpcs s)" "worker p" using assms(3) by (auto simp: cnt_def filter_empty_conv dest!: gr0_implies_Suc)
    (metis filter_False list.size(3) nat.distinct(1))
  then have p: "W_Sleep \<in> set (dpcs s) \<or> W_Over \<in> set (dpcs s)" using R(1) by auto
  have "cnt dcoming (dpcs s) = 0" "map running (dpcs s) = map (\<lambda>_. []) (dpcs s)"
    using R(1) by (auto simp: cnt_def filter_empty_conv)
  then show "dqueue s = []" and ran: "mset (d_ran s) = mset (d_added s)" using p D(4-7) by auto
  show "refs s = 0" if g: "owner s = O_Gone"
  proof -
    have "W_Sleep \<notin> set (dpcs s)" using D(2,4) g by auto
    then have "cnt holds_pool (dpcs s) = 0" using R(1) by (auto simp: cnt_def filter_empty_conv)
    then show ?thesis using D(1) g by simp
  qed
qed

section \<open>Schedules\<close>

datatype 'a dcommand = Thread nat nat | Owner | Spawn_Fails | Call 'a | Destroy

fun dcommand_step :: "('a \<Rightarrow> bool) \<Rightarrow> 'a dcommand \<Rightarrow> 'a dpool \<Rightarrow> 'a dpool result option" where
  "dcommand_step throws (Thread i j) s = (if \<not> aborted s \<and> i < length (dpcs s) then dthread_step throws i j s else None)"
| "dcommand_step throws Owner s = (if aborted s then None else owner_step s)"
| "dcommand_step throws Spawn_Fails s = (case owner s of
     O_Start (Suc n) \<Rightarrow> if aborted s then None else Some (touch s (s\<lparr>owner := O_Failed, refs := refs s - 1\<rparr>))
   | _ \<Rightarrow> None)"
| "dcommand_step throws (Call t) s = (if \<not> aborted s \<and> owner s = O_Ready then Some (Inr (s\<lparr>dpcs := dpcs s @ [A_Enter t]\<rparr>)) else None)"
| "dcommand_step throws Destroy s = (if \<not> aborted s \<and> owner s = O_Ready \<and> \<not> list_ex calling (dpcs s)
     then Some (Inr (s\<lparr>owner := O_Close\<rparr>)) else None)"

fun drun :: "('a \<Rightarrow> bool) \<Rightarrow> 'a dcommand list \<Rightarrow> 'a dpool \<Rightarrow> 'a dpool option" where
  "drun throws [] s = Some s"
| "drun throws (c # cs) s = (case dcommand_step throws c s of Some (Inr s') \<Rightarrow> drun throws cs s' | _ \<Rightarrow> None)"

lemma dcommand_moves: "dcommand_step throws c s = Some r \<Longrightarrow> dmove throws s r"
  by (cases c) (auto intro: dmove.intros dmove.no_thread [unfolded One_nat_def] dwork.intros split: if_splits owner_pc.splits nat.splits)

lemma drun_reaches: "drun throws cs s = Some s' \<Longrightarrow> dreach throws n (Inr s) \<Longrightarrow> dreach throws n (Inr s')"
proof (induction throws cs s rule: drun.induct)
  case (2 throws c cs s)
  then obtain s1 where "dcommand_step throws c s = Some (Inr s1)" "drun throws cs s1 = Some s'"
    by (auto split: option.splits sum.splits)
  then show ?case using 2 dreach.moved [OF 2(3)] dcommand_moves by blast
qed simp

lemmas drun_from_start = drun_reaches [OF _ dreach.made]

lemmas drun_defs = new_dpool_def owner_step_def dthread_step_def dgoto_def touch_def worker_turn_def dnotify_one_def wake_def

section \<open>Properties\<close>

text \<open>No thread ever touches the shared \<open>Pool\<close> after it was freed: the count is the number of workers that have not
  left plus one while the object or its constructor lives.\<close>

theorem shared_pool_outlives_its_users:
  assumes "dreach throws n r"
  shows "\<exists>s. r = Inr s \<and> refs s = cnt holds_pool (dpcs s) + (if owns_pool (owner s) then 1 else 0)"
  using dreach_inv [OF assms] dpool_invD(1) by blast

text \<open>C17: In a pool of at least one thread (which the constructor asserts) whose constructor was completed, as long as no task
  throws: the threads always come to rest, when the client makes no more calls and no wait ends by itself.  At rest every
  task that was added has been run once, whether the object still exists or not, and once it was destroyed the shared
  \<open>Pool\<close> has been freed.\<close>

theorem detached_workers_drain_the_queue:
  assumes "dreach throws n (Inr s)" "0 < n" "owner s \<noteq> O_Failed"
  shows "(at_rest throws s \<longrightarrow> dqueue s = [] \<and> mset (d_ran s) = mset (d_added s) \<and> (owner s = O_Gone \<longrightarrow> refs s = 0)) \<and>
    (\<nexists>f. f 0 = s \<and> (\<forall>k. dwork throws (f k) (Inr (f (Suc k)))))"
proof -
  have False if "\<forall>k. dwork throws (f k) (Inr (f (Suc k)))" for f :: "nat \<Rightarrow> 'a dpool"
  proof -
    have "wf (measure work_left)" by simp
    moreover have "\<forall>k. (f (Suc k), f k) \<in> measure work_left" using that by (auto intro: dwork_weight)
    ultimately show False unfolding wf_iff_no_infinite_down_chain by blast
  qed
  then show ?thesis using at_rest_facts [OF assms(1) _ assms(2,3)] by blast
qed

definition drained :: "nat dcommand list" where
  "drained = [Owner, Owner, Call 7, Thread 1 0, Thread 0 0, Thread 1 0, Thread 0 0, Destroy, Owner, Owner, Owner, Thread 0 0, Thread 0 0]"

lemma drained_run:
  "\<exists>s. drun (\<lambda>_. False) drained (new_dpool 1) = Some s \<and> dpcs s = [W_Over, A_Over] \<and> owner s = O_Gone \<and> \<not> aborted s \<and> d_added s = [7]"
  by (simp add: drained_def drun_defs)

theorem shared_pool_outlives_its_users_witness:
  "\<exists>s. drun (\<lambda>_. False) drained (new_dpool 1) = Some s \<and> refs s = 0"
proof -
  obtain s where s: "drun (\<lambda>_. False) drained (new_dpool 1) = Some s" "dpcs s = [W_Over, A_Over]" "owner s = O_Gone"
    using drained_run by blast
  then show ?thesis using shared_pool_outlives_its_users [OF drun_from_start [OF s(1)]] by auto
qed

theorem detached_workers_drain_the_queue_witness:
  "\<exists>s. drun (\<lambda>_. False) drained (new_dpool 1) = Some s \<and> mset (d_ran s) = {#7#} \<and> refs s = 0"
proof -
  obtain s where s: "drun (\<lambda>_. False) drained (new_dpool 1) = Some s" "dpcs s = [W_Over, A_Over]" "owner s = O_Gone" "\<not> aborted s" "d_added s = [7]"
    using drained_run by blast
  have "at_rest (\<lambda>_. False) s"
    using s(2-4) by (intro at_restI) simp_all
  then show ?thesis using detached_workers_drain_the_queue [OF drun_from_start [OF s(1)]] s by auto
qed

text \<open>The destructor does not wait: it can return with a task in the queue, which is lost if the program then ends.  And a
  constructor that cannot start all its workers leaves those it has started asleep for good, with the \<open>Pool\<close> they share.\<close>

theorem destructor_leaves_tasks_behind:
  "(\<exists>s. dreach throws 1 (Inr s) \<and> owner s = O_Gone \<and> dqueue s = [t] \<and> d_ran s = []) \<and>
   (\<exists>s. dreach throws 2 (Inr s) \<and> owner s = O_Failed \<and> dpcs s = [W_Sleep] \<and> refs s = 1 \<and> at_rest throws s)"
proof (intro conjI)
  let ?cs = "[Owner, Owner, Call t, Thread 1 0, Thread 1 0, Destroy, Owner, Owner, Owner]"
  have "\<exists>s. drun throws ?cs (new_dpool 1) = Some s \<and> owner s = O_Gone \<and> dqueue s = [t] \<and> d_ran s = []"
    by (simp add: drun_defs)
  then show "\<exists>s. dreach throws 1 (Inr s) \<and> owner s = O_Gone \<and> dqueue s = [t] \<and> d_ran s = []" using drun_from_start by blast
next
  let ?cs = "[Owner, Thread 0 0, Spawn_Fails]"
  have "\<exists>s. drun throws ?cs (new_dpool 2) = Some s \<and> owner s = O_Failed \<and> dpcs s = [W_Sleep] \<and> refs s = 1 \<and> \<not> aborted s"
    by (simp add: drun_defs numeral_2_eq_2)
  then obtain s where s: "dreach throws 2 (Inr s)" "owner s = O_Failed" "dpcs s = [W_Sleep]" "refs s = 1" "\<not> aborted s"
    using drun_from_start by blast
  moreover have "at_rest throws s" using s(2,3,5) by (intro at_restI) simp_all
  ultimately show "\<exists>s. dreach throws 2 (Inr s) \<and> owner s = O_Failed \<and> dpcs s = [W_Sleep] \<and> refs s = 1 \<and> at_rest throws s" by blast
qed

end
