(* ===== verification/CountingMalloc.thy ===== *)
theory CountingMalloc
  imports Prelude
begin

text \<open>
  The counting allocator of \<^verbatim>\<open>libevent/event_mem.c\<close>: three functions that libevent is told to use instead of \<^verbatim>\<open>malloc\<close>,
  \<^verbatim>\<open>realloc\<close> and \<^verbatim>\<open>free\<close>, each block with its size in the eight bytes in front of it.

  Sizes are 64 bit words, so \<^verbatim>\<open>sz + ALIGNMENT\<close> wraps around.  The allocator of the system is a parameter: what
  \<^verbatim>\<open>malloc\<close> and \<^verbatim>\<open>realloc\<close> return, \<open>None\<close> for the null pointer, depends on the chunks in use and the size.  A chunk is its
  size and the word that its first eight bytes hold; a store into a chunk of fewer bytes is \<open>Out_Of_Bounds\<close>.
\<close>

section \<open>The functions\<close>

type_synonym size = "64 word"

definition ALIGNMENT :: size where "ALIGNMENT = 8"

record chunk =
  bytes :: size
  header :: size

record counted =
  chunks :: "nat \<rightharpoonup> chunk"
  total_allocated :: size

definition OUTPTR :: "nat \<Rightarrow> nat" where "OUTPTR p = p + 8"
definition INPTR :: "nat \<Rightarrow> nat" where "INPTR p = p - 8"

type_synonym os_alloc = "(nat \<rightharpoonup> chunk) \<Rightarrow> size \<Rightarrow> nat option"

definition put_header :: "nat \<Rightarrow> size \<Rightarrow> (nat \<rightharpoonup> chunk) \<Rightarrow> (nat \<rightharpoonup> chunk) result" where
  "put_header p v m = (case m p of None \<Rightarrow> Inl Dangling
     | Some c \<Rightarrow> if bytes c < 8 then Inl Out_Of_Bounds else Inr (m(p \<mapsto> c\<lparr>header := v\<rparr>)))"

text \<open>\<open>INPTR\<close> of a null pointer, or of one that was not handed out, is no chunk.\<close>

definition get_header :: "nat \<Rightarrow> (nat \<rightharpoonup> chunk) \<Rightarrow> size result" where
  "get_header ptr m = (if ptr < 8 then Inl Null_Deref else (case m (INPTR ptr) of None \<Rightarrow> Inl Dangling
     | Some c \<Rightarrow> if bytes c < 8 then Inl Out_Of_Bounds else Inr (header c)))"

definition replacement_malloc :: "os_alloc \<Rightarrow> size \<Rightarrow> counted \<Rightarrow> (nat \<times> counted) result" where
  "replacement_malloc os sz s = (case os (chunks s) (sz + ALIGNMENT) of
     None \<Rightarrow> Inr (0, s)
   | Some chunk \<Rightarrow>
       rbind (put_header chunk sz ((chunks s)(chunk \<mapsto> \<lparr>bytes = sz + ALIGNMENT, header = 0\<rparr>))) (\<lambda>m.
         Inr (OUTPTR chunk, \<lparr>chunks = m, total_allocated = total_allocated s + sz\<rparr>)))"

text \<open>\<^verbatim>\<open>realloc\<close> keeps the chunk when it fails, and otherwise returns one that replaces it, perhaps in the same place.\<close>

definition replacement_realloc :: "os_alloc \<Rightarrow> nat \<Rightarrow> size \<Rightarrow> counted \<Rightarrow> (nat \<times> counted) result" where
  "replacement_realloc os ptr sz s =
     rbind (if ptr \<noteq> 0 then get_header ptr (chunks s) else Inr 0) (\<lambda>old_size.
       let rest = (if ptr \<noteq> 0 then (chunks s)(INPTR ptr := None) else chunks s) in
       (case os rest (sz + ALIGNMENT) of
          None \<Rightarrow> Inr (0, s)
        | Some p \<Rightarrow>
            rbind (put_header p sz (rest(p \<mapsto> \<lparr>bytes = sz + ALIGNMENT, header = 0\<rparr>))) (\<lambda>m.
              Inr (OUTPTR p, \<lparr>chunks = m, total_allocated = total_allocated s - old_size + sz\<rparr>))))"

definition replacement_free :: "nat \<Rightarrow> counted \<Rightarrow> counted result" where
  "replacement_free ptr s =
     rbind (get_header ptr (chunks s)) (\<lambda>sz.
       Inr \<lparr>chunks = (chunks s)(INPTR ptr := None), total_allocated = total_allocated s - sz\<rparr>)"

definition get_total_allocated :: "counted \<Rightarrow> size" where
  "get_total_allocated s = total_allocated s"

text \<open>The calls of a program that uses the three functions\<close>

datatype request = Malloc size | Realloc nat size | Free nat

definition serve :: "os_alloc \<Rightarrow> request \<Rightarrow> counted \<Rightarrow> (nat \<times> counted) result" where
  "serve os r s = (case r of
     Malloc sz \<Rightarrow> replacement_malloc os sz s
   | Realloc ptr sz \<Rightarrow> replacement_realloc os ptr sz s
   | Free ptr \<Rightarrow> rbind (replacement_free ptr s) (\<lambda>s'. Inr (0, s')))"

definition start_counting_bytes :: counted where
  "start_counting_bytes = \<lparr>chunks = Map.empty, total_allocated = 0\<rparr>"

text \<open>A program may free and resize what it was given and has not freed, and asks for sizes that can be met.\<close>

definition fair :: "request \<Rightarrow> counted \<Rightarrow> bool" where
  "fair r s \<longleftrightarrow> (case r of
     Malloc sz \<Rightarrow> sz \<le> - 9
   | Realloc ptr sz \<Rightarrow> sz \<le> - 9 \<and> (ptr = 0 \<or> 8 < ptr \<and> INPTR ptr \<in> dom (chunks s))
   | Free ptr \<Rightarrow> 8 < ptr \<and> INPTR ptr \<in> dom (chunks s))"

inductive counting :: "os_alloc \<Rightarrow> counted \<Rightarrow> bool" for os where
  started: "counting os start_counting_bytes"
| served: "counting os s \<Longrightarrow> fair r s \<Longrightarrow> serve os r s = Inr (p, s') \<Longrightarrow> counting os s'"

text \<open>\<^verbatim>\<open>test_memory_tracking\<close> and the assertion of \<^verbatim>\<open>main\<close>: the list of the totals that are printed.  Its own \<^verbatim>\<open>malloc\<close>, \<^verbatim>\<open>realloc\<close>
  and \<^verbatim>\<open>free\<close> are those of the system.  What \<^verbatim>\<open>event_base_new\<close> and \<^verbatim>\<open>event_base_free\<close> ask for are the lists \<open>news\<close> and \<open>frees\<close>.\<close>

fun serve_all :: "os_alloc \<Rightarrow> request list \<Rightarrow> counted \<Rightarrow> counted result" where
  "serve_all os [] s = Inr s"
| "serve_all os (r # rs) s = rbind (serve os r s) (\<lambda>(p, s'). serve_all os rs s')"

definition test_memory_tracking :: "os_alloc \<Rightarrow> request list \<Rightarrow> request list \<Rightarrow> counted \<Rightarrow> (size list \<times> counted) result" where
  "test_memory_tracking os news frees s = (let a = get_total_allocated s in
     rbind (serve_all os news s) (\<lambda>s1. rbind (serve_all os frees s1) (\<lambda>s2.
       Inr ([a, get_total_allocated s, get_total_allocated s, get_total_allocated s, get_total_allocated s1, get_total_allocated s2], s2))))"

definition mem_main :: "os_alloc \<Rightarrow> request list \<Rightarrow> request list \<Rightarrow> (size list \<times> bool) result" where
  "mem_main os news frees = rbind (test_memory_tracking os news frees start_counting_bytes)
     (\<lambda>(out, s). Inr (out, get_total_allocated s = 0))"

text \<open>The library asks only for what it may ask for.\<close>

fun all_fair :: "os_alloc \<Rightarrow> request list \<Rightarrow> counted \<Rightarrow> bool" where
  "all_fair os [] s \<longleftrightarrow> True"
| "all_fair os (r # rs) s \<longleftrightarrow> fair r s \<and> (case serve os r s of Inl e \<Rightarrow> False | Inr (p, s') \<Rightarrow> all_fair os rs s')"

section \<open>What is counted\<close>

text \<open>What the system promises: a chunk that is not in use, and no more memory than there are addresses\<close>

definition os_fair :: "os_alloc \<Rightarrow> bool" where
  "os_fair os \<longleftrightarrow> (\<forall>m n p. finite (dom m) \<longrightarrow> os m n = Some p \<longrightarrow> 0 < p \<and> m p = None \<and>
     (\<Sum>q \<in> dom m. unat (bytes (the (m q)))) + unat n < 2 ^ 64)"

definition in_use :: "counted \<Rightarrow> nat" where
  "in_use s = (\<Sum>q \<in> dom (chunks s). unat (header (the (chunks s q))))"

definition count_inv :: "counted \<Rightarrow> bool" where
  "count_inv s \<longleftrightarrow> finite (dom (chunks s)) \<and>
     (\<forall>q c. chunks s q = Some c \<longrightarrow> 0 < q \<and> bytes c = header c + 8 \<and> header c \<le> - 9) \<and>
     unat (total_allocated s) = in_use s"

lemma room:
  assumes "sz \<le> (- 9 :: size)"
  shows "unat (sz + 8) = unat sz + 8" "\<not> sz + 8 < 8"
proof -
  have "unat sz \<le> unat (- 9 :: size)" using assms by (simp only: word_le_nat_alt)
  also have "unat (- 9 :: size) = 2 ^ 64 - 9" by simp
  finally have "unat sz + 8 < 2 ^ 64" by simp
  then show "unat (sz + 8) = unat sz + 8" by (simp add: unat_word_ariths)
  then show "\<not> sz + 8 < 8" by (simp add: word_less_nat_alt)
qed

lemma count_invD:
  assumes "count_inv s"
  shows "finite (dom (chunks s))" "chunks s q = Some c \<Longrightarrow> 0 < q \<and> bytes c = header c + 8 \<and> header c \<le> - 9"
    "unat (total_allocated s) = in_use s"
  using assms unfolding count_inv_def by blast+

lemma get_header_inv:
  assumes "count_inv s" "8 < ptr" "INPTR ptr \<in> dom (chunks s)"
  obtains c where "chunks s (INPTR ptr) = Some c" "get_header ptr (chunks s) = Inr (header c)"
proof -
  obtain c where c: "chunks s (INPTR ptr) = Some c" using assms(3) by auto
  then have "\<not> bytes c < 8" using count_invD(2) [OF assms(1) c] room(2) [of "header c"] by simp
  then show ?thesis using that c assms(2) by (auto simp: get_header_def)
qed

lemma in_use_remove:
  assumes "finite (dom m)" "m q = Some c"
  shows "(\<Sum>p \<in> dom m. unat (header (the (m p)))) = (\<Sum>p \<in> dom (m(q := None)). unat (header (the ((m(q := None)) p)))) + unat (header c)"
proof -
  have d: "dom (m(q := None)) = dom m - {q}" by auto
  have "(\<Sum>p \<in> dom m. unat (header (the (m p)))) = unat (header c) + (\<Sum>p \<in> dom m - {q}. unat (header (the (m p))))"
    using sum.remove [OF assms(1) domI [of m q c], of "\<lambda>p. unat (header (the (m p)))"] assms(2) by simp
  moreover have "(\<Sum>p \<in> dom m - {q}. unat (header (the (m p)))) = (\<Sum>p \<in> dom m - {q}. unat (header (the ((m(q := None)) p))))"
    by (rule sum.cong) auto
  ultimately show ?thesis unfolding d by linarith
qed

lemma in_use_add:
  assumes "finite (dom m)" "m q = None"
  shows "(\<Sum>p \<in> dom (m(q \<mapsto> c)). unat (header (the ((m(q \<mapsto> c)) p)))) = (\<Sum>p \<in> dom m. unat (header (the (m p)))) + unat (header c)"
proof -
  have m: "(m(q \<mapsto> c))(q := None) = m" using assms(2) by (auto simp: fun_eq_iff)
  have "finite (dom (m(q \<mapsto> c)))" using assms(1) by simp
  from in_use_remove [OF this, of q c] show ?thesis unfolding m by (simp del: dom_fun_upd)
qed

text \<open>Removing a block and adding one: the steps of all three functions\<close>

lemma remove_inv:
  assumes "count_inv s" "chunks s q = Some c"
  shows "count_inv \<lparr>chunks = (chunks s)(q := None), total_allocated = total_allocated s - header c\<rparr>"
proof -
  have t: "unat (total_allocated s) = in_use \<lparr>chunks = (chunks s)(q := None), total_allocated = x\<rparr> + unat (header c)" for x
    using in_use_remove [of "chunks s" q c] count_invD(1,3) [OF assms(1)] assms(2) by (simp add: in_use_def)
  from this [of 0] have "header c \<le> total_allocated s" by (simp add: word_le_nat_alt)
  then have "unat (total_allocated s - header c) = unat (total_allocated s) - unat (header c)" by (rule unat_sub)
  then have "unat (total_allocated s - header c) = in_use \<lparr>chunks = (chunks s)(q := None), total_allocated = total_allocated s - header c\<rparr>"
    using t [of "total_allocated s - header c"] by simp
  then show ?thesis using count_invD(1,2) [OF assms(1)] by (auto simp: count_inv_def)
qed

lemma add_inv:
  assumes "count_inv s" "os_fair os" "os (chunks s) (sz + ALIGNMENT) = Some p" "sz \<le> - 9"
  shows "count_inv \<lparr>chunks = (chunks s)(p \<mapsto> \<lparr>bytes = sz + ALIGNMENT, header = sz\<rparr>), total_allocated = total_allocated s + sz\<rparr>"
    "put_header p sz ((chunks s)(p \<mapsto> \<lparr>bytes = sz + ALIGNMENT, header = 0\<rparr>)) = Inr ((chunks s)(p \<mapsto> \<lparr>bytes = sz + ALIGNMENT, header = sz\<rparr>))"
proof -
  note D = count_invD [OF assms(1)]
  have os: "0 < p" "chunks s p = None" "(\<Sum>q \<in> dom (chunks s). unat (bytes (the (chunks s q)))) + unat (sz + 8) < 2 ^ 64"
    using assms(2,3) D(1) unfolding os_fair_def ALIGNMENT_def by blast+
  have "in_use s \<le> (\<Sum>q \<in> dom (chunks s). unat (bytes (the (chunks s q))))"
    unfolding in_use_def
  proof (rule sum_mono)
    fix q assume "q \<in> dom (chunks s)"
    then obtain c where "chunks s q = Some c" by auto
    then show "unat (header (the (chunks s q))) \<le> unat (bytes (the (chunks s q)))" using D(2) [of q c] room(1) [of "header c"] by simp
  qed
  then have "unat (total_allocated s) + unat sz < 2 ^ 64" using os(3) D(3) room(1) [OF assms(4)] by simp
  then have "unat (total_allocated s + sz) = unat (total_allocated s) + unat sz" by (simp add: unat_word_ariths)
  moreover have "in_use \<lparr>chunks = (chunks s)(p \<mapsto> \<lparr>bytes = sz + ALIGNMENT, header = sz\<rparr>), total_allocated = x\<rparr> = in_use s + unat sz" for x
    using in_use_add [OF D(1) os(2), of "\<lparr>bytes = sz + ALIGNMENT, header = sz\<rparr>"] by (simp add: in_use_def)
  ultimately show "count_inv \<lparr>chunks = (chunks s)(p \<mapsto> \<lparr>bytes = sz + ALIGNMENT, header = sz\<rparr>), total_allocated = total_allocated s + sz\<rparr>"
    using D os(1) assms(4) by (auto simp: count_inv_def ALIGNMENT_def)
  show "put_header p sz ((chunks s)(p \<mapsto> \<lparr>bytes = sz + ALIGNMENT, header = 0\<rparr>)) = Inr ((chunks s)(p \<mapsto> \<lparr>bytes = sz + ALIGNMENT, header = sz\<rparr>))"
    using room(2) [OF assms(4)] by (simp add: put_header_def ALIGNMENT_def)
qed

lemma serve_inv:
  assumes inv: "count_inv s" and os: "os_fair os" and fair: "fair r s"
  shows "\<exists>p s'. serve os r s = Inr (p, s') \<and> count_inv s'"
proof (cases r)
  case (Malloc sz)
  then show ?thesis
    using add_inv [OF inv os] inv fair by (cases "os (chunks s) (sz + ALIGNMENT)") (auto simp: serve_def replacement_malloc_def fair_def)
next
  case (Free ptr)
  then obtain c where "chunks s (INPTR ptr) = Some c" "get_header ptr (chunks s) = Inr (header c)"
    using get_header_inv [OF inv, of ptr] fair by (auto simp: fair_def)
  then show ?thesis using Free remove_inv [OF inv] by (simp add: serve_def replacement_free_def)
next
  case (Realloc ptr sz)
  have sz: "sz \<le> - 9" using fair Realloc by (simp add: fair_def)
  show ?thesis
  proof (cases "ptr = 0")
    case True
    then show ?thesis
      using Realloc add_inv [OF inv os _ sz] inv
      by (cases "os (chunks s) (sz + ALIGNMENT)") (auto simp: serve_def replacement_realloc_def Let_def)
  next
    case False
    then obtain c where c: "chunks s (INPTR ptr) = Some c" "get_header ptr (chunks s) = Inr (header c)"
      using get_header_inv [OF inv, of ptr] fair Realloc by (auto simp: fair_def)
    let ?s = "\<lparr>chunks = (chunks s)(INPTR ptr := None), total_allocated = total_allocated s - header c\<rparr>"
    have "count_inv ?s" by (rule remove_inv [OF inv c(1)])
    then show ?thesis
      using Realloc False c add_inv [OF _ os, of ?s sz] sz inv
      by (cases "os ((chunks s)(INPTR ptr := None)) (sz + ALIGNMENT)") (auto simp: serve_def replacement_realloc_def Let_def)
  qed
qed

lemma counting_inv: "counting os s \<Longrightarrow> os_fair os \<Longrightarrow> count_inv s"
proof (induction rule: counting.induct)
  case started
  show ?case by (simp add: count_inv_def start_counting_bytes_def in_use_def)
next
  case (served s r p s')
  then show ?case using serve_inv [OF served.IH, of os r] by auto
qed

section \<open>Properties\<close>

lemma total_zero:
  assumes "counting os s" "os_fair os"
  shows "get_total_allocated s = 0 \<longleftrightarrow> (\<forall>q c. chunks s q = Some c \<longrightarrow> header c = 0)"
proof -
  note D = count_invD [OF counting_inv [OF assms]]
  have "get_total_allocated s = 0 \<longleftrightarrow> in_use s = 0" using D(3) by (metis get_total_allocated_def unsigned_eq_0_iff)
  also have "\<dots> \<longleftrightarrow> (\<forall>q \<in> dom (chunks s). header (the (chunks s q)) = 0)" using D(1) by (simp add: in_use_def unsigned_eq_0_iff)
  also have "\<dots> \<longleftrightarrow> (\<forall>q c. chunks s q = Some c \<longrightarrow> header c = 0)" by force
  finally show ?thesis .
qed

text \<open>For a program that frees only what it was given, no call touches memory that is not its own, and
  \<^verbatim>\<open>get_total_allocated\<close> is the sum of the sizes that were asked for and not given back; the final assertion holds
  exactly when every block left has size 0.\<close>

theorem total_is_what_is_in_use:
  assumes "counting os s" "os_fair os"
  shows "unat (get_total_allocated s) = in_use s \<and> (fair r s \<longrightarrow> is_ok (serve os r s)) \<and>
    (get_total_allocated s = 0 \<longleftrightarrow> (\<forall>q c. chunks s q = Some c \<longrightarrow> header c = 0))"
proof -
  have inv: "count_inv s" by (rule counting_inv [OF assms])
  have "is_ok (serve os r s)" if "fair r s" using serve_inv [OF inv assms(2) that] by auto
  then show ?thesis using count_invD(3) [OF inv] total_zero [OF assms] by (simp add: get_total_allocated_def)
qed

text \<open>A block to try it on: one chunk of at most 1000 bytes\<close>

definition one_chunk :: os_alloc where
  "one_chunk m n = (if m = Map.empty \<and> n \<le> 1000 then Some 16 else None)"

lemma one_chunk_fair: "os_fair one_chunk"
  by (auto simp: os_fair_def one_chunk_def word_le_nat_alt split: if_splits)

theorem total_is_what_is_in_use_witness:
  "\<exists>p s. serve one_chunk (Malloc 100) start_counting_bytes = Inr (p, s) \<and> unat (get_total_allocated s) = 100 \<and> in_use s = 100"
proof -
  let ?s = "\<lparr>chunks = [16 \<mapsto> \<lparr>bytes = 108, header = 100\<rparr>], total_allocated = 100\<rparr>"
  have s: "serve one_chunk (Malloc 100) start_counting_bytes = Inr (24, ?s)"
    by (simp add: serve_def replacement_malloc_def one_chunk_def start_counting_bytes_def put_header_def OUTPTR_def ALIGNMENT_def)
  have "fair (Malloc 100) start_counting_bytes" by (simp add: fair_def)
  then have "counting one_chunk ?s" by (rule counting.served [OF counting.started _ s])
  from total_is_what_is_in_use [OF this one_chunk_fair] s show ?thesis by (auto simp: get_total_allocated_def)
qed

lemma serve_all_counting:
  "counting os s \<Longrightarrow> os_fair os \<Longrightarrow> all_fair os rs s \<Longrightarrow> \<exists>s'. serve_all os rs s = Inr s' \<and> counting os s'"
proof (induction os rs s rule: all_fair.induct)
  case (2 os r rs s)
  then obtain p s1 where s1: "serve os r s = Inr (p, s1)" "all_fair os rs s1" "fair r s" by (auto split: sum.splits)
  then show ?case using 2(1) [OF s1(1) refl] counting.served [OF 2(2) s1(3,1)] 2(3) by auto
qed simp

lemma all_fair_append:
  "all_fair os (rs @ rs') s \<Longrightarrow> all_fair os rs s \<and> (\<forall>s'. serve_all os rs s = Inr s' \<longrightarrow> all_fair os rs' s')"
  by (induction os rs s rule: all_fair.induct) (auto split: sum.splits prod.splits)

text \<open>The test counts nothing of its own: the first four totals are 0.  The fifth is what the library holds, and the
  assertion of \<^verbatim>\<open>main\<close> fails exactly when a block that is not empty was left.\<close>

theorem test_counts_only_the_library:
  assumes "os_fair os" "all_fair os (news @ frees) start_counting_bytes"
  shows "\<exists>s1 s2. serve_all os news start_counting_bytes = Inr s1 \<and> serve_all os frees s1 = Inr s2 \<and>
    mem_main os news frees = Inr ([0, 0, 0, 0, of_nat (in_use s1), of_nat (in_use s2)],
      \<forall>q c. chunks s2 q = Some c \<longrightarrow> header c = 0)"
proof -
  have f: "all_fair os news start_counting_bytes" "\<And>s'. serve_all os news start_counting_bytes = Inr s' \<Longrightarrow> all_fair os frees s'"
    using all_fair_append [OF assms(2)] by blast+
  obtain s1 where s1: "serve_all os news start_counting_bytes = Inr s1" "counting os s1"
    using serve_all_counting [OF counting.started assms(1) f(1)] by blast
  obtain s2 where s2: "serve_all os frees s1 = Inr s2" "counting os s2"
    using serve_all_counting [OF s1(2) assms(1) f(2) [OF s1(1)]] by blast
  have t: "get_total_allocated s = of_nat (in_use s)" if "counting os s" for s
    using count_invD(3) [OF counting_inv [OF that assms(1)]] by (metis get_total_allocated_def of_nat_unat ucast_id)
  have z: "get_total_allocated s2 = 0 \<longleftrightarrow> (\<forall>q c. chunks s2 q = Some c \<longrightarrow> header c = 0)"
    by (rule total_zero [OF s2(2) assms(1)])
  have "get_total_allocated start_counting_bytes = 0" by (simp add: get_total_allocated_def start_counting_bytes_def)
  then have "mem_main os news frees = Inr ([0, 0, 0, 0, get_total_allocated s1, get_total_allocated s2], get_total_allocated s2 = 0)"
    using s1(1) s2(1) by (simp add: mem_main_def test_memory_tracking_def Let_def)
  then have "mem_main os news frees = Inr ([0, 0, 0, 0, of_nat (in_use s1), of_nat (in_use s2)], \<forall>q c. chunks s2 q = Some c \<longrightarrow> header c = 0)"
    unfolding z by (simp only: t [OF s1(2)] t [OF s2(2)])
  then show ?thesis using s1(1) s2(1) by blast
qed

theorem test_counts_only_the_library_witness:
  "mem_main one_chunk [Malloc 100, Realloc 24 200] [Free 24] = Inr ([0, 0, 0, 0, 200, 0], True)"
proof -
  have d: "all_fair one_chunk ([Malloc 100, Realloc 24 200] @ [Free 24]) start_counting_bytes"
    by (simp add: fair_def serve_def replacement_malloc_def replacement_realloc_def replacement_free_def one_chunk_def
        start_counting_bytes_def put_header_def get_header_def OUTPTR_def INPTR_def ALIGNMENT_def Let_def)
  have "serve_all one_chunk [Malloc 100, Realloc 24 200] start_counting_bytes =
      Inr \<lparr>chunks = [16 \<mapsto> \<lparr>bytes = 208, header = 200\<rparr>], total_allocated = 200\<rparr>"
    "serve_all one_chunk [Free 24] \<lparr>chunks = [16 \<mapsto> \<lparr>bytes = 208, header = 200\<rparr>], total_allocated = 200\<rparr> = Inr \<lparr>chunks = Map.empty, total_allocated = 0\<rparr>"
    by (simp_all add: serve_def replacement_malloc_def replacement_realloc_def replacement_free_def one_chunk_def
        start_counting_bytes_def put_header_def get_header_def OUTPTR_def INPTR_def ALIGNMENT_def Let_def)
  with test_counts_only_the_library [OF one_chunk_fair d] show ?thesis by (simp add: in_use_def)
qed

text \<open>C23: A size within eight bytes of the greatest one wraps around: if \<^verbatim>\<open>malloc\<close> then returns a chunk for the few bytes it is asked for,
  the size is written outside it.  And \<^verbatim>\<open>free\<close> of a null pointer, which \<^verbatim>\<open>free\<close> allows, reads in front of address 0.\<close>

theorem great_sizes_wrap_around:
  assumes "- 8 \<le> sz" "os (chunks s) (sz + 8) = Some p"
  shows "replacement_malloc os sz s = Inl Out_Of_Bounds \<and> replacement_free 0 s = Inl Null_Deref"
proof -
  have x: "2 ^ 64 - 8 \<le> unat sz" using assms(1) by (simp add: word_le_nat_alt)
  have "unat sz < 2 ^ LENGTH(64)" by (rule unsigned_less)
  then have lt: "unat sz < 2 ^ 64" by simp
  have "unat (sz + 8) = (unat sz + 8) mod 2 ^ 64" by (simp add: unat_word_ariths)
  also have "\<dots> = (unat sz + 8 - 2 ^ 64) mod 2 ^ 64" by (rule le_mod_geq) (use x in simp)
  also have "\<dots> = unat sz + 8 - 2 ^ 64" by (rule mod_less) (use lt in simp)
  finally have "unat (sz + 8) < 8" using lt by simp
  then have "sz + 8 < 8" by (simp add: word_less_nat_alt)
  then show ?thesis using assms(2) by (simp add: replacement_malloc_def replacement_free_def put_header_def get_header_def ALIGNMENT_def)
qed

theorem great_sizes_wrap_around_witness:
  "replacement_malloc one_chunk (- 8) start_counting_bytes = Inl Out_Of_Bounds"
  using great_sizes_wrap_around [of "- 8" one_chunk start_counting_bytes 16] by (simp add: one_chunk_def start_counting_bytes_def)

end
