(* ===== verification/FifoPrograms.thy ===== *)
theory FifoPrograms
  imports Prelude
begin

text \<open>
  Two pairs of programs that talk through a named pipe: \<^verbatim>\<open>libevent/pipe.c\<close> with \<^verbatim>\<open>libevent/write_pipe.c\<close>, and
  \<^verbatim>\<open>libevent/socket.c\<close> with \<^verbatim>\<open>libevent/event_client.c\<close>.

  A pipe is the bytes in it.  libevent runs the callback of an event that is pending when its descriptor can be
  read: there are bytes in the pipe, or it has been opened for writing and the last writer has closed it.  An
  event that is not persistent is not pending afterwards, unless the callback adds it again; a dispatch without
  pending events returns.
\<close>

section \<open>The pipe that is read once\<close>

datatype reader_pc = R_Start | R_Pending | R_Exit

datatype writer_pc = W_Start | W_Scan | W_Left | W_Killed

record pipe_sys =
  fifo :: string
  rpc :: reader_pc
  wpc :: writer_pc
  words :: "string list"        \<comment> \<open>what \<^verbatim>\<open>scanf\<close> will find\<close>
  wrote :: "string list"
  shown :: "string list"        \<comment> \<open>what the reader has printed\<close>

definition pipe_start :: "string list \<Rightarrow> pipe_sys" where
  "pipe_start ws = \<lparr>fifo = [], rpc = R_Start, wpc = W_Start, words = ws, wrote = [], shown = []\<rparr>"

text \<open>\<^verbatim>\<open>printf\<close> of a buffer of 128 bytes, which runs on when it has no NUL\<close>

definition pipe_print :: "string \<Rightarrow> string result" where
  "pipe_print data = (let buf = take 128 data @ replicate (128 - length data) NUL in
     if NUL \<in> set buf then Inr (cstr buf) else Inl Out_Of_Bounds)"

definition pipe_read :: "pipe_sys \<Rightarrow> pipe_sys result" where
  "pipe_read s = rbind (pipe_print (fifo s)) (\<lambda>l.
     Inr (s\<lparr>fifo := drop 128 (fifo s), rpc := R_Exit, shown := shown s @ [l]\<rparr>))"

text \<open>One turn of the loop of the writer.  At the end of the input \<^verbatim>\<open>scanf\<close> leaves the buffer empty; a write into a pipe
  that nobody reads ends the process, unless it has no bytes.\<close>

definition pipe_write :: "pipe_sys \<Rightarrow> pipe_sys result" where
  "pipe_write s = (case words s of
     [] \<Rightarrow> Inr s
   | w # ws \<Rightarrow>
       if 32 \<le> length w then Inl Buffer_Overflow
       else if rpc s = R_Exit then Inr (s\<lparr>words := ws, wpc := W_Killed\<rparr>)
       else Inr (s\<lparr>words := ws, fifo := fifo s @ w, wrote := wrote s @ [w], wpc := (if w = ''bye'' then W_Left else W_Scan)\<rparr>))"

text \<open>Each process waits in \<^verbatim>\<open>open\<close> for the other.\<close>

inductive pipe_step :: "pipe_sys \<Rightarrow> pipe_sys result \<Rightarrow> bool" where
  meet: "rpc s = R_Start \<Longrightarrow> wpc s = W_Start \<Longrightarrow> pipe_step s (Inr (s\<lparr>rpc := R_Pending, wpc := W_Scan\<rparr>))"
| callback: "rpc s = R_Pending \<Longrightarrow> fifo s \<noteq> [] \<or> wpc s = W_Left \<or> wpc s = W_Killed \<Longrightarrow> pipe_step s (pipe_read s)"
| line: "wpc s = W_Scan \<Longrightarrow> pipe_step s (pipe_write s)"

inductive pipe_reachable :: "string list \<Rightarrow> pipe_sys result \<Rightarrow> bool" for ws where
  pipe_init: "pipe_reachable ws (Inr (pipe_start ws))"
| pipe_next: "pipe_reachable ws (Inr s) \<Longrightarrow> pipe_step s r \<Longrightarrow> pipe_reachable ws r"

definition scanned :: "string list \<Rightarrow> bool" where
  "scanned ws \<longleftrightarrow> (\<forall>w \<in> set ws. w \<noteq> [] \<and> NUL \<notin> set w)"

definition pipe_inv :: "string list \<Rightarrow> pipe_sys \<Rightarrow> bool" where
  "pipe_inv ws s \<longleftrightarrow>
     (rpc s = R_Exit \<longrightarrow> shown s = [concat (wrote s)] \<and> length (concat (wrote s)) < 128) \<and>
     (rpc s \<noteq> R_Exit \<longrightarrow> shown s = [] \<and> fifo s = concat (wrote s)) \<and>
     (wpc s = W_Killed \<longrightarrow> rpc s = R_Exit) \<and>
     (if wpc s = W_Killed then \<exists>w. ws = wrote s @ w # words s else ws = wrote s @ words s)"

lemma pipe_print_text:
  assumes "NUL \<notin> set data"
  shows "pipe_print data = (if length data < 128 then Inr data else Inl Out_Of_Bounds)"
proof (cases "length data < 128")
  case True
  then have "128 - length data = Suc (127 - length data)" by simp
  then show ?thesis using True assms by (simp add: pipe_print_def Let_def cstr_def takeWhile_append)
next
  case False
  then show ?thesis using assms by (auto simp: pipe_print_def Let_def dest: in_set_takeD)
qed

lemma pipe_step_inv:
  assumes ws: "scanned ws" and inv: "pipe_inv ws s" and step: "pipe_step s (Inr s')"
  shows "pipe_inv ws s'"
  using step
proof cases
  case meet
  then show ?thesis using inv by (auto simp: pipe_inv_def)
next
  case callback
  have f: "shown s = []" "fifo s = concat (wrote s)" using inv callback by (auto simp: pipe_inv_def)
  have "set (wrote s) \<subseteq> set ws" using inv by (auto simp: pipe_inv_def split: if_splits)
  then have "NUL \<notin> set (fifo s)" using ws f(2) by (auto simp: scanned_def)
  then have "length (fifo s) < 128" "s' = s\<lparr>fifo := drop 128 (fifo s), rpc := R_Exit, shown := [fifo s]\<rparr>"
    using callback(1) f(1) by (auto simp: pipe_read_def pipe_print_text split: if_splits)
  then show ?thesis using inv f(2) by (auto simp: pipe_inv_def)
next
  case line
  then show ?thesis
    using inv by (auto simp: pipe_inv_def pipe_write_def split: list.splits if_splits)
qed

lemma pipe_reachable_inv: "pipe_reachable ws r \<Longrightarrow> r = Inr s \<Longrightarrow> scanned ws \<Longrightarrow> pipe_inv ws s"
proof (induction arbitrary: s rule: pipe_reachable.induct)
  case pipe_init
  then show ?case by (auto simp: pipe_inv_def pipe_start_def)
next
  case (pipe_next s0 r)
  then show ?case using pipe_step_inv [of ws s0 s] by simp
qed

text \<open>The reader's event is not added again: the reader prints once, everything that was written until then, and
  ends.  The next word kills the writer: it is lost, with all that come after it.\<close>

theorem pipe_talks_once:
  assumes "pipe_reachable ws (Inr s)" "scanned ws"
  shows "(rpc s = R_Exit \<longrightarrow> shown s = [concat (wrote s)]) \<and> (rpc s \<noteq> R_Exit \<longrightarrow> shown s = []) \<and>
    (rpc s = R_Exit \<and> pipe_step s (Inr s') \<and> s' \<noteq> s \<longrightarrow> wpc s' = W_Killed \<and> wrote s' = wrote s) \<and>
    (wpc s = W_Killed \<longrightarrow> (\<exists>w. ws = wrote s @ w # words s) \<and> (\<forall>r. \<not> pipe_step s r))"
proof -
  have inv: "pipe_inv ws s" by (rule pipe_reachable_inv [OF assms(1) refl assms(2)])
  have "wpc s' = W_Killed \<and> wrote s' = wrote s" if e: "rpc s = R_Exit" "pipe_step s (Inr s')" "s' \<noteq> s"
    using e(2)
  proof cases
    case line
    then show ?thesis using e(1,3) by (auto simp: pipe_write_def split: list.splits if_splits)
  qed (use e(1) in simp_all)
  moreover have "\<not> pipe_step s r" if "wpc s = W_Killed" for r
    using that inv by (auto simp: pipe_inv_def elim!: pipe_step.cases)
  ultimately show ?thesis using inv unfolding pipe_inv_def by (auto split: if_splits)
qed

definition pipe_hello :: pipe_sys where
  "pipe_hello = \<lparr>fifo = [], rpc = R_Exit, wpc = W_Killed, words = [''bye''], wrote = [''hello''], shown = [''hello'']\<rparr>"

lemma pipe_hello_reachable: "pipe_reachable [''hello'', ''world'', ''bye''] (Inr pipe_hello)"
proof -
  let ?ws = "[''hello'', ''world'', ''bye'']"
  let ?s = "(pipe_start ?ws)\<lparr>rpc := R_Pending, wpc := W_Scan\<rparr>"
  let ?t = "?s\<lparr>words := [''world'', ''bye''], fifo := ''hello'', wrote := [''hello'']\<rparr>"
  let ?u = "?t\<lparr>fifo := [], rpc := R_Exit, shown := [''hello'']\<rparr>"
  have 1: "pipe_reachable ?ws (Inr ?s)"
    by (rule pipe_next [OF pipe_init pipe_step.meet]) (simp_all add: pipe_start_def)
  have "pipe_write ?s = Inr ?t" by (simp add: pipe_write_def pipe_start_def)
  then have 2: "pipe_reachable ?ws (Inr ?t)" using pipe_next [OF 1 pipe_step.line] by (simp add: pipe_start_def)
  have "pipe_read ?t = Inr ?u" by (simp add: pipe_read_def pipe_print_text pipe_start_def)
  then have 3: "pipe_reachable ?ws (Inr ?u)" using pipe_next [OF 2 pipe_step.callback] by (simp add: pipe_start_def)
  have "pipe_write ?u = Inr pipe_hello" by (simp add: pipe_write_def pipe_start_def pipe_hello_def)
  then show ?thesis using pipe_next [OF 3 pipe_step.line] by (simp add: pipe_start_def)
qed

theorem pipe_talks_once_witness:
  "shown pipe_hello = [concat (wrote pipe_hello)] \<and> (\<exists>w. [''hello'', ''world'', ''bye''] = wrote pipe_hello @ w # words pipe_hello)"
  using pipe_talks_once [OF pipe_hello_reachable] by (simp add: pipe_hello_def scanned_def)

section \<open>The pipe that is read for ever\<close>

record fifo_sys =
  pipe :: string
  clients :: nat           \<comment> \<open>processes of \<^verbatim>\<open>event_client\<close>\<close>
  opened :: bool           \<comment> \<open>one has opened the pipe for writing\<close>
  pending :: bool
  out_lines :: "string list"
  written :: string

datatype inode = Regular | Named_Pipe | Other

text \<open>The start of \<^verbatim>\<open>socket.c\<close>: what is in the place of the pipe, whether \<^verbatim>\<open>mkfifo\<close> and \<^verbatim>\<open>open\<close> succeed\<close>

definition socket_start :: "inode option \<Rightarrow> bool \<Rightarrow> bool \<Rightarrow> inode option \<times> fifo_sys result" where
  "socket_start there unlinks opens =
     (if there = Some Regular then (there, Inl (Exit_With ''lstat''))
      else (let there' = (if unlinks then None else there) in
        if there' \<noteq> None then (there', Inl (Exit_With ''mkfifo''))
        else (Some Named_Pipe, if opens
          then Inr \<lparr>pipe = [], clients = 0, opened = False, pending = True, out_lines = [], written = []\<rparr>
          else Inl (Exit_With ''open''))))"

definition fifo_read :: "fifo_sys \<Rightarrow> fifo_sys" where
  "fifo_read s = (let s1 = s\<lparr>pending := True\<rparr> in
     if pipe s1 = [] then s1
     else s1\<lparr>pipe := drop 254 (pipe s1), out_lines := out_lines s1 @ [cstr (take 254 (pipe s1))]\<rparr>)"

definition readable :: "fifo_sys \<Rightarrow> bool" where
  "readable s \<longleftrightarrow> pipe s \<noteq> [] \<or> opened s \<and> clients s = 0"

definition dispatch :: "fifo_sys \<Rightarrow> fifo_sys option" where
  "dispatch s = (if pending s \<and> readable s then Some (fifo_read (s\<lparr>pending := False\<rparr>)) else None)"

definition client_write :: "fifo_sys \<Rightarrow> fifo_sys" where
  "client_write s = s\<lparr>pipe := pipe s @ ''hello libevent!'', written := written s @ ''hello libevent!''\<rparr>"

inductive fifo_reachable :: "fifo_sys \<Rightarrow> bool" where
  fifo_init: "socket_start there True True = (f, Inr s) \<Longrightarrow> fifo_reachable s"
| fifo_dispatch: "fifo_reachable s \<Longrightarrow> dispatch s = Some s' \<Longrightarrow> fifo_reachable s'"
| fifo_open: "fifo_reachable s \<Longrightarrow> fifo_reachable (s\<lparr>clients := clients s + 1, opened := True\<rparr>)"
| fifo_write: "fifo_reachable s \<Longrightarrow> 0 < clients s \<Longrightarrow> fifo_reachable (client_write s)"
| fifo_killed: "fifo_reachable s \<Longrightarrow> 0 < clients s \<Longrightarrow> fifo_reachable (s\<lparr>clients := clients s - 1\<rparr>)"

definition fifo_inv :: "fifo_sys \<Rightarrow> bool" where
  "fifo_inv s \<longleftrightarrow> pending s \<and> written s = concat (out_lines s) @ pipe s \<and> NUL \<notin> set (pipe s)"

lemma dispatch_inv:
  assumes "fifo_inv s" "dispatch s = Some s'"
  shows "fifo_inv s' \<and> pipe s' = drop 254 (pipe s) \<and> clients s' = clients s \<and> opened s' = opened s \<and> written s' = written s"
proof -
  have "NUL \<notin> set (take 254 (pipe s))" "NUL \<notin> set (drop 254 (pipe s))"
    using assms(1) by (auto simp: fifo_inv_def dest: in_set_takeD in_set_dropD)
  moreover from this have "cstr (take 254 (pipe s)) = take 254 (pipe s)" by (auto simp: cstr_def takeWhile_eq_all_conv)
  ultimately show ?thesis
    using assms by (auto simp: fifo_inv_def dispatch_def fifo_read_def Let_def split: if_splits)
qed

lemma fifo_reachable_inv: "fifo_reachable s \<Longrightarrow> fifo_inv s"
proof (induction rule: fifo_reachable.induct)
  case (fifo_init there f s)
  then show ?case by (auto simp: socket_start_def fifo_inv_def Let_def split: if_splits)
next
  case (fifo_dispatch s s')
  then show ?case using dispatch_inv by blast
qed (auto simp: fifo_inv_def client_write_def)

abbreviation dispatches :: "fifo_sys \<Rightarrow> fifo_sys \<Rightarrow> bool" where
  "dispatches s s' \<equiv> dispatch s = Some s'"

lemma pipe_drains:
  "fifo_inv s \<Longrightarrow> \<exists>s'. dispatches\<^sup>*\<^sup>* s s' \<and> fifo_inv s' \<and> pipe s' = [] \<and> clients s' = clients s \<and>
    opened s' = opened s \<and> written s' = written s"
proof (induction "length (pipe s)" arbitrary: s rule: less_induct)
  case less
  show ?case
  proof (cases "pipe s = []")
    case True
    then show ?thesis using less.prems by (intro exI [of _ s]) simp
  next
    case False
    then obtain s1 where s1: "dispatch s = Some s1" using less.prems by (auto simp: dispatch_def readable_def fifo_inv_def)
    note i = dispatch_inv [OF less.prems s1]
    have "length (pipe s1) < length (pipe s)" using i False by simp
    then obtain s' where "dispatches\<^sup>*\<^sup>* s1 s' \<and> fifo_inv s' \<and> pipe s' = [] \<and> clients s' = clients s1 \<and>
      opened s' = opened s1 \<and> written s' = written s1" using less.hyps i by blast
    then show ?thesis using converse_rtranclp_into_rtranclp [of dispatches s s1 s'] s1 i by (intro exI [of _ s']) simp
  qed
qed

text \<open>The other reader, which adds its event again, prints everything that is written.  It then sleeps while a
  client has the pipe open, but once the last one has left it runs its callback again and again, for ever.  Its
  start never replaces a regular file.\<close>

theorem fifo_reader_prints_everything:
  assumes "fifo_reachable s"
  shows "(\<exists>s'. dispatches\<^sup>*\<^sup>* s s' \<and> concat (out_lines s') = written s \<and>
      dispatch s' = (if opened s \<and> clients s = 0 then Some s' else None)) \<and>
    fst (socket_start (Some Regular) unlinks opens) = Some Regular"
proof -
  obtain s' where s': "dispatches\<^sup>*\<^sup>* s s'" "fifo_inv s'" "pipe s' = []" "clients s' = clients s"
    "opened s' = opened s" "written s' = written s"
    using pipe_drains [OF fifo_reachable_inv [OF assms]] by blast
  have "concat (out_lines s') = written s" using s' by (simp add: fifo_inv_def)
  moreover have "dispatch s' = (if opened s \<and> clients s = 0 then Some s' else None)"
    using s' by (cases s') (auto simp: dispatch_def readable_def fifo_read_def fifo_inv_def Let_def)
  moreover have "fst (socket_start (Some Regular) unlinks opens) = Some Regular" by (simp add: socket_start_def)
  ultimately show ?thesis using s'(1) by blast
qed

definition fifo_waiting :: fifo_sys where
  "fifo_waiting = \<lparr>pipe = ''hello libevent!'', clients = 1, opened = True, pending = True, out_lines = [], written = ''hello libevent!''\<rparr>"

theorem fifo_reader_prints_everything_witness:
  "\<exists>s'. dispatches\<^sup>*\<^sup>* fifo_waiting s' \<and> concat (out_lines s') = ''hello libevent!'' \<and> dispatch s' = None"
proof -
  let ?s = "\<lparr>pipe = [], clients = 0, opened = False, pending = True, out_lines = [], written = []\<rparr>"
  have 1: "fifo_reachable ?s" by (rule fifo_init [of None]) (simp add: socket_start_def)
  have 2: "fifo_reachable (?s\<lparr>clients := 1, opened := True\<rparr>)" using fifo_open [OF 1] by simp
  have "fifo_reachable (client_write (?s\<lparr>clients := 1, opened := True\<rparr>))" by (rule fifo_write [OF 2]) simp
  then have "fifo_reachable fifo_waiting" by (simp add: client_write_def fifo_waiting_def)
  from fifo_reader_prints_everything [OF this] show ?thesis by (simp add: fifo_waiting_def)
qed

end
