(* ===== verification/PrintServer.thy ===== *)
theory PrintServer
  imports BevExamples
begin

text \<open>
  The server \<^verbatim>\<open>libevent/event_server.c\<close>, which prints what its clients send; a fourth interpretation of the contract
  \<open>bev_server\<close> of theory \<open>BevExamples\<close>.

  \<open>parts\<close> are the results of \<^verbatim>\<open>bufferevent_read\<close>, \<open>lines\<close> the strings that are printed, \<open>overrun\<close> tells that the buffer
  of 128 bytes had no NUL, so that \<^verbatim>\<open>printf\<close> ran on behind it.
\<close>

record print_conn =
  waiting :: string
  print_arrived :: string
  parts :: "string list"
  lines :: "string list"
  overrun :: bool

definition print_start :: print_conn where
  "print_start = \<lparr>waiting = [], print_arrived = [], parts = [], lines = [], overrun = False\<rparr>"

definition print_listener_cb :: "bool \<Rightarrow> print_conn result" where
  "print_listener_cb made = (if made then Inr print_start else Inl (Exit_With ''bufferevent_socket_new''))"

text \<open>\<^verbatim>\<open>read_cb\<close>; the test \<^verbatim>\<open>ret < 0\<close> is of an unsigned number and never holds.\<close>

definition print_read_cb :: "print_conn \<Rightarrow> print_conn" where
  "print_read_cb c = (let data = take 128 (waiting c); buf = data @ replicate (128 - length data) NUL in
     c\<lparr>waiting := drop 128 (waiting c), parts := parts c @ [data], lines := lines c @ [cstr buf],
       overrun := overrun c \<or> NUL \<notin> set buf\<rparr>)"

definition print_event_cb :: "ending option \<Rightarrow> print_conn \<Rightarrow> print_conn option" where
  "print_event_cb what c = (if what = Some Eof then None else Some c)"

datatype print_event = Print_Data string | Print_Event "ending option"

text \<open>libevent calls the read callback once for what has arrived.\<close>

definition print_react :: "print_event \<Rightarrow> print_conn \<Rightarrow> print_conn option" where
  "print_react e c = (case e of
     Print_Data bytes \<Rightarrow> Some (print_read_cb (c\<lparr>waiting := waiting c @ bytes, print_arrived := print_arrived c @ bytes\<rparr>))
   | Print_Event what \<Rightarrow> print_event_cb what c)"

text \<open>The port is stored without \<^verbatim>\<open>htons\<close>, with its low byte first.\<close>

definition print_port :: nat where "print_port = 8000"

definition port_on_the_wire :: "nat \<Rightarrow> nat" where
  "port_on_the_wire p = p mod 256 * 256 + p div 256"

definition print_ok :: "print_conn \<Rightarrow> bool" where
  "print_ok c \<longleftrightarrow> print_arrived c = concat (parts c) @ waiting c \<and> lines c = map cstr (parts c) \<and>
     (\<forall>p \<in> set (parts c). length p \<le> 128) \<and> (overrun c \<longleftrightarrow> (\<exists>p \<in> set (parts c). length p = 128 \<and> NUL \<notin> set p))"

lemma print_read_cb_ok:
  assumes "print_arrived c = concat (parts c) @ waiting c" "lines c = map cstr (parts c)" "\<forall>p \<in> set (parts c). length p \<le> 128"
    "overrun c \<longleftrightarrow> (\<exists>p \<in> set (parts c). length p = 128 \<and> NUL \<notin> set p)"
  shows "print_ok (print_read_cb c)"
proof -
  let ?d = "take 128 (waiting c)"
  have "NUL \<notin> set (?d @ replicate (128 - length ?d) NUL) \<longleftrightarrow> length ?d = 128 \<and> NUL \<notin> set ?d"
    by (cases "128 - length ?d") auto
  then show ?thesis using assms by (auto simp: print_ok_def print_read_cb_def Let_def)
qed

interpretation printer: bev_server print_start print_react print_ok
proof
  show "print_ok print_start" by (simp add: print_ok_def print_start_def)
  show "print_ok c'" if "print_ok c" "print_react e c = Some c'" for c c' e
  proof (cases e)
    case (Print_Data bytes)
    then have c': "c' = print_read_cb (c\<lparr>waiting := waiting c @ bytes, print_arrived := print_arrived c @ bytes\<rparr>)"
      using that(2) by (simp add: print_react_def)
    show ?thesis unfolding c' by (rule print_read_cb_ok) (use that(1) in \<open>auto simp: print_ok_def\<close>)
  next
    case (Print_Event what)
    then show ?thesis using that by (simp add: print_react_def print_event_cb_def split: if_splits)
  qed
qed

text \<open>Every connection has printed what it has read, each read up to its first NUL, and a read of 128 bytes without one
  runs over the buffer.  At most 128 bytes are read for one arrival: the rest waits for the next.  An error does
  not end the connection, and the server listens on port 16415, not on 8000.\<close>

theorem server_prints_what_it_reads:
  assumes "bev_reachable print_start print_react m" "m b = Some c"
  shows "print_arrived c = concat (parts c) @ waiting c \<and> lines c = map cstr (parts c) \<and>
    (overrun c \<longleftrightarrow> (\<exists>p \<in> set (parts c). length p = 128 \<and> NUL \<notin> set p)) \<and>
    (\<exists>c'. print_react (Print_Data bytes) c = Some c' \<and> length (waiting c') = length (waiting c) + length bytes - 128) \<and>
    print_react (Print_Event (Some Error)) c = Some c \<and> port_on_the_wire print_port = 16415"
proof -
  have "print_ok c" by (rule printer.live_ok [OF assms])
  then show ?thesis
    by (auto simp: print_ok_def print_react_def print_read_cb_def print_event_cb_def port_on_the_wire_def print_port_def Let_def)
qed

theorem server_prints_what_it_reads_witness:
  "\<exists>c. print_react (Print_Data ''hello'') print_start = Some c \<and> lines c = map cstr (parts c) \<and> waiting c = [] \<and> lines c = [''hello'']"
proof -
  let ?c = "\<lparr>waiting = [], print_arrived = ''hello'', parts = [''hello''], lines = [''hello''], overrun = False\<rparr>"
  have r: "print_react (Print_Data ''hello'') print_start = Some ?c"
    by (simp add: print_react_def print_start_def print_read_cb_def Let_def)
  have "bev_reachable print_start print_react ((\<lambda>_. None)(0 \<mapsto> print_start))"
    by (rule bev_reachable.accepted [OF bev_reachable.no_connection]) simp
  then have "bev_reachable print_start print_react ((\<lambda>_. None)(0 \<mapsto> print_start, 0 := print_react (Print_Data ''hello'') print_start))"
    by (rule bev_reachable.happened) simp
  from server_prints_what_it_reads [OF this, of 0 ?c] r show ?thesis by auto
qed

end
