(* ===== verification/EventPrograms.thy ===== *)
theory EventPrograms
  imports Prelude
begin

text \<open>
  Five programs of the directory \<^verbatim>\<open>libevent\<close>, each for one feature of the library: \<^verbatim>\<open>event_new.c\<close>,
  \<^verbatim>\<open>event_priority.c\<close>, \<^verbatim>\<open>event_debug.c\<close>, \<^verbatim>\<open>event_pending.c\<close> and \<^verbatim>\<open>event_loopbreak.c\<close>.

  libevent is represented by what its manual promises: the loop runs the callback of a pending event whose
  descriptor is ready, an event of the most urgent priority among those first; afterwards an event is pending only
  if it is persistent; the loop ends when no event is pending or \<^verbatim>\<open>event_base_loopbreak\<close> was called.  Which calls of the
  setup succeed is the parameter \<open>ok\<close>.
\<close>

section \<open>Events\<close>

datatype interest = Readable | Writable

record event =
  ev_fd :: nat
  ev_what :: interest
  ev_persist :: bool
  ev_priority :: nat
  ev_pending :: bool

definition active :: "(nat \<Rightarrow> interest \<Rightarrow> bool) \<Rightarrow> event list \<Rightarrow> nat \<Rightarrow> bool" where
  "active ready es i \<longleftrightarrow> i < length es \<and> ev_pending (es ! i) \<and> ready (ev_fd (es ! i)) (ev_what (es ! i))"

definition chosen :: "(nat \<Rightarrow> interest \<Rightarrow> bool) \<Rightarrow> event list \<Rightarrow> nat \<Rightarrow> bool" where
  "chosen ready es i \<longleftrightarrow> active ready es i \<and> list_all (\<lambda>j. active ready es j \<longrightarrow> ev_priority (es ! i) \<le> ev_priority (es ! j)) [0..<length es]"

definition fired :: "nat \<Rightarrow> event list \<Rightarrow> event list" where
  "fired i es = es[i := (es ! i)\<lparr>ev_pending := ev_persist (es ! i)\<rparr>]"

text \<open>A loop that always has something to do\<close>

locale spinning =
  fixes step :: "'s \<Rightarrow> 's \<Rightarrow> bool" and inv :: "'s \<Rightarrow> bool"
  assumes busy: "inv s \<Longrightarrow> \<exists>s'. step s s'"
    and stays: "inv s \<Longrightarrow> step s s' \<Longrightarrow> inv s'"
begin

lemma run_stays: "step\<^sup>*\<^sup>* s s' \<Longrightarrow> inv s \<Longrightarrow> inv s'"
  by (induction rule: rtranclp_induct) (auto intro: stays)

lemma never_rests: "inv s \<Longrightarrow> step\<^sup>*\<^sup>* s s' \<Longrightarrow> \<exists>s''. step s' s''"
  using run_stays busy by blast

end

section \<open>Setup\<close>

text \<open>The number of open descriptors is passed on; a failing call ends the process, or returns -1 in \<^verbatim>\<open>event_loopbreak.c\<close>.\<close>

definition close_fd :: "nat \<Rightarrow> nat" where "close_fd n = n - 1"

definition create_connected_socket :: "(string \<Rightarrow> bool) \<Rightarrow> nat \<Rightarrow> unit result \<times> nat" where
  "create_connected_socket ok n =
     (if \<not> ok ''socket'' then (Inl (Exit_With ''socket''), n)
      else if \<not> ok ''connect'' then (Inl (Exit_With ''connect''), close_fd (n + 1))
      else (Inr (), n + 1))"

definition create_listening_socket :: "(string \<Rightarrow> bool) \<Rightarrow> nat \<Rightarrow> unit result \<times> nat" where
  "create_listening_socket ok n =
     (if \<not> ok ''socket'' then (Inl (Exit_With ''socket''), n)
      else if \<not> ok ''setsockopt'' then (Inl (Exit_With ''setsockopt''), close_fd (n + 1))
      else if \<not> ok ''bind'' then (Inl (Exit_With ''bind''), close_fd (n + 1))
      else if \<not> ok ''listen'' then (Inl (Exit_With ''listen''), close_fd (n + 1))
      else (Inr (), n + 1))"

definition pending_listening_socket :: "(string \<Rightarrow> bool) \<Rightarrow> nat \<Rightarrow> unit result \<times> nat" where
  "pending_listening_socket ok n =
     (if \<not> ok ''socket'' then (Inl (Exit_With ''socket''), n)
      else if \<not> ok ''bind'' then (Inl (Exit_With ''bind''), close_fd (n + 1))
      else if \<not> ok ''listen'' then (Inl (Exit_With ''listen''), close_fd (n + 1))
      else (Inr (), n + 1))"

definition create_watchdog_socket :: "(string \<Rightarrow> bool) \<Rightarrow> nat \<Rightarrow> bool \<times> nat" where
  "create_watchdog_socket ok n =
     (if \<not> ok ''socket'' then (False, n)
      else if \<not> ok ''setsockopt'' then (False, close_fd (n + 1))
      else if \<not> ok ''bind'' then (False, close_fd (n + 1))
      else if \<not> ok ''listen'' then (False, close_fd (n + 1))
      else (True, n + 1))"

text \<open>What a main loop leaves behind when it returns: event bases, and events on the heap.  The loop itself has then
  returned, if it was entered.\<close>

definition new_main_loop :: "(string \<Rightarrow> bool) \<Rightarrow> nat \<times> nat" where
  "new_main_loop ok =
     (if \<not> ok ''base'' then (0, 0)
      else (let made = of_bool (ok ''event 1'') + of_bool (ok ''event 2'') in
        if \<not> ok ''event 1'' \<or> \<not> ok ''event 2'' then (1, made) else (1 - 1, made - 1 - 1)))"

definition priority_main_loop :: "(string \<Rightarrow> bool) \<Rightarrow> nat \<times> nat" where
  "priority_main_loop ok =
     (if \<not> ok ''base'' then (0, 0)
      else if \<not> ok ''priority_init'' then (1 - 1, 0)
      else (let made = of_bool (ok ''event 1'') + of_bool (ok ''event 2'') in
        if \<not> ok ''event 1'' \<or> \<not> ok ''event 2''
        then (1 - 1, made - of_bool (ok ''event 1'') - of_bool (ok ''event 2''))
        else (1 - 1, made - 1 - 1)))"

definition debug_mainloop :: "(string \<Rightarrow> bool) \<Rightarrow> nat \<times> nat" where
  "debug_mainloop ok =
     (if \<not> ok ''base'' then (0, 0)
      else if \<not> ok ''event 1'' then (1 - 1, 0)
      else if \<not> ok ''assign'' then (1 - 1, 1 - 1)
      else if \<not> ok ''add'' then (1 - 1, 1 - 1)
      else (1 - 1, 1 - 1))"

definition loopbreak_main_loop :: "(string \<Rightarrow> bool) \<Rightarrow> nat" where
  "loopbreak_main_loop ok =
     (if \<not> ok ''event 1'' then 0
      else if \<not> ok ''add'' then 1
      else 1 - 1)"

text \<open>The helpers leave no descriptor open when they fail.  Of the main loops, that of \<^verbatim>\<open>event_new.c\<close> keeps the base and
  perhaps an event when an event cannot be made, and that of \<^verbatim>\<open>event_loopbreak.c\<close> an event that cannot be added.\<close>

theorem setups_clean_up:
  "snd (create_connected_socket ok n) = n + of_bool (is_ok (fst (create_connected_socket ok n))) \<and>
   snd (create_listening_socket ok n) = n + of_bool (is_ok (fst (create_listening_socket ok n))) \<and>
   snd (pending_listening_socket ok n) = n + of_bool (is_ok (fst (pending_listening_socket ok n))) \<and>
   snd (create_watchdog_socket ok n) = n + of_bool (fst (create_watchdog_socket ok n)) \<and>
   priority_main_loop ok = (0, 0) \<and> debug_mainloop ok = (0, 0) \<and>
   (new_main_loop ok = (0, 0) \<longleftrightarrow> \<not> ok ''base'' \<or> ok ''event 1'' \<and> ok ''event 2'') \<and>
   (loopbreak_main_loop ok = 0 \<longleftrightarrow> \<not> ok ''event 1'' \<or> ok ''add'')"
  by (simp add: create_connected_socket_def create_listening_socket_def pending_listening_socket_def create_watchdog_socket_def
      close_fd_def priority_main_loop_def debug_mainloop_def new_main_loop_def loopbreak_main_loop_def)

section \<open>Two priorities\<close>

datatype prio_note = Sent nat | Send_Failed | Received nat | Connection_Closed

record prio_sys =
  prio_events :: "event list"
  inbound :: string
  peer_closed :: bool
  can_write :: bool
  reports :: "prio_note list"

definition prio_start :: "bool \<Rightarrow> string \<Rightarrow> prio_sys" where
  "prio_start w bytes = \<lparr>prio_events =
      [\<lparr>ev_fd = 0, ev_what = Writable, ev_persist = False, ev_priority = 0, ev_pending = True\<rparr>,
       \<lparr>ev_fd = 0, ev_what = Readable, ev_persist = True, ev_priority = 1, ev_pending = True\<rparr>],
     inbound = bytes, peer_closed = False, can_write = w, reports = []\<rparr>"

definition prio_ready :: "prio_sys \<Rightarrow> nat \<Rightarrow> interest \<Rightarrow> bool" where
  "prio_ready s fd what = (case what of Readable \<Rightarrow> inbound s \<noteq> [] \<or> peer_closed s | Writable \<Rightarrow> can_write s)"

text \<open>\<^verbatim>\<open>write_cb\<close>, whose argument is the null pointer: nothing is deleted.  \<open>sent\<close> is what \<^verbatim>\<open>send\<close> returns.\<close>

definition write_cb :: "nat option \<Rightarrow> prio_sys \<Rightarrow> prio_sys" where
  "write_cb sent s = s\<lparr>reports := reports s @ [case sent of None \<Rightarrow> Send_Failed | Some n \<Rightarrow> Sent n]\<rparr>"

definition read_cb :: "prio_sys \<Rightarrow> prio_sys" where
  "read_cb s = (let n = min 1024 (length (inbound s)) in
     if n = 0 then s\<lparr>reports := reports s @ [Connection_Closed]\<rparr>
     else s\<lparr>inbound := drop n (inbound s), reports := reports s @ [Received n]\<rparr>)"

inductive prio_step :: "prio_sys \<Rightarrow> prio_sys \<Rightarrow> bool" where
  prio_callback: "chosen (prio_ready s) (prio_events s) i \<Longrightarrow>
    prio_step s ((if i = 0 then write_cb sent else read_cb) (s\<lparr>prio_events := fired i (prio_events s)\<rparr>))"

text \<open>What the other side and the kernel do\<close>

inductive prio_move :: "prio_sys \<Rightarrow> prio_sys \<Rightarrow> bool" where
  prio_work: "prio_step s s' \<Longrightarrow> prio_move s s'"
| prio_bytes: "\<not> peer_closed s \<Longrightarrow> prio_move s (s\<lparr>inbound := inbound s @ bytes\<rparr>)"
| prio_close: "prio_move s (s\<lparr>peer_closed := True\<rparr>)"
| prio_room: "prio_move s (s\<lparr>can_write := w\<rparr>)"

definition is_send :: "prio_note \<Rightarrow> bool" where
  "is_send x \<longleftrightarrow> x = Send_Failed \<or> (\<exists>n. x = Sent n)"

definition prio_inv :: "prio_sys \<Rightarrow> bool" where
  "prio_inv s \<longleftrightarrow> (\<exists>p. prio_events s =
      [\<lparr>ev_fd = 0, ev_what = Writable, ev_persist = False, ev_priority = 0, ev_pending = p\<rparr>,
       \<lparr>ev_fd = 0, ev_what = Readable, ev_persist = True, ev_priority = 1, ev_pending = True\<rparr>] \<and>
     length (filter is_send (reports s)) = (if p then 0 else 1))"

lemma prio_step_inv:
  assumes inv: "prio_inv s" and step: "prio_step s s'"
  shows "prio_inv s' \<and> peer_closed s' = peer_closed s \<and> (reports s = [] \<and> can_write s \<longrightarrow> (\<exists>n. reports s' = [n] \<and> is_send n))"
  using step
proof cases
  case (prio_callback i sent)
  obtain p where p: "prio_events s =
      [\<lparr>ev_fd = 0, ev_what = Writable, ev_persist = False, ev_priority = 0, ev_pending = p\<rparr>,
       \<lparr>ev_fd = 0, ev_what = Readable, ev_persist = True, ev_priority = 1, ev_pending = True\<rparr>]"
    "length (filter is_send (reports s)) = (if p then 0 else 1)" using inv unfolding prio_inv_def by blast
  have i: "i = 0 \<and> p \<and> can_write s \<or> i = 1 \<and> \<not> (p \<and> can_write s)"
    using prio_callback(2) p(1) by (auto simp: chosen_def active_def prio_ready_def less_Suc_eq)
  then show ?thesis
  proof
    assume "i = 0 \<and> p \<and> can_write s"
    then show ?thesis
      using prio_callback(1) p by (auto simp: prio_inv_def write_cb_def fired_def is_send_def split: option.split)
  next
    assume i1: "i = 1 \<and> \<not> (p \<and> can_write s)"
    have "reports s = [] \<Longrightarrow> p" using p(2) by (cases p) auto
    then show ?thesis
      using i1 prio_callback(1) p by (auto simp: prio_inv_def read_cb_def fired_def is_send_def Let_def)
  qed
qed

lemma prio_run_inv: "prio_move\<^sup>*\<^sup>* (prio_start w bytes) s \<Longrightarrow> prio_inv s"
proof (induction rule: rtranclp_induct)
  case base
  show ?case by (auto simp: prio_inv_def prio_start_def intro!: exI [of _ True])
next
  case (step s s')
  from step(2) show ?case
  proof cases
    case prio_work
    then show ?thesis using prio_step_inv [OF step(3)] by blast
  qed (use step(3) in \<open>simp_all add: prio_inv_def\<close>)
qed

lemma prio_busy:
  assumes "prio_inv s" "peer_closed s"
  shows "\<exists>s'. prio_step s s'"
proof -
  obtain p where "prio_events s =
      [\<lparr>ev_fd = 0, ev_what = Writable, ev_persist = False, ev_priority = 0, ev_pending = p\<rparr>,
       \<lparr>ev_fd = 0, ev_what = Readable, ev_persist = True, ev_priority = 1, ev_pending = True\<rparr>]"
    using assms(1) unfolding prio_inv_def by blast
  then have "chosen (prio_ready s) (prio_events s) (if p \<and> can_write s then 0 else 1)"
    using assms(2) by (auto simp: chosen_def active_def prio_ready_def less_Suc_eq)
  then show ?thesis using prio_step.prio_callback by blast
qed

interpretation prio_spin: spinning prio_step "\<lambda>s. prio_inv s \<and> peer_closed s"
  by unfold_locales (use prio_busy prio_step_inv in blast)+

text \<open>The greeting is tried once and never again, before anything is read if the socket can be written; and when the
  other side has closed the connection the program reports that again and again, for ever.\<close>

theorem greeting_once_then_spin:
  assumes "prio_move\<^sup>*\<^sup>* (prio_start w bytes) s"
  shows "length (filter is_send (reports s)) \<le> 1 \<and>
    (reports s = [] \<and> can_write s \<and> prio_step s s' \<longrightarrow> (\<exists>n. reports s' = [n] \<and> is_send n)) \<and>
    (peer_closed s \<and> prio_step\<^sup>*\<^sup>* s s'' \<longrightarrow> (\<exists>t. prio_step s'' t))"
proof -
  have inv: "prio_inv s" by (rule prio_run_inv [OF assms])
  then have "length (filter is_send (reports s)) \<le> 1" unfolding prio_inv_def by (auto split: if_splits)
  then show ?thesis using prio_step_inv [OF inv] prio_spin.never_rests [of s s''] inv by blast
qed

theorem greeting_once_then_spin_witness:
  "\<exists>n. reports (write_cb (Some 21) ((prio_start True ''x'')\<lparr>prio_events := fired 0 (prio_events (prio_start True ''x''))\<rparr>)) = [n] \<and> is_send n"
proof -
  have "chosen (prio_ready (prio_start True ''x'')) (prio_events (prio_start True ''x'')) 0"
    by (simp add: chosen_def active_def prio_ready_def prio_start_def)
  from prio_callback [OF this, of "Some 21"]
  have "prio_step (prio_start True ''x'') (write_cb (Some 21) ((prio_start True ''x'')\<lparr>prio_events := fired 0 (prio_events (prio_start True ''x''))\<rparr>))"
    by simp
  then show ?thesis
    using greeting_once_then_spin [OF rtranclp.rtrancl_refl, of True "''x''"] by (simp add: prio_start_def)
qed

section \<open>Reading and writing events\<close>

text \<open>\<^verbatim>\<open>event_new.c\<close>: a listening socket and a connected one; the callback only prints.  \<open>backlog\<close> are the connections
  that nobody accepts.\<close>

datatype got = Got_Timeout | Got_Read string | Got_Write string

record new_sys =
  new_events :: "event list"
  backlog :: nat
  room :: bool
  got :: "got list"

definition new_start :: "bool \<Rightarrow> new_sys" where
  "new_start r = \<lparr>new_events =
      [\<lparr>ev_fd = 1, ev_what = Readable, ev_persist = True, ev_priority = 0, ev_pending = True\<rparr>,
       \<lparr>ev_fd = 2, ev_what = Writable, ev_persist = True, ev_priority = 0, ev_pending = True\<rparr>],
     backlog = 0, room = r, got = []\<rparr>"

definition new_ready :: "new_sys \<Rightarrow> nat \<Rightarrow> interest \<Rightarrow> bool" where
  "new_ready s fd what = (case what of Readable \<Rightarrow> 0 < backlog s | Writable \<Rightarrow> room s)"

definition cb_func :: "got \<Rightarrow> new_sys \<Rightarrow> new_sys" where
  "cb_func what s = s\<lparr>got := got s @ [what]\<rparr>"

inductive new_step :: "new_sys \<Rightarrow> new_sys \<Rightarrow> bool" where
  new_callback: "chosen (new_ready s) (new_events s) i \<Longrightarrow>
    new_step s (cb_func (if i = 0 then Got_Read ''Reading event'' else Got_Write ''Writing event'')
      (s\<lparr>new_events := fired i (new_events s)\<rparr>))"
| new_timeout: "new_step s (cb_func Got_Timeout s)"    \<comment> \<open>five seconds without a connection\<close>

inductive new_move :: "new_sys \<Rightarrow> new_sys \<Rightarrow> bool" where
  new_work: "new_step s s' \<Longrightarrow> new_move s s'"
| new_connection: "new_move s (s\<lparr>backlog := backlog s + 1\<rparr>)"
| new_room: "new_move s (s\<lparr>room := r\<rparr>)"

definition new_inv :: "new_sys \<Rightarrow> bool" where
  "new_inv s \<longleftrightarrow> new_events s = new_events (new_start True)"

lemma fired_persistent: "ev_persist (es ! i) \<Longrightarrow> ev_pending (es ! i) \<Longrightarrow> fired i es = es"
proof -
  assume "ev_persist (es ! i)" "ev_pending (es ! i)"
  then have "(es ! i)\<lparr>ev_pending := ev_persist (es ! i)\<rparr> = es ! i" by (cases "es ! i") simp
  then show ?thesis by (simp only: fired_def list_update_id)
qed

lemma new_step_inv:
  assumes "new_inv s" "new_step s s'"
  shows "new_inv s' \<and> backlog s' = backlog s \<and> room s' = room s"
  using assms(2)
proof cases
  case (new_callback i)
  then have "i = 0 \<or> i = 1" "ev_pending (new_events s ! i)"
    using assms(1) by (auto simp: chosen_def active_def new_inv_def new_start_def less_Suc_eq)
  moreover from this have "ev_persist (new_events s ! i)" using assms(1) by (auto simp: new_inv_def new_start_def)
  ultimately have "fired i (new_events s) = new_events s" by (simp add: fired_persistent)
  then show ?thesis using assms(1) new_callback(1) by (simp add: new_inv_def cb_func_def)
next
  case new_timeout
  then show ?thesis using assms(1) by (simp add: new_inv_def cb_func_def)
qed

lemma new_run_inv: "new_move\<^sup>*\<^sup>* (new_start r) s \<Longrightarrow> new_inv s"
proof (induction rule: rtranclp_induct)
  case base
  show ?case by (simp add: new_inv_def new_start_def)
next
  case (step s s')
  from step(2) show ?case
  proof cases
    case new_work
    then show ?thesis using new_step_inv [OF step(3)] by blast
  qed (use step(3) in \<open>simp_all add: new_inv_def\<close>)
qed

lemma new_callback_runs:
  assumes "new_inv s" "0 < backlog s \<or> room s"
  shows "\<exists>i. chosen (new_ready s) (new_events s) i"
proof (cases "0 < backlog s")
  case True
  then have "chosen (new_ready s) (new_events s) 0"
    using assms(1) by (auto simp: new_inv_def new_start_def chosen_def active_def new_ready_def less_Suc_eq)
  then show ?thesis by blast
next
  case False
  then have "chosen (new_ready s) (new_events s) 1"
    using assms by (auto simp: new_inv_def new_start_def chosen_def active_def new_ready_def less_Suc_eq)
  then show ?thesis by blast
qed

interpretation new_spin: spinning "\<lambda>s s'. \<exists>i. chosen (new_ready s) (new_events s) i \<and> new_step s s'" "\<lambda>s. new_inv s \<and> (0 < backlog s \<or> room s)"
proof
  show "\<exists>s' i. chosen (new_ready s) (new_events s) i \<and> new_step s s'" if "new_inv s \<and> (0 < backlog s \<or> room s)" for s
    using new_callback_runs [of s] that new_callback by blast
  show "new_inv s' \<and> (0 < backlog s' \<or> room s')"
    if "new_inv s \<and> (0 < backlog s \<or> room s)" "\<exists>i. chosen (new_ready s) (new_events s) i \<and> new_step s s'" for s s'
    using new_step_inv [of s s'] that by auto
qed

text \<open>The event loop of \<^verbatim>\<open>event_new.c\<close> never waits: while the connection can be written, or once somebody has connected,
  which nobody accepts, a callback can run at once, and after it another one.\<close>

theorem persistent_events_never_rest:
  assumes "new_move\<^sup>*\<^sup>* (new_start r) s" "0 < backlog s \<or> room s"
    and "(\<lambda>s s'. \<exists>i. chosen (new_ready s) (new_events s) i \<and> new_step s s')\<^sup>*\<^sup>* s t"
  shows "\<exists>i. chosen (new_ready t) (new_events t) i"
  using new_spin.never_rests [OF _ assms(3)] new_run_inv [OF assms(1)] assms(2) by blast

theorem persistent_events_never_rest_witness:
  "\<exists>i. chosen (new_ready (new_start True)) (new_events (new_start True)) i"
  by (rule persistent_events_never_rest [of True "new_start True"]) (simp_all add: new_start_def)

section \<open>An event on the stack\<close>

text \<open>The callback of \<^verbatim>\<open>event_debug.c\<close>.  \<open>ptr\<close> is the argument it was given with its event: the event on the heap has the null
  pointer, the one on the stack its own address.  \<open>data\<close> is what \<^verbatim>\<open>read\<close> returns, \<open>None\<close> for -1.  The result is the descriptors
  that are left open.\<close>

datatype place = On_Heap | On_Stack

definition debug_arg :: "place \<Rightarrow> place option" where
  "debug_arg p = (case p of On_Heap \<Rightarrow> None | On_Stack \<Rightarrow> Some On_Stack)"

definition event_free :: "place \<Rightarrow> unit result" where
  "event_free p = (case p of On_Heap \<Rightarrow> Inr () | On_Stack \<Rightarrow> Inl Dangling)"

definition debug_cb :: "nat \<Rightarrow> place option \<Rightarrow> string option \<Rightarrow> nat set \<Rightarrow> (string list \<times> nat set) result" where
  "debug_cb fd ptr data fds = (case data of
     Some (c # cs) \<Rightarrow> Inr ([cstr (c # cs)] @ (if ptr \<noteq> None then [''This event was heap-allocated''] else []), fds)
   | _ \<Rightarrow> rbind (case ptr of None \<Rightarrow> Inr () | Some p \<Rightarrow> event_free p) (\<lambda>_. Inr ([], fds - {fd})))"

text \<open>\<^verbatim>\<open>read\<close> on a listening socket fails.  So the first connection to port 8080 closes the listening descriptor, whose
  event stays with the loop, and the first one to port 8081 frees the event on the stack; if data could be read, the
  event on the stack would be called heap-allocated.\<close>

theorem listening_events_are_lost:
  "debug_cb fd (debug_arg On_Heap) None fds = Inr ([], fds - {fd}) \<and>
   debug_cb fd (debug_arg On_Stack) None fds = Inl Dangling \<and>
   debug_cb fd (debug_arg p) (Some (c # cs)) fds =
     Inr (cstr (c # cs) # (if p = On_Stack then [''This event was heap-allocated''] else []), fds)"
  by (cases p) (simp_all add: debug_cb_def debug_arg_def event_free_def)

section \<open>Replacing a callback\<close>

datatype callback = Original_Callback | New_Callback string

record pend_ev =
  is_pending :: bool
  callback :: callback
  activated :: bool

definition replace_callback :: "callback \<Rightarrow> pend_ev \<Rightarrow> int \<times> pend_ev" where
  "replace_callback new ev = (if is_pending ev then (-1, ev) else (0, ev\<lparr>callback := new, activated := False\<rparr>))"

text \<open>\<^verbatim>\<open>main\<close>, which never enters the loop: what it prints about the replacement, the event before it is freed, and the
  callbacks that have run\<close>

definition pending_main :: "string \<times> pend_ev \<times> callback list" where
  "pending_main =
     (let ev = \<lparr>is_pending = False, callback = Original_Callback, activated = False\<rparr>;
          ev1 = ev\<lparr>is_pending := True\<rparr>;
          (r, ev2) = replace_callback (New_Callback ''Custom argument'') ev1;
          report = (if r = 0 then ''Callback replaced successfully!'' else ''Failed to replace callback'');
          ev3 = ev2\<lparr>activated := True\<rparr>
      in (report, ev3, []))"

text \<open>\<^verbatim>\<open>replace_callback\<close> replaces the callback exactly when the event is not pending; since \<^verbatim>\<open>main\<close> has added its event it
  always reports a failure, and the activation runs no callback.\<close>

theorem pending_callback_is_not_replaced:
  "(fst (replace_callback new ev) = 0 \<longleftrightarrow> \<not> is_pending ev) \<and>
   callback (snd (replace_callback new ev)) = (if is_pending ev then callback ev else new) \<and>
   (\<exists>ev. pending_main = (''Failed to replace callback'', ev, []) \<and> callback ev = Original_Callback \<and> activated ev)"
  by (simp add: replace_callback_def pending_main_def Let_def)

section \<open>Leaving the loop\<close>

text \<open>\<^verbatim>\<open>event_loopbreak.c\<close>: the loop with its persistent event, and its turns until something connects\<close>

definition watchdog_cb :: "bool \<Rightarrow> bool" where
  "watchdog_cb breaks = True"

fun watchdog_loop :: "nat list \<Rightarrow> nat \<Rightarrow> nat option" where
  \<comment> \<open>the connections that arrive between two looks at the descriptor; the number of callbacks when the loop ends\<close>
  "watchdog_loop [] n = None"
| "watchdog_loop (k # ks) n = (if k = 0 then watchdog_loop ks n else if watchdog_cb False then Some (n + 1) else watchdog_loop ks (n + 1))"

text \<open>The loop ends with the first connection, after one callback, and not before.\<close>

theorem watchdog_ends_the_loop:
  "watchdog_loop ks 0 = (if \<forall>k \<in> set ks. k = 0 then None else Some 1)"
  by (induction ks) (auto simp: watchdog_cb_def)

theorem watchdog_ends_the_loop_witness:
  "watchdog_loop [0, 0, 2, 1] 0 = Some 1"
  using watchdog_ends_the_loop [of "[0, 0, 2, 1]"] by simp

end
