(* ===== verification/Singletons.thy ===== *)
theory Singletons
  imports Prelude
begin

text \<open>
  The singleton template \<^verbatim>\<open>singleTon/singleTon.h\<close> (and its copy in \<^verbatim>\<open>server-client\<close>), with the class \<^verbatim>\<open>classA.h\<close>.

  \<^verbatim>\<open>getInstance\<close> tests a static pointer, makes the object, stores the pointer and reads it again; nothing protects the
  pointer.  A step is one of these accesses, and any number of calls run at the same time.  An object is its address and
  its name.
\<close>

datatype call_pc =
    S_Test
  | S_New
  | S_Store nat        \<comment> \<open>the object made\<close>
  | S_Load
  | S_Returned nat

record singleton =
  m_instance :: "nat option"
  made :: "string list"          \<comment> \<open>the objects, addressed by their position\<close>
  calls :: "call_pc list"

definition new_class_A :: string where "new_class_A = ''ktg''"

definition display_A :: "string \<Rightarrow> string" where
  "display_A m_name = ''name = '' @ m_name @ [LF]"

definition no_instance :: singleton where
  "no_instance = \<lparr>m_instance = None, made = [], calls = []\<rparr>"

definition call_step :: "nat \<Rightarrow> singleton \<Rightarrow> singleton option" where
  "call_step k s = (let go = (\<lambda>pc. (calls s)[k := pc]) in
     (case calls s ! k of
        S_Test \<Rightarrow> Some (s\<lparr>calls := go (if m_instance s = None then S_New else S_Load)\<rparr>)
      | S_New \<Rightarrow> Some (s\<lparr>made := made s @ [new_class_A], calls := go (S_Store (length (made s)))\<rparr>)
      | S_Store a \<Rightarrow> Some (s\<lparr>m_instance := Some a, calls := go S_Load\<rparr>)
      | S_Load \<Rightarrow> map_option (\<lambda>a. s\<lparr>calls := go (S_Returned a)\<rparr>) (m_instance s)
      | S_Returned a \<Rightarrow> None))"

inductive single_move :: "singleton \<Rightarrow> singleton \<Rightarrow> bool" where
  call: "single_move s (s\<lparr>calls := calls s @ [S_Test]\<rparr>)"
| access: "k < length (calls s) \<Longrightarrow> call_step k s = Some s' \<Longrightarrow> single_move s s'"

text \<open>One call with nothing else going on, and \<^verbatim>\<open>demo.cpp\<close>\<close>

definition getInstance :: "singleton \<Rightarrow> nat \<times> singleton" where
  "getInstance s = (case m_instance s of
     Some a \<Rightarrow> (a, s)
   | None \<Rightarrow> (length (made s), s\<lparr>m_instance := Some (length (made s)), made := made s @ [new_class_A]\<rparr>))"

definition singleton_demo :: "string" where
  "singleton_demo = (case getInstance no_instance of (a, s) \<Rightarrow> display_A (made s ! a))"

section \<open>What holds under every interleaving\<close>

definition started :: "call_pc \<Rightarrow> bool" where
  "started p \<longleftrightarrow> p \<noteq> S_Test \<and> p \<noteq> S_New"

definition single_inv :: "singleton \<Rightarrow> bool" where
  "single_inv s \<longleftrightarrow>
     (\<forall>a. m_instance s = Some a \<longrightarrow> a < length (made s)) \<and>
     (\<forall>p \<in> set (calls s). (\<forall>a. p = S_Store a \<or> p = S_Returned a \<longrightarrow> a < length (made s)) \<and>
        ((\<exists>a. p = S_Returned a) \<or> p = S_Load \<longrightarrow> m_instance s \<noteq> None)) \<and>
     length (made s) \<le> length (filter started (calls s)) \<and>
     set (made s) \<subseteq> {new_class_A}"

lemma filter_length_update:
  "k < length ps \<Longrightarrow> length (filter P (ps[k := q])) + (if P (ps ! k) then 1 else 0) = length (filter P ps) + (if P q then 1 else 0)"
proof (induction ps arbitrary: k)
  case (Cons p ps)
  then show ?case by (cases k) auto
qed simp

lemma single_move_inv:
  assumes inv: "single_inv s" and move: "single_move s s'"
  shows "single_inv s'"
  using move
proof cases
  case call
  then show ?thesis using inv by (auto simp: single_inv_def started_def)
next
  case (access k)
  have I: "\<And>a. m_instance s = Some a \<Longrightarrow> a < length (made s)"
    "\<And>p a. p \<in> set (calls s) \<Longrightarrow> p = S_Store a \<or> p = S_Returned a \<Longrightarrow> a < length (made s)"
    "\<And>p. p \<in> set (calls s) \<Longrightarrow> (\<exists>a. p = S_Returned a) \<or> p = S_Load \<Longrightarrow> m_instance s \<noteq> None"
    "length (made s) \<le> length (filter started (calls s))"
    "set (made s) \<subseteq> {new_class_A}"
    using inv unfolding single_inv_def by blast+
  have mem: "p = q \<or> p \<in> set (calls s)" if "p \<in> set ((calls s)[k := q])" for p q
    using that set_update_subset_insert [of "calls s" k q] by blast
  have fine: "single_inv t"
    if c: "calls t = (calls s)[k := q]" and i: "\<And>a. m_instance t = Some a \<Longrightarrow> a < length (made t)"
      and grow: "length (made s) \<le> length (made t)"
      and new: "\<And>a. q = S_Store a \<or> q = S_Returned a \<Longrightarrow> a < length (made t)" "(\<exists>a. q = S_Returned a) \<or> q = S_Load \<Longrightarrow> m_instance t \<noteq> None"
      and set: "m_instance s \<noteq> None \<Longrightarrow> m_instance t \<noteq> None"
      and number: "length (made t) \<le> length (filter started ((calls s)[k := q]))"
      and names: "set (made t) \<subseteq> {new_class_A}" for t q
  proof -
    have all: "(\<forall>a. p = S_Store a \<or> p = S_Returned a \<longrightarrow> a < length (made t)) \<and> ((\<exists>a. p = S_Returned a) \<or> p = S_Load \<longrightarrow> m_instance t \<noteq> None)"
      if p: "p \<in> set (calls t)" for p
    proof (cases "p = q")
      case True
      then show ?thesis using new by blast
    next
      case False
      then have "p \<in> set (calls s)" using mem [of p q] p c by auto
      then show ?thesis using I(2,3) set grow by (metis order_less_le_trans)
    qed
    show ?thesis unfolding single_inv_def
      using i all number names c by auto
  qed
  note len = filter_length_update [OF access(1), of started]
  have at_k: "calls s ! k \<in> set (calls s)" using access(1) by simp
  show ?thesis
  proof (cases "calls s ! k")
    case S_Test
    then have s': "s' = s\<lparr>calls := (calls s)[k := if m_instance s = None then S_New else S_Load]\<rparr>"
      using access(2) by (simp add: call_step_def)
    show ?thesis
      by (rule fine [of _ "if m_instance s = None then S_New else S_Load"])
        (use S_Test s' I len [of "if m_instance s = None then S_New else S_Load"] in \<open>auto simp: started_def split: if_splits\<close>)
  next
    case S_New
    then have s': "s' = s\<lparr>made := made s @ [new_class_A], calls := (calls s)[k := S_Store (length (made s))]\<rparr>"
      using access(2) by (simp add: call_step_def)
    show ?thesis
      by (rule fine [of _ "S_Store (length (made s))"])
        (use S_New s' I(1,4,5) len [of "S_Store (length (made s))"] in \<open>auto simp: started_def dest: I(1)\<close>)
  next
    case (S_Store a)
    then have s': "s' = s\<lparr>m_instance := Some a, calls := (calls s)[k := S_Load]\<rparr>"
      using access(2) by (simp add: call_step_def)
    show ?thesis
      by (rule fine [of _ S_Load]) (use S_Store s' I(2) [OF at_k] I(4,5) len [of S_Load] in \<open>auto simp: started_def\<close>)
  next
    case S_Load
    then obtain a where s': "m_instance s = Some a" "s' = s\<lparr>calls := (calls s)[k := S_Returned a]\<rparr>"
      using access(2) by (auto simp: call_step_def)
    show ?thesis
      by (rule fine [of _ "S_Returned a"]) (use S_Load s' I(1,4,5) len [of "S_Returned a"] in \<open>auto simp: started_def\<close>)
  next
    case (S_Returned a)
    then show ?thesis using access(2) by (simp add: call_step_def)
  qed
qed


lemma reachable_single_inv:
  assumes "single_move\<^sup>*\<^sup>* no_instance s"
  shows "single_inv s"
  using assms
proof induction
  case base
  show ?case by (simp add: single_inv_def no_instance_def)
next
  case (step s t)
  then show ?case using single_move_inv by blast
qed

section \<open>Once no call is between the test and the store\<close>

definition settled :: "nat \<Rightarrow> singleton \<Rightarrow> bool" where
  "settled a s \<longleftrightarrow> m_instance s = Some a \<and> (\<forall>p \<in> set (calls s). p \<noteq> S_New \<and> (\<forall>b. p \<noteq> S_Store b))"

definition returned_before :: "singleton \<Rightarrow> nat \<Rightarrow> nat \<Rightarrow> bool" where
  "returned_before s k b \<longleftrightarrow> k < length (calls s) \<and> calls s ! k = S_Returned b"

lemma settled_move:
  assumes "settled a s" and "single_move s s'"
  shows "settled a s' \<and> made s' = made s \<and> (\<forall>k b. returned_before s' k b \<longrightarrow> b = a \<or> returned_before s k b)"
  using assms(2)
proof cases
  case call
  then show ?thesis using assms(1) by (auto simp: settled_def returned_before_def nth_append split: if_splits)
next
  case (access k)
  have at_k: "calls s ! k \<in> set (calls s)" using access(1) by simp
  have mem: "p = q \<or> p \<in> set (calls s)" if "p \<in> set ((calls s)[k := q])" for p q
    using that set_update_subset_insert [of "calls s" k q] by blast
  show ?thesis
    using access at_k assms(1)
    by (cases "calls s ! k")
      (auto simp: call_step_def settled_def returned_before_def nth_list_update dest!: mem split: if_splits)
qed

lemma settled_moves:
  assumes "single_move\<^sup>*\<^sup>* s s'" and "settled a s"
  shows "settled a s' \<and> made s' = made s \<and> (\<forall>k b. returned_before s' k b \<longrightarrow> b = a \<or> returned_before s k b)"
  using assms
proof (induction)
  case (step t u)
  then show ?case using settled_move [of a t u] by metis
qed simp

lemmas and_then = converse_rtranclp_into_rtranclp [of single_move]

lemma called: "c = calls s @ [S_Test] \<Longrightarrow> single_move s (s\<lparr>calls := c\<rparr>)"
  using call by simp

text \<open>A call that nothing overlaps is \<^verbatim>\<open>getInstance\<close>\<close>

lemma alone_getInstance:
  assumes g: "getInstance s = (a, t)"
  shows "single_move\<^sup>*\<^sup>* s (t\<lparr>calls := calls s @ [S_Returned a]\<rparr>)"
proof -
  let ?k = "length (calls s)" and ?c = "\<lambda>pc. calls s @ [pc]"
  have start: "single_move s (s\<lparr>calls := ?c S_Test\<rparr>)" by (rule call)
  show ?thesis
  proof (cases "m_instance s")
    case None
    let ?m = "made s @ [new_class_A]" and ?a = "length (made s)"
    have t: "a = ?a" "t = s\<lparr>m_instance := Some ?a, made := ?m\<rparr>"
      using g None by (auto simp: getInstance_def)
    have 1: "single_move (s\<lparr>calls := ?c S_Test\<rparr>) (s\<lparr>calls := ?c S_New\<rparr>)"
      by (rule access [of ?k]) (simp_all add: call_step_def None)
    have 2: "single_move (s\<lparr>calls := ?c S_New\<rparr>) (s\<lparr>made := ?m, calls := ?c (S_Store ?a)\<rparr>)"
      by (rule access [of ?k]) (simp_all add: call_step_def)
    have 3: "single_move (s\<lparr>made := ?m, calls := ?c (S_Store ?a)\<rparr>) (s\<lparr>m_instance := Some ?a, made := ?m, calls := ?c S_Load\<rparr>)"
      by (rule access [of ?k]) (simp_all add: call_step_def)
    have 4: "single_move (s\<lparr>m_instance := Some ?a, made := ?m, calls := ?c S_Load\<rparr>) (t\<lparr>calls := ?c (S_Returned a)\<rparr>)"
      by (rule access [of ?k]) (simp_all add: call_step_def t)
    show ?thesis by (rule and_then [OF start and_then [OF 1 and_then [OF 2 and_then [OF 3 r_into_rtranclp [of single_move, OF 4]]]]])
  next
    case (Some b)
    then have t: "b = a" "t = s" using g by (auto simp: getInstance_def)
    have 1: "single_move (s\<lparr>calls := ?c S_Test\<rparr>) (s\<lparr>calls := ?c S_Load\<rparr>)"
      by (rule access [of ?k]) (simp_all add: call_step_def Some)
    have 2: "single_move (s\<lparr>calls := ?c S_Load\<rparr>) (t\<lparr>calls := ?c (S_Returned a)\<rparr>)"
      by (rule access [of ?k]) (simp_all add: call_step_def Some t)
    show ?thesis by (rule and_then [OF start and_then [OF 1 r_into_rtranclp [of single_move, OF 2]]])
  qed
qed

lemma overlapping_calls_make_two:
  "single_move\<^sup>*\<^sup>* no_instance \<lparr>m_instance = Some 1, made = [new_class_A, new_class_A], calls = [S_Returned 0, S_Returned 1]\<rparr>"
proof -
  let ?st = "\<lambda>i m c. \<lparr>m_instance = i, made = m, calls = c\<rparr>"
  let ?A = "new_class_A"
  have c: "single_move (?st i m c) (?st i m (c @ [S_Test]))" for i m c
    using call [of "?st i m c"] by simp
  have a: "k < length c \<Longrightarrow> call_step k (?st i m c) = Some t \<Longrightarrow> single_move (?st i m c) t" for k i m c t
    using access [of k "?st i m c" t] by simp
  have 1: "single_move\<^sup>*\<^sup>* no_instance (?st None [] [S_Test, S_Test])"
    unfolding no_instance_def using and_then [OF c r_into_rtranclp [of single_move, OF c], of None "[]" "[]"] by simp
  have 2: "single_move (?st None [] [S_Test, S_Test]) (?st None [] [S_New, S_Test])"
    by (rule a [of 0]) (simp_all add: call_step_def)
  have 3: "single_move (?st None [] [S_New, S_Test]) (?st None [] [S_New, S_New])"
    by (rule a [of 1]) (simp_all add: call_step_def)
  have 4: "single_move (?st None [] [S_New, S_New]) (?st None [?A] [S_Store 0, S_New])"
    by (rule a [of 0]) (simp_all add: call_step_def)
  have 5: "single_move (?st None [?A] [S_Store 0, S_New]) (?st (Some 0) [?A] [S_Load, S_New])"
    by (rule a [of 0]) (simp_all add: call_step_def)
  have 6: "single_move (?st (Some 0) [?A] [S_Load, S_New]) (?st (Some 0) [?A] [S_Returned 0, S_New])"
    by (rule a [of 0]) (simp_all add: call_step_def)
  have 7: "single_move (?st (Some 0) [?A] [S_Returned 0, S_New]) (?st (Some 0) [?A, ?A] [S_Returned 0, S_Store 1])"
    by (rule a [of 1]) (simp_all add: call_step_def)
  have 8: "single_move (?st (Some 0) [?A, ?A] [S_Returned 0, S_Store 1]) (?st (Some 1) [?A, ?A] [S_Returned 0, S_Load])"
    by (rule a [of 1]) (simp_all add: call_step_def)
  have 9: "single_move (?st (Some 1) [?A, ?A] [S_Returned 0, S_Load]) (?st (Some 1) [?A, ?A] [S_Returned 0, S_Returned 1])"
    by (rule a [of 1]) (simp_all add: call_step_def)
  show ?thesis
    by (rule rtranclp_trans [OF 1 and_then [OF 2 and_then [OF 3 and_then [OF 4 and_then [OF 5 and_then [OF 6
          and_then [OF 7 and_then [OF 8 r_into_rtranclp [of single_move, OF 9]]]]]]]]])
qed

text \<open>
  Every call returns an object that was made, and no more objects exist than calls that went past the test.  From a
  state in which the pointer is set and no call stands between its test and its store, no call ever makes another
  object, and every later return is that one instance.  Two calls that test before either stores return two different
  objects.  A call that nothing overlaps is \<^verbatim>\<open>getInstance\<close> as a function of the state.  \<^verbatim>\<open>demo.cpp\<close> prints the name once.
\<close>
theorem singleton_is_single_without_overlap:
  "(\<forall>s. single_move\<^sup>*\<^sup>* no_instance s \<longrightarrow> single_inv s) \<and>
   (\<forall>a s s'. settled a s \<and> single_move\<^sup>*\<^sup>* s s' \<longrightarrow>
      settled a s' \<and> made s' = made s \<and> (\<forall>k b. returned_before s' k b \<longrightarrow> b = a \<or> returned_before s k b)) \<and>
   (\<exists>s. single_move\<^sup>*\<^sup>* no_instance s \<and> calls s = [S_Returned 0, S_Returned 1] \<and> length (made s) = 2) \<and>
   (\<forall>s a t. getInstance s = (a, t) \<longrightarrow> single_move\<^sup>*\<^sup>* s (t\<lparr>calls := calls s @ [S_Returned a]\<rparr>)) \<and>
   singleton_demo = ''name = ktg'' @ [LF]"
proof (intro conjI)
  show "\<forall>s. single_move\<^sup>*\<^sup>* no_instance s \<longrightarrow> single_inv s" using reachable_single_inv by blast
  show "\<forall>a s s'. settled a s \<and> single_move\<^sup>*\<^sup>* s s' \<longrightarrow>
      settled a s' \<and> made s' = made s \<and> (\<forall>k b. returned_before s' k b \<longrightarrow> b = a \<or> returned_before s k b)"
    using settled_moves by blast
  show "\<exists>s. single_move\<^sup>*\<^sup>* no_instance s \<and> calls s = [S_Returned 0, S_Returned 1] \<and> length (made s) = 2"
    using overlapping_calls_make_two by (intro exI conjI) (assumption, simp_all)
  show "\<forall>s a t. getInstance s = (a, t) \<longrightarrow> single_move\<^sup>*\<^sup>* s (t\<lparr>calls := calls s @ [S_Returned a]\<rparr>)"
    using alone_getInstance by blast
  show "singleton_demo = ''name = ktg'' @ [LF]"
    by (simp add: singleton_demo_def getInstance_def no_instance_def display_A_def new_class_A_def)
qed

theorem singleton_is_single_without_overlap_witness:
  "settled 0 \<lparr>m_instance = Some 0, made = [new_class_A], calls = [S_Test]\<rparr> \<and>
   settled 0 \<lparr>m_instance = Some 0, made = [new_class_A], calls = [S_Load]\<rparr>"
proof -
  have s: "settled 0 \<lparr>m_instance = Some 0, made = [new_class_A], calls = [S_Test]\<rparr>"
    by (simp add: settled_def)
  have "single_move\<^sup>*\<^sup>* \<lparr>m_instance = Some 0, made = [new_class_A], calls = [S_Test]\<rparr>
      \<lparr>m_instance = Some 0, made = [new_class_A], calls = [S_Load]\<rparr>"
    by (rule r_into_rtranclp, rule access [of 0 _ "\<lparr>m_instance = Some 0, made = [new_class_A], calls = [S_Load]\<rparr>"]) (simp_all add: call_step_def)
  then show ?thesis using s singleton_is_single_without_overlap by blast
qed

end
