(* ===== verification/Json.thy ===== *)
theory Json
  imports StdContainers "HOL-Library.Char_ord" "HOL-Library.List_Lexorder"
begin

text \<open>
  The JSON values of \<^verbatim>\<open>json/json.h\<close> and \<^verbatim>\<open>json/json.cpp\<close>.

  A \<^verbatim>\<open>Json\<close> is a type tag and a union; strings, arrays and objects live on the heap and are reached
  through the pointer in the union.  A \<^verbatim>\<open>Json &\<close> is a location: a variable, an element of a vector or
  a member of a map.  A tag of \<open>None\<close> is indeterminate: the copy constructor does not set \<^verbatim>\<open>m_type\<close>,
  and \<^verbatim>\<open>std::vector\<close> copies elements with it.  Using an indeterminate tag is the error
  \<open>Uninitialised\<close>, using freed memory the error \<open>Dangling\<close>.  A double is its bit pattern and its
  formatting a parameter.  \<^verbatim>\<open>asString\<close> and \<^verbatim>\<open>remove\<close> do not compile (a pointer is returned as a
  string, the tag is compared with a pointer) and are left out.
\<close>

section \<open>Values and the heap\<close>

datatype jtype = Json_null | Json_bool | Json_int | Json_double | Json_string | Json_array | Json_object

datatype jvalue =
    V_none
  | V_bool bool
  | V_int "32 word"
  | V_double "64 word"
  | V_string nat
  | V_array nat
  | V_object nat

record jnode =
  m_type :: "jtype option"
  m_value :: jvalue

text \<open>A vector is its capacity and its elements.\<close>

datatype jcell = C_string string | C_array nat "jnode list" | C_object "(string \<times> jnode) list"

record jheap =
  vars :: "nat \<Rightarrow> jnode option"
  jcells :: "nat \<Rightarrow> jcell option"
  next_addr :: nat

datatype jloc = Var nat | Elem nat nat | Member nat string

definition node_at :: "jheap \<Rightarrow> jloc \<Rightarrow> jnode option" where
  "node_at h l = (case l of
     Var v \<Rightarrow> vars h v
   | Elem a i \<Rightarrow> (case jcells h a of Some (C_array c ns) \<Rightarrow> if i < length ns then Some (ns ! i) else None | _ \<Rightarrow> None)
   | Member a k \<Rightarrow> (case jcells h a of Some (C_object m) \<Rightarrow> map_of m k | _ \<Rightarrow> None))"

definition load_node :: "jloc \<Rightarrow> jheap \<Rightarrow> jnode result" where
  "load_node l h = (case node_at h l of None \<Rightarrow> Inl Dangling | Some n \<Rightarrow> Inr n)"

definition put_node :: "jloc \<Rightarrow> jnode \<Rightarrow> jheap \<Rightarrow> jheap" where
  "put_node l n h = (case l of
     Var v \<Rightarrow> h\<lparr>vars := (vars h)(v \<mapsto> n)\<rparr>
   | Elem a i \<Rightarrow> (case jcells h a of
        Some (C_array c ns) \<Rightarrow> h\<lparr>jcells := (jcells h)(a \<mapsto> C_array c (ns[i := n]))\<rparr> | _ \<Rightarrow> h)
   | Member a k \<Rightarrow> (case jcells h a of
        Some (C_object m) \<Rightarrow> h\<lparr>jcells := (jcells h)(a \<mapsto> C_object (omap_put k n m))\<rparr> | _ \<Rightarrow> h))"

definition store_node :: "jloc \<Rightarrow> jnode \<Rightarrow> jheap \<Rightarrow> jheap result" where
  "store_node l n h = (if node_at h l = None then Inl Dangling else Inr (put_node l n h))"

text \<open>\<^verbatim>\<open>new\<close> returns an address that was never used before, so that a use of freed memory shows.\<close>

definition new_cell :: "jcell \<Rightarrow> jheap \<Rightarrow> nat \<times> jheap" where
  "new_cell c h = (next_addr h, h\<lparr>jcells := (jcells h)(next_addr h \<mapsto> c), next_addr := next_addr h + 1\<rparr>)"

definition delete_cell :: "nat \<Rightarrow> jheap \<Rightarrow> jheap result" where
  "delete_cell a h = (if jcells h a = None then Inl Dangling else Inr (h\<lparr>jcells := (jcells h)(a := None)\<rparr>))"

text \<open>Reading a member of the union that was not written last is an error.\<close>

definition as_string :: "jvalue \<Rightarrow> nat result" where
  "as_string v = (case v of V_string a \<Rightarrow> Inr a | _ \<Rightarrow> Inl Uninitialised)"

definition as_array :: "jvalue \<Rightarrow> nat result" where
  "as_array v = (case v of V_array a \<Rightarrow> Inr a | _ \<Rightarrow> Inl Uninitialised)"

definition as_object :: "jvalue \<Rightarrow> nat result" where
  "as_object v = (case v of V_object a \<Rightarrow> Inr a | _ \<Rightarrow> Inl Uninitialised)"

definition the_tag :: "jnode \<Rightarrow> jtype result" where
  "the_tag n = (case m_type n of None \<Rightarrow> Inl Uninitialised | Some t \<Rightarrow> Inr t)"

definition string_at :: "nat \<Rightarrow> jheap \<Rightarrow> string result" where
  "string_at a h = (case jcells h a of Some (C_string s) \<Rightarrow> Inr s | _ \<Rightarrow> Inl Dangling)"

definition array_at :: "nat \<Rightarrow> jheap \<Rightarrow> (nat \<times> jnode list) result" where
  "array_at a h = (case jcells h a of Some (C_array c ns) \<Rightarrow> Inr (c, ns) | _ \<Rightarrow> Inl Dangling)"

definition object_at :: "nat \<Rightarrow> jheap \<Rightarrow> (string \<times> jnode) list result" where
  "object_at a h = (case jcells h a of Some (C_object m) \<Rightarrow> Inr m | _ \<Rightarrow> Inl Dangling)"

section \<open>Constructors\<close>

definition json_default :: jnode where
  "json_default = \<lparr>m_type = Some Json_null, m_value = V_none\<rparr>"

definition json_of_bool :: "bool \<Rightarrow> jnode" where
  "json_of_bool b = \<lparr>m_type = Some Json_bool, m_value = V_bool b\<rparr>"

definition json_of_int :: "32 word \<Rightarrow> jnode" where
  "json_of_int i = \<lparr>m_type = Some Json_int, m_value = V_int i\<rparr>"

definition json_of_double :: "64 word \<Rightarrow> jnode" where
  "json_of_double d = \<lparr>m_type = Some Json_double, m_value = V_double d\<rparr>"

definition json_of_string :: "string \<Rightarrow> jheap \<Rightarrow> jnode \<times> jheap" where
  "json_of_string s h = (case new_cell (C_string s) h of
     (a, h1) \<Rightarrow> (\<lparr>m_type = Some Json_string, m_value = V_string a\<rparr>, h1))"

definition json_of_cstring :: "string \<Rightarrow> jheap \<Rightarrow> jnode \<times> jheap" where
  "json_of_cstring buf h = json_of_string (cstr buf) h"

definition json_of_type :: "jtype \<Rightarrow> jheap \<Rightarrow> jnode \<times> jheap" where
  "json_of_type t h = (case t of
     Json_null \<Rightarrow> (\<lparr>m_type = Some t, m_value = V_none\<rparr>, h)
   | Json_bool \<Rightarrow> (\<lparr>m_type = Some t, m_value = V_bool False\<rparr>, h)
   | Json_int \<Rightarrow> (\<lparr>m_type = Some t, m_value = V_int 0\<rparr>, h)
   | Json_double \<Rightarrow> (\<lparr>m_type = Some t, m_value = V_double 0\<rparr>, h)
   | Json_string \<Rightarrow> (case new_cell (C_string []) h of (a, h1) \<Rightarrow> (\<lparr>m_type = Some t, m_value = V_string a\<rparr>, h1))
   | Json_array \<Rightarrow> (case new_cell (C_array 0 []) h of (a, h1) \<Rightarrow> (\<lparr>m_type = Some t, m_value = V_array a\<rparr>, h1))
   | Json_object \<Rightarrow> (case new_cell (C_object []) h of (a, h1) \<Rightarrow> (\<lparr>m_type = Some t, m_value = V_object a\<rparr>, h1)))"

text \<open>The copy constructor copies the member of the union and leaves \<^verbatim>\<open>m_type\<close> as it finds it.\<close>

definition json_copy :: "jnode \<Rightarrow> jnode result" where
  "json_copy other = rbind (the_tag other) (\<lambda>t. case t of
     Json_null \<Rightarrow> Inr \<lparr>m_type = None, m_value = V_none\<rparr>
   | Json_bool \<Rightarrow> (case m_value other of V_bool b \<Rightarrow> Inr \<lparr>m_type = None, m_value = V_bool b\<rparr> | _ \<Rightarrow> Inl Uninitialised)
   | Json_int \<Rightarrow> (case m_value other of V_int i \<Rightarrow> Inr \<lparr>m_type = None, m_value = V_int i\<rparr> | _ \<Rightarrow> Inl Uninitialised)
   | Json_double \<Rightarrow> (case m_value other of V_double d \<Rightarrow> Inr \<lparr>m_type = None, m_value = V_double d\<rparr> | _ \<Rightarrow> Inl Uninitialised)
   | Json_string \<Rightarrow> rbind (as_string (m_value other)) (\<lambda>a. Inr \<lparr>m_type = None, m_value = V_string a\<rparr>)
   | Json_array \<Rightarrow> rbind (as_array (m_value other)) (\<lambda>a. Inr \<lparr>m_type = None, m_value = V_array a\<rparr>)
   | Json_object \<Rightarrow> rbind (as_object (m_value other)) (\<lambda>a. Inr \<lparr>m_type = None, m_value = V_object a\<rparr>))"

fun copy_all :: "jnode list \<Rightarrow> jnode list result" where
  "copy_all [] = Inr []"
| "copy_all (n # ns) = rbind (json_copy n) (\<lambda>n'. rbind (copy_all ns) (\<lambda>ns'. Inr (n' # ns')))"

fun copy_entries :: "(string \<times> jnode) list \<Rightarrow> (string \<times> jnode) list result" where
  "copy_entries [] = Inr []"
| "copy_entries ((k, n) # m) = rbind (json_copy n) (\<lambda>n'. rbind (copy_entries m) (\<lambda>m'. Inr ((k, n') # m')))"

section \<open>Assignment\<close>

definition json_clear :: "jloc \<Rightarrow> jheap \<Rightarrow> jheap result" where
  "json_clear l h = rbind (load_node l h) (\<lambda>n. rbind (the_tag n) (\<lambda>t.
     rbind (case t of
         Json_string \<Rightarrow> rbind (as_string (m_value n)) (\<lambda>a. delete_cell a h)
       | Json_array \<Rightarrow> rbind (as_array (m_value n)) (\<lambda>a. delete_cell a h)
       | Json_object \<Rightarrow> rbind (as_object (m_value n)) (\<lambda>a. delete_cell a h)
       | _ \<Rightarrow> Inr h) (\<lambda>h1. store_node l (n\<lparr>m_type := Some Json_null\<rparr>) h1)))"

text \<open>The assignments of a bool, an int and a double are the same but for the tag and the member.\<close>

definition assign_scalar :: "jtype \<Rightarrow> jvalue \<Rightarrow> jloc \<Rightarrow> jheap \<Rightarrow> jheap result" where
  "assign_scalar t v l h = rbind (load_node l h) (\<lambda>n. rbind (the_tag n) (\<lambda>tag.
     rbind (if tag \<noteq> t then json_clear l h else Inr h) (\<lambda>h1.
     store_node l \<lparr>m_type = Some t, m_value = v\<rparr> h1)))"

definition assign_bool :: "bool \<Rightarrow> jloc \<Rightarrow> jheap \<Rightarrow> jheap result" where
  "assign_bool b = assign_scalar Json_bool (V_bool b)"

definition assign_int :: "32 word \<Rightarrow> jloc \<Rightarrow> jheap \<Rightarrow> jheap result" where
  "assign_int i = assign_scalar Json_int (V_int i)"

definition assign_double :: "64 word \<Rightarrow> jloc \<Rightarrow> jheap \<Rightarrow> jheap result" where
  "assign_double d = assign_scalar Json_double (V_double d)"

definition assign_string :: "string \<Rightarrow> jloc \<Rightarrow> jheap \<Rightarrow> jheap result" where
  "assign_string s l h = rbind (load_node l h) (\<lambda>n. rbind (the_tag n) (\<lambda>tag.
     rbind (if tag \<noteq> Json_string then
              rbind (json_clear l h) (\<lambda>h1. case new_cell (C_string []) h1 of
                (a, h2) \<Rightarrow> store_node l \<lparr>m_type = Some Json_string, m_value = V_string a\<rparr> h2)
            else Inr h) (\<lambda>h3.
     rbind (load_node l h3) (\<lambda>n'. rbind (as_string (m_value n')) (\<lambda>a.
     rbind (string_at a h3) (\<lambda>_. Inr (h3\<lparr>jcells := (jcells h3)(a \<mapsto> C_string s)\<rparr>)))))))"

definition assign_cstring :: "string \<Rightarrow> jloc \<Rightarrow> jheap \<Rightarrow> jheap result" where
  "assign_cstring buf = assign_string (cstr buf)"

text \<open>\<^verbatim>\<open>operator=(const Json & other)\<close> clears the target and takes the tag over before it reads the
  members of \<^verbatim>\<open>other\<close>, which may lie in what was cleared.\<close>

definition copy_members :: "jtype \<Rightarrow> jnode \<Rightarrow> jheap \<Rightarrow> (jvalue \<times> jheap) result" where
  "copy_members t other h = (case t of
     Json_string \<Rightarrow>
       rbind (as_string (m_value other)) (\<lambda>a. rbind (string_at a h) (\<lambda>s.
       case new_cell (C_string s) h of (b, h1) \<Rightarrow> Inr (V_string b, h1)))
   | Json_array \<Rightarrow>
       rbind (as_array (m_value other)) (\<lambda>a. rbind (array_at a h) (\<lambda>(c, ns). rbind (copy_all ns) (\<lambda>ns'.
       case new_cell (C_array (length ns) ns') h of (b, h1) \<Rightarrow> Inr (V_array b, h1))))
   | Json_object \<Rightarrow>
       rbind (as_object (m_value other)) (\<lambda>a. rbind (object_at a h) (\<lambda>m. rbind (copy_entries m) (\<lambda>m'.
       case new_cell (C_object m') h of (b, h1) \<Rightarrow> Inr (V_object b, h1))))
   | _ \<Rightarrow> rbind (json_copy other) (\<lambda>c. Inr (m_value c, h)))"

definition assign_json :: "jloc \<Rightarrow> jloc \<Rightarrow> jheap \<Rightarrow> jheap result" where
  "assign_json l other h = (if l = other then Inr h else
     rbind (json_clear l h) (\<lambda>h1.
     rbind (load_node other h1) (\<lambda>o1.
     rbind (the_tag o1) (\<lambda>t.
     rbind (load_node l h1) (\<lambda>n.
     rbind (store_node l (n\<lparr>m_type := Some t\<rparr>) h1) (\<lambda>h2.
     if t = Json_null then Inr h2 else
     rbind (copy_members t o1 h2) (\<lambda>(v, h3). store_node l \<lparr>m_type = Some t, m_value = v\<rparr> h3)))))))"

section \<open>Elements and members\<close>

text \<open>\<^verbatim>\<open>push_back\<close>: when the capacity is used up the elements are copied to a larger array.\<close>

definition push_back :: "jnode \<Rightarrow> nat \<times> jnode list \<Rightarrow> (nat \<times> jnode list) result" where
  "push_back other vec = (case vec of (c, ns) \<Rightarrow>
     rbind (json_copy other) (\<lambda>n.
     if length ns < c then Inr (c, ns @ [n])
     else rbind (copy_all ns) (\<lambda>ns'. Inr (max 1 (2 * c), ns' @ [n]))))"

fun push_defaults :: "nat \<Rightarrow> nat \<times> jnode list \<Rightarrow> (nat \<times> jnode list) result" where
  "push_defaults 0 vec = Inr vec"
| "push_defaults (Suc n) vec = rbind (push_back json_default vec) (push_defaults n)"

definition index_int :: "jloc \<Rightarrow> int \<Rightarrow> jheap \<Rightarrow> (jloc \<times> jheap) result" where
  "index_int l index h = rbind (load_node l h) (\<lambda>n. rbind (the_tag n) (\<lambda>t.
     rbind (if t \<noteq> Json_array then
              rbind (json_clear l h) (\<lambda>h1. case new_cell (C_array 0 []) h1 of
                (a, h2) \<Rightarrow> store_node l \<lparr>m_type = Some Json_array, m_value = V_array a\<rparr> h2)
            else Inr h) (\<lambda>h3.
     rbind (load_node l h3) (\<lambda>n'. rbind (as_array (m_value n')) (\<lambda>a.
     if index < 0 then Inl Out_Of_Range else
     rbind (array_at a h3) (\<lambda>(c, ns).
     rbind (push_defaults (nat index + 1 - length ns) (c, ns)) (\<lambda>(c', ns').
     Inr (Elem a (nat index), h3\<lparr>jcells := (jcells h3)(a \<mapsto> C_array c' ns')\<rparr>))))))))"

definition index_key :: "jloc \<Rightarrow> string \<Rightarrow> jheap \<Rightarrow> (jloc \<times> jheap) result" where
  "index_key l key h = rbind (load_node l h) (\<lambda>n. rbind (the_tag n) (\<lambda>t.
     rbind (if t \<noteq> Json_object then
              rbind (json_clear l h) (\<lambda>h1. case new_cell (C_object []) h1 of
                (a, h2) \<Rightarrow> store_node l \<lparr>m_type = Some Json_object, m_value = V_object a\<rparr> h2)
            else Inr h) (\<lambda>h3.
     rbind (load_node l h3) (\<lambda>n'. rbind (as_object (m_value n')) (\<lambda>a.
     rbind (object_at a h3) (\<lambda>m.
     Inr (Member a key, if map_of m key = None
          then h3\<lparr>jcells := (jcells h3)(a \<mapsto> C_object (omap_put key json_default m))\<rparr> else h3)))))))"

definition index_cstring :: "jloc \<Rightarrow> string \<Rightarrow> jheap \<Rightarrow> (jloc \<times> jheap) result" where
  "index_cstring l buf = index_key l (cstr buf)"

definition json_append :: "jloc \<Rightarrow> jloc \<Rightarrow> jheap \<Rightarrow> jheap result" where
  "json_append l other h = rbind (load_node l h) (\<lambda>n. rbind (the_tag n) (\<lambda>t.
     rbind (if t \<noteq> Json_array then
              (case new_cell (C_array 0 []) h of
                (a, h2) \<Rightarrow> store_node l \<lparr>m_type = Some Json_array, m_value = V_array a\<rparr> h2)
            else Inr h) (\<lambda>h3.
     rbind (load_node l h3) (\<lambda>n'. rbind (as_array (m_value n')) (\<lambda>a.
     rbind (array_at a h3) (\<lambda>vec. rbind (load_node other h3) (\<lambda>o3.
     rbind (push_back o3 vec) (\<lambda>(c', ns').
     Inr (h3\<lparr>jcells := (jcells h3)(a \<mapsto> C_array c' ns')\<rparr>)))))))))"

definition json_size :: "jloc \<Rightarrow> jheap \<Rightarrow> nat result" where
  "json_size l h = rbind (load_node l h) (\<lambda>n. rbind (as_array (m_value n)) (\<lambda>a.
     rbind (array_at a h) (\<lambda>(c, ns). Inr (length ns))))"

definition has_index :: "jloc \<Rightarrow> int \<Rightarrow> jheap \<Rightarrow> bool result" where
  "has_index l index h = rbind (load_node l h) (\<lambda>n. rbind (the_tag n) (\<lambda>t.
     if t \<noteq> Json_array then Inr False
     else rbind (as_array (m_value n)) (\<lambda>a. rbind (array_at a h) (\<lambda>(c, ns).
          Inr (0 \<le> index \<and> index < int (length ns))))))"

definition has_key :: "jloc \<Rightarrow> string \<Rightarrow> jheap \<Rightarrow> bool result" where
  "has_key l key h = rbind (load_node l h) (\<lambda>n. rbind (the_tag n) (\<lambda>t.
     if t \<noteq> Json_object then Inr False
     else rbind (as_object (m_value n)) (\<lambda>a. rbind (object_at a h) (\<lambda>m. Inr (map_of m key \<noteq> None)))))"

section \<open>Conversions and comparison\<close>

definition is_type :: "jtype \<Rightarrow> jloc \<Rightarrow> jheap \<Rightarrow> bool result" where
  "is_type t l h = rbind (load_node l h) (\<lambda>n. rbind (the_tag n) (\<lambda>tag. Inr (tag = t)))"

definition to_bool :: "jloc \<Rightarrow> jheap \<Rightarrow> bool result" where
  "to_bool l h = rbind (load_node l h) (\<lambda>n. rbind (the_tag n) (\<lambda>t.
     if t \<noteq> Json_bool then Inl Logic_Error
     else (case m_value n of V_bool b \<Rightarrow> Inr b | _ \<Rightarrow> Inl Uninitialised)))"

definition to_int :: "jloc \<Rightarrow> jheap \<Rightarrow> 32 word result" where
  "to_int l h = rbind (load_node l h) (\<lambda>n. rbind (the_tag n) (\<lambda>t.
     if t \<noteq> Json_int then Inl Logic_Error
     else (case m_value n of V_int i \<Rightarrow> Inr i | _ \<Rightarrow> Inl Uninitialised)))"

definition to_double :: "jloc \<Rightarrow> jheap \<Rightarrow> 64 word result" where
  "to_double l h = rbind (load_node l h) (\<lambda>n. rbind (the_tag n) (\<lambda>t.
     if t \<noteq> Json_double then Inl Logic_Error
     else (case m_value n of V_double d \<Rightarrow> Inr d | _ \<Rightarrow> Inl Uninitialised)))"

definition to_string :: "jloc \<Rightarrow> jheap \<Rightarrow> string result" where
  "to_string l h = rbind (load_node l h) (\<lambda>n. rbind (the_tag n) (\<lambda>t.
     if t \<noteq> Json_string then Inl Logic_Error
     else rbind (as_string (m_value n)) (\<lambda>a. string_at a h)))"

text \<open>\<^verbatim>\<open>asBool\<close>, \<^verbatim>\<open>asInt\<close> and \<^verbatim>\<open>asDouble\<close> have the text of the conversion operators.\<close>

definition asBool :: "jloc \<Rightarrow> jheap \<Rightarrow> bool result" where
  "asBool l h = to_bool l h"

definition asInt :: "jloc \<Rightarrow> jheap \<Rightarrow> 32 word result" where
  "asInt l h = to_int l h"

definition asDouble :: "jloc \<Rightarrow> jheap \<Rightarrow> 64 word result" where
  "asDouble l h = to_double l h"

text \<open>\<^verbatim>\<open>==\<close> on doubles: not a number is unequal to everything, the two zeros are equal.\<close>

definition is_nan :: "64 word \<Rightarrow> bool" where
  "is_nan d \<longleftrightarrow> take_bit 63 d > 0x7FF0000000000000"

definition double_eq :: "64 word \<Rightarrow> 64 word \<Rightarrow> bool" where
  "double_eq a b \<longleftrightarrow> \<not> is_nan a \<and> \<not> is_nan b \<and> (a = b \<or> take_bit 63 a = 0 \<and> take_bit 63 b = 0)"

text \<open>Strings, arrays and objects are compared by their pointers.\<close>

definition json_eq :: "jloc \<Rightarrow> jloc \<Rightarrow> jheap \<Rightarrow> bool result" where
  "json_eq l other h =
     rbind (load_node l h) (\<lambda>n. rbind (load_node other h) (\<lambda>o1.
     rbind (the_tag n) (\<lambda>t. rbind (the_tag o1) (\<lambda>t'.
     if t \<noteq> t' then Inr False else
     (case t' of
        Json_null \<Rightarrow> Inr True
      | Json_bool \<Rightarrow> rbind (to_bool l h) (\<lambda>x. rbind (to_bool other h) (\<lambda>y. Inr (x = y)))
      | Json_int \<Rightarrow> rbind (to_int l h) (\<lambda>x. rbind (to_int other h) (\<lambda>y. Inr (x = y)))
      | Json_double \<Rightarrow> rbind (to_double l h) (\<lambda>x. rbind (to_double other h) (\<lambda>y. Inr (double_eq x y)))
      | Json_string \<Rightarrow> rbind (as_string (m_value n)) (\<lambda>x. rbind (as_string (m_value o1)) (\<lambda>y. Inr (x = y)))
      | Json_array \<Rightarrow> rbind (as_array (m_value n)) (\<lambda>x. rbind (as_array (m_value o1)) (\<lambda>y. Inr (x = y)))
      | Json_object \<Rightarrow> rbind (as_object (m_value n)) (\<lambda>x. rbind (as_object (m_value o1)) (\<lambda>y. Inr (x = y))))))))"

definition json_neq :: "jloc \<Rightarrow> jloc \<Rightarrow> jheap \<Rightarrow> bool result" where
  "json_neq l other h = rbind (json_eq l other h) (\<lambda>b. Inr (\<not> b))"

section \<open>Output\<close>

definition quoted :: "string \<Rightarrow> string" where
  "quoted s = CHR 0x22 # s @ [CHR 0x22]"

fun comma_join :: "string list \<Rightarrow> string" where
  "comma_join [] = []"
| "comma_join [s] = s"
| "comma_join (s # t # ss) = s @ '','' @ comma_join (t # ss)"

text \<open>\<^verbatim>\<open>str\<close> calls itself for the elements; the fuel bounds the depth, \<open>None\<close> means it was used up.\<close>

fun collect :: "('a \<Rightarrow> 'b result option) \<Rightarrow> 'a list \<Rightarrow> 'b list result option" where
  "collect f [] = Some (Inr [])"
| "collect f (x # xs) = (case f x of
     None \<Rightarrow> None
   | Some (Inl e) \<Rightarrow> Some (Inl e)
   | Some (Inr y) \<Rightarrow> map_option (\<lambda>r. rbind r (\<lambda>ys. Inr (y # ys))) (collect f xs))"

primrec json_str :: "nat \<Rightarrow> (64 word \<Rightarrow> string) \<Rightarrow> jheap \<Rightarrow> jnode \<Rightarrow> string result option" where
  "json_str 0 fmt h n = None"
| "json_str (Suc fuel) fmt h n = (case the_tag n of Inl e \<Rightarrow> Some (Inl e) | Inr t \<Rightarrow> (case t of
     Json_null \<Rightarrow> Some (Inr ''null'')
   | Json_bool \<Rightarrow> Some (case m_value n of V_bool b \<Rightarrow> Inr (if b then ''true'' else ''false'') | _ \<Rightarrow> Inl Uninitialised)
   | Json_int \<Rightarrow> Some (case m_value n of V_int i \<Rightarrow> Inr (show_int (sint i)) | _ \<Rightarrow> Inl Uninitialised)
   | Json_double \<Rightarrow> Some (case m_value n of V_double d \<Rightarrow> Inr (fmt d) | _ \<Rightarrow> Inl Uninitialised)
   | Json_string \<Rightarrow> Some (rbind (as_string (m_value n)) (\<lambda>a. rbind (string_at a h) (\<lambda>s. Inr (quoted s))))
   | Json_array \<Rightarrow> (case rbind (as_array (m_value n)) (\<lambda>a. array_at a h) of
        Inl e \<Rightarrow> Some (Inl e)
      | Inr (c, ns) \<Rightarrow> map_option (\<lambda>r. rbind r (\<lambda>ss. Inr (CHR ''['' # comma_join ss @ '']'')))
          (collect (json_str fuel fmt h) ns))
   | Json_object \<Rightarrow> (case rbind (as_object (m_value n)) (\<lambda>a. object_at a h) of
        Inl e \<Rightarrow> Some (Inl e)
      | Inr m \<Rightarrow> map_option (\<lambda>r. rbind r (\<lambda>ss. Inr (CHR ''{'' # comma_join ss @ ''}'')))
          (collect (\<lambda>e. map_option (\<lambda>r. rbind r (\<lambda>s. Inr (quoted (fst e) @ '':'' @ s)))
             (json_str fuel fmt h (snd e))) m))))"

section \<open>Well-formed heaps\<close>

definition kind :: "jcell \<Rightarrow> jtype" where
  "kind c = (case c of C_string _ \<Rightarrow> Json_string | C_array _ _ \<Rightarrow> Json_array | C_object _ \<Rightarrow> Json_object)"

abbreviation kind_at :: "jheap \<Rightarrow> nat \<Rightarrow> jtype option" where
  "kind_at h a \<equiv> map_option kind (jcells h a)"

definition owned :: "jnode \<Rightarrow> nat option" where
  "owned n = (case (m_type n, m_value n) of
     (Some Json_string, V_string a) \<Rightarrow> Some a
   | (Some Json_array, V_array a) \<Rightarrow> Some a
   | (Some Json_object, V_object a) \<Rightarrow> Some a
   | _ \<Rightarrow> None)"

text \<open>A determined tag names the member of the union, and the pointer there leads to a cell of the
  right kind.\<close>

definition typed :: "jheap \<Rightarrow> jnode \<Rightarrow> bool" where
  "typed h n = (case m_type n of None \<Rightarrow> True | Some t \<Rightarrow> (case (t, m_value n) of
     (Json_null, _) \<Rightarrow> True
   | (Json_bool, V_bool _) \<Rightarrow> True
   | (Json_int, V_int _) \<Rightarrow> True
   | (Json_double, V_double _) \<Rightarrow> True
   | (Json_string, V_string a) \<Rightarrow> kind_at h a = Some Json_string
   | (Json_array, V_array a) \<Rightarrow> kind_at h a = Some Json_array
   | (Json_object, V_object a) \<Rightarrow> kind_at h a = Some Json_object
   | _ \<Rightarrow> False))"

definition container :: "jloc \<Rightarrow> nat option" where
  "container l = (case l of Var _ \<Rightarrow> None | Elem a _ \<Rightarrow> Some a | Member a _ \<Rightarrow> Some a)"

definition heap_ok :: "jheap \<Rightarrow> bool" where
  "heap_ok h \<longleftrightarrow>
     (\<forall>a. next_addr h \<le> a \<longrightarrow> jcells h a = None) \<and>
     (\<forall>a m. jcells h a = Some (C_object m) \<longrightarrow> omap_ok m) \<and>
     (\<forall>l n. node_at h l = Some n \<longrightarrow> typed h n) \<and>
     (\<forall>l n a b. node_at h l = Some n \<longrightarrow> owned n = Some a \<longrightarrow> container l = Some b \<longrightarrow> b < a) \<and>
     (\<forall>l l' n n' a. node_at h l = Some n \<longrightarrow> node_at h l' = Some n' \<longrightarrow> owned n = Some a \<longrightarrow> owned n' = Some a \<longrightarrow> l = l')"

lemma heap_okD:
  assumes "heap_ok h"
  shows "next_addr h \<le> a \<Longrightarrow> jcells h a = None"
    and "jcells h a = Some (C_object m) \<Longrightarrow> omap_ok m"
    and "node_at h l = Some n \<Longrightarrow> typed h n"
    and "node_at h l = Some n \<Longrightarrow> owned n = Some a \<Longrightarrow> container l = Some b \<Longrightarrow> b < a"
    and "node_at h l = Some n \<Longrightarrow> node_at h l' = Some n' \<Longrightarrow> owned n = Some a \<Longrightarrow> owned n' = Some a \<Longrightarrow> l = l'"
  using assms unfolding heap_ok_def by blast+

lemma typed_cong:
  "typed h n \<Longrightarrow> (\<And>a. owned n = Some a \<Longrightarrow> kind_at h' a = kind_at h a) \<Longrightarrow> typed h' n"
  by (auto simp: typed_def owned_def split: option.splits jtype.splits jvalue.splits)

lemma typed_owned: "typed h n \<Longrightarrow> owned n = Some a \<Longrightarrow> jcells h a \<noteq> None"
  by (auto simp: typed_def owned_def split: option.splits jtype.splits jvalue.splits)

lemma owned_allocated: "heap_ok h \<Longrightarrow> node_at h l = Some n \<Longrightarrow> owned n = Some a \<Longrightarrow> a < next_addr h"
  by (metis heap_okD(1,3) not_le typed_owned)

lemma container_allocated: "heap_ok h \<Longrightarrow> node_at h l = Some n \<Longrightarrow> container l = Some b \<Longrightarrow> b < next_addr h"
  by (rule ccontr) (auto simp: node_at_def container_def heap_okD(1) split: jloc.splits)

lemma untagged [simp]: "m_type n = None \<Longrightarrow> owned n = None" "m_type n = None \<Longrightarrow> typed h n"
  by (simp_all add: owned_def typed_def)

text \<open>Every step of the operations replaces nodes by nodes that own nothing or, at one location, a cell
  that is new.\<close>

lemma heap_ok_step:
  assumes ok: "heap_ok h" and grows: "next_addr h \<le> next_addr h'"
    and new: "\<And>a. next_addr h' \<le> a \<Longrightarrow> jcells h' a = None"
    and objs: "\<And>a m. jcells h' a = Some (C_object m) \<Longrightarrow> omap_ok m"
    and nodes: "\<And>l n. node_at h' l = Some n \<Longrightarrow>
        (owned n = None \<and> typed h' n) \<or>
        (node_at h l = Some n \<and> (\<forall>a. owned n = Some a \<longrightarrow> kind_at h' a = kind_at h a)) \<or>
        (l = l0 \<and> owned n = Some (next_addr h) \<and> typed h' n \<and> (\<forall>b. container l = Some b \<longrightarrow> b < next_addr h))"
  shows "heap_ok h'"
  unfolding heap_ok_def
proof (intro conjI allI impI)
  show "jcells h' a = None" if "next_addr h' \<le> a" for a using new that .
  show "omap_ok m" if "jcells h' a = Some (C_object m)" for a m using objs that .
  show "typed h' n" if "node_at h' l = Some n" for l n
    using nodes [OF that] heap_okD(3) [OF ok, of l n] typed_cong [of h n h'] by blast
  show "b < a" if "node_at h' l = Some n" "owned n = Some a" "container l = Some b" for l n a b
    using nodes [OF that(1)] that heap_okD(4) [OF ok, of l n a b] by auto
  fix l l' n n' a
  assume l: "node_at h' l = Some n" "node_at h' l' = Some n'" "owned n = Some a" "owned n' = Some a"
  have o: "node_at h l1 = Some n1 \<or> l1 = l0 \<and> a = next_addr h" if "node_at h' l1 = Some n1" "owned n1 = Some a" for l1 n1
    using nodes [OF that(1)] that(2) by auto
  have b: "a \<noteq> next_addr h" if "node_at h l1 = Some n1" "owned n1 = Some a" for l1 n1
    using owned_allocated [OF ok that] by simp
  show "l = l'"
    using o [OF l(1,3)] o [OF l(2,4)] b [OF _ l(3)] b [OF _ l(4)] heap_okD(5) [OF ok _ _ l(3,4)] by blast
qed

lemma node_at_put:
  "node_at h l \<noteq> None \<or> (\<exists>v. l = Var v) \<Longrightarrow> node_at (put_node l n h) l' = (if l' = l then Some n else node_at h l')"
  by (cases l; cases l')
    (auto simp: node_at_def put_node_def map_of_omap_put split: option.splits jcell.splits if_splits)

lemma kind_at_put [simp]: "kind_at (put_node l n h) a = kind_at h a"
  by (auto simp: put_node_def kind_def split: jloc.splits option.splits jcell.splits)

lemma next_addr_put [simp]: "next_addr (put_node l n h) = next_addr h"
  by (auto simp: put_node_def split: jloc.splits option.splits jcell.splits)

lemma jcells_put: "container l \<noteq> Some a \<Longrightarrow> jcells (put_node l n h) a = jcells h a"
  by (auto simp: put_node_def container_def split: jloc.splits option.splits jcell.splits)

lemma put_object_ok:
  "(\<And>a m. jcells h a = Some (C_object m) \<Longrightarrow> omap_ok m) \<Longrightarrow> jcells (put_node l n h) a = Some (C_object m) \<Longrightarrow> omap_ok m"
  by (auto simp: put_node_def split: jloc.splits option.splits jcell.splits if_splits intro: omap_ok_put)

lemma put_fresh: "(\<And>a. next_addr h \<le> a \<Longrightarrow> jcells h a = None) \<Longrightarrow> next_addr h \<le> a \<Longrightarrow> jcells (put_node l n h) a = None"
  by (metis kind_at_put map_option_is_None)

lemma omap_put_put: "omap_put k v (omap_put k w m) = omap_put k v m"
  by (induction k w m rule: omap_put.induct) auto

lemma put_put: "put_node l n (put_node l n' h) = put_node l n h"
  by (auto simp: put_node_def omap_put_put split: jloc.splits option.splits jcell.splits)

definition cell_node :: "jcell \<Rightarrow> jloc \<Rightarrow> jnode option" where
  "cell_node c l = (case (c, l) of
     (C_array _ ns, Elem _ i) \<Rightarrow> if i < length ns then Some (ns ! i) else None
   | (C_object m, Member _ k) \<Rightarrow> map_of m k
   | _ \<Rightarrow> None)"

lemma node_at_set_cell:
  "node_at (h\<lparr>jcells := (jcells h)(a \<mapsto> c)\<rparr>) l = (if container l = Some a then cell_node c l else node_at h l)"
  by (auto simp: node_at_def container_def cell_node_def split: jloc.splits jcell.splits)

lemma node_at_delete:
  "node_at (h\<lparr>jcells := (jcells h)(a := None)\<rparr>) l = (if container l = Some a then None else node_at h l)"
  by (auto simp: node_at_def container_def split: jloc.splits)

lemma node_at_next [simp]: "node_at (h\<lparr>next_addr := x\<rparr>) l = node_at h l"
  by (simp add: node_at_def cong: jloc.case_cong)

lemma node_at_new_cell:
  "node_at (snd (new_cell c h)) l = (if container l = Some (next_addr h) then cell_node c l else node_at h l)"
  unfolding new_cell_def snd_conv by (simp only: node_at_set_cell [symmetric]) (simp add: node_at_def cong: jloc.case_cong)

lemma node_at_cell: "jcells h a = Some c \<Longrightarrow> container l = Some a \<Longrightarrow> node_at h l = cell_node c l"
  by (auto simp: node_at_def container_def cell_node_def split: jloc.splits jcell.splits)

lemma load_node_Some: "node_at h l = Some n \<Longrightarrow> load_node l h = Inr n"
  by (simp add: load_node_def)

lemma load_nodeD: "load_node l h = Inr n \<Longrightarrow> node_at h l = Some n"
  by (auto simp: load_node_def split: option.splits)

lemma store_node_Some: "node_at h l = Some n' \<Longrightarrow> store_node l n h = Inr (put_node l n h)"
  by (simp add: store_node_def)

lemma the_tag_Inr: "the_tag n = Inr t \<longleftrightarrow> m_type n = Some t"
  by (auto simp: the_tag_def split: option.splits)

lemma owned_null [simp]: "owned (n\<lparr>m_type := Some Json_null\<rparr>) = None" "typed h (n\<lparr>m_type := Some Json_null\<rparr>)"
  by (simp_all add: owned_def typed_def)

text \<open>Replacing a node by one that owns nothing\<close>

lemma put_ok:
  assumes "heap_ok h" "node_at h l \<noteq> None \<or> (\<exists>v. l = Var v)" "owned n = None" "typed h n"
  shows "heap_ok (put_node l n h)"
proof (rule heap_ok_step [OF assms(1)])
  show "omap_ok m" if "jcells (put_node l n h) a = Some (C_object m)" for a m
    using put_object_ok [OF heap_okD(2) [OF assms(1)] that] .
  show "jcells (put_node l n h) a = None" if "next_addr (put_node l n h) \<le> a" for a
    using put_fresh [of h a l n] heap_okD(1) [OF assms(1)] that by simp
  have "typed (put_node l n h) n" by (rule typed_cong [OF assms(4)]) simp
  then show "owned x = None \<and> typed (put_node l n h) x \<or>
      node_at h l' = Some x \<and> (\<forall>a. owned x = Some a \<longrightarrow> kind_at (put_node l n h) a = kind_at h a) \<or>
      l' = l \<and> owned x = Some (next_addr h) \<and> typed (put_node l n h) x \<and> (\<forall>b. container l' = Some b \<longrightarrow> b < next_addr h)"
    if "node_at (put_node l n h) l' = Some x" for l' x
    using that assms(3) by (auto simp: node_at_put [OF assms(2)] split: if_splits)
qed simp

text \<open>\<^verbatim>\<open>clear\<close> frees what the node owns and nothing else.\<close>

lemma clear_ok:
  assumes ok: "heap_ok h" and n: "node_at h l = Some n" "m_type n = Some t"
  shows "\<exists>h'. json_clear l h = Inr h' \<and> heap_ok h' \<and> next_addr h' = next_addr h \<and>
    node_at h' l = Some (n\<lparr>m_type := Some Json_null\<rparr>) \<and>
    (\<forall>l'. l' \<noteq> l \<longrightarrow> node_at h' l' = (if container l' \<noteq> None \<and> container l' = owned n then None else node_at h l')) \<and>
    (\<forall>a. owned n \<noteq> Some a \<longrightarrow> container l \<noteq> Some a \<longrightarrow> jcells h' a = jcells h a)"
proof -
  let ?n = "n\<lparr>m_type := Some Json_null\<rparr>"
  have ty: "typed h n" by (rule heap_okD(3) [OF ok n(1)])
  show ?thesis
  proof (cases "owned n")
    case None
    have "json_clear l h = Inr (put_node l ?n h)"
      using None ty n
      by (auto simp: json_clear_def load_node_Some the_tag_def store_node_Some owned_def typed_def
          split: jtype.splits jvalue.splits)
    then show ?thesis
      using put_ok [OF ok, of l ?n] None n(1) by (auto simp: node_at_put jcells_put)
  next
    case (Some a)
    define h1 where "h1 = h\<lparr>jcells := (jcells h)(a := None)\<rparr>"
    have alloc: "jcells h a \<noteq> None" by (rule typed_owned [OF ty Some])
    have out: "container l \<noteq> Some a" using heap_okD(4) [OF ok n(1) Some, of a] by auto
    have n1: "node_at h1 l = Some n" using n(1) out by (simp add: h1_def node_at_delete)
    have eq: "json_clear l h = Inr (put_node l ?n h1)"
      using Some n alloc n1
      by (auto simp: json_clear_def load_node_Some the_tag_def owned_def store_node_Some delete_cell_def h1_def
          as_string_def as_array_def as_object_def split: jtype.splits jvalue.splits)
    have at: "node_at (put_node l ?n h1) l' = (if l' = l then Some ?n else if container l' = Some a then None else node_at h l')" for l'
      using n1 by (simp add: node_at_put) (simp add: h1_def node_at_delete)
    have "heap_ok (put_node l ?n h1)"
    proof (rule heap_ok_step [OF ok, where ?l0.0 = l])
      show "omap_ok m" if "jcells (put_node l ?n h1) b = Some (C_object m)" for b m
        by (rule put_object_ok [OF _ that]) (auto simp: h1_def heap_okD(2) [OF ok] split: if_splits)
      show "jcells (put_node l ?n h1) b = None" if "next_addr (put_node l ?n h1) \<le> b" for b
        by (rule put_fresh) (use that heap_okD(1) [OF ok] in \<open>auto simp: h1_def\<close>)
      show "owned x = None \<and> typed (put_node l ?n h1) x \<or>
          node_at h l' = Some x \<and> (\<forall>b. owned x = Some b \<longrightarrow> kind_at (put_node l ?n h1) b = kind_at h b) \<or>
          l' = l \<and> owned x = Some (next_addr h) \<and> typed (put_node l ?n h1) x \<and>
            (\<forall>b. container l' = Some b \<longrightarrow> b < next_addr h)"
        if "node_at (put_node l ?n h1) l' = Some x" for l' x
      proof (cases "l' = l")
        case True
        then have "x = ?n" using that at [of l'] by simp
        then show ?thesis by simp
      next
        case False
        then have x: "node_at h l' = Some x" using that at by (auto split: if_splits)
        have "owned x \<noteq> Some a" using heap_okD(5) [OF ok x n(1) _ Some] False by blast
        then have "kind_at (put_node l ?n h1) b = kind_at h b" if "owned x = Some b" for b
          using that by (auto simp: h1_def)
        then show ?thesis using x by blast
      qed
    qed (simp add: h1_def)
    then show ?thesis using eq at Some by (auto simp: jcells_put h1_def)
  qed
qed

text \<open>A node that gets a new cell\<close>

definition unowned_cell :: "jcell \<Rightarrow> bool" where
  "unowned_cell c \<longleftrightarrow> (case c of C_string _ \<Rightarrow> True
     | C_array _ ns \<Rightarrow> \<forall>n \<in> set ns. m_type n = None
     | C_object m \<Rightarrow> (\<forall>e \<in> set m. m_type (snd e) = None) \<and> omap_ok m)"

lemma unowned_cell_node: "unowned_cell c \<Longrightarrow> cell_node c l = Some n \<Longrightarrow> m_type n = None"
  by (fastforce simp: unowned_cell_def cell_node_def split: jcell.splits jloc.splits if_splits dest: map_of_SomeD)

definition pointer_to :: "jcell \<Rightarrow> nat \<Rightarrow> jvalue" where
  "pointer_to c a = (case c of C_string _ \<Rightarrow> V_string a | C_array _ _ \<Rightarrow> V_array a | C_object _ \<Rightarrow> V_object a)"

abbreviation ref_node :: "jcell \<Rightarrow> nat \<Rightarrow> jnode" where
  "ref_node c a \<equiv> \<lparr>m_type = Some (kind c), m_value = pointer_to c a\<rparr>"

lemma owned_ref_node [simp]: "owned (ref_node c a) = Some a"
  by (cases c) (simp_all add: owned_def kind_def pointer_to_def)

lemma typed_ref_node [simp]: "typed h (ref_node c a) \<longleftrightarrow> kind_at h a = Some (kind c)"
  by (cases c) (simp_all add: typed_def kind_def pointer_to_def)

lemma new_ref_ok:
  assumes ok: "heap_ok h" and l: "node_at h l \<noteq> None \<or> (\<exists>v. l = Var v)" and c: "unowned_cell c"
  defines "h' \<equiv> put_node l (ref_node c (next_addr h)) (snd (new_cell c h))"
  shows "heap_ok h'"
    and "node_at h' l' = (if l' = l then Some (ref_node c (next_addr h))
           else if container l' = Some (next_addr h) then cell_node c l' else node_at h l')"
    and "jcells h' (next_addr h) = Some c"
    and "next_addr h' = Suc (next_addr h)"
    and "container l \<noteq> Some a \<Longrightarrow> a \<noteq> next_addr h \<Longrightarrow> jcells h' a = jcells h a"
proof -
  define h1 where "h1 = snd (new_cell c h)"
  have h1: "h1 = (h\<lparr>jcells := (jcells h)(next_addr h \<mapsto> c)\<rparr>)\<lparr>next_addr := next_addr h + 1\<rparr>"
    by (simp add: h1_def new_cell_def)
  have in_l: "b < next_addr h" if "container l = Some b" for b
    using l container_allocated [OF ok, of l _ b] that by (auto simp: container_def)
  then have out: "container l \<noteq> Some (next_addr h)" by blast
  have at1: "node_at h1 l' = (if container l' = Some (next_addr h) then cell_node c l' else node_at h l')" for l'
    unfolding h1 node_at_next by (rule node_at_set_cell)
  have h': "h' = put_node l (ref_node c (next_addr h)) h1" by (simp add: h'_def h1_def)
  have at: "node_at h' l' = (if l' = l then Some (ref_node c (next_addr h)) else node_at h1 l')" for l'
    using l at1 [of l] out
    by (auto simp: h' node_at_put)
  then show "node_at h' l' = (if l' = l then Some (ref_node c (next_addr h))
      else if container l' = Some (next_addr h) then cell_node c l' else node_at h l')"
    by (simp add: at1)
  show cell: "jcells h' (next_addr h) = Some c" using out by (simp add: h' jcells_put h1)
  show "next_addr h' = Suc (next_addr h)" by (simp add: h' h1)
  show "jcells h' a = jcells h a" if "container l \<noteq> Some a" "a \<noteq> next_addr h"
    using that by (simp add: h' jcells_put h1)
  show "heap_ok h'"
  proof (rule heap_ok_step [OF ok, where ?l0.0 = l])
    show "next_addr h \<le> next_addr h'" by (simp add: h' h1)
    show "omap_ok m" if "jcells h' b = Some (C_object m)" for b m
      by (rule put_object_ok [OF _ that [unfolded h']])
        (use c heap_okD(2) [OF ok] in \<open>auto simp: h1 unowned_cell_def split: if_splits\<close>)
    show "jcells h' b = None" if "next_addr h' \<le> b" for b
      unfolding h' by (rule put_fresh) (use that heap_okD(1) [OF ok] in \<open>auto simp: h1 h'\<close>)
    show "owned x = None \<and> typed h' x \<or>
        node_at h l' = Some x \<and> (\<forall>b. owned x = Some b \<longrightarrow> kind_at h' b = kind_at h b) \<or>
        l' = l \<and> owned x = Some (next_addr h) \<and> typed h' x \<and> (\<forall>b. container l' = Some b \<longrightarrow> b < next_addr h)"
      if "node_at h' l' = Some x" for l' x
    proof (cases "l' = l")
      case True
      then have x: "x = ref_node c (next_addr h)" using that at [of l'] by simp
      have "typed h' x" unfolding x typed_ref_node cell by simp
      then show ?thesis using x in_l True by simp
    next
      case False
      then have n: "node_at h1 l' = Some x" using that at [of l'] by simp
      show ?thesis
      proof (cases "container l' = Some (next_addr h)")
        case True
        then have "m_type x = None" using n at1 unowned_cell_node [OF c] by simp
        then show ?thesis by simp
      next
        case False
        then have x: "node_at h l' = Some x" using n at1 by simp
        have "kind_at h' b = kind_at h b" if "owned x = Some b" for b
          using owned_allocated [OF ok x that] by (simp add: h' h1)
        then show ?thesis using x by blast
      qed
    qed
  qed
qed

text \<open>A cell whose contents change\<close>

lemma set_cell_ok:
  assumes ok: "heap_ok h" and c0: "jcells h a = Some c0" "kind c = kind c0"
    and nodes: "\<And>l n. container l = Some a \<Longrightarrow> cell_node c l = Some n \<Longrightarrow>
        cell_node c0 l = Some n \<or> owned n = None \<and> typed h n"
    and objs: "\<And>m. c = C_object m \<Longrightarrow> omap_ok m"
  shows "heap_ok (h\<lparr>jcells := (jcells h)(a \<mapsto> c)\<rparr>)" (is "heap_ok ?h")
proof (rule heap_ok_step [OF ok])
  have kind: "kind_at ?h b = kind_at h b" for b using c0 by simp
  show "jcells ?h b = None" if "next_addr ?h \<le> b" for b
    using that heap_okD(1) [OF ok, of b] c0 by auto
  show "omap_ok m" if "jcells ?h b = Some (C_object m)" for b m
    using that objs heap_okD(2) [OF ok] by (auto split: if_splits)
  show "owned x = None \<and> typed ?h x \<or>
      node_at h l' = Some x \<and> (\<forall>b. owned x = Some b \<longrightarrow> kind_at ?h b = kind_at h b) \<or>
      l' = Var 0 \<and> owned x = Some (next_addr h) \<and> typed ?h x \<and> (\<forall>b. container l' = Some b \<longrightarrow> b < next_addr h)"
    if "node_at ?h l' = Some x" for l' x
  proof (cases "container l' = Some a")
    case True
    then have "cell_node c l' = Some x" using that by (simp add: node_at_set_cell)
    then consider "node_at h l' = Some x" | "owned x = None" "typed h x"
      using nodes [OF True] node_at_cell [OF c0(1) True] by auto
    then show ?thesis using kind typed_cong [of h x ?h] by cases auto
  next
    case False
    then show ?thesis using that kind by (simp add: node_at_set_cell)
  qed
qed simp

subsection \<open>Assignments\<close>

text \<open>What an operation on the node \<open>n\<close> at \<open>l\<close> leaves alone\<close>

definition kept :: "jloc \<Rightarrow> jnode \<Rightarrow> jheap \<Rightarrow> jheap \<Rightarrow> bool" where
  "kept l n h h' \<longleftrightarrow> (\<forall>l'. l' \<noteq> l \<longrightarrow> node_at h l' \<noteq> None \<longrightarrow> container l' \<noteq> owned n \<or> owned n = None \<longrightarrow>
     node_at h' l' = node_at h l')"

lemma assign_scalar_ok:
  assumes ok: "heap_ok h" and n: "node_at h l = Some n" "m_type n = Some tag"
    and sc: "t \<in> {Json_bool, Json_int, Json_double}" "typed h \<lparr>m_type = Some t, m_value = v\<rparr>"
  shows "\<exists>h'. assign_scalar t v l h = Inr h' \<and> heap_ok h' \<and> next_addr h' = next_addr h \<and>
    node_at h' l = Some \<lparr>m_type = Some t, m_value = v\<rparr> \<and> kept l n h h' \<and>
    (\<forall>l'. l' \<noteq> l \<longrightarrow> node_at h l' = None \<longrightarrow> node_at h' l' = None)"
proof -
  let ?n = "\<lparr>m_type = Some t, m_value = v\<rparr>"
  have un: "owned ?n = None" using sc(1) by (auto simp: owned_def)
  have ty: "typed g ?n" for g by (rule typed_cong [OF sc(2)]) (use un in simp)
  have "\<exists>h1. (if tag \<noteq> t then json_clear l h else Inr h) = Inr h1 \<and> heap_ok h1 \<and>
      next_addr h1 = next_addr h \<and> node_at h1 l \<noteq> None \<and> kept l n h h1 \<and>
      (\<forall>l'. l' \<noteq> l \<longrightarrow> node_at h l' = None \<longrightarrow> node_at h1 l' = None)"
  proof (cases "tag = t")
    case True
    then show ?thesis using ok n by (simp add: kept_def)
  next
    case False
    then show ?thesis using clear_ok [OF ok n] by (auto simp: kept_def)
  qed
  then obtain h1 where h1: "(if tag \<noteq> t then json_clear l h else Inr h) = Inr h1" "heap_ok h1"
      "next_addr h1 = next_addr h" "node_at h1 l \<noteq> None" "kept l n h h1"
      "\<forall>l'. l' \<noteq> l \<longrightarrow> node_at h l' = None \<longrightarrow> node_at h1 l' = None" by blast
  have "assign_scalar t v l h = Inr (put_node l ?n h1)"
    using n h1(1,4) by (simp add: assign_scalar_def load_node_Some the_tag_def store_node_def)
  moreover have "heap_ok (put_node l ?n h1)" using put_ok [OF h1(2) _ un ty] h1(4) by blast
  moreover have "kept l n h (put_node l ?n h1)"
    using h1(4,5) by (auto simp: kept_def node_at_put)
  ultimately show ?thesis using h1(3,4,6) by (auto simp: node_at_put)
qed

text \<open>\<^verbatim>\<open>clear(); m_type = t; m_value = new ...\<close>\<close>

lemma become_ok:
  assumes ok: "heap_ok h" and n: "node_at h l = Some n" "m_type n = Some t" and c: "unowned_cell c"
  shows "\<exists>h'. rbind (json_clear l h) (\<lambda>h1. case new_cell c h1 of (a, h2) \<Rightarrow> store_node l (ref_node c a) h2) = Inr h' \<and>
    heap_ok h' \<and> next_addr h' = Suc (next_addr h) \<and>
    node_at h' l = Some (ref_node c (next_addr h)) \<and> jcells h' (next_addr h) = Some c \<and> kept l n h h'"
proof -
  obtain h1 where h1: "json_clear l h = Inr h1" "heap_ok h1" "next_addr h1 = next_addr h" "node_at h1 l \<noteq> None"
      "\<forall>l'. l' \<noteq> l \<longrightarrow> node_at h1 l' = (if container l' \<noteq> None \<and> container l' = owned n then None else node_at h l')"
    using clear_ok [OF ok n] by force
  let ?h2 = "snd (new_cell c h1)" and ?h' = "put_node l (ref_node c (next_addr h1)) (snd (new_cell c h1))"
  have f: "fst (new_cell c h1) = next_addr h1" by (simp add: new_cell_def)
  note new = new_ref_ok [OF h1(2) disjI1 [OF h1(4)] c]
  have "container l \<noteq> Some (next_addr h1)"
    using container_allocated [OF h1(2), of l] h1(4) by fastforce
  then have "node_at ?h2 l = node_at h1 l"
    by (simp add: node_at_new_cell)
  then have st: "store_node l (ref_node c (next_addr h1)) ?h2 = Inr ?h'" using h1(4) by (simp add: store_node_def)
  have fresh: "container l' \<noteq> Some (next_addr h1)" if "node_at h l' \<noteq> None" for l'
    using that container_allocated [OF ok, of l'] h1(3) by fastforce
  have "kept l n h ?h'"
    unfolding kept_def using new(2) fresh h1(5) by auto
  moreover have "rbind (json_clear l h) (\<lambda>h1. case new_cell c h1 of (a, h2) \<Rightarrow> store_node l (ref_node c a) h2) = Inr ?h'"
    using st h1(1) by (simp add: split_beta f)
  moreover have "node_at ?h' l = Some (ref_node c (next_addr h))" using new(2) [of l] h1(3) by simp
  ultimately show ?thesis using new(1,3,4) h1(3) by auto
qed

lemma unowned_empty [simp]: "unowned_cell (C_string s)" "unowned_cell (C_array c [])" "unowned_cell (C_object [])"
  by (simp_all add: unowned_cell_def)

lemma assign_string_ok:
  assumes ok: "heap_ok h" and n: "node_at h l = Some n" "m_type n = Some tag"
  shows "\<exists>h' a. assign_string s l h = Inr h' \<and> heap_ok h' \<and>
    node_at h' l = Some \<lparr>m_type = Some Json_string, m_value = V_string a\<rparr> \<and> jcells h' a = Some (C_string s) \<and>
    kept l n h h'"
proof -
  have "\<exists>h3 a s0. (if tag \<noteq> Json_string then
              rbind (json_clear l h) (\<lambda>h1. case new_cell (C_string []) h1 of
                (a, h2) \<Rightarrow> store_node l \<lparr>m_type = Some Json_string, m_value = V_string a\<rparr> h2)
            else Inr h) = Inr h3 \<and> heap_ok h3 \<and>
      node_at h3 l = Some \<lparr>m_type = Some Json_string, m_value = V_string a\<rparr> \<and> jcells h3 a = Some (C_string s0) \<and>
      kept l n h h3"
  proof (cases "tag = Json_string")
    case True
    have "typed h n" by (rule heap_okD(3) [OF ok n(1)])
    then obtain a c where a: "m_value n = V_string a" "jcells h a = Some c" "kind c = Json_string"
      using n True by (auto simp: typed_def split: jvalue.splits)
    then obtain s0 where "c = C_string s0" by (cases c) (auto simp: kind_def)
    then show ?thesis using True ok n a by (cases n) (auto simp: kept_def)
  next
    case False
    then show ?thesis
      using become_ok [OF ok n, of "C_string []"] by (auto simp: kind_def pointer_to_def)
  qed
  then obtain h3 a s0 where h3: "(if tag \<noteq> Json_string then
              rbind (json_clear l h) (\<lambda>h1. case new_cell (C_string []) h1 of
                (a, h2) \<Rightarrow> store_node l \<lparr>m_type = Some Json_string, m_value = V_string a\<rparr> h2)
            else Inr h) = Inr h3" "heap_ok h3"
      "node_at h3 l = Some \<lparr>m_type = Some Json_string, m_value = V_string a\<rparr>" "jcells h3 a = Some (C_string s0)"
      "kept l n h h3" by blast
  let ?h = "h3\<lparr>jcells := (jcells h3)(a \<mapsto> C_string s)\<rparr>"
  have at: "node_at ?h l' = node_at h3 l'" for l'
    using node_at_cell [OF h3(4), of l'] by (auto simp: node_at_set_cell cell_node_def)
  have "heap_ok ?h"
    by (rule set_cell_ok [OF h3(2,4)]) (auto simp: kind_def cell_node_def)
  moreover have "assign_string s l h = Inr ?h"
    using n h3 by (simp add: assign_string_def load_node_Some the_tag_def as_string_def string_at_def)
  ultimately show ?thesis
    using h3(3,5) by (auto simp: at kept_def)
qed

subsection \<open>Members and elements\<close>

text \<open>The entries of the object a node holds\<close>

definition members :: "jheap \<Rightarrow> jnode \<Rightarrow> string \<Rightarrow> jnode option" where
  "members h n = (case (m_type n, m_value n) of
     (Some Json_object, V_object a) \<Rightarrow> (case jcells h a of Some (C_object m) \<Rightarrow> map_of m | _ \<Rightarrow> Map.empty)
   | _ \<Rightarrow> Map.empty)"

lemma typed_object:
  assumes "typed h n" "m_type n = Some Json_object"
  obtains a m where "m_value n = V_object a" "jcells h a = Some (C_object m)" "owned n = Some a" "members h n = map_of m"
proof -
  obtain a c where a: "m_value n = V_object a" "jcells h a = Some c" "kind c = Json_object"
    using assms by (auto simp: typed_def split: jvalue.splits)
  obtain m where "c = C_object m" using a(3) by (cases c) (auto simp: kind_def)
  then show ?thesis using that a assms(2) by (simp add: members_def owned_def)
qed

lemma typed_array:
  assumes "typed h n" "m_type n = Some Json_array"
  obtains a c ns where "m_value n = V_array a" "jcells h a = Some (C_array c ns)" "owned n = Some a"
proof -
  obtain a c where a: "m_value n = V_array a" "jcells h a = Some c" "kind c = Json_array"
    using assms by (auto simp: typed_def split: jvalue.splits)
  obtain k ns where "c = C_array k ns" using a(3) by (cases c) (auto simp: kind_def)
  then show ?thesis using that a assms(2) by (simp add: owned_def)
qed

lemma index_key_ok:
  assumes ok: "heap_ok h" and n: "node_at h l = Some n" "m_type n = Some t"
  shows "\<exists>a h'. index_key l key h = Inr (Member a key, h') \<and> heap_ok h' \<and>
    node_at h' l = Some \<lparr>m_type = Some Json_object, m_value = V_object a\<rparr> \<and>
    (\<forall>k. node_at h' (Member a k) = ((members h n)(key := Some (case members h n key of None \<Rightarrow> json_default | Some x \<Rightarrow> x))) k) \<and>
    kept l n h h' \<and> (owned n = Some a \<or> a = next_addr h)"
proof -
  have "\<exists>h3 a m. (if t \<noteq> Json_object then
              rbind (json_clear l h) (\<lambda>h1. case new_cell (C_object []) h1 of
                (a, h2) \<Rightarrow> store_node l \<lparr>m_type = Some Json_object, m_value = V_object a\<rparr> h2)
            else Inr h) = Inr h3 \<and> heap_ok h3 \<and>
      node_at h3 l = Some \<lparr>m_type = Some Json_object, m_value = V_object a\<rparr> \<and> jcells h3 a = Some (C_object m) \<and>
      map_of m = members h n \<and> kept l n h h3 \<and> (t = Json_object \<longrightarrow> owned n = Some a) \<and> (t \<noteq> Json_object \<longrightarrow> a = next_addr h)"
  proof (cases "t = Json_object")
    case True
    then obtain a m where "m_value n = V_object a" "jcells h a = Some (C_object m)" "owned n = Some a"
        "members h n = map_of m"
      using typed_object [OF heap_okD(3) [OF ok n(1)]] n(2) by metis
    then show ?thesis using True ok n by (cases n) (auto simp: kept_def)
  next
    case False
    then have "members h n = Map.empty" using n(2) by (auto simp: members_def split: jtype.splits)
    then show ?thesis
      using become_ok [OF ok n, of "C_object []"] False by (auto simp: kind_def pointer_to_def)
  qed
  then obtain h3 a m where h3: "(if t \<noteq> Json_object then
              rbind (json_clear l h) (\<lambda>h1. case new_cell (C_object []) h1 of
                (a, h2) \<Rightarrow> store_node l \<lparr>m_type = Some Json_object, m_value = V_object a\<rparr> h2)
            else Inr h) = Inr h3" "heap_ok h3"
      "node_at h3 l = Some \<lparr>m_type = Some Json_object, m_value = V_object a\<rparr>" "jcells h3 a = Some (C_object m)"
      "map_of m = members h n" "kept l n h h3" "t = Json_object \<longrightarrow> owned n = Some a" "t \<noteq> Json_object \<longrightarrow> a = next_addr h"
    by blast
  define h' where "h' = (if map_of m key = None
      then h3\<lparr>jcells := (jcells h3)(a \<mapsto> C_object (omap_put key json_default m))\<rparr> else h3)"
  have run: "index_key l key h = Inr (Member a key, h')"
    using n h3(1,3,4) by (simp add: index_key_def load_node_Some the_tag_def as_object_def object_at_def h'_def)
  have out: "container l \<noteq> Some a"
    using heap_okD(4) [OF h3(2,3), of a a] by (auto simp: owned_def)
  have mem: "node_at h3 (Member a k) = map_of m k" for k using h3(4) by (simp add: node_at_def)
  have at: "node_at h' l' = (if map_of m key = None \<and> l' = Member a key then Some json_default else node_at h3 l')" for l'
    using node_at_cell [OF h3(4), of l']
    by (cases l') (auto simp: h'_def node_at_set_cell cell_node_def container_def map_of_omap_put)
  have "heap_ok h'"
  proof (cases "map_of m key = None")
    case True
    have "heap_ok (h3\<lparr>jcells := (jcells h3)(a \<mapsto> C_object (omap_put key json_default m))\<rparr>)"
    proof (rule set_cell_ok [OF h3(2,4)])
      show "omap_ok m'" if "C_object (omap_put key json_default m) = C_object m'" for m'
        using that heap_okD(2) [OF h3(2,4)] by (auto intro: omap_ok_put)
    qed (auto simp: kind_def cell_node_def map_of_omap_put json_default_def owned_def typed_def
          split: jloc.splits if_splits)
    then show ?thesis using True by (simp add: h'_def)
  next
    case False
    then show ?thesis using h3(2) by (auto simp: h'_def)
  qed
  moreover have "kept l n h h'"
  proof -
    have "l' \<noteq> Member a key" if old: "node_at h l' \<noteq> None" "container l' \<noteq> owned n \<or> owned n = None" for l'
    proof
      assume l': "l' = Member a key"
      obtain x where x: "node_at h l' = Some x" using old(1) by blast
      have "t = Json_object \<Longrightarrow> False" using old(2) h3(7) l' by (simp add: container_def)
      moreover have "t \<noteq> Json_object \<Longrightarrow> False"
        using h3(8) container_allocated [OF ok x, of a] l' by (simp add: container_def)
      ultimately show False by blast
    qed
    then show ?thesis using h3(6) by (auto simp: kept_def at)
  qed
  moreover have "node_at h' l = Some \<lparr>m_type = Some Json_object, m_value = V_object a\<rparr>"
    using h3(3) out by (auto simp: at container_def)
  moreover have "node_at h' (Member a k)
      = ((members h n)(key := Some (case members h n key of None \<Rightarrow> json_default | Some x \<Rightarrow> x))) k" for k
    using h3(5) by (auto simp: at mem split: option.splits)
  moreover have "owned n = Some a \<or> a = next_addr h" using h3(7,8) by blast
  ultimately show ?thesis using run by blast
qed

lemma array_atD: "array_at a h = Inr (c, ns) \<Longrightarrow> jcells h a = Some (C_array c ns)"
  by (auto simp: array_at_def split: option.splits jcell.splits)

lemma json_copy_untagged: "json_copy n = Inr c \<Longrightarrow> m_type c = None"
proof -
  assume c: "json_copy n = Inr c"
  then obtain t where t: "m_type n = Some t" by (auto simp: json_copy_def rbind_eq_Inr the_tag_Inr)
  show ?thesis
    using c t
    by (cases t; cases "m_value n") (auto simp: json_copy_def the_tag_def as_string_def as_array_def as_object_def)
qed

lemma copy_all_untagged: "copy_all ns = Inr ns' \<Longrightarrow> length ns' = length ns \<and> (\<forall>n \<in> set ns'. m_type n = None)"
  by (induction ns arbitrary: ns') (auto simp: rbind_eq_Inr dest: json_copy_untagged)

lemma copy_entries_untagged:
  "copy_entries m = Inr m' \<Longrightarrow> map fst m' = map fst m \<and> (\<forall>e \<in> set m'. m_type (snd e) = None)"
proof (induction m arbitrary: m' rule: copy_entries.induct)
  case (2 k n m)
  then obtain c m1 where "json_copy n = Inr c" "copy_entries m = Inr m1" "m' = (k, c) # m1"
    by (auto simp: rbind_eq_Inr)
  then show ?case using "2.IH" json_copy_untagged by simp
qed simp

definition grown :: "jnode list \<Rightarrow> jnode list \<Rightarrow> bool" where
  "grown ns ns' \<longleftrightarrow> length ns \<le> length ns' \<and>
     (\<forall>i < length ns'. m_type (ns' ! i) = None \<or> i < length ns \<and> ns' ! i = ns ! i)"

lemma grown_trans: "grown ns ns' \<Longrightarrow> grown ns' ns'' \<Longrightarrow> grown ns ns''"
  unfolding grown_def by (metis le_trans)

lemma push_back_grown:
  assumes "push_back x (c, ns) = Inr (c', ns')"
  shows "grown ns ns'" "length ns' = Suc (length ns)" "m_type (last ns') = None"
proof -
  obtain n where n: "json_copy x = Inr n" "m_type n = None" "ns' = ns @ [n] \<or> (\<exists>ms. copy_all ns = Inr ms \<and> ns' = ms @ [n])"
    using assms json_copy_untagged by (auto simp: push_back_def rbind_eq_Inr split: if_splits)
  have "\<forall>i < length ms. m_type (ms ! i) = None" "length ms = length ns" if "copy_all ns = Inr ms" for ms
    using copy_all_untagged [OF that] by auto
  then show "grown ns ns'" "length ns' = Suc (length ns)" "m_type (last ns') = None"
    using n by (auto simp: grown_def nth_append less_Suc_eq)
qed

lemma push_defaults_grown:
  "push_defaults n (c, ns) = Inr (c', ns') \<Longrightarrow> grown ns ns' \<and> length ns' = n + length ns \<and>
     (n \<noteq> 0 \<longrightarrow> m_type (last ns') = None)"
proof (induction n arbitrary: c ns)
  case 0
  then show ?case by (simp add: grown_def)
next
  case (Suc n)
  obtain c1 ns1 where 1: "push_back json_default (c, ns) = Inr (c1, ns1)" "push_defaults n (c1, ns1) = Inr (c', ns')"
    using Suc.prems by (auto simp: rbind_eq_Inr)
  show ?case
    using Suc.IH [OF 1(2)] push_back_grown [OF 1(1)] grown_trans [of ns ns1 ns'] 1(2) by (cases n) auto
qed

lemma grown_cell_ok:
  assumes ok: "heap_ok h" and a: "jcells h a = Some (C_array c ns)" and g: "grown ns ns'"
  shows "heap_ok (h\<lparr>jcells := (jcells h)(a \<mapsto> C_array c' ns')\<rparr>)"
  by (rule set_cell_ok [OF ok a]) (use g in \<open>auto simp: kind_def cell_node_def grown_def split: jloc.splits if_splits\<close>)

lemma index_int_ok:
  assumes ok: "heap_ok h" and n: "node_at h l = Some n" and run: "index_int l i h = Inr (r, h')"
  shows "heap_ok h' \<and> (\<exists>a c ns. r = Elem a (nat i) \<and> jcells h' a = Some (C_array c ns) \<and> nat i < length ns \<and>
    ((\<forall>b c0 ns0. m_type n = Some Json_array \<longrightarrow> owned n = Some b \<longrightarrow> jcells h b = Some (C_array c0 ns0) \<longrightarrow> int (length ns0) \<le> i) \<longrightarrow>
       (\<forall>x. node_at h' r = Some x \<longrightarrow> m_type x = None)))"
proof -
  obtain t where t: "m_type n = Some t"
    using run n by (auto simp: index_int_def rbind_eq_Inr load_node_Some the_tag_Inr)
  have "\<exists>h3 a c ns. (if t \<noteq> Json_array then
              rbind (json_clear l h) (\<lambda>h1. case new_cell (C_array 0 []) h1 of
                (a, h2) \<Rightarrow> store_node l \<lparr>m_type = Some Json_array, m_value = V_array a\<rparr> h2)
            else Inr h) = Inr h3 \<and> heap_ok h3 \<and>
      node_at h3 l = Some \<lparr>m_type = Some Json_array, m_value = V_array a\<rparr> \<and> jcells h3 a = Some (C_array c ns) \<and>
      (ns = [] \<or> t = Json_array \<and> owned n = Some a \<and> jcells h a = Some (C_array c ns))"
  proof (cases "t = Json_array")
    case True
    then obtain a c ns where "m_value n = V_array a" "jcells h a = Some (C_array c ns)" "owned n = Some a"
      using typed_array [OF heap_okD(3) [OF ok n]] t by metis
    then show ?thesis using True ok n t by (cases n) auto
  next
    case False
    then show ?thesis using become_ok [OF ok n t, of "C_array 0 []"] by (auto simp: kind_def pointer_to_def)
  qed
  then obtain h3 a c ns where h3: "(if t \<noteq> Json_array then
              rbind (json_clear l h) (\<lambda>h1. case new_cell (C_array 0 []) h1 of
                (a, h2) \<Rightarrow> store_node l \<lparr>m_type = Some Json_array, m_value = V_array a\<rparr> h2)
            else Inr h) = Inr h3" "heap_ok h3"
      "node_at h3 l = Some \<lparr>m_type = Some Json_array, m_value = V_array a\<rparr>" "jcells h3 a = Some (C_array c ns)"
      "ns = [] \<or> t = Json_array \<and> owned n = Some a \<and> jcells h a = Some (C_array c ns)" by blast
  obtain c' ns' where p: "0 \<le> i" "push_defaults (nat i + 1 - length ns) (c, ns) = Inr (c', ns')"
      "r = Elem a (nat i)" "h' = h3\<lparr>jcells := (jcells h3)(a \<mapsto> C_array c' ns')\<rparr>"
    using run n t h3(1,3,4)
    by (auto simp: index_int_def load_node_Some the_tag_def as_array_def array_at_def rbind_eq_Inr split: if_splits)
  note g = push_defaults_grown [OF p(2)]
  have len: "nat i < length ns'" using g by auto
  have "heap_ok h'" unfolding p(4) by (rule grown_cell_ok [OF h3(2,4)]) (use g in simp)
  moreover have "m_type x = None"
    if new: "\<forall>b c0 ns0. m_type n = Some Json_array \<longrightarrow> owned n = Some b \<longrightarrow> jcells h b = Some (C_array c0 ns0) \<longrightarrow> int (length ns0) \<le> i"
      and x: "node_at h' r = Some x" for x
  proof -
    have "length ns \<le> nat i" using h3(5) new t p(1) by auto
    moreover have "x = ns' ! nat i" using x p(3,4) len by (auto simp: node_at_def)
    ultimately show ?thesis using g len by (auto simp: grown_def)
  qed
  moreover have "jcells h' a = Some (C_array c' ns')" by (simp add: p(4))
  ultimately show ?thesis using p(3) len by blast
qed

lemma json_append_ok:
  assumes ok: "heap_ok h" and run: "json_append l other h = Inr h'"
  shows "heap_ok h'"
proof -
  obtain n t where n: "node_at h l = Some n" "m_type n = Some t"
    using run by (auto simp: json_append_def rbind_eq_Inr the_tag_Inr dest: load_nodeD)
  define r where "r = (if t \<noteq> Json_array then
              (case new_cell (C_array 0 []) h of
                (a, h2) \<Rightarrow> store_node l \<lparr>m_type = Some Json_array, m_value = V_array a\<rparr> h2)
            else Inr h)"
  obtain h3 where h3: "r = Inr h3" using run n by (auto simp: json_append_def load_node_Some the_tag_def rbind_eq_Inr r_def)
  have "heap_ok h3"
  proof (cases "t = Json_array")
    case True
    then show ?thesis using h3 ok by (simp add: r_def)
  next
    case False
    have "h3 = put_node l (ref_node (C_array 0 []) (next_addr h)) (snd (new_cell (C_array 0 []) h))"
      using h3 False
      by (auto simp: r_def store_node_def kind_def pointer_to_def new_cell_def split: if_splits)
    then show ?thesis using new_ref_ok(1) [OF ok, of l "C_array 0 []"] n by simp
  qed
  moreover obtain a vec x c' ns' where "array_at a h3 = Inr vec" "push_back x vec = Inr (c', ns')"
      "h' = h3\<lparr>jcells := (jcells h3)(a \<mapsto> C_array c' ns')\<rparr>"
    using run n h3 [unfolded r_def]
    by (auto simp: json_append_def load_node_Some the_tag_def rbind_eq_Inr)
  ultimately show ?thesis using grown_cell_ok push_back_grown(1) by (cases vec) (simp add: array_atD)
qed

lemma new_cell_put:
  assumes "container l \<noteq> Some (next_addr h)"
  shows "snd (new_cell c (put_node l x h)) = put_node l x (snd (new_cell c h))"
  using assms
  by (auto simp: new_cell_def put_node_def container_def fun_upd_twist split: jloc.splits option.splits jcell.splits)

lemma assign_json_ok:
  assumes ok: "heap_ok h" and run: "assign_json l other h = Inr h'"
  shows "heap_ok h'"
proof (cases "l = other")
  case True
  then show ?thesis using ok run by (simp add: assign_json_def)
next
  case False
  obtain n0 t0 where n0: "node_at h l = Some n0" "m_type n0 = Some t0"
    using run False by (auto simp: assign_json_def json_clear_def rbind_eq_Inr the_tag_Inr dest: load_nodeD)
  obtain h1 n1 where h1: "json_clear l h = Inr h1" "heap_ok h1" "node_at h1 l = Some n1"
    using clear_ok [OF ok n0] by blast
  obtain o1 t where o1: "node_at h1 other = Some o1" "m_type o1 = Some t"
    using run False h1(1) by (auto simp: assign_json_def rbind_eq_Inr the_tag_Inr dest: load_nodeD)
  let ?h2 = "put_node l (n1\<lparr>m_type := Some t\<rparr>) h1"
  show ?thesis
  proof (cases "t = Json_null")
    case True
    then have "h' = put_node l (n1\<lparr>m_type := Some Json_null\<rparr>) h1"
      using run False h1 o1 by (simp add: assign_json_def load_node_Some the_tag_def store_node_Some)
    then show ?thesis using put_ok [OF h1(2), of l] h1(3) by simp
  next
    case nonnull: False
    obtain v h3 where v: "copy_members t o1 ?h2 = Inr (v, h3)"
        "store_node l \<lparr>m_type = Some t, m_value = v\<rparr> h3 = Inr h'"
      using run False nonnull h1 o1
      by (auto simp: assign_json_def load_node_Some the_tag_def store_node_Some rbind_eq_Inr)
    have h': "h' = put_node l \<lparr>m_type = Some t, m_value = v\<rparr> h3"
      using v(2) by (auto simp: store_node_def split: if_splits)
    have out: "container l \<noteq> Some (next_addr h1)" using container_allocated [OF h1(2,3)] by blast
    have objs: "omap_ok m" if "jcells ?h2 a = Some (C_object m)" for a m
      by (rule put_object_ok [OF _ that]) (rule heap_okD(2) [OF h1(2)])
    have ref: "heap_ok h'" if "unowned_cell c" "kind c = t" "v = pointer_to c (next_addr h1)" "h3 = snd (new_cell c ?h2)" for c
    proof -
      have "h' = put_node l (ref_node c (next_addr h1)) (snd (new_cell c h1))"
        unfolding h' that(4) new_cell_put [OF out] put_put using that by simp
      then show ?thesis using new_ref_ok(1) [OF h1(2) _ that(1), of l] h1(3) by simp
    qed
    have scalar: "heap_ok h'" if "h3 = ?h2" "owned \<lparr>m_type = Some t, m_value = v\<rparr> = None" "typed h1 \<lparr>m_type = Some t, m_value = v\<rparr>"
      unfolding h' that(1) put_put using put_ok [OF h1(2) _ that(2,3)] h1(3) by blast
    show ?thesis
    proof (cases t)
      case Json_string
      then obtain s where "v = pointer_to (C_string s) (next_addr h1)" "h3 = snd (new_cell (C_string s) ?h2)"
        using v(1) by (auto simp: copy_members_def rbind_eq_Inr new_cell_def pointer_to_def)
      then show ?thesis using Json_string ref [of "C_string s"] by (simp add: kind_def)
    next
      case Json_array
      then obtain c and ns :: "jnode list" and ns' where "copy_all ns = Inr ns'" "v = pointer_to (C_array c ns') (next_addr h1)"
          "h3 = snd (new_cell (C_array c ns') ?h2)"
        using v(1) by (auto simp: copy_members_def rbind_eq_Inr new_cell_def pointer_to_def)
      then show ?thesis
        using Json_array copy_all_untagged ref [of "C_array c ns'"] by (simp add: unowned_cell_def kind_def)
    next
      case Json_object
      then obtain a m m' where m: "object_at a ?h2 = Inr m" "copy_entries m = Inr m'" "v = pointer_to (C_object m') (next_addr h1)"
          "h3 = snd (new_cell (C_object m') ?h2)"
        using v(1) by (auto simp: copy_members_def rbind_eq_Inr new_cell_def pointer_to_def)
      have "omap_ok m" using m(1) objs by (auto simp: object_at_def split: option.splits jcell.splits)
      then have "omap_ok m'" using copy_entries_untagged [OF m(2)] by (simp add: omap_ok_def)
      then show ?thesis
        using Json_object m copy_entries_untagged [OF m(2)] ref [of "C_object m'"]
        by (simp add: unowned_cell_def kind_def)
    qed (use nonnull v(1) o1 in \<open>auto intro!: scalar simp: copy_members_def rbind_eq_Inr json_copy_def the_tag_def owned_def typed_def
          split: jvalue.splits\<close>)
  qed
qed

subsection \<open>Output\<close>

lemma collect_total: "(\<And>x. x \<in> set xs \<Longrightarrow> f x \<noteq> None) \<Longrightarrow> collect f xs \<noteq> None"
  by (induction xs) (auto split: option.splits sum.splits)

text \<open>A cell is owned only by nodes of older cells, so the depth is bounded by the addresses in use.\<close>

lemma json_str_total:
  assumes ok: "heap_ok h"
  shows "node_at h l = Some n \<Longrightarrow> (case owned n of None \<Rightarrow> 0 | Some a \<Rightarrow> next_addr h - a) < fuel \<Longrightarrow>
    json_str fuel fmt h n \<noteq> None"
proof (induction fuel arbitrary: l n)
  case 0
  then show ?case by simp
next
  case (Suc fuel)
  have ty: "typed h n" by (rule heap_okD(3) [OF ok Suc.prems(1)])
  have inner: "json_str fuel fmt h x \<noteq> None"
    if a: "owned n = Some a" "a < next_addr h" and x: "node_at h l' = Some x" "container l' = Some a" for a l' x
  proof (rule Suc.IH [OF x(1)])
    show "(case owned x of None \<Rightarrow> 0 | Some b \<Rightarrow> next_addr h - b) < fuel"
      using Suc.prems(2) a heap_okD(4) [OF ok x(1) _ x(2)] by (auto split: option.splits)
  qed
  have below: "a < next_addr h" if "owned n = Some a" for a by (rule owned_allocated [OF ok Suc.prems(1) that])
  show ?case
  proof (cases "m_type n")
    case None
    then show ?thesis by (simp add: the_tag_def)
  next
    case (Some t)
    show ?thesis
    proof (cases t)
      case Json_array
      then obtain a c ns where a: "m_value n = V_array a" "jcells h a = Some (C_array c ns)" "owned n = Some a"
        using typed_array [OF ty] Some by metis
      have "json_str fuel fmt h x \<noteq> None" if elem: "x \<in> set ns" for x
      proof -
        obtain i where i: "i < length ns" "ns ! i = x" using elem by (auto simp: in_set_conv_nth)
        show ?thesis
          by (rule inner [OF a(3) below [OF a(3)], of "Elem a i"]) (use i a in \<open>auto simp: node_at_def container_def\<close>)
      qed
      then have "collect (json_str fuel fmt h) ns \<noteq> None" by (rule collect_total)
      then show ?thesis using Some Json_array a by (auto simp: the_tag_def as_array_def array_at_def)
    next
      case Json_object
      then obtain a m where a: "m_value n = V_object a" "jcells h a = Some (C_object m)" "owned n = Some a"
        using typed_object [OF ty] Some by metis
      have "distinct (map fst m)" using heap_okD(2) [OF ok a(2)] strict_sorted_iff by (auto simp: omap_ok_def)
      then have "json_str fuel fmt h x \<noteq> None" if "(k, x) \<in> set m" for k x
        using inner [OF a(3) below [OF a(3)], of "Member a k"] a(2) that
        by (auto simp: node_at_def container_def)
      then have "collect (\<lambda>e. map_option (\<lambda>r. rbind r (\<lambda>s. Inr (quoted (fst e) @ '':'' @ s))) (json_str fuel fmt h (snd e))) m \<noteq> None"
        by (intro collect_total) auto
      then show ?thesis using Some Json_object a by (auto simp: the_tag_def as_object_def object_at_def)
    qed (use Some in \<open>simp_all add: the_tag_def\<close>)
  qed
qed

section \<open>Programs\<close>

datatype jinit = Init_default | Init_bool bool | Init_int "32 word" | Init_double "64 word" | Init_string string
  | Init_cstring string | Init_type jtype

fun construct_json :: "jinit \<Rightarrow> jheap \<Rightarrow> jnode \<times> jheap" where
  "construct_json Init_default h = (json_default, h)"
| "construct_json (Init_bool b) h = (json_of_bool b, h)"
| "construct_json (Init_int i) h = (json_of_int i, h)"
| "construct_json (Init_double d) h = (json_of_double d, h)"
| "construct_json (Init_string s) h = json_of_string s h"
| "construct_json (Init_cstring s) h = json_of_cstring s h"
| "construct_json (Init_type t) h = json_of_type t h"

definition declare_var :: "nat \<Rightarrow> jinit \<Rightarrow> jheap \<Rightarrow> jheap" where
  "declare_var v i h = (case construct_json i h of (n, h1) \<Rightarrow> h1\<lparr>vars := (vars h1)(v \<mapsto> n)\<rparr>)"

datatype jop = Set_bool bool | Set_int "32 word" | Set_double "64 word" | Set_string string | Set_cstring string
  | Set_json jloc | At_key string | At_index int | Append jloc

fun apply_op :: "jop \<Rightarrow> jloc \<Rightarrow> jheap \<Rightarrow> jheap result" where
  "apply_op (Set_bool b) l h = assign_bool b l h"
| "apply_op (Set_int i) l h = assign_int i l h"
| "apply_op (Set_double d) l h = assign_double d l h"
| "apply_op (Set_string s) l h = assign_string s l h"
| "apply_op (Set_cstring s) l h = assign_cstring s l h"
| "apply_op (Set_json other) l h = assign_json l other h"
| "apply_op (At_key k) l h = rbind (index_key l k h) (\<lambda>r. Inr (snd r))"
| "apply_op (At_index i) l h = rbind (index_int l i h) (\<lambda>r. Inr (snd r))"
| "apply_op (Append other) l h = json_append l other h"

definition empty_heap :: jheap where
  "empty_heap = \<lparr>vars = Map.empty, jcells = Map.empty, next_addr = 0\<rparr>"

inductive json_reach :: "jheap \<Rightarrow> bool" where
  start: "json_reach empty_heap"
| var: "json_reach h \<Longrightarrow> vars h v = None \<Longrightarrow> json_reach (declare_var v i h)"
| oper: "json_reach h \<Longrightarrow> apply_op op l h = Inr h' \<Longrightarrow> json_reach h'"

inductive_simps json_reach_start: "json_reach empty_heap"

lemma put_var: "put_node (Var v) n h = h\<lparr>vars := (vars h)(v \<mapsto> n)\<rparr>"
  by (simp add: put_node_def)

lemma declare_var_ok:
  assumes "heap_ok h"
  shows "heap_ok (declare_var v i h)"
proof -
  have scalar: "heap_ok (put_node (Var v) n h)" if "owned n = None" "typed h n" for n
    using put_ok [OF assms _ that] by blast
  have ref: "heap_ok (put_node (Var v) (ref_node c (next_addr h)) (snd (new_cell c h)))" if "unowned_cell c" for c
    using new_ref_ok(1) [OF assms _ that, of "Var v"] by blast
  note simps = declare_var_def put_var [symmetric] json_default_def json_of_bool_def json_of_int_def json_of_double_def
    json_of_string_def json_of_cstring_def json_of_type_def new_cell_def
  note rules = scalar ref [unfolded new_cell_def snd_conv]
  show ?thesis
  proof (cases i)
    case (Init_string s)
    then show ?thesis using ref [of "C_string s"] by (simp add: simps kind_def pointer_to_def)
  next
    case (Init_cstring s)
    then show ?thesis using ref [of "C_string (cstr s)"] by (simp add: simps kind_def pointer_to_def)
  next
    case (Init_type t)
    then show ?thesis
      using ref [of "C_string []"] ref [of "C_array 0 []"] ref [of "C_object []"]
      by (cases t) (auto intro!: scalar simp: simps kind_def pointer_to_def owned_def typed_def)
  qed (auto intro!: scalar simp: simps owned_def typed_def)
qed

lemma tag_of_run:
  assumes "apply_op op l h = Inr h'" "\<And>other. op \<noteq> Set_json other"
  obtains n t where "node_at h l = Some n" "m_type n = Some t"
  using assms
  by (cases op) (auto simp: assign_bool_def assign_int_def assign_double_def assign_scalar_def assign_cstring_def
      assign_string_def index_key_def index_int_def json_append_def rbind_eq_Inr the_tag_Inr dest!: load_nodeD)

lemma scalar_typed:
  "typed h \<lparr>m_type = Some Json_bool, m_value = V_bool b\<rparr>" "typed h \<lparr>m_type = Some Json_int, m_value = V_int i\<rparr>"
  "typed h \<lparr>m_type = Some Json_double, m_value = V_double d\<rparr>"
  by (simp_all add: typed_def)

lemma apply_op_ok:
  assumes ok: "heap_ok h" and run: "apply_op op l h = Inr h'"
  shows "heap_ok h'"
proof (cases "\<exists>other. op = Set_json other")
  case True
  then show ?thesis using assign_json_ok [OF ok] run by auto
next
  case False
  then obtain n t where n: "node_at h l = Some n" "m_type n = Some t" using tag_of_run [OF run] by metis
  show ?thesis
  proof (cases op)
    case (At_index i)
    then obtain r where "index_int l i h = Inr (r, h')" using run by (auto simp: rbind_eq_Inr)
    then show ?thesis using index_int_ok [OF ok n(1)] by blast
  next
    case (Append other)
    then show ?thesis using json_append_ok [OF ok] run by simp
  next
    case (Set_bool b)
    then show ?thesis using assign_scalar_ok [OF ok n _ scalar_typed(1), of b] run by (auto simp: assign_bool_def)
  next
    case (Set_int i)
    then show ?thesis using assign_scalar_ok [OF ok n _ scalar_typed(2), of i] run by (auto simp: assign_int_def)
  next
    case (Set_double d)
    then show ?thesis using assign_scalar_ok [OF ok n _ scalar_typed(3), of d] run by (auto simp: assign_double_def)
  next
    case (Set_string s)
    then show ?thesis using assign_string_ok [OF ok n, of s] run by auto
  next
    case (Set_cstring s)
    then show ?thesis using assign_string_ok [OF ok n, of "cstr s"] run by (auto simp: assign_cstring_def)
  next
    case (At_key k)
    then show ?thesis using index_key_ok [OF ok n, of k] run by auto
  qed (use False in simp)
qed

lemma json_reach_ok: "json_reach h \<Longrightarrow> heap_ok h"
proof (induction rule: json_reach.induct)
  case start
  show ?case by (simp add: heap_ok_def empty_heap_def node_at_def split: jloc.splits)
qed (auto intro: declare_var_ok apply_op_ok)

section \<open>Properties\<close>

text \<open>A heap with one variable, for the examples\<close>

definition one_var :: "jinit \<Rightarrow> jheap" where
  "one_var i = declare_var 0 i empty_heap"

lemma one_var_reach: "json_reach (one_var i)"
  unfolding one_var_def by (rule json_reach.var [OF json_reach.start]) (simp add: empty_heap_def)

lemmas json_eval = one_var_def declare_var_def empty_heap_def json_of_int_def json_of_string_def new_cell_def
  node_at_def load_node_def the_tag_def

text \<open>C4: Whatever a program does with its \<^verbatim>\<open>Json\<close> values without undefined behaviour, a determined tag names
  the member of the union that is set and a live string, array or object of that kind.  So on a value with a
  determined tag the assignments of a \<^verbatim>\<open>bool\<close>, an \<^verbatim>\<open>int\<close>, a \<^verbatim>\<open>double\<close> or a string and the access
  by key never fail, and a conversion returns a value exactly when the tag is right and throws
  \<^verbatim>\<open>logic_error\<close> otherwise.  Assigning a \<^verbatim>\<open>Json\<close> is a step of the programs but not one that
  always succeeds (\<open>member_to_own_object_is_use_after_free\<close>), and neither is anything done with
  the undetermined tags of \<open>new_elements_are_unusable\<close>.\<close>

theorem json_is_type_safe:
  assumes "json_reach h" "node_at h l = Some n" "m_type n = Some t"
  shows "typed h n \<and>
    is_ok (assign_bool b l h) \<and> is_ok (assign_int i l h) \<and> is_ok (assign_double d l h) \<and> is_ok (assign_string s l h) \<and>
    is_ok (index_key l key h) \<and>
    (if t = Json_bool then is_ok (to_bool l h) else to_bool l h = Inl Logic_Error) \<and>
    (if t = Json_int then is_ok (to_int l h) else to_int l h = Inl Logic_Error) \<and>
    (if t = Json_double then is_ok (to_double l h) else to_double l h = Inl Logic_Error) \<and>
    (if t = Json_string then is_ok (to_string l h) else to_string l h = Inl Logic_Error)"
proof -
  have ok: "heap_ok h" using assms(1) by (rule json_reach_ok)
  have ty: "typed h n" by (rule heap_okD(3) [OF ok assms(2)])
  have conv: "t = Json_bool \<Longrightarrow> is_ok (to_bool l h)" "t = Json_int \<Longrightarrow> is_ok (to_int l h)"
    "t = Json_double \<Longrightarrow> is_ok (to_double l h)"
    using ty assms(2,3)
    by (auto simp: to_bool_def to_int_def to_double_def load_node_Some the_tag_def typed_def split: jvalue.splits)
  have conv_string: "is_ok (to_string l h)" if t: "t = Json_string"
  proof -
    obtain a c where "m_value n = V_string a" "jcells h a = Some c" "kind c = Json_string"
      using ty assms(3) t by (auto simp: typed_def split: jvalue.splits)
    then show ?thesis using assms(2,3) t
      by (cases c) (auto simp: to_string_def load_node_Some the_tag_def as_string_def string_at_def kind_def)
  qed
  have other: "t \<noteq> Json_bool \<Longrightarrow> to_bool l h = Inl Logic_Error" "t \<noteq> Json_int \<Longrightarrow> to_int l h = Inl Logic_Error"
    "t \<noteq> Json_double \<Longrightarrow> to_double l h = Inl Logic_Error" "t \<noteq> Json_string \<Longrightarrow> to_string l h = Inl Logic_Error"
    using assms(2,3) by (simp_all add: to_bool_def to_int_def to_double_def to_string_def load_node_Some the_tag_def)
  have assigns: "is_ok (assign_bool b l h)" "is_ok (assign_int i l h)" "is_ok (assign_double d l h)"
    "is_ok (assign_string s l h)" "is_ok (index_key l key h)"
    using assign_scalar_ok [OF ok assms(2,3) _ scalar_typed(1), of b]
      assign_scalar_ok [OF ok assms(2,3) _ scalar_typed(2), of i] assign_scalar_ok [OF ok assms(2,3) _ scalar_typed(3), of d]
      assign_string_ok [OF ok assms(2,3), of s] index_key_ok [OF ok assms(2,3), of key]
    by (auto simp: assign_bool_def assign_int_def assign_double_def)
  show ?thesis using ty conv conv_string other assigns by simp
qed

theorem json_is_type_safe_witness:
  "is_ok (assign_string ''ktg'' (Var 0) (one_var (Init_int 10))) \<and> to_bool (Var 0) (one_var (Init_int 10)) = Inl Logic_Error"
  using json_is_type_safe [OF one_var_reach [of "Init_int 10"], of "Var 0" "json_of_int 10" Json_int True 0 0 "''ktg''" "''k''"]
  by (simp add: json_eval)

text \<open>C30: When the tag of \<open>v\<close> is determined, and that of its member \<open>key\<close> too if there is one,
  \<^verbatim>\<open>v[key] = i\<close> makes \<open>v\<close> an object if it is none, sets the one member and leaves the other members
  as they were, together with every value that is neither inside a container that \<open>v\<close> held nor inside what the
  old member held.  The two tags are determined for values that were constructed or assigned; elements of
  arrays and members of copied objects are not (\<open>new_elements_are_unusable\<close>).\<close>

theorem member_assignment:
  assumes "json_reach h" "node_at h l = Some n" "m_type n = Some t"
    and "\<And>x. members h n key = Some x \<Longrightarrow> m_type x \<noteq> None"
  shows "\<exists>m h1 h2 n2. index_key l key h = Inr (m, h1) \<and> assign_int i m h1 = Inr h2 \<and>
    node_at h2 l = Some n2 \<and> members h2 n2 = (members h n)(key \<mapsto> json_of_int i) \<and> to_int m h2 = Inr i \<and>
    (\<forall>l'. l' \<noteq> l \<longrightarrow> node_at h l' \<noteq> None \<longrightarrow> container l' = None \<or> container l' \<noteq> owned n \<and>
        (\<forall>x. members h n key = Some x \<longrightarrow> container l' \<noteq> owned x) \<longrightarrow> node_at h2 l' = node_at h l')"
proof -
  have ok: "heap_ok h" using assms(1) by (rule json_reach_ok)
  let ?x = "case members h n key of None \<Rightarrow> json_default | Some x \<Rightarrow> x"
  obtain a h1 where h1: "index_key l key h = Inr (Member a key, h1)" "heap_ok h1"
      "node_at h1 l = Some \<lparr>m_type = Some Json_object, m_value = V_object a\<rparr>"
      "\<And>k. node_at h1 (Member a k) = ((members h n)(key := Some ?x)) k" "kept l n h h1"
      "owned n = Some a \<or> a = next_addr h"
      "owned n = Some a \<or> a = next_addr h"
      "owned n = Some a \<or> a = next_addr h"
    using index_key_ok [OF ok assms(2,3), of key] by blast
  have x: "node_at h1 (Member a key) = Some ?x" using h1(4) by simp
  obtain t' where t': "m_type ?x = Some t'" using assms(4) by (cases "members h n key") (auto simp: json_default_def)
  obtain h2 where h2: "assign_int i (Member a key) h1 = Inr h2" "heap_ok h2"
      "node_at h2 (Member a key) = Some \<lparr>m_type = Some Json_int, m_value = V_int i\<rparr>" "kept (Member a key) ?x h1 h2"
      "\<forall>l'. l' \<noteq> Member a key \<longrightarrow> node_at h1 l' = None \<longrightarrow> node_at h2 l' = None"
    using assign_scalar_ok [OF h1(2) x t' _ scalar_typed(2), of i] by (auto simp: assign_int_def)
  have older: "container l' \<noteq> owned ?x" if "container l' = Some b" "b \<le> a" for l' b
    using heap_okD(4) [OF h1(2) x, of b a] that heap_okD(4) [OF h1(2) x, of a a] by (auto simp: container_def)
  have la: "b < a" if "container l = Some b" for b
    using heap_okD(4) [OF h1(2,3) _ that, of a] by (simp add: owned_def)
  have keep: "node_at h2 l' = node_at h1 l'"
    if "l' \<noteq> Member a key" "node_at h1 l' \<noteq> None" "container l' = None \<or> container l' \<noteq> owned ?x" for l'
    using h2(4) that unfolding kept_def by metis
  have l2: "node_at h2 l = Some \<lparr>m_type = Some Json_object, m_value = V_object a\<rparr>"
  proof -
    have "l \<noteq> Member a key" using la [of a] by (auto simp: container_def)
    moreover have "container l = None \<or> container l \<noteq> owned ?x"
      using older [of l] la by (cases "container l") (auto intro: less_imp_le)
    ultimately show ?thesis using keep [of l] h1(3) by simp
  qed
  obtain m where m: "jcells h2 a = Some (C_object m)" "members h2 \<lparr>m_type = Some Json_object, m_value = V_object a\<rparr> = map_of m"
    using typed_object [OF heap_okD(3) [OF h2(2) l2]] by auto
  have "map_of m k = ((members h n)(key \<mapsto> json_of_int i)) k" for k
  proof (cases "k = key")
    case True
    then show ?thesis using h2(3) m(1) by (simp add: node_at_def json_of_int_def)
  next
    case False
    have "container (Member a k) \<noteq> owned ?x" by (rule older [of _ a]) (simp_all add: container_def)
    then have "node_at h2 (Member a k) = node_at h1 (Member a k)"
      using keep [of "Member a k"] h2(5) False by (cases "node_at h1 (Member a k)") auto
    then show ?thesis using h1(4) [of k] m(1) False by (simp add: node_at_def)
  qed
  then have "members h2 \<lparr>m_type = Some Json_object, m_value = V_object a\<rparr> = (members h n)(key \<mapsto> json_of_int i)"
    using m(2) by auto
  moreover have "to_int (Member a key) h2 = Inr i" using h2(3) by (simp add: to_int_def load_node_Some the_tag_def)
  moreover have "node_at h2 l' = node_at h l'"
    if l': "l' \<noteq> l" "node_at h l' \<noteq> None" "container l' = None \<or> container l' \<noteq> owned n \<and>
        (\<forall>x. members h n key = Some x \<longrightarrow> container l' \<noteq> owned x)" for l'
  proof -
    have 1: "node_at h1 l' = node_at h l'" using h1(5) l' by (auto simp: kept_def)
    have "container l' = None \<or> container l' \<noteq> owned ?x"
      using l'(3) by (cases "members h n key") (auto simp: json_default_def owned_def)
    moreover have "l' \<noteq> Member a key"
      using l' h1(6) container_allocated [OF ok, of l' _ a] by (auto simp: container_def)
    ultimately show ?thesis using keep [of l'] 1 l'(2) by simp
  qed
  ultimately show ?thesis using h1(1) h2(1) l2 by blast
qed

theorem member_assignment_witness:
  "\<exists>m h1 h2. index_key (Var 0) ''int'' (one_var Init_default) = Inr (m, h1) \<and> assign_int 12 m h1 = Inr h2 \<and>
     to_int m h2 = Inr 12"
proof -
  have n: "node_at (one_var Init_default) (Var 0) = Some json_default" by (simp add: json_eval)
  have t: "m_type json_default = Some Json_null" "members (one_var Init_default) json_default ''int'' = None"
    by (simp_all add: json_default_def members_def)
  show ?thesis
    using member_assignment [OF one_var_reach [of Init_default] n t(1), of "''int''" 12] t(2) by auto
qed

text \<open>\<^verbatim>\<open>str\<close> ends on every value, with a depth of recursion of at most the number of cells ever
  allocated: no program can build a value that contains itself.\<close>

theorem str_terminates:
  assumes "json_reach h" "node_at h l = Some n"
  shows "\<exists>r. json_str (Suc (next_addr h)) fmt h n = Some r"
proof -
  have "(case owned n of None \<Rightarrow> 0 | Some a \<Rightarrow> next_addr h - a) < Suc (next_addr h)"
    by (simp add: less_Suc_eq_le split: option.splits)
  then show ?thesis using json_str_total [OF json_reach_ok [OF assms(1)] assms(2)] by blast
qed

theorem str_terminates_witness:
  "\<exists>r. json_str (Suc (next_addr (one_var (Init_string ''ktg'')))) fmt (one_var (Init_string ''ktg''))
     \<lparr>m_type = Some Json_string, m_value = V_string 0\<rparr> = Some r"
  by (rule str_terminates [OF one_var_reach, where l = "Var 0"]) (simp add: json_eval)

text \<open>Assigning a member of an object to that object itself reads freed memory: \<^verbatim>\<open>clear\<close> deletes the map
  that holds the member before it is copied.\<close>

theorem member_to_own_object_is_use_after_free:
  assumes "json_reach h" "node_at h l = Some n" "m_type n = Some Json_object" "m_value n = V_object a"
  shows "assign_json l (Member a key) h = Inl Dangling"
proof -
  have ok: "heap_ok h" using assms(1) by (rule json_reach_ok)
  have o: "owned n = Some a" using assms(3,4) by (simp add: owned_def)
  have out: "l \<noteq> Member a key" using heap_okD(4) [OF ok assms(2) o, of a] by (auto simp: container_def)
  obtain h1 where h1: "json_clear l h = Inr h1" "node_at h1 (Member a key) = None"
    using clear_ok [OF ok assms(2,3)] out o by (auto simp: container_def)
  then show ?thesis using out by (simp add: assign_json_def load_node_def)
qed

theorem member_to_own_object_is_use_after_free_witness:
  "assign_json (Var 0) (Member 0 ''k'') (one_var (Init_type Json_object)) = Inl Dangling"
  by (rule member_to_own_object_is_use_after_free [OF one_var_reach,
        where n = "\<lparr>m_type = Some Json_object, m_value = V_object 0\<rparr>"])
    (simp_all add: json_eval json_of_type_def)

text \<open>An element that \<^verbatim>\<open>operator[](int)\<close> adds to an array is a copy, whose tag the copy constructor does
  not set: every assignment to it, conversion of it and output of it uses an indeterminate value.\<close>

theorem new_elements_are_unusable:
  assumes "json_reach h" "node_at h l = Some n" "index_int l i h = Inr (r, h')"
    and "\<And>a c ns. m_value n = V_array a \<Longrightarrow> jcells h a = Some (C_array c ns) \<Longrightarrow> int (length ns) \<le> i"
  shows "assign_bool b r h' = Inl Uninitialised \<and> assign_int j r h' = Inl Uninitialised \<and>
    assign_double d r h' = Inl Uninitialised \<and> assign_string s r h' = Inl Uninitialised \<and>
    to_int r h' = Inl Uninitialised \<and> json_eq r r h' = Inl Uninitialised \<and>
    (\<exists>x. node_at h' r = Some x \<and> json_str (Suc fuel) fmt h' x = Some (Inl Uninitialised))"
proof -
  have ok: "heap_ok h" using assms(1) by (rule json_reach_ok)
  obtain a c ns where r: "r = Elem a (nat i)" "jcells h' a = Some (C_array c ns)" "nat i < length ns"
      "(\<forall>b c0 ns0. m_type n = Some Json_array \<longrightarrow> owned n = Some b \<longrightarrow> jcells h b = Some (C_array c0 ns0) \<longrightarrow> int (length ns0) \<le> i) \<longrightarrow>
       (\<forall>x. node_at h' r = Some x \<longrightarrow> m_type x = None)"
    using index_int_ok [OF ok assms(2,3)] by blast
  have "int (length ns0) \<le> i"
    if "m_type n = Some Json_array" "owned n = Some b" "jcells h b = Some (C_array c0 ns0)" for b c0 ns0
    using assms(4) [of b] that by (auto simp: owned_def split: jvalue.splits)
  then have untagged: "\<forall>x. node_at h' r = Some x \<longrightarrow> m_type x = None" using r(4) by blast
  have "node_at h' r = Some (ns ! nat i)" using r(1-3) by (simp add: node_at_def)
  then obtain x where x: "node_at h' r = Some x" "m_type x = None" using untagged by blast
  then show ?thesis
    by (simp add: assign_bool_def assign_int_def assign_double_def assign_scalar_def assign_string_def to_int_def
        json_eq_def load_node_Some the_tag_def)
qed

theorem new_elements_are_unusable_witness:
  "\<exists>r h'. index_int (Var 0) 0 (one_var Init_default) = Inr (r, h') \<and> assign_bool True r h' = Inl Uninitialised"
proof -
  obtain h' where run: "index_int (Var 0) 0 (one_var Init_default) = Inr (Elem 0 0, h')"
    by (simp add: index_int_def json_clear_def json_eval json_default_def store_node_def put_node_def as_array_def
        array_at_def push_back_def json_copy_def)
  have n: "node_at (one_var Init_default) (Var 0) = Some json_default" by (simp add: json_eval)
  show ?thesis
    using new_elements_are_unusable [OF one_var_reach n run, where b = True] run
    by (auto simp: json_default_def)
qed

end
