(* ===== verification/Demos.thy ===== *)
theory Demos
  imports LinkedList IniFile Xml Json DataStream
begin

text \<open>
  The demonstration programs of five libraries, built from the operations of their theories:
  \<^verbatim>\<open>list/demo.cpp\<close>, \<^verbatim>\<open>ini-parse/demo.cpp\<close>, \<^verbatim>\<open>json/demo.cpp\<close>, \<^verbatim>\<open>xml/demo.cpp\<close> and \<^verbatim>\<open>cpp-serialize/demo.cpp\<close>.

  A program is the text it prints, and for the configuration files also the file it saves.
\<close>

section \<open>Lists\<close>

text \<open>\<^verbatim>\<open>for(auto it = list.begin(); it != list.end(); it++) cout << *it << " "\<close>\<close>

partial_function (option) print_from :: "nat option \<Rightarrow> int lst \<Rightarrow> string \<Rightarrow> string result option" where
  "print_from it s out = (case list_end s of
     Inl e \<Rightarrow> Some (Inl e)
   | Inr end_it \<Rightarrow>
       if it_ne it end_it then
         (case rbind (it_deref it (snd s)) (\<lambda>v. rbind (it_post_inc it (snd s)) (\<lambda>(next_it, old). Inr (v, next_it))) of
            Inl e \<Rightarrow> Some (Inl e)
          | Inr (v, next_it) \<Rightarrow> print_from next_it s (out @ show_int v @ '' ''))
       else Some (Inr out))"

definition print_line :: "int lst \<Rightarrow> string result option" where
  "print_line s = map_option (\<lambda>r. rbind r (\<lambda>out. Inr (out @ [LF]))) (print_from (list_begin (fst s)) s [])"

definition list_demo :: "string result option" where
  "list_demo = (case run_ops (map Push_front [1 .. 10]) (List_new, \<lparr>cell = \<lambda>_. None, brk = 0\<rparr>) of
     None \<Rightarrow> None
   | Some (Inl e) \<Rightarrow> Some (Inl e)
   | Some (Inr s) \<Rightarrow> (case (print_line s, run_op (Insert 2 3 6) s) of
       (Some (Inr first_line), Some (Inr t)) \<Rightarrow> map_option (\<lambda>r. rbind r (\<lambda>l. Inr (first_line @ l))) (print_line t)
     | (Some (Inr first_line), p) \<Rightarrow> map_option (\<lambda>r. rbind r (\<lambda>t. Inr first_line)) p
     | (p, _) \<Rightarrow> p))"

definition spaced :: "int list \<Rightarrow> string" where
  "spaced vs = concat (map (\<lambda>v. show_int v @ '' '') vs)"

lemma print_from_rep:
  assumes rep: "list_rep l h (pre @ ns)" and some: "pre @ ns \<noteq> []"
  shows "print_from (first ns None) (l, h) out = Some (Inr (out @ spaced (map snd ns)))"
  using rep some
proof (induction ns arbitrary: pre out)
  case Nil
  then show ?case using list_end_rep [OF Nil.prems]
    by (simp add: print_from.simps it_ne_def spaced_def)
next
  case (Cons n ns)
  obtain a v where n: "n = (a, v)" by (cases n)
  have "dseg (cell h) None (pre @ (a, v) # ns) None" using Cons.prems(1) n by (simp add: list_rep_def)
  note c = dseg_cell [OF this]
  have "print_from (first ns None) (l, h) (out @ show_int v @ '' '')
      = Some (Inr ((out @ show_int v @ '' '') @ spaced (map snd ns)))"
    by (rule Cons.IH [of "pre @ [n]"]) (use Cons.prems in simp_all)
  then show ?case using list_end_rep [OF Cons.prems] c n
    by (subst print_from.simps) (simp add: it_ne_def it_deref_def it_post_inc_def it_inc_def spaced_def)
qed

lemma print_line_holds:
  assumes "holds s vs" and "vs \<noteq> []"
  shows "print_line s = Some (Inr (spaced vs @ [LF]))"
proof -
  obtain l h where s: "s = (l, h)" by fastforce
  then obtain ns where ns: "list_rep l h ns" "map snd ns = vs" using assms(1) by (auto simp: holds_def)
  have "print_from (first ns None) (l, h) [] = Some (Inr (spaced vs))"
    using print_from_rep [of l h "[]" ns "[]"] ns assms(2) by auto
  then show ?thesis using ns(1) s by (simp add: print_line_def list_begin_def list_rep_def)
qed

section \<open>Configuration files\<close>

definition ini_demo :: "string option \<Rightarrow> bool \<Rightarrow> string \<times> string option" where
  "ini_demo contents opened =
     (let f = snd (IniFile.load ''demo.ini'' contents new_ini);
          (ip, f1) = get_value ''server'' ''ip'' f;
          (p, f2) = get_value ''server'' ''port'' f1;
          f3 = set_value ''server'' ''timeout'' (value_of_int 12) f2;
          (t, f4) = get_value ''server'' ''timeout'' f3
      in (ip @ '' '' @ show_int (IniFile.to_int p) @ [LF] @ show_int (IniFile.to_int t) @ [LF] @ ini_display f4,
          snd (save opened f4)))"

section \<open>JSON\<close>

definition json_demo :: "(64 word \<Rightarrow> string) \<Rightarrow> string result option" where
  "json_demo fmt =
     (let obj = Var 0; h0 = declare_var 0 Init_default empty_heap in
      case rbind (index_cstring obj (''bool'' @ [NUL]) h0) (\<lambda>(l, h1). rbind (assign_bool True l h1) (\<lambda>h2.
           rbind (index_cstring obj (''int'' @ [NUL]) h2) (\<lambda>(l, h3). rbind (Json.assign_int 12 l h3) (\<lambda>h4.
           rbind (index_cstring obj (''double'' @ [NUL]) h4) (\<lambda>(l, h5). rbind (assign_double 0x3FF0000000000000 l h5) (\<lambda>h6.
           rbind (index_cstring obj (''str'' @ [NUL]) h6) (\<lambda>(l, h7). rbind (assign_cstring (''my dream'' @ [NUL]) l h7) (\<lambda>h8.
           rbind (load_node obj h8) (\<lambda>n. Inr (n, h8)))))))))) of
        Inl e \<Rightarrow> Some (Inl e)
      | Inr (n, h) \<Rightarrow> map_option (\<lambda>r. rbind r (\<lambda>s. Inr (s @ [LF]))) (json_str (next_addr h + 1) fmt h n))"

section \<open>XML\<close>

text \<open>\<^verbatim>\<open>XML x(name);\<close> for one more variable\<close>

definition declare_element :: "string \<Rightarrow> xheap \<Rightarrow> nat \<times> xheap" where
  "declare_element s h = (case xml_named_cstr (s @ [NUL]) h of (n, h1) \<Rightarrow> xnew (X_node n) h1)"

definition print_element :: "nat \<Rightarrow> nat \<Rightarrow> xheap \<Rightarrow> string result" where
  "print_element d a h = rbind (xml_str d a h) (\<lambda>s. Inr (s @ [LF]))"

definition fill_object :: "nat \<Rightarrow> string \<Rightarrow> string \<Rightarrow> xheap \<Rightarrow> xheap result" where
  "fill_object c img txt h = rbind (xml_setAttr c ''image name'' img h) (\<lambda>h1.
     rbind (xml_setAttr c ''number'' ''12'' h1) (\<lambda>h2. xml_setText c txt h2))"

definition xml_demo :: "nat \<Rightarrow> string result" where
  "xml_demo d = (case declare_element ''voc'' \<lparr>xcells = (\<lambda>x. None), xnext = 0\<rparr> of (xml, h0) \<Rightarrow>
     rbind (xml_name xml h0) (\<lambda>name. rbind (xml_setAttr xml ''name'' ''detection'' h0) (\<lambda>h1.
     case declare_element ''object1'' h1 of (child1, h2) \<Rightarrow> rbind (fill_object child1 ''1'' ''bound box one'' h2) (\<lambda>h3.
     case declare_element ''object2'' h3 of (child2, h4) \<Rightarrow> rbind (fill_object child2 ''2'' ''bound box two'' h4) (\<lambda>h5.
     rbind (xml_append xml child1 h5) (\<lambda>h6. rbind (xml_append xml child2 h6) (\<lambda>h7.
     rbind (print_element d xml h7) (\<lambda>both. rbind (xml_remove_name d xml ''object2'' h7) (\<lambda>h8.
     rbind (print_element d xml h8) (\<lambda>one. Inr (name @ [LF] @ both @ one)))))))))))"

section \<open>Serialisation\<close>

definition stream_demo :: "(stream \<times> string) result" where
  "stream_demo = rbind (read_set read_int32 (Inl Uninitialised) (write_set write_int32 [0, 1, 2, 3, 4] new_stream)) (\<lambda>(ds, ok, ans).
     Inr (ds, ''size = '' @ show_int (int (length ans)) @ [LF] @ spaced (map sint ans) @ [LF]))"


section \<open>What they print\<close>

lemma digit_chars:
  "char_of (48 :: nat) = CHR ''0''" "char_of (49 :: nat) = CHR ''1''" "char_of (50 :: nat) = CHR ''2''" "char_of (51 :: nat) = CHR ''3''"
  "char_of (52 :: nat) = CHR ''4''" "char_of (53 :: nat) = CHR ''5''" "char_of (54 :: nat) = CHR ''6''" "char_of (55 :: nat) = CHR ''7''"
  "char_of (56 :: nat) = CHR ''8''" "char_of (57 :: nat) = CHR ''9''"
  by code_simp+

lemmas show_digits = show_int_def nat_digits.simps digit_chars

lemma list_demo_prints:
  "list_demo = Some (Inr (''10 9 8 7 6 5 4 3 2 1 '' @ [LF] @ ''10 9 6 6 6 8 7 6 5 4 3 2 1 '' @ [LF]))"
proof -
  have "runs_pre (map Push_front [1 .. 10 :: int]) []" by (simp add: upto.simps INT_MAX_def)
  then obtain s where s: "run_ops (map Push_front [1 .. 10 :: int]) (List_new, \<lparr>cell = \<lambda>_. None, brk = 0\<rparr>) = Some (Inr s)"
    "holds s (fold spec_op (map Push_front [1 .. 10]) [])"
    using run_ops_holds [OF List_new_holds] by blast
  have vs: "holds s [10, 9, 8, 7, 6, 5, 4, 3, 2, 1]" using s(2) by (simp add: upto.simps)
  obtain t where t: "run_op (Insert 2 3 6) s = Some (Inr t)" "holds t (spec_op (Insert 2 3 6) [10, 9, 8, 7, 6, 5, 4, 3, 2, 1])"
    using run_op_holds [OF vs, of "Insert 2 3 6"] by (auto simp: INT_MAX_def)
  have two: "holds t [10, 9, 6, 6, 6, 8, 7, 6, 5, 4, 3, 2, 1]" using t(2) by (simp add: numeral_eq_Suc)
  show ?thesis
    unfolding list_demo_def s(1)
    using print_line_holds [OF vs] print_line_holds [OF two] t(1)
    by (simp add: spaced_def show_digits)
qed

lemma cstr_literals [simp]:
  "cstr (''voc'' @ [NUL]) = ''voc''" "cstr (''object1'' @ [NUL]) = ''object1''" "cstr (''object2'' @ [NUL]) = ''object2''"
  "cstr (''bool'' @ [NUL]) = ''bool''" "cstr (''int'' @ [NUL]) = ''int''" "cstr (''double'' @ [NUL]) = ''double''"
  "cstr (''str'' @ [NUL]) = ''str''" "cstr (''my dream'' @ [NUL]) = ''my dream''"
  by code_simp+

lemmas json_code = declare_var_def empty_heap_def json_default_def index_cstring_def index_key_def load_node_def node_at_def the_tag_def
  assign_bool_def Json.assign_int_def assign_double_def assign_cstring_def assign_string_def assign_scalar_def store_node_def put_node_def
  new_cell_def as_object_def object_at_def as_string_def string_at_def json_clear_def quoted_def

lemma json_demo_prints:
  "json_demo fmt = Some (Inr (CHR ''{'' # quoted ''bool'' @ '':true,'' @ quoted ''double'' @ '':'' @ fmt 0x3FF0000000000000 @ '','' @
     quoted ''int'' @ '':12,'' @ quoted ''str'' @ '':'' @ quoted ''my dream'' @ ''}'' @ [LF]))"
  unfolding json_demo_def by (simp add: json_code show_digits)

lemmas xml_code = declare_element_def fill_object_def print_element_def xml_named_cstr_def xml_named_def xnew_def xset_def xdelete_def xfree_def
  xnode_at_def xstring_at_def xattrs_at_def xlist_at_def xml_default_def xml_copy_def xml_name_def xml_setText_def xml_setAttr_def
  xml_children_def xpush_back_def xml_append_def clear_and_erase_def xml_remove_name_def xdelete_list_def

definition object_text :: "string \<Rightarrow> string \<Rightarrow> string \<Rightarrow> string" where
  "object_text name img txt =
     ''<'' @ name @ attr_text [(''image name'', img), (''number'', ''12'')] @ ''>'' @ txt @ ''</'' @ name @ ''>''"

lemma xml_demo_prints:
  "xml_demo (Suc (Suc d)) = Inr (''voc'' @ [LF] @
     ''<voc'' @ attr_text [(''name'', ''detection'')] @ ''>'' @ object_text ''object1'' ''1'' ''bound box one'' @
       object_text ''object2'' ''2'' ''bound box two'' @ ''</voc>'' @ [LF] @
     ''<voc'' @ attr_text [(''name'', ''detection'')] @ ''>'' @ object_text ''object1'' ''1'' ''bound box one'' @ ''</voc>'' @ [LF])"
  unfolding xml_demo_def by (simp add: xml_code object_text_def)

lemma ini_demo_any:
  "\<exists>f. sections_ok (m_sections f) \<and> IniFile.load name (Some (ini_str f)) new_ini = (True, f\<lparr>m_filename := name\<rparr>) \<and>
     map_of (section_of ''server'' (m_sections f)) ''timeout'' = Some [] \<and>
     (let f0 = snd (IniFile.load ''demo.ini'' contents new_ini) in
      ini_demo contents opened =
        (fst (get_value ''server'' ''ip'' f0) @ '' '' @ show_int (IniFile.to_int (fst (get_value ''server'' ''port'' f0))) @ [LF] @
           ''0'' @ [LF] @ ini_str f @ [LF],
         if opened then Some (ini_str f) else None))"
proof -
  let ?f0 = "snd (IniFile.load ''demo.ini'' contents new_ini)"
  obtain ip f1 where 1: "get_value ''server'' ''ip'' ?f0 = (ip, f1)" by fastforce
  obtain p f2 where 2: "get_value ''server'' ''port'' f1 = (p, f2)" by fastforce
  obtain t f4 where 3: "get_value ''server'' ''timeout'' (set_value ''server'' ''timeout'' (value_of_int 12) f2) = (t, f4)" by fastforce
  have ok0: "sections_ok (m_sections ?f0)"
    by (rule load_sections_ok) (simp add: sections_ok_def new_ini_def)
  have keep: "sections_ok (m_sections (snd (get_value n k f)))" if "sections_ok (m_sections f)" "name_ok n" "entry_ok (k, [])" for n k f
  proof -
    have "entry_ok (k, v)" if "map_of (section_of n (m_sections f)) k = Some v" for v
      using section_of_ok(2) [OF \<open>sections_ok (m_sections f)\<close> map_of_SomeD [OF that]] .
    then show ?thesis using that by (auto simp: get_value_def intro!: sections_ok_put_entry split: option.split)
  qed
  have names: "name_ok ''server''" "entry_ok (''ip'', [])" "entry_ok (''port'', [])" "entry_ok (''timeout'', [])"
    by (simp_all add: name_ok_def entry_ok_def trimmed_def)
  have ok2: "sections_ok (m_sections f2)"
    using keep [OF keep [OF ok0 names(1,2)] names(1,3)] 1 2 by simp
  have ok3: "sections_ok (m_sections (set_value ''server'' ''timeout'' (value_of_int 12) f2))"
    using sections_ok_put_entry [OF ok2 names(1,4)] by (simp add: set_value_def value_of_int_def IniFile.assign_int_def)
  have ok4: "sections_ok (m_sections f4)"
    using keep [OF ok3 names(1,4)] 3 by simp
  have t: "t = []" and entry: "map_of (section_of ''server'' (m_sections f4)) ''timeout'' = Some []"
    using 3 by (auto simp: get_value_def set_value_def map_of_put_entry value_of_int_def IniFile.assign_int_def Let_def)
  have p: "p = fst (get_value ''server'' ''port'' ?f0)"
    using 1 2 by (auto simp: get_value_def map_of_put_entry Let_def)
  have "IniFile.to_int [] = 0" by (simp add: IniFile.to_int_def atoi_def clamp64_def to_int32_def)
  then have run: "ini_demo contents opened = (ip @ '' '' @ show_int (IniFile.to_int p) @ [LF] @ ''0'' @ [LF] @ ini_str f4 @ [LF],
      if opened then Some (ini_str f4) else None)"
    unfolding ini_demo_def Let_def 1 2 3 prod.case t by (simp add: ini_display_def save_def show_digits)
  show ?thesis
    using ok4 entry run p 1 load_saved [OF ok4, of name] by (intro exI [of _ f4]) (cases f4, simp add: Let_def)
qed

lemma stream_demo_prints:
  "\<exists>ds. stream_demo = Inr (ds, ''size = 5'' @ [LF] @ ''0 1 2 3 4 '' @ [LF]) \<and> m_pos ds = int (length (m_buf ds)) + 5"
proof -
  let ?vs = "[0, 1, 2, 3, 4] :: 32 word list" and ?s = "write_set write_int32 [0, 1, 2, 3, 4] new_stream"
  have buf: "m_buf ?s = enc_seq T_SET enc_int32 ?vs" "m_pos ?s = 0"
    using c_int32.write_seq_fields(3,4) [of ?vs new_stream] by (simp_all add: new_stream_def)
  have at: "stands_at ?s (enc_seq T_SET enc_int32 ?vs)"
    by (simp add: stands_at_def buf)
  have "read_set read_int32 (Inl Uninitialised) ?s =
      Inr (advance (int (length (enc_seq T_SET enc_int32 ?vs)) + int (length ?vs)) ?s, True, ?vs)"
    by (rule read_set_at [OF c_int32.codec_axioms _ _ at]) simp_all
  then show ?thesis using buf by (simp add: stream_demo_def spaced_def advance_def show_digits)
qed
definition demo_ini :: string where
  "demo_ini = ''[server]'' @ [LF] @ ''ip = 127.0.0.1'' @ [LF] @ ''port = 8080''"

definition save_ini :: string where
  "save_ini = ''[server]'' @ [LF] @ ''ip = 127.0.0.1'' @ [LF] @ ''port = 8080'' @ [LF] @ ''timeout = '' @ [LF]"

lemma demo_ini_lines: "split_lines [] demo_ini = [''[server]'', ''ip = 127.0.0.1'', ''port = 8080'']"
  by (simp add: demo_ini_def)

lemma load_demo_ini:
  "m_sections (snd (IniFile.load ''demo.ini'' (Some demo_ini) new_ini)) = [(''server'', [(''ip'', ''127.0.0.1''), (''port'', ''8080'')])]"
  by (simp add: IniFile.load_def demo_ini_lines new_ini_def load_line_def trim_def substr_def put_entry_def section_of_def Let_def)

lemma port_digits: "IniFile.to_int ''8080'' = 8080" "IniFile.to_int [] = 0"
  by (code_simp+)

lemma ini_demo_prints:
  "ini_demo (Some demo_ini) True = (''127.0.0.1 8080'' @ [LF] @ ''0'' @ [LF] @ save_ini @ [LF], Some save_ini)"
  by (simp add: ini_demo_def load_demo_ini show_digits get_value_def set_value_def put_entry_def section_of_def port_digits
      ini_display_def save_def ini_str_def section_text_def entry_line_def save_ini_def value_of_int_def IniFile.assign_int_def Let_def)


section \<open>Properties\<close>

text \<open>The demonstrations of the list, of JSON values, of XML elements and of the serialiser run without an error
  and print what they were written to show: the list in its order before and after the insertion, the members in the
  order of their keys, the document before and after one child is removed, the set that was written.  Every
  attribute is printed with a blank before its closing quote, and reading the set leaves the cursor five places
  behind the end of the buffer.\<close>
theorem demos_print:
  "list_demo = Some (Inr (''10 9 8 7 6 5 4 3 2 1 '' @ [LF] @ ''10 9 6 6 6 8 7 6 5 4 3 2 1 '' @ [LF])) \<and>
   json_demo fmt = Some (Inr (CHR ''{'' # quoted ''bool'' @ '':true,'' @ quoted ''double'' @ '':'' @ fmt 0x3FF0000000000000 @ '','' @
     quoted ''int'' @ '':12,'' @ quoted ''str'' @ '':'' @ quoted ''my dream'' @ ''}'' @ [LF])) \<and>
   xml_demo (Suc (Suc d)) = Inr (''voc'' @ [LF] @
     ''<voc'' @ attr_text [(''name'', ''detection'')] @ ''>'' @ object_text ''object1'' ''1'' ''bound box one'' @
       object_text ''object2'' ''2'' ''bound box two'' @ ''</voc>'' @ [LF] @
     ''<voc'' @ attr_text [(''name'', ''detection'')] @ ''>'' @ object_text ''object1'' ''1'' ''bound box one'' @ ''</voc>'' @ [LF]) \<and>
   (\<exists>ds. stream_demo = Inr (ds, ''size = 5'' @ [LF] @ ''0 1 2 3 4 '' @ [LF]) \<and> m_pos ds = int (length (m_buf ds)) + 5)"
  using list_demo_prints json_demo_prints xml_demo_prints stream_demo_prints by blast

text \<open>Whatever configuration is loaded, and even when none can be, the demonstration prints 0 for the time-out that it
  has just set to 12, and saves a file in which the time-out is empty and which loads back as what was saved.  On the
  \<^verbatim>\<open>demo.ini\<close> of the repository it writes the \<^verbatim>\<open>save.ini\<close> of the repository.\<close>
theorem ini_demo_loses_the_timeout:
  "(\<exists>f. IniFile.load name (Some (ini_str f)) new_ini = (True, f\<lparr>m_filename := name\<rparr>) \<and>
     map_of (section_of ''server'' (m_sections f)) ''timeout'' = Some [] \<and>
     (let f0 = snd (IniFile.load ''demo.ini'' contents new_ini) in
      ini_demo contents opened =
        (fst (get_value ''server'' ''ip'' f0) @ '' '' @ show_int (IniFile.to_int (fst (get_value ''server'' ''port'' f0))) @ [LF] @
           ''0'' @ [LF] @ ini_str f @ [LF],
         if opened then Some (ini_str f) else None))) \<and>
   ini_demo (Some demo_ini) True = (''127.0.0.1 8080'' @ [LF] @ ''0'' @ [LF] @ save_ini @ [LF], Some save_ini)"
  using ini_demo_any [of name contents opened] ini_demo_prints by blast

end
