(* ===== verification/AtomicPrograms.thy ===== *)
theory AtomicPrograms
  imports Prelude
begin

text \<open>
  Three more programs of the chapter on atomic types: the array behind an atomic pointer
  (\<^verbatim>\<open>atomic_point_demo04.cpp\<close>), the array behind a mutex (\<^verbatim>\<open>atomic_mutex_demo05.cpp\<close>) and the counter behind
  an \<^verbatim>\<open>atomic_flag\<close> (\<^verbatim>\<open>atomic_test_and_set_demo07.cpp\<close>).

  Each has its own state and a step for every access to a shared variable; a body that runs under the mutex from
  its first to its last statement is one step.  What is printed is a list, one entry for every \<^verbatim>\<open><<\<close> chain that the
  claims are about.
\<close>

section \<open>An array behind an atomic pointer\<close>

datatype ptr_writer = PW_New | PW_Store nat | PW_Print | PW_Done
datatype ptr_reader = PR_Load | PR_Loop nat nat | PR_Done

record ptr_state =
  arrays :: "nat \<Rightarrow> int list option"
  fresh :: nat
  array_ptr :: "nat option"
  pwriter :: ptr_writer
  preader :: ptr_reader
  writer_out :: string
  reader_out :: string

definition new_array :: "int list \<Rightarrow> ptr_state \<Rightarrow> nat \<times> ptr_state" where
  "new_array xs s = (fresh s, s\<lparr>arrays := (arrays s)(fresh s \<mapsto> xs), fresh := fresh s + 1\<rparr>)"

definition ptr_start :: ptr_state where
  "ptr_start = (case new_array [0, 0, 0, 0, 0] \<lparr>arrays = Map.empty, fresh = 0, array_ptr = None, pwriter = PW_New, preader = PR_Load,
       writer_out = [], reader_out = []\<rparr> of (a, s) \<Rightarrow> s\<lparr>array_ptr := Some a\<rparr>)"

definition writer04 :: "ptr_state \<Rightarrow> ptr_state option" where
  "writer04 s = (case pwriter s of
     PW_New \<Rightarrow> (case new_array [1, 2, 3, 4, 5] s of (a, s1) \<Rightarrow> Some (s1\<lparr>pwriter := PW_Store a\<rparr>))
   | PW_Store a \<Rightarrow> Some (s\<lparr>array_ptr := Some a, pwriter := PW_Print\<rparr>)
   | PW_Print \<Rightarrow> Some (s\<lparr>writer_out := ''Writer stored a new array.'' @ [LF], pwriter := PW_Done\<rparr>)
   | PW_Done \<Rightarrow> None)"

text \<open>\<^verbatim>\<open>for (int value : *array_ptr)\<close> reads the array element by element.\<close>

definition reader04 :: "ptr_state \<Rightarrow> ptr_state result option" where
  "reader04 s = (case preader s of
     PR_Load \<Rightarrow> Some (Inr (case array_ptr s of
        None \<Rightarrow> s\<lparr>preader := PR_Done\<rparr>
      | Some a \<Rightarrow> s\<lparr>reader_out := ''Reader loaded array: '', preader := PR_Loop a 0\<rparr>))
   | PR_Loop a i \<Rightarrow> Some (case arrays s a of
        None \<Rightarrow> Inl Dangling
      | Some xs \<Rightarrow>
          if i < length xs then Inr (s\<lparr>reader_out := reader_out s @ show_int (xs ! i) @ '' '', preader := PR_Loop a (i + 1)\<rparr>)
          else Inr (s\<lparr>reader_out := reader_out s @ [LF], preader := PR_Done\<rparr>))
   | PR_Done \<Rightarrow> None)"

inductive ptr_run :: "ptr_state \<Rightarrow> bool" where
  start: "ptr_run ptr_start"
| writer: "ptr_run s \<Longrightarrow> writer04 s = Some t \<Longrightarrow> ptr_run t"
| reader: "ptr_run s \<Longrightarrow> reader04 s = Some (Inr t) \<Longrightarrow> ptr_run t"

text \<open>\<^verbatim>\<open>delete atomic_array_ptr.load()\<close> after both joins\<close>

definition ptr_end :: "ptr_state \<Rightarrow> ptr_state result" where
  "ptr_end s = (case array_ptr s of
     None \<Rightarrow> Inr s
   | Some a \<Rightarrow> if arrays s a = None then Inl Dangling else Inr (s\<lparr>arrays := (arrays s)(a := None)\<rparr>))"

section \<open>An array behind a mutex\<close>

datatype mutex_line = Wrote nat | Saw nat int

record mutex_state =
  shared_array :: "int list"
  w_index :: nat
  r_index :: nat
  mutex_out :: "mutex_line list"

definition ARRAY_SIZE :: nat where "ARRAY_SIZE = 5"

definition mutex_start :: mutex_state where
  "mutex_start = \<lparr>shared_array = replicate ARRAY_SIZE 0, w_index = 0, r_index = 0, mutex_out = []\<rparr>"

definition writer05 :: "mutex_state \<Rightarrow> mutex_state option" where
  "writer05 s = (let i = w_index s in
     if i < ARRAY_SIZE
     then Some (s\<lparr>shared_array := (shared_array s)[i := int i], w_index := i + 1, mutex_out := mutex_out s @ [Wrote i]\<rparr>)
     else None)"

definition reader05 :: "mutex_state \<Rightarrow> mutex_state option" where
  "reader05 s = (let i = r_index s in
     if i < ARRAY_SIZE
     then Some (s\<lparr>r_index := i + 1, mutex_out := mutex_out s @ [Saw i (shared_array s ! i)]\<rparr>)
     else None)"

fun mutex_text :: "mutex_line \<Rightarrow> string" where
  "mutex_text (Wrote i) = ''Writer updated index '' @ show_int (int i) @ [LF]"
| "mutex_text (Saw i v) = ''Reader read value at index '' @ show_int (int i) @ '': '' @ show_int v @ [LF]"

inductive mutex_run :: "nat \<Rightarrow> mutex_state \<Rightarrow> bool" where
  start: "mutex_run 0 mutex_start"
| writer: "mutex_run n s \<Longrightarrow> writer05 s = Some t \<Longrightarrow> mutex_run (Suc n) t"
| reader: "mutex_run n s \<Longrightarrow> reader05 s = Some t \<Longrightarrow> mutex_run (Suc n) t"

section \<open>A counter behind a flag\<close>

datatype flag_pc = F_Test | F_Read | F_Write nat | F_Clear

record flag_state =
  lock_flag :: bool
  shared_data :: nat
  adders :: "(nat \<times> flag_pc) list"     \<comment> \<open>rounds left, point in the round\<close>

definition flag_start :: "nat \<Rightarrow> nat \<Rightarrow> flag_state" where
  "flag_start n k = \<lparr>lock_flag = False, shared_data = 0, adders = replicate n (k, F_Test)\<rparr>"

definition flag_step :: "nat \<Rightarrow> flag_state \<Rightarrow> flag_state option" where
  "flag_step t s = (case adders s ! t of (r, pc) \<Rightarrow> if r = 0 then None else
     (let go = (\<lambda>q. s\<lparr>adders := (adders s)[t := q]\<rparr>) in
      case pc of
        F_Test \<Rightarrow> Some (if lock_flag s then s else (go (r, F_Read))\<lparr>lock_flag := True\<rparr>)
      | F_Read \<Rightarrow> Some (go (r, F_Write (shared_data s)))
      | F_Write v \<Rightarrow> Some ((go (r, F_Clear))\<lparr>shared_data := v + 1\<rparr>)
      | F_Clear \<Rightarrow> Some ((go (r - 1, F_Test))\<lparr>lock_flag := False\<rparr>)))"

inductive flag_move :: "nat \<Rightarrow> flag_state \<Rightarrow> flag_state \<Rightarrow> bool" for n where
  move: "t < n \<Longrightarrow> flag_step t s = Some s' \<Longrightarrow> flag_move n s s'"

definition all_done :: "flag_state \<Rightarrow> bool" where
  "all_done s \<longleftrightarrow> list_all (\<lambda>a. fst a = 0) (adders s)"


section \<open>The pointer: old or new, never both\<close>

definition printed :: "int list \<Rightarrow> nat \<Rightarrow> string" where
  "printed xs i = ''Reader loaded array: '' @ concat (map (\<lambda>v. show_int v @ '' '') (take i xs))"

definition ptr_inv :: "ptr_state \<Rightarrow> bool" where
  "ptr_inv s \<longleftrightarrow>
     (pwriter s = PW_New \<and> fresh s = 1 \<and> arrays s = [0 \<mapsto> [0, 0, 0, 0, 0]] \<or>
      pwriter s \<noteq> PW_New \<and> fresh s = 2 \<and> arrays s = [0 \<mapsto> [0, 0, 0, 0, 0], 1 \<mapsto> [1, 2, 3, 4, 5]]) \<and>
     (array_ptr s = Some 0 \<and> (pwriter s = PW_New \<or> pwriter s = PW_Store 1) \<or>
      array_ptr s = Some 1 \<and> (pwriter s = PW_Print \<or> pwriter s = PW_Done)) \<and>
     (case preader s of
        PR_Load \<Rightarrow> reader_out s = []
      | PR_Loop a i \<Rightarrow> \<exists>xs. arrays s a = Some xs \<and> length xs = 5 \<and> i \<le> 5 \<and> reader_out s = printed xs i
      | PR_Done \<Rightarrow> reader_out s = printed [0, 0, 0, 0, 0] 5 @ [LF] \<or> reader_out s = printed [1, 2, 3, 4, 5] 5 @ [LF])"

lemma ptr_start_inv: "ptr_inv ptr_start"
  by (simp add: ptr_inv_def ptr_start_def new_array_def fun_eq_iff)

lemma writer04_inv:
  assumes inv: "ptr_inv s" and step: "writer04 s = Some t"
  shows "ptr_inv t"
proof (cases "pwriter s")
  case PW_New
  then have s: "fresh s = 1" "arrays s = [0 \<mapsto> [0, 0, 0, 0, 0]]" "array_ptr s = Some 0"
    using inv by (auto simp: ptr_inv_def)
  have t: "t = s\<lparr>arrays := [0 \<mapsto> [0, 0, 0, 0, 0], 1 \<mapsto> [1, 2, 3, 4, 5]], fresh := 2, pwriter := PW_Store 1\<rparr>"
    using step PW_New s by (simp add: writer04_def new_array_def eval_nat_numeral)
  show ?thesis
  proof (cases "preader s")
    case (PR_Loop a i)
    then show ?thesis using inv s unfolding t by (cases "a = 0") (simp_all add: ptr_inv_def)
  qed (use inv s in \<open>simp_all add: ptr_inv_def t\<close>)
next
  case (PW_Store a)
  then have "t = s\<lparr>array_ptr := Some 1, pwriter := PW_Print\<rparr>"
    using inv step by (simp add: ptr_inv_def writer04_def)
  then show ?thesis using inv PW_Store by (cases "preader s") (auto simp: ptr_inv_def split: if_splits)
next
  case PW_Print
  then have "t = s\<lparr>writer_out := ''Writer stored a new array.'' @ [LF], pwriter := PW_Done\<rparr>"
    using step by (simp add: writer04_def)
  then show ?thesis using inv PW_Print by (cases "preader s") (auto simp: ptr_inv_def split: if_splits)
qed (use step in \<open>simp add: writer04_def\<close>)

lemma reader04_inv:
  assumes "ptr_inv s" and "reader04 s = Some r"
  shows "\<exists>t. r = Inr t \<and> ptr_inv t"
proof (cases "preader s")
  case PR_Load
  then show ?thesis using assms
    by (auto simp: ptr_inv_def reader04_def printed_def)
next
  case (PR_Loop a i)
  then obtain xs where x: "arrays s a = Some xs" "length xs = 5" "i \<le> 5" "reader_out s = printed xs i"
    using assms(1) by (auto simp: ptr_inv_def)
  then have which: "xs = [0, 0, 0, 0, 0] \<or> xs = [1, 2, 3, 4, 5]"
    using assms(1) by (auto simp: ptr_inv_def split: if_splits)
  show ?thesis
  proof (cases "i < 5")
    case True
    then have "printed xs i @ show_int (xs ! i) @ '' '' = printed xs (i + 1)"
      using x(2) by (simp add: printed_def take_Suc_conv_app_nth)
    then show ?thesis using assms PR_Loop x True by (auto simp: ptr_inv_def reader04_def)
  next
    case False
    then show ?thesis using assms PR_Loop x which by (auto simp: ptr_inv_def reader04_def)
  qed
next
  case PR_Done
  then show ?thesis using assms(2) by (simp add: reader04_def)
qed

lemma ptr_run_inv: "ptr_run s \<Longrightarrow> ptr_inv s"
  by (induction rule: ptr_run.induct) (use ptr_start_inv writer04_inv reader04_inv in fastforce)+

section \<open>The mutex: an element is written or zero\<close>

fun saw_ok :: "nat set \<Rightarrow> mutex_line list \<Rightarrow> bool" where
  "saw_ok W [] \<longleftrightarrow> True"
| "saw_ok W (Wrote i # ls) \<longleftrightarrow> saw_ok (insert i W) ls"
| "saw_ok W (Saw i v # ls) \<longleftrightarrow> v = (if i \<in> W then int i else 0) \<and> saw_ok W ls"

definition wrote :: "mutex_line list \<Rightarrow> nat list" where
  "wrote ls = concat (map (\<lambda>l. case l of Wrote i \<Rightarrow> [i] | _ \<Rightarrow> []) ls)"

definition saw :: "mutex_line list \<Rightarrow> nat list" where
  "saw ls = concat (map (\<lambda>l. case l of Saw i v \<Rightarrow> [i] | _ \<Rightarrow> []) ls)"

lemma saw_ok_append: "saw_ok W (ls @ ms) \<longleftrightarrow> saw_ok W ls \<and> saw_ok (W \<union> set (wrote ls)) ms"
  by (induction ls arbitrary: W rule: saw_ok.induct [of "\<lambda>_ ls. P ls" for P, case_names Nil W S])
    (auto simp: wrote_def split: mutex_line.split)

definition mutex_inv :: "nat \<Rightarrow> mutex_state \<Rightarrow> bool" where
  "mutex_inv n s \<longleftrightarrow> n = w_index s + r_index s \<and> w_index s \<le> ARRAY_SIZE \<and> r_index s \<le> ARRAY_SIZE \<and>
     shared_array s = map (\<lambda>i. if i < w_index s then int i else 0) [0 ..< ARRAY_SIZE] \<and>
     wrote (mutex_out s) = [0 ..< w_index s] \<and> saw (mutex_out s) = [0 ..< r_index s] \<and> saw_ok {} (mutex_out s)"

lemma mutex_run_inv: "mutex_run n s \<Longrightarrow> mutex_inv n s"
proof (induction rule: mutex_run.induct)
  case start
  show ?case by (simp add: mutex_inv_def mutex_start_def wrote_def saw_def map_replicate_const)
next
  case (writer n s t)
  let ?i = "w_index s"
  have t: "?i < ARRAY_SIZE" "t = s\<lparr>shared_array := (shared_array s)[?i := int ?i], w_index := ?i + 1, mutex_out := mutex_out s @ [Wrote ?i]\<rparr>"
    using writer.hyps(2) by (auto simp: writer05_def Let_def split: if_splits)
  have "(shared_array s)[?i := int ?i] = map (\<lambda>i. if i < ?i + 1 then int i else 0) [0 ..< ARRAY_SIZE]"
    using writer.IH t(1) by (intro nth_equalityI) (auto simp: mutex_inv_def nth_list_update)
  then show ?case using writer.IH t by (simp add: mutex_inv_def saw_ok_append) (simp add: wrote_def saw_def)
next
  case (reader n s t)
  let ?i = "r_index s"
  have t: "?i < ARRAY_SIZE" "t = s\<lparr>r_index := ?i + 1, mutex_out := mutex_out s @ [Saw ?i (shared_array s ! ?i)]\<rparr>"
    using reader.hyps(2) by (auto simp: reader05_def Let_def split: if_splits)
  have "shared_array s ! ?i = (if ?i \<in> {} \<union> set (wrote (mutex_out s)) then int ?i else 0)"
    using reader.IH t(1) by (simp add: mutex_inv_def)
  then show ?case using reader.IH t by (simp add: mutex_inv_def saw_ok_append) (simp add: wrote_def saw_def)
qed


section \<open>The flag: one thread at a time\<close>

definition inside :: "nat \<times> flag_pc \<Rightarrow> bool" where
  "inside a \<longleftrightarrow> fst a \<noteq> 0 \<and> snd a \<noteq> F_Test"

definition rounds :: "nat \<times> flag_pc \<Rightarrow> nat" where
  "rounds a = fst a - (if fst a \<noteq> 0 \<and> snd a = F_Clear then 1 else 0)"

definition flag_inv :: "nat \<Rightarrow> nat \<Rightarrow> flag_state \<Rightarrow> bool" where
  "flag_inv n k s \<longleftrightarrow> length (adders s) = n \<and>
     (\<forall>t < n. \<forall>u < n. inside (adders s ! t) \<longrightarrow> inside (adders s ! u) \<longrightarrow> t = u) \<and>
     lock_flag s = (\<exists>t < n. inside (adders s ! t)) \<and>
     (\<forall>t < n. \<forall>v. inside (adders s ! t) \<and> snd (adders s ! t) = F_Write v \<longrightarrow> v = shared_data s) \<and>
     shared_data s + sum_list (map rounds (adders s)) = n * k"

lemma sum_list_swap:
  fixes f :: "'a \<Rightarrow> nat"
  shows "t < length xs \<Longrightarrow> sum_list (map f (xs[t := y])) + f (xs ! t) = sum_list (map f xs) + f y"
proof (induction xs arbitrary: t)
  case (Cons x xs)
  then show ?case by (cases t) auto
qed simp

lemma flag_start_inv: "flag_inv n k (flag_start n k)"
  by (simp add: flag_inv_def flag_start_def inside_def rounds_def sum_list_replicate)

text \<open>The thread that moves is the only one inside, or the flag was clear.\<close>

lemma flag_inv_move:
  assumes inv: "flag_inv n k s" and t: "t < n"
    and s': "adders s' = (adders s)[t := q]"
    and alone: "inside q \<Longrightarrow> lock_flag s' \<and> (inside (adders s ! t) \<or> \<not> lock_flag s)"
    and out: "\<not> inside q \<Longrightarrow> lock_flag s' = (lock_flag s \<and> \<not> inside (adders s ! t))"
    and kept: "\<And>v. inside q \<Longrightarrow> snd q = F_Write v \<Longrightarrow> v = shared_data s'"
    and data: "shared_data s' = shared_data s \<or> inside (adders s ! t)"
    and total: "shared_data s' + rounds q = shared_data s + rounds (adders s ! t)"
  shows "flag_inv n k s'"
proof -
  have I: "length (adders s) = n" "\<And>t u. t < n \<Longrightarrow> u < n \<Longrightarrow> inside (adders s ! t) \<Longrightarrow> inside (adders s ! u) \<Longrightarrow> t = u"
    "lock_flag s = (\<exists>t < n. inside (adders s ! t))"
    "\<And>t v. t < n \<Longrightarrow> inside (adders s ! t) \<Longrightarrow> snd (adders s ! t) = F_Write v \<Longrightarrow> v = shared_data s"
    "shared_data s + sum_list (map rounds (adders s)) = n * k"
    using inv unfolding flag_inv_def by blast+
  have nth: "adders s' ! u = (if u = t then q else adders s ! u)" if "u < n" for u
    using that t I(1) s' by (simp add: nth_list_update)
  have others: "\<not> inside (adders s ! u)" if "u < n" "u \<noteq> t" "inside q" for u
    using alone [OF that(3)] I(2) [OF that(1) t] I(3) that by blast
  have one: "u = w" if "u < n" "w < n" "inside (adders s' ! u)" "inside (adders s' ! w)" for u w
    using that nth others I(2) by metis
  have lock: "lock_flag s' = (\<exists>u < n. inside (adders s' ! u))"
  proof (cases "inside q")
    case True
    then show ?thesis using alone nth t by auto
  next
    case False
    have "(\<exists>u < n. inside (adders s' ! u)) = (\<exists>u < n. u \<noteq> t \<and> inside (adders s ! u))"
      using nth False by metis
    also have "\<dots> = (lock_flag s \<and> \<not> inside (adders s ! t))"
      using I(2) [OF _ t] I(3) t by blast
    finally show ?thesis using out [OF False] by simp
  qed
  have writes: "v = shared_data s'" if "u < n" "inside (adders s' ! u)" "snd (adders s' ! u) = F_Write v" for u v
  proof (cases "u = t")
    case True
    then show ?thesis using that nth kept by simp
  next
    case False
    then have "inside (adders s ! u)" "snd (adders s ! u) = F_Write v" using that nth by simp_all
    moreover have "\<not> inside (adders s ! t)" using I(2) [OF that(1) t] False \<open>inside (adders s ! u)\<close> by blast
    ultimately show ?thesis using I(4) that(1) data by simp
  qed
  have total_kept: "shared_data s' + sum_list (map rounds (adders s')) = n * k"
    using sum_list_swap [of t "adders s" rounds q] total t I(1,5) unfolding s' by linarith
  show ?thesis unfolding flag_inv_def
    using one lock writes total_kept I(1) s' by (intro conjI) (simp, blast, simp, blast, simp)
qed

lemma flag_step_inv:
  assumes inv: "flag_inv n k s" and t: "t < n" and step: "flag_step t s = Some s'"
  shows "flag_inv n k s'"
proof -
  obtain r pc where a: "adders s ! t = (r, pc)" by fastforce
  have r: "r \<noteq> 0" using step a by (cases "r = 0") (simp_all add: flag_step_def)
  have local_copy: "v = shared_data s" if "pc = F_Write v" for v
    using inv t a r that unfolding flag_inv_def inside_def by (metis flag_pc.distinct(3) fst_conv snd_conv)
  show ?thesis
  proof (cases "pc = F_Test \<and> lock_flag s")
    case True
    then show ?thesis using inv step a r by (simp add: flag_step_def)
  next
    case False
    obtain q where q: "adders s' = (adders s)[t := q]"
      "q = (case pc of F_Test \<Rightarrow> (r, F_Read) | F_Read \<Rightarrow> (r, F_Write (shared_data s)) | F_Write v \<Rightarrow> (r, F_Clear) | F_Clear \<Rightarrow> (r - 1, F_Test))"
      using step a r False by (cases pc) (auto simp: flag_step_def)
    have in_lock: "lock_flag s" if "pc \<noteq> F_Test"
      using inv t a r that unfolding flag_inv_def inside_def by (metis fst_conv snd_conv)
    show ?thesis
      by (rule flag_inv_move [OF inv t q(1)])
        (use step a r False q(2) local_copy in_lock in \<open>cases pc; auto simp: flag_step_def inside_def rounds_def\<close>)+
  qed
qed

lemma flag_run_inv: "(flag_move n)\<^sup>*\<^sup>* (flag_start n k) s \<Longrightarrow> flag_inv n k s"
proof (induction rule: rtranclp_induct)
  case base
  show ?case by (rule flag_start_inv)
next
  case (step s s')
  then show ?case using flag_step_inv by (auto elim!: flag_move.cases)
qed

fun steps_left :: "nat \<times> flag_pc \<Rightarrow> nat" where
  "steps_left (r, F_Test) = 4 * r"
| "steps_left (r, F_Read) = 4 * r - 1"
| "steps_left (r, F_Write v) = 4 * r - 2"
| "steps_left (r, F_Clear) = 4 * r - 3"

definition flag_work :: "flag_state \<Rightarrow> nat" where
  "flag_work s = sum_list (map steps_left (adders s))"

lemma flag_progress:
  assumes inv: "flag_inv n k s" and todo: "\<not> all_done s"
  shows "\<exists>s'. flag_move n s s' \<and> flag_work s' < flag_work s"
proof -
  have len: "length (adders s) = n" and lock: "lock_flag s = (\<exists>t < n. inside (adders s ! t))"
    using inv unfolding flag_inv_def by blast+
  obtain t where t: "t < n" "fst (adders s ! t) \<noteq> 0" "lock_flag s \<longrightarrow> snd (adders s ! t) \<noteq> F_Test"
  proof (cases "lock_flag s")
    case True
    then show ?thesis using that lock by (auto simp: inside_def)
  next
    case False
    then show ?thesis using that todo len by (auto simp: all_done_def list_all_length)
  qed
  obtain r pc where a: "adders s ! t = (r, pc)" by fastforce
  define q where "q = (case pc of F_Test \<Rightarrow> (r, F_Read) | F_Read \<Rightarrow> (r, F_Write (shared_data s)) | F_Write v \<Rightarrow> (r, F_Clear) | F_Clear \<Rightarrow> (r - 1, F_Test))"
  obtain s' where s': "flag_step t s = Some s'" "adders s' = (adders s)[t := q]"
    using a t(2,3) by (cases pc) (auto simp: flag_step_def q_def)
  have "steps_left q < steps_left (adders s ! t)" using a t(2) by (cases pc) (auto simp: q_def)
  then have "flag_work s' < flag_work s"
    using sum_list_swap [of t "adders s" steps_left q] t(1) len unfolding flag_work_def s'(2) by linarith
  then show ?thesis using s'(1) t(1) flag_move.move by blast
qed

lemma flag_finishes: "flag_inv n k s \<Longrightarrow> \<exists>s'. (flag_move n)\<^sup>*\<^sup>* s s' \<and> all_done s'"
proof (induction "flag_work s" arbitrary: s rule: less_induct)
  case less
  show ?case
  proof (cases "all_done s")
    case False
    then obtain u where u: "flag_move n s u" "flag_work u < flag_work s" using flag_progress [OF less.prems] by blast
    have "flag_inv n k u" using u(1) less.prems flag_step_inv by (auto elim!: flag_move.cases)
    then show ?thesis using less.hyps [OF u(2)] u(1) by (meson converse_rtranclp_into_rtranclp)
  qed blast
qed


section \<open>Properties\<close>

text \<open>Readers see whole arrays: under every interleaving the reader of the atomic pointer never reads freed memory, and
  when it has finished it has printed the old array or the new one, never a mixture.  After both threads have ended,
  \<^verbatim>\<open>delete\<close> gives the new array back, and the first array is still allocated: nobody can free it.\<close>
theorem pointer_reader_sees_one_array:
  assumes "ptr_run s"
  shows "(\<forall>r. reader04 s = Some r \<longrightarrow> (\<exists>t. r = Inr t)) \<and>
    (preader s = PR_Done \<longrightarrow> reader_out s = ''Reader loaded array: 0 0 0 0 0 '' @ [LF] \<or> reader_out s = ''Reader loaded array: 1 2 3 4 5 '' @ [LF]) \<and>
    (pwriter s = PW_Done \<longrightarrow> (\<exists>t. ptr_end s = Inr t \<and> arrays t = [0 \<mapsto> [0, 0, 0, 0, 0]]))"
proof -
  have inv: "ptr_inv s" using ptr_run_inv [OF assms] .
  have lines: "printed [0, 0, 0, 0, 0] 5 = ''Reader loaded array: 0 0 0 0 0 ''" "printed [1, 2, 3, 4, 5] 5 = ''Reader loaded array: 1 2 3 4 5 ''"
    by code_simp+
  have "\<exists>t. ptr_end s = Inr t \<and> arrays t = [0 \<mapsto> [0, 0, 0, 0, 0]]" if "pwriter s = PW_Done"
    using inv that by (auto simp: ptr_inv_def ptr_end_def fun_eq_iff)
  then show ?thesis using inv reader04_inv [OF inv] lines by (auto simp: ptr_inv_def)
qed

theorem pointer_reader_sees_one_array_witness:
  "\<exists>s. ptr_run s \<and> preader s = PR_Loop 0 0 \<and> (\<forall>r. reader04 s = Some r \<longrightarrow> (\<exists>t. r = Inr t))"
proof -
  have "reader04 ptr_start = Some (Inr (ptr_start\<lparr>reader_out := ''Reader loaded array: '', preader := PR_Loop 0 0\<rparr>))"
    by (simp add: reader04_def ptr_start_def new_array_def)
  then have "ptr_run (ptr_start\<lparr>reader_out := ''Reader loaded array: '', preader := PR_Loop 0 0\<rparr>)"
    by (rule ptr_run.reader [OF ptr_run.start])
  then show ?thesis using pointer_reader_sees_one_array by fastforce
qed

text \<open>Under the mutex the order of the two threads is free and nothing else: after n steps the threads have done n
  iterations between them, no run is longer than ten steps and only a run of ten is finished; every line of
  the reader shows its index with the index itself when the writer has been there before, and with 0 otherwise.\<close>
theorem mutex_reader_sees_written_or_zero:
  assumes "mutex_run n s"
  shows "saw_ok {} (mutex_out s) \<and> wrote (mutex_out s) = [0 ..< w_index s] \<and> saw (mutex_out s) = [0 ..< r_index s] \<and>
    n = w_index s + r_index s \<and> n \<le> 2 * ARRAY_SIZE \<and>
    ((writer05 s = None \<and> reader05 s = None) = (n = 2 * ARRAY_SIZE)) \<and>
    (w_index s = ARRAY_SIZE \<longrightarrow> shared_array s = [0, 1, 2, 3, 4])"
proof -
  have inv: "mutex_inv n s" using mutex_run_inv [OF assms] .
  have "shared_array s = [0, 1, 2, 3, 4]" if "w_index s = ARRAY_SIZE"
    using inv that by (simp add: mutex_inv_def ARRAY_SIZE_def upt_rec)
  then show ?thesis using inv by (auto simp: mutex_inv_def writer05_def reader05_def Let_def split: if_splits)
qed

theorem mutex_reader_sees_written_or_zero_witness:
  "\<exists>s. mutex_run 2 s \<and> saw_ok {} (mutex_out s) \<and> mutex_out s = [Wrote 0, Saw 0 0] \<and>
     concat (map mutex_text (mutex_out s)) = ''Writer updated index 0'' @ [LF] @ ''Reader read value at index 0: 0'' @ [LF]"
proof -
  obtain s where s: "writer05 mutex_start = Some s" "mutex_out s = [Wrote 0]" "r_index s = 0" "shared_array s ! 0 = 0"
    by (simp add: writer05_def mutex_start_def ARRAY_SIZE_def)
  obtain t where t: "reader05 s = Some t" "mutex_out t = [Wrote 0, Saw 0 0]"
    using s by (simp add: reader05_def ARRAY_SIZE_def)
  have run: "mutex_run 2 t"
    using mutex_run.reader [OF mutex_run.writer [OF mutex_run.start s(1)] t(1)] by (simp add: numeral_2_eq_2)
  have "show_int 0 = ''0''" by code_simp
  then show ?thesis using run t(2) mutex_reader_sees_written_or_zero [OF run] by (intro exI [of _ t]) simp
qed

text \<open>C38: The flag is a lock: under every interleaving at most one thread is between test and clear, the flag is set exactly
  while one is, and the data has counted every finished increment; every run can be continued to the end of all
  threads, and there the flag is clear and the data is n * k (10000 for the ten threads of the program).\<close>
theorem flag_counts_every_increment:
  assumes "(flag_move n)\<^sup>*\<^sup>* (flag_start n k) s"
  shows "(\<forall>t < n. \<forall>u < n. inside (adders s ! t) \<and> inside (adders s ! u) \<longrightarrow> t = u) \<and>
    lock_flag s = (\<exists>t < n. inside (adders s ! t)) \<and>
    shared_data s + sum_list (map rounds (adders s)) = n * k \<and>
    (\<exists>s'. (flag_move n)\<^sup>*\<^sup>* s s' \<and> all_done s') \<and>
    (all_done s \<longrightarrow> \<not> lock_flag s \<and> shared_data s = n * k)"
proof -
  have inv: "flag_inv n k s" using flag_run_inv [OF assms] .
  have "\<not> lock_flag s \<and> shared_data s = n * k" if "all_done s"
  proof -
    have "fst a = 0" if "a \<in> set (adders s)" for a
      using that \<open>all_done s\<close> by (simp add: all_done_def list_all_iff)
    then have "sum_list (map rounds (adders s)) = 0" "\<forall>t < n. \<not> inside (adders s ! t)"
      using inv by (auto simp: rounds_def inside_def flag_inv_def)
    then show ?thesis using inv unfolding flag_inv_def by (metis add.right_neutral)
  qed
  then show ?thesis using inv flag_finishes [OF inv] unfolding flag_inv_def by blast
qed

theorem flag_counts_every_increment_witness:
  "\<exists>s. (flag_move 10)\<^sup>*\<^sup>* (flag_start 10 1000) s \<and> all_done s \<and> shared_data s = 10000"
proof -
  obtain s where s: "(flag_move 10)\<^sup>*\<^sup>* (flag_start 10 1000) s" "all_done s"
    using flag_finishes [OF flag_start_inv] by blast
  then show ?thesis using flag_counts_every_increment [OF s(1)] by auto
qed

end
