(* ===== verification/Promises.thy ===== *)
theory Promises
  imports Prelude "HOL-Library.Multiset"
begin

text \<open>
  The programs of the chapter on futures that hand a value over: the connection with a promise for every identifier
  (\<^verbatim>\<open>promise.cpp\<close>), the task that passes its exception on (\<^verbatim>\<open>promiseException.cpp\<close>) and the wait with a time-out
  (\<^verbatim>\<open>duration.cpp\<close>).

  A promise and its future share a state, at a position of a list.  A promise that is destroyed or replaced before
  it was given a value breaks its state.  Whoever waits for a state that nothing has been stored in blocks (\<open>None\<close>).

  Threads that call \<open>send\<close> take turns in any order.  A turn is one insertion into the output, the beginning or the end
  of a call on the map of promises, or \<open>set_value\<close>, which the library makes atomic.  \<open>operator[]\<close> of a map counts as a
  modification for the rules on data races, whether it finds the key or not; \<open>raced\<close> records that it has overlapped with
  another call on the map.
\<close>

section \<open>Shared states\<close>

datatype promise_error = Broken_Promise | Already_Satisfied | No_State | Thrown string

datatype 'v shared_state = Waiting | Stored 'v | Failed promise_error

record connection =
  states :: "string shared_state list"
  promises :: "int \<Rightarrow> nat option"
  sent_out :: string

definition new_connection :: connection where
  "new_connection = \<lparr>states = [], promises = Map.empty, sent_out = []\<rparr>"

text \<open>What \<^verbatim>\<open>~promise\<close> and the assignment do to the state they leave\<close>

definition abandon :: "nat option \<Rightarrow> 'v shared_state list \<Rightarrow> 'v shared_state list" where
  "abandon p ss = (case p of
     Some a \<Rightarrow> if ss ! a = Waiting then ss[a := Failed Broken_Promise] else ss
   | None \<Rightarrow> ss)"

definition get_future :: "int \<Rightarrow> connection \<Rightarrow> nat \<times> connection" where
  "get_future key c = (length (states c),
     c\<lparr>states := abandon (promises c key) (states c) @ [Waiting], promises := (promises c)(key \<mapsto> length (states c))\<rparr>)"

definition set_value :: "nat \<Rightarrow> 'v \<Rightarrow> 'v shared_state list \<Rightarrow> promise_error + 'v shared_state list" where
  "set_value a v ss = (if ss ! a = Waiting then Inr (ss[a := Stored v]) else Inl Already_Satisfied)"

text \<open>Where a thread stands in \<open>send\<close>: at one of the insertions of the first line, in front of or inside \<open>count\<close> and
  \<open>operator[]\<close>, at \<open>set_value\<close> with the state of the promise it has found, at an insertion of the second message, at the
  end, or with an exception.\<close>

datatype sender_pc = Printing nat | Counting | In_Count | Indexing | In_Index | Setting nat | Reporting nat
  | Sent | Raised promise_error

record sending =
  conn :: connection
  pcs :: "sender_pc list"
  raced :: bool

definition data_pieces :: "int \<Rightarrow> string \<Rightarrow> string list" where
  "data_pieces key data = [''Data id = '', show_int key, '' data = '', data, [LF]]"

definition absent_pieces :: "int \<Rightarrow> string list" where
  "absent_pieces key = [''No promise found for ID'', show_int key, [LF]]"

fun has_raised :: "sender_pc \<Rightarrow> bool" where
  "has_raised (Raised e) = True"
| "has_raised _ = False"

definition other_at :: "sender_pc list \<Rightarrow> nat \<Rightarrow> sender_pc \<Rightarrow> bool" where
  "other_at ps i pc = (\<exists>j < length ps. j \<noteq> i \<and> ps ! j = pc)"

text \<open>One turn of thread \<open>i\<close>, which sends the value \<open>snd (ms ! i)\<close> under the identifier \<open>fst (ms ! i)\<close>.  An exception
  that leaves a thread ends the program.\<close>

definition send_turn :: "(int \<times> string) list \<Rightarrow> nat \<Rightarrow> sending \<Rightarrow> sending option" where
  "send_turn ms i s =
     (if length (pcs s) \<le> i \<or> list_ex has_raised (pcs s) then None
      else
        (let c = conn s; key = fst (ms ! i); data = snd (ms ! i);
             go = (\<lambda>pc. s\<lparr>pcs := (pcs s)[i := pc]\<rparr>) in
         case pcs s ! i of
           Printing j \<Rightarrow>
             Some ((go (if j < 4 then Printing (Suc j) else Counting))
                     \<lparr>conn := c\<lparr>sent_out := sent_out c @ data_pieces key data ! j\<rparr>\<rparr>)
         | Counting \<Rightarrow> Some ((go In_Count)\<lparr>raced := raced s \<or> other_at (pcs s) i In_Index\<rparr>)
         | In_Count \<Rightarrow> Some (go (if promises c key = None then Reporting 0 else Indexing))
         | Indexing \<Rightarrow> Some ((go In_Index)
             \<lparr>raced := raced s \<or> other_at (pcs s) i In_Count \<or> other_at (pcs s) i In_Index\<rparr>)
         | In_Index \<Rightarrow>
             (case promises c key of
                Some a \<Rightarrow> Some (go (Setting a))
              | None \<Rightarrow> Some ((go (Setting (length (states c))))
                  \<lparr>conn := c\<lparr>states := states c @ [Waiting], promises := (promises c)(key \<mapsto> length (states c))\<rparr>\<rparr>))
         | Setting a \<Rightarrow>
             (case set_value a data (states c) of
                Inl e \<Rightarrow> Some (go (Raised e))
              | Inr ss \<Rightarrow> Some ((go Sent)\<lparr>conn := c\<lparr>states := ss\<rparr>\<rparr>))
         | Reporting j \<Rightarrow>
             Some ((go (if j < 2 then Reporting (Suc j) else Sent))
                     \<lparr>conn := c\<lparr>sent_out := sent_out c @ absent_pieces key ! j\<rparr>\<rparr>)
         | Sent \<Rightarrow> None
         | Raised e \<Rightarrow> None))"

definition senders_start :: "(int \<times> string) list \<Rightarrow> connection \<Rightarrow> sending" where
  "senders_start ms c = \<lparr>conn = c, pcs = replicate (length ms) (Printing 0), raced = False\<rparr>"

text \<open>What the threads can have reached after \<open>n\<close> turns, and the run along a given order of turns\<close>

inductive sends :: "(int \<times> string) list \<Rightarrow> connection \<Rightarrow> nat \<Rightarrow> sending \<Rightarrow> bool" for ms c where
  sends_start: "sends ms c 0 (senders_start ms c)"
| sends_turn: "sends ms c n s \<Longrightarrow> send_turn ms i s = Some s' \<Longrightarrow> sends ms c (Suc n) s'"

fun run_turns :: "(int \<times> string) list \<Rightarrow> nat list \<Rightarrow> sending \<Rightarrow> sending" where
  "run_turns ms [] s = s"
| "run_turns ms (i # is) s = (case send_turn ms i s of None \<Rightarrow> run_turns ms is s | Some s' \<Rightarrow> run_turns ms is s')"

text \<open>A call of \<open>send\<close> while no other thread uses the connection: it returns after ten turns.\<close>

definition send_data :: "string \<Rightarrow> int \<Rightarrow> connection \<Rightarrow> promise_error + connection" where
  "send_data data key c =
     (let s = run_turns [(key, data)] (replicate 10 0) (senders_start [(key, data)] c) in
      case pcs s ! 0 of Raised e \<Rightarrow> Inl e | _ \<Rightarrow> Inr (conn s))"

text \<open>\<^verbatim>\<open>get\<close> leaves the future without a state.\<close>

definition future_get :: "nat option \<Rightarrow> 'v shared_state list \<Rightarrow> (promise_error + 'v) option" where
  "future_get f ss = (case f of
     None \<Rightarrow> Some (Inl No_State)
   | Some a \<Rightarrow> (case ss ! a of Waiting \<Rightarrow> None | Stored v \<Rightarrow> Some (Inr v) | Failed e \<Rightarrow> Some (Inl e)))"

text \<open>\<^verbatim>\<open>promises.erase(promises.find(key))\<close>; erasing \<^verbatim>\<open>end()\<close> is undefined.\<close>

definition erase_promise :: "int \<Rightarrow> connection \<Rightarrow> connection result" where
  "erase_promise key c = (if promises c key = None then Inl Dangling
     else Inr (c\<lparr>states := abandon (promises c key) (states c), promises := (promises c)(key := None)\<rparr>))"

section \<open>Programs\<close>

fun get_futures :: "int list \<Rightarrow> connection \<Rightarrow> nat list \<times> connection" where
  "get_futures [] c = ([], c)"
| "get_futures (i # is) c = (case get_future i c of (a, c1) \<Rightarrow> case get_futures is c1 of (as, c2) \<Rightarrow> (a # as, c2))"

definition two_sends :: "(int \<times> string) list" where
  "two_sends = [(1, ''this is value 1''), (2, ''this is value 2'')]"

text \<open>The two senders take the turns \<open>order\<close>; \<open>None\<close> when one of them has not returned by then and \<open>join\<close> still waits,
  or when a future does.\<close>

definition promise_main :: "nat list \<Rightarrow> string result option" where
  "promise_main order = (case get_futures [1, 2] new_connection of (fs, c) \<Rightarrow>
     (let s = run_turns two_sends order (senders_start two_sends c); c1 = conn s in
      if list_ex has_raised (pcs s) then Some (Inl (Exit_With ''terminate''))
      else if \<not> list_all (\<lambda>pc. pc = Sent) (pcs s) then None
      else (case (future_get (Some (fs ! 0)) (states c1), erase_promise 1 c1) of
          (None, _) \<Rightarrow> None
        | (Some (Inl e), _) \<Rightarrow> Some (Inl (Exit_With ''terminate''))
        | (Some (Inr v1), Inl e) \<Rightarrow> Some (Inl e)
        | (Some (Inr v1), Inr c2) \<Rightarrow> (case (future_get (Some (fs ! 1)) (states c2), erase_promise 2 c2) of
            (None, _) \<Rightarrow> None
          | (Some (Inl e), _) \<Rightarrow> Some (Inl (Exit_With ''terminate''))
          | (Some (Inr v2), Inl e) \<Rightarrow> Some (Inl e)
          | (Some (Inr v2), Inr c3) \<Rightarrow>
              Some (Inr (sent_out c1 @ ''recv data 1'' @ v1 @ [LF] @ ''recv data 2'' @ v2 @ [LF]))))))"

text \<open>\<^verbatim>\<open>promiseException.cpp\<close>: the task catches what it throws and stores it; \<^verbatim>\<open>get\<close> throws it again.\<close>

definition set_exception :: "nat \<Rightarrow> promise_error \<Rightarrow> 'v shared_state list \<Rightarrow> promise_error + 'v shared_state list" where
  "set_exception a e ss = (if ss ! a = Waiting then Inr (ss[a := Failed e]) else Inl Already_Satisfied)"

definition task_function :: "nat \<Rightarrow> unit shared_state list \<Rightarrow> promise_error + unit shared_state list" where
  "task_function a ss = set_exception a (Thrown ''foo'') ss"

text \<open>\<open>lib\<close> are the texts the library gives its own errors.\<close>

definition what :: "(promise_error \<Rightarrow> string) \<Rightarrow> promise_error \<Rightarrow> string" where
  "what lib e = (case e of Thrown s \<Rightarrow> s | _ \<Rightarrow> lib e)"

definition exception_main :: "(promise_error \<Rightarrow> string) \<Rightarrow> string result option" where
  "exception_main lib = (case task_function 0 [Waiting] of
     Inl e \<Rightarrow> Some (Inl (Exit_With ''terminate''))
   | Inr ss \<Rightarrow> (case future_get (Some 0) (abandon (Some 0) ss) of
       None \<Rightarrow> None
     | Some (Inl e) \<Rightarrow> Some (Inr (''exception = '' @ what lib e @ [LF]))
     | Some (Inr u) \<Rightarrow> Some (Inr [])))"

text \<open>\<^verbatim>\<open>wait_loop\<close>: every wake-up brings the value of \<^verbatim>\<open>done\<close> at that moment and whether the time was over.
  \<open>None\<close> means that it still waits.\<close>

fun wait_loop :: "bool \<Rightarrow> (bool \<times> bool) list \<Rightarrow> bool option" where
  "wait_loop True ws = Some True"
| "wait_loop False [] = None"
| "wait_loop False ((d, timeout) # ws) = (if timeout then Some d else wait_loop d ws)"

definition seconds_of :: "int \<Rightarrow> int" where
  "seconds_of ms = sgn ms * (\<bar>ms\<bar> div 1000)"

definition duration_text :: "bool \<Rightarrow> (bool \<times> bool) list \<Rightarrow> string option" where
  "duration_text done ws = map_option (\<lambda>b. if b then ''time out is finished!'' @ [LF] else []) (wait_loop done ws)"


section \<open>Every future gets its value\<close>

lemma abandon_fields [simp]: "length (abandon p ss) = length ss"
  by (simp add: abandon_def split: option.split)

text \<open>Promises of different identifiers have different states, all of them waiting or used.\<close>

definition conn_ok :: "connection \<Rightarrow> bool" where
  "conn_ok c \<longleftrightarrow> (\<forall>k a. promises c k = Some a \<longrightarrow> a < length (states c)) \<and>
     (\<forall>k j a. promises c k = Some a \<and> promises c j = Some a \<longrightarrow> k = j)"

lemma no_promises_ok: "conn_ok new_connection"
  by (simp add: conn_ok_def new_connection_def)

lemma get_future_ok: "conn_ok c \<Longrightarrow> get_future k c = (a, c') \<Longrightarrow> conn_ok c'"
proof -
  assume ok: "conn_ok c" and g: "get_future k c = (a, c')"
  have "promises c j \<noteq> Some (length (states c))" for j
    using ok less_irrefl unfolding conn_ok_def by blast
  then show ?thesis using ok g by (auto simp: conn_ok_def get_future_def less_Suc_eq split: if_splits)
qed

lemma get_future_states:
  assumes "get_future k c = (a, c')" and "conn_ok c"
  shows "promises c' = (promises c)(k \<mapsto> a)" "states c' ! a = Waiting" "length (states c') = Suc (length (states c))"
    "\<And>b. b < length (states c) \<Longrightarrow> states c' ! b =
       (if promises c k = Some b \<and> states c ! b = Waiting then Failed Broken_Promise else states c ! b)"
  using assms by (auto simp: get_future_def nth_append abandon_def nth_list_update conn_ok_def split: option.splits)

lemma get_futures_fresh:
  assumes "distinct ks" and "\<forall>k \<in> set ks. promises c k = None" and "conn_ok c" and "get_futures ks c = (as, c')"
  shows "conn_ok c' \<and> length as = length ks \<and> (\<forall>i < length ks. promises c' (ks ! i) = Some (as ! i) \<and> states c' ! (as ! i) = Waiting) \<and>
    (\<forall>k. k \<notin> set ks \<longrightarrow> promises c' k = promises c k) \<and> sent_out c' = sent_out c \<and>
    (\<forall>b < length (states c). states c' ! b = states c ! b) \<and> length (states c) \<le> length (states c')"
  using assms
proof (induction ks arbitrary: c as c')
  case (Cons k ks)
  obtain a c1 where 1: "get_future k c = (a, c1)" by fastforce
  obtain bs c2 where 2: "get_futures ks c1 = (bs, c2)" by fastforce
  have r: "as = a # bs" "c' = c2" using Cons.prems(4) 1 2 by simp_all
  note g = get_future_states [OF 1 Cons.prems(3)]
  have a: "a = length (states c)" "sent_out c1 = sent_out c" using 1 by (auto simp: get_future_def)
  have "\<forall>j \<in> set ks. promises c1 j = None" using Cons.prems(1,2) g(1) by auto
  then have IH: "conn_ok c2" "length bs = length ks" "\<forall>i < length ks. promises c2 (ks ! i) = Some (bs ! i) \<and> states c2 ! (bs ! i) = Waiting"
    "\<forall>j. j \<notin> set ks \<longrightarrow> promises c2 j = promises c1 j" "sent_out c2 = sent_out c1"
    "\<forall>b < length (states c1). states c2 ! b = states c1 ! b" "length (states c1) \<le> length (states c2)"
    using Cons.IH [OF _ _ get_future_ok [OF Cons.prems(3) 1] 2] Cons.prems(1) by auto
  have "promises c2 k = Some a" using IH(4) Cons.prems(1) g(1) by simp
  moreover have "states c2 ! a = Waiting" using IH(6) g(2,3) a(1) by simp
  moreover have "states c2 ! b = states c ! b" if "b < length (states c)" for b
    using IH(6) g(3,4) that Cons.prems(2) by simp
  ultimately show ?case unfolding r using IH g(1,3) a(2) by (auto simp: nth_Cons split: nat.split)
qed simp

text \<open>The threads are ready: the identifiers are distinct and each has a promise that waits for its value.\<close>

definition ready :: "(int \<times> string) list \<Rightarrow> connection \<Rightarrow> bool" where
  "ready ms c \<longleftrightarrow> conn_ok c \<and> distinct (map fst ms) \<and>
     (\<forall>i < length ms. \<exists>a. promises c (fst (ms ! i)) = Some a \<and> states c ! a = Waiting)"

definition addr :: "(int \<times> string) list \<Rightarrow> connection \<Rightarrow> nat \<Rightarrow> nat" where
  "addr ms c i = the (promises c (fst (ms ! i)))"

lemma ready_addr:
  assumes "ready ms c" "i < length ms"
  shows "promises c (fst (ms ! i)) = Some (addr ms c i)" "addr ms c i < length (states c)"
    "states c ! addr ms c i = Waiting"
proof -
  obtain a where "promises c (fst (ms ! i)) = Some a" "states c ! a = Waiting"
    using assms unfolding ready_def by blast
  then show "promises c (fst (ms ! i)) = Some (addr ms c i)" "addr ms c i < length (states c)"
    "states c ! addr ms c i = Waiting"
    using assms(1) by (auto simp: addr_def ready_def conn_ok_def)
qed

lemma addr_inject:
  assumes "ready ms c" "i < length ms" "j < length ms"
  shows "addr ms c i = addr ms c j \<longleftrightarrow> i = j"
proof
  assume "addr ms c i = addr ms c j"
  then have "fst (ms ! i) = fst (ms ! j)"
    using ready_addr(1) [OF assms(1,2)] ready_addr(1) [OF assms(1,3)] assms(1)
    unfolding ready_def conn_ok_def by metis
  then show "i = j" using assms by (simp add: ready_def distinct_conv_nth) (metis length_map nth_map)
qed simp

text \<open>The turns a thread has taken; \<open>pc_ok a\<close> says that it is on its way to the state \<open>a\<close>.\<close>

fun rank :: "sender_pc \<Rightarrow> nat" where
  "rank (Printing j) = j" | "rank Counting = 5" | "rank In_Count = 6" | "rank Indexing = 7" | "rank In_Index = 8"
| "rank (Setting a) = 9" | "rank Sent = 10" | "rank _ = 0"

fun pc_ok :: "nat \<Rightarrow> sender_pc \<Rightarrow> bool" where
  "pc_ok a (Printing j) = (j < 5)"
| "pc_ok a (Setting b) = (b = a)"
| "pc_ok a (Reporting j) = False"
| "pc_ok a (Raised e) = False"
| "pc_ok a _ = True"

definition sending_ok :: "(int \<times> string) list \<Rightarrow> connection \<Rightarrow> sending \<Rightarrow> bool" where
  "sending_ok ms c s \<longleftrightarrow> length (pcs s) = length ms \<and> promises (conn s) = promises c \<and>
     length (states (conn s)) = length (states c) \<and>
     (\<forall>i < length ms. pc_ok (addr ms c i) (pcs s ! i) \<and>
        states (conn s) ! addr ms c i = (if pcs s ! i = Sent then Stored (snd (ms ! i)) else Waiting))"

lemma sending_ok_start: "ready ms c \<Longrightarrow> sending_ok ms c (senders_start ms c)"
  using ready_addr(3) by (simp add: sending_ok_def senders_start_def)

lemma pc_ok_not_raised: "pc_ok a pc \<Longrightarrow> \<not> has_raised pc"
  by (cases pc) simp_all

lemma sending_ok_not_raised: "sending_ok ms c s \<Longrightarrow> \<not> list_ex has_raised (pcs s)"
  using pc_ok_not_raised by (fastforce simp: sending_ok_def list_ex_iff in_set_conv_nth)
lemma sending_ok_moves:
  assumes "sending_ok ms c s" "i < length ms" "pc_ok (addr ms c i) (pcs s' ! i)" "pcs s' ! i \<noteq> Sent" "pcs s ! i \<noteq> Sent"
    and "pcs s' = (pcs s)[i := pcs s' ! i]" "promises (conn s') = promises (conn s)" "states (conn s') = states (conn s)"
  shows "sending_ok ms c s'"
proof -
  have "pcs s' ! j = pcs s ! j" if "j \<noteq> i" for j using that assms(6) by (metis nth_list_update_neq)
  moreover have "length (pcs s') = length (pcs s)" using assms(6) by (metis length_list_update)
  ultimately show ?thesis using assms unfolding sending_ok_def by metis
qed

lemma sending_ok_sets:
  assumes "ready ms c" "sending_ok ms c s" "i < length ms"
    and "pcs s' = (pcs s)[i := Sent]" "promises (conn s') = promises (conn s)"
    and "states (conn s') = (states (conn s))[addr ms c i := Stored (snd (ms ! i))]"
  shows "sending_ok ms c s'"
  using assms ready_addr(2) [OF assms(1,3)] addr_inject [OF assms(1,3)]
  by (auto simp: sending_ok_def nth_list_update)

lemma turn_taken:
  assumes "ready ms c" "sending_ok ms c s" "i < length ms" "pcs s ! i \<noteq> Sent"
  shows "\<exists>s'. send_turn ms i s = Some s' \<and> pcs s' = (pcs s)[i := pcs s' ! i] \<and> rank (pcs s' ! i) = Suc (rank (pcs s ! i)) \<and>
    sending_ok ms c s' \<and>
    (raced s' \<longleftrightarrow> raced s \<or> pcs s ! i = Counting \<and> other_at (pcs s) i In_Index \<or>
       pcs s ! i = Indexing \<and> (other_at (pcs s) i In_Count \<or> other_at (pcs s) i In_Index))"
proof -
  note ok = assms(2) [unfolded sending_ok_def]
  have pc: "pc_ok (addr ms c i) (pcs s ! i)" and l: "\<not> length (pcs s) \<le> i" "i < length (pcs s)"
    and p: "promises (conn s) (fst (ms ! i)) = Some (addr ms c i)"
    and w: "states (conn s) ! addr ms c i = Waiting"
    using ok assms(3,4) ready_addr(1) [OF assms(1,3)] by auto
  note turn = send_turn_def [of ms i s] l sending_ok_not_raised [OF assms(2)] Let_def
  note moves = sending_ok_moves [OF assms(2,3)]
  show ?thesis
  proof (cases "pcs s ! i")
    case (Printing j)
    then show ?thesis using pc by (auto simp: turn intro!: moves)
  next
    case (Setting a)
    then show ?thesis using pc w by (auto simp: turn set_value_def intro!: sending_ok_sets [OF assms(1-3)])
  qed (use pc p assms(4) in \<open>auto simp: turn intro!: moves\<close>)
qed

lemma sends_ok: "sends ms c n s \<Longrightarrow> ready ms c \<Longrightarrow> sending_ok ms c s \<and> sum_list (map rank (pcs s)) = n"
proof (induction rule: sends.induct)
  case sends_start
  then show ?case by (simp add: sending_ok_start) (simp add: senders_start_def sum_list_replicate)
next
  case (sends_turn n s i s')
  then have ok: "sending_ok ms c s" "sum_list (map rank (pcs s)) = n" by simp_all
  have l: "length (pcs s) = length ms" using ok(1) by (simp add: sending_ok_def)
  have i: "i < length ms" "pcs s ! i \<noteq> Sent"
    using sends_turn.hyps(2) l by (auto simp: send_turn_def Let_def split: if_splits)
  have pc: "pcs s' = (pcs s)[i := pcs s' ! i]" "rank (pcs s' ! i) = Suc (rank (pcs s ! i))" "sending_ok ms c s'"
    using turn_taken [OF sends_turn.prems ok(1) i] sends_turn.hyps(2) by auto
  have "rank (pcs s ! i) \<le> sum_list (map rank (pcs s))"
    using i(1) l by (intro member_le_sum_list) auto
  then have "sum_list (map rank (pcs s')) = Suc n"
    using ok(2) i(1) l pc(2) by (subst pc(1)) (simp add: map_update sum_list_update)
  then show ?case using pc(3) by simp
qed

lemma rank_le: "pc_ok a pc \<Longrightarrow> rank pc \<le> 10 \<and> (rank pc = 10 \<longleftrightarrow> pc = Sent)"
  by (cases pc) auto

lemma ranks_full:
  "\<forall>pc \<in> set ps. rank pc \<le> 10 \<Longrightarrow>
   sum_list (map rank ps) \<le> 10 * length ps \<and> (sum_list (map rank ps) = 10 * length ps \<longleftrightarrow> (\<forall>pc \<in> set ps. rank pc = 10))"
  by (induction ps) auto

text \<open>Every reachable situation: nobody has failed, whoever has returned has delivered, and \<open>n\<close> counts the turns.\<close>

lemma sends_deliver:
  assumes "ready ms c" "sends ms c n s"
  shows "\<not> list_ex has_raised (pcs s)"
    and "n \<le> 10 * length ms" and "(\<forall>pc \<in> set (pcs s). pc = Sent) \<longleftrightarrow> n = 10 * length ms"
    and "i < length ms \<Longrightarrow> pcs s ! i = Sent \<Longrightarrow> states (conn s) ! addr ms c i = Stored (snd (ms ! i))"
    and "i < length ms \<Longrightarrow> pcs s ! i \<noteq> Sent \<Longrightarrow> send_turn ms i s \<noteq> None"
proof -
  have ok: "sending_ok ms c s" and n: "sum_list (map rank (pcs s)) = n" using sends_ok assms by blast+
  have l: "length (pcs s) = length ms" using ok by (simp add: sending_ok_def)
  have r: "\<forall>pc \<in> set (pcs s). rank pc \<le> 10 \<and> (rank pc = 10 \<longleftrightarrow> pc = Sent)"
    using ok rank_le by (fastforce simp: sending_ok_def in_set_conv_nth)
  show "\<not> list_ex has_raised (pcs s)" using ok by (rule sending_ok_not_raised)
  show "n \<le> 10 * length ms" "(\<forall>pc \<in> set (pcs s). pc = Sent) \<longleftrightarrow> n = 10 * length ms"
    using ranks_full [of "pcs s"] r n l by auto
  show "i < length ms \<Longrightarrow> pcs s ! i = Sent \<Longrightarrow> states (conn s) ! addr ms c i = Stored (snd (ms ! i))"
    using ok by (simp add: sending_ok_def)
  show "i < length ms \<Longrightarrow> pcs s ! i \<noteq> Sent \<Longrightarrow> send_turn ms i s \<noteq> None"
    using turn_taken [OF assms(1) ok] by fastforce
qed

text \<open>A thread can go on alone to any later point; it takes part in a race only when another one is inside a call.\<close>

definition quiet :: "sender_pc list \<Rightarrow> nat \<Rightarrow> bool" where
  "quiet ps i \<longleftrightarrow> (\<forall>j < length ps. j \<noteq> i \<longrightarrow> ps ! j \<notin> {In_Count, In_Index})"

lemma go_alone:
  assumes "ready ms c" "sends ms c n s" "i < length ms" "rank (pcs s ! i) \<le> r" "r \<le> 10"
  shows "\<exists>m s' pc. sends ms c m s' \<and> pcs s' = (pcs s)[i := pc] \<and> rank pc = r \<and>
    (quiet (pcs s) i \<longrightarrow> raced s' = raced s)"
  using assms(4,5)
proof (induction r rule: dec_induct)
  case base
  then show ?case using assms(2) by (intro exI [of _ n] exI [of _ s] exI [of _ "pcs s ! i"]) simp
next
  case (step r)
  then obtain m s1 pc where s1: "sends ms c m s1" "pcs s1 = (pcs s)[i := pc]" "rank pc = r"
    "quiet (pcs s) i \<longrightarrow> raced s1 = raced s" by auto
  have ok: "sending_ok ms c s1" using sends_ok [OF s1(1) assms(1)] by blast
  have l: "length (pcs s1) = length ms" "length (pcs s) = length ms"
    using ok s1(2) by (auto simp: sending_ok_def)
  then have pc: "pcs s1 ! i = pc" using s1(2) assms(3) by simp
  moreover have "pc \<noteq> Sent" using s1(3) step.hyps step.prems by auto
  ultimately have nsent: "pcs s1 ! i \<noteq> Sent" by simp
  obtain s2 where s2: "send_turn ms i s1 = Some s2" "pcs s2 = (pcs s1)[i := pcs s2 ! i]"
    "rank (pcs s2 ! i) = Suc (rank (pcs s1 ! i))"
    "raced s2 \<longleftrightarrow> raced s1 \<or> pcs s1 ! i = Counting \<and> other_at (pcs s1) i In_Index \<or>
       pcs s1 ! i = Indexing \<and> (other_at (pcs s1) i In_Count \<or> other_at (pcs s1) i In_Index)"
    using turn_taken [OF assms(1) ok assms(3) nsent] by blast
  have "quiet (pcs s) i \<Longrightarrow> raced s2 = raced s"
    using s1(2,4) s2(4) by (auto simp: quiet_def other_at_def nth_list_update)
  then show ?case
    using sends_turn [OF s1(1) s2(1)] s2(2,3) s1(2,3) pc
    by (intro exI [of _ "Suc m"] exI [of _ s2] exI [of _ "pcs s2 ! i"]) (metis list_update_overwrite)
qed

lemma rank_pc: "pc_ok a pc \<Longrightarrow> rank pc = 10 \<longleftrightarrow> pc = Sent" "pc_ok a pc \<Longrightarrow> rank pc = 8 \<longleftrightarrow> pc = In_Index"
  "pc_ok a pc \<Longrightarrow> rank pc = 5 \<longleftrightarrow> pc = Counting"
  by (cases pc; simp)+

lemma sends_pc:
  assumes "ready ms c" "sends ms c n s" "i < length ms"
  shows "pc_ok (addr ms c i) (pcs s ! i)" "length (pcs s) = length ms"
  using sends_ok [OF assms(2,1)] assms(3) by (simp_all add: sending_ok_def)

lemma one_after_the_other:
  assumes "ready ms c"
  shows "k \<le> length ms \<Longrightarrow> \<exists>n s. sends ms c n s \<and> \<not> raced s \<and>
    pcs s = replicate k Sent @ replicate (length ms - k) (Printing 0)"
proof (induction k)
  case 0
  show ?case by (intro exI [of _ 0] exI [of _ "senders_start ms c"]) (simp add: sends_start, simp add: senders_start_def)
next
  case (Suc k)
  then obtain n s where s: "sends ms c n s" "\<not> raced s"
    "pcs s = replicate k Sent @ replicate (length ms - k) (Printing 0)" by auto
  have k: "k < length ms" using Suc.prems by simp
  have r: "rank (pcs s ! k) \<le> 10" using s(3) k by (simp add: nth_append)
  have q: "quiet (pcs s) k" using s(3) by (auto simp: quiet_def nth_append)
  obtain m s' pc where s': "sends ms c m s'" "pcs s' = (pcs s)[k := pc]" "rank pc = 10" "raced s' = raced s"
    using go_alone [OF assms s(1) k r] q by auto
  have "pcs s' ! k = pc" using s'(2) sends_pc(2) [OF assms s(1) k] k by simp
  then have "pc = Sent" using sends_pc(1) [OF assms s'(1) k] rank_pc(1) s'(3) by metis
  then have "pcs s' = replicate (Suc k) Sent @ replicate (length ms - Suc k) (Printing 0)"
    using s'(2) s(3) Suc_diff_Suc [OF k, symmetric] by (simp add: list_update_append replicate_app_Cons_same)
  then show ?case using s'(1,4) s(2) by auto
qed

lemma two_senders_race:
  assumes "ready ms c" "2 \<le> length ms"
  shows "\<exists>n s. sends ms c n s \<and> raced s"
proof -
  let ?s = "senders_start ms c"
  have l: "0 < length ms" "1 < length ms" using assms(2) by linarith+
  have p: "pcs ?s = replicate (length ms) (Printing 0)" by (simp add: senders_start_def)
  have ne: "ms \<noteq> []" using l by auto
  obtain m s1 pc where s1: "sends ms c m s1" "pcs s1 = (pcs ?s)[0 := pc]" "rank pc = 8"
    using go_alone [OF assms(1) sends_start l(1), of 8] l p ne by auto
  have "pcs s1 ! 0 = pc" using s1(2) p l by simp
  then have 0: "pcs s1 ! 0 = In_Index" using sends_pc(1) [OF assms(1) s1(1) l(1)] rank_pc(2) s1(3) by metis
  have 1: "rank (pcs s1 ! 1) \<le> 5" using s1(2) p l by simp
  obtain n s2 qc where s2: "sends ms c n s2" "pcs s2 = (pcs s1)[1 := qc]" "rank qc = 5"
    using go_alone [OF assms(1) s1(1) l(2) 1, of ] by auto
  have "pcs s2 ! 1 = qc" using s2(2) s1(2) p l by simp
  then have c: "pcs s2 ! 1 = Counting" using sends_pc(1) [OF assms(1) s2(1) l(2)] rank_pc(3) s2(3) by metis
  have "other_at (pcs s2) 1 In_Index"
    using 0 s2(2) s1(2) p l by (auto simp: other_at_def intro!: exI [of _ 0])
  then obtain s3 where "send_turn ms 1 s2 = Some s3" "raced s3"
    using turn_taken [OF assms(1) _ l(2), of s2] sends_ok [OF s2(1) assms(1)] c by auto
  then show ?thesis using sends_turn [OF s2(1)] by blast
qed

text \<open>What a call of \<open>send\<close> does that runs alone\<close>

lemma send_data_alone:
  "send_data data key c =
     (let c1 = c\<lparr>sent_out := sent_out c @ ''Data id = '' @ show_int key @ '' data = '' @ data @ [LF]\<rparr> in
      case promises c key of
        Some a \<Rightarrow> (case set_value a data (states c1) of Inl e \<Rightarrow> Inl e | Inr ss \<Rightarrow> Inr (c1\<lparr>states := ss\<rparr>))
      | None \<Rightarrow> Inr (c1\<lparr>sent_out := sent_out c1 @ ''No promise found for ID'' @ show_int key @ [LF]\<rparr>))"
proof -
  have run: "run_turns ms (replicate (Suc n) 0) s =
      (case send_turn ms 0 s of None \<Rightarrow> run_turns ms (replicate n 0) s | Some s' \<Rightarrow> run_turns ms (replicate n 0) s')" for ms n s
    by simp
  have ten: "(10 :: nat) = Suc (Suc (Suc (Suc (Suc (Suc (Suc (Suc (Suc (Suc 0)))))))))" by simp
  show ?thesis
    unfolding send_data_def ten run
    by (cases "promises c key"; cases "set_value (the (promises c key)) data (states c)")
      (simp_all add: send_turn_def senders_start_def data_pieces_def absent_pieces_def other_at_def Let_def)
qed

lemma wait_loop_None: "wait_loop False ws = None \<longleftrightarrow> (\<forall>(d, timeout) \<in> set ws. \<not> d \<and> \<not> timeout)"
proof (induction ws)
  case (Cons w ws)
  then show ?case by (cases w; cases "fst w") auto
qed simp

lemma wait_loop_Some:
  "(\<forall>(d, timeout) \<in> set us. \<not> d \<and> \<not> timeout) \<Longrightarrow> d \<or> timeout \<Longrightarrow> wait_loop False (us @ (d, timeout) # ws) = Some d"
proof (induction us)
  case Nil
  then show ?case by (cases d) auto
next
  case (Cons u us)
  then show ?case by (cases u) auto
qed

section \<open>Properties\<close>

lemma futures_ready:
  assumes "distinct ks" and "mset (map fst ms) = mset ks" and "get_futures ks new_connection = (fs, c)"
  shows "ready ms c" "length fs = length ks"
    "i < length ks \<Longrightarrow> j < length ms \<Longrightarrow> fst (ms ! j) = ks ! i \<Longrightarrow> fs ! i = addr ms c j"
proof -
  have d: "distinct (map fst ms)" using assms(1,2) by (metis mset_eq_imp_distinct_iff)
  have f: "conn_ok c" "length fs = length ks" "\<forall>i < length ks. promises c (ks ! i) = Some (fs ! i) \<and> states c ! (fs ! i) = Waiting"
    using get_futures_fresh [OF assms(1) _ no_promises_ok assms(3)] by (simp_all add: new_connection_def)
  have "\<exists>a. promises c (fst (ms ! j)) = Some a \<and> states c ! a = Waiting" if "j < length ms" for j
  proof -
    have "fst (ms ! j) \<in> set ks" using that assms(2) by (metis length_map nth_map nth_mem set_mset_mset)
    then obtain i where "i < length ks" "fst (ms ! j) = ks ! i" by (metis in_set_conv_nth)
    then show ?thesis using f(3) by auto
  qed
  then show "ready ms c" using d f(1) by (simp add: ready_def)
  show "length fs = length ks" by (rule f(2))
  show "i < length ks \<Longrightarrow> j < length ms \<Longrightarrow> fst (ms ! j) = ks ! i \<Longrightarrow> fs ! i = addr ms c j"
    using f(3) by (simp add: addr_def)
qed

text \<open>C39: Promises are kept under every interleaving of the senders.  The identifiers asked for are distinct and exactly
  one value is sent under each, every value by a thread of its own.  Then no thread ever fails, a thread that has not
  returned can take its next turn, and after ten turns of every thread all have returned and every future yields the
  value that was sent under its identifier.  This speaks of the runs in which no \<open>operator[]\<close> of the map overlaps with
  another call on it: there is such a run to the end, one sender after the other, but with two senders or more, as in
  the program, there is also a run into a data race, after which the language promises nothing.\<close>
theorem every_promise_is_kept:
  assumes "distinct ks" and "mset (map fst ms) = mset ks" and "get_futures ks new_connection = (fs, c)"
  shows "(\<forall>n s. sends ms c n s \<and> \<not> raced s \<longrightarrow>
      \<not> list_ex has_raised (pcs s) \<and> n \<le> 10 * length ms \<and> ((\<forall>pc \<in> set (pcs s). pc = Sent) \<longleftrightarrow> n = 10 * length ms) \<and>
      (\<forall>j < length ms. pcs s ! j \<noteq> Sent \<longrightarrow> send_turn ms j s \<noteq> None) \<and>
      (n = 10 * length ms \<longrightarrow> (\<forall>i < length ks. \<exists>v. (ks ! i, v) \<in> set ms \<and>
         future_get (Some (fs ! i)) (states (conn s)) = Some (Inr v)))) \<and>
    (\<exists>s. sends ms c (10 * length ms) s \<and> \<not> raced s) \<and>
    (2 \<le> length ms \<longrightarrow> (\<exists>n s. sends ms c n s \<and> raced s))"
proof -
  note f = futures_ready [OF assms]
  have "\<exists>v. (ks ! i, v) \<in> set ms \<and> future_get (Some (fs ! i)) (states (conn s)) = Some (Inr v)"
    if s: "sends ms c (10 * length ms) s" and i: "i < length ks" for s i
  proof -
    have "ks ! i \<in> fst ` set ms" using i assms(2) by (metis list.set_map mset_eq_setD nth_mem)
    then obtain j where j: "j < length ms" "fst (ms ! j) = ks ! i" by (auto simp: in_set_conv_nth)
    have "pcs s ! j = Sent"
      using sends_deliver(3) [OF f(1) s] j(1) sends_pc(2) [OF f(1) s j(1)] by (metis nth_mem)
    then have "states (conn s) ! addr ms c j = Stored (snd (ms ! j))"
      using sends_deliver(4) [OF f(1) s j(1)] by simp
    then show ?thesis
      using f(3) [OF i j] j by (intro exI [of _ "snd (ms ! j)"]) (auto simp: future_get_def in_set_conv_nth prod_eq_iff)
  qed
  moreover have "\<exists>s. sends ms c (10 * length ms) s \<and> \<not> raced s"
    using one_after_the_other [OF f(1), of "length ms"] sends_deliver(3) [OF f(1)] by fastforce
  moreover note sends_deliver(1,2,3,5) [OF f(1)]
  ultimately show ?thesis using two_senders_race [OF f(1)] by (intro conjI allI impI) blast+
qed

theorem every_promise_is_kept_witness:
  "\<exists>fs c s. get_futures [1, 2] new_connection = (fs, c) \<and> sends two_sends c 20 s \<and> \<not> raced s \<and>
     future_get (Some (fs ! 0)) (states (conn s)) = Some (Inr ''this is value 1'') \<and>
     future_get (Some (fs ! 1)) (states (conn s)) = Some (Inr ''this is value 2'')"
proof -
  obtain fs c where g: "get_futures [1, 2] new_connection = (fs, c)" by fastforce
  have "mset (map fst two_sends) = mset [1, 2 :: int]" by (simp add: two_sends_def)
  note kept = every_promise_is_kept [OF _ this g]
  have l: "length two_sends = 2" by (simp add: two_sends_def)
  obtain s where s: "sends two_sends c 20 s" "\<not> raced s" using kept by (auto simp: l)
  have "\<exists>v. ([1, 2 :: int] ! i, v) \<in> set two_sends \<and> future_get (Some (fs ! i)) (states (conn s)) = Some (Inr v)"
    if "i < 2" for i using kept s that by (auto simp: l)
  from this [of 0] this [of 1] show ?thesis using g s by (auto simp: two_sends_def)
qed

text \<open>The output of the program for two orders of the turns\<close>

lemma shown_ids: "show_int 1 = ''1''" "show_int 2 = ''2''"
  by code_simp+

lemma promise_main_prints:
  "promise_main (replicate 10 1 @ replicate 10 0) = Some (Inr (
     ''Data id = 2 data = this is value 2'' @ [LF] @ ''Data id = 1 data = this is value 1'' @ [LF] @
     ''recv data 1this is value 1'' @ [LF] @ ''recv data 2this is value 2'' @ [LF]))"
  "promise_main ([0, 1, 0, 1, 0, 1, 0, 1, 0, 1] @ replicate 5 0 @ replicate 5 1) = Some (Inr (
     ''Data id = Data id = 12 data =  data = this is value 1this is value 2'' @ [LF, LF] @
     ''recv data 1this is value 1'' @ [LF] @ ''recv data 2this is value 2'' @ [LF]))"
  by (simp_all add: promise_main_def get_future_def abandon_def new_connection_def two_sends_def senders_start_def send_turn_def
      data_pieces_def other_at_def set_value_def future_get_def erase_promise_def shown_ids eval_nat_numeral Let_def)

text \<open>What goes wrong is an error: a second value for the same promise is refused; asking twice for one identifier breaks
  the first future, as destroying the promise of a future without a value does; a value for an unknown identifier
  is only reported.  The exception of the task reaches the caller of \<^verbatim>\<open>get\<close>.\<close>
theorem broken_promises_are_errors:
  "(promises c k = Some a \<and> states c ! a \<noteq> Waiting \<longrightarrow> send_data v k c = Inl Already_Satisfied) \<and>
   (conn_ok c \<and> promises c k = Some a \<and> states c ! a = Waiting \<longrightarrow>
      future_get (Some a) (states (snd (get_future k c))) = Some (Inl Broken_Promise) \<and>
      (\<exists>c'. erase_promise k c = Inr c' \<and> future_get (Some a) (states c') = Some (Inl Broken_Promise))) \<and>
   (promises c k = None \<longrightarrow> (\<exists>c'. send_data v k c = Inr c' \<and> states c' = states c)) \<and>
   exception_main lib = Some (Inr (''exception = foo'' @ [LF]))"
proof -
  have "a < length (states c)" if "conn_ok c" "promises c k = Some a" using that by (auto simp: conn_ok_def)
  then show ?thesis
    by (auto simp: send_data_alone set_value_def Let_def get_future_def abandon_def nth_append future_get_def erase_promise_def
        exception_main_def task_function_def set_exception_def what_def)
qed

theorem broken_promises_are_errors_witness:
  "\<exists>c. send_data ''again'' 1 c = Inl Already_Satisfied \<and> promises c 1 = Some 0"
  using broken_promises_are_errors [of "\<lparr>states = [Stored ''v''], promises = [1 \<mapsto> 0], sent_out = []\<rparr>" 1 0 "''again''"]
  by (intro exI [of _ "\<lparr>states = [Stored ''v''], promises = [1 \<mapsto> 0], sent_out = []\<rparr>"]) simp

text \<open>The wait ends at the first wake-up that finds the condition true or the time over, and returns the condition.  In
  the program the condition is true from the start: it never waits and reports a time-out.\<close>
theorem wait_ends_at_the_first_reason:
  "(wait_loop False ws = None \<longleftrightarrow> (\<forall>(d, timeout) \<in> set ws. \<not> d \<and> \<not> timeout)) \<and>
   ((\<forall>(d, timeout) \<in> set us. \<not> d \<and> \<not> timeout) \<and> (d \<or> timeout) \<longrightarrow> wait_loop False (us @ (d, timeout) # ws) = Some d) \<and>
   duration_text True ws = Some (''time out is finished!'' @ [LF]) \<and> seconds_of 55802 = 55"
  using wait_loop_None wait_loop_Some by (auto simp: duration_text_def seconds_of_def)

theorem wait_ends_at_the_first_reason_witness:
  "wait_loop False [(False, False), (True, False)] = Some True"
  using wait_ends_at_the_first_reason [of "[]" "[(False, False)]" True False] by simp

end
