(* ===== verification/SelectClient.thy ===== *)
theory SelectClient
  imports SelectServer
begin

text \<open>
  The client of the server with \<^verbatim>\<open>select\<close>, \<^verbatim>\<open>select/client.c\<close>, and what its messages do to that server.

  A round of the loop is a function of its number and of what \<^verbatim>\<open>read\<close> returns: \<open>None\<close> when it fails, the empty text at the
  end of the connection.
\<close>

definition RECV_BUF :: nat where "RECV_BUF = 1024"

definition hello :: "nat \<Rightarrow> string" where
  "hello i = ''hello world: '' @ show_int (int i) @ [LF]"

text \<open>\<^verbatim>\<open>write(fd, recvBuf, strlen(recvBuf)+1)\<close>\<close>

definition client_send :: "nat \<Rightarrow> string" where
  "client_send i = cstr (hello i @ replicate (RECV_BUF - length (hello i)) NUL) @ [NUL]"

text \<open>\<^verbatim>\<open>read(fd, recvBuf, sizeof(recvBuf))\<close> writes over what \<^verbatim>\<open>sprintf\<close> left there.\<close>

definition client_read :: "nat \<Rightarrow> string option \<Rightarrow> string" where
  "client_read i reply = (let buf = hello i @ replicate (RECV_BUF - length (hello i)) NUL in
     case reply of None \<Rightarrow> buf | Some r \<Rightarrow> take RECV_BUF r @ drop (length r) buf)"

definition client_print :: "nat \<Rightarrow> string option \<Rightarrow> string result" where
  "client_print i reply = (let buf = client_read i reply in
     if NUL \<in> set buf then Inr (''recv buf: '' @ cstr buf @ [LF]) else Inl Out_Of_Bounds)"

fun client_rounds :: "nat \<Rightarrow> string option list \<Rightarrow> (string list \<times> string) result" where
  "client_rounds i [] = Inr ([], [])"
| "client_rounds i (r # rs) = rbind (client_print i r) (\<lambda>p. rbind (client_rounds (i + 1) rs) (\<lambda>(ms, ps).
     Inr (client_send i # ms, p @ ps)))"

lemma nat_digits_no_nul: "no_nul (nat_digits n)"
proof -
  have "c \<noteq> NUL" if "isdigit c" for c using that by (auto simp: isdigit_def ccode_def)
  then show ?thesis using nat_digits_isdigit [of _ n] unfolding no_nul_def by blast
qed

lemma hello_no_nul: "no_nul (hello i)"
  using nat_digits_no_nul by (simp add: hello_def show_int_def no_nul_def)

lemma hello_length:
  assumes "i < 2 ^ 31"
  shows "15 \<le> length (hello i)" "length (hello i) \<le> 24"
proof -
  have "i < 10 ^ Suc 9" using assms by simp
  then have "length (nat_digits i) \<le> Suc 9" by (rule length_nat_digits)
  moreover have "nat_digits i \<noteq> []" by (simp add: nat_digits.simps [of i])
  then have "Suc 0 \<le> length (nat_digits i)" by (simp add: Suc_le_eq)
  ultimately show "15 \<le> length (hello i)" "length (hello i) \<le> 24" by (simp_all add: hello_def show_int_def)
qed


lemma client_print_short:
  assumes i: "i < 2 ^ 31" and r: "no_nul r" "length r \<le> length (hello i)"
  shows "client_print i (Some r) = Inr (''recv buf: '' @ r @ drop (length r) (hello i) @ [LF])"
proof -
  let ?k = "RECV_BUF - length (hello i)"
  have len: "length (hello i) \<le> 24" using hello_length(2) [OF i] .
  then obtain k where k: "?k = Suc k" by (cases ?k) (auto simp: RECV_BUF_def)
  have no: "no_nul (r @ drop (length r) (hello i))"
    using r(1) hello_no_nul [of i] by (auto simp: no_nul_def dest: in_set_dropD)
  have buf: "client_read i (Some r) = (r @ drop (length r) (hello i)) @ NUL # replicate k NUL"
    using r(2) len k by (simp add: client_read_def Let_def RECV_BUF_def)
  show ?thesis
    unfolding client_print_def buf using no by (simp only: Let_def cstr_append_nul cstr_no_nul) simp
qed

text \<open>What the client shows: its message comes back as it was sent when the whole of it is echoed, but also when the
  connection has failed or ended; a shorter answer without a NUL is completed from the message; 1024 bytes
  without a NUL make \<^verbatim>\<open>printf\<close> read past the buffer.  Every message is longer than the buffer of the server: the ten bytes
  the server would read have no NUL, and its \<^verbatim>\<open>strlen\<close> reads past the end.\<close>
theorem client_cannot_tell_an_echo:
  assumes "i < 2 ^ 31"
  shows "client_send i = hello i @ [NUL] \<and>
    client_print i (Some (client_send i)) = Inr (''recv buf: '' @ hello i @ [LF]) \<and>
    client_print i None = Inr (''recv buf: '' @ hello i @ [LF]) \<and>
    client_print i (Some []) = Inr (''recv buf: '' @ hello i @ [LF]) \<and>
    (\<forall>r. no_nul r \<and> length r \<le> length (hello i) \<longrightarrow> client_print i (Some r) = Inr (''recv buf: '' @ r @ drop (length r) (hello i) @ [LF])) \<and>
    (\<forall>r. no_nul r \<and> length r = RECV_BUF \<longrightarrow> client_print i (Some r) = Inl Out_Of_Bounds) \<and>
    echo_reply (take 10 (client_send i)) = Inl Out_Of_Bounds"
proof (intro conjI allI impI)
  have send: "client_send i = hello i @ [NUL]" using hello_no_nul [of i] by (simp add: client_send_def)
  then show "client_send i = hello i @ [NUL]" .
  show empty: "client_print i (Some []) = Inr (''recv buf: '' @ hello i @ [LF])"
    using client_print_short [OF assms, of "[]"] by (simp add: no_nul_def)
  have len: "15 \<le> length (hello i)" "length (hello i) \<le> 24" using hello_length [OF assms] .
  then obtain k where k: "RECV_BUF - length (hello i) = Suc k" by (cases "RECV_BUF - length (hello i)") (auto simp: RECV_BUF_def)
  have "client_read i (Some (client_send i)) = client_read i (Some [])" "client_read i None = client_read i (Some [])"
    using len k by (simp_all add: client_read_def send Let_def RECV_BUF_def flip: replicate_Suc)
  then show "client_print i (Some (client_send i)) = Inr (''recv buf: '' @ hello i @ [LF])"
    "client_print i None = Inr (''recv buf: '' @ hello i @ [LF])"
    using empty by (simp_all add: client_print_def)
  show "client_print i (Some r) = Inr (''recv buf: '' @ r @ drop (length r) (hello i) @ [LF])"
    if "no_nul r \<and> length r \<le> length (hello i)" for r
    using client_print_short [OF assms] that by blast
  show "client_print i (Some r) = Inl Out_Of_Bounds" if "no_nul r \<and> length r = RECV_BUF" for r
    using that len by (simp add: client_print_def client_read_def Let_def no_nul_def RECV_BUF_def)
  have "no_nul (take 10 (client_send i))" "length (take 10 (client_send i)) = 10"
    using len hello_no_nul [of i] by (auto simp: send no_nul_def dest: in_set_takeD)
  then show "echo_reply (take 10 (client_send i)) = Inl Out_Of_Bounds" by (simp add: echo_reply_def no_nul_def)
qed

theorem client_cannot_tell_an_echo_witness:
  "client_print 7 (Some ''bye'') = Inr (''recv buf: byelo world: 7'' @ [LF, LF]) \<and>
   client_rounds 0 [None] = Inr ([hello 0 @ [NUL]], ''recv buf: hello world: 0'' @ [LF, LF])"
proof -
  have n: "show_int 7 = ''7''" "show_int 0 = ''0''" by code_simp+
  have "client_print 7 (Some ''bye'') = Inr (''recv buf: '' @ ''bye'' @ drop (length ''bye'') (hello 7) @ [LF])"
    by (rule mp [OF spec [OF conjunct1 [OF conjunct2 [OF conjunct2 [OF conjunct2 [OF conjunct2 [OF client_cannot_tell_an_echo [of 7]]]]]]]])
      (simp_all add: hello_def n no_nul_def)
  then show ?thesis using client_cannot_tell_an_echo [of 0] by (simp add: hello_def n)
qed

end
