(* ===== verification/Logger.thy ===== *)
theory Logger
  imports Prelude
begin

text \<open>
  The logger, \<^verbatim>\<open>logger/Logger.h\<close> and \<^verbatim>\<open>Logger.cpp\<close>.

  The state is the only instance of the class together with its output stream \<^verbatim>\<open>m_fout\<close> (the path it
  has open and its fail bit) and the files of the system.  Which paths can be opened and which renames
  succeed is up to the operating system and a parameter; time stamps are the texts \<^verbatim>\<open>strftime\<close> produces and
  are inputs, as is the text \<^verbatim>\<open>vsnprintf\<close> makes of the format and its arguments.
\<close>

section \<open>Levels\<close>

datatype level = DEBUG | INFO | WARN | ERROR | FATAL | LEVEL_COUNT

fun level_code :: "level \<Rightarrow> nat" where
  "level_code DEBUG = 0" | "level_code INFO = 1" | "level_code WARN = 2"
| "level_code ERROR = 3" | "level_code FATAL = 4" | "level_code LEVEL_COUNT = 5"

lemma level_code_inject: "level_code a = level_code b \<Longrightarrow> a = b"
  by (cases a; cases b) simp_all

instantiation level :: linorder
begin

definition less_eq_level :: "level \<Rightarrow> level \<Rightarrow> bool" where
  "less_eq_level a b \<longleftrightarrow> level_code a \<le> level_code b"

definition less_level :: "level \<Rightarrow> level \<Rightarrow> bool" where
  "less_level a b \<longleftrightarrow> level_code a < level_code b"

instance
  by standard (auto simp: less_eq_level_def less_level_def intro: level_code_inject)

end

definition s_level :: "level \<Rightarrow> string result" where
  "s_level l = (case l of
     DEBUG \<Rightarrow> Inr ''DEBUG'' | INFO \<Rightarrow> Inr ''INFO'' | WARN \<Rightarrow> Inr ''WARN''
   | ERROR \<Rightarrow> Inr ''ERROR'' | FATAL \<Rightarrow> Inr ''FATAL'' | LEVEL_COUNT \<Rightarrow> Inl Out_Of_Bounds)"

section \<open>State\<close>

record logger =
  log_filename :: string
  m_level :: level
  max_size :: int
  cur_size :: int
  opened :: "string option"
  fail_bit :: bool
  files :: "string \<Rightarrow> string option"

record log_os =
  may_open :: "string \<Rightarrow> bool"
  may_rename :: "string \<Rightarrow> string \<Rightarrow> bool"

definition new_logger :: "(string \<Rightarrow> string option) \<Rightarrow> logger" where
  "new_logger fs = \<lparr>log_filename = [], m_level = DEBUG, max_size = 0, cur_size = 0,
     opened = None, fail_bit = False, files = fs\<rparr>"

text \<open>\<^verbatim>\<open>getInstance\<close> creates the instance once.\<close>

definition get_instance :: "(string \<Rightarrow> string option) \<Rightarrow> logger option \<Rightarrow> logger" where
  "get_instance fs m_instance = (case m_instance of None \<Rightarrow> new_logger fs | Some l \<Rightarrow> l)"

definition set_level :: "level \<Rightarrow> logger \<Rightarrow> logger" where
  "set_level l s = s\<lparr>m_level := l\<rparr>"

definition set_log_max :: "int \<Rightarrow> logger \<Rightarrow> logger" where
  "set_log_max bytes s = s\<lparr>max_size := bytes\<rparr>"

section \<open>The stream\<close>

definition size_of_file :: "string \<Rightarrow> logger \<Rightarrow> nat" where
  "size_of_file path s = (case files s path of None \<Rightarrow> 0 | Some t \<Rightarrow> length t)"

text \<open>Opening for appending creates the file; opening an open stream fails.\<close>

definition log_open :: "log_os \<Rightarrow> string \<Rightarrow> logger \<Rightarrow> logger result" where
  "log_open os filename s =
     (let s1 = s\<lparr>log_filename := filename\<rparr> in
      if opened s1 \<noteq> None \<or> \<not> may_open os filename then Inl Logic_Error
      else let s2 = s1\<lparr>opened := Some filename, fail_bit := False,
             files := (files s1)(filename := Some (case files s1 filename of None \<Rightarrow> [] | Some t \<Rightarrow> t))\<rparr>
           in Inr (s2\<lparr>cur_size := int (size_of_file filename s2)\<rparr>))"

definition log_close :: "logger \<Rightarrow> logger" where
  "log_close s = (case opened s of None \<Rightarrow> s\<lparr>fail_bit := True\<rparr> | Some _ \<Rightarrow> s\<lparr>opened := None\<rparr>)"

definition write_out :: "string \<Rightarrow> logger \<Rightarrow> logger" where
  "write_out t s =
     (if fail_bit s then s
      else (case opened s of
        None \<Rightarrow> s\<lparr>fail_bit := True\<rparr>
      | Some p \<Rightarrow> s\<lparr>files := (files s)(p := Some ((case files s p of None \<Rightarrow> [] | Some c \<Rightarrow> c) @ t))\<rparr>))"

section \<open>Writing and rotating\<close>

text \<open>\<^verbatim>\<open>rename\<close> replaces a file that has the new name.\<close>

definition rotate_log :: "log_os \<Rightarrow> string \<Rightarrow> logger \<Rightarrow> logger result" where
  "rotate_log os timestamp s =
     (let s1 = log_close s; filename = log_filename s1 @ timestamp in
      case files s1 (log_filename s1) of
        None \<Rightarrow> Inl Logic_Error
      | Some t \<Rightarrow>
          if \<not> may_rename os (log_filename s1) filename then Inl Logic_Error
          else log_open os (log_filename s1)
            (s1\<lparr>files := (files s1)(log_filename s1 := None, filename := Some t)\<rparr>))"

definition log_header :: "string \<Rightarrow> string \<Rightarrow> string \<Rightarrow> int \<Rightarrow> string" where
  "log_header timestamp lvl file line =
     timestamp @ '' '' @ lvl @ '' '' @ file @ '':'' @ show_int line @ '' ''"

record log_call =
  c_level :: level
  c_file :: string
  c_line :: int
  c_content :: string
  c_time :: string
  c_rotate_time :: string

definition log_write :: "log_os \<Rightarrow> log_call \<Rightarrow> logger \<Rightarrow> logger result" where
  "log_write os c s =
     (if m_level s \<ge> c_level c then Inr s
      else if fail_bit s then Inl Logic_Error
      else rbind (s_level (c_level c)) (\<lambda>lvl.
        let header = log_header (c_time c) lvl (c_file c) (c_line c);
            s1 = (if header \<noteq> [] then
                    (write_out (header @ '' '') s)\<lparr>cur_size := cur_size s + int (length header)\<rparr>
                  else s);
            s2 = (if c_content c \<noteq> [] then
                    (write_out (c_content c) s1)\<lparr>cur_size := cur_size s1 + int (length (c_content c))\<rparr>
                  else s1);
            s3 = write_out [LF] s2
        in if cur_size s3 \<ge> max_size s3 \<and> max_size s3 > 0 then rotate_log os (c_rotate_time c) s3
           else Inr s3))"

fun log_all :: "log_os \<Rightarrow> log_call list \<Rightarrow> logger \<Rightarrow> logger result" where
  "log_all os [] s = Inr s"
| "log_all os (c # cs) s = rbind (log_write os c s) (log_all os cs)"

section \<open>What one call does\<close>

definition level_name :: "level \<Rightarrow> string" where
  "level_name l = (case s_level l of Inr n \<Rightarrow> n | Inl _ \<Rightarrow> [])"

text \<open>The line a recorded call leaves in the file\<close>

definition log_line :: "log_call \<Rightarrow> string" where
  "log_line c = log_header (c_time c) (level_name (c_level c)) (c_file c) (c_line c) @ '' '' @ c_content c @ [LF]"

definition counted :: "log_call \<Rightarrow> int" where
  "counted c = int (length (log_line c)) - 2"

definition recorded :: "level \<Rightarrow> log_call \<Rightarrow> bool" where
  "recorded l c \<longleftrightarrow> l < c_level c"

definition ready :: "string \<Rightarrow> logger \<Rightarrow> bool" where
  "ready p s \<longleftrightarrow> opened s = Some p \<and> log_filename s = p \<and> \<not> fail_bit s \<and> files s p \<noteq> None"

lemma log_header_not_Nil: "log_header ts l f n \<noteq> []"
  by (simp add: log_header_def)

lemma s_level_name: "l \<noteq> LEVEL_COUNT \<Longrightarrow> s_level l = Inr (level_name l)"
  by (cases l) (simp_all add: s_level_def level_name_def)

lemma write_out_ready:
  "ready p s \<Longrightarrow> files s p = Some t \<Longrightarrow> write_out u s = s\<lparr>files := (files s)(p \<mapsto> t @ u)\<rparr>"
  by (simp add: write_out_def ready_def)

lemma log_write_skips: "\<not> recorded (m_level s) c \<Longrightarrow> log_write os c s = Inr s"
  by (simp add: log_write_def recorded_def not_less)

definition appended :: "string \<Rightarrow> string \<Rightarrow> log_call \<Rightarrow> logger \<Rightarrow> logger" where
  "appended p t c s = s\<lparr>cur_size := cur_size s + counted c, files := (files s)(p \<mapsto> t @ log_line c)\<rparr>"

lemma log_write_recorded:
  assumes "ready p s" "files s p = Some t" "recorded (m_level s) c" "c_level c \<noteq> LEVEL_COUNT"
  shows "log_write os c s =
    (if max_size s \<le> cur_size s + counted c \<and> 0 < max_size s
     then rotate_log os (c_rotate_time c) (appended p t c s) else Inr (appended p t c s))"
proof -
  let ?h = "log_header (c_time c) (level_name (c_level c)) (c_file c) (c_line c)"
  let ?s1 = "(write_out (?h @ '' '') s)\<lparr>cur_size := cur_size s + int (length ?h)\<rparr>"
  let ?s2 = "if c_content c \<noteq> [] then
      (write_out (c_content c) ?s1)\<lparr>cur_size := cur_size ?s1 + int (length (c_content c))\<rparr> else ?s1"
  have nf: "\<not> fail_bit s" "opened s = Some p" using assms(1) by (simp_all add: ready_def)
  have s1: "?s1 = s\<lparr>cur_size := cur_size s + int (length ?h), files := (files s)(p \<mapsto> t @ ?h @ '' '')\<rparr>"
    using write_out_ready [OF assms(1,2)] by simp
  have s2: "?s2 = s\<lparr>cur_size := cur_size s + int (length ?h) + int (length (c_content c)),
      files := (files s)(p \<mapsto> t @ ?h @ '' '' @ c_content c)\<rparr>"
    unfolding s1 using nf by (auto simp: write_out_def)
  have s3: "write_out [LF] ?s2 = appended p t c s"
    unfolding s2 using nf by (simp add: write_out_def appended_def log_line_def counted_def)
  have "log_write os c s = (if cur_size (write_out [LF] ?s2) \<ge> max_size (write_out [LF] ?s2) \<and> max_size (write_out [LF] ?s2) > 0
      then rotate_log os (c_rotate_time c) (write_out [LF] ?s2) else Inr (write_out [LF] ?s2))"
  proof -
    have "(c_level c \<le> m_level s) = False" using assms(3) by (auto simp: recorded_def)
    then show ?thesis
      using nf(1) log_header_not_Nil
      by (simp only: log_write_def s_level_name [OF assms(4)] rbind_Inr Let_def if_False if_True simp_thms)
  qed
  also have "\<dots> = (if max_size s \<le> cur_size s + counted c \<and> 0 < max_size s
     then rotate_log os (c_rotate_time c) (appended p t c s) else Inr (appended p t c s))"
    unfolding s3 by (simp add: appended_def)
  finally show ?thesis .
qed

lemma rotate_ready:
  assumes "ready p s" "files s p = Some t" "may_open os p" "may_rename os p (p @ ts)" "ts \<noteq> []"
  shows "rotate_log os ts s = Inr (s\<lparr>cur_size := 0, files := (files s)(p @ ts \<mapsto> t, p \<mapsto> [])\<rparr>)"
  using assms
  by (auto simp: rotate_log_def log_close_def log_open_def Let_def ready_def size_of_file_def fun_upd_twist
      intro!: logger.equality)

section \<open>A run of calls\<close>

text \<open>The surroundings in which every opening and renaming succeeds and no two rotations share a time stamp\<close>

definition good_run :: "log_os \<Rightarrow> string \<Rightarrow> logger \<Rightarrow> log_call list \<Rightarrow> bool" where
  "good_run os p s cs \<longleftrightarrow> ready p s \<and> may_open os p \<and> distinct (map c_rotate_time cs)
     \<and> (\<forall>c \<in> set cs. c_rotate_time c \<noteq> [] \<and> files s (p @ c_rotate_time c) = None
          \<and> may_rename os p (p @ c_rotate_time c) \<and> c_level c \<noteq> LEVEL_COUNT)"

lemma good_run_step:
  assumes "good_run os p s (c # cs)" "files s p = Some t"
  shows "\<exists>s1. log_write os c s = Inr s1 \<and> good_run os p s1 cs \<and> m_level s1 = m_level s \<and> max_size s1 = max_size s
    \<and> (s1 = s \<and> \<not> recorded (m_level s) c
       \<or> s1 = appended p t c s \<and> recorded (m_level s) c \<and> (max_size s > 0 \<longrightarrow> cur_size s1 < max_size s)
       \<or> s1 = s\<lparr>cur_size := 0, files := (files s)(p @ c_rotate_time c \<mapsto> t @ log_line c, p \<mapsto> [])\<rparr>
         \<and> recorded (m_level s) c \<and> max_size s > 0)"
proof (cases "recorded (m_level s) c")
  case False
  then show ?thesis using assms log_write_skips [OF False, of os] by (simp add: good_run_def)
next
  case True
  have r: "ready p s" "c_level c \<noteq> LEVEL_COUNT" "may_open os p" "may_rename os p (p @ c_rotate_time c)" "c_rotate_time c \<noteq> []"
    using assms(1) by (simp_all add: good_run_def)
  note w = log_write_recorded [OF r(1) assms(2) True r(2), of os]
  have a: "ready p (appended p t c s)" "files (appended p t c s) p = Some (t @ log_line c)"
    using r(1) by (simp_all add: ready_def appended_def)
  show ?thesis
  proof (cases "max_size s \<le> cur_size s + counted c \<and> 0 < max_size s")
    case rot: True
    let ?s1 = "s\<lparr>cur_size := 0, files := (files s)(p @ c_rotate_time c \<mapsto> t @ log_line c, p \<mapsto> [])\<rparr>"
    have "log_write os c s = Inr ?s1"
      using w rot rotate_ready [OF a r(3-5)] r(5) by (simp add: appended_def fun_upd_twist)
    moreover have "c_rotate_time x \<noteq> c_rotate_time c" if "x \<in> set cs" for x
      using assms(1) imageI [OF that, of c_rotate_time] by (auto simp: good_run_def)
    then have "good_run os p ?s1 cs" using assms(1) by (simp add: good_run_def ready_def)
    ultimately show ?thesis using True rot by simp
  next
    case False
    then have "log_write os c s = Inr (appended p t c s)" using w by auto
    moreover have "good_run os p (appended p t c s) cs"
      using assms(1) a(1) by (auto simp: good_run_def appended_def)
    moreover have "max_size s > 0 \<longrightarrow> cur_size (appended p t c s) < max_size s"
      using False by (auto simp: appended_def)
    ultimately show ?thesis using True by (auto simp: appended_def)
  qed
qed

text \<open>The text of the archived files and of the active one, in the order in which it was written\<close>

definition whole_log :: "string \<Rightarrow> string list \<Rightarrow> logger \<Rightarrow> string" where
  "whole_log p names s = concat (map (\<lambda>n. the (files s (p @ n))) names) @ the (files s p)"

definition size_bound :: "string \<Rightarrow> logger \<Rightarrow> nat \<Rightarrow> bool" where
  "size_bound p s k \<longleftrightarrow> (max_size s > 0 \<longrightarrow> cur_size s < max_size s)
     \<and> int (length (the (files s p))) \<le> cur_size s + 2 * int k"

lemma log_all_run:
  "good_run os p s cs \<Longrightarrow> set names \<inter> c_rotate_time ` set cs = {} \<Longrightarrow> [] \<notin> set names \<Longrightarrow> size_bound p s k \<Longrightarrow>
   \<exists>s' names'. log_all os cs s = Inr s' \<and> ready p s' \<and> max_size s' = max_size s
     \<and> set names' \<subseteq> c_rotate_time ` set cs
     \<and> whole_log p (names @ names') s' = whole_log p names s @ concat (map log_line (filter (recorded (m_level s)) cs))
     \<and> size_bound p s' (k + length (filter (recorded (m_level s)) cs))"
proof (induction cs arbitrary: s names k)
  case Nil
  then show ?case by (auto simp: good_run_def)
next
  case (Cons c cs)
  obtain t where t: "files s p = Some t" using Cons.prems(1) by (auto simp: good_run_def ready_def)
  obtain s1 where s1: "log_write os c s = Inr s1" "good_run os p s1 cs" "m_level s1 = m_level s" "max_size s1 = max_size s"
    and cases: "s1 = s \<and> \<not> recorded (m_level s) c
       \<or> s1 = appended p t c s \<and> recorded (m_level s) c \<and> (max_size s > 0 \<longrightarrow> cur_size s1 < max_size s)
       \<or> s1 = s\<lparr>cur_size := 0, files := (files s)(p @ c_rotate_time c \<mapsto> t @ log_line c, p \<mapsto> [])\<rparr>
         \<and> recorded (m_level s) c \<and> max_size s > 0"
    using good_run_step [OF Cons.prems(1) t] by blast
  have fresh: "c_rotate_time c \<notin> set names" "set names \<inter> c_rotate_time ` set cs = {}" "c_rotate_time c \<noteq> []"
    "c_rotate_time c \<notin> c_rotate_time ` set cs"
    using Cons.prems(1,2) by (auto simp: good_run_def)
  show ?case
    using cases
  proof (elim disjE conjE)
    assume a: "s1 = s" "\<not> recorded (m_level s) c"
    obtain s' names' where "log_all os cs s1 = Inr s'" "ready p s'" "max_size s' = max_size s1"
      "set names' \<subseteq> c_rotate_time ` set cs"
      "whole_log p (names @ names') s' = whole_log p names s1 @ concat (map log_line (filter (recorded (m_level s1)) cs))"
      "size_bound p s' (k + length (filter (recorded (m_level s1)) cs))"
      using Cons.IH [OF s1(2) fresh(2) Cons.prems(3), of k] Cons.prems(4) a(1) by auto
    then show ?thesis using s1(1) a by (intro exI [of _ s'] exI [of _ names']) auto
  next
    assume a: "s1 = appended p t c s" "recorded (m_level s) c" "max_size s > 0 \<longrightarrow> cur_size s1 < max_size s"
    have w: "whole_log p names s1 = whole_log p names s @ log_line c"
      using Cons.prems(3) t unfolding a(1) whole_log_def
      by (auto simp: appended_def intro!: arg_cong [where f = concat])
    have b: "size_bound p s1 (Suc k)"
      using Cons.prems(4) a t by (auto simp: size_bound_def appended_def counted_def)
    obtain s' names' where "log_all os cs s1 = Inr s'" "ready p s'" "max_size s' = max_size s1"
      "set names' \<subseteq> c_rotate_time ` set cs"
      "whole_log p (names @ names') s' = (whole_log p names s @ log_line c) @ concat (map log_line (filter (recorded (m_level s1)) cs))"
      "size_bound p s' (Suc k + length (filter (recorded (m_level s1)) cs))"
      using Cons.IH [OF s1(2) fresh(2) Cons.prems(3) b] w by auto
    then show ?thesis using s1 a(2) by (intro exI [of _ s'] exI [of _ names']) auto
  next
    assume a: "s1 = s\<lparr>cur_size := 0, files := (files s)(p @ c_rotate_time c \<mapsto> t @ log_line c, p \<mapsto> [])\<rparr>"
      "recorded (m_level s) c" "max_size s > 0"
    let ?names = "names @ [c_rotate_time c]"
    have "whole_log p ?names s1 = whole_log p names s @ log_line c"
      using Cons.prems(3) t fresh(1,3) unfolding a(1) whole_log_def
      by (auto intro!: arg_cong [where f = concat])
    moreover have "size_bound p s1 (Suc k)" using a by (simp add: size_bound_def)
    moreover have "set ?names \<inter> c_rotate_time ` set cs = {}" "[] \<notin> set ?names" using fresh Cons.prems(3) by auto
    ultimately obtain s' names' where r: "log_all os cs s1 = Inr s'" "ready p s'" "max_size s' = max_size s1"
      "set names' \<subseteq> c_rotate_time ` set cs"
      "whole_log p (?names @ names') s' = (whole_log p names s @ log_line c) @ concat (map log_line (filter (recorded (m_level s1)) cs))"
      "size_bound p s' (Suc k + length (filter (recorded (m_level s1)) cs))"
      using Cons.IH [OF s1(2), of ?names "Suc k"] by auto
    show ?thesis
      using r s1 a(2) by (intro exI [of _ s'] exI [of _ "c_rotate_time c # names'"]) auto
  qed
qed

section \<open>Properties\<close>

text \<open>C28: Rotation neither loses nor reorders messages.  Suppose the log file is open, exists and holds as many bytes as the
  logger counts; the size limit is positive and not yet reached; every file can be opened and renamed; and the time stamps of
  the calls give archive names that differ from each other and do not exist yet; no call uses \<^verbatim>\<open>LEVEL_COUNT\<close> as its level.  Then a run of calls leaves, in the archived
  files followed by the active one, what was there before and after it exactly the lines of the calls whose level is greater
  than the level set, in the order of the calls; and the active file stays below the configured size up to the two bytes per
  line that the logger does not count.  A call at the very level set is not recorded: after
  \<^verbatim>\<open>setLevel(INFO)\<close> the messages of level \<^verbatim>\<open>INFO\<close> are dropped, against the comment in \<^verbatim>\<open>main.cpp\<close>.\<close>

theorem rotation_keeps_every_message:
  assumes "good_run os p s cs" "files s p = Some t" "cur_size s = int (length t)"
    and "0 < max_size s" "cur_size s < max_size s"
  shows "\<exists>s' names. log_all os cs s = Inr s' \<and> set names \<subseteq> c_rotate_time ` set cs
    \<and> concat (map (\<lambda>n. the (files s' (p @ n))) names) @ the (files s' p)
        = t @ concat (map log_line (filter (recorded (m_level s)) cs))
    \<and> int (length (the (files s' p))) < max_size s + 2 * int (length (filter (recorded (m_level s)) cs))"
proof -
  have "size_bound p s 0" using assms(2-5) by (simp add: size_bound_def)
  then obtain s' names where r: "log_all os cs s = Inr s'" "max_size s' = max_size s" "set names \<subseteq> c_rotate_time ` set cs"
    "whole_log p names s' = whole_log p [] s @ concat (map log_line (filter (recorded (m_level s)) cs))"
    "size_bound p s' (length (filter (recorded (m_level s)) cs))"
    using log_all_run [OF assms(1), of "[]" 0] by auto
  then show ?thesis
    using assms(2,4) by (intro exI [of _ s'] exI [of _ names]) (auto simp: whole_log_def size_bound_def)
qed

definition demo_log_os :: log_os where
  "demo_log_os = \<lparr>may_open = (\<lambda>_. True), may_rename = (\<lambda>_ _. True)\<rparr>"

definition demo_logger :: logger where
  "demo_logger = \<lparr>log_filename = ''l'', m_level = INFO, max_size = 10, cur_size = 0, opened = Some ''l'',
     fail_bit = False, files = [''l'' \<mapsto> []]\<rparr>"

definition demo_call :: "level \<Rightarrow> string \<Rightarrow> log_call" where
  "demo_call l rt = \<lparr>c_level = l, c_file = ''f'', c_line = 1, c_content = ''x'', c_time = ''12:00:00'', c_rotate_time = rt\<rparr>"

lemma new_file_opened:
  "may_open os p \<Longrightarrow> log_open os p (new_logger (\<lambda>_. None)) = Inr (new_logger (\<lambda>_. None)
     \<lparr>log_filename := p, opened := Some p, files := [p \<mapsto> []]\<rparr>)"
  by (simp add: log_open_def new_logger_def size_of_file_def Let_def)

theorem rotation_keeps_every_message_witness:
  "\<exists>s' names. log_all demo_log_os [demo_call WARN ''1'', demo_call INFO ''2'', demo_call ERROR ''3''] demo_logger = Inr s'
    \<and> concat (map (\<lambda>n. the (files s' (''l'' @ n))) names) @ the (files s' ''l'')
        = log_line (demo_call WARN ''1'') @ log_line (demo_call ERROR ''3'')"
  using rotation_keeps_every_message [of demo_log_os "''l''" demo_logger
      "[demo_call WARN ''1'', demo_call INFO ''2'', demo_call ERROR ''3'']" "[]"]
  by (auto simp: good_run_def ready_def demo_log_os_def demo_logger_def demo_call_def recorded_def less_level_def)

text \<open>Two rotations within one second lose a message: the second renaming replaces the file the first one
  archived, so the line of the first call is in no file afterwards.\<close>

theorem rotations_in_one_second_lose_messages:
  assumes "ready p s" "files s p = Some t" "may_open os p" "may_rename os p (p @ ts)" "ts \<noteq> []"
    and "0 < max_size s" "max_size s \<le> cur_size s + counted c1" "max_size s \<le> counted c2"
    and "recorded (m_level s) c1" "recorded (m_level s) c2" "c_level c1 \<noteq> LEVEL_COUNT" "c_level c2 \<noteq> LEVEL_COUNT"
    and "c_rotate_time c1 = ts" "c_rotate_time c2 = ts"
  shows "\<exists>s1 s2. log_write os c1 s = Inr s1 \<and> files s1 (p @ ts) = Some (t @ log_line c1)
    \<and> log_write os c2 s1 = Inr s2 \<and> files s2 = (files s)(p @ ts \<mapsto> log_line c2, p \<mapsto> [])"
proof -
  have a: "ready p (appended p t c1 s)" "files (appended p t c1 s) p = Some (t @ log_line c1)"
    using assms(1) by (simp_all add: ready_def appended_def)
  let ?s1 = "s\<lparr>cur_size := 0, files := (files s)(p @ ts \<mapsto> t @ log_line c1, p \<mapsto> [])\<rparr>"
  have 1: "log_write os c1 s = Inr ?s1"
    using log_write_recorded [OF assms(1,2,9,11), of os] rotate_ready [OF a assms(3-5)] assms(5-7,13)
    by (simp add: appended_def fun_upd_twist)
  have r1: "ready p ?s1" "files ?s1 p = Some []" using assms(1) by (simp_all add: ready_def)
  have b: "ready p (appended p [] c2 ?s1)" "files (appended p [] c2 ?s1) p = Some (log_line c2)"
    using r1 by (simp_all add: ready_def appended_def)
  have rec: "recorded (m_level ?s1) c2" using assms(10) by simp
  have 2: "log_write os c2 ?s1 = Inr (?s1\<lparr>files := (files s)(p @ ts \<mapsto> log_line c2, p \<mapsto> [])\<rparr>)"
    using log_write_recorded [OF r1 rec assms(12), of os] rotate_ready [OF b assms(3-5)] assms(5,6,8,14)
    by (simp add: appended_def fun_upd_twist)
  show ?thesis using 1 2 assms(5) by (intro exI [of _ ?s1] exI conjI) auto
qed

theorem rotations_in_one_second_lose_messages_witness:
  "\<exists>s1 s2. log_write demo_log_os (demo_call WARN ''1'') demo_logger = Inr s1
    \<and> log_write demo_log_os (demo_call ERROR ''1'') s1 = Inr s2
    \<and> files s2 = [''l1'' \<mapsto> log_line (demo_call ERROR ''1''), ''l'' \<mapsto> []]"
  using rotations_in_one_second_lose_messages [of "''l''" demo_logger "[]" demo_log_os "''1''" "demo_call WARN ''1''" "demo_call ERROR ''1''"]
  by (auto simp: ready_def demo_log_os_def demo_logger_def demo_call_def recorded_def less_level_def fun_upd_twist
      counted_def log_line_def log_header_def)

end
