(* ===== verification/Timers.thy ===== *)
theory Timers
  imports Prelude "HOL-Library.Multiset"
begin

text \<open>
  The two timers of the directory \<^verbatim>\<open>Timer\<close>.

  Version 2: a timer is a record, the manager's \<^verbatim>\<open>multimap\<close> the list of its entries in the order of the
  keys; an iterator is an index.  A run of \<^verbatim>\<open>update\<close> collects the calls it makes, each with the time it was
  due.  The loop need not end, so it is a partial function.

  Version 1: the thread of one timer; the values it reads from \<^verbatim>\<open>m_active\<close> are an input, because another
  thread may stop the timer at any moment, and the result is the number of calls.
\<close>

section \<open>Version 2: timers\<close>

record 'f timer =
  m_time :: int
  m_func :: "'f option"
  m_period :: int
  m_repeat :: int

definition new_timer :: "int \<Rightarrow> int \<Rightarrow> 'f timer" where
  "new_timer now n = \<lparr>m_time = now, m_func = None, m_period = 0, m_repeat = n\<rparr>"

definition callback :: "int \<Rightarrow> 'f \<Rightarrow> 'f timer \<Rightarrow> 'f timer" where
  "callback milliseconds f t = t\<lparr>m_period := milliseconds, m_func := Some f\<rparr>"

text \<open>The timer afterwards and the call made\<close>

definition on_timer :: "'f timer \<Rightarrow> 'f timer \<times> (int \<times> 'f) list" where
  "on_timer t = (case m_func t of
     None \<Rightarrow> (t, [])
   | Some f \<Rightarrow>
       if m_repeat t = 0 then (t, [])
       else (let t1 = t\<lparr>m_time := m_time t + m_period t\<rparr>
             in (if m_repeat t1 > 0 then t1\<lparr>m_repeat := m_repeat t1 - 1\<rparr> else t1, [(m_time t, f)])))"

section \<open>Version 2: the manager\<close>

text \<open>\<^verbatim>\<open>insert\<close> puts an entry behind the entries with the same key and returns its position.\<close>

fun multimap_insert :: "int \<Rightarrow> 'a \<Rightarrow> (int \<times> 'a) list \<Rightarrow> nat \<times> (int \<times> 'a) list" where
  "multimap_insert k v [] = (0, [(k, v)])"
| "multimap_insert k v ((k', v') # m) =
     (if k < k' then (0, (k, v) # (k', v') # m)
      else (case multimap_insert k v m of (p, m') \<Rightarrow> (p + 1, (k', v') # m')))"

definition schedule :: "int \<Rightarrow> int \<Rightarrow> int \<Rightarrow> 'f \<Rightarrow> (int \<times> 'f timer) list \<Rightarrow> (int \<times> 'f timer) list" where
  "schedule now milliseconds n f m_timers =
     (let t = callback milliseconds f (new_timer now n)
      in snd (multimap_insert (m_time t) t m_timers))"

definition schedule_forever :: "int \<Rightarrow> int \<Rightarrow> 'f \<Rightarrow> (int \<times> 'f timer) list \<Rightarrow> (int \<times> 'f timer) list" where
  "schedule_forever now milliseconds f m_timers = schedule now milliseconds (-1) f m_timers"

text \<open>The body of the loop for the entry at position \<open>i\<close>: the new position, the new entries, the calls.
  Inserting in front of the iterator moves the entry it points to one place on.\<close>

definition update_entry :: "nat \<Rightarrow> (int \<times> 'f timer) list \<Rightarrow> nat \<times> (int \<times> 'f timer) list \<times> (int \<times> 'f) list" where
  "update_entry i m =
     (case on_timer (snd (m ! i)) of (t, calls) \<Rightarrow>
        let m1 = take i m @ drop (Suc i) m in
        if m_repeat t \<noteq> 0 then
          (case multimap_insert (m_time t) t m1 of (p, m2) \<Rightarrow>
             let i2 = (if p \<le> i then i + 1 else i) in
             (if i = length m1 \<or> m_time t < fst (m1 ! i) then p else i2, m2, calls))
        else (i, m1, calls))"

partial_function (option) update_loop ::
  "int \<Rightarrow> nat \<Rightarrow> (int \<times> 'f timer) list \<Rightarrow> (int \<times> 'f) list \<Rightarrow> ((int \<times> 'f timer) list \<times> (int \<times> 'f) list) option" where
  "update_loop now i m calls =
     (if length m \<le> i \<or> now < fst (m ! i) then Some (m, calls)
      else (case update_entry i m of (i', m', new_calls) \<Rightarrow> update_loop now i' m' (calls @ new_calls)))"

definition update_timers :: "int \<Rightarrow> (int \<times> 'f timer) list \<Rightarrow> ((int \<times> 'f timer) list \<times> (int \<times> 'f) list) option" where
  "update_timers now m_timers = (if m_timers = [] then Some (m_timers, []) else update_loop now 0 m_timers [])"

section \<open>Version 1\<close>

record timer1 =
  t1_active :: bool
  t1_period :: int
  t1_repeat :: int

definition new_timer1 :: "int \<Rightarrow> timer1" where
  "new_timer1 n = \<lparr>t1_active = False, t1_period = 0, t1_repeat = n\<rparr>"

text \<open>The thread's loops; \<open>loads\<close> are the values read from \<^verbatim>\<open>m_active\<close>.\<close>

fun forever_loop :: "bool list \<Rightarrow> nat" where
  "forever_loop (a # b # loads) = (if a then if b then 1 + forever_loop loads else 0 else 0)"
| "forever_loop _ = 0"

fun repeat_loop :: "nat \<Rightarrow> bool list \<Rightarrow> nat \<times> nat" where
  "repeat_loop (Suc n) (a # b # loads) =
     (if \<not> a then (0, Suc n)
      else if \<not> b then (1, Suc n)
      else (case repeat_loop n loads of (calls, left) \<Rightarrow> (2 + calls, left)))"
| "repeat_loop (Suc n) [a] = (if a then 1 else 0, Suc n)"
| "repeat_loop n _ = (0, n)"

text \<open>\<^verbatim>\<open>start\<close>: the state it leaves, and the calls of the thread it starts\<close>

definition start1 :: "int \<Rightarrow> bool list \<Rightarrow> timer1 \<Rightarrow> timer1 \<times> nat" where
  "start1 milliseconds loads t =
     (if t1_active t then (t, 0)
      else (let t' = t\<lparr>t1_period := milliseconds, t1_active := True\<rparr> in
            if t1_repeat t < 0 then (t', forever_loop loads)
            else (case repeat_loop (nat (t1_repeat t)) loads of (calls, left) \<Rightarrow>
                    (t'\<lparr>t1_repeat := int left\<rparr>, calls))))"

definition stop1 :: "timer1 \<Rightarrow> timer1" where
  "stop1 t = t\<lparr>t1_active := False\<rparr>"

section \<open>Entries of the manager\<close>

definition entry_fine :: "int \<times> 'f timer \<Rightarrow> bool" where
  "entry_fine e \<longleftrightarrow> fst e = m_time (snd e) \<and> m_func (snd e) \<noteq> None \<and> 0 < m_period (snd e)"

definition manager_ok :: "(int \<times> 'f timer) list \<Rightarrow> bool" where
  "manager_ok m \<longleftrightarrow> sorted (map fst m) \<and> (\<forall>e \<in> set m. entry_fine e)"

lemma mset_multimap_insert: "mset (snd (multimap_insert k v m)) = add_mset (k, v) (mset m)"
  by (induction k v m rule: multimap_insert.induct) (auto split: prod.splits)

lemma set_multimap_insert: "set (snd (multimap_insert k v m)) = insert (k, v) (set m)"
  using arg_cong [OF mset_multimap_insert, of set_mset] by simp

lemma sorted_multimap_insert: "sorted (map fst m) \<Longrightarrow> sorted (map fst (snd (multimap_insert k v m)))"
proof (induction k v m rule: multimap_insert.induct)
  case (2 k v k' v' m)
  then show ?case
    using set_multimap_insert [of k v m]
    by (cases "multimap_insert k v m") (auto simp: not_less)
qed simp

lemma position_multimap_insert: "fst (multimap_insert k v m) = 0 \<longleftrightarrow> m = [] \<or> k < fst (hd m)"
  by (cases "(k, v, m)" rule: multimap_insert.cases) (auto split: prod.splits)

text \<open>The iterator never leaves the first entry.\<close>

lemma update_entry_first:
  "update_entry 0 (e # m) = (case on_timer (snd e) of (t, calls) \<Rightarrow>
     (0, if m_repeat t \<noteq> 0 then snd (multimap_insert (m_time t) t m) else m, calls))"
proof -
  obtain t calls where t: "on_timer (snd e) = (t, calls)" by fastforce
  obtain p m2 where p: "multimap_insert (m_time t) t m = (p, m2)" by fastforce
  have "p = 0 \<longleftrightarrow> m = [] \<or> m_time t < fst (m ! 0)"
    using position_multimap_insert [of "m_time t" t m] p by (cases m) auto
  then show ?thesis by (auto simp: update_entry_def t p Let_def)
qed

lemma update_loop_first:
  "update_loop now 0 [] calls = Some ([], calls)"
  "update_loop now 0 (e # m) calls = (if now < fst e then Some (e # m, calls)
     else (case on_timer (snd e) of (t, new) \<Rightarrow>
       update_loop now 0 (if m_repeat t \<noteq> 0 then snd (multimap_insert (m_time t) t m) else m) (calls @ new)))"
  by (subst update_loop.simps; simp add: update_entry_first split: prod.split)+

section \<open>The calls that are due\<close>

definition fires :: "int \<Rightarrow> 'f timer \<Rightarrow> nat" where
  "fires now t =
     (if now < m_time t \<or> m_repeat t = 0 then 0
      else (let k = nat ((now - m_time t) div m_period t) + 1
            in if m_repeat t < 0 then k else min (nat (m_repeat t)) k))"

definition due_calls :: "int \<Rightarrow> 'f timer \<Rightarrow> (int \<times> 'f) list" where
  "due_calls now t = map (\<lambda>j. (m_time t + int j * m_period t, the (m_func t))) [0..<fires now t]"

text \<open>What is left of a timer after its due calls: nothing when its repetitions are used up\<close>

definition remainder :: "int \<Rightarrow> 'f timer \<Rightarrow> 'f timer multiset" where
  "remainder now t =
     (let n = fires now t;
          r = (if 0 < m_repeat t then m_repeat t - int n else m_repeat t)
      in if now < m_time t then {#t#}
         else if r = 0 then {#}
         else {#t\<lparr>m_time := m_time t + int n * m_period t, m_repeat := r\<rparr>#})"

definition fired_once :: "'f timer \<Rightarrow> 'f timer" where
  "fired_once t = fst (on_timer t)"

lemma on_timer_fine:
  assumes "m_func t = Some f" "m_repeat t \<noteq> 0"
  shows "on_timer t = (t\<lparr>m_time := m_time t + m_period t, m_repeat := (if 0 < m_repeat t then m_repeat t - 1 else m_repeat t)\<rparr>,
    [(m_time t, f)])"
  using assms by (auto simp: on_timer_def Let_def)

lemma fires_step:
  assumes "m_time t \<le> now" "m_repeat t \<noteq> 0" "0 < m_period t" "m_func t = Some f"
  shows "fires now t = Suc (fires now (fst (on_timer t)))"
proof -
  let ?P = "m_period t" and ?d = "now - m_time t"
  have d: "(if now < m_time t + ?P then ?d div ?P = 0 else nat (?d div ?P) = nat ((now - (m_time t + ?P)) div ?P) + 1)"
  proof (cases "now < m_time t + ?P")
    case True
    then show ?thesis using assms(1) by (simp add: div_pos_pos_trivial)
  next
    case False
    have "?d div ?P = (now - (m_time t + ?P)) div ?P + 1"
      using div_add_self2 [of ?P "now - (m_time t + ?P)"] assms(3) by (simp add: algebra_simps)
    moreover have "0 \<le> (now - (m_time t + ?P)) div ?P" using False assms(3) by (simp add: pos_imp_zdiv_nonneg_iff)
    ultimately show ?thesis using False by simp
  qed
  show ?thesis
    unfolding on_timer_fine [OF assms(4,2)]
    using d assms(1,2) by (auto simp: fires_def Let_def split: if_splits)
qed

lemma due_calls_step:
  assumes "m_time t \<le> now" "m_repeat t \<noteq> 0" "0 < m_period t" "m_func t = Some f"
  shows "due_calls now t = (m_time t, f) # due_calls now (fst (on_timer t))"
proof -
  have "[0..<Suc n] = 0 # map Suc [0..<n]" for n by (simp add: upt_conv_Cons map_Suc_upt del: upt_Suc)
  then show ?thesis
    unfolding due_calls_def fires_step [OF assms]
    by (simp add: on_timer_fine [OF assms(4,2)] assms(4) algebra_simps del: upt_Suc)
qed

lemma remainder_step:
  assumes "m_time t \<le> now" "m_repeat t \<noteq> 0" "0 < m_period t" "m_func t = Some f"
  shows "remainder now t = (if m_repeat (fst (on_timer t)) \<noteq> 0 then remainder now (fst (on_timer t)) else {#})"
proof -
  let ?t = "fst (on_timer t)"
  have t: "?t = t\<lparr>m_time := m_time t + m_period t, m_repeat := (if 0 < m_repeat t then m_repeat t - 1 else m_repeat t)\<rparr>"
    by (simp add: on_timer_fine [OF assms(4,2)])
  have z: "now < m_time ?t \<Longrightarrow> fires now ?t = 0" "m_repeat ?t = 0 \<Longrightarrow> fires now ?t = 0" by (simp_all add: fires_def)
  show ?thesis
  proof (cases "m_repeat ?t = 0")
    case True
    then have "m_repeat t = 1" unfolding t using assms(2) by (simp split: if_splits)
    then show ?thesis using True z(2) assms(1) fires_step [OF assms] by (simp add: remainder_def)
  next
    case False
    show ?thesis
      using False z(1) assms(1,2) fires_step [OF assms] unfolding t
      by (auto simp: remainder_def Let_def algebra_simps)
  qed
qed

section \<open>A whole update\<close>

definition all_due :: "int \<Rightarrow> (int \<times> 'f timer) list \<Rightarrow> (int \<times> 'f) multiset" where
  "all_due now m = (\<Sum>e \<in># mset m. mset (due_calls now (snd e)))"

definition all_rest :: "int \<Rightarrow> (int \<times> 'f timer) list \<Rightarrow> 'f timer multiset" where
  "all_rest now m = (\<Sum>e \<in># mset m. remainder now (snd e))"

definition work :: "int \<Rightarrow> (int \<times> 'f timer) list \<Rightarrow> nat" where
  "work now m = (\<Sum>e \<in># mset m. fires now (snd e)) + length m"

lemma sums_insert:
  "all_due now (snd (multimap_insert k t m)) = mset (due_calls now t) + all_due now m"
  "all_rest now (snd (multimap_insert k t m)) = remainder now t + all_rest now m"
  "work now (snd (multimap_insert k t m)) = fires now t + 1 + work now m"
proof -
  have "length (snd (multimap_insert k t m)) = Suc (length m)"
    using arg_cong [OF mset_multimap_insert [of k t m], of size] by (simp only: size_mset size_add_mset)
  then show "work now (snd (multimap_insert k t m)) = fires now t + 1 + work now m"
    by (simp add: work_def mset_multimap_insert)
qed (simp_all add: all_due_def all_rest_def mset_multimap_insert)

lemma sums_Cons:
  "all_due now (e # m) = mset (due_calls now (snd e)) + all_due now m"
  "all_rest now (e # m) = remainder now (snd e) + all_rest now m"
  "work now (e # m) = fires now (snd e) + 1 + work now m"
  by (simp_all add: all_due_def all_rest_def work_def)

lemma not_due:
  assumes "now < m_time t"
  shows "due_calls now t = []" "remainder now t = {#t#}"
  using assms by (simp_all add: due_calls_def fires_def remainder_def)

lemma nothing_due:
  "(\<And>e. e \<in> set m \<Longrightarrow> now < m_time (snd e)) \<Longrightarrow> all_due now m = {#} \<and> all_rest now m = mset (map snd m)"
  by (induction m) (simp_all add: sums_Cons not_due, simp_all add: all_due_def all_rest_def)

definition late :: "int \<Rightarrow> (int \<times> 'f timer) list \<Rightarrow> bool" where
  "late k m \<longleftrightarrow> (\<forall>e \<in> set m. k \<le> fst e)"

lemma update_loop_spec:
  "manager_ok m \<Longrightarrow> sorted (map fst calls) \<Longrightarrow> (\<And>c. c \<in> set calls \<Longrightarrow> fst c \<le> now \<and> late (fst c) m) \<Longrightarrow>
   \<exists>m' new. update_loop now 0 m calls = Some (m', calls @ new) \<and> mset new = all_due now m
     \<and> sorted (map fst (calls @ new)) \<and> mset (map snd m') = all_rest now m
     \<and> manager_ok m' \<and> (\<forall>e \<in> set m'. now < fst e)"
proof (induction "work now m" arbitrary: m calls rule: less_induct)
  case less
  show ?case
  proof (cases m)
    case Nil
    then show ?thesis
      using less.prems by (simp add: update_loop_first all_due_def all_rest_def)
  next
    case (Cons e m1)
    obtain k t where e: "e = (k, t)" by (cases e)
    have fine: "k = m_time t" "0 < m_period t" using less.prems(1) by (simp_all add: manager_ok_def entry_fine_def Cons e)
    obtain f where f: "m_func t = Some f" using less.prems(1) by (auto simp: manager_ok_def entry_fine_def Cons e)
    have srt: "sorted (map fst m1)" "late k m1" "\<And>x. x \<in> set m1 \<Longrightarrow> entry_fine x"
      using less.prems(1) by (auto simp: manager_ok_def late_def Cons e)
    show ?thesis
    proof (cases "now < k")
      case True
      have after: "now < fst x" if "x \<in> set m" for x using that True srt(2) by (auto simp: Cons e late_def)
      moreover have "fst x = m_time (snd x)" if "x \<in> set m" for x
        using less.prems(1) that by (simp add: manager_ok_def entry_fine_def)
      ultimately have "all_due now m = {#}" "all_rest now m = mset (map snd m)" using nothing_due [of m now] by auto
      then show ?thesis
        using True less.prems(1,2) after by (intro exI [of _ m] exI [of _ "[]"]) (simp add: update_loop_first Cons e)
    next
      case False
      then have due: "m_time t \<le> now" using fine by simp
      show ?thesis
      proof (cases "m_repeat t = 0")
        case True
        then have ot: "on_timer t = (t, [])" using f by (simp add: on_timer_def)
        have l: "update_loop now 0 m calls = update_loop now 0 m1 calls"
          using False True by (simp add: Cons e update_loop_first ot)
        have z: "due_calls now t = []" "remainder now t = {#}"
          using True due by (simp_all add: due_calls_def fires_def remainder_def)
        have "manager_ok m1" using srt by (simp add: manager_ok_def)
        moreover have "late (fst c) m1" if "c \<in> set calls" for c using less.prems(3) [OF that] by (simp add: late_def Cons)
        ultimately show ?thesis
          using less.hyps [of m1 calls] less.prems(2,3) unfolding l by (simp add: Cons e sums_Cons z)
      next
        case rep: False
        define t1 where "t1 = fst (on_timer t)"
        have ot: "on_timer t = (t1, [(k, f)])" using on_timer_fine [OF f rep] fine(1) by (simp add: t1_def)
        have t1: "m_time t1 = k + m_period t" "m_func t1 = Some f" "0 < m_period t1"
          using on_timer_fine [OF f rep] fine f by (simp_all add: t1_def)
        define m2 where "m2 = (if m_repeat t1 \<noteq> 0 then snd (multimap_insert (m_time t1) t1 m1) else m1)"
        have l: "update_loop now 0 m calls = update_loop now 0 m2 (calls @ [(k, f)])"
          using False by (simp add: Cons e update_loop_first ot m2_def)
        have fine1: "entry_fine (m_time t1, t1)" using t1 by (simp add: entry_fine_def)
        have ok2: "manager_ok m2" "late k m2"
          using srt fine1 t1(1) fine(2) sorted_multimap_insert [OF srt(1)] set_multimap_insert [of "m_time t1" t1 m1]
          by (auto simp: m2_def manager_ok_def late_def)
        note step = fires_step [OF due rep fine(2) f, folded t1_def] due_calls_step [OF due rep fine(2) f, folded t1_def]
          remainder_step [OF due rep fine(2) f, folded t1_def]
        have due1: "m_repeat t1 = 0 \<Longrightarrow> due_calls now t1 = []" by (simp add: due_calls_def fires_def)
        have w: "work now m2 < work now m" unfolding Cons e m2_def using step(1) by (simp add: sums_insert sums_Cons)
        have s: "all_due now m = add_mset (k, f) (all_due now m2)" "all_rest now m = all_rest now m2"
          unfolding Cons e m2_def using step(2,3) due1 fine(1) by (simp_all add: sums_insert sums_Cons)
        have calls: "sorted (map fst (calls @ [(k, f)]))"
          using less.prems(2,3) by (auto simp: sorted_append late_def Cons e)
        have "fst c \<le> now \<and> late (fst c) m2" if "c \<in> set (calls @ [(k, f)])" for c
        proof (cases "c = (k, f)")
          case True
          then show ?thesis using ok2(2) False by simp
        next
          case False
          then have "fst c \<le> k" "fst c \<le> now" using less.prems(3) [of c] that by (auto simp: late_def Cons e)
          then show ?thesis using ok2(2) by (auto simp: late_def)
        qed
        from less.hyps [OF w ok2(1) calls this]
        obtain m' new where "update_loop now 0 m2 (calls @ [(k, f)]) = Some (m', (calls @ [(k, f)]) @ new)"
          "mset new = all_due now m2" "sorted (map fst ((calls @ [(k, f)]) @ new))" "mset (map snd m') = all_rest now m2"
          "manager_ok m'" "\<forall>e \<in> set m'. now < fst e" by blast
        then show ?thesis unfolding l using s by (intro exI [of _ m'] exI [of _ "(k, f) # new"]) simp
      qed
    qed
  qed
qed

section \<open>A timer without period\<close>

definition restless :: "int \<Rightarrow> int \<times> 'f timer \<Rightarrow> bool" where
  "restless now e \<longleftrightarrow> fst e = m_time (snd e) \<and> fst e \<le> now \<and> m_func (snd e) \<noteq> None
     \<and> m_period (snd e) = 0 \<and> m_repeat (snd e) < 0"

lemma restless_step:
  assumes "sorted (map fst (e # m))" "\<exists>x \<in> set (e # m). restless now x" "on_timer (snd e) = (t, new)"
  defines "m2 \<equiv> if m_repeat t \<noteq> 0 then snd (multimap_insert (m_time t) t m) else m"
  shows "fst e \<le> now" "sorted (map fst m2)" "\<exists>x \<in> set m2. restless now x"
proof -
  obtain x where x: "x \<in> set (e # m)" "restless now x" using assms(2) by blast
  then have "fst e \<le> fst x" using assms(1) by auto
  then show "fst e \<le> now" using x(2) by (simp add: restless_def)
  show "sorted (map fst m2)" using assms(1) sorted_multimap_insert [of m] by (simp add: m2_def)
  show "\<exists>x \<in> set m2. restless now x"
  proof (cases "x = e")
    case True
    then have "t = snd e" "m_repeat t < 0" "m_time t = fst e"
      using x(2) assms(3) by (auto simp: restless_def on_timer_def Let_def)
    then show ?thesis using x(2) True by (auto simp: m2_def set_multimap_insert restless_def)
  next
    case False
    then have "x \<in> set m2" using x(1) by (auto simp: m2_def set_multimap_insert)
    then show ?thesis using x(2) by blast
  qed
qed

lemma update_loop_restless:
  assumes "update_loop now 0 m calls = Some r" "sorted (map fst m)"
  shows "\<not> (\<exists>x \<in> set m. restless now x)"
proof -
  have "\<not> (i = 0 \<and> sorted (map fst m) \<and> (\<exists>x \<in> set m. restless now x))"
    if "update_loop now i m calls = Some r" for now i m calls r
    using that
  proof (rule update_loop.raw_induct [where P = "\<lambda>now i m calls r.
      \<not> (i = 0 \<and> sorted (map fst m) \<and> (\<exists>x \<in> set m. restless now x))", rotated])
    fix loop now i m calls r
    assume IH: "\<And>now i m calls r. loop now i m calls = Some r \<Longrightarrow>
        \<not> (i = 0 \<and> sorted (map fst m) \<and> (\<exists>x \<in> set m. restless now x))"
      and eq: "(if length m \<le> i \<or> now < fst (m ! i) then Some (m, calls)
        else (case update_entry i m of (i', m', new_calls) \<Rightarrow> loop now i' m' (calls @ new_calls))) = Some r"
    show "\<not> (i = 0 \<and> sorted (map fst m) \<and> (\<exists>x \<in> set m. restless now x))"
    proof
      assume a: "i = 0 \<and> sorted (map fst m) \<and> (\<exists>x \<in> set m. restless now x)"
      then obtain e m1 where m: "m = e # m1" by (cases m) auto
      obtain t new where t: "on_timer (snd e) = (t, new)" by fastforce
      define m2 where "m2 = (if m_repeat t \<noteq> 0 then snd (multimap_insert (m_time t) t m1) else m1)"
      have st: "fst e \<le> now" "sorted (map fst m2)" "\<exists>x \<in> set m2. restless now x"
        using restless_step [of e m1 now t new] a t by (auto simp: m m2_def)
      have "update_entry i m = (0, m2, new)" using a by (simp add: m update_entry_first t m2_def)
      then have "loop now 0 m2 (calls @ new) = Some r" using eq a st(1) by (simp add: m)
      then show False using IH [of now 0 m2] st(2,3) by blast
    qed
  qed
  then show ?thesis using assms by blast
qed

section \<open>Properties\<close>

text \<open>C26: An update of the timer manager always returns when every timer has a positive period; it makes exactly the
  calls that are due (a timer at time t with period p and n repetitions is called at t, t + p, ... up to the
  present, at most n times), each once, in the order of their times, and leaves no timer that is due.\<close>

theorem update_makes_exactly_the_due_calls:
  assumes "manager_ok m"
  shows "\<exists>m' calls. update_timers now m = Some (m', calls) \<and> mset calls = all_due now m
    \<and> sorted (map fst calls) \<and> mset (map snd m') = all_rest now m
    \<and> manager_ok m' \<and> (\<forall>e \<in> set m'. now < fst e)"
proof (cases "m = []")
  case True
  then show ?thesis by (simp add: update_timers_def all_due_def all_rest_def manager_ok_def)
next
  case False
  then show ?thesis using update_loop_spec [OF assms, of "[]" now] by (auto simp: update_timers_def)
qed

theorem update_makes_exactly_the_due_calls_witness:
  "\<exists>m' calls. update_timers 25 (schedule 0 10 2 ''a'' (schedule_forever 0 20 ''b'' [])) = Some (m', calls)
     \<and> mset calls = {#(0, ''a''), (10, ''a''), (0, ''b''), (20, ''b'')#}"
proof -
  let ?m = "schedule 0 10 2 ''a'' (schedule_forever 0 20 ''b'' [])"
  have "manager_ok ?m"
    by (simp add: schedule_def schedule_forever_def callback_def new_timer_def manager_ok_def entry_fine_def Let_def)
  from update_makes_exactly_the_due_calls [OF this, of 25]
  show ?thesis
    by (auto simp: schedule_def schedule_forever_def callback_def new_timer_def all_due_def due_calls_def fires_def Let_def
        numeral_2_eq_2 atLeastLessThanSuc)
qed

text \<open>With an endless timer of period 0 in the manager, an update never returns once the timer is due.\<close>

theorem zero_period_update_never_returns:
  assumes "sorted (map fst m)" "e \<in> set m" "restless now e"
  shows "update_timers now m = None"
proof -
  have "update_loop now 0 m [] = None"
    using update_loop_restless [of now m "[]"] assms by (cases "update_loop now 0 m []") auto
  then show ?thesis using assms(2) by (auto simp: update_timers_def)
qed

theorem zero_period_update_never_returns_witness:
  "update_timers 5 (schedule_forever 0 0 ''f'' []) = None"
  by (rule zero_period_update_never_returns)
    (auto simp: schedule_forever_def schedule_def callback_def new_timer_def restless_def Let_def)

lemma repeat_loop_active: "2 * n \<le> length loads \<Longrightarrow> (\<forall>a \<in> set loads. a) \<Longrightarrow> repeat_loop n loads = (2 * n, 0)"
  by (induction n loads rule: repeat_loop.induct) auto

text \<open>A timer of version 1 with n repetitions that nobody stops calls its function 2n times, and stays active
  afterwards, so that starting it again does nothing.\<close>

theorem repeating_timer_calls_twice:
  assumes "t1_repeat t = int n" "\<not> t1_active t" "2 * n \<le> length loads" "\<forall>a \<in> set loads. a"
  shows "snd (start1 ms loads t) = 2 * n
    \<and> start1 ms' loads' (fst (start1 ms loads t)) = (fst (start1 ms loads t), 0)"
  using assms repeat_loop_active [OF assms(3,4)] by (simp add: start1_def Let_def)

theorem repeating_timer_calls_twice_witness:
  "snd (start1 1000 (replicate 6 True) (new_timer1 3)) = 6"
  using repeating_timer_calls_twice [of "new_timer1 3" 3 "replicate 6 True" 1000] by (simp add: new_timer1_def)

end
