(* ===== verification/MemoryPool.thy ===== *)
theory MemoryPool
  imports Prelude
begin

text \<open>
  The block allocator \<^verbatim>\<open>MemoryPool/C++11/MemoryPool.h\<close> and \<^verbatim>\<open>MemoryPool.cc\<close>.

  Pointers are addresses; 0 is the null pointer.  The pool carves blocks that \<^verbatim>\<open>operator new\<close>
  returns into slots and keeps freed slots in a list that runs through the slots themselves.  A
  slot (and the head of a block) is a cell of the memory: the union \<^verbatim>\<open>Slot_\<close> holds a pointer or an
  element.  Accesses outside the blocks of the pool are errors, so that "every slot lies in its
  block" is something to prove.  \<^verbatim>\<open>operator new\<close> is a parameter: a function from the blocks in use to
  the address of the new block, or \<open>None\<close> when it throws.  The sizes \<^verbatim>\<open>BlockSize\<close> and
  \<^verbatim>\<open>sizeof(slot_type_)\<close> are the record \<open>layout\<close>.
\<close>

section \<open>Memory\<close>

datatype 'a cell = Raw | Next nat | Elem 'a

record layout =
  BlockSize :: nat
  slot_size :: nat

record 'a memory =
  cells :: "nat \<Rightarrow> 'a cell"
  blocks :: "nat list"

definition in_block :: "layout \<Rightarrow> nat \<Rightarrow> nat \<Rightarrow> 'a memory \<Rightarrow> bool" where
  "in_block L a n h \<longleftrightarrow> list_ex (\<lambda>b. b \<le> a \<and> a + n \<le> b + BlockSize L) (blocks h)"

definition store_cell :: "layout \<Rightarrow> nat \<Rightarrow> nat \<Rightarrow> 'a cell \<Rightarrow> 'a memory \<Rightarrow> 'a memory result" where
  "store_cell L n a c h = (if in_block L a n h then Inr (h\<lparr>cells := (cells h)(a := c)\<rparr>) else Inl Out_Of_Bounds)"

definition load_next :: "layout \<Rightarrow> nat \<Rightarrow> 'a memory \<Rightarrow> nat result" where
  "load_next L a h = (if \<not> in_block L a 8 h then Inl Out_Of_Bounds
     else (case cells h a of Next n \<Rightarrow> Inr n | _ \<Rightarrow> Inl Uninitialised))"

definition load_elem :: "layout \<Rightarrow> nat \<Rightarrow> 'a memory \<Rightarrow> 'a result" where
  "load_elem L a h = (if \<not> in_block L a (slot_size L) h then Inl Out_Of_Bounds
     else (case cells h a of Elem x \<Rightarrow> Inr x | _ \<Rightarrow> Inl Uninitialised))"

section \<open>The pool\<close>

record mpool =
  currentBlock :: nat
  currentSlot :: nat
  lastSlot :: nat
  freeSlots :: nat

definition new_pool :: mpool where
  "new_pool = \<lparr>currentBlock = 0, currentSlot = 0, lastSlot = 0, freeSlots = 0\<rparr>"

text \<open>The copy constructor runs \<^verbatim>\<open>MemoryPool();\<close>, which makes and destroys another object: the members
  of the new one keep what the storage held, the \<open>garbage\<close>.\<close>

definition copy_pool :: "mpool \<Rightarrow> mpool \<Rightarrow> mpool" where
  "copy_pool garbage memoryPool = (let temporary = new_pool in garbage)"

text \<open>\<^verbatim>\<open>(align - result) % align\<close> in \<^verbatim>\<open>size_t\<close>: the difference wraps around at \<open>2 ^ 64\<close>.\<close>

definition padPointer :: "nat \<Rightarrow> nat \<Rightarrow> nat" where
  "padPointer p align = ((align + 2 ^ 64 - p) mod 2 ^ 64) mod align"

definition allocateBlock ::
  "(nat list \<Rightarrow> nat option) \<Rightarrow> layout \<Rightarrow> mpool \<times> 'a memory \<Rightarrow> (mpool \<times> 'a memory) result" where
  "allocateBlock os_new L st = (case st of (p, h) \<Rightarrow>
     (case os_new (blocks h) of
        None \<Rightarrow> Inl Bad_Alloc
      | Some newBlock \<Rightarrow>
          let h1 = \<lparr>cells = (\<lambda>a. if newBlock \<le> a \<and> a < newBlock + BlockSize L then Raw else cells h a),
                    blocks = newBlock # blocks h\<rparr> in
          rbind (store_cell L 8 newBlock (Next (currentBlock p)) h1) (\<lambda>h2.
            let body = newBlock + 8;
                bodyPadding = padPointer body (slot_size L)
            in Inr (p\<lparr>currentBlock := newBlock,
                      currentSlot := body + bodyPadding,
                      lastSlot := newBlock + BlockSize L - slot_size L + 1\<rparr>, h2))))"

definition allocate ::
  "(nat list \<Rightarrow> nat option) \<Rightarrow> layout \<Rightarrow> mpool \<times> 'a memory \<Rightarrow> (nat \<times> mpool \<times> 'a memory) result" where
  "allocate os_new L st = (case st of (p, h) \<Rightarrow>
     if freeSlots p \<noteq> 0 then
       rbind (load_next L (freeSlots p) h) (\<lambda>n. Inr (freeSlots p, p\<lparr>freeSlots := n\<rparr>, h))
     else
       rbind (if currentSlot p \<ge> lastSlot p then allocateBlock os_new L (p, h) else Inr (p, h)) (\<lambda>(p1, h1).
         Inr (currentSlot p1, p1\<lparr>currentSlot := currentSlot p1 + slot_size L\<rparr>, h1)))"

definition deallocate :: "layout \<Rightarrow> nat \<Rightarrow> mpool \<times> 'a memory \<Rightarrow> (mpool \<times> 'a memory) result" where
  "deallocate L a st = (case st of (p, h) \<Rightarrow>
     if a \<noteq> 0 then
       rbind (store_cell L 8 a (Next (freeSlots p)) h) (\<lambda>h1. Inr (p\<lparr>freeSlots := a\<rparr>, h1))
     else Inr (p, h))"

definition construct :: "layout \<Rightarrow> nat \<Rightarrow> 'a \<Rightarrow> mpool \<times> 'a memory \<Rightarrow> (mpool \<times> 'a memory) result" where
  "construct L a v st = (case st of (p, h) \<Rightarrow>
     rbind (store_cell L (slot_size L) a (Elem v) h) (\<lambda>h1. Inr (p, h1)))"

text \<open>The destructor of the element ends its lifetime.\<close>

definition destroy :: "layout \<Rightarrow> nat \<Rightarrow> mpool \<times> 'a memory \<Rightarrow> (mpool \<times> 'a memory) result" where
  "destroy L a st = (case st of (p, h) \<Rightarrow>
     rbind (load_elem L a h) (\<lambda>_. rbind (store_cell L (slot_size L) a Raw h) (\<lambda>h1. Inr (p, h1))))"

definition newElement ::
  "(nat list \<Rightarrow> nat option) \<Rightarrow> layout \<Rightarrow> 'a \<Rightarrow> mpool \<times> 'a memory \<Rightarrow> (nat \<times> mpool \<times> 'a memory) result" where
  "newElement os_new L v st =
     rbind (allocate os_new L st) (\<lambda>(a, st1). rbind (construct L a v st1) (\<lambda>st2. Inr (a, st2)))"

definition deleteElement :: "layout \<Rightarrow> nat \<Rightarrow> mpool \<times> 'a memory \<Rightarrow> (mpool \<times> 'a memory) result" where
  "deleteElement L a st =
     (if a \<noteq> 0 then rbind (destroy L a st) (deallocate L a) else Inr st)"

definition max_size :: "layout \<Rightarrow> nat" where
  "max_size L = (let maxBlocks = (2 ^ 64 - 1) div BlockSize L
                 in ((BlockSize L - 8) div slot_size L * maxBlocks) mod 2 ^ 64)"

text \<open>The destructor deletes the chain of blocks.  Every turn of the loop removes a block from the
  memory, so it ends even on a damaged chain.\<close>

function free_blocks :: "layout \<Rightarrow> nat \<Rightarrow> 'a memory \<Rightarrow> 'a memory result" where
  "free_blocks L cur h =
     (if cur = 0 then Inr h
      else rbind (load_next L cur h) (\<lambda>prev.
           if cur \<in> set (blocks h)
           then free_blocks L prev (h\<lparr>blocks := remove1 cur (blocks h)\<rparr>)
           else Inl Dangling))"
  by pat_completeness auto
termination
  by (relation "measure (\<lambda>(L, cur, h). length (blocks h))") (auto simp: length_remove1 dest: length_pos_if_in_set)

declare free_blocks.simps [simp del]

definition destroy_pool :: "layout \<Rightarrow> mpool \<times> 'a memory \<Rightarrow> 'a memory result" where
  "destroy_pool L st = (case st of (p, h) \<Rightarrow> free_blocks L (currentBlock p) h)"

section \<open>The invariant\<close>

definition sizes_ok :: "layout \<Rightarrow> bool" where
  "sizes_ok L \<longleftrightarrow> 8 \<le> slot_size L \<and> 8 dvd slot_size L \<and> 2 * slot_size L \<le> BlockSize L"

text \<open>What \<^verbatim>\<open>operator new\<close> promises: memory that nobody uses, aligned for every type.\<close>

definition os_new_ok :: "layout \<Rightarrow> (nat list \<Rightarrow> nat option) \<Rightarrow> bool" where
  "os_new_ok L os_new \<longleftrightarrow> (\<forall>bs b. os_new bs = Some b \<longrightarrow>
     0 < b \<and> 16 dvd b \<and> b + BlockSize L \<le> 2 ^ 64 \<and>
     (\<forall>b' \<in> set bs. b + BlockSize L \<le> b' \<or> b' + BlockSize L \<le> b))"

definition apart :: "nat \<Rightarrow> nat \<Rightarrow> nat \<Rightarrow> bool" where
  "apart n a b \<longleftrightarrow> a + n \<le> b \<or> b + n \<le> a"

definition slot_in :: "layout \<Rightarrow> nat \<Rightarrow> nat \<Rightarrow> bool" where
  "slot_in L b a \<longleftrightarrow> b + 8 \<le> a \<and> a + slot_size L \<le> b + BlockSize L"

fun link_chain :: "(nat \<Rightarrow> 'a cell) \<Rightarrow> nat \<Rightarrow> nat list \<Rightarrow> bool" where
  "link_chain c p [] \<longleftrightarrow> p = 0"
| "link_chain c p (a # as) \<longleftrightarrow> p = a \<and> a \<noteq> 0 \<and> (\<exists>n. c a = Next n \<and> link_chain c n as)"

definition blocks_ok :: "layout \<Rightarrow> nat list \<Rightarrow> bool" where
  "blocks_ok L bs \<longleftrightarrow> distinct bs \<and> (\<forall>b \<in> set bs. 0 < b \<and> 16 dvd b \<and> b + BlockSize L \<le> 2 ^ 64) \<and>
     (\<forall>b \<in> set bs. \<forall>b' \<in> set bs. b \<noteq> b' \<longrightarrow> apart (BlockSize L) b b')"

definition slots_ok :: "layout \<Rightarrow> nat list \<Rightarrow> nat set \<Rightarrow> bool" where
  "slots_ok L bs S \<longleftrightarrow> (\<forall>a \<in> S. 8 dvd a \<and> (\<exists>b \<in> set bs. slot_in L b a)) \<and>
     (\<forall>a \<in> S. \<forall>a' \<in> S. a \<noteq> a' \<longrightarrow> apart (slot_size L) a a')"

definition bump_ok :: "layout \<Rightarrow> mpool \<Rightarrow> nat list \<Rightarrow> nat set \<Rightarrow> bool" where
  "bump_ok L p bs S \<longleftrightarrow> (currentSlot p < lastSlot p \<longrightarrow> bs \<noteq> [] \<and>
     lastSlot p = hd bs + BlockSize L - slot_size L + 1 \<and> hd bs + 8 \<le> currentSlot p \<and> 8 dvd currentSlot p \<and>
     (\<forall>a \<in> S. a + slot_size L \<le> currentSlot p \<or> hd bs + BlockSize L \<le> a))"

text \<open>\<open>m\<close> gives the slots in use by the client: \<open>Some None\<close> for memory without an element.\<close>

definition pool_inv :: "layout \<Rightarrow> nat list \<Rightarrow> mpool \<times> 'a memory \<Rightarrow> (nat \<Rightarrow> 'a option option) \<Rightarrow> bool" where
  "pool_inv L fs st m \<longleftrightarrow> (case st of (p, h) \<Rightarrow>
     sizes_ok L \<and> blocks_ok L (blocks h) \<and> slots_ok L (blocks h) (dom m \<union> set fs) \<and>
     bump_ok L p (blocks h) (dom m \<union> set fs) \<and>
     link_chain (cells h) (currentBlock p) (blocks h) \<and> link_chain (cells h) (freeSlots p) fs \<and>
     distinct fs \<and> dom m \<inter> set fs = {} \<and> (\<forall>a v. m a = Some (Some v) \<longrightarrow> cells h a = Elem v))"

lemma padPointer_bound:
  assumes "sizes_ok L" "8 dvd p" "p \<le> 2 ^ 64"
  shows "8 dvd padPointer p (slot_size L)" "padPointer p (slot_size L) + 8 \<le> slot_size L"
proof -
  obtain k where k: "slot_size L = 8 * k" "0 < k" using assms(1) by (auto simp: sizes_ok_def)
  obtain q where q: "p = 8 * q" using assms(2) by auto
  define M :: nat where "M = 2 ^ 61"
  have M: "2 ^ 64 = 8 * M" by (simp add: M_def)
  define r where "r = (k + M - q) mod M mod k"
  have "q \<le> M" using assms(3) q by (simp add: M_def)
  then have d: "8 * k + 8 * M - 8 * q = 8 * (k + M - q)" by arith
  have "padPointer p (slot_size L) = (8 * (k + M - q)) mod (8 * M) mod (8 * k)"
    unfolding padPointer_def k(1) q M d ..
  also have "\<dots> = 8 * r" unfolding r_def by (metis mult_mod_right)
  finally have "padPointer p (slot_size L) = 8 * r" .
  moreover have "r < k" unfolding r_def using k(2) by simp
  ultimately show "8 dvd padPointer p (slot_size L)" "padPointer p (slot_size L) + 8 \<le> slot_size L"
    using k(1) by simp_all
qed

lemma link_chain_frame: "a \<notin> set as \<Longrightarrow> link_chain (c(a := x)) p as = link_chain c p as"
  by (induction as arbitrary: p) auto

lemma link_chain_cong: "(\<And>a. a \<in> set as \<Longrightarrow> c a = c' a) \<Longrightarrow> link_chain c p as = link_chain c' p as"
  by (induction as arbitrary: p) auto

lemma slot_not_block:
  assumes "blocks_ok L bs" "slots_ok L bs S" "sizes_ok L" "a \<in> S"
  shows "a \<notin> set bs"
proof
  assume a: "a \<in> set bs"
  obtain b where b: "b \<in> set bs" "slot_in L b a" using assms(2,4) by (auto simp: slots_ok_def)
  have "b \<noteq> a" using b(2) by (auto simp: slot_in_def)
  then have "apart (BlockSize L) b a" using assms(1) a b(1) by (auto simp: blocks_ok_def)
  then show False using b(2) assms(3) by (auto simp: apart_def slot_in_def sizes_ok_def)
qed

lemma slot_in_block:
  assumes "slots_ok L (blocks h) S" "a \<in> S" "n \<le> slot_size L"
  shows "in_block L a n h"
proof -
  obtain b where b: "b \<in> set (blocks h)" "slot_in L b a" using assms(1,2) by (auto simp: slots_ok_def)
  then have "b \<le> a \<and> a + n \<le> b + BlockSize L" using assms(3) by (simp add: slot_in_def)
  then show ?thesis using b(1) by (auto simp: in_block_def list_ex_iff)
qed

lemma slot_nonzero: "slots_ok L bs S \<Longrightarrow> a \<in> S \<Longrightarrow> a \<noteq> 0"
  unfolding slots_ok_def slot_in_def by (metis Suc_leI add_is_0 le_zero_eq nat.distinct(1) numeral_eq_Suc)

subsection \<open>What the operations keep\<close>

lemma store_slot:
  assumes "pool_inv L fs (p, h) m" "a \<in> dom m" "n \<le> slot_size L"
  shows "store_cell L n a c h = Inr (h\<lparr>cells := (cells h)(a := c)\<rparr>)"
proof -
  have "in_block L a n h"
    by (rule slot_in_block [of L h "dom m \<union> set fs"]) (use assms in \<open>auto simp: pool_inv_def\<close>)
  then show ?thesis by (simp add: store_cell_def)
qed

lemma pool_inv_store:
  assumes inv: "pool_inv L fs (p, h) m" and a: "a \<in> dom m" and v: "\<And>x. v = Some x \<Longrightarrow> c = Elem x"
  shows "pool_inv L fs (p, h\<lparr>cells := (cells h)(a := c)\<rparr>) (m(a \<mapsto> v))"
proof -
  have "a \<notin> set (blocks h)"
    by (rule slot_not_block [of L _ "dom m \<union> set fs"]) (use inv a in \<open>auto simp: pool_inv_def\<close>)
  moreover have "a \<notin> set fs" using inv a by (auto simp: pool_inv_def)
  moreover have "insert a (dom m) = dom m" using a by auto
  ultimately show ?thesis
    using inv v by (simp add: pool_inv_def link_chain_frame)
qed

lemma deallocate_inv:
  assumes inv: "pool_inv L fs (p, h) m" and a: "a \<in> dom m"
  shows "\<exists>h'. deallocate L a (p, h) = Inr (p\<lparr>freeSlots := a\<rparr>, h') \<and>
    pool_inv L (a # fs) (p\<lparr>freeSlots := a\<rparr>, h') (m(a := None))"
proof -
  let ?h = "h\<lparr>cells := (cells h)(a := Next (freeSlots p))\<rparr>"
  have a0: "a \<noteq> 0"
    by (rule slot_nonzero [of L "blocks h" "dom m \<union> set fs"]) (use inv a in \<open>auto simp: pool_inv_def\<close>)
  have ab: "a \<notin> set (blocks h)"
    by (rule slot_not_block [of L _ "dom m \<union> set fs"]) (use inv a in \<open>auto simp: pool_inv_def\<close>)
  have af: "a \<notin> set fs" using inv a by (auto simp: pool_inv_def)
  have "store_cell L 8 a (Next (freeSlots p)) h = Inr ?h"
    by (rule store_slot [OF inv a]) (use inv in \<open>simp add: pool_inv_def sizes_ok_def\<close>)
  moreover have S: "dom (m(a := None)) \<union> set (a # fs) = dom m \<union> set fs" using a by auto
  have "pool_inv L (a # fs) (p\<lparr>freeSlots := a\<rparr>, ?h) (m(a := None))"
    unfolding pool_inv_def S
    using inv a0 ab af by (auto simp: pool_inv_def link_chain_frame bump_ok_def)
  ultimately show ?thesis using a0 by (auto simp: deallocate_def)
qed

lemma allocate_free_inv:
  assumes inv: "pool_inv L (a # fs) (p, h) m"
  shows "allocate os_new L (p, h) = Inr (a, p\<lparr>freeSlots := hd (fs @ [0])\<rparr>, h)"
    and "pool_inv L fs (p\<lparr>freeSlots := hd (fs @ [0])\<rparr>, h) (m(a \<mapsto> None))"
proof -
  obtain n where n: "freeSlots p = a" "a \<noteq> 0" "cells h a = Next n" "link_chain (cells h) n fs"
    using inv by (auto simp: pool_inv_def)
  have hd: "n = hd (fs @ [0])" using n(4) by (cases fs) auto
  have "in_block L a 8 h"
    by (rule slot_in_block [of L h "dom m \<union> set (a # fs)"]) (use inv in \<open>auto simp: pool_inv_def sizes_ok_def\<close>)
  then show "allocate os_new L (p, h) = Inr (a, p\<lparr>freeSlots := hd (fs @ [0])\<rparr>, h)"
    using n hd by (simp add: allocate_def load_next_def)
  have S: "dom (m(a \<mapsto> None)) \<union> set fs = dom m \<union> set (a # fs)" by auto
  show "pool_inv L fs (p\<lparr>freeSlots := hd (fs @ [0])\<rparr>, h) (m(a \<mapsto> None))"
    unfolding pool_inv_def S
    using inv n(4) hd by (auto simp: pool_inv_def bump_ok_def)
qed

lemma bump_inv:
  assumes inv: "pool_inv L [] (p, h) m" and lt: "currentSlot p < lastSlot p"
  shows "pool_inv L [] (p\<lparr>currentSlot := currentSlot p + slot_size L\<rparr>, h) (m(currentSlot p \<mapsto> None))"
    and "currentSlot p \<notin> dom m" "currentSlot p \<noteq> 0"
proof -
  let ?a = "currentSlot p" and ?b = "hd (blocks h)"
  have sz: "sizes_ok L" and sl: "slots_ok L (blocks h) (dom m)" and bo: "blocks_ok L (blocks h)"
    using inv by (simp_all add: pool_inv_def)
  have b: "?b \<in> set (blocks h)" "lastSlot p = ?b + BlockSize L - slot_size L + 1" "?b + 8 \<le> ?a" "8 dvd ?a"
    "\<And>x. x \<in> dom m \<Longrightarrow> x + slot_size L \<le> ?a \<or> ?b + BlockSize L \<le> x"
    using inv lt by (auto simp: pool_inv_def bump_ok_def)
  have fits: "?a + slot_size L \<le> ?b + BlockSize L" using b(2) lt sz unfolding sizes_ok_def by arith
  then have slot: "slot_in L ?b ?a" using b(3) by (simp add: slot_in_def)
  have new: "apart (slot_size L) x ?a" if "x \<in> dom m" for x
    using b(5) [OF that] fits by (auto simp: apart_def)
  show a: "?a \<notin> dom m" using new [of ?a] sz by (auto simp: apart_def sizes_ok_def)
  show "?a \<noteq> 0" using b(3) by simp
  have "slots_ok L (blocks h) (insert ?a (dom m))"
    using sl slot new b(1,4) by (auto simp: slots_ok_def apart_def)
  moreover have "x + slot_size L \<le> ?a + slot_size L \<or> ?b + BlockSize L \<le> x" if "x \<in> insert ?a (dom m)" for x
    using that b(5) [of x] by (cases "x = ?a") auto
  then have "bump_ok L (p\<lparr>currentSlot := ?a + slot_size L\<rparr>) (blocks h) (insert ?a (dom m))"
    using b(1-4) sz by (auto simp: bump_ok_def sizes_ok_def)
  ultimately show "pool_inv L [] (p\<lparr>currentSlot := ?a + slot_size L\<rparr>, h) (m(?a \<mapsto> None))"
    using inv a by (auto simp: pool_inv_def)
qed

lemma blocks_ok_Cons:
  "blocks_ok L bs \<Longrightarrow> sizes_ok L \<Longrightarrow> 0 < b \<Longrightarrow> 16 dvd b \<Longrightarrow> b + BlockSize L \<le> 2 ^ 64 \<Longrightarrow>
   \<forall>b' \<in> set bs. b + BlockSize L \<le> b' \<or> b' + BlockSize L \<le> b \<Longrightarrow> blocks_ok L (b # bs)"
  by (auto simp: blocks_ok_def apart_def sizes_ok_def)

lemma allocateBlock_inv:
  assumes inv: "pool_inv L [] (p, h) m" and os: "os_new_ok L os_new" "os_new (blocks h) = Some b"
  shows "\<exists>p' h'. allocateBlock os_new L (p, h) = Inr (p', h') \<and> pool_inv L [] (p', h') m \<and>
    currentSlot p' < lastSlot p' \<and> freeSlots p' = freeSlots p"
proof -
  have sz: "sizes_ok L" and sl: "slots_ok L (blocks h) (dom m)" and bo: "blocks_ok L (blocks h)"
    using inv by (simp_all add: pool_inv_def)
  have b: "0 < b" "16 dvd b" "b + BlockSize L \<le> 2 ^ 64"
    "\<forall>b' \<in> set (blocks h). b + BlockSize L \<le> b' \<or> b' + BlockSize L \<le> b"
    using os unfolding os_new_ok_def by blast+
  define pad where "pad = padPointer (b + 8) (slot_size L)"
  have b8: "8 dvd b" using b(2) by (rule dvd_trans [rotated]) simp
  have pad: "8 dvd pad" "pad + 8 \<le> slot_size L"
    using padPointer_bound [OF sz, of "b + 8"] b8 b(3) sz by (auto simp: pad_def sizes_ok_def)
  let ?c = "\<lambda>a. if b \<le> a \<and> a < b + BlockSize L then Raw else cells h a"
  define c where "c = ?c(b := Next (currentBlock p))"
  define p' where "p' = p\<lparr>currentBlock := b, currentSlot := b + 8 + pad, lastSlot := b + BlockSize L - slot_size L + 1\<rparr>"
  define h' where "h' = \<lparr>cells = c, blocks = b # blocks h\<rparr>"
  have "in_block L b 8 \<lparr>cells = ?c, blocks = b # blocks h\<rparr>"
    using sz by (simp add: in_block_def sizes_ok_def)
  then have eq: "allocateBlock os_new L (p, h) = Inr (p', h')"
    using os(2) by (simp add: allocateBlock_def store_cell_def Let_def p'_def h'_def c_def pad_def)
  have old: "c a = cells h a" if "a \<in> set (blocks h) \<union> dom m" for a
  proof -
    obtain b' where b': "b' \<in> set (blocks h)" "b' \<le> a" "a < b' + BlockSize L"
    proof (cases "a \<in> set (blocks h)")
      case True
      then show ?thesis using that sz by (simp add: sizes_ok_def)
    next
      case False
      then obtain b' where "b' \<in> set (blocks h)" "slot_in L b' a"
        using \<open>a \<in> set (blocks h) \<union> dom m\<close> sl unfolding slots_ok_def by blast
      then show ?thesis using that [of b'] sz by (simp add: slot_in_def sizes_ok_def)
    qed
    then have "a < b \<or> b + BlockSize L \<le> a" using b(4) by force
    then show ?thesis using sz by (auto simp: c_def sizes_ok_def)
  qed
  have "blocks_ok L (b # blocks h)" by (rule blocks_ok_Cons [OF bo sz b])
  moreover have "slots_ok L (b # blocks h) (dom m)" using sl by (auto simp: slots_ok_def)
  moreover have "b + 8 + pad < b + BlockSize L - slot_size L + 1" using pad(2) sz unfolding sizes_ok_def by linarith
  then have lt: "currentSlot p' < lastSlot p'" by (simp add: p'_def)
  moreover have "bump_ok L p' (b # blocks h) (dom m)"
  proof -
    have "a + slot_size L \<le> b + 8 + pad \<or> b + BlockSize L \<le> a" if am: "a \<in> dom m" for a
    proof -
      obtain b' where "b' \<in> set (blocks h)" "slot_in L b' a" using sl am unfolding slots_ok_def by blast
      then show ?thesis using b(4) by (force simp: slot_in_def)
    qed
    then show ?thesis using b8 pad(1) by (simp add: bump_ok_def p'_def)
  qed
  moreover have "link_chain c (currentBlock p') (b # blocks h)"
    using inv b(1) link_chain_cong [of "blocks h" "cells h" c] old
    by (simp add: p'_def pool_inv_def c_def)
  moreover have "\<forall>a v. m a = Some (Some v) \<longrightarrow> c a = Elem v"
  proof (intro allI impI)
    fix a v
    assume "m a = Some (Some v)"
    moreover from this have "c a = cells h a" by (intro old) auto
    ultimately show "c a = Elem v" using inv by (simp add: pool_inv_def)
  qed
  ultimately have "pool_inv L [] (p', h') m"
    using inv sz by (simp add: pool_inv_def h'_def) (simp add: p'_def)
  then show ?thesis using eq lt by (auto simp: p'_def)
qed

lemma allocate_inv:
  assumes inv: "pool_inv L fs (p, h) m" and os: "os_new_ok L os_new"
    and ok: "allocate os_new L (p, h) = Inr (a, st)"
  shows "a \<noteq> 0 \<and> a \<notin> dom m \<and> (\<exists>fs'. pool_inv L fs' st (m(a \<mapsto> None)))"
proof (cases fs)
  case (Cons a' fs')
  note inv' = inv [unfolded Cons]
  have "a' \<noteq> 0" "a' \<notin> dom m" using inv' by (auto simp: pool_inv_def)
  then show ?thesis using allocate_free_inv [OF inv'] ok by auto
next
  case Nil
  have f0: "freeSlots p = 0" using inv Nil by (simp add: pool_inv_def)
  obtain p1 h1 where s1: "(if currentSlot p \<ge> lastSlot p then allocateBlock os_new L (p, h) else Inr (p, h)) = Inr (p1, h1)"
      "a = currentSlot p1" "st = (p1\<lparr>currentSlot := currentSlot p1 + slot_size L\<rparr>, h1)"
    using ok f0 by (auto simp: allocate_def rbind_eq_Inr split: if_splits)
  have "pool_inv L [] (p1, h1) m \<and> currentSlot p1 < lastSlot p1"
  proof (cases "currentSlot p \<ge> lastSlot p")
    case True
    then obtain b where b: "os_new (blocks h) = Some b"
      using s1(1) by (auto simp: allocateBlock_def split: option.splits)
    show ?thesis using allocateBlock_inv [OF inv [unfolded Nil] os b] s1(1) True by auto
  next
    case False
    then show ?thesis using s1(1) inv Nil by auto
  qed
  then show ?thesis using bump_inv [of L p1 h1 m] s1 by auto
qed

lemma allocate_fails_only_without_memory:
  assumes inv: "pool_inv L fs (p, h) m" and os: "os_new_ok L os_new"
    and fail: "allocate os_new L (p, h) = Inl e"
  shows "e = Bad_Alloc \<and> os_new (blocks h) = None"
proof (cases fs)
  case (Cons a' fs')
  show ?thesis using allocate_free_inv(1) [OF inv [unfolded Cons]] fail by simp
next
  case Nil
  have f0: "freeSlots p = 0" using inv Nil by (simp add: pool_inv_def)
  then have ab: "allocateBlock os_new L (p, h) = Inl e"
    using fail by (auto simp: allocate_def rbind_eq_Inl split: if_splits)
  show ?thesis
  proof (cases "os_new (blocks h)")
    case None
    then show ?thesis using ab by (simp add: allocateBlock_def)
  next
    case (Some b)
    then show ?thesis using allocateBlock_inv [OF inv [unfolded Nil] os Some] ab by auto
  qed
qed

lemma construct_inv:
  assumes inv: "pool_inv L fs (p, h) m" and a: "a \<in> dom m"
  shows "\<exists>h'. construct L a v (p, h) = Inr (p, h') \<and> pool_inv L fs (p, h') (m(a \<mapsto> Some v))"
  using store_slot [OF inv a, of "slot_size L"] pool_inv_store [OF inv a, of "Some v" "Elem v"]
  by (simp add: construct_def)

lemma load_elem_inv:
  assumes inv: "pool_inv L fs (p, h) m" and a: "m a = Some (Some v)"
  shows "load_elem L a h = Inr v"
proof -
  have "in_block L a (slot_size L) h"
    by (rule slot_in_block [of L h "dom m \<union> set fs"]) (use inv a in \<open>auto simp: pool_inv_def\<close>)
  then show ?thesis using inv a by (simp add: load_elem_def pool_inv_def)
qed

lemma destroy_inv:
  assumes inv: "pool_inv L fs (p, h) m" and a: "m a = Some (Some v)"
  shows "\<exists>h'. destroy L a (p, h) = Inr (p, h') \<and> pool_inv L fs (p, h') (m(a \<mapsto> None))"
proof -
  have d: "a \<in> dom m" using a by auto
  show ?thesis
    using store_slot [OF inv d, of "slot_size L"] pool_inv_store [OF inv d, of None Raw] load_elem_inv [OF inv a]
    by (simp add: destroy_def)
qed

lemma new_pool_inv: "sizes_ok L \<Longrightarrow> pool_inv L [] (new_pool, \<lparr>cells = c, blocks = []\<rparr>) Map.empty"
  by (simp add: pool_inv_def new_pool_def blocks_ok_def slots_ok_def bump_ok_def)

lemma free_blocks_chain:
  "link_chain (cells h) q (blocks h) \<Longrightarrow> sizes_ok L \<Longrightarrow> free_blocks L q h = Inr (h\<lparr>blocks := []\<rparr>)"
proof (induction "blocks h" arbitrary: q h)
  case Nil
  then show ?case by (simp add: free_blocks.simps)
next
  case (Cons b bs)
  obtain n where n: "q = b" "b \<noteq> 0" "cells h b = Next n" "link_chain (cells h) n bs"
    using Cons.prems(1) Cons.hyps(2) [symmetric] by auto
  have "load_next L b h = Inr n"
    using n Cons.hyps(2) [symmetric] Cons.prems(2) by (simp add: load_next_def in_block_def sizes_ok_def)
  moreover have "free_blocks L n (h\<lparr>blocks := bs\<rparr>) = Inr (h\<lparr>blocks := []\<rparr>)"
    using Cons.hyps(1) [of "h\<lparr>blocks := bs\<rparr>" n] n Cons.prems(2) by simp
  ultimately show ?case
    using n Cons.hyps(2) [symmetric] by (simp add: free_blocks.simps [of L b h])
qed

section \<open>Clients of the pool\<close>

text \<open>What a client can do that deletes only elements it got from the pool; \<open>m\<close> holds its elements.\<close>

inductive pool_reach ::
  "(nat list \<Rightarrow> nat option) \<Rightarrow> layout \<Rightarrow> mpool \<times> 'a memory \<Rightarrow> (nat \<Rightarrow> 'a option option) \<Rightarrow> bool"
  for os_new L where
  fresh: "pool_reach os_new L (new_pool, \<lparr>cells = c, blocks = []\<rparr>) Map.empty"
| new: "pool_reach os_new L st m \<Longrightarrow> newElement os_new L v st = Inr (a, st') \<Longrightarrow>
    pool_reach os_new L st' (m(a \<mapsto> Some v))"
| del: "pool_reach os_new L st m \<Longrightarrow> m a = Some (Some v) \<Longrightarrow> deleteElement L a st = Inr st' \<Longrightarrow>
    pool_reach os_new L st' (m(a := None))"

lemma newElement_inv:
  assumes inv: "pool_inv L fs st m" and os: "os_new_ok L os_new"
  shows "case newElement os_new L v st of
      Inl e \<Rightarrow> e = Bad_Alloc
    | Inr (a, st') \<Rightarrow> a \<notin> dom m \<and> (\<exists>fs'. pool_inv L fs' st' (m(a \<mapsto> Some v)))"
proof -
  obtain p h where st: "st = (p, h)" by fastforce
  show ?thesis
  proof (cases "allocate os_new L st")
    case (Inl e)
    then show ?thesis using allocate_fails_only_without_memory [OF inv [unfolded st] os] st
      by (simp add: newElement_def)
  next
    case (Inr r)
    obtain a p1 h1 where r: "r = (a, p1, h1)" by (cases r) auto
    obtain fs' where a: "a \<notin> dom m" "pool_inv L fs' (p1, h1) (m(a \<mapsto> None))"
      using allocate_inv [OF inv [unfolded st] os] Inr r st by blast
    obtain h' where "construct L a v (p1, h1) = Inr (p1, h')" "pool_inv L fs' (p1, h') (m(a \<mapsto> None, a \<mapsto> Some v))"
      using construct_inv [OF a(2), of a v] by auto
    then show ?thesis using Inr r a(1) by (auto simp: newElement_def)
  qed
qed

lemma deleteElement_inv:
  assumes inv: "pool_inv L fs (p, h) m" and a: "m a = Some (Some v)"
  shows "\<exists>h'. deleteElement L a (p, h) = Inr (p\<lparr>freeSlots := a\<rparr>, h') \<and> blocks h' = blocks h \<and>
    pool_inv L (a # fs) (p\<lparr>freeSlots := a\<rparr>, h') (m(a := None))"
proof -
  have a0: "a \<noteq> 0"
    by (rule slot_nonzero [of L "blocks h" "dom m \<union> set fs"]) (use inv a in \<open>auto simp: pool_inv_def\<close>)
  obtain h1 where h1: "destroy L a (p, h) = Inr (p, h1)" "pool_inv L fs (p, h1) (m(a \<mapsto> None))"
    using destroy_inv [OF inv a] by auto
  obtain h2 where h2: "deallocate L a (p, h1) = Inr (p\<lparr>freeSlots := a\<rparr>, h2)"
      "pool_inv L (a # fs) (p\<lparr>freeSlots := a\<rparr>, h2) (m(a := None))"
    using deallocate_inv [OF h1(2), of a] by auto
  have "blocks h1 = blocks h" using h1(1) by (auto simp: destroy_def rbind_eq_Inr store_cell_def split: if_splits)
  moreover have "blocks h2 = blocks h1"
    using h2(1) a0 by (auto simp: deallocate_def rbind_eq_Inr store_cell_def split: if_splits)
  ultimately show ?thesis using h1 h2 a0 by (auto simp: deleteElement_def)
qed

lemma pool_reach_inv:
  assumes "pool_reach os_new L st m" "sizes_ok L" "os_new_ok L os_new"
  shows "\<exists>fs. pool_inv L fs st m"
  using assms(1)
proof induction
  case (fresh c)
  show ?case using new_pool_inv [OF assms(2)] by blast
next
  case (new st m v a st')
  then obtain fs where "pool_inv L fs st m" by blast
  from newElement_inv [OF this assms(3), of v] new(2) show ?case by (simp add: fun_upd_def)
next
  case (del st m a v st')
  then obtain fs where "pool_inv L fs (fst st, snd st) m" by auto
  from deleteElement_inv [OF this del(2)] del(3) show ?case by (auto simp: fun_upd_def)
qed

section \<open>Properties\<close>

lemma slots_in_use:
  assumes "pool_inv L fs (p, h) m" "a \<in> dom m"
  shows "8 dvd a \<and> (\<exists>b \<in> set (blocks h). b + 8 \<le> a \<and> a + slot_size L \<le> b + BlockSize L)"
proof -
  have "slots_ok L (blocks h) (dom m \<union> set fs)" using assms(1) by (simp add: pool_inv_def)
  then show ?thesis using assms(2) unfolding slots_ok_def slot_in_def by blast
qed

lemma slots_apart:
  assumes "pool_inv L fs (p, h) m" "a \<in> dom m" "a' \<in> dom m" "a \<noteq> a'"
  shows "a + slot_size L \<le> a' \<or> a' + slot_size L \<le> a"
proof -
  have "slots_ok L (blocks h) (dom m \<union> set fs)" using assms(1) by (simp add: pool_inv_def)
  then show ?thesis using assms(2-4) unfolding slots_ok_def apart_def by blast
qed

text \<open>An \<^verbatim>\<open>operator new\<close> with two blocks to give, for the examples\<close>

definition two_blocks :: "nat list \<Rightarrow> nat option" where
  "two_blocks bs = (if bs = [] then Some 4096 else if bs = [4096] then Some 8192 else None)"

definition small_layout :: layout where
  "small_layout = \<lparr>BlockSize = 48, slot_size = 16\<rparr>"

lemma two_blocks_ok: "os_new_ok small_layout two_blocks"
  by (auto simp: os_new_ok_def two_blocks_def small_layout_def split: if_splits)

lemma small_layout_ok: "sizes_ok small_layout"
  by (simp add: sizes_ok_def small_layout_def)

definition no_memory :: "'a memory" where
  "no_memory = \<lparr>cells = (\<lambda>_. Raw), blocks = []\<rparr>"

lemmas pool_eval = newElement_def allocate_def allocateBlock_def construct_def store_cell_def in_block_def
  new_pool_def no_memory_def two_blocks_def small_layout_def padPointer_def Let_def load_next_def load_elem_def

lemma first_element:
  "\<exists>st. newElement two_blocks small_layout (7 :: int) (new_pool, no_memory) = Inr (4112, st) \<and>
     pool_reach two_blocks small_layout st [4112 \<mapsto> Some 7]"
proof -
  obtain st where st: "newElement two_blocks small_layout (7 :: int) (new_pool, no_memory) = Inr (4112, st)"
    by (simp add: pool_eval)
  have "pool_reach two_blocks small_layout (new_pool, no_memory) (Map.empty :: nat \<Rightarrow> int option option)"
    unfolding no_memory_def by (rule pool_reach.fresh)
  from pool_reach.new [OF this st] st show ?thesis by auto
qed

text \<open>C7: When a block has room for two slots, \<^verbatim>\<open>BlockSize >= 2 * sizeof(slot_type_)\<close> (the
  \<^verbatim>\<open>static_assert\<close> that the source has commented out, \<open>sizes_ok\<close>), and \<^verbatim>\<open>operator new\<close> returns
  aligned blocks apart from each other or fails (\<open>os_new_ok\<close>): elements taken from the pool and not yet given
  back keep their values, lie inside the blocks of the pool behind the block header, are aligned to 8 bytes and never
  overlap, whatever the client did before with \<^verbatim>\<open>newElement\<close> and \<^verbatim>\<open>deleteElement\<close>; they can be given back, and
  taking another element can only fail because \<^verbatim>\<open>operator new\<close> fails.  Without the first condition the
  first element already lies outside its block (\<open>small_block_overflows\<close>).\<close>

theorem elements_are_kept_apart:
  assumes "sizes_ok L" "os_new_ok L os_new" "pool_reach os_new L (p, h) m"
  shows "(\<forall>a v. m a = Some (Some v) \<longrightarrow> load_elem L a h = Inr v \<and> 8 dvd a \<and>
      (\<exists>b \<in> set (blocks h). b + 8 \<le> a \<and> a + slot_size L \<le> b + BlockSize L) \<and>
      is_ok (deleteElement L a (p, h))) \<and>
    (\<forall>a \<in> dom m. \<forall>a' \<in> dom m. a \<noteq> a' \<longrightarrow> a + slot_size L \<le> a' \<or> a' + slot_size L \<le> a) \<and>
    (\<forall>v e. newElement os_new L v (p, h) = Inl e \<longrightarrow> e = Bad_Alloc)"
proof -
  obtain fs where inv: "pool_inv L fs (p, h) m" using pool_reach_inv [OF assms(3,1,2)] by blast
  have "is_ok (deleteElement L a (p, h))" if "m a = Some (Some v)" for a v
    using deleteElement_inv [OF inv that] by auto
  moreover have "e = Bad_Alloc" if "newElement os_new L v (p, h) = Inl e" for v e
    using newElement_inv [OF inv assms(2), of v] that by simp
  ultimately show ?thesis
    using slots_in_use [OF inv] slots_apart [OF inv] load_elem_inv [OF inv] by (simp add: domI)
qed

theorem elements_are_kept_apart_witness:
  "\<exists>p h. pool_reach two_blocks small_layout (p, h) [4112 \<mapsto> Some (7 :: int)] \<and>
     load_elem small_layout 4112 h = Inr 7"
proof -
  obtain p h where r: "pool_reach two_blocks small_layout (p, h) [4112 \<mapsto> Some (7 :: int)]"
    using first_element by (metis surj_pair)
  have "load_elem small_layout 4112 h = Inr 7"
    using conjunct1 [OF elements_are_kept_apart [OF small_layout_ok two_blocks_ok r], rule_format, of 4112 7] by simp
  then show ?thesis using r by blast
qed

text \<open>The slot given back last is the one the next allocation returns, without asking the system
  for memory.\<close>

theorem freed_slot_is_reused_first:
  assumes "sizes_ok L" "os_new_ok L os_new" "pool_reach os_new L (p, h) m" "m a = Some (Some v)"
  shows "\<exists>st1 st2. deleteElement L a (p, h) = Inr st1 \<and> newElement (\<lambda>_. None) L w st1 = Inr (a, st2) \<and>
    blocks (snd st2) = blocks h \<and> load_elem L a (snd st2) = Inr w \<and>
    freeSlots (fst st2) = freeSlots p"
proof -
  obtain fs where inv: "pool_inv L fs (p, h) m" using pool_reach_inv [OF assms(3,1,2)] by blast
  obtain h1 where d: "deleteElement L a (p, h) = Inr (p\<lparr>freeSlots := a\<rparr>, h1)" "blocks h1 = blocks h"
      "pool_inv L (a # fs) (p\<lparr>freeSlots := a\<rparr>, h1) (m(a := None))"
    using deleteElement_inv [OF inv assms(4)] by auto
  have f: "hd (fs @ [0]) = freeSlots p" using inv by (cases fs) (auto simp: pool_inv_def)
  have al: "allocate (\<lambda>_. None) L (p\<lparr>freeSlots := a\<rparr>, h1) = Inr (a, p, h1)"
    "pool_inv L fs (p, h1) (m(a := None, a \<mapsto> None))"
    using allocate_free_inv(1) [OF d(3), of "\<lambda>_. None"] allocate_free_inv(2) [OF d(3)] f by simp_all
  obtain h2 where h2: "construct L a w (p, h1) = Inr (p, h2)"
      "pool_inv L fs (p, h2) (m(a := None, a \<mapsto> None, a \<mapsto> Some w))"
    using construct_inv [OF al(2), of a w] by auto
  have "blocks h2 = blocks h1" using h2(1) by (auto simp: construct_def store_cell_def split: if_splits)
  moreover have "load_elem L a h2 = Inr w" by (rule load_elem_inv [OF h2(2)]) simp
  ultimately show ?thesis using d al(1) h2(1) by (auto simp: newElement_def)
qed

theorem freed_slot_is_reused_first_witness:
  "\<exists>p h st1 st2. deleteElement small_layout 4112 (p, h) = Inr st1 \<and>
     newElement (\<lambda>_. None) small_layout (9 :: int) st1 = Inr (4112, st2)"
proof -
  obtain p h where r: "pool_reach two_blocks small_layout (p, h) [4112 \<mapsto> Some (7 :: int)]"
    using first_element by (metis surj_pair)
  have m: "[4112 \<mapsto> Some (7 :: int)] 4112 = Some (Some 7)" by simp
  show ?thesis
    using freed_slot_is_reused_first [OF small_layout_ok two_blocks_ok r m, where w = 9] by blast
qed

text \<open>The destructor of the pool gives every block back to the system, each once.\<close>

theorem destructor_returns_every_block:
  assumes "sizes_ok L" "os_new_ok L os_new" "pool_reach os_new L st m"
  shows "\<exists>h. destroy_pool L st = Inr h \<and> blocks h = []"
proof -
  obtain fs where "pool_inv L fs (fst st, snd st) m" using pool_reach_inv [OF assms(3,1,2)] by auto
  then have "free_blocks L (currentBlock (fst st)) (snd st) = Inr ((snd st)\<lparr>blocks := []\<rparr>)"
    by (intro free_blocks_chain) (simp_all add: pool_inv_def split_beta)
  then show ?thesis by (simp add: destroy_pool_def split_beta)
qed

theorem destructor_returns_every_block_witness:
  "\<exists>st h. newElement two_blocks small_layout (7 :: int) (new_pool, no_memory) = Inr (4112, st) \<and>
     destroy_pool small_layout st = Inr h \<and> blocks h = []"
  using first_element destructor_returns_every_block [OF small_layout_ok two_blocks_ok] by blast

text \<open>The assertion on the block size is inside a comment.  When a block has no room for its header and
  one slot, as with the default of 4096 bytes and an object of 4096 bytes, \<^verbatim>\<open>allocate\<close> hands out memory
  that extends past the end of the block, and constructing the first element writes there.\<close>

theorem small_block_overflows:
  assumes "os_new [] = Some b" "8 \<le> BlockSize L" "BlockSize L < 8 + slot_size L"
  shows "is_ok (allocate os_new L (new_pool, no_memory :: 'a memory)) \<and>
    newElement os_new L (v :: 'a) (new_pool, no_memory) = Inl Out_Of_Bounds"
  using assms
  by (simp add: newElement_def allocate_def allocateBlock_def new_pool_def no_memory_def store_cell_def in_block_def
      construct_def Let_def)

theorem small_block_overflows_witness:
  "newElement two_blocks \<lparr>BlockSize = 4096, slot_size = 4096\<rparr> (1 :: int) (new_pool, no_memory) = Inl Out_Of_Bounds"
  by (rule conjunct2 [OF small_block_overflows [of two_blocks 4096]]) (simp_all add: two_blocks_def)

end
