(* ===== verification/StackAlloc.thy ===== *)
theory StackAlloc
  imports MemoryPool
begin

text \<open>
  The stack \<^verbatim>\<open>MemoryPool/C++11/StackAlloc.h\<close>, a template over its allocator.

  The operations the stack calls are the record \<open>alloc_ops\<close>; what they promise is the locale
  \<open>node_allocator\<close>, in which the stack is shown to be a list.  The contract is interpreted on
  \<^verbatim>\<open>MemoryPool\<close> (theory \<open>MemoryPool\<close>) and on \<^verbatim>\<open>std::allocator\<close>, the two instances that
  \<^verbatim>\<open>MemoryPool/src/test.cpp\<close> compares.
\<close>

section \<open>The stack\<close>

record 'a snode =
  data :: 'a
  prev :: nat

record ('s, 'n) alloc_ops =
  do_allocate :: "'s \<Rightarrow> (nat \<times> 's) result"
  do_construct :: "nat \<Rightarrow> 'n \<Rightarrow> 's \<Rightarrow> 's result"
  do_destroy :: "nat \<Rightarrow> 's \<Rightarrow> 's result"
  do_deallocate :: "nat \<Rightarrow> 's \<Rightarrow> 's result"
  do_load :: "nat \<Rightarrow> 's \<Rightarrow> 'n result"            \<comment> \<open>an access through the pointer\<close>
  do_store :: "nat \<Rightarrow> 'n \<Rightarrow> 's \<Rightarrow> 's result"

record 's stack =
  stack_alloc :: 's
  stack_head :: nat

definition new_stack :: "'s \<Rightarrow> 's stack" where
  "new_stack s = \<lparr>stack_alloc = s, stack_head = 0\<rparr>"

definition stack_empty :: "'s stack \<Rightarrow> bool" where
  "stack_empty k \<longleftrightarrow> stack_head k = 0"

definition deref :: "('s, 'n) alloc_ops \<Rightarrow> nat \<Rightarrow> 's \<Rightarrow> 'n result" where
  "deref A a s = (if a = 0 then Inl Null_Deref else do_load A a s)"

partial_function (option) clear_loop ::
  "('s, 'a snode) alloc_ops \<Rightarrow> nat \<Rightarrow> 's \<Rightarrow> 's result option" where
  "clear_loop A cur s =
     (if cur = 0 then Some (Inr s)
      else (case rbind (deref A cur s) (\<lambda>n.
                 rbind (do_destroy A cur s) (\<lambda>s1.
                 rbind (do_deallocate A cur s1) (\<lambda>s2. Inr (prev n, s2)))) of
              Inl e \<Rightarrow> Some (Inl e)
            | Inr r \<Rightarrow> clear_loop A (fst r) (snd r)))"

definition stack_clear :: "('s, 'a snode) alloc_ops \<Rightarrow> 's stack \<Rightarrow> 's stack result option" where
  "stack_clear A k = map_option (\<lambda>r. rbind r (\<lambda>s. Inr \<lparr>stack_alloc = s, stack_head = 0\<rparr>))
     (clear_loop A (stack_head k) (stack_alloc k))"

text \<open>\<^verbatim>\<open>Node()\<close> holds a default element, \<open>dflt\<close>, and a null pointer.\<close>

definition stack_push :: "('s, 'a snode) alloc_ops \<Rightarrow> 'a \<Rightarrow> 'a \<Rightarrow> 's stack \<Rightarrow> 's stack result" where
  "stack_push A dflt element k =
     rbind (do_allocate A (stack_alloc k)) (\<lambda>(newNode, s1).
     rbind (do_construct A newNode \<lparr>data = dflt, prev = 0\<rparr> s1) (\<lambda>s2.
     rbind (deref A newNode s2) (\<lambda>n.
     rbind (do_store A newNode (n\<lparr>data := element\<rparr>) s2) (\<lambda>s3.
     rbind (deref A newNode s3) (\<lambda>n'.
     rbind (do_store A newNode (n'\<lparr>prev := stack_head k\<rparr>) s3) (\<lambda>s4.
     Inr \<lparr>stack_alloc = s4, stack_head = newNode\<rparr>))))))"

definition stack_pop :: "('s, 'a snode) alloc_ops \<Rightarrow> 's stack \<Rightarrow> ('a \<times> 's stack) result" where
  "stack_pop A k =
     rbind (deref A (stack_head k) (stack_alloc k)) (\<lambda>n.
     let tmp = prev n in
     rbind (do_destroy A (stack_head k) (stack_alloc k)) (\<lambda>s1.
     rbind (do_deallocate A (stack_head k) s1) (\<lambda>s2.
     Inr (data n, \<lparr>stack_alloc = s2, stack_head = tmp\<rparr>))))"

definition stack_top :: "('s, 'a snode) alloc_ops \<Rightarrow> 's stack \<Rightarrow> 'a result" where
  "stack_top A k = rbind (deref A (stack_head k) (stack_alloc k)) (\<lambda>n. Inr (data n))"

section \<open>What an allocator promises\<close>

text \<open>\<open>owns s m\<close>: in the state \<open>s\<close> the client owns the addresses \<open>dom m\<close>; \<open>m a\<close> is the object there,
  \<open>Some None\<close> before it is constructed.\<close>

locale node_allocator =
  fixes A :: "('s, 'n) alloc_ops"
    and owns :: "'s \<Rightarrow> (nat \<Rightarrow> 'n option option) \<Rightarrow> bool"
  assumes allocate: "owns s m \<Longrightarrow> do_allocate A s = Inr (a, s') \<Longrightarrow> a \<noteq> 0 \<and> a \<notin> dom m \<and> owns s' (m(a \<mapsto> None))"
    and allocate_fails: "owns s m \<Longrightarrow> do_allocate A s = Inl e \<Longrightarrow> e = Bad_Alloc"
    and construct: "owns s m \<Longrightarrow> a \<in> dom m \<Longrightarrow> \<exists>s'. do_construct A a n s = Inr s' \<and> owns s' (m(a \<mapsto> Some n))"
    and destroy: "owns s m \<Longrightarrow> m a = Some (Some n) \<Longrightarrow> \<exists>s'. do_destroy A a s = Inr s' \<and> owns s' (m(a \<mapsto> None))"
    and deallocate: "owns s m \<Longrightarrow> a \<in> dom m \<Longrightarrow> \<exists>s'. do_deallocate A a s = Inr s' \<and> owns s' (m(a := None))"
    and load: "owns s m \<Longrightarrow> m a = Some (Some n) \<Longrightarrow> do_load A a s = Inr n"
    and store: "owns s m \<Longrightarrow> m a = Some (Some n) \<Longrightarrow> \<exists>s'. do_store A a n' s = Inr s' \<and> owns s' (m(a \<mapsto> Some n'))"
begin

lemma dispose:
  assumes "owns s m" "m a = Some (Some n)"
  shows "\<exists>s1 s2. do_destroy A a s = Inr s1 \<and> do_deallocate A a s1 = Inr s2 \<and> owns s2 (m(a := None))"
proof -
  obtain s1 where s1: "do_destroy A a s = Inr s1" "owns s1 (m(a \<mapsto> None))" using destroy [OF assms] by blast
  obtain s2 where "do_deallocate A a s1 = Inr s2" "owns s2 ((m(a \<mapsto> None))(a := None))"
    using deallocate [OF s1(2), of a] by auto
  then show ?thesis using s1 by auto
qed

end

fun node_list :: "(nat \<Rightarrow> 'a snode option option) \<Rightarrow> nat \<Rightarrow> nat list \<Rightarrow> 'a list \<Rightarrow> bool" where
  "node_list m p [] vs \<longleftrightarrow> p = 0 \<and> vs = []"
| "node_list m p (a # as) vs \<longleftrightarrow> p = a \<and> a \<noteq> 0 \<and>
     (\<exists>v vs' n. vs = v # vs' \<and> m a = Some (Some \<lparr>data = v, prev = n\<rparr>) \<and> node_list m n as vs')"

lemma node_list_frame: "a \<notin> set as \<Longrightarrow> node_list (m(a := x)) p as vs = node_list m p as vs"
  by (induction as arbitrary: p vs) auto

lemma node_list_Nil_iff: "node_list m p as [] \<longleftrightarrow> p = 0 \<and> as = []"
  by (cases as) auto

definition stack_rep ::
  "('s \<Rightarrow> (nat \<Rightarrow> 'a snode option option) \<Rightarrow> bool) \<Rightarrow> 's stack \<Rightarrow> 'a list \<Rightarrow> bool" where
  "stack_rep owns k vs \<longleftrightarrow> (\<exists>m as. owns (stack_alloc k) m \<and> dom m = set as \<and> distinct as \<and>
     node_list m (stack_head k) as vs)"

locale stack_allocator = node_allocator A owns
  for A :: "('s, 'a snode) alloc_ops" and owns :: "'s \<Rightarrow> (nat \<Rightarrow> 'a snode option option) \<Rightarrow> bool" +
  fixes dflt :: 'a
begin

abbreviation rep where "rep \<equiv> stack_rep owns"

lemma rep_new: "owns s Map.empty \<Longrightarrow> rep (new_stack s) []"
  by (force simp: stack_rep_def new_stack_def)

lemma rep_empty: "rep k vs \<Longrightarrow> stack_empty k \<longleftrightarrow> vs = []"
proof -
  assume "rep k vs"
  then obtain m as where "node_list m (stack_head k) as vs" by (auto simp: stack_rep_def)
  then show ?thesis by (cases as) (auto simp: stack_empty_def)
qed

lemma rep_push:
  assumes "rep k vs"
  shows "stack_push A dflt v k = Inl Bad_Alloc \<or> (\<exists>k'. stack_push A dflt v k = Inr k' \<and> rep k' (v # vs))"
proof (cases "do_allocate A (stack_alloc k)")
  case (Inl e)
  then show ?thesis using assms allocate_fails by (auto simp: stack_rep_def stack_push_def)
next
  case (Inr r)
  obtain a s1 where r: "r = (a, s1)" by fastforce
  obtain m as where k: "owns (stack_alloc k) m" "dom m = set as" "distinct as" "node_list m (stack_head k) as vs"
    using assms by (auto simp: stack_rep_def)
  have a: "a \<noteq> 0" "a \<notin> dom m" "owns s1 (m(a \<mapsto> None))" using allocate [OF k(1)] Inr r by auto
  let ?n = "\<lparr>data = dflt, prev = 0\<rparr>" and ?n' = "\<lparr>data = v, prev = 0\<rparr>"
  let ?n'' = "\<lparr>data = v, prev = stack_head k\<rparr>"
  obtain s2 where s2: "do_construct A a ?n s1 = Inr s2" "owns s2 (m(a \<mapsto> Some ?n))"
    using construct [OF a(3), of a ?n] by auto
  obtain s3 where s3: "do_store A a ?n' s2 = Inr s3" "owns s3 (m(a \<mapsto> Some ?n'))"
    using store [OF s2(2), of a ?n ?n'] by auto
  obtain s4 where s4: "do_store A a ?n'' s3 = Inr s4" "owns s4 (m(a \<mapsto> Some ?n''))"
    using store [OF s3(2), of a ?n' ?n''] by auto
  have l: "do_load A a s2 = Inr ?n" "do_load A a s3 = Inr ?n'"
    using load [OF s2(2), of a ?n] load [OF s3(2), of a ?n'] by auto
  have "stack_push A dflt v k = Inr \<lparr>stack_alloc = s4, stack_head = a\<rparr>"
    using Inr r a(1) s2(1) s3(1) s4(1) l by (simp add: stack_push_def deref_def)
  moreover have "rep \<lparr>stack_alloc = s4, stack_head = a\<rparr> (v # vs)"
    unfolding stack_rep_def
    by (intro exI [of _ "m(a \<mapsto> Some ?n'')"] exI [of _ "a # as"])
      (use s4(2) k a in \<open>auto simp: node_list_frame\<close>)
  ultimately show ?thesis by blast
qed

lemma rep_top: "rep k (v # vs) \<Longrightarrow> stack_top A k = Inr v"
proof -
  assume "rep k (v # vs)"
  then obtain m as where "owns (stack_alloc k) m" "node_list m (stack_head k) as (v # vs)"
    by (auto simp: stack_rep_def)
  then show ?thesis using load by (cases as) (auto simp: stack_top_def deref_def)
qed

lemma empty_errors: "rep k [] \<Longrightarrow> stack_top A k = Inl Null_Deref \<and> stack_pop A k = Inl Null_Deref"
  by (auto simp: stack_rep_def node_list_Nil_iff stack_top_def stack_pop_def deref_def)

lemma rep_pop:
  assumes "rep k (v # vs)"
  shows "\<exists>k'. stack_pop A k = Inr (v, k') \<and> rep k' vs"
proof -
  obtain m as where k: "owns (stack_alloc k) m" "dom m = set as" "distinct as" "node_list m (stack_head k) as (v # vs)"
    using assms by (auto simp: stack_rep_def)
  then obtain a as' n where as: "as = a # as'" "stack_head k = a" "a \<noteq> 0"
      "m a = Some (Some \<lparr>data = v, prev = n\<rparr>)" "node_list m n as' vs"
    by (cases as) auto
  obtain s1 s2 where s: "do_destroy A a (stack_alloc k) = Inr s1" "do_deallocate A a s1 = Inr s2" "owns s2 (m(a := None))"
    using dispose [OF k(1) as(4)] by blast
  have "stack_pop A k = Inr (v, \<lparr>stack_alloc = s2, stack_head = n\<rparr>)"
    using s as load [OF k(1) as(4)] by (simp add: stack_pop_def deref_def)
  moreover have "rep \<lparr>stack_alloc = s2, stack_head = n\<rparr> vs"
    unfolding stack_rep_def
    by (intro exI [of _ "m(a := None)"] exI [of _ as']) (use k as s(3) in \<open>auto simp: node_list_frame\<close>)
  ultimately show ?thesis by blast
qed

lemma clear_loop_inv:
  "owns s m \<Longrightarrow> dom m = set as \<Longrightarrow> distinct as \<Longrightarrow> node_list m q as vs \<Longrightarrow>
   \<exists>s'. clear_loop A q s = Some (Inr s') \<and> owns s' Map.empty"
proof (induction as arbitrary: q s m vs)
  case Nil
  then show ?case by (simp add: clear_loop.simps)
next
  case (Cons a as)
  obtain v n vs' where n: "q = a" "a \<noteq> 0" "m a = Some (Some \<lparr>data = v, prev = n\<rparr>)" "node_list m n as vs'"
    using Cons.prems(4) by auto
  obtain s1 s2 where s: "do_destroy A a s = Inr s1" "do_deallocate A a s1 = Inr s2" "owns s2 (m(a := None))"
    using dispose [OF Cons.prems(1) n(3)] by blast
  have "clear_loop A q s = clear_loop A n s2"
    using n s load [OF Cons.prems(1) n(3)] by (simp add: clear_loop.simps [of A a s] deref_def)
  moreover have "\<exists>s'. clear_loop A n s2 = Some (Inr s') \<and> owns s' Map.empty"
  proof (rule Cons.IH [OF s(3)])
    show "dom (m(a := None)) = set as" using Cons.prems(2,3) by simp
    show "distinct as" using Cons.prems(3) by simp
    show "node_list (m(a := None)) n as vs'" using n(4) Cons.prems(3) node_list_frame [of a as m None] by simp
  qed
  ultimately show ?case by simp
qed

lemma rep_clear: "rep k vs \<Longrightarrow> \<exists>k'. stack_clear A k = Some (Inr k') \<and> rep k' []"
proof -
  assume "rep k vs"
  then obtain m as where "owns (stack_alloc k) m" "dom m = set as" "distinct as" "node_list m (stack_head k) as vs"
    by (auto simp: stack_rep_def)
  from clear_loop_inv [OF this] show ?thesis
    by (force simp: stack_clear_def stack_rep_def)
qed

end

section \<open>Runs of a stack\<close>

datatype 'a call = Push 'a | Pop | Top | Empty | Clear

datatype 'a answer = Done | Value 'a | Is bool

definition stack_call ::
  "('s, 'a snode) alloc_ops \<Rightarrow> 'a \<Rightarrow> 'a call \<Rightarrow> 's stack \<Rightarrow> ('a answer \<times> 's stack) result option" where
  "stack_call A dflt c k = (case c of
     Push v \<Rightarrow> Some (rbind (stack_push A dflt v k) (\<lambda>k'. Inr (Done, k')))
   | Pop \<Rightarrow> Some (rbind (stack_pop A k) (\<lambda>(v, k'). Inr (Value v, k')))
   | Top \<Rightarrow> Some (rbind (stack_top A k) (\<lambda>v. Inr (Value v, k)))
   | Empty \<Rightarrow> Some (Inr (Is (stack_empty k), k))
   | Clear \<Rightarrow> map_option (\<lambda>r. rbind r (\<lambda>k'. Inr (Done, k'))) (stack_clear A k))"

text \<open>A run stops at the first error; it returns the answers given so far.\<close>

fun stack_run ::
  "('s, 'a snode) alloc_ops \<Rightarrow> 'a \<Rightarrow> 'a call list \<Rightarrow> 's stack \<Rightarrow> ('a answer list \<times> cpp_error option) option" where
  "stack_run A dflt [] k = Some ([], None)"
| "stack_run A dflt (c # cs) k = (case stack_call A dflt c k of
     None \<Rightarrow> None
   | Some (Inl e) \<Rightarrow> Some ([], Some e)
   | Some (Inr (x, k')) \<Rightarrow> map_option (\<lambda>(xs, e). (x # xs, e)) (stack_run A dflt cs k'))"

text \<open>The same calls on a list\<close>

fun list_call :: "'a call \<Rightarrow> 'a list \<Rightarrow> ('a answer \<times> 'a list) result" where
  "list_call (Push v) vs = Inr (Done, v # vs)"
| "list_call Pop vs = (case vs of [] \<Rightarrow> Inl Null_Deref | v # vs' \<Rightarrow> Inr (Value v, vs'))"
| "list_call Top vs = (case vs of [] \<Rightarrow> Inl Null_Deref | v # vs' \<Rightarrow> Inr (Value v, vs))"
| "list_call Empty vs = Inr (Is (vs = []), vs)"
| "list_call Clear vs = Inr (Done, [])"

fun list_run :: "'a call list \<Rightarrow> 'a list \<Rightarrow> 'a answer list \<times> cpp_error option" where
  "list_run [] vs = ([], None)"
| "list_run (c # cs) vs = (case list_call c vs of
     Inl e \<Rightarrow> ([], Some e)
   | Inr (x, vs') \<Rightarrow> (case list_run cs vs' of (xs, e) \<Rightarrow> (x # xs, e)))"

context stack_allocator begin

lemma call_refines:
  assumes "rep k vs"
  shows "stack_call A dflt c k = Some (Inl Bad_Alloc) \<or>
    (case list_call c vs of
       Inl e \<Rightarrow> stack_call A dflt c k = Some (Inl e)
     | Inr (x, vs') \<Rightarrow> \<exists>k'. stack_call A dflt c k = Some (Inr (x, k')) \<and> rep k' vs')"
proof (cases c)
  case (Push v)
  then show ?thesis using rep_push [OF assms, of v] by (auto simp: stack_call_def)
next
  case Pop
  then show ?thesis using rep_pop [of k] empty_errors [of k] assms
    by (cases vs) (auto simp: stack_call_def, fastforce)
next
  case Top
  then show ?thesis using rep_top [of k] empty_errors [of k] assms
    by (cases vs) (auto simp: stack_call_def)
next
  case Empty
  then show ?thesis using rep_empty [OF assms] assms by (simp add: stack_call_def)
next
  case Clear
  then show ?thesis using rep_clear [OF assms] by (auto simp: stack_call_def)
qed

text \<open>The answers are those of the list, up to the call that finds no memory.\<close>

lemma run_refines:
  "rep k vs \<Longrightarrow> stack_run A dflt cs k = Some (list_run cs vs) \<or>
    (\<exists>n < length cs. stack_run A dflt cs k = Some (take n (fst (list_run cs vs)), Some Bad_Alloc))"
proof (induction cs arbitrary: k vs)
  case Nil
  then show ?case by simp
next
  case (Cons c cs)
  show ?case
  proof (cases "stack_call A dflt c k = Some (Inl Bad_Alloc)")
    case True
    then show ?thesis by (intro disjI2 exI [of _ 0]) simp
  next
    case False
    show ?thesis
    proof (cases "list_call c vs")
      case (Inl e)
      then show ?thesis using call_refines [OF Cons.prems, of c] False by simp
    next
      case (Inr r)
      obtain x vs' where r: "r = (x, vs')" by fastforce
      obtain k' where k': "stack_call A dflt c k = Some (Inr (x, k'))" "rep k' vs'"
        using call_refines [OF Cons.prems, of c] False Inr r by auto
      obtain xs e where l: "list_run cs vs' = (xs, e)" by fastforce
      from Cons.IH [OF k'(2)] show ?thesis
      proof
        assume "stack_run A dflt cs k' = Some (list_run cs vs')"
        then show ?thesis using k' Inr r l by simp
      next
        assume "\<exists>n<length cs. stack_run A dflt cs k' = Some (take n (fst (list_run cs vs')), Some Bad_Alloc)"
        then obtain n where "n < length cs"
            "stack_run A dflt cs k' = Some (take n (fst (list_run cs vs')), Some Bad_Alloc)" by blast
        then show ?thesis using k' Inr r l by (intro disjI2 exI [of _ "Suc n"]) simp
      qed
    qed
  qed
qed

end

section \<open>The two allocators\<close>

text \<open>\<^verbatim>\<open>MemoryPool<Node>\<close>: an access through the pointer is an access to the element of the slot.\<close>

definition pool_store :: "layout \<Rightarrow> nat \<Rightarrow> 'n \<Rightarrow> mpool \<times> 'n memory \<Rightarrow> (mpool \<times> 'n memory) result" where
  "pool_store L a n st = rbind (load_elem L a (snd st)) (\<lambda>_. construct L a n st)"

definition pool_ops :: "(nat list \<Rightarrow> nat option) \<Rightarrow> layout \<Rightarrow> (mpool \<times> 'n memory, 'n) alloc_ops" where
  "pool_ops os_new L = \<lparr>do_allocate = allocate os_new L, do_construct = construct L, do_destroy = destroy L,
     do_deallocate = deallocate L, do_load = (\<lambda>a st. load_elem L a (snd st)), do_store = pool_store L\<rparr>"

definition pool_owns ::
  "(nat list \<Rightarrow> nat option) \<Rightarrow> layout \<Rightarrow> mpool \<times> 'n memory \<Rightarrow> (nat \<Rightarrow> 'n option option) \<Rightarrow> bool" where
  "pool_owns os_new L st m \<longleftrightarrow> sizes_ok L \<and> os_new_ok L os_new \<and> (\<exists>fs. pool_inv L fs st m)"

interpretation memory_pool: stack_allocator "pool_ops os_new L" "pool_owns os_new L" dflt for os_new L dflt
proof unfold_locales
  fix st m a st'
  assume "pool_owns os_new L st m" "do_allocate (pool_ops os_new L) st = Inr (a, st')"
  then show "a \<noteq> 0 \<and> a \<notin> dom m \<and> pool_owns os_new L st' (m(a \<mapsto> None))"
    using allocate_inv [of L _ "fst st" "snd st" m os_new a st'] by (auto simp: pool_owns_def pool_ops_def)
next
  fix st m e
  assume "pool_owns os_new L st m" "do_allocate (pool_ops os_new L) st = Inl e"
  then show "e = Bad_Alloc"
    using allocate_fails_only_without_memory [of L _ "fst st" "snd st" m os_new e]
    by (auto simp: pool_owns_def pool_ops_def)
next
  fix st m a n
  assume "pool_owns os_new L st m" "a \<in> dom m"
  then show "\<exists>st'. do_construct (pool_ops os_new L) a n st = Inr st' \<and> pool_owns os_new L st' (m(a \<mapsto> Some n))"
    using construct_inv [of L _ "fst st" "snd st" m a n]
    by (simp add: pool_owns_def pool_ops_def) blast
next
  fix st m a n
  assume "pool_owns os_new L st m" "m a = Some (Some n)"
  then show "\<exists>st'. do_destroy (pool_ops os_new L) a st = Inr st' \<and> pool_owns os_new L st' (m(a \<mapsto> None))"
    using destroy_inv [of L _ "fst st" "snd st" m a n] by (simp add: pool_owns_def pool_ops_def) blast
next
  fix st m a
  assume "pool_owns os_new L st m" "a \<in> dom m"
  then show "\<exists>st'. do_deallocate (pool_ops os_new L) a st = Inr st' \<and> pool_owns os_new L st' (m(a := None))"
    using deallocate_inv [of L _ "fst st" "snd st" m a] by (simp add: pool_owns_def pool_ops_def) blast
next
  fix st m a n
  assume "pool_owns os_new L st m" "m a = Some (Some n)"
  then show "do_load (pool_ops os_new L) a st = Inr n"
    using load_elem_inv [of L _ "fst st" "snd st" m a n] by (auto simp: pool_owns_def pool_ops_def)
next
  fix st m a n n'
  assume o: "pool_owns os_new L st m" and m: "m a = Some (Some n)"
  then obtain fs where inv: "pool_inv L fs (fst st, snd st) m" by (auto simp: pool_owns_def)
  have "load_elem L a (snd st) = Inr n" by (rule load_elem_inv [OF inv m])
  then show "\<exists>st'. do_store (pool_ops os_new L) a n' st = Inr st' \<and> pool_owns os_new L st' (m(a \<mapsto> Some n'))"
    using construct_inv [OF inv, of a n'] o m by (simp add: pool_owns_def pool_ops_def pool_store_def domI) blast
qed

text \<open>\<^verbatim>\<open>std::allocator<Node>\<close>: every node comes from \<^verbatim>\<open>operator new\<close>, which returns memory not in
  use.  The state is what the client owns; other addresses may not be touched.\<close>

definition std_ops :: "((nat \<Rightarrow> 'n option option) \<Rightarrow> nat option) \<Rightarrow> (nat \<Rightarrow> 'n option option, 'n) alloc_ops" where
  "std_ops new_node = \<lparr>
     do_allocate = (\<lambda>m. case new_node m of None \<Rightarrow> Inl Bad_Alloc | Some a \<Rightarrow> Inr (a, m(a \<mapsto> None))),
     do_construct = (\<lambda>a n m. if m a = None then Inl Dangling else Inr (m(a \<mapsto> Some n))),
     do_destroy = (\<lambda>a m. case m a of Some (Some n) \<Rightarrow> Inr (m(a \<mapsto> None)) | _ \<Rightarrow> Inl Dangling),
     do_deallocate = (\<lambda>a m. if m a = None then Inl Dangling else Inr (m(a := None))),
     do_load = (\<lambda>a m. case m a of None \<Rightarrow> Inl Dangling | Some None \<Rightarrow> Inl Uninitialised | Some (Some n) \<Rightarrow> Inr n),
     do_store = (\<lambda>a n m. if m a = None then Inl Dangling else Inr (m(a \<mapsto> Some n)))\<rparr>"

definition std_owns ::
  "((nat \<Rightarrow> 'n option option) \<Rightarrow> nat option) \<Rightarrow> (nat \<Rightarrow> 'n option option) \<Rightarrow> (nat \<Rightarrow> 'n option option) \<Rightarrow> bool" where
  "std_owns new_node s m \<longleftrightarrow> s = m \<and> (\<forall>m a. new_node m = Some a \<longrightarrow> a \<noteq> 0 \<and> a \<notin> dom m)"

interpretation std_allocator: stack_allocator "std_ops new_node" "std_owns new_node" dflt for new_node dflt
  by unfold_locales (auto simp: std_ops_def std_owns_def split: option.splits)

section \<open>Properties\<close>

text \<open>C25: When a block of the pool has room for two nodes (\<open>sizes_ok\<close>, the check that
  \<^verbatim>\<open>MemoryPool.h\<close> has commented out) and \<^verbatim>\<open>operator new\<close> keeps its contract, a stack on a memory pool
  answers every sequence of calls as a list would, errors of an empty stack included, up to the first call for which
  the system has no block left.  With smaller blocks the first \<^verbatim>\<open>push\<close> already writes behind its block
  (\<open>small_block_overflows\<close>).\<close>

theorem pool_stack_is_a_list:
  assumes "sizes_ok L" "os_new_ok L os_new"
  shows "stack_run (pool_ops os_new L) dflt cs (new_stack (new_pool, no_memory)) = Some (list_run cs []) \<or>
    (\<exists>n < length cs. stack_run (pool_ops os_new L) dflt cs (new_stack (new_pool, no_memory))
       = Some (take n (fst (list_run cs [])), Some Bad_Alloc))"
proof -
  have "pool_owns os_new L (new_pool, no_memory) Map.empty"
    using assms new_pool_inv [OF assms(1)] by (auto simp: pool_owns_def no_memory_def)
  then show ?thesis by (intro memory_pool.run_refines memory_pool.rep_new)
qed

theorem pool_stack_is_a_list_witness:
  "stack_run (pool_ops two_blocks small_layout) 0 [Push (5 :: int), Push 6, Pop, Top]
     (new_stack (new_pool, no_memory)) \<noteq> None"
  using pool_stack_is_a_list [OF small_layout_ok two_blocks_ok, of 0 "[Push (5 :: int), Push 6, Pop, Top]"] by auto

text \<open>With memory to spare, the stack on the pool and the stack on \<^verbatim>\<open>std::allocator\<close> give the same
  answers: neither run ends with \<^verbatim>\<open>bad_alloc\<close>.\<close>

theorem pool_and_std_stacks_agree:
  assumes "sizes_ok L" "os_new_ok L os_new" "\<And>m a. new_node m = Some a \<Longrightarrow> a \<noteq> 0 \<and> a \<notin> dom m"
    and "\<And>xs. stack_run (pool_ops os_new L) dflt cs (new_stack (new_pool, no_memory)) \<noteq> Some (xs, Some Bad_Alloc)"
    and "\<And>xs. stack_run (std_ops new_node) dflt cs (new_stack Map.empty) \<noteq> Some (xs, Some Bad_Alloc)"
  shows "stack_run (pool_ops os_new L) dflt cs (new_stack (new_pool, no_memory))
    = stack_run (std_ops new_node) dflt cs (new_stack Map.empty)"
proof -
  have "pool_owns os_new L (new_pool, no_memory) Map.empty"
    using assms(1,2) new_pool_inv [OF assms(1)] by (auto simp: pool_owns_def no_memory_def)
  then have "stack_run (pool_ops os_new L) dflt cs (new_stack (new_pool, no_memory)) = Some (list_run cs [])"
    using memory_pool.run_refines [OF memory_pool.rep_new, of os_new L "(new_pool, no_memory)" dflt cs] assms(4)
    by blast
  moreover have "std_owns new_node Map.empty Map.empty" using assms(3) by (auto simp: std_owns_def)
  then have "stack_run (std_ops new_node) dflt cs (new_stack Map.empty) = Some (list_run cs [])"
    using std_allocator.run_refines [OF std_allocator.rep_new, of new_node Map.empty dflt cs] assms(5)
    by blast
  ultimately show ?thesis by simp
qed

definition one_node :: "(nat \<Rightarrow> 'n option option) \<Rightarrow> nat option" where
  "one_node m = (if m 8 = None then Some 8 else None)"

theorem pool_and_std_stacks_agree_witness:
  "stack_run (pool_ops two_blocks small_layout) 0 [Push (5 :: int), Top, Pop, Pop] (new_stack (new_pool, no_memory))
     = stack_run (std_ops one_node) 0 [Push 5, Top, Pop, Pop] (new_stack Map.empty)"
  by (rule pool_and_std_stacks_agree [OF small_layout_ok two_blocks_ok])
    (auto simp: one_node_def stack_call_def stack_push_def stack_top_def stack_pop_def new_stack_def pool_ops_def
      std_ops_def pool_store_def deref_def pool_eval destroy_def deallocate_def split: if_splits)

end
