(* ===== verification/EchoServer.thy ===== *)
theory EchoServer
  imports Prelude "HOL-Library.Sublist"
begin

text \<open>
  The edge triggered echo server \<^verbatim>\<open>epoll/epoll_server.cpp\<close>.

  The state holds the descriptors the process has open, the interest list of the epoll instance and
  what was sent and printed.  The kernel side is what \<^verbatim>\<open>recv\<close> will find for every connection (bytes,
  the end of the stream, an error), the set of connections whose peer is gone, where \<^verbatim>\<open>send\<close> raises
  SIGPIPE, and how many bytes each call of \<^verbatim>\<open>send\<close> takes: the sockets do not block, so that it may take a part of
  what it is given or nothing, and the program does not look at its result.  \<^verbatim>\<open>epoll_ctl\<close> can fail: the program prints a
  message and goes on, and the descriptor stays open without being watched; \<open>e_unwatched\<close> records these descriptors.
  \<^verbatim>\<open>client_buffers_\<close> is never filled and left out; \<^verbatim>\<open>fcntl\<close> succeeds.
\<close>

section \<open>State and kernel calls\<close>

datatype arrival = Data string | Peer_closed | Recv_error

record echo =
  server_fd :: int
  e_open :: "int set"
  e_interest :: "int set"
  e_unwatched :: "int set"         \<comment> \<open>added, but \<^verbatim>\<open>epoll_ctl\<close> failed\<close>
  e_inbox :: "int \<Rightarrow> arrival list"
  e_gone :: "int set"
  e_takes :: "nat \<Rightarrow> nat"           \<comment> \<open>how many bytes the \<open>k\<close>th call of \<^verbatim>\<open>send\<close> takes at most\<close>
  e_calls :: nat                   \<comment> \<open>the calls of \<^verbatim>\<open>send\<close> so far\<close>
  e_sent :: "(int \<times> string) list"
  e_out :: "string list"

definition BUFFER_SIZE :: nat where "BUFFER_SIZE = 1024"

datatype received = Bytes string | Would_block | Fails

text \<open>\<^verbatim>\<open>recv\<close> takes at most \<open>n\<close> of the bytes that arrived together; no bytes mean the end of the stream.\<close>

definition recv :: "int \<Rightarrow> nat \<Rightarrow> echo \<Rightarrow> received \<times> echo" where
  "recv fd n s = (if fd \<notin> e_open s then (Fails, s) else (case e_inbox s fd of
     [] \<Rightarrow> (Would_block, s)
   | Data bs # rest \<Rightarrow> (Bytes (take n bs),
       s\<lparr>e_inbox := (e_inbox s)(fd := (if length bs \<le> n then rest else Data (drop n bs) # rest))\<rparr>)
   | Peer_closed # rest \<Rightarrow> (Bytes [], s)
   | Recv_error # rest \<Rightarrow> (Fails, s\<lparr>e_inbox := (e_inbox s)(fd := rest)\<rparr>)))"

text \<open>\<open>e_sent\<close> has what really goes out; a call that takes nothing is one that fails with \<^verbatim>\<open>EAGAIN\<close>.\<close>

definition send :: "int \<Rightarrow> string \<Rightarrow> echo \<Rightarrow> echo result" where
  "send fd bytes s = (if fd \<in> e_gone s then Inl (Exit_With ''SIGPIPE'')
     else Inr (s\<lparr>e_sent := e_sent s @ [(fd, take (e_takes s (e_calls s)) bytes)], e_calls := Suc (e_calls s)\<rparr>))"

definition say :: "string \<Rightarrow> echo \<Rightarrow> echo" where
  "say line s = s\<lparr>e_out := e_out s @ [line]\<rparr>"

section \<open>The members of the class\<close>

text \<open>\<open>ok\<close> says whether \<^verbatim>\<open>epoll_ctl\<close> has the memory and the watches it needs.\<close>

definition add_to_epoll :: "bool \<Rightarrow> int \<Rightarrow> echo \<Rightarrow> echo" where
  "add_to_epoll ok fd s =
     (if ok \<and> fd \<in> e_open s \<and> fd \<notin> e_interest s then s\<lparr>e_interest := insert fd (e_interest s)\<rparr>
      else say ''epoll_ctl add'' (s\<lparr>e_unwatched := e_unwatched s \<union> ({fd} - e_interest s)\<rparr>))"

definition remove_from_epoll :: "int \<Rightarrow> echo \<Rightarrow> echo" where
  "remove_from_epoll fd s = (if fd \<in> e_interest s then s\<lparr>e_interest := e_interest s - {fd}\<rparr>
     else say ''epoll_ctl del'' s)"

definition close_fd :: "int \<Rightarrow> echo \<Rightarrow> echo" where
  "close_fd fd s = s\<lparr>e_open := e_open s - {fd}, e_interest := e_interest s - {fd}, e_unwatched := e_unwatched s - {fd}\<rparr>"

definition handle_client_disconnect :: "int \<Rightarrow> echo \<Rightarrow> echo" where
  "handle_client_disconnect fd s =
     close_fd fd (remove_from_epoll fd (say (''Client '' @ show_int fd @ '' disconnected'') s))"

definition greeting :: string where
  "greeting = ''Welcome to epoll server!'' @ [LF]"

definition handle_new_connection :: "bool \<Rightarrow> int option \<Rightarrow> echo \<Rightarrow> echo result" where
  "handle_new_connection added accepted s = (case accepted of
     None \<Rightarrow> Inr (say ''accept'' s)
   | Some client_fd \<Rightarrow>
       send client_fd greeting (say ''New connection from: ''
         (add_to_epoll added client_fd (s\<lparr>e_open := insert client_fd (e_open s)\<rparr>))))"

definition contains :: "string \<Rightarrow> string \<Rightarrow> bool" where
  "contains p s \<longleftrightarrow> list_ex (prefix p) (suffixes s)"

fun inbox_size :: "arrival list \<Rightarrow> nat" where
  "inbox_size [] = 0"
| "inbox_size (Data bs # xs) = Suc (length bs) + inbox_size xs"
| "inbox_size (_ # xs) = Suc (inbox_size xs)"

text \<open>The loop ends because every turn that goes on has taken bytes from the inbox.\<close>

function handle_client_data :: "int \<Rightarrow> echo \<Rightarrow> echo result" where
  "handle_client_data fd s = (case recv fd (BUFFER_SIZE - 1) s of
     (Would_block, s1) \<Rightarrow> Inr s1
   | (Fails, s1) \<Rightarrow> Inr (handle_client_disconnect fd (say ''recv'' s1))
   | (Bytes buffer, s1) \<Rightarrow>
       if buffer = [] then Inr (handle_client_disconnect fd s1)
       else
         (let message = cstr buffer;
              s2 = say (''Received from client '' @ show_int fd @ '': '' @ message) s1
          in case send fd (''Echo: '' @ message) s2 of
               Inl e \<Rightarrow> Inl e
             | Inr s3 \<Rightarrow> if contains ''quit'' message then Inr (handle_client_disconnect fd s3)
                         else handle_client_data fd s3))"
  by pat_completeness auto
termination
proof (relation "measure (\<lambda>(fd, s). inbox_size (e_inbox s fd))", goal_cases)
  case (2 fd s r s1 buffer message s2 s3)
  then obtain bs rest where "e_inbox s fd = Data bs # rest" "bs \<noteq> []"
      "e_inbox s1 fd = (if length bs \<le> BUFFER_SIZE - 1 then rest else Data (drop (BUFFER_SIZE - 1) bs) # rest)"
    by (auto simp: recv_def split: if_splits list.splits arrival.splits)
  moreover have "e_inbox s3 fd = e_inbox s1 fd" using 2 by (auto simp: send_def say_def Let_def split: if_splits)
  ultimately show ?case by (auto simp: BUFFER_SIZE_def split: if_splits)
qed simp

declare handle_client_data.simps [simp del]

record epoll_ev =
  ev_fd :: int
  ev_in :: bool
  ev_err_hup :: bool
  ev_accepted :: "int option"      \<comment> \<open>what \<^verbatim>\<open>accept\<close> returns, when the event is the server's\<close>
  ev_added :: bool                 \<comment> \<open>whether \<^verbatim>\<open>epoll_ctl\<close> succeeds for the new connection\<close>

definition handle_event :: "epoll_ev \<Rightarrow> echo \<Rightarrow> echo result" where
  "handle_event ev s =
     (if ev_fd ev = server_fd s then handle_new_connection (ev_added ev) (ev_accepted ev) s
      else rbind (if ev_in ev then handle_client_data (ev_fd ev) s else Inr s) (\<lambda>s1.
           Inr (if ev_err_hup ev then handle_client_disconnect (ev_fd ev) s1 else s1)))"

text \<open>The events of the calls of \<^verbatim>\<open>epoll_wait\<close>, in order; a call that fails is repeated.\<close>

fun run :: "epoll_ev list \<Rightarrow> echo \<Rightarrow> echo result" where
  "run [] s = Inr s"
| "run (ev # evs) s = rbind (handle_event ev s) (run evs)"

text \<open>The constructor; \<open>Inl\<close> names the call that fails, after which nobody closes the socket.\<close>

record server_setup =
  socket_fd :: "int option"
  setsockopt_ok :: bool
  bind_ok :: bool
  listen_ok :: bool
  epoll_ok :: bool
  epoll_add_ok :: bool
  takes :: "nat \<Rightarrow> nat"

definition start_echo :: "int \<Rightarrow> (nat \<Rightarrow> nat) \<Rightarrow> echo" where
  "start_echo fd tk = \<lparr>server_fd = fd, e_open = {fd}, e_interest = {}, e_unwatched = {}, e_inbox = (\<lambda>_. []), e_gone = {},
     e_takes = tk, e_calls = 0, e_sent = [], e_out = []\<rparr>"

definition new_server :: "server_setup \<Rightarrow> string + echo" where
  "new_server k = (case socket_fd k of
     None \<Rightarrow> Inl ''Failed to create socket''
   | Some fd \<Rightarrow>
       if \<not> setsockopt_ok k then Inl ''Failed to set socket options''
       else if \<not> bind_ok k then Inl ''Failed to bind''
       else if \<not> listen_ok k then Inl ''Failed to listen''
       else if \<not> epoll_ok k then Inl ''Failed to create epoll''
       else Inr (add_to_epoll (epoll_add_ok k) fd (start_echo fd (takes k))))"

section \<open>Reading a connection\<close>

text \<open>The pieces in which \<^verbatim>\<open>recv\<close> hands over bytes that arrived together\<close>

function pieces :: "string \<Rightarrow> string list" where
  "pieces bs = (if bs = [] then [] else take (BUFFER_SIZE - 1) bs # pieces (drop (BUFFER_SIZE - 1) bs))"
  by pat_completeness auto
termination
  by (relation "measure length") (auto simp: BUFFER_SIZE_def)

declare pieces.simps [simp del]

lemma pieces_Nil [simp]: "pieces [] = []"
  by (simp add: pieces.simps)

lemma pieces_short: "bs \<noteq> [] \<Longrightarrow> length bs \<le> 1023 \<Longrightarrow> pieces bs = [bs]"
  by (simp add: pieces.simps [of bs] BUFFER_SIZE_def)

lemma concat_pieces: "concat (pieces bs) = bs"
proof (induction bs rule: pieces.induct)
  case (1 bs)
  then show ?case by (cases "bs = []") (simp_all add: pieces.simps [of bs])
qed

lemma length_piece: "p \<in> set (pieces bs) \<Longrightarrow> p \<noteq> [] \<and> length p \<le> 1023"
proof (induction bs rule: pieces.induct)
  case (1 bs)
  then show ?case by (cases "bs = []") (auto simp: pieces.simps [of bs] BUFFER_SIZE_def)
qed

definition answer :: "int \<Rightarrow> string \<Rightarrow> int \<times> string" where
  "answer fd piece = (fd, ''Echo: '' @ cstr piece)"

text \<open>What goes out of a list of answers, from the \<open>k\<close>th call of \<^verbatim>\<open>send\<close> on\<close>

fun accepted :: "(nat \<Rightarrow> nat) \<Rightarrow> nat \<Rightarrow> (int \<times> string) list \<Rightarrow> (int \<times> string) list" where
  "accepted tk k [] = []"
| "accepted tk k ((fd, m) # ms) = (fd, take (tk k) m) # accepted tk (Suc k) ms"

lemma accepted_append: "accepted tk k (xs @ ys) = accepted tk k xs @ accepted tk (k + length xs) ys"
  by (induction tk k xs rule: accepted.induct) auto

lemma accepted_all: "(\<forall>i < length ms. length (snd (ms ! i)) \<le> tk (k + i)) \<Longrightarrow> accepted tk k ms = ms"
proof (induction tk k ms rule: accepted.induct)
  case (2 tk k fd m ms)
  have "length m \<le> tk k" using spec [OF "2.prems", of 0] by simp
  moreover have "\<forall>i < length ms. length (snd (ms ! i)) \<le> tk (Suc k + i)"
  proof (intro allI impI)
    fix i assume "i < length ms"
    then show "length (snd (ms ! i)) \<le> tk (Suc k + i)" using spec [OF "2.prems", of "Suc i"] by simp
  qed
  ultimately show ?case using "2.IH" by simp
qed simp

definition same_connections :: "echo \<Rightarrow> echo \<Rightarrow> bool" where
  "same_connections s s' \<longleftrightarrow> e_open s' = e_open s \<and> e_interest s' = e_interest s \<and> e_unwatched s' = e_unwatched s \<and>
     e_gone s' = e_gone s \<and> e_takes s' = e_takes s \<and> server_fd s' = server_fd s"

text \<open>The answers \<open>ms\<close> were handed to \<^verbatim>\<open>send\<close>, and nothing else.\<close>

definition handed :: "(int \<times> string) list \<Rightarrow> echo \<Rightarrow> echo \<Rightarrow> bool" where
  "handed ms s s' \<longleftrightarrow> e_sent s' = e_sent s @ accepted (e_takes s) (e_calls s) ms \<and> e_calls s' = e_calls s + length ms"

lemma handed_trans:
  "handed xs s s1 \<Longrightarrow> e_takes s1 = e_takes s \<Longrightarrow> handed ys s1 s2 \<Longrightarrow> handed (xs @ ys) s s2"
  by (simp add: handed_def accepted_append)

text \<open>One turn of the loop, by what arrives next\<close>

lemma loop_turn:
  assumes "fd \<in> e_open s" "fd \<notin> e_gone s" "e_inbox s fd = Data bs # rest" "bs \<noteq> []"
    and "\<not> contains ''quit'' (cstr (take (BUFFER_SIZE - 1) bs))"
  shows "\<exists>s'. handle_client_data fd s = handle_client_data fd s' \<and> same_connections s s' \<and>
    e_inbox s' = (e_inbox s)(fd := (if length bs \<le> BUFFER_SIZE - 1 then rest else Data (drop (BUFFER_SIZE - 1) bs) # rest)) \<and>
    handed [answer fd (take (BUFFER_SIZE - 1) bs)] s s'"
proof -
  have ne: "take (BUFFER_SIZE - 1) bs \<noteq> []" using assms(4) by (simp add: BUFFER_SIZE_def)
  let ?p = "take (BUFFER_SIZE - 1) bs"
  define s1 where "s1 = s\<lparr>e_inbox := (e_inbox s)(fd := (if length bs \<le> BUFFER_SIZE - 1 then rest else Data (drop (BUFFER_SIZE - 1) bs) # rest))\<rparr>"
  define s2 where "s2 = say (''Received from client '' @ show_int fd @ '': '' @ cstr ?p) s1"
  define s3 where "s3 = s2\<lparr>e_sent := e_sent s2 @ accepted (e_takes s2) (e_calls s2) [answer fd ?p], e_calls := Suc (e_calls s2)\<rparr>"
  have "recv fd (BUFFER_SIZE - 1) s = (Bytes ?p, s1)" using assms by (simp add: recv_def s1_def)
  moreover have "send fd (''Echo: '' @ cstr ?p) s2 = Inr s3"
    using assms(2) by (simp add: send_def s3_def s2_def s1_def say_def answer_def)
  ultimately have "handle_client_data fd s = handle_client_data fd s3"
    using ne assms(5) by (subst handle_client_data.simps) (simp add: Let_def s2_def)
  then show ?thesis by (intro exI [of _ s3]) (simp add: s3_def s2_def s1_def say_def same_connections_def handed_def)
qed

lemma drain_data:
  assumes "bs \<noteq> []" "\<forall>p \<in> set (pieces bs). \<not> contains ''quit'' (cstr p)"
    and "fd \<in> e_open s" "fd \<notin> e_gone s" "e_inbox s fd = Data bs # rest"
  shows "\<exists>s'. handle_client_data fd s = handle_client_data fd s' \<and> same_connections s s' \<and>
    e_inbox s' = (e_inbox s)(fd := rest) \<and> handed (map (answer fd) (pieces bs)) s s'"
  using assms
proof (induction bs arbitrary: s rule: pieces.induct)
  case (1 bs)
  let ?p = "take (BUFFER_SIZE - 1) bs" and ?r = "drop (BUFFER_SIZE - 1) bs"
  have p: "pieces bs = ?p # pieces ?r" using "1.prems"(1) by (simp add: pieces.simps [of bs])
  have "\<not> contains ''quit'' (cstr ?p)" using "1.prems"(2) p by simp
  from loop_turn [OF "1.prems"(3,4,5,1) this] obtain s1 where
    s1: "handle_client_data fd s = handle_client_data fd s1" "same_connections s s1"
      "e_inbox s1 = (e_inbox s)(fd := (if length bs \<le> BUFFER_SIZE - 1 then rest else Data ?r # rest))"
      "handed [answer fd ?p] s s1" by blast
  show ?case
  proof (cases "length bs \<le> BUFFER_SIZE - 1")
    case True
    then show ?thesis using s1 p by (intro exI [of _ s1]) simp
  next
    case False
    then have r: "?r \<noteq> []" by simp
    have "\<exists>s'. handle_client_data fd s1 = handle_client_data fd s' \<and> same_connections s1 s' \<and>
        e_inbox s' = (e_inbox s1)(fd := rest) \<and> handed (map (answer fd) (pieces ?r)) s1 s'"
      by (rule "1.IH" [OF "1.prems"(1) r])
        (use "1.prems" p s1 False in \<open>simp_all add: same_connections_def\<close>)
    then obtain s' where s': "handle_client_data fd s1 = handle_client_data fd s'" "same_connections s1 s'"
        "e_inbox s' = (e_inbox s1)(fd := rest)" "handed (map (answer fd) (pieces ?r)) s1 s'" by blast
    show ?thesis by (rule exI [of _ s']) (use s1 s' p handed_trans [OF s1(4) _ s'(4)] in \<open>simp add: same_connections_def\<close>)
  qed
qed

lemma drain_all:
  assumes "fd \<in> e_open s" "fd \<notin> e_gone s" "e_inbox s fd = map Data bss @ rest" "\<forall>bs \<in> set bss. bs \<noteq> []"
    and "\<forall>bs \<in> set bss. \<forall>p \<in> set (pieces bs). \<not> contains ''quit'' (cstr p)"
  shows "\<exists>s'. handle_client_data fd s = handle_client_data fd s' \<and> same_connections s s' \<and>
    e_inbox s' = (e_inbox s)(fd := rest) \<and> handed (map (answer fd) (concat (map pieces bss))) s s'"
  using assms
proof (induction bss arbitrary: s)
  case Nil
  then show ?case by (intro exI [of _ s]) (auto simp: same_connections_def handed_def)
next
  case (Cons bs bss)
  obtain s1 where s1: "handle_client_data fd s = handle_client_data fd s1" "same_connections s s1"
      "e_inbox s1 = (e_inbox s)(fd := map Data bss @ rest)" "handed (map (answer fd) (pieces bs)) s s1"
    using drain_data [of bs fd s "map Data bss @ rest"] Cons.prems by auto
  have "\<exists>s'. handle_client_data fd s1 = handle_client_data fd s' \<and> same_connections s1 s' \<and>
      e_inbox s' = (e_inbox s1)(fd := rest) \<and> handed (map (answer fd) (concat (map pieces bss))) s1 s'"
    by (rule Cons.IH) (use Cons.prems s1 in \<open>auto simp: same_connections_def\<close>)
  then obtain s' where s': "handle_client_data fd s1 = handle_client_data fd s'" "same_connections s1 s'"
      "e_inbox s' = (e_inbox s1)(fd := rest)" "handed (map (answer fd) (concat (map pieces bss))) s1 s'" by blast
  show ?case
    by (rule exI [of _ s']) (use s1 s' handed_trans [OF s1(4) _ s'(4)] in \<open>simp add: same_connections_def\<close>)
qed

section \<open>The connections\<close>

definition conns_ok :: "echo \<Rightarrow> bool" where
  "conns_ok s \<longleftrightarrow> e_interest s \<union> e_unwatched s = e_open s \<and> e_interest s \<inter> e_unwatched s = {} \<and> server_fd s \<in> e_open s"

lemma recv_frame: "recv fd n s = (r, s') \<Longrightarrow> same_connections s s' \<and> e_sent s' = e_sent s"
  by (auto simp: recv_def same_connections_def split: if_splits list.splits arrival.splits)

lemma disconnect_fields:
  "e_open (handle_client_disconnect fd s) = e_open s - {fd}"
  "e_interest (handle_client_disconnect fd s) = e_interest s - {fd}"
  "e_unwatched (handle_client_disconnect fd s) = e_unwatched s - {fd}"
  "server_fd (handle_client_disconnect fd s) = server_fd s"
  "e_calls (handle_client_disconnect fd s) = e_calls s"
  "e_sent (handle_client_disconnect fd s) = e_sent s"
  "e_gone (handle_client_disconnect fd s) = e_gone s"
  by (auto simp: handle_client_disconnect_def close_fd_def remove_from_epoll_def say_def)

text \<open>Handling the data of a client closes at most this client.\<close>

lemma turn_cases:
  assumes "recv fd (BUFFER_SIZE - 1) s = (r, s1)"
  shows "r = Would_block \<Longrightarrow> handle_client_data fd s = Inr s1"
    and "r = Fails \<Longrightarrow> handle_client_data fd s = Inr (handle_client_disconnect fd (say ''recv'' s1))"
    and "r = Bytes [] \<Longrightarrow> handle_client_data fd s = Inr (handle_client_disconnect fd s1)"
    and "r = Bytes (c # b) \<Longrightarrow> handle_client_data fd s =
      rbind (send fd (''Echo: '' @ cstr (c # b)) (say (''Received from client '' @ show_int fd @ '': '' @ cstr (c # b)) s1))
        (\<lambda>s3. if contains ''quit'' (cstr (c # b)) then Inr (handle_client_disconnect fd s3) else handle_client_data fd s3)"
  using assms by (subst handle_client_data.simps, simp add: rbind_def Let_def del: cstr_code)+

lemma send_frame: "send fd m s = Inr s' \<Longrightarrow> same_connections s s'"
  by (auto simp: send_def same_connections_def split: if_splits)

lemma say_frame: "same_connections s (say m s)"
  by (simp add: say_def same_connections_def)

lemma same_trans: "same_connections s s1 \<Longrightarrow> same_connections s1 s2 \<Longrightarrow> same_connections s s2"
  by (simp add: same_connections_def)

definition closes_at_most :: "int \<Rightarrow> echo \<Rightarrow> echo \<Rightarrow> bool" where
  "closes_at_most fd s s' \<longleftrightarrow> server_fd s' = server_fd s \<and> e_gone s' = e_gone s \<and>
     (same_connections s s' \<or> e_open s' = e_open s - {fd} \<and> e_interest s' = e_interest s - {fd} \<and>
        e_unwatched s' = e_unwatched s - {fd})"

lemma closes_trans: "same_connections s s1 \<Longrightarrow> closes_at_most fd s1 s2 \<Longrightarrow> closes_at_most fd s s2"
  by (auto simp: closes_at_most_def same_connections_def)

lemma closes_disconnect: "closes_at_most fd s (handle_client_disconnect fd s)"
  by (simp add: closes_at_most_def disconnect_fields)

lemma closes_same: "same_connections s s' \<Longrightarrow> closes_at_most fd s s'"
  by (auto simp: closes_at_most_def same_connections_def)

lemma handle_client_data_frame: "handle_client_data fd s = Inr s' \<Longrightarrow> closes_at_most fd s s'"
proof (induction "inbox_size (e_inbox s fd)" arbitrary: s rule: less_induct)
  case less
  obtain r s1 where r: "recv fd (BUFFER_SIZE - 1) s = (r, s1)" by fastforce
  have f: "same_connections s s1" using recv_frame [OF r] by simp
  consider "r = Would_block" | "r = Fails" | "r = Bytes []" | c b where "r = Bytes (c # b)"
    by (cases r) (metis list.exhaust)+
  then show ?case
  proof cases
    case 1
    then show ?thesis using turn_cases(1) [OF r] less.prems f closes_same by simp
  next
    case 2
    then show ?thesis
      using turn_cases(2) [OF r] less.prems closes_trans [OF same_trans [OF f say_frame] closes_disconnect] by auto
  next
    case 3
    then show ?thesis using turn_cases(3) [OF r] less.prems closes_trans [OF f closes_disconnect] by auto
  next
    case 4
    let ?m = "cstr (c # b)"
    obtain s3 where s3: "send fd (''Echo: '' @ ?m) (say (''Received from client '' @ show_int fd @ '': '' @ ?m) s1) = Inr s3"
        "(if contains ''quit'' ?m then Inr (handle_client_disconnect fd s3) else handle_client_data fd s3) = Inr s'"
      using less.prems [unfolded turn_cases(4) [OF r 4] rbind_eq_Inr] by blast
    have f3: "same_connections s s3" by (rule same_trans [OF same_trans [OF f say_frame] send_frame [OF s3(1)]])
    show ?thesis
    proof (cases "contains ''quit'' ?m")
      case True
      then show ?thesis using s3(2) closes_trans [OF f3 closes_disconnect] by auto
    next
      case False
      have "e_inbox s3 = e_inbox s1" using s3(1) by (auto simp: send_def say_def split: if_splits)
      moreover have "inbox_size (e_inbox s1 fd) < inbox_size (e_inbox s fd)"
        using r 4 by (auto simp: recv_def BUFFER_SIZE_def split: if_splits list.splits arrival.splits)
      ultimately have "closes_at_most fd s3 s'" using less.hyps [of s3] s3(2) False by simp
      then show ?thesis by (rule closes_trans [OF f3])
    qed
  qed
qed

section \<open>Properties\<close>

text \<open>C31: Edge triggered reading drains the connection.  When only bytes have arrived on a connection whose peer is
  there, and no single piece of them contains "quit", all of them are read in pieces of at most 1023 bytes, and for each piece
  the text "Echo: " followed by the piece up to its first NUL is handed to \<^verbatim>\<open>send\<close> once, in order; the connection
  stays open and as watched as it was.  What goes out is what \<^verbatim>\<open>send\<close> takes of each answer, since nobody looks at its result:
  all of it, if every call of \<^verbatim>\<open>send\<close> finds room for its answer.  A "quit" that arrives in two pieces is
  echoed and not obeyed.\<close>

theorem everything_is_echoed:
  assumes "fd \<in> e_open s" "fd \<notin> e_gone s" "e_inbox s fd = map Data bss" "\<forall>bs \<in> set bss. bs \<noteq> []"
    and "\<forall>bs \<in> set bss. \<forall>p \<in> set (pieces bs). \<not> contains ''quit'' (cstr p)"
  shows "\<exists>s'. handle_client_data fd s = Inr s' \<and> e_inbox s' = (e_inbox s)(fd := []) \<and>
    e_sent s' = e_sent s @ accepted (e_takes s) (e_calls s) (map (answer fd) (concat (map pieces bss))) \<and>
    ((\<forall>i < length (concat (map pieces bss)). length (snd (answer fd (concat (map pieces bss) ! i))) \<le> e_takes s (e_calls s + i)) \<longrightarrow>
       e_sent s' = e_sent s @ map (answer fd) (concat (map pieces bss))) \<and>
    concat (concat (map pieces bss)) = concat bss \<and> (\<forall>p \<in> set (concat (map pieces bss)). length p \<le> 1023) \<and>
    e_open s' = e_open s \<and> e_interest s' = e_interest s"
proof -
  obtain s1 where s1: "handle_client_data fd s = handle_client_data fd s1" "same_connections s s1"
      "e_inbox s1 = (e_inbox s)(fd := [])" "handed (map (answer fd) (concat (map pieces bss))) s s1"
    using drain_all [of fd s bss "[]"] assms by auto
  have "recv fd (BUFFER_SIZE - 1) s1 = (Would_block, s1)"
    using s1 assms(1) by (simp add: recv_def same_connections_def)
  then have "handle_client_data fd s1 = Inr s1" by (rule turn_cases(1)) simp
  moreover have "concat (concat (map pieces bss)) = concat bss" by (induction bss) (simp_all add: concat_pieces)
  moreover have "accepted (e_takes s) (e_calls s) (map (answer fd) (concat (map pieces bss))) = map (answer fd) (concat (map pieces bss))"
    if "\<forall>i < length (concat (map pieces bss)). length (snd (answer fd (concat (map pieces bss) ! i))) \<le> e_takes s (e_calls s + i)"
    using that by (intro accepted_all) simp
  ultimately show ?thesis using s1 length_piece by (auto simp: same_connections_def handed_def)
qed

definition client_state :: "(nat \<Rightarrow> nat) \<Rightarrow> arrival list \<Rightarrow> echo" where
  "client_state tk xs = (start_echo 3 tk)\<lparr>e_open := {3, 5}, e_interest := {3, 5}, e_inbox := (\<lambda>_. [])(5 := xs)\<rparr>"

theorem everything_is_echoed_witness:
  "(\<exists>s'. handle_client_data 5 (client_state (\<lambda>_. 100) [Data ''qu'', Data ''it'']) = Inr s' \<and> 5 \<in> e_open s' \<and>
     e_sent s' = [(5, ''Echo: qu''), (5, ''Echo: it'')]) \<and>
   (\<exists>s'. handle_client_data 5 (client_state (\<lambda>k. if k = 0 then 7 else 0) [Data ''qu'', Data ''it'']) = Inr s' \<and>
     e_sent s' = [(5, ''Echo: q''), (5, [])])"
proof -
  have q: "\<not> contains ''quit'' (cstr ''qu'')" "\<not> contains ''quit'' (cstr ''it'')" by (simp_all add: contains_def)
  show ?thesis
    using q everything_is_echoed [of 5 "client_state (\<lambda>_. 100) [Data ''qu'', Data ''it'']" "[''qu'', ''it'']"]
      everything_is_echoed [of 5 "client_state (\<lambda>k. if k = 0 then 7 else 0) [Data ''qu'', Data ''it'']" "[''qu'', ''it'']"]
    by (auto simp: client_state_def start_echo_def pieces_short answer_def less_Suc_eq)
qed

text \<open>A piece that contains "quit" is still echoed; then the connection is closed and what arrived behind
  it is not read.\<close>

theorem quit_closes_the_connection:
  assumes "fd \<in> e_open s" "fd \<notin> e_gone s" "e_inbox s fd = map Data bss @ Data bs # rest" "\<forall>bs \<in> set bss. bs \<noteq> []"
    and "\<forall>bs \<in> set bss. \<forall>p \<in> set (pieces bs). \<not> contains ''quit'' (cstr p)"
    and "bs \<noteq> []" "length bs \<le> 1023" "contains ''quit'' (cstr bs)"
  shows "\<exists>s'. handle_client_data fd s = Inr s' \<and> e_inbox s' fd = rest \<and>
    handed (map (answer fd) (concat (map pieces bss)) @ [answer fd bs]) s s' \<and>
    e_open s' = e_open s - {fd} \<and> e_interest s' = e_interest s - {fd}"
proof -
  obtain s1 where s1: "handle_client_data fd s = handle_client_data fd s1" "same_connections s s1"
      "e_inbox s1 = (e_inbox s)(fd := Data bs # rest)" "handed (map (answer fd) (concat (map pieces bss))) s s1"
    using drain_all [of fd s bss "Data bs # rest"] assms by auto
  obtain c b where cb: "bs = c # b" using assms(6) by (cases bs) auto
  let ?s2 = "s1\<lparr>e_inbox := (e_inbox s1)(fd := rest)\<rparr>"
  have "recv fd (BUFFER_SIZE - 1) s1 = (Bytes (c # b), ?s2)"
    using s1 assms(1,7) cb by (simp add: recv_def same_connections_def BUFFER_SIZE_def)
  note turn = turn_cases(4) [OF this refl, folded cb]
  let ?s3 = "say (''Received from client '' @ show_int fd @ '': '' @ cstr bs) ?s2"
  let ?s4 = "?s3\<lparr>e_sent := e_sent ?s3 @ accepted (e_takes ?s3) (e_calls ?s3) [answer fd bs], e_calls := Suc (e_calls ?s3)\<rparr>"
  have "send fd (''Echo: '' @ cstr bs) ?s3 = Inr ?s4"
    using s1(2) assms(2) by (simp add: send_def say_def answer_def same_connections_def)
  then have "handle_client_data fd s = Inr (handle_client_disconnect fd ?s4)"
    using turn s1(1) assms(8) by simp
  then show ?thesis
    using s1 handed_trans [OF s1(4), of "[answer fd bs]" "handle_client_disconnect fd ?s4"]
    by (simp add: disconnect_fields say_def same_connections_def handed_def)
      (simp add: handle_client_disconnect_def close_fd_def remove_from_epoll_def say_def)
qed

theorem quit_closes_the_connection_witness:
  "\<exists>s'. handle_client_data 5 (client_state (\<lambda>_. 100) [Data ''quit'', Data ''late'']) = Inr s' \<and> e_inbox s' 5 = [Data ''late''] \<and>
     5 \<notin> e_open s'"
proof -
  have "contains ''quit'' (cstr ''quit'')" by (simp add: contains_def)
  then show ?thesis
    using quit_closes_the_connection [of 5 "client_state (\<lambda>_. 100) [Data ''quit'', Data ''late'']" "[]" "''quit''" "[Data ''late'']"]
    by (auto simp: client_state_def start_echo_def)
qed

text \<open>The states of a running server.  \<^verbatim>\<open>accept\<close> returns a descriptor that is not open; bytes arrive and peers
  leave at any time.  \<open>fails\<close> says whether \<^verbatim>\<open>epoll_ctl\<close> ever fails to add a
  descriptor.\<close>

inductive served :: "bool \<Rightarrow> echo \<Rightarrow> bool" for fails where
  start: "new_server k = Inr s \<Longrightarrow> epoll_add_ok k \<or> fails \<Longrightarrow> served fails s"
| event: "served fails s \<Longrightarrow> (\<And>d. ev_accepted ev = Some d \<Longrightarrow> d \<notin> e_open s) \<Longrightarrow> ev_added ev \<or> fails \<Longrightarrow>
    handle_event ev s = Inr s' \<Longrightarrow> served fails s'"
| arrive: "served fails s \<Longrightarrow> served fails (s\<lparr>e_inbox := f\<rparr>)"
| leave: "served fails s \<Longrightarrow> served fails (s\<lparr>e_gone := g\<rparr>)"

lemma conns_ok_cong: "same_connections s s' \<Longrightarrow> conns_ok s = conns_ok s'"
  by (auto simp: conns_ok_def same_connections_def)

lemma closes_conns_ok: "closes_at_most fd s s' \<Longrightarrow> fd \<noteq> server_fd s \<Longrightarrow> conns_ok s \<Longrightarrow> conns_ok s'"
  by (auto simp: closes_at_most_def same_connections_def conns_ok_def)

lemma new_connection_ok:
  assumes "conns_ok s" "\<And>d. a = Some d \<Longrightarrow> d \<notin> e_open s" "handle_new_connection added a s = Inr s'"
  shows "conns_ok s' \<and> (added \<longrightarrow> e_unwatched s' = e_unwatched s)"
proof (cases a)
  case None
  then show ?thesis using assms by (auto simp: handle_new_connection_def say_def conns_ok_def)
next
  case (Some d)
  let ?s = "add_to_epoll added d (s\<lparr>e_open := insert d (e_open s)\<rparr>)"
  have "d \<notin> e_interest s" "d \<notin> e_unwatched s" using assms(1,2) Some by (auto simp: conns_ok_def)
  then have "conns_ok ?s" "added \<longrightarrow> e_unwatched ?s = e_unwatched s"
    using assms(1) by (auto simp: conns_ok_def add_to_epoll_def say_def)
  moreover have "same_connections (say ''New connection from: '' ?s) s'"
    using assms(3) Some send_frame by (simp add: handle_new_connection_def)
  then have f: "same_connections ?s s'" by (rule same_trans [OF say_frame])
  moreover have "e_unwatched s' = e_unwatched ?s" using f by (simp add: same_connections_def)
  ultimately show ?thesis using conns_ok_cong [OF f] by simp
qed

lemma closes_unwatched: "closes_at_most fd s s' \<Longrightarrow> e_unwatched s = {} \<Longrightarrow> e_unwatched s' = {}"
  by (auto simp: closes_at_most_def same_connections_def)

lemma served_ok: "served fails s \<Longrightarrow> conns_ok s \<and> (\<not> fails \<longrightarrow> e_unwatched s = {})"
proof (induction rule: served.induct)
  case (start k s)
  then show ?case
    by (auto simp: new_server_def add_to_epoll_def start_echo_def conns_ok_def say_def split: option.splits if_splits)
next
  case (event s ev s')
  show ?case
  proof (cases "ev_fd ev = server_fd s")
    case True
    then have "handle_new_connection (ev_added ev) (ev_accepted ev) s = Inr s'" using event.hyps(4) by (simp add: handle_event_def)
    then show ?thesis using new_connection_ok [of s "ev_accepted ev" "ev_added ev" s'] event by auto
  next
    case False
    obtain s1 where s1: "(if ev_in ev then handle_client_data (ev_fd ev) s else Inr s) = Inr s1"
        "s' = (if ev_err_hup ev then handle_client_disconnect (ev_fd ev) s1 else s1)"
      using event.hyps(4) False by (auto simp: handle_event_def rbind_eq_Inr)
    have c: "closes_at_most (ev_fd ev) s s1"
    proof (cases "ev_in ev")
      case True
      then show ?thesis using s1(1) handle_client_data_frame by simp
    next
      case False
      then show ?thesis using s1(1) by (simp add: closes_at_most_def same_connections_def)
    qed
    have "conns_ok s1" by (rule closes_conns_ok [OF c False]) (use event.IH in blast)
    moreover have "ev_fd ev \<noteq> server_fd s1" using c False by (simp add: closes_at_most_def)
    moreover have "\<not> fails \<longrightarrow> e_unwatched s1 = {}" using closes_unwatched [OF c] event.IH by blast
    ultimately show ?thesis
      using s1(2) closes_conns_ok [OF closes_disconnect] closes_unwatched [OF closes_disconnect] by auto
  qed
qed (simp_all add: conns_ok_def)

definition good_setup :: server_setup where
  "good_setup = \<lparr>socket_fd = Some 3, setsockopt_ok = True, bind_ok = True, listen_ok = True, epoll_ok = True,
     epoll_add_ok = True, takes = (\<lambda>_. 100)\<rparr>"

lemma unwatched_client: "\<exists>s. served True s \<and> e_open s = {3, 5} \<and> e_interest s = {3}"
proof -
  let ?ev = "\<lparr>ev_fd = 3, ev_in = True, ev_err_hup = False, ev_accepted = Some 5, ev_added = False\<rparr>"
  have "\<exists>s. new_server good_setup = Inr s \<and> e_open s = {3} \<and> e_interest s = {3} \<and> server_fd s = 3 \<and> e_gone s = {}"
    by (simp add: good_setup_def new_server_def add_to_epoll_def start_echo_def)
  then obtain s where s: "new_server good_setup = Inr s" "e_open s = {3}" "e_interest s = {3}" "server_fd s = 3" "e_gone s = {}"
    by blast
  have "\<exists>s'. handle_event ?ev s = Inr s' \<and> e_open s' = {3, 5} \<and> e_interest s' = {3}"
    using s by (simp add: handle_event_def handle_new_connection_def add_to_epoll_def send_def say_def insert_commute)
  then obtain s' where s': "handle_event ?ev s = Inr s'" "e_open s' = {3, 5}" "e_interest s' = {3}" by blast
  have "served True s" by (rule served.start [OF s(1)]) simp
  then have "served True s'" by (rule served.event [OF _ _ _ s'(1)]) (simp_all add: s(2))
  then show ?thesis using s'(2,3) by blast
qed

text \<open>C34: Every open descriptor, the listening one among them, is on the interest list, except those for which
  \<^verbatim>\<open>epoll_ctl\<close> failed; when it never fails the list is exactly the set of open descriptors.  When it fails for
  a new connection, the connection stays open and is watched by nobody.\<close>

theorem every_connection_is_watched:
  assumes "served fails s"
  shows "e_interest s \<union> e_unwatched s = e_open s \<and> e_interest s \<inter> e_unwatched s = {} \<and> server_fd s \<in> e_open s \<and>
    (\<not> fails \<longrightarrow> e_interest s = e_open s) \<and> (\<exists>s. served True s \<and> e_open s = {3, 5} \<and> e_interest s = {3})"
  using served_ok [OF assms] unwatched_client by (auto simp: conns_ok_def)

theorem every_connection_is_watched_witness:
  "\<exists>s. new_server good_setup = Inr s \<and> e_interest s = {3} \<and> e_interest s = e_open s"
  using every_connection_is_watched [OF served.start [of good_setup _ False]]
  by (simp add: new_server_def add_to_epoll_def start_echo_def good_setup_def)

text \<open>A client that resets its connection after sending some bytes ends the whole server: the answer is
  sent without \<^verbatim>\<open>MSG_NOSIGNAL\<close>.\<close>

theorem reset_connection_ends_the_server:
  assumes "ev_fd ev \<in> e_open s" "ev_fd ev \<noteq> server_fd s" "ev_in ev" "ev_fd ev \<in> e_gone s"
    and "e_inbox s (ev_fd ev) = Data bs # rest" "bs \<noteq> []"
  shows "run (ev # evs) s = Inl (Exit_With ''SIGPIPE'')"
proof -
  obtain c b where cb: "take (BUFFER_SIZE - 1) bs = c # b"
    using assms(6) by (cases bs) (auto simp: BUFFER_SIZE_def)
  have "recv (ev_fd ev) (BUFFER_SIZE - 1) s = (Bytes (c # b),
      s\<lparr>e_inbox := (e_inbox s)(ev_fd ev := (if length bs \<le> BUFFER_SIZE - 1 then rest else Data (drop (BUFFER_SIZE - 1) bs) # rest))\<rparr>)"
    using assms(1,5) cb by (simp add: recv_def)
  from turn_cases(4) [OF this refl] have "handle_client_data (ev_fd ev) s = Inl (Exit_With ''SIGPIPE'')"
    using assms(4) by (simp add: send_def say_def)
  then show ?thesis using assms(2,3) by (simp add: handle_event_def)
qed

theorem reset_connection_ends_the_server_witness:
  "run [\<lparr>ev_fd = 5, ev_in = True, ev_err_hup = True, ev_accepted = None, ev_added = True\<rparr>] ((client_state (\<lambda>_. 100) [Data ''a''])\<lparr>e_gone := {5}\<rparr>)
     = Inl (Exit_With ''SIGPIPE'')"
  by (rule reset_connection_ends_the_server [of _ _ "''a''" "[]"]) (simp_all add: client_state_def start_echo_def)

end
