(* ===== verification/RawVector.thy ===== *)
theory RawVector
  imports Prelude
begin

text \<open>
  The vector with an allocator, \<^verbatim>\<open>vector/version03/vector.cpp\<close>.

  The storage is a list of cells; a cell is raw memory, a live object or an object that was moved
  from.  Objects begin with \<open>construct_at\<close> and end with \<open>destroy_at\<close>; an object that is overwritten by a
  construction or whose storage is given back is never destroyed, and the counter \<open>lost\<close> counts such
  objects.  An iterator is its distance from \<^verbatim>\<open>begin()\<close>.  The allocator is \<^verbatim>\<open>std::allocator\<close>, which has no
  state, does not propagate on copy assignment and swap, and allocates up to \<open>mx\<close> elements
  (\<^verbatim>\<open>max_size\<close>).  An argument that is passed by reference is a value from elsewhere or an element of the
  vector itself.
\<close>

section \<open>Objects in storage\<close>

datatype 'a slot = Raw | Live 'a | Moved

type_synonym 'a storage = "'a slot list \<times> nat"

definition living :: "'a slot list \<Rightarrow> nat" where
  "living b = length (filter (\<lambda>c. c \<noteq> Raw) b)"

definition construct_at :: "nat \<Rightarrow> 'a \<Rightarrow> 'a storage \<Rightarrow> 'a storage result" where
  "construct_at i x m = (case m of (b, lost) \<Rightarrow>
     if i < length b then Inr (b[i := Live x], lost + (if b ! i = Raw then 0 else 1)) else Inl Out_Of_Bounds)"

definition destroy_at :: "nat \<Rightarrow> 'a storage \<Rightarrow> 'a storage result" where
  "destroy_at i m = (case m of (b, lost) \<Rightarrow>
     if i < length b then (if b ! i = Raw then Inl Uninitialised else Inr (b[i := Raw], lost)) else Inl Out_Of_Bounds)"

definition read_at :: "nat \<Rightarrow> 'a storage \<Rightarrow> 'a result" where
  "read_at i m = (case m of (b, lost) \<Rightarrow>
     if i < length b then (case b ! i of Live x \<Rightarrow> Inr x | _ \<Rightarrow> Inl Uninitialised) else Inl Out_Of_Bounds)"

definition move_from :: "nat \<Rightarrow> 'a storage \<Rightarrow> ('a \<times> 'a storage) result" where
  "move_from i m = rbind (read_at i m) (\<lambda>x. Inr (x, ((fst m)[i := Moved], snd m)))"

definition assign_at :: "nat \<Rightarrow> 'a \<Rightarrow> 'a storage \<Rightarrow> 'a storage result" where
  "assign_at i x m = (case m of (b, lost) \<Rightarrow>
     if i < length b then (if b ! i = Raw then Inl Uninitialised else Inr (b[i := Live x], lost)) else Inl Out_Of_Bounds)"

text \<open>The algorithms of the standard library over a number of elements\<close>

fun uninitialized_fill :: "nat \<Rightarrow> nat \<Rightarrow> 'a \<Rightarrow> 'a storage \<Rightarrow> 'a storage result" where
  "uninitialized_fill d 0 x m = Inr m"
| "uninitialized_fill d (Suc n) x m = rbind (construct_at d x m) (uninitialized_fill (Suc d) n x)"

fun uninitialized_copy :: "'a storage \<Rightarrow> nat \<Rightarrow> nat \<Rightarrow> nat \<Rightarrow> 'a storage \<Rightarrow> 'a storage result" where
  "uninitialized_copy src s 0 d m = Inr m"
| "uninitialized_copy src s (Suc n) d m = rbind (read_at s src) (\<lambda>x. rbind (construct_at d x m)
     (uninitialized_copy src (Suc s) n (Suc d)))"

fun uninitialized_move :: "nat \<Rightarrow> nat \<Rightarrow> nat \<Rightarrow> 'a storage \<Rightarrow> 'a storage \<Rightarrow> ('a storage \<times> 'a storage) result" where
  "uninitialized_move s 0 d src m = Inr (src, m)"
| "uninitialized_move s (Suc n) d src m = rbind (move_from s src) (\<lambda>(x, src'). rbind (construct_at d x m)
     (uninitialized_move (Suc s) n (Suc d) src'))"

fun destroy_range :: "nat \<Rightarrow> nat \<Rightarrow> 'a storage \<Rightarrow> 'a storage result" where
  "destroy_range d 0 m = Inr m"
| "destroy_range d (Suc n) m = rbind (destroy_at d m) (destroy_range (Suc d) n)"

fun move_forward :: "nat \<Rightarrow> nat \<Rightarrow> nat \<Rightarrow> 'a storage \<Rightarrow> 'a storage result" where
  "move_forward s 0 d m = Inr m"
| "move_forward s (Suc n) d m = rbind (move_from s m) (\<lambda>(x, m'). rbind (assign_at d x m')
     (move_forward (Suc s) n (Suc d)))"

fun move_backward :: "nat \<Rightarrow> nat \<Rightarrow> nat \<Rightarrow> 'a storage \<Rightarrow> 'a storage result" where
  "move_backward e 0 d m = Inr m"
| "move_backward e (Suc n) d m = rbind (move_from (e - 1) m) (\<lambda>(x, m'). rbind (assign_at (d - 1) x m')
     (move_backward (e - 1) n (d - 1)))"

section \<open>The vector\<close>

record 'a rvec =
  rv_data :: "'a slot list option"     \<comment> \<open>\<^verbatim>\<open>nullptr\<close> is \<open>None\<close>\<close>
  rv_size :: nat
  rv_capacity :: nat
  lost :: nat

datatype 'a arg = Value 'a | Element nat

definition storage :: "'a rvec \<Rightarrow> 'a storage" where
  "storage v = ((case rv_data v of None \<Rightarrow> [] | Some b \<Rightarrow> b), lost v)"

definition put_storage :: "'a storage \<Rightarrow> 'a rvec \<Rightarrow> 'a rvec" where
  "put_storage m v = v\<lparr>rv_data := map_option (\<lambda>_. fst m) (rv_data v), lost := snd m\<rparr>"

definition on_storage :: "('a storage \<Rightarrow> 'a storage result) \<Rightarrow> 'a rvec \<Rightarrow> 'a rvec result" where
  "on_storage f v = rbind (f (storage v)) (\<lambda>m. Inr (put_storage m v))"

definition allocate :: "nat \<Rightarrow> nat \<Rightarrow> 'a slot list result" where
  "allocate mx n = (if mx < n then Inl Logic_Error else Inr (replicate n Raw))"

definition deallocate :: "'a rvec \<Rightarrow> 'a rvec" where
  "deallocate v = v\<lparr>lost := lost v + living (fst (storage v))\<rparr>"

definition reallocate :: "nat \<Rightarrow> nat \<Rightarrow> 'a rvec \<Rightarrow> 'a rvec result" where
  "reallocate mx new_capacity v =
     rbind (allocate mx new_capacity) (\<lambda>new_data.
       case rv_data v of
         None \<Rightarrow> Inr (v\<lparr>rv_data := Some new_data, rv_capacity := new_capacity\<rparr>)
       | Some b \<Rightarrow>
           rbind (uninitialized_move 0 (rv_size v) 0 (storage v) (new_data, 0)) (\<lambda>(old, new).
           rbind (destroy_range 0 (rv_size v) old) (\<lambda>old'.
             Inr (v\<lparr>rv_data := Some (fst new), rv_capacity := new_capacity,
                    lost := snd new + snd old' + living (fst old')\<rparr>))))"

section \<open>Construction, copies and moves\<close>

definition new_vector :: "'a rvec" where
  "new_vector = \<lparr>rv_data = None, rv_size = 0, rv_capacity = 0, lost = 0\<rparr>"

definition vector_fill :: "nat \<Rightarrow> nat \<Rightarrow> 'a \<Rightarrow> 'a rvec result" where
  "vector_fill mx count value =
     (let v = \<lparr>rv_data = None, rv_size = count, rv_capacity = count, lost = 0\<rparr> in
      if 0 < count then
        rbind (allocate mx count) (\<lambda>b. on_storage (uninitialized_fill 0 count value) (v\<lparr>rv_data := Some b\<rparr>))
      else Inr v)"

definition vector_list :: "nat \<Rightarrow> 'a list \<Rightarrow> 'a rvec result" where
  "vector_list mx init =
     (let n = length init; v = \<lparr>rv_data = None, rv_size = n, rv_capacity = n, lost = 0\<rparr> in
      if 0 < n then
        rbind (allocate mx n) (\<lambda>b.
          on_storage (uninitialized_copy (map Live init, 0) 0 n 0) (v\<lparr>rv_data := Some b\<rparr>))
      else Inr v)"

definition clear :: "'a rvec \<Rightarrow> 'a rvec result" where
  "clear v = (case rv_data v of None \<Rightarrow> Inr v
     | Some _ \<Rightarrow> rbind (on_storage (destroy_range 0 (rv_size v)) v) (\<lambda>v'. Inr (v'\<lparr>rv_size := 0\<rparr>)))"

text \<open>The destructor; its result is the number of objects that were never destroyed.\<close>

definition destroy_vector :: "'a rvec \<Rightarrow> nat result" where
  "destroy_vector v = rbind (clear v) (\<lambda>v'. Inr (lost (deallocate v')))"

definition copy_vector :: "nat \<Rightarrow> 'a rvec \<Rightarrow> 'a rvec result" where
  "copy_vector mx other =
     (let n = rv_size other; v = \<lparr>rv_data = None, rv_size = n, rv_capacity = n, lost = 0\<rparr> in
      if 0 < n then
        rbind (allocate mx n) (\<lambda>b. on_storage (uninitialized_copy (storage other) 0 n 0) (v\<lparr>rv_data := Some b\<rparr>))
      else Inr v)"

definition move_vector :: "'a rvec \<Rightarrow> 'a rvec \<times> 'a rvec" where
  "move_vector other = (other\<lparr>lost := 0\<rparr>, other\<lparr>rv_data := None, rv_size := 0, rv_capacity := 0\<rparr>)"

definition assign_vector :: "nat \<Rightarrow> 'a rvec \<Rightarrow> 'a rvec \<Rightarrow> 'a rvec result" where
  "assign_vector mx other v =
     rbind
       (if rv_capacity v < rv_size other then
          rbind (clear v) (\<lambda>v1. let v2 = deallocate v1 in
            rbind (allocate mx (rv_size other)) (\<lambda>b. Inr (v2\<lparr>rv_data := Some b, rv_capacity := rv_size other\<rparr>)))
        else Inr v)
       (\<lambda>v3. let v4 = v3\<lparr>rv_size := rv_size other\<rparr> in
          on_storage (uninitialized_copy (storage other) 0 (rv_size v4) 0) v4)"

definition move_assign_vector :: "'a rvec \<Rightarrow> 'a rvec \<Rightarrow> ('a rvec \<times> 'a rvec) result" where
  "move_assign_vector other v =
     rbind (clear v) (\<lambda>v1. let v2 = deallocate v1 in
       Inr (v2\<lparr>rv_data := rv_data other, rv_size := rv_size other, rv_capacity := rv_capacity other\<rparr>,
            other\<lparr>rv_data := None, rv_size := 0, rv_capacity := 0\<rparr>))"

definition swap_vectors :: "'a rvec \<Rightarrow> 'a rvec \<Rightarrow> 'a rvec \<times> 'a rvec" where
  "swap_vectors v other =
     (v\<lparr>rv_data := rv_data other, rv_size := rv_size other, rv_capacity := rv_capacity other\<rparr>,
      other\<lparr>rv_data := rv_data v, rv_size := rv_size v, rv_capacity := rv_capacity v\<rparr>)"

section \<open>Elements and capacity\<close>

definition index :: "nat \<Rightarrow> 'a rvec \<Rightarrow> 'a result" where
  "index pos v = (if pos < rv_size v then read_at pos (storage v) else Inl (Exit_With ''assert''))"

definition vector_at :: "nat \<Rightarrow> 'a rvec \<Rightarrow> 'a result" where
  "vector_at pos v = (if rv_size v \<le> pos then Inl Out_Of_Range else read_at pos (storage v))"

definition deref :: "int \<Rightarrow> 'a rvec \<Rightarrow> 'a result" where
  "deref i v = (if rv_data v = None then Inl Null_Deref else if i < 0 then Inl Out_Of_Bounds else read_at (nat i) (storage v))"

definition vector_front :: "'a rvec \<Rightarrow> 'a result" where
  "vector_front v = deref 0 v"

definition vector_back :: "'a rvec \<Rightarrow> 'a result" where
  "vector_back v = deref (int (rv_size v) - 1) v"

definition empty :: "'a rvec \<Rightarrow> bool" where
  "empty v \<longleftrightarrow> rv_size v = 0"

definition reserve :: "nat \<Rightarrow> nat \<Rightarrow> 'a rvec \<Rightarrow> 'a rvec result" where
  "reserve mx new_capacity v = (if rv_capacity v < new_capacity then reallocate mx new_capacity v else Inr v)"

definition shrink_to_fit :: "nat \<Rightarrow> 'a rvec \<Rightarrow> 'a rvec result" where
  "shrink_to_fit mx v = (if rv_size v < rv_capacity v then reallocate mx (rv_size v) v else Inr v)"

section \<open>Modifiers\<close>

definition erase :: "nat \<Rightarrow> 'a rvec \<Rightarrow> 'a rvec result" where
  "erase pos v =
     (if pos < rv_size v then
        rbind (on_storage (move_forward (Suc pos) (rv_size v - Suc pos) pos) v) (\<lambda>v1.
          let v2 = v1\<lparr>rv_size := rv_size v1 - 1\<rparr> in on_storage (destroy_at (rv_size v2)) v2)
      else Inl (Exit_With ''assert''))"

definition erase_range :: "nat \<Rightarrow> nat \<Rightarrow> 'a rvec \<Rightarrow> 'a rvec result" where
  "erase_range first last' v =
     (if first \<le> last' \<and> last' \<le> rv_size v then
        if first = last' then Inr v
        else rbind (on_storage (move_forward last' (rv_size v - last') first) v) (\<lambda>v1.
             let new_end = first + (rv_size v - last') in
             rbind (on_storage (destroy_range new_end (rv_size v - new_end)) v1) (\<lambda>v2.
               Inr (v2\<lparr>rv_size := rv_size v2 - (last' - first)\<rparr>)))
      else Inl (Exit_With ''assert''))"

text \<open>The value behind an argument; a reallocation invalidates a reference to an element.\<close>

definition forwarded :: "bool \<Rightarrow> 'a arg \<Rightarrow> 'a rvec \<Rightarrow> 'a result" where
  "forwarded moved a v = (case a of Value x \<Rightarrow> Inr x
     | Element k \<Rightarrow> if moved then Inl Dangling else read_at k (storage v))"

definition grow :: "nat \<Rightarrow> 'a rvec \<Rightarrow> 'a rvec result" where
  "grow mx v = (if rv_capacity v \<le> rv_size v then reallocate mx (if rv_capacity v = 0 then 1 else rv_capacity v * 2) v
     else Inr v)"

definition emplace_back :: "nat \<Rightarrow> 'a arg \<Rightarrow> 'a rvec \<Rightarrow> 'a rvec result" where
  "emplace_back mx a v =
     rbind (grow mx v) (\<lambda>v1.
     rbind (forwarded (rv_capacity v \<le> rv_size v) a v1) (\<lambda>x.
     rbind (on_storage (construct_at (rv_size v1) x) v1) (\<lambda>v2. Inr (v2\<lparr>rv_size := rv_size v2 + 1\<rparr>))))"

definition emplace :: "nat \<Rightarrow> nat \<Rightarrow> 'a arg \<Rightarrow> 'a rvec \<Rightarrow> 'a rvec result" where
  "emplace mx pos a v =
     (if rv_size v < pos then Inl (Exit_With ''assert'')
      else if pos = rv_size v then emplace_back mx a v
      else
        rbind (grow mx v) (\<lambda>v1.
        rbind (move_from (rv_size v1 - 1) (storage v1)) (\<lambda>(x, m).
        rbind (construct_at (rv_size v1) x m) (\<lambda>m1.
        rbind (move_backward (rv_size v1 - 1) (rv_size v1 - 1 - pos) (rv_size v1) m1) (\<lambda>m2.
        rbind (destroy_at pos m2) (\<lambda>m3.
        rbind (forwarded (rv_capacity v \<le> rv_size v) a (put_storage m3 v1)) (\<lambda>y.
        rbind (construct_at pos y m3) (\<lambda>m4. let v2 = put_storage m4 v1 in
          Inr (v2\<lparr>rv_size := rv_size v2 + 1\<rparr>)))))))))"

definition insert_at :: "nat \<Rightarrow> nat \<Rightarrow> 'a arg \<Rightarrow> 'a rvec \<Rightarrow> 'a rvec result" where
  "insert_at mx pos value v = emplace mx pos value v"

definition push_back :: "nat \<Rightarrow> 'a arg \<Rightarrow> 'a rvec \<Rightarrow> 'a rvec result" where
  "push_back mx value v = emplace_back mx value v"

definition pop_back :: "'a rvec \<Rightarrow> 'a rvec result" where
  "pop_back v =
     (if 0 < rv_size v then let v1 = v\<lparr>rv_size := rv_size v - 1\<rparr> in on_storage (destroy_at (rv_size v1)) v1 else Inr v)"

fun fill_from :: "bool \<Rightarrow> 'a arg \<Rightarrow> nat \<Rightarrow> nat \<Rightarrow> 'a rvec \<Rightarrow> 'a rvec result" where
  "fill_from moved a d 0 v = Inr v"
| "fill_from moved a d (Suc n) v = rbind (forwarded moved a v) (\<lambda>x.
     rbind (on_storage (construct_at d x) v) (fill_from moved a (Suc d) n))"

definition resize :: "nat \<Rightarrow> nat \<Rightarrow> 'a arg \<Rightarrow> 'a rvec \<Rightarrow> 'a rvec result" where
  "resize mx new_size a v =
     rbind
       (if rv_size v < new_size then
          rbind (if rv_capacity v < new_size then reallocate mx new_size v else Inr v) (\<lambda>v1.
            fill_from (rv_capacity v < new_size) a (rv_size v1) (new_size - rv_size v1) v1)
        else if new_size < rv_size v then on_storage (destroy_range new_size (rv_size v - new_size)) v
        else Inr v)
       (\<lambda>v2. Inr (v2\<lparr>rv_size := new_size\<rparr>))"

section \<open>Storage\<close>

named_theorems cell_rules \<open>the operations on one cell of a list of cells\<close>

lemma living_simps [simp]:
  "living [] = 0" "living (Raw # b) = living b" "living (Live x # b) = Suc (living b)" "living (Moved # b) = Suc (living b)"
  "living (a @ b) = living a + living b" "living (replicate n Raw) = 0" "living (map Live xs) = length xs"
  by (simp_all add: living_def filter_empty_conv)

lemma Raw_not_Live [simp]: "Raw \<notin> Live ` A"
  by auto

lemma living_all: "Raw \<notin> set g \<Longrightarrow> living g = length g"
  by (induction g) (auto simp: living_def)

lemma cell_ops [cell_rules]:
  "n = length p \<Longrightarrow> construct_at n x (p @ c # t, l) = Inr (p @ Live x # t, l + (if c = Raw then 0 else 1))"
  "n = length p \<Longrightarrow> c \<noteq> Raw \<Longrightarrow> destroy_at n (p @ c # t, l) = Inr (p @ Raw # t, l)"
  "n = length p \<Longrightarrow> read_at n (p @ Live x # t, l) = Inr x"
  "n = length p \<Longrightarrow> move_from n (p @ Live x # t, l) = Inr (x, (p @ Moved # t, l))"
  "n = length p \<Longrightarrow> c \<noteq> Raw \<Longrightarrow> assign_at n x (p @ c # t, l) = Inr (p @ Live x # t, l)"
  by (simp_all add: construct_at_def destroy_at_def read_at_def move_from_def assign_at_def list_update_append)

lemma fill_cells:
  "length g = n \<Longrightarrow> d = length p \<Longrightarrow>
   uninitialized_fill d n x (p @ g @ t, l) = Inr (p @ replicate n (Live x) @ t, l + living g)"
proof (induction n arbitrary: d p g l)
  case (Suc n)
  then obtain c g' where g: "g = c # g'" "length g' = n" by (cases g) auto
  show ?case
    using Suc.IH [OF g(2), of "Suc d" "p @ [Live x]"] Suc.prems(2) g
    by (cases c) (simp_all add: cell_rules replicate_append_same)
qed simp

lemma copy_cells:
  "length g = length xs \<Longrightarrow> d = length p \<Longrightarrow> s = length a \<Longrightarrow>
   uninitialized_copy (a @ map Live xs @ b, k) s (length xs) d (p @ g @ t, l)
   = Inr (p @ map Live xs @ t, l + living g)"
proof (induction xs arbitrary: a s d p g l)
  case (Cons x xs)
  then obtain c g' where g: "g = c # g'" "length g' = length xs" by (cases g) auto
  show ?case
    using Cons.IH [OF g(2), of "Suc d" "p @ [Live x]" "Suc s" "a @ [Live x]"] Cons.prems g
    by (cases c) (simp_all add: cell_rules)
qed simp

lemma move_cells:
  "length g = length xs \<Longrightarrow> d = length p \<Longrightarrow> s = length a \<Longrightarrow>
   uninitialized_move s (length xs) d (a @ map Live xs @ b, k) (p @ g @ t, l)
   = Inr ((a @ replicate (length xs) Moved @ b, k), (p @ map Live xs @ t, l + living g))"
proof (induction xs arbitrary: a s d p g l)
  case (Cons x xs)
  then obtain c g' where g: "g = c # g'" "length g' = length xs" by (cases g) auto
  show ?case
    using Cons.IH [OF g(2), of "Suc d" "p @ [Live x]" "Suc s" "a @ [Moved]"] Cons.prems g
    by (cases c) (simp_all add: cell_rules)
qed simp

lemma destroy_cells:
  "length g = n \<Longrightarrow> d = length p \<Longrightarrow> Raw \<notin> set g \<Longrightarrow>
   destroy_range d n (p @ g @ t, l) = Inr (p @ replicate n Raw @ t, l)"
proof (induction n arbitrary: d p g)
  case (Suc n)
  then obtain c g' where g: "g = c # g'" "length g' = n" "Raw \<notin> set g'" "c \<noteq> Raw" by (cases g) auto
  show ?case
    using Suc.IH [OF g(2) _ g(3), of "Suc d" "p @ [Raw]"] Suc.prems(2) g by (simp add: cell_rules)
qed simp

lemma forward_cells:
  "Raw \<notin> set g \<Longrightarrow> d = length p \<Longrightarrow> s = length p + length g \<Longrightarrow> g \<noteq> [] \<Longrightarrow>
   \<exists>g'. length g' = length g \<and> Raw \<notin> set g' \<and>
     move_forward s (length ys) d (p @ g @ map Live ys @ t, l) = Inr (p @ map Live ys @ g' @ t, l)"
proof (induction ys arbitrary: p g d s)
  case (Cons y ys)
  then obtain c g1 where g: "g = c # g1" "c \<noteq> Raw" "Raw \<notin> set g1" by (cases g) auto
  have mv: "move_from s (p @ g @ map Live (y # ys) @ t, l) = Inr (y, (p @ g @ Moved # map Live ys @ t, l))"
    using cell_ops(4) [of s "p @ g" y "map Live ys @ t" l] Cons.prems(3) by simp
  obtain g' where "length g' = length (g1 @ [Moved])" "Raw \<notin> set g'"
    "move_forward (Suc s) (length ys) (Suc d) ((p @ [Live y]) @ (g1 @ [Moved]) @ map Live ys @ t, l)
       = Inr ((p @ [Live y]) @ map Live ys @ g' @ t, l)"
    using Cons.IH [of "g1 @ [Moved]" "Suc d" "p @ [Live y]" "Suc s"] Cons.prems(2,3) g by auto
  then show ?case
    using mv g Cons.prems(2) by (intro exI [of _ g']) (simp add: cell_rules)
qed simp

lemma backward_cells:
  "e = length p + length ys \<Longrightarrow>
   move_backward e (length ys) (Suc e) (p @ map Live ys @ Moved # t, l) = Inr (p @ Moved # map Live ys @ t, l)"
proof (induction ys arbitrary: e t rule: rev_induct)
  case (snoc y ys)
  have mv: "move_from (e - 1) (p @ map Live (ys @ [y]) @ Moved # t, l) = Inr (y, (p @ map Live ys @ Moved # Moved # t, l))"
    using cell_ops(4) [of "e - 1" "p @ map Live ys" y "Moved # t" l] snoc.prems by simp
  have asg: "assign_at e y (p @ map Live ys @ Moved # Moved # t, l) = Inr (p @ map Live ys @ Moved # Live y # t, l)"
    using cell_ops(5) [of e "p @ map Live ys @ [Moved]" Moved y t l] snoc.prems by simp
  have e: "e = Suc (e - 1)" using snoc.prems by simp
  show ?case
    using snoc.IH [of "e - 1" "Live y # t"] mv asg snoc.prems e by simp
qed simp

section \<open>Vectors that hold a list\<close>

definition vec :: "'a list \<Rightarrow> nat \<Rightarrow> nat \<Rightarrow> 'a rvec" where
  "vec xs r l = \<lparr>rv_data = Some (map Live xs @ replicate r Raw), rv_size = length xs, rv_capacity = length xs + r, lost = l\<rparr>"

definition holds :: "'a rvec \<Rightarrow> 'a list \<Rightarrow> bool" where
  "holds v xs \<longleftrightarrow> (\<exists>r. v = vec xs r (lost v)) \<or> xs = [] \<and> v = new_vector\<lparr>lost := lost v\<rparr>"

lemma new_vector_fields [simp]:
  "rv_data new_vector = None" "rv_size new_vector = 0" "rv_capacity new_vector = 0" "lost new_vector = 0"
  by (simp_all add: new_vector_def)

lemma new_vector_lost [simp]: "new_vector\<lparr>lost := 0\<rparr> = new_vector"
  by (simp add: new_vector_def)

lemma vec_fields [simp]:
  "rv_data (vec xs r l) = Some (map Live xs @ replicate r Raw)" "rv_size (vec xs r l) = length xs"
  "rv_capacity (vec xs r l) = length xs + r" "lost (vec xs r l) = l"
  "storage (vec xs r l) = (map Live xs @ replicate r Raw, l)"
  by (simp_all add: vec_def storage_def)

lemma holdsE:
  assumes "holds v xs"
  obtains (Store) r l where "v = vec xs r l" | (Null) l where "xs = []" "v = new_vector\<lparr>lost := l\<rparr>"
  using assms unfolding holds_def by blast

lemma holds_vec [simp]: "holds (vec xs r l) xs"
  unfolding holds_def by (rule disjI1, rule exI [of _ r]) simp

lemma on_vec:
  "on_storage f (vec xs r l) = rbind (f (map Live xs @ replicate r Raw, l)) (\<lambda>m. Inr
     \<lparr>rv_data = Some (fst m), rv_size = length xs, rv_capacity = length xs + r, lost = snd m\<rparr>)"
  by (simp add: on_storage_def put_storage_def) (simp add: vec_def)

lemma reallocate_vec:
  assumes "length xs \<le> n"
  shows "reallocate mx n (vec (xs :: 'a list) r l) = (if mx < n then Inl Logic_Error else Inr (vec xs (n - length xs) l))"
proof -
  obtain k where n: "n = length xs + k" using assms nat_le_iff_add by blast
  have "uninitialized_move 0 (length xs) 0 (map Live xs @ replicate r Raw, l) (replicate n Raw, 0)
      = Inr ((replicate (length xs) Moved @ replicate r Raw, l), (map Live xs @ replicate k Raw, 0))"
    using move_cells [of "replicate (length xs) Raw" xs 0 "[]" 0 "[]" "replicate r Raw" l "replicate k Raw" 0]
    by (simp add: n replicate_add)
  moreover have "destroy_range 0 (length xs) (replicate (length xs) Moved @ replicate r Raw :: 'a slot list, l)
      = Inr (replicate (length xs) Raw @ replicate r Raw, l)"
    using destroy_cells [of "replicate (length xs) Moved" "length xs" 0 "[]" "replicate r Raw" l] by auto
  ultimately show ?thesis
    by (simp add: reallocate_def allocate_def n vec_def storage_def)
qed

lemma reallocate_null:
  "reallocate mx n (new_vector\<lparr>lost := l\<rparr>) = (if mx < n then Inl Logic_Error else Inr (vec [] n l))"
  by (simp add: reallocate_def allocate_def new_vector_def vec_def)

section \<open>The operations on a vector that holds a list\<close>

lemma read_vec:
  "read_at k (map Live xs @ replicate r Raw, l)
   = (if k < length xs then Inr (xs ! k) else if k < length xs + r then Inl Uninitialised else Inl Out_Of_Bounds)"
  by (simp add: read_at_def nth_append)

definition moved_arg :: "'a arg \<Rightarrow> 'a result" where
  "moved_arg a = (case a of Value x \<Rightarrow> Inr x | Element _ \<Rightarrow> Inl Dangling)"

lemma moved_arg_simps [simp]: "moved_arg (Value x) = Inr x" "moved_arg (Element k) = Inl Dangling"
  by (simp_all add: moved_arg_def)

lemma forwarded_simps [simp]:
  "forwarded b (Value x) v = Inr x" "forwarded True a v = moved_arg a"
  "k < length xs \<Longrightarrow> forwarded False (Element k) (vec xs r l) = Inr (xs ! k)"
  by (simp_all add: forwarded_def read_vec moved_arg_def split: arg.split)

lemma grow_room: "grow mx (vec xs (Suc r) l) = Inr (vec xs (Suc r) l)"
  by (simp add: grow_def)

lemma grow_full:
  "grow mx (vec xs 0 l) = (let n = (if xs = [] then 1 else 2 * length xs) in
     if mx < n then Inl Logic_Error else Inr (vec xs (n - length xs) l))"
  by (simp add: grow_def reallocate_vec Let_def)

lemma grow_null: "grow mx (new_vector\<lparr>lost := l\<rparr>) = (if mx < 1 then Inl Logic_Error else Inr (vec [] 1 l))"
proof -
  have "grow mx (new_vector\<lparr>lost := l\<rparr>) = reallocate mx 1 (new_vector\<lparr>lost := l\<rparr>)"
    by (simp add: grow_def new_vector_def)
  then show ?thesis by (simp only: reallocate_null)
qed

lemma rbind_assoc: "rbind (rbind r f) g = rbind r (\<lambda>x. rbind (f x) g)"
  by (cases r) simp_all

lemma push_step:
  "rbind (on_storage (construct_at (length xs) x) (vec xs (Suc r) l)) (\<lambda>v. Inr (v\<lparr>rv_size := Suc (rv_size v)\<rparr>))
   = Inr (vec (xs @ [x]) r l)"
  using cell_ops(1) [of "length xs" "map Live xs" x Raw "replicate r Raw" l]
  by (simp add: on_vec)

lemma emplace_back_room:
  "emplace_back mx a (vec xs (Suc r) l) = rbind (forwarded False a (vec xs (Suc r) l)) (\<lambda>x. Inr (vec (xs @ [x]) r l))"
  by (simp add: emplace_back_def grow_room push_step)

lemma emplace_back_full:
  "emplace_back mx a (vec xs 0 l) = (let n = (if xs = [] then 1 else 2 * length xs) in
     if mx < n then Inl Logic_Error
     else rbind (moved_arg a) (\<lambda>x. Inr (vec (xs @ [x]) (n - length xs - 1) l)))"
proof -
  define n where "n = (if xs = [] then 1 else 2 * length xs)"
  obtain r where r: "n - length xs = Suc r" by (cases "n - length xs") (auto simp: n_def split: if_splits)
  show ?thesis
    using r push_step [of xs _ r l] by (simp add: emplace_back_def grow_full Let_def flip: n_def)
qed

lemma emplace_back_null:
  "emplace_back mx (a :: 'a arg) (new_vector\<lparr>lost := l\<rparr>) = (if mx < 1 then Inl Logic_Error
     else rbind (moved_arg a) (\<lambda>x. Inr (vec [x] 0 l)))"
  using push_step [of "[] :: 'a list" _ 0 l] by (simp add: emplace_back_def grow_null)

text \<open>The argument once the elements behind the gap have moved\<close>

definition after_shift :: "'a arg \<Rightarrow> 'a list \<Rightarrow> 'a list \<Rightarrow> 'a result" where
  "after_shift a ps qs = (case a of Value x \<Rightarrow> Inr x
     | Element k \<Rightarrow> if k < length ps then Inr (ps ! k)
         else if k = length ps then Inl Uninitialised else Inr (qs ! (k - length ps - 1)))"

lemma shift_steps:
  assumes "qs \<noteq> []"
  shows "rbind (move_from (length (ps @ qs) - 1) (map Live (ps @ qs) @ replicate (Suc r) Raw, l)) (\<lambda>(x, m).
      rbind (construct_at (length (ps @ qs)) x m) (\<lambda>m1.
      rbind (move_backward (length (ps @ qs) - 1) (length (ps @ qs) - 1 - length ps) (length (ps @ qs)) m1) (destroy_at (length ps))))
    = Inr (map Live ps @ Raw # map Live qs @ replicate r Raw, l)"
proof -
  obtain ys y where qs: "qs = ys @ [y]" using assms by (metis rev_exhaust)
  let ?n = "length (ps @ ys)"
  have "move_from ?n (map Live (ps @ qs) @ replicate (Suc r) Raw, l)
      = Inr (y, (map Live (ps @ ys) @ Moved # Raw # replicate r Raw, l))"
    using cell_ops(4) [of ?n "map Live (ps @ ys)" y "Raw # replicate r Raw" l] by (simp add: qs)
  moreover have "construct_at (Suc ?n) y (map Live (ps @ ys) @ Moved # Raw # replicate r Raw, l)
      = Inr (map Live ps @ map Live ys @ Moved # Live y # replicate r Raw, l)"
    using cell_ops(1) [of "Suc ?n" "map Live (ps @ ys) @ [Moved]" y Raw "replicate r Raw" l] by simp
  moreover have "move_backward ?n (length ys) (Suc ?n) (map Live ps @ map Live ys @ Moved # Live y # replicate r Raw, l)
      = Inr (map Live ps @ Moved # map Live ys @ Live y # replicate r Raw, l)"
    by (rule backward_cells) simp
  moreover have "destroy_at (length ps) (map Live ps @ Moved # map Live ys @ Live y # replicate r Raw, l)
      = Inr (map Live ps @ Raw # map Live qs @ replicate r Raw, l)"
    using cell_ops(2) [of "length ps" "map Live ps" Moved "map Live ys @ Live y # replicate r Raw" l] by (simp add: qs)
  ultimately show ?thesis by (simp add: qs)
qed

lemma after_shift_read:
  assumes "case a of Value x \<Rightarrow> True | Element k \<Rightarrow> k < length (ps @ qs)" "qs \<noteq> []"
  shows "forwarded False a (put_storage (map Live ps @ Raw # map Live qs @ replicate r Raw, l) (vec xs r' l'))
    = after_shift a ps qs"
proof (cases a)
  case (Element k)
  have "k < length ps + length qs" using assms(1) Element by simp
  then consider "k < length ps" | "k = length ps" | j where "k = Suc (length ps + j)" "j < length qs"
    by (metis add_Suc_right less_add_Suc1 less_imp_Suc_add linorder_neqE_nat nat_add_left_cancel_less Suc_lessD)
  then show ?thesis
    by cases (auto simp: forwarded_def after_shift_def storage_def put_storage_def read_at_def nth_append Element)
qed (simp add: after_shift_def)

lemma emplace_steps:
  assumes "qs \<noteq> []"
  shows "rbind (move_from (length ps + length qs - Suc 0) (map Live ps @ map Live qs @ Raw # replicate r Raw, l)) (\<lambda>(x, m).
      rbind (construct_at (length ps + length qs) x m) (\<lambda>m1.
      rbind (move_backward (length ps + length qs - Suc 0) (length qs - Suc 0) (length ps + length qs) m1) (\<lambda>m2.
      rbind (destroy_at (length ps) m2) (\<lambda>m3.
      rbind (W m3) (\<lambda>y. rbind (construct_at (length ps) y m3) (\<lambda>m4.
        Inr ((put_storage m4 (vec (ps @ qs) (Suc r) l))
              \<lparr>rv_size := Suc (rv_size (put_storage m4 (vec (ps @ qs) (Suc r) l)))\<rparr>)))))))
    = rbind (W (map Live ps @ Raw # map Live qs @ replicate r Raw, l)) (\<lambda>x. Inr (vec (ps @ x # qs) r l))"
    (is "?lhs = _")
proof -
  let ?v = "vec (ps @ qs) (Suc r) l"
  let ?m = "(map Live ps @ Raw # map Live qs @ replicate r Raw, l)"
  have put: "construct_at (length ps) y ?m = Inr (map Live ps @ Live y # map Live qs @ replicate r Raw, l)" for y
    using cell_ops(1) [of "length ps" "map Live ps" y Raw "map Live qs @ replicate r Raw" l] by simp
  have "?lhs = rbind (rbind (move_from (length (ps @ qs) - 1) (map Live (ps @ qs) @ replicate (Suc r) Raw, l)) (\<lambda>(x, m).
      rbind (construct_at (length (ps @ qs)) x m) (\<lambda>m1.
      rbind (move_backward (length (ps @ qs) - 1) (length (ps @ qs) - 1 - length ps) (length (ps @ qs)) m1) (destroy_at (length ps)))))
    (\<lambda>m3. rbind (W m3) (\<lambda>y. rbind (construct_at (length ps) y m3) (\<lambda>m4.
        Inr ((put_storage m4 ?v)\<lparr>rv_size := Suc (rv_size (put_storage m4 ?v))\<rparr>))))"
    by (simp add: rbind_assoc case_prod_beta')
  also have "\<dots> = rbind (W ?m) (\<lambda>x. Inr (vec (ps @ x # qs) r l))"
    unfolding shift_steps [OF assms] rbind_Inr put by (simp add: put_storage_def vec_def)
  finally show ?thesis .
qed

lemma emplace_room:
  assumes "qs \<noteq> []" "case a of Value x \<Rightarrow> True | Element k \<Rightarrow> k < length (ps @ qs)"
  shows "emplace mx (length ps) a (vec (ps @ qs) (Suc r) l) = rbind (after_shift a ps qs) (\<lambda>x. Inr (vec (ps @ x # qs) r l))"
  using emplace_steps [OF assms(1), of ps r l "\<lambda>m. forwarded False a (put_storage m (vec (ps @ qs) (Suc r) l))"] assms(1)
  by (simp add: emplace_def grow_room Let_def after_shift_read [OF assms(2,1)])

lemma emplace_full:
  assumes "qs \<noteq> []"
  shows "emplace mx (length ps) a (vec (ps @ qs) 0 l) = (if mx < 2 * length (ps @ qs) then Inl Logic_Error
    else rbind (moved_arg a) (\<lambda>x. Inr (vec (ps @ x # qs) (length (ps @ qs) - 1) l)))"
proof -
  define r where "r = length (ps @ qs) - 1"
  have "length (ps @ qs) = Suc r" using assms(1) by (cases "length (ps @ qs)") (auto simp: r_def)
  then have "grow mx (vec (ps @ qs) 0 l) = (if mx < 2 * length (ps @ qs) then Inl Logic_Error else Inr (vec (ps @ qs) (Suc r) l))"
    using grow_full [of mx "ps @ qs" l] assms by (simp add: Let_def mult_2 del: length_append)
  then show ?thesis
    unfolding r_def [symmetric]
    using emplace_steps [OF assms(1), of ps r l "\<lambda>m. moved_arg a"] assms(1)
    by (simp add: emplace_def Let_def)
qed

lemma erase_vec: "erase (length ps) (vec (ps @ y # qs) r l) = Inr (vec (ps @ qs) (Suc r) l)"
proof -
  obtain g where g: "length g = length [Live y]" "Raw \<notin> set g" and mv: "move_forward (Suc (length ps)) (length qs) (length ps)
      (map Live ps @ [Live y] @ map Live qs @ replicate r Raw, l) = Inr (map Live ps @ map Live qs @ g @ replicate r Raw, l)"
    using forward_cells [of "[Live y]" "length ps" "map Live ps" "Suc (length ps)" qs "replicate r Raw" l] by auto
  obtain c where "g = [c]" using g(1) by (auto simp: length_Suc_conv)
  then have c: "c \<noteq> Raw" and mv: "move_forward (Suc (length ps)) (length qs) (length ps)
      (map Live ps @ Live y # map Live qs @ replicate r Raw, l) = Inr (map Live ps @ map Live qs @ c # replicate r Raw, l)"
    using g(2) mv by auto
  have "destroy_at (length ps + length qs) (map Live ps @ map Live qs @ c # replicate r Raw, l)
      = Inr (map Live ps @ map Live qs @ Raw # replicate r Raw, l)"
    using cell_ops(2) [of "length ps + length qs" "map Live ps @ map Live qs" c "replicate r Raw" l] c by simp
  then show ?thesis
    using mv by (simp add: erase_def on_vec Let_def) (simp add: on_storage_def storage_def put_storage_def vec_def)
qed

lemma erase_range_vec:
  "erase_range (length ps) (length ps + length ms) (vec (ps @ ms @ qs) r l) = Inr (vec (ps @ qs) (r + length ms) l)"
proof (cases "ms = []")
  case False
  obtain g where g: "length g = length ms" "Raw \<notin> set g" and mv: "move_forward (length ps + length ms) (length qs) (length ps)
      (map Live ps @ map Live ms @ map Live qs @ replicate r Raw, l) = Inr (map Live ps @ map Live qs @ g @ replicate r Raw, l)"
    using forward_cells [of "map Live ms" "length ps" "map Live ps" "length ps + length ms" qs "replicate r Raw" l] False
    by auto
  have "destroy_range (length ps + length qs) (length ms) (map Live ps @ map Live qs @ g @ replicate r Raw, l)
      = Inr (map Live ps @ map Live qs @ replicate (length ms) Raw @ replicate r Raw, l)"
    using destroy_cells [OF g(1) _ g(2), of "length ps + length qs" "map Live ps @ map Live qs" "replicate r Raw" l] by simp
  then show ?thesis
    using mv False
    by (simp add: erase_range_def on_vec Let_def) (simp add: on_storage_def storage_def put_storage_def vec_def add.commute flip: replicate_add)
qed (simp add: erase_range_def)

lemma pop_back_vec: "pop_back (vec (xs @ [x]) r l) = Inr (vec xs (Suc r) l)"
  using cell_ops(2) [of "length xs" "map Live xs" "Live x" "replicate r Raw" l]
  by (simp add: pop_back_def on_storage_def storage_def put_storage_def Let_def vec_def)

lemma clear_vec: "clear (vec xs r l) = Inr (vec [] (length xs + r) l)"
  using destroy_cells [of "map Live xs" "length xs" 0 "[]" "replicate r Raw" l]
  by (simp add: clear_def on_vec) (simp add: vec_def replicate_add)

lemma destroy_vec: "destroy_vector (vec xs r l) = Inr l"
  by (simp add: destroy_vector_def clear_vec deallocate_def)

lemma destroy_new: "destroy_vector (new_vector\<lparr>lost := l\<rparr>) = Inr l"
  by (simp add: destroy_vector_def clear_def deallocate_def storage_def)

lemma fill_storage_cells:
  assumes "\<And>t. forwarded b a \<lparr>rv_data = Some (map Live xs @ t), rv_size = length xs, rv_capacity = c, lost = l\<rparr> = Inr x"
  shows "fill_from b a (length xs + j) n
    \<lparr>rv_data = Some (map Live xs @ replicate j (Live x) @ replicate (n + r) Raw), rv_size = length xs, rv_capacity = c, lost = l\<rparr>
    = Inr \<lparr>rv_data = Some (map Live xs @ replicate (j + n) (Live x) @ replicate r Raw), rv_size = length xs, rv_capacity = c, lost = l\<rparr>"
proof (induction n arbitrary: j)
  case (Suc n)
  have "construct_at (length xs + j) x (map Live xs @ replicate j (Live x) @ Raw # replicate (n + r) Raw, l)
      = Inr (map Live xs @ replicate (Suc j) (Live x) @ replicate (n + r) Raw, l)"
    using cell_ops(1) [of "length xs + j" "map Live xs @ replicate j (Live x)" x Raw "replicate (n + r) Raw" l]
    by (simp add: replicate_append_same)
  then show ?case
    using Suc.IH [of "Suc j"] assms by (simp add: on_storage_def storage_def put_storage_def)
qed simp

lemma forwarded_inside:
  "k < length xs \<Longrightarrow> forwarded False (Element k)
     \<lparr>rv_data = Some (map Live xs @ t), rv_size = s, rv_capacity = c, lost = l\<rparr> = Inr (xs ! k)"
  by (simp add: forwarded_def storage_def read_at_def nth_append)

text \<open>\<open>resize\<close> to a larger size\<close>

lemma resize_grow:
  assumes "length xs < n" and
    arg: "\<And>t c. forwarded (length xs + r < n) a \<lparr>rv_data = Some (map Live xs @ t), rv_size = length xs, rv_capacity = c, lost = l\<rparr> = Inr x"
  shows "resize mx n a (vec xs r l) = (if length xs + r < n \<and> mx < n then Inl Logic_Error
    else Inr (vec (xs @ replicate (n - length xs) x) (length xs + r - n) l))"
proof -
  define k where "k = n - length xs"
  have n: "n = length xs + k" using assms(1) by (simp add: k_def)
  have fill: "fill_from (length xs + r < n) a (length xs) k (vec xs (k + r') l)
      = Inr \<lparr>rv_data = Some (map Live xs @ replicate k (Live x) @ replicate r' Raw), rv_size = length xs,
          rv_capacity = length xs + (k + r'), lost = l\<rparr>" for r'
    using fill_storage_cells [OF arg, where j = 0 and n = k and r = r'] by (simp add: vec_def)
  show ?thesis
  proof (cases "length xs + r < n")
    case True
    then show ?thesis
      using fill [of 0] n by (auto simp: resize_def reallocate_vec; simp add: vec_def)
  next
    case False
    then have "k \<le> r" using n by simp
    then obtain r' where "r = k + r'" using le_Suc_ex by blast
    then show ?thesis
      using fill [of r'] n False by (auto simp: resize_def; simp add: vec_def)
  qed
qed

lemma resize_shrink:
  assumes "n \<le> length xs"
  shows "resize mx n a (vec xs r l) = Inr (vec (take n xs) (length xs - n + r) l)"
proof -
  have "destroy_range n (length xs - n) (map Live (take n xs) @ map Live (drop n xs) @ replicate r Raw, l)
      = Inr (map Live (take n xs) @ replicate (length xs - n) Raw @ replicate r Raw, l)"
    using assms by (intro destroy_cells) auto
  then have "destroy_range n (length xs - n) (map Live xs @ replicate r Raw, l)
      = Inr (map Live (take n xs) @ replicate (length xs - n + r) Raw, l)"
    by (simp add: replicate_add flip: append_assoc map_append)
  then show ?thesis
    using assms by (cases "n = length xs") (simp_all add: resize_def on_vec)
qed

section \<open>Sequences of operations\<close>

datatype 'a vop = Push_Back 'a | Insert nat 'a | Erase nat | Erase_Range nat nat | Pop_Back
  | Resize nat 'a | Reserve nat | Shrink_To_Fit | Clear

fun apply_op :: "nat \<Rightarrow> 'a vop \<Rightarrow> 'a rvec \<Rightarrow> 'a rvec result" where
  "apply_op mx (Push_Back x) v = push_back mx (Value x) v"
| "apply_op mx (Insert i x) v = insert_at mx i (Value x) v"
| "apply_op mx (Erase i) v = erase i v"
| "apply_op mx (Erase_Range i j) v = erase_range i j v"
| "apply_op mx Pop_Back v = pop_back v"
| "apply_op mx (Resize n x) v = resize mx n (Value x) v"
| "apply_op mx (Reserve n) v = reserve mx n v"
| "apply_op mx Shrink_To_Fit v = shrink_to_fit mx v"
| "apply_op mx Clear v = clear v"

text \<open>The same operations on lists; \<open>None\<close> is a failed assertion\<close>

fun list_op :: "'a vop \<Rightarrow> 'a list \<Rightarrow> 'a list option" where
  "list_op (Push_Back x) xs = Some (xs @ [x])"
| "list_op (Insert i x) xs = (if i \<le> length xs then Some (take i xs @ x # drop i xs) else None)"
| "list_op (Erase i) xs = (if i < length xs then Some (take i xs @ drop (Suc i) xs) else None)"
| "list_op (Erase_Range i j) xs = (if i \<le> j \<and> j \<le> length xs then Some (take i xs @ drop j xs) else None)"
| "list_op Pop_Back xs = Some (butlast xs)"
| "list_op (Resize n x) xs = Some (take n xs @ replicate (n - length xs) x)"
| "list_op (Reserve n) xs = Some xs"
| "list_op Shrink_To_Fit xs = Some xs"
| "list_op Clear xs = Some []"

text \<open>Whether \<open>mx\<close> allows the storage the operation may ask for\<close>

fun room :: "nat \<Rightarrow> 'a vop \<Rightarrow> 'a list \<Rightarrow> bool" where
  "room mx (Push_Back x) xs \<longleftrightarrow> 1 \<le> mx \<and> 2 * length xs \<le> mx"
| "room mx (Insert i x) xs \<longleftrightarrow> 1 \<le> mx \<and> 2 * length xs \<le> mx"
| "room mx (Resize n x) xs \<longleftrightarrow> n \<le> mx"
| "room mx (Reserve n) xs \<longleftrightarrow> n \<le> mx"
| "room mx op xs \<longleftrightarrow> True"

definition vec_ok :: "nat \<Rightarrow> 'a rvec \<Rightarrow> 'a list \<Rightarrow> bool" where
  "vec_ok mx v xs \<longleftrightarrow> holds v xs \<and> rv_capacity v \<le> mx \<and> lost v = 0"

lemma vec_ok_intros [intro, simp]: "length xs + r \<le> mx \<Longrightarrow> vec_ok mx (vec xs r 0) xs" "vec_ok mx new_vector []"
  by (auto simp: vec_ok_def holds_def)

lemma vec_okE:
  assumes "vec_ok mx v xs"
  obtains (Store) r where "v = vec xs r 0" "length xs + r \<le> mx" | (Null) "xs = []" "v = new_vector"
proof -
  have "holds v xs" "rv_capacity v \<le> mx" "lost v = 0" using assms by (simp_all add: vec_ok_def)
  then show ?thesis
  proof (cases rule: holdsE)
    case (Store r l)
    then show ?thesis using \<open>rv_capacity v \<le> mx\<close> \<open>lost v = 0\<close> that(1) [of r] by simp
  next
    case (Null l)
    then have "l = 0" using \<open>lost v = 0\<close> by simp
    then show ?thesis using Null that(2) by (simp add: new_vector_def)
  qed
qed

definition agrees :: "nat \<Rightarrow> bool \<Rightarrow> 'a list option \<Rightarrow> 'a rvec result \<Rightarrow> bool" where
  "agrees mx enough ys r = (case r of
     Inr v \<Rightarrow> (\<exists>zs. ys = Some zs \<and> vec_ok mx v zs)
   | Inl e \<Rightarrow> e = Logic_Error \<and> \<not> enough \<or> e = Exit_With ''assert'' \<and> ys = None)"

lemma agrees_simps [simp]:
  "agrees mx b (Some zs) (Inr v) \<longleftrightarrow> vec_ok mx v zs" "agrees mx b ys (Inl Logic_Error) \<longleftrightarrow> \<not> b"
  "agrees mx b None (Inl (Exit_With ''assert''))" "\<not> agrees mx b None (Inr v)"
  by (simp_all add: agrees_def)

lemma push_agrees:
  assumes "vec_ok mx v xs"
  shows "agrees mx (1 \<le> mx \<and> 2 * length xs \<le> mx) (Some (xs @ [x])) (emplace_back mx (Value x) v)"
  using assms
proof (cases rule: vec_okE)
  case (Store r)
  then show ?thesis by (cases r; cases xs) (auto simp: emplace_back_room emplace_back_full Let_def)
next
  case Null
  then show ?thesis using emplace_back_null [of mx "Value x" 0] by simp
qed

lemma split_at: "i < length xs \<Longrightarrow> \<exists>ps y qs. xs = ps @ y # qs \<and> length ps = i"
  by (rule exI [of _ "take i xs"], rule exI [of _ "xs ! i"], rule exI [of _ "drop (Suc i) xs"]) (simp add: id_take_nth_drop [symmetric])

lemma insert_agrees:
  assumes "vec_ok mx v xs"
  shows "agrees mx (1 \<le> mx \<and> 2 * length xs \<le> mx)
    (if i \<le> length xs then Some (take i xs @ x # drop i xs) else None) (emplace mx i (Value x) v)"
proof -
  have size: "rv_size v = length xs" using assms by (cases rule: vec_okE) simp_all
  consider "length xs < i" | "i = length xs" | "i < length xs" by linarith
  then show ?thesis
  proof cases
    case 1
    then show ?thesis by (simp add: emplace_def size)
  next
    case 2
    then show ?thesis using push_agrees [OF assms, of x] by (simp add: emplace_def size)
  next
    case 3
    then obtain ps y qs where xs: "xs = ps @ y # qs" "length ps = i" using split_at by blast
    from assms obtain r where v: "v = vec xs r 0" "length xs + r \<le> mx" using 3 by (cases rule: vec_okE) auto
    have q: "y # qs \<noteq> []" by simp
    show ?thesis
      using v emplace_room [OF q, where a = "Value x" and ps = ps and mx = mx] emplace_full [OF q, where a = "Value x" and ps = ps and mx = mx] xs
      by (cases r) (auto simp: after_shift_def)
  qed
qed

lemma erase_agrees:
  assumes "vec_ok mx v xs"
  shows "agrees mx True (if i < length xs then Some (take i xs @ drop (Suc i) xs) else None) (erase i v)"
proof (cases "i < length xs")
  case True
  then obtain ps y qs where xs: "xs = ps @ y # qs" "length ps = i" using split_at by blast
  from assms obtain r where "v = vec xs r 0" "length xs + r \<le> mx" using True by (cases rule: vec_okE) auto
  then show ?thesis using xs erase_vec [of ps y qs r 0] by auto
next
  case False
  then show ?thesis by (cases rule: vec_okE [OF assms]) (simp_all add: erase_def)
qed

lemma erase_range_agrees:
  assumes "vec_ok mx v xs"
  shows "agrees mx True (if i \<le> j \<and> j \<le> length xs then Some (take i xs @ drop j xs) else None) (erase_range i j v)"
proof (cases "i \<le> j \<and> j \<le> length xs")
  case True
  define ps ms qs where "ps = take i xs" and "ms = drop i (take j xs)" and "qs = drop j xs"
  have xs: "xs = ps @ ms @ qs" and l: "length ps = i" "length ps + length ms = j"
    using True by (auto simp: ps_def ms_def qs_def) (metis append.assoc append_take_drop_id min.absorb1 take_take)
  show ?thesis
    using assms
  proof (cases rule: vec_okE)
    case (Store r)
    then show ?thesis using True xs l erase_range_vec [of ps ms qs r 0] by auto
  next
    case Null
    then show ?thesis using True by (simp add: erase_range_def)
  qed
next
  case False
  then show ?thesis by (cases rule: vec_okE [OF assms]) (auto simp: erase_range_def)
qed

lemma resize_agrees:
  assumes "vec_ok mx v xs"
  shows "agrees mx (n \<le> mx) (Some (take n xs @ replicate (n - length xs) x)) (resize mx n (Value x) v)"
  using assms
proof (cases rule: vec_okE)
  case (Store r)
  then show ?thesis
    by (cases "n \<le> length xs") (auto simp: resize_shrink resize_grow)
next
  case Null
  have "reallocate mx n new_vector = reallocate mx n (vec ([] :: 'a list) 0 0)"
    using reallocate_null [where 'a = 'a, of mx n 0] reallocate_vec [where 'a = 'a, of "[]" n mx 0 0] by simp
  then have "resize mx n (Value x) new_vector = (if n = 0 then Inr new_vector else if mx < n then Inl Logic_Error
      else Inr (vec (replicate n x) 0 0))"
    using resize_grow [of "[]" n 0 "Value x" 0 x mx] by (cases "n = 0") (simp_all add: resize_def)
  then show ?thesis using Null by simp
qed

lemma op_agrees:
  assumes "vec_ok mx v xs"
  shows "agrees mx (room mx op xs) (list_op op xs) (apply_op mx op v)"
proof (cases op)
  case Pop_Back
  then show ?thesis
    by (cases rule: vec_okE [OF assms]; cases xs rule: rev_cases) (auto simp: pop_back_vec, simp_all add: pop_back_def)
next
  case (Reserve n)
  then show ?thesis
    by (cases rule: vec_okE [OF assms]) (auto simp: reserve_def reallocate_vec reallocate_null [of mx n 0, simplified])
next
  case Shrink_To_Fit
  then show ?thesis
    by (cases rule: vec_okE [OF assms]) (auto simp: shrink_to_fit_def reallocate_vec)
next
  case Clear
  then show ?thesis
    by (cases rule: vec_okE [OF assms]) (auto simp: clear_vec, simp add: clear_def)
qed (use push_agrees [OF assms] insert_agrees [OF assms] erase_agrees [OF assms] erase_range_agrees [OF assms] resize_agrees [OF assms]
     in \<open>simp_all add: push_back_def insert_at_def\<close>)

primrec run_ops :: "nat \<Rightarrow> 'a vop list \<Rightarrow> 'a rvec \<Rightarrow> 'a rvec result" where
  "run_ops mx [] v = Inr v"
| "run_ops mx (op # ops) v = rbind (apply_op mx op v) (run_ops mx ops)"

primrec run_list :: "'a vop list \<Rightarrow> 'a list \<Rightarrow> 'a list option" where
  "run_list [] xs = Some xs"
| "run_list (op # ops) xs = Option.bind (list_op op xs) (run_list ops)"

primrec roomy :: "nat \<Rightarrow> 'a vop list \<Rightarrow> 'a list \<Rightarrow> bool" where
  "roomy mx [] xs \<longleftrightarrow> True"
| "roomy mx (op # ops) xs \<longleftrightarrow> room mx op xs \<and> (case list_op op xs of None \<Rightarrow> True | Some ys \<Rightarrow> roomy mx ops ys)"

lemma run_agrees: "vec_ok mx v xs \<Longrightarrow> agrees mx (roomy mx ops xs) (run_list ops xs) (run_ops mx ops v)"
proof (induction ops arbitrary: v xs)
  case (Cons op ops)
  note step = op_agrees [OF Cons.prems, of op]
  show ?case
  proof (cases "apply_op mx op v")
    case (Inl e)
    then show ?thesis using step by (auto simp: agrees_def)
  next
    case (Inr v')
    then obtain ys where "list_op op xs = Some ys" "vec_ok mx v' ys" using step by (auto simp: agrees_def)
    then show ?thesis using Cons.IH [of v' ys] Inr by (auto simp: agrees_def split: sum.splits)
  qed
qed simp

section \<open>Properties\<close>

text \<open>C11: A sequence of the operations of \<open>vop\<close> on a new vector, each with values that are not elements of the
  vector itself as arguments, computes what the same operations compute on lists, and the destructor destroys every
  element exactly once.  It stops early only by the assertion that guards a position, or by \<^verbatim>\<open>length_error\<close>, and the
  latter only when an operation may need more storage than \<^verbatim>\<open>max_size\<close> allows.  The copy assignment is not one
  of these operations, and an element of the vector is not among the arguments: both go wrong, as
  \<open>copy_assignment_loses_every_element\<close> and \<open>insert_of_own_element\<close> show.\<close>

theorem allocator_vector_refines_list:
  "case run_ops mx ops new_vector of
     Inr v \<Rightarrow> \<exists>xs. run_list ops [] = Some xs \<and> rv_size v = length xs \<and> rv_size v \<le> rv_capacity v \<and>
       map (\<lambda>i. index i v) [0 ..< rv_size v] = map Inr xs \<and> destroy_vector v = Inr 0
   | Inl e \<Rightarrow> e = Logic_Error \<and> \<not> roomy mx ops [] \<or> e = Exit_With ''assert'' \<and> run_list ops [] = None"
proof -
  have "agrees mx (roomy mx ops []) (run_list ops []) (run_ops mx ops (new_vector :: 'a rvec))"
    by (rule run_agrees) simp
  moreover have "rv_size v = length xs \<and> rv_size v \<le> rv_capacity v \<and>
      map (\<lambda>i. index i v) [0 ..< rv_size v] = map Inr xs \<and> destroy_vector v = Inr 0"
    if "vec_ok mx v xs" for v :: "'a rvec" and xs
    using that
  proof (cases rule: vec_okE)
    case (Store r)
    then show ?thesis by (auto simp: index_def read_vec destroy_vec intro!: nth_equalityI)
  next
    case Null
    then show ?thesis using destroy_new [of 0] by simp
  qed
  ultimately show ?thesis by (auto simp: agrees_def split: sum.splits)
qed

text \<open>An element of the vector as argument of \<^verbatim>\<open>insert\<close> or \<^verbatim>\<open>push_back\<close>\<close>

text \<open>\<^verbatim>\<open>v.insert(v.begin() + pos, v[k])\<close> in front of the end of a vector with spare storage inserts the wrong
  value or reads a destroyed element unless \<^verbatim>\<open>k < pos\<close>, since it uses the argument after it has moved the
  elements; in a vector without spare storage it, and \<^verbatim>\<open>v.push_back(v[k])\<close>, read storage that was given back.\<close>

theorem insert_of_own_element:
  assumes "pos < length xs" "k < length xs" "2 * length xs \<le> mx"
  shows "insert_at mx pos (Element k) (vec xs (Suc r) l) =
      (if k = pos then Inl Uninitialised
       else Inr (vec (take pos xs @ (if k < pos then xs ! k else xs ! (k - 1)) # drop pos xs) r l)) \<and>
    insert_at mx pos (Element k) (vec xs 0 l) = Inl Dangling \<and> push_back mx (Element k) (vec xs 0 l) = Inl Dangling"
proof -
  obtain ps y qs where xs: "xs = ps @ y # qs" "length ps = pos" using split_at [OF assms(1)] by blast
  have q: "y # qs \<noteq> []" by simp
  have "insert_at mx pos (Element k) (vec xs (Suc r) l) =
      (if k = pos then Inl Uninitialised
       else Inr (vec (take pos xs @ (if k < pos then xs ! k else xs ! (k - 1)) # drop pos xs) r l))"
    using emplace_room [OF q, where a = "Element k" and ps = ps and mx = mx and r = r and l = l] assms xs
    by (auto simp: insert_at_def after_shift_def nth_append nth_Cons')
  moreover have "insert_at mx pos (Element k) (vec xs 0 l) = Inl Dangling"
    using emplace_full [OF q, where a = "Element k" and ps = ps and mx = mx and l = l] assms(3) xs
    by (auto simp: insert_at_def)
  moreover have "push_back mx (Element k) (vec xs 0 l) = Inl Dangling"
    using emplace_back_full [of mx "Element k" xs l] assms by (auto simp: push_back_def Let_def split: if_splits)
  ultimately show ?thesis by blast
qed

theorem insert_of_own_element_witness:
  "insert_at 100 0 (Element 2) (vec [10 :: nat, 20, 30] 1 0) = Inr (vec [20, 10, 20, 30] 0 0)"
  using insert_of_own_element [of 0 "[10 :: nat, 20, 30]" 2 100 0 0] by simp

lemma assign_into_storage:
  assumes "v = \<lparr>rv_data = Some buf, rv_size = n, rv_capacity = length buf, lost = l\<rparr>" "holds w ys" "length ys \<le> length buf"
  shows "assign_vector mx w v = Inr \<lparr>rv_data = Some (map Live ys @ drop (length ys) buf), rv_size = length ys,
    rv_capacity = length buf, lost = l + living (take (length ys) buf)\<rparr>"
proof -
  have "uninitialized_copy (storage w) 0 (length ys) 0 (buf, l)
      = Inr (map Live ys @ drop (length ys) buf, l + living (take (length ys) buf))"
    using assms(2)
  proof (cases rule: holdsE)
    case (Store r k)
    then show ?thesis
      using copy_cells [of "take (length ys) buf" ys 0 "[]" 0 "[]" "replicate r Raw" k "drop (length ys) buf" l] assms(3) by simp
  qed simp
  moreover have "rv_size w = length ys" using assms(2) by (cases rule: holdsE) simp_all
  ultimately show ?thesis
    using assms(1,3) by (simp add: assign_vector_def Let_def on_storage_def storage_def put_storage_def)
qed

text \<open>Copy assignment into storage that is large enough gives the right elements, but constructs them over
  the old ones and leaves the rest of those behind the end: no element the target had is ever destroyed.\<close>

theorem copy_assignment_loses_every_element:
  assumes "holds v xs" "holds w ys" "length ys \<le> rv_capacity v"
  shows "\<exists>u. assign_vector mx w v = Inr u \<and> rv_size u = length ys \<and>
    map (\<lambda>i. index i u) [0 ..< length ys] = map Inr ys \<and> destroy_vector u = Inr (lost v + length xs)"
  using assms(1)
proof (cases rule: holdsE)
  case (Store r l)
  let ?buf = "map Live xs @ replicate r Raw"
  define u where "u = \<lparr>rv_data = Some (map Live ys @ drop (length ys) ?buf), rv_size = length ys,
    rv_capacity = length ?buf, lost = l + living (take (length ys) ?buf)\<rparr>"
  have "assign_vector mx w v = Inr u"
    unfolding u_def by (rule assign_into_storage) (use assms Store in \<open>simp_all add: vec_def\<close>)
  moreover have "map (\<lambda>i. index i u) [0 ..< length ys] = map Inr ys"
    by (rule nth_equalityI) (simp_all add: index_def u_def storage_def read_at_def nth_append)
  moreover have "destroy_vector u = Inr (l + length xs)"
  proof -
    have "destroy_range 0 (length ys) (map Live ys @ drop (length ys) ?buf, k)
        = Inr (replicate (length ys) Raw @ drop (length ys) ?buf, k)" for k
      using destroy_cells [of "map Live ys" "length ys" 0 "[]" "drop (length ys) ?buf" k] by simp
    moreover have "living (take (length ys) ?buf) + living (drop (length ys) ?buf) = length xs"
      by (metis add.right_neutral append_take_drop_id living_simps(5-7))
    ultimately show ?thesis
      by (simp add: destroy_vector_def clear_def u_def on_storage_def storage_def put_storage_def deallocate_def)
  qed
  ultimately show ?thesis using Store by (intro exI [of _ u]) (simp add: u_def)
next
  case (Null l)
  then have "ys = []" using assms(3) by simp
  then have "assign_vector mx w v = Inr v"
    using Null
    by (cases rule: holdsE [OF assms(2)]) (simp_all add: assign_vector_def Let_def on_storage_def storage_def put_storage_def new_vector_def)
  then show ?thesis using Null \<open>ys = []\<close> destroy_new [of l] by (intro exI [of _ v]) simp
qed

theorem copy_assignment_loses_every_element_witness:
  "\<exists>u. assign_vector 100 (vec [7] 0 0) (vec [1 :: nat, 2, 3] 1 0) = Inr u \<and> destroy_vector u = Inr 3"
  using copy_assignment_loses_every_element [of "vec [1 :: nat, 2, 3] 1 0" "[1, 2, 3]" "vec [7] 0 0" "[7]" 100] by auto

lemma run_ops_snoc: "run_ops mx (ops @ [op]) v = rbind (run_ops mx ops v) (apply_op mx op)"
proof (induction ops arbitrary: v)
  case Nil
  then show ?case by (cases "apply_op mx op v") simp_all
next
  case (Cons a ops)
  then show ?case by (cases "apply_op mx a v") simp_all
qed

text \<open>Pushing elements onto a new vector keeps the storage below twice their number.\<close>

theorem push_back_doubles_storage:
  assumes "xs \<noteq> []" "2 * length xs \<le> mx"
  shows "\<exists>r. run_ops mx (map Push_Back xs) new_vector = Inr (vec xs r 0) \<and> length xs + r < 2 * length xs"
  using assms
proof (induction xs rule: rev_induct)
  case (snoc x xs)
  show ?case
  proof (cases "xs = []")
    case True
    then show ?thesis
      using emplace_back_null [of mx "Value x" 0] snoc.prems by (intro exI [of _ 0]) (simp add: push_back_def rbind_def)
  next
    case False
    then obtain r where r: "run_ops mx (map Push_Back xs) new_vector = Inr (vec xs r 0)" "length xs + r < 2 * length xs"
      using snoc by auto
    show ?thesis
    proof (cases r)
      case 0
      then show ?thesis
        using r snoc.prems False emplace_back_full [of mx "Value x" xs 0]
        by (intro exI [of _ "length xs - 1"]) (auto simp: push_back_def run_ops_snoc Let_def mult_2)
    next
      case (Suc r')
      then show ?thesis
        using r emplace_back_room [of mx "Value x" xs r' 0] by (intro exI [of _ r']) (simp add: push_back_def run_ops_snoc)
    qed
  qed
qed simp

theorem push_back_doubles_storage_witness:
  "\<exists>r. run_ops 1000 (map Push_Back [1 :: nat, 2, 3, 4, 5]) new_vector = Inr (vec [1, 2, 3, 4, 5] r 0) \<and> 5 + r < 10"
  using push_back_doubles_storage [of "[1 :: nat, 2, 3, 4, 5]" 1000] by simp

lemma holds_new [simp]: "holds (new_vector\<lparr>lost := l\<rparr>) []"
  by (simp add: holds_def new_vector_def)

lemma put_vec:
  "v\<lparr>rv_data := Some (map Live xs @ replicate r Raw), rv_size := length xs, rv_capacity := length xs + r\<rparr> = vec xs r (lost v)"
  "v\<lparr>rv_data := None, rv_size := 0, rv_capacity := 0\<rparr> = new_vector\<lparr>lost := lost v\<rparr>"
  by (simp_all add: vec_def new_vector_def)

lemma construct_all:
  assumes "uninitialized_copy src 0 (length xs) 0 (replicate (length xs) Raw, 0) = Inr (map Live xs, 0)"
  shows "on_storage (uninitialized_copy src 0 (length xs) 0)
      \<lparr>rv_data = Some (replicate (length xs) Raw), rv_size = length xs, rv_capacity = length xs, lost = 0\<rparr> = Inr (vec xs 0 0)"
  using assms by (simp add: on_storage_def storage_def put_storage_def; simp add: vec_def)

lemma copy_all: "uninitialized_copy (map Live xs @ b, k) 0 (length xs) 0 (replicate (length xs) Raw, 0) = Inr (map Live xs, 0)"
  using copy_cells [of "replicate (length xs) Raw" xs 0 "[]" 0 "[]" b k "[]" 0] by simp

text \<open>The constructors and the assignments but copy assignment: the copy holds the elements of its source, a move
  hands them over and leaves an empty vector, and \<^verbatim>\<open>swap\<close> exchanges them; no object is lost.\<close>

theorem copies_moves_and_swap:
  assumes "holds v xs" "holds w ys" "length ys \<le> mx"
  shows "(\<exists>u. copy_vector mx w = Inr u \<and> holds u ys \<and> lost u = 0) \<and>
    (\<exists>u. vector_list mx ys = Inr u \<and> holds u ys \<and> lost u = 0) \<and>
    (\<exists>u w'. move_vector w = (u, w') \<and> holds u ys \<and> holds w' [] \<and> lost u + lost w' = lost w) \<and>
    (\<exists>u w'. move_assign_vector w v = Inr (u, w') \<and> holds u ys \<and> holds w' [] \<and> lost u + lost w' = lost v + lost w) \<and>
    (\<exists>v' w'. swap_vectors v w = (v', w') \<and> holds v' ys \<and> holds w' xs \<and> lost v' + lost w' = lost v + lost w)"
proof (intro conjI)
  show "\<exists>u. copy_vector mx w = Inr u \<and> holds u ys \<and> lost u = 0"
    using assms(2)
  proof (cases rule: holdsE)
    case (Store r l)
    have "copy_vector mx w = Inr (if ys = [] then new_vector else vec ys 0 0)"
      using Store assms(3) construct_all [OF copy_all, of ys "replicate r Raw" l]
      by (simp add: copy_vector_def allocate_def; simp add: new_vector_def)
    then show ?thesis using holds_new [of 0] by auto
  next
    case (Null l)
    then have "copy_vector mx w = Inr new_vector" by (simp add: copy_vector_def; simp add: new_vector_def)
    then show ?thesis using holds_new [of 0] Null by auto
  qed
  show "\<exists>u. vector_list mx ys = Inr u \<and> holds u ys \<and> lost u = 0"
  proof -
    have "vector_list mx ys = Inr (if ys = [] then new_vector else vec ys 0 0)"
      using assms(3) construct_all [OF copy_all, of ys "[]" 0]
      by (simp add: vector_list_def allocate_def Let_def; simp add: new_vector_def)
    then show ?thesis using holds_new [of 0] by auto
  qed
  show "\<exists>u w'. move_vector w = (u, w') \<and> holds u ys \<and> holds w' [] \<and> lost u + lost w' = lost w"
    using assms(2)
    by (cases rule: holdsE) (auto simp: move_vector_def holds_def vec_def new_vector_def)
  show "\<exists>v' w'. swap_vectors v w = (v', w') \<and> holds v' ys \<and> holds w' xs \<and> lost v' + lost w' = lost v + lost w"
    using assms(2)
    by (cases rule: holdsE; cases rule: holdsE [OF assms(1)]) (auto simp: swap_vectors_def holds_def vec_def new_vector_def)
  have "\<exists>v1. clear v = Inr v1 \<and> lost (deallocate v1) = lost v"
    using assms(1)
  proof (cases rule: holdsE)
    case (Store r l)
    then show ?thesis by (simp add: clear_vec deallocate_def)
  next
    case (Null l)
    then show ?thesis by (simp add: clear_def deallocate_def storage_def)
  qed
  then obtain v1 where "clear v = Inr v1" "lost (deallocate v1) = lost v" by blast
  then show "\<exists>u w'. move_assign_vector w v = Inr (u, w') \<and> holds u ys \<and> holds w' [] \<and> lost u + lost w' = lost v + lost w"
    by (cases rule: holdsE [OF assms(2)]) (simp_all add: move_assign_vector_def Let_def put_vec)
qed

theorem copies_moves_and_swap_witness:
  "\<exists>v' w'. swap_vectors (vec [1 :: nat, 2] 1 0) new_vector = (v', w') \<and> holds v' [] \<and> holds w' [1, 2]"
  using copies_moves_and_swap [of "vec [1 :: nat, 2] 1 0" "[1, 2]" new_vector "[]" 10] holds_new [of 0] by auto

end
