(* ===== verification/EventHttp.thy ===== *)
theory EventHttp
  imports Prelude "HOL-Library.Sublist"
begin

text \<open>
  The web server on libevent, \<^verbatim>\<open>libevent/event_http.c\<close>.

  libevent calls \<^verbatim>\<open>httpd_handler\<close> for a request with its URI, method and body; the record \<open>request\<close> has
  these, the headers the handler adds and the replies it sends.  The file system is a function from
  paths to what \<^verbatim>\<open>stat\<close> and \<^verbatim>\<open>fopen\<close> find there.  For \<^verbatim>\<open>main\<close> the outcomes of the calls that can fail
  and the signals that arrive while the event loop runs are inputs, and the objects of libevent are
  known by whether they are still allocated.
\<close>

section \<open>Options\<close>

record httpd_config =
  listen_addr :: string
  listen_port :: int
  daemon_mode :: bool
  conf_timeout :: int
  doc_root :: "string option"

definition DEFAULT_PORT :: int where "DEFAULT_PORT = 8080"

definition DEFAULT_TIMEOUT :: int where "DEFAULT_TIMEOUT = 120"

definition init_config :: httpd_config where
  "init_config = \<lparr>listen_addr = ''0.0.0.0'', listen_port = DEFAULT_PORT, daemon_mode = False,
     conf_timeout = DEFAULT_TIMEOUT, doc_root = None\<rparr>"

text \<open>The results of \<^verbatim>\<open>getopt\<close> with the options \<^verbatim>\<open>"l:p:dt:r:h"\<close>; arguments that are no options are passed over.\<close>

function getopt :: "string \<Rightarrow> string list \<Rightarrow> (char \<times> string) list" where
  "getopt [] [] = []"
| "getopt [] (a # args) =
     (if a = ''--'' then []
      else if prefix ''-'' a \<and> a \<noteq> ''-'' then getopt (tl a) args else getopt [] args)"
| "getopt (c # cs) args =
     (if c \<in> set ''lptr'' then
        (if cs \<noteq> [] then (c, cs) # getopt [] args
         else case args of [] \<Rightarrow> [(CHR ''?'', [])] | a # args' \<Rightarrow> (c, a) # getopt [] args')
      else if c \<in> set ''dh'' then (c, []) # getopt cs args
      else (CHR ''?'', []) # getopt cs args)"
  by pat_completeness auto
termination
  by (relation "measure (\<lambda>(cs, args). length cs + sum_list (map (\<lambda>a. Suc (length a)) args))") auto

fun parse_args :: "(char \<times> string) list \<Rightarrow> httpd_config \<Rightarrow> int \<times> httpd_config" where
  "parse_args [] cfg = (0, cfg)"
| "parse_args ((c, optarg) # opts) cfg =
     (if c = CHR ''l'' then parse_args opts (cfg\<lparr>listen_addr := optarg\<rparr>)
      else if c = CHR ''p'' then parse_args opts (cfg\<lparr>listen_port := atoi optarg\<rparr>)
      else if c = CHR ''d'' then parse_args opts (cfg\<lparr>daemon_mode := True\<rparr>)
      else if c = CHR ''t'' then parse_args opts (cfg\<lparr>conf_timeout := atoi optarg\<rparr>)
      else if c = CHR ''r'' then parse_args opts (cfg\<lparr>doc_root := Some optarg\<rparr>)
      else (- 1, cfg))"

section \<open>Requests\<close>

datatype evhttp_cmd = GET | POST | HEAD | PUT | DELETE | Other_Command

record reply =
  r_code :: nat
  r_reason :: string
  r_headers :: "(string \<times> string) list"
  r_body :: string

record request =
  req_uri :: string
  req_command :: evhttp_cmd
  input_buffer :: string
  output_headers :: "(string \<times> string) list"
  replies :: "reply list"
  stdout :: "string list"

definition add_header :: "string \<Rightarrow> string \<Rightarrow> request \<Rightarrow> request" where
  "add_header k v req = req\<lparr>output_headers := output_headers req @ [(k, v)]\<rparr>"

definition send_reply :: "nat \<Rightarrow> string \<Rightarrow> string \<Rightarrow> request \<Rightarrow> request" where
  "send_reply code reason buf req =
     req\<lparr>replies := replies req @ [\<lparr>r_code = code, r_reason = reason, r_headers = output_headers req, r_body = buf\<rparr>]\<rparr>"

definition MYHTTPD_SIGNATURE :: string where "MYHTTPD_SIGNATURE = ''myhttpd v 1.0''"

definition HTTP_OK :: nat where "HTTP_OK = 200"
definition HTTP_BADREQUEST :: nat where "HTTP_BADREQUEST = 400"
definition HTTP_NOTFOUND :: nat where "HTTP_NOTFOUND = 404"
definition HTTP_BADMETHOD :: nat where "HTTP_BADMETHOD = 405"
definition HTTP_INTERNAL :: nat where "HTTP_INTERNAL = 500"

lemmas http_codes = HTTP_OK_def HTTP_BADREQUEST_def HTTP_NOTFOUND_def HTTP_BADMETHOD_def HTTP_INTERNAL_def

definition send_error :: "nat \<Rightarrow> string \<Rightarrow> request \<Rightarrow> request" where
  "send_error code reason req =
     send_reply code reason (reason @ [LF])
       (add_header ''Content-Type'' ''text/plain'' (add_header ''Server'' MYHTTPD_SIGNATURE req))"

datatype file_entry =
    No_Entry
  | No_Access                 \<comment> \<open>\<^verbatim>\<open>stat\<close> fails with an error other than \<^verbatim>\<open>ENOENT\<close>\<close>
  | Directory
  | File nat "string option"  \<comment> \<open>\<^verbatim>\<open>st_size\<close>, and the content if the file can be opened\<close>

fun strstr :: "string \<Rightarrow> string \<Rightarrow> bool" where
  "strstr [] needle \<longleftrightarrow> needle = []"
| "strstr (c # s) needle \<longleftrightarrow> prefix needle (c # s) \<or> strstr s needle"

definition PATH_MAX :: nat where "PATH_MAX = 4096"

definition content_type :: "string \<Rightarrow> string" where
  "content_type path =
     (if strstr path ''.html'' then ''text/html''
      else if strstr path ''.css'' then ''text/css''
      else if strstr path ''.js'' then ''application/javascript''
      else if strstr path ''.png'' then ''image/png''
      else if strstr path ''.jpg'' \<or> strstr path ''.jpeg'' then ''image/jpeg''
      else ''application/octet-stream'')"

text \<open>\<^verbatim>\<open>while((n = fread(data, 1, sizeof(data), f)) > 0) evbuffer_add(buf, data, n);\<close>\<close>

function read_loop :: "string \<Rightarrow> string \<Rightarrow> string" where
  "read_loop f buf = (let data = take 4096 f in if data = [] then buf else read_loop (drop 4096 f) (buf @ data))"
  by pat_completeness auto
termination
  by (relation "measure (\<lambda>(f, buf). length f)") auto

declare read_loop.simps [simp del]

definition handle_file :: "(string \<Rightarrow> file_entry) \<Rightarrow> string \<Rightarrow> string \<Rightarrow> request \<Rightarrow> request" where
  "handle_file fs path root req =
     (if strstr path ''..'' then send_error HTTP_BADREQUEST ''Invalid path'' req
      else
        (let full_path = take (PATH_MAX - 1) (root @ path) in
         case fs full_path of
           No_Entry \<Rightarrow> send_error HTTP_NOTFOUND ''File not found'' req
         | No_Access \<Rightarrow> send_error HTTP_INTERNAL ''Internal server error'' req
         | Directory \<Rightarrow> send_error HTTP_BADMETHOD ''Directory listing not allowed'' req
         | File st_size f \<Rightarrow>
             (case f of
                None \<Rightarrow> send_error HTTP_INTERNAL ''Cannot open file'' req
              | Some data \<Rightarrow>
                  send_reply HTTP_OK ''OK'' (read_loop data [])
                    (add_header ''Content-Length'' (nat_digits st_size)
                      (add_header ''Content-Type'' (content_type path)
                        (add_header ''Server'' MYHTTPD_SIGNATURE req))))))"

definition method_str :: "evhttp_cmd \<Rightarrow> string" where
  "method_str m = (case m of GET \<Rightarrow> ''GET'' | POST \<Rightarrow> ''POST'' | HEAD \<Rightarrow> ''HEAD'' | PUT \<Rightarrow> ''PUT''
     | DELETE \<Rightarrow> ''DELETE'' | Other_Command \<Rightarrow> ''UNKNOWN'')"

definition log_request :: "request \<Rightarrow> request" where
  "log_request req = req\<lparr>stdout := stdout req @
     [''Received '' @ method_str (req_command req) @ '' request for '' @ req_uri req @ [LF]]\<rparr>"

definition httpd_handler :: "(string \<Rightarrow> file_entry) \<Rightarrow> httpd_config \<Rightarrow> request \<Rightarrow> request" where
  "httpd_handler fs cfg req =
     (let req1 = log_request req in
      case doc_root cfg of
        Some root \<Rightarrow> handle_file fs (req_uri req1) root req1
      | None \<Rightarrow>
          (let buf = ''Hello from '' @ MYHTTPD_SIGNATURE @ [LF];
               req2 = log_request req1;
               buf2 = buf @ ''URI: '' @ req_uri req2 @ [LF];
               post_data = input_buffer req2;
               buf3 = (if 0 < length post_data then buf2 @ ''POST data: '' @ cstr post_data @ [LF] else buf2)
           in send_reply HTTP_OK ''OK'' buf3
                (add_header ''Connection'' ''close''
                  (add_header ''Content-Type'' ''text/plain; charset=UTF-8''
                    (add_header ''Server'' MYHTTPD_SIGNATURE req2)))))"

section \<open>The process\<close>

text \<open>What the system and libevent answer, and the signals that arrive while the loop runs, in order\<close>

datatype forked = Fork_Failed | Parent | Child

record environment =
  env_fork :: forked
  env_base :: bool
  env_httpd :: bool
  env_bind :: bool
  env_signals :: "int list"

record process =
  base :: bool
  httpd :: bool
  config :: bool            \<comment> \<open>the strings of the configuration are allocated\<close>
  bound :: "(string \<times> 16 word) option"
  out :: "string list"

definition SIGTERM :: int where "SIGTERM = 15"
definition SIGHUP :: int where "SIGHUP = 1"
definition SIGQUIT :: int where "SIGQUIT = 3"
definition SIGINT :: int where "SIGINT = 2"

definition evhttp_free :: "process \<Rightarrow> process result" where
  "evhttp_free p = (if httpd p then Inr (p\<lparr>httpd := False\<rparr>) else Inl Dangling)"

definition event_base_free :: "process \<Rightarrow> process result" where
  "event_base_free p = (if base p then Inr (p\<lparr>base := False\<rparr>) else Inl Dangling)"

definition free_config :: "process \<Rightarrow> process result" where
  "free_config p = (if config p then Inr (p\<lparr>config := False\<rparr>) else Inl Dangling)"

definition put_line :: "string \<Rightarrow> process \<Rightarrow> process" where
  "put_line s p = p\<lparr>out := out p @ [s]\<rparr>"

text \<open>Both globals are set when the loop runs, so the tests against null succeed; the Boolean says whether the
  loop was told to stop.\<close>

definition signal_handler :: "int \<Rightarrow> process \<Rightarrow> (bool \<times> process) result" where
  "signal_handler sig p =
     (if sig \<in> {SIGTERM, SIGHUP, SIGQUIT, SIGINT} then
        rbind (evhttp_free (put_line (''Received signal '' @ show_int sig @ '', shutting down...'') p)) (\<lambda>p'. Inr (True, p'))
      else Inr (False, p))"

text \<open>The event loop ends when a signal handler has called \<^verbatim>\<open>event_base_loopexit\<close>; without one it runs on,
  and the outcome is \<open>None\<close>.\<close>

fun dispatch :: "int list \<Rightarrow> process \<Rightarrow> process result option" where
  "dispatch [] p = None"
| "dispatch (sig # sigs) p = (case signal_handler sig p of
     Inl e \<Rightarrow> Some (Inl e)
   | Inr (True, p') \<Rightarrow> Some (Inr p')
   | Inr (False, p') \<Rightarrow> dispatch sigs p')"

definition EXIT_FAILURE :: int where "EXIT_FAILURE = 1"
definition EXIT_SUCCESS :: int where "EXIT_SUCCESS = 0"

definition leave :: "int \<Rightarrow> process result \<Rightarrow> (int \<times> process) result option" where
  "leave status r = Some (rbind r (\<lambda>p. Inr (status, p)))"

definition start_process :: process where
  "start_process = \<lparr>base = False, httpd = False, config = True, bound = None, out = []\<rparr>"

definition serve :: "environment \<Rightarrow> httpd_config \<Rightarrow> process \<Rightarrow> (int \<times> process) result option" where
  "serve env cfg p =
     (if \<not> env_base env then
        leave EXIT_FAILURE (free_config (put_line ''Could not initialize libevent!'' p))
      else let p1 = p\<lparr>base := True\<rparr> in
      if \<not> env_httpd env then
        leave EXIT_FAILURE (rbind (event_base_free (put_line ''Could not create http server!'' p1)) free_config)
      else let p2 = p1\<lparr>httpd := True\<rparr> in
      if \<not> env_bind env then
        leave EXIT_FAILURE (rbind (rbind (evhttp_free (put_line
          (''Could not bind to '' @ listen_addr cfg @ '':'' @ show_int (listen_port cfg)) p2)) event_base_free) free_config)
      else
        let p3 = put_line (''Server started on http://'' @ listen_addr cfg @ '':'' @ show_int (listen_port cfg))
                   (p2\<lparr>bound := Some (listen_addr cfg, word_of_int (listen_port cfg))\<rparr>);
            p4 = (case doc_root cfg of None \<Rightarrow> p3 | Some d \<Rightarrow> put_line (''Serving files from: '' @ d) p3)
        in case dispatch (env_signals env) p4 of
             None \<Rightarrow> None
           | Some r \<Rightarrow>
               leave EXIT_SUCCESS (rbind (rbind (rbind (rbind r evhttp_free) event_base_free) free_config)
                 (\<lambda>p5. Inr (put_line ''Server stopped'' p5))))"

text \<open>\<^verbatim>\<open>main\<close>; with option \<^verbatim>\<open>-d\<close> the parent exits and the child goes on.\<close>

definition httpd_main :: "environment \<Rightarrow> string list \<Rightarrow> (int \<times> process) result option" where
  "httpd_main env args =
     (case parse_args (getopt [] args) init_config of (status, cfg) \<Rightarrow>
        if status \<noteq> 0 then leave EXIT_FAILURE (free_config start_process)
        else if daemon_mode cfg then
          (case env_fork env of
             Fork_Failed \<Rightarrow> leave EXIT_FAILURE (free_config (put_line ''fork'' start_process))
           | Parent \<Rightarrow> Some (Inr (EXIT_SUCCESS, start_process))
           | Child \<Rightarrow> serve env cfg start_process)
        else serve env cfg start_process)"

section \<open>Paths\<close>

text \<open>The directory a path leads to: its components, with \<^verbatim>\<open>.\<close> and \<^verbatim>\<open>..\<close> carried out\<close>

fun components :: "string \<Rightarrow> string \<Rightarrow> string list" where
  "components acc [] = (if acc = [] then [] else [acc])"
| "components acc (c # s) =
     (if c = CHR ''/'' then (if acc = [] then [] else [acc]) @ components [] s else components (acc @ [c]) s)"

definition walk_step :: "string \<Rightarrow> string list \<Rightarrow> string list" where
  "walk_step c dir = (if c = ''..'' then butlast dir else if c = ''.'' then dir else dir @ [c])"

definition resolve :: "string \<Rightarrow> string list" where
  "resolve path = fold walk_step (components [] path) []"

definition below :: "string \<Rightarrow> string \<Rightarrow> bool" where
  "below root path \<longleftrightarrow> prefix (resolve root) (resolve path)"

lemma components_slash: "components acc (s @ CHR ''/'' # t) = components acc s @ components [] t"
  by (induction s arbitrary: acc) auto

lemma strstr_sublist: "strstr s needle \<longleftrightarrow> sublist needle s"
  by (induction s) (auto simp: sublist_Cons_right)

lemma component_sublist: "c \<in> set (components acc s) \<Longrightarrow> sublist c (acc @ s)"
proof (induction acc s arbitrary: c rule: components.induct)
  case (2 acc c' s)
  show ?case
  proof (cases "c' = CHR ''/''")
    case True
    then have "c = acc \<or> sublist c s" using 2 by (auto split: if_splits)
    moreover have "sublist s (acc @ c' # s)" by (metis append_Cons append_Nil append_assoc sublist_append_leftI sublist_append_rightI)
    ultimately show ?thesis by (auto intro: sublist_order.order_trans)
  next
    case False
    then show ?thesis using 2 by auto
  qed
qed (auto split: if_splits)

lemma walk_down: "''..'' \<notin> set cs \<Longrightarrow> prefix dir (fold walk_step cs dir)"
proof (induction cs arbitrary: dir)
  case (Cons c cs)
  then have "prefix (walk_step c dir) (fold walk_step cs (walk_step c dir))" by simp
  moreover have "prefix dir (walk_step c dir)" using Cons.prems by (auto simp: walk_step_def)
  ultimately show ?case using prefix_order.order_trans by auto
qed simp

lemma stays_below:
  assumes "prefix ''/'' uri" "\<not> strstr uri ''..''"
  shows "below root (root @ uri)"
proof -
  obtain s where uri: "uri = CHR ''/'' # s" using assms(1) by (auto elim: prefixE)
  have "''..'' \<notin> set (components [] s)"
  proof
    assume "''..'' \<in> set (components [] s)"
    then have "sublist ''..'' s" using component_sublist [of _ "[]" s] by auto
    then show False using assms(2) uri by (auto simp: strstr_sublist sublist_Cons_right)
  qed
  then show ?thesis
    using walk_down [of "components [] s" "resolve root"]
    by (simp add: below_def resolve_def uri components_slash)
qed

section \<open>Replies\<close>

lemma read_loop_all: "read_loop f buf = buf @ f"
proof (induction f buf rule: read_loop.induct)
  case (1 f buf)
  then show ?case by (cases "f = []") (simp_all add: read_loop.simps [of f buf] read_loop.simps [of "[]" buf] Let_def)
qed

lemma request_simps [simp]:
  "replies (add_header k v req) = replies req" "output_headers (add_header k v req) = output_headers req @ [(k, v)]"
  "replies (log_request req) = replies req" "output_headers (log_request req) = output_headers req"
  "req_uri (log_request req) = req_uri req"
  "replies (send_reply c t b req) = replies req @ [\<lparr>r_code = c, r_reason = t, r_headers = output_headers req, r_body = b\<rparr>]"
  by (simp_all add: add_header_def log_request_def send_reply_def)

lemma replies_send_error:
  "replies (send_error code reason req) = replies req @
     [\<lparr>r_code = code, r_reason = reason, r_headers = output_headers req @
        [(''Server'', MYHTTPD_SIGNATURE), (''Content-Type'', ''text/plain'')], r_body = reason @ [LF]\<rparr>]"
  by (simp add: send_error_def)

section \<open>Properties\<close>

text \<open>C6: Every request is answered by exactly one further reply, which names the server.  When a document root
  is set, the URI begins with a slash and the two together are shorter than \<^verbatim>\<open>PATH_MAX\<close>, a reply with status
  200 carries the whole content of the file behind the URI, and the path of that file leads below the document
  root component by component (\<^verbatim>\<open>.\<close> and \<^verbatim>\<open>..\<close> carried out; what symbolic links of the file system do is not
  said).\<close>

theorem served_files_lie_below_the_root:
  "\<exists>r. replies (httpd_handler fs cfg req) = replies req @ [r] \<and> (''Server'', MYHTTPD_SIGNATURE) \<in> set (r_headers r) \<and>
    (\<forall>root. doc_root cfg = Some root \<longrightarrow> prefix ''/'' (req_uri req) \<longrightarrow> length (root @ req_uri req) < PATH_MAX \<longrightarrow>
       r_code r = HTTP_OK \<longrightarrow>
       (\<exists>n data. fs (root @ req_uri req) = File n (Some data) \<and> r_body r = data \<and> below root (root @ req_uri req)))"
proof (cases "doc_root cfg")
  case None
  then show ?thesis by (auto simp: httpd_handler_def Let_def)
next
  case (Some root)
  have below: "below root (root @ req_uri req)" if "prefix ''/'' (req_uri req)" "\<not> strstr (req_uri req) ''..''"
    using stays_below [OF that] .
  show ?thesis
  proof (cases "length (root @ req_uri req) < PATH_MAX")
    case True
    then have "take (PATH_MAX - 1) (root @ req_uri req) = root @ req_uri req" by simp
    then show ?thesis
      using below Some
      by (simp add: httpd_handler_def handle_file_def replies_send_error read_loop_all http_codes Let_def del: take_append
          split: file_entry.split option.split)
  next
    case False
    then show ?thesis
      using Some
      by (simp add: httpd_handler_def handle_file_def replies_send_error http_codes Let_def del: take_append
          split: file_entry.split option.split)
  qed
qed

definition get_request :: "string \<Rightarrow> request" where
  "get_request uri = \<lparr>req_uri = uri, req_command = GET, input_buffer = [], output_headers = [], replies = [], stdout = []\<rparr>"

theorem served_files_lie_below_the_root_witness:
  "\<exists>r. replies (httpd_handler (\<lambda>p. if p = ''/srv/www/a.html'' then File 2 (Some ''hi'') else No_Entry)
     (init_config\<lparr>doc_root := Some ''/srv/www''\<rparr>) (get_request ''/a.html'')) = [r] \<and>
     (r_code r = HTTP_OK \<longrightarrow> r_body r = ''hi'')"
  using served_files_lie_below_the_root [of "\<lambda>p. if p = ''/srv/www/a.html'' then File 2 (Some ''hi'') else No_Entry"
    "init_config\<lparr>doc_root := Some ''/srv/www''\<rparr>" "get_request ''/a.html''"]
  by (auto simp: get_request_def PATH_MAX_def)

text \<open>A request line may name a URI without a leading slash, and the handler appends it to the document root
  as it is: a file of a neighbouring directory whose name continues that of the document root is served.\<close>

theorem uri_without_slash_leaves_the_root:
  assumes "fs ''/srv/www-old/key'' = File n (Some data)"
  shows "\<exists>r. replies (httpd_handler fs (init_config\<lparr>doc_root := Some ''/srv/www''\<rparr>) (get_request ''-old/key'')) = [r] \<and>
    r_code r = HTTP_OK \<and> r_body r = data \<and> \<not> below ''/srv/www'' ''/srv/www-old/key''"
proof -
  have "\<not> below ''/srv/www'' ''/srv/www-old/key''"
    by (simp add: below_def resolve_def walk_step_def)
  then show ?thesis
    using assms by (simp add: httpd_handler_def handle_file_def get_request_def PATH_MAX_def read_loop_all)
qed

theorem uri_without_slash_leaves_the_root_witness:
  "\<exists>r. replies (httpd_handler (\<lambda>_. File 6 (Some ''secret'')) (init_config\<lparr>doc_root := Some ''/srv/www''\<rparr>)
     (get_request ''-old/key'')) = [r] \<and> r_body r = ''secret''"
  using uri_without_slash_leaves_the_root [of "\<lambda>_. File 6 (Some ''secret'')" 6 "''secret''"] by auto

definition stop_signals :: "int set" where
  "stop_signals = {SIGTERM, SIGHUP, SIGQUIT, SIGINT}"

lemma dispatch_stops:
  assumes "httpd p"
  shows "case dispatch sigs p of
      None \<Rightarrow> set sigs \<inter> stop_signals = {}
    | Some r \<Rightarrow> set sigs \<inter> stop_signals \<noteq> {} \<and> (\<exists>p'. r = Inr p' \<and> \<not> httpd p')"
proof (induction sigs)
  case (Cons sig sigs)
  have "signal_handler sig p = (if sig \<in> stop_signals
      then Inr (True, (put_line (''Received signal '' @ show_int sig @ '', shutting down...'') p)\<lparr>httpd := False\<rparr>) else Inr (False, p))"
    using assms by (simp add: signal_handler_def stop_signals_def evhttp_free_def put_line_def)
  then show ?case using Cons.IH by (cases "sig \<in> stop_signals") (simp_all split: option.split_asm option.split)
qed simp

lemmas free_defs = free_config_def event_base_free_def evhttp_free_def put_line_def leave_def start_process_def

text \<open>The process when the start-up is through: both objects exist and the socket is bound.\<close>

definition started :: "httpd_config \<Rightarrow> process" where
  "started cfg =
     (let p = put_line (''Server started on http://'' @ listen_addr cfg @ '':'' @ show_int (listen_port cfg))
        (start_process\<lparr>base := True, httpd := True, bound := Some (listen_addr cfg, word_of_int (listen_port cfg))\<rparr>)
      in case doc_root cfg of None \<Rightarrow> p | Some d \<Rightarrow> put_line (''Serving files from: '' @ d) p)"

lemma serve_started:
  assumes "env_base env" "env_httpd env" "env_bind env"
  shows "httpd (started cfg) \<and>
    (if set (env_signals env) \<inter> stop_signals = {} then serve env cfg start_process = None
     else serve env cfg start_process = Some (Inl Dangling) \<and>
       (\<exists>p. dispatch (env_signals env) (started cfg) = Some (Inr p) \<and> \<not> httpd p \<and> evhttp_free p = Inl Dangling))"
proof -
  have up: "httpd (started cfg)" by (simp add: started_def put_line_def Let_def split: option.split)
  have "serve env cfg start_process = (case dispatch (env_signals env) (started cfg) of
      None \<Rightarrow> None
    | Some r \<Rightarrow> leave EXIT_SUCCESS (rbind (rbind (rbind (rbind r evhttp_free) event_base_free) free_config)
        (\<lambda>p5. Inr (put_line ''Server stopped'' p5))))"
    using assms by (simp add: serve_def started_def Let_def)
  then show ?thesis
    using dispatch_stops [OF up, of "env_signals env"] up by (auto simp: leave_def evhttp_free_def split: option.splits)
qed

lemma serve_not_started:
  assumes "\<not> (env_base env \<and> env_httpd env \<and> env_bind env)"
  shows "\<exists>p. serve env cfg start_process = Some (Inr (EXIT_FAILURE, p)) \<and> \<not> base p \<and> \<not> httpd p \<and> \<not> config p"
  using assms by (auto simp: serve_def free_defs Let_def)

text \<open>C35: When a step of the start-up fails (the options, \<^verbatim>\<open>fork\<close>, the event base, the HTTP object or
  the bind), the process ends with status 1 and has given back everything it had allocated; the parent of a daemon ends
  with status 0.  Otherwise the server runs, with a live HTTP object, until the first of the four signals; if one
  comes, the handler frees the HTTP object, \<^verbatim>\<open>main\<close> calls \<^verbatim>\<open>evhttp_free\<close> on it once more, and this second
  free is how every run that is stopped ends: there is no clean stop.\<close>

theorem failed_start_is_clean_and_stop_frees_twice:
  "case parse_args (getopt [] args) init_config of (status, cfg) \<Rightarrow>
     if status \<noteq> 0 \<or> daemon_mode cfg \<and> env_fork env = Fork_Failed \<or>
        \<not> (daemon_mode cfg \<and> env_fork env = Parent) \<and> \<not> (env_base env \<and> env_httpd env \<and> env_bind env)
     then \<exists>p. httpd_main env args = Some (Inr (EXIT_FAILURE, p)) \<and> \<not> base p \<and> \<not> httpd p \<and> \<not> config p
     else if daemon_mode cfg \<and> env_fork env = Parent then httpd_main env args = Some (Inr (EXIT_SUCCESS, start_process))
     else httpd (started cfg) \<and>
       (if set (env_signals env) \<inter> stop_signals = {} then httpd_main env args = None
        else httpd_main env args = Some (Inl Dangling) \<and>
          (\<exists>p. dispatch (env_signals env) (started cfg) = Some (Inr p) \<and> \<not> httpd p \<and> evhttp_free p = Inl Dangling))"
proof -
  obtain status cfg where args: "parse_args (getopt [] args) init_config = (status, cfg)" by fastforce
  have main: "httpd_main env args = serve env cfg start_process"
    if "status = 0" "\<not> daemon_mode cfg \<or> env_fork env = Child"
    using that by (auto simp: httpd_main_def args)
  consider (Options) "status \<noteq> 0" | (Fork) "status = 0" "daemon_mode cfg" "env_fork env = Fork_Failed"
    | (Parent) "status = 0" "daemon_mode cfg" "env_fork env = Parent"
    | (Serve) "status = 0" "\<not> daemon_mode cfg \<or> env_fork env = Child"
    by (cases "env_fork env") auto
  then show ?thesis
  proof cases
    case Serve
    show ?thesis
      using main [OF Serve] Serve serve_started [of env cfg] serve_not_started [of env cfg]
      by (cases "env_base env \<and> env_httpd env \<and> env_bind env") (auto simp: args)
  qed (auto simp: args httpd_main_def free_defs)
qed

definition good_environment :: "int list \<Rightarrow> environment" where
  "good_environment sigs =
     \<lparr>env_fork = Child, env_base = True, env_httpd = True, env_bind = True, env_signals = sigs\<rparr>"

theorem failed_start_is_clean_and_stop_frees_twice_witness:
  "httpd_main (good_environment [SIGINT]) [] = Some (Inl Dangling) \<and> httpd_main (good_environment []) [] = None \<and>
   (\<exists>p. httpd_main (good_environment [SIGINT]\<lparr>env_bind := False\<rparr>) [] = Some (Inr (EXIT_FAILURE, p)) \<and> \<not> httpd p)"
  using failed_start_is_clean_and_stop_frees_twice [where args = "[]" and env = "good_environment [SIGINT]"]
    failed_start_is_clean_and_stop_frees_twice [where args = "[]" and env = "good_environment []"]
    failed_start_is_clean_and_stop_frees_twice [where args = "[]" and env = "good_environment [SIGINT]\<lparr>env_bind := False\<rparr>"]
  by (auto simp: good_environment_def init_config_def stop_signals_def)

text \<open>Every combination of options is understood: written as arguments, a configuration is read back.\<close>

definition option_args :: "httpd_config \<Rightarrow> string list" where
  "option_args cfg = [''-l'', listen_addr cfg, ''-p'', show_int (listen_port cfg), ''-t'', show_int (conf_timeout cfg)] @
     (if daemon_mode cfg then [''-d''] else []) @ (case doc_root cfg of None \<Rightarrow> [] | Some d \<Rightarrow> [''-r'', d])"

lemma nat_digits_Cons: "\<exists>c s. nat_digits n = c # s \<and> isdigit c"
proof -
  have "nat_digits n \<noteq> []" by (simp add: nat_digits.simps [of n])
  then obtain c s where "nat_digits n = c # s" by (cases "nat_digits n") auto
  then show ?thesis using nat_digits_isdigit [of c n] by auto
qed

lemma isdigit_nothing_else: "isdigit c \<Longrightarrow> \<not> isspace c \<and> c \<noteq> NUL \<and> c \<noteq> CHR ''-'' \<and> c \<noteq> CHR ''+''"
  by (auto simp: isdigit_def isspace_def ccode_def)

lemma atoi_show_int:
  assumes "- (2 ^ 31) \<le> i" "i < 2 ^ 31"
  shows "atoi (show_int i) = i"
proof -
  have clean: "cstr (nat_digits n) = nat_digits n" for n
    using nat_digits_isdigit [of _ n] isdigit_nothing_else by (intro cstr_no_nul) (auto simp: no_nul_def)
  have fit: "to_int32 (clamp64 i) = i"
    using assms by (simp add: clamp64_def to_int32_def signed_take_bit_int_eq_self)
  show ?thesis
  proof (cases "i < 0")
    case True
    then have "digits_value 0 (nat_digits (nat (- i))) = - i" by (simp add: digits_value_nat_digits)
    then show ?thesis using True fit clean by (simp add: atoi_def show_int_def Let_def isspace_def)
  next
    case False
    obtain c s where c: "nat_digits (nat i) = c # s" "isdigit c" using nat_digits_Cons by blast
    have "digits_value 0 (c # s) = i" using False digits_value_nat_digits [of "nat i"] by (simp add: c(1))
    moreover have "cstr (c # s) = c # s" using clean [of "nat i"] by (simp only: c(1))
    ultimately show ?thesis
      using False fit isdigit_nothing_else [OF c(2)] by (simp add: atoi_def show_int_def Let_def c(1) del: digits_value.simps cstr_code)
  qed
qed

theorem options_are_read_back:
  assumes "- (2 ^ 31) \<le> listen_port cfg" "listen_port cfg < 2 ^ 31" "- (2 ^ 31) \<le> conf_timeout cfg" "conf_timeout cfg < 2 ^ 31"
  shows "parse_args (getopt [] (option_args cfg)) init_config = (0, cfg)"
  using assms
  by (cases "doc_root cfg") (simp_all add: option_args_def init_config_def atoi_show_int)

theorem options_are_read_back_witness:
  "parse_args (getopt [] [''-l'', ''::1'', ''-p'', ''80'', ''-t'', ''-1'', ''-d'', ''-r'', ''-x'']) init_config =
     (0, \<lparr>listen_addr = ''::1'', listen_port = 80, daemon_mode = True, conf_timeout = - 1, doc_root = Some ''-x''\<rparr>)"
proof -
  let ?cfg = "\<lparr>listen_addr = ''::1'', listen_port = 80, daemon_mode = True, conf_timeout = - 1, doc_root = Some ''-x''\<rparr>"
  have "[''-l'', ''::1'', ''-p'', ''80'', ''-t'', ''-1'', ''-d'', ''-r'', ''-x''] = option_args ?cfg" by code_simp
  then show ?thesis using options_are_read_back [of ?cfg] by simp
qed

end
