(* ===== verification/LookupTable.thy ===== *)
theory LookupTable
  imports StdContainers
begin

text \<open>
  The hash table with a lock per bucket, \<^verbatim>\<open>threadsafe_lookup_table\<close> of the chapter on thread safe
  data structures.

  A bucket is the list of its entries.  The hash function and the number of buckets are parameters.
  The first part treats the operations one at a time, the second part calls from any number of threads.  There an
  operation on one key takes five steps: it takes the lock of its bucket, shared for \<^verbatim>\<open>value_for\<close> and exclusive
  otherwise, looks for the entry, reads or changes the bucket through what it found, gives the lock back, and returns;
  \<^verbatim>\<open>get_map\<close> takes the locks one after the other, exclusively as in the source, copies the buckets one after the
  other, gives the locks back one after the other when its vector of locks is destroyed, and returns.  Other threads can
  run between any two of these steps.
\<close>

section \<open>Buckets\<close>

type_synonym ('k, 'v) bucket = "('k \<times> 'v) list"

text \<open>\<^verbatim>\<open>std::find_if\<close>; \<open>None\<close> is \<^verbatim>\<open>data.end()\<close>\<close>

fun find_entry_for :: "'k \<Rightarrow> ('k, 'v) bucket \<Rightarrow> nat option" where
  "find_entry_for key [] = None"
| "find_entry_for key (item # data) = (if fst item = key then Some 0 else map_option Suc (find_entry_for key data))"

text \<open>What the operations do with the iterator they found\<close>

definition found_value :: "'v \<Rightarrow> nat option \<Rightarrow> ('k, 'v) bucket \<Rightarrow> 'v" where
  "found_value default_value found_entry data =
     (case found_entry of None \<Rightarrow> default_value | Some i \<Rightarrow> snd (data ! i))"

definition put_found :: "'k \<Rightarrow> 'v \<Rightarrow> nat option \<Rightarrow> ('k, 'v) bucket \<Rightarrow> ('k, 'v) bucket" where
  "put_found key value found_entry data =
     (case found_entry of None \<Rightarrow> data @ [(key, value)] | Some i \<Rightarrow> data[i := (fst (data ! i), value)])"

definition erase_found :: "nat option \<Rightarrow> ('k, 'v) bucket \<Rightarrow> ('k, 'v) bucket" where
  "erase_found found_entry data =
     (case found_entry of None \<Rightarrow> data | Some i \<Rightarrow> take i data @ drop (Suc i) data)"

definition bucket_value_for :: "'k \<Rightarrow> 'v \<Rightarrow> ('k, 'v) bucket \<Rightarrow> 'v" where
  "bucket_value_for key default_value data = found_value default_value (find_entry_for key data) data"

definition bucket_add_or_update :: "'k \<Rightarrow> 'v \<Rightarrow> ('k, 'v) bucket \<Rightarrow> ('k, 'v) bucket" where
  "bucket_add_or_update key value data = put_found key value (find_entry_for key data) data"

definition bucket_remove :: "'k \<Rightarrow> ('k, 'v) bucket \<Rightarrow> ('k, 'v) bucket" where
  "bucket_remove key data = erase_found (find_entry_for key data) data"

lemma bucket_value_for_map: "bucket_value_for k d data = (case map_of data k of None \<Rightarrow> d | Some v \<Rightarrow> v)"
proof -
  have "case find_entry_for k data of None \<Rightarrow> map_of data k = None | Some i \<Rightarrow> map_of data k = Some (snd (data ! i))"
    by (induction data) (auto split: option.splits)
  then show ?thesis by (auto simp: bucket_value_for_def found_value_def split: option.splits)
qed

lemma bucket_add_Cons:
  "bucket_add_or_update k v (e # data) = (if fst e = k then (fst e, v) # data else e # bucket_add_or_update k v data)"
  by (simp add: bucket_add_or_update_def put_found_def split: option.split)

lemma bucket_add_Nil: "bucket_add_or_update k v [] = [(k, v)]"
  by (simp add: bucket_add_or_update_def put_found_def)

lemma map_of_bucket_add: "map_of (bucket_add_or_update k v data) = (map_of data)(k \<mapsto> v)"
proof (induction data)
  case (Cons e data)
  then show ?case by (cases e) (auto simp: bucket_add_Cons fun_eq_iff)
qed (simp add: bucket_add_Nil)

lemma keys_bucket_add:
  "map fst (bucket_add_or_update k v data) = (if k \<in> fst ` set data then map fst data else map fst data @ [k])"
  by (induction data) (auto simp: bucket_add_Nil bucket_add_Cons)

lemma bucket_remove_Cons:
  "bucket_remove k (e # data) = (if fst e = k then data else e # bucket_remove k data)"
  by (simp add: bucket_remove_def erase_found_def split: option.split)

lemma keys_bucket_remove: "distinct (map fst data) \<Longrightarrow> map fst (bucket_remove k data) = filter (\<lambda>x. x \<noteq> k) (map fst data)"
proof (induction data)
  case (Cons e data)
  then show ?case by (auto simp: bucket_remove_Cons intro!: filter_True [symmetric])
qed (simp add: bucket_remove_def erase_found_def)

lemma map_of_bucket_remove: "distinct (map fst data) \<Longrightarrow> map_of (bucket_remove k data) = (map_of data)(k := None)"
proof (induction data)
  case (Cons e data)
  then show ?case
    by (cases e) (auto simp: bucket_remove_Cons fun_eq_iff map_of_eq_None_iff)
qed (simp add: bucket_remove_def erase_found_def)

section \<open>The table\<close>

type_synonym ('k, 'v) table = "('k, 'v) bucket list"

definition new_table :: "nat \<Rightarrow> ('k, 'v) table" where
  "new_table num_buckets = replicate num_buckets []"

text \<open>The index of the bucket; with no buckets the remainder divides by zero.\<close>

definition get_bucket :: "('k \<Rightarrow> nat) \<Rightarrow> 'k \<Rightarrow> ('k, 'v) table \<Rightarrow> nat result" where
  "get_bucket hasher key t = (if length t = 0 then Inl (Exit_With ''SIGFPE'') else Inr (hasher key mod length t))"

definition value_for :: "('k \<Rightarrow> nat) \<Rightarrow> 'k \<Rightarrow> 'v \<Rightarrow> ('k, 'v) table \<Rightarrow> 'v result" where
  "value_for hasher key default_value t =
     rbind (get_bucket hasher key t) (\<lambda>b. Inr (bucket_value_for key default_value (t ! b)))"

definition add_or_update_mapping :: "('k \<Rightarrow> nat) \<Rightarrow> 'k \<Rightarrow> 'v \<Rightarrow> ('k, 'v) table \<Rightarrow> ('k, 'v) table result" where
  "add_or_update_mapping hasher key value t =
     rbind (get_bucket hasher key t) (\<lambda>b. Inr (t[b := bucket_add_or_update key value (t ! b)]))"

definition remove_mapping :: "('k \<Rightarrow> nat) \<Rightarrow> 'k \<Rightarrow> ('k, 'v) table \<Rightarrow> ('k, 'v) table result" where
  "remove_mapping hasher key t =
     rbind (get_bucket hasher key t) (\<lambda>b. Inr (t[b := bucket_remove key (t ! b)]))"

text \<open>\<^verbatim>\<open>res.insert(*it)\<close> keeps an entry that is there.\<close>

definition omap_insert :: "('k::linorder \<times> 'v) \<Rightarrow> ('k \<times> 'v) list \<Rightarrow> ('k \<times> 'v) list" where
  "omap_insert e m = (case map_of m (fst e) of None \<Rightarrow> omap_put (fst e) (snd e) m | Some _ \<Rightarrow> m)"

definition copy_bucket :: "('k::linorder, 'v) bucket \<Rightarrow> ('k \<times> 'v) list \<Rightarrow> ('k \<times> 'v) list" where
  "copy_bucket data res = fold omap_insert data res"

definition get_map :: "('k::linorder, 'v) table \<Rightarrow> ('k \<times> 'v) list" where
  "get_map t = fold copy_bucket t []"

text \<open>Keys are distinct within a bucket and lie in the bucket of their hash.\<close>

definition table_ok :: "('k \<Rightarrow> nat) \<Rightarrow> ('k, 'v) table \<Rightarrow> bool" where
  "table_ok hasher t \<longleftrightarrow> t \<noteq> [] \<and>
     (\<forall>b < length t. distinct (map fst (t ! b)) \<and> (\<forall>k \<in> fst ` set (t ! b). hasher k mod length t = b))"

definition table_map :: "('k \<Rightarrow> nat) \<Rightarrow> ('k, 'v) table \<Rightarrow> 'k \<Rightarrow> 'v option" where
  "table_map hasher t k = map_of (t ! (hasher k mod length t)) k"

lemma buckets_okD:
  assumes "table_ok h t"
  shows "t \<noteq> []" "0 < length t" "h k mod length t < length t"
    "b < length t \<Longrightarrow> distinct (map fst (t ! b))" "b < length t \<Longrightarrow> k \<in> fst ` set (t ! b) \<Longrightarrow> h k mod length t = b"
proof -
  have ne: "t \<noteq> []" using assms unfolding table_ok_def by (rule conjunct1)
  have "\<forall>b < length t. distinct (map fst (t ! b)) \<and> (\<forall>k \<in> fst ` set (t ! b). h k mod length t = b)"
    using assms unfolding table_ok_def by (rule conjunct2)
  then show "b < length t \<Longrightarrow> distinct (map fst (t ! b))" "b < length t \<Longrightarrow> k \<in> fst ` set (t ! b) \<Longrightarrow> h k mod length t = b"
    by blast+
  show "t \<noteq> []" "0 < length t" "h k mod length t < length t" using ne by simp_all
qed

lemma table_ok_update:
  assumes "table_ok h t" "b < length t" "distinct (map fst d)" "\<And>k. k \<in> fst ` set d \<Longrightarrow> h k mod length t = b"
  shows "table_ok h (t[b := d])"
  unfolding table_ok_def using buckets_okD [OF assms(1)] assms(2-4) by (auto simp: nth_list_update split: if_splits)

lemma table_ok_new: "0 < n \<Longrightarrow> table_ok h (new_table n)"
  by (simp add: table_ok_def new_table_def)

lemma table_map_new [simp]: "0 < n \<Longrightarrow> table_map h (new_table n) = Map.empty"
  by (auto simp: table_map_def new_table_def fun_eq_iff)

lemma table_map_update:
  assumes "table_ok h t" "map_of d = (map_of (t ! (h k mod length t)))(k := v)"
  shows "table_map h (t[h k mod length t := d]) = (table_map h t)(k := v)"
proof
  fix x
  show "table_map h (t[h k mod length t := d]) x = ((table_map h t)(k := v)) x"
    using assms(2) buckets_okD(3) [OF assms(1), of k] by (cases "h x mod length t = h k mod length t") (auto simp: table_map_def)
qed

lemma value_for_map: "table_ok h t \<Longrightarrow> value_for h k d t = Inr (case table_map h t k of None \<Rightarrow> d | Some v \<Rightarrow> v)"
  by (simp add: value_for_def get_bucket_def buckets_okD(1) bucket_value_for_map table_map_def)

lemma add_or_update_ok:
  assumes "table_ok h t"
  shows "\<exists>t'. add_or_update_mapping h k v t = Inr t' \<and> length t' = length t \<and> table_ok h t' \<and>
    table_map h t' = (table_map h t)(k \<mapsto> v)"
proof -
  let ?b = "h k mod length t"
  have "table_ok h (t[?b := bucket_add_or_update k v (t ! ?b)])"
  proof (rule table_ok_update [OF assms])
    show "distinct (map fst (bucket_add_or_update k v (t ! ?b)))"
      using buckets_okD(3) [OF assms] buckets_okD(4) [OF assms] by (auto simp: keys_bucket_add)
    show "h x mod length t = ?b" if "x \<in> fst ` set (bucket_add_or_update k v (t ! ?b))" for x
    proof -
      have "x \<in> set (map fst (bucket_add_or_update k v (t ! ?b)))" using that by simp
      then show ?thesis using buckets_okD(3) [OF assms] buckets_okD(5) [OF assms] by (auto simp: keys_bucket_add split: if_splits)
    qed
  qed (rule buckets_okD(3) [OF assms])
  then show ?thesis
    using table_map_update [OF assms map_of_bucket_add, of k v] buckets_okD(2) [OF assms]
    by (simp add: add_or_update_mapping_def get_bucket_def)
qed

lemma remove_ok:
  assumes "table_ok h t"
  shows "\<exists>t'. remove_mapping h k t = Inr t' \<and> length t' = length t \<and> table_ok h t' \<and> table_map h t' = (table_map h t)(k := None)"
proof -
  let ?b = "h k mod length t"
  have d: "distinct (map fst (t ! ?b))" using buckets_okD(3) [OF assms] buckets_okD(4) [OF assms] by blast
  have "table_ok h (t[?b := bucket_remove k (t ! ?b)])"
  proof (rule table_ok_update [OF assms])
    show "distinct (map fst (bucket_remove k (t ! ?b)))" using d by (simp add: keys_bucket_remove)
    show "h x mod length t = ?b" if "x \<in> fst ` set (bucket_remove k (t ! ?b))" for x
    proof -
      have "x \<in> set (map fst (bucket_remove k (t ! ?b)))" using that by simp
      then show ?thesis using d buckets_okD(3) [OF assms] buckets_okD(5) [OF assms] by (auto simp: keys_bucket_remove)
    qed
  qed (rule buckets_okD(3) [OF assms])
  then show ?thesis
    using table_map_update [OF assms map_of_bucket_remove [OF d]] buckets_okD(2) [OF assms]
    by (simp add: remove_mapping_def get_bucket_def)
qed

section \<open>Copying the table\<close>

lemma omap_insert_ok: "omap_ok m \<Longrightarrow> omap_ok (omap_insert e m)"
  by (simp add: omap_insert_def omap_ok_put split: option.split)

lemma map_of_omap_insert: "map_of (omap_insert e m) k = (if k = fst e \<and> map_of m k = None then Some (snd e) else map_of m k)"
  by (auto simp: omap_insert_def map_of_omap_put split: option.split)

lemma copy_bucket_map:
  "omap_ok m \<Longrightarrow> omap_ok (copy_bucket d m) \<and>
   map_of (copy_bucket d m) k = (case map_of m k of None \<Rightarrow> map_of d k | Some v \<Rightarrow> Some v)"
proof (induction d arbitrary: m)
  case (Cons e d)
  then show ?case
    using Cons.IH [OF omap_insert_ok [OF Cons.prems], of e]
    by (auto simp: copy_bucket_def map_of_omap_insert split: option.split)
qed (simp add: copy_bucket_def split: option.split)

text \<open>The entries of the first \<open>j\<close> buckets\<close>

definition copied :: "('k \<Rightarrow> nat) \<Rightarrow> ('k, 'v) table \<Rightarrow> nat \<Rightarrow> 'k \<Rightarrow> 'v option" where
  "copied h t j k = (if h k mod length t < j then table_map h t k else None)"

lemma copied_Suc:
  assumes "table_ok h t" "j < length t" "omap_ok m" "map_of m = copied h t j"
  shows "omap_ok (copy_bucket (t ! j) m) \<and> map_of (copy_bucket (t ! j) m) = copied h t (Suc j)"
proof -
  have "map_of (copy_bucket (t ! j) m) k = copied h t (Suc j) k" for k
  proof -
    have "map_of (t ! j) k = None" if "h k mod length t \<noteq> j"
      using buckets_okD(5) [OF assms(1,2), of k] that by (auto simp: map_of_eq_None_iff)
    then show ?thesis
      using copy_bucket_map [OF assms(3), of "t ! j" k] assms(4)
      by (auto simp: copied_def table_map_def less_Suc_eq split: option.split)
  qed
  then show ?thesis using copy_bucket_map [OF assms(3)] by auto
qed

lemma copied_all: "table_ok h t \<Longrightarrow> copied h t (length t) = table_map h t"
  by (auto simp: copied_def fun_eq_iff buckets_okD)

section \<open>The contract of a dictionary\<close>

text \<open>What a client relies on; the hash table and \<^verbatim>\<open>std::map\<close> fulfil it, so that clients cannot tell them apart.\<close>

locale dictionary =
  fixes lookup :: "'t \<Rightarrow> 'k \<Rightarrow> 'v option"
    and update :: "'k \<Rightarrow> 'v \<Rightarrow> 't \<Rightarrow> 't"
    and delete :: "'k \<Rightarrow> 't \<Rightarrow> 't"
    and ok :: "'t \<Rightarrow> bool"
    and start :: "'t"
  assumes start_ok: "ok start" and lookup_start: "lookup start = Map.empty"
    and update_ok: "ok t \<Longrightarrow> ok (update k v t)" and delete_ok: "ok t \<Longrightarrow> ok (delete k t)"
    and lookup_update: "ok t \<Longrightarrow> lookup (update k v t) = (lookup t)(k \<mapsto> v)"
    and lookup_delete: "ok t \<Longrightarrow> lookup (delete k t) = (lookup t)(k := None)"

datatype ('k, 'v) change = Put 'k 'v | Drop 'k

fun map_edit :: "('k, 'v) change \<Rightarrow> ('k \<Rightarrow> 'v option) \<Rightarrow> 'k \<Rightarrow> 'v option" where
  "map_edit (Put k v) m = m(k \<mapsto> v)"
| "map_edit (Drop k) m = m(k := None)"

fun edit :: "('k \<Rightarrow> 'v \<Rightarrow> 't \<Rightarrow> 't) \<Rightarrow> ('k \<Rightarrow> 't \<Rightarrow> 't) \<Rightarrow> ('k, 'v) change \<Rightarrow> 't \<Rightarrow> 't" where
  "edit update delete (Put k v) t = update k v t"
| "edit update delete (Drop k) t = delete k t"

context dictionary
begin

lemma edit_ok: "ok t \<Longrightarrow> ok (edit update delete e t) \<and> lookup (edit update delete e t) = map_edit e (lookup t)"
  by (cases e) (simp_all add: update_ok delete_ok lookup_update lookup_delete)

lemma edits_ok:
  "ok t \<Longrightarrow> ok (fold (edit update delete) es t) \<and> lookup (fold (edit update delete) es t) = fold map_edit es (lookup t)"
  by (induction es arbitrary: t) (simp_all add: edit_ok)

lemma edits_lookup:
  "ok (fold (edit update delete) es start) \<and> lookup (fold (edit update delete) es start) = fold map_edit es Map.empty"
  using edits_ok [OF start_ok] by (simp add: lookup_start)

end

definition put_entry :: "('k \<Rightarrow> nat) \<Rightarrow> 'k \<Rightarrow> 'v \<Rightarrow> ('k, 'v) table \<Rightarrow> ('k, 'v) table" where
  "put_entry h k v t = (case add_or_update_mapping h k v t of Inr t' \<Rightarrow> t' | Inl _ \<Rightarrow> t)"

definition drop_entry :: "('k \<Rightarrow> nat) \<Rightarrow> 'k \<Rightarrow> ('k, 'v) table \<Rightarrow> ('k, 'v) table" where
  "drop_entry h k t = (case remove_mapping h k t of Inr t' \<Rightarrow> t' | Inl _ \<Rightarrow> t)"

lemma put_entry_ok:
  "table_ok h t \<Longrightarrow> table_ok h (put_entry h k v t) \<and> table_map h (put_entry h k v t) = (table_map h t)(k \<mapsto> v)"
  by (drule add_or_update_ok [of h t k v]) (auto simp: put_entry_def)

lemma drop_entry_ok:
  "table_ok h t \<Longrightarrow> table_ok h (drop_entry h k t) \<and> table_map h (drop_entry h k t) = (table_map h t)(k := None)"
  by (drule remove_ok [of h t k]) (auto simp: drop_entry_def)

interpretation hashed: dictionary "table_map h" "put_entry h" "drop_entry h" "table_ok h" "new_table (Suc n)" for h n
  by unfold_locales (simp_all add: table_ok_new put_entry_ok drop_entry_ok)

interpretation ordered: dictionary "map_of" "omap_put" "omap_del" "omap_ok" "[]"
  by unfold_locales (auto simp: omap_ok_put omap_ok_del fun_eq_iff map_of_omap_put map_of_omap_del)

section \<open>Threads\<close>

datatype ('k, 'v) call = Value_For 'k 'v | Add_Or_Update 'k 'v | Remove_Mapping 'k | Get_Map

datatype ('k, 'v) answer = Value 'v | Done | Entries "('k \<times> 'v) list"

text \<open>Where a thread is: a call on one key locks its bucket \<open>b\<close>, looks for the entry, uses what it found, unlocks
  and returns; \<^verbatim>\<open>get_map\<close> locks, copies and unlocks bucket by bucket.\<close>

datatype ('k, 'v) tpc =
    Idle
  | Calling "('k, 'v) call"
  | Finding "('k, 'v) call" nat
  | Found "('k, 'v) call" nat "nat option"
  | Unlocking "('k, 'v) call" nat "('k, 'v) answer"
  | Returning "('k, 'v) call" "('k, 'v) answer"
  | Locking nat
  | Copying nat "('k \<times> 'v) list"
  | Releasing nat "('k \<times> 'v) list"

text \<open>\<^verbatim>\<open>boost::shared_mutex\<close>: held by one thread exclusively, or shared by a number of threads (0 if it is free)\<close>

datatype lock = Excl nat | Shared nat

definition acquire :: "nat \<Rightarrow> bool \<Rightarrow> lock \<Rightarrow> lock option" where
  "acquire i shared l =
     (case l of Excl _ \<Rightarrow> None
      | Shared m \<Rightarrow> if shared then Some (Shared (Suc m)) else if m = 0 then Some (Excl i) else None)"

definition release :: "lock \<Rightarrow> lock" where
  "release l = (case l of Excl _ \<Rightarrow> Shared 0 | Shared m \<Rightarrow> Shared (m - 1))"

text \<open>\<open>trace\<close> records, in the order of time, when a thread calls an operation, when the call takes effect and when it
  returns with its answer.\<close>

datatype ('k, 'v) moment = Call "('k, 'v) call" | Effect "('k, 'v) call" "('k, 'v) answer" | Return "('k, 'v) call" "('k, 'v) answer"

record ('k, 'v) lsys =
  ltable :: "('k, 'v) table"
  locks :: "lock list"
  lpcs :: "('k, 'v) tpc list"
  trace :: "(nat \<times> ('k, 'v) moment) list"

definition lsys_start :: "nat \<Rightarrow> nat \<Rightarrow> ('k, 'v) lsys" where
  "lsys_start n threads =
     \<lparr>ltable = new_table n, locks = replicate n (Shared 0), lpcs = replicate threads Idle, trace = []\<rparr>"

definition go :: "nat \<Rightarrow> ('k, 'v) tpc \<Rightarrow> ('k, 'v) lsys \<Rightarrow> ('k, 'v) lsys" where
  "go i pc s = s\<lparr>lpcs := (lpcs s)[i := pc]\<rparr>"

definition go_lock :: "nat \<Rightarrow> nat \<Rightarrow> lock \<Rightarrow> ('k, 'v) tpc \<Rightarrow> ('k, 'v) lsys \<Rightarrow> ('k, 'v) lsys" where
  "go_lock i b l pc s = s\<lparr>locks := (locks s)[b := l], lpcs := (lpcs s)[i := pc]\<rparr>"

definition go_log :: "nat \<Rightarrow> ('k, 'v) moment \<Rightarrow> ('k, 'v) tpc \<Rightarrow> ('k, 'v) lsys \<Rightarrow> ('k, 'v) lsys" where
  "go_log i e pc s = s\<lparr>lpcs := (lpcs s)[i := pc], trace := trace s @ [(i, e)]\<rparr>"

fun call_key :: "('k, 'v) call \<Rightarrow> 'k option" where
  "call_key (Value_For k d) = Some k"
| "call_key (Add_Or_Update k v) = Some k"
| "call_key (Remove_Mapping k) = Some k"
| "call_key Get_Map = None"

fun reads_only :: "('k, 'v) call \<Rightarrow> bool" where
  "reads_only (Value_For k d) = True"
| "reads_only _ = False"

text \<open>What a call does to its bucket through the iterator it found, and its answer\<close>

fun bucket_effect :: "('k, 'v) call \<Rightarrow> nat option \<Rightarrow> ('k, 'v) bucket \<Rightarrow> ('k, 'v) bucket \<times> ('k, 'v) answer" where
  "bucket_effect (Value_For k d) f data = (data, Value (found_value d f data))"
| "bucket_effect (Add_Or_Update k v) f data = (put_found k v f data, Done)"
| "bucket_effect (Remove_Mapping k) f data = (erase_found f data, Done)"
| "bucket_effect Get_Map f data = (data, Done)"

text \<open>A step of thread \<open>i\<close>; \<open>None\<close> if it has to wait for a lock or is idle.\<close>

definition table_step :: "('k::linorder \<Rightarrow> nat) \<Rightarrow> nat \<Rightarrow> ('k, 'v) lsys \<Rightarrow> ('k, 'v) lsys option" where
  "table_step h i s =
     (if length (lpcs s) \<le> i then None
      else
       (let t = ltable s in
        case lpcs s ! i of
          Idle \<Rightarrow> None
        | Calling c \<Rightarrow>
            (case call_key c of
               None \<Rightarrow> Some (go i (Locking 0) s)
             | Some k \<Rightarrow>
                 (case get_bucket h k t of
                    Inl _ \<Rightarrow> None
                  | Inr b \<Rightarrow>
                      (case acquire i (reads_only c) (locks s ! b) of
                         None \<Rightarrow> None
                       | Some l \<Rightarrow> Some (go_lock i b l (Finding c b) s))))
        | Finding c b \<Rightarrow>
            (case call_key c of
               None \<Rightarrow> None
             | Some k \<Rightarrow> Some (go i (Found c b (find_entry_for k (t ! b))) s))
        | Found c b f \<Rightarrow>
            (case bucket_effect c f (t ! b) of
               (data, a) \<Rightarrow> Some (go_log i (Effect c a) (Unlocking c b a) (s\<lparr>ltable := t[b := data]\<rparr>)))
        | Unlocking c b a \<Rightarrow> Some (go_lock i b (release (locks s ! b)) (Returning c a) s)
        | Returning c a \<Rightarrow> Some (go_log i (Return c a) Idle s)
        | Locking j \<Rightarrow>
            if j < length t then
              (case acquire i False (locks s ! j) of
                 None \<Rightarrow> None
               | Some l \<Rightarrow> Some (go_lock i j l (Locking (Suc j)) s))
            else Some (go i (Copying 0 []) s)
        | Copying j res \<Rightarrow>
            if j < length t then Some (go i (Copying (Suc j) (copy_bucket (t ! j) res)) s)
            else Some (go_log i (Effect Get_Map (Entries res)) (Releasing 0 res) s)
        | Releasing j res \<Rightarrow>
            if j < length t then Some (go_lock i j (release (locks s ! j)) (Releasing (Suc j) res) s)
            else Some (go i (Returning Get_Map (Entries res)) s)))"

inductive table_move :: "('k::linorder \<Rightarrow> nat) \<Rightarrow> ('k, 'v) lsys \<Rightarrow> ('k, 'v) lsys \<Rightarrow> bool" for h where
  runs: "table_step h i s = Some s' \<Longrightarrow> table_move h s s'"
| calls: "i < length (lpcs s) \<Longrightarrow> lpcs s ! i = Idle \<Longrightarrow> table_move h s (go_log i (Call c) (Calling c) s)"

inductive table_reachable :: "('k::linorder \<Rightarrow> nat) \<Rightarrow> nat \<Rightarrow> nat \<Rightarrow> ('k, 'v) lsys \<Rightarrow> bool" for h n threads where
  begins: "table_reachable h n threads (lsys_start n threads)"
| proceeds: "table_reachable h n threads s \<Longrightarrow> table_move h s s' \<Longrightarrow> table_reachable h n threads s'"

section \<open>What a trace says\<close>

text \<open>The calls in the order in which they took effect, and the moments of one thread\<close>

definition effects :: "(nat \<times> ('k, 'v) moment) list \<Rightarrow> (('k, 'v) call \<times> ('k, 'v) answer) list" where
  "effects tr = concat (map (\<lambda>(i, e). case e of Effect c a \<Rightarrow> [(c, a)] | _ \<Rightarrow> []) tr)"

definition moments :: "nat \<Rightarrow> (nat \<times> ('k, 'v) moment) list \<Rightarrow> ('k, 'v) moment list" where
  "moments i tr = map snd (filter (\<lambda>(j, e). j = i) tr)"

lemma trace_snoc [simp]:
  "effects [] = []" "effects (tr @ [(i, Call c)]) = effects tr" "effects (tr @ [(i, Return c a)]) = effects tr"
  "effects (tr @ [(i, Effect c a)]) = effects tr @ [(c, a)]" "moments i [] = []"
  "moments i (tr @ [(j, e)]) = moments i tr @ (if j = i then [e] else [])"
  by (simp_all add: effects_def moments_def)

text \<open>Calls that are over: each took effect once between its call and its return, and returned the answer it got then.\<close>

definition complete_calls :: "(('k, 'v) call \<times> ('k, 'v) answer) list \<Rightarrow> ('k, 'v) moment list" where
  "complete_calls cs = concat (map (\<lambda>(c, a). [Call c, Effect c a, Return c a]) cs)"

lemma complete_calls_snoc [simp]:
  "complete_calls [] = []"
  "complete_calls (cs @ [(c, a)]) = complete_calls cs @ [Call c, Effect c a, Return c a]"
  by (simp_all add: complete_calls_def)

text \<open>The call a thread is in\<close>

fun pending :: "('k, 'v) tpc \<Rightarrow> ('k, 'v) moment list" where
  "pending Idle = []"
| "pending (Calling c) = [Call c]"
| "pending (Finding c b) = [Call c]"
| "pending (Found c b f) = [Call c]"
| "pending (Unlocking c b a) = [Call c, Effect c a]"
| "pending (Returning c a) = [Call c, Effect c a]"
| "pending (Locking j) = [Call Get_Map]"
| "pending (Copying j res) = [Call Get_Map]"
| "pending (Releasing j res) = [Call Get_Map, Effect Get_Map (Entries res)]"

text \<open>The same calls, one after the other, on a map\<close>

fun explains :: "('k::linorder \<Rightarrow> 'v option) \<Rightarrow> (('k, 'v) call \<times> ('k, 'v) answer) list \<Rightarrow> ('k \<Rightarrow> 'v option) \<Rightarrow> bool" where
  "explains m [] m' \<longleftrightarrow> m' = m"
| "explains m ((Value_For k d, a) # cs) m' \<longleftrightarrow> a = Value (case m k of None \<Rightarrow> d | Some v \<Rightarrow> v) \<and> explains m cs m'"
| "explains m ((Add_Or_Update k v, a) # cs) m' \<longleftrightarrow> a = Done \<and> explains (m(k \<mapsto> v)) cs m'"
| "explains m ((Remove_Mapping k, a) # cs) m' \<longleftrightarrow> a = Done \<and> explains (m(k := None)) cs m'"
| "explains m ((Get_Map, a) # cs) m' \<longleftrightarrow> (\<exists>res. a = Entries res \<and> omap_ok res \<and> map_of res = m) \<and> explains m cs m'"

lemma explains_snoc:
  "explains m (cs @ [ca]) m' \<longleftrightarrow> (\<exists>m1. explains m cs m1 \<and> explains m1 [ca] m')"
proof (induction cs arbitrary: m)
  case (Cons x cs)
  obtain c a where "x = (c, a)" by fastforce
  then show ?case using Cons.IH by (cases c) (auto simp del: fun_upd_apply)
qed simp

section \<open>The invariant\<close>

text \<open>Who holds the lock of bucket \<open>b\<close>\<close>

fun holds_excl :: "nat \<Rightarrow> ('k, 'v) tpc \<Rightarrow> bool" where
  "holds_excl b (Finding c b') = (b' = b \<and> \<not> reads_only c)"
| "holds_excl b (Found c b' f) = (b' = b \<and> \<not> reads_only c)"
| "holds_excl b (Unlocking c b' a) = (b' = b \<and> \<not> reads_only c)"
| "holds_excl b (Locking j) = (b < j)"
| "holds_excl b (Copying j res) = True"
| "holds_excl b (Releasing j res) = (j \<le> b)"
| "holds_excl b _ = False"

fun holds_shared :: "nat \<Rightarrow> ('k, 'v) tpc \<Rightarrow> bool" where
  "holds_shared b (Finding c b') = (b' = b \<and> reads_only c)"
| "holds_shared b (Found c b' f) = (b' = b \<and> reads_only c)"
| "holds_shared b (Unlocking c b' a) = (b' = b \<and> reads_only c)"
| "holds_shared b _ = False"

definition lock_ok :: "nat \<Rightarrow> ('k, 'v) tpc list \<Rightarrow> lock \<Rightarrow> bool" where
  "lock_ok b pcs l \<longleftrightarrow> (case l of
     Excl i \<Rightarrow> i < length pcs \<and> holds_excl b (pcs ! i) \<and> cnt (holds_excl b) pcs = 1 \<and> cnt (holds_shared b) pcs = 0
   | Shared m \<Rightarrow> cnt (holds_excl b) pcs = 0 \<and> cnt (holds_shared b) pcs = m)"

lemma lock_frame:
  assumes "lock_ok b pcs l" "i < length pcs" "holds_excl b q = holds_excl b (pcs ! i)" "holds_shared b q = holds_shared b (pcs ! i)"
  shows "lock_ok b (pcs[i := q]) l"
  using assms cnt_swap [OF assms(2), of "holds_excl b" q] cnt_swap [OF assms(2), of "holds_shared b" q]
  by (auto simp: lock_ok_def nth_list_update split: lock.splits if_splits)

lemma lock_acquire:
  assumes "lock_ok b pcs l" "i < length pcs" "acquire i shared l = Some l'"
    and "holds_shared b q = shared" "holds_excl b q = (\<not> shared)" "\<not> holds_shared b (pcs ! i)" "\<not> holds_excl b (pcs ! i)"
  shows "lock_ok b (pcs[i := q]) l'"
  using assms cnt_swap [OF assms(2), of "holds_excl b" q] cnt_swap [OF assms(2), of "holds_shared b" q]
  by (auto simp: lock_ok_def acquire_def split: lock.splits if_splits)

lemma lock_release:
  assumes "lock_ok b pcs l" "i < length pcs" "holds_shared b (pcs ! i) \<noteq> holds_excl b (pcs ! i)"
    and "\<not> holds_shared b q" "\<not> holds_excl b q"
  shows "lock_ok b (pcs[i := q]) (release l)"
  using assms cnt_swap [OF assms(2), of "holds_excl b" q] cnt_swap [OF assms(2), of "holds_shared b" q]
    cnt_pos [OF assms(2), of "holds_excl b"] cnt_pos [OF assms(2), of "holds_shared b"]
  by (cases "holds_shared b (pcs ! i)") (auto simp: lock_ok_def release_def split: lock.splits)

lemma lock_excludes:
  assumes "lock_ok b pcs l" "i < length pcs" "holds_excl b (pcs ! i)" "k < length pcs" "k \<noteq> i"
  shows "\<not> holds_excl b (pcs ! k) \<and> \<not> holds_shared b (pcs ! k)"
proof -
  have "cnt (holds_excl b) pcs \<le> 1" "cnt (holds_shared b) pcs = 0"
    using assms(1) cnt_pos [where P = "holds_excl b", OF assms(2,3)] by (auto simp: lock_ok_def split: lock.splits)
  moreover have "cnt (holds_excl b) (pcs[i := Idle]) + 1 = cnt (holds_excl b) pcs"
    using cnt_swap [OF assms(2), of "holds_excl b" Idle] assms(3) by simp
  moreover have "0 < cnt (holds_excl b) (pcs[i := Idle])" if "holds_excl b (pcs ! k)"
    using cnt_pos [of k "pcs[i := Idle]" "holds_excl b"] assms(4,5) that by simp
  moreover have "0 < cnt (holds_shared b) pcs" if "holds_shared b (pcs ! k)"
    using cnt_pos [OF assms(4), of "holds_shared b"] that by simp
  ultimately show ?thesis by auto
qed

definition locks_ok :: "('k, 'v) lsys \<Rightarrow> bool" where
  "locks_ok s \<longleftrightarrow> length (locks s) = length (ltable s) \<and> (\<forall>b < length (ltable s). lock_ok b (lpcs s) (locks s ! b))"

fun pc_ok :: "('k::linorder \<Rightarrow> nat) \<Rightarrow> ('k, 'v) table \<Rightarrow> ('k, 'v) tpc \<Rightarrow> bool" where
  "pc_ok h t (Finding c b) \<longleftrightarrow> (\<exists>k. call_key c = Some k \<and> b = h k mod length t)"
| "pc_ok h t (Found c b f) \<longleftrightarrow> (\<exists>k. call_key c = Some k \<and> b = h k mod length t \<and> f = find_entry_for k (t ! b))"
| "pc_ok h t (Unlocking c b a) \<longleftrightarrow> b < length t"
| "pc_ok h t (Locking j) \<longleftrightarrow> j \<le> length t"
| "pc_ok h t (Copying j res) \<longleftrightarrow> j \<le> length t \<and> omap_ok res \<and> map_of res = copied h t j"
| "pc_ok h t (Releasing j res) \<longleftrightarrow> j \<le> length t"
| "pc_ok h t _ \<longleftrightarrow> True"

definition calls_ok :: "nat \<Rightarrow> ('k, 'v) lsys \<Rightarrow> bool" where
  "calls_ok i s \<longleftrightarrow> (\<exists>cs. moments i (trace s) = complete_calls cs @ pending (lpcs s ! i))"

definition table_inv :: "('k::linorder \<Rightarrow> nat) \<Rightarrow> ('k, 'v) lsys \<Rightarrow> bool" where
  "table_inv h s \<longleftrightarrow> table_ok h (ltable s) \<and> locks_ok s \<and>
     (\<forall>i < length (lpcs s). pc_ok h (ltable s) (lpcs s ! i) \<and> calls_ok i s) \<and>
     explains Map.empty (effects (trace s)) (table_map h (ltable s))"

lemma table_invD:
  assumes "table_inv h s"
  shows "table_ok h (ltable s)" "locks_ok s" "i < length (lpcs s) \<Longrightarrow> pc_ok h (ltable s) (lpcs s ! i)"
    "i < length (lpcs s) \<Longrightarrow> calls_ok i s" "explains Map.empty (effects (trace s)) (table_map h (ltable s))"
  using assms by (simp_all add: table_inv_def)

lemma locks_okD:
  assumes "locks_ok s"
  shows "length (locks s) = length (ltable s)" "b < length (ltable s) \<Longrightarrow> lock_ok b (lpcs s) (locks s ! b)"
  using assms by (simp_all add: locks_ok_def)

lemma inv_start: "0 < n \<Longrightarrow> table_inv h (lsys_start n threads)"
  by (auto simp: table_inv_def lsys_start_def table_ok_new locks_ok_def lock_ok_def calls_ok_def new_table_def [symmetric]
      intro: exI [of _ "[]"]) (auto simp: new_table_def)

text \<open>A step of thread \<open>i\<close> that leaves the table alone: the locks fit its new place, and what it adds to the trace
  fits too.\<close>

lemma inv_move:
  assumes inv: "table_inv h s" and i: "i < length (lpcs s)"
    and s': "ltable s' = ltable s" "lpcs s' = (lpcs s)[i := pc]" "trace s' = trace s @ es" "\<forall>(j, e) \<in> set es. j = i"
    and pc: "pc_ok h (ltable s) pc" "locks_ok s'"
    and cs: "\<And>cs. moments i (trace s) = complete_calls cs @ pending (lpcs s ! i) \<Longrightarrow>
      \<exists>cs'. moments i (trace s @ es) = complete_calls cs' @ pending pc"
    and ex: "explains Map.empty (effects (trace s)) (table_map h (ltable s)) \<Longrightarrow>
      explains Map.empty (effects (trace s @ es)) (table_map h (ltable s))"
  shows "table_inv h s'"
proof -
  note D = table_invD [OF inv]
  have "calls_ok k s'" if k: "k < length (lpcs s)" for k
  proof (cases "k = i")
    case True
    then show ?thesis using D(4) [OF i] cs i s'(2,3) by (auto simp: calls_ok_def)
  next
    case False
    then have "filter (\<lambda>(j, e). j = k) es = []" using s'(4) by (auto simp: filter_empty_conv)
    then have "moments k (trace s') = moments k (trace s)" by (simp add: s'(3) moments_def)
    then show ?thesis using D(4) [OF k] False s'(2) by (simp add: calls_ok_def)
  qed
  then show ?thesis
    using D i s'(1-3) pc ex by (auto simp: table_inv_def nth_list_update)
qed

lemma locks_frame:
  assumes "locks_ok s" "i < length (lpcs s)" "ltable s' = ltable s" "lpcs s' = (lpcs s)[i := pc]" "locks s' = locks s"
    and "\<And>b. b < length (ltable s) \<Longrightarrow> holds_excl b pc = holds_excl b (lpcs s ! i) \<and> holds_shared b pc = holds_shared b (lpcs s ! i)"
  shows "locks_ok s'"
  using assms lock_frame [OF locks_okD(2) [OF assms(1)] assms(2)] locks_okD(1) [OF assms(1)] by (auto simp: locks_ok_def)

lemma locks_change:
  assumes "locks_ok s" "i < length (lpcs s)" "b < length (ltable s)" "s' = go_lock i b l pc s"
    and "lock_ok b ((lpcs s)[i := pc]) l"
    and "\<And>b'. b' < length (ltable s) \<Longrightarrow> b' \<noteq> b \<Longrightarrow>
      holds_excl b' pc = holds_excl b' (lpcs s ! i) \<and> holds_shared b' pc = holds_shared b' (lpcs s ! i)"
  shows "locks_ok s'"
proof -
  have "lock_ok b' ((lpcs s)[i := pc]) ((locks s)[b := l] ! b')" if "b' < length (ltable s)" for b'
  proof (cases "b' = b")
    case True
    then show ?thesis using assms(5) that locks_okD(1) [OF assms(1)] by simp
  next
    case False
    then show ?thesis using lock_frame [OF locks_okD(2) [OF assms(1) that] assms(2)] assms(6) [OF that] by simp
  qed
  then show ?thesis using locks_okD(1) [OF assms(1)] by (simp add: locks_ok_def assms(4) go_lock_def)
qed

lemmas go_defs = go_def go_lock_def go_log_def

text \<open>A thread goes on without touching locks, table or trace.\<close>

lemma inv_go:
  assumes "table_inv h s" "i < length (lpcs s)" "pc_ok h (ltable s) pc" "pending pc = pending (lpcs s ! i)"
    and "\<And>b. b < length (ltable s) \<Longrightarrow> holds_excl b pc = holds_excl b (lpcs s ! i) \<and> holds_shared b pc = holds_shared b (lpcs s ! i)"
  shows "table_inv h (go i pc s)"
proof (rule inv_move [OF assms(1,2), where es = "[]" and pc = pc])
  show "locks_ok (go i pc s)"
    by (rule locks_frame [OF table_invD(2) [OF assms(1)] assms(2), where pc = pc]) (simp_all add: go_def assms(5))
qed (use assms(3,4) in \<open>auto simp: go_def\<close>)

text \<open>A thread takes or gives back the lock of bucket \<open>b\<close>.\<close>

lemma inv_go_lock:
  assumes "table_inv h s" "i < length (lpcs s)" "b < length (ltable s)" "pc_ok h (ltable s) pc" "pending pc = pending (lpcs s ! i)"
    and "lock_ok b ((lpcs s)[i := pc]) l"
    and "\<And>b'. b' < length (ltable s) \<Longrightarrow> b' \<noteq> b \<Longrightarrow>
      holds_excl b' pc = holds_excl b' (lpcs s ! i) \<and> holds_shared b' pc = holds_shared b' (lpcs s ! i)"
  shows "table_inv h (go_lock i b l pc s)"
proof (rule inv_move [OF assms(1,2), where es = "[]" and pc = pc])
  show "locks_ok (go_lock i b l pc s)"
    by (rule locks_change [OF table_invD(2) [OF assms(1)] assms(2,3) refl assms(6)]) (rule assms(7))
qed (use assms(4,5) in \<open>auto simp: go_lock_def\<close>)

text \<open>The section of a call: its thread holds the lock, so no other thread is at this bucket in a way that matters.\<close>

lemma effect_ok:
  assumes t: "table_ok h t" and k: "call_key c = Some k" "b = h k mod length t"
    and e: "bucket_effect c (find_entry_for k (t ! b)) (t ! b) = (data, a)"
  shows "table_ok h (t[b := data])" "explains (table_map h t) [(c, a)] (table_map h (t[b := data]))"
    "reads_only c \<Longrightarrow> t[b := data] = t"
proof -
  have same: "t[b := t ! b] = t" by simp
  have "table_ok h (t[b := data]) \<and> explains (table_map h t) [(c, a)] (table_map h (t[b := data])) \<and>
    (reads_only c \<longrightarrow> t[b := data] = t)"
  proof (cases c)
    case (Value_For x d)
    then have "data = t ! b" "a = Value (bucket_value_for k d (t ! b))"
      using e k(1) by (auto simp: bucket_value_for_def)
    then show ?thesis using t k Value_For by (simp add: bucket_value_for_map table_map_def)
  next
    case (Add_Or_Update x v)
    then have d: "data = bucket_add_or_update k v (t ! b)" "a = Done" "x = k"
      using e k(1) by (simp_all add: bucket_add_or_update_def)
    obtain t' where "add_or_update_mapping h k v t = Inr t'" "table_ok h t'" "table_map h t' = (table_map h t)(k \<mapsto> v)"
      using add_or_update_ok [OF t, of k v] by blast
    then show ?thesis using d k(2) Add_Or_Update buckets_okD(1) [OF t] by (simp add: add_or_update_mapping_def get_bucket_def)
  next
    case (Remove_Mapping x)
    then have d: "data = bucket_remove k (t ! b)" "a = Done" "x = k"
      using e k(1) by (simp_all add: bucket_remove_def)
    obtain t' where "remove_mapping h k t = Inr t'" "table_ok h t'" "table_map h t' = (table_map h t)(k := None)"
      using remove_ok [OF t, of k] by blast
    then show ?thesis using d k(2) Remove_Mapping buckets_okD(1) [OF t] by (simp add: remove_mapping_def get_bucket_def)
  qed (use k(1) in simp)
  then show "table_ok h (t[b := data])" "explains (table_map h t) [(c, a)] (table_map h (t[b := data]))"
    "reads_only c \<Longrightarrow> t[b := data] = t" by blast+
qed

lemma inv_effect:
  assumes inv: "table_inv h s" and i: "i < length (lpcs s)" "lpcs s ! i = Found c b f"
    and e: "bucket_effect c f (ltable s ! b) = (data, a)"
  shows "table_inv h (go_log i (Effect c a) (Unlocking c b a) (s\<lparr>ltable := (ltable s)[b := data]\<rparr>))"
proof -
  note D = table_invD [OF inv]
  let ?t = "(ltable s)[b := data]" and ?s = "s\<lparr>ltable := (ltable s)[b := data]\<rparr>"
  obtain k where k: "call_key c = Some k" "b = h k mod length (ltable s)" "f = find_entry_for k (ltable s ! b)"
    using D(3) [OF i(1)] i(2) by auto
  have b: "b < length (ltable s)" using buckets_okD(3) [OF D(1)] k(2) by simp
  note ok = effect_ok [OF D(1) k(1,2) e [unfolded k(3)]]
  have other: "pc_ok h ?t (lpcs s ! j)" if j: "j < length (lpcs s)" "j \<noteq> i" for j
  proof (cases "reads_only c")
    case True
    then show ?thesis using ok(3) D(3) [OF j(1)] by simp
  next
    case False
    then have "\<not> holds_excl b (lpcs s ! j) \<and> \<not> holds_shared b (lpcs s ! j)"
      using lock_excludes [OF locks_okD(2) [OF D(2) b] i(1) _ j] i(2) by simp
    then show ?thesis using D(3) [OF j(1)] b by (cases "lpcs s ! j") auto
  qed
  have locks: "locks_ok (go_log i (Effect c a) (Unlocking c b a) s)"
    by (rule locks_frame [OF D(2) i(1), where pc = "Unlocking c b a"]) (simp_all add: go_log_def i(2))
  have calls: "calls_ok j (go_log i (Effect c a) (Unlocking c b a) s)" if "j < length (lpcs s)" for j
    using D(4) [OF that] i by (auto simp: calls_ok_def go_log_def nth_list_update)
  have "explains Map.empty (effects (trace s) @ [(c, a)]) (table_map h ?t)"
    unfolding explains_snoc using D(5) ok(2) by blast
  then show ?thesis
    using ok(1) locks calls other b i(1)
    by (auto simp: table_inv_def go_log_def locks_ok_def calls_ok_def nth_list_update)
qed

lemma table_step_inv:
  assumes inv: "table_inv h s" and step: "table_step h i s = Some s'"
  shows "table_inv h s'"
proof -
  note D = table_invD [OF inv]
  have i: "i < length (lpcs s)" using step by (simp add: table_step_def split: if_splits)
  note L = locks_okD(2) [OF D(2)]
  show ?thesis
  proof (cases "lpcs s ! i")
    case Idle
    then show ?thesis using step i by (simp add: table_step_def)
  next
    case (Calling c)
    show ?thesis
    proof (cases "call_key c")
      case None
      then have "s' = go i (Locking 0) s" "c = Get_Map" using step i Calling by (cases c; simp add: table_step_def)+
      then show ?thesis using inv_go [OF inv i, of "Locking 0"] Calling by simp
    next
      case (Some k)
      let ?b = "h k mod length (ltable s)"
      have b: "?b < length (ltable s)" by (rule buckets_okD(3) [OF D(1)])
      obtain l where l: "acquire i (reads_only c) (locks s ! ?b) = Some l" "s' = go_lock i ?b l (Finding c ?b) s"
        using step i Calling Some buckets_okD(1) [OF D(1)] by (auto simp: table_step_def get_bucket_def Let_def split: option.splits)
      have "lock_ok ?b ((lpcs s)[i := Finding c ?b]) l"
        by (rule lock_acquire [OF L [OF b] i l(1)]) (simp_all add: Calling)
      then show ?thesis
        unfolding l(2) by (rule inv_go_lock [OF inv i b, rotated 2]) (simp_all add: Calling Some)
    qed
  next
    case (Finding c b)
    obtain k where k: "call_key c = Some k" "b = h k mod length (ltable s)" using D(3) [OF i] Finding by auto
    then have "s' = go i (Found c b (find_entry_for k (ltable s ! b))) s" using step i Finding by (simp add: table_step_def)
    then show ?thesis using inv_go [OF inv i, of "Found c b (find_entry_for k (ltable s ! b))"] Finding k by simp
  next
    case (Found c b f)
    obtain data a where e: "bucket_effect c f (ltable s ! b) = (data, a)" by fastforce
    then have "s' = go_log i (Effect c a) (Unlocking c b a) (s\<lparr>ltable := (ltable s)[b := data]\<rparr>)"
      using step i Found by (simp add: table_step_def Let_def)
    then show ?thesis using inv_effect [OF inv i Found e] by simp
  next
    case (Unlocking c b a)
    have b: "b < length (ltable s)" using D(3) [OF i] Unlocking by simp
    have s': "s' = go_lock i b (release (locks s ! b)) (Returning c a) s" using step i Unlocking by (simp add: table_step_def)
    have "lock_ok b ((lpcs s)[i := Returning c a]) (release (locks s ! b))"
      by (rule lock_release [OF L [OF b] i]) (simp_all add: Unlocking)
    then show ?thesis
      unfolding s' by (rule inv_go_lock [OF inv i b, rotated 2]) (simp_all add: Unlocking)
  next
    case (Returning c a)
    have s': "s' = go_log i (Return c a) Idle s" using step i Returning by (simp add: table_step_def)
    have "locks_ok s'"
      by (rule locks_frame [OF D(2) i, where pc = Idle]) (simp_all add: s' go_log_def Returning)
    moreover have "\<exists>cs'. moments i (trace s @ [(i, Return c a)]) = complete_calls cs' @ pending Idle"
      if "moments i (trace s) = complete_calls cs @ pending (lpcs s ! i)" for cs
      using that Returning by (intro exI [of _ "cs @ [(c, a)]"]) simp
    ultimately show ?thesis
      using inv_move [OF inv i, of s' Idle "[(i, Return c a)]"] by (simp add: s' go_log_def)
  next
    case (Locking j)
    show ?thesis
    proof (cases "j < length (ltable s)")
      case True
      obtain l where l: "acquire i False (locks s ! j) = Some l" "s' = go_lock i j l (Locking (Suc j)) s"
        using step i Locking True by (auto simp: table_step_def split: option.splits)
      have "lock_ok j ((lpcs s)[i := Locking (Suc j)]) l"
        by (rule lock_acquire [OF L [OF True] i l(1)]) (simp_all add: Locking)
      then show ?thesis
        unfolding l(2) by (rule inv_go_lock [OF inv i True, rotated 2]) (use True in \<open>auto simp: Locking\<close>)
    next
      case False
      then have "s' = go i (Copying 0 []) s" using step i Locking by (simp add: table_step_def)
      then show ?thesis
        using inv_go [OF inv i, of "Copying 0 []"] Locking False by (auto simp: copied_def fun_eq_iff)
    qed
  next
    case (Copying j res)
    have pc: "j \<le> length (ltable s)" "omap_ok res" "map_of res = copied h (ltable s) j" using D(3) [OF i] Copying by auto
    show ?thesis
    proof (cases "j < length (ltable s)")
      case True
      then have "s' = go i (Copying (Suc j) (copy_bucket (ltable s ! j) res)) s"
        using step i Copying by (simp add: table_step_def)
      then show ?thesis
        using inv_go [OF inv i, of "Copying (Suc j) (copy_bucket (ltable s ! j) res)"] Copying True
          copied_Suc [OF D(1) True pc(2,3)] by simp
    next
      case False
      then have s': "s' = go_log i (Effect Get_Map (Entries res)) (Releasing 0 res) s"
        using step i Copying by (simp add: table_step_def)
      have res: "map_of res = table_map h (ltable s)" using False pc copied_all [OF D(1)] by simp
      have "locks_ok s'"
        by (rule locks_frame [OF D(2) i, where pc = "Releasing 0 res"]) (simp_all add: s' go_log_def Copying)
      moreover have "explains Map.empty (effects (trace s) @ [(Get_Map, Entries res)]) (table_map h (ltable s))"
        unfolding explains_snoc using D(5) res pc(2) by auto
      ultimately show ?thesis
        using inv_move [OF inv i, of s' "Releasing 0 res" "[(i, Effect Get_Map (Entries res))]"] Copying
        by (auto simp: s' go_log_def)
    qed
  next
    case (Releasing j res)
    show ?thesis
    proof (cases "j < length (ltable s)")
      case True
      have s': "s' = go_lock i j (release (locks s ! j)) (Releasing (Suc j) res) s"
        using step i Releasing True by (simp add: table_step_def)
      have "lock_ok j ((lpcs s)[i := Releasing (Suc j) res]) (release (locks s ! j))"
        by (rule lock_release [OF L [OF True] i]) (simp_all add: Releasing)
      then show ?thesis
        unfolding s' by (rule inv_go_lock [OF inv i True, rotated 2]) (use True in \<open>auto simp: Releasing\<close>)
    next
      case False
      then have "s' = go i (Returning Get_Map (Entries res)) s" using step i Releasing by (simp add: table_step_def)
      then show ?thesis using inv_go [OF inv i, of "Returning Get_Map (Entries res)"] Releasing False by simp
    qed
  qed
qed

lemma table_reachable_inv: "table_reachable h n threads s \<Longrightarrow> 0 < n \<Longrightarrow> table_inv h s"
proof (induction rule: table_reachable.induct)
  case begins
  then show ?case by (rule inv_start)
next
  case (proceeds s s')
  then have inv: "table_inv h s" by blast
  from proceeds(2) show ?case
  proof cases
    case (runs i)
    then show ?thesis using table_step_inv [OF inv] by blast
  next
    case (calls i c)
    have "locks_ok s'"
      by (rule locks_frame [OF table_invD(2) [OF inv] calls(2), where pc = "Calling c"]) (simp_all add: calls go_log_def)
    then show ?thesis
      using inv_move [OF inv calls(2), of s' "Calling c" "[(i, Call c)]"] calls(3) by (auto simp: calls(1) go_log_def)
  qed
qed

section \<open>Properties\<close>

lemma get_map_copies: "table_ok h t \<Longrightarrow> omap_ok (get_map t) \<and> map_of (get_map t) = table_map h t"
proof -
  assume t: "table_ok h t"
  have "omap_ok (fold copy_bucket (take j t) []) \<and> map_of (fold copy_bucket (take j t) []) = copied h t j" if "j \<le> length t" for j
    using that
  proof (induction j)
    case 0
    then show ?case by (simp add: copied_def fun_eq_iff)
  next
    case (Suc j)
    then show ?case using copied_Suc [OF t, of j "fold copy_bucket (take j t) []"] by (simp add: take_Suc_conv_app_nth)
  qed
  from this [of "length t"] show ?thesis by (simp add: get_map_def copied_all [OF t])
qed

text \<open>After any sequence of insertions and removals the table answers every lookup as a \<^verbatim>\<open>std::map\<close> does after
  the same sequence, and \<^verbatim>\<open>get_map\<close> returns exactly this map, whatever the hash function and the number of
  buckets are.\<close>

theorem table_and_map_agree:
  "value_for h k d (fold (edit (put_entry h) (drop_entry h)) es (new_table (Suc n)))
     = Inr (case map_of (fold (edit omap_put omap_del) es []) k of None \<Rightarrow> d | Some v \<Rightarrow> v) \<and>
   get_map (fold (edit (put_entry h) (drop_entry h)) es (new_table (Suc n))) = fold (edit omap_put omap_del) es []"
proof -
  let ?t = "fold (edit (put_entry h) (drop_entry h)) es (new_table (Suc n))" and ?m = "fold (edit omap_put omap_del) es []"
  have t: "table_ok h ?t" "table_map h ?t = fold map_edit es Map.empty"
    using hashed.edits_lookup [where h = h and n = n and es = es] by blast+
  have m: "omap_ok ?m" "map_of ?m = fold map_edit es Map.empty"
    using ordered.edits_lookup [where es = es] by blast+
  have "get_map ?t = ?m"
    by (rule omap_ext) (use get_map_copies [OF t(1)] t(2) m in simp_all)
  then show ?thesis using value_for_map [OF t(1), of k d] t(2) m(2) by simp
qed

text \<open>C8: The table is linearisable.  In every interleaving of the steps of any number of threads, each thread has done its
  calls one after the other, and each of its calls takes effect exactly once, between its call and its return, and
  returns the answer it got when it took effect; a call that has not returned has taken effect at most once.  In the order
  in which the calls take effect, of whatever thread they are, their answers are those of the same calls made one after the
  other on a map, \<^verbatim>\<open>get_map\<close> included, and the table holds what they leave.\<close>

theorem table_is_linearisable:
  assumes "table_reachable h n threads s" "0 < n"
  shows "explains Map.empty (effects (trace s)) (table_map h (ltable s)) \<and> table_ok h (ltable s) \<and>
    (\<forall>i < length (lpcs s). \<exists>cs. moments i (trace s) = complete_calls cs @ pending (lpcs s ! i))"
  using table_invD [OF table_reachable_inv [OF assms]] by (auto simp: calls_ok_def)

text \<open>A schedule: thread \<open>i\<close> calls an operation or takes a step.\<close>

fun play_table :: "('k::linorder \<Rightarrow> nat) \<Rightarrow> (nat \<times> ('k, 'v) call option) list \<Rightarrow> ('k, 'v) lsys \<Rightarrow> ('k, 'v) lsys option" where
  "play_table h [] s = Some s"
| "play_table h ((i, Some c) # es) s =
     (if i < length (lpcs s) \<and> pending (lpcs s ! i) = [] then play_table h es (go_log i (Call c) (Calling c) s) else None)"
| "play_table h ((i, None) # es) s = (case table_step h i s of None \<Rightarrow> None | Some s' \<Rightarrow> play_table h es s')"

lemma pending_Nil: "pending pc = [] \<Longrightarrow> pc = Idle"
  by (cases pc) auto

lemma play_table_reachable:
  "table_reachable h n threads s \<Longrightarrow> play_table h es s = Some s' \<Longrightarrow> table_reachable h n threads s'"
proof (induction h es s rule: play_table.induct)
  case (2 h i c es s)
  then show ?case
    using table_reachable.proceeds [OF "2.prems"(1) table_move.calls [of i s h c]] pending_Nil [of "lpcs s ! i"]
    by (auto split: if_splits)
next
  case (3 h i es s)
  then show ?case using table_reachable.proceeds [OF "3.prems"(1) table_move.runs [of h i s]] by (auto split: option.splits)
qed simp

text \<open>Two threads: the first adds an entry and is stopped before its return, the second reads it and returns first.\<close>

definition overtaking :: "(nat \<times> (nat, nat) call option) list" where
  "overtaking = [(0, Some (Add_Or_Update 1 7)), (0, None), (1, Some (Value_For 1 0)), (0, None), (0, None), (0, None),
     (1, None), (1, None), (1, None), (1, None), (1, None)]"

definition overtaken :: "(nat, nat) lsys" where
  "overtaken = \<lparr>ltable = [[], [(1, 7)]], locks = [Shared 0, Shared 0], lpcs = [Returning (Add_Or_Update 1 7) Done, Idle],
     trace = [(0, Call (Add_Or_Update 1 7)), (1, Call (Value_For 1 0)), (0, Effect (Add_Or_Update 1 7) Done),
       (1, Effect (Value_For 1 0) (Value 7)), (1, Return (Value_For 1 0) (Value 7))]\<rparr>"

lemma overtaken_reachable: "table_reachable id 2 2 overtaken"
proof -
  have "play_table id overtaking (lsys_start 2 2) = Some overtaken"
    by (simp add: overtaking_def table_step_def lsys_start_def new_table_def get_bucket_def acquire_def release_def go_defs
        put_found_def found_value_def overtaken_def numeral_2_eq_2 Let_def)
  then show ?thesis by (rule play_table_reachable [OF table_reachable.begins])
qed

theorem table_is_linearisable_witness:
  "explains Map.empty [(Add_Or_Update 1 7, Done), (Value_For 1 0, Value 7)] (table_map id [[], [(1 :: nat, 7 :: nat)]]) \<and>
   moments 1 (trace overtaken) \<noteq> []"
  using table_is_linearisable [OF overtaken_reachable] by (simp add: overtaken_def effects_def moments_def)

text \<open>No deadlock: while a call has not returned, some thread can run.  Of the threads that wait in \<^verbatim>\<open>get_map\<close> the one
  that has most locks can go on.\<close>

definition blocked :: "('k, 'v) tpc \<Rightarrow> bool" where
  "blocked pc \<longleftrightarrow> (case pc of Idle \<Rightarrow> True | Calling c \<Rightarrow> True | Locking j \<Rightarrow> True | _ \<Rightarrow> False)"

lemma others_run:
  assumes inv: "table_inv h s" and i: "i < length (lpcs s)" "\<not> blocked (lpcs s ! i)"
  shows "\<exists>s'. table_step h i s = Some s'"
  using table_invD(3) [OF inv i(1)] i
  by (cases "lpcs s ! i") (auto simp: table_step_def blocked_def Let_def split: prod.splits)

lemma blocked_holds:
  assumes "lock_ok b pcs l" "\<And>k. k < length pcs \<Longrightarrow> blocked (pcs ! k)"
    and "\<And>k j. k < length pcs \<Longrightarrow> pcs ! k = Locking j \<Longrightarrow> j \<le> b"
  shows "l = Shared 0"
proof -
  have no: "\<not> holds_excl b (pcs ! k)" "\<not> holds_shared b (pcs ! k)" if "k < length pcs" for k
    using assms(2,3) [OF that] by (cases "pcs ! k"; auto simp: blocked_def)+
  then have "cnt (holds_shared b) pcs = 0" by (auto simp: cnt_def filter_empty_conv in_set_conv_nth)
  then show ?thesis using assms(1) no by (auto simp: lock_ok_def split: lock.splits)
qed

theorem some_call_proceeds:
  assumes "table_reachable h n threads s" "0 < n" "i < length (lpcs s)" "lpcs s ! i \<noteq> Idle"
  shows "\<exists>k s'. table_step h k s = Some s'"
proof (cases "\<forall>k < length (lpcs s). blocked (lpcs s ! k)")
  case False
  then show ?thesis using others_run [OF table_reachable_inv [OF assms(1,2)]] by blast
next
  case True
  note D = table_invD [OF table_reachable_inv [OF assms(1,2)]]
  note L = locks_okD(2) [OF D(2)]
  let ?J = "{j. \<exists>k < length (lpcs s). lpcs s ! k = Locking j}"
  have fin: "finite ?J"
  proof (rule finite_subset)
    show "?J \<subseteq> {.. length (ltable s)}" using D(3) by fastforce
  qed simp
  show ?thesis
  proof (cases "?J = {}")
    case False
    then obtain k where k: "k < length (lpcs s)" "lpcs s ! k = Locking (Max ?J)" using Max_in [OF fin] by blast
    have "locks s ! Max ?J = Shared 0" if "Max ?J < length (ltable s)"
      by (rule blocked_holds [OF L [OF that]]) (use True Max_ge [OF fin] in auto)
    then show ?thesis using k by (intro exI [of _ k]) (simp add: table_step_def acquire_def)
  next
    case True': True
    then obtain c where c: "lpcs s ! i = Calling c"
      using True assms(3,4) by (cases "lpcs s ! i") (auto simp: blocked_def)
    show ?thesis
    proof (cases "call_key c")
      case None
      then show ?thesis using assms(3) c by (intro exI [of _ i]) (simp add: table_step_def)
    next
      case (Some x)
      have b: "h x mod length (ltable s) < length (ltable s)" by (rule buckets_okD(3) [OF D(1)])
      have "locks s ! (h x mod length (ltable s)) = Shared 0"
        by (rule blocked_holds [OF L [OF b]]) (use True True' in auto)
      then show ?thesis
        using assms(3) c Some buckets_okD(1) [OF D(1)]
        by (intro exI [of _ i]) (simp add: table_step_def get_bucket_def acquire_def Let_def)
    qed
  qed
qed

theorem some_call_proceeds_witness:
  "\<exists>k s'. table_step id k overtaken = Some s'"
  using some_call_proceeds [OF overtaken_reachable, of 0] by (simp add: overtaken_def)

end
