(* ===== verification/ConnPool.thy ===== *)
theory ConnPool
  imports Prelude "HOL-Library.Multiset"
begin

text \<open>
  The pool of database connections, \<^verbatim>\<open>mysql_connect_pool/src/connectPool.cpp\<close>.

  The producer, the recycler and the clients share the queue under one mutex, and each of their sections
  between acquiring the mutex and releasing it or waiting is one step.  A connection has an identity, the
  time of its last \<^verbatim>\<open>refreshAliveTime\<close> and whether \<^verbatim>\<open>connect\<close> succeeded, which the code does not look at.
  Time is in milliseconds and passes between steps.  A client is a thread that calls \<^verbatim>\<open>getConnection\<close> and
  later lets the shared pointer go, whose deleter gives the connection back.
\<close>

section \<open>The pool\<close>

record settings =
  m_minSize :: int
  m_maxSize :: int
  m_maxIdTime :: int
  m_timeout :: int

record conn =
  conn_id :: nat
  m_alivetime :: nat
  connected :: bool

record pool =
  m_connectQ :: "conn list"
  now :: nat
  next_id :: nat
  deleted :: "nat list"

definition getAliveTime :: "nat \<Rightarrow> conn \<Rightarrow> int" where
  "getAliveTime t c = int t - int (m_alivetime c)"

definition refreshAliveTime :: "nat \<Rightarrow> conn \<Rightarrow> conn" where
  "refreshAliveTime t c = c\<lparr>m_alivetime := t\<rparr>"

definition addConnection :: "bool \<Rightarrow> pool \<Rightarrow> pool" where
  "addConnection up p =
     (let conn = refreshAliveTime (now p) \<lparr>conn_id = next_id p, m_alivetime = 0, connected = up\<rparr>
      in p\<lparr>m_connectQ := m_connectQ p @ [conn], next_id := next_id p + 1\<rparr>)"

text \<open>The loop of \<^verbatim>\<open>recycleConnection\<close> under the mutex; \<^verbatim>\<open>front\<close> of an empty queue is undefined.\<close>

function recycle :: "settings \<Rightarrow> pool \<Rightarrow> pool result" where
  "recycle cf p =
     (if m_minSize cf < int (length (m_connectQ p)) then
        (case m_connectQ p of
           [] \<Rightarrow> Inl Out_Of_Bounds
         | conn # q \<Rightarrow>
             if m_maxIdTime cf \<le> getAliveTime (now p) conn
             then recycle cf (p\<lparr>m_connectQ := q, deleted := deleted p @ [conn_id conn]\<rparr>)
             else Inr p)
      else Inr p)"
  by pat_completeness auto
termination
  by (relation "measure (\<lambda>(cf, p). length (m_connectQ p))") auto

declare recycle.simps [simp del]

text \<open>The destructor\<close>

definition destroy_pool :: "pool \<Rightarrow> pool" where
  "destroy_pool p = p\<lparr>m_connectQ := [], deleted := deleted p @ map conn_id (m_connectQ p)\<rparr>"

section \<open>Threads\<close>

datatype producer = P_Ready | P_Waiting

datatype client = C_Idle | C_Asking | C_Waiting | C_Has conn

record psys =
  the_pool :: pool
  producer_pc :: producer
  clients :: "client list"

definition notify_all :: "psys \<Rightarrow> psys" where
  "notify_all s = s\<lparr>producer_pc := P_Ready,
     clients := map (\<lambda>c. case c of C_Waiting \<Rightarrow> C_Asking | _ \<Rightarrow> c) (clients s)\<rparr>"

text \<open>\<^verbatim>\<open>produceConnection\<close> with the mutex, at the test of its inner loop\<close>

definition produce :: "settings \<Rightarrow> bool \<Rightarrow> psys \<Rightarrow> psys" where
  "produce cf up s =
     (if m_minSize cf \<le> int (length (m_connectQ (the_pool s))) then s\<lparr>producer_pc := P_Waiting\<rparr>
      else notify_all (s\<lparr>the_pool := addConnection up (the_pool s)\<rparr>))"

text \<open>\<^verbatim>\<open>getConnection\<close> with the mutex, at the test of its loop\<close>

definition getConnection :: "nat \<Rightarrow> psys \<Rightarrow> psys" where
  "getConnection i s =
     (case m_connectQ (the_pool s) of
        [] \<Rightarrow> s\<lparr>clients := (clients s)[i := C_Waiting]\<rparr>
      | conn # q \<Rightarrow> notify_all (s\<lparr>the_pool := (the_pool s)\<lparr>m_connectQ := q\<rparr>, clients := (clients s)[i := C_Has conn]\<rparr>))"

text \<open>The deleter of the shared pointer\<close>

definition give_back :: "nat \<Rightarrow> conn \<Rightarrow> psys \<Rightarrow> psys" where
  "give_back i conn s =
     (let p = the_pool s in
      s\<lparr>the_pool := p\<lparr>m_connectQ := m_connectQ p @ [refreshAliveTime (now p) conn]\<rparr>, clients := (clients s)[i := C_Idle]\<rparr>)"

fun fill_pool :: "bool list \<Rightarrow> pool \<Rightarrow> pool" where
  "fill_pool [] p = p"
| "fill_pool (up # ups) p = fill_pool ups (addConnection up p)"

text \<open>The constructor: \<open>ups\<close> are the outcomes of its calls of \<^verbatim>\<open>connect\<close>, one for each turn of the loop.\<close>

definition new_pool :: "nat \<Rightarrow> bool list \<Rightarrow> psys" where
  "new_pool n ups =
     \<lparr>the_pool = fill_pool ups \<lparr>m_connectQ = [], now = 0, next_id = 0, deleted = []\<rparr>, producer_pc = P_Ready,
      clients = replicate n C_Idle\<rparr>"

inductive pool_step :: "settings \<Rightarrow> psys \<Rightarrow> psys \<Rightarrow> bool" for cf where
  producing: "producer_pc s = P_Ready \<Longrightarrow> pool_step cf s (produce cf up s)"
| producer_wakes: "pool_step cf s (s\<lparr>producer_pc := P_Ready\<rparr>)"
| recycling: "recycle cf (the_pool s) = Inr p \<Longrightarrow> pool_step cf s (s\<lparr>the_pool := p\<rparr>)"
| asking: "i < length (clients s) \<Longrightarrow> clients s ! i = C_Idle \<Longrightarrow> pool_step cf s (s\<lparr>clients := (clients s)[i := C_Asking]\<rparr>)"
| getting: "i < length (clients s) \<Longrightarrow> clients s ! i = C_Asking \<Longrightarrow> pool_step cf s (getConnection i s)"
| timing_out: "i < length (clients s) \<Longrightarrow> clients s ! i = C_Waiting \<Longrightarrow> pool_step cf s (s\<lparr>clients := (clients s)[i := C_Asking]\<rparr>)"
| giving_back: "i < length (clients s) \<Longrightarrow> clients s ! i = C_Has conn \<Longrightarrow> pool_step cf s (give_back i conn s)"
| time_passes: "pool_step cf s (s\<lparr>the_pool := (the_pool s)\<lparr>now := now (the_pool s) + d\<rparr>\<rparr>)"

inductive pool_reachable :: "settings \<Rightarrow> nat \<Rightarrow> psys \<Rightarrow> bool" for cf n where
  first: "int (length ups) = max 0 (m_minSize cf) \<Longrightarrow> pool_reachable cf n (new_pool n ups)"
| later: "pool_reachable cf n s \<Longrightarrow> pool_step cf s s' \<Longrightarrow> pool_reachable cf n s'"

section \<open>Recycling\<close>

lemma recycle_splits:
  assumes "0 \<le> m_minSize cf" "sorted (map m_alivetime (m_connectQ p))"
  shows "\<exists>old q. m_connectQ p = old @ q \<and> recycle cf p = Inr (p\<lparr>m_connectQ := q, deleted := deleted p @ map conn_id old\<rparr>) \<and>
    (\<forall>c \<in> set old. m_maxIdTime cf \<le> getAliveTime (now p) c) \<and>
    (old \<noteq> [] \<longrightarrow> m_minSize cf \<le> int (length q)) \<and>
    (m_minSize cf < int (length q) \<longrightarrow> (\<forall>c \<in> set q. getAliveTime (now p) c < m_maxIdTime cf))"
  using assms
proof (induction cf p rule: recycle.induct)
  case (1 cf p)
  show ?case
  proof (cases "m_minSize cf < int (length (m_connectQ p))")
    case False
    then show ?thesis by (intro exI [of _ "[]"] exI [of _ "m_connectQ p"]) (simp add: recycle.simps [of cf p])
  next
    case True
    then obtain c q where q: "m_connectQ p = c # q" using "1.prems"(1) by (cases "m_connectQ p") auto
    show ?thesis
    proof (cases "m_maxIdTime cf \<le> getAliveTime (now p) c")
      case old: True
      let ?p = "p\<lparr>m_connectQ := q, deleted := deleted p @ [conn_id c]\<rparr>"
      have "recycle cf p = recycle cf ?p" using True q old by (simp add: recycle.simps [of cf p])
      moreover obtain old' q' where "q = old' @ q'"
        "recycle cf ?p = Inr (?p\<lparr>m_connectQ := q', deleted := deleted ?p @ map conn_id old'\<rparr>)"
        "\<forall>c \<in> set old'. m_maxIdTime cf \<le> getAliveTime (now p) c" "old' \<noteq> [] \<longrightarrow> m_minSize cf \<le> int (length q')"
        "m_minSize cf < int (length q') \<longrightarrow> (\<forall>c \<in> set q'. getAliveTime (now p) c < m_maxIdTime cf)"
        using "1.IH" [OF True q old "1.prems"(1)] "1.prems"(2) q by auto
      ultimately show ?thesis
        using q old True by (intro exI [of _ "c # old'"] exI [of _ q']) (cases old'; auto)
    next
      case young: False
      have "recycle cf p = Inr p" using True q young by (simp add: recycle.simps [of cf p])
      moreover have "\<forall>d \<in> set (c # q). getAliveTime (now p) d < m_maxIdTime cf"
        using young "1.prems"(2) q by (fastforce simp: getAliveTime_def)
      ultimately show ?thesis using q by (intro exI [of _ "[]"] exI [of _ "c # q"]) simp
    qed
  qed
qed

section \<open>The invariant\<close>

fun held :: "client \<Rightarrow> conn list" where
  "held (C_Has c) = [c]"
| "held _ = []"

definition in_use :: "psys \<Rightarrow> conn list" where
  "in_use s = concat (map held (clients s))"

definition open_ids :: "psys \<Rightarrow> nat multiset" where
  "open_ids s = mset (map conn_id (m_connectQ (the_pool s))) + mset (map conn_id (in_use s))"

text \<open>Every connection that was made is in the queue, with one client or deleted, exactly once; the queue is
  ordered by the time of return; the producer sleeps only while the queue is long enough.\<close>

definition pool_inv :: "settings \<Rightarrow> nat \<Rightarrow> psys \<Rightarrow> bool" where
  "pool_inv cf n s \<longleftrightarrow> (let p = the_pool s in
     length (clients s) = n \<and>
     open_ids s + mset (deleted p) = mset [0 ..< next_id p] \<and>
     sorted (map m_alivetime (m_connectQ p)) \<and> (\<forall>c \<in> set (m_connectQ p). m_alivetime c \<le> now p) \<and>
     (producer_pc s = P_Waiting \<longrightarrow> m_minSize cf \<le> int (length (m_connectQ p))) \<and>
     int (size (open_ids s)) \<le> max 0 (m_minSize cf) + int n)"

definition use_ids :: "client list \<Rightarrow> nat multiset" where
  "use_ids cs = mset (map conn_id (concat (map held cs)))"

lemma open_ids_eq: "open_ids s = mset (map conn_id (m_connectQ (the_pool s))) + use_ids (clients s)"
  by (simp add: open_ids_def use_ids_def in_use_def)

lemma use_ids_update:
  assumes "i < length cs"
  shows "use_ids (cs[i := c]) + mset (map conn_id (held (cs ! i))) = use_ids cs + mset (map conn_id (held c))"
proof -
  obtain a x b where cs: "cs = a @ x # b" "length a = i" using assms id_take_nth_drop by (metis length_take min.absorb4)
  then show ?thesis by (auto simp: use_ids_def list_update_append nth_append)
qed

lemma use_ids_same: "i < length cs \<Longrightarrow> held c = held (cs ! i) \<Longrightarrow> use_ids (cs[i := c]) = use_ids cs"
  using use_ids_update [of i cs c] by simp

lemma notify_all_fields [simp]:
  "the_pool (notify_all s) = the_pool s" "producer_pc (notify_all s) = P_Ready" "length (clients (notify_all s)) = length (clients s)"
  "use_ids (clients (notify_all s)) = use_ids (clients s)"
proof -
  have "held (case c of C_Waiting \<Rightarrow> C_Asking | _ \<Rightarrow> c) = held c" for c by (cases c) simp_all
  then have "held \<circ> (\<lambda>c. case c of C_Waiting \<Rightarrow> C_Asking | _ \<Rightarrow> c) = held" by (simp add: fun_eq_iff)
  then show "use_ids (clients (notify_all s)) = use_ids (clients s)" by (simp add: notify_all_def use_ids_def)
qed (simp_all add: notify_all_def)

lemma size_use_ids: "size (use_ids cs) \<le> length cs"
proof (induction cs)
  case (Cons c cs)
  then show ?case by (cases c) (simp_all add: use_ids_def)
qed (simp add: use_ids_def)

lemma pool_invI:
  assumes "length (clients s) = n" "mset (map conn_id (m_connectQ (the_pool s))) + use_ids (clients s) + mset (deleted (the_pool s)) = mset [0 ..< next_id (the_pool s)]"
    "sorted (map m_alivetime (m_connectQ (the_pool s)))" "\<forall>c \<in> set (m_connectQ (the_pool s)). m_alivetime c \<le> now (the_pool s)"
    "producer_pc s = P_Waiting \<Longrightarrow> m_minSize cf \<le> int (length (m_connectQ (the_pool s)))"
    "int (length (m_connectQ (the_pool s)) + size (use_ids (clients s))) \<le> max 0 (m_minSize cf) + int n"
  shows "pool_inv cf n s"
  using assms by (simp add: pool_inv_def open_ids_eq Let_def)

lemma pool_invD:
  assumes "pool_inv cf n s"
  shows "length (clients s) = n" "mset (map conn_id (m_connectQ (the_pool s))) + use_ids (clients s) + mset (deleted (the_pool s)) = mset [0 ..< next_id (the_pool s)]"
    "sorted (map m_alivetime (m_connectQ (the_pool s)))" "\<forall>c \<in> set (m_connectQ (the_pool s)). m_alivetime c \<le> now (the_pool s)"
    "producer_pc s = P_Waiting \<Longrightarrow> m_minSize cf \<le> int (length (m_connectQ (the_pool s)))"
    "int (length (m_connectQ (the_pool s)) + size (use_ids (clients s))) \<le> max 0 (m_minSize cf) + int n"
  using assms by (simp_all add: pool_inv_def open_ids_eq Let_def)

text \<open>A client changes its state without a connection changing hands.\<close>

lemma inv_client:
  assumes inv: "pool_inv cf n s" and "i < length (clients s)" "held c = held (clients s ! i)"
  shows "pool_inv cf n (s\<lparr>clients := (clients s)[i := c]\<rparr>)"
  by (rule pool_invI) (use pool_invD [OF inv] use_ids_same [OF assms(2,3)] in simp_all)

lemma fill_pool_fields:
  "m_connectQ (fill_pool ups p) = m_connectQ p @ map2 (\<lambda>i up. \<lparr>conn_id = i, m_alivetime = now p, connected = up\<rparr>)
     [next_id p ..< next_id p + length ups] ups \<and>
   now (fill_pool ups p) = now p \<and> next_id (fill_pool ups p) = next_id p + length ups \<and> deleted (fill_pool ups p) = deleted p"
proof (induction ups arbitrary: p)
  case (Cons up ups)
  have "[next_id p ..< next_id p + length (up # ups)] = next_id p # [Suc (next_id p) ..< Suc (next_id p) + length ups]"
    by (subst upt_conv_Cons) simp_all
  then show ?case
    using Cons.IH [of "addConnection up p"] by (simp add: addConnection_def refreshAliveTime_def Let_def)
qed simp

lemma start_pool_inv:
  assumes "int (length ups) = max 0 (m_minSize cf)"
  shows "pool_inv cf n (new_pool n ups)"
proof (rule pool_invI)
  have "map conn_id (map2 (\<lambda>i up. \<lparr>conn_id = i, m_alivetime = 0, connected = up\<rparr>) [0 ..< length ups] ups) = [0 ..< length ups]"
    by (rule nth_equalityI) simp_all
  moreover have "use_ids (replicate n C_Idle) = {#}" by (induction n) (simp_all add: use_ids_def)
  ultimately show "mset (map conn_id (m_connectQ (the_pool (new_pool n ups)))) + use_ids (clients (new_pool n ups)) +
      mset (deleted (the_pool (new_pool n ups))) = mset [0 ..< next_id (the_pool (new_pool n ups))]"
    "int (length (m_connectQ (the_pool (new_pool n ups))) + size (use_ids (clients (new_pool n ups)))) \<le> max 0 (m_minSize cf) + int n"
    using assms fill_pool_fields [of ups "\<lparr>m_connectQ = [], now = 0, next_id = 0, deleted = []\<rparr>"]
    by (simp_all add: new_pool_def)
  have "sorted (map m_alivetime (map2 (\<lambda>i up. \<lparr>conn_id = i, m_alivetime = 0, connected = up\<rparr>) [0 ..< length ups] ups))"
    by (simp add: sorted_iff_nth_mono)
  then show "sorted (map m_alivetime (m_connectQ (the_pool (new_pool n ups))))"
    "\<forall>c \<in> set (m_connectQ (the_pool (new_pool n ups))). m_alivetime c \<le> now (the_pool (new_pool n ups))"
    using fill_pool_fields [of ups "\<lparr>m_connectQ = [], now = 0, next_id = 0, deleted = []\<rparr>"]
    by (auto simp: new_pool_def set_zip)
qed (simp_all add: new_pool_def)

lemma pool_step_inv:
  assumes inv: "pool_inv cf n s" and step: "pool_step cf s s'" and min: "0 \<le> m_minSize cf"
  shows "pool_inv cf n s'"
proof -
  note D = pool_invD [OF inv]
  show ?thesis
    using step
  proof cases
    case (producing up)
    show ?thesis
    proof (cases "m_minSize cf \<le> int (length (m_connectQ (the_pool s)))")
      case True
      then have "s' = s\<lparr>producer_pc := P_Waiting\<rparr>" using producing by (simp add: produce_def)
      then show ?thesis by (intro pool_invI) (use D True in simp_all)
    next
      case False
      then have s': "s' = notify_all (s\<lparr>the_pool := addConnection up (the_pool s)\<rparr>)" using producing by (simp add: produce_def)
      show ?thesis
        unfolding s'
      proof (rule pool_invI)
        show "mset (map conn_id (m_connectQ (the_pool (notify_all (s\<lparr>the_pool := addConnection up (the_pool s)\<rparr>))))) +
            use_ids (clients (notify_all (s\<lparr>the_pool := addConnection up (the_pool s)\<rparr>))) +
            mset (deleted (the_pool (notify_all (s\<lparr>the_pool := addConnection up (the_pool s)\<rparr>)))) =
            mset [0 ..< next_id (the_pool (notify_all (s\<lparr>the_pool := addConnection up (the_pool s)\<rparr>)))]"
          using D(2) by (simp add: addConnection_def refreshAliveTime_def Let_def)
      qed (use D False size_use_ids [of "clients s"] in \<open>auto simp: addConnection_def refreshAliveTime_def Let_def sorted_append\<close>)
    qed
  next
    case producer_wakes
    then show ?thesis by (intro pool_invI) (use D in simp_all)
  next
    case (recycling p)
    obtain old q where q: "m_connectQ (the_pool s) = old @ q" "p = (the_pool s)\<lparr>m_connectQ := q, deleted := deleted (the_pool s) @ map conn_id old\<rparr>"
      "old \<noteq> [] \<longrightarrow> m_minSize cf \<le> int (length q)"
      using recycle_splits [OF min D(3)] recycling(2) by auto
    show ?thesis
      unfolding recycling(1)
    proof (rule pool_invI)
      show "producer_pc (s\<lparr>the_pool := p\<rparr>) = P_Waiting \<Longrightarrow> m_minSize cf \<le> int (length (m_connectQ (the_pool (s\<lparr>the_pool := p\<rparr>))))"
        using D(5) q by (cases "old = []") simp_all
    qed (use D q in \<open>auto simp: sorted_append ac_simps\<close>)
  next
    case (asking i)
    then show ?thesis using inv_client [OF inv] by simp
  next
    case (getting i)
    show ?thesis
    proof (cases "m_connectQ (the_pool s)")
      case Nil
      then show ?thesis using inv_client [OF inv getting(2)] getting by (simp add: getConnection_def)
    next
      case (Cons c q)
      have "use_ids ((clients s)[i := C_Has c]) = use_ids (clients s) + {#conn_id c#}"
        using use_ids_update [OF getting(2), of "C_Has c"] getting(3) by simp
      then show ?thesis
        unfolding getting(1) by (intro pool_invI) (use D Cons in \<open>simp_all add: getConnection_def\<close>)
    qed
  next
    case (timing_out i)
    then show ?thesis using inv_client [OF inv] by simp
  next
    case (giving_back i c)
    have "use_ids (clients s) = use_ids ((clients s)[i := C_Idle]) + {#conn_id c#}"
      using use_ids_update [OF giving_back(2), of "C_Idle"] giving_back(3) by simp
    then show ?thesis
      unfolding giving_back(1)
      by (intro pool_invI) (use D in \<open>auto simp: give_back_def refreshAliveTime_def Let_def sorted_append\<close>)
  next
    case (time_passes d)
    then show ?thesis by (intro pool_invI) (use D in \<open>auto simp: trans_le_add1\<close>)
  qed
qed

lemma pool_reachable_inv: "pool_reachable cf n s \<Longrightarrow> 0 \<le> m_minSize cf \<Longrightarrow> pool_inv cf n s"
  by (induction rule: pool_reachable.induct) (use start_pool_inv pool_step_inv in blast)+

section \<open>Properties\<close>

text \<open>C12: With a minimal size that is not negative, in every interleaving each connection that was ever made is in the queue, with exactly one client, or
  deleted, and none of them twice; no connection in use is ever deleted, and the queue stays in the order
  in which the connections were returned.\<close>

theorem connections_have_one_owner:
  assumes "pool_reachable cf n s" "0 \<le> m_minSize cf"
  shows "distinct (map conn_id (m_connectQ (the_pool s) @ in_use s) @ deleted (the_pool s)) \<and>
    set (map conn_id (m_connectQ (the_pool s) @ in_use s) @ deleted (the_pool s)) = {0 ..< next_id (the_pool s)} \<and>
    sorted (map m_alivetime (m_connectQ (the_pool s)))"
proof -
  let ?ids = "map conn_id (m_connectQ (the_pool s) @ in_use s) @ deleted (the_pool s)"
  have inv: "pool_inv cf n s" by (rule pool_reachable_inv [OF assms])
  then have ids: "mset ?ids = mset [0 ..< next_id (the_pool s)]"
    by (simp add: pool_inv_def open_ids_def Let_def add.assoc)
  have "distinct ?ids" using mset_eq_imp_distinct_iff [OF ids] by simp
  moreover have "set ?ids = {0 ..< next_id (the_pool s)}" using mset_eq_setD [OF ids] by simp
  ultimately show ?thesis using inv by (simp add: pool_inv_def Let_def)
qed

definition demo_settings :: settings where
  "demo_settings = \<lparr>m_minSize = 1, m_maxSize = 1, m_maxIdTime = 5000, m_timeout = 1000\<rparr>"

theorem connections_have_one_owner_witness:
  "distinct (map conn_id (m_connectQ (the_pool (new_pool 2 [True]))))"
  using connections_have_one_owner [OF pool_reachable.first, of "[True]" demo_settings 2] by (simp add: demo_settings_def)

text \<open>Recycling takes connections from the front as long as there are more than \<^verbatim>\<open>minSize\<close> and the front is old
  enough; since the queue is in the order of the returns, it removes every idle connection that is too
  old, unless only \<^verbatim>\<open>minSize\<close> are left, and no other.\<close>

theorem recycling_removes_the_expired_surplus:
  assumes "pool_reachable cf n s" "0 \<le> m_minSize cf"
  shows "\<exists>old q. m_connectQ (the_pool s) = old @ q \<and>
    recycle cf (the_pool s) = Inr ((the_pool s)\<lparr>m_connectQ := q, deleted := deleted (the_pool s) @ map conn_id old\<rparr>) \<and>
    (\<forall>c \<in> set old. m_maxIdTime cf \<le> getAliveTime (now (the_pool s)) c) \<and> (old \<noteq> [] \<longrightarrow> m_minSize cf \<le> int (length q)) \<and>
    (m_minSize cf < int (length q) \<longrightarrow> (\<forall>c \<in> set q. getAliveTime (now (the_pool s)) c < m_maxIdTime cf))"
  using recycle_splits [OF assms(2)] pool_reachable_inv [OF assms] by (simp add: pool_inv_def Let_def)

theorem recycling_removes_the_expired_surplus_witness:
  "\<exists>p. recycle demo_settings (the_pool (new_pool 2 [True])) = Inr p"
  using recycling_removes_the_expired_surplus [OF pool_reachable.first, of "[True]" demo_settings 2] by (auto simp: demo_settings_def)

text \<open>No wake-up is lost: when the queue is empty the producer is awake, and after its next section every
  client that asks, or was waiting, gets a connection.\<close>

theorem empty_queue_is_refilled:
  assumes "pool_reachable cf n s" "0 < m_minSize cf" "m_connectQ (the_pool s) = []"
    "i < length (clients s)" "clients s ! i = C_Asking \<or> clients s ! i = C_Waiting"
  shows "producer_pc s = P_Ready \<and> clients (produce cf up s) ! i = C_Asking \<and>
    (\<exists>c. clients (getConnection i (produce cf up s)) ! i = C_Has c)"
proof -
  have "pool_inv cf n s" using pool_reachable_inv [OF assms(1)] assms(2) by simp
  then have ready: "producer_pc s = P_Ready" using assms(2,3) by (cases "producer_pc s") (auto simp: pool_inv_def Let_def)
  have "clients (produce cf up s) ! i = C_Asking" using assms by (auto simp: produce_def notify_all_def)
  moreover have "m_connectQ (the_pool (produce cf up s)) \<noteq> []" "length (clients (produce cf up s)) = length (clients s)"
    using assms(2,3) by (simp_all add: produce_def addConnection_def Let_def)
  ultimately show ?thesis using ready assms(4)
    by (cases "m_connectQ (the_pool (produce cf up s))") (simp_all add: getConnection_def notify_all_def)
qed

definition drained :: psys where
  "drained = \<lparr>the_pool = \<lparr>m_connectQ = [], now = 0, next_id = 1, deleted = []\<rparr>, producer_pc = P_Ready,
     clients = [C_Has \<lparr>conn_id = 0, m_alivetime = 0, connected = False\<rparr>, C_Asking]\<rparr>"

lemma drained_reachable: "pool_reachable demo_settings 2 drained"
proof -
  let ?c = "\<lparr>conn_id = 0, m_alivetime = 0, connected = False\<rparr>"
  let ?s = "\<lambda>q cs. \<lparr>the_pool = \<lparr>m_connectQ = q, now = 0, next_id = 1, deleted = []\<rparr>, producer_pc = P_Ready, clients = cs\<rparr>"
  have "pool_reachable demo_settings 2 (new_pool 2 [False])"
    by (rule pool_reachable.first) (simp add: demo_settings_def)
  then have "pool_reachable demo_settings 2 (?s [?c] [C_Idle, C_Idle])"
    by (simp add: new_pool_def addConnection_def refreshAliveTime_def Let_def numeral_2_eq_2)
  then have "pool_reachable demo_settings 2 (?s [?c] [C_Asking, C_Idle])"
    by (rule pool_reachable.later) (use pool_step.asking [of 0 "?s [?c] [C_Idle, C_Idle]"] in simp)
  then have "pool_reachable demo_settings 2 (?s [] [C_Has ?c, C_Idle])"
    by (rule pool_reachable.later) (use pool_step.getting [of 0 "?s [?c] [C_Asking, C_Idle]"] in \<open>simp add: getConnection_def notify_all_def\<close>)
  then have "pool_reachable demo_settings 2 (?s [] [C_Has ?c, C_Asking])"
    by (rule pool_reachable.later) (use pool_step.asking [of 1 "?s [] [C_Has ?c, C_Idle]"] in simp)
  then show ?thesis by (simp add: drained_def)
qed

theorem empty_queue_is_refilled_witness:
  "\<exists>c. clients (getConnection 1 (produce demo_settings True drained)) ! 1 = C_Has c"
  using empty_queue_is_refilled [OF drained_reachable, of 1 True] by (simp add: demo_settings_def drained_def)

text \<open>The result of \<^verbatim>\<open>connect\<close> is not looked at: a client can be given a connection that was never made.\<close>

theorem failed_connection_is_handed_out:
  "\<exists>s c. pool_reachable demo_settings 2 s \<and> clients s ! 0 = C_Has c \<and> \<not> connected c"
  using drained_reachable by (intro exI [of _ drained]) (simp add: drained_def)

lemma use_all:
  assumes "0 < m_minSize cf" "k \<le> n"
  shows "\<exists>s. pool_reachable cf n s \<and> int (length (m_connectQ (the_pool s))) = m_minSize cf \<and> producer_pc s = P_Ready \<and>
    length (clients s) = n \<and> (\<forall>i < k. \<exists>c. clients s ! i = C_Has c) \<and> (\<forall>i < n. k \<le> i \<longrightarrow> clients s ! i = C_Idle)"
  using assms(2)
proof (induction k)
  case 0
  let ?ups = "replicate (nat (m_minSize cf)) True"
  have "pool_reachable cf n (new_pool n ?ups)" using assms(1) by (intro pool_reachable.first) simp
  moreover have "length (m_connectQ (the_pool (new_pool n ?ups))) = nat (m_minSize cf)"
    using fill_pool_fields [of ?ups "\<lparr>m_connectQ = [], now = 0, next_id = 0, deleted = []\<rparr>"] by (simp add: new_pool_def)
  ultimately show ?case using assms(1) by (intro exI [of _ "new_pool n ?ups"]) (simp add: new_pool_def)
next
  case (Suc k)
  then obtain s where s: "pool_reachable cf n s" "int (length (m_connectQ (the_pool s))) = m_minSize cf" "producer_pc s = P_Ready"
    "length (clients s) = n" "\<forall>i < k. \<exists>c. clients s ! i = C_Has c" "\<forall>i < n. k \<le> i \<longrightarrow> clients s ! i = C_Idle"
    by auto
  obtain c q where q: "m_connectQ (the_pool s) = c # q" using s(2) assms(1) by (cases "m_connectQ (the_pool s)") auto
  define s1 where "s1 = s\<lparr>clients := (clients s)[k := C_Asking]\<rparr>"
  define s2 where "s2 = getConnection k s1"
  define s3 where "s3 = produce cf True s2"
  have k: "k < length (clients s)" "clients s ! k = C_Idle" using Suc.prems s(4,6) by auto
  have "pool_reachable cf n s1" unfolding s1_def by (rule pool_reachable.later [OF s(1) pool_step.asking [OF k]])
  then have "pool_reachable cf n s2"
    unfolding s2_def by (rule pool_reachable.later) (rule pool_step.getting, use k in \<open>simp_all add: s1_def\<close>)
  moreover have s2: "m_connectQ (the_pool s2) = q" "producer_pc s2 = P_Ready"
    "clients s2 = map (\<lambda>c. case c of C_Waiting \<Rightarrow> C_Asking | _ \<Rightarrow> c) ((clients s)[k := C_Has c])"
    using q by (simp_all add: s2_def s1_def getConnection_def notify_all_def)
  ultimately have "pool_reachable cf n s3" unfolding s3_def by (intro pool_reachable.later [OF _ pool_step.producing])
  moreover have "int (length (m_connectQ (the_pool s3))) = m_minSize cf" "producer_pc s3 = P_Ready" "length (clients s3) = n"
    using s(2,4) q s2 by (simp_all add: s3_def produce_def addConnection_def Let_def)
  moreover have "clients s3 = map (\<lambda>c. case c of C_Waiting \<Rightarrow> C_Asking | _ \<Rightarrow> c) (clients s2)"
    using s(2) q s2(1) by (simp add: s3_def produce_def notify_all_def)
  then have "(\<forall>i < Suc k. \<exists>c. clients s3 ! i = C_Has c) \<and> (\<forall>i < n. Suc k \<le> i \<longrightarrow> clients s3 ! i = C_Idle)"
    using s(4,5,6) s2(3) k(1) by (auto simp: nth_list_update less_Suc_eq)
  ultimately show ?case by blast
qed

text \<open>The connections that are open at once, idle or in use, are at most \<^verbatim>\<open>minSize\<close> plus the number of clients,
  and as many can be open: \<^verbatim>\<open>maxSize\<close> is read from the configuration and never used.\<close>

theorem max_size_is_not_enforced:
  assumes "0 < m_minSize cf"
  shows "(\<forall>s. pool_reachable cf n s \<longrightarrow> int (size (open_ids s)) \<le> m_minSize cf + int n) \<and>
    (\<exists>s. pool_reachable cf n s \<and> int (size (open_ids s)) = m_minSize cf + int n)"
proof
  show "\<forall>s. pool_reachable cf n s \<longrightarrow> int (size (open_ids s)) \<le> m_minSize cf + int n"
    using pool_reachable_inv [of cf n] assms by (auto simp: pool_inv_def Let_def)
  obtain s where s: "pool_reachable cf n s" "int (length (m_connectQ (the_pool s))) = m_minSize cf" "length (clients s) = n"
    "\<forall>i < n. \<exists>c. clients s ! i = C_Has c"
    using use_all [OF assms order_refl] by blast
  have "size (use_ids cs) = length cs" if "\<forall>x \<in> set cs. \<exists>c. x = C_Has c" for cs
    using that by (induction cs) (auto simp: use_ids_def)
  then have "size (use_ids (clients s)) = n" using s(3,4) by (simp add: all_set_conv_all_nth)
  then have "int (size (open_ids s)) = m_minSize cf + int n" using s(2) by (simp add: open_ids_eq)
  then show "\<exists>s. pool_reachable cf n s \<and> int (size (open_ids s)) = m_minSize cf + int n" using s(1) by blast
qed

theorem max_size_is_not_enforced_witness:
  "\<exists>s. pool_reachable demo_settings 100 s \<and> size (open_ids s) = 101"
  using max_size_is_not_enforced [of demo_settings 100] by (auto simp: demo_settings_def)

end
