(* ===== verification/Spec2Isabelle.thy ===== *)
theory Spec2Isabelle
  imports Prelude StdContainers Httpd CgiScripts EpollServer DataStream CArray Iterators Vector
    FixedArray LinkedList ThreadPool CppPool StdPool IniFile Xml SelectServer BevServer EpollClient
    ReplyServers ReplyClient EdgeServer SocketClass Database BevExamples QuickSort MemoryOrders
    StackPrograms DetachedPool CountingMalloc FifoPrograms PrintServer EventPrograms Singletons
    Demos AtomicPrograms Promises SelectClient Logger LockFree Timers MemoryPool StackAlloc Json
    EchoServer RawVector EventHttp LookupTable ConnPool
begin

text \<open>
  A verification of the programs in this repository.

  The repository collects independent programs and libraries in C and C++.  Three groups carry its
  logic: servers and their clients (the web server \<^verbatim>\<open>tinyHttp/httpd.c\<close> with its CGI scripts, the web server
  on libevent, the servers on epoll, select, processes, threads and bufferevents), libraries (the serialiser,
  the containers, the memory pool, JSON values, XML elements, configuration files, the logger, the timers,
  the socket class, the database connection) and concurrent components (four thread pools, the pool of
  connections, the lookup table, the lock-free structures, the programs on memory orders, the parallel sort).

  Where components meet, the theories compose them: tinyHttp runs the CGI scripts through an environment and
  a pipe; the containers share loops over arrays and iterators; the stack of \<^verbatim>\<open>MemoryPool/\<close> takes its nodes
  from the pool; the clients of the socket exercises talk to their servers; the exercises on the
  lock-free stack run it; the demonstrations run the libraries.  Everything else stands alone.

  \<^bold>\<open>Conventions\<close> (theory \<open>Prelude\<close>).  A function that can throw, exit or run into undefined behaviour
  returns \<open>cpp_error + 'a\<close>, where the constructor of the error names what happened.  State is passed
  explicitly, as a record with the fields of the struct or class and, where a component talks to the
  system, with what it has sent, printed or opened.  Heap objects live at addresses of a map in which a
  freed address is absent.  Threads are program counters at the points where a thread can be interrupted;
  a system is a step relation over the shared state and the list of program counters, and its invariants
  hold by rule induction.  Integers that can leave their range are words or written with their wrap-around;
  an \<^verbatim>\<open>int\<close> whose overflow is undefined is compared with \<open>INT_MAX\<close>, and beyond it the result is \<open>Signed_Overflow\<close>
  or, in \<open>DataStream\<close>, a flag that stays set.  Where a thread can do something the language gives no meaning to and the
  machine goes on, a flag of the state records it: \<open>undefined_access\<close> of \<open>ThreadPool\<close> (the array of thread identifiers has
  100 places), \<open>raced\<close> of \<open>Promises\<close> (an unsynchronised map); theorems say for which runs it stays false.

  \<^bold>\<open>Theories and sources.\<close>
  \<^item> \<open>Prelude\<close>: results, lists as memory, C strings, \<^verbatim>\<open>ctype.h\<close>, \<^verbatim>\<open>atoi\<close>, decimal printing, doubling, counting threads at
    a point of their program.
  \<^item> \<open>StdContainers\<close>: \<^verbatim>\<open>std::map\<close> as an association list in key order, with the contract \<open>std_map\<close> that
    \<open>IniFile\<close> and \<open>Json\<close> rely on.
  \<^item> \<open>Httpd\<close> (\<^verbatim>\<open>tinyHttp/httpd.c\<close>): \<open>conn\<close> is a connection with the bytes still to be read and those
    sent; \<open>get_line\<close>, \<open>accept_request\<close>, \<open>serve_file\<close>, \<open>execute_cgi\<close> and the error pages are the functions of
    the same names; file system and scripts are inputs.  Lemmas: what each kind of request is answered,
    which buffers can overflow and by which requests, when the socket is closed.
  \<^item> \<open>CgiScripts\<close> (\<^verbatim>\<open>tinyHttp/htdocs/check.c\<close>, \<^verbatim>\<open>color.c\<close>): decoding of parameters, and their composition
    with the environment that \<open>Httpd\<close> builds.
  \<^item> \<open>EpollServer\<close> (\<^verbatim>\<open>epoll/main.c\<close>): event table, callbacks, time-out scan and event loop against a kernel
    with an interest list.  \<open>EchoServer\<close> (\<^verbatim>\<open>epoll/epoll_server.cpp\<close>): the edge triggered server; how much
    every \<open>send\<close> on a non-blocking socket takes (\<open>e_takes\<close>) and whether \<open>epoll_ctl\<close> succeeds are inputs, and a
    descriptor it failed for stays open and unwatched (\<open>e_unwatched\<close>).
  \<^item> \<open>EpollClient\<close> (\<^verbatim>\<open>epoll/epoll_client.cpp\<close>): the two processes of the client, the pipe between them and the
    socket.  Lemmas: typed lines reach the server in order, how the client ends, which end it does not notice.
  \<^item> \<open>SelectServer\<close> (\<^verbatim>\<open>select/server.c\<close>): descriptor set, accept thread and one thread per event.  Lemmas: which
    descriptors are lost and why no accepted client is answered.  \<open>SelectClient\<close> (\<^verbatim>\<open>select/client.c\<close>): what its
    client prints, and that each of its messages overruns the server.
  \<^item> \<open>ReplyServers\<close> (the socket exercises with a process and with a thread per client), \<open>ReplyClient\<close> (their client)
    and \<open>EdgeServer\<close> (the exercise on edge triggered epoll).  The locale \<open>reply_host\<close> states what a host of
    conversations does, whether it forks or starts threads.  Lemmas: every message is answered, the number of
    zombies, the conversation of client and server, no unread byte without an event.
  \<^item> \<open>SocketClass\<close> (\<^verbatim>\<open>server-client/socket.cpp\<close>, its server and client): who closes which descriptor.
  \<^item> \<open>BevServer\<close> (\<^verbatim>\<open>libevent/bufferevent_read_write.c\<close>: upper case, proxy and Fibonacci server), \<open>BevExamples\<close>
    (\<^verbatim>\<open>bufferevent_application.c\<close>, \<^verbatim>\<open>event_listen.c\<close>, \<^verbatim>\<open>event_hello_world.c\<close>) and \<open>PrintServer\<close>
    (\<^verbatim>\<open>event_server.c\<close>): what the callbacks make of the input however it is cut into reads.  The locale
    \<open>bev_server\<close> carries an invariant of one connection to every connection; it has four interpretations.
  \<^item> \<open>FifoPrograms\<close> (\<^verbatim>\<open>libevent/pipe.c\<close>, \<^verbatim>\<open>write_pipe.c\<close>, \<^verbatim>\<open>socket.c\<close>, \<^verbatim>\<open>event_client.c\<close>): the two programs
    at each end of a named pipe, composed.  \<open>EventPrograms\<close> (\<^verbatim>\<open>event_new.c\<close>, \<^verbatim>\<open>event_priority.c\<close>,
    \<^verbatim>\<open>event_debug.c\<close>, \<^verbatim>\<open>event_pending.c\<close>, \<^verbatim>\<open>event_loopbreak.c\<close>): set-up and clean-up on every failure, and which
    loops never wait (locale \<open>spinning\<close>).  \<open>CountingMalloc\<close> (\<^verbatim>\<open>libevent/event_mem.c\<close>): the total is the sum of
    the blocks in use, up to the wrap-around of sizes.
  \<^item> \<open>EventHttp\<close> (\<^verbatim>\<open>libevent/event_http.c\<close>): options, request handler and life of the web server on libevent;
    libevent is represented by the calls the code makes.  Lemmas: which files are served, how the process ends.
  \<^item> \<open>DataStream\<close> (\<^verbatim>\<open>cpp-serialize/DataStream.h\<close>): buffer and cursor, a writer and a reader per type; the
    locale \<open>codec\<close> states what a writer and a reader owe each other and \<open>map_codec\<close> the same for maps.
  \<^item> \<open>CArray\<close>, \<open>Iterators\<close>, \<open>Vector\<close> (\<^verbatim>\<open>vector/version02\<close>), \<open>FixedArray\<close> (\<^verbatim>\<open>array/\<close>), \<open>LinkedList\<close> (\<^verbatim>\<open>list/\<close>): the
    containers, each refined to lists; an argument \<^verbatim>\<open>const T &\<close> may lie inside the container; the locale \<open>random_iterator\<close> is interpreted for the six iterators.
  \<^item> \<open>RawVector\<close> (\<^verbatim>\<open>vector/version03\<close>): the vector over an allocator, with the beginning and end of the life of
    every element, refined to lists; which assignments and insertions lose or misread elements.
  \<^item> \<open>ThreadPool\<close> (\<^verbatim>\<open>ThreadPool_C_C++/C\<close>), \<open>CppPool\<close> (\<^verbatim>\<open>ThreadPool_C_C++/C++\<close>), \<open>StdPool\<close> (\<^verbatim>\<open>ThreadPoll.hpp\<close>) and
    \<open>DetachedPool\<close> (\<^verbatim>\<open>threadpool.h\<close>): the four pools; the ring buffer is an interpretation of \<open>bounded_queue\<close>.
    Lemmas: mutual exclusion and counts, which tasks run, whether the destructor returns, lost wake-ups.
    In \<open>ThreadPool\<close> the outcome of every \<open>pthread_create\<close> is an input, and a thread that could not be created is counted as alive.
  \<^item> \<open>LockFree\<close> (\<^verbatim>\<open>compare_exchange_weak_cpp\<close>): counter, spin lock and stack on compare and exchange;
    \<open>StackPrograms\<close>: the test programs of the stack and the exercise that copies it, whose
    head is null or indeterminate, as the version of the language makes it.
  \<^item> \<open>MemoryOrders\<close> (the programs on \<^verbatim>\<open>std::memory_order\<close>): which values loads may return under relaxed and under sequentially
    consistent order, and the assertions of the programs.  \<open>QuickSort\<close> (\<^verbatim>\<open>fnProgram.cpp\<close>): the sequential sort sorts, the parallel one returns the same list.
    \<open>AtomicPrograms\<close>: the programs with an atomic pointer, a mutex and an \<^verbatim>\<open>atomic_flag\<close>.
  \<^item> \<open>Promises\<close> (\<^verbatim>\<open>promise.cpp\<close>, \<^verbatim>\<open>promiseException.cpp\<close>, \<^verbatim>\<open>duration.cpp\<close>): shared states, the senders
    as interleaved turns, kept and broken promises, the wait with a time-out.
  \<^item> \<open>Singletons\<close> (\<^verbatim>\<open>singleTon\<close>): the static instance under overlapping calls.
  \<^item> \<open>Demos\<close>: the demonstrations of the list, the configuration files, JSON, XML and the serialiser, run over the
    theories of their libraries; on \<^verbatim>\<open>demo.ini\<close> the model writes the \<^verbatim>\<open>save.ini\<close> of the repository.
  \<^item> \<open>LookupTable\<close> (\<^verbatim>\<open>threadsafe_look_up.cpp\<close>): the hash table with a lock per bucket, against a map and in every
    interleaving: waiting for the lock, the statements under it, the unlock and the return are steps of their own, and
    the order of the moments at which calls take effect is recorded as a trace; it and \<^verbatim>\<open>std::map\<close> are the interpretations of the locale \<open>dictionary\<close>.
  \<^item> \<open>ConnPool\<close> (\<^verbatim>\<open>mysql_connect_pool/src/connectPool.cpp\<close>): producer, recycler and clients of the pool of connections;
    who owns a connection, how many are open, what is recycled.
    \<open>Database\<close> (\<^verbatim>\<open>databaseConnect.cpp\<close>): queries, rows and transactions over a parameter for the client library.
  \<^item> \<open>IniFile\<close> (\<^verbatim>\<open>ini-parse\<close>), \<open>Logger\<close> (\<^verbatim>\<open>logger\<close>), \<open>Timers\<close> (\<^verbatim>\<open>Timer/version01\<close>, \<^verbatim>\<open>version02\<close>), \<open>Json\<close> (\<^verbatim>\<open>json\<close>),
    \<open>Xml\<close> (\<^verbatim>\<open>xml\<close>): elements as nodes of a heap, refined to trees.
  \<^item> \<open>MemoryPool\<close> and \<open>StackAlloc\<close> (\<^verbatim>\<open>MemoryPool/C++11\<close>): the block allocator over addresses, and the stack
    over the contract \<open>stack_allocator\<close>, which the pool and \<^verbatim>\<open>std::allocator\<close> fulfil.

  \<^bold>\<open>Bounds and fuel.\<close>  Loops that end have termination proofs.  A loop that may not end is a
  \<open>partial_function\<close> whose value \<open>None\<close> stands for not returning; theorems say when it returns.  Two
  functions take fuel: \<open>json_str\<close>, for which one unit more than the next free address is enough, since no
  value contains itself, and \<open>print_range\<close>, for which one unit more than the number of elements is enough.  The recursive
  members of \<open>Xml\<close> take the number of nested calls the stack has room for, and running out is an error.  Steps are
  counted where the number is part of the claim: the demonstration of the stack exercise ends in \<open>n * n + 10 * n + 6\<close>
  steps, the parallel sort in \<open>3 * n + 1\<close>.

  \<^bold>\<open>Parameters.\<close>  What the source only calls is an argument or an input: the results of system calls, the files
  and scripts of the web server, the client library of the database, the decisions of libevent and of the
  scheduler (any order of the enabled steps).

  \<^bold>\<open>Not modelled.\<close>  \<^verbatim>\<open>libevent/bufferevent.c\<close>, \<^verbatim>\<open>event_base.c\<close> and \<^verbatim>\<open>event_loopexit.c\<close> only call the library;
  \<^verbatim>\<open>ServerSocket\<close> and \<^verbatim>\<open>ClientSocket\<close> of \<^verbatim>\<open>server-client\<close>, \<^verbatim>\<open>asString\<close> and \<^verbatim>\<open>remove\<close> of \<^verbatim>\<open>json.cpp\<close>, \<^verbatim>\<open>attr\<close> of
  \<^verbatim>\<open>xml.cpp\<close> and the other two iterators of \<^verbatim>\<open>list\<close> do not compile; \<^verbatim>\<open>vector/version01\<close> is pseudo-code; the C++98
  memory pool has the statements of the C++11 one; the benchmarks time insertions; the other mains of the pools and
  \<^verbatim>\<open>simpleclient.c\<close> are a call or two; \<^verbatim>\<open>atomic_counter_demo08.cpp\<close> has the loop of the counter in \<open>LockFree\<close>; the remaining
  exercises of the chapters are mains of a few lines around one class of the standard library.
\<close>

end
